(* ===== verification/Prelude.thy ===== *)
theory Prelude
  imports Main "HOL-Library.Word" "HOL-Library.Multiset"
begin

text \<open>
  Shared vocabulary of the development: the result type of fallible Rust code, the
  integer types of the crate (\<open>Label\<close>, \<open>StateId\<close>, see \<open>rustfst/src/lib.rs\<close>),
  bounds-checked access to a \<open>Vec\<close>, and the generic list lemmas the components use.
\<close>

unbundle bit_operations_syntax

named_theorems res_simps \<open>rewrite rules for results\<close>
named_theorems vec_simps \<open>rewrite rules for bounds-checked vector access\<close>

subsection \<open>Results\<close>

text \<open>
  \<open>anyhow::Result\<close> carries an error raised by \<open>bail!\<close>, \<open>ensure!\<close> or \<open>?\<close>; a panic
  (\<open>unwrap\<close> on an error, an index out of range, \<open>panic!\<close>) ends the computation as well.
  Both are values here. Messages keep the constant part of the source's message.
\<close>

datatype rust_error = Bail string | Panic string

type_synonym 'a res = "rust_error + 'a"

definition rbind :: "'a res \<Rightarrow> ('a \<Rightarrow> 'b res) \<Rightarrow> 'b res" where
  "rbind m f = (case m of Inl e \<Rightarrow> Inl e | Inr a \<Rightarrow> f a)"

text \<open>\<open>Result::unwrap\<close>: an error becomes a panic, a panic stays one.\<close>

definition runwrap :: "'a res \<Rightarrow> 'a res" where
  "runwrap m = (case m of Inl (Bail e) \<Rightarrow> Inl (Panic e) | Inl (Panic e) \<Rightarrow> Inl (Panic e) | Inr a \<Rightarrow> Inr a)"

definition is_ok :: "'a res \<Rightarrow> bool" where
  "is_ok m = (case m of Inl _ \<Rightarrow> False | Inr _ \<Rightarrow> True)"

text \<open>A \<open>for\<close> loop whose body may fail with \<open>?\<close>: it stops at the first error.\<close>

fun for_res :: "('a \<Rightarrow> 's \<Rightarrow> 's res) \<Rightarrow> 'a list \<Rightarrow> 's \<Rightarrow> 's res" where
  "for_res f [] s = Inr s"
| "for_res f (x # xs) s = rbind (f x s) (for_res f xs)"

fun map_res :: "('a \<Rightarrow> 'b res) \<Rightarrow> 'a list \<Rightarrow> 'b list res" where
  "map_res f [] = Inr []"
| "map_res f (x # xs) = rbind (f x) (\<lambda>y. rbind (map_res f xs) (\<lambda>ys. Inr (y # ys)))"

lemma rbind_Inl [simp, res_simps]: "rbind (Inl e) f = Inl e"
  and rbind_Inr [simp, res_simps]: "rbind (Inr a) f = f a"
  by (simp_all add: rbind_def)

lemma rbind_eq_Inr: "rbind m f = Inr y \<longleftrightarrow> (\<exists>x. m = Inr x \<and> f x = Inr y)"
  by (cases m) auto

lemma rbind_eq_Inl: "rbind m f = Inl e \<longleftrightarrow> m = Inl e \<or> (\<exists>x. m = Inr x \<and> f x = Inl e)"
  by (cases m) auto

lemma rbind_cong [fundef_cong]:
  "m = m' \<Longrightarrow> (\<And>x. m' = Inr x \<Longrightarrow> f x = g x) \<Longrightarrow> rbind m f = rbind m' g"
  by (cases m') auto

lemma rbind_assoc [simp]: "rbind (rbind m f) g = rbind m (\<lambda>x. rbind (f x) g)"
  by (cases m) auto

lemma rbind_ret [simp]: "rbind m Inr = m"
  by (cases m) auto

lemma is_ok_simps [simp, res_simps]: "is_ok (Inl e) = False" "is_ok (Inr a) = True"
  by (simp_all add: is_ok_def)

lemma is_ok_iff: "is_ok m \<longleftrightarrow> (\<exists>a. m = Inr a)"
  by (cases m) auto

lemma runwrap_Inr [simp, res_simps]: "runwrap (Inr a) = Inr a"
  by (simp add: runwrap_def)

lemma runwrap_eq_Inr [simp]: "runwrap m = Inr a \<longleftrightarrow> m = Inr a"
  by (auto simp: runwrap_def split: sum.splits rust_error.splits)

lemma for_res_append: "for_res f (xs @ ys) s = rbind (for_res f xs s) (for_res f ys)"
  by (induction xs arbitrary: s) (auto simp: rbind_def split: sum.splits)

lemma for_res_total:
  assumes "\<And>x s. f x s = Inr (g x s)"
  shows "for_res f xs s = Inr (fold g xs s)"
  by (induction xs arbitrary: s) (auto simp: assms)

text \<open>The invariant rule of such a loop.\<close>

lemma for_res_inv:
  assumes "for_res f xs s = Inr t" and "P s"
    and "\<And>x s t. x \<in> set xs \<Longrightarrow> P s \<Longrightarrow> f x s = Inr t \<Longrightarrow> P t"
  shows "P t"
  using assms
proof (induction xs arbitrary: s)
  case Nil
  then show ?case by simp
next
  case (Cons x xs)
  from Cons.prems(1) obtain u where u: "f x s = Inr u" "for_res f xs u = Inr t"
    by (auto simp: rbind_eq_Inr)
  from Cons.prems(2,3) u(1) have "P u" by (meson list.set_intros(1))
  with Cons.IH [OF u(2)] Cons.prems(3) show ?case by (meson list.set_intros(2))
qed

lemma map_res_total:
  assumes "\<And>x. x \<in> set xs \<Longrightarrow> f x = Inr (g x)"
  shows "map_res f xs = Inr (map g xs)"
  using assms by (induction xs) auto

lemma map_res_Inr_length: "map_res f xs = Inr ys \<Longrightarrow> length ys = length xs"
  by (induction xs arbitrary: ys) (auto simp: rbind_eq_Inr)

subsection \<open>Labels and state ids\<close>

text \<open>
  \<open>Label\<close> is \<open>u32\<close> (the default feature \<open>state-label-u32\<close>): a 32-bit word, compared
  unsigned. A \<open>StateId\<close> is an index into the vector of states; it is a natural number
  here, which is what \<open>as StateId\<close> and \<open>as usize\<close> compute as long as an FST has at most
  \<open>2 ^ 32\<close> states, and a state table at most as many entries. Where the code keeps a state id or a component
  number in an \<open>i32\<close> (\<open>del_states\<close>, \<open>SccQueue\<close>, the visitors), it is an \<open>int\<close>, which is what \<open>as i32\<close>
  computes below \<open>2 ^ 31\<close>.
\<close>

type_synonym label = "32 word"
type_synonym state_id = nat

definition EPS_LABEL :: label where "EPS_LABEL = 0"
definition NO_LABEL :: label where "NO_LABEL = 4294967295"

lemma EPS_NO_LABEL [simp]: "EPS_LABEL \<noteq> NO_LABEL" "NO_LABEL \<noteq> EPS_LABEL"
  by (simp_all add: EPS_LABEL_def NO_LABEL_def)

lemma NO_LABEL_minus_one: "NO_LABEL = - 1"
  by (simp add: NO_LABEL_def)

subsection \<open>Vectors\<close>

text \<open>\<open>Vec::get\<close> and a panicking index \<open>v[i]\<close>.\<close>

definition vec_get :: "'a list \<Rightarrow> nat \<Rightarrow> 'a option" where
  "vec_get xs i = (if i < length xs then Some (xs ! i) else None)"

definition vec_index :: "'a list \<Rightarrow> nat \<Rightarrow> 'a res" where
  "vec_index xs i = (if i < length xs then Inr (xs ! i) else Inl (Panic ''index out of bounds''))"

definition vec_set :: "'a list \<Rightarrow> nat \<Rightarrow> 'a \<Rightarrow> 'a list res" where
  "vec_set xs i v = (if i < length xs then Inr (xs[i := v]) else Inl (Panic ''index out of bounds''))"

text \<open>\<open>Vec::remove\<close> shifts the tail left; \<open>Vec::swap\<close> exchanges two elements.\<close>

definition vec_remove :: "'a list \<Rightarrow> nat \<Rightarrow> 'a list" where
  "vec_remove xs i = take i xs @ drop (Suc i) xs"

definition vec_swap :: "'a list \<Rightarrow> nat \<Rightarrow> nat \<Rightarrow> 'a list" where
  "vec_swap xs i j = xs[i := xs ! j, j := xs ! i]"

lemma vec_get_Some [simp, vec_simps]: "vec_get xs i = Some x \<longleftrightarrow> i < length xs \<and> xs ! i = x"
  by (auto simp: vec_get_def)

lemma vec_get_None [simp, vec_simps]: "vec_get xs i = None \<longleftrightarrow> length xs \<le> i"
  by (auto simp: vec_get_def)

lemma vec_index_Inr [simp, vec_simps]: "vec_index xs i = Inr x \<longleftrightarrow> i < length xs \<and> xs ! i = x"
  by (auto simp: vec_index_def)

lemma vec_set_Inr [simp, vec_simps]: "vec_set xs i v = Inr ys \<longleftrightarrow> i < length xs \<and> ys = xs[i := v]"
  by (auto simp: vec_set_def)

lemma set_vec_remove: "set (vec_remove xs i) \<subseteq> set xs"
  by (auto simp: vec_remove_def dest: in_set_takeD in_set_dropD)

lemma length_vec_remove: "i < length xs \<Longrightarrow> length (vec_remove xs i) = length xs - 1"
  by (auto simp: vec_remove_def)

lemma mset_vec_remove: "i < length xs \<Longrightarrow> mset (vec_remove xs i) = mset xs - {# xs ! i #}"
proof -
  assume i: "i < length xs"
  then have "mset xs = mset (take i xs @ xs ! i # drop (Suc i) xs)"
    by (simp add: id_take_nth_drop [symmetric])
  then show ?thesis by (simp add: vec_remove_def)
qed

lemma length_vec_swap [simp]: "length (vec_swap xs i j) = length xs"
  by (simp add: vec_swap_def)

lemma nth_vec_swap:
  "i < length xs \<Longrightarrow> j < length xs \<Longrightarrow>
   vec_swap xs i j ! k = (if k = j then xs ! i else if k = i then xs ! j else xs ! k)"
  by (cases "k < length xs") (auto simp: vec_swap_def nth_list_update not_less list_update_beyond)

subsection \<open>Generic list lemmas\<close>

lemma sorted_wrt_vec_remove: "sorted_wrt P xs \<Longrightarrow> sorted_wrt P (vec_remove xs i)"
proof (cases "i < length xs")
  case True
  assume "sorted_wrt P xs"
  then have "sorted_wrt P (take i xs @ xs ! i # drop (Suc i) xs)"
    using True by (simp add: id_take_nth_drop [symmetric])
  then show ?thesis by (auto simp: vec_remove_def sorted_wrt_append)
next
  case False
  assume "sorted_wrt P xs"
  with False show ?thesis by (simp add: vec_remove_def)
qed

lemma distinct_vec_remove: "distinct xs \<Longrightarrow> distinct (vec_remove xs i)"
  by (simp add: vec_remove_def set_take_disj_set_drop_if_distinct)

lemma mset_sort_key_filter: "mset (sort_key f xs) = mset xs"
  by simp

lemma nth_upd: "k < length xs \<Longrightarrow> xs[i := x] ! k = (if k = i then x else xs ! k)"
  by (cases "i = k") auto

lemma list_update_map_nth:
  "i < length xs \<Longrightarrow> f (xs ! i) = f v \<Longrightarrow> map f (xs[i := v]) = map f xs"
  by (metis list_update_id map_update)

end
