(* ===== verification/Semiring.thy ===== *)
theory Semiring
  imports Prelude
begin

text \<open>
  The trait \<open>Semiring\<close> (\<open>semirings/semiring.rs\<close>) as a dictionary of operations, the flags
  \<open>SemiringProperties\<close> a weight type declares, what each flag promises, and locales for the
  algebraic structure that generic algorithms rely on.
\<close>

subsection \<open>The trait\<close>

text \<open>
  \<open>plus\<close> and \<open>times\<close> return \<open>Result\<close>: the restricted string semiring fails on unequal
  arguments. \<open>eq_w\<close> is \<open>PartialEq::eq\<close>, which \<open>is_zero\<close> and \<open>is_one\<close> use.
\<close>

type_synonym semiring_props = "32 word"

definition LEFT_SEMIRING :: semiring_props where "LEFT_SEMIRING = 0b00001"
definition RIGHT_SEMIRING :: semiring_props where "RIGHT_SEMIRING = 0b00010"
definition COMMUTATIVE :: semiring_props where "COMMUTATIVE = 0b00100"
definition IDEMPOTENT :: semiring_props where "IDEMPOTENT = 0b01000"
definition PATH :: semiring_props where "PATH = 0b10000"
definition SEMIRING :: semiring_props where "SEMIRING = LEFT_SEMIRING OR RIGHT_SEMIRING"

lemmas semiring_flag_defs =
  LEFT_SEMIRING_def RIGHT_SEMIRING_def COMMUTATIVE_def IDEMPOTENT_def PATH_def SEMIRING_def

record 'w semiring =
  zero_w :: 'w
  one_w :: 'w
  plus_w :: "'w \<Rightarrow> 'w \<Rightarrow> 'w res"
  times_w :: "'w \<Rightarrow> 'w \<Rightarrow> 'w res"
  eq_w :: "'w \<Rightarrow> 'w \<Rightarrow> bool"
  props_w :: semiring_props

definition is_one :: "'w semiring \<Rightarrow> 'w \<Rightarrow> bool" where
  "is_one W w = eq_w W w (one_w W)"

definition is_zero :: "'w semiring \<Rightarrow> 'w \<Rightarrow> bool" where
  "is_zero W w = eq_w W w (zero_w W)"

text \<open>The test \<open>!w.is_zero() && !w.is_one()\<close> that decides whether a weight is trivial.\<close>

definition nontrivial :: "'w semiring \<Rightarrow> 'w \<Rightarrow> bool" where
  "nontrivial W w \<longleftrightarrow> \<not> is_zero W w \<and> \<not> is_one W w"

datatype divide_type = DivideLeft | DivideRight | DivideAny

subsection \<open>What the declared flags promise\<close>

definition declares :: "'w semiring \<Rightarrow> semiring_props \<Rightarrow> bool" where
  "declares W F \<longleftrightarrow> props_w W AND F = F"

text \<open>
  Two results agree if they are equal whenever both sides are defined. Totality is a
  separate property (\<open>total_ops\<close>), so agreement is not obtained from failing.
\<close>

definition agree :: "'w semiring \<Rightarrow> 'w res \<Rightarrow> 'w res \<Rightarrow> bool" where
  "agree W x y \<longleftrightarrow> (\<forall>a b. x = Inr a \<longrightarrow> y = Inr b \<longrightarrow> eq_w W a b)"

definition total_ops :: "'w semiring \<Rightarrow> bool" where
  "total_ops W \<longleftrightarrow> (\<forall>a b. is_ok (plus_w W a b) \<and> is_ok (times_w W a b))"

text \<open>The documented meaning of each flag (\<open>semiring.rs\<close>, lines 14 to 27).\<close>

definition law_left :: "'w semiring \<Rightarrow> bool" where
  "law_left W \<longleftrightarrow> (\<forall>a b c. agree W
     (rbind (plus_w W a b) (times_w W c))
     (rbind (times_w W c a) (\<lambda>x. rbind (times_w W c b) (plus_w W x))))"

definition law_right :: "'w semiring \<Rightarrow> bool" where
  "law_right W \<longleftrightarrow> (\<forall>a b c. agree W
     (rbind (plus_w W a b) (\<lambda>s. times_w W s c))
     (rbind (times_w W a c) (\<lambda>x. rbind (times_w W b c) (plus_w W x))))"

definition law_commutative :: "'w semiring \<Rightarrow> bool" where
  "law_commutative W \<longleftrightarrow> (\<forall>a b. agree W (times_w W a b) (times_w W b a))"

definition law_idempotent :: "'w semiring \<Rightarrow> bool" where
  "law_idempotent W \<longleftrightarrow> (\<forall>a. agree W (plus_w W a a) (Inr a))"

definition law_path :: "'w semiring \<Rightarrow> bool" where
  "law_path W \<longleftrightarrow> (\<forall>a b c. plus_w W a b = Inr c \<longrightarrow> eq_w W c a \<or> eq_w W c b)"

definition flags_sound :: "'w semiring \<Rightarrow> bool" where
  "flags_sound W \<longleftrightarrow>
     (declares W LEFT_SEMIRING \<longrightarrow> law_left W) \<and>
     (declares W RIGHT_SEMIRING \<longrightarrow> law_right W) \<and>
     (declares W COMMUTATIVE \<longrightarrow> law_commutative W) \<and>
     (declares W IDEMPOTENT \<longrightarrow> law_idempotent W) \<and>
     (declares W PATH \<longrightarrow> law_path W)"

text \<open>
  The laws as equations between results, errors included; what the algorithms need beside the flags.
\<close>

definition sum_laws :: "'w semiring \<Rightarrow> 'w \<Rightarrow> 'w \<Rightarrow> 'w \<Rightarrow> bool" where
  "sum_laws W a b c \<longleftrightarrow>
     plus_w W (zero_w W) a = Inr a \<and> plus_w W a (zero_w W) = Inr a \<and> plus_w W a a = Inr a \<and>
     plus_w W a b = plus_w W b a \<and>
     rbind (plus_w W a b) (\<lambda>x. plus_w W x c) = rbind (plus_w W b c) (plus_w W a)"

definition product_laws :: "'w semiring \<Rightarrow> 'w \<Rightarrow> 'w \<Rightarrow> 'w \<Rightarrow> bool" where
  "product_laws W a b c \<longleftrightarrow>
     times_w W (one_w W) a = Inr a \<and> times_w W a (one_w W) = Inr a \<and>
     times_w W (zero_w W) a = Inr (zero_w W) \<and> times_w W a (zero_w W) = Inr (zero_w W) \<and>
     rbind (times_w W a b) (\<lambda>x. times_w W x c) = rbind (times_w W b c) (times_w W a)"

definition distributes_left :: "'w semiring \<Rightarrow> 'w \<Rightarrow> 'w \<Rightarrow> 'w \<Rightarrow> bool" where
  "distributes_left W a b c \<longleftrightarrow> rbind (plus_w W a b) (times_w W c) =
     rbind (times_w W c a) (\<lambda>x. rbind (times_w W c b) (plus_w W x))"

definition distributes_right :: "'w semiring \<Rightarrow> 'w \<Rightarrow> 'w \<Rightarrow> 'w \<Rightarrow> bool" where
  "distributes_right W a b c \<longleftrightarrow> rbind (plus_w W a b) (\<lambda>x. times_w W x c) =
     rbind (times_w W a c) (\<lambda>x. rbind (times_w W b c) (plus_w W x))"

lemmas law_defs = law_left_def law_right_def law_commutative_def law_idempotent_def law_path_def

text \<open>The distributive laws spelled out on the intermediate results.\<close>

lemma law_leftI:
  assumes "\<And>a b c s x p q y. plus_w W a b = Inr s \<Longrightarrow> times_w W c s = Inr x \<Longrightarrow> times_w W c a = Inr p \<Longrightarrow>
     times_w W c b = Inr q \<Longrightarrow> plus_w W p q = Inr y \<Longrightarrow> eq_w W x y"
  shows "law_left W"
  unfolding law_left_def agree_def by (auto simp: rbind_eq_Inr intro: assms)

lemma law_leftD:
  "law_left W \<Longrightarrow> plus_w W a b = Inr s \<Longrightarrow> times_w W c s = Inr x \<Longrightarrow> times_w W c a = Inr p \<Longrightarrow>
     times_w W c b = Inr q \<Longrightarrow> plus_w W p q = Inr y \<Longrightarrow> eq_w W x y"
  unfolding law_left_def agree_def by (metis rbind_Inr)

lemma law_rightI:
  assumes "\<And>a b c s x p q y. plus_w W a b = Inr s \<Longrightarrow> times_w W s c = Inr x \<Longrightarrow> times_w W a c = Inr p \<Longrightarrow>
     times_w W b c = Inr q \<Longrightarrow> plus_w W p q = Inr y \<Longrightarrow> eq_w W x y"
  shows "law_right W"
  unfolding law_right_def agree_def by (auto simp: rbind_eq_Inr intro: assms)

lemma law_rightD:
  "law_right W \<Longrightarrow> plus_w W a b = Inr s \<Longrightarrow> times_w W s c = Inr x \<Longrightarrow> times_w W a c = Inr p \<Longrightarrow>
     times_w W b c = Inr q \<Longrightarrow> plus_w W p q = Inr y \<Longrightarrow> eq_w W x y"
  unfolding law_right_def agree_def by (metis rbind_Inr)

subsection \<open>The algebra generic algorithms use\<close>

text \<open>
  \<open>weight_monoids\<close>: the two operations never fail and each is a monoid, \<open>plus\<close> commutative,
  zero annihilating; equality is the equality of values. This is what the trait's doc comment
  asks for without distributivity, which each side's flag adds.
\<close>

locale weight_monoids =
  fixes W :: "'w semiring"
    and add :: "'w \<Rightarrow> 'w \<Rightarrow> 'w"
    and mul :: "'w \<Rightarrow> 'w \<Rightarrow> 'w"
  assumes plus_ok: "plus_w W a b = Inr (add a b)"
    and times_ok: "times_w W a b = Inr (mul a b)"
    and eq_ok: "eq_w W a b \<longleftrightarrow> a = b"
    and add_assoc: "add (add a b) c = add a (add b c)"
    and add_commute: "add a b = add b a"
    and add_zero: "add (zero_w W) a = a"
    and mul_assoc: "mul (mul a b) c = mul a (mul b c)"
    and mul_one_left: "mul (one_w W) a = a"
    and mul_one_right: "mul a (one_w W) = a"
    and mul_zero_left: "mul (zero_w W) a = zero_w W"
    and mul_zero_right: "mul a (zero_w W) = zero_w W"
begin

lemma add_zero_right: "add a (zero_w W) = a"
  by (metis add_commute add_zero)

lemma add_left_commute: "add a (add b c) = add b (add a c)"
  by (metis add_assoc add_commute)

lemma total: "total_ops W"
  by (simp add: total_ops_def plus_ok times_ok)

lemma is_zero_iff: "is_zero W w \<longleftrightarrow> w = zero_w W"
  by (simp add: is_zero_def eq_ok)

lemma is_one_iff: "is_one W w \<longleftrightarrow> w = one_w W"
  by (simp add: is_one_def eq_ok)

text \<open>Products of weight lists: the weight of a path.\<close>

lemma foldr_mul_append: "foldr mul (us @ vs) (one_w W) = mul (foldr mul us (one_w W)) (foldr mul vs (one_w W))"
  by (induction us) (auto simp: mul_one_left mul_assoc)

text \<open>Sums do not depend on the order of their terms.\<close>

lemma fold_add_perm: "mset us = mset vs \<Longrightarrow> fold add us z = fold add vs z"
  by (rule fun_cong [OF fold_multiset_equiv]) (auto simp: fun_eq_iff add_left_commute)

lemma fold_add_shift: "fold add us (add a z) = add a (fold add us z)"
proof (induction us arbitrary: z)
  case Nil
  then show ?case by simp
next
  case (Cons u us)
  show ?case by (simp add: add_left_commute [of u a] Cons.IH)
qed

end

text \<open>One locale per distributivity flag, and both: the \<open>SEMIRING\<close> flag.\<close>

locale left_semiring = weight_monoids +
  assumes left_distrib: "mul c (add a b) = add (mul c a) (mul c b)"
begin

lemma left_law: "law_left W"
  by (simp add: law_left_def agree_def plus_ok times_ok eq_ok left_distrib)

text \<open>Left factoring of a sum: what pushing weights towards the initial state relies on.\<close>

lemma mul_fold_add: "mul c (fold add us z) = fold add (map (mul c) us) (mul c z)"
  by (induction us arbitrary: z) (auto simp: left_distrib)

end

locale right_semiring = weight_monoids +
  assumes right_distrib: "mul (add a b) c = add (mul a c) (mul b c)"
begin

lemma right_law: "law_right W"
  by (simp add: law_right_def agree_def plus_ok times_ok eq_ok right_distrib)

lemma fold_add_mul: "mul (fold add us z) c = fold add (map (\<lambda>u. mul u c) us) (mul z c)"
  by (induction us arbitrary: z) (auto simp: right_distrib)

end

locale full_semiring = left_semiring + right_semiring

lemma agree_rbind_simps [simp]:
  "agree W (Inl e) y" "agree W x (Inl e)" "agree W (Inr a) (Inr b) = eq_w W a b"
  by (auto simp: agree_def)

end
