(* ===== verification/Semiring_Instances.thy ===== *)
theory Semiring_Instances
  imports Semiring
begin

text \<open>
  The weight types without floating point: \<open>BooleanWeight\<close>, \<open>IntegerWeight\<close>,
  \<open>TrivialWeight\<close>, the three string semirings and \<open>ProductWeight\<close>
  (\<open>semirings/boolean_weight.rs\<close>, \<open>integer_weight.rs\<close>, \<open>trivial_weight.rs\<close>,
  \<open>string_variant.rs\<close>, \<open>string_weight.rs\<close>, \<open>product_weight.rs\<close>). Each gets its
  \<open>semiring\<close> dictionary, its division and closure, an interpretation of the locale its
  declared flags call for, and the theorem that every declared flag holds.
\<close>

subsection \<open>BooleanWeight\<close>

definition boolean_weight :: "bool semiring" where
  "boolean_weight = \<lparr>
     zero_w = False, one_w = True,
     plus_w = (\<lambda>a b. Inr (a \<or> b)), times_w = (\<lambda>a b. Inr (a \<and> b)),
     eq_w = (=),
     props_w = LEFT_SEMIRING OR RIGHT_SEMIRING OR COMMUTATIVE OR IDEMPOTENT OR PATH\<rparr>"

definition boolean_closure :: "bool \<Rightarrow> bool" where
  "boolean_closure _ = True"

definition boolean_divide :: "bool \<Rightarrow> bool \<Rightarrow> divide_type \<Rightarrow> bool res" where
  "boolean_divide a b _ = (if \<not> b then Inl (Bail ''Division by 0'') else Inr a)"

interpretation bool_sr: full_semiring boolean_weight "(\<or>)" "(\<and>)"
  by unfold_locales (auto simp: boolean_weight_def)

subsection \<open>IntegerWeight\<close>

text \<open>
  The value is an \<open>i32\<close>; addition and multiplication wrap around, as they do in a build
  without overflow checks (the release profile).
\<close>

definition integer_weight :: "32 word semiring" where
  "integer_weight = \<lparr>
     zero_w = 0, one_w = 1,
     plus_w = (\<lambda>a b. Inr (a + b)), times_w = (\<lambda>a b. Inr (a * b)),
     eq_w = (=),
     props_w = LEFT_SEMIRING OR RIGHT_SEMIRING OR COMMUTATIVE\<rparr>"

definition integer_closure :: "32 word \<Rightarrow> 32 word" where
  "integer_closure a = (if a = 0 then 1 else 2147483647)"

interpretation int_sr: full_semiring integer_weight "(+)" "(*)"
  by unfold_locales (auto simp: integer_weight_def algebra_simps)

subsection \<open>TrivialWeight\<close>

definition trivial_weight :: "unit semiring" where
  "trivial_weight = \<lparr>
     zero_w = (), one_w = (),
     plus_w = (\<lambda>_ _. Inr ()), times_w = (\<lambda>_ _. Inr ()),
     eq_w = (=),
     props_w = LEFT_SEMIRING OR RIGHT_SEMIRING OR COMMUTATIVE OR IDEMPOTENT OR PATH\<rparr>"

definition trivial_closure :: "unit \<Rightarrow> unit" where
  "trivial_closure _ = ()"

definition trivial_divide :: "unit \<Rightarrow> unit \<Rightarrow> divide_type \<Rightarrow> unit res" where
  "trivial_divide _ _ _ = Inl (Bail ''Division by 0'')"

interpretation trivial_sr: full_semiring trivial_weight "\<lambda>_ _. ()" "\<lambda>_ _. ()"
  by unfold_locales (auto simp: trivial_weight_def)

subsection \<open>String weights\<close>

datatype string_variant = Infinity | Labels "label list"

fun sv_is_labels :: "string_variant \<Rightarrow> bool" where
  "sv_is_labels Infinity = False"
| "sv_is_labels (Labels _) = True"

fun sv_is_infinity :: "string_variant \<Rightarrow> bool" where
  "sv_is_infinity Infinity = True"
| "sv_is_infinity (Labels _) = False"

fun sv_unwrap_label :: "string_variant \<Rightarrow> label res" where
  "sv_unwrap_label Infinity = Inl (Panic ''Infinity'')"
| "sv_unwrap_label (Labels l) =
     (if length l = 1 then Inr (l ! 0) else Inl (Panic ''Length of the list should be one''))"

fun sv_unwrap_labels :: "string_variant \<Rightarrow> label list res" where
  "sv_unwrap_labels Infinity = Inl (Panic ''lol'')"
| "sv_unwrap_labels (Labels l) = Inr l"

fun sv_is_empty_list :: "string_variant \<Rightarrow> bool" where
  "sv_is_empty_list Infinity = False"
| "sv_is_empty_list (Labels l) = (l = [])"

fun sv_reverse :: "string_variant \<Rightarrow> string_variant" where
  "sv_reverse Infinity = Infinity"
| "sv_reverse (Labels l) = Labels (rev l)"

text \<open>
  \<open>StringWeightVariantIterator\<close>: its state is the index and the \<open>done\<close> flag; \<open>sv_next\<close> is
  one call of \<open>next\<close>, \<open>sv_iter\<close> what \<open>iter().collect()\<close> returns: \<open>sv_collect\<close> calls
  \<open>next\<close> until it returns \<open>None\<close>.
\<close>

fun sv_next :: "string_variant \<Rightarrow> nat \<times> bool \<Rightarrow> string_variant option \<times> (nat \<times> bool)" where
  "sv_next v (idx, done) =
     (if done then (None, (idx, done))
      else case v of
        Infinity \<Rightarrow> (Some Infinity, (idx, True))
      | Labels l \<Rightarrow>
          if idx < length l then (Some (Labels [l ! idx]), (idx + 1, done))
          else (None, (idx, True)))"

fun sv_collect :: "nat \<Rightarrow> string_variant \<Rightarrow> nat \<times> bool \<Rightarrow> string_variant list option" where
  "sv_collect 0 v st = None"
| "sv_collect (Suc n) v st =
     (case sv_next v st of
        (None, _) \<Rightarrow> Some []
      | (Some x, st') \<Rightarrow> map_option ((#) x) (sv_collect n v st'))"

definition sv_iter :: "string_variant \<Rightarrow> string_variant list" where
  "sv_iter v = (case v of Infinity \<Rightarrow> [Infinity] | Labels l \<Rightarrow> map (\<lambda>x. Labels [x]) l)"

datatype string_type = StringRestrict | StringLeft | StringRight

text \<open>\<open>zip\<close>, \<open>take_while\<close>, \<open>map\<close> of the \<open>StringLeft\<close> branch.\<close>

definition common_prefix :: "label list \<Rightarrow> label list \<Rightarrow> label list" where
  "common_prefix l1 l2 = map fst (takeWhile (\<lambda>(a, b). a = b) (zip l1 l2))"

definition string_plus :: "string_type \<Rightarrow> string_variant \<Rightarrow> string_variant \<Rightarrow> string_variant res" where
  "string_plus t a b =
     (if a = Infinity then Inr b
      else if b = Infinity then Inr a
      else rbind (sv_unwrap_labels a) (\<lambda>l1. rbind (sv_unwrap_labels b) (\<lambda>l2.
        case t of
          StringRestrict \<Rightarrow>
            if a \<noteq> b then Inl (Bail ''Unequal arguments : non-functional FST ?'') else Inr a
        | StringLeft \<Rightarrow> Inr (Labels (common_prefix l1 l2))
        | StringRight \<Rightarrow> Inr (Labels (rev (common_prefix (rev l1) (rev l2)))))))"

definition string_times :: "string_variant \<Rightarrow> string_variant \<Rightarrow> string_variant" where
  "string_times a b =
     (case a of
        Labels l1 \<Rightarrow> (case b of Labels l2 \<Rightarrow> Labels (l1 @ l2) | Infinity \<Rightarrow> Infinity)
      | Infinity \<Rightarrow> Infinity)"

definition string_props :: "string_type \<Rightarrow> semiring_props" where
  "string_props t = (case t of
     StringRestrict \<Rightarrow> LEFT_SEMIRING OR RIGHT_SEMIRING OR IDEMPOTENT
   | StringLeft \<Rightarrow> LEFT_SEMIRING OR IDEMPOTENT
   | StringRight \<Rightarrow> RIGHT_SEMIRING OR IDEMPOTENT)"

definition string_weight :: "string_type \<Rightarrow> string_variant semiring" where
  "string_weight t = \<lparr>
     zero_w = Infinity, one_w = Labels [],
     plus_w = string_plus t, times_w = (\<lambda>a b. Inr (string_times a b)),
     eq_w = (=), props_w = string_props t\<rparr>"

text \<open>\<open>ReverseWeight\<close>: \<open>Restrict\<close> is its own, \<open>Left\<close> and \<open>Right\<close> swap.\<close>

fun reverse_string_type :: "string_type \<Rightarrow> string_type" where
  "reverse_string_type StringRestrict = StringRestrict"
| "reverse_string_type StringLeft = StringRight"
| "reverse_string_type StringRight = StringLeft"

fun len_labels :: "string_variant \<Rightarrow> nat" where
  "len_labels Infinity = 0"
| "len_labels (Labels l) = length l"

fun divide_left :: "string_variant \<Rightarrow> string_variant \<Rightarrow> string_variant res" where
  "divide_left Infinity Infinity = Inl (Panic ''Unexpected'')"
| "divide_left Infinity (Labels _) = Inr Infinity"
| "divide_left (Labels _) Infinity = Inl (Panic ''Unexpected'')"
| "divide_left (Labels l1) (Labels l2) = Inr (Labels (drop (length l2) l1))"

fun divide_right :: "string_variant \<Rightarrow> string_variant \<Rightarrow> string_variant res" where
  "divide_right Infinity Infinity = Inl (Panic ''Unexpected'')"
| "divide_right Infinity (Labels _) = Inr Infinity"
| "divide_right (Labels _) Infinity = Inl (Panic ''Unexpected'')"
| "divide_right (Labels l1) (Labels l2) = Inr (Labels (rev (drop (length l2) (rev l1))))"

definition string_divide ::
  "string_type \<Rightarrow> string_variant \<Rightarrow> string_variant \<Rightarrow> divide_type \<Rightarrow> string_variant res" where
  "string_divide t a b d = (case t of
     StringLeft \<Rightarrow>
       if d \<noteq> DivideLeft then Inl (Bail ''Only left division is defined.'') else divide_left a b
   | StringRight \<Rightarrow>
       if d \<noteq> DivideRight then Inl (Bail ''Only right division is defined.'') else divide_right a b
   | StringRestrict \<Rightarrow> (case d of
       DivideLeft \<Rightarrow> divide_left a b
     | DivideRight \<Rightarrow> divide_right a b
     | DivideAny \<Rightarrow> Inl (Bail ''Only explicit left or right division is defined.'')))"

subsubsection \<open>Longest common prefixes\<close>

lemma common_prefix_simps [simp]:
  "common_prefix [] ys = []" "common_prefix xs [] = []"
  "common_prefix (x # xs) (y # ys) = (if x = y then x # common_prefix xs ys else [])"
  by (auto simp: common_prefix_def)

lemma common_prefix_commute: "common_prefix xs ys = common_prefix ys xs"
  by (induction xs ys rule: list_induct2') auto

lemma common_prefix_idem [simp]: "common_prefix xs xs = xs"
  by (induction xs) auto

lemma common_prefix_assoc:
  "common_prefix (common_prefix xs ys) zs = common_prefix xs (common_prefix ys zs)"
proof (induction xs arbitrary: ys zs)
  case Nil
  then show ?case by simp
next
  case (Cons x xs)
  then show ?case by (cases ys; cases zs) auto
qed

lemma common_prefix_append [simp]: "common_prefix (us @ xs) (us @ ys) = us @ common_prefix xs ys"
  by (induction us) auto

lemma common_prefix_prefix: "\<exists>zs. xs = common_prefix xs ys @ zs"
  by (induction xs ys rule: list_induct2') auto

text \<open>It is the greatest common prefix.\<close>

lemma common_prefix_greatest:
  assumes "xs = us @ xs'" and "ys = us @ ys'"
  shows "\<exists>zs. common_prefix xs ys = us @ zs"
  using assms by simp

lemma append_drop_common_prefix: "common_prefix xs ys @ drop (length (common_prefix xs ys)) xs = xs"
  by (induction xs ys rule: list_induct2') auto

subsubsection \<open>The string semirings\<close>

definition string_add :: "string_type \<Rightarrow> string_variant \<Rightarrow> string_variant \<Rightarrow> string_variant" where
  "string_add t a b = (case string_plus t a b of Inr c \<Rightarrow> c | Inl _ \<Rightarrow> a)"

lemma string_plus_left [simp]:
  "string_plus t Infinity b = Inr b" "string_plus t a Infinity = Inr a"
  "string_plus StringLeft (Labels xs) (Labels ys) = Inr (Labels (common_prefix xs ys))"
  "string_plus StringRight (Labels xs) (Labels ys) =
     Inr (Labels (rev (common_prefix (rev xs) (rev ys))))"
  "string_plus StringRestrict (Labels xs) (Labels ys) =
     (if xs = ys then Inr (Labels xs) else Inl (Bail ''Unequal arguments : non-functional FST ?''))"
  by (auto simp: string_plus_def)

lemma string_times_simps [simp]:
  "string_times Infinity b = Infinity" "string_times a Infinity = Infinity"
  "string_times (Labels xs) (Labels ys) = Labels (xs @ ys)"
  by (auto simp: string_times_def split: string_variant.splits)

lemma string_add_simps [simp]:
  "string_add t Infinity b = b" "string_add t a Infinity = a"
  "string_add StringLeft (Labels xs) (Labels ys) = Labels (common_prefix xs ys)"
  "string_add StringRight (Labels xs) (Labels ys) = Labels (rev (common_prefix (rev xs) (rev ys)))"
  by (auto simp: string_add_def)

lemma string_times_assoc: "string_times (string_times a b) c = string_times a (string_times b c)"
  by (cases a; cases b; cases c) auto

lemma string_add_total: "t \<noteq> StringRestrict \<Longrightarrow> string_plus t a b = Inr (string_add t a b)"
  by (cases t; cases a; cases b) (auto simp: string_add_def)

lemma string_add_commute: "t \<noteq> StringRestrict \<Longrightarrow> string_add t a b = string_add t b a"
  by (cases t; cases a; cases b) (auto intro: common_prefix_commute)

lemma string_add_assoc:
  "t \<noteq> StringRestrict \<Longrightarrow> string_add t (string_add t a b) c = string_add t a (string_add t b c)"
  by (cases t; cases a; cases b; cases c) (auto simp: common_prefix_assoc)

interpretation string_left_sr:
  left_semiring "string_weight StringLeft" "string_add StringLeft" string_times
proof unfold_locales
  fix a b c
  show "string_times c (string_add StringLeft a b) =
      string_add StringLeft (string_times c a) (string_times c b)"
    by (cases a; cases b; cases c) auto
  show "string_times (one_w (string_weight StringLeft)) a = a"
    and "string_times a (one_w (string_weight StringLeft)) = a"
    by (cases a; simp add: string_weight_def)+
qed (auto simp: string_weight_def string_add_total string_times_assoc string_add_assoc
       intro: string_add_commute)

interpretation string_right_sr:
  right_semiring "string_weight StringRight" "string_add StringRight" string_times
proof unfold_locales
  fix a b c
  show "string_times (string_add StringRight a b) c =
      string_add StringRight (string_times a c) (string_times b c)"
    by (cases a; cases b; cases c) auto
  show "string_times (one_w (string_weight StringRight)) a = a"
    and "string_times a (one_w (string_weight StringRight)) = a"
    by (cases a; simp add: string_weight_def)+
qed (auto simp: string_weight_def string_add_total string_times_assoc string_add_assoc
       intro: string_add_commute)

subsubsection \<open>Iteration, reversal and division\<close>

lemma sv_collect_done: "sv_collect (Suc n) v (i, True) = Some []"
  by simp

lemma sv_collect_labels:
  "i \<le> length l \<Longrightarrow> length l - i < n \<Longrightarrow>
   sv_collect n (Labels l) (i, False) = Some (map (\<lambda>x. Labels [x]) (drop i l))"
proof (induction n arbitrary: i)
  case 0
  then show ?case by simp
next
  case (Suc n)
  show ?case
  proof (cases "i < length l")
    case True
    with Suc.prems have "sv_collect n (Labels l) (i + 1, False) = Some (map (\<lambda>x. Labels [x]) (drop (Suc i) l))"
      by (subst Suc.IH) auto
    with True show ?thesis by (simp add: Cons_nth_drop_Suc [symmetric])
  next
    case False
    with Suc.prems show ?thesis by simp
  qed
qed

lemma string_reverse_plus:
  "string_plus (reverse_string_type t) (sv_reverse a) (sv_reverse b) =
   rbind (string_plus t a b) (\<lambda>c. Inr (sv_reverse c))"
  by (cases t; cases a; cases b) auto

lemma string_reverse_times:
  "sv_reverse (string_times a b) = string_times (sv_reverse b) (sv_reverse a)"
  by (cases a; cases b) auto

lemma sv_reverse_reverse [simp]: "sv_reverse (sv_reverse a) = a"
  by (cases a) auto

lemma reverse_string_type_twice [simp]: "reverse_string_type (reverse_string_type t) = t"
  by (cases t) auto

lemma divide_left_times: "b \<noteq> Infinity \<Longrightarrow> divide_left (string_times b a) b = Inr a"
  by (cases a; cases b) auto

lemma divide_right_times: "b \<noteq> Infinity \<Longrightarrow> divide_right (string_times a b) b = Inr a"
  by (cases a; cases b) auto

subsection \<open>ProductWeight\<close>

definition product_weight :: "'a semiring \<Rightarrow> 'b semiring \<Rightarrow> ('a \<times> 'b) semiring" where
  "product_weight A B = \<lparr>
     zero_w = (zero_w A, zero_w B), one_w = (one_w A, one_w B),
     plus_w = (\<lambda>x y. rbind (plus_w A (fst x) (fst y)) (\<lambda>p.
                     rbind (plus_w B (snd x) (snd y)) (\<lambda>q. Inr (p, q)))),
     times_w = (\<lambda>x y. rbind (times_w A (fst x) (fst y)) (\<lambda>p.
                      rbind (times_w B (snd x) (snd y)) (\<lambda>q. Inr (p, q)))),
     eq_w = (\<lambda>x y. eq_w A (fst x) (fst y) \<and> eq_w B (snd x) (snd y)),
     props_w = props_w A AND props_w B AND
       (LEFT_SEMIRING OR RIGHT_SEMIRING OR COMMUTATIVE OR IDEMPOTENT)\<rparr>"

definition product_divide ::
  "('a \<Rightarrow> 'a \<Rightarrow> divide_type \<Rightarrow> 'a res) \<Rightarrow> ('b \<Rightarrow> 'b \<Rightarrow> divide_type \<Rightarrow> 'b res) \<Rightarrow>
   'a \<times> 'b \<Rightarrow> 'a \<times> 'b \<Rightarrow> divide_type \<Rightarrow> ('a \<times> 'b) res" where
  "product_divide da db x y d =
     rbind (da (fst x) (fst y) d) (\<lambda>p. rbind (db (snd x) (snd y) d) (\<lambda>q. Inr (p, q)))"

definition product_reverse ::
  "('a \<Rightarrow> 'c res) \<Rightarrow> ('b \<Rightarrow> 'd res) \<Rightarrow> 'a \<times> 'b \<Rightarrow> ('c \<times> 'd) res" where
  "product_reverse ra rb x =
     rbind (ra (fst x)) (\<lambda>p. rbind (rb (snd x)) (\<lambda>q. Inr (p, q)))"

text \<open>The product of two lawful weight types is lawful.\<close>

locale product_weights =
  A: full_semiring A addA mulA + B: full_semiring B addB mulB
  for A :: "'a semiring" and addA mulA and B :: "'b semiring" and addB mulB

sublocale product_weights \<subseteq> product: full_semiring "product_weight A B"
  "\<lambda>x y. (addA (fst x) (fst y), addB (snd x) (snd y))"
  "\<lambda>x y. (mulA (fst x) (fst y), mulB (snd x) (snd y))"
  by unfold_locales
    (auto simp: product_weight_def A.plus_ok B.plus_ok A.times_ok B.times_ok A.eq_ok B.eq_ok
      A.add_assoc B.add_assoc A.add_zero B.add_zero A.mul_assoc B.mul_assoc
      A.mul_one_left B.mul_one_left A.mul_one_right B.mul_one_right
      A.mul_zero_left B.mul_zero_left A.mul_zero_right B.mul_zero_right
      A.left_distrib B.left_distrib A.right_distrib B.right_distrib
      intro: A.add_commute B.add_commute)

interpretation bool_int: product_weights boolean_weight "(\<or>)" "(\<and>)" integer_weight "(+)" "(*)"
  by unfold_locales

subsection \<open>Every declared flag holds\<close>

lemma declares_and:
  "props_w C = props_w A AND props_w B AND m \<Longrightarrow> declares C F \<Longrightarrow>
   declares A F \<and> declares B F \<and> m AND F = F"
  unfolding declares_def bit_eq_iff by (auto simp: bit_simps)

lemmas flags_sound_simps =
  flags_sound_def declares_def semiring_flag_defs law_commutative_def law_idempotent_def
  law_path_def string_weight_def string_props_def boolean_weight_def integer_weight_def
  trivial_weight_def

lemma boolean_flags_sound: "flags_sound boolean_weight"
  using bool_sr.left_law bool_sr.right_law by (auto simp: flags_sound_simps)

lemma integer_flags_sound: "flags_sound integer_weight"
  using int_sr.left_law int_sr.right_law by (auto simp: flags_sound_simps)

lemma trivial_flags_sound: "flags_sound trivial_weight"
  using trivial_sr.left_law trivial_sr.right_law by (auto simp: flags_sound_simps)

lemma string_times_cancel_left: "c \<noteq> Infinity \<Longrightarrow> string_times c a = string_times c b \<longleftrightarrow> a = b"
  by (cases a; cases b; cases c) auto

lemma string_restrict_left: "law_left (string_weight StringRestrict)"
  unfolding law_left_def
proof (intro allI)
  fix a b c
  show "agree (string_weight StringRestrict)
     (rbind (plus_w (string_weight StringRestrict) a b) (times_w (string_weight StringRestrict) c))
     (rbind (times_w (string_weight StringRestrict) c a)
       (\<lambda>x. rbind (times_w (string_weight StringRestrict) c b) (plus_w (string_weight StringRestrict) x)))"
    by (cases a; cases b; cases c; simp add: string_weight_def)
qed

lemma string_restrict_right: "law_right (string_weight StringRestrict)"
  unfolding law_right_def
proof (intro allI)
  fix a b c
  show "agree (string_weight StringRestrict)
     (rbind (plus_w (string_weight StringRestrict) a b) (\<lambda>s. times_w (string_weight StringRestrict) s c))
     (rbind (times_w (string_weight StringRestrict) a c)
       (\<lambda>x. rbind (times_w (string_weight StringRestrict) b c) (plus_w (string_weight StringRestrict) x)))"
    by (cases a; cases b; cases c; simp add: string_weight_def)
qed

lemma string_plus_idem [simp]: "string_plus t a a = Inr a"
  by (cases t; cases a) auto

lemma string_flags_sound: "flags_sound (string_weight t)"
proof (cases t)
  case StringRestrict
  then show ?thesis
    using string_restrict_left string_restrict_right by (auto simp: flags_sound_simps)
next
  case StringLeft
  then show ?thesis
    using string_left_sr.left_law by (auto simp: flags_sound_simps)
next
  case StringRight
  then show ?thesis
    using string_right_sr.right_law by (auto simp: flags_sound_simps)
qed

text \<open>The laws of the string semirings as equations between results.\<close>

lemma string_plus_ok: "is_ok (string_plus t a b) \<longleftrightarrow> t \<noteq> StringRestrict \<or> a = Infinity \<or> b = Infinity \<or> a = b"
  by (cases t; cases a; cases b) auto

lemma string_sum_laws: "sum_laws (string_weight t) a b c"
proof (cases t)
  case StringRestrict
  show ?thesis
    unfolding StringRestrict by (cases a; cases b; cases c) (auto simp: sum_laws_def string_weight_def)
next
  case StringLeft
  then show ?thesis
    using string_add_commute [of t a b] string_add_assoc [of t a b c]
    by (cases a) (auto simp: sum_laws_def string_weight_def string_add_total)
next
  case StringRight
  then show ?thesis
    using string_add_commute [of t a b] string_add_assoc [of t a b c]
    by (cases a) (auto simp: sum_laws_def string_weight_def string_add_total)
qed

lemma string_product_laws: "product_laws (string_weight t) a b c"
  by (cases a) (simp_all add: product_laws_def string_weight_def string_times_assoc)

lemma restrict_distributes:
  assumes "c \<noteq> Infinity \<or> is_ok (string_plus StringRestrict a b)"
  shows "distributes_left (string_weight StringRestrict) a b c" "distributes_right (string_weight StringRestrict) a b c"
proof -
  show "distributes_left (string_weight StringRestrict) a b c"
    using assms by (cases a; cases b; cases c) (auto simp: distributes_left_def string_weight_def split: if_splits)
  show "distributes_right (string_weight StringRestrict) a b c"
    using assms by (cases a; cases b; cases c) (auto simp: distributes_right_def string_weight_def split: if_splits)
qed

lemma string_distributes:
  assumes "c \<noteq> Infinity \<or> is_ok (string_plus t a b)"
  shows "t \<noteq> StringRight \<Longrightarrow> distributes_left (string_weight t) a b c"
    "t \<noteq> StringLeft \<Longrightarrow> distributes_right (string_weight t) a b c"
proof -
  have l: "distributes_left (string_weight StringLeft) a b c"
    using string_left_sr.left_distrib [of c a b] by (simp add: distributes_left_def string_weight_def string_add_total)
  have r: "distributes_right (string_weight StringRight) a b c"
    using string_right_sr.right_distrib [of a b c] by (simp add: distributes_right_def string_weight_def string_add_total)
  from restrict_distributes [of c a b] assms l r show "t \<noteq> StringRight \<Longrightarrow> distributes_left (string_weight t) a b c"
    "t \<noteq> StringLeft \<Longrightarrow> distributes_right (string_weight t) a b c"
    by (cases t; simp)+
qed

lemma string_declares:
  "declares (string_weight t) LEFT_SEMIRING \<longleftrightarrow> t \<noteq> StringRight"
  "declares (string_weight t) RIGHT_SEMIRING \<longleftrightarrow> t \<noteq> StringLeft"
  "declares (string_weight t) IDEMPOTENT" "\<not> declares (string_weight t) PATH"
  "\<not> declares (string_weight t) COMMUTATIVE"
  by (cases t; auto simp: flags_sound_simps)+


lemma product_law_left: "law_left A \<Longrightarrow> law_left B \<Longrightarrow> law_left (product_weight A B)"
  by (rule law_leftI) (auto simp: product_weight_def rbind_eq_Inr elim: law_leftD)

lemma product_law_right: "law_right A \<Longrightarrow> law_right B \<Longrightarrow> law_right (product_weight A B)"
  by (rule law_rightI) (auto simp: product_weight_def rbind_eq_Inr elim: law_rightD)

lemma product_law_commutative:
  "law_commutative A \<Longrightarrow> law_commutative B \<Longrightarrow> law_commutative (product_weight A B)"
  by (simp add: law_commutative_def agree_def product_weight_def rbind_eq_Inr) blast

lemma product_law_idempotent:
  "law_idempotent A \<Longrightarrow> law_idempotent B \<Longrightarrow> law_idempotent (product_weight A B)"
  by (simp add: law_idempotent_def agree_def product_weight_def rbind_eq_Inr)

lemma product_flags_sound:
  assumes "flags_sound A" and "flags_sound B"
  shows "flags_sound (product_weight A B)"
proof -
  have d: "declares (product_weight A B) F \<Longrightarrow>
      declares A F \<and> declares B F \<and>
      (LEFT_SEMIRING OR RIGHT_SEMIRING OR COMMUTATIVE OR IDEMPOTENT) AND F = F" for F
    by (rule declares_and [of "product_weight A B" A B]) (auto simp: product_weight_def)
  have "\<not> declares (product_weight A B) PATH"
    using d [of PATH] by (auto simp: semiring_flag_defs)
  with assms d show ?thesis
    unfolding flags_sound_def
    by (blast intro: product_law_left product_law_right product_law_commutative product_law_idempotent)
qed

end
