(* ===== verification/Fst_Properties.thy ===== *)
theory Fst_Properties
  imports Prelude
begin

text \<open>
  The property bits of an FST (\<open>fst_properties/properties.rs\<close>, \<open>fst_properties/utils.rs\<close>):
  thirty-two flags in positive and negative pairs, the masks of flags that survive each kind
  of change, and the queries \<open>contains\<close>, \<open>known_properties\<close>, \<open>compat_properties\<close>.
\<close>

subsection \<open>The flags\<close>

type_synonym fst_props = "64 word"

definition ACCEPTOR :: fst_props where "ACCEPTOR = 0x10000"
definition NOT_ACCEPTOR :: fst_props where "NOT_ACCEPTOR = 0x20000"
definition I_DETERMINISTIC :: fst_props where "I_DETERMINISTIC = 0x40000"
definition NOT_I_DETERMINISTIC :: fst_props where "NOT_I_DETERMINISTIC = 0x80000"
definition O_DETERMINISTIC :: fst_props where "O_DETERMINISTIC = 0x100000"
definition NOT_O_DETERMINISTIC :: fst_props where "NOT_O_DETERMINISTIC = 0x200000"
definition EPSILONS :: fst_props where "EPSILONS = 0x400000"
definition NO_EPSILONS :: fst_props where "NO_EPSILONS = 0x800000"
definition I_EPSILONS :: fst_props where "I_EPSILONS = 0x1000000"
definition NO_I_EPSILONS :: fst_props where "NO_I_EPSILONS = 0x2000000"
definition O_EPSILONS :: fst_props where "O_EPSILONS = 0x4000000"
definition NO_O_EPSILONS :: fst_props where "NO_O_EPSILONS = 0x8000000"
definition I_LABEL_SORTED :: fst_props where "I_LABEL_SORTED = 0x10000000"
definition NOT_I_LABEL_SORTED :: fst_props where "NOT_I_LABEL_SORTED = 0x20000000"
definition O_LABEL_SORTED :: fst_props where "O_LABEL_SORTED = 0x40000000"
definition NOT_O_LABEL_SORTED :: fst_props where "NOT_O_LABEL_SORTED = 0x80000000"
definition WEIGHTED :: fst_props where "WEIGHTED = 0x100000000"
definition UNWEIGHTED :: fst_props where "UNWEIGHTED = 0x200000000"
definition CYCLIC :: fst_props where "CYCLIC = 0x400000000"
definition ACYCLIC :: fst_props where "ACYCLIC = 0x800000000"
definition INITIAL_CYCLIC :: fst_props where "INITIAL_CYCLIC = 0x1000000000"
definition INITIAL_ACYCLIC :: fst_props where "INITIAL_ACYCLIC = 0x2000000000"
definition TOP_SORTED :: fst_props where "TOP_SORTED = 0x4000000000"
definition NOT_TOP_SORTED :: fst_props where "NOT_TOP_SORTED = 0x8000000000"
definition ACCESSIBLE :: fst_props where "ACCESSIBLE = 0x10000000000"
definition NOT_ACCESSIBLE :: fst_props where "NOT_ACCESSIBLE = 0x20000000000"
definition COACCESSIBLE :: fst_props where "COACCESSIBLE = 0x40000000000"
definition NOT_COACCESSIBLE :: fst_props where "NOT_COACCESSIBLE = 0x80000000000"
definition STRING :: fst_props where "STRING = 0x100000000000"
definition NOT_STRING :: fst_props where "NOT_STRING = 0x200000000000"
definition WEIGHTED_CYCLES :: fst_props where "WEIGHTED_CYCLES = 0x400000000000"
definition UNWEIGHTED_CYCLES :: fst_props where "UNWEIGHTED_CYCLES = 0x800000000000"

lemmas flag_defs =
  ACCEPTOR_def NOT_ACCEPTOR_def I_DETERMINISTIC_def NOT_I_DETERMINISTIC_def
  O_DETERMINISTIC_def NOT_O_DETERMINISTIC_def EPSILONS_def NO_EPSILONS_def I_EPSILONS_def
  NO_I_EPSILONS_def O_EPSILONS_def NO_O_EPSILONS_def I_LABEL_SORTED_def NOT_I_LABEL_SORTED_def
  O_LABEL_SORTED_def NOT_O_LABEL_SORTED_def WEIGHTED_def UNWEIGHTED_def CYCLIC_def ACYCLIC_def
  INITIAL_CYCLIC_def INITIAL_ACYCLIC_def TOP_SORTED_def NOT_TOP_SORTED_def ACCESSIBLE_def
  NOT_ACCESSIBLE_def COACCESSIBLE_def NOT_COACCESSIBLE_def STRING_def NOT_STRING_def
  WEIGHTED_CYCLES_def UNWEIGHTED_CYCLES_def

text \<open>
  \<open>bitflags\<close>: the union of all declared flags; \<open>from_bits_truncate\<close> keeps only declared
  bits, and so do the complement and the shifts.
\<close>

definition fp_declared :: fst_props where "fp_declared = 0x0000ffffffff0000"

definition from_bits_truncate :: "64 word \<Rightarrow> fst_props" where
  "from_bits_truncate b = b AND fp_declared"

definition fp_not :: "fst_props \<Rightarrow> fst_props" where
  "fp_not p = from_bits_truncate (NOT p)"

definition fp_shl :: "fst_props \<Rightarrow> nat \<Rightarrow> fst_props" where
  "fp_shl p n = from_bits_truncate (push_bit n p)"

definition fp_shr :: "fst_props \<Rightarrow> nat \<Rightarrow> fst_props" where
  "fp_shr p n = from_bits_truncate (drop_bit n p)"

definition contains :: "fst_props \<Rightarrow> fst_props \<Rightarrow> bool" where
  "contains p f \<longleftrightarrow> p AND f = f"

definition intersects :: "fst_props \<Rightarrow> fst_props \<Rightarrow> bool" where
  "intersects p f \<longleftrightarrow> p AND f \<noteq> 0"

subsection \<open>The masks\<close>

definition fp_null_properties :: fst_props where
  "fp_null_properties =
     ACCEPTOR OR I_DETERMINISTIC OR O_DETERMINISTIC OR NO_EPSILONS OR NO_I_EPSILONS OR
     NO_O_EPSILONS OR I_LABEL_SORTED OR O_LABEL_SORTED OR UNWEIGHTED OR ACYCLIC OR
     INITIAL_ACYCLIC OR TOP_SORTED OR ACCESSIBLE OR COACCESSIBLE OR STRING OR UNWEIGHTED_CYCLES"

definition fp_copy_properties :: fst_props where
  "fp_copy_properties =
     ACCEPTOR OR NOT_ACCEPTOR OR I_DETERMINISTIC OR NOT_I_DETERMINISTIC OR O_DETERMINISTIC OR
     NOT_O_DETERMINISTIC OR EPSILONS OR NO_EPSILONS OR I_EPSILONS OR NO_I_EPSILONS OR
     O_EPSILONS OR NO_O_EPSILONS OR I_LABEL_SORTED OR NOT_I_LABEL_SORTED OR O_LABEL_SORTED OR
     NOT_O_LABEL_SORTED OR WEIGHTED OR UNWEIGHTED OR CYCLIC OR ACYCLIC OR INITIAL_CYCLIC OR
     INITIAL_ACYCLIC OR TOP_SORTED OR NOT_TOP_SORTED OR ACCESSIBLE OR NOT_ACCESSIBLE OR
     COACCESSIBLE OR NOT_COACCESSIBLE OR STRING OR NOT_STRING OR WEIGHTED_CYCLES OR
     UNWEIGHTED_CYCLES"

definition fp_set_start_properties :: fst_props where
  "fp_set_start_properties =
     ACCEPTOR OR NOT_ACCEPTOR OR I_DETERMINISTIC OR NOT_I_DETERMINISTIC OR O_DETERMINISTIC OR
     NOT_O_DETERMINISTIC OR EPSILONS OR NO_EPSILONS OR I_EPSILONS OR NO_I_EPSILONS OR
     O_EPSILONS OR NO_O_EPSILONS OR I_LABEL_SORTED OR NOT_I_LABEL_SORTED OR O_LABEL_SORTED OR
     NOT_O_LABEL_SORTED OR WEIGHTED OR UNWEIGHTED OR CYCLIC OR ACYCLIC OR TOP_SORTED OR
     NOT_TOP_SORTED OR COACCESSIBLE OR NOT_COACCESSIBLE OR WEIGHTED_CYCLES OR UNWEIGHTED_CYCLES"

definition fp_set_final_properties :: fst_props where
  "fp_set_final_properties =
     ACCEPTOR OR NOT_ACCEPTOR OR I_DETERMINISTIC OR NOT_I_DETERMINISTIC OR O_DETERMINISTIC OR
     NOT_O_DETERMINISTIC OR EPSILONS OR NO_EPSILONS OR I_EPSILONS OR NO_I_EPSILONS OR
     O_EPSILONS OR NO_O_EPSILONS OR I_LABEL_SORTED OR NOT_I_LABEL_SORTED OR O_LABEL_SORTED OR
     NOT_O_LABEL_SORTED OR CYCLIC OR ACYCLIC OR INITIAL_CYCLIC OR INITIAL_ACYCLIC OR
     TOP_SORTED OR NOT_TOP_SORTED OR ACCESSIBLE OR NOT_ACCESSIBLE OR WEIGHTED_CYCLES OR
     UNWEIGHTED_CYCLES"

definition fp_add_state_properties :: fst_props where
  "fp_add_state_properties =
     ACCEPTOR OR NOT_ACCEPTOR OR I_DETERMINISTIC OR NOT_I_DETERMINISTIC OR O_DETERMINISTIC OR
     NOT_O_DETERMINISTIC OR EPSILONS OR NO_EPSILONS OR I_EPSILONS OR NO_I_EPSILONS OR
     O_EPSILONS OR NO_O_EPSILONS OR I_LABEL_SORTED OR NOT_I_LABEL_SORTED OR O_LABEL_SORTED OR
     NOT_O_LABEL_SORTED OR WEIGHTED OR UNWEIGHTED OR CYCLIC OR ACYCLIC OR INITIAL_CYCLIC OR
     INITIAL_ACYCLIC OR TOP_SORTED OR NOT_TOP_SORTED OR NOT_ACCESSIBLE OR NOT_COACCESSIBLE OR
     NOT_STRING OR WEIGHTED_CYCLES OR UNWEIGHTED_CYCLES"

definition fp_add_arc_properties :: fst_props where
  "fp_add_arc_properties =
     NOT_ACCEPTOR OR NOT_I_DETERMINISTIC OR NOT_O_DETERMINISTIC OR EPSILONS OR I_EPSILONS OR
     O_EPSILONS OR NOT_I_LABEL_SORTED OR NOT_O_LABEL_SORTED OR WEIGHTED OR CYCLIC OR
     INITIAL_CYCLIC OR NOT_TOP_SORTED OR ACCESSIBLE OR COACCESSIBLE OR WEIGHTED_CYCLES"

definition fp_delete_states_properties :: fst_props where
  "fp_delete_states_properties =
     ACCEPTOR OR I_DETERMINISTIC OR O_DETERMINISTIC OR NO_EPSILONS OR NO_I_EPSILONS OR
     NO_O_EPSILONS OR I_LABEL_SORTED OR O_LABEL_SORTED OR UNWEIGHTED OR ACYCLIC OR
     INITIAL_ACYCLIC OR TOP_SORTED OR UNWEIGHTED_CYCLES"

definition fp_delete_arcs_properties :: fst_props where
  "fp_delete_arcs_properties =
     ACCEPTOR OR I_DETERMINISTIC OR O_DETERMINISTIC OR NO_EPSILONS OR NO_I_EPSILONS OR
     NO_O_EPSILONS OR I_LABEL_SORTED OR O_LABEL_SORTED OR UNWEIGHTED OR ACYCLIC OR
     INITIAL_ACYCLIC OR TOP_SORTED OR NOT_ACCESSIBLE OR NOT_COACCESSIBLE OR UNWEIGHTED_CYCLES"

definition fp_statesort_properties :: fst_props where
  "fp_statesort_properties =
     ACCEPTOR OR NOT_ACCEPTOR OR I_DETERMINISTIC OR NOT_I_DETERMINISTIC OR O_DETERMINISTIC OR
     NOT_O_DETERMINISTIC OR EPSILONS OR NO_EPSILONS OR I_EPSILONS OR NO_I_EPSILONS OR
     O_EPSILONS OR NO_O_EPSILONS OR I_LABEL_SORTED OR NOT_I_LABEL_SORTED OR O_LABEL_SORTED OR
     NOT_O_LABEL_SORTED OR WEIGHTED OR UNWEIGHTED OR CYCLIC OR ACYCLIC OR INITIAL_CYCLIC OR
     INITIAL_ACYCLIC OR ACCESSIBLE OR NOT_ACCESSIBLE OR COACCESSIBLE OR NOT_COACCESSIBLE OR
     WEIGHTED_CYCLES OR UNWEIGHTED_CYCLES"

definition fp_arcsort_properties :: fst_props where
  "fp_arcsort_properties =
     ACCEPTOR OR NOT_ACCEPTOR OR I_DETERMINISTIC OR NOT_I_DETERMINISTIC OR O_DETERMINISTIC OR
     NOT_O_DETERMINISTIC OR EPSILONS OR NO_EPSILONS OR I_EPSILONS OR NO_I_EPSILONS OR
     O_EPSILONS OR NO_O_EPSILONS OR WEIGHTED OR UNWEIGHTED OR CYCLIC OR ACYCLIC OR
     INITIAL_CYCLIC OR INITIAL_ACYCLIC OR TOP_SORTED OR NOT_TOP_SORTED OR ACCESSIBLE OR
     NOT_ACCESSIBLE OR COACCESSIBLE OR NOT_COACCESSIBLE OR STRING OR NOT_STRING OR
     WEIGHTED_CYCLES OR UNWEIGHTED_CYCLES"

definition fp_i_label_invariant_properties :: fst_props where
  "fp_i_label_invariant_properties =
     O_DETERMINISTIC OR NOT_O_DETERMINISTIC OR O_EPSILONS OR NO_O_EPSILONS OR
     O_LABEL_SORTED OR NOT_O_LABEL_SORTED OR WEIGHTED OR UNWEIGHTED OR CYCLIC OR ACYCLIC OR
     INITIAL_CYCLIC OR INITIAL_ACYCLIC OR TOP_SORTED OR NOT_TOP_SORTED OR ACCESSIBLE OR
     NOT_ACCESSIBLE OR COACCESSIBLE OR NOT_COACCESSIBLE OR STRING OR NOT_STRING OR
     WEIGHTED_CYCLES OR UNWEIGHTED_CYCLES"

definition fp_o_label_invariant_properties :: fst_props where
  "fp_o_label_invariant_properties =
     I_DETERMINISTIC OR NOT_I_DETERMINISTIC OR I_EPSILONS OR NO_I_EPSILONS OR
     I_LABEL_SORTED OR NOT_I_LABEL_SORTED OR WEIGHTED OR UNWEIGHTED OR CYCLIC OR ACYCLIC OR
     INITIAL_CYCLIC OR INITIAL_ACYCLIC OR TOP_SORTED OR NOT_TOP_SORTED OR ACCESSIBLE OR
     NOT_ACCESSIBLE OR COACCESSIBLE OR NOT_COACCESSIBLE OR STRING OR NOT_STRING OR
     WEIGHTED_CYCLES OR UNWEIGHTED_CYCLES"

definition fp_weight_invariant_properties :: fst_props where
  "fp_weight_invariant_properties =
     ACCEPTOR OR NOT_ACCEPTOR OR I_DETERMINISTIC OR NOT_I_DETERMINISTIC OR O_DETERMINISTIC OR
     NOT_O_DETERMINISTIC OR EPSILONS OR NO_EPSILONS OR I_EPSILONS OR NO_I_EPSILONS OR
     O_EPSILONS OR NO_O_EPSILONS OR I_LABEL_SORTED OR NOT_I_LABEL_SORTED OR O_LABEL_SORTED OR
     NOT_O_LABEL_SORTED OR CYCLIC OR ACYCLIC OR INITIAL_CYCLIC OR INITIAL_ACYCLIC OR
     TOP_SORTED OR NOT_TOP_SORTED OR ACCESSIBLE OR NOT_ACCESSIBLE OR COACCESSIBLE OR
     NOT_COACCESSIBLE OR STRING OR NOT_STRING"

definition fp_add_super_final_properties :: fst_props where
  "fp_add_super_final_properties =
     NOT_ACCEPTOR OR NOT_I_DETERMINISTIC OR NOT_O_DETERMINISTIC OR EPSILONS OR I_EPSILONS OR
     O_EPSILONS OR NOT_I_LABEL_SORTED OR NOT_O_LABEL_SORTED OR WEIGHTED OR UNWEIGHTED OR
     CYCLIC OR ACYCLIC OR INITIAL_CYCLIC OR INITIAL_ACYCLIC OR NOT_TOP_SORTED OR
     NOT_ACCESSIBLE OR COACCESSIBLE OR NOT_COACCESSIBLE OR NOT_STRING OR WEIGHTED_CYCLES OR
     UNWEIGHTED_CYCLES"

definition fp_rm_super_final_properties :: fst_props where
  "fp_rm_super_final_properties =
     ACCEPTOR OR NOT_ACCEPTOR OR I_DETERMINISTIC OR O_DETERMINISTIC OR NO_EPSILONS OR
     NO_I_EPSILONS OR NO_O_EPSILONS OR I_LABEL_SORTED OR O_LABEL_SORTED OR WEIGHTED OR
     UNWEIGHTED OR CYCLIC OR ACYCLIC OR INITIAL_CYCLIC OR INITIAL_ACYCLIC OR TOP_SORTED OR
     ACCESSIBLE OR COACCESSIBLE OR NOT_COACCESSIBLE OR STRING OR WEIGHTED_CYCLES OR
     UNWEIGHTED_CYCLES"

definition fp_set_arc_properties :: fst_props where
  "fp_set_arc_properties = 0"

definition binary_properties :: fst_props where
  "binary_properties = from_bits_truncate 0x0000000000000007"

definition trinary_properties :: fst_props where
  "trinary_properties = from_bits_truncate 0x0000ffffffff0000"

definition pos_trinary_properties :: fst_props where
  "pos_trinary_properties = trinary_properties AND from_bits_truncate 0x5555555555555555"

definition neg_trinary_properties :: fst_props where
  "neg_trinary_properties = trinary_properties AND from_bits_truncate 0xaaaaaaaaaaaaaaaa"

definition all_properties :: fst_props where
  "all_properties = binary_properties OR trinary_properties"

lemmas mask_defs =
  fp_null_properties_def fp_copy_properties_def fp_set_start_properties_def
  fp_set_final_properties_def fp_add_state_properties_def fp_add_arc_properties_def
  fp_delete_states_properties_def fp_delete_arcs_properties_def fp_statesort_properties_def
  fp_arcsort_properties_def fp_i_label_invariant_properties_def
  fp_o_label_invariant_properties_def fp_weight_invariant_properties_def
  fp_add_super_final_properties_def fp_rm_super_final_properties_def fp_set_arc_properties_def

subsection \<open>Queries\<close>

definition known_properties :: "fst_props \<Rightarrow> fst_props" where
  "known_properties props =
     binary_properties OR (props AND trinary_properties)
     OR fp_shl (props AND pos_trinary_properties) 1
     OR fp_shr (props AND neg_trinary_properties) 1"

definition knows :: "fst_props \<Rightarrow> fst_props \<Rightarrow> bool" where
  "knows self props = contains (known_properties self) props"

definition compat_properties :: "fst_props \<Rightarrow> fst_props \<Rightarrow> bool" where
  "compat_properties props1 props2 =
     (let known_props1 = known_properties props1;
          known_props2 = known_properties props2;
          known_props = known_props1 AND known_props2;
          incompat_props = (props1 AND known_props) XOR (props2 AND known_props)
      in incompat_props = 0)"

text \<open>The masks as numbers, for evaluation.\<close>

lemma mask_nums:
  "fp_null_properties = 0x956a5a950000"
  "fp_copy_properties = 0xffffffff0000"
  "fp_set_start_properties = 0xcccfffff0000"
  "fp_set_final_properties = 0xc3fcffff0000"
  "fp_add_state_properties = 0xeaffffff0000"
  "fp_add_arc_properties = 0x4595a56a0000"
  "fp_delete_states_properties = 0x806a5a950000"
  "fp_delete_arcs_properties = 0x8a6a5a950000"
  "fp_statesort_properties = 0xcf3fffff0000"
  "fp_arcsort_properties = 0xffff0fff0000"
  "fp_i_label_invariant_properties = 0xffffcc300000"
  "fp_o_label_invariant_properties = 0xffff330c0000"
  "fp_weight_invariant_properties = 0x3ffcffff0000"
  "fp_add_super_final_properties = 0xeebfa56a0000"
  "fp_rm_super_final_properties = 0xdd7f5a970000"
  by (simp_all add: mask_defs flag_defs)

subsection \<open>Reading single bits\<close>

lemma bit_lt_64: "bit (p :: fst_props) n \<Longrightarrow> n < 64"
  using bit_imp_le_length [of p n] by simp

lemma contains_bit_iff: "contains p f \<longleftrightarrow> (\<forall>n. bit f n \<longrightarrow> bit p n)"
  unfolding contains_def bit_eq_iff by (auto simp: bit_and_iff dest: bit_lt_64)

lemma contains_exp: "m < 64 \<Longrightarrow> contains p (2 ^ m) \<longleftrightarrow> bit p m"
  by (auto simp: contains_bit_iff bit_exp_iff)

lemma bit_exp_64: "m < 64 \<Longrightarrow> bit (2 ^ m :: fst_props) n \<longleftrightarrow> n = m"
  by (auto simp: bit_exp_iff)

text \<open>The single bit of each flag.\<close>

lemma flag_bits:
  "bit ACCEPTOR n \<longleftrightarrow> n = 16"
  "bit NOT_ACCEPTOR n \<longleftrightarrow> n = 17"
  "bit I_DETERMINISTIC n \<longleftrightarrow> n = 18"
  "bit NOT_I_DETERMINISTIC n \<longleftrightarrow> n = 19"
  "bit O_DETERMINISTIC n \<longleftrightarrow> n = 20"
  "bit NOT_O_DETERMINISTIC n \<longleftrightarrow> n = 21"
  "bit EPSILONS n \<longleftrightarrow> n = 22"
  "bit NO_EPSILONS n \<longleftrightarrow> n = 23"
  "bit I_EPSILONS n \<longleftrightarrow> n = 24"
  "bit NO_I_EPSILONS n \<longleftrightarrow> n = 25"
  "bit O_EPSILONS n \<longleftrightarrow> n = 26"
  "bit NO_O_EPSILONS n \<longleftrightarrow> n = 27"
  "bit I_LABEL_SORTED n \<longleftrightarrow> n = 28"
  "bit NOT_I_LABEL_SORTED n \<longleftrightarrow> n = 29"
  "bit O_LABEL_SORTED n \<longleftrightarrow> n = 30"
  "bit NOT_O_LABEL_SORTED n \<longleftrightarrow> n = 31"
  "bit WEIGHTED n \<longleftrightarrow> n = 32"
  "bit UNWEIGHTED n \<longleftrightarrow> n = 33"
  "bit CYCLIC n \<longleftrightarrow> n = 34"
  "bit ACYCLIC n \<longleftrightarrow> n = 35"
  "bit INITIAL_CYCLIC n \<longleftrightarrow> n = 36"
  "bit INITIAL_ACYCLIC n \<longleftrightarrow> n = 37"
  "bit TOP_SORTED n \<longleftrightarrow> n = 38"
  "bit NOT_TOP_SORTED n \<longleftrightarrow> n = 39"
  "bit ACCESSIBLE n \<longleftrightarrow> n = 40"
  "bit NOT_ACCESSIBLE n \<longleftrightarrow> n = 41"
  "bit COACCESSIBLE n \<longleftrightarrow> n = 42"
  "bit NOT_COACCESSIBLE n \<longleftrightarrow> n = 43"
  "bit STRING n \<longleftrightarrow> n = 44"
  "bit NOT_STRING n \<longleftrightarrow> n = 45"
  "bit WEIGHTED_CYCLES n \<longleftrightarrow> n = 46"
  "bit UNWEIGHTED_CYCLES n \<longleftrightarrow> n = 47"
  using
    bit_exp_64 [of 16 n] bit_exp_64 [of 17 n] bit_exp_64 [of 18 n] bit_exp_64 [of 19 n]
    bit_exp_64 [of 20 n] bit_exp_64 [of 21 n] bit_exp_64 [of 22 n] bit_exp_64 [of 23 n]
    bit_exp_64 [of 24 n] bit_exp_64 [of 25 n] bit_exp_64 [of 26 n] bit_exp_64 [of 27 n]
    bit_exp_64 [of 28 n] bit_exp_64 [of 29 n] bit_exp_64 [of 30 n] bit_exp_64 [of 31 n]
    bit_exp_64 [of 32 n] bit_exp_64 [of 33 n] bit_exp_64 [of 34 n] bit_exp_64 [of 35 n]
    bit_exp_64 [of 36 n] bit_exp_64 [of 37 n] bit_exp_64 [of 38 n] bit_exp_64 [of 39 n]
    bit_exp_64 [of 40 n] bit_exp_64 [of 41 n] bit_exp_64 [of 42 n] bit_exp_64 [of 43 n]
    bit_exp_64 [of 44 n] bit_exp_64 [of 45 n] bit_exp_64 [of 46 n] bit_exp_64 [of 47 n]
  by (simp_all add: flag_defs)

text \<open>Each flag is one bit, so \<open>contains\<close> reads it.\<close>

lemma contains_flags [simp]:
  "contains p ACCEPTOR \<longleftrightarrow> bit p 16"
  "contains p NOT_ACCEPTOR \<longleftrightarrow> bit p 17"
  "contains p I_DETERMINISTIC \<longleftrightarrow> bit p 18"
  "contains p NOT_I_DETERMINISTIC \<longleftrightarrow> bit p 19"
  "contains p O_DETERMINISTIC \<longleftrightarrow> bit p 20"
  "contains p NOT_O_DETERMINISTIC \<longleftrightarrow> bit p 21"
  "contains p EPSILONS \<longleftrightarrow> bit p 22"
  "contains p NO_EPSILONS \<longleftrightarrow> bit p 23"
  "contains p I_EPSILONS \<longleftrightarrow> bit p 24"
  "contains p NO_I_EPSILONS \<longleftrightarrow> bit p 25"
  "contains p O_EPSILONS \<longleftrightarrow> bit p 26"
  "contains p NO_O_EPSILONS \<longleftrightarrow> bit p 27"
  "contains p I_LABEL_SORTED \<longleftrightarrow> bit p 28"
  "contains p NOT_I_LABEL_SORTED \<longleftrightarrow> bit p 29"
  "contains p O_LABEL_SORTED \<longleftrightarrow> bit p 30"
  "contains p NOT_O_LABEL_SORTED \<longleftrightarrow> bit p 31"
  "contains p WEIGHTED \<longleftrightarrow> bit p 32"
  "contains p UNWEIGHTED \<longleftrightarrow> bit p 33"
  "contains p CYCLIC \<longleftrightarrow> bit p 34"
  "contains p ACYCLIC \<longleftrightarrow> bit p 35"
  "contains p INITIAL_CYCLIC \<longleftrightarrow> bit p 36"
  "contains p INITIAL_ACYCLIC \<longleftrightarrow> bit p 37"
  "contains p TOP_SORTED \<longleftrightarrow> bit p 38"
  "contains p NOT_TOP_SORTED \<longleftrightarrow> bit p 39"
  "contains p ACCESSIBLE \<longleftrightarrow> bit p 40"
  "contains p NOT_ACCESSIBLE \<longleftrightarrow> bit p 41"
  "contains p COACCESSIBLE \<longleftrightarrow> bit p 42"
  "contains p NOT_COACCESSIBLE \<longleftrightarrow> bit p 43"
  "contains p STRING \<longleftrightarrow> bit p 44"
  "contains p NOT_STRING \<longleftrightarrow> bit p 45"
  "contains p WEIGHTED_CYCLES \<longleftrightarrow> bit p 46"
  "contains p UNWEIGHTED_CYCLES \<longleftrightarrow> bit p 47"
  using
    contains_exp [of 16 p] contains_exp [of 17 p] contains_exp [of 18 p] contains_exp [of 19 p]
    contains_exp [of 20 p] contains_exp [of 21 p] contains_exp [of 22 p] contains_exp [of 23 p]
    contains_exp [of 24 p] contains_exp [of 25 p] contains_exp [of 26 p] contains_exp [of 27 p]
    contains_exp [of 28 p] contains_exp [of 29 p] contains_exp [of 30 p] contains_exp [of 31 p]
    contains_exp [of 32 p] contains_exp [of 33 p] contains_exp [of 34 p] contains_exp [of 35 p]
    contains_exp [of 36 p] contains_exp [of 37 p] contains_exp [of 38 p] contains_exp [of 39 p]
    contains_exp [of 40 p] contains_exp [of 41 p] contains_exp [of 42 p] contains_exp [of 43 p]
    contains_exp [of 44 p] contains_exp [of 45 p] contains_exp [of 46 p] contains_exp [of 47 p]
  by (simp_all add: flag_defs)

lemma bit_fp_not [simp]: "bit (fp_not p) n \<longleftrightarrow> 16 \<le> n \<and> n < 48 \<and> \<not> bit p n"
proof -
  have "bit fp_declared n \<longleftrightarrow> 16 \<le> n \<and> n < 48"
  proof -
    have d: "fp_declared = push_bit 16 (mask 32)"
      by (simp add: fp_declared_def mask_eq_exp_minus_1)
    show ?thesis unfolding d bit_push_bit_iff bit_mask_iff by auto
  qed
  then show ?thesis
    by (auto simp: fp_not_def from_bits_truncate_def bit_and_iff bit_not_iff)
qed

lemmas flag_nums = flag_defs mask_nums fp_set_arc_properties_def

end
