(* ===== verification/Tr.thy ===== *)
theory Tr
  imports Semiring
begin

text \<open>Transitions (\<open>tr.rs\<close>) and the iterators over their labels that several parts share.\<close>

record 'w tr =
  ilabel :: label
  olabel :: label
  weight :: 'w
  nextstate :: state_id

definition tr_new :: "label \<Rightarrow> label \<Rightarrow> 'w \<Rightarrow> state_id \<Rightarrow> 'w tr" where
  "tr_new il ol w n = \<lparr>ilabel = il, olabel = ol, weight = w, nextstate = n\<rparr>"

definition tr_set_value :: "'w tr \<Rightarrow> 'w tr \<Rightarrow> 'w tr" where
  "tr_set_value self t = self\<lparr>ilabel := ilabel t, olabel := olabel t,
     weight := weight t, nextstate := nextstate t\<rparr>"

lemma tr_set_value [simp]: "tr_set_value self t = t"
  by (simp add: tr_set_value_def)

lemma tr_new_simps [simp]:
  "ilabel (tr_new il ol w n) = il" "olabel (tr_new il ol w n) = ol"
  "weight (tr_new il ol w n) = w" "nextstate (tr_new il ol w n) = n"
  by (simp_all add: tr_new_def)

text \<open>Number of epsilon labels in a list of transitions.\<close>

definition count_ieps :: "'w tr list \<Rightarrow> nat" where
  "count_ieps ts = length (filter (\<lambda>t. ilabel t = EPS_LABEL) ts)"

definition count_oeps :: "'w tr list \<Rightarrow> nat" where
  "count_oeps ts = length (filter (\<lambda>t. olabel t = EPS_LABEL) ts)"

lemma count_eps_simps [simp]:
  "count_ieps [] = 0" "count_oeps [] = 0"
  "count_ieps (t # ts) = (if ilabel t = EPS_LABEL then Suc (count_ieps ts) else count_ieps ts)"
  "count_oeps (t # ts) = (if olabel t = EPS_LABEL then Suc (count_oeps ts) else count_oeps ts)"
  "count_ieps (ts @ us) = count_ieps ts + count_ieps us"
  "count_oeps (ts @ us) = count_oeps ts + count_oeps us"
  by (simp_all add: count_ieps_def count_oeps_def)

lemma count_eps_mset:
  "mset ts = mset us \<Longrightarrow> count_ieps ts = count_ieps us"
  "mset ts = mset us \<Longrightarrow> count_oeps ts = count_oeps us"
  by (metis count_ieps_def mset_filter size_mset) (metis count_oeps_def mset_filter size_mset)

text \<open>Removing or replacing one transition.\<close>

lemma count_eps_remove:
  assumes "i < length ts"
  shows "count_ieps ts = count_ieps (vec_remove ts i) + (if ilabel (ts ! i) = EPS_LABEL then 1 else 0)"
    and "count_oeps ts = count_oeps (vec_remove ts i) + (if olabel (ts ! i) = EPS_LABEL then 1 else 0)"
proof -
  have ts: "ts = take i ts @ ts ! i # drop (Suc i) ts"
    using assms by (simp add: id_take_nth_drop)
  show "count_ieps ts = count_ieps (vec_remove ts i) + (if ilabel (ts ! i) = EPS_LABEL then 1 else 0)"
    by (subst ts) (simp add: vec_remove_def)
  show "count_oeps ts = count_oeps (vec_remove ts i) + (if olabel (ts ! i) = EPS_LABEL then 1 else 0)"
    by (subst ts) (simp add: vec_remove_def)
qed

lemma count_eps_update:
  assumes "i < length ts"
  shows "count_ieps (ts[i := t]) + (if ilabel (ts ! i) = EPS_LABEL then 1 else 0) =
         count_ieps ts + (if ilabel t = EPS_LABEL then 1 else 0)"
    and "count_oeps (ts[i := t]) + (if olabel (ts ! i) = EPS_LABEL then 1 else 0) =
         count_oeps ts + (if olabel t = EPS_LABEL then 1 else 0)"
proof -
  have u: "ts[i := t] = take i ts @ t # drop (Suc i) ts"
    using assms by (simp add: upd_conv_take_nth_drop)
  have ts: "ts = take i ts @ ts ! i # drop (Suc i) ts"
    using assms by (simp add: id_take_nth_drop)
  show "count_ieps (ts[i := t]) + (if ilabel (ts ! i) = EPS_LABEL then 1 else 0) =
         count_ieps ts + (if ilabel t = EPS_LABEL then 1 else 0)"
    by (subst u, subst (3) ts) simp
  show "count_oeps (ts[i := t]) + (if olabel (ts ! i) = EPS_LABEL then 1 else 0) =
         count_oeps ts + (if olabel t = EPS_LABEL then 1 else 0)"
    by (subst u, subst (3) ts) simp
qed

end
