(* ===== verification/Mutate_Properties.thy ===== *)
theory Mutate_Properties
  imports Fst_Properties Tr
begin

text \<open>
  How the property bits of an FST change under each operation
  (\<open>fst_properties/mutate_properties.rs\<close>). Every function is the source's sequence of
  assignments to \<open>outprops\<close>.
\<close>

text \<open>\<open>ProjectType\<close> of \<open>algorithms/projection.rs\<close>.\<close>

datatype project_type = ProjectInput | ProjectOutput

subsection \<open>Changes made one element at a time\<close>

definition set_final_properties ::
  "'w semiring \<Rightarrow> fst_props \<Rightarrow> 'w option \<Rightarrow> 'w option \<Rightarrow> fst_props" where
  "set_final_properties W inprops old_weight new_weight =
     (let outprops = inprops;
          outprops = (case old_weight of
              Some w \<Rightarrow> if \<not> is_zero W w \<and> \<not> is_one W w then outprops AND fp_not WEIGHTED else outprops
            | None \<Rightarrow> outprops);
          outprops = (case new_weight of
              Some w \<Rightarrow> if \<not> is_zero W w \<and> \<not> is_one W w
                then (outprops OR WEIGHTED) AND fp_not UNWEIGHTED else outprops
            | None \<Rightarrow> outprops)
      in outprops AND (fp_set_final_properties OR WEIGHTED OR UNWEIGHTED))"

definition add_tr_properties ::
  "'w semiring \<Rightarrow> fst_props \<Rightarrow> state_id \<Rightarrow> 'w tr \<Rightarrow> 'w tr option \<Rightarrow> fst_props" where
  "add_tr_properties W inprops state t prev_tr =
     (let outprops = inprops;
          outprops = (if ilabel t \<noteq> olabel t
            then (outprops OR NOT_ACCEPTOR) AND fp_not ACCEPTOR else outprops);
          outprops = (if ilabel t = EPS_LABEL
            then (let outprops = (outprops OR I_EPSILONS) AND fp_not NO_I_EPSILONS
                  in if olabel t = EPS_LABEL
                     then (outprops OR EPSILONS) AND fp_not NO_EPSILONS else outprops)
            else outprops);
          outprops = (if olabel t = EPS_LABEL
            then (outprops OR O_EPSILONS) AND fp_not NO_O_EPSILONS else outprops);
          outprops = (case prev_tr of
              Some p \<Rightarrow>
                (let outprops = (if ilabel p > ilabel t
                       then (outprops OR NOT_I_LABEL_SORTED) AND fp_not I_LABEL_SORTED else outprops)
                 in if olabel p > olabel t
                    then (outprops OR NOT_O_LABEL_SORTED) AND fp_not O_LABEL_SORTED else outprops)
            | None \<Rightarrow> outprops);
          outprops = (if \<not> is_zero W (weight t) \<and> \<not> is_one W (weight t)
            then (outprops OR WEIGHTED) AND fp_not UNWEIGHTED else outprops);
          outprops = (if nextstate t \<le> state
            then (outprops OR NOT_TOP_SORTED) AND fp_not TOP_SORTED else outprops);
          outprops = outprops AND (fp_add_arc_properties OR ACCEPTOR OR NO_EPSILONS OR
            NO_I_EPSILONS OR NO_O_EPSILONS OR I_LABEL_SORTED OR O_LABEL_SORTED OR UNWEIGHTED OR
            TOP_SORTED)
      in if contains outprops TOP_SORTED then outprops OR (ACYCLIC OR INITIAL_ACYCLIC)
         else outprops)"

definition set_start_properties :: "fst_props \<Rightarrow> fst_props" where
  "set_start_properties inprops =
     (let
      outprops = inprops AND fp_set_start_properties;
      outprops = (if contains inprops ACYCLIC
        then outprops OR INITIAL_ACYCLIC
        else outprops)
      in outprops)"

definition add_state_properties :: "fst_props \<Rightarrow> fst_props" where
  "add_state_properties inprops = inprops AND fp_add_state_properties"

definition delete_states_properties :: "fst_props \<Rightarrow> fst_props" where
  "delete_states_properties inprops = inprops AND fp_delete_states_properties"

definition delete_all_states_properties :: "fst_props" where
  "delete_all_states_properties = fp_null_properties"

definition delete_trs_properties :: "fst_props \<Rightarrow> fst_props" where
  "delete_trs_properties inprops = inprops AND fp_delete_arcs_properties"

definition closure_properties :: "fst_props \<Rightarrow> bool \<Rightarrow> fst_props" where
  "closure_properties inprops delayed =
     (let
      outprops = (ACCEPTOR OR UNWEIGHTED OR ACCESSIBLE) AND inprops;
      outprops = (if contains inprops UNWEIGHTED
        then outprops OR UNWEIGHTED_CYCLES
        else outprops);
      outprops = (if \<not> delayed
        then outprops OR ((COACCESSIBLE OR NOT_TOP_SORTED OR NOT_STRING) AND inprops)
        else outprops);
      outprops = (if \<not> delayed \<or> contains inprops ACCESSIBLE
        then (let
               outprops = outprops OR ((NOT_ACCEPTOR OR NOT_I_DETERMINISTIC OR
                 NOT_O_DETERMINISTIC OR NOT_I_LABEL_SORTED OR NOT_O_LABEL_SORTED OR WEIGHTED OR
                 WEIGHTED_CYCLES OR NOT_ACCESSIBLE OR NOT_COACCESSIBLE) AND inprops);
               outprops = (if contains inprops WEIGHTED \<and> contains inprops ACCESSIBLE
                 \<and> contains inprops COACCESSIBLE
                 then outprops OR WEIGHTED_CYCLES
                 else outprops)
            in outprops)
        else outprops)
      in outprops)"

definition compose_properties :: "fst_props \<Rightarrow> fst_props \<Rightarrow> fst_props" where
  "compose_properties inprops1 inprops2 =
     (let
      outprops = 0;
      outprops = (if contains inprops1 ACCEPTOR \<and> contains inprops2 ACCEPTOR
        then (let
               outprops = outprops OR (ACCEPTOR OR ACCESSIBLE);
               outprops = outprops OR ((NO_EPSILONS OR NO_I_EPSILONS OR NO_O_EPSILONS OR
                 ACYCLIC OR INITIAL_ACYCLIC) AND inprops1 AND inprops2);
               outprops = (if contains inprops1 NO_I_EPSILONS \<and> contains inprops2
                 NO_I_EPSILONS
                 then outprops OR ((I_DETERMINISTIC OR O_DETERMINISTIC) AND inprops1 AND inprops2)
                 else outprops)
            in outprops)
        else (let
               outprops = outprops OR ACCESSIBLE;
               outprops = outprops OR ((ACCEPTOR OR NO_I_EPSILONS OR ACYCLIC OR
                 INITIAL_ACYCLIC) AND inprops1 AND inprops2);
               outprops = (if contains inprops1 NO_I_EPSILONS \<and> contains inprops2
                 NO_I_EPSILONS
                 then outprops OR (I_DETERMINISTIC AND inprops1 AND inprops2)
                 else outprops)
            in outprops))
      in outprops)"

definition concat_properties :: "fst_props \<Rightarrow> fst_props \<Rightarrow> bool \<Rightarrow> fst_props" where
  "concat_properties inprops1 inprops2 delayed =
     (let
      outprops = (ACCEPTOR OR UNWEIGHTED OR UNWEIGHTED_CYCLES OR ACYCLIC) AND inprops1 AND
        inprops2;
      empty1 = delayed;
      empty2 = delayed;
      outprops = (if \<not> delayed
        then (let
               outprops = outprops OR ((NOT_TOP_SORTED OR NOT_STRING) AND inprops1);
               outprops = outprops OR ((NOT_TOP_SORTED OR NOT_STRING) AND inprops2)
            in outprops)
        else outprops);
      outprops = (if \<not> empty1
        then outprops OR ((INITIAL_ACYCLIC OR INITIAL_CYCLIC) AND inprops1)
        else outprops);
      outprops = (if \<not> delayed \<or> contains inprops1 ACCESSIBLE
        then outprops OR ((NOT_ACCEPTOR OR NOT_I_DETERMINISTIC OR NOT_O_DETERMINISTIC OR EPSILONS
            OR I_EPSILONS OR O_EPSILONS OR NOT_I_LABEL_SORTED OR NOT_O_LABEL_SORTED OR WEIGHTED
            OR WEIGHTED_CYCLES OR CYCLIC OR NOT_ACCESSIBLE OR NOT_COACCESSIBLE) AND inprops1)
        else outprops);
      outprops = (if (contains inprops1 (ACCESSIBLE OR COACCESSIBLE)) \<and> \<not> empty1
        then (let
               outprops = outprops OR (ACCESSIBLE AND inprops2);
               outprops = (if \<not> empty2
                 then outprops OR (COACCESSIBLE AND inprops2)
                 else outprops);
               outprops = (if \<not> delayed \<or> contains inprops2 ACCESSIBLE
                 then outprops OR ((NOT_ACCEPTOR OR NOT_I_DETERMINISTIC OR NOT_O_DETERMINISTIC OR
                     EPSILONS OR I_EPSILONS OR O_EPSILONS OR NOT_I_LABEL_SORTED OR
                     NOT_O_LABEL_SORTED OR WEIGHTED OR WEIGHTED_CYCLES OR CYCLIC OR
                     NOT_ACCESSIBLE OR NOT_COACCESSIBLE) AND inprops2)
                 else outprops)
            in outprops)
        else outprops)
      in outprops)"

definition determinize_properties :: "fst_props \<Rightarrow> bool \<Rightarrow> bool \<Rightarrow> fst_props" where
  "determinize_properties inprops has_subsequential_label distinct_psubsequential_labels =
     (let
      outprops = ACCESSIBLE;
      outprops = (if contains inprops ACCEPTOR \<or> (contains inprops NO_I_EPSILONS \<and>
        distinct_psubsequential_labels) \<or> (has_subsequential_label \<and>
        distinct_psubsequential_labels)
        then outprops OR I_DETERMINISTIC
        else outprops);
      outprops = outprops OR ((ACCEPTOR OR ACYCLIC OR INITIAL_ACYCLIC OR COACCESSIBLE OR
        STRING) AND inprops);
      outprops = (if contains inprops NO_I_EPSILONS \<and> distinct_psubsequential_labels
        then outprops OR (NO_EPSILONS AND inprops)
        else outprops);
      outprops = (if contains inprops ACCESSIBLE
        then outprops OR ((I_EPSILONS OR O_EPSILONS OR CYCLIC) AND inprops)
        else outprops);
      outprops = (if contains inprops ACCEPTOR
        then outprops OR ((NO_I_EPSILONS OR NO_O_EPSILONS) AND inprops)
        else outprops);
      outprops = (if contains inprops NO_I_EPSILONS \<and> has_subsequential_label
        then outprops OR NO_I_EPSILONS
        else outprops)
      in outprops)"

definition factor_weight_properties :: "fst_props \<Rightarrow> fst_props" where
  "factor_weight_properties inprops =
     (let
      outprops = (ACCEPTOR OR ACYCLIC OR ACCESSIBLE OR COACCESSIBLE) AND inprops;
      outprops = (if contains inprops ACCESSIBLE
        then outprops OR ((NOT_ACCEPTOR OR NOT_I_DETERMINISTIC OR NOT_O_DETERMINISTIC OR EPSILONS
            OR I_EPSILONS OR O_EPSILONS OR CYCLIC OR NOT_I_LABEL_SORTED OR NOT_O_LABEL_SORTED)
            AND inprops)
        else outprops)
      in outprops)"

definition invert_properties :: "fst_props \<Rightarrow> fst_props" where
  "invert_properties inprops =
     (let
      outprops = (ACCEPTOR OR NOT_ACCEPTOR OR EPSILONS OR NO_EPSILONS OR WEIGHTED OR UNWEIGHTED
        OR WEIGHTED_CYCLES OR UNWEIGHTED_CYCLES OR CYCLIC OR ACYCLIC OR INITIAL_CYCLIC OR
        INITIAL_ACYCLIC OR TOP_SORTED OR NOT_TOP_SORTED OR ACCESSIBLE OR NOT_ACCESSIBLE OR
        COACCESSIBLE OR NOT_COACCESSIBLE OR STRING OR NOT_STRING) AND inprops;
      outprops = (if contains inprops I_DETERMINISTIC
        then outprops OR O_DETERMINISTIC
        else outprops);
      outprops = (if contains inprops NOT_I_DETERMINISTIC
        then outprops OR NOT_O_DETERMINISTIC
        else outprops);
      outprops = (if contains inprops O_DETERMINISTIC
        then outprops OR I_DETERMINISTIC
        else outprops);
      outprops = (if contains inprops NOT_O_DETERMINISTIC
        then outprops OR NOT_I_DETERMINISTIC
        else outprops);
      outprops = (if contains inprops I_EPSILONS
        then outprops OR O_EPSILONS
        else outprops);
      outprops = (if contains inprops NO_I_EPSILONS
        then outprops OR NO_O_EPSILONS
        else outprops);
      outprops = (if contains inprops O_EPSILONS
        then outprops OR I_EPSILONS
        else outprops);
      outprops = (if contains inprops NO_O_EPSILONS
        then outprops OR NO_I_EPSILONS
        else outprops);
      outprops = (if contains inprops I_LABEL_SORTED
        then outprops OR O_LABEL_SORTED
        else outprops);
      outprops = (if contains inprops NOT_I_LABEL_SORTED
        then outprops OR NOT_O_LABEL_SORTED
        else outprops);
      outprops = (if contains inprops O_LABEL_SORTED
        then outprops OR I_LABEL_SORTED
        else outprops);
      outprops = (if contains inprops NOT_O_LABEL_SORTED
        then outprops OR NOT_I_LABEL_SORTED
        else outprops)
      in outprops)"

definition rand_gen_properties :: "fst_props \<Rightarrow> bool \<Rightarrow> fst_props" where
  "rand_gen_properties inprops weighted =
     (let
      outprops = ACYCLIC OR INITIAL_ACYCLIC OR ACCESSIBLE OR UNWEIGHTED_CYCLES;
      outprops = (if weighted
        then (let
               outprops = outprops OR TOP_SORTED;
               outprops = outprops OR ((ACCEPTOR OR NO_EPSILONS OR NO_I_EPSILONS OR
                 NO_O_EPSILONS OR I_DETERMINISTIC OR O_DETERMINISTIC OR I_LABEL_SORTED OR
                 O_LABEL_SORTED) AND inprops)
            in outprops)
        else (let
               outprops = outprops OR UNWEIGHTED;
               outprops = outprops OR ((ACCEPTOR OR I_LABEL_SORTED OR O_LABEL_SORTED) AND
                 inprops)
            in outprops))
      in outprops)"

definition relabel_properties :: "fst_props \<Rightarrow> fst_props" where
  "relabel_properties inprops =
     (let
      outprops = WEIGHTED OR UNWEIGHTED OR WEIGHTED_CYCLES OR UNWEIGHTED_CYCLES OR CYCLIC OR
        ACYCLIC OR INITIAL_CYCLIC OR INITIAL_ACYCLIC OR TOP_SORTED OR NOT_TOP_SORTED OR
        ACCESSIBLE OR NOT_ACCESSIBLE OR COACCESSIBLE OR NOT_COACCESSIBLE OR STRING OR
        NOT_STRING
      in outprops AND inprops)"

definition reverse_properties :: "fst_props \<Rightarrow> bool \<Rightarrow> fst_props" where
  "reverse_properties inprops has_superinitial =
     (let
      outprops = (ACCEPTOR OR NOT_ACCEPTOR OR EPSILONS OR I_EPSILONS OR O_EPSILONS OR
        UNWEIGHTED OR CYCLIC OR ACYCLIC OR WEIGHTED_CYCLES OR UNWEIGHTED_CYCLES) AND inprops;
      outprops = (if has_superinitial
        then outprops OR (WEIGHTED AND inprops)
        else outprops)
      in outprops)"

definition reweight_properties :: "fst_props \<Rightarrow> fst_props" where
  "reweight_properties inprops =
     (let
      outprops = inprops AND fp_weight_invariant_properties;
      outprops = outprops AND fp_not COACCESSIBLE
      in outprops)"

definition rmepsilon_properties :: "fst_props \<Rightarrow> bool \<Rightarrow> fst_props" where
  "rmepsilon_properties inprops delayed =
     (let
      outprops = NO_EPSILONS;
      outprops = outprops OR ((ACCEPTOR OR ACYCLIC OR INITIAL_ACYCLIC) AND inprops);
      outprops = (if contains inprops ACCEPTOR
        then outprops OR (NO_I_EPSILONS OR NO_O_EPSILONS)
        else outprops);
      outprops = (if \<not> delayed
        then outprops OR (TOP_SORTED AND inprops)
        else outprops);
      outprops = (if \<not> delayed \<or> contains inprops ACCESSIBLE
        then outprops OR (NOT_ACCEPTOR AND inprops)
        else outprops)
      in outprops)"

definition shortest_path_properties :: "fst_props \<Rightarrow> bool \<Rightarrow> fst_props" where
  "shortest_path_properties props tree =
     (let
      outprops = props OR ACYCLIC OR INITIAL_ACYCLIC OR ACCESSIBLE OR UNWEIGHTED_CYCLES;
      outprops = (if \<not> tree
        then outprops OR COACCESSIBLE
        else outprops)
      in outprops)"

definition synchronization_properties :: "fst_props \<Rightarrow> fst_props" where
  "synchronization_properties inprops =
     (let
      outprops = (ACCEPTOR OR ACYCLIC OR ACCESSIBLE OR COACCESSIBLE OR UNWEIGHTED OR
        UNWEIGHTED_CYCLES) AND inprops;
      outprops = (if contains inprops ACCESSIBLE
        then outprops OR ((CYCLIC OR NOT_COACCESSIBLE OR WEIGHTED OR WEIGHTED_CYCLES) AND inprops)
        else outprops)
      in outprops)"

definition union_properties :: "fst_props \<Rightarrow> fst_props \<Rightarrow> bool \<Rightarrow> fst_props" where
  "union_properties inprops1 inprops2 delayed =
     (let
      outprops = (ACCEPTOR OR UNWEIGHTED OR UNWEIGHTED_CYCLES OR ACYCLIC OR ACCESSIBLE) AND
        inprops1 AND inprops2;
      outprops = outprops OR INITIAL_ACYCLIC;
      empty1 = delayed;
      empty2 = delayed;
      outprops = (if \<not> delayed
        then (let
               outprops = outprops OR (NOT_TOP_SORTED AND inprops1);
               outprops = outprops OR (NOT_TOP_SORTED AND inprops2)
            in outprops)
        else outprops);
      outprops = (if \<not> empty1 \<and> \<not> empty2
        then (let
               outprops = outprops OR (EPSILONS OR I_EPSILONS OR O_EPSILONS);
               outprops = outprops OR (COACCESSIBLE AND inprops1 AND inprops2)
            in outprops)
        else outprops);
      outprops = (if \<not> delayed \<or> contains inprops1 ACCESSIBLE
        then outprops OR ((NOT_ACCEPTOR OR NOT_I_DETERMINISTIC OR NOT_O_DETERMINISTIC OR EPSILONS
            OR I_EPSILONS OR O_EPSILONS OR NOT_I_LABEL_SORTED OR NOT_O_LABEL_SORTED OR WEIGHTED
            OR WEIGHTED_CYCLES OR CYCLIC OR NOT_ACCESSIBLE) AND inprops1)
        else outprops);
      outprops = (if \<not> delayed \<or> contains inprops2 ACCESSIBLE
        then outprops OR ((NOT_ACCEPTOR OR NOT_I_DETERMINISTIC OR NOT_O_DETERMINISTIC OR EPSILONS
            OR I_EPSILONS OR O_EPSILONS OR NOT_I_LABEL_SORTED OR NOT_O_LABEL_SORTED OR WEIGHTED
            OR WEIGHTED_CYCLES OR CYCLIC OR NOT_ACCESSIBLE OR NOT_COACCESSIBLE) AND inprops2)
        else outprops)
      in outprops)"

definition project_properties :: "fst_props \<Rightarrow> project_type \<Rightarrow> fst_props" where
  "project_properties inprops project_type =
     (let
      outprops = ACCEPTOR;
      outprops = outprops OR ((WEIGHTED OR UNWEIGHTED OR WEIGHTED_CYCLES OR UNWEIGHTED_CYCLES OR
        CYCLIC OR ACYCLIC OR INITIAL_CYCLIC OR INITIAL_ACYCLIC OR TOP_SORTED OR NOT_TOP_SORTED OR
        ACCESSIBLE OR NOT_ACCESSIBLE OR COACCESSIBLE OR NOT_COACCESSIBLE OR STRING OR NOT_STRING)
        AND inprops)
      in case project_type of
        ProjectInput \<Rightarrow> (let
          outprops = outprops OR ((I_DETERMINISTIC OR NOT_I_DETERMINISTIC OR I_EPSILONS OR
            NO_I_EPSILONS OR I_LABEL_SORTED OR NOT_I_LABEL_SORTED) AND inprops);
          outprops = (if contains inprops I_DETERMINISTIC then outprops OR O_DETERMINISTIC else outprops);
          outprops = (if contains inprops NOT_I_DETERMINISTIC then outprops OR NOT_O_DETERMINISTIC else outprops);
          outprops = (if contains inprops I_EPSILONS then outprops OR (O_EPSILONS OR EPSILONS) else outprops);
          outprops = (if contains inprops NO_I_EPSILONS then outprops OR (NO_O_EPSILONS OR NO_EPSILONS) else outprops);
          outprops = (if contains inprops I_LABEL_SORTED then outprops OR O_LABEL_SORTED else outprops);
          outprops = (if contains inprops NOT_I_LABEL_SORTED then outprops OR NOT_O_LABEL_SORTED else outprops)
          in outprops)
      | ProjectOutput \<Rightarrow> (let
          outprops = outprops OR ((O_DETERMINISTIC OR NOT_O_DETERMINISTIC OR O_EPSILONS OR
            NO_O_EPSILONS OR O_LABEL_SORTED OR NOT_O_LABEL_SORTED) AND inprops);
          outprops = (if contains inprops O_DETERMINISTIC then outprops OR I_DETERMINISTIC else outprops);
          outprops = (if contains inprops NOT_O_DETERMINISTIC then outprops OR NOT_I_DETERMINISTIC else outprops);
          outprops = (if contains inprops O_EPSILONS then outprops OR (I_EPSILONS OR EPSILONS) else outprops);
          outprops = (if contains inprops NO_O_EPSILONS then outprops OR (NO_I_EPSILONS OR NO_EPSILONS) else outprops);
          outprops = (if contains inprops O_LABEL_SORTED then outprops OR I_LABEL_SORTED else outprops);
          outprops = (if contains inprops NOT_O_LABEL_SORTED then outprops OR NOT_I_LABEL_SORTED else outprops)
          in outprops))"

end
