(* ===== verification/Symbol_Table.thy ===== *)
theory Symbol_Table
  imports Prelude
begin

text \<open>
  \<open>SymbolTable\<close> and its two-way map \<open>BiHashMapString\<close> (\<open>symbol_table.rs\<close>): the hash map from
  symbols to ids is a partial function, the vector from ids to symbols a list. Slots that
  \<open>insert_at\<close> creates below an explicit id hold the empty string.
\<close>

subsection \<open>The two-way map\<close>

record bimap =
  string_to_id :: "string \<rightharpoonup> nat"
  id_to_string :: "string list"

definition bimap_new :: bimap where
  "bimap_new = \<lparr>string_to_id = Map.empty, id_to_string = []\<rparr>"

definition get_id_or_insert :: "bimap \<Rightarrow> string \<Rightarrow> bimap \<times> nat" where
  "get_id_or_insert b v =
     (case string_to_id b v of
        Some i \<Rightarrow> (b, i)
      | None \<Rightarrow>
          (let n = length (id_to_string b)
           in (b\<lparr>id_to_string := id_to_string b @ [v], string_to_id := (string_to_id b)(v \<mapsto> n)\<rparr>, n)))"

text \<open>\<open>Vec::resize\<close> with empty strings.\<close>

definition resize_empty :: "string list \<Rightarrow> nat \<Rightarrow> string list" where
  "resize_empty xs n = take n xs @ replicate (n - length xs) ''''"

definition insert_at :: "bimap \<Rightarrow> string \<Rightarrow> nat \<Rightarrow> bimap" where
  "insert_at b v i =
     (let ids = (if length (id_to_string b) \<le> i then resize_empty (id_to_string b) (i + 1)
                 else id_to_string b)
      in b\<lparr>id_to_string := ids[i := v], string_to_id := (string_to_id b)(v \<mapsto> i)\<rparr>)"

definition bimap_get_id :: "bimap \<Rightarrow> string \<Rightarrow> nat option" where
  "bimap_get_id b v = string_to_id b v"

definition bimap_get_string :: "bimap \<Rightarrow> nat \<Rightarrow> string option" where
  "bimap_get_string b i = vec_get (id_to_string b) i"

definition bimap_iter_ids :: "bimap \<Rightarrow> nat list" where
  "bimap_iter_ids b = [0 ..< length (id_to_string b)]"

definition bimap_iter_strings :: "bimap \<Rightarrow> string list" where
  "bimap_iter_strings b = filter (\<lambda>s. s \<noteq> '''') (id_to_string b)"

definition bimap_iter :: "bimap \<Rightarrow> (nat \<times> string) list" where
  "bimap_iter b = filter (\<lambda>(_, s). s \<noteq> '''') (enumerate 0 (id_to_string b))"

subsection \<open>The symbol table\<close>

type_synonym symt = bimap

definition EPS_SYMBOL :: string where "EPS_SYMBOL = ''<eps>''"

definition symt_empty :: symt where
  "symt_empty = bimap_new"

text \<open>\<open>usize as Label\<close> keeps the low 32 bits.\<close>

definition as_label :: "nat \<Rightarrow> label" where
  "as_label n = of_nat n"

definition add_symbol :: "symt \<Rightarrow> string \<Rightarrow> symt \<times> label" where
  "add_symbol s sy = (let (b, i) = get_id_or_insert s sy in (b, as_label i))"

definition symt_new :: symt where
  "symt_new = fst (add_symbol symt_empty EPS_SYMBOL)"

definition symt_with_hasher :: symt where
  "symt_with_hasher = fst (get_id_or_insert bimap_new EPS_SYMBOL)"

definition add_symbols :: "symt \<Rightarrow> string list \<Rightarrow> symt" where
  "add_symbols s syms = fold (\<lambda>sy s. fst (add_symbol s sy)) syms s"

definition add_symbol_with_key :: "symt \<Rightarrow> string \<Rightarrow> label \<Rightarrow> symt" where
  "add_symbol_with_key s sy key = insert_at s sy (unat key)"

definition symt_len :: "symt \<Rightarrow> nat" where
  "symt_len s = length (id_to_string s)"

definition symt_is_empty :: "symt \<Rightarrow> bool" where
  "symt_is_empty s \<longleftrightarrow> symt_len s = 0"

definition get_label :: "symt \<Rightarrow> string \<Rightarrow> label option" where
  "get_label s sy = map_option as_label (bimap_get_id s sy)"

definition get_symbol :: "symt \<Rightarrow> label \<Rightarrow> string option" where
  "get_symbol s l = bimap_get_string s (unat l)"

definition contains_symbol :: "symt \<Rightarrow> string \<Rightarrow> bool" where
  "contains_symbol s sy \<longleftrightarrow> get_label s sy \<noteq> None"

definition contains_label :: "symt \<Rightarrow> label \<Rightarrow> bool" where
  "contains_label s l \<longleftrightarrow> get_symbol s l \<noteq> None"

definition symt_labels :: "symt \<Rightarrow> label list" where
  "symt_labels s = map as_label (bimap_iter_ids s)"

definition symt_symbols :: "symt \<Rightarrow> string list" where
  "symt_symbols s = bimap_iter_strings s"

definition symt_iter :: "symt \<Rightarrow> (label \<times> string) list" where
  "symt_iter s = map (\<lambda>(i, sy). (as_label i, sy)) (bimap_iter s)"

definition add_table :: "symt \<Rightarrow> symt \<Rightarrow> symt" where
  "add_table s other = add_symbols s (symt_symbols other)"

text \<open>Building a table from the parsed rows of a text file: labels must be dense.\<close>

definition from_parsed_symt_text :: "(string \<times> label) list \<Rightarrow> symt res" where
  "from_parsed_symt_text pairs =
     for_res (\<lambda>(sy, l) b.
       let (b', i) = get_id_or_insert b sy
       in if as_label i \<noteq> l
          then Inl (Bail ''The SymbolTable should contain labels with increasing ids and no hole.'')
          else Inr b') pairs bimap_new"

subsection \<open>The dense invariant\<close>

text \<open>
  Until an explicit key is used, the two maps are inverse to each other.
\<close>

definition symt_ok :: "symt \<Rightarrow> bool" where
  "symt_ok s \<longleftrightarrow>
     (\<forall>sy i. string_to_id s sy = Some i \<longleftrightarrow> i < length (id_to_string s) \<and> id_to_string s ! i = sy)"

lemma symt_ok_distinct: "symt_ok s \<Longrightarrow> distinct (id_to_string s)"
  unfolding symt_ok_def distinct_conv_nth by (metis option.inject)

lemma symt_ok_new [simp]: "symt_ok bimap_new"
  by (simp add: symt_ok_def bimap_new_def)

lemma get_id_or_insert_ok:
  assumes "symt_ok s"
  shows "symt_ok (fst (get_id_or_insert s sy))"
proof (cases "string_to_id s sy")
  case (Some i)
  with assms show ?thesis by (simp add: get_id_or_insert_def)
next
  case None
  with assms have "sy \<notin> set (id_to_string s)"
    by (metis in_set_conv_nth option.distinct(1) symt_ok_def)
  with None assms show ?thesis
    by (auto simp: get_id_or_insert_def symt_ok_def Let_def nth_append less_Suc_eq)
qed

lemma get_id_or_insert_id:
  assumes "symt_ok s" and "get_id_or_insert s sy = (s', i)"
  shows "string_to_id s' sy = Some i" "i < length (id_to_string s')" "id_to_string s' ! i = sy"
  using assms by (auto simp: get_id_or_insert_def symt_ok_def Let_def split: option.splits)

lemma get_id_or_insert_extends:
  assumes "get_id_or_insert s sy = (s', i)"
  shows "\<exists>zs. id_to_string s' = id_to_string s @ zs" "string_to_id s \<subseteq>\<^sub>m string_to_id s'"
  using assms by (auto simp: get_id_or_insert_def Let_def map_le_def split: option.splits)

lemma add_symbol_ok: "symt_ok s \<Longrightarrow> symt_ok (fst (add_symbol s sy))"
  using get_id_or_insert_ok [of s sy] by (auto simp: add_symbol_def split: prod.splits)

lemma add_symbols_ok: "symt_ok s \<Longrightarrow> symt_ok (add_symbols s syms)"
  unfolding add_symbols_def by (induction syms arbitrary: s) (auto simp: add_symbol_ok)

lemma symt_new_ok: "symt_ok symt_new"
  by (simp add: symt_new_def symt_empty_def add_symbol_ok)

lemma symt_new_eq: "symt_new = \<lparr>string_to_id = [EPS_SYMBOL \<mapsto> 0], id_to_string = [EPS_SYMBOL]\<rparr>"
  by (simp add: symt_new_def symt_empty_def add_symbol_def get_id_or_insert_def bimap_new_def)

lemma as_label_unat: "n < 2 ^ 32 \<Longrightarrow> unat (as_label n) = n"
  by (simp add: as_label_def unat_of_nat)

text \<open>
  The lookups are inverse to each other, as long as the table has at most \<open>2 ^ 32\<close> entries.
\<close>

lemma get_symbol_label_iff:
  assumes "symt_ok s" and "symt_len s \<le> 2 ^ 32"
  shows "get_label s sy = Some l \<longleftrightarrow> get_symbol s l = Some sy"
proof
  assume "get_label s sy = Some l"
  then obtain i where i: "string_to_id s sy = Some i" "l = as_label i"
    by (auto simp: get_label_def bimap_get_id_def)
  with assms(1) have "i < length (id_to_string s)" "id_to_string s ! i = sy"
    by (auto simp: symt_ok_def)
  with assms(2) i(2) show "get_symbol s l = Some sy"
    by (simp add: get_symbol_def bimap_get_string_def symt_len_def as_label_unat)
next
  assume "get_symbol s l = Some sy"
  with assms(1) have "string_to_id s sy = Some (unat l)"
    by (auto simp: get_symbol_def bimap_get_string_def symt_ok_def)
  then show "get_label s sy = Some l"
    by (simp add: get_label_def bimap_get_id_def as_label_def)
qed

lemma add_symbol_lookup:
  assumes "symt_ok s" and "symt_len (fst (add_symbol s sy)) \<le> 2 ^ 32"
  shows "get_symbol (fst (add_symbol s sy)) (snd (add_symbol s sy)) = Some sy"
proof -
  obtain s' i where a: "get_id_or_insert s sy = (s', i)"
    by (cases "get_id_or_insert s sy")
  have "get_label s' sy = Some (as_label i)"
    using get_id_or_insert_id(1) [OF assms(1) a] by (simp add: get_label_def bimap_get_id_def)
  moreover have "symt_ok s'" "symt_len s' \<le> 2 ^ 32"
    using get_id_or_insert_ok [OF assms(1), of sy] assms(2) a by (simp_all add: add_symbol_def)
  ultimately show ?thesis
    using a get_symbol_label_iff by (simp add: add_symbol_def)
qed

text \<open>Adding symbols never changes the label of a symbol that is there.\<close>

lemma add_symbol_stable:
  "get_label s sy = Some l \<Longrightarrow> get_label (fst (add_symbol s sy')) sy = Some l"
  by (auto simp: get_label_def bimap_get_id_def add_symbol_def get_id_or_insert_def Let_def
      split: option.splits)

lemma add_symbols_stable:
  "get_label s sy = Some l \<Longrightarrow> get_label (add_symbols s syms) sy = Some l"
  unfolding add_symbols_def by (induction syms arbitrary: s) (auto simp: add_symbol_stable)

lemma add_symbols_contains: "sy \<in> set syms \<Longrightarrow> contains_symbol (add_symbols s syms) sy"
proof (induction syms arbitrary: s)
  case Nil
  then show ?case by simp
next
  case (Cons x syms)
  have "get_label (fst (add_symbol s x)) x \<noteq> None"
    by (auto simp: get_label_def bimap_get_id_def add_symbol_def get_id_or_insert_def Let_def
        split: option.splits)
  then obtain l where l: "get_label (fst (add_symbol s x)) x = Some l" by auto
  show ?case
  proof (cases "sy = x")
    case True
    with add_symbols_stable [OF l, of syms] show ?thesis
      by (simp add: contains_symbol_def add_symbols_def)
  next
    case False
    with Cons show ?thesis by (simp add: add_symbols_def)
  qed
qed

subsection \<open>Tables built without explicit keys\<close>

inductive symt_built :: "symt \<Rightarrow> bool" where
  empty: "symt_built symt_empty"
| new: "symt_built symt_new"
| hasher: "symt_built symt_with_hasher"
| parsed: "from_parsed_symt_text rows = Inr s \<Longrightarrow> symt_built s"
| add: "symt_built s \<Longrightarrow> symt_built (fst (add_symbol s sy))"
| adds: "symt_built s \<Longrightarrow> symt_built (add_symbols s syms)"
| table: "symt_built s \<Longrightarrow> symt_built (add_table s other)"

lemma parsed_rows_ok:
  assumes "from_parsed_symt_text rows = Inr s"
  shows "symt_ok s"
  using assms unfolding from_parsed_symt_text_def
proof (rule for_res_inv)
  show "symt_ok bimap_new" by simp
next
  fix row b t
  assume b: "symt_ok b" and step: "(case row of (sy, l) \<Rightarrow> \<lambda>b. let (b', i) = get_id_or_insert b sy in
      if as_label i \<noteq> l then Inl (Bail ''The SymbolTable should contain labels with increasing ids and no hole.'')
      else Inr b') b = Inr t"
  show "symt_ok t"
    using step get_id_or_insert_ok [OF b, of "fst row"] by (auto split: prod.splits if_splits)
qed

lemma symt_built_ok: "symt_built s \<Longrightarrow> symt_ok s"
  by (induction rule: symt_built.induct)
    (auto simp: symt_empty_def symt_new_ok symt_with_hasher_def parsed_rows_ok add_symbol_ok add_symbols_ok
      add_table_def intro: get_id_or_insert_ok)

lemma add_symbol_label: "get_label (fst (add_symbol s sy)) sy = Some (snd (add_symbol s sy))"
  by (auto simp: get_label_def bimap_get_id_def add_symbol_def get_id_or_insert_def Let_def split: option.splits)

subsection \<open>Reading rows back\<close>

lemma get_id_or_insert_new:
  "symt_ok b \<Longrightarrow> sy \<notin> set (id_to_string b) \<Longrightarrow>
   get_id_or_insert b sy = (b\<lparr>id_to_string := id_to_string b @ [sy],
     string_to_id := (string_to_id b)(sy \<mapsto> length (id_to_string b))\<rparr>, length (id_to_string b))"
  by (auto simp: get_id_or_insert_def symt_ok_def Let_def split: option.splits)

lemma parse_step_rows:
  assumes b: "symt_ok b" and r: "get_id_or_insert b sy = (b', i)"
  shows "string_to_id b' x = Some j \<longleftrightarrow> string_to_id b x = Some j \<or> x = sy \<and> j = i"
  using r by (auto simp: get_id_or_insert_def Let_def split: option.splits if_splits)

lemma parse_loop_rows:
  assumes "for_res (\<lambda>(sy, l) b. let (b', i) = get_id_or_insert b sy in
      if as_label i \<noteq> l then Inl (Bail ''The SymbolTable should contain labels with increasing ids and no hole.'')
      else Inr b') rows b = Inr s" and "symt_ok b"
  shows "get_label s x = Some l \<longleftrightarrow> get_label b x = Some l \<or> (x, l) \<in> set rows"
  using assms
proof (induction rows arbitrary: b)
  case Nil
  then show ?case by simp
next
  case (Cons row rows)
  obtain sy k where row: "row = (sy, k)" by fastforce
  obtain b' i where g: "get_id_or_insert b sy = (b', i)" by fastforce
  have k: "k = as_label i" using Cons.prems(1) by (auto simp: row g split: if_splits)
  have ok: "symt_ok b'" using get_id_or_insert_ok [OF Cons.prems(2), of sy] g by simp
  have "get_label s x = Some l \<longleftrightarrow> get_label b' x = Some l \<or> (x, l) \<in> set rows"
    using Cons.prems(1) by (intro Cons.IH [OF _ ok]) (simp add: row g k)
  moreover have "get_label b' x = Some l \<longleftrightarrow> get_label b x = Some l \<or> x = sy \<and> l = k"
    using parse_step_rows [OF Cons.prems(2) g, of x]
    by (auto simp: get_label_def bimap_get_id_def k)
  ultimately show ?case by (auto simp: row)
qed

lemma parsed_rows: "from_parsed_symt_text rows = Inr s \<Longrightarrow> get_label s x = Some l \<longleftrightarrow> (x, l) \<in> set rows"
  unfolding from_parsed_symt_text_def
  by (drule parse_loop_rows [where x = x and l = l, OF _ symt_ok_new])
    (simp add: get_label_def bimap_get_id_def bimap_new_def)

text \<open>A dense table is determined by its vector.\<close>

lemma symt_ok_eq: "symt_ok s \<Longrightarrow> symt_ok t \<Longrightarrow> id_to_string s = id_to_string t \<Longrightarrow> s = t"
  by (cases s; cases t) (auto simp: symt_ok_def fun_eq_iff, metis not_None_eq)

definition prefix_table :: "string list \<Rightarrow> symt" where
  "prefix_table xs = \<lparr>string_to_id = map_of (zip xs [0 ..< length xs]), id_to_string = xs\<rparr>"

lemma prefix_table_ok: "distinct xs \<Longrightarrow> symt_ok (prefix_table xs)"
  by (auto simp: symt_ok_def prefix_table_def map_of_zip_nth set_zip dest: map_of_SomeD)

lemma parse_prefix:
  assumes "distinct xs"
  shows "from_parsed_symt_text (map (\<lambda>(i, sy). (sy, as_label i)) (enumerate 0 xs)) = Inr (prefix_table xs)"
  using assms
proof (induction xs rule: rev_induct)
  case Nil
  then show ?case by (simp add: from_parsed_symt_text_def prefix_table_def bimap_new_def)
next
  case (snoc x xs)
  then have IH: "from_parsed_symt_text (map (\<lambda>(i, sy). (sy, as_label i)) (enumerate 0 xs)) = Inr (prefix_table xs)"
    and x: "x \<notin> set xs" and d: "distinct xs" by simp_all
  have g: "get_id_or_insert (prefix_table xs) x = (prefix_table (xs @ [x]), length xs)"
  proof -
    obtain b i where r: "get_id_or_insert (prefix_table xs) x = (b, i)" by fastforce
    have bi: "id_to_string b = xs @ [x]" "i = length xs"
      using r get_id_or_insert_new [OF prefix_table_ok [OF d], of x] x by (auto simp: prefix_table_def)
    have "symt_ok b" using get_id_or_insert_ok [OF prefix_table_ok [OF d], of x] r by simp
    with bi prefix_table_ok [of "xs @ [x]"] x d have "b = prefix_table (xs @ [x])"
      by (intro symt_ok_eq) (simp_all add: prefix_table_def)
    with r bi show ?thesis by simp
  qed
  show ?case
    using IH by (simp add: from_parsed_symt_text_def enumerate_append_eq for_res_append g)
qed

lemma symt_iter_parses:
  assumes s: "symt_ok s" and e: "'''' \<notin> set (id_to_string s)"
  shows "from_parsed_symt_text (map prod.swap (symt_iter s)) = Inr s"
proof -
  have "filter (\<lambda>(i, sy). sy \<noteq> '''') (enumerate 0 (id_to_string s)) = enumerate 0 (id_to_string s)"
    using e nth_mem by (fastforce simp: filter_id_conv in_set_enumerate_eq)
  then have rows: "map prod.swap (symt_iter s) = map (\<lambda>(i, sy). (sy, as_label i)) (enumerate 0 (id_to_string s))"
    by (auto simp: symt_iter_def bimap_iter_def)
  have "prefix_table (id_to_string s) = s"
    using symt_ok_distinct [OF s] by (intro symt_ok_eq prefix_table_ok s) (simp_all add: prefix_table_def)
  with parse_prefix [OF symt_ok_distinct [OF s]] show ?thesis by (simp add: rows)
qed

subsection \<open>Explicit keys\<close>

text \<open>
  With explicit keys the vector may have holes and two ids may carry one symbol, so the full
  invariant is lost; what a lookup by label finds is always the symbol stored last there.
\<close>

lemma insert_at_string:
  "bimap_get_string (insert_at b v i) i = Some v"
  by (auto simp: insert_at_def bimap_get_string_def resize_empty_def Let_def)

lemma insert_at_other_string:
  "j \<noteq> i \<Longrightarrow> j < length (id_to_string b) \<Longrightarrow>
   bimap_get_string (insert_at b v i) j = bimap_get_string b j"
  by (auto simp: insert_at_def bimap_get_string_def resize_empty_def Let_def nth_append vec_get_def)

lemma insert_at_length: "length (id_to_string (insert_at b v i)) = max (length (id_to_string b)) (i + 1)"
  by (auto simp: insert_at_def resize_empty_def Let_def)

lemma insert_at_ids:
  "id_to_string (insert_at b v i) =
     (id_to_string b @ replicate (i + 1 - length (id_to_string b)) '''')[i := v]"
  by (auto simp: insert_at_def resize_empty_def Let_def)

lemma insert_at_map: "string_to_id (insert_at b v i) = (string_to_id b)(v \<mapsto> i)"
  by (simp add: insert_at_def Let_def)

end
