(* ===== verification/Vector_Fst.thy ===== *)
theory Vector_Fst
  imports Mutate_Properties Symbol_Table
begin

text \<open>
  \<open>VectorFst\<close>, the mutable transducer of the crate (\<open>fst_impls/vector_fst\<close>). Each operation
  takes the FST and returns the new one. The \<open>unsafe\<close> variants skip the bounds check: they
  are the operations on ids in range, and the checked variants call them after the check.
\<close>

subsection \<open>Data\<close>

record 'w vstate =
  final_weight :: "'w option"
  trs :: "'w tr list"
  niepsilons :: nat
  noepsilons :: nat

record 'w vfst =
  states :: "'w vstate list"
  start_state :: "state_id option"
  isymt :: "symt option"
  osymt :: "symt option"
  properties :: fst_props

definition vstate_new :: "'w vstate" where
  "vstate_new = \<lparr>final_weight = None, trs = [], niepsilons = 0, noepsilons = 0\<rparr>"

definition vfst_new :: "'w vfst" where
  "vfst_new = \<lparr>states = [], start_state = None, isymt = None, osymt = None,
     properties = fp_null_properties\<rparr>"

abbreviation num_states :: "'w vfst \<Rightarrow> nat" where
  "num_states F \<equiv> length (states F)"

abbreviation state_of :: "'w vfst \<Rightarrow> state_id \<Rightarrow> 'w vstate" where
  "state_of F s \<equiv> states F ! s"

definition with_state :: "'w vfst \<Rightarrow> state_id \<Rightarrow> ('w vstate \<Rightarrow> 'w vstate) \<Rightarrow> 'w vfst" where
  "with_state F s f = F\<lparr>states := (states F)[s := f (states F ! s)]\<rparr>"

subsection \<open>Reading\<close>

definition no_state :: "'a res" where
  "no_state = Inl (Bail ''State doesn't exist'')"

text \<open>\<open>PartialEq\<close>: states and start state only; the weights are compared by the semiring's equality.\<close>

definition tr_eq :: "'w semiring \<Rightarrow> 'w tr \<Rightarrow> 'w tr \<Rightarrow> bool" where
  "tr_eq W t u \<longleftrightarrow> ilabel t = ilabel u \<and> olabel t = olabel u \<and> eq_w W (weight t) (weight u) \<and>
     nextstate t = nextstate u"

definition vstate_eq :: "'w semiring \<Rightarrow> 'w vstate \<Rightarrow> 'w vstate \<Rightarrow> bool" where
  "vstate_eq W a b \<longleftrightarrow> rel_option (eq_w W) (final_weight a) (final_weight b) \<and>
     list_all2 (tr_eq W) (trs a) (trs b) \<and>
     niepsilons a = niepsilons b \<and> noepsilons a = noepsilons b"

definition vfst_eq :: "'w semiring \<Rightarrow> 'w vfst \<Rightarrow> 'w vfst \<Rightarrow> bool" where
  "vfst_eq W F G \<longleftrightarrow> list_all2 (vstate_eq W) (states F) (states G) \<and> start_state F = start_state G"

definition final_weight_of :: "'w vfst \<Rightarrow> state_id \<Rightarrow> 'w option res" where
  "final_weight_of F s = (if s < num_states F then Inr (final_weight (state_of F s)) else no_state)"

definition get_trs :: "'w vfst \<Rightarrow> state_id \<Rightarrow> 'w tr list res" where
  "get_trs F s = (if s < num_states F then Inr (trs (state_of F s)) else no_state)"

definition num_trs :: "'w vfst \<Rightarrow> state_id \<Rightarrow> nat res" where
  "num_trs F s = (if s < num_states F then Inr (length (trs (state_of F s))) else no_state)"

definition num_input_epsilons :: "'w vfst \<Rightarrow> state_id \<Rightarrow> nat res" where
  "num_input_epsilons F s = (if s < num_states F then Inr (niepsilons (state_of F s)) else no_state)"

definition num_output_epsilons :: "'w vfst \<Rightarrow> state_id \<Rightarrow> nat res" where
  "num_output_epsilons F s = (if s < num_states F then Inr (noepsilons (state_of F s)) else no_state)"

subsection \<open>Start state, final weights, new states\<close>

definition set_start_unchecked :: "'w vfst \<Rightarrow> state_id \<Rightarrow> 'w vfst" where
  "set_start_unchecked F s =
     F\<lparr>start_state := Some s, properties := set_start_properties (properties F)\<rparr>"

definition set_start :: "'w vfst \<Rightarrow> state_id \<Rightarrow> 'w vfst res" where
  "set_start F s = (if s < num_states F then Inr (set_start_unchecked F s) else no_state)"

definition set_final_unchecked :: "'w semiring \<Rightarrow> 'w vfst \<Rightarrow> state_id \<Rightarrow> 'w \<Rightarrow> 'w vfst" where
  "set_final_unchecked W F s w =
     (let p = set_final_properties W (properties F) (final_weight (state_of F s)) (Some w)
      in with_state (F\<lparr>properties := p\<rparr>) s (\<lambda>st. st\<lparr>final_weight := Some w\<rparr>))"

definition set_final :: "'w semiring \<Rightarrow> 'w vfst \<Rightarrow> state_id \<Rightarrow> 'w \<Rightarrow> 'w vfst res" where
  "set_final W F s w = (if s < num_states F then Inr (set_final_unchecked W F s w) else no_state)"

definition delete_final_weight_unchecked :: "'w semiring \<Rightarrow> 'w vfst \<Rightarrow> state_id \<Rightarrow> 'w vfst" where
  "delete_final_weight_unchecked W F s =
     (let p = set_final_properties W (properties F) (final_weight (state_of F s)) None
      in with_state (F\<lparr>properties := p\<rparr>) s (\<lambda>st. st\<lparr>final_weight := None\<rparr>))"

definition delete_final_weight :: "'w semiring \<Rightarrow> 'w vfst \<Rightarrow> state_id \<Rightarrow> 'w vfst res" where
  "delete_final_weight W F s =
     (if s < num_states F then Inr (delete_final_weight_unchecked W F s) else no_state)"

definition take_final_weight_unchecked ::
  "'w semiring \<Rightarrow> 'w vfst \<Rightarrow> state_id \<Rightarrow> 'w option \<times> 'w vfst" where
  "take_final_weight_unchecked W F s =
     (final_weight (state_of F s), delete_final_weight_unchecked W F s)"

definition take_final_weight ::
  "'w semiring \<Rightarrow> 'w vfst \<Rightarrow> state_id \<Rightarrow> ('w option \<times> 'w vfst) res" where
  "take_final_weight W F s =
     (if s < num_states F then Inr (take_final_weight_unchecked W F s) else no_state)"

definition add_state :: "'w vfst \<Rightarrow> 'w vfst \<times> state_id" where
  "add_state F =
     (F\<lparr>states := states F @ [vstate_new], properties := add_state_properties (properties F)\<rparr>,
      num_states F)"

definition add_states :: "'w vfst \<Rightarrow> nat \<Rightarrow> 'w vfst" where
  "add_states F n =
     F\<lparr>states := states F @ replicate n vstate_new,
       properties := add_state_properties (properties F)\<rparr>"

subsection \<open>Adding and replacing transitions\<close>

definition increment_num_epsilons :: "'w tr \<Rightarrow> 'w vstate \<Rightarrow> 'w vstate" where
  "increment_num_epsilons t st =
     st\<lparr>niepsilons := (if ilabel t = EPS_LABEL then niepsilons st + 1 else niepsilons st),
        noepsilons := (if olabel t = EPS_LABEL then noepsilons st + 1 else noepsilons st)\<rparr>"

text \<open>The last transition of the state and, if there is one, the transition before it.\<close>

definition update_properties_after_add_tr :: "'w semiring \<Rightarrow> 'w vfst \<Rightarrow> state_id \<Rightarrow> 'w vfst" where
  "update_properties_after_add_tr W F s =
     (let ts = trs (state_of F s);
          new_tr = last ts;
          old_tr = (if length ts > 1 then Some (ts ! (length ts - 2)) else None)
      in F\<lparr>properties := add_tr_properties W (properties F) s new_tr old_tr\<rparr>)"

definition add_tr_unchecked :: "'w semiring \<Rightarrow> 'w vfst \<Rightarrow> state_id \<Rightarrow> 'w tr \<Rightarrow> 'w vfst" where
  "add_tr_unchecked W F s t =
     update_properties_after_add_tr W
       (with_state F s (\<lambda>st. (increment_num_epsilons t st)\<lparr>trs := trs st @ [t]\<rparr>)) s"

definition add_tr :: "'w semiring \<Rightarrow> 'w vfst \<Rightarrow> state_id \<Rightarrow> 'w tr \<Rightarrow> 'w vfst res" where
  "add_tr W F s t = (if s < num_states F then Inr (add_tr_unchecked W F s t) else no_state)"

definition emplace_tr :: "'w semiring \<Rightarrow> 'w vfst \<Rightarrow> state_id \<Rightarrow> label \<Rightarrow> label \<Rightarrow> 'w \<Rightarrow> state_id \<Rightarrow> 'w vfst res" where
  "emplace_tr W F s il ol w n = add_tr W F s (tr_new il ol w n)"

definition emplace_tr_unchecked :: "'w semiring \<Rightarrow> 'w vfst \<Rightarrow> state_id \<Rightarrow> label \<Rightarrow> label \<Rightarrow> 'w \<Rightarrow> state_id \<Rightarrow> 'w vfst" where
  "emplace_tr_unchecked W F s il ol w n = add_tr_unchecked W F s (tr_new il ol w n)"

text \<open>The loop over the new vector in \<open>set_trs_unchecked\<close>: properties and epsilon counts.\<close>

fun set_trs_loop ::
  "'w semiring \<Rightarrow> state_id \<Rightarrow> 'w tr option \<Rightarrow> 'w tr list \<Rightarrow> fst_props \<times> nat \<times> nat \<Rightarrow> fst_props \<times> nat \<times> nat"
where
  "set_trs_loop W s prev [] acc = acc"
| "set_trs_loop W s prev (t # ts) (p, ni, no) =
     set_trs_loop W s (Some t) ts
       (add_tr_properties W p s t prev,
        (if ilabel t = EPS_LABEL then ni + 1 else ni),
        (if olabel t = EPS_LABEL then no + 1 else no))"

definition set_trs_unchecked :: "'w semiring \<Rightarrow> 'w vfst \<Rightarrow> state_id \<Rightarrow> 'w tr list \<Rightarrow> 'w vfst" where
  "set_trs_unchecked W F s ts =
     (let (p, ni, no) = set_trs_loop W s None ts (properties F, 0, 0)
      in with_state (F\<lparr>properties := p\<rparr>) s
           (\<lambda>st. st\<lparr>trs := ts, niepsilons := ni, noepsilons := no\<rparr>))"

subsection \<open>Removing transitions\<close>

definition pop_trs_unchecked :: "'w vfst \<Rightarrow> state_id \<Rightarrow> 'w tr list \<times> 'w vfst" where
  "pop_trs_unchecked F s =
     (trs (state_of F s),
      with_state (F\<lparr>properties := delete_trs_properties (properties F)\<rparr>) s
        (\<lambda>st. st\<lparr>trs := [], niepsilons := 0, noepsilons := 0\<rparr>))"

definition pop_trs :: "'w vfst \<Rightarrow> state_id \<Rightarrow> ('w tr list \<times> 'w vfst) res" where
  "pop_trs F s = (if s < num_states F then Inr (pop_trs_unchecked F s) else no_state)"

definition delete_trs :: "'w vfst \<Rightarrow> state_id \<Rightarrow> 'w vfst res" where
  "delete_trs F s = (if s < num_states F then Inr (snd (pop_trs_unchecked F s)) else no_state)"

text \<open>
  \<open>del_trs_id_sorted_unchecked\<close> removes the listed indices from the last to the first.
\<close>

definition del_one_tr :: "nat \<Rightarrow> 'w vstate \<Rightarrow> 'w vstate" where
  "del_one_tr i st =
     st\<lparr>niepsilons := (if ilabel (trs st ! i) = EPS_LABEL then niepsilons st - 1 else niepsilons st),
        noepsilons := (if olabel (trs st ! i) = EPS_LABEL then noepsilons st - 1 else noepsilons st),
        trs := vec_remove (trs st) i\<rparr>"

definition partial_delete_mask :: fst_props where
  "partial_delete_mask =
     ACCEPTOR OR I_DETERMINISTIC OR O_DETERMINISTIC OR NO_EPSILONS OR NO_I_EPSILONS OR
     NO_O_EPSILONS OR I_LABEL_SORTED OR O_LABEL_SORTED OR UNWEIGHTED OR TOP_SORTED OR
     NOT_ACCESSIBLE OR NOT_COACCESSIBLE OR UNWEIGHTED_CYCLES"

definition del_trs_id_sorted_unchecked :: "'w vfst \<Rightarrow> state_id \<Rightarrow> nat list \<Rightarrow> 'w vfst" where
  "del_trs_id_sorted_unchecked F s to_del =
     (let st = fold del_one_tr (rev to_del) (state_of F s);
          p = (if trs st = [] then delete_trs_properties (properties F)
               else properties F AND partial_delete_mask)
      in with_state (F\<lparr>properties := p\<rparr>) s (\<lambda>_. st))"

subsection \<open>Deleting states\<close>

text \<open>\<open>new_id\<close> holds \<open>-1\<close> for a state to delete and otherwise the new id.\<close>

definition mark_deleted :: "state_id list \<Rightarrow> int list \<Rightarrow> int list res" where
  "mark_deleted dstates new_id = for_res (\<lambda>s ids. vec_set ids s (- 1)) dstates new_id"

text \<open>The compaction loop: live states are swapped to the front in order.\<close>

fun compact_loop ::
  "nat list \<Rightarrow> int list \<times> 'w vstate list \<times> nat \<Rightarrow> int list \<times> 'w vstate list \<times> nat" where
  "compact_loop [] acc = acc"
| "compact_loop (s # ss) (new_id, sts, nstates) =
     (if new_id ! s \<noteq> - 1
      then compact_loop ss
        (new_id[s := int nstates], (if s \<noteq> nstates then vec_swap sts nstates s else sts), nstates + 1)
      else compact_loop ss (new_id, sts, nstates))"

text \<open>The loop over the transitions of one live state: retarget or remember for deletion.\<close>

fun retarget_loop ::
  "int list \<Rightarrow> nat \<Rightarrow> 'w tr list \<Rightarrow> 'w tr list \<times> nat list \<times> nat \<times> nat \<Rightarrow>
   ('w tr list \<times> nat list \<times> nat \<times> nat) res" where
  "retarget_loop new_id idx [] acc = Inr acc"
| "retarget_loop new_id idx (t # ts) (seen, to_delete, ni, no) =
     rbind (vec_index new_id (nextstate t)) (\<lambda>k.
       if k \<noteq> - 1
       then retarget_loop new_id (idx + 1) ts (seen @ [t\<lparr>nextstate := nat k\<rparr>], to_delete, ni, no)
       else retarget_loop new_id (idx + 1) ts
         (seen @ [t], to_delete @ [idx],
          (if ilabel t = EPS_LABEL then ni - 1 else ni),
          (if olabel t = EPS_LABEL then no - 1 else no)))"

definition retarget_state :: "int list \<Rightarrow> 'w vstate \<Rightarrow> 'w vstate res" where
  "retarget_state new_id st =
     rbind (retarget_loop new_id 0 (trs st) ([], [], niepsilons st, noepsilons st))
       (\<lambda>(ts, to_delete, ni, no).
         Inr (st\<lparr>trs := fold (\<lambda>i ts. vec_remove ts i) (rev to_delete) ts,
                 niepsilons := ni, noepsilons := no\<rparr>))"

definition new_start :: "int list \<Rightarrow> state_id option \<Rightarrow> state_id option res" where
  "new_start new_id st =
     (case st of
        None \<Rightarrow> Inr None
      | Some s \<Rightarrow> rbind (vec_index new_id s) (\<lambda>k. Inr (if k = - 1 then None else Some (nat k))))"

definition del_states :: "'w vfst \<Rightarrow> state_id list \<Rightarrow> 'w vfst res" where
  "del_states F dstates =
     rbind (mark_deleted dstates (replicate (num_states F) 0)) (\<lambda>marked.
       let (new_id, sts, nstates) = compact_loop [0 ..< num_states F] (marked, states F, 0)
       in rbind (map_res (retarget_state new_id) (take nstates sts)) (\<lambda>sts'.
          rbind (new_start new_id (start_state F)) (\<lambda>start'.
            Inr (F\<lparr>states := sts', start_state := start',
                   properties := delete_states_properties (properties F)\<rparr>))))"

definition del_state :: "'w vfst \<Rightarrow> state_id \<Rightarrow> 'w vfst res" where
  "del_state F s =
     (if s < num_states F
      then del_states (F\<lparr>properties := delete_states_properties (properties F)\<rparr>) [s]
      else no_state)"

definition del_all_states :: "'w vfst \<Rightarrow> 'w vfst" where
  "del_all_states F =
     F\<lparr>start_state := None, states := [], properties := delete_all_states_properties\<rparr>"

subsection \<open>Setting properties\<close>

definition set_properties :: "'w vfst \<Rightarrow> fst_props \<Rightarrow> 'w vfst" where
  "set_properties F p = F\<lparr>properties := p\<rparr>"

definition set_properties_with_mask :: "'w vfst \<Rightarrow> fst_props \<Rightarrow> fst_props \<Rightarrow> 'w vfst" where
  "set_properties_with_mask F p m =
     F\<lparr>properties := (properties F AND fp_not m) OR (p AND m)\<rparr>"

subsection \<open>Symbol tables\<close>

definition set_input_symbols :: "'w vfst \<Rightarrow> symt \<Rightarrow> 'w vfst" where
  "set_input_symbols F t = F\<lparr>isymt := Some t\<rparr>"

definition set_output_symbols :: "'w vfst \<Rightarrow> symt \<Rightarrow> 'w vfst" where
  "set_output_symbols F t = F\<lparr>osymt := Some t\<rparr>"

definition take_input_symbols :: "'w vfst \<Rightarrow> symt option \<times> 'w vfst" where
  "take_input_symbols F = (isymt F, F\<lparr>isymt := None\<rparr>)"

definition take_output_symbols :: "'w vfst \<Rightarrow> symt option \<times> 'w vfst" where
  "take_output_symbols F = (osymt F, F\<lparr>osymt := None\<rparr>)"

definition set_symts_from_fst :: "'w vfst \<Rightarrow> 'v vfst \<Rightarrow> 'w vfst" where
  "set_symts_from_fst F G =
     (let F = (case isymt G of Some t \<Rightarrow> set_input_symbols F t | None \<Rightarrow> snd (take_input_symbols F))
      in case osymt G of Some t \<Rightarrow> set_output_symbols F t | None \<Rightarrow> snd (take_output_symbols F))"

end
