(* ===== verification/Prop_Semantics.thy ===== *)
theory Prop_Semantics
  imports Vector_Fst
begin

text \<open>
  What the property bits assert: the meaning of each pair of flags as a predicate on the
  transducer (the doc comments of \<open>properties.rs\<close>), soundness of the stored bits, the
  epsilon counters, and well-formedness. These are specifications, not code.
\<close>

named_theorems sem_simps \<open>unfolding the meaning of the property flags\<close>

subsection \<open>The graph of a transducer\<close>

definition arcs :: "'w vfst \<Rightarrow> (state_id \<times> 'w tr) set" where
  "arcs F = {(s, t). s < num_states F \<and> t \<in> set (trs (state_of F s))}"

definition edges :: "'w vfst \<Rightarrow> (state_id \<times> state_id) set" where
  "edges F = {(s, nextstate t) | s t. (s, t) \<in> arcs F}"

definition is_final_state :: "'w vfst \<Rightarrow> state_id \<Rightarrow> bool" where
  "is_final_state F s \<longleftrightarrow> s < num_states F \<and> final_weight (state_of F s) \<noteq> None"

lemma arcs_edges: "(s, t) \<in> arcs F \<Longrightarrow> (s, nextstate t) \<in> edges F"
  by (auto simp: edges_def)

lemma edges_mono: "arcs F \<subseteq> arcs G \<Longrightarrow> edges F \<subseteq> edges G"
  by (auto simp: edges_def)

subsection \<open>The meaning of the flags\<close>

datatype fprop =
    Acceptor | IDeterministic | ODeterministic | Epsilons | IEpsilons | OEpsilons
  | ILabelSorted | OLabelSorted | Weighted | Cyclic | InitialCyclic | TopSorted
  | Accessible | Coaccessible | StringFst | WeightedCycles

text \<open>The position of the positive bit; the negative bit is the next one.\<close>

fun pos_bit :: "fprop \<Rightarrow> nat" where
  "pos_bit Acceptor = 16" | "pos_bit IDeterministic = 18" | "pos_bit ODeterministic = 20"
| "pos_bit Epsilons = 22" | "pos_bit IEpsilons = 24" | "pos_bit OEpsilons = 26"
| "pos_bit ILabelSorted = 28" | "pos_bit OLabelSorted = 30" | "pos_bit Weighted = 32"
| "pos_bit Cyclic = 34" | "pos_bit InitialCyclic = 36" | "pos_bit TopSorted = 38"
| "pos_bit Accessible = 40" | "pos_bit Coaccessible = 42" | "pos_bit StringFst = 44"
| "pos_bit WeightedCycles = 46"

definition cyclic_at :: "'w vfst \<Rightarrow> state_id \<Rightarrow> bool" where
  "cyclic_at F s \<longleftrightarrow> (s, s) \<in> (edges F)\<^sup>+"

definition accessible_state :: "'w vfst \<Rightarrow> state_id \<Rightarrow> bool" where
  "accessible_state F s \<longleftrightarrow> (\<exists>i. start_state F = Some i \<and> (i, s) \<in> (edges F)\<^sup>*)"

definition coaccessible_state :: "'w vfst \<Rightarrow> state_id \<Rightarrow> bool" where
  "coaccessible_state F s \<longleftrightarrow> (\<exists>f. is_final_state F f \<and> (s, f) \<in> (edges F)\<^sup>*)"

definition string_state :: "'w vfst \<Rightarrow> state_id \<Rightarrow> bool" where
  "string_state F s \<longleftrightarrow>
     (if Suc s = num_states F then is_final_state F s \<and> trs (state_of F s) = []
      else \<not> is_final_state F s \<and> map nextstate (trs (state_of F s)) = [Suc s])"

fun sem :: "'w semiring \<Rightarrow> 'w vfst \<Rightarrow> fprop \<Rightarrow> bool" where
  "sem W F Acceptor = (\<forall>(s, t) \<in> arcs F. ilabel t = olabel t)"
| "sem W F IDeterministic = (\<forall>s < num_states F. distinct (map ilabel (trs (state_of F s))))"
| "sem W F ODeterministic = (\<forall>s < num_states F. distinct (map olabel (trs (state_of F s))))"
| "sem W F Epsilons = (\<exists>(s, t) \<in> arcs F. ilabel t = EPS_LABEL \<and> olabel t = EPS_LABEL)"
| "sem W F IEpsilons = (\<exists>(s, t) \<in> arcs F. ilabel t = EPS_LABEL)"
| "sem W F OEpsilons = (\<exists>(s, t) \<in> arcs F. olabel t = EPS_LABEL)"
| "sem W F ILabelSorted = (\<forall>s < num_states F. sorted (map ilabel (trs (state_of F s))))"
| "sem W F OLabelSorted = (\<forall>s < num_states F. sorted (map olabel (trs (state_of F s))))"
| "sem W F Weighted =
     ((\<exists>(s, t) \<in> arcs F. nontrivial W (weight t)) \<or>
      (\<exists>s w. s < num_states F \<and> final_weight (state_of F s) = Some w \<and> nontrivial W w))"
| "sem W F Cyclic = (\<exists>s. cyclic_at F s)"
| "sem W F InitialCyclic = (\<exists>i. start_state F = Some i \<and> cyclic_at F i)"
| "sem W F TopSorted = (\<forall>(s, s') \<in> edges F. s < s')"
| "sem W F Accessible = (\<forall>s < num_states F. accessible_state F s)"
| "sem W F Coaccessible = (\<forall>s < num_states F. coaccessible_state F s)"
| "sem W F StringFst =
     (num_states F = 0 \<or> start_state F = Some 0 \<and> (\<forall>s < num_states F. string_state F s))"
| "sem W F WeightedCycles =
     (\<exists>(s, t) \<in> arcs F. nontrivial W (weight t) \<and> (nextstate t, s) \<in> (edges F)\<^sup>*)"

text \<open>Reachability grows with the graph.\<close>

lemma cyclic_at_mono: "edges F \<subseteq> edges G \<Longrightarrow> cyclic_at F s \<Longrightarrow> cyclic_at G s"
  unfolding cyclic_at_def by (rule trancl_mono)

lemma accessible_mono:
  "edges F \<subseteq> edges G \<Longrightarrow> start_state F = start_state G \<Longrightarrow> accessible_state F s \<Longrightarrow> accessible_state G s"
  unfolding accessible_state_def by (metis rtrancl_mono subsetD)

lemma coaccessible_mono:
  "edges F \<subseteq> edges G \<Longrightarrow> (\<And>f. is_final_state F f \<Longrightarrow> is_final_state G f) \<Longrightarrow>
   coaccessible_state F s \<Longrightarrow> coaccessible_state G s"
  unfolding coaccessible_state_def by (metis rtrancl_mono subsetD)

definition bits_sound :: "'w semiring \<Rightarrow> 'w vfst \<Rightarrow> fst_props \<Rightarrow> bool" where
  "bits_sound W F p \<longleftrightarrow>
     (\<forall>q. (bit p (pos_bit q) \<longrightarrow> sem W F q) \<and> (bit p (Suc (pos_bit q)) \<longrightarrow> \<not> sem W F q))"

definition props_sound :: "'w semiring \<Rightarrow> 'w vfst \<Rightarrow> bool" where
  "props_sound W F \<longleftrightarrow> bits_sound W F (properties F)"

definition state_counts_ok :: "'w vstate \<Rightarrow> bool" where
  "state_counts_ok st \<longleftrightarrow>
     niepsilons st = count_ieps (trs st) \<and> noepsilons st = count_oeps (trs st)"

definition eps_counts_ok :: "'w vfst \<Rightarrow> bool" where
  "eps_counts_ok F \<longleftrightarrow> (\<forall>st \<in> set (states F). state_counts_ok st)"

text \<open>The start state and the targets of all transitions exist.\<close>

definition targets_ok :: "'w vfst \<Rightarrow> bool" where
  "targets_ok F \<longleftrightarrow>
     (\<forall>i. start_state F = Some i \<longrightarrow> i < num_states F) \<and>
     (\<forall>st \<in> set (states F). \<forall>t \<in> set (trs st). nextstate t < num_states F)"

lemma bits_soundI:
  assumes "\<And>q. bit p (pos_bit q) \<Longrightarrow> sem W F q" and "\<And>q. bit p (Suc (pos_bit q)) \<Longrightarrow> \<not> sem W F q"
  shows "bits_sound W F p"
  using assms by (simp add: bits_sound_def)

lemma bits_soundD:
  "bits_sound W F p \<Longrightarrow> bit p (pos_bit q) \<Longrightarrow> sem W F q"
  "bits_sound W F p \<Longrightarrow> bit p (Suc (pos_bit q)) \<Longrightarrow> \<not> sem W F q"
  by (auto simp: bits_sound_def)

lemma bits_sound_zero [simp]: "bits_sound W F 0"
  by (simp add: bits_sound_def)

text \<open>Fewer known bits are still sound.\<close>

lemma bits_sound_and [intro]: "bits_sound W F p \<Longrightarrow> bits_sound W F (p AND m)"
  by (auto simp: bits_sound_def bit_and_iff)

lemma bits_sound_or [intro]: "bits_sound W F p \<Longrightarrow> bits_sound W F q \<Longrightarrow> bits_sound W F (p OR q)"
  by (auto simp: bits_sound_def bit_or_iff)

text \<open>
  The workhorse: bits that survive a change of the transducer are sound if the mask of
  surviving bits contains only flags whose meaning the change keeps.
\<close>

lemma bits_sound_keep:
  assumes "bits_sound W F p"
    and "\<And>q. bit m (pos_bit q) \<Longrightarrow> sem W F q \<Longrightarrow> sem W F' q"
    and "\<And>q. bit m (Suc (pos_bit q)) \<Longrightarrow> sem W F' q \<Longrightarrow> sem W F q"
  shows "bits_sound W F' (p AND m)"
  using assms unfolding bits_sound_def bit_and_iff by blast

lemma fprop_all:
  "(\<forall>q. P q) \<longleftrightarrow>
     P Acceptor \<and> P IDeterministic \<and> P ODeterministic \<and> P Epsilons \<and>
     P IEpsilons \<and> P OEpsilons \<and> P ILabelSorted \<and> P OLabelSorted \<and>
     P Weighted \<and> P Cyclic \<and> P InitialCyclic \<and> P TopSorted \<and>
     P Accessible \<and> P Coaccessible \<and> P StringFst \<and> P WeightedCycles" (is "?L \<longleftrightarrow> ?R")
proof
  assume r: ?R
  show ?L
  proof
    fix q
    from r show "P q" by (cases q) simp_all
  qed
qed simp

text \<open>Adding one known flag.\<close>

lemma bits_sound_flags:
  "bits_sound W F ACCEPTOR \<longleftrightarrow> sem W F Acceptor"
  "bits_sound W F ACYCLIC \<longleftrightarrow> \<not> sem W F Cyclic"
  "bits_sound W F INITIAL_ACYCLIC \<longleftrightarrow> \<not> sem W F InitialCyclic"
  by (simp_all add: bits_sound_def flag_defs fprop_all del: sem.simps)

subsection \<open>Positions and known pairs\<close>

lemma pos_bit_facts: "pos_bit q = pos_bit r \<longleftrightarrow> q = r" "pos_bit q \<noteq> Suc (pos_bit r)" "16 \<le> pos_bit q" "pos_bit q < 47"
  by ((cases q; cases r), simp_all)+

lemma ex_fprop: "(\<exists>q. P q) \<longleftrightarrow> P Acceptor \<or> P IDeterministic \<or> P ODeterministic \<or> P Epsilons \<or> P IEpsilons \<or> P OEpsilons \<or>
    P ILabelSorted \<or> P OLabelSorted \<or> P Weighted \<or> P Cyclic \<or> P InitialCyclic \<or> P TopSorted \<or> P Accessible \<or>
    P Coaccessible \<or> P StringFst \<or> P WeightedCycles"
  using fprop_all [of "\<lambda>q. \<not> P q"] by blast

lemma trinary_bits:
  "bit trinary_properties n \<longleftrightarrow> 16 \<le> n \<and> n < 48"
  "bit pos_trinary_properties n \<longleftrightarrow> (\<exists>q. n = pos_bit q)"
  "bit neg_trinary_properties n \<longleftrightarrow> (\<exists>q. n = Suc (pos_bit q))"
proof -
  have "trinary_properties = fp_not 0"
    by (simp add: trinary_properties_def fp_not_def from_bits_truncate_def fp_declared_def)
  then have "bit trinary_properties n = bit (fp_not 0) n" by (rule arg_cong)
  then show "bit trinary_properties n \<longleftrightarrow> 16 \<le> n \<and> n < 48" by (simp only: bit_fp_not) simp
  have p: "pos_trinary_properties = ACCEPTOR OR I_DETERMINISTIC OR O_DETERMINISTIC OR EPSILONS OR I_EPSILONS OR O_EPSILONS OR
      I_LABEL_SORTED OR O_LABEL_SORTED OR WEIGHTED OR CYCLIC OR INITIAL_CYCLIC OR TOP_SORTED OR ACCESSIBLE OR
      COACCESSIBLE OR STRING OR WEIGHTED_CYCLES"
    "neg_trinary_properties = NOT_ACCEPTOR OR NOT_I_DETERMINISTIC OR NOT_O_DETERMINISTIC OR NO_EPSILONS OR NO_I_EPSILONS OR
      NO_O_EPSILONS OR NOT_I_LABEL_SORTED OR NOT_O_LABEL_SORTED OR UNWEIGHTED OR ACYCLIC OR INITIAL_ACYCLIC OR
      NOT_TOP_SORTED OR NOT_ACCESSIBLE OR NOT_COACCESSIBLE OR NOT_STRING OR UNWEIGHTED_CYCLES"
    by (simp_all add: flag_defs pos_trinary_properties_def neg_trinary_properties_def trinary_properties_def
      from_bits_truncate_def fp_declared_def)
  show "bit pos_trinary_properties n \<longleftrightarrow> (\<exists>q. n = pos_bit q)" "bit neg_trinary_properties n \<longleftrightarrow> (\<exists>q. n = Suc (pos_bit q))"
    unfolding p ex_fprop pos_bit.simps Suc_numeral by (simp_all only: bit_or_iff flag_bits disj_assoc) simp_all
qed

lemma declared_bits: "bit fp_declared n \<longleftrightarrow> 16 \<le> n \<and> n < 48"
  using trinary_bits(1) [of n] by (simp add: trinary_properties_def from_bits_truncate_def fp_declared_def)

lemma known_bits:
  "bit (known_properties p) (pos_bit q) \<longleftrightarrow> bit p (pos_bit q) \<or> bit p (Suc (pos_bit q))"
  "bit (known_properties p) (Suc (pos_bit q)) \<longleftrightarrow> bit p (pos_bit q) \<or> bit p (Suc (pos_bit q))"
proof -
  have b: "binary_properties = 0" by (simp add: binary_properties_def from_bits_truncate_def fp_declared_def)
  have k: "bit (known_properties p) n \<longleftrightarrow> 16 \<le> n \<and> n < 48 \<and> (bit p n \<or> bit p (n - 1) \<and> (\<exists>q. n - 1 = pos_bit q) \<or>
      bit p (Suc n) \<and> (\<exists>q. Suc n = Suc (pos_bit q)))" for n
    unfolding known_properties_def b fp_shl_def fp_shr_def from_bits_truncate_def
      bit_or_iff bit_and_iff bit_push_bit_iff bit_drop_bit_eq o_def trinary_bits declared_bits bit_0_eq bot_fun_def
    by (cases "16 \<le> n \<and> n < 48") (simp, simp, blast)
  have "pos_bit q - 1 \<noteq> pos_bit r" "Suc (pos_bit q) \<noteq> pos_bit r" for r
    using pos_bit_facts(3) [of q] pos_bit_facts(2) [of q r] pos_bit_facts(2) [of r q] by auto
  then show "bit (known_properties p) (pos_bit q) \<longleftrightarrow> bit p (pos_bit q) \<or> bit p (Suc (pos_bit q))"
    "bit (known_properties p) (Suc (pos_bit q)) \<longleftrightarrow> bit p (pos_bit q) \<or> bit p (Suc (pos_bit q))"
    unfolding k using pos_bit_facts(3,4) [of q] by auto
qed

lemma ex_arc: "(\<exists>(s, t) \<in> arcs F. P s t) \<longleftrightarrow> (\<exists>s < num_states F. \<exists>t \<in> set (trs (state_of F s)). P s t)"
  by (auto simp: arcs_def)

end
