(* ===== verification/Vector_Fst_Sound.thy ===== *)
theory Vector_Fst_Sound
  imports Prop_Semantics
begin

text \<open>
  Every mutation of a \<open>VectorFst\<close> keeps its stored property bits sound and its epsilon
  counters exact: one lemma per operation of \<open>fst_impls/vector_fst/mutable_fst.rs\<close>.
\<close>

subsection \<open>Updates that do not touch the graph\<close>

lemma graph_upd [simp]:
  "arcs (F\<lparr>properties := p\<rparr>) = arcs F" "edges (F\<lparr>properties := p\<rparr>) = edges F"
  "arcs (F\<lparr>start_state := i\<rparr>) = arcs F" "edges (F\<lparr>start_state := i\<rparr>) = edges F"
  "is_final_state (F\<lparr>properties := p\<rparr>) = is_final_state F"
  "is_final_state (F\<lparr>start_state := i\<rparr>) = is_final_state F"
  "accessible_state (F\<lparr>properties := p\<rparr>) = accessible_state F"
  "coaccessible_state (F\<lparr>properties := p\<rparr>) = coaccessible_state F"
  "coaccessible_state (F\<lparr>start_state := i\<rparr>) = coaccessible_state F"
  "cyclic_at (F\<lparr>properties := p\<rparr>) = cyclic_at F" "cyclic_at (F\<lparr>start_state := i\<rparr>) = cyclic_at F"
  "string_state (F\<lparr>properties := p\<rparr>) = string_state F"
  "string_state (F\<lparr>start_state := i\<rparr>) = string_state F"
  by (auto simp: arcs_def edges_def is_final_state_def fun_eq_iff accessible_state_def
      coaccessible_state_def cyclic_at_def string_state_def)

lemma sem_upd_props [simp]: "sem W (F\<lparr>properties := p\<rparr>) q = sem W F q"
  by (cases q) simp_all

lemma bits_sound_upd_props [simp]: "bits_sound W (F\<lparr>properties := p\<rparr>) b = bits_sound W F b"
  by (simp add: bits_sound_def)

lemma eps_counts_upd [simp]:
  "eps_counts_ok (F\<lparr>properties := p\<rparr>) = eps_counts_ok F"
  "eps_counts_ok (F\<lparr>start_state := i\<rparr>) = eps_counts_ok F"
  by (simp_all add: eps_counts_ok_def)

lemma targets_upd [simp]: "targets_ok (F\<lparr>properties := p\<rparr>) = targets_ok F"
  by (simp add: targets_ok_def)

text \<open>The empty transducer.\<close>

lemma vfst_new_sound: "props_sound W vfst_new"
proof -
  have [simp]: "arcs (vfst_new :: 'a vfst) = {}" "edges (vfst_new :: 'a vfst) = {}"
    by (auto simp: arcs_def edges_def vfst_new_def)
  have [simp]: "num_states (vfst_new :: 'a vfst) = 0" "start_state (vfst_new :: 'a vfst) = None"
    by (simp_all add: vfst_new_def)
  have "bits_sound W vfst_new fp_null_properties"
    by (simp add: bits_sound_def fprop_all mask_nums cyclic_at_def)
  then show ?thesis by (simp add: props_sound_def vfst_new_def)
qed

lemma vfst_new_counts: "eps_counts_ok vfst_new"
  by (simp add: eps_counts_ok_def vfst_new_def)

lemma vfst_new_targets: "targets_ok vfst_new"
  by (simp add: targets_ok_def vfst_new_def)

subsection \<open>Start state\<close>

lemma set_start_sound:
  assumes "props_sound W F"
  shows "props_sound W (set_start_unchecked F s)"
proof -
  let ?F = "F\<lparr>start_state := Some s\<rparr>"
  have "sem W ?F q = sem W F q" if "q \<notin> {InitialCyclic, Accessible, StringFst}" for q
    using that by (cases q) simp_all
  with assms have a: "bits_sound W ?F (properties F AND fp_set_start_properties)"
    by (simp add: props_sound_def bits_sound_def fprop_all bit_and_iff mask_nums del: sem.simps)
  have b: "bits_sound W ?F INITIAL_ACYCLIC" if "bit (properties F) 35"
    using bits_soundD(2) [of W F "properties F" Cyclic] assms that
    by (simp add: props_sound_def bits_sound_flags)
  from a b have "bits_sound W ?F (set_start_properties (properties F))"
    by (auto simp: set_start_properties_def Let_def)
  then show ?thesis
    by (simp add: props_sound_def set_start_unchecked_def)
qed

subsection \<open>Final weights\<close>

lemma with_state_graph:
  assumes "\<And>st. trs (f st) = trs st"
  shows "arcs (with_state F s f) = arcs F" "edges (with_state F s f) = edges F"
    "num_states (with_state F s f) = num_states F"
    "k < num_states F \<Longrightarrow> trs (state_of (with_state F s f) k) = trs (state_of F k)"
    "start_state (with_state F s f) = start_state F"
    "properties (with_state F s f) = properties F"
  using assms by (auto simp: arcs_def edges_def with_state_def nth_upd split: if_splits)

lemma with_state_props:
  "with_state (F\<lparr>properties := p\<rparr>) s f = (with_state F s f)\<lparr>properties := p\<rparr>"
  by (simp add: with_state_def)

lemma set_final_weight_sound:
  assumes "props_sound W F" and s: "s < num_states F"
    and f: "\<And>st. trs (f st) = trs st" "\<And>st. final_weight (f st) = nw"
  shows "props_sound W (with_state (F\<lparr>properties :=
      set_final_properties W (properties F) (final_weight (state_of F s)) nw\<rparr>) s f)"
proof -
  let ?ow = "final_weight (state_of F s)"
  let ?F = "with_state F s f"
  note g = with_state_graph [of f, OF f(1)]
  have acc: "accessible_state ?F = accessible_state F" "cyclic_at ?F = cyclic_at F"
    by (simp_all add: fun_eq_iff accessible_state_def cyclic_at_def g)
  have sem_eq: "sem W ?F q = sem W F q" if "q \<notin> {Weighted, Coaccessible, StringFst}" for q
    using that by (cases q) (simp_all add: g acc)
  have fw: "final_weight (state_of ?F k) = (if k = s then nw else final_weight (state_of F k))"
    if "k < num_states F" for k
    using that f(2) by (simp add: with_state_def nth_upd)
  let ?nt = "\<lambda>x. \<exists>w. x = Some w \<and> nontrivial W w"
  have weighted1: "sem W ?F Weighted" if "sem W F Weighted" "\<not> ?nt ?ow"
    using that s fw by (auto simp: g) metis
  have weighted2: "sem W ?F Weighted" if "?nt nw"
    using that s fw by (auto simp: g)
  have unweighted: "\<not> sem W ?F Weighted" if "\<not> sem W F Weighted" "\<not> ?nt nw"
    using that s fw by (auto simp: g)
  have bits: "bit (set_final_properties W (properties F) ?ow nw) n \<longleftrightarrow>
      (if n = 32 then ?nt nw \<or> bit (properties F) 32 \<and> \<not> ?nt ?ow
       else if n = 33 then bit (properties F) 33 \<and> \<not> ?nt nw
       else bit (properties F) n \<and> bit fp_set_final_properties n)" if "16 \<le> n" "n < 48" for n
    using that unfolding set_final_properties_def Let_def nontrivial_def
    by (auto simp: bit_and_iff bit_or_iff flag_bits split: option.splits)
  have "bits_sound W ?F (set_final_properties W (properties F) ?ow nw)"
    using assms(1) weighted1 weighted2 unweighted sem_eq
    unfolding props_sound_def bits_sound_def
    by (simp add: fprop_all bits mask_nums del: sem.simps)
  then show ?thesis
    by (simp add: props_sound_def with_state_props g)
qed

lemma with_state_counts:
  "eps_counts_ok F \<Longrightarrow> state_counts_ok (f (state_of F s)) \<Longrightarrow> eps_counts_ok (with_state F s f)"
  unfolding eps_counts_ok_def with_state_def
  by (auto dest: subsetD [OF set_update_subset_insert])

lemma eps_counts_state: "eps_counts_ok F \<Longrightarrow> s < num_states F \<Longrightarrow> state_counts_ok (state_of F s)"
  by (simp add: eps_counts_ok_def)

lemma set_final_sound:
  assumes "props_sound W F" and "s < num_states F"
  shows "props_sound W (set_final_unchecked W F s w)"
  unfolding set_final_unchecked_def Let_def
  by (rule set_final_weight_sound [OF assms]) simp_all

lemma delete_final_weight_sound:
  assumes "props_sound W F" and "s < num_states F"
  shows "props_sound W (delete_final_weight_unchecked W F s)"
  unfolding delete_final_weight_unchecked_def Let_def
  by (rule set_final_weight_sound [OF assms]) simp_all

lemma set_final_counts:
  "eps_counts_ok F \<Longrightarrow> s < num_states F \<Longrightarrow> eps_counts_ok (set_final_unchecked W F s w)"
  "eps_counts_ok F \<Longrightarrow> s < num_states F \<Longrightarrow> eps_counts_ok (delete_final_weight_unchecked W F s)"
  by (simp_all add: set_final_unchecked_def delete_final_weight_unchecked_def Let_def
      with_state_props with_state_counts eps_counts_state
      state_counts_ok_def [of "_\<lparr>final_weight := _\<rparr>"] eps_counts_state [unfolded state_counts_ok_def])

subsection \<open>New states\<close>

lemma add_states_graph:
  fixes F :: "'w vfst" and n :: nat and p :: fst_props
  defines "G \<equiv> F\<lparr>states := states F @ replicate n vstate_new, properties := p\<rparr>"
  shows "arcs G = arcs F" "edges G = edges F" "num_states G = num_states F + n"
    "start_state G = start_state F"
    "\<And>k. k < num_states F \<Longrightarrow> state_of G k = state_of F k"
    "\<And>k. \<not> k < num_states F \<Longrightarrow> k < num_states F + n \<Longrightarrow> state_of G k = vstate_new"
proof -
  show st: "\<And>k. k < num_states F \<Longrightarrow> state_of G k = state_of F k"
    "\<And>k. \<not> k < num_states F \<Longrightarrow> k < num_states F + n \<Longrightarrow> state_of G k = vstate_new"
    and n: "num_states G = num_states F + n" and "start_state G = start_state F"
    by (simp_all add: G_def nth_append)
  have "(s, t) \<in> arcs G \<longleftrightarrow> (s, t) \<in> arcs F" for s t
    using st [of s] n by (cases "s < num_states F") (auto simp: arcs_def vstate_new_def)
  then show a: "arcs G = arcs F" by auto
  then show "edges G = edges F" by (simp add: edges_def)
qed

lemma add_states_sound:
  fixes F :: "'w vfst" and n :: nat
  defines "G \<equiv> F\<lparr>states := states F @ replicate n vstate_new,
       properties := add_state_properties (properties F)\<rparr>"
  assumes "props_sound W F" and n: "0 < n"
  shows "props_sound W G"
proof -
  note g = add_states_graph [where F = F and n = n and p = "add_state_properties (properties F)", folded G_def]
  have out: "(a, b) \<in> edges F \<Longrightarrow> a < num_states F" for a b
    by (auto simp: edges_def arcs_def)
  have fin: "is_final_state G f \<longleftrightarrow> is_final_state F f" for f
    using g(5,6) [of f] g(3) by (cases "f < num_states F") (auto simp: is_final_state_def vstate_new_def)
  have stuck: "(a, b) \<in> (edges F)\<^sup>* \<Longrightarrow> \<not> a < num_states F \<Longrightarrow> b = a" for a b
    by (metis converse_rtranclE out)
  have all: "(\<forall>s < num_states G. P (state_of G s)) \<longleftrightarrow> (\<forall>s < num_states F. P (state_of F s))"
    if "P vstate_new" for P
  proof
    assume l: "\<forall>s < num_states G. P (state_of G s)"
    show "\<forall>s < num_states F. P (state_of F s)"
    proof (intro allI impI)
      fix s
      assume "s < num_states F"
      with l g(3) have "P (state_of G s)" by simp
      with g(5) [OF \<open>s < num_states F\<close>] show "P (state_of F s)" by simp
    qed
  next
    assume r: "\<forall>s < num_states F. P (state_of F s)"
    show "\<forall>s < num_states G. P (state_of G s)"
    proof (intro allI impI)
      fix s
      assume "s < num_states G"
      with r that g(3) g(5,6) [of s] show "P (state_of G s)"
        by (cases "s < num_states F") simp_all
    qed
  qed
  have sets: "sem W G q = sem W F q"
    if "q \<in> {IDeterministic, ODeterministic, ILabelSorted, OLabelSorted}" for q
    using that all [of "\<lambda>st. distinct (map ilabel (trs st))"] all [of "\<lambda>st. distinct (map olabel (trs st))"]
      all [of "\<lambda>st. sorted (map ilabel (trs st))"] all [of "\<lambda>st. sorted (map olabel (trs st))"]
    by (auto simp: vstate_new_def)
  have fws: "(\<exists>s w. s < num_states G \<and> final_weight (state_of G s) = Some w \<and> nontrivial W w) \<longleftrightarrow>
      (\<exists>s w. s < num_states F \<and> final_weight (state_of F s) = Some w \<and> nontrivial W w)"
    using all [of "\<lambda>st. \<forall>w. final_weight st = Some w \<longrightarrow> \<not> nontrivial W w"]
    by (simp add: vstate_new_def) blast
  have cyc: "cyclic_at G = cyclic_at F"
    by (simp add: fun_eq_iff cyclic_at_def g)
  have eq: "sem W G q = sem W F q" if "q \<notin> {Accessible, Coaccessible, StringFst}" for q
    using that sets [of q] fws cyc
    by (cases q) (simp_all add: g(1,2,4) del: sem.simps(2,3,7,8))
  have acc: "sem W F Accessible" if "sem W G Accessible"
    using that by (auto simp: g accessible_state_def)
  have last: "\<not> is_final_state G (num_states F + n - 1)"
    using n g(3) g(6) [of "num_states F + n - 1"] by (simp add: is_final_state_def vstate_new_def)
  have coacc: "\<not> sem W G Coaccessible"
  proof
    assume "sem W G Coaccessible"
    then have "coaccessible_state G (num_states F + n - 1)"
      using n by (auto simp: g)
    then obtain f where "is_final_state F f" "(num_states F + n - 1, f) \<in> (edges F)\<^sup>*"
      by (auto simp: coaccessible_state_def g fin)
    with stuck [of "num_states F + n - 1" f] n last show False by (auto simp: fin)
  qed
  have str: "\<not> sem W G StringFst"
    using last n by (auto simp: g string_state_def)
  have special: "q \<in> {Accessible, Coaccessible, StringFst} \<Longrightarrow> \<not> bit fp_add_state_properties (pos_bit q)"
    "q \<in> {Accessible, Coaccessible, StringFst} \<Longrightarrow> sem W G q \<Longrightarrow> sem W F q" for q
    using acc coacc str by (auto simp only: insert_iff empty_iff pos_bit.simps) (simp_all add: mask_nums)
  have "bits_sound W G (properties F AND fp_add_state_properties)"
    using assms(2) unfolding props_sound_def
    by (rule bits_sound_keep) (metis special eq)+
  then show ?thesis
    by (simp add: props_sound_def G_def add_state_properties_def)
qed

lemma add_state_sound: "props_sound W F \<Longrightarrow> props_sound W (fst (add_state F))"
  using add_states_sound [of W F 1] by (simp add: add_state_def)

lemma add_states_counts:
  "eps_counts_ok F \<Longrightarrow> eps_counts_ok (F\<lparr>states := states F @ replicate n vstate_new, properties := p\<rparr>)"
  by (auto simp: eps_counts_ok_def state_counts_ok_def vstate_new_def)

lemma add_state_counts: "eps_counts_ok F \<Longrightarrow> eps_counts_ok (fst (add_state F))"
  using add_states_counts [where F = F and n = 1] by (simp add: add_state_def)

subsection \<open>Adding a transition\<close>

text \<open>What \<open>add_tr_properties\<close> computes, bit by bit.\<close>

definition label_drops :: "('w tr \<Rightarrow> label) \<Rightarrow> 'w tr option \<Rightarrow> 'w tr \<Rightarrow> bool" where
  "label_drops l prev t \<longleftrightarrow> (\<exists>p. prev = Some p \<and> l t < l p)"

text \<open>Each step of the function sets one flag and clears its opposite under a condition.\<close>

definition set_clear :: "bool \<Rightarrow> fst_props \<Rightarrow> fst_props \<Rightarrow> fst_props \<Rightarrow> fst_props" where
  "set_clear c a b x = (if c then (x OR a) AND fp_not b else x)"

lemma bit_set_clear:
  "16 \<le> n \<Longrightarrow> n < 48 \<Longrightarrow>
   bit (set_clear c a b x) n \<longleftrightarrow> (bit x n \<or> c \<and> bit a n) \<and> \<not> (c \<and> bit b n)"
  by (auto simp: set_clear_def bit_and_iff bit_or_iff)

lemma set_clear_nested:
  "(if c then set_clear d a' b' ((x OR a) AND fp_not b) else x) =
     set_clear (c \<and> d) a' b' (set_clear c a b x)"
  by (auto simp: set_clear_def)

lemma set_clear_prev:
  "(case prev of None \<Rightarrow> x
    | Some p \<Rightarrow> set_clear (olabel t < olabel p) a' b' (set_clear (ilabel t < ilabel p) a b x)) =
     set_clear (label_drops olabel prev t) a' b' (set_clear (label_drops ilabel prev t) a b x)"
  by (auto simp: set_clear_def label_drops_def split: option.splits)

lemma add_tr_properties_chain:
  "add_tr_properties W p s t prev =
     (let x = set_clear (ilabel t \<noteq> olabel t) NOT_ACCEPTOR ACCEPTOR p;
          x = set_clear (ilabel t = EPS_LABEL) I_EPSILONS NO_I_EPSILONS x;
          x = set_clear (ilabel t = EPS_LABEL \<and> olabel t = EPS_LABEL) EPSILONS NO_EPSILONS x;
          x = set_clear (olabel t = EPS_LABEL) O_EPSILONS NO_O_EPSILONS x;
          x = set_clear (label_drops ilabel prev t) NOT_I_LABEL_SORTED I_LABEL_SORTED x;
          x = set_clear (label_drops olabel prev t) NOT_O_LABEL_SORTED O_LABEL_SORTED x;
          x = set_clear (nontrivial W (weight t)) WEIGHTED UNWEIGHTED x;
          x = set_clear (nextstate t \<le> s) NOT_TOP_SORTED TOP_SORTED x;
          x = x AND (fp_add_arc_properties OR ACCEPTOR OR NO_EPSILONS OR NO_I_EPSILONS OR
            NO_O_EPSILONS OR I_LABEL_SORTED OR O_LABEL_SORTED OR UNWEIGHTED OR TOP_SORTED)
      in if bit x 38 then x OR (ACYCLIC OR INITIAL_ACYCLIC) else x)"
  unfolding add_tr_properties_def contains_flags nontrivial_def [symmetric] set_clear_def [symmetric]
  by (simp only: Let_def set_clear_nested set_clear_prev)

lemma add_tr_properties_bits:
  fixes W :: "'w semiring" and p s t prev
  defines "p' \<equiv> add_tr_properties W p s t prev"
  shows
    "bit p' 16 \<longleftrightarrow> bit p 16 \<and> ilabel t = olabel t"
    "bit p' 17 \<longleftrightarrow> bit p 17 \<or> ilabel t \<noteq> olabel t"
    "\<not> bit p' 18" "bit p' 19 \<longleftrightarrow> bit p 19" "\<not> bit p' 20" "bit p' 21 \<longleftrightarrow> bit p 21"
    "bit p' 22 \<longleftrightarrow> bit p 22 \<or> ilabel t = EPS_LABEL \<and> olabel t = EPS_LABEL"
    "bit p' 23 \<longleftrightarrow> bit p 23 \<and> \<not> (ilabel t = EPS_LABEL \<and> olabel t = EPS_LABEL)"
    "bit p' 24 \<longleftrightarrow> bit p 24 \<or> ilabel t = EPS_LABEL"
    "bit p' 25 \<longleftrightarrow> bit p 25 \<and> ilabel t \<noteq> EPS_LABEL"
    "bit p' 26 \<longleftrightarrow> bit p 26 \<or> olabel t = EPS_LABEL"
    "bit p' 27 \<longleftrightarrow> bit p 27 \<and> olabel t \<noteq> EPS_LABEL"
    "bit p' 28 \<longleftrightarrow> bit p 28 \<and> \<not> label_drops ilabel prev t"
    "bit p' 29 \<longleftrightarrow> bit p 29 \<or> label_drops ilabel prev t"
    "bit p' 30 \<longleftrightarrow> bit p 30 \<and> \<not> label_drops olabel prev t"
    "bit p' 31 \<longleftrightarrow> bit p 31 \<or> label_drops olabel prev t"
    "bit p' 32 \<longleftrightarrow> bit p 32 \<or> nontrivial W (weight t)"
    "bit p' 33 \<longleftrightarrow> bit p 33 \<and> \<not> nontrivial W (weight t)"
    "bit p' 34 \<longleftrightarrow> bit p 34" "bit p' 35 \<longleftrightarrow> bit p 38 \<and> s < nextstate t"
    "bit p' 36 \<longleftrightarrow> bit p 36" "bit p' 37 \<longleftrightarrow> bit p 38 \<and> s < nextstate t"
    "bit p' 38 \<longleftrightarrow> bit p 38 \<and> s < nextstate t" "bit p' 39 \<longleftrightarrow> bit p 39 \<or> nextstate t \<le> s"
    "bit p' 40 \<longleftrightarrow> bit p 40" "\<not> bit p' 41" "bit p' 42 \<longleftrightarrow> bit p 42" "\<not> bit p' 43"
    "\<not> bit p' 44" "\<not> bit p' 45" "bit p' 46 \<longleftrightarrow> bit p 46" "\<not> bit p' 47"
  unfolding p'_def add_tr_properties_chain Let_def
  by (simp_all add: bit_and_iff bit_or_iff flag_bits mask_nums bit_set_clear if_distrib [of "\<lambda>x. bit x _"]
      not_le)

text \<open>The transducer after the new transition is pushed, before its properties are updated.\<close>

abbreviation push_tr :: "'w vfst \<Rightarrow> state_id \<Rightarrow> 'w tr \<Rightarrow> 'w vfst" where
  "push_tr F s t \<equiv> with_state F s (\<lambda>st. (increment_num_epsilons t st)\<lparr>trs := trs st @ [t]\<rparr>)"

definition last_tr :: "'w tr list \<Rightarrow> 'w tr option" where
  "last_tr ts = (if ts = [] then None else Some (last ts))"

lemma add_tr_unchecked_eq:
  assumes "s < num_states F"
  shows "add_tr_unchecked W F s t =
    (push_tr F s t)\<lparr>properties := add_tr_properties W (properties F) s t (last_tr (trs (state_of F s)))\<rparr>"
proof -
  let ?ts = "trs (state_of F s)"
  have "trs (state_of (push_tr F s t) s) = ?ts @ [t]"
    using assms by (simp add: with_state_def)
  moreover have "(if length (?ts @ [t]) > 1 then Some ((?ts @ [t]) ! (length (?ts @ [t]) - 2)) else None)
      = last_tr ?ts"
    by (cases ?ts rule: rev_cases) (simp_all add: last_tr_def nth_append)
  ultimately show ?thesis
    by (simp add: add_tr_unchecked_def update_properties_after_add_tr_def Let_def) (simp add: with_state_def)
qed

lemma push_tr_graph:
  assumes "s < num_states F"
  shows "arcs (push_tr F s t) = insert (s, t) (arcs F)"
    "edges (push_tr F s t) = insert (s, nextstate t) (edges F)"
    "num_states (push_tr F s t) = num_states F"
    "start_state (push_tr F s t) = start_state F"
    "k < num_states F \<Longrightarrow> final_weight (state_of (push_tr F s t) k) = final_weight (state_of F k)"
    "k < num_states F \<Longrightarrow> trs (state_of (push_tr F s t) k) =
       (if k = s then trs (state_of F s) @ [t] else trs (state_of F k))"
proof -
  show tr: "k < num_states F \<Longrightarrow> trs (state_of (push_tr F s t) k) =
       (if k = s then trs (state_of F s) @ [t] else trs (state_of F k))" for k
    by (simp add: with_state_def nth_upd)
  show "k < num_states F \<Longrightarrow> final_weight (state_of (push_tr F s t) k) = final_weight (state_of F k)"
    by (simp add: with_state_def nth_upd increment_num_epsilons_def)
  show n: "num_states (push_tr F s t) = num_states F" "start_state (push_tr F s t) = start_state F"
    by (simp_all add: with_state_def)
  show a: "arcs (push_tr F s t) = insert (s, t) (arcs F)"
    using assms by (auto simp: arcs_def n tr split: if_splits)
  show "edges (push_tr F s t) = insert (s, nextstate t) (edges F)"
    unfolding edges_def a by auto
qed

lemma edges_insert_mono:
  "(a, b) \<in> (edges F)\<^sup>* \<Longrightarrow> (a, b) \<in> (insert e (edges F))\<^sup>*"
  "(a, b) \<in> (edges F)\<^sup>+ \<Longrightarrow> (a, b) \<in> (insert e (edges F))\<^sup>+"
  by (meson rtrancl_mono subsetD subset_insertI) (meson subset_insertI trancl_mono)

lemma top_sorted_acyclic:
  assumes "\<forall>(a, b) \<in> edges F. a < b"
  shows "\<not> cyclic_at F s"
proof -
  have "(a, b) \<in> (edges F)\<^sup>+ \<Longrightarrow> a < b" for a b
    by (induction rule: trancl_induct) (use assms in force)+
  then show ?thesis by (auto simp: cyclic_at_def)
qed

text \<open>How the meaning of each flag changes.\<close>

lemma push_tr_sem:
  fixes W :: "'w semiring" and F :: "'w vfst" and s t
  assumes s: "s < num_states F"
  defines "G \<equiv> push_tr F s t" and "prev \<equiv> last_tr (trs (state_of F s))"
  shows "sem W G Acceptor \<longleftrightarrow> sem W F Acceptor \<and> ilabel t = olabel t"
    and "\<not> sem W F IDeterministic \<Longrightarrow> \<not> sem W G IDeterministic"
    and "\<not> sem W F ODeterministic \<Longrightarrow> \<not> sem W G ODeterministic"
    and "sem W G Epsilons \<longleftrightarrow> sem W F Epsilons \<or> ilabel t = EPS_LABEL \<and> olabel t = EPS_LABEL"
    and "sem W G IEpsilons \<longleftrightarrow> sem W F IEpsilons \<or> ilabel t = EPS_LABEL"
    and "sem W G OEpsilons \<longleftrightarrow> sem W F OEpsilons \<or> olabel t = EPS_LABEL"
    and "sem W G ILabelSorted \<longleftrightarrow> sem W F ILabelSorted \<and> \<not> label_drops ilabel prev t"
    and "sem W G OLabelSorted \<longleftrightarrow> sem W F OLabelSorted \<and> \<not> label_drops olabel prev t"
    and "sem W G Weighted \<longleftrightarrow> sem W F Weighted \<or> nontrivial W (weight t)"
    and "sem W F Cyclic \<Longrightarrow> sem W G Cyclic"
    and "sem W F InitialCyclic \<Longrightarrow> sem W G InitialCyclic"
    and "sem W G TopSorted \<longleftrightarrow> sem W F TopSorted \<and> s < nextstate t"
    and "sem W F Accessible \<Longrightarrow> sem W G Accessible"
    and "sem W F Coaccessible \<Longrightarrow> sem W G Coaccessible"
    and "sem W F WeightedCycles \<Longrightarrow> sem W G WeightedCycles"
proof -
  note g = push_tr_graph [OF s, where t = t, folded G_def]
  have sorted_snoc: "sorted (map l (trs (state_of F s) @ [t])) \<longleftrightarrow>
      sorted (map l (trs (state_of F s))) \<and> \<not> label_drops l prev t" for l
    unfolding prev_def
    by (cases "trs (state_of F s)" rule: rev_cases)
      (auto simp: label_drops_def last_tr_def sorted_append not_less intro: order.trans)
  have all: "(\<forall>k < num_states F. P (trs (state_of G k))) \<longleftrightarrow>
      (\<forall>k < num_states F. k \<noteq> s \<longrightarrow> P (trs (state_of F k))) \<and> P (trs (state_of F s) @ [t])" for P
    using s g(6) by auto
  have allF: "(\<forall>k < num_states F. P (trs (state_of F k))) \<longleftrightarrow>
      (\<forall>k < num_states F. k \<noteq> s \<longrightarrow> P (trs (state_of F k))) \<and> P (trs (state_of F s))" for P
    using s by auto
  show "sem W G Acceptor \<longleftrightarrow> sem W F Acceptor \<and> ilabel t = olabel t"
    "sem W G Epsilons \<longleftrightarrow> sem W F Epsilons \<or> ilabel t = EPS_LABEL \<and> olabel t = EPS_LABEL"
    "sem W G IEpsilons \<longleftrightarrow> sem W F IEpsilons \<or> ilabel t = EPS_LABEL"
    "sem W G OEpsilons \<longleftrightarrow> sem W F OEpsilons \<or> olabel t = EPS_LABEL"
    "sem W G TopSorted \<longleftrightarrow> sem W F TopSorted \<and> s < nextstate t"
    by (auto simp: g(1,2))
  show "\<not> sem W F IDeterministic \<Longrightarrow> \<not> sem W G IDeterministic"
    using all [of "\<lambda>ts. distinct (map ilabel ts)"] allF [of "\<lambda>ts. distinct (map ilabel ts)"]
    by (simp add: g(3)) blast
  show "\<not> sem W F ODeterministic \<Longrightarrow> \<not> sem W G ODeterministic"
    using all [of "\<lambda>ts. distinct (map olabel ts)"] allF [of "\<lambda>ts. distinct (map olabel ts)"]
    by (simp add: g(3)) blast
  show "sem W G ILabelSorted \<longleftrightarrow> sem W F ILabelSorted \<and> \<not> label_drops ilabel prev t"
    using all [of "\<lambda>ts. sorted (map ilabel ts)"] allF [of "\<lambda>ts. sorted (map ilabel ts)"] sorted_snoc
    by (simp add: g(3))
  show "sem W G OLabelSorted \<longleftrightarrow> sem W F OLabelSorted \<and> \<not> label_drops olabel prev t"
    using all [of "\<lambda>ts. sorted (map olabel ts)"] allF [of "\<lambda>ts. sorted (map olabel ts)"] sorted_snoc
    by (simp add: g(3))
  show "sem W G Weighted \<longleftrightarrow> sem W F Weighted \<or> nontrivial W (weight t)"
    using g(3,5) by (auto simp: g(1))
  have sub: "edges F \<subseteq> edges G"
    by (auto simp: g(2))
  show "sem W F Cyclic \<Longrightarrow> sem W G Cyclic" "sem W F InitialCyclic \<Longrightarrow> sem W G InitialCyclic"
    by (auto simp: g(4) dest: cyclic_at_mono [OF sub])
  show "sem W F WeightedCycles \<Longrightarrow> sem W G WeightedCycles"
    by (auto simp: g(1,2) intro: edges_insert_mono)
  have fin: "is_final_state G = is_final_state F"
    using g(3,5) by (auto simp: is_final_state_def fun_eq_iff)
  show "sem W F Accessible \<Longrightarrow> sem W G Accessible" "sem W F Coaccessible \<Longrightarrow> sem W G Coaccessible"
    by (auto simp: fin g(3) intro: accessible_mono [OF sub g(4) [symmetric]] coaccessible_mono [OF sub])
qed

lemma add_tr_sound:
  assumes "props_sound W F" and s: "s < num_states F"
  shows "props_sound W (add_tr_unchecked W F s t)"
proof -
  let ?G = "push_tr F s t"
  let ?p = "add_tr_properties W (properties F) s t (last_tr (trs (state_of F s)))"
  have acyclic: "\<not> sem W ?G Cyclic" "\<not> sem W ?G InitialCyclic" if "sem W ?G TopSorted"
    using that top_sorted_acyclic [of ?G] by auto
  have "bits_sound W ?G ?p"
    using assms(1) push_tr_sem [OF s, of W t] acyclic
    unfolding props_sound_def bits_sound_def
    by (simp add: fprop_all add_tr_properties_bits del: sem.simps)
  then show ?thesis
    by (simp add: props_sound_def add_tr_unchecked_eq [OF s])
qed

lemma add_tr_counts:
  assumes "eps_counts_ok F" and s: "s < num_states F"
  shows "eps_counts_ok (add_tr_unchecked W F s t)"
  using eps_counts_state [OF assms]
  by (simp add: add_tr_unchecked_eq [OF s] with_state_counts [OF assms(1)] state_counts_ok_def
      increment_num_epsilons_def)

end
