(* ===== verification/Vector_Fst_Delete.thy ===== *)
theory Vector_Fst_Delete
  imports Vector_Fst_Sound "HOL-Library.Sublist"
begin

text \<open>
  Deletion in a \<open>VectorFst\<close> (\<open>del_states\<close>, \<open>del_state\<close>, \<open>del_all_states\<close>, \<open>delete_trs\<close>,
  \<open>del_trs_id_sorted_unchecked\<close>) and \<open>set_trs_unchecked\<close>: what the loops compute, and that they keep
  the stored property bits sound, the epsilon counters exact and all targets in range.
\<close>

subsection \<open>Removing by index\<close>

lemma vec_remove_nths: "vec_remove xs i = nths xs (- {i})"
proof (cases "i < length xs")
  case True
  then have "nths xs (- {i}) = nths (take i xs @ xs ! i # drop (Suc i) xs) (- {i})"
    by (simp add: id_take_nth_drop [symmetric])
  also have "\<dots> = take i xs @ drop (Suc i) xs"
    using True by (simp add: nths_append nths_Cons nths_all min_def)
  finally show ?thesis by (simp add: vec_remove_def)
next
  case False
  then show ?thesis by (auto simp: vec_remove_def intro!: nths_all [symmetric])
qed

lemma nths_cong:
  assumes "\<And>i. i < length xs \<Longrightarrow> i \<in> A \<longleftrightarrow> i \<in> B"
  shows "nths xs A = nths xs B"
  unfolding nths_def by (rule arg_cong [where f = "map fst"], rule filter_cong) (auto simp: assms set_zip)

lemma fold_vec_remove_nths:
  assumes "sorted_wrt (<) is" and "\<forall>i \<in> set is. i < length xs"
  shows "fold (\<lambda>i xs. vec_remove xs i) (rev is) xs = nths xs (- set is)"
  using assms
proof (induction "is" arbitrary: xs rule: rev_induct)
  case Nil
  then show ?case by (simp add: nths_all)
next
  case (snoc i "is")
  let ?l = "take i xs" and ?r = "drop (Suc i) xs"
  from snoc.prems have i: "i < length xs" and less: "\<forall>j \<in> set is. j < i" and s: "sorted_wrt (<) is"
    by (auto simp: sorted_wrt_append)
  have len: "length ?l = i" using i by simp
  have "fold (\<lambda>i xs. vec_remove xs i) (rev (is @ [i])) xs = nths (?l @ ?r) (- set is)"
    using snoc.IH [OF s, of "vec_remove xs i"] less i by (force simp: vec_remove_def)
  also have "\<dots> = nths ?l (- set is) @ ?r"
    using less by (simp add: nths_append len) (auto intro!: nths_all)
  also have "\<dots> = nths (?l @ xs ! i # ?r) (- set (is @ [i]))"
  proof -
    have "nths ?l (- set is) = nths ?l (- set (is @ [i]))"
      by (rule nths_cong) (auto simp: len) 
    moreover have "?r = nths ?r {j. Suc j \<in> {j. j + i \<notin> set (is @ [i])}}"
      using less by (intro nths_all [symmetric]) force
    moreover have "min (length xs) i = i" "i \<notin> set is"
      using i less by auto
    ultimately show ?thesis
      by (simp add: nths_append nths_Cons)
  qed
  also have "\<dots> = nths xs (- set (is @ [i]))"
    using i by (simp add: id_take_nth_drop [symmetric])
  finally show ?case .
qed


subsection \<open>Marking and compaction\<close>

lemma mark_deleted_eq:
  assumes "set ds \<subseteq> {..< length ids}"
  shows "mark_deleted ds ids = Inr (map (\<lambda>i. if i \<in> set ds then - 1 else ids ! i) [0 ..< length ids])"
  using assms
proof (induction ds arbitrary: ids)
  case Nil
  then show ?case by (simp add: mark_deleted_def map_nth)
next
  case (Cons d ds)
  then have "mark_deleted (d # ds) ids = mark_deleted ds (ids[d := - 1])"
    by (auto simp: mark_deleted_def vec_set_def)
  with Cons show ?case by (auto simp: nth_upd intro!: map_cong)
qed

lemma mark_deleted_panic:
  assumes "\<not> set ds \<subseteq> {..< length ids}"
  shows "mark_deleted ds ids = Inl (Panic ''index out of bounds'')"
  using assms
proof (induction ds arbitrary: ids)
  case Nil
  then show ?case by simp
next
  case (Cons d ds)
  then show ?case
    by (cases "d < length ids") (auto simp: mark_deleted_def vec_set_def)
qed

text \<open>The states that stay, in order, and the new id of a state: its rank among them.\<close>

definition kept :: "state_id set \<Rightarrow> nat \<Rightarrow> state_id list" where
  "kept D n = filter (\<lambda>s. s \<notin> D) [0 ..< n]"

definition rank :: "state_id set \<Rightarrow> state_id \<Rightarrow> nat" where
  "rank D s = length (kept D s)"

lemma kept_Suc: "kept D (Suc n) = kept D n @ (if n \<in> D then [] else [n])"
  by (simp add: kept_def)

lemma set_kept: "set (kept D n) = {s. s < n \<and> s \<notin> D}"
  by (auto simp: kept_def)

lemma rank_le: "rank D s \<le> s"
  using length_filter_le [of "\<lambda>s. s \<notin> D" "[0 ..< s]"] by (simp add: rank_def kept_def)

lemma rank_Suc: "rank D (Suc s) = (if s \<in> D then rank D s else Suc (rank D s))"
  by (simp add: rank_def kept_Suc)

lemma rank_less: "s < n \<Longrightarrow> s \<notin> D \<Longrightarrow> rank D s < length (kept D n)"
proof (induction n)
  case 0
  then show ?case by simp
next
  case (Suc n)
  then show ?case by (cases "s = n") (auto simp: kept_Suc rank_def less_Suc_eq)
qed

lemma kept_nth_rank: "s < n \<Longrightarrow> s \<notin> D \<Longrightarrow> kept D n ! rank D s = s"
proof (induction n)
  case 0
  then show ?case by simp
next
  case (Suc n)
  show ?case
  proof (cases "s = n")
    case True
    with Suc.prems show ?thesis by (simp add: kept_Suc rank_def)
  next
    case False
    with Suc rank_less [of s n D] show ?thesis by (simp add: kept_Suc nth_append)
  qed
qed

lemma sorted_kept: "sorted_wrt (<) (kept D n)"
  by (simp add: kept_def sorted_wrt_filter)

lemma compact_loop_append: "compact_loop (xs @ ys) acc = compact_loop ys (compact_loop xs acc)"
proof (induction xs arbitrary: acc)
  case Nil
  then show ?case by simp
next
  case (Cons x xs)
  obtain a b c where "acc = (a, b, c)" by (cases acc)
  with Cons show ?case by simp
qed

text \<open>The loop invariant of the compaction.\<close>

lemma compact_loop_inv:
  fixes sts :: "'w vstate list" and D :: "state_id set" and s n :: nat
  assumes "s \<le> n" and "length sts = n"
  defines "ids \<equiv> \<lambda>k. map (\<lambda>i. if i \<in> D then - 1 else if i < k then int (rank D i) else 0) [0 ..< n]"
  shows "\<exists>sts'. compact_loop [0 ..< s] (ids 0, sts, 0) = (ids s, sts', rank D s) \<and>
    length sts' = n \<and> take (rank D s) sts' = map ((!) sts) (kept D s) \<and> drop s sts' = drop s sts"
  using assms(1)
proof (induction s)
  case 0
  then show ?case using assms(2) by (simp add: kept_def rank_def)
next
  case (Suc s)
  then obtain sts' where IH: "compact_loop [0 ..< s] (ids 0, sts, 0) = (ids s, sts', rank D s)"
      "length sts' = n" "take (rank D s) sts' = map ((!) sts) (kept D s)" "drop s sts' = drop s sts"
    by auto
  from Suc.prems have sn: "s < n" by simp
  then have ids_s: "ids s ! s = (if s \<in> D then - 1 else 0)"
    by (simp add: ids_def)
  have nth_s: "sts' ! s = sts ! s"
    using arg_cong [OF IH(4), of "\<lambda>xs. xs ! 0"] sn IH(2) assms(2) by simp
  have step: "compact_loop [0 ..< Suc s] (ids 0, sts, 0) = compact_loop [s] (ids s, sts', rank D s)"
    by (simp add: compact_loop_append IH(1))
  show ?case
  proof (cases "s \<in> D")
    case True
    then have "ids (Suc s) = ids s"
      by (auto simp: ids_def less_Suc_eq)
    moreover have "drop (Suc s) sts' = drop (Suc s) sts"
      using arg_cong [OF IH(4), of tl] by (simp add: drop_Suc tl_drop)
    ultimately show ?thesis
      using True IH step ids_s by (simp add: kept_Suc rank_Suc)
  next
    case False
    let ?r = "rank D s"
    let ?sts = "if s \<noteq> ?r then vec_swap sts' ?r s else sts'"
    have r: "?r \<le> s" by (rule rank_le)
    have ids': "(ids s)[s := int ?r] = ids (Suc s)"
      using False sn by (intro nth_equalityI) (auto simp: ids_def nth_upd less_Suc_eq)
    have nth: "?sts ! k = (if k = ?r then sts' ! s else if k = s then sts' ! ?r else sts' ! k)" for k
      using r sn IH(2) by (auto simp: nth_vec_swap)
    have len: "length ?sts = n" by (simp add: IH(2))
    have "take ?r ?sts = take ?r sts'"
      using r sn len IH(2) by (intro nth_equalityI) (auto simp: nth)
    then have "take (Suc ?r) ?sts = map ((!) sts) (kept D (Suc s))"
      using False r sn len nth [of ?r] by (simp add: take_Suc_conv_app_nth IH(3) nth_s kept_Suc)
    moreover have "drop (Suc s) ?sts = drop (Suc s) sts"
    proof -
      have "drop (Suc s) ?sts = drop (Suc s) sts'"
        using r sn len IH(2) by (intro nth_equalityI) (auto simp: nth)
      also have "\<dots> = drop (Suc s) sts"
        using arg_cong [OF IH(4), of tl] by (simp add: drop_Suc tl_drop)
      finally show ?thesis .
    qed
    ultimately show ?thesis
      using False step ids_s len by (auto simp: ids' rank_Suc)
  qed
qed


subsection \<open>Retargeting the transitions of the states that stay\<close>

lemma retarget_loop_eq:
  assumes "\<forall>t \<in> set ts. nextstate t < length ids"
  defines "dead \<equiv> \<lambda>t :: 'w tr. ids ! nextstate t = - 1"
  shows "retarget_loop ids idx ts (seen, del, ni, no) = Inr
    (seen @ map (\<lambda>t. if dead t then t else t\<lparr>nextstate := nat (ids ! nextstate t)\<rparr>) ts,
     del @ filter (\<lambda>i. dead (ts ! (i - idx))) [idx ..< idx + length ts],
     ni - count_ieps (filter dead ts), no - count_oeps (filter dead ts))"
  using assms(1)
proof (induction ts arbitrary: idx seen del ni no)
  case Nil
  then show ?case by simp
next
  case (Cons t ts)
  have upt: "[idx ..< idx + length (t # ts)] = idx # [Suc idx ..< Suc idx + length ts]"
    by (simp add: upt_conv_Cons del: upt_Suc)
  have shift: "filter (\<lambda>i. dead ((t # ts) ! (i - idx))) [Suc idx ..< Suc idx + length ts] =
      filter (\<lambda>i. dead (ts ! (i - Suc idx))) [Suc idx ..< Suc idx + length ts]"
    by (rule filter_cong) (auto simp: nth_Cons' )
  have flt: "filter (\<lambda>i. dead ((t # ts) ! (i - idx))) [idx ..< idx + length (t # ts)] =
      (if dead t then [idx] else []) @ filter (\<lambda>i. dead (ts ! (i - Suc idx))) [Suc idx ..< Suc idx + length ts]"
    unfolding upt filter.simps shift by simp
  from Cons.prems have v: "rbind (vec_index ids (nextstate t)) f = f (ids ! nextstate t)"
    for f :: "int \<Rightarrow> ('w tr list \<times> nat list \<times> nat \<times> nat) res"
    by (simp add: vec_index_def)
  show ?case
    unfolding flt retarget_loop.simps v using Cons.IH Cons.prems by (auto simp: dead_def)
qed

definition renamed :: "state_id set \<Rightarrow> 'w tr \<Rightarrow> 'w tr" where
  "renamed D t = t\<lparr>nextstate := rank D (nextstate t)\<rparr>"

definition renamed_state :: "state_id set \<Rightarrow> 'w vstate \<Rightarrow> 'w vstate" where
  "renamed_state D st = st\<lparr>
     trs := map (renamed D) (filter (\<lambda>t. nextstate t \<notin> D) (trs st)),
     niepsilons := niepsilons st - count_ieps (filter (\<lambda>t. nextstate t \<in> D) (trs st)),
     noepsilons := noepsilons st - count_oeps (filter (\<lambda>t. nextstate t \<in> D) (trs st))\<rparr>"

lemma retarget_state_eq:
  assumes "\<forall>t \<in> set (trs st). nextstate t < n"
  shows "retarget_state (map (\<lambda>i. if i \<in> D then - 1 else if i < n then int (rank D i) else 0) [0 ..< n]) st =
    Inr (renamed_state D st)"
proof -
  let ?ids = "map (\<lambda>i. if i \<in> D then - 1 else if i < n then int (rank D i) else 0) [0 ..< n]"
  let ?ts = "trs st"
  let ?f = "\<lambda>t. if nextstate t \<in> D then t else renamed D t"
  have dead: "?ids ! nextstate t = - 1 \<longleftrightarrow> nextstate t \<in> D"
    and new: "nextstate t \<notin> D \<Longrightarrow> nat (?ids ! nextstate t) = rank D (nextstate t)" if "t \<in> set ?ts" for t
    using assms that by auto
  let ?dead = "filter (\<lambda>i. nextstate (?ts ! i) \<in> D) [0 ..< length ?ts]"
  have "retarget_loop ?ids 0 ?ts ([], [], niepsilons st, noepsilons st) = Inr
      (map ?f ?ts, ?dead, niepsilons st - count_ieps (filter (\<lambda>t. nextstate t \<in> D) ?ts),
       noepsilons st - count_oeps (filter (\<lambda>t. nextstate t \<in> D) ?ts))"
  proof -
    have a: "map (\<lambda>t. if ?ids ! nextstate t = - 1 then t
        else t\<lparr>nextstate := nat (?ids ! nextstate t)\<rparr>) ?ts = map ?f ?ts"
      by (rule map_cong) (auto simp only: dead new renamed_def if_False if_True split: if_splits)
    have b: "filter (\<lambda>t. ?ids ! nextstate t = - 1) ?ts = filter (\<lambda>t. nextstate t \<in> D) ?ts"
      by (rule filter_cong) (simp_all only: dead)
    have c: "filter (\<lambda>i. ?ids ! nextstate (?ts ! (i - 0)) = - 1) [0 ..< 0 + length ?ts] = ?dead"
      by (rule filter_cong) (auto simp only: dead nth_mem set_upt atLeastLessThan_iff add_0 diff_zero)
    show ?thesis
      using retarget_loop_eq [of ?ts ?ids 0 "[]" "[]" "niepsilons st" "noepsilons st"] assms
      unfolding a b c by simp
  qed
  moreover have "fold (\<lambda>i ts. vec_remove ts i) (rev ?dead) (map ?f ?ts) =
      map (renamed D) (filter (\<lambda>t. nextstate t \<notin> D) ?ts)"
  proof -
    have "fold (\<lambda>i ts. vec_remove ts i) (rev ?dead) (map ?f ?ts) = nths (map ?f ?ts) (- set ?dead)"
      by (rule fold_vec_remove_nths) (auto simp: sorted_wrt_filter)
    also have "\<dots> = map ?f (nths ?ts (- set ?dead))"
      by (rule nths_map)
    also have "nths ?ts (- set ?dead) = filter (\<lambda>t. nextstate t \<notin> D) ?ts"
      unfolding filter_eq_nths [of "\<lambda>t. nextstate t \<notin> D" ?ts] by (rule nths_cong) auto
    also have "map ?f (filter (\<lambda>t. nextstate t \<notin> D) ?ts) =
        map (renamed D) (filter (\<lambda>t. nextstate t \<notin> D) ?ts)"
      by (rule map_cong) auto
    finally show ?thesis .
  qed
  ultimately show ?thesis
    by (simp add: retarget_state_def renamed_state_def)
qed

text \<open>What \<open>del_states\<close> returns: the states that stay, in order, renumbered by rank.\<close>

definition deleted :: "state_id set \<Rightarrow> 'w vfst \<Rightarrow> 'w vfst" where
  "deleted D F = F\<lparr>
     states := map (\<lambda>s. renamed_state D (state_of F s)) (kept D (num_states F)),
     start_state := (case start_state F of None \<Rightarrow> None | Some i \<Rightarrow> if i \<in> D then None else Some (rank D i)),
     properties := delete_states_properties (properties F)\<rparr>"

text \<open>What the loops need: the start state and the targets of the states that stay are in range.\<close>

definition survivors_ok :: "state_id set \<Rightarrow> 'w vfst \<Rightarrow> bool" where
  "survivors_ok D F \<longleftrightarrow>
     (\<forall>i. start_state F = Some i \<longrightarrow> i < num_states F) \<and>
     (\<forall>s < num_states F. s \<notin> D \<longrightarrow> (\<forall>t \<in> set (trs (state_of F s)). nextstate t < num_states F))"

lemma targets_survivors: "targets_ok F \<Longrightarrow> survivors_ok D F"
  by (auto simp: targets_ok_def survivors_ok_def)

text \<open>The vector \<open>new_id\<close> after the compaction loop.\<close>

definition new_ids :: "state_id set \<Rightarrow> nat \<Rightarrow> int list" where
  "new_ids D n = map (\<lambda>i. if i \<in> D then - 1 else if i < n then int (rank D i) else 0) [0 ..< n]"

lemma del_states_unfold:
  assumes ds: "set ds \<subseteq> {..< num_states F}"
  shows "del_states F ds =
    rbind (map_res (retarget_state (new_ids (set ds) (num_states F))) (map ((!) (states F)) (kept (set ds) (num_states F)))) (\<lambda>sts'.
    rbind (new_start (new_ids (set ds) (num_states F)) (start_state F)) (\<lambda>start'.
      Inr (F\<lparr>states := sts', start_state := start', properties := delete_states_properties (properties F)\<rparr>)))"
proof -
  let ?n = "num_states F" and ?D = "set ds"
  let ?ids = "\<lambda>k. map (\<lambda>i. if i \<in> ?D then - 1 else if i < k then int (rank ?D i) else 0) [0 ..< ?n]"
  have marked: "mark_deleted ds (replicate ?n 0) = Inr (?ids 0)"
    using ds by (subst mark_deleted_eq) (auto intro!: map_cong)
  obtain sts where c: "compact_loop [0 ..< ?n] (?ids 0, states F, 0) = (?ids ?n, sts, rank ?D ?n)"
    and t: "take (rank ?D ?n) sts = map ((!) (states F)) (kept ?D ?n)"
    using compact_loop_inv [of ?n ?n "states F" ?D] by auto
  have ids: "?ids ?n = new_ids ?D ?n" by (simp add: new_ids_def)
  show ?thesis unfolding del_states_def marked rbind_Inr Let_def c [unfolded ids] prod.case t ..
qed

lemma del_states_survivors:
  assumes ok: "survivors_ok (set ds) F" and ds: "set ds \<subseteq> {..< num_states F}"
  shows "del_states F ds = Inr (deleted (set ds) F)"
proof -
  let ?n = "num_states F" and ?D = "set ds"
  have "map_res (retarget_state (new_ids ?D ?n)) (map ((!) (states F)) (kept ?D ?n)) =
      Inr (map (renamed_state ?D) (map ((!) (states F)) (kept ?D ?n)))"
  proof (rule map_res_total)
    fix st
    assume "st \<in> set (map ((!) (states F)) (kept ?D ?n))"
    with ok show "retarget_state (new_ids ?D ?n) st = Inr (renamed_state ?D st)"
      unfolding new_ids_def by (intro retarget_state_eq) (auto simp: survivors_ok_def set_kept)
  qed
  moreover have "new_start (new_ids ?D ?n) (start_state F) =
      Inr (case start_state F of None \<Rightarrow> None | Some i \<Rightarrow> if i \<in> ?D then None else Some (rank ?D i))"
    using ok by (auto simp: new_start_def survivors_ok_def vec_index_def new_ids_def split: option.splits)
  ultimately show ?thesis
    unfolding del_states_unfold [OF ds] deleted_def by (simp add: o_def)
qed

lemma del_states_eq:
  assumes "targets_ok F" and "set ds \<subseteq> {..< num_states F}"
  shows "del_states F ds = Inr (deleted (set ds) F)"
  by (rule del_states_survivors [OF targets_survivors [OF assms(1)] assms(2)])

lemma del_states_panic:
  assumes "\<not> set ds \<subseteq> {..< num_states F}"
  shows "del_states F ds = Inl (Panic ''index out of bounds'')"
  using mark_deleted_panic [of ds "replicate (num_states F) 0"] assms by (simp add: del_states_def)

lemma retarget_loop_Inr:
  "retarget_loop ids idx ts acc = Inr r \<Longrightarrow> \<forall>t \<in> set ts. nextstate t < length ids"
proof (induction ts arbitrary: idx acc)
  case Nil
  then show ?case by simp
next
  case (Cons t ts)
  obtain seen del ni no where acc: "acc = (seen, del, ni, no)" by (metis prod_cases4)
  from Cons.prems have "nextstate t < length ids" "\<exists>idx acc. retarget_loop ids idx ts acc = Inr r"
    unfolding acc retarget_loop.simps by (auto simp only: rbind_eq_Inr vec_index_Inr split: if_splits)
  with Cons.IH show ?case by auto
qed

lemma map_res_Inr: "map_res f xs = Inr ys \<Longrightarrow> x \<in> set xs \<Longrightarrow> is_ok (f x)"
  by (induction xs arbitrary: ys) (auto simp: rbind_eq_Inr)

text \<open>A target or a start state out of range makes \<open>del_states\<close> panic, unless its state is deleted.\<close>

lemma del_states_Inr:
  assumes "del_states F ds = Inr G"
  shows "set ds \<subseteq> {..< num_states F}" "survivors_ok (set ds) F" "G = deleted (set ds) F"
proof -
  let ?n = "num_states F" and ?D = "set ds"
  show ds: "?D \<subseteq> {..< ?n}" using assms del_states_panic [of ds F] by force
  obtain sts' start' where r: "map_res (retarget_state (new_ids ?D ?n)) (map ((!) (states F)) (kept ?D ?n)) = Inr sts'"
    "new_start (new_ids ?D ?n) (start_state F) = Inr start'"
    using assms by (auto simp: del_states_unfold [OF ds] rbind_eq_Inr)
  have "nextstate t < ?n" if s: "s < ?n" "s \<notin> ?D" and t: "t \<in> set (trs (state_of F s))" for s t
  proof -
    have "is_ok (retarget_state (new_ids ?D ?n) (state_of F s))"
      using s by (intro map_res_Inr [OF r(1)]) (simp add: set_kept)
    then show ?thesis
      using t retarget_loop_Inr by (fastforce simp: is_ok_iff retarget_state_def rbind_eq_Inr new_ids_def)
  qed
  with r(2) show ok: "survivors_ok ?D F"
    by (auto simp: survivors_ok_def new_start_def new_ids_def rbind_eq_Inr split: option.splits)
  show "G = deleted ?D F" using assms del_states_survivors [OF ok ds] by simp
qed


subsection \<open>Sub-transducers\<close>

text \<open>
  \<open>G\<close> is part of \<open>F\<close> under the numbering \<open>f\<close>: fewer states, fewer transitions in the same
  order, the same final weights.
\<close>

definition tr_image :: "(state_id \<Rightarrow> state_id) \<Rightarrow> 'w tr \<Rightarrow> label \<times> label \<times> 'w \<times> state_id" where
  "tr_image f t = (ilabel t, olabel t, weight t, f (nextstate t))"

definition sub_fst :: "(state_id \<Rightarrow> state_id) \<Rightarrow> 'w vfst \<Rightarrow> 'w vfst \<Rightarrow> bool" where
  "sub_fst f G F \<longleftrightarrow>
     (\<forall>k < num_states G. f k < num_states F \<and>
        final_weight (state_of G k) = final_weight (state_of F (f k)) \<and>
        subseq (map (tr_image f) (trs (state_of G k))) (map (tr_image id) (trs (state_of F (f k))))) \<and>
     (\<forall>(s, t) \<in> arcs G. f s < f (nextstate t) \<longrightarrow> s < nextstate t) \<and>
     (\<forall>i. start_state G = Some i \<longrightarrow> start_state F = Some (f i))"

lemma sub_fst_arc:
  assumes "sub_fst f G F" and "(s, t) \<in> arcs G"
  shows "\<exists>u. (f s, u) \<in> arcs F \<and> ilabel u = ilabel t \<and> olabel u = olabel t \<and> weight u = weight t \<and>
    nextstate u = f (nextstate t)"
proof -
  from assms have s: "s < num_states G" "t \<in> set (trs (state_of G s))"
    by (auto simp: arcs_def)
  with assms(1) have "tr_image f t \<in> set (map (tr_image id) (trs (state_of F (f s))))"
    unfolding sub_fst_def by (metis (no_types, lifting) image_eqI in_mono list.set_map set_nths_subset subseq_conv_nths)
  then obtain u where "u \<in> set (trs (state_of F (f s)))" "tr_image f t = tr_image id u" by auto
  with s assms(1) show ?thesis by (auto simp: sub_fst_def arcs_def tr_image_def)
qed

lemma sub_fst_edge: "sub_fst f G F \<Longrightarrow> (a, b) \<in> edges G \<Longrightarrow> (f a, f b) \<in> edges F"
  unfolding edges_def by (auto dest!: sub_fst_arc) (metis)

lemma sub_fst_path:
  assumes "sub_fst f G F"
  shows "(a, b) \<in> (edges G)\<^sup>* \<Longrightarrow> (f a, f b) \<in> (edges F)\<^sup>*"
    and "(a, b) \<in> (edges G)\<^sup>+ \<Longrightarrow> (f a, f b) \<in> (edges F)\<^sup>+"
proof -
  show "(a, b) \<in> (edges G)\<^sup>* \<Longrightarrow> (f a, f b) \<in> (edges F)\<^sup>*"
    by (induction rule: rtrancl_induct) (auto intro: rtrancl_into_rtrancl sub_fst_edge [OF assms])
  show "(a, b) \<in> (edges G)\<^sup>+ \<Longrightarrow> (f a, f b) \<in> (edges F)\<^sup>+"
    by (induction rule: trancl_induct) (auto intro: trancl_into_trancl sub_fst_edge [OF assms])
qed

lemma subseq_sorted: "subseq xs ys \<Longrightarrow> sorted ys \<Longrightarrow> sorted xs"
  by (metis subseq_conv_nths sorted_nths)

lemma subseq_distinct: "subseq xs ys \<Longrightarrow> distinct ys \<Longrightarrow> distinct xs"
  by (metis subseq_conv_nths distinct_nthsI)

lemma sub_fst_labels:
  assumes "sub_fst f G F" and "k < num_states G"
  shows "subseq (map ilabel (trs (state_of G k))) (map ilabel (trs (state_of F (f k))))"
    and "subseq (map olabel (trs (state_of G k))) (map olabel (trs (state_of F (f k))))"
proof -
  have q: "subseq (map (tr_image f) (trs (state_of G k))) (map (tr_image id) (trs (state_of F (f k))))"
    using assms by (simp add: sub_fst_def)
  from subseq_map [OF q, of fst] subseq_map [OF q, of "fst \<circ> snd"]
  show "subseq (map ilabel (trs (state_of G k))) (map ilabel (trs (state_of F (f k))))"
    "subseq (map olabel (trs (state_of G k))) (map olabel (trs (state_of F (f k))))"
    by (simp_all add: o_def tr_image_def)
qed

text \<open>What holds of the whole and survives in the part.\<close>

lemma sub_fst_sem:
  assumes sub: "sub_fst f G F"
  shows "sem W F Acceptor \<Longrightarrow> sem W G Acceptor"
    "sem W F IDeterministic \<Longrightarrow> sem W G IDeterministic"
    "sem W F ODeterministic \<Longrightarrow> sem W G ODeterministic"
    "sem W G Epsilons \<Longrightarrow> sem W F Epsilons" "sem W G IEpsilons \<Longrightarrow> sem W F IEpsilons"
    "sem W G OEpsilons \<Longrightarrow> sem W F OEpsilons"
    "sem W F ILabelSorted \<Longrightarrow> sem W G ILabelSorted" "sem W F OLabelSorted \<Longrightarrow> sem W G OLabelSorted"
    "sem W G Weighted \<Longrightarrow> sem W F Weighted" "sem W G Cyclic \<Longrightarrow> sem W F Cyclic"
    "sem W G InitialCyclic \<Longrightarrow> sem W F InitialCyclic" "sem W F TopSorted \<Longrightarrow> sem W G TopSorted"
    "sem W G WeightedCycles \<Longrightarrow> sem W F WeightedCycles"
proof -
  have k: "f k < num_states F" "final_weight (state_of G k) = final_weight (state_of F (f k))"
    if "k < num_states G" for k
    using sub that by (simp_all add: sub_fst_def)
  note arc = sub_fst_arc [OF sub]
  show "sem W F Acceptor \<Longrightarrow> sem W G Acceptor" by (fastforce dest: arc)
  show "sem W G Epsilons \<Longrightarrow> sem W F Epsilons" "sem W G IEpsilons \<Longrightarrow> sem W F IEpsilons"
    "sem W G OEpsilons \<Longrightarrow> sem W F OEpsilons"
    by (fastforce dest: arc)+
  show "sem W F IDeterministic \<Longrightarrow> sem W G IDeterministic"
    using k(1) subseq_distinct [OF sub_fst_labels(1) [OF sub]] by simp
  show "sem W F ODeterministic \<Longrightarrow> sem W G ODeterministic"
    using k(1) subseq_distinct [OF sub_fst_labels(2) [OF sub]] by simp
  show "sem W F ILabelSorted \<Longrightarrow> sem W G ILabelSorted"
    using k(1) subseq_sorted [OF sub_fst_labels(1) [OF sub]] by simp
  show "sem W F OLabelSorted \<Longrightarrow> sem W G OLabelSorted"
    using k(1) subseq_sorted [OF sub_fst_labels(2) [OF sub]] by simp
  show "sem W G Weighted \<Longrightarrow> sem W F Weighted"
  proof -
    assume "sem W G Weighted"
    then consider s t where "(s, t) \<in> arcs G" "nontrivial W (weight t)"
      | s w where "s < num_states G" "final_weight (state_of G s) = Some w" "nontrivial W w"
      by auto
    then show "sem W F Weighted"
    proof cases
      case 1
      from arc [OF 1(1)] obtain u where "(f s, u) \<in> arcs F" "weight u = weight t" by auto
      with 1(2) show ?thesis by (auto intro!: bexI [of _ "(f s, u)"])
    next
      case 2
      with k [OF 2(1)] show ?thesis by (metis sem.simps(9))
    qed
  qed
  have cyc: "cyclic_at G s \<Longrightarrow> cyclic_at F (f s)" for s
    by (simp add: cyclic_at_def sub_fst_path(2) [OF sub])
  show "sem W G Cyclic \<Longrightarrow> sem W F Cyclic" using cyc by auto
  show "sem W G InitialCyclic \<Longrightarrow> sem W F InitialCyclic"
    using sub cyc by (auto simp: sub_fst_def)
  show "sem W F TopSorted \<Longrightarrow> sem W G TopSorted"
    using sub by (fastforce simp: sub_fst_def edges_def dest: arc)
  show "sem W G WeightedCycles \<Longrightarrow> sem W F WeightedCycles"
  proof -
    assume "sem W G WeightedCycles"
    then obtain s t where t: "(s, t) \<in> arcs G" "nontrivial W (weight t)" "(nextstate t, s) \<in> (edges G)\<^sup>*"
      by auto
    from arc [OF t(1)] obtain u where "(f s, u) \<in> arcs F" "weight u = weight t" "nextstate u = f (nextstate t)"
      by auto
    with t(2) sub_fst_path(1) [OF sub t(3)] show "sem W F WeightedCycles"
      by (auto intro!: bexI [of _ "(f s, u)"])
  qed
qed

lemma sub_fst_sound:
  assumes "sub_fst f G F" and "bits_sound W F p"
  shows "bits_sound W G (p AND fp_delete_states_properties)"
  by (rule bits_sound_keep [OF assms(2)]; case_tac q;
      simp add: mask_nums sub_fst_sem [OF assms(1)] del: sem.simps)


lemma kept_id: "kept {} n = [0 ..< n]"
  by (simp add: kept_def)

lemma rank_kept_nth: "k < length (kept D n) \<Longrightarrow> rank D (kept D n ! k) = k"
  by (metis (mono_tags, lifting) kept_nth_rank mem_Collect_eq nth_eq_iff_index_eq nth_mem rank_less
      set_kept sorted_kept strict_sorted_iff)

lemma kept_nth_less:
  "j < length (kept D n) \<Longrightarrow> i < length (kept D n) \<Longrightarrow> kept D n ! i < kept D n ! j \<longleftrightarrow> i < j"
  by (metis sorted_kept linorder_neqE_nat order_less_asym sorted_wrt_nth_less)

lemma deleted_props [simp]:
  "properties (deleted D F) = delete_states_properties (properties F)"
  "num_states (deleted D F) = length (kept D (num_states F))"
  by (simp_all add: deleted_def)

lemma deleted_state:
  "k < length (kept D (num_states F)) \<Longrightarrow>
   state_of (deleted D F) k = renamed_state D (state_of F (kept D (num_states F) ! k))"
  by (simp add: deleted_def)

lemma renamed_state_simps [simp]:
  "trs (renamed_state D st) = map (renamed D) (filter (\<lambda>t. nextstate t \<notin> D) (trs st))"
  "final_weight (renamed_state D st) = final_weight st"
  by (simp_all add: renamed_state_def)

lemma renamed_simps [simp]:
  "ilabel (renamed D t) = ilabel t" "olabel (renamed D t) = olabel t" "weight (renamed D t) = weight t"
  "nextstate (renamed D t) = rank D (nextstate t)"
  by (simp_all add: renamed_def)

lemma targets_state:
  "targets_ok F \<Longrightarrow> s < num_states F \<Longrightarrow> t \<in> set (trs (state_of F s)) \<Longrightarrow> nextstate t < num_states F"
  by (auto simp: targets_ok_def)

lemma survivors_state:
  "survivors_ok D F \<Longrightarrow> k < length (kept D (num_states F)) \<Longrightarrow>
   t \<in> set (trs (state_of F (kept D (num_states F) ! k))) \<Longrightarrow> nextstate t < num_states F"
  using nth_mem [of k "kept D (num_states F)"] by (auto simp: survivors_ok_def set_kept)

lemma deleted_sub_fst:
  assumes ok: "survivors_ok D F"
  shows "sub_fst (\<lambda>k. kept D (num_states F) ! k) (deleted D F) F"
proof -
  let ?K = "kept D (num_states F)"
  have dom: "?K ! k < num_states F" if "k < length ?K" for k
    using nth_mem [OF that] by (simp add: set_kept)
  have img: "map (tr_image ((!) ?K)) (map (renamed D) (filter (\<lambda>t. nextstate t \<notin> D) ts)) =
      map (tr_image id) (filter (\<lambda>t. nextstate t \<notin> D) ts)"
    if "\<forall>t \<in> set ts. nextstate t < num_states F" for ts :: "'a tr list"
    using that by (auto simp: tr_image_def kept_nth_rank)
  have trs: "subseq (map (tr_image ((!) ?K)) (trs (state_of (deleted D F) k)))
      (map (tr_image id) (trs (state_of F (?K ! k))))" if k: "k < length ?K" for k
  proof -
    have "\<forall>t \<in> set (trs (state_of F (?K ! k))). nextstate t < num_states F"
      using survivors_state [OF ok k] by blast
    from img [OF this] show ?thesis
      using k by (simp add: deleted_state subseq_map del: map_map)
  qed
  have mono: "s < nextstate t" if "(s, t) \<in> arcs (deleted D F)" "?K ! s < ?K ! nextstate t" for s t
  proof -
    from that(1) have s: "s < length ?K" by (simp add: arcs_def)
    with that(1) obtain u where u: "u \<in> set (trs (state_of F (?K ! s)))" "nextstate u \<notin> D" "t = renamed D u"
      by (auto simp: arcs_def deleted_state)
    with survivors_state [OF ok s] have "nextstate t < length ?K"
      by (simp add: rank_less)
    with s that(2) show ?thesis by (simp add: kept_nth_less)
  qed
  have start: "start_state F = Some (?K ! i)" if "start_state (deleted D F) = Some i" for i
    using that ok by (auto simp: deleted_def survivors_ok_def kept_nth_rank split: option.splits if_splits)
  show ?thesis
    unfolding sub_fst_def
    using dom trs mono start by (auto simp: deleted_state)
qed

lemma deleted_sound:
  "props_sound W F \<Longrightarrow> survivors_ok D F \<Longrightarrow> props_sound W (deleted D F)"
  using sub_fst_sound [OF deleted_sub_fst, of D F W "properties F"]
  by (simp add: props_sound_def delete_states_properties_def)

lemma deleted_targets:
  assumes "survivors_ok D F"
  shows "targets_ok (deleted D F)"
proof -
  have "rank D i < length (kept D (num_states F))" if "i < num_states F" "i \<notin> D" for i
    using that by (rule rank_less)
  with assms show ?thesis
    by (auto simp: targets_ok_def survivors_ok_def deleted_def set_kept split: option.splits if_splits)
qed

lemma count_partition:
  "length (filter P ts) - length (filter P (filter Q ts)) = length (filter P (filter (\<lambda>t. \<not> Q t) ts))"
  using sum_length_filter_compl [of Q "filter P ts"] by (simp add: conj_commute)

lemma renamed_state_counts: "state_counts_ok st \<Longrightarrow> state_counts_ok (renamed_state D st)"
  using count_partition [of "\<lambda>t. ilabel t = EPS_LABEL" "trs st" "\<lambda>t. nextstate t \<in> D"]
    count_partition [of "\<lambda>t. olabel t = EPS_LABEL" "trs st" "\<lambda>t. nextstate t \<in> D"]
  by (simp add: state_counts_ok_def renamed_state_def count_ieps_def count_oeps_def filter_map o_def)

lemma deleted_counts: "eps_counts_ok F \<Longrightarrow> eps_counts_ok (deleted D F)"
  by (auto simp: eps_counts_ok_def deleted_def set_kept intro: renamed_state_counts)


subsection \<open>Removing transitions of one state\<close>

lemma shrink_state_sub_fst:
  assumes s: "s < num_states F"
    and g: "\<And>st. final_weight (f st) = final_weight st" "subseq (trs (f (state_of F s))) (trs (state_of F s))"
  shows "sub_fst id (with_state F s f) F"
  using s g by (auto simp: sub_fst_def with_state_def nth_upd intro: subseq_map)

text \<open>The same states, fewer transitions: more states are unreachable.\<close>

lemma shrink_state_sem:
  assumes s: "s < num_states F"
    and g: "\<And>st. final_weight (f st) = final_weight st" "subseq (trs (f (state_of F s))) (trs (state_of F s))"
  shows "sem W (with_state F s f) Accessible \<Longrightarrow> sem W F Accessible"
    "sem W (with_state F s f) Coaccessible \<Longrightarrow> sem W F Coaccessible"
proof -
  let ?G = "with_state F s f"
  have n: "num_states ?G = num_states F" "start_state ?G = start_state F" by (simp_all add: with_state_def)
  have e: "edges ?G \<subseteq> edges F"
    using sub_fst_edge [OF shrink_state_sub_fst [of s F f, OF s g]] by auto
  have f: "is_final_state ?G = is_final_state F"
    using g(1) by (auto simp: fun_eq_iff is_final_state_def with_state_def nth_upd split: if_splits)
  show "sem W ?G Accessible \<Longrightarrow> sem W F Accessible"
    using accessible_mono [OF e n(2)] by (simp add: n)
  show "sem W ?G Coaccessible \<Longrightarrow> sem W F Coaccessible"
    using coaccessible_mono [OF e] by (simp add: n f)
qed

lemma shrink_state_sound:
  assumes s: "s < num_states F" and "bits_sound W F p"
    and g: "\<And>st. final_weight (f st) = final_weight st" "subseq (trs (f (state_of F s))) (trs (state_of F s))"
  shows "bits_sound W (with_state F s f) (p AND fp_delete_arcs_properties)"
    "bits_sound W (with_state F s f) (p AND partial_delete_mask)"
proof -
  note sub = sub_fst_sem [OF shrink_state_sub_fst [of s F f, OF s g], of W]
  note acc = shrink_state_sem [of s F f W, OF s g]
  show "bits_sound W (with_state F s f) (p AND fp_delete_arcs_properties)"
    by (rule bits_sound_keep [OF assms(2)]; case_tac q; simp add: mask_nums sub acc del: sem.simps)
  show "bits_sound W (with_state F s f) (p AND partial_delete_mask)"
    by (rule bits_sound_keep [OF assms(2)]; case_tac q;
        simp add: partial_delete_mask_def bit_or_iff flag_bits sub acc del: sem.simps)
qed

lemma delete_trs_sound:
  assumes "props_sound W F" and "s < num_states F"
  shows "props_sound W (snd (pop_trs_unchecked F s))"
proof -
  have "bits_sound W (with_state F s (\<lambda>st. st\<lparr>trs := [], niepsilons := 0, noepsilons := 0\<rparr>))
      (properties F AND fp_delete_arcs_properties)"
    using assms by (intro shrink_state_sound) (auto simp: props_sound_def)
  then show ?thesis
    by (simp add: pop_trs_unchecked_def props_sound_def with_state_props delete_trs_properties_def)
qed

lemma delete_trs_counts:
  "eps_counts_ok F \<Longrightarrow> eps_counts_ok (snd (pop_trs_unchecked F s))"
  by (auto simp: pop_trs_unchecked_def with_state_props state_counts_ok_def intro!: with_state_counts)

text \<open>\<open>del_trs_id_sorted_unchecked\<close>: removing from the last index to the first.\<close>

lemma fold_del_one_tr:
  "trs (fold del_one_tr is st) = fold (\<lambda>i ts. vec_remove ts i) is (trs st)"
  "final_weight (fold del_one_tr is st) = final_weight st"
  by (induction "is" arbitrary: st) (simp_all add: del_one_tr_def)

lemma subseq_vec_remove: "subseq (vec_remove xs i) xs"
  by (simp add: vec_remove_nths subseq_conv_nths) blast

lemma fold_vec_remove_subseq: "subseq (fold (\<lambda>i ts. vec_remove ts i) is xs) xs"
  by (induction "is" arbitrary: xs) (auto intro: subseq_order.order_trans subseq_vec_remove)

lemma del_one_tr_counts:
  "state_counts_ok st \<Longrightarrow> i < length (trs st) \<Longrightarrow> state_counts_ok (del_one_tr i st)"
  using count_eps_remove [of i "trs st"] by (auto simp: state_counts_ok_def del_one_tr_def)

lemma fold_del_one_tr_counts:
  "state_counts_ok st \<Longrightarrow> sorted_wrt (>) is \<Longrightarrow> \<forall>i \<in> set is. i < length (trs st) \<Longrightarrow>
   state_counts_ok (fold del_one_tr is st)"
proof (induction "is" arbitrary: st)
  case Nil
  then show ?case by simp
next
  case (Cons i "is")
  from Cons.prems have "state_counts_ok (del_one_tr i st)" by (simp add: del_one_tr_counts)
  moreover have "\<forall>j \<in> set is. j < length (trs (del_one_tr i st))"
    using Cons.prems by (auto simp: del_one_tr_def length_vec_remove)
  ultimately show ?case using Cons by simp
qed

lemma del_trs_id_sorted_sound:
  assumes "props_sound W F" and "s < num_states F"
  shows "props_sound W (del_trs_id_sorted_unchecked F s is)"
proof -
  let ?st = "fold del_one_tr (rev is) (state_of F s)"
  have "bits_sound W (with_state F s (\<lambda>_. ?st)) p'"
    if p': "p' = (if trs ?st = [] then properties F AND fp_delete_arcs_properties
      else properties F AND partial_delete_mask)" for p'
  proof -
    let ?f = "\<lambda>st. st\<lparr>trs := trs ?st, niepsilons := niepsilons ?st, noepsilons := noepsilons ?st\<rparr>"
    have eq: "with_state F s (\<lambda>_. ?st) = with_state F s ?f"
      by (auto simp: with_state_def fold_del_one_tr intro!: arg_cong [where f = "\<lambda>x. F\<lparr>states := (states F)[s := x]\<rparr>"])
    show ?thesis
      unfolding eq p' using assms
      by (auto simp: props_sound_def fold_del_one_tr intro!: shrink_state_sound fold_vec_remove_subseq)
  qed
  from this [OF refl] show ?thesis
    by (simp add: del_trs_id_sorted_unchecked_def Let_def props_sound_def with_state_props
        delete_trs_properties_def split: if_splits)
qed

lemma del_trs_id_sorted_trs:
  assumes "s < num_states F" "sorted_wrt (<) is" "\<forall>i \<in> set is. i < length (trs (state_of F s))"
  shows "trs (state_of (del_trs_id_sorted_unchecked F s is) s) = nths (trs (state_of F s)) (- set is)"
  using assms fold_vec_remove_nths [of "is" "trs (state_of F s)"]
  by (simp add: del_trs_id_sorted_unchecked_def Let_def with_state_def fold_del_one_tr)

lemma del_trs_id_sorted_counts:
  assumes "eps_counts_ok F" "s < num_states F" "sorted_wrt (<) is" "\<forall>i \<in> set is. i < length (trs (state_of F s))"
  shows "eps_counts_ok (del_trs_id_sorted_unchecked F s is)"
proof -
  have "state_counts_ok (fold del_one_tr (rev is) (state_of F s))"
    using assms by (intro fold_del_one_tr_counts) (auto simp: eps_counts_state sorted_wrt_rev)
  with assms(1) show ?thesis
    by (simp add: del_trs_id_sorted_unchecked_def Let_def with_state_props with_state_counts)
qed

subsection \<open>Replacing the transitions of an emptied state\<close>

text \<open>\<open>set_trs_unchecked\<close> on a state without transitions is the same as adding them one by one.\<close>

lemma last_tr_simps [simp]: "last_tr [] = None" "last_tr (ts @ [t]) = Some t"
  by (simp_all add: last_tr_def)

lemma set_trs_fold:
  assumes s: "s < num_states F"
  shows "(let (p, ni, no) = set_trs_loop W s (last_tr (trs (state_of F s))) us
        (properties F, niepsilons (state_of F s), noepsilons (state_of F s))
      in with_state (F\<lparr>properties := p\<rparr>) s
        (\<lambda>st. st\<lparr>trs := trs st @ us, niepsilons := ni, noepsilons := no\<rparr>)) =
    fold (\<lambda>t F. add_tr_unchecked W F s t) us F"
  using s
proof (induction us arbitrary: F)
  case Nil
  then show ?case by (simp add: with_state_def)
next
  case (Cons t us)
  let ?G = "add_tr_unchecked W F s t"
  have n: "s < num_states ?G" using Cons.prems by (simp add: add_tr_unchecked_eq with_state_def)
  have st: "trs (state_of ?G s) = trs (state_of F s) @ [t]"
    "niepsilons (state_of ?G s) = (if ilabel t = EPS_LABEL then niepsilons (state_of F s) + 1 else niepsilons (state_of F s))"
    "noepsilons (state_of ?G s) = (if olabel t = EPS_LABEL then noepsilons (state_of F s) + 1 else noepsilons (state_of F s))"
    "properties ?G = add_tr_properties W (properties F) s t (last_tr (trs (state_of F s)))"
    using Cons.prems by (simp_all add: add_tr_unchecked_eq with_state_def increment_num_epsilons_def)
  have ws: "with_state (?G\<lparr>properties := p\<rparr>) s (\<lambda>st. st\<lparr>trs := trs st @ us, niepsilons := ni, noepsilons := no\<rparr>) =
      with_state (F\<lparr>properties := p\<rparr>) s (\<lambda>st. st\<lparr>trs := trs st @ t # us, niepsilons := ni, noepsilons := no\<rparr>)"
    for p ni no
    using Cons.prems by (simp add: add_tr_unchecked_eq with_state_def increment_num_epsilons_def)
  show ?case
    using Cons.IH [OF n] unfolding st last_tr_simps ws by simp
qed

lemma set_trs_unchecked_eq:
  assumes "s < num_states F" "trs (state_of F s) = []" "state_counts_ok (state_of F s)"
  shows "set_trs_unchecked W F s us = fold (\<lambda>t F. add_tr_unchecked W F s t) us F"
  using set_trs_fold [OF assms(1), of W us] assms(2,3)
  by (simp add: set_trs_unchecked_def state_counts_ok_def with_state_def case_prod_unfold Let_def)

lemma add_tr_num_states [simp]:
  "s < num_states F \<Longrightarrow> num_states (add_tr_unchecked W F s t) = num_states F"
  by (simp add: add_tr_unchecked_eq with_state_def)

lemma fold_add_tr:
  assumes "props_sound W F" "eps_counts_ok F" "s < num_states F"
  shows "props_sound W (fold (\<lambda>t F. add_tr_unchecked W F s t) us F) \<and>
    eps_counts_ok (fold (\<lambda>t F. add_tr_unchecked W F s t) us F)"
  using assms by (induction us arbitrary: F) (simp_all add: add_tr_sound add_tr_counts)

lemma set_trs_sound:
  assumes "props_sound W F" "eps_counts_ok F" "s < num_states F" "trs (state_of F s) = []"
  shows "props_sound W (set_trs_unchecked W F s us)" "eps_counts_ok (set_trs_unchecked W F s us)"
  using fold_add_tr [OF assms(1-3)] assms by (simp_all add: set_trs_unchecked_eq eps_counts_state)

subsection \<open>Deleting all states\<close>

lemma del_all_states_sound: "props_sound W (del_all_states F)"
proof -
  let ?G = "del_all_states F"
  have [simp]: "arcs ?G = {}" "edges ?G = {}" "num_states ?G = 0" "start_state ?G = None"
    by (auto simp: arcs_def edges_def del_all_states_def)
  have "bits_sound W ?G delete_all_states_properties"
    by (simp add: bits_sound_def fprop_all mask_nums cyclic_at_def delete_all_states_properties_def)
  then show ?thesis by (simp add: props_sound_def del_all_states_def)
qed

lemma del_all_states_ok: "eps_counts_ok (del_all_states F)" "targets_ok (del_all_states F)"
  by (simp_all add: eps_counts_ok_def targets_ok_def del_all_states_def)

end
