(* ===== verification/Trs_Iter_Mut.thy ===== *)
theory Trs_Iter_Mut
  imports Vector_Fst_Delete
begin

text \<open>
  \<open>TrsIterMut\<close> (\<open>trs_iter_mut.rs\<close>), the mutable view of the transitions of one state: it borrows the
  transitions, the two epsilon counters and the property bits of the transducer and updates all of
  them with each change. The checked setters return the view together with the result, since
  \<open>set_nextstate\<close> already drops property bits when the index is out of range.
\<close>

subsection \<open>The view\<close>

record 'w trs_iter =
  it_trs :: "'w tr list"
  it_properties :: fst_props
  it_niepsilons :: nat
  it_noepsilons :: nat

definition tr_iter_unchecked_mut :: "'w vfst \<Rightarrow> state_id \<Rightarrow> 'w trs_iter" where
  "tr_iter_unchecked_mut F s =
     \<lparr>it_trs = trs (state_of F s), it_properties = properties F,
      it_niepsilons = niepsilons (state_of F s), it_noepsilons = noepsilons (state_of F s)\<rparr>"

definition tr_iter_mut :: "'w vfst \<Rightarrow> state_id \<Rightarrow> 'w trs_iter res" where
  "tr_iter_mut F s = (if s < num_states F then Inr (tr_iter_unchecked_mut F s) else no_state)"

text \<open>The end of the borrow: the fields are those of the transducer.\<close>

definition end_borrow :: "'w vfst \<Rightarrow> state_id \<Rightarrow> 'w trs_iter \<Rightarrow> 'w vfst" where
  "end_borrow F s it =
     with_state (F\<lparr>properties := it_properties it\<rparr>) s
       (\<lambda>st. st\<lparr>trs := it_trs it, niepsilons := it_niepsilons it, noepsilons := it_noepsilons it\<rparr>)"

definition iter_get :: "'w trs_iter \<Rightarrow> nat \<Rightarrow> 'w tr option" where
  "iter_get it idx = vec_get (it_trs it) idx"

definition iter_len :: "'w trs_iter \<Rightarrow> nat" where
  "iter_len it = length (it_trs it)"

definition iter_is_empty :: "'w trs_iter \<Rightarrow> bool" where
  "iter_is_empty it \<longleftrightarrow> it_trs it = []"

subsection \<open>Property updates\<close>

definition update_properties_labels ::
  "fst_props \<Rightarrow> label \<Rightarrow> label \<Rightarrow> label \<Rightarrow> label \<Rightarrow> fst_props" where
  "update_properties_labels p old_ilabel old_olabel new_ilabel new_olabel =
     (let p = (if old_ilabel \<noteq> old_olabel then p AND fp_not NOT_ACCEPTOR else p);
          p = (if old_ilabel = EPS_LABEL
               then (let p = p AND fp_not I_EPSILONS
                     in if old_olabel = EPS_LABEL then p AND fp_not EPSILONS else p)
               else p);
          p = (if old_olabel = EPS_LABEL then p AND fp_not O_EPSILONS else p);
          p = (if new_ilabel \<noteq> new_olabel then (p OR NOT_ACCEPTOR) AND fp_not ACCEPTOR else p);
          p = (if new_ilabel = EPS_LABEL
               then (let p = (p OR I_EPSILONS) AND fp_not NO_I_EPSILONS
                     in if new_olabel = EPS_LABEL then (p OR EPSILONS) AND fp_not NO_EPSILONS else p)
               else p);
          p = (if new_olabel = EPS_LABEL then (p OR O_EPSILONS) AND fp_not NO_O_EPSILONS else p)
      in p)"

definition update_properties_weights :: "'w semiring \<Rightarrow> fst_props \<Rightarrow> 'w \<Rightarrow> 'w \<Rightarrow> fst_props" where
  "update_properties_weights W p old_weight new_weight =
     (let p = (if \<not> is_zero W old_weight \<and> \<not> is_one W old_weight then p AND fp_not WEIGHTED else p);
          p = (if \<not> is_zero W new_weight \<and> \<not> is_one W new_weight
               then (p OR WEIGHTED) AND fp_not UNWEIGHTED else p)
      in p)"

definition keep_only_relevant_properties :: "fst_props \<Rightarrow> fst_props" where
  "keep_only_relevant_properties p =
     p AND (fp_set_arc_properties OR ACCEPTOR OR NOT_ACCEPTOR OR EPSILONS OR NO_EPSILONS OR
       I_EPSILONS OR NO_I_EPSILONS OR O_EPSILONS OR NO_O_EPSILONS OR WEIGHTED OR UNWEIGHTED)"

definition compute_new_properties_all :: "'w semiring \<Rightarrow> fst_props \<Rightarrow> 'w tr \<Rightarrow> 'w tr \<Rightarrow> fst_props" where
  "compute_new_properties_all W p old_tr new_tr =
     (let p = update_properties_labels p (ilabel old_tr) (olabel old_tr) (ilabel new_tr) (olabel new_tr);
          p = update_properties_weights W p (weight old_tr) (weight new_tr)
      in keep_only_relevant_properties p)"

definition compute_new_properties_labels ::
  "fst_props \<Rightarrow> label \<Rightarrow> label \<Rightarrow> label \<Rightarrow> label \<Rightarrow> fst_props" where
  "compute_new_properties_labels p old_ilabel old_olabel new_ilabel new_olabel =
     keep_only_relevant_properties (update_properties_labels p old_ilabel old_olabel new_ilabel new_olabel)"

definition compute_new_properties_weights :: "'w semiring \<Rightarrow> fst_props \<Rightarrow> 'w \<Rightarrow> 'w \<Rightarrow> fst_props" where
  "compute_new_properties_weights W p old_weight new_weight =
     keep_only_relevant_properties (update_properties_weights W p old_weight new_weight)"

text \<open>The macros \<open>updt_nieps!\<close> and \<open>updt_noeps!\<close>.\<close>

definition updt_nieps :: "label \<Rightarrow> label \<Rightarrow> 'w trs_iter \<Rightarrow> 'w trs_iter" where
  "updt_nieps old_ilabel new_ilabel it =
     (let it = (if old_ilabel = EPS_LABEL then it\<lparr>it_niepsilons := it_niepsilons it - 1\<rparr> else it)
      in if new_ilabel = EPS_LABEL then it\<lparr>it_niepsilons := it_niepsilons it + 1\<rparr> else it)"

definition updt_noeps :: "label \<Rightarrow> label \<Rightarrow> 'w trs_iter \<Rightarrow> 'w trs_iter" where
  "updt_noeps old_olabel new_olabel it =
     (let it = (if old_olabel = EPS_LABEL then it\<lparr>it_noepsilons := it_noepsilons it - 1\<rparr> else it)
      in if new_olabel = EPS_LABEL then it\<lparr>it_noepsilons := it_noepsilons it + 1\<rparr> else it)"

definition iter_put :: "'w trs_iter \<Rightarrow> nat \<Rightarrow> 'w tr \<Rightarrow> 'w trs_iter" where
  "iter_put it idx t = it\<lparr>it_trs := (it_trs it)[idx := t]\<rparr>"

subsection \<open>The setters\<close>

definition set_ilabel_unchecked :: "'w trs_iter \<Rightarrow> nat \<Rightarrow> label \<Rightarrow> 'w trs_iter" where
  "set_ilabel_unchecked it idx l =
     (let old = it_trs it ! idx;
          it = it\<lparr>it_properties := compute_new_properties_labels (it_properties it)
                    (ilabel old) (olabel old) l (olabel old)\<rparr>;
          it = updt_nieps (ilabel old) l it
      in iter_put it idx (old\<lparr>ilabel := l\<rparr>))"

definition set_olabel_unchecked :: "'w trs_iter \<Rightarrow> nat \<Rightarrow> label \<Rightarrow> 'w trs_iter" where
  "set_olabel_unchecked it idx l =
     (let old = it_trs it ! idx;
          it = it\<lparr>it_properties := compute_new_properties_labels (it_properties it)
                    (ilabel old) (olabel old) (ilabel old) l\<rparr>;
          it = updt_noeps (olabel old) l it
      in iter_put it idx (old\<lparr>olabel := l\<rparr>))"

definition set_labels_unchecked :: "'w trs_iter \<Rightarrow> nat \<Rightarrow> label \<Rightarrow> label \<Rightarrow> 'w trs_iter" where
  "set_labels_unchecked it idx il ol =
     (let old = it_trs it ! idx;
          it = it\<lparr>it_properties := compute_new_properties_labels (it_properties it)
                    (ilabel old) (olabel old) il ol\<rparr>;
          it = updt_noeps (olabel old) ol (updt_nieps (ilabel old) il it)
      in iter_put it idx (old\<lparr>ilabel := il, olabel := ol\<rparr>))"

definition set_weight_unchecked :: "'w semiring \<Rightarrow> 'w trs_iter \<Rightarrow> nat \<Rightarrow> 'w \<Rightarrow> 'w trs_iter" where
  "set_weight_unchecked W it idx w =
     (let old = it_trs it ! idx;
          it = it\<lparr>it_properties := compute_new_properties_weights W (it_properties it) (weight old) w\<rparr>
      in iter_put it idx (old\<lparr>weight := w\<rparr>))"

definition set_nextstate_unchecked :: "'w trs_iter \<Rightarrow> nat \<Rightarrow> state_id \<Rightarrow> 'w trs_iter" where
  "set_nextstate_unchecked it idx s =
     iter_put (it\<lparr>it_properties := keep_only_relevant_properties (it_properties it)\<rparr>) idx
       ((it_trs it ! idx)\<lparr>nextstate := s\<rparr>)"

definition set_tr_unchecked :: "'w semiring \<Rightarrow> 'w trs_iter \<Rightarrow> nat \<Rightarrow> 'w tr \<Rightarrow> 'w trs_iter" where
  "set_tr_unchecked W it idx t =
     (let old = it_trs it ! idx;
          it = it\<lparr>it_properties := compute_new_properties_all W (it_properties it) old t\<rparr>;
          it = updt_noeps (olabel old) (olabel t) (updt_nieps (ilabel old) (ilabel t) it)
      in iter_put it idx t)"

definition iter_over :: "unit res" where
  "iter_over = Inl (Bail ''set_tr shouldn't be called when the iteration is over'')"

definition set_ilabel :: "'w trs_iter \<Rightarrow> nat \<Rightarrow> label \<Rightarrow> unit res \<times> 'w trs_iter" where
  "set_ilabel it idx l =
     (if idx < iter_len it then (Inr (), set_ilabel_unchecked it idx l) else (iter_over, it))"

definition set_olabel :: "'w trs_iter \<Rightarrow> nat \<Rightarrow> label \<Rightarrow> unit res \<times> 'w trs_iter" where
  "set_olabel it idx l =
     (if idx < iter_len it then (Inr (), set_olabel_unchecked it idx l) else (iter_over, it))"

definition set_weight :: "'w semiring \<Rightarrow> 'w trs_iter \<Rightarrow> nat \<Rightarrow> 'w \<Rightarrow> unit res \<times> 'w trs_iter" where
  "set_weight W it idx w =
     (if idx < iter_len it then (Inr (), set_weight_unchecked W it idx w) else (iter_over, it))"

definition set_nextstate :: "'w trs_iter \<Rightarrow> nat \<Rightarrow> state_id \<Rightarrow> unit res \<times> 'w trs_iter" where
  "set_nextstate it idx s =
     (if idx < iter_len it then (Inr (), set_nextstate_unchecked it idx s)
      else (iter_over, it\<lparr>it_properties := keep_only_relevant_properties (it_properties it)\<rparr>))"

definition set_tr :: "'w semiring \<Rightarrow> 'w trs_iter \<Rightarrow> nat \<Rightarrow> 'w tr \<Rightarrow> unit res \<times> 'w trs_iter" where
  "set_tr W it idx t =
     (if idx < iter_len it then (Inr (), set_tr_unchecked W it idx t) else (iter_over, it))"

subsection \<open>What the property updates compute\<close>

lemma new_properties_labels_bits:
  fixes p il ol il' ol'
  defines "p' \<equiv> compute_new_properties_labels p il ol il' ol'"
  shows "bit p' 16 \<longleftrightarrow> bit p 16 \<and> il' = ol'"
    "bit p' 17 \<longleftrightarrow> bit p 17 \<and> il = ol \<or> il' \<noteq> ol'"
    "bit p' 22 \<longleftrightarrow> bit p 22 \<and> \<not> (il = EPS_LABEL \<and> ol = EPS_LABEL) \<or> il' = EPS_LABEL \<and> ol' = EPS_LABEL"
    "bit p' 23 \<longleftrightarrow> bit p 23 \<and> \<not> (il' = EPS_LABEL \<and> ol' = EPS_LABEL)"
    "bit p' 24 \<longleftrightarrow> bit p 24 \<and> il \<noteq> EPS_LABEL \<or> il' = EPS_LABEL"
    "bit p' 25 \<longleftrightarrow> bit p 25 \<and> il' \<noteq> EPS_LABEL"
    "bit p' 26 \<longleftrightarrow> bit p 26 \<and> ol \<noteq> EPS_LABEL \<or> ol' = EPS_LABEL"
    "bit p' 27 \<longleftrightarrow> bit p 27 \<and> ol' \<noteq> EPS_LABEL"
    "bit p' 32 \<longleftrightarrow> bit p 32" "bit p' 33 \<longleftrightarrow> bit p 33"
    "n \<notin> {16, 17, 22, 23, 24, 25, 26, 27, 32, 33} \<Longrightarrow> \<not> bit p' n"
  unfolding p'_def compute_new_properties_labels_def update_properties_labels_def Let_def
    keep_only_relevant_properties_def
  by (simp_all add: bit_and_iff bit_or_iff flag_bits fp_set_arc_properties_def
      if_distrib [of "\<lambda>x. bit x _"])


lemma new_properties_weights_bits:
  fixes W :: "'w semiring" and p w w'
  defines "p' \<equiv> compute_new_properties_weights W p w w'"
  shows "bit p' 16 \<longleftrightarrow> bit p 16" "bit p' 17 \<longleftrightarrow> bit p 17"
    "bit p' 22 \<longleftrightarrow> bit p 22" "bit p' 23 \<longleftrightarrow> bit p 23" "bit p' 24 \<longleftrightarrow> bit p 24"
    "bit p' 25 \<longleftrightarrow> bit p 25" "bit p' 26 \<longleftrightarrow> bit p 26" "bit p' 27 \<longleftrightarrow> bit p 27"
    "bit p' 32 \<longleftrightarrow> bit p 32 \<and> \<not> nontrivial W w \<or> nontrivial W w'"
    "bit p' 33 \<longleftrightarrow> bit p 33 \<and> \<not> nontrivial W w'"
    "n \<notin> {16, 17, 22, 23, 24, 25, 26, 27, 32, 33} \<Longrightarrow> \<not> bit p' n"
  unfolding p'_def compute_new_properties_weights_def update_properties_weights_def Let_def
    keep_only_relevant_properties_def nontrivial_def [symmetric]
  by (simp_all add: bit_and_iff bit_or_iff flag_bits fp_set_arc_properties_def
      if_distrib [of "\<lambda>x. bit x _"])

lemma new_properties_all_eq:
  "compute_new_properties_all W p t u =
     compute_new_properties_weights W
       (update_properties_labels p (ilabel t) (olabel t) (ilabel u) (olabel u)) (weight t) (weight u)"
  by (simp add: compute_new_properties_all_def compute_new_properties_weights_def)

lemma relevant_bits:
  "bit (keep_only_relevant_properties p) n \<longleftrightarrow> bit p n \<and> n \<in> {16, 17, 22, 23, 24, 25, 26, 27, 32, 33}"
  by (auto simp: keep_only_relevant_properties_def bit_and_iff bit_or_iff flag_bits fp_set_arc_properties_def)

lemma new_properties_all_bits:
  fixes W :: "'w semiring" and p t u
  defines "p' \<equiv> compute_new_properties_all W p t u"
  shows "bit p' 16 \<longleftrightarrow> bit p 16 \<and> ilabel u = olabel u"
    "bit p' 17 \<longleftrightarrow> bit p 17 \<and> ilabel t = olabel t \<or> ilabel u \<noteq> olabel u"
    "bit p' 22 \<longleftrightarrow> bit p 22 \<and> \<not> (ilabel t = EPS_LABEL \<and> olabel t = EPS_LABEL) \<or>
       ilabel u = EPS_LABEL \<and> olabel u = EPS_LABEL"
    "bit p' 23 \<longleftrightarrow> bit p 23 \<and> \<not> (ilabel u = EPS_LABEL \<and> olabel u = EPS_LABEL)"
    "bit p' 24 \<longleftrightarrow> bit p 24 \<and> ilabel t \<noteq> EPS_LABEL \<or> ilabel u = EPS_LABEL"
    "bit p' 25 \<longleftrightarrow> bit p 25 \<and> ilabel u \<noteq> EPS_LABEL"
    "bit p' 26 \<longleftrightarrow> bit p 26 \<and> olabel t \<noteq> EPS_LABEL \<or> olabel u = EPS_LABEL"
    "bit p' 27 \<longleftrightarrow> bit p 27 \<and> olabel u \<noteq> EPS_LABEL"
    "bit p' 32 \<longleftrightarrow> bit p 32 \<and> \<not> nontrivial W (weight t) \<or> nontrivial W (weight u)"
    "bit p' 33 \<longleftrightarrow> bit p 33 \<and> \<not> nontrivial W (weight u)"
    "n \<notin> {16, 17, 22, 23, 24, 25, 26, 27, 32, 33} \<Longrightarrow> \<not> bit p' n"
proof -
  have rel: "bit (update_properties_labels p il ol il' ol') n \<longleftrightarrow>
      bit (compute_new_properties_labels p il ol il' ol') n"
    if "n \<in> {16, 17, 22, 23, 24, 25, 26, 27, 32, 33}" for il ol il' ol' n
    using that by (simp add: compute_new_properties_labels_def relevant_bits)
  show "bit p' 16 \<longleftrightarrow> bit p 16 \<and> ilabel u = olabel u"
    "bit p' 17 \<longleftrightarrow> bit p 17 \<and> ilabel t = olabel t \<or> ilabel u \<noteq> olabel u"
    "bit p' 22 \<longleftrightarrow> bit p 22 \<and> \<not> (ilabel t = EPS_LABEL \<and> olabel t = EPS_LABEL) \<or>
       ilabel u = EPS_LABEL \<and> olabel u = EPS_LABEL"
    "bit p' 23 \<longleftrightarrow> bit p 23 \<and> \<not> (ilabel u = EPS_LABEL \<and> olabel u = EPS_LABEL)"
    "bit p' 24 \<longleftrightarrow> bit p 24 \<and> ilabel t \<noteq> EPS_LABEL \<or> ilabel u = EPS_LABEL"
    "bit p' 25 \<longleftrightarrow> bit p 25 \<and> ilabel u \<noteq> EPS_LABEL"
    "bit p' 26 \<longleftrightarrow> bit p 26 \<and> olabel t \<noteq> EPS_LABEL \<or> olabel u = EPS_LABEL"
    "bit p' 27 \<longleftrightarrow> bit p 27 \<and> olabel u \<noteq> EPS_LABEL"
    "bit p' 32 \<longleftrightarrow> bit p 32 \<and> \<not> nontrivial W (weight t) \<or> nontrivial W (weight u)"
    "bit p' 33 \<longleftrightarrow> bit p 33 \<and> \<not> nontrivial W (weight u)"
    unfolding p'_def new_properties_all_eq
    by (simp_all add: new_properties_weights_bits rel new_properties_labels_bits)
  show "n \<notin> {16, 17, 22, 23, 24, 25, 26, 27, 32, 33} \<Longrightarrow> \<not> bit p' n"
    unfolding p'_def new_properties_all_eq by (rule new_properties_weights_bits)
qed

subsection \<open>Replacing one transition\<close>

lemma end_borrow_simps [simp]:
  "properties (end_borrow F s it) = it_properties it"
  "num_states (end_borrow F s it) = num_states F"
  "start_state (end_borrow F s it) = start_state F"
  "isymt (end_borrow F s it) = isymt F" "osymt (end_borrow F s it) = osymt F"
  by (simp_all add: end_borrow_def with_state_def)

lemma end_borrow_state:
  "k < num_states F \<Longrightarrow> state_of (end_borrow F s it) k =
     (if k = s then (state_of F s)\<lparr>trs := it_trs it, niepsilons := it_niepsilons it, noepsilons := it_noepsilons it\<rparr>
      else state_of F k)"
  by (simp add: end_borrow_def with_state_def nth_upd)

lemma end_borrow_again [simp]: "end_borrow (end_borrow F s it) s it' = end_borrow F s it'"
  by (cases "s < num_states F") (simp_all add: end_borrow_def with_state_def list_update_beyond)

lemma end_borrow_id [simp]: "end_borrow F s (tr_iter_unchecked_mut F s) = F"
  by (simp add: end_borrow_def with_state_def tr_iter_unchecked_mut_def)

lemma borrow_again [simp]: "s < num_states F \<Longrightarrow> tr_iter_unchecked_mut (end_borrow F s it) s = it"
  by (simp add: tr_iter_unchecked_mut_def end_borrow_state)

definition replaces :: "'w vfst \<Rightarrow> state_id \<Rightarrow> nat \<Rightarrow> 'w tr \<Rightarrow> 'w vfst \<Rightarrow> bool" where
  "replaces F s i t G \<longleftrightarrow>
     s < num_states F \<and> i < length (trs (state_of F s)) \<and> num_states G = num_states F \<and>
     (\<forall>k < num_states F. final_weight (state_of G k) = final_weight (state_of F k) \<and>
        trs (state_of G k) = (if k = s then (trs (state_of F s))[i := t] else trs (state_of F k)))"

definition ex_arc :: "'w vfst \<Rightarrow> ('w tr \<Rightarrow> bool) \<Rightarrow> bool" where
  "ex_arc F P \<longleftrightarrow> (\<exists>s < num_states F. \<exists>t \<in> set (trs (state_of F s)). P t)"

definition ex_final :: "'w vfst \<Rightarrow> ('w \<Rightarrow> bool) \<Rightarrow> bool" where
  "ex_final F P \<longleftrightarrow> (\<exists>s w. s < num_states F \<and> final_weight (state_of F s) = Some w \<and> P w)"

lemma sem_ex_arc:
  "sem W F Acceptor \<longleftrightarrow> \<not> ex_arc F (\<lambda>t. ilabel t \<noteq> olabel t)"
  "sem W F Epsilons \<longleftrightarrow> ex_arc F (\<lambda>t. ilabel t = EPS_LABEL \<and> olabel t = EPS_LABEL)"
  "sem W F IEpsilons \<longleftrightarrow> ex_arc F (\<lambda>t. ilabel t = EPS_LABEL)"
  "sem W F OEpsilons \<longleftrightarrow> ex_arc F (\<lambda>t. olabel t = EPS_LABEL)"
  "sem W F Weighted \<longleftrightarrow> ex_arc F (\<lambda>t. nontrivial W (weight t)) \<or> ex_final F (nontrivial W)"
  by (auto simp: ex_arc_def arcs_def ex_final_def)

lemma replaces_ex:
  assumes r: "replaces F s i t G"
  shows "ex_arc G P \<Longrightarrow> ex_arc F P \<or> P t"
    and "P t \<Longrightarrow> ex_arc G P"
    and "ex_arc F P \<Longrightarrow> \<not> P (trs (state_of F s) ! i) \<Longrightarrow> ex_arc G P"
    and "P (trs (state_of F s) ! i) \<Longrightarrow> ex_arc F P"
    and "ex_final G Q \<longleftrightarrow> ex_final F Q"
proof -
  let ?ts = "trs (state_of F s)"
  from r have s: "s < num_states F" "i < length ?ts" "num_states G = num_states F"
    and tr: "k < num_states F \<Longrightarrow> trs (state_of G k) = (if k = s then ?ts[i := t] else trs (state_of F k))" for k
    by (simp_all add: replaces_def)
  show "ex_arc G P \<Longrightarrow> ex_arc F P \<or> P t"
    using s tr by (fastforce simp: ex_arc_def dest: set_update_subset_insert [THEN subsetD] split: if_splits)
  show "P t \<Longrightarrow> ex_arc G P"
    using s(1,3) tr [OF s(1)] set_update_memI [OF s(2), of t] unfolding ex_arc_def
    by (intro exI [of _ s]) auto
  show "P (?ts ! i) \<Longrightarrow> ex_arc F P"
    using s(1) nth_mem [OF s(2)] unfolding ex_arc_def by auto
  show "ex_final G Q \<longleftrightarrow> ex_final F Q"
    using r by (auto simp: ex_final_def replaces_def)
  assume "ex_arc F P" and old: "\<not> P (?ts ! i)"
  then obtain a u where u: "a < num_states F" "u \<in> set (trs (state_of F a))" "P u"
    by (auto simp: ex_arc_def)
  have "u \<in> set (trs (state_of G a))"
  proof (cases "a = s")
    case True
    with u(2) obtain j where j: "j < length ?ts" "?ts ! j = u" by (auto simp: in_set_conv_nth)
    with old u(3) have "j \<noteq> i" by auto
    with j True tr [OF u(1)] show ?thesis
      by (auto simp: in_set_conv_nth nth_upd intro!: exI [of _ j])
  next
    case False
    with u tr show ?thesis by simp
  qed
  with u s show "ex_arc G P" by (auto simp: ex_arc_def)
qed

text \<open>The bits that survive a replacement, whatever the setter, are those of \<open>set_tr\<close>.\<close>

lemma replaces_sound:
  fixes W :: "'w semiring" and F G :: "'w vfst" and s i t p'
  assumes r: "replaces F s i t G" and p: "bits_sound W F p"
  defines "old \<equiv> trs (state_of F s) ! i"
  assumes bits:
    "bit p' 16 \<Longrightarrow> bit p 16 \<and> (ilabel old = olabel old \<longrightarrow> ilabel t = olabel t)"
    "bit p' 17 \<Longrightarrow> bit p 17 \<and> ilabel old = olabel old \<or> ilabel t \<noteq> olabel t"
    "bit p' 22 \<Longrightarrow> bit p 22 \<and> \<not> (ilabel old = EPS_LABEL \<and> olabel old = EPS_LABEL) \<or>
       ilabel t = EPS_LABEL \<and> olabel t = EPS_LABEL"
    "bit p' 23 \<Longrightarrow> bit p 23 \<and> (ilabel t = EPS_LABEL \<and> olabel t = EPS_LABEL \<longrightarrow>
       ilabel old = EPS_LABEL \<and> olabel old = EPS_LABEL)"
    "bit p' 24 \<Longrightarrow> bit p 24 \<and> ilabel old \<noteq> EPS_LABEL \<or> ilabel t = EPS_LABEL"
    "bit p' 25 \<Longrightarrow> bit p 25 \<and> (ilabel t = EPS_LABEL \<longrightarrow> ilabel old = EPS_LABEL)"
    "bit p' 26 \<Longrightarrow> bit p 26 \<and> olabel old \<noteq> EPS_LABEL \<or> olabel t = EPS_LABEL"
    "bit p' 27 \<Longrightarrow> bit p 27 \<and> (olabel t = EPS_LABEL \<longrightarrow> olabel old = EPS_LABEL)"
    "bit p' 32 \<Longrightarrow> bit p 32 \<and> \<not> nontrivial W (weight old) \<or> nontrivial W (weight t)"
    "bit p' 33 \<Longrightarrow> bit p 33 \<and> (nontrivial W (weight t) \<longrightarrow> nontrivial W (weight old))"
    "\<And>n. n \<notin> {16, 17, 22, 23, 24, 25, 26, 27, 32, 33} \<Longrightarrow> \<not> bit p' n"
  shows "bits_sound W G p'"
proof -
  note ex = replaces_ex [OF r, folded old_def]
  show ?thesis
    unfolding bits_sound_def
  proof (intro allI)
    fix q
    show "(bit p' (pos_bit q) \<longrightarrow> sem W G q) \<and> (bit p' (Suc (pos_bit q)) \<longrightarrow> \<not> sem W G q)"
    proof (cases q)
      case Acceptor
      have "(bit p 16 \<longrightarrow> sem W F Acceptor) \<and> (bit p 17 \<longrightarrow> \<not> sem W F Acceptor)"
        using p bits_soundD [of W F p Acceptor] by simp
      with bits(1,2) ex(1-4) [of "\<lambda>t. ilabel t \<noteq> olabel t"] show ?thesis
        unfolding Acceptor sem_ex_arc by auto
    next
      case Epsilons
      have "(bit p 22 \<longrightarrow> sem W F Epsilons) \<and> (bit p 23 \<longrightarrow> \<not> sem W F Epsilons)"
        using p bits_soundD [of W F p Epsilons] by simp
      with bits(3,4) ex(1-4) [of "\<lambda>t. ilabel t = EPS_LABEL \<and> olabel t = EPS_LABEL"] show ?thesis
        unfolding Epsilons sem_ex_arc by auto
    next
      case IEpsilons
      have "(bit p 24 \<longrightarrow> sem W F IEpsilons) \<and> (bit p 25 \<longrightarrow> \<not> sem W F IEpsilons)"
        using p bits_soundD [of W F p IEpsilons] by simp
      with bits(5,6) ex(1-4) [of "\<lambda>t. ilabel t = EPS_LABEL"] show ?thesis
        unfolding IEpsilons sem_ex_arc by auto
    next
      case OEpsilons
      have "(bit p 26 \<longrightarrow> sem W F OEpsilons) \<and> (bit p 27 \<longrightarrow> \<not> sem W F OEpsilons)"
        using p bits_soundD [of W F p OEpsilons] by simp
      with bits(7,8) ex(1-4) [of "\<lambda>t. olabel t = EPS_LABEL"] show ?thesis
        unfolding OEpsilons sem_ex_arc by auto
    next
      case Weighted
      have "(bit p 32 \<longrightarrow> sem W F Weighted) \<and> (bit p 33 \<longrightarrow> \<not> sem W F Weighted)"
        using p bits_soundD [of W F p Weighted] by simp
      with bits(9,10) ex(1-4) [of "\<lambda>t. nontrivial W (weight t)"] ex(5) [of "nontrivial W"] show ?thesis
        unfolding Weighted sem_ex_arc by auto
    qed (simp_all add: bits(11))
  qed
qed

text \<open>Each setter replaces one transition.\<close>

definition iter_step_ok :: "'w semiring \<Rightarrow> 'w vfst \<Rightarrow> state_id \<Rightarrow> nat \<Rightarrow> 'w tr \<Rightarrow> 'w trs_iter \<Rightarrow> bool" where
  "iter_step_ok W F s i t it \<longleftrightarrow>
     it_trs it = (trs (state_of F s))[i := t] \<and>
     (props_sound W F \<longrightarrow> bits_sound W (end_borrow F s it) (it_properties it)) \<and>
     (state_counts_ok (state_of F s) \<longrightarrow>
        it_niepsilons it = count_ieps (it_trs it) \<and> it_noepsilons it = count_oeps (it_trs it))"

lemma end_borrow_replaces:
  assumes "s < num_states F" "i < length (trs (state_of F s))" "it_trs it = (trs (state_of F s))[i := t]"
  shows "replaces F s i t (end_borrow F s it)"
  using assms by (simp add: replaces_def end_borrow_state)

lemma iter_fields [simp]:
  "it_trs (updt_nieps a b it) = it_trs it" "it_trs (updt_noeps a b it) = it_trs it"
  "it_properties (updt_nieps a b it) = it_properties it" "it_properties (updt_noeps a b it) = it_properties it"
  "it_noepsilons (updt_nieps a b it) = it_noepsilons it" "it_niepsilons (updt_noeps a b it) = it_niepsilons it"
  "it_niepsilons (updt_nieps a b it) =
     it_niepsilons it - (if a = EPS_LABEL then 1 else 0) + (if b = EPS_LABEL then 1 else 0)"
  "it_noepsilons (updt_noeps a b it) =
     it_noepsilons it - (if a = EPS_LABEL then 1 else 0) + (if b = EPS_LABEL then 1 else 0)"
  "it_trs (iter_put it i t) = (it_trs it)[i := t]" "it_properties (iter_put it i t) = it_properties it"
  "it_niepsilons (iter_put it i t) = it_niepsilons it" "it_noepsilons (iter_put it i t) = it_noepsilons it"
  by (simp_all add: updt_nieps_def updt_noeps_def iter_put_def Let_def)

lemma borrow_fields [simp]:
  "it_trs (tr_iter_unchecked_mut F s) = trs (state_of F s)"
  "it_properties (tr_iter_unchecked_mut F s) = properties F"
  "it_niepsilons (tr_iter_unchecked_mut F s) = niepsilons (state_of F s)"
  "it_noepsilons (tr_iter_unchecked_mut F s) = noepsilons (state_of F s)"
  by (simp_all add: tr_iter_unchecked_mut_def)

lemma iter_counts:
  assumes "i < length ts"
  shows "count_ieps ts - (if ilabel (ts ! i) = EPS_LABEL then 1 else 0) +
      (if ilabel t = EPS_LABEL then 1 else 0) = count_ieps (ts[i := t])"
    and "count_oeps ts - (if olabel (ts ! i) = EPS_LABEL then 1 else 0) +
      (if olabel t = EPS_LABEL then 1 else 0) = count_oeps (ts[i := t])"
  using count_eps_update [OF assms, of t] count_eps_remove [OF assms] by auto

lemma iter_stepI:
  assumes s: "s < num_states F" and i: "i < length (trs (state_of F s))"
    and trs: "it_trs it = (trs (state_of F s))[i := t]"
    and cnt: "state_counts_ok (state_of F s) \<Longrightarrow> it_niepsilons it = count_ieps (it_trs it) \<and>
      it_noepsilons it = count_oeps (it_trs it)"
    and p: "\<And>n. bit (it_properties it) n \<Longrightarrow>
      bit (compute_new_properties_all W (properties F) (trs (state_of F s) ! i) t) n \<or>
      bit (properties F) n \<and>
        (n \<in> {16, 17, 22, 23, 24, 25, 26, 27} \<and> ilabel (trs (state_of F s) ! i) = ilabel t \<and>
          olabel (trs (state_of F s) ! i) = olabel t \<or>
         n \<in> {32, 33} \<and> weight (trs (state_of F s) ! i) = weight t)"
  shows "iter_step_ok W F s i t it"
proof -
  have "bits_sound W (end_borrow F s it) (it_properties it)" if "bits_sound W F (properties F)"
  proof (rule replaces_sound [OF end_borrow_replaces [of s F i it t, OF s i trs] that])
    show "\<not> bit (it_properties it) n" if "n \<notin> {16, 17, 22, 23, 24, 25, 26, 27, 32, 33}" for n
      using p [of n] that new_properties_all_bits(11) [OF that] by auto
  qed (drule p, force simp: new_properties_all_bits)+
  with cnt trs show ?thesis
    by (simp add: iter_step_ok_def props_sound_def)
qed

lemma set_tr_ok:
  assumes "s < num_states F" "i < length (trs (state_of F s))"
  shows "iter_step_ok W F s i t (set_tr_unchecked W (tr_iter_unchecked_mut F s) i t)"
  using assms iter_counts [OF assms(2), of t]
  by (intro iter_stepI) (simp_all add: set_tr_unchecked_def Let_def state_counts_ok_def)

lemma label_bits_imp:
  assumes "bit (compute_new_properties_labels p (ilabel t) (olabel t) (ilabel u) (olabel u)) n"
  shows "bit (compute_new_properties_all W p t u) n \<or> bit p n \<and> n \<in> {32, 33}"
proof -
  have "n \<in> {16, 17, 22, 23, 24, 25, 26, 27, 32, 33}"
    using assms new_properties_labels_bits(11) by metis
  with assms show ?thesis
    by (elim insertE emptyE) (simp_all add: new_properties_all_bits new_properties_labels_bits)
qed

lemma weight_bits_imp:
  assumes "bit (compute_new_properties_weights W p (weight t) (weight u)) n"
  shows "bit (compute_new_properties_all W p t u) n \<or> bit p n \<and> n \<in> {16, 17, 22, 23, 24, 25, 26, 27}"
proof -
  have "n \<in> {16, 17, 22, 23, 24, 25, 26, 27, 32, 33}"
    using assms new_properties_weights_bits(11) by metis
  with assms show ?thesis
    by (elim insertE emptyE) (simp_all add: new_properties_all_bits new_properties_weights_bits)
qed

lemma set_labels_ok:
  assumes "s < num_states F" "i < length (trs (state_of F s))"
  shows "iter_step_ok W F s i ((trs (state_of F s) ! i)\<lparr>ilabel := il, olabel := ol\<rparr>)
    (set_labels_unchecked (tr_iter_unchecked_mut F s) i il ol)"
  using assms iter_counts [OF assms(2), of "(trs (state_of F s) ! i)\<lparr>ilabel := il, olabel := ol\<rparr>"]
    label_bits_imp [where u = "(trs (state_of F s) ! i)\<lparr>ilabel := il, olabel := ol\<rparr>"]
  by (intro iter_stepI) (fastforce simp: set_labels_unchecked_def Let_def state_counts_ok_def)+

lemma set_ilabel_ok:
  assumes "s < num_states F" "i < length (trs (state_of F s))"
  shows "iter_step_ok W F s i ((trs (state_of F s) ! i)\<lparr>ilabel := l\<rparr>)
    (set_ilabel_unchecked (tr_iter_unchecked_mut F s) i l)"
  using assms iter_counts(1) [OF assms(2), of "(trs (state_of F s) ! i)\<lparr>ilabel := l\<rparr>"]
    count_eps_update(2) [OF assms(2), of "(trs (state_of F s) ! i)\<lparr>ilabel := l\<rparr>"]
    label_bits_imp [where u = "(trs (state_of F s) ! i)\<lparr>ilabel := l\<rparr>"]
  by (intro iter_stepI) (fastforce simp: set_ilabel_unchecked_def Let_def state_counts_ok_def)+

lemma set_olabel_ok:
  assumes "s < num_states F" "i < length (trs (state_of F s))"
  shows "iter_step_ok W F s i ((trs (state_of F s) ! i)\<lparr>olabel := l\<rparr>)
    (set_olabel_unchecked (tr_iter_unchecked_mut F s) i l)"
  using assms iter_counts(2) [OF assms(2), of "(trs (state_of F s) ! i)\<lparr>olabel := l\<rparr>"]
    count_eps_update(1) [OF assms(2), of "(trs (state_of F s) ! i)\<lparr>olabel := l\<rparr>"]
    label_bits_imp [where u = "(trs (state_of F s) ! i)\<lparr>olabel := l\<rparr>"]
  by (intro iter_stepI) (fastforce simp: set_olabel_unchecked_def Let_def state_counts_ok_def)+

lemma set_weight_ok:
  assumes "s < num_states F" "i < length (trs (state_of F s))"
  shows "iter_step_ok W F s i ((trs (state_of F s) ! i)\<lparr>weight := w\<rparr>)
    (set_weight_unchecked W (tr_iter_unchecked_mut F s) i w)"
  using assms count_eps_update [OF assms(2), of "(trs (state_of F s) ! i)\<lparr>weight := w\<rparr>"]
    weight_bits_imp [where W = W and u = "(trs (state_of F s) ! i)\<lparr>weight := w\<rparr>"]
  by (intro iter_stepI) (fastforce simp: set_weight_unchecked_def Let_def state_counts_ok_def)+

lemma set_nextstate_ok:
  assumes "s < num_states F" "i < length (trs (state_of F s))"
  shows "iter_step_ok W F s i ((trs (state_of F s) ! i)\<lparr>nextstate := k\<rparr>)
    (set_nextstate_unchecked (tr_iter_unchecked_mut F s) i k)"
  using assms count_eps_update [OF assms(2), of "(trs (state_of F s) ! i)\<lparr>nextstate := k\<rparr>"]
  by (intro iter_stepI) (fastforce simp: set_nextstate_unchecked_def Let_def state_counts_ok_def relevant_bits)+

text \<open>The bundle the step relation uses: after a setter the transducer is as sound as before.\<close>

lemma iter_step_sound:
  assumes "iter_step_ok W F s i t it" "s < num_states F"
  shows "props_sound W F \<Longrightarrow> props_sound W (end_borrow F s it)"
    and "eps_counts_ok F \<Longrightarrow> eps_counts_ok (end_borrow F s it)"
    and "targets_ok F \<Longrightarrow> nextstate t < num_states F \<Longrightarrow> targets_ok (end_borrow F s it)"
proof -
  show "props_sound W F \<Longrightarrow> props_sound W (end_borrow F s it)"
    using assms(1) by (simp add: iter_step_ok_def props_sound_def)
  show "eps_counts_ok (end_borrow F s it)" if "eps_counts_ok F"
  proof -
    have "state_counts_ok ((state_of F s)\<lparr>trs := it_trs it, niepsilons := it_niepsilons it, noepsilons := it_noepsilons it\<rparr>)"
      using assms eps_counts_state [OF that assms(2)] by (simp add: iter_step_ok_def state_counts_ok_def)
    with that show ?thesis
      by (simp add: end_borrow_def with_state_props with_state_counts)
  qed
  assume t: "targets_ok F" "nextstate t < num_states F"
  have trs: "set (it_trs it) \<subseteq> insert t (set (trs (state_of F s)))"
    using assms(1) by (auto simp: iter_step_ok_def dest: set_update_subset_insert [THEN subsetD])
  have "nextstate u < num_states F" if "k < num_states F" "u \<in> set (trs (state_of (end_borrow F s it) k))" for k u
    using that trs t(2) targets_state [OF t(1)] by (auto simp: end_borrow_state split: if_splits)
  with t(1) show "targets_ok (end_borrow F s it)"
    by (simp add: targets_ok_def all_set_conv_all_nth [of "states (end_borrow F s it)"])
qed

end
