(* ===== verification/Prop_Transfer.thy ===== *)
theory Prop_Transfer
  imports Trs_Iter_Mut
begin

text \<open>
  How the meaning of the property flags carries over between transducers with the same states: the
  lemmas the in-place algorithms share.
\<close>

definition same_shape :: "'w vfst \<Rightarrow> 'v vfst \<Rightarrow> bool" where
  "same_shape F G \<longleftrightarrow> num_states G = num_states F \<and> start_state G = start_state F \<and>
     (\<forall>k < num_states F. final_weight (state_of G k) = None \<longleftrightarrow> final_weight (state_of F k) = None)"

text \<open>The graph is the same if the targets of each state are.\<close>

definition same_targets :: "'w vfst \<Rightarrow> 'v vfst \<Rightarrow> bool" where
  "same_targets F G \<longleftrightarrow> same_shape F G \<and>
     (\<forall>k < num_states F. nextstate ` set (trs (state_of G k)) = nextstate ` set (trs (state_of F k)))"

lemma same_targets_graph:
  assumes "same_targets F G"
  shows "edges G = edges F" "is_final_state G = is_final_state F" "num_states G = num_states F"
    "start_state G = start_state F"
proof -
  show n: "num_states G = num_states F" "start_state G = start_state F"
    using assms by (simp_all add: same_targets_def same_shape_def)
  show "is_final_state G = is_final_state F"
    using assms by (auto simp: is_final_state_def fun_eq_iff same_targets_def same_shape_def)
  have e: "edges H = {(s, d). s < num_states H \<and> d \<in> nextstate ` set (trs (state_of H s))}" for H :: "'x vfst"
    by (auto simp: edges_def arcs_def)
  show "edges G = edges F"
    unfolding e n using assms by (auto simp: same_targets_def)
qed

lemma same_targets_states:
  assumes "same_targets F G"
  shows "accessible_state G = accessible_state F" "coaccessible_state G = coaccessible_state F"
    "cyclic_at G = cyclic_at F"
  by (simp_all add: fun_eq_iff accessible_state_def coaccessible_state_def cyclic_at_def
      same_targets_graph [OF assms])

lemma same_targets_sem:
  assumes "same_targets F G"
  shows "sem W G Cyclic = sem V F Cyclic" "sem W G InitialCyclic = sem V F InitialCyclic"
    "sem W G TopSorted = sem V F TopSorted" "sem W G Accessible = sem V F Accessible"
    "sem W G Coaccessible = sem V F Coaccessible"
  by (simp_all add: same_targets_graph [OF assms] same_targets_states [OF assms])

lemma same_targets_ok: "same_targets F G \<Longrightarrow> targets_ok F \<Longrightarrow> targets_ok G"
proof -
  assume g: "same_targets F G" and ok: "targets_ok F"
  have "nextstate t < num_states F" if "k < num_states F" "t \<in> set (trs (state_of G k))" for k t
  proof -
    from that g have "nextstate t \<in> nextstate ` set (trs (state_of F k))"
      by (auto simp: same_targets_def)
    with targets_state [OF ok that(1)] show ?thesis by auto
  qed
  with ok show ?thesis
    by (simp add: targets_ok_def same_targets_graph [OF g] all_set_conv_all_nth [of "states G"])
qed

text \<open>The string property needs the number of transitions as well.\<close>

lemma same_string:
  assumes "same_shape F G"
    and "\<And>k. k < num_states F \<Longrightarrow>
      mset (map nextstate (trs (state_of G k))) = mset (map nextstate (trs (state_of F k)))"
  shows "sem W G StringFst = sem V F StringFst"
proof -
  have n: "num_states G = num_states F" "start_state G = start_state F"
    using assms(1) by (simp_all add: same_shape_def)
  have "string_state G s = string_state F s" if s: "s < num_states F" for s
  proof -
    have "is_final_state G s = is_final_state F s"
      using s assms(1) by (auto simp: is_final_state_def same_shape_def)
    moreover have "map nextstate (trs (state_of G s)) = [x] \<longleftrightarrow> map nextstate (trs (state_of F s)) = [x]" for x
      using assms(2) [OF s] by (metis mset_single_iff)
    moreover have "trs (state_of G s) = [] \<longleftrightarrow> trs (state_of F s) = []"
      using assms(2) [OF s] by (metis map_is_Nil_conv mset_zero_iff)
    ultimately show ?thesis
      by (simp add: string_state_def n(1))
  qed
  then show ?thesis by (simp add: n)
qed

text \<open>Existence of a transition with a property.\<close>

lemma ex_arc_cong:
  assumes "same_shape F G"
    and "\<And>k. k < num_states F \<Longrightarrow> P ` set (trs (state_of G k)) = Q ` set (trs (state_of F k))"
  shows "ex_arc G P = ex_arc F Q"
proof -
  have "(\<exists>t \<in> set (trs (state_of G k)). P t) \<longleftrightarrow> (\<exists>t \<in> set (trs (state_of F k)). Q t)"
    if "k < num_states F" for k
    using assms(2) [OF that] by (metis (mono_tags, lifting) image_iff)
  moreover have "num_states G = num_states F" using assms(1) by (simp add: same_shape_def)
  ultimately show ?thesis unfolding ex_arc_def by (metis (no_types, lifting))
qed

lemma ex_final_cong:
  assumes "same_shape F G"
    and "\<And>k. k < num_states F \<Longrightarrow> final_weight (state_of G k) = final_weight (state_of F k)"
  shows "ex_final G P = ex_final F P"
  using assms by (auto simp: ex_final_def same_shape_def)

lemma weighted_cycles_alt:
  "sem W F WeightedCycles \<longleftrightarrow>
     (\<exists>s < num_states F. \<exists>(b, d) \<in> (\<lambda>t. (nontrivial W (weight t), nextstate t)) ` set (trs (state_of F s)).
        b \<and> (d, s) \<in> (edges F)\<^sup>*)"
  by (force simp: arcs_def)

lemma same_weighted_cycles:
  assumes "same_targets F G"
    and "\<And>k. k < num_states F \<Longrightarrow>
      (\<lambda>t. (nontrivial W (weight t), nextstate t)) ` set (trs (state_of G k)) =
      (\<lambda>t. (nontrivial W (weight t), nextstate t)) ` set (trs (state_of F k))"
  shows "sem W G WeightedCycles = sem W F WeightedCycles"
  unfolding weighted_cycles_alt same_targets_graph [OF assms(1)]
  by (rule iff_exI, rule conj_cong [OF refl]) (simp only: assms(2))

subsection \<open>Permuting the transitions of each state\<close>

definition permutes_trs :: "'w vfst \<Rightarrow> 'w vfst \<Rightarrow> bool" where
  "permutes_trs F G \<longleftrightarrow> num_states G = num_states F \<and> start_state G = start_state F \<and>
     (\<forall>k < num_states F. final_weight (state_of G k) = final_weight (state_of F k) \<and>
        mset (trs (state_of G k)) = mset (trs (state_of F k)))"

lemma permutes_same:
  assumes "permutes_trs F G"
  shows "same_shape F G" "same_targets F G" "k < num_states F \<Longrightarrow> set (trs (state_of G k)) = set (trs (state_of F k))"
  using assms by (auto simp: permutes_trs_def same_shape_def same_targets_def dest!: mset_eq_setD)

lemma permutes_sem:
  assumes p: "permutes_trs F G" and q: "q \<notin> {ILabelSorted, OLabelSorted}"
  shows "sem W G q = sem W F q"
proof -
  note s = permutes_same [OF p]
  have fin: "ex_final G P = ex_final F P" for P
    using p by (intro ex_final_cong [OF s(1)]) (simp add: permutes_trs_def)
  have ex: "ex_arc G P = ex_arc F P" for P
    by (rule ex_arc_cong [OF s(1)]) (simp add: s(3))
  have d: "distinct (map f (trs (state_of G k))) = distinct (map f (trs (state_of F k)))"
    if "k < num_states F" for f :: "'a tr \<Rightarrow> label" and k
    using p that by (intro mset_eq_imp_distinct_iff) (simp add: permutes_trs_def)
  have n: "num_states G = num_states F" using p by (simp add: permutes_trs_def)
  show ?thesis
  proof (cases q)
    case IDeterministic
    then show ?thesis by (simp add: d n)
  next
    case ODeterministic
    then show ?thesis by (simp add: d n)
  next
    case StringFst
    have "sem W G StringFst = sem W F StringFst"
      using p by (intro same_string [OF s(1)]) (simp add: permutes_trs_def)
    then show ?thesis by (simp only: StringFst)
  next
    case WeightedCycles
    have "sem W G WeightedCycles = sem W F WeightedCycles"
      by (rule same_weighted_cycles [OF s(2)]) (simp add: s(3))
    then show ?thesis by (simp only: WeightedCycles)
  qed (use q ex fin in \<open>simp_all only: sem_ex_arc same_targets_sem [OF s(2), of W W] insert_iff simp_thms\<close>)
qed

end
