(* ===== verification/Tr_Sorting.thy ===== *)
theory Tr_Sorting
  imports Prop_Transfer "HOL-Library.Product_Lexorder"
begin

text \<open>
  Sorting, deduplicating and summing the transitions of each state: \<open>algorithms/tr_sort.rs\<close>,
  \<open>tr_unique.rs\<close>, \<open>tr_sum.rs\<close> and the unchecked operations of \<open>fst_impls/vector_fst/mutable_fst.rs\<close>
  they call.
\<close>

subsection \<open>Comparison and stable sorting\<close>

datatype ordering = Less | Equal | Greater

definition cmp_ord :: "'a::linorder \<Rightarrow> 'a \<Rightarrow> ordering" where
  "cmp_ord a b = (if a < b then Less else if a > b then Greater else Equal)"

text \<open>\<open>slice::sort_by\<close> is a stable sort; insertion sort is one.\<close>

fun insert_by :: "('a \<Rightarrow> 'a \<Rightarrow> ordering) \<Rightarrow> 'a \<Rightarrow> 'a list \<Rightarrow> 'a list" where
  "insert_by cmp x [] = [x]"
| "insert_by cmp x (y # ys) = (if cmp x y = Greater then y # insert_by cmp x ys else x # y # ys)"

definition sort_by :: "('a \<Rightarrow> 'a \<Rightarrow> ordering) \<Rightarrow> 'a list \<Rightarrow> 'a list" where
  "sort_by cmp xs = foldr (insert_by cmp) xs []"

text \<open>\<open>Vec::dedup\<close> drops an element equal to the last one kept.\<close>

fun dedup_by :: "('a \<Rightarrow> 'a \<Rightarrow> bool) \<Rightarrow> 'a list \<Rightarrow> 'a list" where
  "dedup_by eq [] = []"
| "dedup_by eq [x] = [x]"
| "dedup_by eq (x # y # ys) = (if eq y x then dedup_by eq (x # ys) else x # dedup_by eq (y # ys))"

definition tr_compare :: "'w tr \<Rightarrow> 'w tr \<Rightarrow> ordering" where
  "tr_compare t u =
     (if ilabel t < ilabel u then Less else if ilabel t > ilabel u then Greater
      else if olabel t < olabel u then Less else if olabel t > olabel u then Greater
      else if nextstate t < nextstate u then Less else if nextstate t > nextstate u then Greater
      else Equal)"

definition equal_tr :: "'w tr \<Rightarrow> 'w tr \<Rightarrow> bool" where
  "equal_tr t u \<longleftrightarrow> ilabel t = ilabel u \<and> olabel t = olabel u \<and> nextstate t = nextstate u"

subsection \<open>The operations on one state\<close>

definition sort_trs_unchecked :: "'w vfst \<Rightarrow> state_id \<Rightarrow> ('w tr \<Rightarrow> 'w tr \<Rightarrow> ordering) \<Rightarrow> 'w vfst" where
  "sort_trs_unchecked F s cmp = with_state F s (\<lambda>st. st\<lparr>trs := sort_by cmp (trs st)\<rparr>)"

definition unique_trs_unchecked :: "'w semiring \<Rightarrow> 'w vfst \<Rightarrow> state_id \<Rightarrow> 'w vfst" where
  "unique_trs_unchecked W F s = with_state F s (\<lambda>st.
     let ts = dedup_by (tr_eq W) (sort_by tr_compare (trs st))
     in if niepsilons st \<noteq> 0 \<or> noepsilons st \<noteq> 0
        then st\<lparr>trs := ts, niepsilons := count_ieps ts, noepsilons := count_oeps ts\<rparr>
        else st\<lparr>trs := ts\<rparr>)"

text \<open>One turn of the loop of \<open>sum_trs_unchecked\<close>; \<open>n\<close> is \<open>n_trs\<close>.\<close>

definition sum_step ::
  "'w semiring \<Rightarrow> nat \<Rightarrow> 'w tr list \<times> nat \<times> nat \<times> nat \<Rightarrow> ('w tr list \<times> nat \<times> nat \<times> nat) res" where
  "sum_step W i acc =
     (let (ts, n, ni, no) = acc
      in if n > 0 \<and> equal_tr (ts ! i) (ts ! (n - 1))
         then (let ni = (if ilabel (ts ! i) = EPS_LABEL then ni - 1 else ni);
                   no = (if olabel (ts ! i) = EPS_LABEL then no - 1 else no)
               in rbind (runwrap (plus_w W (weight (ts ! (n - 1))) (weight (ts ! i)))) (\<lambda>w.
                    Inr (ts[n - 1 := (ts ! (n - 1))\<lparr>weight := w\<rparr>], n, ni, no)))
         else Inr (vec_swap ts n i, n + 1, ni, no))"

definition sum_trs_unchecked :: "'w semiring \<Rightarrow> 'w vfst \<Rightarrow> state_id \<Rightarrow> 'w vfst res" where
  "sum_trs_unchecked W F s =
     (let st = state_of F s; ts = sort_by tr_compare (trs st)
      in rbind (for_res (sum_step W) [0 ..< length ts] (ts, 0, niepsilons st, noepsilons st))
           (\<lambda>(ts, n, ni, no). Inr (with_state F s
              (\<lambda>st. st\<lparr>trs := take n ts, niepsilons := ni, noepsilons := no\<rparr>))))"

subsection \<open>The algorithms\<close>

datatype tr_cmp = ILabelCompare | OLabelCompare

fun tr_cmp_compare :: "tr_cmp \<Rightarrow> 'w tr \<Rightarrow> 'w tr \<Rightarrow> ordering" where
  "tr_cmp_compare ILabelCompare a b = cmp_ord (ilabel a) (ilabel b)"
| "tr_cmp_compare OLabelCompare a b = cmp_ord (olabel a) (olabel b)"

fun tr_cmp_properties :: "tr_cmp \<Rightarrow> fst_props \<Rightarrow> fst_props" where
  "tr_cmp_properties ILabelCompare inprops =
     (let outprops = (inprops AND fp_arcsort_properties) OR I_LABEL_SORTED
      in if contains inprops ACCEPTOR then outprops OR O_LABEL_SORTED else outprops)"
| "tr_cmp_properties OLabelCompare inprops =
     (let outprops = (inprops AND fp_arcsort_properties) OR O_LABEL_SORTED
      in if contains inprops ACCEPTOR then outprops OR I_LABEL_SORTED else outprops)"

definition tr_sort :: "'w vfst \<Rightarrow> tr_cmp \<Rightarrow> 'w vfst" where
  "tr_sort F c =
     set_properties_with_mask
       (fold (\<lambda>s F. sort_trs_unchecked F s (tr_cmp_compare c)) [0 ..< num_states F] F)
       (tr_cmp_properties c (properties F)) all_properties"

definition tr_unique :: "'w semiring \<Rightarrow> 'w vfst \<Rightarrow> 'w vfst" where
  "tr_unique W F =
     (let props = properties F;
          F = fold (\<lambda>s F. unique_trs_unchecked W F s) [0 ..< num_states F] F;
          outprops = props AND fp_arcsort_properties AND fp_delete_arcs_properties;
          outprops = outprops OR (props AND (ACCESSIBLE OR NOT_ACCESSIBLE OR COACCESSIBLE OR NOT_COACCESSIBLE));
          outprops = (if num_states F = 0 then outprops OR fp_null_properties else outprops)
      in set_properties_with_mask F outprops all_properties)"

definition tr_sum :: "'w semiring \<Rightarrow> 'w vfst \<Rightarrow> 'w vfst res" where
  "tr_sum W F =
     (let props = properties F
      in rbind (for_res (\<lambda>s F. sum_trs_unchecked W F s) [0 ..< num_states F] F) (\<lambda>F.
         let outprops = props AND fp_arcsort_properties AND fp_delete_arcs_properties AND
               fp_weight_invariant_properties;
             outprops = (if num_states F = 0 then outprops OR fp_null_properties else outprops)
         in Inr (set_properties_with_mask F outprops all_properties)))"

subsection \<open>Sorting lemmas\<close>

lemma sort_by_eq:
  assumes "\<And>x y. cmp x y = Greater \<longleftrightarrow> key y < (key x :: 'k::linorder)"
  shows "sort_by cmp xs = sort_key key xs"
proof -
  have "insert_by cmp x ys = insort_key key x ys" for x ys
    by (induction ys) (auto simp: assms)
  then have "insert_by cmp = insort_key key" by (intro ext)
  then show ?thesis by (simp add: sort_by_def sort_key_def)
qed

lemma cmp_ord_Greater [simp]: "cmp_ord a b = Greater \<longleftrightarrow> b < a"
  by (auto simp: cmp_ord_def)

definition tr_key :: "'w tr \<Rightarrow> label \<times> label \<times> state_id" where
  "tr_key t = (ilabel t, olabel t, nextstate t)"

lemma equal_tr_key: "equal_tr t u \<longleftrightarrow> tr_key t = tr_key u"
  by (auto simp: equal_tr_def tr_key_def)

lemma tr_compare_key: "sort_by tr_compare ts = sort_key tr_key ts"
  by (rule sort_by_eq) (auto simp: tr_compare_def tr_key_def less_prod_def)

lemma tr_cmp_sort:
  "sort_by (tr_cmp_compare ILabelCompare) ts = sort_key ilabel ts"
  "sort_by (tr_cmp_compare OLabelCompare) ts = sort_key olabel ts"
  by (rule sort_by_eq; simp)+

text \<open>The loop over the states.\<close>

lemma fold_with_state:
  "fold (\<lambda>s F. with_state F s h) [0 ..< num_states F] F = F\<lparr>states := map h (states F)\<rparr>"
proof -
  have "fold (\<lambda>s F. with_state F s h) [0 ..< n] F =
      F\<lparr>states := map h (take n (states F)) @ drop n (states F)\<rparr>" if "n \<le> num_states F" for n
    using that
  proof (induction n)
    case (Suc n)
    then have "n < num_states F" by simp
    with Suc show ?case
      by (simp add: with_state_def nth_append list_update_append take_Suc_conv_app_nth
          Cons_nth_drop_Suc [symmetric])
  qed simp
  from this [of "num_states F"] show ?thesis by simp
qed

lemma all_properties_bits: "bit all_properties n \<longleftrightarrow> 16 \<le> n \<and> n < 48"
proof -
  have d: "all_properties = push_bit 16 (mask 32)"
    by (simp add: all_properties_def binary_properties_def trinary_properties_def
        from_bits_truncate_def fp_declared_def mask_eq_exp_minus_1)
  show ?thesis unfolding d bit_push_bit_iff bit_mask_iff by auto
qed

text \<open>After \<open>set_properties_with_mask\<close> with all properties the known flags are those given.\<close>

lemma set_all_properties_sound:
  assumes "bits_sound W F p"
  shows "props_sound W (set_properties_with_mask F p all_properties)"
proof -
  define p' where "p' = (properties F AND fp_not all_properties) OR (p AND all_properties)"
  have r: "16 \<le> pos_bit q \<and> pos_bit q < 47" for q by (cases q) simp_all
  have "bit p' (pos_bit q) = bit p (pos_bit q)" "bit p' (Suc (pos_bit q)) = bit p (Suc (pos_bit q))" for q
    using r [of q] by (simp_all add: p'_def bit_or_iff bit_and_iff all_properties_bits)
  with assms have "bits_sound W F p'" by (simp add: bits_sound_def)
  then show ?thesis by (simp add: props_sound_def set_properties_with_mask_def p'_def)
qed

lemma set_all_properties_simps [simp]:
  "states (set_properties_with_mask F p m) = states F"
  "start_state (set_properties_with_mask F p m) = start_state F"
  "isymt (set_properties_with_mask F p m) = isymt F" "osymt (set_properties_with_mask F p m) = osymt F"
  "eps_counts_ok (set_properties_with_mask F p m) = eps_counts_ok F"
  "targets_ok (set_properties_with_mask F p m) = targets_ok F"
  by (simp_all add: set_properties_with_mask_def)

subsection \<open>Sorting\<close>

definition sorted_state :: "tr_cmp \<Rightarrow> 'w vstate \<Rightarrow> 'w vstate" where
  "sorted_state c st = st\<lparr>trs := sort_by (tr_cmp_compare c) (trs st)\<rparr>"

lemma tr_sort_eq:
  "tr_sort F c = set_properties_with_mask (F\<lparr>states := map (sorted_state c) (states F)\<rparr>)
     (tr_cmp_properties c (properties F)) all_properties"
  unfolding tr_sort_def sort_trs_unchecked_def fold_with_state sorted_state_def [abs_def] ..

lemma sorted_state_simps [simp]:
  "final_weight (sorted_state c st) = final_weight st"
  "mset (trs (sorted_state c st)) = mset (trs st)"
  "sorted (map ilabel (trs (sorted_state ILabelCompare st)))"
  "sorted (map olabel (trs (sorted_state OLabelCompare st)))"
  by (cases c; simp add: sorted_state_def tr_cmp_sort)+

lemma sort_permutes: "permutes_trs F (F\<lparr>states := map (sorted_state c) (states F)\<rparr>)"
  by (simp add: permutes_trs_def)

lemma bits_sound_one:
  "sem W F ILabelSorted \<Longrightarrow> bits_sound W F I_LABEL_SORTED"
  "sem W F OLabelSorted \<Longrightarrow> bits_sound W F O_LABEL_SORTED"
  by (simp_all add: bits_sound_def fprop_all flag_bits del: sem.simps)

lemma acceptor_sorted:
  assumes "sem W F Acceptor"
  shows "sem W F ILabelSorted \<longleftrightarrow> sem W F OLabelSorted"
proof -
  have "map ilabel (trs (state_of F s)) = map olabel (trs (state_of F s))" if "s < num_states F" for s
    using assms that by (auto simp: arcs_def)
  then show ?thesis unfolding sem.simps by metis
qed

lemma tr_sort_sound: "props_sound W F \<Longrightarrow> props_sound W (tr_sort F c)"
proof -
  assume F: "props_sound W F"
  let ?G = "F\<lparr>states := map (sorted_state c) (states F)\<rparr>"
  have k: "bits_sound W ?G (properties F AND fp_arcsort_properties)"
    by (rule bits_sound_keep [OF F [unfolded props_sound_def]];
        case_tac q; simp add: mask_nums permutes_sem [OF sort_permutes] del: sem.simps)
  have acc: "sem W ?G Acceptor" if "bit (properties F) 16"
    using bits_soundD(1) [of W F _ Acceptor] F that permutes_sem [OF sort_permutes [of F c], of Acceptor W]
    by (simp add: props_sound_def)
  have both: "sem W ?G ILabelSorted \<and> sem W ?G OLabelSorted" if "bit (properties F) 16"
    using acceptor_sorted [OF acc [OF that]] by (cases c) (simp_all del: sem.simps(1))
  have one: "c = ILabelCompare \<Longrightarrow> sem W ?G ILabelSorted" "c = OLabelCompare \<Longrightarrow> sem W ?G OLabelSorted"
    by simp_all
  have "bits_sound W ?G (tr_cmp_properties c (properties F))"
    using k one both by (cases c) (simp_all add: Let_def bits_sound_one bits_sound_or del: sem.simps)
  then show "props_sound W (tr_sort F c)"
    unfolding tr_sort_eq by (rule set_all_properties_sound)
qed

lemma sorted_state_counts: "state_counts_ok st \<Longrightarrow> state_counts_ok (sorted_state c st)"
proof -
  have "mset (trs (sorted_state c st)) = mset (trs st)" by simp
  note count_eps_mset [OF this]
  then show "state_counts_ok st \<Longrightarrow> state_counts_ok (sorted_state c st)"
    by (simp add: state_counts_ok_def) (simp add: sorted_state_def)
qed

lemma tr_sort_ok:
  "eps_counts_ok F \<Longrightarrow> eps_counts_ok (tr_sort F c)" "targets_ok F \<Longrightarrow> targets_ok (tr_sort F c)"
proof -
  show "eps_counts_ok F \<Longrightarrow> eps_counts_ok (tr_sort F c)"
    by (auto simp: tr_sort_eq eps_counts_ok_def sorted_state_counts)
  show "targets_ok F \<Longrightarrow> targets_ok (tr_sort F c)"
    using same_targets_ok [OF permutes_same(2) [OF sort_permutes [of F c]]] by (simp add: tr_sort_eq)
qed


subsection \<open>Deduplication\<close>

lemma dedup_set: "set (dedup_by eq xs) \<subseteq> set xs"
  by (induction eq xs rule: dedup_by.induct) auto

lemma dedup_Nil [simp]: "dedup_by eq xs = [] \<longleftrightarrow> xs = []"
  by (induction eq xs rule: dedup_by.induct) auto

lemma dedup_image:
  assumes eq: "\<And>x y. eq y x \<Longrightarrow> f y = f x"
  shows "f ` set (dedup_by eq xs) = f ` set xs"
proof -
  have "f ` set (dedup_by eq (x # ys)) = f ` set (x # ys)" for x ys
  proof (induction ys arbitrary: x)
    case (Cons y ys)
    show ?case
    proof (cases "eq y x")
      case True
      then show ?thesis using Cons [of x] eq [OF True] by simp
    next
      case False
      then show ?thesis using Cons [of y] by simp
    qed
  qed simp
  then show ?thesis by (cases xs) simp_all
qed

lemma dedup_remdups_adj: "dedup_by (=) xs = remdups_adj xs"
  by (induction "(=) :: 'a \<Rightarrow> 'a \<Rightarrow> bool" xs rule: dedup_by.induct) auto

lemma dedup_subseq: "subseq (dedup_by eq xs) xs"
proof -
  have "subseq (dedup_by eq (x # ys)) (x # ys)" for x ys
  proof (induction ys arbitrary: x)
    case (Cons y ys)
    have "subseq (x # ys) (x # y # ys)" by auto
    with Cons [of x] have "subseq (dedup_by eq (x # ys)) (x # y # ys)"
      by (rule subseq_order.order_trans)
    with Cons [of y] show ?case by simp
  qed simp
  then show ?thesis by (cases xs) simp_all
qed

lemma dedup_by_Cons: "\<exists>zs. dedup_by eq (y # ys) = y # zs"
  by (induction ys arbitrary: y) auto

lemma dedup_successively: "successively (\<lambda>x y. \<not> eq y x) (dedup_by eq xs)"
proof (induction eq xs rule: dedup_by.induct)
  case (3 eq x y ys)
  then show ?case using dedup_by_Cons [of eq y ys] by (auto simp: successively_Cons)
qed simp_all

text \<open>What is dropped equals an element that stays.\<close>

lemma dedup_represented:
  "t \<in> set xs \<Longrightarrow> \<exists>u \<in> set (dedup_by eq xs). u = t \<or> eq t u"
proof (induction eq xs rule: dedup_by.induct)
  case (3 eq x y ys)
  show ?case
  proof (cases "eq y x")
    case True
    obtain zs where zs: "dedup_by eq (x # ys) = x # zs" using dedup_by_Cons by metis
    show ?thesis using 3 True zs by (cases "t = y") auto
  next
    case False
    with 3 show ?thesis by auto
  qed
qed auto
definition unique_state :: "'w semiring \<Rightarrow> 'w vstate \<Rightarrow> 'w vstate" where
  "unique_state W st =
     (let ts = dedup_by (tr_eq W) (sort_by tr_compare (trs st))
      in if niepsilons st \<noteq> 0 \<or> noepsilons st \<noteq> 0
         then st\<lparr>trs := ts, niepsilons := count_ieps ts, noepsilons := count_oeps ts\<rparr>
         else st\<lparr>trs := ts\<rparr>)"

lemma unique_loop:
  "fold (\<lambda>s F. unique_trs_unchecked W F s) [0 ..< num_states F] F = F\<lparr>states := map (unique_state W) (states F)\<rparr>"
  unfolding unique_trs_unchecked_def fold_with_state unique_state_def [abs_def] ..

lemma unique_state_simps [simp]:
  "final_weight (unique_state W st) = final_weight st"
  "trs (unique_state W st) = dedup_by (tr_eq W) (sort_key tr_key (trs st))"
  by (simp_all add: unique_state_def Let_def tr_compare_key)

lemma unique_state_set:
  "set (trs (unique_state W st)) \<subseteq> set (trs st)"
  "tr_key ` set (trs (unique_state W st)) = tr_key ` set (trs st)"
proof -
  show "set (trs (unique_state W st)) \<subseteq> set (trs st)"
    using dedup_set [of "tr_eq W" "sort_key tr_key (trs st)"] by simp
  show "tr_key ` set (trs (unique_state W st)) = tr_key ` set (trs st)"
    using dedup_image [of "tr_eq W" tr_key "sort_key tr_key (trs st)"]
    by (simp add: tr_eq_def tr_key_def)
qed

lemma unique_state_counts:
  assumes "state_counts_ok st"
  shows "state_counts_ok (unique_state W st)"
proof (cases "niepsilons st \<noteq> 0 \<or> noepsilons st \<noteq> 0")
  case True
  then show ?thesis by (auto simp: state_counts_ok_def unique_state_def Let_def)
next
  case False
  with assms have "filter (\<lambda>t. ilabel t = EPS_LABEL) (trs st) = []" "filter (\<lambda>t. olabel t = EPS_LABEL) (trs st) = []"
    by (simp_all add: state_counts_ok_def count_ieps_def count_oeps_def)
  then have "filter (\<lambda>t. ilabel t = EPS_LABEL) (trs (unique_state W st)) = []"
    "filter (\<lambda>t. olabel t = EPS_LABEL) (trs (unique_state W st)) = []"
    using unique_state_set(1) [of W st] unfolding filter_empty_conv by blast+
  with False show ?thesis
    by (simp add: state_counts_ok_def count_ieps_def count_oeps_def) (simp add: unique_state_def Let_def)
qed

lemma unique_same:
  fixes F :: "'w vfst" and W :: "'w semiring"
  defines "G \<equiv> F\<lparr>states := map (unique_state W) (states F)\<rparr>"
  shows "same_targets F G"
proof -
  have "nextstate ` set (trs (unique_state W st)) = nextstate ` set (trs st)" for st
    using arg_cong [OF unique_state_set(2) [of W st], of "image (snd \<circ> snd)"]
    by (simp only: image_image tr_key_def o_def snd_conv)
  then show ?thesis
    by (simp add: same_targets_def same_shape_def G_def del: unique_state_simps(2))
qed


subsection \<open>Dropping transitions that repeat a key\<close>

definition thins_trs :: "'w vfst \<Rightarrow> 'w vfst \<Rightarrow> bool" where
  "thins_trs F G \<longleftrightarrow> num_states G = num_states F \<and> start_state G = start_state F \<and>
     (\<forall>k < num_states F. final_weight (state_of G k) = final_weight (state_of F k) \<and>
        mset (map tr_key (trs (state_of G k))) \<subseteq># mset (map tr_key (trs (state_of F k))) \<and>
        tr_key ` set (trs (state_of G k)) = tr_key ` set (trs (state_of F k)))"

lemma distinct_sub_mset: "mset xs \<subseteq># mset ys \<Longrightarrow> distinct ys \<Longrightarrow> distinct xs"
  unfolding distinct_count_atmost_1 subseteq_mset_def
  by (metis One_nat_def count_greater_zero_iff le_antisym less_Suc0 not_le_imp_less not_less_eq_eq not_in_iff set_mset_mset)

lemma subseq_mset: "subseq xs ys \<Longrightarrow> mset xs \<subseteq># mset ys"
  by (induction rule: list_emb.induct) (auto intro: subset_mset.order_trans)

lemma thins_key_image:
  assumes "thins_trs F G" "k < num_states F"
  shows "(\<lambda>t. f (tr_key t)) ` set (trs (state_of G k)) = (\<lambda>t. f (tr_key t)) ` set (trs (state_of F k))"
proof -
  have "f ` tr_key ` set (trs (state_of G k)) = f ` tr_key ` set (trs (state_of F k))"
    using assms by (simp add: thins_trs_def)
  then show ?thesis by (simp add: image_image)
qed

lemma thins_same:
  assumes "thins_trs F G"
  shows "same_shape F G" "same_targets F G"
proof -
  show s: "same_shape F G" using assms by (simp add: thins_trs_def same_shape_def)
  then show "same_targets F G"
    using thins_key_image [OF assms, of _ "snd \<circ> snd"] by (simp add: same_targets_def tr_key_def)
qed

lemma thins_distinct:
  assumes "thins_trs F G" "k < num_states F"
  shows "distinct (map ilabel (trs (state_of F k))) \<Longrightarrow> distinct (map ilabel (trs (state_of G k)))"
    and "distinct (map olabel (trs (state_of F k))) \<Longrightarrow> distinct (map olabel (trs (state_of G k)))"
proof -
  have m: "mset (map (\<lambda>t. f (tr_key t)) (trs (state_of G k))) \<subseteq># mset (map (\<lambda>t. f (tr_key t)) (trs (state_of F k)))"
    for f :: "label \<times> label \<times> nat \<Rightarrow> label"
  proof -
    have "image_mset f (mset (map tr_key (trs (state_of G k)))) \<subseteq># image_mset f (mset (map tr_key (trs (state_of F k))))"
      using assms unfolding thins_trs_def by (intro image_mset_subseteq_mono) blast
    then show ?thesis by (simp add: image_mset.compositionality o_def)
  qed
  show "distinct (map ilabel (trs (state_of F k))) \<Longrightarrow> distinct (map ilabel (trs (state_of G k)))"
    using distinct_sub_mset [OF m [of fst]] by (simp add: tr_key_def)
  show "distinct (map olabel (trs (state_of F k))) \<Longrightarrow> distinct (map olabel (trs (state_of G k)))"
    using distinct_sub_mset [OF m [of "fst \<circ> snd"]] by (simp add: tr_key_def)
qed

lemma thins_ex_arc:
  assumes "thins_trs F G"
  fixes P :: "label \<times> label \<times> state_id \<Rightarrow> bool"
  shows "ex_arc G (\<lambda>t. P (tr_key t)) = ex_arc F (\<lambda>t. P (tr_key t))"
  by (rule ex_arc_cong [OF thins_same(1) [OF assms]]) (simp add: thins_key_image [OF assms, of _ P])

lemma thins_sem:
  assumes t: "thins_trs F G"
  shows "q \<in> {Acceptor, Epsilons, IEpsilons, OEpsilons, Cyclic, InitialCyclic, TopSorted, Accessible, Coaccessible}
      \<Longrightarrow> sem W G q = sem W F q"
    and "sem W F IDeterministic \<Longrightarrow> sem W G IDeterministic"
    and "sem W F ODeterministic \<Longrightarrow> sem W G ODeterministic"
proof -
  note ex = thins_ex_arc [OF t, where P = "\<lambda>k. fst k \<noteq> fst (snd k)"]
    thins_ex_arc [OF t, where P = "\<lambda>k. fst k = EPS_LABEL"]
    thins_ex_arc [OF t, where P = "\<lambda>k. fst (snd k) = EPS_LABEL"]
    thins_ex_arc [OF t, where P = "\<lambda>k. fst k = EPS_LABEL \<and> fst (snd k) = EPS_LABEL"]
  note ex = ex [unfolded tr_key_def fst_conv snd_conv]
  show "q \<in> {Acceptor, Epsilons, IEpsilons, OEpsilons, Cyclic, InitialCyclic, TopSorted, Accessible, Coaccessible}
      \<Longrightarrow> sem W G q = sem W F q"
    using ex same_targets_sem [OF thins_same(2) [OF t], of W W] by (cases q) (simp_all only: sem_ex_arc; simp)+
  have n: "num_states G = num_states F" using t by (simp add: thins_trs_def)
  show "sem W F IDeterministic \<Longrightarrow> sem W G IDeterministic" "sem W F ODeterministic \<Longrightarrow> sem W G ODeterministic"
    using thins_distinct [OF t] by (simp_all add: n)
qed

text \<open>The mask \<open>tr_sum\<close> keeps, and what \<open>tr_unique\<close> keeps beyond it.\<close>

lemma thins_sound:
  assumes t: "thins_trs F G" and p: "bits_sound W F p"
  shows "bits_sound W G (p AND fp_arcsort_properties AND fp_delete_arcs_properties AND fp_weight_invariant_properties)"
    and "bits_sound W G (p AND (ACCESSIBLE OR NOT_ACCESSIBLE OR COACCESSIBLE OR NOT_COACCESSIBLE))"
    and "(\<And>k. k < num_states F \<Longrightarrow> set (trs (state_of G k)) \<subseteq> set (trs (state_of F k))) \<Longrightarrow>
      bits_sound W G (p AND fp_arcsort_properties AND fp_delete_arcs_properties)"
proof -
  note s = thins_sem [OF t, where W = W]
  show "bits_sound W G (p AND fp_arcsort_properties AND fp_delete_arcs_properties AND fp_weight_invariant_properties)"
    unfolding and.assoc
    by (rule bits_sound_keep [OF p]; case_tac q; simp add: mask_nums s del: sem.simps)
  show "bits_sound W G (p AND (ACCESSIBLE OR NOT_ACCESSIBLE OR COACCESSIBLE OR NOT_COACCESSIBLE))"
    by (rule bits_sound_keep [OF p]; case_tac q; simp add: flag_bits bit_or_iff s del: sem.simps)
  assume sub: "\<And>k. k < num_states F \<Longrightarrow> set (trs (state_of G k)) \<subseteq> set (trs (state_of F k))"
  have n: "num_states G = num_states F" and f: "ex_final G P = ex_final F P" for P
    using t ex_final_cong [OF thins_same(1) [OF t]] by (simp_all add: thins_trs_def)
  have arcs: "arcs G \<subseteq> arcs F" using sub by (auto simp: arcs_def n)
  have w: "sem W G Weighted \<Longrightarrow> sem W F Weighted"
    unfolding sem_ex_arc f using sub by (auto simp: ex_arc_def n)
  have c: "sem W G WeightedCycles \<Longrightarrow> sem W F WeightedCycles"
    using arcs by (auto simp: same_targets_graph [OF thins_same(2) [OF t]])
  show "bits_sound W G (p AND fp_arcsort_properties AND fp_delete_arcs_properties)"
    unfolding and.assoc
    by (rule bits_sound_keep [OF p]; case_tac q; simp add: mask_nums s w c del: sem.simps)
qed

text \<open>No state, no transition: all the null properties hold.\<close>

lemma empty_sound:
  assumes "num_states F = 0"
  shows "bits_sound W F fp_null_properties"
proof -
  have [simp]: "arcs F = {}" "edges F = {}" using assms by (auto simp: arcs_def edges_def)
  show ?thesis using assms by (simp add: bits_sound_def fprop_all mask_nums cyclic_at_def)
qed

lemma unique_thins: "thins_trs F (F\<lparr>states := map (unique_state W) (states F)\<rparr>)"
proof -
  have "mset (map tr_key (trs (unique_state W st))) \<subseteq># mset (map tr_key (trs st))" for st
  proof -
    have "mset (dedup_by (tr_eq W) (sort_key tr_key (trs st))) \<subseteq># mset (sort_key tr_key (trs st))"
      by (rule subseq_mset [OF dedup_subseq])
    from image_mset_subseteq_mono [OF this, of tr_key] show ?thesis by simp
  qed
  then show ?thesis
    by (simp add: thins_trs_def unique_state_set(2) del: unique_state_simps(2))
qed

lemma tr_unique_eq:
  "tr_unique W F = set_properties_with_mask (F\<lparr>states := map (unique_state W) (states F)\<rparr>)
    (let p = (properties F AND fp_arcsort_properties AND fp_delete_arcs_properties) OR
       (properties F AND (ACCESSIBLE OR NOT_ACCESSIBLE OR COACCESSIBLE OR NOT_COACCESSIBLE))
     in if num_states F = 0 then p OR fp_null_properties else p) all_properties"
  by (simp add: tr_unique_def unique_loop Let_def)

lemma tr_unique_sound: "props_sound W F \<Longrightarrow> props_sound W (tr_unique W F)"
  unfolding tr_unique_eq
proof (rule set_all_properties_sound)
  assume F: "props_sound W F"
  let ?G = "F\<lparr>states := map (unique_state W) (states F)\<rparr>"
  note t = thins_sound [OF unique_thins [of F W] F [unfolded props_sound_def]]
  have "bits_sound W ?G ((properties F AND fp_arcsort_properties AND fp_delete_arcs_properties) OR
      (properties F AND (ACCESSIBLE OR NOT_ACCESSIBLE OR COACCESSIBLE OR NOT_COACCESSIBLE)))"
    using t(2,3) unique_state_set(1) [of W] by (intro bits_sound_or) (auto simp del: unique_state_simps(2))
  then show "bits_sound W ?G (let p = (properties F AND fp_arcsort_properties AND fp_delete_arcs_properties) OR
       (properties F AND (ACCESSIBLE OR NOT_ACCESSIBLE OR COACCESSIBLE OR NOT_COACCESSIBLE))
     in if num_states F = 0 then p OR fp_null_properties else p)"
    using empty_sound [of ?G W] by (auto simp: Let_def)
qed

lemma tr_unique_ok:
  "eps_counts_ok F \<Longrightarrow> eps_counts_ok (tr_unique W F)" "targets_ok F \<Longrightarrow> targets_ok (tr_unique W F)"
proof -
  show "eps_counts_ok F \<Longrightarrow> eps_counts_ok (tr_unique W F)"
    by (auto simp: tr_unique_eq eps_counts_ok_def unique_state_counts)
  show "targets_ok F \<Longrightarrow> targets_ok (tr_unique W F)"
    using same_targets_ok [OF unique_same [of F W]] by (simp add: tr_unique_eq)
qed


subsection \<open>Summing\<close>

text \<open>The loop of \<open>sum_trs_unchecked\<close> as a fold over the sorted list: \<open>t\<close> is the last one kept.\<close>

fun sum_run :: "'w semiring \<Rightarrow> 'w tr \<Rightarrow> 'w tr list \<Rightarrow> nat \<Rightarrow> nat \<Rightarrow> ('w tr list \<times> nat \<times> nat) res" where
  "sum_run W t [] ni no = Inr ([t], ni, no)"
| "sum_run W t (u # us) ni no =
     (if equal_tr u t
      then rbind (runwrap (plus_w W (weight t) (weight u))) (\<lambda>w.
             sum_run W (t\<lparr>weight := w\<rparr>) us
               (if ilabel u = EPS_LABEL then ni - 1 else ni) (if olabel u = EPS_LABEL then no - 1 else no))
      else rbind (sum_run W u us ni no) (\<lambda>(r, ni, no). Inr (t # r, ni, no)))"

lemma sum_loop_run:
  assumes "drop i ts = us" "0 < n" "n \<le> i" "i \<le> length ts"
  shows "case sum_run W (ts ! (n - 1)) us ni no of
      Inl e \<Rightarrow> for_res (sum_step W) [i ..< length ts] (ts, n, ni, no) = Inl e
    | Inr (r, ni', no') \<Rightarrow> \<exists>ts'. for_res (sum_step W) [i ..< length ts] (ts, n, ni, no) =
        Inr (ts', n - 1 + length r, ni', no') \<and> take (n - 1 + length r) ts' = take (n - 1) ts @ r"
  using assms
proof (induction us arbitrary: i ts n ni no)
  case Nil
  then have "i = length ts" by simp
  with Nil show ?case by (auto simp: take_Suc_conv_app_nth [symmetric])
next
  case (Cons u us)
  then have i: "i < length ts" "ts ! i = u" "drop (Suc i) ts = us"
    by (metis drop_all list.distinct(1) not_le_imp_less)
      (metis Cons.prems(1) hd_drop_conv_nth drop_all list.distinct(1) list.sel(1) not_le_imp_less,
       metis Cons.prems(1) drop_Suc list.sel(3) tl_drop)
  then have upt: "[i ..< length ts] = i # [Suc i ..< length ts]" by (simp add: upt_conv_Cons)
  let ?t = "ts ! (n - 1)"
  let ?ni = "if ilabel u = EPS_LABEL then ni - 1 else ni" and ?no = "if olabel u = EPS_LABEL then no - 1 else no"
  show ?case
  proof (cases "equal_tr u ?t")
    case True
    show ?thesis
    proof (cases "runwrap (plus_w W (weight ?t) (weight u))")
      case (Inl e)
      with True i Cons.prems show ?thesis by (simp add: upt sum_step_def)
    next
      case (Inr w)
      let ?ts = "ts[n - 1 := ?t\<lparr>weight := w\<rparr>]"
      obtain ni1 no1 where c: "?ni = ni1" "?no = no1" by blast
      have step: "sum_step W i (ts, n, ni, no) = Inr (?ts, n, ni1, no1)"
        using True Inr i Cons.prems unfolding c [symmetric] by (simp add: sum_step_def Let_def)
      have run: "sum_run W ?t (u # us) ni no = sum_run W (?t\<lparr>weight := w\<rparr>) us ni1 no1"
        using True Inr unfolding c [symmetric] by simp
      have "?ts ! (n - 1) = ?t\<lparr>weight := w\<rparr>" "take (n - 1) ?ts = take (n - 1) ts" "drop (Suc i) ?ts = us"
        using i Cons.prems by auto
      with Cons.IH [of "Suc i" ?ts n ni1 no1] Cons.prems i show ?thesis
        unfolding run upt for_res.simps step rbind_Inr by (auto split: sum.splits prod.splits)
    qed
  next
    case False
    let ?ts = "vec_swap ts n i"
    have step: "sum_step W i (ts, n, ni, no) = Inr (?ts, n + 1, ni, no)"
      using False i Cons.prems by (simp add: sum_step_def)
    have nth: "?ts ! k = (if k = i then ts ! n else if k = n then ts ! i else ts ! k)" for k
      using i Cons.prems by (auto simp: nth_vec_swap)
    have d: "drop (Suc i) ?ts = us" and u: "?ts ! n = u" and tk: "take n ?ts = take (n - 1) ts @ [?t]"
    proof -
      have "drop (Suc i) ?ts = drop (Suc i) ts"
        using i Cons.prems by (intro nth_equalityI) (auto simp: nth)
      with i show "drop (Suc i) ?ts = us" by simp
      show "?ts ! n = u" using i by (auto simp: nth)
      have "take n ?ts = take n ts" using i Cons.prems by (intro nth_equalityI) (auto simp: nth)
      then show "take n ?ts = take (n - 1) ts @ [?t]"
        using i Cons.prems by (cases n) (auto simp: take_Suc_conv_app_nth)
    qed
    have nn: "n = Suc (n - 1)" using Cons.prems by simp
    have run: "sum_run W ?t (u # us) ni no = rbind (sum_run W u us ni no) (\<lambda>(r, ni, no). Inr (?t # r, ni, no))"
      using False by simp
    have IH: "case sum_run W u us ni no of
        Inl e \<Rightarrow> for_res (sum_step W) [Suc i ..< length ts] (?ts, n + 1, ni, no) = Inl e
      | Inr (r, ni', no') \<Rightarrow> \<exists>ts'. for_res (sum_step W) [Suc i ..< length ts] (?ts, n + 1, ni, no) =
          Inr (ts', n + length r, ni', no') \<and> take (n + length r) ts' = take n ?ts @ r"
      using Cons.IH [of "Suc i" ?ts "n + 1" ni no] Cons.prems i d u by (auto split: sum.splits)
    show ?thesis
      unfolding run upt for_res.simps step rbind_Inr
      by (rule sum.exhaust [of "sum_run W u us ni no"])
        (use IH tk Cons.prems(2) in \<open>auto simp: rbind_def\<close>)
  qed
qed

text \<open>What the run computes on a sorted list.\<close>

fun fold_plus :: "'w semiring \<Rightarrow> 'w \<Rightarrow> 'w list \<Rightarrow> 'w res" where
  "fold_plus W w [] = Inr w"
| "fold_plus W w (v # vs) = rbind (runwrap (plus_w W w v)) (\<lambda>x. fold_plus W x vs)"

definition group_sum :: "'w semiring \<Rightarrow> 'w tr list \<Rightarrow> 'w tr \<Rightarrow> bool" where
  "group_sum W ts t \<longleftrightarrow> (\<exists>u us. filter (\<lambda>x. tr_key x = tr_key t) ts = u # us \<and>
     fold_plus W (weight u) (map weight us) = Inr (weight t))"

lemma tr_key_weight [simp]: "tr_key (t\<lparr>weight := w\<rparr>) = tr_key t"
  by (simp add: tr_key_def)

lemma sum_run_keys:
  "sum_run W t us ni no = Inr (r, ni', no') \<Longrightarrow> map tr_key r = remdups_adj (map tr_key (t # us))"
proof (induction us arbitrary: t r ni no)
  case (Cons u us)
  show ?case
  proof (cases "equal_tr u t")
    case True
    with Cons show ?thesis by (fastforce simp: rbind_eq_Inr equal_tr_key)
  next
    case False
    with Cons show ?thesis by (fastforce simp: rbind_eq_Inr equal_tr_key)
  qed
qed simp

lemma sum_run_counts:
  assumes "sum_run W t us ni no = Inr (r, ni', no')"
    and "ni = c + count_ieps (t # us)" "no = d + count_oeps (t # us)"
  shows "ni' = c + count_ieps r \<and> no' = d + count_oeps r"
  using assms
proof (induction us arbitrary: t r ni no c d)
  case Nil
  then show ?case by auto
next
  case (Cons u us)
  show ?case
  proof (cases "equal_tr u t")
    case True
    with Cons.prems(1) obtain w where
      r: "sum_run W (t\<lparr>weight := w\<rparr>) us (if ilabel u = EPS_LABEL then ni - 1 else ni)
        (if olabel u = EPS_LABEL then no - 1 else no) = Inr (r, ni', no')"
      by (auto simp: rbind_eq_Inr)
    show ?thesis
      by (rule Cons.IH [OF r]) (use Cons.prems(2,3) True in \<open>auto simp: equal_tr_def\<close>)
  next
    case False
    with Cons.prems(1) obtain r' where r: "sum_run W u us ni no = Inr (r', ni', no')" "r = t # r'"
      by (auto simp: rbind_eq_Inr)
    from Cons.IH [OF r(1), of "c + count_ieps [t]" "d + count_oeps [t]"] Cons.prems(2,3) r(2)
    show ?thesis by (auto split: if_splits)
  qed
qed

lemma sum_run_groups:
  assumes "sum_run W t us ni no = Inr (r, ni', no')" "sorted (map tr_key (t # us))" "t' \<in> set r"
  shows "group_sum W (t # us) t'"
  using assms
proof (induction us arbitrary: t r ni no)
  case Nil
  then show ?case by (auto simp: group_sum_def)
next
  case (Cons u us)
  show ?case
  proof (cases "equal_tr u t")
    case True
    with Cons.prems(1) obtain w ni1 no1 where w: "runwrap (plus_w W (weight t) (weight u)) = Inr w"
      and r: "sum_run W (t\<lparr>weight := w\<rparr>) us ni1 no1 = Inr (r, ni', no')"
      by (auto simp: rbind_eq_Inr)
    from Cons.IH [OF r] Cons.prems(2,3) have "group_sum W (t\<lparr>weight := w\<rparr> # us) t'" by simp
    then obtain v vs where v: "filter (\<lambda>x. tr_key x = tr_key t') (t\<lparr>weight := w\<rparr> # us) = v # vs"
        "fold_plus W (weight v) (map weight vs) = Inr (weight t')"
      by (auto simp only: group_sum_def)
    have u: "tr_key u = tr_key t" using True by (simp only: equal_tr_key)
    show ?thesis
    proof (cases "tr_key t = tr_key t'")
      case True
      with v u have "filter (\<lambda>x. tr_key x = tr_key t') (t # u # us) = t # u # vs" "weight v = w"
        by auto
      with v(2) w show ?thesis by (simp add: group_sum_def)
    next
      case False
      with v u have "filter (\<lambda>x. tr_key x = tr_key t') (t # u # us) = v # vs" by simp
      with v(2) show ?thesis by (simp add: group_sum_def)
    qed
  next
    case False
    with Cons.prems(1) obtain r' where r: "sum_run W u us ni no = Inr (r', ni', no')" "r = t # r'"
      by (auto simp: rbind_eq_Inr)
    have ne: "tr_key t \<noteq> tr_key u" using False by (simp add: equal_tr_key eq_commute)
    have le: "tr_key t \<le> tr_key u" "\<forall>x \<in> set us. tr_key u \<le> tr_key x" using Cons.prems(2) by simp_all
    have less: "tr_key t < tr_key x" if "x \<in> set (u # us)" for x
    proof -
      have "tr_key u \<le> tr_key x" using le(2) that by auto
      with le(1) ne show ?thesis by (metis order.order_iff_strict order.strict_trans2)
    qed
    have keys: "tr_key ` set r' = tr_key ` set (u # us)"
      using arg_cong [OF sum_run_keys [OF r(1)], of set] by simp
    have less': "tr_key t < tr_key x" if "x \<in> set r'" for x
    proof -
      from that have "tr_key x \<in> tr_key ` set (u # us)" unfolding keys [symmetric] by (rule imageI)
      then obtain z where "z \<in> set (u # us)" "tr_key x = tr_key z" by (rule imageE)
      with less [of z] show ?thesis by simp
    qed
    show ?thesis
    proof (cases "t' \<in> set r'")
      case True
      then have "group_sum W (u # us) t'" using Cons.IH [OF r(1)] Cons.prems(2) by simp
      moreover have "tr_key t \<noteq> tr_key t'" using less' [OF True] by auto
      then have "filter (\<lambda>x. tr_key x = tr_key t') (t # u # us) = filter (\<lambda>x. tr_key x = tr_key t') (u # us)"
        by simp
      ultimately show ?thesis unfolding group_sum_def by (simp only:)
    next
      case False
      with Cons.prems(3) r(2) have t': "t' = t" by simp
      have "filter (\<lambda>x. tr_key x = tr_key t) (u # us) = []"
        using less unfolding filter_empty_conv by fastforce
      then show ?thesis by (simp add: group_sum_def t')
    qed
  qed
qed


lemma distinct_remdups_adj_sorted: "sorted xs \<Longrightarrow> distinct (remdups_adj xs)"
proof (induction xs)
  case (Cons x xs)
  show ?case
  proof (cases "remdups_adj xs")
    case (Cons y ys)
    have y: "set (y # ys) = set xs" "sorted (y # ys)" "distinct (y # ys)"
      using Cons Cons.IH Cons.prems sorted_remdups_adj [of xs] by (metis remdups_adj_set, simp, simp)
    have "x \<le> y" using y(1) Cons.prems by auto
    then have "x \<notin> set (y # ys)" if "x \<noteq> y" using y(2) that by auto
    with y(3) show ?thesis
      by (simp add: remdups_adj_Cons Cons)
  qed (simp add: remdups_adj_Cons)
qed simp

lemma sum_step_first: "xs \<noteq> [] \<Longrightarrow> sum_step W 0 (xs, 0, ni, no) = Inr (xs, 1, ni, no)"
  by (simp add: sum_step_def vec_swap_def list_update_id)

text \<open>What \<open>sum_trs_unchecked\<close> does to one state.\<close>

definition sums_state :: "'w semiring \<Rightarrow> 'w vstate \<Rightarrow> 'w vstate \<Rightarrow> bool" where
  "sums_state W st st' \<longleftrightarrow>
     final_weight st' = final_weight st \<and>
     map tr_key (trs st') = sorted_list_of_set (tr_key ` set (trs st)) \<and>
     (\<forall>t \<in> set (trs st'). group_sum W (trs st) t) \<and>
     (state_counts_ok st \<longrightarrow> state_counts_ok st')"

lemma sum_trs_spec:
  assumes "sum_trs_unchecked W F s = Inr G"
  shows "\<exists>st'. G = with_state F s (\<lambda>_. st') \<and> sums_state W (state_of F s) st'"
proof -
  let ?st = "state_of F s"
  let ?ts = "sort_key tr_key (trs ?st)"
  from assms obtain ts n ni no where
    loop: "for_res (sum_step W) [0 ..< length ?ts] (?ts, 0, niepsilons ?st, noepsilons ?st) = Inr (ts, n, ni, no)"
    and G: "G = with_state F s (\<lambda>st. st\<lparr>trs := take n ts, niepsilons := ni, noepsilons := no\<rparr>)"
    by (auto simp: sum_trs_unchecked_def tr_compare_key Let_def rbind_eq_Inr)
  let ?st' = "?st\<lparr>trs := take n ts, niepsilons := ni, noepsilons := no\<rparr>"
  have "sums_state W ?st ?st'"
  proof (cases ?ts)
    case Nil
    then have "trs ?st = []" by (metis length_0_conv length_sort)
    with Nil loop show ?thesis by (simp add: sums_state_def state_counts_ok_def)
  next
    case (Cons t us)
    then have "0 < length ?ts" by (metis length_greater_0_conv list.distinct(1))
    then have "[0 ..< length ?ts] = 0 # [1 ..< length ?ts]" by (metis One_nat_def upt_conv_Cons)
    with loop Cons have l1: "for_res (sum_step W) [1 ..< length ?ts] (?ts, 1, niepsilons ?st, noepsilons ?st) = Inr (ts, n, ni, no)"
      by (simp only: for_res.simps sum_step_first rbind_Inr list.distinct simp_thms)
    have "case sum_run W t us (niepsilons ?st) (noepsilons ?st) of Inl e \<Rightarrow> False
      | Inr (r, ni', no') \<Rightarrow> take n ts = r \<and> ni = ni' \<and> no = no'"
      using sum_loop_run [of 1 ?ts us 1 W "niepsilons ?st" "noepsilons ?st"] l1 unfolding Cons
      by (auto split: sum.splits)
    then have run: "sum_run W t us (niepsilons ?st) (noepsilons ?st) = Inr (take n ts, ni, no)"
      by (auto split: sum.splits)
    have sorted: "sorted (map tr_key (t # us))"
      unfolding Cons [symmetric] by simp
    have keys: "map tr_key (take n ts) = sorted_list_of_set (tr_key ` set (trs ?st))"
      unfolding sum_run_keys [OF run]
    proof (rule sorted_distinct_set_unique)
      show "sorted (remdups_adj (map tr_key (t # us)))" using sorted by (rule sorted_remdups_adj)
      show "distinct (remdups_adj (map tr_key (t # us)))" using sorted by (rule distinct_remdups_adj_sorted)
      show "set (remdups_adj (map tr_key (t # us))) = set (sorted_list_of_set (tr_key ` set (trs ?st)))"
        unfolding Cons [symmetric] by simp
    qed simp_all
    have grp: "group_sum W (trs ?st) t'" if "t' \<in> set (take n ts)" for t'
    proof -
      have "group_sum W ?ts t'" using sum_run_groups [OF run sorted that] Cons by simp
      then show ?thesis by (simp add: group_sum_def sort_key_stable)
    qed
    have m: "mset (t # us) = mset (trs ?st)" by (metis Cons mset_sort)
    have cnt: "state_counts_ok ?st \<Longrightarrow> state_counts_ok ?st'"
      using sum_run_counts [OF run, of 0 0] count_eps_mset [OF m]
      by (simp add: state_counts_ok_def del: count_eps_simps)
    show ?thesis using keys grp cnt by (simp add: sums_state_def)
  qed
  with G show ?thesis by (auto simp: with_state_def)
qed


lemma sums_state_thin:
  assumes "sums_state W st st'"
  shows "mset (map tr_key (trs st')) \<subseteq># mset (map tr_key (trs st))"
    and "tr_key ` set (trs st') = tr_key ` set (trs st)"
proof -
  have k: "map tr_key (trs st') = sorted_list_of_set (tr_key ` set (trs st))"
    using assms by (simp add: sums_state_def)
  show "tr_key ` set (trs st') = tr_key ` set (trs st)"
    using arg_cong [OF k, of set] by simp
  have "mset (map tr_key (trs st')) = mset_set (tr_key ` set (trs st))"
    unfolding k by (subst mset_set_set [symmetric]) simp_all
  also have "\<dots> \<subseteq># mset (map tr_key (trs st))"
    using mset_set_set_mset_msubset [of "mset (map tr_key (trs st))"] by simp
  finally show "mset (map tr_key (trs st')) \<subseteq># mset (map tr_key (trs st))" .
qed

text \<open>The loop over the states.\<close>

definition sums_fst :: "'w semiring \<Rightarrow> 'w vfst \<Rightarrow> 'w vfst \<Rightarrow> bool" where
  "sums_fst W F G \<longleftrightarrow> num_states G = num_states F \<and> start_state G = start_state F \<and>
     (\<forall>k < num_states F. sums_state W (state_of F k) (state_of G k))"

lemma sum_loop_states:
  assumes "for_res (\<lambda>s F. sum_trs_unchecked W F s) [0 ..< num_states F] F = Inr G"
  shows "sums_fst W F G \<and> properties G = properties F"
proof -
  have "n \<le> num_states F \<Longrightarrow> for_res (\<lambda>s F. sum_trs_unchecked W F s) [0 ..< n] F = Inr G \<Longrightarrow>
      num_states G = num_states F \<and> start_state G = start_state F \<and> properties G = properties F \<and>
      (\<forall>k < num_states F. if k < n then sums_state W (state_of F k) (state_of G k) else state_of G k = state_of F k)"
    for n G
  proof (induction n arbitrary: G)
    case (Suc n)
    from Suc.prems(2) obtain H where H: "for_res (\<lambda>s F. sum_trs_unchecked W F s) [0 ..< n] F = Inr H"
      and G: "sum_trs_unchecked W H n = Inr G"
      by (auto simp: for_res_append rbind_eq_Inr)
    from sum_trs_spec [OF G] obtain st' where
      st: "G = with_state H n (\<lambda>_. st')" "sums_state W (state_of H n) st'" by auto
    from Suc.IH [OF _ H] Suc.prems(1) have IH: "num_states H = num_states F" "start_state H = start_state F"
        "properties H = properties F"
        "\<forall>k < num_states F. if k < n then sums_state W (state_of F k) (state_of H k) else state_of H k = state_of F k"
      by auto
    show ?case
      using st IH Suc.prems(1) by (auto simp: with_state_def nth_upd less_Suc_eq)
  qed simp
  from this [OF order.refl assms] show ?thesis by (simp add: sums_fst_def)
qed

lemma sums_thins: "sums_fst W F G \<Longrightarrow> thins_trs F G"
proof -
  assume s: "sums_fst W F G"
  have "final_weight (state_of G k) = final_weight (state_of F k) \<and>
      mset (map tr_key (trs (state_of G k))) \<subseteq># mset (map tr_key (trs (state_of F k))) \<and>
      tr_key ` set (trs (state_of G k)) = tr_key ` set (trs (state_of F k))" if "k < num_states F" for k
  proof -
    from s that have st: "sums_state W (state_of F k) (state_of G k)" by (simp add: sums_fst_def)
    then have "final_weight (state_of G k) = final_weight (state_of F k)" by (simp add: sums_state_def)
    with sums_state_thin [OF st] show ?thesis by blast
  qed
  with s show "thins_trs F G" by (simp add: sums_fst_def thins_trs_def)
qed

lemma tr_sum_spec:
  assumes "tr_sum W F = Inr G"
  shows "sums_fst W F G" "props_sound W F \<Longrightarrow> props_sound W G"
proof -
  from assms obtain H where H: "for_res (\<lambda>s F. sum_trs_unchecked W F s) [0 ..< num_states F] F = Inr H"
    and G: "G = set_properties_with_mask H
      (let p = properties F AND fp_arcsort_properties AND fp_delete_arcs_properties AND fp_weight_invariant_properties
       in if num_states H = 0 then p OR fp_null_properties else p) all_properties"
    by (auto simp: tr_sum_def rbind_eq_Inr Let_def)
  note h = sum_loop_states [OF H]
  from h G show s: "sums_fst W F G" by (auto simp: sums_fst_def)
  assume F: "props_sound W F"
  have "bits_sound W H (properties F AND fp_arcsort_properties AND fp_delete_arcs_properties AND
      fp_weight_invariant_properties)"
    using thins_sound(1) [OF sums_thins] h F by (auto simp: props_sound_def)
  then show "props_sound W G"
    unfolding G using empty_sound [of H W] by (intro set_all_properties_sound) (auto simp: Let_def)
qed

lemma sums_counts: "sums_fst W F G \<Longrightarrow> eps_counts_ok F \<Longrightarrow> eps_counts_ok G"
  by (simp add: sums_fst_def eps_counts_ok_def sums_state_def all_set_conv_all_nth)

end
