(* ===== verification/Vector_Fst_Steps.thy ===== *)
theory Vector_Fst_Steps
  imports Tr_Sorting
begin

text \<open>
  The invariant of a well-formed transducer, sound property bits, exact epsilon counters and targets in
  range, and that each operation of \<open>VectorFst\<close> keeps it.
\<close>

subsection \<open>Well-formed transducers\<close>

definition fst_ok :: "'w semiring \<Rightarrow> 'w vfst \<Rightarrow> bool" where
  "fst_ok W F \<longleftrightarrow> props_sound W F \<and> eps_counts_ok F \<and> targets_ok F"

subsection \<open>Each operation keeps the invariant\<close>

named_theorems fst_ok_intros \<open>operations that keep a transducer well formed\<close>

lemma fst_okD:
  "fst_ok W F \<Longrightarrow> props_sound W F" "fst_ok W F \<Longrightarrow> eps_counts_ok F" "fst_ok W F \<Longrightarrow> targets_ok F"
  by (simp_all add: fst_ok_def)

lemma subseq_setD: "subseq xs ys \<Longrightarrow> x \<in> set xs \<Longrightarrow> x \<in> set ys"
  by (auto dest: list_emb_set)

lemma targets_with_state:
  assumes "targets_ok F" "\<And>t. t \<in> set (trs (f (state_of F s))) \<Longrightarrow> nextstate t < num_states F"
  shows "targets_ok (with_state F s f)"
  using assms by (auto simp: targets_ok_def with_state_def dest!: set_update_subset_insert [THEN subsetD])

lemma new_ok [fst_ok_intros]: "fst_ok W vfst_new"
  by (simp add: fst_ok_def vfst_new_sound vfst_new_counts vfst_new_targets)

lemma set_start_ok [fst_ok_intros]: "fst_ok W F \<Longrightarrow> set_start F s = Inr G \<Longrightarrow> fst_ok W G"
  by (auto simp: fst_ok_def set_start_def no_state_def set_start_sound set_start_unchecked_def targets_ok_def
      split: if_splits) (use set_start_sound in \<open>fastforce simp: set_start_unchecked_def\<close>)

lemma set_final_ok:
  "fst_ok W F \<Longrightarrow> s < num_states F \<Longrightarrow> fst_ok W (set_final_unchecked W F s w)"
  "fst_ok W F \<Longrightarrow> s < num_states F \<Longrightarrow> fst_ok W (delete_final_weight_unchecked W F s)"
proof -
  assume F: "fst_ok W F" and s: "s < num_states F"
  have "targets_ok (with_state F s f)" if "\<And>st. trs (f st) = trs st" for f
    using fst_okD(3) [OF F] targets_state [OF fst_okD(3) [OF F] s] by (intro targets_with_state) (auto simp: that)
  then show "fst_ok W (set_final_unchecked W F s w)" "fst_ok W (delete_final_weight_unchecked W F s)"
    using F s set_final_sound [of W F s w] delete_final_weight_sound [of W F s] set_final_counts [of F s W]
    by (simp_all add: fst_ok_def set_final_unchecked_def delete_final_weight_unchecked_def Let_def with_state_props)
qed

lemma add_states_ok [fst_ok_intros]: "fst_ok W F \<Longrightarrow> fst_ok W (add_states F n)"
proof -
  assume F: "fst_ok W F"
  have t: "targets_ok (add_states F n)"
    using fst_okD(3) [OF F] by (fastforce simp: targets_ok_def add_states_def vstate_new_def)
  have c: "eps_counts_ok (add_states F n)"
    using add_states_counts [OF fst_okD(2) [OF F]] by (simp add: add_states_def)
  have "props_sound W (add_states F n)"
  proof (cases n)
    case 0
    have "bits_sound W F (properties F AND fp_add_state_properties)"
      using fst_okD(1) [OF F] by (auto simp: props_sound_def)
    with 0 show ?thesis by (simp add: props_sound_def add_states_def add_state_properties_def)
  next
    case (Suc m)
    with add_states_sound [OF fst_okD(1) [OF F], of n] show ?thesis by (simp add: add_states_def)
  qed
  with t c show ?thesis by (simp add: fst_ok_def)
qed

lemma add_state_is_add_states: "fst (add_state F) = add_states F 1"
  by (simp add: add_state_def add_states_def)

lemma add_state_ok [fst_ok_intros]: "fst_ok W F \<Longrightarrow> add_state F = (G, s) \<Longrightarrow> fst_ok W G"
  using add_states_ok [of W F 1] add_state_is_add_states [of F] by simp

lemma add_tr_ok:
  assumes "fst_ok W F" "s < num_states F" "nextstate t < num_states F"
  shows "fst_ok W (add_tr_unchecked W F s t)"
proof -
  have "targets_ok (push_tr F s t)"
    using assms targets_state [OF fst_okD(3) [OF assms(1)] assms(2)]
    by (intro targets_with_state) (auto simp: fst_okD)
  then show ?thesis
    using assms by (simp add: fst_ok_def add_tr_sound add_tr_counts) (simp add: add_tr_unchecked_eq)
qed

lemma pop_trs_ok: "fst_ok W F \<Longrightarrow> s < num_states F \<Longrightarrow> fst_ok W (snd (pop_trs_unchecked F s))"
proof -
  assume F: "fst_ok W F" "s < num_states F"
  then have "targets_ok (with_state F s (\<lambda>st. st\<lparr>trs := [], niepsilons := 0, noepsilons := 0\<rparr>))"
    by (intro targets_with_state) (auto simp: fst_ok_def)
  with F show "fst_ok W (snd (pop_trs_unchecked F s))"
    by (simp add: fst_ok_def delete_trs_sound delete_trs_counts)
      (simp add: pop_trs_unchecked_def with_state_props)
qed

lemma del_trs_ids_ok [fst_ok_intros]:
  assumes "fst_ok W F" "s < num_states F" "sorted_wrt (<) is" "\<forall>i \<in> set is. i < length (trs (state_of F s))"
  shows "fst_ok W (del_trs_id_sorted_unchecked F s is)"
proof -
  have "targets_ok (with_state F s (\<lambda>_. fold del_one_tr (rev is) (state_of F s)))"
    using assms targets_state [OF fst_okD(3) [OF assms(1)] assms(2)]
    by (intro targets_with_state)
      (auto simp: fst_okD fold_del_one_tr dest!: subseq_setD [OF fold_vec_remove_subseq])
  then show ?thesis
    using assms by (simp add: fst_ok_def del_trs_id_sorted_sound del_trs_id_sorted_counts)
      (simp add: del_trs_id_sorted_unchecked_def Let_def with_state_props)
qed


lemma set_trs_ok [fst_ok_intros]:
  assumes "fst_ok W F" "s < num_states F" "trs (state_of F s) = []" "\<forall>t \<in> set ts. nextstate t < num_states F"
  shows "fst_ok W (set_trs_unchecked W F s ts)"
proof -
  have "targets_ok (set_trs_unchecked W F s ts)"
    using assms targets_with_state [of F "\<lambda>st. st\<lparr>trs := ts, niepsilons := ni, noepsilons := no\<rparr>" s for ni no]
    by (auto simp: set_trs_unchecked_def with_state_props fst_okD split: prod.splits)
  then show ?thesis
    using assms set_trs_sound [of W F s ts] by (simp add: fst_ok_def)
qed

lemma del_states_ok [fst_ok_intros]:
  assumes "fst_ok W F" "del_states F ds = Inr G"
  shows "fst_ok W G"
  using assms(1) del_states_Inr [OF assms(2)]
  by (simp add: fst_ok_def deleted_sound deleted_counts deleted_targets)

lemma del_state_ok [fst_ok_intros]:
  assumes "fst_ok W F" "del_state F s = Inr G"
  shows "fst_ok W G"
proof -
  have "fst_ok W (F\<lparr>properties := delete_states_properties (properties F)\<rparr>)"
    using assms(1) by (auto simp: fst_ok_def props_sound_def delete_states_properties_def)
  with assms(2) show ?thesis
    by (auto simp: del_state_def no_state_def split: if_splits intro: del_states_ok)
qed

lemma all_gone_ok [fst_ok_intros]: "fst_ok W (del_all_states F)"
  by (simp add: fst_ok_def del_all_states_sound del_all_states_ok)

lemma tr_sort_fst_ok [fst_ok_intros]: "fst_ok W F \<Longrightarrow> fst_ok W (tr_sort F c)"
  by (simp add: fst_ok_def tr_sort_sound tr_sort_ok)

lemma tr_unique_fst_ok [fst_ok_intros]: "fst_ok W F \<Longrightarrow> fst_ok W (tr_unique W F)"
  by (simp add: fst_ok_def tr_unique_sound tr_unique_ok)

lemma tr_sum_fst_ok [fst_ok_intros]: "fst_ok W F \<Longrightarrow> tr_sum W F = Inr G \<Longrightarrow> fst_ok W G"
  by (simp add: fst_ok_def tr_sum_spec(2)
      sums_counts [OF tr_sum_spec(1)] same_targets_ok [OF thins_same(2) [OF sums_thins [OF tr_sum_spec(1)]]])

lemma symbols_sem:
  "sem W (F\<lparr>isymt := i\<rparr>) q = sem W F q" "sem W (F\<lparr>osymt := i\<rparr>) q = sem W F q"
proof -
  have g [simp]: "arcs (F\<lparr>isymt := i\<rparr>) = arcs F" "arcs (F\<lparr>osymt := i\<rparr>) = arcs F"
    "edges (F\<lparr>isymt := i\<rparr>) = edges F" "edges (F\<lparr>osymt := i\<rparr>) = edges F"
    "is_final_state (F\<lparr>isymt := i\<rparr>) = is_final_state F" "is_final_state (F\<lparr>osymt := i\<rparr>) = is_final_state F"
    by (simp_all add: arcs_def edges_def is_final_state_def [abs_def])
  have r: "start_state (F\<lparr>isymt := i\<rparr>) = start_state F" "start_state (F\<lparr>osymt := i\<rparr>) = start_state F"
    "states (F\<lparr>isymt := i\<rparr>) = states F" "states (F\<lparr>osymt := i\<rparr>) = states F"
    by simp_all
  have [simp]: "accessible_state (F\<lparr>isymt := i\<rparr>) = accessible_state F"
    "accessible_state (F\<lparr>osymt := i\<rparr>) = accessible_state F"
    "coaccessible_state (F\<lparr>isymt := i\<rparr>) = coaccessible_state F"
    "coaccessible_state (F\<lparr>osymt := i\<rparr>) = coaccessible_state F"
    "cyclic_at (F\<lparr>isymt := i\<rparr>) = cyclic_at F" "cyclic_at (F\<lparr>osymt := i\<rparr>) = cyclic_at F"
    "string_state (F\<lparr>isymt := i\<rparr>) = string_state F" "string_state (F\<lparr>osymt := i\<rparr>) = string_state F"
    by (rule ext, simp only: g r accessible_state_def coaccessible_state_def cyclic_at_def string_state_def)+
  show "sem W (F\<lparr>isymt := i\<rparr>) q = sem W F q" "sem W (F\<lparr>osymt := i\<rparr>) q = sem W F q"
    by (cases q; simp)+
qed

lemma symbols_invariants [simp]:
  "props_sound W (F\<lparr>isymt := i\<rparr>) = props_sound W F" "props_sound W (F\<lparr>osymt := i\<rparr>) = props_sound W F"
  "eps_counts_ok (F\<lparr>isymt := i\<rparr>) = eps_counts_ok F" "eps_counts_ok (F\<lparr>osymt := i\<rparr>) = eps_counts_ok F"
  "targets_ok (F\<lparr>isymt := i\<rparr>) = targets_ok F" "targets_ok (F\<lparr>osymt := i\<rparr>) = targets_ok F"
  by (simp_all add: props_sound_def bits_sound_def symbols_sem eps_counts_ok_def targets_ok_def del: sem.simps)

lemma symbols_ok [fst_ok_intros]:
  "fst_ok W F \<Longrightarrow> fst_ok W (F\<lparr>isymt := i\<rparr>)" "fst_ok W F \<Longrightarrow> fst_ok W (F\<lparr>osymt := i\<rparr>)"
  by (simp_all add: fst_ok_def)

end
