(* ===== verification/Tr_Rewriting.thy ===== *)
theory Tr_Rewriting
  imports Vector_Fst_Steps
begin

text \<open>
  Algorithms that rewrite every transition in place: \<open>algorithms/inversion.rs\<close>,
  \<open>projection.rs\<close>, \<open>relabel_pairs.rs\<close>. Each walks the states and, through \<open>TrsIterMut\<close>, the
  transitions of each state.
\<close>

subsection \<open>The two nested loops\<close>

definition iter_loop :: "(nat \<Rightarrow> 'w trs_iter \<Rightarrow> 'w trs_iter) \<Rightarrow> 'w vfst \<Rightarrow> state_id \<Rightarrow> 'w vfst" where
  "iter_loop op F s =
     (let it = tr_iter_unchecked_mut F s in end_borrow F s (fold op [0 ..< iter_len it] it))"

definition states_loop :: "(nat \<Rightarrow> 'w trs_iter \<Rightarrow> 'w trs_iter) \<Rightarrow> 'w vfst \<Rightarrow> 'w vfst" where
  "states_loop op F = fold (\<lambda>s F. iter_loop op F s) [0 ..< num_states F] F"

subsection \<open>Inversion, projection, relabelling\<close>

definition invert_step :: "nat \<Rightarrow> 'w trs_iter \<Rightarrow> 'w trs_iter" where
  "invert_step i it = (let t = it_trs it ! i in set_labels_unchecked it i (olabel t) (ilabel t))"

definition invert :: "'w vfst \<Rightarrow> 'w vfst" where
  "invert F =
     set_properties_with_mask (states_loop invert_step F) (invert_properties (properties F)) all_properties"

fun project_step :: "project_type \<Rightarrow> nat \<Rightarrow> 'w trs_iter \<Rightarrow> 'w trs_iter" where
  "project_step ProjectInput i it = set_olabel_unchecked it i (ilabel (it_trs it ! i))"
| "project_step ProjectOutput i it = set_ilabel_unchecked it i (olabel (it_trs it ! i))"

definition project :: "'w vfst \<Rightarrow> project_type \<Rightarrow> 'w vfst" where
  "project F pt =
     set_properties_with_mask (states_loop (project_step pt) F) (project_properties (properties F) pt)
       all_properties"

text \<open>The pairs become a hash map; a label given twice is an error.\<close>

definition iterator_to_hashmap :: "(label \<times> label) list \<Rightarrow> (label \<rightharpoonup> label) res" where
  "iterator_to_hashmap pairs =
     for_res (\<lambda>(s1, s2) m. case m s1 of
        Some _ \<Rightarrow> Inl (Bail ''State is present twice in the relabeling pairs'')
      | None \<Rightarrow> Inr (m(s1 \<mapsto> s2))) pairs Map.empty"

definition relabel_step ::
  "(label \<rightharpoonup> label) \<Rightarrow> (label \<rightharpoonup> label) \<Rightarrow> nat \<Rightarrow> 'w trs_iter \<Rightarrow> 'w trs_iter" where
  "relabel_step mi mo i it =
     (let t = it_trs it ! i
      in case (mi (ilabel t), mo (olabel t)) of
           (Some il, Some ol) \<Rightarrow> set_labels_unchecked it i il ol
         | (Some il, None) \<Rightarrow> set_ilabel_unchecked it i il
         | (None, Some ol) \<Rightarrow> set_olabel_unchecked it i ol
         | (None, None) \<Rightarrow> it)"

definition relabel_pairs :: "'w vfst \<Rightarrow> (label \<times> label) list \<Rightarrow> (label \<times> label) list \<Rightarrow> 'w vfst res" where
  "relabel_pairs F ipairs opairs =
     rbind (iterator_to_hashmap ipairs) (\<lambda>mi. rbind (iterator_to_hashmap opairs) (\<lambda>mo.
       Inr (states_loop (relabel_step mi mo) F)))"

subsection \<open>What a loop over the transitions does\<close>

definition rewritten :: "('w tr \<Rightarrow> 'w tr) \<Rightarrow> 'w vfst \<Rightarrow> 'w vfst \<Rightarrow> bool" where
  "rewritten f F G \<longleftrightarrow> num_states G = num_states F \<and> start_state G = start_state F \<and>
     isymt G = isymt F \<and> osymt G = osymt F \<and>
     (\<forall>k < num_states F. final_weight (state_of G k) = final_weight (state_of F k) \<and>
        trs (state_of G k) = map f (trs (state_of F k)))"

text \<open>An operation on the iterator that replaces transition \<open>i\<close> by its image, with exact bookkeeping.\<close>

definition rewrites_tr :: "'w semiring \<Rightarrow> ('w tr \<Rightarrow> 'w tr) \<Rightarrow> (nat \<Rightarrow> 'w trs_iter \<Rightarrow> 'w trs_iter) \<Rightarrow> bool" where
  "rewrites_tr W f op \<longleftrightarrow> (\<forall>F s i. s < num_states F \<longrightarrow> i < length (trs (state_of F s)) \<longrightarrow>
     iter_step_ok W F s i (f (trs (state_of F s) ! i)) (op i (tr_iter_unchecked_mut F s)))"

lemma iter_loop_spec:
  fixes F :: "'w vfst" and op f and W :: "'w semiring"
  assumes op: "rewrites_tr W f op" and s: "s < num_states F"
  defines "G \<equiv> iter_loop op F s"
  shows "num_states G = num_states F \<and> start_state G = start_state F \<and> isymt G = isymt F \<and> osymt G = osymt F \<and>
    (\<forall>k < num_states F. final_weight (state_of G k) = final_weight (state_of F k) \<and>
       trs (state_of G k) = (if k = s then map f (trs (state_of F s)) else trs (state_of F k))) \<and>
    (props_sound W F \<longrightarrow> props_sound W G) \<and> (eps_counts_ok F \<longrightarrow> eps_counts_ok G)"
proof -
  let ?ts = "trs (state_of F s)"
  let ?it = "\<lambda>n. fold op [0 ..< n] (tr_iter_unchecked_mut F s)"
  have "it_trs (?it n) = map f (take n ?ts) @ drop n ?ts \<and>
      (props_sound W F \<longrightarrow> props_sound W (end_borrow F s (?it n))) \<and>
      (eps_counts_ok F \<longrightarrow> eps_counts_ok (end_borrow F s (?it n)))" if "n \<le> length ?ts" for n
    using that
  proof (induction n)
    case (Suc n)
    let ?H = "end_borrow F s (?it n)"
    have n: "n < length ?ts" using Suc.prems by simp
    have IH: "it_trs (?it n) = map f (take n ?ts) @ drop n ?ts"
        "props_sound W F \<longrightarrow> props_sound W ?H" "eps_counts_ok F \<longrightarrow> eps_counts_ok ?H"
      using Suc by simp_all
    have H: "s < num_states ?H" "trs (state_of ?H s) = map f (take n ?ts) @ drop n ?ts"
        "tr_iter_unchecked_mut ?H s = ?it n"
      using s IH(1) by (simp_all add: end_borrow_state)
    have nth: "trs (state_of ?H s) ! n = ?ts ! n" and len: "n < length (trs (state_of ?H s))"
      using n by (simp_all add: H nth_append)
    have step: "iter_step_ok W ?H s n (f (?ts ! n)) (op n (?it n))"
      using op H(1,3) nth len by (metis rewrites_tr_def)
    have "it_trs (op n (?it n)) = (map f (take n ?ts) @ drop n ?ts)[n := f (?ts ! n)]"
      using step by (simp add: iter_step_ok_def H(2))
    also have "\<dots> = map f (take (Suc n) ?ts) @ drop (Suc n) ?ts"
      using n by (simp add: list_update_append take_Suc_conv_app_nth Cons_nth_drop_Suc [symmetric])
    finally show ?case
      using iter_step_sound [OF step H(1)] IH by simp
  qed simp
  from this [of "length ?ts"] show ?thesis
    using s by (auto simp: G_def iter_loop_def iter_len_def end_borrow_state Let_def)
qed

lemma states_loop_spec:
  assumes op: "rewrites_tr W f op"
  shows "rewritten f F (states_loop op F)" "props_sound W F \<Longrightarrow> props_sound W (states_loop op F)"
    "eps_counts_ok F \<Longrightarrow> eps_counts_ok (states_loop op F)"
proof -
  let ?G = "\<lambda>n. fold (\<lambda>s F. iter_loop op F s) [0 ..< n] F"
  have "num_states (?G n) = num_states F \<and> start_state (?G n) = start_state F \<and>
      isymt (?G n) = isymt F \<and> osymt (?G n) = osymt F \<and>
      (\<forall>k < num_states F. final_weight (state_of (?G n) k) = final_weight (state_of F k) \<and>
         trs (state_of (?G n) k) = (if k < n then map f (trs (state_of F k)) else trs (state_of F k))) \<and>
      (props_sound W F \<longrightarrow> props_sound W (?G n)) \<and> (eps_counts_ok F \<longrightarrow> eps_counts_ok (?G n))"
    if "n \<le> num_states F" for n
    using that
  proof (induction n)
    case (Suc n)
    then have "n < num_states (?G n)" by simp
    from iter_loop_spec [OF op this] Suc show ?case
      by (auto simp: less_Suc_eq)
  qed simp
  from this [of "num_states F"] show "rewritten f F (states_loop op F)"
    "props_sound W F \<Longrightarrow> props_sound W (states_loop op F)"
    "eps_counts_ok F \<Longrightarrow> eps_counts_ok (states_loop op F)"
    by (simp_all add: rewritten_def states_loop_def)
qed


definition swap_labels :: "'w tr \<Rightarrow> 'w tr" where
  "swap_labels t = t\<lparr>ilabel := olabel t, olabel := ilabel t\<rparr>"

fun project_tr :: "project_type \<Rightarrow> 'w tr \<Rightarrow> 'w tr" where
  "project_tr ProjectInput t = t\<lparr>olabel := ilabel t\<rparr>"
| "project_tr ProjectOutput t = t\<lparr>ilabel := olabel t\<rparr>"

definition apply_map :: "(label \<rightharpoonup> label) \<Rightarrow> label \<Rightarrow> label" where
  "apply_map m l = (case m l of None \<Rightarrow> l | Some l' \<Rightarrow> l')"

definition relabel_tr :: "(label \<rightharpoonup> label) \<Rightarrow> (label \<rightharpoonup> label) \<Rightarrow> 'w tr \<Rightarrow> 'w tr" where
  "relabel_tr mi mo t = t\<lparr>ilabel := apply_map mi (ilabel t), olabel := apply_map mo (olabel t)\<rparr>"

lemma iter_id_ok:
  assumes "s < num_states F" "i < length (trs (state_of F s))"
  shows "iter_step_ok W F s i (trs (state_of F s) ! i) (tr_iter_unchecked_mut F s)"
  by (simp add: iter_step_ok_def props_sound_def state_counts_ok_def)

lemma invert_rewrites: "rewrites_tr W swap_labels invert_step"
  using set_labels_ok unfolding rewrites_tr_def invert_step_def swap_labels_def Let_def by simp blast

lemma project_rewrites: "rewrites_tr W (project_tr pt) (project_step pt)"
  by (cases pt) (simp_all add: rewrites_tr_def set_ilabel_ok set_olabel_ok)

lemma relabel_rewrites: "rewrites_tr W (relabel_tr mi mo) (relabel_step mi mo)"
proof -
  have "iter_step_ok W F s i (relabel_tr mi mo (trs (state_of F s) ! i))
      (relabel_step mi mo i (tr_iter_unchecked_mut F s))"
    if "s < num_states F" "i < length (trs (state_of F s))" for F s i
    using that set_labels_ok [OF that] set_ilabel_ok [OF that] set_olabel_ok [OF that] iter_id_ok [OF that]
    by (simp add: relabel_step_def relabel_tr_def apply_map_def Let_def split: option.splits)
  then show ?thesis by (simp add: rewrites_tr_def)
qed

subsection \<open>Rewriting labels only\<close>

lemma rewritten_same:
  assumes r: "rewritten f F G" and f: "\<And>t. nextstate (f t) = nextstate t"
  shows "same_shape F G" "same_targets F G"
    "k < num_states F \<Longrightarrow> mset (map nextstate (trs (state_of G k))) = mset (map nextstate (trs (state_of F k)))"
  using r f by (auto simp: rewritten_def same_shape_def same_targets_def image_image o_def)

lemma rewritten_ex:
  assumes r: "rewritten f F G"
  shows "ex_arc G P = ex_arc F (\<lambda>t. P (f t))" "ex_final G Q = ex_final F Q"
proof -
  have n: "num_states G = num_states F" using r by (simp add: rewritten_def)
  have "(\<exists>t \<in> set (trs (state_of G k)). P t) \<longleftrightarrow> (\<exists>t \<in> set (trs (state_of F k)). P (f t))"
    "final_weight (state_of G k) = final_weight (state_of F k)" if "k < num_states F" for k
    using r that by (auto simp: rewritten_def)
  then show "ex_arc G P = ex_arc F (\<lambda>t. P (f t))" "ex_final G Q = ex_final F Q"
    unfolding ex_arc_def ex_final_def n by (metis (no_types, lifting))+
qed

text \<open>What relabelling cannot change.\<close>

lemma relabelled_sem:
  assumes r: "rewritten f F G" and f: "\<And>t. nextstate (f t) = nextstate t \<and> weight (f t) = weight t"
  shows "q \<in> {Weighted, Cyclic, InitialCyclic, TopSorted, Accessible, Coaccessible, StringFst, WeightedCycles}
    \<Longrightarrow> sem W G q = sem W F q"
proof -
  note s = rewritten_same [OF r] f
  have n: "nextstate (f t) = nextstate t" for t by (simp add: f)
  have "(\<lambda>t. (nontrivial W (weight t), nextstate t)) ` set (trs (state_of G k)) =
      (\<lambda>t. (nontrivial W (weight t), nextstate t)) ` set (trs (state_of F k))" if "k < num_states F" for k
    using r f that by (auto simp: rewritten_def image_image)
  note w = same_weighted_cycles [OF s(2) [OF n] this]
  note t = same_targets_sem [OF s(2) [OF n], of W W] same_string [OF s(1) [OF n] s(3) [OF n], of W W]
  show "q \<in> {Weighted, Cyclic, InitialCyclic, TopSorted, Accessible, Coaccessible, StringFst, WeightedCycles}
    \<Longrightarrow> sem W G q = sem W F q"
    by (cases q) (simp_all only: t w sem_ex_arc rewritten_ex [OF r] f insert_iff empty_iff fprop.distinct simp_thms)
qed

subsection \<open>Inversion\<close>

lemma invert_spec: "rewritten swap_labels F (states_loop invert_step F)"
  by (rule states_loop_spec(1) [OF invert_rewrites [of undefined]])

lemma invert_sem:
  fixes F :: "'w vfst" and W :: "'w semiring"
  defines "G \<equiv> states_loop invert_step F"
  shows "sem W G Acceptor = sem W F Acceptor"
    "sem W G IDeterministic = sem W F ODeterministic" "sem W G ODeterministic = sem W F IDeterministic"
    "sem W G Epsilons = sem W F Epsilons" "sem W G IEpsilons = sem W F OEpsilons"
    "sem W G OEpsilons = sem W F IEpsilons"
    "sem W G ILabelSorted = sem W F OLabelSorted" "sem W G OLabelSorted = sem W F ILabelSorted"
    "sem W G Weighted = sem W F Weighted" "sem W G Cyclic = sem W F Cyclic"
    "sem W G InitialCyclic = sem W F InitialCyclic" "sem W G TopSorted = sem W F TopSorted"
    "sem W G Accessible = sem W F Accessible" "sem W G Coaccessible = sem W F Coaccessible"
    "sem W G StringFst = sem W F StringFst" "sem W G WeightedCycles = sem W F WeightedCycles"
proof -
  have r: "rewritten swap_labels F G" by (simp add: G_def invert_spec)
  have s: "ilabel (swap_labels t) = olabel t" "olabel (swap_labels t) = ilabel t"
    "nextstate (swap_labels t) = nextstate t" "weight (swap_labels t) = weight t" for t :: "'w tr"
    by (simp_all add: swap_labels_def)
  note keep = relabelled_sem [where W = W, OF r, simplified s, simplified]
  show "sem W G Weighted = sem W F Weighted" "sem W G Cyclic = sem W F Cyclic"
    "sem W G InitialCyclic = sem W F InitialCyclic" "sem W G TopSorted = sem W F TopSorted"
    "sem W G Accessible = sem W F Accessible" "sem W G Coaccessible = sem W F Coaccessible"
    "sem W G StringFst = sem W F StringFst" "sem W G WeightedCycles = sem W F WeightedCycles"
    by (rule relabelled_sem [OF r]; simp add: s)+
  show "sem W G Acceptor = sem W F Acceptor" "sem W G Epsilons = sem W F Epsilons"
    "sem W G IEpsilons = sem W F OEpsilons" "sem W G OEpsilons = sem W F IEpsilons"
    unfolding sem_ex_arc rewritten_ex [OF r] s by (simp_all add: eq_commute conj_commute)
  have m: "map ilabel (trs (state_of G k)) = map olabel (trs (state_of F k))"
    "map olabel (trs (state_of G k)) = map ilabel (trs (state_of F k))" if "k < num_states F" for k
    using r that by (simp_all add: rewritten_def s o_def)
  have n: "num_states G = num_states F" using r by (simp add: rewritten_def)
  show "sem W G IDeterministic = sem W F ODeterministic" "sem W G ODeterministic = sem W F IDeterministic"
    "sem W G ILabelSorted = sem W F OLabelSorted" "sem W G OLabelSorted = sem W F ILabelSorted"
    by (simp_all add: n m)
qed

definition or_if :: "bool \<Rightarrow> fst_props \<Rightarrow> fst_props \<Rightarrow> fst_props" where
  "or_if c a x = (if c then x OR a else x)"

lemma bit_or_if: "bit (or_if c a x) n \<longleftrightarrow> bit x n \<or> c \<and> bit a n"
  by (simp add: or_if_def bit_or_iff)

lemma invert_properties_bits:
  fixes p defines "p' \<equiv> invert_properties p"
  shows "bit p' 16 = bit p 16" "bit p' 17 = bit p 17" "bit p' 18 = bit p 20" "bit p' 19 = bit p 21"
    "bit p' 20 = bit p 18" "bit p' 21 = bit p 19" "bit p' 22 = bit p 22" "bit p' 23 = bit p 23"
    "bit p' 24 = bit p 26" "bit p' 25 = bit p 27" "bit p' 26 = bit p 24" "bit p' 27 = bit p 25"
    "bit p' 28 = bit p 30" "bit p' 29 = bit p 31" "bit p' 30 = bit p 28" "bit p' 31 = bit p 29"
    "bit p' 32 = bit p 32" "bit p' 33 = bit p 33" "bit p' 34 = bit p 34" "bit p' 35 = bit p 35"
    "bit p' 36 = bit p 36" "bit p' 37 = bit p 37" "bit p' 38 = bit p 38" "bit p' 39 = bit p 39"
    "bit p' 40 = bit p 40" "bit p' 41 = bit p 41" "bit p' 42 = bit p 42" "bit p' 43 = bit p 43"
    "bit p' 44 = bit p 44" "bit p' 45 = bit p 45" "bit p' 46 = bit p 46" "bit p' 47 = bit p 47"
  unfolding p'_def invert_properties_def or_if_def [symmetric] contains_flags Let_def
  by (simp_all add: bit_or_if bit_or_iff bit_and_iff flag_bits)

lemma invert_sound: "props_sound W F \<Longrightarrow> props_sound W (invert F)"
  unfolding invert_def
proof (rule set_all_properties_sound)
  assume "props_sound W F"
  then show "bits_sound W (states_loop invert_step F) (invert_properties (properties F))"
    by (simp add: props_sound_def bits_sound_def fprop_all invert_properties_bits invert_sem del: sem.simps)
qed

lemma invert_counts: "eps_counts_ok F \<Longrightarrow> eps_counts_ok (invert F)"
  by (simp add: invert_def states_loop_spec(3) [OF invert_rewrites [of undefined]])

lemma rewritten_targets: "rewritten f F G \<Longrightarrow> (\<And>t. nextstate (f t) = nextstate t) \<Longrightarrow> targets_ok F \<Longrightarrow> targets_ok G"
  using rewritten_same(2) same_targets_ok by blast

lemma invert_targets: "targets_ok F \<Longrightarrow> targets_ok (invert F)"
  using rewritten_targets [OF invert_spec [of F]] by (simp add: invert_def swap_labels_def)

lemma rewritten_set_props [simp]: "rewritten f F (set_properties_with_mask G p m) = rewritten f F G"
  by (simp add: rewritten_def)

lemma invert_rewritten: "rewritten swap_labels F (invert F)"
  by (simp add: invert_def invert_spec)

text \<open>Inverting twice gives the transducer back, up to the property bits.\<close>

lemma state_eq_by_trs:
  assumes "state_counts_ok a" "state_counts_ok b" "final_weight a = final_weight b" "trs a = trs b"
  shows "a = (b :: 'w vstate)"
  using assms by (simp add: state_counts_ok_def)

lemma invert_twice:
  assumes "eps_counts_ok F"
  shows "states (invert (invert F)) = states F"
proof (rule nth_equalityI)
  have r: "rewritten swap_labels F (invert F)" "rewritten swap_labels (invert F) (invert (invert F))"
    by (rule invert_rewritten)+
  then show n: "num_states (invert (invert F)) = num_states F" by (simp add: rewritten_def)
  fix k
  assume "k < num_states (invert (invert F))"
  then have k: "k < num_states F" by (simp add: n)
  have c: "eps_counts_ok (invert (invert F))" by (intro invert_counts assms)
  show "state_of (invert (invert F)) k = state_of F k"
  proof (rule state_eq_by_trs)
    show "state_counts_ok (state_of (invert (invert F)) k)" "state_counts_ok (state_of F k)"
      using eps_counts_state [OF c] eps_counts_state [OF assms] k n by simp_all
    show "final_weight (state_of (invert (invert F)) k) = final_weight (state_of F k)"
      "trs (state_of (invert (invert F)) k) = trs (state_of F k)"
      using r k by (simp_all add: rewritten_def swap_labels_def o_def)
  qed
qed

subsection \<open>Projection\<close>

lemma project_spec: "rewritten (project_tr pt) F (states_loop (project_step pt) F)"
  by (rule states_loop_spec(1) [OF project_rewrites [of undefined]])

lemma project_properties_bits:
  fixes p pt defines "p' \<equiv> project_properties p pt"
  shows "bit p' 16" "\<not> bit p' 17"
    "bit p' 18 \<longleftrightarrow> bit p (case pt of ProjectInput \<Rightarrow> 18 | ProjectOutput \<Rightarrow> 20)"
    "bit p' 19 \<longleftrightarrow> bit p (case pt of ProjectInput \<Rightarrow> 19 | ProjectOutput \<Rightarrow> 21)"
    "bit p' 20 \<longleftrightarrow> bit p (case pt of ProjectInput \<Rightarrow> 18 | ProjectOutput \<Rightarrow> 20)"
    "bit p' 21 \<longleftrightarrow> bit p (case pt of ProjectInput \<Rightarrow> 19 | ProjectOutput \<Rightarrow> 21)"
    "bit p' 22 \<longleftrightarrow> bit p (case pt of ProjectInput \<Rightarrow> 24 | ProjectOutput \<Rightarrow> 26)"
    "bit p' 23 \<longleftrightarrow> bit p (case pt of ProjectInput \<Rightarrow> 25 | ProjectOutput \<Rightarrow> 27)"
    "bit p' 24 \<longleftrightarrow> bit p (case pt of ProjectInput \<Rightarrow> 24 | ProjectOutput \<Rightarrow> 26)"
    "bit p' 25 \<longleftrightarrow> bit p (case pt of ProjectInput \<Rightarrow> 25 | ProjectOutput \<Rightarrow> 27)"
    "bit p' 26 \<longleftrightarrow> bit p (case pt of ProjectInput \<Rightarrow> 24 | ProjectOutput \<Rightarrow> 26)"
    "bit p' 27 \<longleftrightarrow> bit p (case pt of ProjectInput \<Rightarrow> 25 | ProjectOutput \<Rightarrow> 27)"
    "bit p' 28 \<longleftrightarrow> bit p (case pt of ProjectInput \<Rightarrow> 28 | ProjectOutput \<Rightarrow> 30)"
    "bit p' 29 \<longleftrightarrow> bit p (case pt of ProjectInput \<Rightarrow> 29 | ProjectOutput \<Rightarrow> 31)"
    "bit p' 30 \<longleftrightarrow> bit p (case pt of ProjectInput \<Rightarrow> 28 | ProjectOutput \<Rightarrow> 30)"
    "bit p' 31 \<longleftrightarrow> bit p (case pt of ProjectInput \<Rightarrow> 29 | ProjectOutput \<Rightarrow> 31)"
    "bit p' 32 = bit p 32" "bit p' 33 = bit p 33" "bit p' 34 = bit p 34" "bit p' 35 = bit p 35"
    "bit p' 36 = bit p 36" "bit p' 37 = bit p 37" "bit p' 38 = bit p 38" "bit p' 39 = bit p 39"
    "bit p' 40 = bit p 40" "bit p' 41 = bit p 41" "bit p' 42 = bit p 42" "bit p' 43 = bit p 43"
    "bit p' 44 = bit p 44" "bit p' 45 = bit p 45" "bit p' 46 = bit p 46" "bit p' 47 = bit p 47"
  by (cases pt; simp add: p'_def project_properties_def or_if_def [symmetric] Let_def bit_or_if bit_or_iff
      bit_and_iff flag_bits)+

lemma project_sem:
  fixes F :: "'w vfst" and W :: "'w semiring" and pt
  defines "G \<equiv> states_loop (project_step pt) F"
  shows "sem W G Acceptor"
    "sem W G IDeterministic = sem W F (case pt of ProjectInput \<Rightarrow> IDeterministic | ProjectOutput \<Rightarrow> ODeterministic)"
    "sem W G ODeterministic = sem W F (case pt of ProjectInput \<Rightarrow> IDeterministic | ProjectOutput \<Rightarrow> ODeterministic)"
    "sem W G Epsilons = sem W F (case pt of ProjectInput \<Rightarrow> IEpsilons | ProjectOutput \<Rightarrow> OEpsilons)"
    "sem W G IEpsilons = sem W F (case pt of ProjectInput \<Rightarrow> IEpsilons | ProjectOutput \<Rightarrow> OEpsilons)"
    "sem W G OEpsilons = sem W F (case pt of ProjectInput \<Rightarrow> IEpsilons | ProjectOutput \<Rightarrow> OEpsilons)"
    "sem W G ILabelSorted = sem W F (case pt of ProjectInput \<Rightarrow> ILabelSorted | ProjectOutput \<Rightarrow> OLabelSorted)"
    "sem W G OLabelSorted = sem W F (case pt of ProjectInput \<Rightarrow> ILabelSorted | ProjectOutput \<Rightarrow> OLabelSorted)"
    "sem W G Weighted = sem W F Weighted" "sem W G Cyclic = sem W F Cyclic"
    "sem W G InitialCyclic = sem W F InitialCyclic" "sem W G TopSorted = sem W F TopSorted"
    "sem W G Accessible = sem W F Accessible" "sem W G Coaccessible = sem W F Coaccessible"
    "sem W G StringFst = sem W F StringFst" "sem W G WeightedCycles = sem W F WeightedCycles"
proof -
  have r: "rewritten (project_tr pt) F G" by (simp add: G_def project_spec)
  define l :: "'w tr \<Rightarrow> label" where "l = (if pt = ProjectInput then ilabel else olabel)"
  have s: "ilabel (project_tr pt t) = l t" "olabel (project_tr pt t) = l t"
    "nextstate (project_tr pt t) = nextstate t" "weight (project_tr pt t) = weight t" for t :: "'w tr"
    by (cases pt; simp add: l_def)+
  show "sem W G Weighted = sem W F Weighted" "sem W G Cyclic = sem W F Cyclic"
    "sem W G InitialCyclic = sem W F InitialCyclic" "sem W G TopSorted = sem W F TopSorted"
    "sem W G Accessible = sem W F Accessible" "sem W G Coaccessible = sem W F Coaccessible"
    "sem W G StringFst = sem W F StringFst" "sem W G WeightedCycles = sem W F WeightedCycles"
    by (rule relabelled_sem [OF r]; simp add: s)+
  have no: "\<not> ex_arc F (\<lambda>t. False)" by (simp add: ex_arc_def)
  show "sem W G Acceptor"
    unfolding sem_ex_arc rewritten_ex [OF r] s by (simp add: no)
  show "sem W G Epsilons = sem W F (case pt of ProjectInput \<Rightarrow> IEpsilons | ProjectOutput \<Rightarrow> OEpsilons)"
    "sem W G IEpsilons = sem W F (case pt of ProjectInput \<Rightarrow> IEpsilons | ProjectOutput \<Rightarrow> OEpsilons)"
    "sem W G OEpsilons = sem W F (case pt of ProjectInput \<Rightarrow> IEpsilons | ProjectOutput \<Rightarrow> OEpsilons)"
    unfolding sem_ex_arc rewritten_ex [OF r] s by (cases pt; simp add: l_def sem_ex_arc del: sem.simps)+
  have m: "map ilabel (trs (state_of G k)) = map l (trs (state_of F k))"
    "map olabel (trs (state_of G k)) = map l (trs (state_of F k))" if "k < num_states F" for k
    using r that by (simp_all add: rewritten_def s o_def)
  have n: "num_states G = num_states F" using r by (simp add: rewritten_def)
  show "sem W G IDeterministic = sem W F (case pt of ProjectInput \<Rightarrow> IDeterministic | ProjectOutput \<Rightarrow> ODeterministic)"
    "sem W G ODeterministic = sem W F (case pt of ProjectInput \<Rightarrow> IDeterministic | ProjectOutput \<Rightarrow> ODeterministic)"
    "sem W G ILabelSorted = sem W F (case pt of ProjectInput \<Rightarrow> ILabelSorted | ProjectOutput \<Rightarrow> OLabelSorted)"
    "sem W G OLabelSorted = sem W F (case pt of ProjectInput \<Rightarrow> ILabelSorted | ProjectOutput \<Rightarrow> OLabelSorted)"
    by (cases pt; simp add: n m l_def)+
qed

lemma project_sound: "props_sound W F \<Longrightarrow> props_sound W (project F pt)"
  unfolding project_def
proof (rule set_all_properties_sound)
  assume "props_sound W F"
  then show "bits_sound W (states_loop (project_step pt) F) (project_properties (properties F) pt)"
    unfolding props_sound_def bits_sound_def
    by (cases pt) (simp_all add: fprop_all project_properties_bits project_sem del: sem.simps)
qed

lemma project_rewritten: "rewritten (project_tr pt) F (project F pt)"
  by (simp add: project_def project_spec)

lemma project_counts: "eps_counts_ok F \<Longrightarrow> eps_counts_ok (project F pt)"
  by (simp add: project_def states_loop_spec(3) [OF project_rewrites [of undefined]])

subsection \<open>Relabelling\<close>

lemma iterator_to_hashmap_ok:
  "distinct (map fst pairs) \<Longrightarrow> iterator_to_hashmap pairs = Inr (map_of pairs)"
  "\<not> distinct (map fst pairs) \<Longrightarrow>
     iterator_to_hashmap pairs = Inl (Bail ''State is present twice in the relabeling pairs'')"
proof -
  let ?loop = "for_res (\<lambda>(s1, s2) m. case m s1 of
        Some _ \<Rightarrow> Inl (Bail ''State is present twice in the relabeling pairs'')
      | None \<Rightarrow> Inr (m(s1 \<mapsto> s2)))"
  have a: "distinct (map fst pairs) \<Longrightarrow> fst ` set pairs \<inter> dom m = {} \<Longrightarrow> ?loop pairs m = Inr (m ++ map_of pairs)"
    for m :: "label \<rightharpoonup> label"
  proof (induction pairs arbitrary: m)
    case (Cons p pairs)
    obtain x y where p: "p = (x, y)" by (cases p)
    from Cons.prems p have x: "m x = None" "x \<notin> fst ` set pairs" by (auto simp: dom_def)
    then have "map_of pairs x = None" by (simp add: map_of_eq_None_iff)
    then have "m(x \<mapsto> y) ++ map_of pairs = m ++ map_of ((x, y) # pairs)"
      by (auto simp: fun_eq_iff map_add_def split: option.splits)
    moreover have "?loop ((x, y) # pairs) m = ?loop pairs (m(x \<mapsto> y))" using x by simp
    moreover have "?loop pairs (m(x \<mapsto> y)) = Inr (m(x \<mapsto> y) ++ map_of pairs)"
    proof (rule Cons.IH)
      show "distinct (map fst pairs)" using Cons.prems by simp
      have "dom (m(x \<mapsto> y)) = insert x (dom m)" by auto
      then show "fst ` set pairs \<inter> dom (m(x \<mapsto> y)) = {}" using Cons.prems(2) x(2) by simp
    qed
    ultimately show ?case by (simp only: p)
  qed simp
  have b: "\<not> distinct (map fst pairs) \<or> fst ` set pairs \<inter> dom m \<noteq> {} \<Longrightarrow>
      ?loop pairs m = Inl (Bail ''State is present twice in the relabeling pairs'')" for m :: "label \<rightharpoonup> label"
  proof (induction pairs arbitrary: m)
    case (Cons p pairs)
    obtain x y where p: "p = (x, y)" by (cases p)
    show ?case
    proof (cases "m x")
      case None
      with Cons.prems p have "\<not> distinct (map fst pairs) \<or> fst ` set pairs \<inter> dom (m(x \<mapsto> y)) \<noteq> {}"
        by auto
      note IH = Cons.IH [OF this]
      have "?loop ((x, y) # pairs) m = ?loop pairs (m(x \<mapsto> y))" using None by simp
      with IH show ?thesis by (simp only: p)
    qed (simp add: p)
  qed simp
  show "distinct (map fst pairs) \<Longrightarrow> iterator_to_hashmap pairs = Inr (map_of pairs)"
    using a [of Map.empty] by (simp add: iterator_to_hashmap_def)
  show "\<not> distinct (map fst pairs) \<Longrightarrow>
     iterator_to_hashmap pairs = Inl (Bail ''State is present twice in the relabeling pairs'')"
    using b [of Map.empty] by (simp add: iterator_to_hashmap_def)
qed

lemma relabel_pairs_spec:
  assumes "distinct (map fst ipairs)" "distinct (map fst opairs)"
  shows "\<exists>G. relabel_pairs F ipairs opairs = Inr G \<and>
    rewritten (relabel_tr (map_of ipairs) (map_of opairs)) F G \<and>
    (props_sound W F \<longrightarrow> props_sound W G) \<and> (eps_counts_ok F \<longrightarrow> eps_counts_ok G)"
  using states_loop_spec [OF relabel_rewrites [of W "map_of ipairs" "map_of opairs"], of F]
  by (simp add: relabel_pairs_def iterator_to_hashmap_ok assms)

end
