(* ===== verification/Relabel_Tables.thy ===== *)
theory Relabel_Tables
  imports Tr_Rewriting
begin

text \<open>
  \<open>relabel_tables\<close> (\<open>fst_traits/mutable_fst.rs\<close>): each label is read in the old symbol table and replaced by
  the label its symbol has in the new one, on both sides.
\<close>

subsection \<open>The operation\<close>

definition table_or :: "symt option \<Rightarrow> symt option \<Rightarrow> string \<Rightarrow> symt res" where
  "table_or given own msg =
     (case given of Some t \<Rightarrow> Inr t | None \<Rightarrow> (case own of Some t \<Rightarrow> Inr t | None \<Rightarrow> Inl (Bail msg)))"

text \<open>The two lookups of one label; \<open>side\<close> is the word that differs in the messages.\<close>

definition translate_label :: "string \<Rightarrow> symt \<Rightarrow> symt \<Rightarrow> label \<Rightarrow> label res" where
  "translate_label side old new l =
     (case get_symbol old l of
        None \<Rightarrow> Inl (Bail (''Old '' @ side @ '' SymbolTable doesn't contain label''))
      | Some sy \<Rightarrow> (case get_label new sy of
          None \<Rightarrow> Inl (Bail (''New '' @ side @ '' SymbolTable doesn't contain symbol''))
        | Some l' \<Rightarrow> Inr l'))"

definition checked_set :: "unit res \<times> 'w trs_iter \<Rightarrow> 'w trs_iter res" where
  "checked_set r = rbind (fst r) (\<lambda>_. Inr (snd r))"

definition relabel_tables_step :: "symt \<Rightarrow> symt \<Rightarrow> symt \<Rightarrow> symt \<Rightarrow> nat \<Rightarrow> 'w trs_iter \<Rightarrow> 'w trs_iter res" where
  "relabel_tables_step oi ni oo no i it =
     (case iter_get it i of
        None \<Rightarrow> Inl (Panic ''called Option::unwrap() on a None value'')
      | Some t \<Rightarrow>
          rbind (translate_label ''Input'' oi ni (ilabel t)) (\<lambda>il.
          rbind (translate_label ''Output'' oo no (olabel t)) (\<lambda>ol.
          rbind (checked_set (set_ilabel it i il)) (\<lambda>it.
            checked_set (set_olabel it i ol)))))"

definition relabel_tables_state :: "symt \<Rightarrow> symt \<Rightarrow> symt \<Rightarrow> symt \<Rightarrow> state_id \<Rightarrow> 'w vfst \<Rightarrow> 'w vfst res" where
  "relabel_tables_state oi ni oo no s F =
     rbind (tr_iter_mut F s) (\<lambda>it.
     rbind (for_res (relabel_tables_step oi ni oo no) [0 ..< iter_len it] it) (\<lambda>it.
       Inr (end_borrow F s it)))"

definition relabel_tables ::
  "'w vfst \<Rightarrow> symt option \<Rightarrow> symt \<Rightarrow> bool \<Rightarrow> symt option \<Rightarrow> symt \<Rightarrow> bool \<Rightarrow> 'w vfst res" where
  "relabel_tables F old_i ni attach_i old_o no attach_o =
     rbind (table_or old_i (isymt F) ''No input SymbolTable found'') (\<lambda>oi.
     rbind (table_or old_o (osymt F) ''No output SymbolTable found'') (\<lambda>oo.
     rbind (for_res (relabel_tables_state oi ni oo no) [0 ..< num_states F] F) (\<lambda>F.
       let F = snd (take_input_symbols F);
           F = snd (take_output_symbols F);
           F = (if attach_i then set_input_symbols F ni else F);
           F = (if attach_o then set_output_symbols F no else F)
       in Inr F)))"

subsection \<open>The labels both tables know\<close>

definition table_map :: "symt \<Rightarrow> symt \<Rightarrow> label \<rightharpoonup> label" where
  "table_map old new l = (case get_symbol old l of None \<Rightarrow> None | Some sy \<Rightarrow> get_label new sy)"

definition known_tr :: "symt \<Rightarrow> symt \<Rightarrow> symt \<Rightarrow> symt \<Rightarrow> 'w tr \<Rightarrow> bool" where
  "known_tr oi ni oo no t \<longleftrightarrow> table_map oi ni (ilabel t) \<noteq> None \<and> table_map oo no (olabel t) \<noteq> None"

definition table_tr :: "symt \<Rightarrow> symt \<Rightarrow> symt \<Rightarrow> symt \<Rightarrow> 'w tr \<Rightarrow> 'w tr" where
  "table_tr oi ni oo no = relabel_tr (table_map oi ni) (table_map oo no)"

text \<open>What the step does where both labels are known.\<close>

definition table_write :: "symt \<Rightarrow> symt \<Rightarrow> symt \<Rightarrow> symt \<Rightarrow> nat \<Rightarrow> 'w trs_iter \<Rightarrow> 'w trs_iter" where
  "table_write oi ni oo no i it =
     set_olabel_unchecked (set_ilabel_unchecked it i (apply_map (table_map oi ni) (ilabel (it_trs it ! i)))) i
       (apply_map (table_map oo no) (olabel (it_trs it ! i)))"

lemma translate_label_eq:
  "table_map old new l = Some l' \<Longrightarrow> translate_label side old new l = Inr l'"
  "table_map old new l = None \<Longrightarrow> \<exists>msg. translate_label side old new l = Inl (Bail msg)"
  by (auto simp: table_map_def translate_label_def split: option.splits)

lemma table_write_trs:
  "it_trs (table_write oi ni oo no i it) = (it_trs it)[i := table_tr oi ni oo no (it_trs it ! i)]"
  by (cases "i < length (it_trs it)")
    (simp_all add: table_write_def set_olabel_unchecked_def set_ilabel_unchecked_def Let_def iter_put_def
      updt_nieps_def updt_noeps_def table_tr_def relabel_tr_def list_update_beyond)

lemma relabel_tables_step_eq:
  assumes "i < length (it_trs it)"
  shows "known_tr oi ni oo no (it_trs it ! i) \<Longrightarrow>
      relabel_tables_step oi ni oo no i it = Inr (table_write oi ni oo no i it)"
    "\<not> known_tr oi ni oo no (it_trs it ! i) \<Longrightarrow> \<exists>msg. relabel_tables_step oi ni oo no i it = Inl (Bail msg)"
proof -
  have g: "iter_get it i = Some (it_trs it ! i)" using assms by (simp add: iter_get_def)
  have len: "i < iter_len (set_ilabel_unchecked it i l)" for l
    using assms by (simp add: iter_len_def set_ilabel_unchecked_def Let_def iter_put_def updt_nieps_def)
  show "relabel_tables_step oi ni oo no i it = Inr (table_write oi ni oo no i it)"
    if "known_tr oi ni oo no (it_trs it ! i)"
    using that assms len
    by (auto simp: known_tr_def relabel_tables_step_def g translate_label_eq(1) checked_set_def set_ilabel_def
        set_olabel_def iter_len_def table_write_def apply_map_def)
  show "\<exists>msg. relabel_tables_step oi ni oo no i it = Inl (Bail msg)" if "\<not> known_tr oi ni oo no (it_trs it ! i)"
  proof (cases "table_map oi ni (ilabel (it_trs it ! i))")
    case None
    from translate_label_eq(2) [OF None, of "''Input''"] show ?thesis
      by (auto simp: relabel_tables_step_def g)
  next
    case (Some l)
    with that have "table_map oo no (olabel (it_trs it ! i)) = None" by (simp add: known_tr_def)
    from translate_label_eq(2) [OF this, of "''Output''"] show ?thesis
      by (auto simp: relabel_tables_step_def g translate_label_eq(1) [OF Some])
  qed
qed

lemma relabel_tables_loop:
  assumes "m \<le> n" "n \<le> length (it_trs it)"
  shows "(\<forall>j \<in> {m ..< n}. known_tr oi ni oo no (it_trs it ! j)) \<Longrightarrow>
      for_res (relabel_tables_step oi ni oo no) [m ..< n] it = Inr (fold (table_write oi ni oo no) [m ..< n] it)"
    "\<not> (\<forall>j \<in> {m ..< n}. known_tr oi ni oo no (it_trs it ! j)) \<Longrightarrow>
      \<exists>msg. for_res (relabel_tables_step oi ni oo no) [m ..< n] it = Inl (Bail msg)"
proof -
  have "if \<forall>j \<in> {m ..< n}. known_tr oi ni oo no (it_trs it ! j)
      then for_res (relabel_tables_step oi ni oo no) [m ..< n] it = Inr (fold (table_write oi ni oo no) [m ..< n] it)
      else \<exists>msg. for_res (relabel_tables_step oi ni oo no) [m ..< n] it = Inl (Bail msg)"
    using assms
  proof (induction arbitrary: it rule: inc_induct)
    case base
    then show ?case by simp
  next
    case (step k)
    have upt: "[k ..< n] = k # [Suc k ..< n]" using step.hyps by (simp add: upt_conv_Cons)
    have ivl: "{k ..< n} = insert k {Suc k ..< n}" using step.hyps by auto
    have k: "k < length (it_trs it)" using step by simp
    note eq = relabel_tables_step_eq [OF k, of oi ni oo no]
    show ?case
    proof (cases "known_tr oi ni oo no (it_trs it ! k)")
      case True
      let ?it = "table_write oi ni oo no k it"
      have "it_trs ?it ! j = it_trs it ! j" if "j \<in> {Suc k ..< n}" for j
        using that by (simp add: table_write_trs)
      then have "(\<forall>j \<in> {k ..< n}. known_tr oi ni oo no (it_trs it ! j)) \<longleftrightarrow>
          (\<forall>j \<in> {Suc k ..< n}. known_tr oi ni oo no (it_trs ?it ! j))"
        using True by (simp add: ivl)
      with step.IH [of ?it] step.prems show ?thesis
        by (simp add: upt eq(1) [OF True] table_write_trs)
    next
      case False
      with eq(2) show ?thesis by (auto simp: upt ivl)
    qed
  qed
  then show "(\<forall>j \<in> {m ..< n}. known_tr oi ni oo no (it_trs it ! j)) \<Longrightarrow>
      for_res (relabel_tables_step oi ni oo no) [m ..< n] it = Inr (fold (table_write oi ni oo no) [m ..< n] it)"
    "\<not> (\<forall>j \<in> {m ..< n}. known_tr oi ni oo no (it_trs it ! j)) \<Longrightarrow>
      \<exists>msg. for_res (relabel_tables_step oi ni oo no) [m ..< n] it = Inl (Bail msg)"
    by presburger+
qed

definition known_state :: "symt \<Rightarrow> symt \<Rightarrow> symt \<Rightarrow> symt \<Rightarrow> 'w vfst \<Rightarrow> state_id \<Rightarrow> bool" where
  "known_state oi ni oo no F s \<longleftrightarrow> (\<forall>t \<in> set (trs (state_of F s)). known_tr oi ni oo no t)"

lemma relabel_tables_state_eq:
  assumes s: "s < num_states F"
  shows "known_state oi ni oo no F s \<Longrightarrow>
      relabel_tables_state oi ni oo no s F = Inr (iter_loop (table_write oi ni oo no) F s)"
    "\<not> known_state oi ni oo no F s \<Longrightarrow> \<exists>msg. relabel_tables_state oi ni oo no s F = Inl (Bail msg)"
proof -
  let ?n = "length (trs (state_of F s))" and ?it = "tr_iter_unchecked_mut F s"
  have k: "known_state oi ni oo no F s \<longleftrightarrow> (\<forall>j \<in> {0 ..< ?n}. known_tr oi ni oo no (it_trs ?it ! j))"
    by (auto simp: known_state_def all_set_conv_all_nth)
  note loop = relabel_tables_loop [of 0 ?n ?it oi ni oo no, folded k]
  show "relabel_tables_state oi ni oo no s F = Inr (iter_loop (table_write oi ni oo no) F s)"
    if "known_state oi ni oo no F s"
    using loop(1) [OF _ _ that] s
    by (simp add: relabel_tables_state_def tr_iter_mut_def iter_loop_def iter_len_def)
  show "\<exists>msg. relabel_tables_state oi ni oo no s F = Inl (Bail msg)" if "\<not> known_state oi ni oo no F s"
    using loop(2) [OF _ _ that] s by (auto simp: relabel_tables_state_def tr_iter_mut_def iter_len_def)
qed

lemma table_rewrites: "rewrites_tr W (table_tr oi ni oo no) (table_write oi ni oo no)"
  unfolding rewrites_tr_def
proof (intro allI impI)
  fix F :: "'a vfst" and s i
  assume s: "s < num_states F" and i: "i < length (trs (state_of F s))"
  let ?t = "trs (state_of F s) ! i" and ?it = "tr_iter_unchecked_mut F s"
  let ?il = "apply_map (table_map oi ni) (ilabel ?t)" and ?ol = "apply_map (table_map oo no) (olabel ?t)"
  let ?H = "end_borrow F s (set_ilabel_unchecked ?it i ?il)"
  have one: "iter_step_ok W F s i (?t\<lparr>ilabel := ?il\<rparr>) (set_ilabel_unchecked ?it i ?il)"
    by (rule set_ilabel_ok [OF s i])
  have H: "s < num_states ?H" "trs (state_of ?H s) = (trs (state_of F s))[i := ?t\<lparr>ilabel := ?il\<rparr>]"
    using s one by (simp_all add: end_borrow_state iter_step_ok_def)
  have two: "iter_step_ok W ?H s i (?t\<lparr>ilabel := ?il, olabel := ?ol\<rparr>) (table_write oi ni oo no i ?it)"
    using set_olabel_ok [OF H(1), of i W ?ol] i H(2) s by (simp add: table_write_def)
  have p: "props_sound W F \<longrightarrow> props_sound W ?H" using iter_step_sound(1) [OF one s] by simp
  have c: "state_counts_ok (state_of F s) \<longrightarrow> state_counts_ok (state_of ?H s)"
    using one s by (simp add: iter_step_ok_def state_counts_ok_def end_borrow_state)
  show "iter_step_ok W F s i (table_tr oi ni oo no ?t) (table_write oi ni oo no i ?it)"
    using two p c H(2) by (simp add: iter_step_ok_def table_tr_def relabel_tr_def)
qed

lemma relabel_tables_states:
  assumes "n \<le> num_states F"
  shows "(\<forall>s < n. known_state oi ni oo no F s) \<Longrightarrow> for_res (relabel_tables_state oi ni oo no) [0 ..< n] F =
      Inr (fold (\<lambda>s F. iter_loop (table_write oi ni oo no) F s) [0 ..< n] F)"
    "\<not> (\<forall>s < n. known_state oi ni oo no F s) \<Longrightarrow>
      \<exists>msg. for_res (relabel_tables_state oi ni oo no) [0 ..< n] F = Inl (Bail msg)"
proof -
  let ?r = "\<lambda>n. for_res (relabel_tables_state oi ni oo no) [0 ..< n] F"
  let ?G = "\<lambda>n. fold (\<lambda>s F. iter_loop (table_write oi ni oo no) F s) [0 ..< n] F"
  have shape: "num_states (?G n) = num_states F \<and> (\<forall>k < num_states F. n \<le> k \<longrightarrow> trs (state_of (?G n) k) = trs (state_of F k))"
    if "n \<le> num_states F" for n
    using that
  proof (induction n)
    case (Suc n)
    then have "n < num_states (?G n)" by simp
    from iter_loop_spec [OF table_rewrites this] Suc show ?case by auto
  qed simp
  have "if \<forall>s < n. known_state oi ni oo no F s then ?r n = Inr (?G n) else \<exists>msg. ?r n = Inl (Bail msg)"
    using assms(1)
  proof (induction n)
    case (Suc n)
    show ?case
    proof (cases "\<forall>s < n. known_state oi ni oo no F s")
      case True
      then have IH: "?r n = Inr (?G n)" using Suc by simp
      have n: "n < num_states (?G n)" using shape [of n] Suc.prems by simp
      have "known_state oi ni oo no (?G n) n = known_state oi ni oo no F n"
        using shape [of n] Suc.prems by (simp add: known_state_def)
      with relabel_tables_state_eq [OF n, of oi ni oo no] True show ?thesis
        by (auto simp: for_res_append IH less_Suc_eq)
    next
      case False
      with Suc obtain msg where "?r n = Inl (Bail msg)" by auto
      then have "?r (Suc n) = Inl (Bail msg)" by (simp add: for_res_append)
      moreover have "\<not> (\<forall>s < Suc n. known_state oi ni oo no F s)" using False less_SucI by blast
      ultimately show ?thesis by simp
    qed
  qed simp
  then show "(\<forall>s < n. known_state oi ni oo no F s) \<Longrightarrow> ?r n = Inr (?G n)"
    "\<not> (\<forall>s < n. known_state oi ni oo no F s) \<Longrightarrow>
      \<exists>msg. for_res (relabel_tables_state oi ni oo no) [0 ..< n] F = Inl (Bail msg)"
    by presburger+
qed

subsection \<open>The result\<close>

definition known_fst :: "symt \<Rightarrow> symt \<Rightarrow> symt \<Rightarrow> symt \<Rightarrow> 'w vfst \<Rightarrow> bool" where
  "known_fst oi ni oo no F \<longleftrightarrow> (\<forall>(s, t) \<in> arcs F. known_tr oi ni oo no t)"

lemma relabel_tables_spec:
  assumes t: "table_or old_i (isymt F) ''No input SymbolTable found'' = Inr oi"
    "table_or old_o (osymt F) ''No output SymbolTable found'' = Inr oo"
  shows "if known_fst oi ni oo no F
    then \<exists>G. relabel_tables F old_i ni ai old_o no ao = Inr G \<and>
      rewritten (table_tr oi ni oo no)
        (F\<lparr>isymt := if ai then Some ni else None, osymt := if ao then Some no else None\<rparr>) G \<and>
      (props_sound W F \<longrightarrow> props_sound W G) \<and> (eps_counts_ok F \<longrightarrow> eps_counts_ok G)
    else \<exists>msg. relabel_tables F old_i ni ai old_o no ao = Inl (Bail msg)"
proof -
  let ?G = "states_loop (table_write oi ni oo no) F"
  let ?H = "?G\<lparr>isymt := if ai then Some ni else None, osymt := if ao then Some no else None\<rparr>"
  have k: "known_fst oi ni oo no F \<longleftrightarrow> (\<forall>s < num_states F. known_state oi ni oo no F s)"
    by (auto simp: known_fst_def known_state_def arcs_def)
  note loop = relabel_tables_states [of "num_states F" F oi ni oo no, OF le_refl]
  note spec = states_loop_spec [OF table_rewrites [of W oi ni oo no], of F]
  show ?thesis
  proof (cases "known_fst oi ni oo no F")
    case True
    then have "relabel_tables F old_i ni ai old_o no ao = Inr ?H"
      using loop(1) k
      by (simp add: relabel_tables_def t states_loop_def take_input_symbols_def take_output_symbols_def
          set_input_symbols_def set_output_symbols_def)
    moreover have "props_sound W ?H = props_sound W ?G" "eps_counts_ok ?H = eps_counts_ok ?G" by simp_all
    moreover have "rewritten (table_tr oi ni oo no)
        (F\<lparr>isymt := if ai then Some ni else None, osymt := if ao then Some no else None\<rparr>) ?H"
      using spec(1) by (simp add: rewritten_def)
    ultimately show ?thesis using True spec(2,3) by simp
  next
    case False
    then show ?thesis using loop(2) k by (auto simp: relabel_tables_def t)
  qed
qed
end
