(* ===== verification/Tr_Map.thy ===== *)
theory Tr_Map
  imports Tr_Rewriting
begin

text \<open>
  \<open>tr_map\<close> (\<open>algorithms/tr_map.rs\<close>) and the transition mappers of \<open>algorithms/tr_mappers\<close>. A
  mapper is a record of its four trait methods; \<open>QuantizeMapper\<close> rounds floats and is left out.
\<close>

subsection \<open>The trait\<close>

record 'w final_tr =
  fin_ilabel :: label
  fin_olabel :: label
  fin_weight :: 'w

datatype map_final_action = MapNoSuperfinal | MapAllowSuperfinal | MapRequireSuperfinal

record 'w tr_mapper =
  mapper_tr :: "'w tr \<Rightarrow> 'w tr res"
  mapper_final :: "'w final_tr \<Rightarrow> 'w final_tr res"
  mapper_action :: map_final_action
  mapper_properties :: "fst_props \<Rightarrow> fst_props"

subsection \<open>The algorithm\<close>

text \<open>The loop over the transitions of one state; an error of the mapper ends it.\<close>

definition map_trs :: "'w semiring \<Rightarrow> 'w tr_mapper \<Rightarrow> 'w vfst \<Rightarrow> state_id \<Rightarrow> 'w vfst res" where
  "map_trs W m F s =
     (let it = tr_iter_unchecked_mut F s
      in rbind (for_res (\<lambda>idx it.
                 rbind (mapper_tr m (it_trs it ! idx)) (\<lambda>t. Inr (set_tr_unchecked W it idx t)))
               [0 ..< iter_len it] it)
           (\<lambda>it. Inr (end_borrow F s it)))"

text \<open>The treatment of a final weight; the superfinal state may be created here.\<close>

definition map_final ::
  "'w semiring \<Rightarrow> 'w tr_mapper \<Rightarrow> state_id \<Rightarrow> 'w vfst \<times> state_id option \<Rightarrow> ('w vfst \<times> state_id option) res"
where
  "map_final W m s acc =
     (let (F, superfinal) = acc
      in case final_weight (state_of F s) of
        None \<Rightarrow> Inr (F, superfinal)
      | Some w \<Rightarrow>
          rbind (mapper_final m \<lparr>fin_ilabel = EPS_LABEL, fin_olabel = EPS_LABEL, fin_weight = w\<rparr>) (\<lambda>ft.
            case mapper_action m of
              MapNoSuperfinal \<Rightarrow>
                if fin_ilabel ft \<noteq> EPS_LABEL \<or> fin_olabel ft \<noteq> EPS_LABEL
                then Inl (Bail ''TrMap: Non-zero tr labels for superfinal tr'')
                else Inr (set_final_unchecked W F s (fin_weight ft), superfinal)
            | MapAllowSuperfinal \<Rightarrow>
                if Some s \<noteq> superfinal
                then (if fin_ilabel ft \<noteq> EPS_LABEL \<or> fin_olabel ft \<noteq> EPS_LABEL
                      then (let (F, sf) = (case superfinal of
                                  None \<Rightarrow> (let (F, sf) = add_state F
                                           in (set_final_unchecked W F sf (one_w W), sf))
                                | Some sf \<Rightarrow> (F, sf));
                                F = add_tr_unchecked W F s
                                  (tr_new (fin_ilabel ft) (fin_olabel ft) (fin_weight ft) sf)
                            in Inr (delete_final_weight_unchecked W F s, Some sf))
                      else Inr (set_final_unchecked W F s (fin_weight ft), superfinal))
                else Inr (F, superfinal)
            | MapRequireSuperfinal \<Rightarrow>
                if Some s \<noteq> superfinal \<and>
                   (fin_ilabel ft \<noteq> EPS_LABEL \<or> fin_olabel ft \<noteq> EPS_LABEL \<or> \<not> is_zero W (fin_weight ft))
                then (case superfinal of
                        None \<Rightarrow> Inl (Panic ''unwrap on None'')
                      | Some sf \<Rightarrow>
                          Inr (delete_final_weight_unchecked W
                                 (add_tr_unchecked W F s
                                    (tr_new (fin_ilabel ft) (fin_olabel ft) (fin_weight ft) sf)) s,
                               superfinal))
                else Inr (F, superfinal)))"

definition tr_map :: "'w semiring \<Rightarrow> 'w vfst \<Rightarrow> 'w tr_mapper \<Rightarrow> 'w vfst res" where
  "tr_map W F m =
     (if start_state F = None then Inr F
      else
        let inprops = properties F;
            init = (if mapper_action m = MapRequireSuperfinal
                    then (let (F, sf) = add_state F in (set_final_unchecked W F sf (one_w W), Some sf))
                    else (F, None))
        in rbind (for_res (\<lambda>s (F, superfinal).
                     rbind (map_trs W m F s) (\<lambda>F. map_final W m s (F, superfinal)))
                   [0 ..< num_states (fst init)] init)
             (\<lambda>(F, _). Inr (set_properties_with_mask F (mapper_properties m inprops) all_properties)))"

subsection \<open>The mappers\<close>

definition identity_mapper :: "'w tr_mapper" where
  "identity_mapper = \<lparr>mapper_tr = Inr, mapper_final = Inr, mapper_action = MapNoSuperfinal,
     mapper_properties = (\<lambda>p. p)\<rparr>"

definition input_epsilon_mapper :: "'w tr_mapper" where
  "input_epsilon_mapper = \<lparr>
     mapper_tr = (\<lambda>t. Inr (t\<lparr>ilabel := EPS_LABEL\<rparr>)), mapper_final = Inr,
     mapper_action = MapNoSuperfinal,
     mapper_properties = (\<lambda>p. (p AND fp_set_arc_properties) OR I_EPSILONS OR I_LABEL_SORTED)\<rparr>"

definition output_epsilon_mapper :: "'w tr_mapper" where
  "output_epsilon_mapper = \<lparr>
     mapper_tr = (\<lambda>t. Inr (t\<lparr>olabel := EPS_LABEL\<rparr>)), mapper_final = Inr,
     mapper_action = MapNoSuperfinal,
     mapper_properties = (\<lambda>p. (p AND fp_set_arc_properties) OR O_EPSILONS OR O_LABEL_SORTED)\<rparr>"

text \<open>The mappers that change weights only share their shape.\<close>

definition weight_mapper :: "('w \<Rightarrow> 'w res) \<Rightarrow> (fst_props \<Rightarrow> fst_props) \<Rightarrow> 'w tr_mapper" where
  "weight_mapper f props = \<lparr>
     mapper_tr = (\<lambda>t. rbind (f (weight t)) (\<lambda>w. Inr (t\<lparr>weight := w\<rparr>))),
     mapper_final = (\<lambda>ft. rbind (f (fin_weight ft)) (\<lambda>w. Inr (ft\<lparr>fin_weight := w\<rparr>))),
     mapper_action = MapNoSuperfinal,
     mapper_properties = props\<rparr>"

definition plus_mapper :: "'w semiring \<Rightarrow> 'w \<Rightarrow> 'w tr_mapper" where
  "plus_mapper W to_add =
     weight_mapper (\<lambda>w. plus_w W w to_add) (\<lambda>p. p AND fp_weight_invariant_properties)"

definition times_mapper :: "'w semiring \<Rightarrow> 'w \<Rightarrow> 'w tr_mapper" where
  "times_mapper W to_multiply =
     weight_mapper (\<lambda>w. times_w W w to_multiply) (\<lambda>p. p AND fp_weight_invariant_properties)"

definition invert_weight_mapper ::
  "'w semiring \<Rightarrow> ('w \<Rightarrow> 'w \<Rightarrow> divide_type \<Rightarrow> 'w res) \<Rightarrow> 'w tr_mapper" where
  "invert_weight_mapper W dv =
     weight_mapper (\<lambda>w. dv (one_w W) w DivideAny) (\<lambda>p. p AND fp_weight_invariant_properties)"

definition rm_weight_mapper :: "'w semiring \<Rightarrow> 'w tr_mapper" where
  "rm_weight_mapper W =
     weight_mapper (\<lambda>w. Inr (if \<not> is_zero W w then one_w W else w))
       (\<lambda>p. (p AND fp_weight_invariant_properties) OR UNWEIGHTED)"

subsection \<open>Mapping without a superfinal state\<close>

text \<open>The result of a mapper that never fails and never needs a superfinal state.\<close>

definition mapped :: "('w tr \<Rightarrow> 'w tr) \<Rightarrow> ('w \<Rightarrow> 'w) \<Rightarrow> 'w vfst \<Rightarrow> 'w vfst \<Rightarrow> bool" where
  "mapped f g F G \<longleftrightarrow> num_states G = num_states F \<and> start_state G = start_state F \<and>
     isymt G = isymt F \<and> osymt G = osymt F \<and>
     (\<forall>k < num_states F. final_weight (state_of G k) = map_option g (final_weight (state_of F k)) \<and>
        trs (state_of G k) = map f (trs (state_of F k)))"

definition pure_mapper :: "'w tr_mapper \<Rightarrow> ('w tr \<Rightarrow> 'w tr) \<Rightarrow> ('w \<Rightarrow> 'w) \<Rightarrow> bool" where
  "pure_mapper m f g \<longleftrightarrow> mapper_action m = MapNoSuperfinal \<and> (\<forall>t. mapper_tr m t = Inr (f t)) \<and>
     (\<forall>w. mapper_final m \<lparr>fin_ilabel = EPS_LABEL, fin_olabel = EPS_LABEL, fin_weight = w\<rparr> =
        Inr \<lparr>fin_ilabel = EPS_LABEL, fin_olabel = EPS_LABEL, fin_weight = g w\<rparr>)"

lemma map_trs_pure:
  assumes "\<And>t. mapper_tr m t = Inr (f t)" "s < num_states F"
  shows "map_trs W m F s = Inr (iter_loop (\<lambda>i it. set_tr_unchecked W it i (f (it_trs it ! i))) F s)"
proof -
  let ?op = "\<lambda>i it. set_tr_unchecked W it i (f (it_trs it ! i))"
  have "for_res (\<lambda>idx it. rbind (mapper_tr m (it_trs it ! idx)) (\<lambda>t. Inr (set_tr_unchecked W it idx t))) is it =
      Inr (fold ?op is it)" for "is" it
    by (rule for_res_total) (simp add: assms(1))
  then show ?thesis by (simp add: map_trs_def iter_loop_def Let_def)
qed

lemma map_rewrites: "rewrites_tr W f (\<lambda>i it. set_tr_unchecked W it i (f (it_trs it ! i)))"
  by (simp add: rewrites_tr_def set_tr_ok)

lemma set_final_unchecked_simps [simp]:
  "num_states (set_final_unchecked W F s w) = num_states F"
  "start_state (set_final_unchecked W F s w) = start_state F"
  "isymt (set_final_unchecked W F s w) = isymt F" "osymt (set_final_unchecked W F s w) = osymt F"
  "k < num_states F \<Longrightarrow> trs (state_of (set_final_unchecked W F s w) k) = trs (state_of F k)"
  "k < num_states F \<Longrightarrow> final_weight (state_of (set_final_unchecked W F s w) k) =
     (if k = s then Some w else final_weight (state_of F k))"
  by (simp_all add: set_final_unchecked_def with_state_def nth_upd Let_def)

lemma tr_map_pure:
  fixes F :: "'w vfst"
  assumes m: "pure_mapper m f g" and start: "start_state F \<noteq> None"
  shows "\<exists>G. tr_map W F m = Inr (set_properties_with_mask G (mapper_properties m (properties F)) all_properties) \<and>
    mapped f g F G \<and> (eps_counts_ok F \<longrightarrow> eps_counts_ok G)"
proof -
  let ?step = "\<lambda>s (F, superfinal). rbind (map_trs W m F s) (\<lambda>F. map_final W m s (F, superfinal))"
  let ?it = "\<lambda>F s. iter_loop (\<lambda>i it. set_tr_unchecked W it i (f (it_trs it ! i))) F s"
  have step: "\<exists>G. ?step s (H, None) = Inr (G, None) \<and> num_states G = num_states H \<and> start_state G = start_state H \<and>
      isymt G = isymt H \<and> osymt G = osymt H \<and> (eps_counts_ok H \<longrightarrow> eps_counts_ok G) \<and>
      (\<forall>k < num_states H. final_weight (state_of G k) =
          (if k = s then map_option g (final_weight (state_of H k)) else final_weight (state_of H k)) \<and>
        trs (state_of G k) = (if k = s then map f (trs (state_of H k)) else trs (state_of H k)))"
    if s: "s < num_states H" for s and H :: "'w vfst"
  proof -
    note it = iter_loop_spec [OF map_rewrites [of W f] s]
    have m': "map_trs W m H s = Inr (?it H s)"
      using m by (intro map_trs_pure [OF _ s]) (simp add: pure_mapper_def)
    show ?thesis
    proof (cases "final_weight (state_of H s)")
      case None
      with it s m' show ?thesis
        by (intro exI [of _ "?it H s"]) (auto simp: map_final_def)
    next
      case (Some w)
      let ?G = "set_final_unchecked W (?it H s) s (g w)"
      have "?step s (H, None) = Inr (?G, None)"
        using Some it s m m' by (simp add: map_final_def pure_mapper_def)
      with Some it s show ?thesis
        by (intro exI [of _ ?G]) (simp add: set_final_counts)
    qed
  qed
  have "n \<le> num_states F \<Longrightarrow> \<exists>G. for_res ?step [0 ..< n] (F, None) = Inr (G, None) \<and>
      num_states G = num_states F \<and> start_state G = start_state F \<and>
      isymt G = isymt F \<and> osymt G = osymt F \<and> (eps_counts_ok F \<longrightarrow> eps_counts_ok G) \<and>
      (\<forall>k < num_states F. final_weight (state_of G k) =
          (if k < n then map_option g (final_weight (state_of F k)) else final_weight (state_of F k)) \<and>
        trs (state_of G k) = (if k < n then map f (trs (state_of F k)) else trs (state_of F k)))" for n
  proof (induction n)
    case (Suc n)
    then obtain H where H: "for_res ?step [0 ..< n] (F, None) = Inr (H, None)"
      "num_states H = num_states F" "start_state H = start_state F" "isymt H = isymt F" "osymt H = osymt F"
      "eps_counts_ok F \<longrightarrow> eps_counts_ok H"
      "\<forall>k < num_states F. final_weight (state_of H k) =
          (if k < n then map_option g (final_weight (state_of F k)) else final_weight (state_of F k)) \<and>
        trs (state_of H k) = (if k < n then map f (trs (state_of F k)) else trs (state_of F k))"
      by auto
    have "n < num_states H" using Suc.prems H(2) by simp
    from step [OF this] obtain G where G: "?step n (H, None) = Inr (G, None)"
      "num_states G = num_states H" "start_state G = start_state H" "isymt G = isymt H" "osymt G = osymt H"
      "eps_counts_ok H \<longrightarrow> eps_counts_ok G"
      "\<forall>k < num_states H. final_weight (state_of G k) =
          (if k = n then map_option g (final_weight (state_of H k)) else final_weight (state_of H k)) \<and>
        trs (state_of G k) = (if k = n then map f (trs (state_of H k)) else trs (state_of H k))"
      by blast
    have "for_res ?step [0 ..< Suc n] (F, None) = Inr (G, None)"
      using H(1) G(1) by (simp add: for_res_append)
    with G H show ?case
      by (intro exI [of _ G]) (simp add: less_Suc_eq)
  qed simp
  from this [of "num_states F"] obtain G where "for_res ?step [0 ..< num_states F] (F, None) = Inr (G, None)"
    "mapped f g F G" "eps_counts_ok F \<longrightarrow> eps_counts_ok G"
    by (auto simp: mapped_def)
  with m start show ?thesis
    by (intro exI [of _ G]) (auto simp: tr_map_def pure_mapper_def)
qed


subsection \<open>Mapping weights\<close>

lemma mapped_same:
  assumes r: "mapped f g F G" and f: "\<And>t. nextstate (f t) = nextstate t"
  shows "same_shape F G" "same_targets F G"
    "k < num_states F \<Longrightarrow> mset (map nextstate (trs (state_of G k))) = mset (map nextstate (trs (state_of F k)))"
  using r f by (auto simp: mapped_def same_shape_def same_targets_def image_image o_def)

lemma mapped_ex:
  assumes r: "mapped f g F G"
  shows "ex_arc G P = ex_arc F (\<lambda>t. P (f t))"
proof -
  have n: "num_states G = num_states F" using r by (simp add: mapped_def)
  have "(\<exists>t \<in> set (trs (state_of G k)). P t) \<longleftrightarrow> (\<exists>t \<in> set (trs (state_of F k)). P (f t))"
    if "k < num_states F" for k
    using r that by (auto simp: mapped_def)
  then show "ex_arc G P = ex_arc F (\<lambda>t. P (f t))"
    unfolding ex_arc_def n by (metis (no_types, lifting))
qed

lemma mapped_final_weights:
  assumes "mapped f g F G" "k < num_states G" "final_weight (state_of G k) = Some w"
  shows "\<exists>v. w = g v"
  using assms by (auto simp: mapped_def)

text \<open>What a change of weights cannot affect.\<close>

lemma reweighted_sem:
  assumes r: "mapped f g F G"
    and f: "\<And>t. nextstate (f t) = nextstate t \<and> ilabel (f t) = ilabel t \<and> olabel (f t) = olabel t"
    and q: "q \<notin> {Weighted, WeightedCycles}"
  shows "sem W G q = sem W F q"
proof -
  have n: "nextstate (f t) = nextstate t" for t by (simp add: f)
  have f': "ilabel (f t) = ilabel t" "olabel (f t) = olabel t" for t by (simp_all add: f)
  note s = mapped_same [OF r n]
  note t = same_targets_sem [OF s(2), of W W] same_string [OF s(1) s(3), of W W]
  have m: "num_states G = num_states F"
    "k < num_states F \<Longrightarrow> map ilabel (trs (state_of G k)) = map ilabel (trs (state_of F k))"
    "k < num_states F \<Longrightarrow> map olabel (trs (state_of G k)) = map olabel (trs (state_of F k))" for k
    using r f by (simp_all add: mapped_def o_def)
  have d: "sem W G IDeterministic = sem W F IDeterministic" "sem W G ODeterministic = sem W F ODeterministic"
    "sem W G ILabelSorted = sem W F ILabelSorted" "sem W G OLabelSorted = sem W F OLabelSorted"
    by (simp_all add: m)
  have e: "sem W G Acceptor = sem W F Acceptor" "sem W G Epsilons = sem W F Epsilons"
    "sem W G IEpsilons = sem W F IEpsilons" "sem W G OEpsilons = sem W F OEpsilons"
    by (simp_all only: sem_ex_arc mapped_ex [OF r] f')
  show ?thesis
    using q by (cases q) (simp_all only: t d e insert_iff simp_thms)
qed

lemma reweighted_sound:
  assumes "mapped f g F G"
    and "\<And>t. nextstate (f t) = nextstate t \<and> ilabel (f t) = ilabel t \<and> olabel (f t) = olabel t"
    and "bits_sound W F p"
  shows "bits_sound W G (p AND fp_weight_invariant_properties)"
  by (rule bits_sound_keep [OF assms(3)]; case_tac q;
      simp add: mask_nums reweighted_sem [OF assms(1,2)] del: sem.simps)

lemma weight_mapper_pure:
  assumes "\<And>w. f w = Inr (h w)"
  shows "pure_mapper (weight_mapper f props) (\<lambda>t. t\<lparr>weight := h (weight t)\<rparr>) h"
  by (simp add: pure_mapper_def weight_mapper_def assms)

text \<open>Adding a constant, multiplying by one, inverting: any total weight mapper is sound.\<close>

lemma weight_mapper_sound:
  assumes "props_sound W F" "\<And>w. f w = Inr (h w)"
  shows "\<exists>G. tr_map W F (weight_mapper f (\<lambda>p. p AND fp_weight_invariant_properties)) = Inr G \<and> props_sound W G \<and>
    (start_state F \<noteq> None \<longrightarrow> mapped (\<lambda>t. t\<lparr>weight := h (weight t)\<rparr>) h F G)"
proof (cases "start_state F")
  case None
  with assms(1) show ?thesis by (simp add: tr_map_def)
next
  case (Some i)
  let ?m = "weight_mapper f (\<lambda>p. p AND fp_weight_invariant_properties)"
  obtain G where G: "tr_map W F ?m = Inr (set_properties_with_mask G (mapper_properties ?m (properties F)) all_properties)"
    "mapped (\<lambda>t. t\<lparr>weight := h (weight t)\<rparr>) h F G"
    using tr_map_pure [OF weight_mapper_pure [of f h], OF assms(2)] Some by blast
  have "bits_sound W G (properties F AND fp_weight_invariant_properties)"
    using assms(1) by (intro reweighted_sound [OF G(2)]) (simp_all add: props_sound_def)
  then have "props_sound W (set_properties_with_mask G (properties F AND fp_weight_invariant_properties) all_properties)"
    by (rule set_all_properties_sound)
  with G show ?thesis by (simp add: weight_mapper_def mapped_def)
qed

lemma rm_weight_mapper_sound:
  assumes "props_sound W F" "eq_w W (one_w W) (one_w W)"
  shows "\<exists>G. tr_map W F (rm_weight_mapper W) = Inr G \<and> (start_state F \<noteq> None \<longrightarrow> props_sound W G \<and> \<not> sem W G Weighted)"
proof (cases "start_state F")
  case None
  then show ?thesis by (simp add: tr_map_def)
next
  case (Some i)
  let ?h = "\<lambda>w. if \<not> is_zero W w then one_w W else w"
  let ?m = "rm_weight_mapper W"
  obtain G where G: "tr_map W F ?m = Inr (set_properties_with_mask G (mapper_properties ?m (properties F)) all_properties)"
    "mapped (\<lambda>t. t\<lparr>weight := ?h (weight t)\<rparr>) ?h F G"
    using tr_map_pure [OF weight_mapper_pure [OF refl, where h = ?h], of F W
        "\<lambda>p. (p AND fp_weight_invariant_properties) OR UNWEIGHTED"] Some
    unfolding rm_weight_mapper_def by auto
  have trivial: "\<not> nontrivial W (?h w)" for w
    using assms(2) by (simp add: nontrivial_def is_one_def)
  have "\<not> ex_arc G (\<lambda>t. nontrivial W (weight t))"
    unfolding mapped_ex [OF G(2)] using trivial by (simp add: ex_arc_def)
  moreover have "\<not> ex_final G (nontrivial W)"
    using mapped_final_weights [OF G(2)] trivial by (fastforce simp: ex_final_def)
  ultimately have w: "\<not> sem W G Weighted" by (simp only: sem_ex_arc simp_thms)
  then have u: "bits_sound W G UNWEIGHTED"
    by (simp add: bits_sound_def fprop_all flag_bits del: sem.simps)
  have "bits_sound W G (properties F AND fp_weight_invariant_properties)"
    using assms(1) by (intro reweighted_sound [OF G(2)]) (simp_all add: props_sound_def)
  with u have "props_sound W (set_properties_with_mask G
      ((properties F AND fp_weight_invariant_properties) OR UNWEIGHTED) all_properties)"
    by (intro set_all_properties_sound bits_sound_or)
  moreover have "\<not> sem W (set_properties_with_mask G p all_properties) Weighted" for p
    using w by (simp add: set_properties_with_mask_def del: sem.simps)
  ultimately show ?thesis
    using G by (simp add: rm_weight_mapper_def weight_mapper_def del: sem.simps)
qed

text \<open>
  \<open>InputEpsilonMapper\<close> claims \<open>I_EPSILONS\<close>, an input epsilon somewhere, of every result: this holds only
  if the transducer has a transition.
\<close>

lemma input_epsilon_mapper_sound:
  fixes F :: "'w vfst"
  assumes "arcs F \<noteq> {}" "start_state F \<noteq> None"
  shows "\<exists>G. tr_map W F input_epsilon_mapper = Inr G \<and> props_sound W G"
proof -
  let ?f = "\<lambda>t :: 'w tr. t\<lparr>ilabel := EPS_LABEL\<rparr>" and ?m = "input_epsilon_mapper :: 'w tr_mapper"
  have "pure_mapper ?m ?f (\<lambda>w. w)" by (simp add: pure_mapper_def input_epsilon_mapper_def)
  from tr_map_pure [OF this assms(2), of W] obtain G where
    G: "tr_map W F ?m = Inr (set_properties_with_mask G (mapper_properties ?m (properties F)) all_properties)"
      "mapped ?f (\<lambda>w. w) F G" by (elim exE conjE) (rule that; assumption)
  have "ex_arc G (\<lambda>t. ilabel t = EPS_LABEL)"
    unfolding mapped_ex [OF G(2)] using assms(1) by (auto simp: ex_arc_def arcs_def) (metis last_in_set)
  then have "sem W G IEpsilons" by (simp only: sem_ex_arc)
  moreover have "sem W G ILabelSorted"
    using G(2) by (simp add: mapped_def o_def sorted_iff_nth_mono)
  ultimately have "bits_sound W G (I_EPSILONS OR I_LABEL_SORTED)"
    by (simp add: bits_sound_def fprop_all flag_bits bit_or_iff del: sem.simps)
  then have "props_sound W (set_properties_with_mask G (I_EPSILONS OR I_LABEL_SORTED) all_properties)"
    by (rule set_all_properties_sound)
  with G show ?thesis by (simp add: input_epsilon_mapper_def fp_set_arc_properties_def)
qed

end
