(* ===== verification/Path_Semantics.thy ===== *)
theory Path_Semantics
  imports Tr_Map
begin

text \<open>
  The transduction a transducer computes: which pairs of label strings it relates and with which
  weights. This is the specification the algorithms on whole transducers are proved against; an
  epsilon label contributes nothing to its string.
\<close>

subsection \<open>Accepting paths\<close>

definition final_at :: "'w vfst \<Rightarrow> state_id \<Rightarrow> 'w \<Rightarrow> bool" where
  "final_at F s w \<longleftrightarrow> s < num_states F \<and> final_weight (state_of F s) = Some w"

definition ext_label :: "label \<Rightarrow> label list \<Rightarrow> label list" where
  "ext_label l xs = (if l = EPS_LABEL then xs else l # xs)"

lemma ext_label_simps [simp]:
  "ext_label EPS_LABEL xs = xs" "ext_label l xs @ ys = ext_label l (xs @ ys)"
  by (simp_all add: ext_label_def)

inductive accepts :: "('w \<Rightarrow> 'w \<Rightarrow> 'w) \<Rightarrow> 'w vfst \<Rightarrow> state_id \<Rightarrow> label list \<Rightarrow> label list \<Rightarrow> 'w \<Rightarrow> bool"
  for mul F where
  acc_final: "final_at F s w \<Longrightarrow> accepts mul F s [] [] w"
| acc_arc: "(s, t) \<in> arcs F \<Longrightarrow> accepts mul F (nextstate t) x y w \<Longrightarrow>
    accepts mul F s (ext_label (ilabel t) x) (ext_label (olabel t) y) (mul (weight t) w)"

definition transduces :: "('w \<Rightarrow> 'w \<Rightarrow> 'w) \<Rightarrow> 'w vfst \<Rightarrow> label list \<Rightarrow> label list \<Rightarrow> 'w \<Rightarrow> bool" where
  "transduces mul F x y w \<longleftrightarrow> (\<exists>i. start_state F = Some i \<and> accepts mul F i x y w)"

inductive_cases acc_elim: "accepts mul F s x y w"

lemma acc_eps:
  "(s, t) \<in> arcs F \<Longrightarrow> ilabel t = EPS_LABEL \<Longrightarrow> olabel t = EPS_LABEL \<Longrightarrow> accepts mul F (nextstate t) x y w \<Longrightarrow>
   accepts mul F s x y (mul (weight t) w)"
  using acc_arc [of s t F mul x y w] by simp

lemma acc_in_range: "accepts mul F s x y w \<Longrightarrow> s < num_states F"
  by (induction rule: accepts.induct) (auto simp: final_at_def arcs_def)

subsection \<open>Simulations\<close>

text \<open>
  If the transitions of \<open>F\<close> are found in \<open>G\<close> under a renaming of states, a path of \<open>F\<close> continues in \<open>G\<close>
  with whatever \<open>G\<close> accepts from the images of the final states. The transitions may be relabelled.
\<close>

lemma acc_sim:
  assumes "accepts mul F s x y w"
    and arc: "\<And>s t. (s, t) \<in> arcs F \<Longrightarrow> \<exists>u. (h s, u) \<in> arcs G \<and> ilabel u = ilabel t \<and> olabel u = olabel t \<and>
        weight u = weight t \<and> nextstate u = h (nextstate t)"
    and fin: "\<And>s w. final_at F s w \<Longrightarrow> accepts mul G (h s) x' y' (g w)"
    and g: "\<And>a b. g (mul a b) = mul a (g b)"
  shows "accepts mul G (h s) (x @ x') (y @ y') (g w)"
  using assms(1)
proof (induction rule: accepts.induct)
  case (acc_final s w)
  with fin show ?case by simp
next
  case (acc_arc s t x y w)
  from arc [OF acc_arc.hyps(1)] obtain u where u: "(h s, u) \<in> arcs G" "ilabel u = ilabel t"
    "olabel u = olabel t" "weight u = weight t" "nextstate u = h (nextstate t)" by blast
  from accepts.acc_arc [OF u(1), of mul "x @ x'" "y @ y'" "g w"] acc_arc.IH u show ?case
    by (simp add: g)
qed

lemma acc_embed:
  assumes "accepts mul F s x y w"
    and "\<And>s t. (s, t) \<in> arcs F \<Longrightarrow> \<exists>u. (h s, u) \<in> arcs G \<and> ilabel u = ilabel t \<and> olabel u = olabel t \<and>
        weight u = weight t \<and> nextstate u = h (nextstate t)"
    and "\<And>s w. final_at F s w \<Longrightarrow> final_at G (h s) w"
  shows "accepts mul G (h s) x y w"
  using acc_sim [where x' = "[]" and y' = "[]" and g = "\<lambda>w. w" and h = h and G = G, OF assms(1,2)] assms(3)
  by (simp add: accepts.acc_final)

text \<open>The part of \<open>G\<close> that a renaming reaches accepts exactly what \<open>F\<close> accepts.\<close>

definition copy_of :: "(state_id \<Rightarrow> state_id) \<Rightarrow> 'w vfst \<Rightarrow> 'w vfst \<Rightarrow> bool" where
  "copy_of h F G \<longleftrightarrow> (\<forall>s < num_states F. h s < num_states G \<and>
     final_weight (state_of G (h s)) = final_weight (state_of F s) \<and>
     trs (state_of G (h s)) = map (\<lambda>t. t\<lparr>nextstate := h (nextstate t)\<rparr>) (trs (state_of F s)))"

lemma copy_of_acc:
  assumes c: "copy_of h F G" and t: "targets_ok F" and s: "s < num_states F"
  shows "accepts mul G (h s) x y w \<longleftrightarrow> accepts mul F s x y w"
proof
  assume "accepts mul F s x y w"
  then show "accepts mul G (h s) x y w"
  proof (rule acc_embed)
    fix s t assume "(s, t) \<in> arcs F"
    with c show "\<exists>u. (h s, u) \<in> arcs G \<and> ilabel u = ilabel t \<and> olabel u = olabel t \<and>
        weight u = weight t \<and> nextstate u = h (nextstate t)"
      by (intro exI [of _ "t\<lparr>nextstate := h (nextstate t)\<rparr>"]) (auto simp: copy_of_def arcs_def)
  next
    fix s w assume "final_at F s w"
    with c show "final_at G (h s) w" by (auto simp: copy_of_def final_at_def)
  qed
next
  have "accepts mul G r x y w \<Longrightarrow> (\<And>s. r = h s \<Longrightarrow> s < num_states F \<Longrightarrow> accepts mul F s x y w)" for r
  proof (induction rule: accepts.induct)
    case (acc_final r w)
    with c show ?case by (auto simp: copy_of_def final_at_def intro: accepts.acc_final)
  next
    case (acc_arc r t x y w)
    from acc_arc.hyps(1) acc_arc.prems c obtain u where u: "(s, u) \<in> arcs F"
        "t = u\<lparr>nextstate := h (nextstate u)\<rparr>"
      by (auto simp: copy_of_def arcs_def)
    moreover have "nextstate u < num_states F"
      using u(1) t by (auto simp: arcs_def targets_state)
    ultimately show ?case
      using accepts.acc_arc [OF u(1), of mul x y w] acc_arc.IH [of "nextstate u"] by simp
  qed
  then show "accepts mul G (h s) x y w \<Longrightarrow> accepts mul F s x y w" using s by blast
qed

text \<open>The transduction depends on the set of transitions and the final weights only.\<close>

lemma acc_cong:
  assumes "arcs F = arcs G" "final_at F = final_at G"
  shows "accepts mul F = accepts mul G"
proof -
  have *: "accepts mul H s x y w" if "accepts mul F s x y w" "arcs F = arcs H" "final_at F = final_at H" for F H s x y w
    using that(1) by (induction rule: accepts.induct) (auto simp: that(2,3) intro: accepts.intros)
  show ?thesis
    using * [of F _ _ _ _ G] * [of G _ _ _ _ F] assms by (simp add: fun_eq_iff) metis
qed

lemma final_at_props [simp]:
  "final_at (set_properties_with_mask F p m) = final_at F" "arcs (set_properties_with_mask F p m) = arcs F"
  "final_at (F\<lparr>properties := p\<rparr>) = final_at F"
  by (auto simp: final_at_def set_properties_with_mask_def fun_eq_iff)

lemma acc_props [simp]:
  "accepts mul (set_properties_with_mask F p m) = accepts mul F" "accepts mul (F\<lparr>properties := q\<rparr>) = accepts mul F"
  by (rule acc_cong; simp)+

lemma start_props [simp]: "start_state (set_properties_with_mask F p m) = start_state F"
  by (simp add: set_properties_with_mask_def)

lemma transduces_props [simp]: "transduces mul (set_properties_with_mask F p m) = transduces mul F"
  by (simp add: transduces_def fun_eq_iff)

end
