(* ===== verification/Rational_Ops.thy ===== *)
theory Rational_Ops
  imports Path_Semantics
begin

text \<open>
  The rational operations: \<open>algorithms/closure/closure_static.rs\<close>,
  \<open>algorithms/concat/concat_static.rs\<close>, \<open>algorithms/add_super_final_state.rs\<close>.
\<close>

subsection \<open>Shapes of the mutations used here\<close>

named_theorems shape \<open>states, final weights and transitions after a mutation\<close>

lemma add_tr_shape [shape]:
  assumes "s < num_states F"
  shows "num_states (add_tr_unchecked W F s t) = num_states F"
    "start_state (add_tr_unchecked W F s t) = start_state F"
    "k < num_states F \<Longrightarrow> final_weight (state_of (add_tr_unchecked W F s t) k) = final_weight (state_of F k)"
    "k < num_states F \<Longrightarrow> trs (state_of (add_tr_unchecked W F s t) k) =
       (if k = s then trs (state_of F s) @ [t] else trs (state_of F k))"
  using push_tr_graph [OF assms, where t = t] by (simp_all add: add_tr_unchecked_eq [OF assms])

lemma add_state_shape [shape]:
  "num_states (fst (add_state F)) = Suc (num_states F)" "snd (add_state F) = num_states F"
  "start_state (fst (add_state F)) = start_state F"
  "k < num_states F \<Longrightarrow> state_of (fst (add_state F)) k = state_of F k"
  "state_of (fst (add_state F)) (num_states F) = vstate_new"
  by (simp_all add: add_state_def nth_append)

lemma delete_final_shape [shape]:
  "num_states (delete_final_weight_unchecked W F s) = num_states F"
  "start_state (delete_final_weight_unchecked W F s) = start_state F"
  "k < num_states F \<Longrightarrow> trs (state_of (delete_final_weight_unchecked W F s) k) = trs (state_of F k)"
  "k < num_states F \<Longrightarrow> final_weight (state_of (delete_final_weight_unchecked W F s) k) =
     (if k = s then None else final_weight (state_of F k))"
  by (simp_all add: delete_final_weight_unchecked_def with_state_def nth_upd Let_def)

lemma set_start_shape [shape]:
  "num_states (set_start_unchecked F s) = num_states F" "start_state (set_start_unchecked F s) = Some s"
  "state_of (set_start_unchecked F s) k = state_of F k"
  by (simp_all add: set_start_unchecked_def)

lemma vstate_new_shape [shape]: "final_weight vstate_new = None" "trs vstate_new = []"
  by (simp_all add: vstate_new_def)

text \<open>Sound bits and exact counters, without the requirement that all targets exist yet.\<close>

definition bits_ok :: "'w semiring \<Rightarrow> 'w vfst \<Rightarrow> bool" where
  "bits_ok W F \<longleftrightarrow> props_sound W F \<and> eps_counts_ok F"

named_theorems bits_ok_intros

lemma bits_ok_steps [bits_ok_intros]:
  "bits_ok W F \<Longrightarrow> s < num_states F \<Longrightarrow> bits_ok W (add_tr_unchecked W F s t)"
  "bits_ok W F \<Longrightarrow> bits_ok W (fst (add_state F))"
  "bits_ok W F \<Longrightarrow> s < num_states F \<Longrightarrow> bits_ok W (set_final_unchecked W F s w)"
  "bits_ok W F \<Longrightarrow> s < num_states F \<Longrightarrow> bits_ok W (delete_final_weight_unchecked W F s)"
  by (simp_all add: bits_ok_def add_tr_sound add_tr_counts add_state_sound add_state_counts
      set_final_sound delete_final_weight_sound set_final_counts)

lemma bits_ok_set_start [bits_ok_intros]: "bits_ok W F \<Longrightarrow> bits_ok W (set_start_unchecked F s)"
  by (simp add: bits_ok_def set_start_sound eps_counts_ok_def set_start_unchecked_def)
    (use set_start_sound [of W F s] in \<open>simp add: set_start_unchecked_def\<close>)

lemma fst_ok_iff: "fst_ok W F \<longleftrightarrow> bits_ok W F \<and> targets_ok F"
  by (auto simp: fst_ok_def bits_ok_def)

text \<open>Adding a list of transitions to given states.\<close>

definition push_all :: "'w semiring \<Rightarrow> (state_id \<times> 'w tr) list \<Rightarrow> 'w vfst \<Rightarrow> 'w vfst" where
  "push_all W l F = fold (\<lambda>(s, t) F. add_tr_unchecked W F s t) l F"

lemma push_all_spec:
  assumes "\<forall>(s, t) \<in> set l. s < num_states F"
  shows "num_states (push_all W l F) = num_states F \<and> start_state (push_all W l F) = start_state F \<and>
    (\<forall>k < num_states F. final_weight (state_of (push_all W l F) k) = final_weight (state_of F k) \<and>
      trs (state_of (push_all W l F) k) = trs (state_of F k) @ map snd (filter (\<lambda>(s, t). s = k) l)) \<and>
    (bits_ok W F \<longrightarrow> bits_ok W (push_all W l F))"
  using assms
proof (induction l arbitrary: F)
  case Nil
  then show ?case by (simp add: push_all_def)
next
  case (Cons a l)
  obtain s t where a: "a = (s, t)" by (cases a)
  then have s: "s < num_states F" using Cons.prems by simp
  let ?G = "add_tr_unchecked W F s t"
  have e: "push_all W ((s, t) # l) F = push_all W l ?G" by (simp add: push_all_def)
  have b: "bits_ok W F \<longrightarrow> bits_ok W ?G" using s by (simp add: bits_ok_steps)
  have "\<forall>(s, t) \<in> set l. s < num_states ?G" using Cons.prems by (simp add: add_tr_shape [OF s])
  from Cons.IH [OF this] show ?case
    using b unfolding a e by (simp add: add_tr_shape [OF s])
qed

lemma targets_iff: "targets_ok F \<longleftrightarrow> (\<forall>i. start_state F = Some i \<longrightarrow> i < num_states F) \<and>
    (\<forall>s t. (s, t) \<in> arcs F \<longrightarrow> nextstate t < num_states F)"
  by (auto simp: targets_ok_def arcs_def) (metis in_set_conv_nth)

subsection \<open>Closure\<close>

datatype closure_type = ClosureStar | ClosurePlus

definition final_states :: "'w vfst \<Rightarrow> state_id list" where
  "final_states F = filter (\<lambda>s. final_weight (state_of F s) \<noteq> None) [0 ..< num_states F]"

definition closure_plus_arcs :: "'w semiring \<Rightarrow> 'w vfst \<Rightarrow> 'w vfst" where
  "closure_plus_arcs W F =
     (case start_state F of
        None \<Rightarrow> F
      | Some start \<Rightarrow>
          let finals = map (\<lambda>s. (s, the (final_weight (state_of F s)))) (final_states F)
          in fold (\<lambda>(s, w) F. add_tr_unchecked W F s (tr_new EPS_LABEL EPS_LABEL w start)) finals F)"

definition closure_star_start :: "'w semiring \<Rightarrow> 'w vfst \<Rightarrow> 'w vfst" where
  "closure_star_start W F =
     (let (F, nstart) = add_state F;
          F = (case start_state F of
                 None \<Rightarrow> F
               | Some start \<Rightarrow> add_tr_unchecked W F nstart (tr_new EPS_LABEL EPS_LABEL (one_w W) start))
      in set_final_unchecked W (set_start_unchecked F nstart) nstart (one_w W))"

definition closure :: "'w semiring \<Rightarrow> 'w vfst \<Rightarrow> closure_type \<Rightarrow> 'w vfst" where
  "closure W F ct =
     (let props = properties F;
          F = closure_plus_arcs W F;
          F = (if ct = ClosureStar then closure_star_start W F else F)
      in set_properties_with_mask F (closure_properties props False) all_properties)"

text \<open>The arcs the first part adds.\<close>

definition back_arcs :: "'w vfst \<Rightarrow> state_id \<Rightarrow> (state_id \<times> 'w tr) list" where
  "back_arcs F to = map (\<lambda>s. (s, tr_new EPS_LABEL EPS_LABEL (the (final_weight (state_of F s))) to)) (final_states F)"

lemma final_states_at:
  "s \<in> set (final_states F) \<longleftrightarrow> (\<exists>w. final_at F s w)" "distinct (final_states F)"
  by (auto simp: final_states_def final_at_def)

lemma filter_distinct_eq: "distinct xs \<Longrightarrow> filter (\<lambda>s. s = k) xs = (if k \<in> set xs then [k] else [])"
  by (induction xs) (auto simp: filter_empty_conv)

lemma filter_back_arcs:
  "map snd (filter (\<lambda>(s, t). s = k) (back_arcs F to)) =
     (if k < num_states F then (case final_weight (state_of F k) of
        None \<Rightarrow> [] | Some w \<Rightarrow> [tr_new EPS_LABEL EPS_LABEL w to]) else [])"
proof -
  have "filter (\<lambda>s. s = k) (final_states F) = (if k \<in> set (final_states F) then [k] else [])"
    using final_states_at(2) by (rule filter_distinct_eq)
  then show ?thesis
    by (auto simp: back_arcs_def filter_map o_def final_states_at final_at_def split: option.splits)
qed

lemma closure_plus_arcs_push:
  "start_state F = Some i \<Longrightarrow> closure_plus_arcs W F = push_all W (back_arcs F i) F"
  by (simp add: closure_plus_arcs_def push_all_def back_arcs_def fold_map o_def Let_def)

definition eps_tr :: "'w \<Rightarrow> state_id \<Rightarrow> 'w tr" where
  "eps_tr w to = tr_new EPS_LABEL EPS_LABEL w to"

lemma eps_tr_simps [simp]:
  "ilabel (eps_tr w s) = EPS_LABEL" "olabel (eps_tr w s) = EPS_LABEL"
  "weight (eps_tr w s) = w" "nextstate (eps_tr w s) = s"
  by (simp_all add: eps_tr_def)

lemma closure_plus_spec:
  fixes W :: "'w semiring" and F :: "'w vfst"
  assumes i: "start_state F = Some i"
  defines "G \<equiv> closure_plus_arcs W F"
  shows "num_states G = num_states F" "start_state G = Some i" "final_at G = final_at F"
    "(s, t) \<in> arcs G \<longleftrightarrow> (s, t) \<in> arcs F \<or> (\<exists>w. final_at F s w \<and> t = eps_tr w i)"
    "k < num_states F \<Longrightarrow> trs (state_of G k) = trs (state_of F k) @
       (case final_weight (state_of F k) of None \<Rightarrow> [] | Some w \<Rightarrow> [eps_tr w i])"
    "bits_ok W F \<Longrightarrow> bits_ok W G"
proof -
  have G: "G = push_all W (back_arcs F i) F" by (simp add: G_def closure_plus_arcs_push [OF i])
  have "\<forall>(s, t) \<in> set (back_arcs F i). s < num_states F"
    by (auto simp: back_arcs_def final_states_def)
  note spec = push_all_spec [OF this, of W, folded G, unfolded filter_back_arcs eps_tr_def [symmetric]]
  then show n: "num_states G = num_states F" "start_state G = Some i"
    and tr: "k < num_states F \<Longrightarrow> trs (state_of G k) = trs (state_of F k) @
       (case final_weight (state_of F k) of None \<Rightarrow> [] | Some w \<Rightarrow> [eps_tr w i])"
    and "bits_ok W F \<Longrightarrow> bits_ok W G" for k
    by (simp_all add: i)
  show "final_at G = final_at F" using spec by (auto simp: final_at_def fun_eq_iff)
  show "(s, t) \<in> arcs G \<longleftrightarrow> (s, t) \<in> arcs F \<or> (\<exists>w. final_at F s w \<and> t = eps_tr w i)"
    using tr [of s] n(1) by (cases "final_weight (state_of F s)") (auto simp: arcs_def final_at_def)
qed

lemma closure_star_spec:
  fixes F :: "'w vfst" and W :: "'w semiring"
  defines "G \<equiv> closure_star_start W F" and "N \<equiv> num_states F"
  shows "num_states G = Suc N" "start_state G = Some N"
    "final_at G s w \<longleftrightarrow> final_at F s w \<or> s = N \<and> w = one_w W"
    "(s, t) \<in> arcs G \<longleftrightarrow> (s, t) \<in> arcs F \<or> s = N \<and> (\<exists>i. start_state F = Some i \<and> t = eps_tr (one_w W) i)"
    "k < N \<Longrightarrow> trs (state_of G k) = trs (state_of F k)"
    "trs (state_of G N) = (case start_state F of None \<Rightarrow> [] | Some i \<Rightarrow> [eps_tr (one_w W) i])"
    "bits_ok W F \<Longrightarrow> bits_ok W G"
proof -
  let ?F1 = "fst (add_state F)"
  have N: "N < num_states ?F1" by (simp add: N_def shape)
  define F2 where "F2 = (case start_state F of None \<Rightarrow> ?F1
      | Some i \<Rightarrow> add_tr_unchecked W ?F1 N (eps_tr (one_w W) i))"
  have G: "G = set_final_unchecked W (set_start_unchecked F2 N) N (one_w W)"
    by (cases "start_state F")
      (simp_all add: G_def closure_star_start_def case_prod_unfold Let_def F2_def N_def shape eps_tr_def)
  have F2: "num_states F2 = Suc N"
    "\<And>k. k < N \<Longrightarrow> trs (state_of F2 k) = trs (state_of F k) \<and> final_weight (state_of F2 k) = final_weight (state_of F k)"
    "trs (state_of F2 N) = (case start_state F of None \<Rightarrow> [] | Some i \<Rightarrow> [eps_tr (one_w W) i])"
    "bits_ok W F \<Longrightarrow> bits_ok W F2"
    using N by (auto simp: F2_def N_def shape bits_ok_steps split: option.splits)
  show n: "num_states G = Suc N" "start_state G = Some N"
    by (simp_all add: G F2 shape)
  show tr: "\<And>k. k < N \<Longrightarrow> trs (state_of G k) = trs (state_of F k)"
    "trs (state_of G N) = (case start_state F of None \<Rightarrow> [] | Some i \<Rightarrow> [eps_tr (one_w W) i])"
    by (simp_all add: G F2 shape)
  have fw: "final_weight (state_of G N) = Some (one_w W)"
    "\<And>k. k < N \<Longrightarrow> final_weight (state_of G k) = final_weight (state_of F k)"
    by (simp_all add: G F2 shape)
  show "final_at G s w \<longleftrightarrow> final_at F s w \<or> s = N \<and> w = one_w W"
    using fw n by (cases "s < N") (auto simp: final_at_def N_def [symmetric] less_Suc_eq)
  show "(s, t) \<in> arcs G \<longleftrightarrow> (s, t) \<in> arcs F \<or> s = N \<and> (\<exists>i. start_state F = Some i \<and> t = eps_tr (one_w W) i)"
    using tr n by (cases "s < N") (auto simp: arcs_def N_def [symmetric] less_Suc_eq split: option.splits)
  show "bits_ok W F \<Longrightarrow> bits_ok W G"
    using F2 by (simp add: G bits_ok_intros shape)
qed

text \<open>Chains of one or more strings of a transduction.\<close>

inductive chain :: "('w \<Rightarrow> 'w \<Rightarrow> 'w) \<Rightarrow> (label list \<Rightarrow> label list \<Rightarrow> 'w \<Rightarrow> bool) \<Rightarrow> label list \<Rightarrow> label list \<Rightarrow> 'w \<Rightarrow> bool"
  for mul T where
  chain_one: "T x y w \<Longrightarrow> chain mul T x y w"
| chain_more: "T x y w \<Longrightarrow> chain mul T x' y' w' \<Longrightarrow> chain mul T (x @ x') (y @ y') (mul w w')"

context weight_monoids begin

lemma closure_plus_sound:
  assumes i: "start_state F = Some i" and t: "targets_ok F"
    and "accepts mul (closure_plus_arcs W F) s x y w"
  shows "\<exists>x1 y1 w1. accepts mul F s x1 y1 w1 \<and> (x = x1 \<and> y = y1 \<and> w = w1 \<or>
    (\<exists>x2 y2 w2. chain mul (transduces mul F) x2 y2 w2 \<and> x = x1 @ x2 \<and> y = y1 @ y2 \<and> w = mul w1 w2))"
  using assms(3)
proof (induction rule: accepts.induct)
  case (acc_final s w)
  then show ?case by (auto simp: closure_plus_spec [OF i] intro: accepts.acc_final)
next
  case (acc_arc s t x y w)
  note spec = closure_plus_spec [OF i]
  from acc_arc.hyps(1) consider "(s, t) \<in> arcs F" | v where "final_at F s v" "t = eps_tr v i"
    unfolding spec by blast
  then show ?case
  proof cases
    case 1
    from acc_arc.IH obtain x1 y1 w1 where a: "accepts mul F (nextstate t) x1 y1 w1" "x = x1 \<and> y = y1 \<and> w = w1 \<or>
      (\<exists>x2 y2 w2. chain mul (transduces mul F) x2 y2 w2 \<and> x = x1 @ x2 \<and> y = y1 @ y2 \<and> w = mul w1 w2)"
      by blast
    from 1 a(1) have "accepts mul F s (ext_label (ilabel t) x1) (ext_label (olabel t) y1) (mul (weight t) w1)"
      by (rule accepts.acc_arc)
    with a(2) show ?thesis
      by (intro exI [of _ "ext_label (ilabel t) x1"] exI [of _ "ext_label (olabel t) y1"]
          exI [of _ "mul (weight t) w1"]) (auto simp: mul_assoc)
  next
    case 2
    from acc_arc.IH obtain x1 y1 w1 where a: "accepts mul F i x1 y1 w1" "x = x1 \<and> y = y1 \<and> w = w1 \<or>
      (\<exists>x2 y2 w2. chain mul (transduces mul F) x2 y2 w2 \<and> x = x1 @ x2 \<and> y = y1 @ y2 \<and> w = mul w1 w2)"
      unfolding 2 eps_tr_simps by blast
    from a(1) i have "transduces mul F x1 y1 w1" by (simp add: transduces_def)
    with a(2) have "chain mul (transduces mul F) x y w"
      by (auto intro: chain.intros)
    moreover have "accepts mul F s [] [] v" using 2 by (auto intro: accepts.acc_final)
    ultimately show ?thesis
      unfolding 2 by (intro exI [of _ "[]"] exI [of _ v]) auto
  qed
qed

lemma closure_plus_complete:
  assumes i: "start_state F = Some i" and "chain mul (transduces mul F) x y w"
  shows "accepts mul (closure_plus_arcs W F) i x y w"
  using assms(2)
proof (induction rule: chain.induct)
  case (chain_one x y w)
  then have "accepts mul F i x y w" by (simp add: transduces_def i)
  then show ?case
    by (rule acc_embed [where h = "\<lambda>s. s", simplified])
      (auto simp: closure_plus_spec [OF i])
next
  case (chain_more x y w x' y' w')
  let ?G = "closure_plus_arcs W F"
  have "accepts mul F i x y w" using chain_more by (simp add: transduces_def i)
  then show ?case
  proof (rule acc_sim [where h = "\<lambda>s. s" and g = "\<lambda>v. mul v w'"])
    fix s v
    assume "final_at F s v"
    then have "(s, eps_tr v i) \<in> arcs ?G" by (auto simp: closure_plus_spec(4) [OF i])
    from acc_eps [OF this, of mul x' y' w'] chain_more.IH show "accepts mul ?G s x' y' (mul v w')" by simp
  qed (auto simp: closure_plus_spec [OF i] mul_assoc)
qed

lemma closure_plus_transduces:
  assumes "targets_ok F"
  shows "transduces mul (closure_plus_arcs W F) x y w \<longleftrightarrow> chain mul (transduces mul F) x y w"
proof (cases "start_state F")
  case None
  have "\<not> chain mul (transduces mul F) x y w"
  proof
    assume "chain mul (transduces mul F) x y w"
    then show False by induction (auto simp: transduces_def None)
  qed
  with None show ?thesis by (simp add: closure_plus_arcs_def transduces_def)
next
  case (Some i)
  have "accepts mul (closure_plus_arcs W F) i x y w \<Longrightarrow> chain mul (transduces mul F) x y w"
    using closure_plus_sound [OF Some assms, of i x y w] Some
    by (auto simp: transduces_def intro: chain.intros)
  with closure_plus_complete [OF Some] show ?thesis
    by (auto simp: transduces_def closure_plus_spec(2) [OF Some])
qed

lemma closure_star_transduces:
  assumes t: "targets_ok F"
  shows "transduces mul (closure_star_start W F) x y w \<longleftrightarrow>
    x = [] \<and> y = [] \<and> w = one_w W \<or> transduces mul F x y w"
proof -
  let ?G = "closure_star_start W F" and ?N = "num_states F"
  note spec = closure_star_spec [where W = W and F = F]
  have old: "accepts mul F s x y w" if "accepts mul ?G s x y w" "s < ?N" for s x y w
    using that
  proof (induction rule: accepts.induct)
    case (acc_final s w)
    then show ?case by (auto simp: spec intro: accepts.acc_final)
  next
    case (acc_arc s t' x y w)
    then have a: "(s, t') \<in> arcs F" by (simp add: spec)
    moreover from a have "nextstate t' < ?N" using targets_state [OF t] by (auto simp: arcs_def)
    ultimately show ?case using acc_arc.IH by (blast intro: accepts.acc_arc)
  qed
  have new: "accepts mul ?G s x y w" if "accepts mul F s x y w" for s
    using that by (rule acc_embed [where h = "\<lambda>s. s", simplified]) (auto simp: spec)
  show ?thesis
  proof
    assume "transduces mul ?G x y w"
    then have "accepts mul ?G ?N x y w" by (simp add: transduces_def spec)
    then show "x = [] \<and> y = [] \<and> w = one_w W \<or> transduces mul F x y w"
    proof (rule acc_elim)
      assume "x = []" "y = []" "final_at ?G ?N w"
      with spec(3) [of ?N w] show ?thesis by (simp add: final_at_def [of F])
    next
      fix t' x' y' w'
      assume a: "x = ext_label (ilabel t') x'" "y = ext_label (olabel t') y'" "w = mul (weight t') w'"
        "(?N, t') \<in> arcs ?G" "accepts mul ?G (nextstate t') x' y' w'"
      then obtain i where i: "start_state F = Some i" "t' = eps_tr (one_w W) i"
        unfolding spec(4) by (auto simp: arcs_def)
      from i t have "i < ?N" by (simp add: targets_ok_def)
      with old [of i] a i show ?thesis by (auto simp: transduces_def mul_one_left)
    qed
  next
    assume r: "x = [] \<and> y = [] \<and> w = one_w W \<or> transduces mul F x y w"
    have "accepts mul ?G ?N x y w"
    proof (cases "transduces mul F x y w")
      case True
      then obtain i where i: "start_state F = Some i" "accepts mul F i x y w" by (auto simp: transduces_def)
      have "(?N, eps_tr (one_w W) i) \<in> arcs ?G" by (simp add: spec i)
      from acc_eps [OF this, of mul x y w] new [OF i(2)] show ?thesis by (simp add: mul_one_left)
    next
      case False
      with r show ?thesis by (auto simp: spec intro: accepts.acc_final)
    qed
    then show "transduces mul ?G x y w" by (simp add: transduces_def spec)
  qed
qed

lemma closure_transduces:
  assumes t: "targets_ok F"
  shows "transduces mul (closure W F ct) x y w \<longleftrightarrow>
    ct = ClosureStar \<and> x = [] \<and> y = [] \<and> w = one_w W \<or> chain mul (transduces mul F) x y w"
proof -
  have "targets_ok (closure_plus_arcs W F)"
  proof (cases "start_state F")
    case (Some i)
    note s = closure_plus_spec [OF Some, where W = W]
    show ?thesis using t Some by (auto simp: targets_iff s)
  qed (simp add: closure_plus_arcs_def t)
  then show ?thesis
    by (cases ct) (simp_all add: closure_def Let_def closure_star_transduces closure_plus_transduces t)
qed

end

end
