(* ===== verification/Closure_Sound.thy ===== *)
theory Closure_Sound
  imports Rational_Ops
begin

text \<open>
  Soundness of the property bits the rational operations set: \<open>closure_properties\<close> and
  \<open>concat_properties\<close> are right about the transducers that \<open>closure\<close> and \<open>concat\<close> build.
\<close>

subsection \<open>Paths that stay in a part of the graph\<close>

lemma rtrancl_stay:
  assumes p: "(a, b) \<in> R\<^sup>*" and a: "a \<in> S"
    and step: "\<And>a b. a \<in> S \<Longrightarrow> (a, b) \<in> R \<Longrightarrow> b \<in> S \<and> (a, b) \<in> R'"
  shows "b \<in> S \<and> (a, b) \<in> R'\<^sup>*"
  using p a by (induction rule: rtrancl_induct) (auto dest: step intro: rtrancl.rtrancl_into_rtrancl)

lemma trancl_stay:
  assumes p: "(a, b) \<in> R\<^sup>+" and a: "a \<in> S"
    and step: "\<And>a b. a \<in> S \<Longrightarrow> (a, b) \<in> R \<Longrightarrow> b \<in> S \<and> (a, b) \<in> R'"
  shows "b \<in> S \<and> (a, b) \<in> R'\<^sup>+"
  using p a by (induction rule: trancl_induct) (auto dest: step intro: trancl.trancl_into_trancl)

lemma edges_iff: "(a, b) \<in> edges F \<longleftrightarrow> (\<exists>t. (a, t) \<in> arcs F \<and> nextstate t = b)"
  by (auto simp: edges_def)

lemma edges_range: "targets_ok F \<Longrightarrow> (a, b) \<in> edges F \<Longrightarrow> a < num_states F \<and> b < num_states F"
  by (auto simp: edges_iff targets_iff arcs_def)

lemma is_final_at: "is_final_state F s \<longleftrightarrow> (\<exists>w. final_at F s w)"
  by (auto simp: is_final_state_def final_at_def)

lemma weighted_at: "sem W F Weighted \<longleftrightarrow> (\<exists>s t. (s, t) \<in> arcs F \<and> nontrivial W (weight t)) \<or>
    (\<exists>s w. final_at F s w \<and> nontrivial W w)"
  by (auto simp: final_at_def)

lemma weighted_cycles_at: "sem W F WeightedCycles \<longleftrightarrow>
    (\<exists>s t. (s, t) \<in> arcs F \<and> nontrivial W (weight t) \<and> (nextstate t, s) \<in> (edges F)\<^sup>*)"
  by auto

text \<open>Adding transitions at the end of each state.\<close>

definition extends :: "'w vfst \<Rightarrow> 'w vfst \<Rightarrow> bool" where
  "extends F G \<longleftrightarrow> num_states F \<le> num_states G \<and>
     (\<forall>k < num_states F. \<exists>ts. trs (state_of G k) = trs (state_of F k) @ ts)"

lemma extends_lists:
  assumes "extends F G"
  shows "sem W G IDeterministic \<Longrightarrow> sem W F IDeterministic" "sem W G ODeterministic \<Longrightarrow> sem W F ODeterministic"
    "sem W G ILabelSorted \<Longrightarrow> sem W F ILabelSorted" "sem W G OLabelSorted \<Longrightarrow> sem W F OLabelSorted"
proof -
  have pre: "\<forall>k < num_states F. P (trs (state_of F k))"
    if all: "\<forall>k < num_states G. P (trs (state_of G k))" and P: "\<And>xs ts. P (xs @ ts) \<Longrightarrow> P xs" for P
  proof (intro allI impI)
    fix k
    assume "k < num_states F"
    with assms obtain ts where "trs (state_of G k) = trs (state_of F k) @ ts" "k < num_states G"
      by (auto simp: extends_def)
    with all P show "P (trs (state_of F k))" by metis
  qed
  show "sem W G IDeterministic \<Longrightarrow> sem W F IDeterministic" "sem W G ODeterministic \<Longrightarrow> sem W F ODeterministic"
    "sem W G ILabelSorted \<Longrightarrow> sem W F ILabelSorted" "sem W G OLabelSorted \<Longrightarrow> sem W F OLabelSorted"
    unfolding sem.simps
    by (erule pre [where P = "\<lambda>ts. distinct (map ilabel ts)"], simp)
      (erule pre [where P = "\<lambda>ts. distinct (map olabel ts)"], simp,
       erule pre [where P = "\<lambda>ts. sorted (map ilabel ts)"], simp add: sorted_append,
       erule pre [where P = "\<lambda>ts. sorted (map olabel ts)"], simp add: sorted_append)
qed

lemma extends_arcs: "extends F G \<Longrightarrow> arcs F \<subseteq> arcs G"
  by (fastforce simp: extends_def arcs_def)

lemma mono_sem:
  assumes "arcs F \<subseteq> arcs G"
  shows "sem W G Acceptor \<Longrightarrow> sem W F Acceptor" "sem W G TopSorted \<Longrightarrow> sem W F TopSorted"
    "sem W F Epsilons \<Longrightarrow> sem W G Epsilons" "sem W F IEpsilons \<Longrightarrow> sem W G IEpsilons"
    "sem W F OEpsilons \<Longrightarrow> sem W G OEpsilons" "sem W F Cyclic \<Longrightarrow> sem W G Cyclic"
    "sem W F WeightedCycles \<Longrightarrow> sem W G WeightedCycles"
proof -
  have e: "edges F \<subseteq> edges G" by (rule edges_mono [OF assms])
  show "sem W G Acceptor \<Longrightarrow> sem W F Acceptor" "sem W F Epsilons \<Longrightarrow> sem W G Epsilons"
    "sem W F IEpsilons \<Longrightarrow> sem W G IEpsilons" "sem W F OEpsilons \<Longrightarrow> sem W G OEpsilons"
    using assms by fastforce+
  show "sem W G TopSorted \<Longrightarrow> sem W F TopSorted" using e by auto
  show "sem W F Cyclic \<Longrightarrow> sem W G Cyclic" using cyclic_at_mono [OF e] by auto
  show "sem W F WeightedCycles \<Longrightarrow> sem W G WeightedCycles"
    using assms rtrancl_mono [OF e] by fastforce
qed

subsection \<open>Closure\<close>

lemma closure_plus_sem:
  fixes F :: "'w vfst" and W :: "'w semiring"
  assumes i: "start_state F = Some i" and t: "targets_ok F"
  defines "G \<equiv> closure_plus_arcs W F"
  shows "sem W G Acceptor = sem W F Acceptor" "sem W G Weighted = sem W F Weighted"
    "sem W G Accessible = sem W F Accessible" "sem W G Coaccessible = sem W F Coaccessible"
    "\<not> sem W G StringFst"
    "sem W F Weighted \<Longrightarrow> sem W F Accessible \<Longrightarrow> sem W F Coaccessible \<Longrightarrow> sem W G WeightedCycles"
    "sem W G WeightedCycles \<Longrightarrow> sem W F Weighted" "extends F G"
proof -
  note spec = closure_plus_spec [OF i, where W = W, folded G_def]
  have arc: "(s, u) \<in> arcs G \<longleftrightarrow> (s, u) \<in> arcs F \<or> (\<exists>w. final_at F s w \<and> u = eps_tr w i)" for s u
    by (simp add: spec)
  show ex: "extends F G" by (auto simp: extends_def spec)
  have sub: "edges F \<subseteq> edges G" by (rule edges_mono [OF extends_arcs [OF ex]])
  have edge: "(a, b) \<in> edges G \<longleftrightarrow> (a, b) \<in> edges F \<or> is_final_state F a \<and> b = i" for a b
    unfolding edges_iff arc is_final_at by fastforce
  show "sem W G Acceptor = sem W F Acceptor"
  proof
    assume "sem W F Acceptor"
    then show "sem W G Acceptor" by (auto simp: arc)
  qed (rule mono_sem(1) [OF extends_arcs [OF ex]])
  show w: "sem W G Weighted = sem W F Weighted"
    unfolding weighted_at spec(3) arc by auto
  have fin: "is_final_state G = is_final_state F" by (simp add: fun_eq_iff is_final_at spec)
  have acc: "accessible_state F s" if "(i, s) \<in> (edges G)\<^sup>*" for s
    using that
  proof (induction rule: rtrancl_induct)
    case (step a b)
    then show ?case by (auto simp: edge accessible_state_def i)
  qed (simp add: accessible_state_def i)
  then show "sem W G Accessible = sem W F Accessible"
    using accessible_mono [OF sub, unfolded spec(2) i] by (auto simp: accessible_state_def spec(1,2))
  have "coaccessible_state F s" if "(s, f) \<in> (edges G)\<^sup>*" "is_final_state F f" for s f
    using that
  proof (induction rule: converse_rtrancl_induct)
    case base
    then show ?case by (auto simp: coaccessible_state_def)
  next
    case (step a b)
    then show ?case by (auto simp: edge coaccessible_state_def intro: converse_rtrancl_into_rtrancl)
  qed
  then have "coaccessible_state G s \<Longrightarrow> coaccessible_state F s" for s
    by (auto simp: coaccessible_state_def [of G] fin)
  then have co: "coaccessible_state G s \<longleftrightarrow> coaccessible_state F s" for s
    using coaccessible_mono [OF sub, of s] fin by metis
  then show "sem W G Coaccessible = sem W F Coaccessible" by (simp add: spec(1))
  have "i < num_states G" using t i by (simp add: targets_ok_def spec(1))
  moreover have "\<not> string_state G (num_states G - 1)" if "0 < num_states G"
    using that spec(5) [of "num_states G - 1"]
    by (auto simp: string_state_def is_final_state_def spec(1) fin split: option.splits)
  ultimately show "\<not> sem W G StringFst"
    by (cases "states G") (auto intro!: exI [of _ "num_states G - 1"])
  show "sem W G WeightedCycles \<Longrightarrow> sem W F Weighted"
    unfolding w [symmetric] by auto
  show "sem W G WeightedCycles" if "sem W F Weighted" "sem W F Accessible" "sem W F Coaccessible"
  proof -
    have ret: "(s, i) \<in> (edges G)\<^sup>*" if "s < num_states F" for s
    proof -
      from that \<open>sem W F Coaccessible\<close> obtain f where "is_final_state F f" "(s, f) \<in> (edges F)\<^sup>*"
        by (auto simp: coaccessible_state_def)
      then have "(s, f) \<in> (edges G)\<^sup>*" "(f, i) \<in> edges G"
        using rtrancl_mono [OF sub] by (blast, simp add: edge)
      then show ?thesis by (rule rtrancl.rtrancl_into_rtrancl)
    qed
    have out: "(i, s) \<in> (edges G)\<^sup>*" if "s < num_states F" for s
      using that \<open>sem W F Accessible\<close> rtrancl_mono [OF sub] by (auto simp: accessible_state_def i)
    from \<open>sem W F Weighted\<close> consider s u where "(s, u) \<in> arcs F" "nontrivial W (weight u)"
      | s w where "final_at F s w" "nontrivial W w"
      unfolding weighted_at by blast
    then show ?thesis
    proof cases
      case 1
      then have "s < num_states F" "nextstate u < num_states F"
        using t by (auto simp: targets_iff arcs_def)
      with ret out have "(nextstate u, s) \<in> (edges G)\<^sup>*" by (meson rtrancl_trans)
      with 1 arc show ?thesis by auto
    next
      case 2
      then have "s < num_states F" by (simp add: final_at_def)
      with out [of s] 2 show ?thesis by (auto simp: arc intro!: bexI [of _ "(s, eps_tr w i)"])
    qed
  qed
qed

lemma closure_star_sem:
  fixes F :: "'w vfst" and W :: "'w semiring"
  assumes t: "targets_ok F"
  defines "G \<equiv> closure_star_start W F"
  shows "sem W G Acceptor = sem W F Acceptor" 
    "eq_w W (one_w W) (one_w W) \<Longrightarrow> sem W G Weighted = sem W F Weighted"
    "sem W G Accessible = sem W F Accessible" "sem W G Coaccessible = sem W F Coaccessible"
    "sem W G StringFst \<Longrightarrow> sem W F StringFst"
    "sem W G WeightedCycles = sem W F WeightedCycles" "extends F G" "targets_ok G"
proof -
  let ?N = "num_states F"
  note spec = closure_star_spec [where W = W and F = F, folded G_def]
  have arc: "(s, u) \<in> arcs G \<longleftrightarrow> (s, u) \<in> arcs F \<or> s = ?N \<and> (\<exists>i. start_state F = Some i \<and> u = eps_tr (one_w W) i)" for s u
    by (simp add: spec)
  have i: "start_state F = Some i \<Longrightarrow> i < ?N" for i using t by (simp add: targets_ok_def)
  have r: "(a, u) \<in> arcs F \<Longrightarrow> a < ?N \<and> nextstate u < ?N" for a u
    using t by (auto simp: targets_iff arcs_def)
  show ex: "extends F G" by (simp add: extends_def spec)
  show tg: "targets_ok G" using i r by (auto simp: targets_iff spec(1,2) arc less_Suc_eq)
  have sub: "edges F \<subseteq> edges G" by (rule edges_mono [OF extends_arcs [OF ex]])
  have edge: "(a, b) \<in> edges G \<longleftrightarrow> (a, b) \<in> edges F \<or> a = ?N \<and> start_state F = Some b" for a b
    unfolding edges_iff arc by fastforce
  have stay: "b < ?N \<and> (a, b) \<in> (edges F)\<^sup>*" if "(a, b) \<in> (edges G)\<^sup>*" "a < ?N" for a b
    using rtrancl_stay [OF that(1), of "{..< ?N}" "edges F"] that(2) edges_range [OF t] by (auto simp: edge)
  have fin: "is_final_state G s \<longleftrightarrow> is_final_state F s \<or> s = ?N" for s
    by (auto simp: is_final_at spec)
  show "sem W G Acceptor = sem W F Acceptor"
  proof
    assume "sem W F Acceptor"
    then show "sem W G Acceptor" by (auto simp: arc)
  qed (rule mono_sem(1) [OF extends_arcs [OF ex]])
  show "sem W G Weighted = sem W F Weighted" if "eq_w W (one_w W) (one_w W)"
  proof -
    have "\<not> nontrivial W (one_w W)" using that by (simp add: nontrivial_def is_one_def)
    then show ?thesis unfolding weighted_at spec(3) arc by auto
  qed
  have from_N: "s = ?N \<or> accessible_state F s" if "(?N, s) \<in> (edges G)\<^sup>*" for s
    using that
  proof (cases rule: converse_rtranclE)
    case (step b)
    then have b: "start_state F = Some b" using edges_range [OF t] by (auto simp: edge)
    with stay [OF step(2)] i show ?thesis by (auto simp: accessible_state_def)
  qed simp
  have to_N: "accessible_state G s" if "accessible_state F s" for s
  proof -
    from that obtain j where "start_state F = Some j" "(j, s) \<in> (edges F)\<^sup>*" by (auto simp: accessible_state_def)
    then have "(?N, j) \<in> edges G" "(j, s) \<in> (edges G)\<^sup>*"
      using rtrancl_mono [OF sub] by (auto simp: edge)
    then show ?thesis by (auto simp: accessible_state_def spec intro: converse_rtrancl_into_rtrancl)
  qed
  have "accessible_state G ?N" by (simp add: accessible_state_def spec)
  then show "sem W G Accessible = sem W F Accessible"
    using from_N to_N by (auto simp: spec(1,2) less_Suc_eq accessible_state_def [of G])
  have "coaccessible_state G s \<longleftrightarrow> coaccessible_state F s" if "s < ?N" for s
    using stay [OF _ that] coaccessible_mono [OF sub, of s] fin
    by (auto simp: coaccessible_state_def)
  moreover have "coaccessible_state G ?N" by (auto simp: coaccessible_state_def fin)
  ultimately show "sem W G Coaccessible = sem W F Coaccessible"
    by (auto simp: spec(1) less_Suc_eq)
  show "sem W G StringFst \<Longrightarrow> sem W F StringFst" by (auto simp: spec(1,2))
  have "(nextstate u, s) \<in> (edges F)\<^sup>*" if "(s, u) \<in> arcs F" "(nextstate u, s) \<in> (edges G)\<^sup>*" for s u
    using stay [OF that(2)] r [OF that(1)] by blast
  moreover have "(j, ?N) \<notin> (edges G)\<^sup>*" if "start_state F = Some j" for j
    using stay [of j ?N] i [OF that] by blast
  ultimately show "sem W G WeightedCycles = sem W F WeightedCycles"
    using mono_sem(7) [OF extends_arcs [OF ex], of W] unfolding weighted_cycles_at arc
    by (metis eps_tr_simps(4))
qed

lemma closure_properties_bits:
  fixes p defines "c \<equiv> closure_properties p False"
  shows "bit c 16 = bit p 16" "bit c 17 = bit p 17" "\<not> bit c 18" "bit c 19 = bit p 19"
    "\<not> bit c 20" "bit c 21 = bit p 21" "\<not> bit c 22" "\<not> bit c 23" "\<not> bit c 24" "\<not> bit c 25"
    "\<not> bit c 26" "\<not> bit c 27" "\<not> bit c 28" "bit c 29 = bit p 29" "\<not> bit c 30" "bit c 31 = bit p 31"
    "bit c 32 = bit p 32" "bit c 33 = bit p 33" "\<not> bit c 34" "\<not> bit c 35" "\<not> bit c 36" "\<not> bit c 37"
    "\<not> bit c 38" "bit c 39 = bit p 39" "bit c 40 = bit p 40" "bit c 41 = bit p 41" "bit c 42 = bit p 42"
    "bit c 43 = bit p 43" "\<not> bit c 44" "bit c 45 = bit p 45"
    "bit c 46 \<longleftrightarrow> bit p 46 \<or> bit p 32 \<and> bit p 40 \<and> bit p 42" "bit c 47 = bit p 33"
  unfolding c_def closure_properties_def or_if_def [symmetric] contains_flags Let_def
  by (auto simp: bit_or_if bit_or_iff bit_and_iff flag_bits)

lemma closure_plus_ok:
  assumes F: "fst_ok W F" and i: "start_state F = Some i"
  shows "fst_ok W (closure_plus_arcs W F)"
    "bits_sound W (closure_plus_arcs W F) (closure_properties (properties F) False)"
proof -
  let ?G = "closure_plus_arcs W F"
  note t = fst_okD(3) [OF F]
  note spec = closure_plus_spec [OF i, where W = W]
  have "targets_ok ?G" using t i by (auto simp: targets_iff spec)
  moreover have "bits_ok W ?G" using F by (auto simp: fst_ok_iff intro: spec(6))
  ultimately show "fst_ok W ?G" by (simp add: fst_ok_iff)
  note sem = closure_plus_sem [OF i t, of W]
  note ext = extends_lists [OF sem(8), of W] mono_sem [OF extends_arcs [OF sem(8)], of W]
  have "bits_sound W F (properties F)" using fst_okD(1) [OF F] by (simp add: props_sound_def)
  then show "bits_sound W ?G (closure_properties (properties F) False)"
    unfolding bits_sound_def fprop_all pos_bit.simps Suc_numeral
    using sem(1-7) ext by (simp add: closure_properties_bits del: sem.simps) metis
qed

lemma closure_no_start_ok:
  assumes F: "fst_ok W F" and i: "start_state F = None"
  shows "bits_sound W F (closure_properties (properties F) False)"
proof -
  have b: "bits_sound W F (properties F)" using fst_okD(1) [OF F] by (simp add: props_sound_def)
  have "\<not> sem W F Weighted" if "sem W F Accessible"
    using that i by (auto simp: accessible_state_def arcs_def)
  moreover have "sem W F WeightedCycles \<Longrightarrow> sem W F Weighted" by auto
  ultimately show ?thesis
    using b unfolding bits_sound_def fprop_all pos_bit.simps Suc_numeral
    by (simp add: closure_properties_bits del: sem.simps) metis
qed

lemma closure_star_ok:
  assumes G: "fst_ok W G" and q: "bits_sound W G (closure_properties p False)"
    and one: "eq_w W (one_w W) (one_w W)"
  shows "fst_ok W (closure_star_start W G)"
    "bits_sound W (closure_star_start W G) (closure_properties p False)"
proof -
  note sem = closure_star_sem [OF fst_okD(3) [OF G], of W]
  show "fst_ok W (closure_star_start W G)"
    using G sem(8) closure_star_spec(7) [of W G] by (simp add: fst_ok_iff)
  note ext = extends_lists [OF sem(7), of W] mono_sem [OF extends_arcs [OF sem(7)], of W]
  show "bits_sound W (closure_star_start W G) (closure_properties p False)"
    using q unfolding bits_sound_def fprop_all pos_bit.simps Suc_numeral
    using sem(1) sem(2) [OF one] sem(3-6) ext by (simp add: closure_properties_bits del: sem.simps) metis
qed

lemma closure_ok [fst_ok_intros]:
  assumes F: "fst_ok W F" and one: "eq_w W (one_w W) (one_w W)"
  shows "fst_ok W (closure W F ct)"
proof -
  let ?p = "closure_properties (properties F) False" and ?G = "closure_plus_arcs W F"
  have G: "fst_ok W ?G" "bits_sound W ?G ?p"
    using closure_plus_ok [OF F] closure_no_start_ok [OF F] F
    by (cases "start_state F"; simp add: closure_plus_arcs_def)+
  have set_ok: "fst_ok W (set_properties_with_mask H ?p all_properties)" if "fst_ok W H" "bits_sound W H ?p" for H
    using that set_all_properties_sound [OF that(2)]
    by (simp add: fst_ok_def set_properties_with_mask_def)
  show ?thesis
    using set_ok [OF G] set_ok [OF closure_star_ok [OF G one]]
    by (simp add: closure_def Let_def)
qed

end
