(* ===== verification/Concat.thy ===== *)
theory Concat
  imports Closure_Sound
begin

text \<open>
  Concatenation (\<open>algorithms/concat/concat_static.rs\<close>) and union
  (\<open>algorithms/union/union_static.rs\<close>): both first append the states of the second transducer.
\<close>

subsection \<open>Appending a transducer\<close>

definition copy_state :: "'w semiring \<Rightarrow> 'w vfst \<Rightarrow> nat \<Rightarrow> state_id \<Rightarrow> 'w vfst \<Rightarrow> 'w vfst" where
  "copy_state W F2 off s2 F =
     (let (F, s1) = add_state F;
          F = (case final_weight (state_of F2 s2) of None \<Rightarrow> F | Some w \<Rightarrow> set_final_unchecked W F s1 w)
      in fold (\<lambda>t F. add_tr_unchecked W F s1 (t\<lparr>nextstate := nextstate t + off\<rparr>)) (trs (state_of F2 s2)) F)"

definition append_fst :: "'w semiring \<Rightarrow> 'w vfst \<Rightarrow> 'w vfst \<Rightarrow> 'w vfst" where
  "append_fst W F1 F2 = fold (copy_state W F2 (num_states F1)) [0 ..< num_states F2] F1"

definition shift_tr :: "nat \<Rightarrow> 'w tr \<Rightarrow> 'w tr" where
  "shift_tr off t = t\<lparr>nextstate := nextstate t + off\<rparr>"

lemma shift_tr_simps [simp]:
  "ilabel (shift_tr off t) = ilabel t" "olabel (shift_tr off t) = olabel t"
  "weight (shift_tr off t) = weight t" "nextstate (shift_tr off t) = nextstate t + off"
  by (simp_all add: shift_tr_def)

lemma copy_state_spec:
  fixes F F2 :: "'w vfst" and W :: "'w semiring" and s2 off :: nat
  defines "G \<equiv> copy_state W F2 off s2 F"
  shows "num_states G = Suc (num_states F)" "start_state G = start_state F"
    "k < num_states F \<Longrightarrow> final_weight (state_of G k) = final_weight (state_of F k)"
    "k < num_states F \<Longrightarrow> trs (state_of G k) = trs (state_of F k)"
    "final_weight (state_of G (num_states F)) = final_weight (state_of F2 s2)"
    "trs (state_of G (num_states F)) = map (shift_tr off) (trs (state_of F2 s2))"
    "bits_ok W F \<Longrightarrow> bits_ok W G"
proof -
  let ?N = "num_states F" and ?F1 = "fst (add_state F)"
  define H where "H = (case final_weight (state_of F2 s2) of None \<Rightarrow> ?F1 | Some w \<Rightarrow> set_final_unchecked W ?F1 ?N w)"
  have G: "G = push_all W (map (\<lambda>t. (?N, shift_tr off t)) (trs (state_of F2 s2))) H"
    by (cases "final_weight (state_of F2 s2)")
      (simp_all add: G_def copy_state_def case_prod_unfold Let_def H_def shape push_all_def fold_map o_def shift_tr_def)
  have H: "num_states H = Suc ?N" "start_state H = start_state F"
    "\<And>k. k < ?N \<Longrightarrow> final_weight (state_of H k) = final_weight (state_of F k) \<and> trs (state_of H k) = trs (state_of F k)"
    "final_weight (state_of H ?N) = final_weight (state_of F2 s2)" "trs (state_of H ?N) = []"
    "bits_ok W F \<Longrightarrow> bits_ok W H"
    by (cases "final_weight (state_of F2 s2)"; simp add: H_def shape bits_ok_steps)+
  have "\<forall>(s, t) \<in> set (map (\<lambda>t. (?N, shift_tr off t)) (trs (state_of F2 s2))). s < num_states H"
    by (auto simp: H)
  note spec = push_all_spec [OF this, of W, folded G]
  have f: "map snd (filter (\<lambda>(s, t). s = k) (map (\<lambda>t. (?N, shift_tr off t)) ts)) =
      (if k = ?N then map (shift_tr off) ts else [])" for k ts
    by (induction ts) auto
  show "num_states G = Suc (num_states F)" "start_state G = start_state F"
    "k < num_states F \<Longrightarrow> final_weight (state_of G k) = final_weight (state_of F k)"
    "k < num_states F \<Longrightarrow> trs (state_of G k) = trs (state_of F k)"
    "final_weight (state_of G (num_states F)) = final_weight (state_of F2 s2)"
    "trs (state_of G (num_states F)) = map (shift_tr off) (trs (state_of F2 s2))"
    "bits_ok W F \<Longrightarrow> bits_ok W G"
    using spec H by (simp_all add: f)
qed

lemma append_fst_spec:
  fixes F1 F2 :: "'w vfst" and W :: "'w semiring"
  defines "G \<equiv> append_fst W F1 F2" and "n \<equiv> num_states F1"
  shows "num_states G = n + num_states F2" "start_state G = start_state F1"
    "k < n \<Longrightarrow> final_weight (state_of G k) = final_weight (state_of F1 k) \<and> trs (state_of G k) = trs (state_of F1 k)"
    "k < num_states F2 \<Longrightarrow> final_weight (state_of G (k + n)) = final_weight (state_of F2 k) \<and>
       trs (state_of G (k + n)) = map (shift_tr n) (trs (state_of F2 k))"
    "bits_ok W F1 \<Longrightarrow> bits_ok W G"
proof -
  let ?G = "\<lambda>m. fold (copy_state W F2 n) [0 ..< m] F1"
  have "num_states (?G m) = n + m \<and> start_state (?G m) = start_state F1 \<and>
      (\<forall>k < n. final_weight (state_of (?G m) k) = final_weight (state_of F1 k) \<and> trs (state_of (?G m) k) = trs (state_of F1 k)) \<and>
      (\<forall>k < m. final_weight (state_of (?G m) (k + n)) = final_weight (state_of F2 k) \<and>
         trs (state_of (?G m) (k + n)) = map (shift_tr n) (trs (state_of F2 k))) \<and>
      (bits_ok W F1 \<longrightarrow> bits_ok W (?G m))" for m
  proof (induction m)
    case 0
    then show ?case by (simp add: n_def)
  next
    case (Suc m)
    have e: "?G (Suc m) = copy_state W F2 n m (?G m)" by simp
    note c = copy_state_spec [where F = "?G m" and W = W and ?F2.0 = F2 and off = n and ?s2.0 = m]
    from Suc c show ?case
      unfolding e by (auto simp: less_Suc_eq add.commute)
  qed
  from this [of "num_states F2"] show "num_states G = n + num_states F2" "start_state G = start_state F1"
    "k < n \<Longrightarrow> final_weight (state_of G k) = final_weight (state_of F1 k) \<and> trs (state_of G k) = trs (state_of F1 k)"
    "k < num_states F2 \<Longrightarrow> final_weight (state_of G (k + n)) = final_weight (state_of F2 k) \<and>
       trs (state_of G (k + n)) = map (shift_tr n) (trs (state_of F2 k))"
    "bits_ok W F1 \<Longrightarrow> bits_ok W G"
    by (simp_all add: G_def append_fst_def n_def)
qed

subsection \<open>Concatenation\<close>

definition concat_link :: "'w semiring \<Rightarrow> state_id option \<Rightarrow> nat \<Rightarrow> state_id \<Rightarrow> 'w vfst \<Rightarrow> 'w vfst" where
  "concat_link W start2 numstates1 s1 F =
     (case final_weight (state_of F s1) of
        None \<Rightarrow> F
      | Some w \<Rightarrow>
          let F = (case start2 of
                     None \<Rightarrow> F
                   | Some st2 \<Rightarrow> add_tr_unchecked W F s1 (tr_new EPS_LABEL EPS_LABEL w (st2 + numstates1)))
          in delete_final_weight_unchecked W F s1)"

definition fst_concat :: "'w semiring \<Rightarrow> 'w vfst \<Rightarrow> 'w vfst \<Rightarrow> 'w vfst res" where
  "fst_concat W F1 F2 =
     (let props1 = properties F1; props2 = properties F2; start1 = start_state F1
      in if start1 = None then Inr F1
      else
        let numstates1 = num_states F1;
            F = append_fst W F1 F2;
            start2 = start_state F2;
            F = fold (concat_link W start2 numstates1) [0 ..< numstates1] F
        in Inr (if start2 \<noteq> None
                then set_properties_with_mask F (concat_properties props1 props2 False) all_properties
                else F))"

lemma concat_link_spec:
  fixes F :: "'w vfst" and W :: "'w semiring" and st2 :: "state_id option" and off :: nat
  assumes s: "s < num_states F"
  defines "G \<equiv> concat_link W st2 off s F"
  shows "num_states G = num_states F" "start_state G = start_state F"
    "k < num_states F \<Longrightarrow> final_weight (state_of G k) = (if k = s then None else final_weight (state_of F k))"
    "k < num_states F \<Longrightarrow> trs (state_of G k) = (if k = s then trs (state_of F k) @
       (case (final_weight (state_of F s), st2) of (Some w, Some t) \<Rightarrow> [eps_tr w (t + off)] | _ \<Rightarrow> [])
       else trs (state_of F k))"
    "bits_ok W F \<Longrightarrow> bits_ok W G"
  using s by (cases "final_weight (state_of F s)"; cases st2;
      simp add: G_def concat_link_def shape bits_ok_steps eps_tr_def)+

definition linked :: "'w semiring \<Rightarrow> 'w vfst \<Rightarrow> 'w vfst \<Rightarrow> 'w vfst" where
  "linked W F1 F2 = fold (concat_link W (start_state F2) (num_states F1)) [0 ..< num_states F1] (append_fst W F1 F2)"

lemma linked_spec:
  fixes F1 F2 :: "'w vfst" and W :: "'w semiring"
  defines "G \<equiv> linked W F1 F2" and "n \<equiv> num_states F1"
  shows "num_states G = n + num_states F2" "start_state G = start_state F1"
    "k < n \<Longrightarrow> final_weight (state_of G k) = None"
    "k < n \<Longrightarrow> trs (state_of G k) = trs (state_of F1 k) @
       (case (final_weight (state_of F1 k), start_state F2) of (Some w, Some t) \<Rightarrow> [eps_tr w (t + n)] | _ \<Rightarrow> [])"
    "k < num_states F2 \<Longrightarrow> final_weight (state_of G (k + n)) = final_weight (state_of F2 k)"
    "k < num_states F2 \<Longrightarrow> trs (state_of G (k + n)) = map (shift_tr n) (trs (state_of F2 k))"
    "bits_ok W F1 \<Longrightarrow> bits_ok W G"
proof -
  let ?A = "append_fst W F1 F2"
  let ?G = "\<lambda>m. fold (concat_link W (start_state F2) n) [0 ..< m] ?A"
  note a = append_fst_spec [where W = W and ?F1.0 = F1 and ?F2.0 = F2, folded n_def]
  have "m \<le> n \<Longrightarrow> num_states (?G m) = n + num_states F2 \<and> start_state (?G m) = start_state F1 \<and>
      (\<forall>k < n + num_states F2. final_weight (state_of (?G m) k) = (if k < m then None else final_weight (state_of ?A k)) \<and>
        trs (state_of (?G m) k) = (if k < m then trs (state_of ?A k) @ (case (final_weight (state_of ?A k), start_state F2)
          of (Some w, Some t) \<Rightarrow> [eps_tr w (t + n)] | _ \<Rightarrow> []) else trs (state_of ?A k))) \<and>
      (bits_ok W F1 \<longrightarrow> bits_ok W (?G m))" for m
  proof (induction m)
    case 0
    then show ?case by (simp add: a)
  next
    case (Suc m)
    have e: "?G (Suc m) = concat_link W (start_state F2) n m (?G m)" by simp
    have "m < num_states (?G m)" using Suc by simp
    note c = concat_link_spec [OF this, where W = W and ?st2.0 = "start_state F2" and off = n]
    from Suc c show ?case
      unfolding e by (simp add: less_Suc_eq)
  qed
  note * = this [OF le_refl]
  have G: "G = ?G n" by (simp add: G_def linked_def n_def)
  show "num_states G = n + num_states F2" "start_state G = start_state F1"
    "k < n \<Longrightarrow> final_weight (state_of G k) = None"
    "k < n \<Longrightarrow> trs (state_of G k) = trs (state_of F1 k) @
       (case (final_weight (state_of F1 k), start_state F2) of (Some w, Some t) \<Rightarrow> [eps_tr w (t + n)] | _ \<Rightarrow> [])"
    "k < num_states F2 \<Longrightarrow> final_weight (state_of G (k + n)) = final_weight (state_of F2 k)"
    "k < num_states F2 \<Longrightarrow> trs (state_of G (k + n)) = map (shift_tr n) (trs (state_of F2 k))"
    "bits_ok W F1 \<Longrightarrow> bits_ok W G"
    using * a unfolding G by simp_all
qed

lemma fst_concat_eq:
  "fst_concat W F1 F2 = Inr (if start_state F1 = None then F1 else if start_state F2 = None then linked W F1 F2
     else set_properties_with_mask (linked W F1 F2) (concat_properties (properties F1) (properties F2) False) all_properties)"
  by (simp add: fst_concat_def linked_def Let_def)

subsection \<open>The two parts of the result\<close>

lemma part2_path:
  assumes "(p, b) \<in> E\<^sup>*" "p = a + n" "a < m"
    and "\<And>a b. a < m \<Longrightarrow> (a + n, b) \<in> E \<Longrightarrow> \<exists>k < m. b = k + n \<and> (a, k) \<in> E2"
  shows "\<exists>k < m. b = k + n \<and> (a, k) \<in> E2\<^sup>*"
  using assms(1-3)
proof (induction rule: rtrancl_induct)
  case (step y z)
  then obtain k where "k < m" "y = k + n" "(a, k) \<in> E2\<^sup>*" by blast
  with assms(4) [of k z] step.hyps(2) show ?case by (metis rtrancl.rtrancl_into_rtrancl)
qed auto

lemma part1_path:
  assumes "(a, b) \<in> E\<^sup>*" "b < n"
    and "\<And>a b. (a, b) \<in> E \<Longrightarrow> b < n \<Longrightarrow> a < n \<and> (a, b) \<in> E1"
  shows "a < n \<and> (a, b) \<in> E1\<^sup>*"
  using assms(1,2)
proof (induction rule: converse_rtrancl_induct)
  case (step y z)
  then have "z < n" "(z, b) \<in> E1\<^sup>*" by simp_all
  with assms(3) [OF step.hyps(1)] show ?case by (meson converse_rtrancl_into_rtrancl)
qed simp

lemma shift_path:
  assumes "(a, b) \<in> E2\<^sup>*" and "\<And>a b. (a, b) \<in> E2 \<Longrightarrow> (a + n, b + n) \<in> E"
  shows "(a + n, b + n) \<in> E\<^sup>*"
  using assms(1) by (induction rule: rtrancl_induct) (auto dest: assms(2) intro: rtrancl.rtrancl_into_rtrancl)

lemma cyclic_at_step: "cyclic_at F s \<longleftrightarrow> (\<exists>b. (s, b) \<in> edges F \<and> (b, s) \<in> (edges F)\<^sup>*)"
  unfolding cyclic_at_def by (meson tranclD rtrancl_into_trancl2)

lemma ex_arc_at: "ex_arc F P \<longleftrightarrow> (\<exists>s t. (s, t) \<in> arcs F \<and> P t)"
  by (auto simp: ex_arc_def arcs_def)

text \<open>A transducer that starts with \<open>F2\<close>'s states shifted by \<open>n\<close>.\<close>

definition shifted_in :: "nat \<Rightarrow> 'w vfst \<Rightarrow> 'w vfst \<Rightarrow> bool" where
  "shifted_in n F2 G \<longleftrightarrow> n + num_states F2 \<le> num_states G \<and>
     (\<forall>k < num_states F2. final_weight (state_of G (k + n)) = final_weight (state_of F2 k) \<and>
        trs (state_of G (k + n)) = map (shift_tr n) (trs (state_of F2 k)))"

lemma shifted_copy: "shifted_in n F2 G \<Longrightarrow> copy_of (\<lambda>s. s + n) F2 G"
  by (auto simp: shifted_in_def copy_of_def shift_tr_def)

lemma shifted_arc:
  assumes "shifted_in n F2 G" "k < num_states F2"
  shows "(k + n, t) \<in> arcs G \<longleftrightarrow> (\<exists>u. (k, u) \<in> arcs F2 \<and> t = shift_tr n u)"
    "final_at G (k + n) w \<longleftrightarrow> final_at F2 k w"
  using assms by (auto simp: shifted_in_def arcs_def final_at_def)

lemma shifted_arcs:
  assumes "shifted_in n F2 G"
  shows "(k, u) \<in> arcs F2 \<Longrightarrow> (k + n, shift_tr n u) \<in> arcs G"
    "(a, b) \<in> edges F2 \<Longrightarrow> (a + n, b + n) \<in> edges G"
proof -
  show *: "(k, u) \<in> arcs F2 \<Longrightarrow> (k + n, shift_tr n u) \<in> arcs G" for k u
    using shifted_arc(1) [OF assms, of k "shift_tr n u"] by (auto simp: arcs_def [of F2])
  show "(a, b) \<in> edges F2 \<Longrightarrow> (a + n, b + n) \<in> edges G"
    unfolding edges_iff using * by (metis shift_tr_simps(4))
qed

lemma shifted_edge:
  assumes "shifted_in n F2 G" "targets_ok F2" "a < num_states F2" "(a + n, b) \<in> edges G"
  shows "\<exists>k < num_states F2. b = k + n \<and> (a, k) \<in> edges F2"
proof -
  from assms(4) obtain u where "(a, u) \<in> arcs F2" "b = nextstate u + n"
    unfolding edges_iff shifted_arc(1) [OF assms(1,3)] by auto
  with assms(2) show ?thesis by (auto simp: edges_iff targets_iff)
qed

lemma shifted_reach:
  assumes "shifted_in n F2 G" "targets_ok F2" "(a + n, b) \<in> (edges G)\<^sup>*" "a < num_states F2"
  shows "\<exists>k < num_states F2. b = k + n \<and> (a, k) \<in> (edges F2)\<^sup>*"
  by (rule part2_path [OF assms(3) refl assms(4) shifted_edge [OF assms(1,2)]])

lemma shifted_sem:
  assumes s: "shifted_in n F2 G"
  shows "sem W G Acceptor \<Longrightarrow> sem W F2 Acceptor" "sem W G TopSorted \<Longrightarrow> sem W F2 TopSorted"
    "sem W F2 Epsilons \<Longrightarrow> sem W G Epsilons" "sem W F2 IEpsilons \<Longrightarrow> sem W G IEpsilons"
    "sem W F2 OEpsilons \<Longrightarrow> sem W G OEpsilons" "sem W F2 Weighted \<Longrightarrow> sem W G Weighted"
    "sem W F2 Cyclic \<Longrightarrow> sem W G Cyclic" "sem W F2 WeightedCycles \<Longrightarrow> sem W G WeightedCycles"
    "sem W G IDeterministic \<Longrightarrow> sem W F2 IDeterministic" "sem W G ODeterministic \<Longrightarrow> sem W F2 ODeterministic"
    "sem W G ILabelSorted \<Longrightarrow> sem W F2 ILabelSorted" "sem W G OLabelSorted \<Longrightarrow> sem W F2 OLabelSorted"
proof -
  note a = shifted_arcs [OF s]
  have l: "l (shift_tr n u) = l u" if "l = ilabel \<or> l = olabel" for l and u :: "'a tr" using that by auto
  show "sem W G Acceptor \<Longrightarrow> sem W F2 Acceptor" using a(1) by fastforce
  show "sem W G TopSorted \<Longrightarrow> sem W F2 TopSorted" using a(2) by fastforce
  show "sem W F2 Epsilons \<Longrightarrow> sem W G Epsilons" "sem W F2 IEpsilons \<Longrightarrow> sem W G IEpsilons"
    "sem W F2 OEpsilons \<Longrightarrow> sem W G OEpsilons"
    unfolding sem_ex_arc ex_arc_at using a(1) by (metis shift_tr_simps(1,2))+
  have f: "final_at F2 k w \<Longrightarrow> final_at G (k + n) w" for k w
    using shifted_arc(2) [OF s, of k w] by (auto simp: final_at_def [of F2])
  show "sem W F2 Weighted \<Longrightarrow> sem W G Weighted"
    unfolding weighted_at using f a(1) by (metis shift_tr_simps(3))
  have p: "(x, y) \<in> (edges F2)\<^sup>* \<Longrightarrow> (x + n, y + n) \<in> (edges G)\<^sup>*" for x y
    by (rule shift_path [OF _ a(2)])
  show "sem W F2 Cyclic \<Longrightarrow> sem W G Cyclic"
    unfolding sem.simps cyclic_at_step using a(2) p by blast
  show "sem W F2 WeightedCycles \<Longrightarrow> sem W G WeightedCycles"
    unfolding weighted_cycles_at using a(1) p by (metis shift_tr_simps(3,4))
  have m: "map ilabel (trs (state_of G (k + n))) = map ilabel (trs (state_of F2 k))"
    "map olabel (trs (state_of G (k + n))) = map olabel (trs (state_of F2 k))"
    "k + n < num_states G" if "k < num_states F2" for k
    using s that by (simp_all add: shifted_in_def o_def)
  show "sem W G IDeterministic \<Longrightarrow> sem W F2 IDeterministic" "sem W G ODeterministic \<Longrightarrow> sem W F2 ODeterministic"
    "sem W G ILabelSorted \<Longrightarrow> sem W F2 ILabelSorted" "sem W G OLabelSorted \<Longrightarrow> sem W F2 OLabelSorted"
    unfolding sem.simps using m by metis+
qed

lemma shifted_co:
  assumes s: "shifted_in n F2 G" and t: "targets_ok F2" and k: "k < num_states F2"
  shows "coaccessible_state G (k + n) \<longleftrightarrow> coaccessible_state F2 k"
proof
  assume "coaccessible_state G (k + n)"
  then obtain f where f: "is_final_state G f" "(k + n, f) \<in> (edges G)\<^sup>*"
    by (auto simp: coaccessible_state_def)
  from shifted_reach [OF s t f(2) k] obtain j where "j < num_states F2" "f = j + n" "(k, j) \<in> (edges F2)\<^sup>*"
    by blast
  with f(1) s show "coaccessible_state F2 k"
    by (auto simp: coaccessible_state_def is_final_state_def shifted_in_def intro!: exI [of _ j])
next
  assume "coaccessible_state F2 k"
  then obtain f where f: "is_final_state F2 f" "(k, f) \<in> (edges F2)\<^sup>*"
    by (auto simp: coaccessible_state_def)
  from shift_path [OF f(2) shifted_arcs(2) [OF s]] have "(k + n, f + n) \<in> (edges G)\<^sup>*" .
  with f(1) s show "coaccessible_state G (k + n)"
    by (auto simp: coaccessible_state_def is_final_state_def shifted_in_def intro!: exI [of _ "f + n"])
qed

subsection \<open>Concatenation is correct\<close>

lemma linked_parts:
  fixes F1 F2 :: "'w vfst" and W :: "'w semiring"
  assumes t: "targets_ok F1" "targets_ok F2"
  defines "G \<equiv> linked W F1 F2" and "n \<equiv> num_states F1"
  shows "shifted_in n F2 G" "extends F1 G" "targets_ok G"
    "s < n \<Longrightarrow> (s, u) \<in> arcs G \<longleftrightarrow> (s, u) \<in> arcs F1 \<or>
       (\<exists>w i. final_at F1 s w \<and> start_state F2 = Some i \<and> u = eps_tr w (i + n))"
    "s < n \<Longrightarrow> \<not> final_at G s w"
proof -
  note spec = linked_spec [where W = W and ?F1.0 = F1 and ?F2.0 = F2, folded G_def n_def]
  show s: "shifted_in n F2 G" by (simp add: shifted_in_def spec)
  show ex: "extends F1 G" by (auto simp: extends_def spec n_def [symmetric])
  show arc: "(s, u) \<in> arcs G \<longleftrightarrow> (s, u) \<in> arcs F1 \<or>
       (\<exists>w i. final_at F1 s w \<and> start_state F2 = Some i \<and> u = eps_tr w (i + n))" if "s < n" for s u
    using that by (cases "final_weight (state_of F1 s)"; cases "start_state F2")
      (auto simp: arcs_def spec final_at_def n_def [symmetric])
  show "s < n \<Longrightarrow> \<not> final_at G s w" by (simp add: final_at_def spec)
  have "nextstate u < num_states G" if a: "(s, u) \<in> arcs G" for s u
  proof (cases "s < n")
    case True
    with a t show ?thesis unfolding arc [OF True]
      by (auto simp: targets_iff spec(1) n_def [symmetric] trans_less_add1)
  next
    case False
    then obtain k where k: "s = k + n" by (metis add.commute le_Suc_ex not_less)
    with a have "k < num_states F2" by (simp add: arcs_def spec)
    with a k t(2) show ?thesis by (auto simp: shifted_arc [OF s] targets_iff spec(1))
  qed
  moreover have "i < num_states G" if "start_state G = Some i" for i
    using that t(1) by (auto simp: targets_iff spec n_def [symmetric] trans_less_add1)
  ultimately show "targets_ok G" by (simp add: targets_iff)
qed

context weight_monoids begin

lemma linked_acc:
  assumes t: "targets_ok F1" "targets_ok F2" and s: "s < num_states F1"
  shows "accepts mul (linked W F1 F2) s x y w \<longleftrightarrow> (\<exists>x1 y1 w1 x2 y2 w2. accepts mul F1 s x1 y1 w1 \<and>
    transduces mul F2 x2 y2 w2 \<and> x = x1 @ x2 \<and> y = y1 @ y2 \<and> w = mul w1 w2)"
proof
  let ?G = "linked W F1 F2" and ?n = "num_states F1"
  note parts = linked_parts [OF t, where W = W]
  note copy = copy_of_acc [OF shifted_copy [OF parts(1)] t(2)]
  assume "accepts mul ?G s x y w"
  from this s show "\<exists>x1 y1 w1 x2 y2 w2. accepts mul F1 s x1 y1 w1 \<and>
    transduces mul F2 x2 y2 w2 \<and> x = x1 @ x2 \<and> y = y1 @ y2 \<and> w = mul w1 w2"
  proof (induction rule: accepts.induct)
    case (acc_final s w)
    with parts(5) show ?case by blast
  next
    case (acc_arc s u x y w)
    from acc_arc.hyps(1) consider "(s, u) \<in> arcs F1"
      | v i where "final_at F1 s v" "start_state F2 = Some i" "u = eps_tr v (i + ?n)"
      unfolding parts(4) [OF acc_arc.prems] by blast
    then show ?case
    proof cases
      case 1
      with t(1) have "nextstate u < ?n" by (simp add: targets_iff)
      with acc_arc.IH obtain x1 y1 w1 x2 y2 w2 where a: "accepts mul F1 (nextstate u) x1 y1 w1"
        "transduces mul F2 x2 y2 w2" "x = x1 @ x2" "y = y1 @ y2" "w = mul w1 w2" by blast
      from accepts.acc_arc [OF 1 a(1)] a(2-) show ?thesis
        by (intro exI [of _ "ext_label (ilabel u) x1"] exI [of _ "ext_label (olabel u) y1"]
            exI [of _ "mul (weight u) w1"] exI [of _ x2] exI [of _ y2] exI [of _ w2]) (simp add: mul_assoc)
    next
      case 2
      then have "i < num_states F2" using t(2) by (simp add: targets_iff)
      with acc_arc.hyps(2) copy 2 have "transduces mul F2 x y w" by (simp add: transduces_def)
      with 2 show ?thesis
        by (intro exI [of _ "[]"] exI [of _ v] exI [of _ x] exI [of _ y] exI [of _ w])
          (auto intro: accepts.acc_final)
    qed
  qed
next
  let ?G = "linked W F1 F2" and ?n = "num_states F1"
  note parts = linked_parts [OF t, where W = W]
  note copy = copy_of_acc [OF shifted_copy [OF parts(1)] t(2)]
  assume "\<exists>x1 y1 w1 x2 y2 w2. accepts mul F1 s x1 y1 w1 \<and>
    transduces mul F2 x2 y2 w2 \<and> x = x1 @ x2 \<and> y = y1 @ y2 \<and> w = mul w1 w2"
  then obtain x1 y1 w1 x2 y2 w2 i where a: "accepts mul F1 s x1 y1 w1" "start_state F2 = Some i"
    "accepts mul F2 i x2 y2 w2" "x = x1 @ x2" "y = y1 @ y2" "w = mul w1 w2"
    by (auto simp: transduces_def)
  have i: "accepts mul ?G (i + ?n) x2 y2 w2"
    using a(2,3) copy t(2) by (simp add: targets_iff)
  have "accepts mul ?G s (x1 @ x2) (y1 @ y2) (mul w1 w2)"
    using a(1)
  proof (rule acc_sim [where h = "\<lambda>s. s" and g = "\<lambda>v. mul v w2"])
    fix s v
    assume f: "final_at F1 s v"
    then have "(s, eps_tr v (i + ?n)) \<in> arcs ?G" using a(2) by (subst parts(4)) (auto simp: final_at_def)
    from acc_eps [OF this, of mul x2 y2 w2] i show "accepts mul ?G s x2 y2 (mul v w2)" by simp
  next
    fix s u
    assume "(s, u) \<in> arcs F1"
    with extends_arcs [OF parts(2)] show "\<exists>v. (s, v) \<in> arcs ?G \<and> ilabel v = ilabel u \<and> olabel v = olabel u \<and>
        weight v = weight u \<and> nextstate v = nextstate u" by blast
  qed (simp add: mul_assoc)
  with a show "accepts mul ?G s x y w" by simp
qed

lemma fst_concat_transduces:
  assumes t: "targets_ok F1" "targets_ok F2" and G: "fst_concat W F1 F2 = Inr G"
  shows "transduces mul G x y w \<longleftrightarrow> (\<exists>x1 y1 w1 x2 y2 w2. transduces mul F1 x1 y1 w1 \<and>
    transduces mul F2 x2 y2 w2 \<and> x = x1 @ x2 \<and> y = y1 @ y2 \<and> w = mul w1 w2)"
proof (cases "start_state F1")
  case None
  with G show ?thesis by (simp add: fst_concat_eq transduces_def)
next
  case (Some i)
  then have "i < num_states F1" using t(1) by (simp add: targets_iff)
  from linked_acc [OF t this, of x y w] Some
  have "transduces mul (linked W F1 F2) x y w \<longleftrightarrow> (\<exists>x1 y1 w1 x2 y2 w2. transduces mul F1 x1 y1 w1 \<and>
    transduces mul F2 x2 y2 w2 \<and> x = x1 @ x2 \<and> y = y1 @ y2 \<and> w = mul w1 w2)"
    by (simp add: transduces_def [of mul F1] transduces_def [of mul "linked W F1 F2"] linked_spec(2))
  moreover have "transduces mul G = transduces mul (linked W F1 F2)"
    using G Some by (auto simp: fst_concat_eq split: if_splits)
  ultimately show ?thesis by simp
qed

end

end
