(* ===== verification/Concat_Sound.thy ===== *)
theory Concat_Sound
  imports Concat
begin

text \<open>
  Soundness of \<open>concat_properties\<close>: every flag that \<open>fst_concat\<close> stores holds of the concatenation.
\<close>

subsection \<open>The bits of a concatenation\<close>

lemma linked_edge:
  assumes t: "targets_ok F1" "targets_ok F2"
  shows "(a, b) \<in> edges (linked W F1 F2) \<Longrightarrow> b < num_states F1 \<Longrightarrow> a < num_states F1 \<and> (a, b) \<in> edges F1"
    "a < num_states F1 \<Longrightarrow> (a, b) \<in> edges (linked W F1 F2) \<longleftrightarrow> (a, b) \<in> edges F1 \<or>
       is_final_state F1 a \<and> (\<exists>i. start_state F2 = Some i \<and> b = i + num_states F1)"
proof -
  let ?G = "linked W F1 F2" and ?n = "num_states F1"
  note parts = linked_parts [OF t, where W = W]
  show e: "(a, b) \<in> edges ?G \<longleftrightarrow> (a, b) \<in> edges F1 \<or>
       is_final_state F1 a \<and> (\<exists>i. start_state F2 = Some i \<and> b = i + num_states F1)" if "a < ?n" for a b
    unfolding edges_iff parts(4) [OF that] is_final_at by (metis eps_tr_simps(4))
  show "a < ?n \<and> (a, b) \<in> edges F1" if "(a, b) \<in> edges ?G" "b < ?n" for a b
  proof (cases "a < ?n")
    case True
    with that e [OF True] show ?thesis by auto
  next
    case False
    then obtain k where k: "a = k + ?n" by (metis add.commute le_Suc_ex not_less)
    have "k < num_states F2"
      using that(1) k by (auto simp: edges_def arcs_def linked_spec)
    from shifted_edge [OF parts(1) t(2) this] that k show ?thesis by auto
  qed
qed

lemma linked_sem:
  fixes F1 F2 :: "'w vfst" and W :: "'w semiring"
  assumes t: "targets_ok F1" "targets_ok F2" and i: "start_state F1 = Some i1" "start_state F2 = Some i2"
  defines "G \<equiv> linked W F1 F2"
  shows "sem W G Acceptor \<longleftrightarrow> sem W F1 Acceptor \<and> sem W F2 Acceptor"
    "sem W G Weighted \<longleftrightarrow> sem W F1 Weighted \<or> sem W F2 Weighted"
    "sem W G Cyclic \<longleftrightarrow> sem W F1 Cyclic \<or> sem W F2 Cyclic"
    "sem W G InitialCyclic \<longleftrightarrow> sem W F1 InitialCyclic"
    "sem W G WeightedCycles \<longleftrightarrow> sem W F1 WeightedCycles \<or> sem W F2 WeightedCycles"
    "sem W G Accessible \<Longrightarrow> sem W F1 Accessible" "sem W G Accessible \<Longrightarrow> sem W F2 Accessible"
    "sem W F1 Accessible \<Longrightarrow> sem W F1 Coaccessible \<Longrightarrow> sem W F2 Accessible \<Longrightarrow> sem W G Accessible"
    "sem W G Coaccessible \<Longrightarrow> sem W F1 Coaccessible" "sem W G Coaccessible \<Longrightarrow> sem W F2 Coaccessible"
    "sem W F1 Coaccessible \<Longrightarrow> sem W F2 Coaccessible \<Longrightarrow> sem W G Coaccessible"
    "sem W G StringFst \<Longrightarrow> sem W F1 StringFst" "sem W G StringFst \<Longrightarrow> sem W F2 StringFst"
proof -
  let ?n = "num_states F1" and ?m = "num_states F2"
  note parts = linked_parts [OF t, where W = W, folded G_def]
  note spec = linked_spec [where W = W and ?F1.0 = F1 and ?F2.0 = F2, folded G_def]
  note edge = linked_edge [OF t, where W = W, folded G_def]
  note sh = shifted_sem [OF parts(1), of W] and ex = mono_sem [OF extends_arcs [OF parts(2)], of W]
  have i1: "i1 < ?n" and i2: "i2 < ?m" using t i by (auto simp: targets_iff)
  have sub: "edges F1 \<subseteq> edges G" by (rule edges_mono [OF extends_arcs [OF parts(2)]])
  have split: "s < ?n \<or> (\<exists>k < ?m. s = k + ?n)" if "s < num_states G" for s
    using that by (metis add.commute le_Suc_ex nat_add_left_cancel_less not_less spec(1))
  have arc: "(s, u) \<in> arcs G \<longleftrightarrow> (s, u) \<in> arcs F1 \<or> (\<exists>w. final_at F1 s w \<and> u = eps_tr w (i2 + ?n)) \<or>
      (\<exists>k v. s = k + ?n \<and> (k, v) \<in> arcs F2 \<and> u = shift_tr ?n v)" for s u
  proof (cases "s < ?n")
    case True
    then show ?thesis unfolding parts(4) [OF True] by (auto simp: i(2))
  next
    case False
    have "(s, u) \<in> arcs G \<longleftrightarrow> (\<exists>k v. s = k + ?n \<and> (k, v) \<in> arcs F2 \<and> u = shift_tr ?n v)"
      using False split [of s] shifted_arc(1) [OF parts(1)] shifted_arcs(1) [OF parts(1)]
      by (fastforce simp: arcs_def [of G])
    with False show ?thesis by (auto simp: arcs_def [of F1] final_at_def)
  qed
  have fin: "is_final_state G s \<longleftrightarrow> (\<exists>k. s = k + ?n \<and> is_final_state F2 k)" for s
    using split [of s] shifted_arc(2) [OF parts(1)] parts(5) parts(1)
    by (auto simp: is_final_at shifted_in_def final_at_def)
  have finw: "final_at G s w \<longleftrightarrow> (\<exists>k. s = k + ?n \<and> final_at F2 k w)" for s w
    using split [of s] shifted_arc(2) [OF parts(1)] parts(5) parts(1)
    by (auto simp: shifted_in_def final_at_def)
  have p1: "a < ?n \<and> (a, b) \<in> (edges F1)\<^sup>*" if "(a, b) \<in> (edges G)\<^sup>*" "b < ?n" for a b
    by (rule part1_path [OF that edge(1)])
  have p2: "\<exists>k < ?m. b = k + ?n \<and> (a, k) \<in> (edges F2)\<^sup>*" if "(a + ?n, b) \<in> (edges G)\<^sup>*" "a < ?m" for a b
    by (rule shifted_reach [OF parts(1) t(2) that])
  have e2: "(a, b) \<in> edges F2 \<Longrightarrow> (a + ?n, b + ?n) \<in> edges G" for a b
    by (rule shifted_arcs(2) [OF parts(1)])
  have cyc: "cyclic_at G s \<longleftrightarrow> cyclic_at F1 s" if "s < ?n" for s
    unfolding cyclic_at_step using edge(1) p1 that sub rtrancl_mono [OF sub] by (metis subsetD)
  have cyc2: "cyclic_at G (k + ?n) \<Longrightarrow> cyclic_at F2 k" if "k < ?m" for k
    unfolding cyclic_at_step
    using shifted_edge [OF parts(1) t(2) that] p2 by (metis add_right_cancel)
  show "sem W G Acceptor \<longleftrightarrow> sem W F1 Acceptor \<and> sem W F2 Acceptor"
  proof
    assume "sem W F1 Acceptor \<and> sem W F2 Acceptor"
    then show "sem W G Acceptor"
      unfolding sem_ex_arc ex_arc_at arc by (metis eps_tr_simps(1,2) shift_tr_simps(1,2))
  qed (use ex(1) sh(1) in blast)
  show "sem W G Weighted \<longleftrightarrow> sem W F1 Weighted \<or> sem W F2 Weighted"
  proof
    show "sem W F1 Weighted \<or> sem W F2 Weighted" if "sem W G Weighted"
      using that finw unfolding weighted_at arc by (metis eps_tr_simps(3) shift_tr_simps(3))
    show "sem W G Weighted" if "sem W F1 Weighted \<or> sem W F2 Weighted"
      using that sh(6) extends_arcs [OF parts(2)] unfolding weighted_at arc by (metis eps_tr_simps(3))
  qed
  show ic: "sem W G InitialCyclic \<longleftrightarrow> sem W F1 InitialCyclic"
    using cyc [OF i1] by (simp add: spec(2) i)
  have out: "s < num_states F" if "cyclic_at F s" for s and F :: "'w vfst"
    using that unfolding cyclic_at_step by (auto simp: edges_def arcs_def)
  show "sem W G Cyclic \<longleftrightarrow> sem W F1 Cyclic \<or> sem W F2 Cyclic"
    using cyc cyc2 split out [of G] sh(7) ex(6) by (auto simp del: sem.simps) (metis sem.simps(10))+
  show "sem W G WeightedCycles \<longleftrightarrow> sem W F1 WeightedCycles \<or> sem W F2 WeightedCycles"
  proof
    assume "sem W G WeightedCycles"
    then obtain s u where u: "(s, u) \<in> arcs G" "nontrivial W (weight u)" "(nextstate u, s) \<in> (edges G)\<^sup>*"
      unfolding weighted_cycles_at by blast
    show "sem W F1 WeightedCycles \<or> sem W F2 WeightedCycles"
    proof (cases "s < ?n")
      case True
      from p1 [OF u(3) True] u True have "(s, u) \<in> arcs F1"
        unfolding parts(4) [OF True] by auto
      with u(2) p1 [OF u(3) True] show ?thesis unfolding weighted_cycles_at by blast
    next
      case False
      with u(1) split [of s] obtain k where k: "k < ?m" "s = k + ?n" by (auto simp: arcs_def)
      with u(1) obtain v where v: "(k, v) \<in> arcs F2" "u = shift_tr ?n v"
        by (auto simp: shifted_arc [OF parts(1)])
      with t(2) have "nextstate v < ?m" by (auto simp: targets_iff)
      with p2 [of "nextstate v" s] u(3) v k have "(nextstate v, k) \<in> (edges F2)\<^sup>*" by auto
      with u(2) v show ?thesis unfolding weighted_cycles_at by auto
    qed
  qed (use ex(7) sh(8) in blast)
  have start: "start_state G = Some i1" by (simp add: spec i)
  show "sem W G Accessible \<Longrightarrow> sem W F1 Accessible"
    using p1 by (auto simp: spec(1) start accessible_state_def i)
  have reach2: "s < ?n \<or> (\<exists>k. s = k + ?n \<and> (i2, k) \<in> (edges F2)\<^sup>*)" if "(i1, s) \<in> (edges G)\<^sup>*" for s
    using that
  proof (induction rule: rtrancl_induct)
    case (step y z)
    then have "y < num_states G" using edges_range [OF parts(3)] by auto
    from step.IH show ?case
    proof
      assume "y < ?n"
      with step.hyps(2) edge(2) [of y z] edges_range [OF t(1), of y z] show ?thesis by (auto simp: i)
    next
      assume "\<exists>k. y = k + ?n \<and> (i2, k) \<in> (edges F2)\<^sup>*"
      then obtain k where k: "y = k + ?n" "(i2, k) \<in> (edges F2)\<^sup>*" by blast
      with \<open>y < num_states G\<close> have "k < ?m" by (simp add: spec(1))
      with shifted_edge [OF parts(1) t(2) this, of z] step.hyps(2) k show ?thesis
        by (auto intro: rtrancl.rtrancl_into_rtrancl)
    qed
  qed (simp add: i1)
  show "sem W F2 Accessible" if "sem W G Accessible"
  proof -
    have "(i2, k) \<in> (edges F2)\<^sup>*" if "k < ?m" for k
      using \<open>sem W G Accessible\<close> that reach2 [of "k + ?n"]
      by (auto simp: spec(1) start accessible_state_def)
    then show ?thesis by (simp add: accessible_state_def i)
  qed
  show "sem W G Accessible" if a: "sem W F1 Accessible" "sem W F1 Coaccessible" "sem W F2 Accessible"
  proof -
    have A: "(i1, s) \<in> (edges G)\<^sup>*" if "s < ?n" for s
      using a(1) that rtrancl_mono [OF sub] by (auto simp: accessible_state_def i)
    from a(2) i1 obtain f where "is_final_state F1 f" by (auto simp: coaccessible_state_def)
    then have "f < ?n" "(f, i2 + ?n) \<in> edges G"
      using edge(2) by (auto simp: i is_final_state_def)
    with A have "(i1, i2 + ?n) \<in> (edges G)\<^sup>*" by (meson rtrancl.rtrancl_into_rtrancl)
    moreover have "(i2 + ?n, k + ?n) \<in> (edges G)\<^sup>*" if "k < ?m" for k
      using a(3) that by (intro shift_path [OF _ e2]) (auto simp: accessible_state_def i)
    ultimately have "(i1, k + ?n) \<in> (edges G)\<^sup>*" if "k < ?m" for k using that by (meson rtrancl_trans)
    with A split show ?thesis by (auto simp: accessible_state_def start)
  qed
  have co2: "coaccessible_state G (k + ?n) \<longleftrightarrow> coaccessible_state F2 k" if "k < ?m" for k
    by (rule shifted_co [OF parts(1) t(2) that])
  show "sem W G Coaccessible \<Longrightarrow> sem W F2 Coaccessible"
    using co2 by (simp add: spec(1))
  have co1: "s < ?n \<longrightarrow> coaccessible_state F1 s" if "(s, f) \<in> (edges G)\<^sup>*" "is_final_state G f" for s f
    using that
  proof (induction rule: converse_rtrancl_induct)
    case base
    then show ?case by (auto simp: fin)
  next
    case (step y z)
    show ?case
    proof
      assume "y < ?n"
      with step edge(2) [of y z] edges_range [OF t(1), of y z] show "coaccessible_state F1 y"
        by (auto simp: coaccessible_state_def intro: converse_rtrancl_into_rtrancl)
    qed
  qed
  then show "sem W G Coaccessible \<Longrightarrow> sem W F1 Coaccessible"
    unfolding sem.simps spec(1) coaccessible_state_def [of G] by (meson trans_less_add1)
  show "sem W G Coaccessible" if a: "sem W F1 Coaccessible" "sem W F2 Coaccessible"
  proof -
    have "coaccessible_state G s" if "s < ?n" for s
    proof -
      from a(1) that obtain f where f: "is_final_state F1 f" "(s, f) \<in> (edges F1)\<^sup>*"
        by (auto simp: coaccessible_state_def)
      then have "(s, f) \<in> (edges G)\<^sup>*" "(f, i2 + ?n) \<in> edges G"
        using rtrancl_mono [OF sub] edge(2) by (auto simp: i is_final_state_def)
      moreover have "coaccessible_state G (i2 + ?n)" using co2 [OF i2] a(2) i2 by simp
      ultimately show ?thesis
        by (auto simp: coaccessible_state_def intro: rtrancl_trans)
    qed
    moreover have "coaccessible_state G (k + ?n)" if "k < ?m" for k using co2 [OF that] a(2) that by simp
    ultimately show ?thesis unfolding sem.simps using split by metis
  qed
  have str: "i1 = 0 \<and> (\<forall>s < ?n + ?m. string_state G s)" if "sem W G StringFst"
    using that i1 by (auto simp: spec(1) start)
  have at: "string_state G s" if "sem W G StringFst" "s < ?n + ?m" for s using str that by blast
  have step: "map nextstate (trs (state_of G s)) = [Suc s]" if "sem W G StringFst" "s < ?n" for s
    using at [OF that(1), of s] that(2) i2 by (auto simp: string_state_def spec(1) split: if_splits)
  have link: "Suc s = i2 + ?n" if "sem W G StringFst" "s < ?n" "is_final_state F1 s" for s
    using step [OF that(1,2)] spec(4) [OF that(2)] that(3) i by (auto simp: is_final_state_def)
  have last: "is_final_state F1 s \<and> trs (state_of F1 s) = [] \<and> i2 = 0"
    if "sem W G StringFst" "Suc s = ?n" for s
    using step [OF that(1), of s] spec(4) [of s] that(2) targets_state [OF t(1), of s] i
    by (cases "final_weight (state_of F1 s)") (auto simp: is_final_state_def)
  have mid: "\<not> is_final_state F1 s \<and> map nextstate (trs (state_of F1 s)) = [Suc s]"
    if "sem W G StringFst" "Suc s < ?n" for s
    using step [OF that(1), of s] spec(4) [of s] that(2) link [OF that(1), of s]
    by (cases "final_weight (state_of F1 s)") (auto simp: is_final_state_def i)
  show "sem W F1 StringFst" if g: "sem W G StringFst"
  proof -
    have "string_state F1 s" if "s < ?n" for s
      using last [OF g, of s] mid [OF g, of s] that by (auto simp: string_state_def)
    then show ?thesis using str [OF g] by (simp add: i)
  qed
  show "sem W F2 StringFst" if g: "sem W G StringFst"
  proof -
    have "string_state F2 k" if "k < ?m" for k
      using at [OF g, of "k + ?n"] that spec(5,6) [of k] fin
      by (auto simp: string_state_def spec(1) o_def split: if_splits)
    moreover have "i2 = 0" using last [OF g, of "?n - 1"] i1 by simp
    ultimately show ?thesis by (simp add: i)
  qed
qed

lemma contains_or: "contains p (a OR b) \<longleftrightarrow> contains p a \<and> contains p b"
  by (auto simp: contains_def bit_eq_iff bit_and_iff bit_or_iff)

lemma concat_properties_bits:
  fixes p q defines "c \<equiv> concat_properties p q False" and "tr \<equiv> bit p 40 \<and> bit p 42"
  shows "bit c 16 \<longleftrightarrow> bit p 16 \<and> bit q 16" "bit c 17 \<longleftrightarrow> bit p 17 \<or> tr \<and> bit q 17" "\<not> bit c 18"
    "bit c 19 \<longleftrightarrow> bit p 19 \<or> tr \<and> bit q 19" "\<not> bit c 20" "bit c 21 \<longleftrightarrow> bit p 21 \<or> tr \<and> bit q 21"
    "bit c 22 \<longleftrightarrow> bit p 22 \<or> tr \<and> bit q 22" "\<not> bit c 23" "bit c 24 \<longleftrightarrow> bit p 24 \<or> tr \<and> bit q 24" "\<not> bit c 25"
    "bit c 26 \<longleftrightarrow> bit p 26 \<or> tr \<and> bit q 26" "\<not> bit c 27" "\<not> bit c 28" "bit c 29 \<longleftrightarrow> bit p 29 \<or> tr \<and> bit q 29"
    "\<not> bit c 30" "bit c 31 \<longleftrightarrow> bit p 31 \<or> tr \<and> bit q 31" "bit c 32 \<longleftrightarrow> bit p 32 \<or> tr \<and> bit q 32"
    "bit c 33 \<longleftrightarrow> bit p 33 \<and> bit q 33" "bit c 34 \<longleftrightarrow> bit p 34 \<or> tr \<and> bit q 34" "bit c 35 \<longleftrightarrow> bit p 35 \<and> bit q 35"
    "bit c 36 \<longleftrightarrow> bit p 36" "bit c 37 \<longleftrightarrow> bit p 37" "\<not> bit c 38" "bit c 39 \<longleftrightarrow> bit p 39 \<or> bit q 39"
    "bit c 40 \<longleftrightarrow> tr \<and> bit q 40" "bit c 41 \<longleftrightarrow> bit p 41 \<or> tr \<and> bit q 41" "bit c 42 \<longleftrightarrow> tr \<and> bit q 42"
    "bit c 43 \<longleftrightarrow> bit p 43 \<or> tr \<and> bit q 43" "\<not> bit c 44" "bit c 45 \<longleftrightarrow> bit p 45 \<or> bit q 45"
    "bit c 46 \<longleftrightarrow> bit p 46 \<or> tr \<and> bit q 46" "bit c 47 \<longleftrightarrow> bit p 47 \<and> bit q 47"
  unfolding c_def tr_def concat_properties_def or_if_def [symmetric] contains_or contains_flags Let_def
  by (auto simp: bit_or_if bit_or_iff bit_and_iff flag_bits)

lemma linked_sound:
  assumes F: "fst_ok W F1" "fst_ok W F2" and i: "start_state F1 = Some i1" "start_state F2 = Some i2"
  shows "bits_sound W (linked W F1 F2) (concat_properties (properties F1) (properties F2) False)"
proof -
  note t = fst_okD(3) [OF F(1)] fst_okD(3) [OF F(2)]
  note parts = linked_parts [OF t, where W = W]
  note sem = linked_sem [OF t i, of W]
  note ext = extends_lists [OF parts(2), of W] mono_sem(2-5) [OF extends_arcs [OF parts(2)], of W]
  note sh = shifted_sem(2-5,9-12) [OF parts(1), of W]
  have b: "bits_sound W F1 (properties F1)" "bits_sound W F2 (properties F2)"
    using F by (simp_all add: props_sound_def fst_ok_def)
  note b1 = bits_soundD [OF b(1)] and b2 = bits_soundD [OF b(2)]
  let ?c = "concat_properties (properties F1) (properties F2) False"
  have acc: "bit (properties F1) 40 \<Longrightarrow> sem W F1 Accessible" "bit (properties F1) 42 \<Longrightarrow> sem W F1 Coaccessible"
    using b1(1) [of Accessible] b1(1) [of Coaccessible] by (simp_all del: sem.simps)
  show ?thesis
  proof (rule bits_soundI)
    let ?U = "{Epsilons, IEpsilons, OEpsilons, Weighted, Cyclic, WeightedCycles}"
    have up: "sem W F1 q \<or> sem W F2 q \<Longrightarrow> q \<in> ?U \<Longrightarrow> sem W (linked W F1 F2) q" for q
      by (cases q; simp only: insert_iff empty_iff fprop.distinct sem(2,3,5) simp_thms; erule disjE; rule ext sh; assumption)
    note special = sem(8) [OF acc] sem(11) [OF acc(2)]
    show "sem W (linked W F1 F2) q" if "bit ?c (pos_bit q)" for q
      using that b1(1) [of q] b2(1) [of q] up [of q]
      by (cases q) (simp_all add: concat_properties_bits sem(1,4) special del: sem.simps, blast+)
    let ?D = "{Acceptor, IDeterministic, ODeterministic, ILabelSorted, OLabelSorted, TopSorted, Accessible,
        Coaccessible, StringFst}"
    have down1: "sem W (linked W F1 F2) q \<Longrightarrow> q \<in> ?D \<Longrightarrow> sem W F1 q" for q
      by (cases q; simp only: insert_iff empty_iff fprop.distinct sem(1) simp_thms; rule sem ext; assumption)
    have down2: "sem W (linked W F1 F2) q \<Longrightarrow> q \<in> ?D \<Longrightarrow> sem W F2 q" for q
      by (cases q; simp only: insert_iff empty_iff fprop.distinct sem(1) simp_thms; rule sem sh; assumption)
    show "\<not> sem W (linked W F1 F2) q" if "bit ?c (Suc (pos_bit q))" for q
      using that b1(2) [of q] b2(2) [of q] down1 [of q] down2 [of q]
      by (cases q) (simp_all add: concat_properties_bits sem(2-5) del: sem.simps, blast+)
  qed
qed

lemma fst_concat_ok [fst_ok_intros]:
  assumes F: "fst_ok W F1" "fst_ok W F2" and G: "fst_concat W F1 F2 = Inr G"
  shows "fst_ok W G"
proof -
  note t = fst_okD(3) [OF F(1)] fst_okD(3) [OF F(2)]
  have L: "fst_ok W (linked W F1 F2)"
    using F(1) linked_parts(3) [OF t] linked_spec(7) [of W F1 F2] by (simp add: fst_ok_iff)
  have "fst_ok W (set_properties_with_mask (linked W F1 F2) p all_properties)"
    if "bits_sound W (linked W F1 F2) p" for p
    using set_all_properties_sound [OF that] L by (simp add: fst_ok_def set_properties_with_mask_def)
  with G F(1) L linked_sound [OF F] show ?thesis
    by (auto simp: fst_concat_eq split: if_splits)
qed

end
