(* ===== verification/Super_Final.thy ===== *)
theory Super_Final
  imports Concat_Sound
begin

text \<open>
  \<open>algorithms/add_super_final_state.rs\<close>.
\<close>

subsection \<open>Adding a super final state\<close>

definition add_super_final_state :: "'w semiring \<Rightarrow> 'w vfst \<Rightarrow> 'w vfst \<times> state_id" where
  "add_super_final_state W F =
     (let finals = final_states F
      in if length finals = 1 \<and> rel_option (eq_w W) (final_weight (state_of F (finals ! 0))) (Some (one_w W))
         then (F, finals ! 0)
         else
           let (F, sf) = add_state F;
               F = set_final_unchecked W F sf (one_w W)
           in (fold (\<lambda>s F. let (w, F) = take_final_weight_unchecked W F s
                           in add_tr_unchecked W F s (tr_new EPS_LABEL EPS_LABEL (the w) sf)) finals F, sf))"

definition super_step :: "'w semiring \<Rightarrow> state_id \<Rightarrow> state_id \<Rightarrow> 'w vfst \<Rightarrow> 'w vfst" where
  "super_step W sf s F = (let (w, F) = take_final_weight_unchecked W F s
     in add_tr_unchecked W F s (tr_new EPS_LABEL EPS_LABEL (the w) sf))"

lemma super_step_spec:
  fixes F :: "'w vfst" and W :: "'w semiring" and s sf :: nat
  assumes s: "s < num_states F"
  defines "G \<equiv> super_step W sf s F"
  shows "num_states G = num_states F" "start_state G = start_state F"
    "k < num_states F \<Longrightarrow> final_weight (state_of G k) = (if k = s then None else final_weight (state_of F k))"
    "k < num_states F \<Longrightarrow> trs (state_of G k) =
       (if k = s then trs (state_of F k) @ [eps_tr (the (final_weight (state_of F s))) sf] else trs (state_of F k))"
    "bits_ok W F \<Longrightarrow> bits_ok W G"
  using s by (simp_all add: G_def super_step_def take_final_weight_unchecked_def shape bits_ok_steps eps_tr_def)

lemma super_fold_spec:
  fixes F :: "'w vfst" and W :: "'w semiring" and sf :: nat
  assumes "distinct ss" "\<forall>s \<in> set ss. s < num_states F"
  shows "num_states (fold (super_step W sf) ss F) = num_states F \<and>
    start_state (fold (super_step W sf) ss F) = start_state F \<and>
    (\<forall>k < num_states F. final_weight (state_of (fold (super_step W sf) ss F) k) =
        (if k \<in> set ss then None else final_weight (state_of F k)) \<and>
      trs (state_of (fold (super_step W sf) ss F) k) = trs (state_of F k) @
        (if k \<in> set ss then [eps_tr (the (final_weight (state_of F k))) sf] else [])) \<and>
    (bits_ok W F \<longrightarrow> bits_ok W (fold (super_step W sf) ss F))"
  using assms
proof (induction ss arbitrary: F)
  case (Cons s ss)
  then have s: "s < num_states F" by simp
  note step = super_step_spec [OF s, where W = W and sf = sf]
  have d: "distinct ss" "\<forall>r \<in> set ss. r < num_states (super_step W sf s F)" "s \<notin> set ss"
    using Cons.prems by (simp_all add: step)
  from Cons.IH [OF d(1,2)] d(3) show ?case
    by (simp add: step)
qed simp

text \<open>The result has one final state, of weight one, and the same transduction.\<close>

lemma add_super_final_state_spec:
  fixes F :: "'w vfst" and W :: "'w semiring" and H :: "'w vfst" and f :: nat
  assumes r: "add_super_final_state W F = (G, f)" and t: "targets_ok F"
    and eq: "\<And>a b. eq_w W a b \<longleftrightarrow> a = b"
  shows "final_at G s w \<longleftrightarrow> s = f \<and> w = one_w W"
    "f < num_states F \<and> G = F \<or> f = num_states F \<and> num_states G = Suc f \<and> start_state G = start_state F \<and>
       (\<forall>s u. (s, u) \<in> arcs G \<longleftrightarrow> (s, u) \<in> arcs F \<or> (\<exists>w. final_at F s w \<and> u = eps_tr w f))"
    "fst_ok W F \<Longrightarrow> fst_ok W G"
proof -
  let ?n = "num_states F"
  have "final_at G s w \<longleftrightarrow> s = f \<and> w = one_w W" if "f < ?n" "G = F" "final_states F = [f]"
      "final_weight (state_of F f) = Some (one_w W)" for s w
  proof -
    have "s \<in> {f} \<longleftrightarrow> (\<exists>w. final_at F s w)" using final_states_at(1) [of s F] that(3) by simp
    with that show ?thesis by (auto simp: final_at_def)
  qed
  moreover define B where "B = set_final_unchecked W (fst (add_state F)) ?n (one_w W)"
  have B: "num_states B = Suc ?n" "start_state B = start_state F"
    "\<And>k. k < ?n \<Longrightarrow> final_weight (state_of B k) = final_weight (state_of F k) \<and> trs (state_of B k) = trs (state_of F k)"
    "final_weight (state_of B ?n) = Some (one_w W)" "trs (state_of B ?n) = []"
    "bits_ok W F \<Longrightarrow> bits_ok W B"
    by (simp_all add: B_def shape bits_ok_steps)
  have "\<forall>s \<in> set (final_states F). s < num_states B" by (auto simp: B final_states_def)
  note spec = super_fold_spec [OF final_states_at(2) this, of W ?n]
  define C where "C = fold (super_step W ?n) (final_states F) B"
  have fins: "k \<in> set (final_states F) \<longleftrightarrow> k < ?n \<and> final_weight (state_of F k) \<noteq> None" for k
    by (auto simp: final_states_def)
  have Cn: "num_states C = Suc ?n" "start_state C = start_state F" "bits_ok W F \<Longrightarrow> bits_ok W C"
    using spec B by (simp_all add: C_def [symmetric])
  have Ck: "final_weight (state_of C k) = None" "trs (state_of C k) = trs (state_of F k) @
      (case final_weight (state_of F k) of None \<Rightarrow> [] | Some w \<Rightarrow> [eps_tr w ?n])" if "k < ?n" for k
    using spec B that fins [of k] by (auto simp: C_def [symmetric] split: option.splits)
  have CN: "final_weight (state_of C ?n) = Some (one_w W)" "trs (state_of C ?n) = []"
    using spec B fins [of ?n] by (simp_all add: C_def [symmetric])
  have Cf: "final_at C s w \<longleftrightarrow> s = ?n \<and> w = one_w W" for s w
    using Ck(1) [of s] CN(1) by (auto simp: final_at_def Cn less_Suc_eq)
  have Ca: "(s, u) \<in> arcs C \<longleftrightarrow> (s, u) \<in> arcs F \<or> (\<exists>w. final_at F s w \<and> u = eps_tr w ?n)" for s u
    using Ck(2) [of s] CN(2) by (cases "final_weight (state_of F s)") (auto simp: final_at_def arcs_def Cn less_Suc_eq)
  note C = Cn(1,2) Cf Ca Cn(3)
  have cases: "f < ?n \<and> G = F \<and> final_states F = [f] \<and> final_weight (state_of F f) = Some (one_w W) \<or>
      f = ?n \<and> G = C"
    using r fins [of f] by (auto simp: add_super_final_state_def Let_def case_prod_unfold shape B_def C_def
        super_step_def [abs_def] length_Suc_conv eq option_rel_Some2 split: if_splits)
  show "final_at G s w \<longleftrightarrow> s = f \<and> w = one_w W" using cases calculation C by blast
  show "f < num_states F \<and> G = F \<or> f = num_states F \<and> num_states G = Suc f \<and> start_state G = start_state F \<and>
       (\<forall>s u. (s, u) \<in> arcs G \<longleftrightarrow> (s, u) \<in> arcs F \<or> (\<exists>w. final_at F s w \<and> u = eps_tr w f))"
    using cases C by auto
  show "fst_ok W G" if F: "fst_ok W F"
  proof (cases "G = F")
    case False
    with cases have G: "G = C" by simp
    have "targets_ok C" using t by (fastforce simp: targets_iff C)
    with F show ?thesis by (simp add: G fst_ok_iff C)
  qed (simp add: F)
qed


context weight_monoids begin

lemma add_super_final_state_transduces:
  assumes r: "add_super_final_state W F = (G, f)" and t: "targets_ok F"
  shows "transduces mul G x y w \<longleftrightarrow> transduces mul F x y w"
proof (cases "G = F")
  case False
  note spec = add_super_final_state_spec [OF r t eq_ok]
  from spec(2) False have f: "f = num_states F" "start_state G = start_state F"
    and arc: "\<And>s u. (s, u) \<in> arcs G \<longleftrightarrow> (s, u) \<in> arcs F \<or> (\<exists>w. final_at F s w \<and> u = eps_tr w f)" by blast+
  have fin: "accepts mul G f x y w \<longleftrightarrow> x = [] \<and> y = [] \<and> w = one_w W" for x y w
  proof
    assume "accepts mul G f x y w"
    then show "x = [] \<and> y = [] \<and> w = one_w W"
    proof (rule acc_elim)
      assume "x = []" "y = []" "final_at G f w"
      then show ?thesis by (simp add: spec(1))
    next
      fix u
      assume "(f, u) \<in> arcs G"
      then show ?thesis by (auto simp: arc arcs_def [of F] final_at_def f(1))
    qed
  qed (auto simp: spec(1) intro: accepts.acc_final)
  have "accepts mul F s x y w" if "accepts mul G s x y w" "s < num_states F" for s
    using that
  proof (induction rule: accepts.induct)
    case (acc_final s w)
    then show ?case by (simp add: spec(1) f)
  next
    case (acc_arc s u x y w)
    from acc_arc.hyps(1) consider "(s, u) \<in> arcs F" | v where "final_at F s v" "u = eps_tr v f"
      unfolding arc by blast
    then show ?case
    proof cases
      case 1
      with t have "nextstate u < num_states F" by (auto simp: targets_iff)
      with acc_arc.IH 1 show ?thesis by (blast intro: accepts.acc_arc)
    next
      case 2
      with acc_arc.hyps(2) fin show ?thesis by (auto simp: mul_one_right intro: accepts.acc_final)
    qed
  qed
  moreover have "accepts mul G s x y w" if "accepts mul F s x y w" for s
  proof -
    have "accepts mul G s [] [] w" if "final_at F s w" for s w
    proof -
      from that have "(s, eps_tr w f) \<in> arcs G" by (auto simp: arc)
      from acc_eps [OF this, of mul "[]" "[]" "one_w W"] fin show ?thesis by (simp add: mul_one_right)
    qed
    with acc_sim [OF that, where h = "\<lambda>s. s" and g = "\<lambda>w. w" and G = G and x' = "[]" and y' = "[]"] arc
    show ?thesis by auto
  qed
  ultimately show ?thesis
    using t f(2) by (auto simp: transduces_def targets_iff)
qed simp

end

end
