(* ===== verification/Reverse.thy ===== *)
theory Reverse
  imports Super_Final
begin

text \<open>
  Reversal (\<open>algorithms/reverse.rs\<close>). The result has a new superinitial state \<open>0\<close>, and state \<open>s\<close> of
  the input becomes \<open>s + 1\<close>. \<open>W::reverse\<close> is the parameter \<open>rv\<close>; it may fail.
\<close>

subsection \<open>The code\<close>

text \<open>The counting pass: it only sizes the vectors, but it panics if a target is out of range.\<close>

definition count_targets :: "'w vfst \<Rightarrow> nat list res" where
  "count_targets F =
     for_res (\<lambda>s c. for_res (\<lambda>t c. rbind (vec_index c (nextstate t + 1)) (\<lambda>n. vec_set c (nextstate t + 1) (n + 1)))
                 (trs (state_of F s)) c)
       [0 ..< num_states F] (replicate (num_states F + 1) 0)"

definition vec_push_at :: "'a list list \<Rightarrow> nat \<Rightarrow> 'a \<Rightarrow> 'a list list res" where
  "vec_push_at vs i x = rbind (vec_index vs i) (\<lambda>v. vec_set vs i (v @ [x]))"

definition reverse_state ::
  "'v semiring \<Rightarrow> ('w \<Rightarrow> 'v res) \<Rightarrow> 'w vfst \<Rightarrow> state_id \<Rightarrow> 'v vfst \<times> 'v tr list list \<Rightarrow> ('v vfst \<times> 'v tr list list) res"
where
  "reverse_state V rv F is acc =
     (let (ofst, states_trs) = acc; os = is + 1
      in rbind (if Some is = start_state F then set_final V ofst os (one_w V) else Inr ofst) (\<lambda>ofst.
         rbind (case final_weight (state_of F is) of
                  None \<Rightarrow> Inr states_trs
                | Some w \<Rightarrow> rbind (rv w) (\<lambda>w. vec_push_at states_trs 0 (tr_new EPS_LABEL EPS_LABEL w os)))
           (\<lambda>states_trs.
         rbind (for_res (\<lambda>t sts. rbind (rv (weight t)) (\<lambda>w.
                   vec_push_at sts (nextstate t + 1) (tr_new (ilabel t) (olabel t) w os)))
                 (trs (state_of F is)) states_trs)
           (\<lambda>states_trs. Inr (ofst, states_trs)))))"

definition reverse_fst :: "'v semiring \<Rightarrow> ('w \<Rightarrow> 'v res) \<Rightarrow> 'w vfst \<Rightarrow> 'v vfst res" where
  "reverse_fst V rv F =
     (let istart = start_state F;
          (ofst, ostart) = add_state vfst_new;
          ofst = add_states ofst (num_states F)
      in rbind (count_targets F) (\<lambda>c.
         rbind (for_res (reverse_state V rv F) [0 ..< num_states F] (ofst, map (\<lambda>_. []) c)) (\<lambda>(ofst, states_trs).
           let ofst = fold (\<lambda>s F. set_trs_unchecked V F s (states_trs ! s)) [0 ..< length states_trs] ofst
           in rbind (set_start ofst ostart) (\<lambda>ofst.
              let ofst = set_symts_from_fst ofst F;
                  iprops = properties F;
                  oprops = properties ofst
              in Inr (set_properties_with_mask ofst (reverse_properties iprops True OR oprops) all_properties)))))"

subsection \<open>What the loops compute\<close>

lemma vec_push_at: "i < length vs \<Longrightarrow> vec_push_at vs i x = Inr (vs[i := vs ! i @ [x]])"
  by (simp add: vec_push_at_def vec_index_def vec_set_def vec_get_def)

lemma for_res_vec_length:
  assumes "\<And>x v. x \<in> set xs \<Longrightarrow> length v = n \<Longrightarrow> \<exists>v'. f x v = Inr v' \<and> length v' = n" "length v = n"
  shows "\<exists>v'. for_res f xs v = Inr v' \<and> length v' = n"
  using assms
proof (induction xs arbitrary: v)
  case (Cons x xs)
  from Cons.prems(1) [of x v] Cons.prems(2) obtain v1 where v1: "f x v = Inr v1" "length v1 = n" by auto
  have "\<exists>v'. for_res f xs v1 = Inr v' \<and> length v' = n"
    by (rule Cons.IH) (use Cons.prems(1) v1(2) in auto)
  with v1 show ?case by simp
qed simp

lemma count_targets_ok:
  assumes "targets_ok F"
  shows "\<exists>c. count_targets F = Inr c \<and> length c = num_states F + 1"
proof -
  let ?n = "num_states F + 1"
  have "\<exists>c'. for_res (\<lambda>t c. rbind (vec_index c (nextstate t + 1)) (\<lambda>n. vec_set c (nextstate t + 1) (n + 1)))
      (trs (state_of F s)) c = Inr c' \<and> length c' = ?n" if "s < num_states F" "length c = ?n" for s and c :: "nat list"
    using that(2)
  proof (rule for_res_vec_length [rotated])
    fix t and v :: "nat list"
    assume "t \<in> set (trs (state_of F s))" "length v = ?n"
    with that(1) targets_state [OF assms] show "\<exists>v'. rbind (vec_index v (nextstate t + 1))
        (\<lambda>n. vec_set v (nextstate t + 1) (n + 1)) = Inr v' \<and> length v' = ?n"
      by (auto simp: vec_index_def vec_set_def vec_get_def)
  qed
  then show ?thesis
    unfolding count_targets_def by (rule for_res_vec_length) simp_all
qed

text \<open>The transitions pushed for state \<open>k\<close> of the result while the first \<open>n\<close> input states are read.\<close>

definition rev_tr :: "('w \<Rightarrow> 'v) \<Rightarrow> state_id \<Rightarrow> 'w tr \<Rightarrow> 'v tr" where
  "rev_tr r is t = tr_new (ilabel t) (olabel t) (r (weight t)) (is + 1)"

definition rev_into :: "('w \<Rightarrow> 'v) \<Rightarrow> 'w vfst \<Rightarrow> nat \<Rightarrow> state_id \<Rightarrow> 'v tr list" where
  "rev_into r F k is = (if k = 0
     then (case final_weight (state_of F is) of None \<Rightarrow> [] | Some w \<Rightarrow> [eps_tr (r w) (is + 1)])
     else map (rev_tr r is) (filter (\<lambda>t. nextstate t + 1 = k) (trs (state_of F is))))"

lemma push_reversed:
  assumes "\<And>w. rv w = Inr (r w)" "\<forall>t \<in> set ts. nextstate t + 1 < length vs"
  shows "for_res (\<lambda>t sts. rbind (rv (weight t)) (\<lambda>w. vec_push_at sts (nextstate t + 1) (tr_new (ilabel t) (olabel t) w (is + 1)))) ts vs
    = Inr (map (\<lambda>k. vs ! k @ map (rev_tr r is) (filter (\<lambda>t. nextstate t + 1 = k) ts)) [0 ..< length vs])"
  using assms(2)
proof (induction ts arbitrary: vs)
  case Nil
  then show ?case by (simp add: map_nth)
next
  case (Cons t ts)
  let ?vs = "vs[nextstate t + 1 := vs ! (nextstate t + 1) @ [rev_tr r is t]]"
  have "vec_push_at vs (nextstate t + 1) (tr_new (ilabel t) (olabel t) (r (weight t)) (is + 1)) = Inr ?vs"
    using Cons.prems by (simp add: vec_push_at rev_tr_def)
  moreover have "\<forall>t \<in> set ts. nextstate t + 1 < length ?vs" using Cons.prems by simp
  note Cons.IH [OF this]
  moreover have "map (\<lambda>k. ?vs ! k @ map (rev_tr r is) (filter (\<lambda>t. nextstate t + 1 = k) ts)) [0 ..< length ?vs] =
      map (\<lambda>k. vs ! k @ map (rev_tr r is) (filter (\<lambda>t. nextstate t + 1 = k) (t # ts))) [0 ..< length vs]"
    using Cons.prems by (intro nth_equalityI) (auto simp: nth_list_update)
  ultimately show ?case by (simp add: assms(1))
qed

text \<open>The transducer before the transitions are set: finals at the image of the start state.\<close>

definition rev_base :: "'v semiring \<Rightarrow> 'w vfst \<Rightarrow> nat \<Rightarrow> 'v vfst" where
  "rev_base V F n = (let B = add_states (fst (add_state vfst_new)) (num_states F)
     in case start_state F of Some i \<Rightarrow> (if i < n then set_final_unchecked V B (i + 1) (one_w V) else B) | None \<Rightarrow> B)"

lemma reverse_loop:
  assumes rv: "\<And>w. rv w = Inr (r w)" and t: "targets_ok F" and n: "n \<le> num_states F"
  shows "for_res (reverse_state V rv F) [0 ..< n] (rev_base V F 0, replicate (num_states F + 1) []) =
    Inr (rev_base V F n, map (\<lambda>k. concat (map (rev_into r F k) [0 ..< n])) [0 ..< num_states F + 1])"
  using n
proof (induction n)
  case 0
  show ?case by (simp add: map_replicate_const replicate_append_same [symmetric])
next
  case (Suc n)
  let ?vs = "map (\<lambda>k. concat (map (rev_into r F k) [0 ..< n])) [0 ..< num_states F + 1]"
  define fin where "fin = (case final_weight (state_of F n) of None \<Rightarrow> [] | Some w \<Rightarrow> [eps_tr (r w) (n + 1)])"
  have B: "num_states (rev_base V F n) = num_states F + 1"
    by (auto simp: rev_base_def Let_def add_states_def shape vfst_new_def split: option.splits)
  have n: "n < num_states F" using Suc.prems by simp
  have 1: "(if Some n = start_state F then set_final V (rev_base V F n) (n + 1) (one_w V) else Inr (rev_base V F n)) =
      Inr (rev_base V F (Suc n))"
    using n by (auto simp: set_final_def B) (auto simp: rev_base_def Let_def less_Suc_eq split: option.splits)
  have 2: "(case final_weight (state_of F n) of None \<Rightarrow> Inr ?vs
      | Some w \<Rightarrow> rbind (rv w) (\<lambda>w. vec_push_at ?vs 0 (tr_new EPS_LABEL EPS_LABEL w (n + 1)))) =
      Inr (?vs[0 := ?vs ! 0 @ fin])"
    by (auto simp: fin_def rv vec_push_at eps_tr_def split: option.splits)
  let ?ws = "?vs[0 := ?vs ! 0 @ fin]"
  have "\<forall>u \<in> set (trs (state_of F n)). nextstate u + 1 < length ?ws"
    using targets_state [OF t n] by auto
  note 3 = push_reversed [where rv = rv and r = r and ?is = n, OF rv this]
  have "map (\<lambda>k. ?ws ! k @ map (rev_tr r n) (filter (\<lambda>t. nextstate t + 1 = k) (trs (state_of F n)))) [0 ..< length ?ws] =
      map (\<lambda>k. concat (map (rev_into r F k) [0 ..< Suc n])) [0 ..< num_states F + 1]"
    by (rule nth_equalityI) (auto simp: nth_list_update rev_into_def fin_def filter_empty_conv nth_append upt_Suc [of 0 n]
        simp del: upt_Suc)
  note 4 = this
  have "reverse_state V rv F n (rev_base V F n, ?vs) =
      Inr (rev_base V F (Suc n), map (\<lambda>k. concat (map (rev_into r F k) [0 ..< Suc n])) [0 ..< num_states F + 1])"
    unfolding reverse_state_def Let_def prod.case 1 rbind_Inr 2 3 4 by (rule refl)
  moreover have "[0 ..< Suc n] = [0 ..< n] @ [n]" by simp
  moreover note Suc.IH
  ultimately show ?case using n by (simp add: for_res_append del: upt_Suc)
qed

lemma set_trs_shape [shape]:
  assumes "s < num_states F"
  shows "num_states (set_trs_unchecked W F s us) = num_states F"
    "start_state (set_trs_unchecked W F s us) = start_state F"
    "k < num_states F \<Longrightarrow> final_weight (state_of (set_trs_unchecked W F s us) k) = final_weight (state_of F k)"
    "k < num_states F \<Longrightarrow> trs (state_of (set_trs_unchecked W F s us) k) = (if k = s then us else trs (state_of F k))"
  using assms by (simp_all add: set_trs_unchecked_def with_state_def nth_upd case_prod_unfold Let_def)

lemma set_all_trs:
  fixes V :: "'v semiring" and B :: "'v vfst" and L :: "'v tr list list"
  assumes e: "\<forall>k < num_states B. trs (state_of B k) = []" and m: "m \<le> num_states B"
  defines "G \<equiv> fold (\<lambda>s F. set_trs_unchecked V F s (L ! s)) [0 ..< m] B"
  shows "num_states G = num_states B \<and> start_state G = start_state B \<and>
    (\<forall>k < num_states B. final_weight (state_of G k) = final_weight (state_of B k) \<and>
      trs (state_of G k) = (if k < m then L ! k else [])) \<and> (bits_ok V B \<longrightarrow> bits_ok V G)"
  using m unfolding G_def
proof (induction m)
  case (Suc m)
  let ?G = "fold (\<lambda>s F. set_trs_unchecked V F s (L ! s)) [0 ..< m] B"
  have m: "m < num_states ?G" "trs (state_of ?G m) = []" using Suc by simp_all
  have "bits_ok V ?G \<Longrightarrow> bits_ok V (set_trs_unchecked V ?G m (L ! m))"
    using set_trs_sound [OF _ _ m] by (simp add: bits_ok_def)
  with Suc m show ?case by (simp add: set_trs_shape [OF m(1)] less_Suc_eq)
qed (simp add: e)

lemma rev_base_spec:
  fixes V :: "'v semiring" and F :: "'w vfst"
  defines "B \<equiv> rev_base V F (num_states F)"
  assumes t: "targets_ok F"
  shows "num_states B = num_states F + 1" "start_state B = None" "\<forall>k < num_states B. trs (state_of B k) = []"
    "final_at B s w \<longleftrightarrow> w = one_w V \<and> (\<exists>i. start_state F = Some i \<and> s = i + 1)"
    "bits_ok V B"
proof -
  let ?A = "add_states (fst (add_state vfst_new)) (num_states F) :: 'v vfst"
  have A: "num_states ?A = num_states F + 1" "start_state ?A = None" "\<forall>k < num_states F + 1. state_of ?A k = vstate_new"
    by (auto simp: add_states_def add_state_def vfst_new_def nth_append nth_Cons split: nat.splits)
  have "fst_ok V (fst (add_state vfst_new))"
    by (metis add_state_is_add_states add_states_ok new_ok)
  then have "bits_ok V ?A" using add_states_ok fst_ok_iff by blast
  moreover have i: "start_state F = Some i \<Longrightarrow> i < num_states F" for i using t by (simp add: targets_iff)
  ultimately show "bits_ok V B"
    by (auto simp: B_def rev_base_def Let_def A bits_ok_steps split: option.splits)
  show B: "num_states B = num_states F + 1" "start_state B = None" "\<forall>k < num_states B. trs (state_of B k) = []"
    using A i by (auto simp: B_def rev_base_def Let_def shape split: option.splits)
  show "final_at B s w \<longleftrightarrow> w = one_w V \<and> (\<exists>i. start_state F = Some i \<and> s = i + 1)"
  proof (cases "start_state F")
    case None
    with A show ?thesis by (auto simp: B_def rev_base_def Let_def final_at_def shape)
  next
    case (Some i)
    with A i [OF Some] show ?thesis
      by (auto simp: B_def rev_base_def Let_def final_at_def shape split: if_splits)
  qed
qed

text \<open>The meaning of the flags depends on the states and the start state only.\<close>

lemma same_states:
  assumes "states F = states G" "start_state F = start_state G"
  shows "sem W F q = sem W G q" "targets_ok F = targets_ok G" "eps_counts_ok F = eps_counts_ok G"
    "arcs F = arcs G" "final_at F = final_at G"
proof -
  show a: "arcs F = arcs G" "final_at F = final_at G"
    by (simp_all add: arcs_def final_at_def fun_eq_iff assms)
  then have e: "edges F = edges G" "is_final_state F = is_final_state G"
    by (auto simp: edges_def is_final_at fun_eq_iff)
  then have "accessible_state F = accessible_state G" "coaccessible_state F = coaccessible_state G"
    "cyclic_at F = cyclic_at G" "string_state F = string_state G"
    by (simp_all add: fun_eq_iff accessible_state_def coaccessible_state_def cyclic_at_def string_state_def assms)
  with a e show "sem W F q = sem W G q" by (cases q) (simp_all add: assms)
  show "targets_ok F = targets_ok G" "eps_counts_ok F = eps_counts_ok G"
    by (simp_all add: targets_ok_def eps_counts_ok_def assms)
qed

lemma set_symts_shape [simp]:
  "num_states (set_symts_from_fst F G) = num_states F" "start_state (set_symts_from_fst F G) = start_state F"
  "states (set_symts_from_fst F G) = states F" "properties (set_symts_from_fst F G) = properties F"
  by (simp_all add: set_symts_from_fst_def set_input_symbols_def take_input_symbols_def set_output_symbols_def
      take_output_symbols_def Let_def split: option.splits)

text \<open>The transitions of the result.\<close>

lemma reverse_fst_spec:
  fixes V :: "'v semiring" and F :: "'w vfst"
  assumes rv: "\<And>w. rv w = Inr (r w)" and t: "targets_ok F"
  obtains G where "reverse_fst V rv F = Inr (set_properties_with_mask G
      (reverse_properties (properties F) True OR properties G) all_properties)"
    "num_states G = num_states F + 1" "start_state G = Some 0" "isymt G = isymt F" "osymt G = osymt F"
    "\<And>s w. final_at G s w \<longleftrightarrow> w = one_w V \<and> (\<exists>i. start_state F = Some i \<and> s = i + 1)"
    "\<And>s u. (s, u) \<in> arcs G \<longleftrightarrow> (s = 0 \<and> (\<exists>q w. final_at F q w \<and> u = eps_tr (r w) (q + 1))) \<or>
       (\<exists>q v. (q, v) \<in> arcs F \<and> s = nextstate v + 1 \<and> u = rev_tr r q v)"
    "bits_ok V G"
proof -
  let ?n = "num_states F"
  let ?B = "rev_base V F ?n"
  let ?L = "map (\<lambda>k. concat (map (rev_into r F k) [0 ..< ?n])) [0 ..< ?n + 1]"
  define H where "H = fold (\<lambda>s F. set_trs_unchecked V F s (?L ! s)) [0 ..< ?n + 1] ?B"
  define G where "G = set_symts_from_fst (set_start_unchecked H 0) F"
  note B = rev_base_spec [OF t, of V]
  have H: "num_states H = ?n + 1 \<and> start_state H = None \<and>
    (\<forall>k < ?n + 1. final_weight (state_of H k) = final_weight (state_of ?B k) \<and>
      trs (state_of H k) = ?L ! k) \<and> bits_ok V H"
    using set_all_trs [OF B(3), of "?n + 1" V ?L] B by (simp add: H_def)
  obtain c where c: "count_targets F = Inr c" "length c = ?n + 1" using count_targets_ok [OF t] by blast
  have init: "(add_states (fst (add_state vfst_new)) ?n, map (\<lambda>_. []) c) = (rev_base V F 0, replicate (?n + 1) [])"
    using c(2) by (auto simp: rev_base_def Let_def map_replicate_const split: option.splits)
  have loop: "for_res (reverse_state V rv F) [0 ..< ?n] (add_states (fst (add_state vfst_new)) ?n, map (\<lambda>_. []) c) = Inr (?B, ?L)"
    unfolding init by (rule reverse_loop [OF rv t le_refl])
  have o: "snd (add_state vfst_new) = 0" by (simp add: shape vfst_new_def)
  have ss: "set_start H 0 = Inr (set_start_unchecked H 0)" using H by (simp add: set_start_def)
  have len: "length ?L = ?n + 1" by simp
  have 1: "reverse_fst V rv F = Inr (set_properties_with_mask G
      (reverse_properties (properties F) True OR properties G) all_properties)"
    unfolding reverse_fst_def Let_def case_prod_unfold c(1) rbind_Inr o loop fst_conv snd_conv len
      H_def [symmetric] ss G_def by (rule refl)
  have st: "state_of G k = state_of H k" for k by (simp add: G_def set_start_unchecked_def)
  have n: "num_states G = ?n + 1" "start_state G = Some 0" by (simp_all add: G_def shape H)
  have 4: "final_at G s w \<longleftrightarrow> w = one_w V \<and> (\<exists>i. start_state F = Some i \<and> s = i + 1)" for s w
    using H n B(1) unfolding B(4) [symmetric] by (auto simp: final_at_def st)
  have "?L ! k = concat (map (rev_into r F k) [0 ..< ?n])" if "k < ?n + 1" for k
    using that by (simp del: upt_Suc)
  with H have Ht: "trs (state_of H k) = concat (map (rev_into r F k) [0 ..< ?n])" if "k < ?n + 1" for k
    using that by metis
  have "(s, u) \<in> arcs G \<longleftrightarrow> s < ?n + 1 \<and> (\<exists>q < ?n. u \<in> set (rev_into r F s q))" for s u
    using Ht [of s] by (cases "s < ?n + 1") (auto simp: arcs_def st n)
  moreover have "(\<exists>q < ?n. u \<in> set (rev_into r F 0 q)) \<longleftrightarrow> (\<exists>q w. final_at F q w \<and> u = eps_tr (r w) (q + 1))" for u
    by (auto simp: rev_into_def final_at_def split: option.splits) metis
  moreover have "s < ?n + 1 \<and> (\<exists>q < ?n. u \<in> set (rev_into r F s q)) \<longleftrightarrow>
      (\<exists>q v. (q, v) \<in> arcs F \<and> s = nextstate v + 1 \<and> u = rev_tr r q v)" if "s \<noteq> 0" for s u
    using that targets_state [OF t] by (auto simp: rev_into_def arcs_def)
  ultimately have 5: "(s, u) \<in> arcs G \<longleftrightarrow> (s = 0 \<and> (\<exists>q w. final_at F q w \<and> u = eps_tr (r w) (q + 1))) \<or>
       (\<exists>q v. (q, v) \<in> arcs F \<and> s = nextstate v + 1 \<and> u = rev_tr r q v)" for s u
    by (cases "s = 0") simp_all
  have "bits_ok V (set_start_unchecked H 0)" using H by (simp add: bits_ok_intros)
  then have 6: "bits_ok V G"
    using same_states [of G "set_start_unchecked H 0"]
    by (simp add: G_def bits_ok_def props_sound_def bits_sound_def)
  have 7: "isymt G = isymt F" "osymt G = osymt F"
    by (auto simp: G_def set_symts_from_fst_def set_input_symbols_def take_input_symbols_def set_output_symbols_def
        take_output_symbols_def Let_def split: option.splits)
  show ?thesis by (rule that [OF 1 n 7 4 5 6])
qed

subsection \<open>The transduction of the result\<close>

text \<open>The labels and the weight of the paths from the start state to a state.\<close>

inductive prefix_path :: "'w semiring \<Rightarrow> ('w \<Rightarrow> 'w \<Rightarrow> 'w) \<Rightarrow> 'w vfst \<Rightarrow> state_id \<Rightarrow> label list \<Rightarrow> label list \<Rightarrow> 'w \<Rightarrow> bool"
  for W mul F where
  pre_start: "start_state F = Some i \<Longrightarrow> prefix_path W mul F i [] [] (one_w W)"
| pre_arc: "prefix_path W mul F s x y w \<Longrightarrow> (s, t) \<in> arcs F \<Longrightarrow>
    prefix_path W mul F (nextstate t) (x @ ext_label (ilabel t) []) (y @ ext_label (olabel t) []) (mul w (weight t))"

lemma rev_ext_label [simp]: "rev (ext_label l x) = rev x @ ext_label l []"
  by (simp add: ext_label_def)

context weight_monoids begin

lemma prefix_accepts:
  "prefix_path W mul F s x y w \<Longrightarrow> accepts mul F s x' y' w' \<Longrightarrow> transduces mul F (x @ x') (y @ y') (mul w w')"
proof (induction arbitrary: x' y' w' rule: prefix_path.induct)
  case (pre_start i)
  then show ?case by (auto simp: transduces_def mul_one_left)
next
  case (pre_arc s x y w t)
  from accepts.acc_arc [OF pre_arc.hyps(2) pre_arc.prems] pre_arc.IH show ?case
    by (fastforce simp: mul_assoc)
qed

lemma accepts_prefix:
  "accepts mul F s x' y' w' \<Longrightarrow> prefix_path W mul F s x y w \<Longrightarrow>
   \<exists>f u v. final_at F f u \<and> prefix_path W mul F f (x @ x') (y @ y') v \<and> mul w w' = mul v u"
proof (induction arbitrary: x y w rule: accepts.induct)
  case (acc_final s w)
  then show ?case by auto
next
  case (acc_arc s t x' y' w')
  from acc_arc.IH [OF pre_arc [OF acc_arc.prems acc_arc.hyps(1)]] show ?case
    by (simp add: mul_assoc)
qed

lemma transduces_prefix:
  "transduces mul F x y w \<longleftrightarrow> (\<exists>f u v. final_at F f u \<and> prefix_path W mul F f x y v \<and> w = mul v u)"
proof
  assume "transduces mul F x y w"
  then obtain i where "start_state F = Some i" "accepts mul F i x y w" by (auto simp: transduces_def)
  from accepts_prefix [OF this(2) pre_start [OF this(1)]]
  show "\<exists>f u v. final_at F f u \<and> prefix_path W mul F f x y v \<and> w = mul v u"
    by (simp add: mul_one_left)
next
  assume "\<exists>f u v. final_at F f u \<and> prefix_path W mul F f x y v \<and> w = mul v u"
  then show "transduces mul F x y w"
    using prefix_accepts [OF _ accepts.acc_final] by fastforce
qed

text \<open>\<open>r\<close> reverses products, as \<open>Semiring::reverse\<close> promises.\<close>

lemma reversed_accepts:
  assumes fin: "\<And>s w. final_at G s w \<longleftrightarrow> w = r (one_w W) \<and> (\<exists>i. start_state F = Some i \<and> s = i + 1)"
    and arc: "\<And>s u. (s, u) \<in> arcs G \<longleftrightarrow> (s = 0 \<and> (\<exists>q w. final_at F q w \<and> u = eps_tr (r w) (q + 1))) \<or>
       (\<exists>q v. (q, v) \<in> arcs F \<and> s = nextstate v + 1 \<and> u = rev_tr r q v)"
    and rev: "\<And>a b. r (mul a b) = mul' (r b) (r a)"
  shows "accepts mul' G p x y w \<Longrightarrow> p = s + 1 \<Longrightarrow> \<exists>v. prefix_path W mul F s (rev x) (rev y) v \<and> w = r v"
    "prefix_path W mul F s x y v \<Longrightarrow> accepts mul' G (s + 1) (rev x) (rev y) (r v)"
proof -
  show "accepts mul' G p x y w \<Longrightarrow> p = s + 1 \<Longrightarrow> \<exists>v. prefix_path W mul F s (rev x) (rev y) v \<and> w = r v"
  proof (induction arbitrary: s rule: accepts.induct)
    case (acc_final p w)
    then show ?case by (auto simp: fin intro: pre_start)
  next
    case (acc_arc p t x y w)
    then obtain q v where q: "(q, v) \<in> arcs F" "s = nextstate v" "t = rev_tr r q v" by (auto simp: arc)
    with acc_arc.IH [of q] obtain u where u: "prefix_path W mul F q (rev x) (rev y) u" "w = r u"
      by (auto simp: rev_tr_def)
    from pre_arc [OF u(1) q(1)] show ?case
      unfolding q by (intro exI [of _ "mul u (weight v)"])
        (simp add: rev_tr_def u rev)
  qed
  show "prefix_path W mul F s x y v \<Longrightarrow> accepts mul' G (s + 1) (rev x) (rev y) (r v)"
  proof (induction rule: prefix_path.induct)
    case (pre_start i)
    then show ?case using fin by (auto intro: accepts.acc_final)
  next
    case (pre_arc s x y w t)
    have "(nextstate t + 1, rev_tr r s t) \<in> arcs G" using pre_arc.hyps(2) by (auto simp: arc)
    from accepts.acc_arc [OF this, of mul' "rev x" "rev y" "r w"] pre_arc.IH show ?case
      by (simp add: rev_tr_def rev)
  qed
qed

lemma reverse_fst_transduces:
  assumes rv: "\<And>w. rv w = Inr (r w)" and t: "targets_ok F" and G: "reverse_fst V rv F = Inr G"
    and rev: "\<And>a b. r (mul a b) = mul' (r b) (r a)" and one: "one_w V = r (one_w W)"
  shows "transduces mul' G x y w \<longleftrightarrow> (\<exists>v. transduces mul F (rev x) (rev y) v \<and> w = r v)"
proof -
  obtain H where H: "reverse_fst V rv F = Inr (set_properties_with_mask H
      (reverse_properties (properties F) True OR properties H) all_properties)" "start_state H = Some 0"
    "\<And>s w. final_at H s w \<longleftrightarrow> w = one_w V \<and> (\<exists>i. start_state F = Some i \<and> s = i + 1)"
    "\<And>s u. (s, u) \<in> arcs H \<longleftrightarrow> (s = 0 \<and> (\<exists>q w. final_at F q w \<and> u = eps_tr (r w) (q + 1))) \<or>
       (\<exists>q v. (q, v) \<in> arcs F \<and> s = nextstate v + 1 \<and> u = rev_tr r q v)"
    by (rule reverse_fst_spec [OF rv t, of V], rule that)
  note acc = reversed_accepts [where G = H and F = F and r = r and mul' = mul', OF H(3) [unfolded one] H(4) rev]
  have "accepts mul' H 0 x y w \<longleftrightarrow> (\<exists>f u v. final_at F f u \<and> prefix_path W mul F f (rev x) (rev y) v \<and> w = r (mul v u))"
  proof
    assume "accepts mul' H 0 x y w"
    then show "\<exists>f u v. final_at F f u \<and> prefix_path W mul F f (rev x) (rev y) v \<and> w = r (mul v u)"
    proof (rule acc_elim)
      fix t x' y' w'
      assume *: "x = ext_label (ilabel t) x'" "y = ext_label (olabel t) y'" "w = mul' (weight t) w'"
        "(0, t) \<in> arcs H" "accepts mul' H (nextstate t) x' y' w'"
      then obtain q u where q: "final_at F q u" "t = eps_tr (r u) (q + 1)" by (auto simp: H(4))
      with acc(1) [of "q + 1" x' y' w' q] * show ?thesis by (auto simp: rev)
    qed (simp add: H(3))
  next
    assume "\<exists>f u v. final_at F f u \<and> prefix_path W mul F f (rev x) (rev y) v \<and> w = r (mul v u)"
    then obtain f u v where *: "final_at F f u" "prefix_path W mul F f (rev x) (rev y) v" "w = r (mul v u)" by blast
    then have "(0, eps_tr (r u) (f + 1)) \<in> arcs H" by (auto simp: H(4))
    from acc_eps [OF this, of mul' x y "r v"] acc(2) [OF *(2)] *(3) show "accepts mul' H 0 x y w"
      by (simp add: rev)
  qed
  moreover have "transduces mul' G = transduces mul' H" using G H(1) by auto
  ultimately show ?thesis
    by (auto simp: transduces_def [of mul'] H(2) transduces_prefix)
qed

end

subsection \<open>The bits of the result\<close>

lemma reverse_properties_bits:
  fixes p defines "c \<equiv> reverse_properties p True"
  shows "bit c 16 = bit p 16" "bit c 17 = bit p 17" "\<not> bit c 18" "\<not> bit c 19" "\<not> bit c 20" "\<not> bit c 21"
    "bit c 22 = bit p 22" "\<not> bit c 23" "bit c 24 = bit p 24" "\<not> bit c 25" "bit c 26 = bit p 26" "\<not> bit c 27"
    "\<not> bit c 28" "\<not> bit c 29" "\<not> bit c 30" "\<not> bit c 31" "bit c 32 = bit p 32" "bit c 33 = bit p 33"
    "bit c 34 = bit p 34" "bit c 35 = bit p 35" "\<not> bit c 36" "\<not> bit c 37" "\<not> bit c 38" "\<not> bit c 39"
    "\<not> bit c 40" "\<not> bit c 41" "\<not> bit c 42" "\<not> bit c 43" "\<not> bit c 44" "\<not> bit c 45"
    "bit c 46 = bit p 46" "bit c 47 = bit p 47"
  unfolding c_def reverse_properties_def Let_def
  by (auto simp: bit_or_iff bit_and_iff flag_bits)

lemma reversed_sem:
  fixes F :: "'w vfst" and G :: "'v vfst" and W :: "'w semiring" and V :: "'v semiring"
  assumes fin: "\<And>s w. final_at G s w \<longleftrightarrow> w = one_w V \<and> (\<exists>i. start_state F = Some i \<and> s = i + 1)"
    and arc: "\<And>s u. (s, u) \<in> arcs G \<longleftrightarrow> (s = 0 \<and> (\<exists>q w. final_at F q w \<and> u = eps_tr (r w) (q + 1))) \<or>
       (\<exists>q v. (q, v) \<in> arcs F \<and> s = nextstate v + 1 \<and> u = rev_tr r q v)"
    and nt: "\<And>w. nontrivial V (r w) = nontrivial W w" "\<not> nontrivial V (one_w V)"
  shows "sem V G Acceptor = sem W F Acceptor" "sem W F Epsilons \<Longrightarrow> sem V G Epsilons"
    "sem W F IEpsilons \<Longrightarrow> sem V G IEpsilons" "sem W F OEpsilons \<Longrightarrow> sem V G OEpsilons"
    "sem V G Weighted = sem W F Weighted" "sem V G Cyclic = sem W F Cyclic"
    "sem V G WeightedCycles = sem W F WeightedCycles"
proof -
  have l [simp]: "ilabel (rev_tr r q v) = ilabel v" "olabel (rev_tr r q v) = olabel v"
    "weight (rev_tr r q v) = r (weight v)" "nextstate (rev_tr r q v) = q + 1" for q v
    by (simp_all add: rev_tr_def)
  show "sem V G Acceptor = sem W F Acceptor" "sem W F Epsilons \<Longrightarrow> sem V G Epsilons"
    "sem W F IEpsilons \<Longrightarrow> sem V G IEpsilons" "sem W F OEpsilons \<Longrightarrow> sem V G OEpsilons"
    unfolding sem_ex_arc ex_arc_at arc by (auto, (metis l(1,2))+)
  show "sem V G Weighted = sem W F Weighted"
  proof -
    have "(\<exists>s u. (s, u) \<in> arcs G \<and> nontrivial V (weight u)) \<longleftrightarrow>
        (\<exists>q w. final_at F q w \<and> nontrivial V (r w)) \<or> (\<exists>q v. (q, v) \<in> arcs F \<and> nontrivial V (r (weight v)))"
      unfolding arc by (auto, metis eps_tr_simps(3), metis l(3))
    then show ?thesis unfolding weighted_at fin nt(1) using nt(2) by auto
  qed
  have edge: "(a, b) \<in> edges G \<longleftrightarrow> a = 0 \<and> (\<exists>q. is_final_state F q \<and> b = q + 1) \<or>
      (\<exists>x y. (x, y) \<in> edges F \<and> a = y + 1 \<and> b = x + 1)" for a b
    unfolding edges_iff arc is_final_at by (auto, (metis eps_tr_simps(4) Suc_eq_plus1 l(4))+)
  have pos: "(a, b) \<in> edges G \<Longrightarrow> \<exists>x. b = x + 1" for a b by (auto simp: edge)
  have "(a, b) \<in> (edges G)\<^sup>* \<Longrightarrow> a = x + 1 \<Longrightarrow> \<exists>y. b = y + 1 \<and> (y, x) \<in> (edges F)\<^sup>*" for a b x
  proof (induction rule: rtrancl_induct)
    case (step b c)
    then obtain y where "b = y + 1" "(y, x) \<in> (edges F)\<^sup>*" by blast
    with step.hyps(2) show ?case by (auto simp: edge intro: converse_rtrancl_into_rtrancl)
  qed simp
  moreover have "(y, x) \<in> (edges F)\<^sup>* \<Longrightarrow> (x + 1, y + 1) \<in> (edges G)\<^sup>*" for x y
    by (induction rule: converse_rtrancl_induct) (auto simp: edge intro: rtrancl.rtrancl_into_rtrancl)
  ultimately have path: "(x + 1, y + 1) \<in> (edges G)\<^sup>* \<longleftrightarrow> (y, x) \<in> (edges F)\<^sup>*" for x y
    by (metis add_right_cancel)
  have e1: "(x + 1, y + 1) \<in> edges G \<longleftrightarrow> (y, x) \<in> edges F" for x y by (simp add: edge)
  have "cyclic_at G (x + 1) \<longleftrightarrow> cyclic_at F x" for x
  proof
    assume "cyclic_at G (x + 1)"
    then obtain b where b: "(x + 1, b) \<in> edges G" "(b, x + 1) \<in> (edges G)\<^sup>*" unfolding cyclic_at_step by blast
    with pos obtain y where "b = y + 1" by blast
    with b e1 path have "(y, x) \<in> edges F" "(x, y) \<in> (edges F)\<^sup>*" by auto
    then show "cyclic_at F x" unfolding cyclic_at_def by (meson rtrancl_into_trancl1)
  next
    assume "cyclic_at F x"
    then obtain y where "(x, y) \<in> edges F" "(y, x) \<in> (edges F)\<^sup>*" unfolding cyclic_at_step by blast
    with e1 path have "(y + 1, x + 1) \<in> edges G" "(x + 1, y + 1) \<in> (edges G)\<^sup>*" by auto
    then show "cyclic_at G (x + 1)" unfolding cyclic_at_def by (meson rtrancl_into_trancl1)
  qed
  moreover have "\<not> cyclic_at G 0"
  proof
    assume "cyclic_at G 0"
    then obtain b where "(b, 0) \<in> edges G" unfolding cyclic_at_def by (meson tranclD2)
    with pos show False by fastforce
  qed
  ultimately show "sem V G Cyclic = sem W F Cyclic"
    by (auto simp del: One_nat_def) (metis not0_implies_Suc Suc_eq_plus1)
  show "sem V G WeightedCycles = sem W F WeightedCycles"
  proof
    assume "sem V G WeightedCycles"
    then obtain s u where u: "(s, u) \<in> arcs G" "nontrivial V (weight u)" "(nextstate u, s) \<in> (edges G)\<^sup>*"
      unfolding weighted_cycles_at by blast
    have "s \<noteq> 0"
    proof
      assume "s = 0"
      with u(3) have "nextstate u = 0" using pos by (metis add_is_0 one_neq_zero rtranclE)
      with u(1) pos show False by (metis add_is_0 edges_iff one_neq_zero)
    qed
    with u(1) obtain q v where "(q, v) \<in> arcs F" "s = nextstate v + 1" "u = rev_tr r q v" unfolding arc by blast
    with u path nt show "sem W F WeightedCycles" unfolding weighted_cycles_at by auto
  next
    assume "sem W F WeightedCycles"
    then obtain s u where u: "(s, u) \<in> arcs F" "nontrivial W (weight u)" "(nextstate u, s) \<in> (edges F)\<^sup>*"
      unfolding weighted_cycles_at by blast
    then have "(nextstate u + 1, rev_tr r s u) \<in> arcs G" by (auto simp: arc)
    with u path nt show "sem V G WeightedCycles" unfolding weighted_cycles_at by (metis l(3,4))
  qed
qed

lemma reverse_fst_ok:
  fixes W :: "'w semiring" and V :: "'v semiring"
  assumes rv: "\<And>w. rv w = Inr (r w)" and F: "fst_ok W F" and G: "reverse_fst V rv F = Inr G"
    and nt: "\<And>w. nontrivial V (r w) = nontrivial W w" "\<not> nontrivial V (one_w V)"
  shows "fst_ok V G"
proof -
  note t = fst_okD(3) [OF F]
  obtain H where H: "reverse_fst V rv F = Inr (set_properties_with_mask H
      (reverse_properties (properties F) True OR properties H) all_properties)"
    "num_states H = num_states F + 1" "start_state H = Some 0" 
    "\<And>s w. final_at H s w \<longleftrightarrow> w = one_w V \<and> (\<exists>i. start_state F = Some i \<and> s = i + 1)"
    "\<And>s u. (s, u) \<in> arcs H \<longleftrightarrow> (s = 0 \<and> (\<exists>q w. final_at F q w \<and> u = eps_tr (r w) (q + 1))) \<or>
       (\<exists>q v. (q, v) \<in> arcs F \<and> s = nextstate v + 1 \<and> u = rev_tr r q v)" "bits_ok V H"
    by (rule reverse_fst_spec [OF rv t, of V], rule that)
  note sem = reversed_sem [where G = H and F = F and V = V and W = W and r = r, OF H(4,5) nt]
  have tH: "targets_ok H"
    using t unfolding targets_iff H(2,3,5) by (auto simp: rev_tr_def final_at_def arcs_def)
  have "bits_sound W F (properties F)" using fst_okD(1) [OF F] by (simp add: props_sound_def)
  then have "bits_sound V H (reverse_properties (properties F) True)"
    unfolding bits_sound_def fprop_all pos_bit.simps Suc_numeral
    using sem by (simp add: reverse_properties_bits del: sem.simps)
  with H(6) have "bits_sound V H (reverse_properties (properties F) True OR properties H)"
    by (auto simp: bits_ok_def props_sound_def)
  from set_all_properties_sound [OF this] H(1,6) G tH show ?thesis
    by (auto simp: fst_ok_def bits_ok_def set_properties_with_mask_def)
qed

end
