(* ===== verification/Dfs_Visit.thy ===== *)
theory Dfs_Visit
  imports Reverse
begin

text \<open>
  Depth-first visit (\<open>algorithms/dfs_visit.rs\<close>) and the filters of \<open>algorithms/tr_filters.rs\<close>. A
  visitor is a record of the trait's methods on a state \<open>'v\<close>. The stacks of the code are vectors whose
  last element is the top; here the head of a list is the top. \<open>OpenFstIterator\<close> is the state it walks
  and its position, as the transducer does not change during the visit.
\<close>

subsection \<open>Filters and visitors\<close>

definition any_filter :: "'w tr \<Rightarrow> bool" where "any_filter t = True"

definition epsilon_filter :: "'w tr \<Rightarrow> bool" where
  "epsilon_filter t \<longleftrightarrow> ilabel t = EPS_LABEL \<and> olabel t = EPS_LABEL"

definition input_epsilon_filter :: "'w tr \<Rightarrow> bool" where
  "input_epsilon_filter t \<longleftrightarrow> ilabel t = EPS_LABEL"

definition output_epsilon_filter :: "'w tr \<Rightarrow> bool" where
  "output_epsilon_filter t \<longleftrightarrow> olabel t = EPS_LABEL"

datatype color = White | Grey | Black

record ('w, 'v) visitor =
  v_init_visit :: "'v \<Rightarrow> 'v"
  v_init_state :: "state_id \<Rightarrow> state_id \<Rightarrow> 'v \<Rightarrow> 'v \<times> bool"
  v_tree_tr :: "state_id \<Rightarrow> 'w tr \<Rightarrow> 'v \<Rightarrow> 'v \<times> bool"
  v_back_tr :: "state_id \<Rightarrow> 'w tr \<Rightarrow> 'v \<Rightarrow> 'v \<times> bool"
  v_forward_or_cross_tr :: "state_id \<Rightarrow> 'w tr \<Rightarrow> 'v \<Rightarrow> 'v \<times> bool"
  v_finish_state :: "state_id \<Rightarrow> state_id option \<Rightarrow> 'w tr option \<Rightarrow> 'v \<Rightarrow> 'v res"
  v_finish_visit :: "'v \<Rightarrow> 'v"

record 'v dfs_config =
  cfg_color :: "color list"
  cfg_stack :: "(state_id \<times> nat) list"
  cfg_dfs :: bool
  cfg_vis :: 'v

subsection \<open>One iteration of the inner loop\<close>

definition dfs_pop ::
  "'w vfst \<Rightarrow> ('w, 'v) visitor \<Rightarrow> state_id \<Rightarrow> (state_id \<times> nat) list \<Rightarrow> 'v dfs_config \<Rightarrow> 'v dfs_config res"
where
  "dfs_pop F V s rest cfg =
     (let color = (cfg_color cfg)[s := Black]
      in case rest of
           [] \<Rightarrow> rbind (v_finish_state V s None None (cfg_vis cfg)) (\<lambda>v.
             Inr (cfg\<lparr>cfg_color := color, cfg_stack := [], cfg_vis := v\<rparr>))
         | (p, ppos) # rest' \<Rightarrow>
             rbind (v_finish_state V s (Some p) (Some (trs (state_of F p) ! ppos)) (cfg_vis cfg)) (\<lambda>v.
               Inr (cfg\<lparr>cfg_color := color, cfg_stack := (p, ppos + 1) # rest', cfg_vis := v\<rparr>)))"

definition dfs_arc ::
  "('w, 'v) visitor \<Rightarrow> ('w tr \<Rightarrow> bool) \<Rightarrow> state_id \<Rightarrow> state_id \<Rightarrow> nat \<Rightarrow> (state_id \<times> nat) list \<Rightarrow> 'w tr \<Rightarrow>
   'v dfs_config \<Rightarrow> ('v dfs_config \<times> bool) res"
where
  "dfs_arc V keep root s pos rest t cfg =
     rbind (vec_index (cfg_color cfg) (nextstate t)) (\<lambda>next_color.
       if \<not> keep t then Inr (cfg\<lparr>cfg_stack := (s, pos + 1) # rest\<rparr>, True)
       else case next_color of
         White \<Rightarrow>
           let (v, dfs) = v_tree_tr V s t (cfg_vis cfg)
           in if \<not> dfs then Inr (cfg\<lparr>cfg_dfs := dfs, cfg_vis := v\<rparr>, False)
              else
                let (v, dfs) = v_init_state V (nextstate t) root v
                in Inr (cfg\<lparr>cfg_color := (cfg_color cfg)[nextstate t := Grey],
                            cfg_stack := (nextstate t, 0) # (s, pos) # rest, cfg_dfs := dfs, cfg_vis := v\<rparr>, True)
       | Grey \<Rightarrow>
           let (v, dfs) = v_back_tr V s t (cfg_vis cfg)
           in Inr (cfg\<lparr>cfg_stack := (s, pos + 1) # rest, cfg_dfs := dfs, cfg_vis := v\<rparr>, True)
       | Black \<Rightarrow>
           let (v, dfs) = v_forward_or_cross_tr V s t (cfg_vis cfg)
           in Inr (cfg\<lparr>cfg_stack := (s, pos + 1) # rest, cfg_dfs := dfs, cfg_vis := v\<rparr>, True))"

definition dfs_step ::
  "'w vfst \<Rightarrow> ('w, 'v) visitor \<Rightarrow> ('w tr \<Rightarrow> bool) \<Rightarrow> state_id \<Rightarrow> 'v dfs_config \<Rightarrow> ('v dfs_config \<times> bool) res"
where
  "dfs_step F V keep root cfg =
     (case cfg_stack cfg of
        [] \<Rightarrow> Inr (cfg, False)
      | (s, pos) # rest \<Rightarrow>
          if \<not> cfg_dfs cfg \<or> length (trs (state_of F s)) \<le> pos
          then rbind (dfs_pop F V s rest cfg) (\<lambda>cfg. Inr (cfg, True))
          else dfs_arc V keep root s pos rest (trs (state_of F s) ! pos) cfg)"

subsection \<open>The loops\<close>

text \<open>Each iteration colours a white state or moves an iterator or pops the stack.\<close>

definition whites :: "color list \<Rightarrow> nat" where
  "whites cs = length (filter (\<lambda>c. c = White) cs)"

definition stack_size :: "'w vfst \<Rightarrow> (state_id \<times> nat) list \<Rightarrow> nat" where
  "stack_size F st = sum_list (map (\<lambda>(s, pos). Suc (length (trs (state_of F s)) - pos)) st)"

lemma whites_upd:
  "i < length cs \<Longrightarrow> cs ! i = White \<Longrightarrow> c \<noteq> White \<Longrightarrow> Suc (whites (cs[i := c])) = whites cs"
  by (induction cs arbitrary: i) (auto simp: whites_def split: nat.splits)

lemma whites_upd_le: "c \<noteq> White \<Longrightarrow> whites (cs[i := c]) \<le> whites cs"
proof (induction cs arbitrary: i)
  case (Cons a cs)
  then show ?case by (cases i) (auto simp: whites_def intro: le_SucI)
qed (simp add: whites_def)

lemma dfs_step_decreases:
  assumes "dfs_step F V keep root cfg = Inr (cfg', True)"
  shows "whites (cfg_color cfg') < whites (cfg_color cfg) \<or>
    whites (cfg_color cfg') \<le> whites (cfg_color cfg) \<and> stack_size F (cfg_stack cfg') < stack_size F (cfg_stack cfg)"
proof (cases "cfg_stack cfg")
  case (Cons a rest)
  obtain s pos where a: "a = (s, pos)" by (cases a)
  show ?thesis
  proof (cases "\<not> cfg_dfs cfg \<or> length (trs (state_of F s)) \<le> pos")
    case True
    with assms Cons a show ?thesis
      by (auto simp: dfs_step_def dfs_pop_def rbind_eq_Inr stack_size_def whites_upd_le Let_def
          split: list.splits prod.splits)
  next
    case False
    with assms Cons a show ?thesis
      using whites_upd [of "nextstate (trs (state_of F s) ! pos)" "cfg_color cfg" Grey]
      by (auto simp: dfs_step_def dfs_arc_def rbind_eq_Inr stack_size_def Let_def
          split: if_splits color.splits prod.splits)
  qed
qed (use assms in \<open>simp add: dfs_step_def\<close>)

function dfs_loop ::
  "'w vfst \<Rightarrow> ('w, 'v) visitor \<Rightarrow> ('w tr \<Rightarrow> bool) \<Rightarrow> state_id \<Rightarrow> 'v dfs_config \<Rightarrow> 'v dfs_config res"
where
  "dfs_loop F V keep root cfg =
     (case dfs_step F V keep root cfg of
        Inl e \<Rightarrow> Inl e
      | Inr (cfg', go) \<Rightarrow> if go then dfs_loop F V keep root cfg' else Inr cfg')"
  by pat_completeness auto
termination
proof (relation "measures [\<lambda>(F, V, keep, root, cfg). whites (cfg_color cfg),
    \<lambda>(F, V, keep, root, cfg). stack_size F (cfg_stack cfg)]", goal_cases)
  case (2 F V keep root cfg a cfg' go)
  with dfs_step_decreases [of F V keep root cfg cfg'] show ?case by auto
qed simp

declare dfs_loop.simps [simp del]

text \<open>The visit of the tree of one root.\<close>

definition dfs_tree ::
  "'w vfst \<Rightarrow> ('w, 'v) visitor \<Rightarrow> ('w tr \<Rightarrow> bool) \<Rightarrow> state_id \<Rightarrow> 'v dfs_config \<Rightarrow> 'v dfs_config res"
where
  "dfs_tree F V keep root cfg =
     (let color = (cfg_color cfg)[root := Grey];
          stack = (root, 0) # cfg_stack cfg;
          (v, dfs) = v_init_state V root root (cfg_vis cfg)
      in dfs_loop F V keep root \<lparr>cfg_color = color, cfg_stack = stack, cfg_dfs = dfs, cfg_vis = v\<rparr>)"

text \<open>The next root: the first white state from a position on.\<close>

definition next_white :: "color list \<Rightarrow> nat \<Rightarrow> nat" where
  "next_white cs r = r + length (takeWhile (\<lambda>c. c \<noteq> White) (drop r cs))"

lemma next_white_White: "next_white cs r < length cs \<Longrightarrow> cs ! next_white cs r = White"
proof -
  assume l: "next_white cs r < length cs"
  then have "length (takeWhile (\<lambda>c. c \<noteq> White) (drop r cs)) < length (drop r cs)"
    by (simp add: next_white_def)
  from nth_length_takeWhile [OF this] l show ?thesis by (simp add: next_white_def)
qed

lemma next_white_skip:
  assumes "r \<le> i" "i < next_white cs r" "i < length cs"
  shows "cs ! i \<noteq> White"
proof -
  let ?w = "takeWhile (\<lambda>c. c \<noteq> White) (drop r cs)"
  have i: "i - r < length ?w" using assms by (simp add: next_white_def)
  have "?w ! (i - r) = drop r cs ! (i - r)" by (rule takeWhile_nth [OF i])
  also have "\<dots> = cs ! i" using assms by simp
  finally show ?thesis using set_takeWhileD [OF nth_mem [OF i]] by simp
qed

lemma dfs_loop_whites:
  "dfs_loop F V keep root cfg = Inr cfg' \<Longrightarrow> whites (cfg_color cfg') \<le> whites (cfg_color cfg) \<and>
   length (cfg_color cfg') = length (cfg_color cfg) \<and>
   (\<forall>i < length (cfg_color cfg). cfg_color cfg ! i \<noteq> White \<longrightarrow> cfg_color cfg' ! i \<noteq> White)"
proof (induction F V keep root cfg rule: dfs_loop.induct)
  case (1 F V keep root cfg)
  from "1.prems" obtain c go where s: "dfs_step F V keep root cfg = Inr (c, go)"
    by (subst (asm) dfs_loop.simps) (auto split: sum.splits)
  have l: "length (cfg_color c) = length (cfg_color cfg) \<and> whites (cfg_color c) \<le> whites (cfg_color cfg) \<and>
      (\<forall>i < length (cfg_color cfg). cfg_color cfg ! i \<noteq> White \<longrightarrow> cfg_color c ! i \<noteq> White)"
    using s by (auto simp: dfs_step_def dfs_pop_def dfs_arc_def rbind_eq_Inr whites_upd_le Let_def nth_upd
        split: list.splits if_splits color.splits prod.splits)
  show ?case
  proof (cases go)
    case True
    then have "dfs_loop F V keep root c = Inr cfg'" using "1.prems" s by (subst (asm) dfs_loop.simps) simp
    from "1.IH" [OF s refl True this] l show ?thesis by auto
  next
    case False
    with "1.prems" s l show ?thesis by (subst (asm) dfs_loop.simps) auto
  qed
qed

lemma dfs_tree_whites:
  assumes "dfs_tree F V keep root cfg = Inr cfg'"
  shows "whites (cfg_color cfg') \<le> whites ((cfg_color cfg)[root := Grey])"
    "length (cfg_color cfg') = length (cfg_color cfg)"
    "i < length (cfg_color cfg) \<Longrightarrow> cfg_color cfg ! i \<noteq> White \<or> i = root \<Longrightarrow> cfg_color cfg' ! i \<noteq> White"
proof -
  from assms obtain v dfs where "dfs_loop F V keep root \<lparr>cfg_color = (cfg_color cfg)[root := Grey],
      cfg_stack = (root, 0) # cfg_stack cfg, cfg_dfs = dfs, cfg_vis = v\<rparr> = Inr cfg'"
    by (auto simp: dfs_tree_def Let_def split: prod.splits)
  from dfs_loop_whites [OF this] show "whites (cfg_color cfg') \<le> whites ((cfg_color cfg)[root := Grey])"
    "length (cfg_color cfg') = length (cfg_color cfg)"
    "i < length (cfg_color cfg) \<Longrightarrow> cfg_color cfg ! i \<noteq> White \<or> i = root \<Longrightarrow> cfg_color cfg' ! i \<noteq> White"
    by (auto simp: nth_upd)
qed

function dfs_roots ::
  "'w vfst \<Rightarrow> ('w, 'v) visitor \<Rightarrow> ('w tr \<Rightarrow> bool) \<Rightarrow> bool \<Rightarrow> state_id \<Rightarrow> state_id \<Rightarrow> 'v dfs_config \<Rightarrow> 'v dfs_config res"
where
  "dfs_roots F V keep access_only start root cfg =
     (if \<not> cfg_dfs cfg \<or> length (cfg_color cfg) \<le> root then Inr cfg
      else
        case dfs_tree F V keep root cfg of
          Inl e \<Rightarrow> Inl e
        | Inr cfg' \<Rightarrow>
            if access_only then Inr cfg'
            else dfs_roots F V keep access_only start
                   (next_white (cfg_color cfg') (if root = start then 0 else root + 1)) cfg')"
  by pat_completeness auto
termination
proof (relation "measure (\<lambda>(F, V, keep, access_only, start, root, cfg).
    2 * whites (cfg_color cfg) + (if root < length (cfg_color cfg) \<and> cfg_color cfg ! root \<noteq> White then 1 else 0))",
    goal_cases)
  case (2 F V keep ao start root cfg cfg')
  let ?r = "next_white (cfg_color cfg') (if root = start then 0 else root + 1)"
  note t = dfs_tree_whites [OF 2(2)]
  have "whites (cfg_color cfg') < whites (cfg_color cfg) \<or>
      whites (cfg_color cfg') \<le> whites (cfg_color cfg) \<and> cfg_color cfg ! root \<noteq> White"
    using t(1) whites_upd [of root "cfg_color cfg" Grey] whites_upd_le [of Grey "cfg_color cfg" root] 2(1) by fastforce
  then show ?case
    using next_white_White [of "cfg_color cfg'"] t(2) 2(1) by auto
qed simp

declare dfs_roots.simps [simp del]

definition dfs_visit ::
  "'w vfst \<Rightarrow> ('w, 'v) visitor \<Rightarrow> ('w tr \<Rightarrow> bool) \<Rightarrow> bool \<Rightarrow> 'v \<Rightarrow> 'v res"
where
  "dfs_visit F V keep access_only v =
     (let v = v_init_visit V v
      in case start_state F of
           None \<Rightarrow> Inr (v_finish_visit V v)
         | Some start \<Rightarrow>
             rbind (dfs_roots F V keep access_only start start
                      \<lparr>cfg_color = replicate (num_states F) White, cfg_stack = [], cfg_dfs = True, cfg_vis = v\<rparr>)
               (\<lambda>cfg. Inr (v_finish_visit V (cfg_vis cfg))))"

subsection \<open>Invariant rules\<close>

lemma dfs_loop_inv:
  assumes "P cfg"
    and "\<And>c. P c \<Longrightarrow> cfg_stack c \<noteq> [] \<Longrightarrow> \<exists>c'. dfs_step F V keep root c = Inr (c', True) \<and> P c'"
  shows "\<exists>cfg'. dfs_loop F V keep root cfg = Inr cfg' \<and> P cfg' \<and> cfg_stack cfg' = []"
  using assms
proof (induction F V keep root cfg rule: dfs_loop.induct)
  case (1 F V keep root cfg)
  show ?case
  proof (cases "cfg_stack cfg = []")
    case True
    with "1.prems"(1) show ?thesis by (subst dfs_loop.simps) (simp add: dfs_step_def)
  next
    case False
    from "1.prems"(2) [OF "1.prems"(1) False] obtain c where c: "dfs_step F V keep root cfg = Inr (c, True)" "P c"
      by blast
    from "1.IH" [OF c(1) refl TrueI c(2)] "1.prems"(2) c(1) show ?thesis
      by (subst dfs_loop.simps) simp
  qed
qed

text \<open>
  The roots: the start state first, then every state that is still white. \<open>Q\<close> holds between trees; the
  visit ends when a visitor stops it or no state is white.
\<close>

lemma dfs_roots_inv:
  assumes "Q cfg"
    and tree: "\<And>c r. Q c \<Longrightarrow> cfg_dfs c \<Longrightarrow> r < length (cfg_color c) \<Longrightarrow> cfg_color c ! r = White \<Longrightarrow> r \<noteq> start \<Longrightarrow>
        \<exists>c'. dfs_tree F V keep r c = Inr c' \<and> Q c'"
    and "root \<noteq> start" "root < length (cfg_color cfg) \<longrightarrow> cfg_color cfg ! root = White"
    and "start < length (cfg_color cfg)" "cfg_color cfg ! start \<noteq> White"
    and "\<forall>i < root. i < length (cfg_color cfg) \<longrightarrow> cfg_color cfg ! i \<noteq> White"
  shows "\<exists>cfg'. dfs_roots F V keep False start root cfg = Inr cfg' \<and> Q cfg' \<and>
    length (cfg_color cfg') = length (cfg_color cfg) \<and>
    (cfg_dfs cfg' \<longrightarrow> (\<forall>i < length (cfg_color cfg'). cfg_color cfg' ! i \<noteq> White))"
  using assms(1,3-)
proof (induction "whites (cfg_color cfg)" arbitrary: cfg root rule: less_induct)
  case less
  show ?case
  proof (cases "\<not> cfg_dfs cfg \<or> length (cfg_color cfg) \<le> root")
    case True
    with less.prems show ?thesis by (subst dfs_roots.simps) auto
  next
    case False
    with less.prems(3) have r: "root < length (cfg_color cfg)" "cfg_color cfg ! root = White" "cfg_dfs cfg" by auto
    from tree [OF less.prems(1) r(3,1,2) less.prems(2)] obtain c where
      c: "dfs_tree F V keep root cfg = Inr c" "Q c" by blast
    note t = dfs_tree_whites [OF c(1)]
    let ?r = "next_white (cfg_color c) (root + 1)"
    have w: "whites (cfg_color c) < whites (cfg_color cfg)"
      using t(1) whites_upd [OF r(1,2), of Grey] by simp
    have s: "start < length (cfg_color c)" "cfg_color c ! start \<noteq> White"
      using less.prems(4,5) t(2,3) by auto
    have wh: "?r < length (cfg_color c) \<longrightarrow> cfg_color c ! ?r = White" using next_white_White by blast
    have "?r \<noteq> start" using s wh by auto
    have skip: "cfg_color c ! i \<noteq> White" if "i < ?r" "i < length (cfg_color c)" for i
    proof (cases "i < root + 1")
      case True
      then have "i = root \<or> i < root" by auto
      with that(2) less.prems(6) t(2,3) show ?thesis by auto
    next
      case False
      with that show ?thesis by (intro next_white_skip) auto
    qed
    have sk: "\<forall>i < ?r. i < length (cfg_color c) \<longrightarrow> cfg_color c ! i \<noteq> White" using skip by blast
    have "dfs_roots F V keep False start root cfg = dfs_roots F V keep False start ?r c"
      by (subst dfs_roots.simps) (use False c(1) less.prems(2) in simp)
    with less.hyps [OF w c(2) \<open>?r \<noteq> start\<close> wh s sk] t(2) show ?thesis by simp
  qed
qed


subsection \<open>The visit returns\<close>

definition dfs_safe :: "'w vfst \<Rightarrow> 'v dfs_config \<Rightarrow> bool" where
  "dfs_safe F c \<longleftrightarrow> length (cfg_color c) = num_states F \<and> (\<forall>(s, pos) \<in> set (cfg_stack c). s < num_states F)"

lemma dfs_step_safe:
  assumes t: "targets_ok F" and fin: "\<forall>s p ot v. is_ok (v_finish_state V s p ot v)" and c: "dfs_safe F c"
  shows "\<exists>c' go. dfs_step F V keep root c = Inr (c', go) \<and> dfs_safe F c'"
proof (cases "cfg_stack c")
  case (Cons a rest)
  obtain s pos where a: "a = (s, pos)" by (cases a)
  have s: "s < num_states F" "length (cfg_color c) = num_states F" "\<forall>(s, pos) \<in> set rest. s < num_states F"
    using c Cons a by (auto simp: dfs_safe_def)
  show ?thesis
  proof (cases "\<not> cfg_dfs c \<or> length (trs (state_of F s)) \<le> pos")
    case True
    have fin': "\<exists>v'. v_finish_state V s p ot (cfg_vis c) = Inr v'" for p ot using fin by (simp add: is_ok_iff)
    have "\<exists>c'. dfs_pop F V s rest c = Inr c' \<and> dfs_safe F c'"
    proof (cases rest)
      case Nil
      from fin' [of None None] s Nil show ?thesis by (auto simp: dfs_pop_def dfs_safe_def Let_def)
    next
      case (Cons b rest')
      obtain p ppos where b: "b = (p, ppos)" by (cases b)
      from fin' [of "Some p" "Some (trs (state_of F p) ! ppos)"] s Cons b show ?thesis
        by (auto simp: dfs_pop_def dfs_safe_def Let_def)
    qed
    with True Cons a show ?thesis by (auto simp: dfs_step_def)
  next
    case False
    have n: "nextstate (trs (state_of F s) ! pos) < num_states F"
      using targets_state [OF t s(1)] False by simp
    have "\<exists>c' go. dfs_arc V keep root s pos rest (trs (state_of F s) ! pos) c = Inr (c', go) \<and> dfs_safe F c'"
      using s n c by (auto simp: dfs_arc_def vec_index_def dfs_safe_def Let_def split: color.splits prod.splits)
    with False Cons a show ?thesis by (auto simp: dfs_step_def)
  qed
qed (use c in \<open>auto simp: dfs_step_def\<close>)

lemma dfs_loop_safe:
  assumes "targets_ok F" "\<forall>s p ot v. is_ok (v_finish_state V s p ot v)" "dfs_safe F cfg"
  shows "\<exists>c'. dfs_loop F V keep root cfg = Inr c' \<and> dfs_safe F c'"
  using assms
proof (induction F V keep root cfg rule: dfs_loop.induct)
  case (1 F V keep root cfg)
  from dfs_step_safe [OF "1.prems"] obtain c go where c: "dfs_step F V keep root cfg = Inr (c, go)" "dfs_safe F c"
    by blast
  show ?case
  proof (cases go)
    case True
    from "1.IH" [OF c(1) refl True "1.prems"(1,2) c(2)] c(1) True show ?thesis
      by (subst dfs_loop.simps) simp
  qed (use c in \<open>subst dfs_loop.simps, simp\<close>)
qed

lemma dfs_roots_safe:
  assumes "targets_ok F" "\<forall>s p ot v. is_ok (v_finish_state V s p ot v)" "dfs_safe F cfg"
  shows "\<exists>c'. dfs_roots F V keep ao start root cfg = Inr c'"
  using assms
proof (induction F V keep ao start root cfg rule: dfs_roots.induct)
  case (1 F V keep ao start root cfg)
  show ?case
  proof (cases "\<not> cfg_dfs cfg \<or> length (cfg_color cfg) \<le> root")
    case True
    then show ?thesis by (subst dfs_roots.simps) simp
  next
    case False
    obtain v dfs where v: "v_init_state V root root (cfg_vis cfg) = (v, dfs)" by (cases "v_init_state V root root (cfg_vis cfg)")
    have "dfs_safe F \<lparr>cfg_color = (cfg_color cfg)[root := Grey], cfg_stack = (root, 0) # cfg_stack cfg, cfg_dfs = dfs, cfg_vis = v\<rparr>"
      using "1.prems"(3) False by (auto simp: dfs_safe_def)
    from dfs_loop_safe [OF "1.prems"(1,2) this, of keep root] v obtain c where
      c: "dfs_tree F V keep root cfg = Inr c" "dfs_safe F c" by (auto simp: dfs_tree_def)
    show ?thesis
    proof (cases ao)
      case True
      then show ?thesis using c by (subst dfs_roots.simps) simp
    next
      case ao: False
      from "1.IH" [OF False c(1) ao "1.prems"(1,2) c(2)] c(1) ao False show ?thesis
        by (subst dfs_roots.simps) simp
    qed
  qed
qed

lemma dfs_visit_total:
  assumes "targets_ok F" "\<forall>s p ot v. is_ok (v_finish_state V s p ot v)"
  shows "\<exists>v'. dfs_visit F V keep ao v = Inr v'"
proof (cases "start_state F")
  case (Some i)
  have "dfs_safe F \<lparr>cfg_color = replicate (num_states F) White, cfg_stack = [], cfg_dfs = True, cfg_vis = v_init_visit V v\<rparr>"
    by (simp add: dfs_safe_def)
  from dfs_roots_safe [OF assms this, of keep ao i i] Some show ?thesis by (auto simp: dfs_visit_def)
qed (simp add: dfs_visit_def)

subsection \<open>Invariants of the visitor\<close>

definition keeps_visitor :: "('w, 'v) visitor \<Rightarrow> ('v \<Rightarrow> bool) \<Rightarrow> bool" where
  "keeps_visitor V P \<longleftrightarrow> (\<forall>v. P v \<longrightarrow> P (v_init_visit V v) \<and> P (v_finish_visit V v) \<and>
     (\<forall>s r. P (fst (v_init_state V s r v))) \<and> (\<forall>s t. P (fst (v_tree_tr V s t v))) \<and>
     (\<forall>s t. P (fst (v_back_tr V s t v))) \<and> (\<forall>s t. P (fst (v_forward_or_cross_tr V s t v))) \<and>
     (\<forall>s p t v'. v_finish_state V s p t v = Inr v' \<longrightarrow> P v'))"

lemma dfs_step_keeps:
  assumes k: "keeps_visitor V P" and P: "P (cfg_vis c)" and s: "dfs_step F V keep root c = Inr (c', go)"
  shows "P (cfg_vis c')"
proof -
  have K: "\<And>v s r v' b. P v \<Longrightarrow> v_init_state V s r v = (v', b) \<Longrightarrow> P v'"
      "\<And>v s t v' b. P v \<Longrightarrow> v_tree_tr V s t v = (v', b) \<Longrightarrow> P v'" "\<And>v s t v' b. P v \<Longrightarrow> v_back_tr V s t v = (v', b) \<Longrightarrow> P v'"
      "\<And>v s t v' b. P v \<Longrightarrow> v_forward_or_cross_tr V s t v = (v', b) \<Longrightarrow> P v'"
      "\<And>v s p t v'. P v \<Longrightarrow> v_finish_state V s p t v = Inr v' \<Longrightarrow> P v'"
    using k unfolding keeps_visitor_def by (metis fst_conv)+
  have pop: "P (cfg_vis d)" if "dfs_pop F V s rest c = Inr d" for s rest d
    using that P unfolding dfs_pop_def Let_def
    by (auto simp: rbind_eq_Inr split: list.splits elim!: K(5) [OF P])
  have arc: "P (cfg_vis d)" if a: "dfs_arc V keep root s pos rest t c = Inr (d, go)" for s pos rest t d
  proof -
    obtain v1 b1 where v1: "v_tree_tr V s t (cfg_vis c) = (v1, b1)" by fastforce
    obtain v2 b2 where v2: "v_init_state V (nextstate t) root v1 = (v2, b2)" by fastforce
    obtain v3 b3 where v3: "v_back_tr V s t (cfg_vis c) = (v3, b3)" by fastforce
    obtain v4 b4 where v4: "v_forward_or_cross_tr V s t (cfg_vis c) = (v4, b4)" by fastforce
    have "P v1" "P v2" "P v3" "P v4" using K(2) [OF P v1] K(1) [OF K(2) [OF P v1] v2] K(3) [OF P v3] K(4) [OF P v4] .
    with a P show ?thesis unfolding dfs_arc_def Let_def v1 v2 v3 v4
      by (auto simp: rbind_eq_Inr v2 split: if_splits color.splits)
  qed
  show ?thesis
  proof (cases "cfg_stack c")
    case (Cons x rest)
    then show ?thesis using s pop arc unfolding dfs_step_def
      by (cases x) (auto simp: rbind_eq_Inr split: if_splits)
  qed (use s P in \<open>simp add: dfs_step_def\<close>)
qed

lemma dfs_loop_keeps:
  "keeps_visitor V P \<Longrightarrow> P (cfg_vis c) \<Longrightarrow> dfs_loop F V keep root c = Inr c' \<Longrightarrow> P (cfg_vis c')"
proof (induction F V keep root c rule: dfs_loop.induct)
  case (1 F V keep root c)
  from "1.prems"(3) obtain d go where s: "dfs_step F V keep root c = Inr (d, go)"
    by (subst (asm) dfs_loop.simps) (auto split: sum.splits)
  note d = dfs_step_keeps [OF "1.prems"(1,2) s]
  show ?case
  proof (cases go)
    case True
    then have "dfs_loop F V keep root d = Inr c'" using "1.prems"(3) s by (subst (asm) dfs_loop.simps) simp
    then show ?thesis by (rule "1.IH" [OF s refl True "1.prems"(1) d])
  next
    case False
    with "1.prems"(3) s d show ?thesis by (subst (asm) dfs_loop.simps) simp
  qed
qed

lemma dfs_roots_keeps:
  "keeps_visitor V P \<Longrightarrow> P (cfg_vis c) \<Longrightarrow> dfs_roots F V keep ao start root c = Inr c' \<Longrightarrow> P (cfg_vis c')"
proof (induction F V keep ao start root c rule: dfs_roots.induct)
  case (1 F V keep ao start root c)
  show ?case
  proof (cases "\<not> cfg_dfs c \<or> length (cfg_color c) \<le> root")
    case True
    with "1.prems" show ?thesis by (subst (asm) dfs_roots.simps) simp
  next
    case False
    from "1.prems"(3) False obtain d where d: "dfs_tree F V keep root c = Inr d"
      by (subst (asm) dfs_roots.simps) (auto split: sum.splits)
    obtain v dfs where v: "v_init_state V root root (cfg_vis c) = (v, dfs)" by fastforce
    with "1.prems"(1,2) have "P v" unfolding keeps_visitor_def by (metis fst_conv)
    moreover from d v have "dfs_loop F V keep root \<lparr>cfg_color = (cfg_color c)[root := Grey],
        cfg_stack = (root, 0) # cfg_stack c, cfg_dfs = dfs, cfg_vis = v\<rparr> = Inr d" by (simp add: dfs_tree_def)
    ultimately have P: "P (cfg_vis d)" using dfs_loop_keeps [OF "1.prems"(1)] by (metis dfs_config.select_convs(4))
    show ?thesis
    proof (cases ao)
      case True
      with "1.prems"(3) False d P show ?thesis by (subst (asm) dfs_roots.simps) simp
    next
      case ao: False
      with "1.prems"(3) False d have "dfs_roots F V keep ao start
          (next_white (cfg_color d) (if root = start then 0 else root + 1)) d = Inr c'"
        by (subst (asm) dfs_roots.simps) simp
      then show ?thesis by (rule "1.IH" [OF False d ao "1.prems"(1) P])
    qed
  qed
qed

lemma dfs_visit_keeps:
  assumes "keeps_visitor V P" "P v" "dfs_visit F V keep ao v = Inr v'"
  shows "P v'"
proof -
  have "P (v_init_visit V v)" and fin: "\<And>v. P v \<Longrightarrow> P (v_finish_visit V v)"
    using assms(1,2) by (auto simp: keeps_visitor_def)
  show ?thesis
  proof (cases "start_state F")
    case None
    with assms(3) fin [OF \<open>P (v_init_visit V v)\<close>] show ?thesis by (simp add: dfs_visit_def)
  next
    case (Some i)
    with assms(3) obtain c where c: "dfs_roots F V keep ao i i \<lparr>cfg_color = replicate (num_states F) White,
        cfg_stack = [], cfg_dfs = True, cfg_vis = v_init_visit V v\<rparr> = Inr c" "v' = v_finish_visit V (cfg_vis c)"
      by (auto simp: dfs_visit_def Let_def rbind_eq_Inr)
    have "P (cfg_vis c)"
      by (rule dfs_roots_keeps [OF assms(1) _ c(1)]) (simp add: \<open>P (v_init_visit V v)\<close>)
    with c(2) fin show ?thesis by simp
  qed
qed

end
