(* ===== verification/Scc_Core.thy ===== *)
theory Scc_Core
  imports Dfs_Visit
begin

text \<open>
  The strongly connected component bookkeeping shared by \<open>SccVisitor\<close> (\<open>algorithms/visitors/scc_visitors.rs\<close>)
  and \<open>ConnectVisitor\<close> (\<open>algorithms/connect.rs\<close>): the fields both keep, the updates both make, and
  the invariant of the algorithm (Tarjan's), stated over a graph, the grey states and the arcs processed
  so far. A visitor's record extends \<open>scc_core\<close>. The vectors have one entry per state; \<open>dfs_visit\<close> has
  already checked the state against a vector of that length when it calls a visitor. The head of
  \<open>scc_stack\<close> is the top.
\<close>

subsection \<open>The shared state and its updates\<close>

record scc_core =
  coaccess :: "bool list"
  nstates :: nat
  dfnumber :: "int list"
  lowlink :: "int list"
  onstack :: "bool list"
  scc_stack :: "state_id list"

text \<open>The cast \<open>as i32\<close> of a count.\<close>

definition as_i32 :: "nat \<Rightarrow> int" where
  "as_i32 n = signed_take_bit 31 (int n)"

lemma as_i32_small [simp]: "n < 2 ^ 31 \<Longrightarrow> as_i32 n = int n"
  unfolding as_i32_def by (intro signed_take_bit_int_eq_self) auto

definition scc_new :: "nat \<Rightarrow> scc_core" where
  "scc_new n = \<lparr>coaccess = replicate n False, nstates = 0, dfnumber = replicate n (- 1),
     lowlink = replicate n (- 1), onstack = replicate n False, scc_stack = []\<rparr>"

definition scc_init :: "state_id \<Rightarrow> 'a scc_core_scheme \<Rightarrow> 'a scc_core_scheme" where
  "scc_init s v =
     v\<lparr>scc_stack := s # scc_stack v,
       dfnumber := (dfnumber v)[s := as_i32 (nstates v)],
       lowlink := (lowlink v)[s := as_i32 (nstates v)],
       onstack := (onstack v)[s := True],
       nstates := nstates v + 1\<rparr>"

definition coaccess_from :: "state_id \<Rightarrow> state_id \<Rightarrow> 'a scc_core_scheme \<Rightarrow> 'a scc_core_scheme" where
  "coaccess_from s t v = (if coaccess v ! t then v\<lparr>coaccess := (coaccess v)[s := True]\<rparr> else v)"

definition scc_back :: "state_id \<Rightarrow> state_id \<Rightarrow> 'a scc_core_scheme \<Rightarrow> 'a scc_core_scheme" where
  "scc_back s t v =
     coaccess_from s t
       (if dfnumber v ! t < lowlink v ! s then v\<lparr>lowlink := (lowlink v)[s := dfnumber v ! t]\<rparr> else v)"

definition scc_forward :: "state_id \<Rightarrow> state_id \<Rightarrow> 'a scc_core_scheme \<Rightarrow> 'a scc_core_scheme" where
  "scc_forward s t v =
     coaccess_from s t
       (if dfnumber v ! t < dfnumber v ! s \<and> onstack v ! t \<and> dfnumber v ! t < lowlink v ! s
        then v\<lparr>lowlink := (lowlink v)[s := dfnumber v ! t]\<rparr> else v)"

text \<open>The two loops over the top of the component stack; \<open>mark\<close> is what else a visitor does with a member.\<close>

fun scc_any :: "bool list \<Rightarrow> state_id \<Rightarrow> state_id list \<Rightarrow> bool \<Rightarrow> bool res" where
  "scc_any co s [] b = Inl (Panic ''attempt to subtract with overflow'')"
| "scc_any co s (t # ts) b =
     (let b = (if co ! t then True else b) in if s = t then Inr b else scc_any co s ts b)"

fun scc_pop ::
  "(state_id \<Rightarrow> 'a scc_core_scheme \<Rightarrow> 'a scc_core_scheme) \<Rightarrow> bool \<Rightarrow> state_id \<Rightarrow> state_id list \<Rightarrow>
   'a scc_core_scheme \<Rightarrow> 'a scc_core_scheme res"
where
  "scc_pop mark b s [] v = Inl (Panic ''last of an empty stack'')"
| "scc_pop mark b s (t # ts) v =
     (let v = mark t v;
          v = (if b then v\<lparr>coaccess := (coaccess v)[t := True]\<rparr> else v);
          v = v\<lparr>onstack := (onstack v)[t := False]\<rparr>;
          v = v\<lparr>scc_stack := ts\<rparr>
      in if s = t then Inr v else scc_pop mark b s ts v)"

definition scc_to_parent :: "state_id \<Rightarrow> state_id option \<Rightarrow> 'a scc_core_scheme \<Rightarrow> 'a scc_core_scheme" where
  "scc_to_parent s parent v =
     (case parent of
        None \<Rightarrow> v
      | Some p \<Rightarrow>
          let v = (if coaccess v ! s then v\<lparr>coaccess := (coaccess v)[p := True]\<rparr> else v)
          in if lowlink v ! s < lowlink v ! p then v\<lparr>lowlink := (lowlink v)[p := lowlink v ! s]\<rparr> else v)"

definition scc_final :: "'w vfst \<Rightarrow> state_id \<Rightarrow> 'a scc_core_scheme \<Rightarrow> 'a scc_core_scheme" where
  "scc_final F s v =
     (if final_weight (state_of F s) \<noteq> None then v\<lparr>coaccess := (coaccess v)[s := True]\<rparr> else v)"

text \<open>\<open>after\<close> is what a visitor does once a component is complete.\<close>

definition scc_finish ::
  "(state_id \<Rightarrow> 'a scc_core_scheme \<Rightarrow> 'a scc_core_scheme) \<Rightarrow> (bool \<Rightarrow> 'a scc_core_scheme \<Rightarrow> 'a scc_core_scheme) \<Rightarrow>
   'w vfst \<Rightarrow> state_id \<Rightarrow> state_id option \<Rightarrow> 'a scc_core_scheme \<Rightarrow> 'a scc_core_scheme res"
where
  "scc_finish mark after F s parent v =
     (let v = scc_final F s v
      in rbind
           (if dfnumber v ! s = lowlink v ! s
            then rbind (scc_any (coaccess v) s (scc_stack v) False) (\<lambda>b.
                   rbind (scc_pop mark b s (scc_stack v) v) (\<lambda>v. Inr (after b v)))
            else Inr v)
           (\<lambda>v. Inr (scc_to_parent s parent v)))"

subsection \<open>What the loops compute\<close>

definition set_all :: "'a list \<Rightarrow> nat list \<Rightarrow> 'a \<Rightarrow> 'a list" where
  "set_all xs is x = fold (\<lambda>i xs. xs[i := x]) is xs"

lemma length_set_all [simp]: "length (set_all xs is x) = length xs"
  by (induction "is" arbitrary: xs) (auto simp: set_all_def)

lemma nth_set_all [simp]: "i < length xs \<Longrightarrow> set_all xs is x ! i = (if i \<in> set is then x else xs ! i)"
  by (induction "is" arbitrary: xs) (auto simp: set_all_def nth_upd)

lemma scc_any_eq:
  "s \<notin> set A \<Longrightarrow> scc_any co s (A @ s # B) b = Inr (b \<or> (\<exists>t \<in> set (A @ [s]). co ! t))"
  by (induction A arbitrary: b) (auto simp: Let_def)

lemma scc_pop_core:
  "s \<notin> set A \<Longrightarrow> scc_pop (\<lambda>_ v. v) b s (A @ s # B) (v :: scc_core) =
    Inr (v\<lparr>coaccess := if b then set_all (coaccess v) (A @ [s]) True else coaccess v,
           onstack := set_all (onstack v) (A @ [s]) False, scc_stack := B\<rparr>)"
  by (induction A arbitrary: v) (auto simp: Let_def set_all_def)

text \<open>Extensions that leave the shared fields alone do not affect them.\<close>

abbreviation core :: "'a scc_core_scheme \<Rightarrow> scc_core" where "core \<equiv> scc_core.truncate"

lemma core_sel [simp]:
  "coaccess (core v) = coaccess v" "nstates (core v) = nstates v" "dfnumber (core v) = dfnumber v"
  "lowlink (core v) = lowlink v" "onstack (core v) = onstack v" "scc_stack (core v) = scc_stack v"
  by (simp_all add: scc_core.defs)

lemma core_upd [simp]:
  "core (v\<lparr>coaccess := a\<rparr>) = (core v)\<lparr>coaccess := a\<rparr>" "core (v\<lparr>nstates := b\<rparr>) = (core v)\<lparr>nstates := b\<rparr>"
  "core (v\<lparr>dfnumber := c\<rparr>) = (core v)\<lparr>dfnumber := c\<rparr>" "core (v\<lparr>lowlink := c\<rparr>) = (core v)\<lparr>lowlink := c\<rparr>"
  "core (v\<lparr>onstack := a\<rparr>) = (core v)\<lparr>onstack := a\<rparr>" "core (v\<lparr>scc_stack := e\<rparr>) = (core v)\<lparr>scc_stack := e\<rparr>"
  by (simp_all add: scc_core.defs)

lemma core_steps:
  "core (scc_init s v) = scc_init s (core v)"
  "core (scc_back s t v) = scc_back s t (core v)"
  "core (scc_forward s t v) = scc_forward s t (core v)"
  "core (scc_to_parent s p v) = scc_to_parent s p (core v)"
  "core (scc_final F s v) = scc_final F s (core v)"
  by (simp_all add: scc_init_def scc_back_def scc_forward_def coaccess_from_def scc_to_parent_def scc_final_def
      Let_def split: option.splits)

lemma core_pop:
  assumes "\<And>t v. core (mark t v) = core v"
  shows "rbind (scc_pop mark b s st v) (\<lambda>v. Inr (core v)) = scc_pop (\<lambda>_ v. v) b s st (core v)"
proof (induction st arbitrary: v)
  case (Cons t st)
  have "coaccess (mark t v) = coaccess v" "onstack (mark t v) = onstack v"
    using assms [THEN arg_cong, of coaccess] assms [THEN arg_cong, of onstack] by simp_all
  with Cons show ?case by (auto simp: Let_def assms)
qed simp

lemma core_finish:
  assumes "\<And>t v. core (mark t v) = core v" "\<And>b v. core (after b v) = core v"
  shows "rbind (scc_finish mark after F s p v) (\<lambda>v. Inr (core v)) =
    scc_finish (\<lambda>_ v. v) (\<lambda>_ v. v) F s p (core v)"
proof -
  let ?u = "scc_final F s v"
  have pop: "rbind (scc_pop mark b s st u) (\<lambda>x. Inr (scc_to_parent s p (core x))) =
      rbind (scc_pop (\<lambda>_ v. v) b s st (core u)) (\<lambda>x. Inr (scc_to_parent s p x))" for b st u
    by (simp flip: core_pop [where mark = mark, OF assms(1)])
  have "rbind (scc_finish mark after F s p v) (\<lambda>v. Inr (core v)) =
      rbind (if dfnumber ?u ! s = lowlink ?u ! s
        then rbind (scc_any (coaccess ?u) s (scc_stack ?u) False) (\<lambda>b.
               rbind (scc_pop (\<lambda>_ v. v) b s (scc_stack ?u) (core ?u)) Inr)
        else Inr (core ?u)) (\<lambda>v. Inr (scc_to_parent s p v))"
    by (simp add: scc_finish_def Let_def core_steps(4) assms(2) pop)
  also have "\<dots> = scc_finish (\<lambda>_ v. v) (\<lambda>_ v. v) F s p (core v)"
    by (simp add: scc_finish_def Let_def core_steps(5) [symmetric])
  finally show ?thesis .
qed

end
