(* ===== verification/Scc_Invariant.thy ===== *)
theory Scc_Invariant
  imports Scc_Core
begin

text \<open>
  The invariant of the component search of \<open>Scc_Core\<close> and its preservation by every update: discovering a
  state, processing an arc to a grey or to a finished state, finishing a state.
\<close>

subsection \<open>The invariant\<close>

text \<open>
  \<open>gs\<close> are the grey states, the deepest first, \<open>vis\<close> the states discovered so far and \<open>P\<close> the arcs
  processed so far. A state is done once it has left the component stack.
\<close>

definition scc_order :: "'w vfst \<Rightarrow> state_id list \<Rightarrow> state_id set \<Rightarrow> (state_id \<times> state_id) set \<Rightarrow> scc_core \<Rightarrow> bool" where
  "scc_order F gs vis P k \<longleftrightarrow>
     length (coaccess k) = num_states F \<and> length (dfnumber k) = num_states F \<and>
     length (lowlink k) = num_states F \<and> length (onstack k) = num_states F \<and>
     vis \<subseteq> {..< num_states F} \<and> nstates k = card vis \<and> num_states F < 2 ^ 31 \<and>
     (\<forall>x \<in> vis. 0 \<le> dfnumber k ! x \<and> dfnumber k ! x < int (nstates k)) \<and> inj_on (\<lambda>x. dfnumber k ! x) vis \<and>
     set (scc_stack k) \<subseteq> vis \<and> (\<forall>x < num_states F. onstack k ! x \<longleftrightarrow> x \<in> set (scc_stack k)) \<and>
     sorted_wrt (\<lambda>x y. dfnumber k ! y < dfnumber k ! x) (scc_stack k) \<and>
     sorted_wrt (\<lambda>x y. dfnumber k ! y < dfnumber k ! x) gs \<and> set gs \<subseteq> set (scc_stack k) \<and>
     edges F \<subseteq> {..< num_states F} \<times> {..< num_states F} \<and> P \<subseteq> edges F \<and> P \<subseteq> vis \<times> vis \<and>
     (\<forall>x y. x \<in> vis \<longrightarrow> x \<notin> set gs \<longrightarrow> (x, y) \<in> edges F \<longrightarrow> (x, y) \<in> P)"

definition scc_reach :: "'w vfst \<Rightarrow> state_id list \<Rightarrow> state_id set \<Rightarrow> (state_id \<times> state_id) set \<Rightarrow> scc_core \<Rightarrow> bool" where
  "scc_reach F gs vis P k \<longleftrightarrow>
     (\<forall>x y. x \<in> set (scc_stack k) \<longrightarrow> y \<in> set (scc_stack k) \<longrightarrow> dfnumber k ! x \<le> dfnumber k ! y \<longrightarrow> (x, y) \<in> (edges F)\<^sup>*) \<and>
     (\<forall>t \<in> set (scc_stack k). \<exists>g \<in> set gs. dfnumber k ! g \<le> dfnumber k ! t \<and> (t, g) \<in> (edges F)\<^sup>*) \<and>
     (\<forall>x y. x \<in> vis \<longrightarrow> x \<notin> set (scc_stack k) \<longrightarrow> (x, y) \<in> edges F \<longrightarrow> y \<in> vis \<and> y \<notin> set (scc_stack k)) \<and>
     (\<forall>g x y. g \<in> set gs \<longrightarrow> dfnumber k ! x < dfnumber k ! g \<longrightarrow> (x, y) \<in> P \<longrightarrow> dfnumber k ! y < dfnumber k ! g)"

definition scc_low :: "'w vfst \<Rightarrow> state_id list \<Rightarrow> (state_id \<times> state_id) set \<Rightarrow> scc_core \<Rightarrow> bool" where
  "scc_low F gs P k \<longleftrightarrow>
     (\<forall>g \<in> set gs. lowlink k ! g \<le> dfnumber k ! g \<and>
        (\<exists>w \<in> set (scc_stack k). dfnumber k ! w = lowlink k ! g \<and> (g, w) \<in> (edges F)\<^sup>*)) \<and>
     (\<forall>g x y. g \<in> set gs \<longrightarrow> x \<in> set (scc_stack k) \<longrightarrow> dfnumber k ! g \<le> dfnumber k ! x \<longrightarrow>
        (\<forall>h \<in> set gs. dfnumber k ! h \<le> dfnumber k ! x \<longrightarrow> dfnumber k ! h \<le> dfnumber k ! g) \<longrightarrow>
        (x, y) \<in> P \<longrightarrow> y \<in> set (scc_stack k) \<longrightarrow> lowlink k ! g \<le> dfnumber k ! y)"

definition scc_co :: "'w vfst \<Rightarrow> state_id list \<Rightarrow> state_id set \<Rightarrow> (state_id \<times> state_id) set \<Rightarrow> scc_core \<Rightarrow> bool" where
  "scc_co F gs vis P k \<longleftrightarrow>
     (\<forall>x < num_states F. coaccess k ! x \<longrightarrow> coaccessible_state F x) \<and>
     (\<forall>x. x \<in> vis \<longrightarrow> x \<notin> set (scc_stack k) \<longrightarrow> coaccessible_state F x \<longrightarrow> coaccess k ! x) \<and>
     (\<forall>x. x \<in> vis \<longrightarrow> x \<notin> set gs \<longrightarrow> is_final_state F x \<longrightarrow> coaccess k ! x) \<and>
     (\<forall>x y. x \<in> set (scc_stack k) \<longrightarrow> (x, y) \<in> P \<longrightarrow> y \<notin> set (scc_stack k) \<longrightarrow> coaccess k ! y \<longrightarrow> coaccess k ! x)"

definition scc_inv :: "'w vfst \<Rightarrow> state_id list \<Rightarrow> state_id set \<Rightarrow> (state_id \<times> state_id) set \<Rightarrow> scc_core \<Rightarrow> bool" where
  "scc_inv F gs vis P k \<longleftrightarrow> scc_order F gs vis P k \<and> scc_reach F gs vis P k \<and> scc_low F gs P k \<and> scc_co F gs vis P k"

lemma scc_orderD:
  assumes "scc_order F gs vis P k"
  shows "length (coaccess k) = num_states F" "length (dfnumber k) = num_states F"
    "length (lowlink k) = num_states F" "length (onstack k) = num_states F"
    and "x \<in> vis \<Longrightarrow> x < num_states F" and "nstates k = card vis" and "num_states F < 2 ^ 31"
    and "x \<in> vis \<Longrightarrow> 0 \<le> dfnumber k ! x" "x \<in> vis \<Longrightarrow> dfnumber k ! x < int (nstates k)"
    and "x \<in> vis \<Longrightarrow> y \<in> vis \<Longrightarrow> dfnumber k ! x = dfnumber k ! y \<Longrightarrow> x = y"
    and "x \<in> set (scc_stack k) \<Longrightarrow> x \<in> vis" and "x < num_states F \<Longrightarrow> onstack k ! x \<longleftrightarrow> x \<in> set (scc_stack k)"
    and "sorted_wrt (\<lambda>x y. dfnumber k ! y < dfnumber k ! x) (scc_stack k)"
    and "sorted_wrt (\<lambda>x y. dfnumber k ! y < dfnumber k ! x) gs" and "x \<in> set gs \<Longrightarrow> x \<in> set (scc_stack k)"
    and "(x, y) \<in> edges F \<Longrightarrow> x < num_states F" "(x, y) \<in> edges F \<Longrightarrow> y < num_states F"
    and "(x, y) \<in> P \<Longrightarrow> (x, y) \<in> edges F" "(x, y) \<in> P \<Longrightarrow> x \<in> vis" "(x, y) \<in> P \<Longrightarrow> y \<in> vis"
    and "x \<in> vis \<Longrightarrow> x \<notin> set gs \<Longrightarrow> (x, y) \<in> edges F \<Longrightarrow> (x, y) \<in> P"
  using assms unfolding scc_order_def inj_on_def by (blast | auto)+

lemma scc_orderI:
  assumes "length (coaccess k) = num_states F \<and> length (dfnumber k) = num_states F \<and>
      length (lowlink k) = num_states F \<and> length (onstack k) = num_states F"
    and "\<And>x. x \<in> vis \<Longrightarrow> x < num_states F" and "nstates k = card vis" and "num_states F < 2 ^ 31"
    and "\<And>x. x \<in> vis \<Longrightarrow> 0 \<le> dfnumber k ! x \<and> dfnumber k ! x < int (nstates k)"
    and "\<And>x y. x \<in> vis \<Longrightarrow> y \<in> vis \<Longrightarrow> dfnumber k ! x = dfnumber k ! y \<Longrightarrow> x = y"
    and "\<And>x. x \<in> set (scc_stack k) \<Longrightarrow> x \<in> vis"
    and "\<And>x. x < num_states F \<Longrightarrow> onstack k ! x \<longleftrightarrow> x \<in> set (scc_stack k)"
    and "sorted_wrt (\<lambda>x y. dfnumber k ! y < dfnumber k ! x) (scc_stack k)"
    and "sorted_wrt (\<lambda>x y. dfnumber k ! y < dfnumber k ! x) gs"
    and "\<And>x. x \<in> set gs \<Longrightarrow> x \<in> set (scc_stack k)"
    and "\<And>x y. (x, y) \<in> edges F \<Longrightarrow> x < num_states F \<and> y < num_states F"
    and "\<And>x y. (x, y) \<in> P \<Longrightarrow> (x, y) \<in> edges F \<and> x \<in> vis \<and> y \<in> vis"
    and "\<And>x y. x \<in> vis \<Longrightarrow> x \<notin> set gs \<Longrightarrow> (x, y) \<in> edges F \<Longrightarrow> (x, y) \<in> P"
  shows "scc_order F gs vis P k"
  unfolding scc_order_def inj_on_def
  using assms(1,3,4,9,10)
  by (intro conjI) (blast dest: assms(2,5-8,11,14) | (auto dest: assms(12,13))[1])+

lemma scc_top_grey:
  assumes "scc_order F (s # gs) vis P k" "g \<in> set (s # gs)"
  shows "dfnumber k ! g \<le> dfnumber k ! s" "g \<in> set gs \<Longrightarrow> dfnumber k ! g < dfnumber k ! s"
  using assms scc_orderD(14) [OF assms(1)] by auto

subsection \<open>Discovering a state\<close>

lemma scc_init_sel:
  assumes "scc_order F gs vis P k" "x < num_states F" "y < num_states F" "y \<notin> vis"
  shows "dfnumber (scc_init y k) ! x = (if x = y then int (card vis) else dfnumber k ! x)"
    "lowlink (scc_init y k) ! x = (if x = y then int (card vis) else lowlink k ! x)"
    "onstack (scc_init y k) ! x = (x = y \<or> onstack k ! x)"
    "coaccess (scc_init y k) = coaccess k" "scc_stack (scc_init y k) = y # scc_stack k"
proof -
  note o = scc_orderD [OF assms(1)]
  have "vis \<subseteq> {..< num_states F}" using o(5) by blast
  then have "card vis \<le> num_states F" using card_mono [of "{..< num_states F}" vis] by simp
  then have "as_i32 (nstates k) = int (card vis)" using o(6,7) by simp
  then show "dfnumber (scc_init y k) ! x = (if x = y then int (card vis) else dfnumber k ! x)"
    "lowlink (scc_init y k) ! x = (if x = y then int (card vis) else lowlink k ! x)"
    "onstack (scc_init y k) ! x = (x = y \<or> onstack k ! x)"
    "coaccess (scc_init y k) = coaccess k" "scc_stack (scc_init y k) = y # scc_stack k"
    using o(2-4) assms(2,3) by (auto simp: scc_init_def nth_upd)
qed

lemma scc_init_d:
  assumes "scc_order F gs vis P k" "y < num_states F" "y \<notin> vis" "x \<in> vis"
  shows "dfnumber (scc_init y k) ! x = dfnumber k ! x" "dfnumber k ! x < dfnumber (scc_init y k) ! y"
    "lowlink (scc_init y k) ! x = lowlink k ! x" "x \<noteq> y"
proof -
  note o = scc_orderD [OF assms(1)]
  have "x \<noteq> y" "x < num_states F" using o(5) assms by auto
  then show "dfnumber (scc_init y k) ! x = dfnumber k ! x" "dfnumber k ! x < dfnumber (scc_init y k) ! y"
    "lowlink (scc_init y k) ! x = lowlink k ! x" "x \<noteq> y"
    using scc_init_sel [OF assms(1) _ assms(2,3)] assms(2,4) o(6,9) by auto
qed

lemma scc_init_order:
  assumes "scc_order F gs vis P k" "y < num_states F" "y \<notin> vis"
  shows "scc_order F (y # gs) (insert y vis) P (scc_init y k)"
proof -
  note o = scc_orderD [OF assms(1)]
  note sel = scc_init_sel [OF assms(1) _ assms(2,3)]
  note d = scc_init_d [OF assms]
  have fin: "finite vis" using o(5) by (meson finite_lessThan finite_subset lessThan_iff subsetI)
  have dy: "dfnumber (scc_init y k) ! y = int (card vis)" using sel(1) assms(2) by simp
  have st: "x \<in> set (scc_stack k) \<Longrightarrow> x \<in> vis" "x \<in> set gs \<Longrightarrow> x \<in> vis" for x using o(11,15) by blast+
  have sorted: "sorted_wrt (\<lambda>a b. dfnumber (scc_init y k) ! b < dfnumber (scc_init y k) ! a) (y # xs)"
    if "sorted_wrt (\<lambda>a b. dfnumber k ! b < dfnumber k ! a) xs" "set xs \<subseteq> vis" for xs
  proof -
    have "sorted_wrt (\<lambda>a b. dfnumber (scc_init y k) ! b < dfnumber (scc_init y k) ! a) xs"
      using that by (auto intro!: sorted_wrt_mono_rel [OF _ that(1)] simp: d subset_iff)
    moreover have "dfnumber (scc_init y k) ! x < dfnumber (scc_init y k) ! y" if "x \<in> set xs" for x
      using d(1,2) that \<open>set xs \<subseteq> vis\<close> by (metis subsetD)
    ultimately show ?thesis by simp
  qed
  show ?thesis
  proof (rule scc_orderI)
    show "length (coaccess (scc_init y k)) = num_states F \<and> length (dfnumber (scc_init y k)) = num_states F \<and>
      length (lowlink (scc_init y k)) = num_states F \<and> length (onstack (scc_init y k)) = num_states F"
      using o(1-4) by (simp add: scc_init_def)
    show "nstates (scc_init y k) = card (insert y vis)" using fin assms(3) o(6) by (simp add: scc_init_def)
    show "0 \<le> dfnumber (scc_init y k) ! x \<and> dfnumber (scc_init y k) ! x < int (nstates (scc_init y k))"
      if "x \<in> insert y vis" for x
      using that d(1)[of x] dy o(6) o(8,9)[of x] by (auto simp: scc_init_def)
    show "x = z" if "x \<in> insert y vis" "z \<in> insert y vis" "dfnumber (scc_init y k) ! x = dfnumber (scc_init y k) ! z" for x z
      using d(1,2) o(10) that by (metis insert_iff less_irrefl)
    show "sorted_wrt (\<lambda>a b. dfnumber (scc_init y k) ! b < dfnumber (scc_init y k) ! a) (scc_stack (scc_init y k))"
      using sorted [OF o(13)] st(1) sel(5) [OF assms(2)] by auto
    show "sorted_wrt (\<lambda>a b. dfnumber (scc_init y k) ! b < dfnumber (scc_init y k) ! a) (y # gs)"
      using sorted [OF o(14)] st(2) by auto
    show "onstack (scc_init y k) ! x \<longleftrightarrow> x \<in> set (scc_stack (scc_init y k))" if "x < num_states F" for x
      using sel(3,5) [OF that] o(12) [OF that] by auto
    show "x < num_states F" if "x \<in> insert y vis" for x using that assms(2) o(5) by blast
    show "x \<in> insert y vis" if "x \<in> set (scc_stack (scc_init y k))" for x
      using that st(1) sel(5) [OF assms(2)] by auto
    show "x \<in> set (scc_stack (scc_init y k))" if "x \<in> set (y # gs)" for x
      using that o(15) sel(5) [OF assms(2)] by auto
    show "x < num_states F \<and> z < num_states F" if "(x, z) \<in> edges F" for x z using that o(16,17) by blast
    show "(x, z) \<in> edges F \<and> x \<in> insert y vis \<and> z \<in> insert y vis" if "(x, z) \<in> P" for x z
      using that o(18-20) by blast
    show "(x, z) \<in> P" if "x \<in> insert y vis" "x \<notin> set (y # gs)" "(x, z) \<in> edges F" for x z
      using that o(21) by auto
  qed (rule o(7))
qed


text \<open>The introduction and elimination rules of the other parts.\<close>

lemma scc_reachD:
  assumes "scc_reach F gs vis P k"
  shows "x \<in> set (scc_stack k) \<Longrightarrow> y \<in> set (scc_stack k) \<Longrightarrow> dfnumber k ! x \<le> dfnumber k ! y \<Longrightarrow> (x, y) \<in> (edges F)\<^sup>*"
    and "t \<in> set (scc_stack k) \<Longrightarrow> \<exists>g \<in> set gs. dfnumber k ! g \<le> dfnumber k ! t \<and> (t, g) \<in> (edges F)\<^sup>*"
    and "x \<in> vis \<Longrightarrow> x \<notin> set (scc_stack k) \<Longrightarrow> (x, y) \<in> edges F \<Longrightarrow> y \<in> vis \<and> y \<notin> set (scc_stack k)"
    and "g \<in> set gs \<Longrightarrow> dfnumber k ! x < dfnumber k ! g \<Longrightarrow> (x, y) \<in> P \<Longrightarrow> dfnumber k ! y < dfnumber k ! g"
  using assms unfolding scc_reach_def by blast+

lemma scc_reachI:
  assumes "\<And>x y. x \<in> set (scc_stack k) \<Longrightarrow> y \<in> set (scc_stack k) \<Longrightarrow> dfnumber k ! x \<le> dfnumber k ! y \<Longrightarrow> (x, y) \<in> (edges F)\<^sup>*"
    and "\<And>t. t \<in> set (scc_stack k) \<Longrightarrow> \<exists>g \<in> set gs. dfnumber k ! g \<le> dfnumber k ! t \<and> (t, g) \<in> (edges F)\<^sup>*"
    and "\<And>x y. x \<in> vis \<Longrightarrow> x \<notin> set (scc_stack k) \<Longrightarrow> (x, y) \<in> edges F \<Longrightarrow> y \<in> vis \<and> y \<notin> set (scc_stack k)"
    and "\<And>g x y. g \<in> set gs \<Longrightarrow> dfnumber k ! x < dfnumber k ! g \<Longrightarrow> (x, y) \<in> P \<Longrightarrow> dfnumber k ! y < dfnumber k ! g"
  shows "scc_reach F gs vis P k"
  unfolding scc_reach_def using assms by blast

lemma scc_lowD:
  assumes "scc_low F gs P k" "g \<in> set gs"
  shows "lowlink k ! g \<le> dfnumber k ! g"
    and "\<exists>w \<in> set (scc_stack k). dfnumber k ! w = lowlink k ! g \<and> (g, w) \<in> (edges F)\<^sup>*"
    and "x \<in> set (scc_stack k) \<Longrightarrow> dfnumber k ! g \<le> dfnumber k ! x \<Longrightarrow>
        (\<And>h. h \<in> set gs \<Longrightarrow> dfnumber k ! h \<le> dfnumber k ! x \<Longrightarrow> dfnumber k ! h \<le> dfnumber k ! g) \<Longrightarrow>
        (x, y) \<in> P \<Longrightarrow> y \<in> set (scc_stack k) \<Longrightarrow> lowlink k ! g \<le> dfnumber k ! y"
  using assms unfolding scc_low_def by blast+

lemma scc_lowI:
  assumes "\<And>g. g \<in> set gs \<Longrightarrow> lowlink k ! g \<le> dfnumber k ! g"
    and "\<And>g. g \<in> set gs \<Longrightarrow> \<exists>w \<in> set (scc_stack k). dfnumber k ! w = lowlink k ! g \<and> (g, w) \<in> (edges F)\<^sup>*"
    and "\<And>g x y. g \<in> set gs \<Longrightarrow> x \<in> set (scc_stack k) \<Longrightarrow> dfnumber k ! g \<le> dfnumber k ! x \<Longrightarrow>
        \<forall>h \<in> set gs. dfnumber k ! h \<le> dfnumber k ! x \<longrightarrow> dfnumber k ! h \<le> dfnumber k ! g \<Longrightarrow>
        (x, y) \<in> P \<Longrightarrow> y \<in> set (scc_stack k) \<Longrightarrow> lowlink k ! g \<le> dfnumber k ! y"
  shows "scc_low F gs P k"
  unfolding scc_low_def using assms by blast

lemma scc_coD:
  assumes "scc_co F gs vis P k"
  shows "x < num_states F \<Longrightarrow> coaccess k ! x \<Longrightarrow> coaccessible_state F x"
    and "x \<in> vis \<Longrightarrow> x \<notin> set (scc_stack k) \<Longrightarrow> coaccessible_state F x \<Longrightarrow> coaccess k ! x"
    and "x \<in> vis \<Longrightarrow> x \<notin> set gs \<Longrightarrow> is_final_state F x \<Longrightarrow> coaccess k ! x"
    and "x \<in> set (scc_stack k) \<Longrightarrow> (x, y) \<in> P \<Longrightarrow> y \<notin> set (scc_stack k) \<Longrightarrow> coaccess k ! y \<Longrightarrow> coaccess k ! x"
  using assms unfolding scc_co_def by blast+

lemma scc_coI:
  assumes "\<And>x. x < num_states F \<Longrightarrow> coaccess k ! x \<Longrightarrow> coaccessible_state F x"
    and "\<And>x. x \<in> vis \<Longrightarrow> x \<notin> set (scc_stack k) \<Longrightarrow> coaccessible_state F x \<Longrightarrow> coaccess k ! x"
    and "\<And>x. x \<in> vis \<Longrightarrow> x \<notin> set gs \<Longrightarrow> is_final_state F x \<Longrightarrow> coaccess k ! x"
    and "\<And>x y. x \<in> set (scc_stack k) \<Longrightarrow> (x, y) \<in> P \<Longrightarrow> y \<notin> set (scc_stack k) \<Longrightarrow> coaccess k ! y \<Longrightarrow> coaccess k ! x"
  shows "scc_co F gs vis P k"
  unfolding scc_co_def using assms by blast

lemma scc_init_inv:
  assumes "scc_inv F gs vis P k" "y < num_states F" "y \<notin> vis"
    and top: "\<And>s gs'. gs = s # gs' \<Longrightarrow> (s, y) \<in> edges F"
  shows "scc_inv F (y # gs) (insert y vis) P (scc_init y k)"
proof -
  have ord: "scc_order F gs vis P k" and rch: "scc_reach F gs vis P k" and low: "scc_low F gs P k"
    and co: "scc_co F gs vis P k" using assms(1) by (auto simp: scc_inv_def)
  note o = scc_orderD [OF ord] and r = scc_reachD [OF rch] and c = scc_coD [OF co]
  let ?k = "scc_init y k"
  note sel = scc_init_sel [OF ord _ assms(2,3)]
  note d = scc_init_d [OF ord assms(2,3)]
  have stk: "scc_stack ?k = y # scc_stack k" "coaccess ?k = coaccess k" by (simp_all add: scc_init_def)
  have dy: "dfnumber ?k ! y = int (card vis)" "lowlink ?k ! y = int (card vis)" using sel(1,2) assms(2) by simp_all
  have to_y: "(x, y) \<in> (edges F)\<^sup>*" if "x \<in> set (scc_stack k)" for x
  proof -
    from r(2) [OF that] obtain g where g: "g \<in> set gs" "(x, g) \<in> (edges F)\<^sup>*" by blast
    then obtain s gs' where s: "gs = s # gs'" by (cases gs) auto
    have "(g, s) \<in> (edges F)\<^sup>*"
      using g(1) s o(15) scc_top_grey(1) [OF ord [unfolded s]] by (intro r(1)) auto
    with g(2) top [OF s] show ?thesis by (meson rtrancl.rtrancl_into_rtrancl rtrancl_trans)
  qed
  have v: "x \<in> vis" if "x \<in> set (scc_stack k)" for x using that o(11) by blast
  have gv: "g \<in> vis" if "g \<in> set gs" for g using that o(11,15) by blast
  have "scc_reach F (y # gs) (insert y vis) P ?k"
  proof (rule scc_reachI)
    fix x z assume "x \<in> set (scc_stack ?k)" "z \<in> set (scc_stack ?k)" "dfnumber ?k ! x \<le> dfnumber ?k ! z"
    then show "(x, z) \<in> (edges F)\<^sup>*"
      using to_y r(1) [of x z] d(1,2) [of x] d(1,2) [of z] v stk(1) by (cases "z = y"; cases "x = y") auto
  next
    fix t assume "t \<in> set (scc_stack ?k)"
    then consider "t = y" | "t \<in> set (scc_stack k)" using stk by auto
    then show "\<exists>g \<in> set (y # gs). dfnumber ?k ! g \<le> dfnumber ?k ! t \<and> (t, g) \<in> (edges F)\<^sup>*"
    proof cases
      case 2
      from r(2) [OF this] obtain g where "g \<in> set gs" "dfnumber k ! g \<le> dfnumber k ! t" "(t, g) \<in> (edges F)\<^sup>*" by blast
      with 2 show ?thesis using d(1) [of g] d(1) [of t] v gv by auto
    qed auto
  next
    fix x z assume "x \<in> insert y vis" "x \<notin> set (scc_stack ?k)" "(x, z) \<in> edges F"
    with r(3) [of x z] stk assms(3) show "z \<in> insert y vis \<and> z \<notin> set (scc_stack ?k)" by auto
  next
    fix g x z assume a: "g \<in> set (y # gs)" "dfnumber ?k ! x < dfnumber ?k ! g" "(x, z) \<in> P"
    then have xz: "x \<in> vis" "z \<in> vis" using o(19,20) by blast+
    show "dfnumber ?k ! z < dfnumber ?k ! g"
    proof (cases "g = y")
      case False
      with a gv have "g \<in> vis" "g \<in> set gs" by auto
      with a(2,3) xz show ?thesis using r(4) [of g x z] d(1) by simp
    qed (use d(1,2) xz in simp)
  qed
  moreover have "scc_low F (y # gs) P ?k"
  proof (rule scc_lowI)
    fix g assume "g \<in> set (y # gs)"
    then consider "g = y" | "g \<in> set gs" by auto
    then show "lowlink ?k ! g \<le> dfnumber ?k ! g"
      using scc_lowD(1) [OF low, of g] d(1,3) [of g] gv dy by cases auto
  next
    fix g assume "g \<in> set (y # gs)"
    then consider "g = y" | "g \<in> set gs" by auto
    then show "\<exists>w \<in> set (scc_stack ?k). dfnumber ?k ! w = lowlink ?k ! g \<and> (g, w) \<in> (edges F)\<^sup>*"
    proof cases
      case 1
      with stk dy show ?thesis by auto
    next
      case 2
      from scc_lowD(2) [OF low 2] obtain w where w: "w \<in> set (scc_stack k)" "dfnumber k ! w = lowlink k ! g"
        "(g, w) \<in> (edges F)\<^sup>*" by blast
      then show ?thesis using stk d(1) [of w] d(3) [of g] v gv 2 by auto
    qed
  next
    fix g x z
    assume a: "g \<in> set (y # gs)" "x \<in> set (scc_stack ?k)" "dfnumber ?k ! g \<le> dfnumber ?k ! x"
      and top: "\<forall>h \<in> set (y # gs). dfnumber ?k ! h \<le> dfnumber ?k ! x \<longrightarrow> dfnumber ?k ! h \<le> dfnumber ?k ! g"
      and xz: "(x, z) \<in> P" "z \<in> set (scc_stack ?k)"
    have vis: "x \<in> vis" "z \<in> vis" using o(19,20) xz(1) by blast+
    then have xy: "x \<noteq> y" "z \<noteq> y" using assms(3) by auto
    have g: "g \<noteq> y" using a(3) d(1,2) [OF vis(1)] by auto
    have "lowlink k ! g \<le> dfnumber k ! z"
    proof (rule scc_lowD(3) [OF low])
      show "g \<in> set gs" using a(1) g by simp
      then show "dfnumber k ! g \<le> dfnumber k ! x" using a(3) d(1) vis gv by simp
      show "dfnumber k ! h \<le> dfnumber k ! g" if "h \<in> set gs" "dfnumber k ! h \<le> dfnumber k ! x" for h
        using top that d(1) vis gv \<open>g \<in> set gs\<close> by (metis list.set_intros(2))
    qed (use a(2) xz xy stk in auto)
    with d(1) [OF vis(2)] d(3) [of g] gv a(1) g show "lowlink ?k ! g \<le> dfnumber ?k ! z" by simp
  qed
  moreover have "scc_co F (y # gs) (insert y vis) P ?k"
    using c o(19,20) assms(3) by (intro scc_coI) (auto simp: stk)
  ultimately show ?thesis using scc_init_order [OF ord assms(2,3)] by (simp add: scc_inv_def)
qed


subsection \<open>Processing an arc\<close>

lemma coaccessible_step: "(s, t) \<in> edges F \<Longrightarrow> coaccessible_state F t \<Longrightarrow> coaccessible_state F s"
  unfolding coaccessible_state_def by (meson converse_rtrancl_into_rtrancl)

lemma coaccessible_path: "(s, t) \<in> (edges F)\<^sup>* \<Longrightarrow> coaccessible_state F t \<Longrightarrow> coaccessible_state F s"
  unfolding coaccessible_state_def by (meson rtrancl_trans)

lemma scc_arc_inv:
  assumes "scc_inv F (s # gs) vis P k" "(s, t) \<in> edges F" "t \<in> vis"
    and v: "v = lowlink k ! s \<or> v = dfnumber k ! t \<and> t \<in> set (scc_stack k) \<and> dfnumber k ! t < lowlink k ! s"
    and vt: "t \<in> set (scc_stack k) \<Longrightarrow> v \<le> dfnumber k ! t"
  shows "scc_inv F (s # gs) vis (insert (s, t) P) (coaccess_from s t (k\<lparr>lowlink := (lowlink k)[s := v]\<rparr>))"
proof -
  have ord: "scc_order F (s # gs) vis P k" and rch: "scc_reach F (s # gs) vis P k"
    and low: "scc_low F (s # gs) P k" and co: "scc_co F (s # gs) vis P k"
    using assms(1) by (auto simp: scc_inv_def)
  note o = scc_orderD [OF ord] and r = scc_reachD [OF rch] and c = scc_coD [OF co] and l = scc_lowD [OF low]
  let ?k = "coaccess_from s t (k\<lparr>lowlink := (lowlink k)[s := v]\<rparr>)"
  have sK: "s \<in> set (scc_stack k)" and sv: "s \<in> vis" and sn: "s < num_states F" using o(5,11,15) by auto
  have sel: "scc_stack ?k = scc_stack k" "dfnumber ?k = dfnumber k" "onstack ?k = onstack k" "nstates ?k = nstates k"
    "length (lowlink ?k) = num_states F" "length (coaccess ?k) = num_states F"
    using o(1,3) by (simp_all add: coaccess_from_def)
  have lw: "lowlink ?k ! x = (if x = s then v else lowlink k ! x)" if "x \<in> set (s # gs)" for x
    using that o(3,5,11,15) by (simp add: coaccess_from_def nth_upd)
  have C: "coaccess ?k ! x = (coaccess k ! x \<or> x = s \<and> coaccess k ! t)" if "x < num_states F" for x
    using that o(1) by (simp add: coaccess_from_def nth_upd)
  have v_le: "v \<le> lowlink k ! s" using v by auto
  have "scc_order F (s # gs) vis (insert (s, t) P) ?k"
    using ord assms(2,3) sv unfolding scc_order_def sel by (elim conjE) (intro conjI; blast)
  moreover have "scc_reach F (s # gs) vis (insert (s, t) P) ?k"
  proof (rule scc_reachI, unfold sel)
    fix g x y assume a: "g \<in> set (s # gs)" "dfnumber k ! x < dfnumber k ! g" "(x, y) \<in> insert (s, t) P"
    have "dfnumber k ! g \<le> dfnumber k ! s" by (rule scc_top_grey(1) [OF ord a(1)])
    with a show "dfnumber k ! y < dfnumber k ! g" using r(4) [of g x y] by auto
  qed (fact r)+
  moreover have "scc_low F (s # gs) (insert (s, t) P) ?k"
  proof (rule scc_lowI, unfold sel)
    fix g assume g: "g \<in> set (s # gs)"
    show "lowlink ?k ! g \<le> dfnumber k ! g" using lw [OF g] l(1) [OF g] v_le by auto
  next
    fix g assume g: "g \<in> set (s # gs)"
    show "\<exists>w \<in> set (scc_stack k). dfnumber k ! w = lowlink ?k ! g \<and> (g, w) \<in> (edges F)\<^sup>*"
    proof (cases "g = s \<and> v \<noteq> lowlink k ! s")
      case True
      with v lw [OF g] assms(2) show ?thesis by auto
    next
      case False
      with lw [OF g] have "lowlink ?k ! g = lowlink k ! g" by auto
      then show ?thesis using l(2) [OF g] by simp
    qed
  next
    fix g x y
    assume a: "g \<in> set (s # gs)" "x \<in> set (scc_stack k)" "dfnumber k ! g \<le> dfnumber k ! x"
      and top: "\<forall>h \<in> set (s # gs). dfnumber k ! h \<le> dfnumber k ! x \<longrightarrow> dfnumber k ! h \<le> dfnumber k ! g"
      and xy: "(x, y) \<in> insert (s, t) P" "y \<in> set (scc_stack k)"
    show "lowlink ?k ! g \<le> dfnumber k ! y"
    proof (cases "(x, y) \<in> P")
      case True
      from l(3) [OF a(1,2,3) _ True xy(2)] top have "lowlink k ! g \<le> dfnumber k ! y" by blast
      with lw [OF a(1)] v_le show ?thesis by (auto split: if_splits)
    next
      case False
      with xy have e: "x = s" "y = t" by auto
      with top have "dfnumber k ! s \<le> dfnumber k ! g" by simp
      with a(3) e have "dfnumber k ! g = dfnumber k ! s" by simp
      then have "g = s" by (rule o(10) [OF o(11) [OF o(15) [OF a(1)]] sv])
      with e xy(2) vt lw [OF a(1)] show ?thesis by simp
    qed
  qed
  moreover have "scc_co F (s # gs) vis (insert (s, t) P) ?k"
  proof (rule scc_coI, unfold sel)
    fix x assume x: "x < num_states F" "coaccess ?k ! x"
    then consider "coaccess k ! x" | "x = s" "coaccess k ! t" using C by blast
    then show "coaccessible_state F x"
    proof cases
      case 2
      with c(1) [OF o(5) [OF assms(3)]] show ?thesis by (simp add: coaccessible_step [OF assms(2)])
    qed (rule c(1) [OF x(1)])
  next
    fix x assume "x \<in> vis" "x \<notin> set (scc_stack k)" "coaccessible_state F x"
    with c(2) C [of x] o(5) show "coaccess ?k ! x" by blast
  next
    fix x assume "x \<in> vis" "x \<notin> set (s # gs)" "is_final_state F x"
    with c(3) C [of x] o(5) show "coaccess ?k ! x" by blast
  next
    fix x y assume a: "x \<in> set (scc_stack k)" "(x, y) \<in> insert (s, t) P" "y \<notin> set (scc_stack k)" "coaccess ?k ! y"
    have n: "x < num_states F" "y < num_states F" using a o(5,11,20) assms(3) by auto
    have "coaccess k ! y" using a(3,4) C [OF n(2)] sK by auto
    with a c(4) [of x y] C [OF n(1)] show "coaccess ?k ! x" by auto
  qed
  ultimately show ?thesis by (simp add: scc_inv_def)
qed

lemma scc_back_inv:
  assumes "scc_inv F (s # gs) vis P k" "(s, t) \<in> edges F" "t \<in> set (s # gs)"
  shows "scc_inv F (s # gs) vis (insert (s, t) P) (scc_back s t k)"
proof -
  have ord: "scc_order F (s # gs) vis P k" using assms(1) by (simp add: scc_inv_def)
  note o = scc_orderD [OF ord]
  let ?v = "if dfnumber k ! t < lowlink k ! s then dfnumber k ! t else lowlink k ! s"
  have "scc_back s t k = coaccess_from s t (k\<lparr>lowlink := (lowlink k)[s := ?v]\<rparr>)"
    by (simp add: scc_back_def)
  then show ?thesis
    using scc_arc_inv [OF assms(1,2), of ?v] o(11,15) assms(3) by auto
qed

lemma scc_forward_inv:
  assumes "scc_inv F (s # gs) vis P k" "(s, t) \<in> edges F" "t \<in> vis"
  shows "scc_inv F (s # gs) vis (insert (s, t) P) (scc_forward s t k)"
proof -
  have ord: "scc_order F (s # gs) vis P k" and low: "scc_low F (s # gs) P k" using assms(1) by (simp_all add: scc_inv_def)
  note o = scc_orderD [OF ord]
  let ?b = "dfnumber k ! t < dfnumber k ! s \<and> onstack k ! t \<and> dfnumber k ! t < lowlink k ! s"
  let ?v = "if ?b then dfnumber k ! t else lowlink k ! s"
  have "scc_forward s t k = coaccess_from s t (k\<lparr>lowlink := (lowlink k)[s := ?v]\<rparr>)"
    by (simp add: scc_forward_def)
  moreover have "lowlink k ! s \<le> dfnumber k ! s" using scc_lowD(1) [OF low] by simp
  ultimately show ?thesis
    using scc_arc_inv [OF assms, of ?v] o(12) [OF o(5) [OF assms(3)]] by auto
qed


subsection \<open>Finishing a state\<close>

text \<open>A final state is co-accessible.\<close>

lemma scc_final_inv:
  assumes "scc_inv F (s # gs) vis P k"
  shows "scc_inv F (s # gs) vis P (scc_final F s k)" "is_final_state F s \<Longrightarrow> coaccess (scc_final F s k) ! s"
proof -
  have ord: "scc_order F (s # gs) vis P k" and rch: "scc_reach F (s # gs) vis P k"
    and low: "scc_low F (s # gs) P k" and co: "scc_co F (s # gs) vis P k"
    using assms by (auto simp: scc_inv_def)
  note o = scc_orderD [OF ord] and c = scc_coD [OF co]
  let ?k = "scc_final F s k"
  have s: "s \<in> set (scc_stack k)" "s < num_states F" using o(5,11,15) by auto
  have sel: "scc_stack ?k = scc_stack k" "dfnumber ?k = dfnumber k" "lowlink ?k = lowlink k" "onstack ?k = onstack k"
    "nstates ?k = nstates k" "length (coaccess ?k) = length (coaccess k)"
    by (simp_all add: scc_final_def)
  have C: "coaccess ?k ! x \<longleftrightarrow> coaccess k ! x \<or> x = s \<and> is_final_state F s" if "x < num_states F" for x
    using that o(1) s by (simp add: scc_final_def nth_upd is_final_state_def)
  show "is_final_state F s \<Longrightarrow> coaccess ?k ! s" using C s by simp
  have "scc_co F (s # gs) vis P ?k"
  proof (rule scc_coI, unfold sel)
    fix x assume x: "x < num_states F" "coaccess ?k ! x"
    then consider "coaccess k ! x" | "x = s" "is_final_state F s" using C by blast
    then show "coaccessible_state F x"
    proof cases
      case 2
      then show ?thesis unfolding coaccessible_state_def by blast
    qed (rule c(1) [OF x(1)])
  next
    fix x assume "x \<in> vis" "x \<notin> set (scc_stack k)" "coaccessible_state F x"
    with c(2) C [of x] o(5) show "coaccess ?k ! x" by blast
  next
    fix x assume "x \<in> vis" "x \<notin> set (s # gs)" "is_final_state F x"
    with c(3) C [of x] o(5) show "coaccess ?k ! x" by blast
  next
    fix x y assume a: "x \<in> set (scc_stack k)" "(x, y) \<in> P" "y \<notin> set (scc_stack k)" "coaccess ?k ! y"
    have n: "x < num_states F" "y < num_states F" using a o(5,11,20) by auto
    have "coaccess k ! y" using a(3,4) C [OF n(2)] s(1) by auto
    with a c(4) [of x y] C [OF n(1)] show "coaccess ?k ! x" by auto
  qed
  with ord rch low show "scc_inv F (s # gs) vis P ?k"
    unfolding scc_inv_def scc_order_def scc_reach_def scc_low_def sel
    by (elim conjE) (intro conjI; assumption)
qed

text \<open>The state is not the root of its component: its low link goes to the parent.\<close>

lemma scc_finish_inner:
  assumes "scc_inv F (s # p # gs) vis P k"
    and all: "\<forall>y. (s, y) \<in> edges F \<longrightarrow> (s, y) \<in> P" and ps: "(p, s) \<in> edges F"
    and fin: "is_final_state F s \<longrightarrow> coaccess k ! s" and lt: "lowlink k ! s < dfnumber k ! s"
  shows "scc_inv F (p # gs) vis (insert (p, s) P) (scc_to_parent s (Some p) k)"
proof -
  have ord: "scc_order F (s # p # gs) vis P k" and rch: "scc_reach F (s # p # gs) vis P k"
    and low: "scc_low F (s # p # gs) P k" and co: "scc_co F (s # p # gs) vis P k"
    using assms(1) by (auto simp: scc_inv_def)
  note o = scc_orderD [OF ord] and r = scc_reachD [OF rch] and c = scc_coD [OF co] and l = scc_lowD [OF low]
  let ?k = "scc_to_parent s (Some p) k"
  have K: "s \<in> set (scc_stack k)" "p \<in> set (scc_stack k)" and v: "s \<in> vis" "p \<in> vis"
    and n: "s < num_states F" "p < num_states F" using o(5,11,15) by auto
  have sel: "scc_stack ?k = scc_stack k" "dfnumber ?k = dfnumber k" "onstack ?k = onstack k" "nstates ?k = nstates k"
    "length (lowlink ?k) = length (lowlink k)" "length (coaccess ?k) = length (coaccess k)"
    by (simp_all add: scc_to_parent_def Let_def)
  have lw: "lowlink ?k ! x = (if x = p then min (lowlink k ! p) (lowlink k ! s) else lowlink k ! x)"
    if "x \<in> set (s # p # gs)" for x
    using that o(3,5,11,15) by (auto simp: scc_to_parent_def Let_def nth_upd)
  have C: "coaccess ?k ! x \<longleftrightarrow> coaccess k ! x \<or> x = p \<and> coaccess k ! s" if "x < num_states F" for x
    using that o(1) by (auto simp: scc_to_parent_def Let_def nth_upd)
  have dp: "dfnumber k ! g \<le> dfnumber k ! p" if "g \<in> set (p # gs)" for g
    using o(14) that by auto
  have ds: "dfnumber k ! g < dfnumber k ! s" if "g \<in> set (p # gs)" for g
    using o(14) that by auto
  have "scc_order F (p # gs) vis (insert (p, s) P) ?k"
  proof (rule scc_orderI, unfold sel)
    show "(x, y) \<in> insert (p, s) P" if "x \<in> vis" "x \<notin> set (p # gs)" "(x, y) \<in> edges F" for x y
      using that o(21) [of x y] all by auto
    show "(x, y) \<in> edges F \<and> x \<in> vis \<and> y \<in> vis" if "(x, y) \<in> insert (p, s) P" for x y
      using that ps v o(18-20) by auto
    show "sorted_wrt (\<lambda>x y. dfnumber k ! y < dfnumber k ! x) (p # gs)" using o(14) by simp
    show "x \<in> set (scc_stack k)" if "x \<in> set (p # gs)" for x using o(15) [of x] that by simp
    show "length (coaccess k) = num_states F \<and> length (dfnumber k) = num_states F \<and>
      length (lowlink k) = num_states F \<and> length (onstack k) = num_states F" using o(1-4) by simp
    show "x < num_states F \<and> y < num_states F" if "(x, y) \<in> edges F" for x y using o(16,17) that by blast
    show "0 \<le> dfnumber k ! x \<and> dfnumber k ! x < int (nstates k)" if "x \<in> vis" for x using o(8,9) that by blast
  qed (fact o(5-13))+
  moreover have "scc_reach F (p # gs) vis (insert (p, s) P) ?k"
  proof (rule scc_reachI, unfold sel)
    fix t assume t: "t \<in> set (scc_stack k)"
    from r(2) [OF t] obtain g where g: "g \<in> set (s # p # gs)" "dfnumber k ! g \<le> dfnumber k ! t" "(t, g) \<in> (edges F)\<^sup>*"
      by blast
    show "\<exists>g \<in> set (p # gs). dfnumber k ! g \<le> dfnumber k ! t \<and> (t, g) \<in> (edges F)\<^sup>*"
    proof (cases "g = s")
      case True
      from l(2) [of s] obtain w where w: "w \<in> set (scc_stack k)" "dfnumber k ! w = lowlink k ! s" "(s, w) \<in> (edges F)\<^sup>*"
        by auto
      from r(2) [OF w(1)] obtain h where h: "h \<in> set (s # p # gs)" "dfnumber k ! h \<le> dfnumber k ! w" "(w, h) \<in> (edges F)\<^sup>*"
        by blast
      with w(2) lt have "h \<noteq> s" by auto
      then have "h \<in> set (p # gs)" using h(1) by simp
      moreover have "dfnumber k ! h \<le> dfnumber k ! t" using h(2) w(2) lt g(2) True by simp
      moreover have "(t, h) \<in> (edges F)\<^sup>*" using g(3) w(3) h(3) True by (meson rtrancl_trans)
      ultimately show ?thesis by blast
    qed (use g in auto)
  next
    fix g x y assume a: "g \<in> set (p # gs)" "dfnumber k ! x < dfnumber k ! g" "(x, y) \<in> insert (p, s) P"
    with dp [OF a(1)] r(4) [of g x y] show "dfnumber k ! y < dfnumber k ! g" by auto
  qed (fact r)+
  moreover have "scc_low F (p # gs) (insert (p, s) P) ?k"
  proof (rule scc_lowI, unfold sel)
    fix g assume g: "g \<in> set (p # gs)"
    show "lowlink ?k ! g \<le> dfnumber k ! g" using lw [of g] l(1) [of g] g by auto
  next
    fix g assume g: "g \<in> set (p # gs)"
    show "\<exists>w \<in> set (scc_stack k). dfnumber k ! w = lowlink ?k ! g \<and> (g, w) \<in> (edges F)\<^sup>*"
    proof (cases "g = p \<and> lowlink k ! s < lowlink k ! p")
      case True
      from l(2) [of s] obtain w where w: "w \<in> set (scc_stack k)" "dfnumber k ! w = lowlink k ! s" "(s, w) \<in> (edges F)\<^sup>*"
        by auto
      have "(p, w) \<in> (edges F)\<^sup>*" using ps w(3) by (rule converse_rtrancl_into_rtrancl)
      with w True lw [of g] show ?thesis by auto
    next
      case False
      with lw [of g] g have "lowlink ?k ! g = lowlink k ! g" by auto
      then show ?thesis using l(2) [of g] g by simp
    qed
  next
    fix g x y
    assume a: "g \<in> set (p # gs)" "x \<in> set (scc_stack k)" "dfnumber k ! g \<le> dfnumber k ! x"
      and top: "\<forall>h \<in> set (p # gs). dfnumber k ! h \<le> dfnumber k ! x \<longrightarrow> dfnumber k ! h \<le> dfnumber k ! g"
      and xy: "(x, y) \<in> insert (p, s) P" "y \<in> set (scc_stack k)"
    have gl: "lowlink ?k ! g \<le> lowlink k ! g" using lw [of g] a(1) by auto
    consider "(x, y) = (p, s)" | "(x, y) \<in> P" "dfnumber k ! s \<le> dfnumber k ! x" | "(x, y) \<in> P" "dfnumber k ! x < dfnumber k ! s"
      using xy(1) by force
    then show "lowlink ?k ! g \<le> dfnumber k ! y"
    proof cases
      case 1
      have "lowlink k ! g \<le> dfnumber k ! g" using l(1) a(1) by simp
      also have "\<dots> < dfnumber k ! s" using ds a(1) by simp
      finally show ?thesis using gl 1 by simp
    next
      case 2
      have "dfnumber k ! p \<le> dfnumber k ! x" using ds [of p] 2(2) by simp
      with top have "dfnumber k ! p \<le> dfnumber k ! g" by simp
      with dp [OF a(1)] have "dfnumber k ! g = dfnumber k ! p" by simp
      moreover have "g \<in> vis" using o(11,15) a(1) by simp
      ultimately have g: "g = p" using o(10) v(2) by blast
      have "lowlink k ! s \<le> dfnumber k ! y"
      proof (rule l(3))
        show "dfnumber k ! h \<le> dfnumber k ! s" if "h \<in> set (s # p # gs)" for h using that ds [of h] by auto
      qed (use 2 a(2) xy(2) in auto)
      with g lw [of p] show ?thesis by simp
    next
      case 3
      have "lowlink k ! g \<le> dfnumber k ! y"
      proof (rule l(3))
        show "dfnumber k ! h \<le> dfnumber k ! g" if "h \<in> set (s # p # gs)" "dfnumber k ! h \<le> dfnumber k ! x" for h
          using that top 3(2) by auto
      qed (use 3 a xy(2) in auto)
      with gl show ?thesis by simp
    qed
  qed
  moreover have "scc_co F (p # gs) vis (insert (p, s) P) ?k"
  proof (rule scc_coI, unfold sel)
    fix x assume x: "x < num_states F" "coaccess ?k ! x"
    then consider "coaccess k ! x" | "x = p" "coaccess k ! s" using C by blast
    then show "coaccessible_state F x"
    proof cases
      case 2
      with c(1) [OF n(1)] show ?thesis by (simp add: coaccessible_step [OF ps])
    qed (rule c(1) [OF x(1)])
  next
    fix x assume "x \<in> vis" "x \<notin> set (scc_stack k)" "coaccessible_state F x"
    with c(2) C [of x] o(5) show "coaccess ?k ! x" by blast
  next
    fix x assume x: "x \<in> vis" "x \<notin> set (p # gs)" "is_final_state F x"
    then have "coaccess k ! x" using c(3) [of x] fin by (cases "x = s") auto
    with C [of x] o(5) [OF x(1)] show "coaccess ?k ! x" by blast
  next
    fix x y assume a: "x \<in> set (scc_stack k)" "(x, y) \<in> insert (p, s) P" "y \<notin> set (scc_stack k)" "coaccess ?k ! y"
    then have P: "(x, y) \<in> P" using K by auto
    have xy: "x < num_states F" "y < num_states F" using P o(5,19,20) by auto
    have "coaccess k ! y" using a(3,4) C [OF xy(2)] K by auto
    with a P c(4) [of x y] C [OF xy(1)] show "coaccess ?k ! x" by auto
  qed
  ultimately show ?thesis by (simp add: scc_inv_def)
qed


text \<open>
  The state is the root of its component: the states above it on the stack, and itself, form the
  component, which is closed together with the states that are done.
\<close>

definition scc_members :: "scc_core \<Rightarrow> state_id \<Rightarrow> state_id set" where
  "scc_members k s = {x \<in> set (scc_stack k). dfnumber k ! s \<le> dfnumber k ! x}"

lemma scc_stack_split:
  assumes "scc_order F (s # gs) vis P k"
  obtains A B where "scc_stack k = A @ s # B" "s \<notin> set A" "set (A @ [s]) = scc_members k s"
    "set B = set (scc_stack k) - scc_members k s"
proof -
  note o = scc_orderD [OF assms]
  have "s \<in> set (scc_stack k)" using o(15) by simp
  then obtain A B where AB: "scc_stack k = A @ s # B" by (meson split_list)
  have "sorted_wrt (\<lambda>x y. dfnumber k ! y < dfnumber k ! x) (A @ s # B)" using o(13) AB by simp
  then have A: "\<forall>x \<in> set A. dfnumber k ! s < dfnumber k ! x" and B: "\<forall>x \<in> set B. dfnumber k ! x < dfnumber k ! s"
    by (auto simp: sorted_wrt_append)
  show thesis
    by (rule that [OF AB]) (use A B AB in \<open>fastforce simp: scc_members_def\<close>)+
qed

lemma scc_members_facts:
  assumes "scc_inv F (s # gs) vis P k" and all: "\<forall>y. (s, y) \<in> edges F \<longrightarrow> (s, y) \<in> P"
    and eq: "dfnumber k ! s = lowlink k ! s"
  shows "x \<in> scc_members k s \<Longrightarrow> (x, s) \<in> (edges F)\<^sup>* \<and> (s, x) \<in> (edges F)\<^sup>*"
    and "x \<in> scc_members k s \<Longrightarrow> (x, y) \<in> edges F \<Longrightarrow>
      (x, y) \<in> P \<and> y \<in> vis \<and> (y \<in> scc_members k s \<or> y \<notin> set (scc_stack k))"
    and "x \<in> scc_members k s \<Longrightarrow> x \<notin> set gs" "s \<in> scc_members k s" "scc_members k s \<subseteq> set (scc_stack k)"
    and "x \<in> set gs \<Longrightarrow> x \<in> set (scc_stack k) - scc_members k s"
proof -
  have ord: "scc_order F (s # gs) vis P k" and rch: "scc_reach F (s # gs) vis P k" and low: "scc_low F (s # gs) P k"
    using assms(1) by (auto simp: scc_inv_def)
  note o = scc_orderD [OF ord] and r = scc_reachD [OF rch] and l = scc_lowD [OF low]
  have sK: "s \<in> set (scc_stack k)" using o(15) by simp
  show sub: "scc_members k s \<subseteq> set (scc_stack k)" "s \<in> scc_members k s" using sK by (auto simp: scc_members_def)
  have ds: "dfnumber k ! g < dfnumber k ! s" if "g \<in> set gs" for g using o(14) that by auto
  show ng: "x \<in> scc_members k s \<Longrightarrow> x \<notin> set gs" for x using ds [of x] by (auto simp: scc_members_def)
  show "x \<in> set gs \<Longrightarrow> x \<in> set (scc_stack k) - scc_members k s" using ng o(15) by auto
  show "(x, s) \<in> (edges F)\<^sup>* \<and> (s, x) \<in> (edges F)\<^sup>*" if x: "x \<in> scc_members k s"
  proof
    have K: "x \<in> set (scc_stack k)" "dfnumber k ! s \<le> dfnumber k ! x" using x by (auto simp: scc_members_def)
    from r(2) [OF K(1)] obtain g where g: "g \<in> set (s # gs)" "(x, g) \<in> (edges F)\<^sup>*" by blast
    have "(g, s) \<in> (edges F)\<^sup>*" by (rule r(1) [OF o(15) [OF g(1)] sK scc_top_grey(1) [OF ord g(1)]])
    with g(2) show "(x, s) \<in> (edges F)\<^sup>*" by (rule rtrancl_trans)
    show "(s, x) \<in> (edges F)\<^sup>*" by (rule r(1) [OF sK K])
  qed
  show "(x, y) \<in> P \<and> y \<in> vis \<and> (y \<in> scc_members k s \<or> y \<notin> set (scc_stack k))"
    if x: "x \<in> scc_members k s" and e: "(x, y) \<in> edges F"
  proof -
    have xK: "x \<in> set (scc_stack k)" "dfnumber k ! s \<le> dfnumber k ! x" using x by (auto simp: scc_members_def)
    have P: "(x, y) \<in> P"
    proof (cases "x = s")
      case False
      with ng [OF x] have "x \<notin> set (s # gs)" by simp
      then show ?thesis by (rule o(21) [OF o(11) [OF xK(1)] _ e])
    qed (use all e in simp)
    have "dfnumber k ! s \<le> dfnumber k ! y" if "y \<in> set (scc_stack k)"
    proof -
      have "lowlink k ! s \<le> dfnumber k ! y"
        by (rule l(3) [OF _ xK _ P that]) (use scc_top_grey(1) [OF ord] in auto)
      then show ?thesis using eq by simp
    qed
    then show ?thesis using P o(20) [OF P] by (auto simp: scc_members_def)
  qed
qed

definition scc_popped :: "bool \<Rightarrow> state_id list \<Rightarrow> state_id list \<Rightarrow> scc_core \<Rightarrow> scc_core" where
  "scc_popped b A B k =
     k\<lparr>coaccess := if b then set_all (coaccess k) A True else coaccess k,
       onstack := set_all (onstack k) A False, scc_stack := B\<rparr>"

lemma scc_members_coaccess:
  assumes "scc_inv F (s # gs) vis P k" and all: "\<forall>y. (s, y) \<in> edges F \<longrightarrow> (s, y) \<in> P"
    and eq: "dfnumber k ! s = lowlink k ! s" and fin: "is_final_state F s \<longrightarrow> coaccess k ! s"
    and x: "x \<in> scc_members k s"
  shows "coaccessible_state F x \<longleftrightarrow> (\<exists>t \<in> scc_members k s. coaccess k ! t)"
proof
  have ord: "scc_order F (s # gs) vis P k" and co: "scc_co F (s # gs) vis P k"
    using assms(1) by (auto simp: scc_inv_def)
  note o = scc_orderD [OF ord] and c = scc_coD [OF co] and m = scc_members_facts [OF assms(1) all eq]
  have v: "z \<in> vis" if "z \<in> scc_members k s" for z using that m(5) o(11) by blast
  assume "coaccessible_state F x"
  then obtain f where f: "is_final_state F f" "(x, f) \<in> (edges F)\<^sup>*" by (auto simp: coaccessible_state_def)
  from f(2) x show "\<exists>t \<in> scc_members k s. coaccess k ! t"
  proof (induction rule: converse_rtrancl_induct)
    case base
    have "coaccess k ! f"
      using c(3) [OF v [OF base] _ f(1)] fin f(1) m(3) [OF base] by (cases "f = s") auto
    with base show ?case by blast
  next
    case (step y z)
    from m(2) [OF step.prems step.hyps(1)]
    consider "z \<in> scc_members k s" | "(y, z) \<in> P" "z \<in> vis" "z \<notin> set (scc_stack k)" by blast
    then show ?case
    proof cases
      case 1
      then show ?thesis by (rule step.IH)
    next
      case 2
      have "coaccessible_state F z" using step.hyps(2) f(1) unfolding coaccessible_state_def by blast
      then have "coaccess k ! z" by (rule c(2) [OF 2(2,3)])
      then have "coaccess k ! y" using c(4) [OF _ 2(1,3)] step.prems m(5) by blast
      with step.prems show ?thesis by blast
    qed
  qed
next
  have ord: "scc_order F (s # gs) vis P k" and co: "scc_co F (s # gs) vis P k"
    using assms(1) by (auto simp: scc_inv_def)
  note m = scc_members_facts [OF assms(1) all eq]
  assume "\<exists>t \<in> scc_members k s. coaccess k ! t"
  then obtain t where t: "t \<in> scc_members k s" "coaccess k ! t" by blast
  have "t < num_states F" using t(1) m(5) scc_orderD(5,11) [OF ord] by blast
  then have "coaccessible_state F t" using scc_coD(1) [OF co] t(2) by blast
  moreover have "(x, t) \<in> (edges F)\<^sup>*" using m(1) [OF x] m(1) [OF t(1)] by (meson rtrancl_trans)
  ultimately show "coaccessible_state F x" by (rule coaccessible_path [rotated])
qed

lemma scc_popped_inv:
  assumes "scc_inv F (s # gs) vis P k" and all: "\<forall>y. (s, y) \<in> edges F \<longrightarrow> (s, y) \<in> P"
    and eq: "dfnumber k ! s = lowlink k ! s" and fin: "is_final_state F s \<longrightarrow> coaccess k ! s"
    and stk: "scc_stack k = A @ s # B"
    and setA: "set (A @ [s]) = scc_members k s" and setB: "set B = set (scc_stack k) - scc_members k s"
    and b: "b \<longleftrightarrow> (\<exists>t \<in> scc_members k s. coaccess k ! t)"
  shows "scc_inv F gs vis P (scc_popped b (A @ [s]) B k)"
proof -
  have ord: "scc_order F (s # gs) vis P k" and rch: "scc_reach F (s # gs) vis P k"
    and low: "scc_low F (s # gs) P k" and co: "scc_co F (s # gs) vis P k"
    using assms(1) by (auto simp: scc_inv_def)
  note o = scc_orderD [OF ord] and r = scc_reachD [OF rch] and c = scc_coD [OF co] and l = scc_lowD [OF low]
  note m = scc_members_facts [OF assms(1) all eq] and mc = scc_members_coaccess [OF assms(1) all eq fin]
  let ?k = "scc_popped b (A @ [s]) B k"
  have sel: "scc_stack ?k = B" "dfnumber ?k = dfnumber k" "lowlink ?k = lowlink k" "nstates ?k = nstates k"
    "length (onstack ?k) = length (onstack k)" "length (coaccess ?k) = length (coaccess k)"
    by (simp_all add: scc_popped_def)
  have on: "onstack ?k ! x \<longleftrightarrow> x \<notin> scc_members k s \<and> onstack k ! x" if "x < num_states F" for x
    using that o(4) setA by (simp add: scc_popped_def)
  have C: "coaccess ?k ! x \<longleftrightarrow> coaccess k ! x \<or> b \<and> x \<in> scc_members k s" if "x < num_states F" for x
    using that o(1) setA by (auto simp: scc_popped_def)
  have BK: "x \<in> set (scc_stack k)" "x \<notin> scc_members k s" "dfnumber k ! x < dfnumber k ! s" if "x \<in> set B" for x
  proof -
    have "x \<in> set (scc_stack k) - scc_members k s" using that unfolding setB .
    then show "x \<in> set (scc_stack k)" "x \<notin> scc_members k s" "dfnumber k ! x < dfnumber k ! s"
      by (auto simp: scc_members_def)
  qed
  have KB: "x \<in> set B" if "x \<in> set (scc_stack k)" "dfnumber k ! x < dfnumber k ! s" for x
    unfolding setB using that by (simp add: scc_members_def)
  have gB: "g \<in> set B" if "g \<in> set gs" for g using m(6) [OF that] setB by simp
  have mn: "x < num_states F" if "x \<in> scc_members k s" for x using that m(5) o(5,11) by blast
  have "scc_order F gs vis P ?k"
  proof (rule scc_orderI, unfold sel)
    show "x \<in> vis" if "x \<in> set B" for x by (rule o(11) [OF BK(1) [OF that]])
    show "onstack ?k ! x \<longleftrightarrow> x \<in> set B" if "x < num_states F" for x
      using on [OF that] o(12) [OF that] setB by auto
    show "sorted_wrt (\<lambda>x y. dfnumber k ! y < dfnumber k ! x) B"
      using o(13) stk by (auto simp: sorted_wrt_append)
    show "sorted_wrt (\<lambda>x y. dfnumber k ! y < dfnumber k ! x) gs" using o(14) by simp
    show "(x, y) \<in> P" if "x \<in> vis" "x \<notin> set gs" "(x, y) \<in> edges F" for x y
      using that o(21) [of x y] all by (cases "x = s") auto
    show "length (coaccess k) = num_states F \<and> length (dfnumber k) = num_states F \<and>
      length (lowlink k) = num_states F \<and> length (onstack k) = num_states F" using o(1-4) by simp
    show "x < num_states F \<and> y < num_states F" if "(x, y) \<in> edges F" for x y using o(16,17) that by blast
    show "0 \<le> dfnumber k ! x \<and> dfnumber k ! x < int (nstates k)" if "x \<in> vis" for x using o(8,9) that by blast
    show "(x, y) \<in> edges F \<and> x \<in> vis \<and> y \<in> vis" if "(x, y) \<in> P" for x y using o(18-20) that by blast
  qed (fact o(5-10) gB)+
  moreover have "scc_reach F gs vis P ?k"
  proof (rule scc_reachI, unfold sel)
    show "(x, y) \<in> (edges F)\<^sup>*" if "x \<in> set B" "y \<in> set B" "dfnumber k ! x \<le> dfnumber k ! y" for x y
      by (rule r(1) [OF BK(1) [OF that(1)] BK(1) [OF that(2)] that(3)])
  next
    fix t assume t: "t \<in> set B"
    from r(2) [OF BK(1) [OF t]] obtain g where
      g: "g \<in> set (s # gs)" "dfnumber k ! g \<le> dfnumber k ! t" "(t, g) \<in> (edges F)\<^sup>*" by blast
    with BK(3) [OF t] show "\<exists>g \<in> set gs. dfnumber k ! g \<le> dfnumber k ! t \<and> (t, g) \<in> (edges F)\<^sup>*" by auto
  next
    fix x y assume x: "x \<in> vis" "x \<notin> set B" "(x, y) \<in> edges F"
    consider "x \<notin> set (scc_stack k)" | "x \<in> scc_members k s" using x(2) setB by blast
    then show "y \<in> vis \<and> y \<notin> set B"
    proof cases
      case 1
      with r(3) [OF x(1) 1 x(3)] BK(1) show ?thesis by blast
    next
      case 2
      with m(2) [OF 2 x(3)] BK(1,2) show ?thesis by blast
    qed
  next
    fix g x y assume "g \<in> set gs" "dfnumber k ! x < dfnumber k ! g" "(x, y) \<in> P"
    then show "dfnumber k ! y < dfnumber k ! g" using r(4) [of g x y] by simp
  qed
  moreover have "scc_low F gs P ?k"
  proof (rule scc_lowI, unfold sel)
    fix g assume "g \<in> set gs"
    then show "lowlink k ! g \<le> dfnumber k ! g" using l(1) [of g] by simp
  next
    fix g assume g: "g \<in> set gs"
    from l(2) [of g] g obtain w where
      w: "w \<in> set (scc_stack k)" "dfnumber k ! w = lowlink k ! g" "(g, w) \<in> (edges F)\<^sup>*" by auto
    have "dfnumber k ! w < dfnumber k ! s" using w(2) l(1) [of g] g BK(3) [OF gB [OF g]] by simp
    with w KB show "\<exists>w \<in> set B. dfnumber k ! w = lowlink k ! g \<and> (g, w) \<in> (edges F)\<^sup>*" by blast
  next
    fix g x y
    assume a: "g \<in> set gs" "x \<in> set B" "dfnumber k ! g \<le> dfnumber k ! x"
      and top: "\<forall>h \<in> set gs. dfnumber k ! h \<le> dfnumber k ! x \<longrightarrow> dfnumber k ! h \<le> dfnumber k ! g"
      and xy: "(x, y) \<in> P" "y \<in> set B"
    show "lowlink k ! g \<le> dfnumber k ! y"
    proof (rule l(3) [OF _ BK(1) [OF a(2)] a(3) _ xy(1) BK(1) [OF xy(2)]])
      show "dfnumber k ! h \<le> dfnumber k ! g" if "h \<in> set (s # gs)" "dfnumber k ! h \<le> dfnumber k ! x" for h
        using that top BK(3) [OF a(2)] by auto
    qed (use a in simp)
  qed
  moreover have "scc_co F gs vis P ?k"
  proof (rule scc_coI, unfold sel)
    fix x assume x: "x < num_states F" "coaccess ?k ! x"
    then consider "coaccess k ! x" | "b" "x \<in> scc_members k s" using C by blast
    then show "coaccessible_state F x"
    proof cases
      case 2
      with mc [OF 2(2)] b show ?thesis by blast
    qed (rule c(1) [OF x(1)])
  next
    fix x assume x: "x \<in> vis" "x \<notin> set B" "coaccessible_state F x"
    consider "x \<notin> set (scc_stack k)" | "x \<in> scc_members k s" using x(2) setB by blast
    then show "coaccess ?k ! x"
    proof cases
      case 1
      then show ?thesis using c(2) [OF x(1) 1 x(3)] C [OF o(5) [OF x(1)]] by blast
    next
      case 2
      then show ?thesis using mc [OF 2] b x(3) C [OF o(5) [OF x(1)]] by blast
    qed
  next
    fix x assume x: "x \<in> vis" "x \<notin> set gs" "is_final_state F x"
    then have "coaccess k ! x" using c(3) [of x] fin by (cases "x = s") auto
    with C [OF o(5) [OF x(1)]] show "coaccess ?k ! x" by blast
  next
    fix x y assume a: "x \<in> set B" "(x, y) \<in> P" "y \<notin> set B" "coaccess ?k ! y"
    have n: "x < num_states F" "y < num_states F" using a(2) o(5,19,20) by auto
    have "y \<notin> scc_members k s" using r(4) [of s x y] BK(3) [OF a(1)] a(2) by (auto simp: scc_members_def)
    then have "coaccess k ! y" "y \<notin> set (scc_stack k)" using a(3,4) C [OF n(2)] setB by auto
    with c(4) [OF BK(1) [OF a(1)] a(2)] C [OF n(1)] show "coaccess ?k ! x" by blast
  qed
  ultimately show ?thesis by (simp add: scc_inv_def)
qed


text \<open>The parent of the deepest grey state is the grey state below it.\<close>

definition parent_of :: "state_id list \<Rightarrow> state_id option" where
  "parent_of gs = (case gs of [] \<Rightarrow> None | p # _ \<Rightarrow> Some p)"

definition tree_arc :: "state_id list \<Rightarrow> state_id \<Rightarrow> (state_id \<times> state_id) set" where
  "tree_arc gs s = (case gs of [] \<Rightarrow> {} | p # _ \<Rightarrow> {(p, s)})"

lemma parent_simps [simp]:
  "parent_of [] = None" "parent_of (p # gs) = Some p" "tree_arc [] s = {}" "tree_arc (p # gs) s = {(p, s)}"
  by (simp_all add: parent_of_def tree_arc_def)

text \<open>Which of the two cases applies, and what finishing does in each.\<close>

lemma scc_finish_cases:
  assumes inv: "scc_inv F (s # gs) vis P k" and all: "\<forall>y. (s, y) \<in> edges F \<longrightarrow> (s, y) \<in> P"
    and top: "tree_arc gs s \<subseteq> edges F"
  obtains (inner) "lowlink k ! s < dfnumber k ! s"
      "scc_inv F gs vis (tree_arc gs s \<union> P) (scc_to_parent s (parent_of gs) (scc_final F s k))"
  | (root) A B b where "dfnumber k ! s = lowlink k ! s" "scc_stack k = A @ s # B" "s \<notin> set A"
      "set (A @ [s]) = scc_members k s" "b \<longleftrightarrow> (\<exists>t \<in> set (A @ [s]). coaccess (scc_final F s k) ! t)"
      "\<And>x. x \<in> set (A @ [s]) \<Longrightarrow> coaccessible_state F x \<longleftrightarrow> b"
      "scc_inv F gs vis (tree_arc gs s \<union> P) (scc_to_parent s (parent_of gs) (scc_popped b (A @ [s]) B (scc_final F s k)))"
proof -
  let ?k = "scc_final F s k"
  have inv': "scc_inv F (s # gs) vis P ?k" and fin: "is_final_state F s \<longrightarrow> coaccess ?k ! s"
    using scc_final_inv [OF inv] by auto
  have ord: "scc_order F (s # gs) vis P ?k" and low: "scc_low F (s # gs) P ?k" using inv' by (auto simp: scc_inv_def)
  have sel: "scc_stack ?k = scc_stack k" "dfnumber ?k = dfnumber k" "lowlink ?k = lowlink k" by (simp_all add: scc_final_def)
  have mem: "scc_members ?k s = scc_members k s" by (simp add: scc_members_def sel)
  have le: "lowlink k ! s \<le> dfnumber k ! s" using scc_lowD(1) [OF low, of s] sel by simp
  show thesis
  proof (cases "lowlink k ! s < dfnumber k ! s")
    case True
    have "gs \<noteq> []"
    proof
      assume gs: "gs = []"
      from scc_lowD(2) [OF low, of s] obtain w where w: "w \<in> set (scc_stack k)" "dfnumber k ! w = lowlink k ! s"
        by (auto simp: sel)
      have "scc_reach F (s # gs) vis P ?k" using inv' by (simp add: scc_inv_def)
      from scc_reachD(2) [OF this, of w] w True gs sel show False by auto
    qed
    then obtain p gs' where gs: "gs = p # gs'" by (cases gs) auto
    have "scc_inv F gs vis (tree_arc gs s \<union> P) (scc_to_parent s (parent_of gs) ?k)"
      using scc_finish_inner [OF inv' [unfolded gs] all _ fin] top True gs sel by simp
    then show thesis by (rule inner [OF True])
  next
    case False
    with le have eq: "dfnumber ?k ! s = lowlink ?k ! s" by (simp add: sel)
    obtain A B where AB: "scc_stack ?k = A @ s # B" "s \<notin> set A" "set (A @ [s]) = scc_members ?k s"
      "set B = set (scc_stack ?k) - scc_members ?k s"
      by (rule scc_stack_split [OF ord], rule that)
    define b where "b \<longleftrightarrow> (\<exists>t \<in> scc_members ?k s. coaccess ?k ! t)"
    let ?p = "scc_popped b (A @ [s]) B ?k"
    have pop: "scc_inv F gs vis P ?p" by (rule scc_popped_inv [OF inv' all eq fin AB(1,3,4) b_def])
    have "scc_inv F gs vis (tree_arc gs s \<union> P) (scc_to_parent s (parent_of gs) ?p)"
    proof (cases gs)
      case (Cons p gs')
      have sv: "s \<in> vis" "s \<notin> set B" using scc_orderD(11,15) [OF ord] scc_members_facts(4) [OF inv' all eq] AB(4) by auto
      have e: "(p, s) \<in> edges F" using top Cons by simp
      have "lowlink ?p ! p \<le> dfnumber ?p ! p"
        using pop Cons by (simp add: scc_inv_def scc_low_def)
      then have "\<not> lowlink ?p ! s < lowlink ?p ! p"
        using scc_orderD(14) [OF ord] eq Cons by (auto simp: scc_popped_def sel)
      then have "scc_to_parent s (parent_of gs) ?p =
          coaccess_from p s (?p\<lparr>lowlink := (lowlink ?p)[p := lowlink ?p ! p]\<rparr>)"
        using Cons by (simp add: scc_to_parent_def Let_def coaccess_from_def scc_popped_def)
      moreover have "scc_inv F (p # gs') vis (insert (p, s) P)
          (coaccess_from p s (?p\<lparr>lowlink := (lowlink ?p)[p := lowlink ?p ! p]\<rparr>))"
        by (rule scc_arc_inv [OF pop [unfolded Cons] e sv(1)]) (use sv(2) in \<open>simp_all add: scc_popped_def\<close>)
      ultimately show ?thesis using Cons by simp
    qed (use pop in \<open>simp add: scc_to_parent_def\<close>)
    moreover have "coaccessible_state F x \<longleftrightarrow> b" if "x \<in> set (A @ [s])" for x
      using scc_members_coaccess [OF inv' all eq fin] that AB(3) b_def by blast
    moreover have "b \<longleftrightarrow> (\<exists>t \<in> set (A @ [s]). coaccess ?k ! t)" unfolding AB(3) b_def ..
    ultimately show thesis
      by (intro root [OF eq [unfolded sel] AB(1) [unfolded sel] AB(2) AB(3) [unfolded mem]]) 
  qed
qed

lemma scc_finish_root:
  assumes "scc_stack k = A @ s # B" "s \<notin> set A" "dfnumber k ! s = lowlink k ! s"
    and "b \<longleftrightarrow> (\<exists>t \<in> set (A @ [s]). coaccess (scc_final F s k) ! t)"
  shows "scc_finish (\<lambda>_ v. v) (\<lambda>_ v. v) F s p k = Inr (scc_to_parent s p (scc_popped b (A @ [s]) B (scc_final F s k)))"
proof -
  let ?k = "scc_final F s k"
  have sel: "scc_stack ?k = A @ s # B" "dfnumber ?k = dfnumber k" "lowlink ?k = lowlink k"
    using assms(1) by (simp_all add: scc_final_def)
  have "scc_any (coaccess ?k) s (scc_stack ?k) False = Inr b" using assms(4) by (simp add: sel scc_any_eq [OF assms(2)])
  moreover have "scc_pop (\<lambda>_ v. v) b s (scc_stack ?k) ?k = Inr (scc_popped b (A @ [s]) B ?k)"
    by (simp add: sel scc_pop_core [OF assms(2)] scc_popped_def)
  ultimately show ?thesis using assms(3) sel by (simp add: scc_finish_def Let_def)
qed

lemma scc_finish_not_root:
  "dfnumber k ! s \<noteq> lowlink k ! s \<Longrightarrow> scc_finish m a F s p k = Inr (scc_to_parent s p (scc_final F s k))"
  by (simp add: scc_finish_def Let_def scc_final_def)

lemma scc_finish_inv:
  assumes "scc_inv F (s # gs) vis P k" and "\<forall>y. (s, y) \<in> edges F \<longrightarrow> (s, y) \<in> P"
    and "tree_arc gs s \<subseteq> edges F"
  shows "\<exists>k'. scc_finish (\<lambda>_ v. v) (\<lambda>_ v. v) F s (parent_of gs) k = Inr k' \<and>
    scc_inv F gs vis (tree_arc gs s \<union> P) k'"
proof (cases rule: scc_finish_cases [OF assms])
  case 1
  then show ?thesis by (simp add: scc_finish_not_root)
next
  case (2 A B b)
  then show ?thesis by (simp add: scc_finish_root del: set_append)
qed

text \<open>The start and the end of the visit.\<close>

lemma scc_new_inv:
  assumes "targets_ok F" "num_states F < 2 ^ 31"
  shows "scc_inv F [] {} {} (scc_new (num_states F))"
  using assms edges_range [OF assms(1)]
  by (auto simp: scc_inv_def scc_order_def scc_reach_def scc_low_def scc_co_def scc_new_def)

lemma scc_done:
  assumes "scc_inv F [] vis P k"
  shows "scc_stack k = []" "x \<in> vis \<Longrightarrow> coaccess k ! x \<longleftrightarrow> coaccessible_state F x"
    "x \<in> vis \<Longrightarrow> (x, y) \<in> (edges F)\<^sup>* \<Longrightarrow> y \<in> vis"
proof -
  have ord: "scc_order F [] vis P k" and rch: "scc_reach F [] vis P k" and co: "scc_co F [] vis P k"
    using assms by (auto simp: scc_inv_def)
  show st: "scc_stack k = []" using scc_reachD(2) [OF rch] by (metis empty_iff empty_set list.set_intros(1) neq_Nil_conv)
  show "x \<in> vis \<Longrightarrow> coaccess k ! x \<longleftrightarrow> coaccessible_state F x"
    using scc_coD(1,2) [OF co, of x] scc_orderD(5) [OF ord, of x] st by auto
  show "y \<in> vis" if "x \<in> vis" "(x, y) \<in> (edges F)\<^sup>*"
    using that(2,1) by (induction rule: rtrancl_induct) (use scc_reachD(3) [OF rch] st in auto)
qed

end
