(* ===== verification/Scc_Visit.thy ===== *)
theory Scc_Visit
  imports Scc_Invariant
begin

text \<open>
  The depth-first visit run with a component visitor: the interface such a visitor implements, and the
  result of the whole visit, for the shared fields and for whatever else the visitor keeps.
\<close>

subsection \<open>The configuration of the visit as the invariant sees it\<close>

definition visited :: "color list \<Rightarrow> state_id set" where
  "visited col = {x. x < length col \<and> col ! x \<noteq> White}"

definition processed :: "'w vfst \<Rightarrow> color list \<Rightarrow> (state_id \<times> nat) list \<Rightarrow> (state_id \<times> state_id) set" where
  "processed F col st = {(x, nextstate (trs (state_of F x) ! i)) | x i. x < length col \<and>
     i < length (trs (state_of F x)) \<and> (col ! x = Black \<or> (\<exists>pos. (x, pos) \<in> set st \<and> i < pos))}"

text \<open>Each state on the stack is the target of the transition its parent is at.\<close>

fun chained :: "'w vfst \<Rightarrow> (state_id \<times> nat) list \<Rightarrow> bool" where
  "chained F ((s, pos) # (p, ppos) # st) \<longleftrightarrow>
     ppos < length (trs (state_of F p)) \<and> nextstate (trs (state_of F p) ! ppos) = s \<and> chained F ((p, ppos) # st)"
| "chained F st \<longleftrightarrow> True"

definition dfs_ok :: "'w vfst \<Rightarrow> color list \<Rightarrow> (state_id \<times> nat) list \<Rightarrow> bool" where
  "dfs_ok F col st \<longleftrightarrow>
     length col = num_states F \<and> (\<forall>(s, pos) \<in> set st. s < num_states F) \<and> distinct (map fst st) \<and>
     (\<forall>x < num_states F. col ! x = Grey \<longleftrightarrow> x \<in> fst ` set st) \<and> chained F st"

lemma visited_upd: "y < length col \<Longrightarrow> c \<noteq> White \<Longrightarrow> visited (col[y := c]) = insert y (visited col)"
  by (auto simp: visited_def nth_upd split: if_splits)

lemma processed_push:
  "y < length col \<Longrightarrow> col ! y = White \<Longrightarrow> y \<notin> fst ` set st \<Longrightarrow>
   processed F (col[y := Grey]) ((y, 0) # st) = processed F col st"
  by (fastforce simp: processed_def nth_upd split: if_splits)

lemma processed_advance:
  assumes "s < length col" "col ! s = Grey" "s \<notin> fst ` set st" "pos < length (trs (state_of F s))"
  shows "processed F col ((s, Suc pos) # st) =
    insert (s, nextstate (trs (state_of F s) ! pos)) (processed F col ((s, pos) # st))"
proof -
  have "processed F col ((s, q) # st) = processed F col st \<union>
      {(s, nextstate (trs (state_of F s) ! i)) | i. i < q \<and> i < length (trs (state_of F s))}" for q
    using assms(1) by (auto simp: processed_def)
  then show ?thesis using assms(4) by (auto simp: less_Suc_eq)
qed

lemma processed_pop:
  assumes "s < length col" "s \<notin> fst ` set st" "length (trs (state_of F s)) \<le> pos"
  shows "processed F (col[s := Black]) st = processed F col ((s, pos) # st)"
  using assms by (fastforce simp: processed_def nth_upd split: if_splits)

lemma processed_all:
  assumes "s < length col" "length (trs (state_of F s)) \<le> pos" "(s, y) \<in> edges F"
  shows "(s, y) \<in> processed F col ((s, pos) # st)"
proof -
  from assms(3) obtain i where "i < length (trs (state_of F s))" "nextstate (trs (state_of F s) ! i) = y"
    by (auto simp: edges_def arcs_def in_set_conv_nth)
  with assms(1,2) show ?thesis by (fastforce simp: processed_def)
qed

lemma edges_nth:
  "s < num_states F \<Longrightarrow> i < length (trs (state_of F s)) \<Longrightarrow> (s, nextstate (trs (state_of F s) ! i)) \<in> edges F"
  by (auto simp: edges_def arcs_def)

lemma dfs_ok_advance:
  "dfs_ok F col ((s, pos) # st) \<Longrightarrow> dfs_ok F col ((s, pos') # st)"
  by (cases st) (auto simp: dfs_ok_def)

lemma dfs_ok_push:
  assumes "dfs_ok F col st" "y < num_states F" "col ! y = White"
    and "\<And>s pos st'. st = (s, pos) # st' \<Longrightarrow> pos < length (trs (state_of F s)) \<and> nextstate (trs (state_of F s) ! pos) = y"
  shows "dfs_ok F (col[y := Grey]) ((y, 0) # st)"
proof -
  have "y \<notin> fst ` set st" using assms(1-3) by (auto simp: dfs_ok_def)
  moreover have "chained F ((y, 0) # st)" using assms(1,4) by (cases st) (auto simp: dfs_ok_def)
  ultimately show ?thesis using assms(1,2) by (auto simp: dfs_ok_def nth_upd)
qed

lemma dfs_ok_pop:
  assumes "dfs_ok F col ((s, pos) # st)"
  shows "dfs_ok F (col[s := Black]) st"
proof -
  have "chained F st" using assms by (cases st) (auto simp: dfs_ok_def)
  then show ?thesis using assms by (force simp: dfs_ok_def nth_upd)
qed

subsection \<open>The interface of a component visitor\<close>

text \<open>
  A component visitor never stops the visit and keeps the shared fields up to date; \<open>core\<close> reads them off
  its state.
\<close>

locale scc_visiting =
  fixes V :: "('w, 'v) visitor" and F :: "'w vfst" and core_of :: "'v \<Rightarrow> scc_core"
  assumes tree_law: "v_tree_tr V s t v = (v, True)"
    and init_law: "snd (v_init_state V s r v)" "core_of (fst (v_init_state V s r v)) = scc_init s (core_of v)"
    and back_law: "snd (v_back_tr V s t v)" "core_of (fst (v_back_tr V s t v)) = scc_back s (nextstate t) (core_of v)"
    and forward_law: "snd (v_forward_or_cross_tr V s t v)"
      "core_of (fst (v_forward_or_cross_tr V s t v)) = scc_forward s (nextstate t) (core_of v)"
    and finish_law: "rbind (v_finish_state V s p ot v) (\<lambda>v. Inr (core_of v)) =
      scc_finish (\<lambda>_ v. v) (\<lambda>_ v. v) F s p (core_of v)"

text \<open>
  What a visitor computes beside the shared fields is stated as an invariant \<open>X\<close> of the root of the tree, the
  grey states, the states discovered, the arcs processed and the visitor's state.
\<close>

locale scc_observer = scc_visiting +
  fixes X :: "state_id \<Rightarrow> state_id list \<Rightarrow> state_id set \<Rightarrow> (state_id \<times> state_id) set \<Rightarrow> 'b \<Rightarrow> bool"
  assumes X_root: "scc_inv F [] vis P (core_of v) \<Longrightarrow> X r [] vis P v \<Longrightarrow> y < num_states F \<Longrightarrow> y \<notin> vis \<Longrightarrow>
      (if vis = {} then start_state F = Some y else \<forall>i. start_state F = Some i \<longrightarrow> i \<in> vis) \<Longrightarrow>
      X y [y] (insert y vis) P (fst (v_init_state V y y v))"
    and X_tree: "scc_inv F (s # gs) vis P (core_of v) \<Longrightarrow> X r (s # gs) vis P v \<Longrightarrow> (s, y) \<in> edges F \<Longrightarrow> y \<notin> vis \<Longrightarrow>
      X r (y # s # gs) (insert y vis) P (fst (v_init_state V y r v))"
    and X_back: "scc_inv F (s # gs) vis P (core_of v) \<Longrightarrow> X r (s # gs) vis P v \<Longrightarrow> (s, nextstate t) \<in> edges F \<Longrightarrow>
      nextstate t \<in> set (s # gs) \<Longrightarrow> X r (s # gs) vis (insert (s, nextstate t) P) (fst (v_back_tr V s t v))"
    and X_forward: "scc_inv F (s # gs) vis P (core_of v) \<Longrightarrow> X r (s # gs) vis P v \<Longrightarrow> (s, nextstate t) \<in> edges F \<Longrightarrow>
      nextstate t \<in> vis \<Longrightarrow> nextstate t \<notin> set (s # gs) \<Longrightarrow>
      X r (s # gs) vis (insert (s, nextstate t) P) (fst (v_forward_or_cross_tr V s t v))"
    and X_finish: "scc_inv F (s # gs) vis P (core_of v) \<Longrightarrow> X r (s # gs) vis P v \<Longrightarrow>
      \<forall>y. (s, y) \<in> edges F \<longrightarrow> (s, y) \<in> P \<Longrightarrow> tree_arc gs s \<subseteq> edges F \<Longrightarrow>
      v_finish_state V s (parent_of gs) ot v = Inr v' \<Longrightarrow> X r gs vis (tree_arc gs s \<union> P) v'"

context scc_observer
begin

definition visit_inv :: "state_id \<Rightarrow> 'b dfs_config \<Rightarrow> bool" where
  "visit_inv r c \<longleftrightarrow>
     dfs_ok F (cfg_color c) (cfg_stack c) \<and> cfg_dfs c \<and>
     scc_inv F (map fst (cfg_stack c)) (visited (cfg_color c)) (processed F (cfg_color c) (cfg_stack c)) (core_of (cfg_vis c)) \<and>
     X r (map fst (cfg_stack c)) (visited (cfg_color c)) (processed F (cfg_color c) (cfg_stack c)) (cfg_vis c)"

lemma visit_inv_pop:
  assumes inv: "visit_inv r c" and st: "cfg_stack c = (s, pos) # rest" and pos: "length (trs (state_of F s)) \<le> pos"
  shows "\<exists>c'. dfs_pop F V s rest c = Inr c' \<and> visit_inv r c'"
proof -
  let ?col = "cfg_color c" let ?col' = "(cfg_color c)[s := Black]" let ?P = "processed F ?col ((s, pos) # rest)"
  have ok: "dfs_ok F ?col ((s, pos) # rest)"
    and inv0: "scc_inv F (s # map fst rest) (visited ?col) ?P (core_of (cfg_vis c))"
    and X0: "X r (s # map fst rest) (visited ?col) ?P (cfg_vis c)" and go: "cfg_dfs c"
    using inv st by (auto simp: visit_inv_def)
  have s: "s < length ?col" "s \<notin> fst ` set rest" "?col ! s = Grey" using ok by (auto simp: dfs_ok_def)
  have ok': "dfs_ok F ?col' rest" by (rule dfs_ok_pop [OF ok])
  have all: "\<forall>y. (s, y) \<in> edges F \<longrightarrow> (s, y) \<in> ?P" using processed_all [OF s(1) pos] by blast
  have tree: "tree_arc (map fst rest) s \<subseteq> edges F"
  proof (cases rest)
    case (Cons a rest')
    with ok show ?thesis by (cases a) (auto simp: dfs_ok_def intro: edges_nth)
  qed simp
  have vis: "visited ?col' = visited ?col" using s by (simp add: visited_upd) (auto simp: visited_def)
  have P: "processed F ?col' rest = ?P" by (rule processed_pop [OF s(1,2) pos])
  from scc_finish_inv [OF inv0 all tree] obtain k' where
    k: "scc_finish (\<lambda>_ v. v) (\<lambda>_ v. v) F s (parent_of (map fst rest)) (core_of (cfg_vis c)) = Inr k'"
      "scc_inv F (map fst rest) (visited ?col) (tree_arc (map fst rest) s \<union> ?P) k'" by blast
  have fin: "\<exists>v'. v_finish_state V s (parent_of (map fst rest)) t (cfg_vis c) = Inr v' \<and>
      scc_inv F (map fst rest) (visited ?col) (tree_arc (map fst rest) s \<union> ?P) (core_of v') \<and>
      X r (map fst rest) (visited ?col) (tree_arc (map fst rest) s \<union> ?P) v'" for t
  proof -
    from finish_law [of s "parent_of (map fst rest)" t "cfg_vis c"] k(1) obtain v' where
      "v_finish_state V s (parent_of (map fst rest)) t (cfg_vis c) = Inr v'" "core_of v' = k'"
      by (auto simp: rbind_eq_Inr)
    with k(2) X_finish [OF inv0 X0 all tree] show ?thesis by blast
  qed
  show ?thesis
  proof (cases rest)
    case Nil
    with fin [of None] obtain v' where "v_finish_state V s None None (cfg_vis c) = Inr v'"
      "scc_inv F [] (visited ?col) ?P (core_of v')" "X r [] (visited ?col) ?P v'" by auto
    with Nil ok' go P vis show ?thesis by (simp add: dfs_pop_def visit_inv_def Let_def)
  next
    case (Cons a rest')
    obtain p ppos where a: "a = (p, ppos)" by (cases a)
    with fin [of "Some (trs (state_of F p) ! ppos)"] Cons obtain v' where
      v': "v_finish_state V s (Some p) (Some (trs (state_of F p) ! ppos)) (cfg_vis c) = Inr v'"
        "scc_inv F (map fst rest) (visited ?col) (insert (p, s) ?P) (core_of v')"
        "X r (map fst rest) (visited ?col) (insert (p, s) ?P) v'" by auto
    have p: "p < length ?col'" "p \<notin> fst ` set rest'" "?col' ! p = Grey" "ppos < length (trs (state_of F p))"
      "nextstate (trs (state_of F p) ! ppos) = s"
      using ok ok' Cons a by (auto simp: dfs_ok_def nth_upd)
    have "processed F ?col' ((p, Suc ppos) # rest') = insert (p, s) ?P"
      using processed_advance [OF p(1,3,2,4)] p(5) P Cons a by simp
    moreover have "dfs_ok F ?col' ((p, Suc ppos) # rest')" using ok' Cons a by (auto intro: dfs_ok_advance)
    ultimately show ?thesis
      using Cons a v' go vis by (simp add: dfs_pop_def visit_inv_def Let_def)
  qed
qed

lemma visit_inv_arc:
  assumes inv: "visit_inv r c" and st: "cfg_stack c = (s, pos) # rest" and pos: "pos < length (trs (state_of F s))"
  shows "\<exists>c'. dfs_arc V any_filter r s pos rest (trs (state_of F s) ! pos) c = Inr (c', True) \<and> visit_inv r c'"
proof -
  let ?col = "cfg_color c" let ?t = "trs (state_of F s) ! pos" let ?y = "nextstate ?t"
  let ?P = "processed F ?col ((s, pos) # rest)" let ?gs = "s # map fst rest"
  have ok: "dfs_ok F ?col ((s, pos) # rest)" and inv0: "scc_inv F ?gs (visited ?col) ?P (core_of (cfg_vis c))"
    and X0: "X r ?gs (visited ?col) ?P (cfg_vis c)" and go: "cfg_dfs c"
    using inv st by (auto simp: visit_inv_def)
  have s: "s < num_states F" "s < length ?col" "s \<notin> fst ` set rest" "?col ! s = Grey" using ok by (auto simp: dfs_ok_def)
  have e: "(s, ?y) \<in> edges F" by (rule edges_nth [OF s(1) pos])
  have y: "?y < length ?col"
    using scc_orderD(17) [of F ?gs] inv0 e ok unfolding scc_inv_def dfs_ok_def by metis
  have adv: "processed F ?col ((s, Suc pos) # rest) = insert (s, ?y) ?P"
    by (rule processed_advance [OF s(2,4,3) pos])
  show ?thesis
  proof (cases "?col ! ?y")
    case White
    then have nv: "?y \<notin> visited ?col" by (simp add: visited_def)
    have ok': "dfs_ok F (?col[?y := Grey]) ((?y, 0) # (s, pos) # rest)"
      by (rule dfs_ok_push [OF ok]) (use y White pos ok in \<open>auto simp: dfs_ok_def\<close>)
    have P: "processed F (?col[?y := Grey]) ((?y, 0) # (s, pos) # rest) = ?P"
      by (rule processed_push [OF y White]) (use s White ok y in \<open>auto simp: dfs_ok_def\<close>)
    have n: "?y < num_states F" using y ok by (simp add: dfs_ok_def)
    obtain v' where v': "v_init_state V ?y r (cfg_vis c) = (v', True)" "core_of v' = scc_init ?y (core_of (cfg_vis c))"
      using init_law [of ?y r "cfg_vis c"] by (cases "v_init_state V ?y r (cfg_vis c)") auto
    have "X r (?y # ?gs) (insert ?y (visited ?col)) ?P v'" using X_tree [OF inv0 X0 e nv] v' by simp
    moreover have "scc_inv F (?y # ?gs) (insert ?y (visited ?col)) ?P (core_of v')"
      unfolding v'(2) by (rule scc_init_inv [OF inv0 n nv]) (use e in simp)
    ultimately show ?thesis
      using White y v'(1) ok' P tree_law by (simp add: dfs_arc_def vec_index_def any_filter_def visit_inv_def visited_upd Let_def)
  next
    case Grey
    then have g: "?y \<in> set ?gs" using ok y by (auto simp: dfs_ok_def)
    obtain v' where v': "v_back_tr V s ?t (cfg_vis c) = (v', True)" "core_of v' = scc_back s ?y (core_of (cfg_vis c))"
      using back_law [of s ?t "cfg_vis c"] by (cases "v_back_tr V s ?t (cfg_vis c)") auto
    have "X r ?gs (visited ?col) (insert (s, ?y) ?P) v'" using X_back [OF inv0 X0 e g] v' by simp
    moreover have "scc_inv F ?gs (visited ?col) (insert (s, ?y) ?P) (core_of v')"
      unfolding v'(2) by (rule scc_back_inv [OF inv0 e g])
    ultimately show ?thesis
      using Grey y v'(1) dfs_ok_advance [OF ok] adv go
      by (simp add: dfs_arc_def vec_index_def any_filter_def visit_inv_def Let_def)
  next
    case Black
    then have b: "?y \<in> visited ?col" "?y \<notin> set ?gs" using ok y by (auto simp: dfs_ok_def visited_def)
    obtain v' where v': "v_forward_or_cross_tr V s ?t (cfg_vis c) = (v', True)"
      "core_of v' = scc_forward s ?y (core_of (cfg_vis c))"
      using forward_law [of s ?t "cfg_vis c"] by (cases "v_forward_or_cross_tr V s ?t (cfg_vis c)") auto
    have "X r ?gs (visited ?col) (insert (s, ?y) ?P) v'" using X_forward [OF inv0 X0 e b] v' by simp
    moreover have "scc_inv F ?gs (visited ?col) (insert (s, ?y) ?P) (core_of v')"
      unfolding v'(2) by (rule scc_forward_inv [OF inv0 e b(1)])
    ultimately show ?thesis
      using Black y v'(1) dfs_ok_advance [OF ok] adv go
      by (simp add: dfs_arc_def vec_index_def any_filter_def visit_inv_def Let_def)
  qed
qed

lemma visit_inv_step:
  assumes "visit_inv r c" "cfg_stack c \<noteq> []"
  shows "\<exists>c'. dfs_step F V any_filter r c = Inr (c', True) \<and> visit_inv r c'"
proof -
  obtain s pos rest where st: "cfg_stack c = (s, pos) # rest" using assms(2) by (cases "cfg_stack c") auto
  have go: "cfg_dfs c" using assms(1) by (simp add: visit_inv_def)
  show ?thesis
  proof (cases "length (trs (state_of F s)) \<le> pos")
    case True
    with visit_inv_pop [OF assms(1) st] st show ?thesis by (auto simp: dfs_step_def)
  next
    case False
    with visit_inv_arc [OF assms(1) st] st go show ?thesis by (auto simp: dfs_step_def)
  qed
qed

lemma visit_inv_tree:
  assumes "visit_inv r c" "cfg_stack c = []" "y < length (cfg_color c)" "cfg_color c ! y = White"
    and "if visited (cfg_color c) = {} then start_state F = Some y
      else \<forall>i. start_state F = Some i \<longrightarrow> i \<in> visited (cfg_color c)"
  shows "\<exists>c'. dfs_tree F V any_filter y c = Inr c' \<and> visit_inv y c' \<and> cfg_stack c' = []"
proof -
  let ?col = "cfg_color c"
  have ok: "dfs_ok F ?col []" and inv0: "scc_inv F [] (visited ?col) (processed F ?col []) (core_of (cfg_vis c))"
    and X0: "X r [] (visited ?col) (processed F ?col []) (cfg_vis c)"
    using assms(1,2) by (auto simp: visit_inv_def)
  have nv: "y \<notin> visited ?col" using assms(4) by (simp add: visited_def)
  have n: "y < num_states F" using ok assms(3) by (simp add: dfs_ok_def)
  obtain v' where v': "v_init_state V y y (cfg_vis c) = (v', True)" "core_of v' = scc_init y (core_of (cfg_vis c))"
    using init_law [of y y "cfg_vis c"] by (cases "v_init_state V y y (cfg_vis c)") auto
  have "X y [y] (insert y (visited ?col)) (processed F ?col []) v'"
    using X_root [OF inv0 X0 n nv assms(5)] v' by simp
  moreover have "scc_inv F [y] (insert y (visited ?col)) (processed F ?col []) (core_of v')"
    unfolding v'(2) by (rule scc_init_inv [OF inv0 n nv]) simp
  moreover have "processed F (?col[y := Grey]) [(y, 0)] = processed F ?col []"
    by (rule processed_push [OF assms(3,4)]) simp
  moreover have "dfs_ok F (?col[y := Grey]) [(y, 0)]" by (rule dfs_ok_push [OF ok n assms(4)]) simp
  ultimately have "visit_inv y \<lparr>cfg_color = ?col[y := Grey], cfg_stack = [(y, 0)], cfg_dfs = True, cfg_vis = v'\<rparr>"
    using assms(3) by (simp add: visit_inv_def visited_upd)
  from dfs_loop_inv [where P = "visit_inv y", OF this visit_inv_step] v'(1) assms(2) show ?thesis
    by (simp add: dfs_tree_def Let_def)
qed

theorem visit_result:
  assumes "targets_ok F" "num_states F < 2 ^ 31" "start_state F = Some i"
    and "core_of (v_init_visit V v0) = scc_new (num_states F)" "X i [] {} {} (v_init_visit V v0)"
  shows "\<exists>v r P. dfs_visit F V any_filter False v0 = Inr (v_finish_visit V v) \<and>
    scc_inv F [] {..< num_states F} P (core_of v) \<and> X r [] {..< num_states F} P v"
proof -
  let ?n = "num_states F"
  let ?c0 = "\<lparr>cfg_color = replicate ?n White, cfg_stack = [], cfg_dfs = True, cfg_vis = v_init_visit V v0\<rparr>"
  have i: "i < ?n" using assms(1,3) by (simp add: targets_ok_def)
  have v0: "visited (replicate ?n White) = {}" "processed F (replicate ?n White) [] = {}"
    by (auto simp: visited_def processed_def)
  have "visit_inv i ?c0"
    using assms(4,5) scc_new_inv [OF assms(1,2)] v0 by (simp add: visit_inv_def dfs_ok_def)
  from visit_inv_tree [OF this] assms(3) i v0 obtain c1 where
    c1: "dfs_tree F V any_filter i ?c0 = Inr c1" "visit_inv i c1" "cfg_stack c1 = []" by auto
  define Q where "Q c \<longleftrightarrow> (\<exists>r. visit_inv r c) \<and> cfg_stack c = [] \<and> i \<in> visited (cfg_color c)" for c :: "'b dfs_config"
  have len: "length (cfg_color c1) = ?n" using c1(2) by (simp add: visit_inv_def dfs_ok_def)
  have i1: "i < length (cfg_color c1)" "cfg_color c1 ! i \<noteq> White" using dfs_tree_whites(3) [OF c1(1), of i] i len by auto
  then have "Q c1" using c1(2,3) by (auto simp: Q_def visited_def)
  have tree: "\<exists>c'. dfs_tree F V any_filter r c = Inr c' \<and> Q c'"
    if c: "Q c" "r < length (cfg_color c)" "cfg_color c ! r = White" for c r
  proof -
    from c(1) obtain q where q: "visit_inv q c" "cfg_stack c = []" "i \<in> visited (cfg_color c)" by (auto simp: Q_def)
    have "visited (cfg_color c) \<noteq> {}" using q(3) by blast
    then have "if visited (cfg_color c) = {} then start_state F = Some r
      else \<forall>i. start_state F = Some i \<longrightarrow> i \<in> visited (cfg_color c)" using q(3) assms(3) by simp
    from visit_inv_tree [OF q(1,2) c(2,3) this] obtain c' where
      c': "dfs_tree F V any_filter r c = Inr c'" "visit_inv r c'" "cfg_stack c' = []" by blast
    have "i \<in> visited (cfg_color c')"
      using q(3) dfs_tree_whites(2) [OF c'(1)] dfs_tree_whites(3) [OF c'(1), of i] by (auto simp: visited_def)
    with c' show ?thesis by (auto simp: Q_def)
  qed
  obtain c2 where c2: "dfs_roots F V any_filter False i (next_white (cfg_color c1) 0) c1 = Inr c2" "Q c2"
    "length (cfg_color c2) = length (cfg_color c1)"
    "cfg_dfs c2 \<longrightarrow> (\<forall>j < length (cfg_color c2). cfg_color c2 ! j \<noteq> White)"
  proof -
    let ?r = "next_white (cfg_color c1) 0"
    have wh: "?r < length (cfg_color c1) \<longrightarrow> cfg_color c1 ! ?r = White" using next_white_White by blast
    have sk: "\<forall>j < ?r. j < length (cfg_color c1) \<longrightarrow> cfg_color c1 ! j \<noteq> White"
      using next_white_skip [of 0 _ "cfg_color c1"] by blast
    have "?r \<noteq> i" using wh i1 by auto
    from dfs_roots_inv [where Q = Q and V = V and F = F and keep = any_filter, OF \<open>Q c1\<close> _ this wh i1 sk] tree that
    show thesis by blast
  qed
  from c2(2) obtain r where r: "visit_inv r c2" "cfg_stack c2 = []" by (auto simp: Q_def)
  have "visited (cfg_color c2) = {..< ?n}" using c2(3,4) r(1) len by (auto simp: visit_inv_def visited_def)
  moreover have "dfs_visit F V any_filter False v0 = Inr (v_finish_visit V (cfg_vis c2))"
    using c1(1) c2(1) assms(3) i by (simp add: dfs_visit_def dfs_roots.simps [of _ _ _ _ i i])
  ultimately show ?thesis using r unfolding visit_inv_def by auto
qed

end

end
