(* ===== verification/Connect.thy ===== *)
theory Connect
  imports Scc_Visit
begin

text \<open>
  \<open>connect\<close> (\<open>algorithms/connect.rs\<close>): removes the states that are not on a path from the start state to a
  final state. \<open>ConnectVisitor\<close> is the shared component search with an accessibility vector; the
  transducer it borrows is an argument of its methods here.
\<close>

subsection \<open>The visitor\<close>

definition NO_STATE_ID :: state_id where "NO_STATE_ID = 2 ^ 32 - 1"

record connect_visitor = scc_core +
  conn_access :: "bool list"
  conn_start :: state_id

definition connect_visitor_new :: "'w vfst \<Rightarrow> connect_visitor" where
  "connect_visitor_new F =
     scc_core.extend (scc_new (num_states F))
       \<lparr>conn_access = replicate (num_states F) False,
        conn_start = (case start_state F of None \<Rightarrow> NO_STATE_ID | Some s \<Rightarrow> s)\<rparr>"

definition connect_init :: "state_id \<Rightarrow> state_id \<Rightarrow> connect_visitor \<Rightarrow> connect_visitor \<times> bool" where
  "connect_init s root v =
     (let v = scc_init s v in (v\<lparr>conn_access := (conn_access v)[s := (root = conn_start v)]\<rparr>, True))"

definition connect_callbacks :: "'w vfst \<Rightarrow> ('w, connect_visitor) visitor" where
  "connect_callbacks F =
     \<lparr>v_init_visit = \<lambda>v. v,
      v_init_state = connect_init,
      v_tree_tr = \<lambda>s t v. (v, True),
      v_back_tr = \<lambda>s t v. (scc_back s (nextstate t) v, True),
      v_forward_or_cross_tr = \<lambda>s t v. (scc_forward s (nextstate t) v, True),
      v_finish_state = \<lambda>s parent t v. scc_finish (\<lambda>_ v. v) (\<lambda>_ v. v) F s parent v,
      v_finish_visit = \<lambda>v. v\<rparr>"

definition connect :: "'w vfst \<Rightarrow> 'w vfst res" where
  "connect F =
     (if contains (properties F) (ACCESSIBLE OR COACCESSIBLE) then Inr F
      else
        rbind (dfs_visit F (connect_callbacks F) any_filter False (connect_visitor_new F)) (\<lambda>v.
          let dstates = filter (\<lambda>s. \<not> conn_access v ! s \<or> \<not> coaccess v ! s) [0 ..< length (conn_access v)]
          in rbind (del_states F dstates) (\<lambda>F.
               Inr (set_properties_with_mask F (ACCESSIBLE OR COACCESSIBLE) (ACCESSIBLE OR COACCESSIBLE)))))"

subsection \<open>What the visitor finds\<close>

text \<open>The fields of the extension are untouched by the shared updates.\<close>

lemma connect_fields [simp]:
  fixes v :: connect_visitor
  shows "conn_access (scc_back s t v) = conn_access v" "conn_start (scc_back s t v) = conn_start v"
    "conn_access (scc_forward s t v) = conn_access v" "conn_start (scc_forward s t v) = conn_start v"
    "conn_access (scc_init s v) = conn_access v" "conn_start (scc_init s v) = conn_start v"
    "conn_access (scc_final F s v) = conn_access v" "conn_start (scc_final F s v) = conn_start v"
    "conn_access (scc_to_parent s p v) = conn_access v" "conn_start (scc_to_parent s p v) = conn_start v"
  by (simp_all add: scc_back_def scc_forward_def coaccess_from_def scc_init_def scc_final_def scc_to_parent_def
      Let_def split: option.splits)

lemma connect_pop_fields:
  fixes v :: connect_visitor
  shows "scc_pop (\<lambda>_ v. v) b s st v = Inr v' \<Longrightarrow> conn_access v' = conn_access v \<and> conn_start v' = conn_start v"
  by (induction st arbitrary: v) (auto simp: Let_def split: if_splits)

lemma connect_finish_fields:
  fixes v :: connect_visitor
  assumes "scc_finish (\<lambda>_ v. v) (\<lambda>_ v. v) F s p v = Inr v'"
  shows "conn_access v' = conn_access v \<and> conn_start v' = conn_start v"
  using assms
  by (auto simp: scc_finish_def Let_def rbind_eq_Inr split: if_splits dest!: connect_pop_fields)

definition connect_seen ::
  "'w vfst \<Rightarrow> state_id \<Rightarrow> state_id list \<Rightarrow> state_id set \<Rightarrow> (state_id \<times> state_id) set \<Rightarrow> connect_visitor \<Rightarrow> bool"
where
  "connect_seen F r gs vis P v \<longleftrightarrow>
     start_state F = Some (conn_start v) \<and> length (conn_access v) = num_states F \<and> vis \<subseteq> {..< num_states F} \<and>
     (\<forall>x \<in> vis. conn_access v ! x \<longleftrightarrow> accessible_state F x) \<and>
     (if r = conn_start v then \<forall>x \<in> vis. accessible_state F x else {x. accessible_state F x} \<subseteq> vis)"

text \<open>A set of states with the start state that is closed under transitions has all accessible states.\<close>

lemma accessible_closed:
  assumes "accessible_state F x" "\<And>i. start_state F = Some i \<Longrightarrow> i \<in> S"
    and "\<And>x y. x \<in> S \<Longrightarrow> (x, y) \<in> (edges F)\<^sup>* \<Longrightarrow> y \<in> S"
  shows "x \<in> S"
  using assms unfolding accessible_state_def by blast

lemma accessible_step: "accessible_state F s \<Longrightarrow> (s, t) \<in> edges F \<Longrightarrow> accessible_state F t"
  unfolding accessible_state_def by (meson rtrancl.rtrancl_into_rtrancl)

lemma core_conn [simp]: "core (v\<lparr>conn_access := a\<rparr>) = core v"
  by (simp add: scc_core.defs)

lemma scc_inv_top: "scc_inv F (s # gs) vis P k \<Longrightarrow> s \<in> vis \<and> vis \<subseteq> {..< num_states F}"
  unfolding scc_inv_def scc_order_def by auto

interpretation connect: scc_observer "connect_callbacks F" F core "connect_seen F" for F :: "'w vfst"
proof
  fix s p v and ot :: "'w tr option"
  show "rbind (v_finish_state (connect_callbacks F) s p ot v) (\<lambda>v. Inr (core v)) =
      scc_finish (\<lambda>_ v. v) (\<lambda>_ v. v) F s p (core v)"
    by (simp add: connect_callbacks_def core_finish)
next
  fix vis P r y and v :: connect_visitor
  assume inv: "scc_inv F [] vis P (core v)" and X: "connect_seen F r [] vis P v" and y: "y < num_states F" "y \<notin> vis"
    and st: "if vis = {} then start_state F = Some y else \<forall>i. start_state F = Some i \<longrightarrow> i \<in> vis"
  have *: "vis \<subseteq> {..< num_states F}" "length (conn_access v) = num_states F" "start_state F = Some (conn_start v)"
    "\<forall>x \<in> vis. conn_access v ! x \<longleftrightarrow> accessible_state F x"
    using X by (auto simp: connect_seen_def)
  have vy: "x \<noteq> y" "x < num_states F" if "x \<in> vis" for x using that y(2) *(1) by auto
  show "connect_seen F y [y] (insert y vis) P (fst (v_init_state (connect_callbacks F) y y v))"
  proof (cases "vis = {}")
    case True
    with st have "conn_start v = y" "accessible_state F y" using *(3) by (auto simp: accessible_state_def)
    with True * y(1) show ?thesis by (simp add: connect_callbacks_def connect_init_def connect_seen_def Let_def)
  next
    case False
    then have i: "conn_start v \<in> vis" using st *(3) by simp
    have sub: "{x. accessible_state F x} \<subseteq> vis"
      using accessible_closed [of F _ vis] scc_done(3) [OF inv] i *(3) by auto
    have "conn_start v \<noteq> y" using i y(2) by auto
    with sub * y vy show ?thesis
      by (auto simp: connect_callbacks_def connect_init_def connect_seen_def nth_upd Let_def)
  qed
next
  fix s gs vis P r y and v :: connect_visitor
  assume inv: "scc_inv F (s # gs) vis P (core v)" and X: "connect_seen F r (s # gs) vis P v"
    and e: "(s, y) \<in> edges F" "y \<notin> vis"
  have *: "vis \<subseteq> {..< num_states F}" "length (conn_access v) = num_states F" "start_state F = Some (conn_start v)"
    "\<forall>x \<in> vis. conn_access v ! x \<longleftrightarrow> accessible_state F x"
    "if r = conn_start v then \<forall>x \<in> vis. accessible_state F x else {x. accessible_state F x} \<subseteq> vis"
    using X by (auto simp: connect_seen_def)
  have y: "y < num_states F" using inv e(1) scc_orderD(17) unfolding scc_inv_def by blast
  have vy: "x \<noteq> y" "x < num_states F" if "x \<in> vis" for x using that e(2) *(1) by auto
  have "accessible_state F y \<longleftrightarrow> r = conn_start v"
    using accessible_step [OF _ e(1)] scc_inv_top [OF inv] *(5) e(2) by (auto split: if_splits)
  with * y vy show "connect_seen F r (y # s # gs) (insert y vis) P (fst (v_init_state (connect_callbacks F) y r v))"
    by (auto simp: connect_callbacks_def connect_init_def connect_seen_def nth_upd Let_def)
next
  fix s gs vis P r p and ot :: "'w tr option" and v v' :: connect_visitor
  assume "connect_seen F r (s # gs) vis P v"
    and "v_finish_state (connect_callbacks F) s (parent_of gs) ot v = Inr v'"
  then show "connect_seen F r gs vis (tree_arc gs s \<union> P) v'"
    by (auto simp: connect_callbacks_def connect_seen_def dest!: connect_finish_fields)
qed (simp_all add: connect_callbacks_def connect_init_def core_steps connect_seen_def Let_def)


subsection \<open>The result of \<open>connect\<close>\<close>

definition useless :: "'w vfst \<Rightarrow> state_id set" where
  "useless F = {s. s < num_states F \<and> \<not> (accessible_state F s \<and> coaccessible_state F s)}"

definition trimmed :: "'w vfst \<Rightarrow> 'w vfst" where
  "trimmed F = set_properties_with_mask (deleted (useless F) F) (ACCESSIBLE OR COACCESSIBLE) (ACCESSIBLE OR COACCESSIBLE)"

lemma connect_visit:
  assumes "targets_ok F" "num_states F < 2 ^ 31"
  shows "\<exists>v. dfs_visit F (connect_callbacks F) any_filter False (connect_visitor_new F) = Inr v \<and>
    length (conn_access v) = num_states F \<and>
    (\<forall>s < num_states F. conn_access v ! s \<and> coaccess v ! s \<longleftrightarrow> accessible_state F s \<and> coaccessible_state F s)"
proof (cases "start_state F")
  case None
  then show ?thesis
    by (auto simp: dfs_visit_def connect_callbacks_def connect_visitor_new_def scc_new_def scc_core.defs accessible_state_def)
next
  case (Some i)
  have "core (connect_visitor_new F) = scc_new (num_states F)"
    by (simp add: connect_visitor_new_def scc_new_def scc_core.defs)
  moreover have "connect_seen F i [] {} {} (connect_visitor_new F)"
    using Some by (simp add: connect_seen_def connect_visitor_new_def scc_core.defs)
  ultimately obtain v r P where
    v: "dfs_visit F (connect_callbacks F) any_filter False (connect_visitor_new F) = Inr v"
      "scc_inv F [] {..< num_states F} P (core v)" "connect_seen F r [] {..< num_states F} P v"
    using connect.visit_result [OF assms Some, of "connect_visitor_new F"] by (auto simp: connect_callbacks_def)
  with scc_done(2) [OF v(2)] show ?thesis by (auto simp: connect_seen_def)
qed

lemma connect_eq:
  assumes "targets_ok F" "num_states F < 2 ^ 31"
  shows "connect F = Inr (if contains (properties F) (ACCESSIBLE OR COACCESSIBLE) then F else trimmed F)"
proof (cases "contains (properties F) (ACCESSIBLE OR COACCESSIBLE)")
  case False
  from connect_visit [OF assms] obtain v where
    v: "dfs_visit F (connect_callbacks F) any_filter False (connect_visitor_new F) = Inr v"
      "length (conn_access v) = num_states F"
      "\<forall>s < num_states F. conn_access v ! s \<and> coaccess v ! s \<longleftrightarrow> accessible_state F s \<and> coaccessible_state F s"
    by blast
  let ?ds = "filter (\<lambda>s. \<not> conn_access v ! s \<or> \<not> coaccess v ! s) [0 ..< num_states F]"
  have "set ?ds = useless F" using v(3) by (auto simp: useless_def)
  moreover have "del_states F ?ds = Inr (deleted (set ?ds) F)" by (rule del_states_eq [OF assms(1)]) auto
  ultimately have "del_states F ?ds = Inr (deleted (useless F) F)" by simp
  with False v show ?thesis by (simp add: connect_def Let_def trimmed_def)
qed (simp add: connect_def)

text \<open>The paths between states that stay.\<close>

lemma deleted_edge:
  assumes "(s, t) \<in> edges F" "s \<notin> D" "t \<notin> D"
  shows "(rank D s, rank D t) \<in> edges (deleted D F)"
proof -
  from assms(1) obtain u where u: "s < num_states F" "u \<in> set (trs (state_of F s))" "t = nextstate u"
    by (auto simp: edges_def arcs_def)
  have "renamed D u \<in> set (trs (state_of (deleted D F) (rank D s)))"
    using u assms(2,3) rank_less [of s "num_states F" D] by (simp add: deleted_state kept_nth_rank)
  then show ?thesis
    using u assms(2) rank_less [of s "num_states F" D] by (force simp: edges_def arcs_def)
qed

lemma deleted_arc:
  assumes "(s, t) \<in> arcs F" "s \<notin> D" "nextstate t \<notin> D"
  shows "(rank D s, renamed D t) \<in> arcs (deleted D F)"
  using assms rank_less [of s "num_states F" D] by (auto simp: arcs_def deleted_state kept_nth_rank)

lemma deleted_final:
  assumes "s < num_states F" "s \<notin> D"
  shows "final_weight (state_of (deleted D F) (rank D s)) = final_weight (state_of F s)"
  using assms by (simp add: deleted_state kept_nth_rank rank_less)

lemma useless_iff: "s < num_states F \<Longrightarrow> s \<notin> useless F \<longleftrightarrow> accessible_state F s \<and> coaccessible_state F s"
  by (auto simp: useless_def)

lemma edges_source: "(s, t) \<in> edges F \<Longrightarrow> s < num_states F"
  by (auto simp: edges_def arcs_def)

lemma trimmed_accessible:
  assumes ok: "targets_ok F" and s: "s < num_states F" "s \<notin> useless F"
  shows "accessible_state (deleted (useless F) F) (rank (useless F) s)"
    and "coaccessible_state (deleted (useless F) F) (rank (useless F) s)"
proof -
  let ?D = "useless F" and ?G = "deleted (useless F) F"
  have us: "accessible_state F s" "coaccessible_state F s" using s useless_iff by blast+
  then obtain i where i: "start_state F = Some i" "(i, s) \<in> (edges F)\<^sup>*" by (auto simp: accessible_state_def)
  obtain f where f: "is_final_state F f" "(s, f) \<in> (edges F)\<^sup>*" using us(2) by (auto simp: coaccessible_state_def)
  have in_range: "i < num_states F" using ok i(1) by (simp add: targets_ok_def)
  have acc: "accessible_state F i" using i(1) by (auto simp: accessible_state_def)
  have useful: "x < num_states F \<and> x \<notin> ?D" if "(i, x) \<in> (edges F)\<^sup>*" "(x, f) \<in> (edges F)\<^sup>*" for x
  proof -
    have "x < num_states F" using that(1) in_range edges_range [OF ok] by (induction rule: rtrancl_induct) auto
    then show ?thesis using that i(1) f(1) useless_iff unfolding accessible_state_def coaccessible_state_def by blast
  qed
  have path: "(rank ?D a, rank ?D b) \<in> (edges ?G)\<^sup>*"
    if "(a, b) \<in> (edges F)\<^sup>*" "(i, a) \<in> (edges F)\<^sup>*" "(b, f) \<in> (edges F)\<^sup>*" for a b
    using that(1,3)
  proof (induction rule: rtrancl_induct)
    case (step y z)
    have yf: "(y, f) \<in> (edges F)\<^sup>*" using step.hyps(2) step.prems by (rule converse_rtrancl_into_rtrancl)
    have iy: "(i, y) \<in> (edges F)\<^sup>*" using that(2) step.hyps(1) by (rule rtrancl_trans)
    have iz: "(i, z) \<in> (edges F)\<^sup>*" using iy step.hyps(2) by (rule rtrancl_into_rtrancl)
    have "(rank ?D y, rank ?D z) \<in> edges ?G"
      using deleted_edge [OF step.hyps(2)] useful [OF iy yf] useful [OF iz step.prems] by blast
    with step.IH [OF yf] show ?case by (rule rtrancl_into_rtrancl)
  qed simp
  have if': "(i, f) \<in> (edges F)\<^sup>*" using i(2) f(2) by (rule rtrancl_trans)
  have "start_state ?G = Some (rank ?D i)" using i(1) useful [OF rtrancl_refl if'] by (simp add: deleted_def)
  with path [OF i(2) rtrancl_refl f(2)] show "accessible_state ?G (rank ?D s)" by (auto simp: accessible_state_def)
  have uf: "f < num_states F" "f \<notin> ?D" using useful [OF if' rtrancl_refl] by auto
  have "is_final_state ?G (rank ?D f)"
    using f(1) deleted_final [OF uf] rank_less [OF uf] by (simp add: is_final_state_def)
  with path [OF f(2) i(2) rtrancl_refl] show "coaccessible_state ?G (rank ?D s)" by (auto simp: coaccessible_state_def)
qed

lemma trimmed_trim:
  assumes "targets_ok F" "k < num_states (deleted (useless F) F)"
  shows "accessible_state (deleted (useless F) F) k \<and> coaccessible_state (deleted (useless F) F) k"
proof -
  let ?s = "kept (useless F) (num_states F) ! k"
  have k: "k < length (kept (useless F) (num_states F))" using assms(2) by simp
  then have "?s < num_states F" "?s \<notin> useless F" using nth_mem [OF k] by (auto simp: set_kept)
  with trimmed_accessible [OF assms(1) this] rank_kept_nth [OF k] show ?thesis by simp
qed

lemma acc_coaccessible: "accepts mul F s x y w \<Longrightarrow> coaccessible_state F s"
proof (induction rule: accepts.induct)
  case (acc_final s w)
  then show ?case by (auto simp: final_at_def coaccessible_state_def is_final_state_def)
next
  case (acc_arc s t x y w)
  show ?case by (rule coaccessible_step [OF arcs_edges [OF acc_arc.hyps(1)] acc_arc.IH])
qed

lemma deleted_acc:
  assumes "accepts mul F s x y w" "accessible_state F s"
  shows "accepts mul (deleted (useless F) F) (rank (useless F) s) x y w"
  using assms
proof (induction rule: accepts.induct)
  case (acc_final s w)
  have s: "s < num_states F" using acc_final.hyps by (simp add: final_at_def)
  have "s \<notin> useless F"
    using acc_coaccessible [OF accepts.acc_final [OF acc_final.hyps]] acc_final.prems s by (simp add: useless_iff)
  with s acc_final.hyps show ?case
    by (intro accepts.acc_final) (simp add: final_at_def deleted_final rank_less)
next
  case (acc_arc s t x y w)
  have s: "s < num_states F" using acc_arc.hyps(1) by (simp add: arcs_def)
  have n: "nextstate t < num_states F" using acc_arc.hyps(2) by (rule acc_in_range)
  have e: "(s, nextstate t) \<in> edges F" by (rule arcs_edges [OF acc_arc.hyps(1)])
  have at: "accessible_state F (nextstate t)" by (rule accessible_step [OF acc_arc.prems e])
  have ct: "coaccessible_state F (nextstate t)" by (rule acc_coaccessible [OF acc_arc.hyps(2)])
  have "s \<notin> useless F" "nextstate t \<notin> useless F"
    using s n at ct acc_arc.prems coaccessible_step [OF e ct] by (simp_all add: useless_iff)
  from accepts.acc_arc [OF deleted_arc [OF acc_arc.hyps(1) this], of mul x y w] acc_arc.IH [OF at]
  show ?case by simp
qed

lemma deleted_acc_back:
  assumes ok: "targets_ok F" and "accepts mul (deleted D F) s x y w"
  shows "accepts mul F (kept D (num_states F) ! s) x y w"
proof (rule acc_embed [OF assms(2)])
  fix s t assume "(s, t) \<in> arcs (deleted D F)"
  then show "\<exists>u. (kept D (num_states F) ! s, u) \<in> arcs F \<and> ilabel u = ilabel t \<and> olabel u = olabel t \<and>
      weight u = weight t \<and> nextstate u = kept D (num_states F) ! nextstate t"
    using sub_fst_arc [OF deleted_sub_fst [OF targets_survivors [OF ok]]] by fastforce
next
  fix s w assume "final_at (deleted D F) s w"
  then show "final_at F (kept D (num_states F) ! s) w"
    using deleted_sub_fst [OF targets_survivors [OF ok], of D] by (auto simp: final_at_def sub_fst_def)
qed

lemma trimmed_transduces:
  assumes ok: "targets_ok F"
  shows "transduces mul (trimmed F) x y w \<longleftrightarrow> transduces mul F x y w"
proof
  assume "transduces mul (trimmed F) x y w"
  then obtain k where k: "start_state (deleted (useless F) F) = Some k" "accepts mul (deleted (useless F) F) k x y w"
    by (auto simp: trimmed_def transduces_def)
  then have "start_state F = Some (kept (useless F) (num_states F) ! k)"
    using deleted_sub_fst [OF targets_survivors [OF ok]] by (auto simp: sub_fst_def)
  with deleted_acc_back [OF ok k(2)] show "transduces mul F x y w" by (auto simp: transduces_def)
next
  assume "transduces mul F x y w"
  then obtain i where i: "start_state F = Some i" "accepts mul F i x y w" by (auto simp: transduces_def)
  have a: "accessible_state F i" using i(1) by (auto simp: accessible_state_def)
  have "i \<notin> useless F" using a acc_coaccessible [OF i(2)] acc_in_range [OF i(2)] by (simp add: useless_iff)
  then have "start_state (deleted (useless F) F) = Some (rank (useless F) i)" using i(1) by (simp add: deleted_def)
  with deleted_acc [OF i(2) a] show "transduces mul (trimmed F) x y w" by (auto simp: trimmed_def transduces_def)
qed

lemma trimmed_ok:
  assumes "fst_ok W F"
  shows "fst_ok W (trimmed F)"
proof -
  let ?G = "deleted (useless F) F"
  have ok: "targets_ok F" using assms by (simp add: fst_ok_def)
  have G: "fst_ok W ?G"
    using assms ok by (simp add: fst_ok_def deleted_sound deleted_counts deleted_targets targets_survivors)
  have "bits_sound W ?G ((properties ?G AND fp_not (ACCESSIBLE OR COACCESSIBLE)) OR
      ((ACCESSIBLE OR COACCESSIBLE) AND (ACCESSIBLE OR COACCESSIBLE)))"
  proof (rule bits_sound_or)
    show "bits_sound W ?G (properties ?G AND fp_not (ACCESSIBLE OR COACCESSIBLE))"
      using G by (auto simp: fst_ok_def props_sound_def)
    have "bit (ACCESSIBLE OR COACCESSIBLE) n \<longleftrightarrow> n = 40 \<or> n = 42" for n by (simp add: bit_or_iff flag_bits)
    moreover have "sem W ?G Accessible" "sem W ?G Coaccessible" using trimmed_trim [OF ok] by auto
    ultimately show "bits_sound W ?G ((ACCESSIBLE OR COACCESSIBLE) AND (ACCESSIBLE OR COACCESSIBLE))"
      unfolding bits_sound_def and.idem by (intro allI, case_tac q) (simp_all del: sem.simps)
  qed
  then show ?thesis
    using G by (simp add: trimmed_def set_properties_with_mask_def fst_ok_def props_sound_def)
qed

end
