(* ===== verification/Scc_Visitor.thy ===== *)
theory Scc_Visitor
  imports Connect
begin

text \<open>
  \<open>SccVisitor\<close> (\<open>algorithms/visitors/scc_visitors.rs\<close>): the shared component search with component
  numbers, an accessibility vector and the property bits the search decides. What it finds is stated
  against the meaning of the bits: cyclic or not, accessible or not, co-accessible or not, and the numbers
  are equal exactly for states that reach each other and grow along transitions. Component numbers and
  their count are \<open>i32\<close> in the code; there are at most as many as states.
\<close>

subsection \<open>The visitor\<close>

record scc_visitor = scc_core +
  sv_scc :: "int list option"
  sv_access :: "bool list option"
  sv_start :: state_id
  sv_nscc :: int
  sv_props :: fst_props

definition scc_visitor_new :: "'w vfst \<Rightarrow> bool \<Rightarrow> bool \<Rightarrow> scc_visitor" where
  "scc_visitor_new F compute_scc compute_access =
     (let props = 0 OR (ACYCLIC OR INITIAL_ACYCLIC OR ACCESSIBLE OR COACCESSIBLE);
          props = props AND fp_not (CYCLIC OR INITIAL_CYCLIC OR NOT_ACCESSIBLE OR NOT_COACCESSIBLE)
      in scc_core.extend (scc_new (num_states F))
       \<lparr>sv_scc = if compute_scc then Some (replicate (num_states F) (- 1)) else None,
        sv_access = if compute_access then Some (replicate (num_states F) False) else None,
        sv_start = (case start_state F of None \<Rightarrow> NO_STATE_ID | Some s \<Rightarrow> s),
        sv_nscc = 0, sv_props = props\<rparr>)"

definition sv_init :: "state_id \<Rightarrow> state_id \<Rightarrow> scc_visitor \<Rightarrow> scc_visitor \<times> bool" where
  "sv_init s root v =
     (let v = scc_init s v;
          v = (if root = sv_start v
               then v\<lparr>sv_access := map_option (\<lambda>a. a[s := True]) (sv_access v)\<rparr>
               else v\<lparr>sv_access := map_option (\<lambda>a. a[s := True]) (sv_access v),
                      sv_props := (sv_props v OR NOT_ACCESSIBLE) AND fp_not ACCESSIBLE\<rparr>)
      in (v, True))"

definition sv_back :: "state_id \<Rightarrow> 'w tr \<Rightarrow> scc_visitor \<Rightarrow> scc_visitor \<times> bool" where
  "sv_back s t v =
     (let v = scc_back s (nextstate t) v;
          v = v\<lparr>sv_props := (sv_props v OR CYCLIC) AND fp_not ACYCLIC\<rparr>;
          v = (if nextstate t = sv_start v
               then v\<lparr>sv_props := (sv_props v OR INITIAL_CYCLIC) AND fp_not INITIAL_ACYCLIC\<rparr>
               else v)
      in (v, True))"

definition sv_mark :: "state_id \<Rightarrow> scc_visitor \<Rightarrow> scc_visitor" where
  "sv_mark t v = v\<lparr>sv_scc := map_option (\<lambda>c. c[t := sv_nscc v]) (sv_scc v)\<rparr>"

definition sv_after :: "bool \<Rightarrow> scc_visitor \<Rightarrow> scc_visitor" where
  "sv_after scc_coaccess v =
     (let v = (if \<not> scc_coaccess
               then v\<lparr>sv_props := (sv_props v OR NOT_COACCESSIBLE) AND fp_not COACCESSIBLE\<rparr>
               else v)
      in v\<lparr>sv_nscc := sv_nscc v + 1\<rparr>)"

definition sv_finish_visit :: "scc_visitor \<Rightarrow> scc_visitor" where
  "sv_finish_visit v = v\<lparr>sv_scc := map_option (map (\<lambda>c. sv_nscc v - 1 - c)) (sv_scc v)\<rparr>"

definition scc_callbacks :: "'w vfst \<Rightarrow> ('w, scc_visitor) visitor" where
  "scc_callbacks F =
     \<lparr>v_init_visit = \<lambda>v. v,
      v_init_state = sv_init,
      v_tree_tr = \<lambda>s t v. (v, True),
      v_back_tr = sv_back,
      v_forward_or_cross_tr = \<lambda>s t v. (scc_forward s (nextstate t) v, True),
      v_finish_state = \<lambda>s parent t v. scc_finish sv_mark sv_after F s parent v,
      v_finish_visit = sv_finish_visit\<rparr>"

subsection \<open>The fields of the extension\<close>

lemma sv_core [simp]:
  "core (v\<lparr>sv_scc := a\<rparr>) = core v" "core (v\<lparr>sv_access := b\<rparr>) = core v"
  "core (v\<lparr>sv_nscc := c\<rparr>) = core v" "core (v\<lparr>sv_props := d\<rparr>) = core v"
  by (simp_all add: scc_core.defs)

text \<open>What is beside the shared fields, as one value.\<close>

definition sv_ext :: "scc_visitor \<Rightarrow> int list option \<times> bool list option \<times> state_id \<times> int \<times> fst_props" where
  "sv_ext v = (sv_scc v, sv_access v, sv_start v, sv_nscc v, sv_props v)"

lemma sv_ext_steps [simp]:
  "sv_ext (scc_back s t v) = sv_ext v" "sv_ext (scc_forward s t v) = sv_ext v" "sv_ext (scc_init s v) = sv_ext v"
  "sv_ext (scc_final F s v) = sv_ext v" "sv_ext (scc_to_parent s p v) = sv_ext v"
  by (simp_all add: sv_ext_def scc_back_def scc_forward_def coaccess_from_def scc_init_def scc_final_def scc_to_parent_def
      Let_def split: option.splits)

lemma sv_fields [simp]:
  fixes v :: scc_visitor
  shows "sv_scc (scc_back s t v) = sv_scc v" "sv_access (scc_back s t v) = sv_access v" "sv_start (scc_back s t v) = sv_start v"
    "sv_nscc (scc_back s t v) = sv_nscc v" "sv_props (scc_back s t v) = sv_props v"
    "sv_scc (scc_init s v) = sv_scc v" "sv_access (scc_init s v) = sv_access v" "sv_start (scc_init s v) = sv_start v"
    "sv_nscc (scc_init s v) = sv_nscc v" "sv_props (scc_init s v) = sv_props v"
  using sv_ext_steps(1) [of s t v] sv_ext_steps(3) [of s v] by (simp_all add: sv_ext_def)

lemma sv_pop:
  assumes "s \<notin> set A"
  shows "\<exists>v'. scc_pop sv_mark b s (A @ s # B) v = Inr v' \<and> core v' = scc_popped b (A @ [s]) B (core v) \<and>
    sv_ext v' = (map_option (\<lambda>c. set_all c (A @ [s]) (sv_nscc v)) (sv_scc v), snd (sv_ext v))"
  using assms
proof (induction A arbitrary: v)
  case Nil
  then show ?case
    by (auto simp: Let_def sv_mark_def scc_popped_def set_all_def sv_ext_def scc_core.defs)
next
  case (Cons a A)
  let ?v = "(let v = sv_mark a v; v = (if b then v\<lparr>coaccess := (coaccess v)[a := True]\<rparr> else v);
      v = v\<lparr>onstack := (onstack v)[a := False]\<rparr> in v\<lparr>scc_stack := A @ s # B\<rparr>)"
  have "scc_pop sv_mark b s ((a # A) @ s # B) v = scc_pop sv_mark b s (A @ s # B) ?v"
    using Cons.prems by (simp add: Let_def)
  moreover obtain v' where v': "scc_pop sv_mark b s (A @ s # B) ?v = Inr v'"
    "core v' = scc_popped b (A @ [s]) B (core ?v)"
    "sv_ext v' = (map_option (\<lambda>c. set_all c (A @ [s]) (sv_nscc ?v)) (sv_scc ?v), snd (sv_ext ?v))"
    using Cons by auto
  moreover have "scc_popped b (A @ [s]) B (core ?v) = scc_popped b ((a # A) @ [s]) B (core v)"
    by (simp add: Let_def sv_mark_def scc_popped_def set_all_def)
  moreover have "sv_nscc ?v = sv_nscc v" "sv_scc ?v = map_option (\<lambda>c. c[a := sv_nscc v]) (sv_scc v)"
    "snd (sv_ext ?v) = snd (sv_ext v)"
    by (simp_all add: Let_def sv_mark_def sv_ext_def)
  ultimately show ?case by (simp add: set_all_def option.map_comp o_def)
qed

text \<open>Finishing a state, in the two cases of \<open>scc_finish_cases\<close>.\<close>

lemma sv_finish_root:
  assumes "scc_stack v = A @ s # B" "s \<notin> set A" "dfnumber v ! s = lowlink v ! s"
    and "b \<longleftrightarrow> (\<exists>t \<in> set (A @ [s]). coaccess (scc_final F s (core v)) ! t)"
    and "scc_finish sv_mark sv_after F s p v = Inr v'"
  shows "core v' = scc_to_parent s p (scc_popped b (A @ [s]) B (scc_final F s (core v)))"
    and "sv_ext v' = (map_option (\<lambda>c. set_all c (A @ [s]) (sv_nscc v)) (sv_scc v), sv_access v, sv_start v,
      sv_nscc v + 1, if b then sv_props v else (sv_props v OR NOT_COACCESSIBLE) AND fp_not COACCESSIBLE)"
proof -
  let ?u = "scc_final F s v"
  have sel: "scc_stack ?u = A @ s # B" "dfnumber ?u ! s = lowlink ?u ! s"
    using assms(1,3) by (simp_all add: scc_final_def)
  have b: "scc_any (coaccess ?u) s (scc_stack ?u) False = Inr b"
    using assms(4) unfolding sel core_steps(5) [symmetric] by (simp add: scc_any_eq [OF assms(2)])
  obtain u' where u': "scc_pop sv_mark b s (scc_stack ?u) ?u = Inr u'" "core u' = scc_popped b (A @ [s]) B (core ?u)"
    "sv_ext u' = (map_option (\<lambda>c. set_all c (A @ [s]) (sv_nscc ?u)) (sv_scc ?u), snd (sv_ext ?u))"
    using sv_pop [OF assms(2)] sel(1) by metis
  have v': "v' = scc_to_parent s p (sv_after b u')"
    using assms(5) b u'(1) sel(2) by (simp add: scc_finish_def Let_def)
  have "core (sv_after b u') = core u'" by (simp add: sv_after_def Let_def)
  then show "core v' = scc_to_parent s p (scc_popped b (A @ [s]) B (scc_final F s (core v)))"
    using u'(2) v' by (simp add: core_steps)
  have "sv_ext ?u = sv_ext v" by simp
  then have "sv_nscc ?u = sv_nscc v" "sv_scc ?u = sv_scc v" "sv_ext ?u = sv_ext v" by (simp_all add: sv_ext_def)
  with u'(3) show "sv_ext v' = (map_option (\<lambda>c. set_all c (A @ [s]) (sv_nscc v)) (sv_scc v), sv_access v, sv_start v,
      sv_nscc v + 1, if b then sv_props v else (sv_props v OR NOT_COACCESSIBLE) AND fp_not COACCESSIBLE)"
    unfolding v' sv_ext_steps by (simp add: sv_ext_def sv_after_def Let_def)
qed

lemma sv_scc_visiting: "scc_visiting (scc_callbacks F) F core"
proof
  fix s p v and ot :: "'a tr option"
  show "rbind (v_finish_state (scc_callbacks F) s p ot v) (\<lambda>v. Inr (core v)) =
      scc_finish (\<lambda>_ v. v) (\<lambda>_ v. v) F s p (core v)"
    by (simp add: scc_callbacks_def core_finish sv_mark_def sv_after_def Let_def)
qed (simp_all add: scc_callbacks_def sv_init_def sv_back_def core_steps Let_def)

end
