(* ===== verification/Scc_Result.thy ===== *)
theory Scc_Result
  imports Scc_Visitor
begin

text \<open>
  The result of a visit with \<open>SccVisitor\<close>: the invariant of its own fields, and what they say at the end.
\<close>

subsection \<open>What the visitor has found so far\<close>

abbreviation starting :: "'w vfst \<Rightarrow> scc_visitor \<Rightarrow> state_id list \<Rightarrow> state_id set \<Rightarrow> bool" where
  "starting F v gs vis \<equiv> start_state F = Some (sv_start v) \<and> vis \<subseteq> {..< num_states F} \<and>
     (vis \<noteq> {} \<longrightarrow> sv_start v \<in> vis) \<and> (sv_start v \<in> set gs \<longrightarrow> last gs = sv_start v)"

definition sv_access_ok :: "'w vfst \<Rightarrow> state_id \<Rightarrow> state_id set \<Rightarrow> scc_visitor \<Rightarrow> bool" where
  "sv_access_ok F r vis v \<longleftrightarrow>
     (\<forall>a. sv_access v = Some a \<longrightarrow> length a = num_states F \<and> (\<forall>x < num_states F. a ! x \<longleftrightarrow> x \<in> vis)) \<and>
     (if r = sv_start v then (\<forall>x \<in> vis. accessible_state F x) \<and> bit (sv_props v) 40 \<and> \<not> bit (sv_props v) 41
      else {x. accessible_state F x} \<subseteq> vis \<and> (\<exists>x \<in> vis. \<not> accessible_state F x) \<and>
        \<not> bit (sv_props v) 40 \<and> bit (sv_props v) 41)"

definition sv_cycle_ok :: "'w vfst \<Rightarrow> state_id list \<Rightarrow> state_id set \<Rightarrow> (state_id \<times> state_id) set \<Rightarrow> scc_visitor \<Rightarrow> bool" where
  "sv_cycle_ok F gs vis P v \<longleftrightarrow>
     (bit (sv_props v) 34 \<longleftrightarrow> \<not> bit (sv_props v) 35) \<and>
     (if bit (sv_props v) 34 then \<exists>x. cyclic_at F x
      else (\<forall>x y. (x, y) \<in> P \<longrightarrow> y \<notin> set gs) \<and> (\<forall>x \<in> vis. x \<notin> set gs \<longrightarrow> \<not> cyclic_at F x))"

definition sv_initial_ok :: "'w vfst \<Rightarrow> state_id list \<Rightarrow> state_id set \<Rightarrow> (state_id \<times> state_id) set \<Rightarrow> scc_visitor \<Rightarrow> bool" where
  "sv_initial_ok F gs vis P v \<longleftrightarrow>
     (bit (sv_props v) 36 \<longleftrightarrow> \<not> bit (sv_props v) 37) \<and>
     (if bit (sv_props v) 36 then cyclic_at F (sv_start v)
      else if sv_start v \<in> set gs then \<forall>x. (x, sv_start v) \<notin> P
      else sv_start v \<in> vis \<longrightarrow> \<not> cyclic_at F (sv_start v))"

text \<open>The last two speak of the states that have left the component stack.\<close>

definition sv_co_ok :: "'w vfst \<Rightarrow> state_id set \<Rightarrow> scc_visitor \<Rightarrow> bool" where
  "sv_co_ok F D v \<longleftrightarrow>
     (bit (sv_props v) 42 \<longleftrightarrow> \<not> bit (sv_props v) 43) \<and>
     (bit (sv_props v) 43 \<longleftrightarrow> (\<exists>x \<in> D. \<not> coaccessible_state F x))"

definition mutual :: "'w vfst \<Rightarrow> state_id \<Rightarrow> state_id \<Rightarrow> bool" where
  "mutual F x y \<longleftrightarrow> (x, y) \<in> (edges F)\<^sup>* \<and> (y, x) \<in> (edges F)\<^sup>*"

definition sv_scc_ok :: "'w vfst \<Rightarrow> state_id set \<Rightarrow> scc_visitor \<Rightarrow> bool" where
  "sv_scc_ok F D v \<longleftrightarrow> 0 \<le> sv_nscc v \<and>
     (\<forall>c. sv_scc v = Some c \<longrightarrow> length c = num_states F \<and>
        (\<forall>x \<in> D. 0 \<le> c ! x \<and> c ! x < sv_nscc v) \<and>
        (\<forall>k. 0 \<le> k \<longrightarrow> k < sv_nscc v \<longrightarrow> (\<exists>x \<in> D. c ! x = k)) \<and>
        (\<forall>x \<in> D. \<forall>y \<in> D. c ! x = c ! y \<longleftrightarrow> mutual F x y) \<and>
        (\<forall>x \<in> D. \<forall>y. (x, y) \<in> edges F \<longrightarrow> c ! y \<le> c ! x))"

definition sv_seen ::
  "'w vfst \<Rightarrow> state_id \<Rightarrow> state_id list \<Rightarrow> state_id set \<Rightarrow> (state_id \<times> state_id) set \<Rightarrow> scc_visitor \<Rightarrow> bool"
where
  "sv_seen F r gs vis P v \<longleftrightarrow> starting F v gs vis \<and> sv_access_ok F r vis v \<and> sv_cycle_ok F gs vis P v \<and>
     sv_initial_ok F gs vis P v \<and> sv_co_ok F (vis - set (scc_stack v)) v \<and> sv_scc_ok F (vis - set (scc_stack v)) v"

text \<open>How the four updates of the bits read.\<close>

lemma sv_bits:
  assumes "16 \<le> n" "n < 48"
  shows "bit ((p OR NOT_ACCESSIBLE) AND fp_not ACCESSIBLE) n \<longleftrightarrow> n = 41 \<or> n \<noteq> 40 \<and> bit p n"
    "bit ((p OR CYCLIC) AND fp_not ACYCLIC) n \<longleftrightarrow> n = 34 \<or> n \<noteq> 35 \<and> bit p n"
    "bit ((p OR INITIAL_CYCLIC) AND fp_not INITIAL_ACYCLIC) n \<longleftrightarrow> n = 36 \<or> n \<noteq> 37 \<and> bit p n"
    "bit ((p OR NOT_COACCESSIBLE) AND fp_not COACCESSIBLE) n \<longleftrightarrow> n = 43 \<or> n \<noteq> 42 \<and> bit p n"
  using assms by (auto simp: bit_and_iff bit_or_iff flag_bits)

lemma sv_init_sel:
  "sv_scc (fst (sv_init s r v)) = sv_scc v" "sv_nscc (fst (sv_init s r v)) = sv_nscc v"
  "sv_start (fst (sv_init s r v)) = sv_start v" "scc_stack (fst (sv_init s r v)) = s # scc_stack v"
  "sv_access (fst (sv_init s r v)) = map_option (\<lambda>a. a[s := True]) (sv_access v)"
  "sv_props (fst (sv_init s r v)) = (if r = sv_start v then sv_props v else (sv_props v OR NOT_ACCESSIBLE) AND fp_not ACCESSIBLE)"
  by (simp_all add: sv_init_def scc_init_def Let_def)

text \<open>Discovering a state.\<close>

lemma sv_init_seen:
  assumes inv: "scc_inv F gs vis P (core v)" and X: "sv_seen F q gs vis P v" and y: "y < num_states F" "y \<notin> vis"
    and st: "vis = {} \<Longrightarrow> y = sv_start v"
    and acc: "accessible_state F y \<longleftrightarrow> r = sv_start v"
    and sub: "if r = sv_start v then \<forall>x \<in> vis. accessible_state F x else {x. accessible_state F x} \<subseteq> vis"
    and q: "r = q \<or> r \<noteq> sv_start v"
  shows "sv_seen F r (y # gs) (insert y vis) P (fst (sv_init y r v))"
proof -
  have ord: "scc_order F gs vis P (core v)" using inv by (simp add: scc_inv_def)
  note o = scc_orderD [OF ord]
  have st': "starting F v gs vis" using X by (simp add: sv_seen_def)
  have P: "(x, z) \<in> P \<Longrightarrow> x \<noteq> y \<and> z \<noteq> y" for x z using o(19,20) y(2) by blast
  have stk: "x \<in> set (scc_stack v) \<Longrightarrow> x \<in> vis" for x using o(11) by simp
  have gv: "x \<in> set gs \<Longrightarrow> x \<in> vis" for x using o(15) stk by simp
  let ?v = "fst (sv_init y r v)"
  have "starting F ?v (y # gs) (insert y vis)"
  proof (cases "vis = {}")
    case True
    then have "gs = []" using gv by (cases gs) auto
    then show ?thesis using st' y st [OF True] True by (simp add: sv_init_sel)
  next
    case False
    then have "sv_start v \<in> vis" "sv_start v \<noteq> y" using st' y(2) by auto
    then show ?thesis using st' y(1) by (auto simp: sv_init_sel)
  qed
  moreover have "sv_access_ok F r (insert y vis) ?v"
  proof -
    have A: "sv_access_ok F q vis v" using X by (simp add: sv_seen_def)
    have "length a' = num_states F \<and> (\<forall>x < num_states F. a' ! x \<longleftrightarrow> x \<in> insert y vis)"
      if "sv_access ?v = Some a'" for a'
      using that A unfolding sv_access_ok_def sv_init_sel by (auto simp: nth_upd split: if_splits)
    then show ?thesis
      using A acc sub y q unfolding sv_access_ok_def
      by (cases "r = sv_start v") (auto simp: sv_bits sv_init_sel)
  qed
  moreover have "sv_cycle_ok F (y # gs) (insert y vis) P ?v"
  proof -
    have b: "bit (sv_props ?v) 34 = bit (sv_props v) 34" "bit (sv_props ?v) 35 = bit (sv_props v) 35"
      by (simp_all add: sv_init_sel sv_bits)
    show ?thesis
      using X P unfolding sv_seen_def sv_cycle_ok_def b by (cases "bit (sv_props v) 34") auto
  qed
  moreover have "sv_initial_ok F (y # gs) (insert y vis) P ?v"
  proof -
    have b: "bit (sv_props ?v) 36 = bit (sv_props v) 36" "bit (sv_props ?v) 37 = bit (sv_props v) 37"
      by (simp_all add: sv_init_sel sv_bits)
    have st: "sv_start ?v = sv_start v" by (simp add: sv_init_sel)
    have "(x, sv_start v) \<notin> P" if "sv_start v = y" for x using P that by blast
    then show ?thesis
      using X unfolding sv_seen_def sv_initial_ok_def b st
      by (cases "bit (sv_props v) 36"; cases "sv_start v = y") (simp_all split: if_splits)
  qed
  moreover have "insert y vis - set (scc_stack ?v) = vis - set (scc_stack v)" using y by (auto simp: sv_init_sel)
  moreover have "sv_co_ok F (vis - set (scc_stack v)) ?v" "sv_scc_ok F (vis - set (scc_stack v)) ?v"
    using X by (simp_all add: sv_seen_def sv_co_ok_def sv_scc_ok_def sv_init_sel sv_bits)
  ultimately show ?thesis by (simp add: sv_seen_def)
qed


text \<open>Processing an arc.\<close>

lemma sv_back_sel:
  "sv_scc (fst (sv_back s t v)) = sv_scc v" "sv_nscc (fst (sv_back s t v)) = sv_nscc v"
  "sv_start (fst (sv_back s t v)) = sv_start v" "scc_stack (fst (sv_back s t v)) = scc_stack v"
  "sv_access (fst (sv_back s t v)) = sv_access v"
  "16 \<le> n \<Longrightarrow> n < 48 \<Longrightarrow> bit (sv_props (fst (sv_back s t v))) n \<longleftrightarrow>
     n = 34 \<or> n = 36 \<and> nextstate t = sv_start v \<or> n \<noteq> 35 \<and> (n = 37 \<longrightarrow> nextstate t \<noteq> sv_start v) \<and> bit (sv_props v) n"
  by (auto simp: sv_back_def Let_def sv_bits scc_back_def coaccess_from_def)

lemma grey_cycle:
  assumes "scc_inv F (s # gs) vis P k" "(s, t) \<in> edges F" "t \<in> set (s # gs)"
  shows "cyclic_at F t"
proof -
  have ord: "scc_order F (s # gs) vis P k" and rch: "scc_reach F (s # gs) vis P k" using assms(1) by (auto simp: scc_inv_def)
  have "(t, s) \<in> (edges F)\<^sup>*"
    by (rule scc_reachD(1) [OF rch])
      (use scc_orderD(15) [OF ord] assms(3) scc_top_grey(1) [OF ord assms(3)] in auto)
  then show ?thesis unfolding cyclic_at_def by (rule rtrancl_into_trancl1 [OF _ assms(2)])
qed

lemma sv_back_seen:
  assumes inv: "scc_inv F (s # gs) vis P (core v)" and X: "sv_seen F r (s # gs) vis P v"
    and e: "(s, nextstate t) \<in> edges F" "nextstate t \<in> set (s # gs)"
  shows "sv_seen F r (s # gs) vis (insert (s, nextstate t) P) (fst (sv_back s t v))"
proof -
  let ?v = "fst (sv_back s t v)"
  have cyc: "cyclic_at F (nextstate t)" by (rule grey_cycle [OF inv e])
  have "sv_access_ok F r vis ?v" "sv_co_ok F (vis - set (scc_stack v)) ?v" "sv_scc_ok F (vis - set (scc_stack v)) ?v"
    using X by (simp_all add: sv_seen_def sv_access_ok_def sv_co_ok_def sv_scc_ok_def sv_back_sel)
  moreover have "sv_cycle_ok F (s # gs) vis (insert (s, nextstate t) P) ?v"
    using cyc by (auto simp: sv_cycle_ok_def sv_back_sel)
  moreover have "sv_initial_ok F (s # gs) vis (insert (s, nextstate t) P) ?v"
    using X cyc unfolding sv_seen_def sv_initial_ok_def
    by (cases "nextstate t = sv_start v"; cases "bit (sv_props v) 36") (simp_all add: sv_back_sel)
  ultimately show ?thesis using X by (simp add: sv_seen_def sv_back_sel)
qed

lemma sv_forward_seen:
  assumes X: "sv_seen F r (s # gs) vis P v" and t: "t \<in> vis" "t \<notin> set (s # gs)"
  shows "sv_seen F r (s # gs) vis (insert (s, t) P) (scc_forward s t v)"
proof -
  have "sv_ext (scc_forward s t v) = sv_ext v" by simp
  then have sel: "sv_scc (scc_forward s t v) = sv_scc v" "sv_access (scc_forward s t v) = sv_access v"
    "sv_start (scc_forward s t v) = sv_start v" "sv_nscc (scc_forward s t v) = sv_nscc v"
    "sv_props (scc_forward s t v) = sv_props v" by (simp_all only: sv_ext_def prod.inject)
  have stk: "scc_stack (scc_forward s t v) = scc_stack v" by (simp add: scc_forward_def coaccess_from_def)
  have "sv_cycle_ok F (s # gs) vis (insert (s, t) P) (scc_forward s t v)"
    "sv_initial_ok F (s # gs) vis (insert (s, t) P) (scc_forward s t v)"
  proof -
    show "sv_cycle_ok F (s # gs) vis (insert (s, t) P) (scc_forward s t v)"
      using X t(2) unfolding sv_seen_def sv_cycle_ok_def sel by (cases "bit (sv_props v) 34") auto
    show "sv_initial_ok F (s # gs) vis (insert (s, t) P) (scc_forward s t v)"
      using X t(2) unfolding sv_seen_def sv_initial_ok_def sel
      by (cases "bit (sv_props v) 36"; cases "sv_start v \<in> set (s # gs)") auto
  qed
  then show ?thesis using X by (simp add: sv_seen_def sv_access_ok_def sv_co_ok_def sv_scc_ok_def sel stk)
qed

text \<open>A state with only finished successors closes no cycle.\<close>

lemma finish_no_cycle:
  assumes closed: "\<And>x y. x \<in> S \<Longrightarrow> (x, y) \<in> edges F \<Longrightarrow> y \<in> S" and "s \<notin> S"
    and "\<And>y. (s, y) \<in> edges F \<Longrightarrow> y \<in> S"
  shows "\<not> cyclic_at F s"
proof
  assume "cyclic_at F s"
  then obtain y where y: "(s, y) \<in> edges F" "(y, s) \<in> (edges F)\<^sup>*"
    unfolding cyclic_at_def by (meson tranclD)
  from y(2) have "y \<in> S \<Longrightarrow> s \<in> S" by (induction rule: rtrancl_induct) (use closed in auto)
  with assms(2,3) y(1) show False by blast
qed

text \<open>Finishing a state: the cycle bits.\<close>

lemma sv_finish_cycle:
  assumes inv: "scc_inv F (s # gs) vis P (core v)" and X: "sv_seen F r (s # gs) vis P v"
    and all: "\<forall>y. (s, y) \<in> edges F \<longrightarrow> (s, y) \<in> P"
    and sel: "sv_start v' = sv_start v"
    and bits: "\<And>n. n \<in> {34, 35, 36, 37} \<Longrightarrow> bit (sv_props v') n \<longleftrightarrow> bit (sv_props v) n"
  shows "sv_cycle_ok F gs vis (tree_arc gs s \<union> P) v'" "sv_initial_ok F gs vis (tree_arc gs s \<union> P) v'"
proof -
  have ord: "scc_order F (s # gs) vis P (core v)" using inv by (simp add: scc_inv_def)
  note o = scc_orderD [OF ord]
  have s: "s \<in> vis" "s \<notin> set gs" using o(11,15) o(14) by auto
  have gv: "x \<in> set gs \<Longrightarrow> x \<in> vis" for x using o(11,15) by simp
  have tr: "(x, y) \<in> tree_arc gs s \<Longrightarrow> y = s" for x y by (cases gs) auto
  have st: "starting F v (s # gs) vis" using X by (simp add: sv_seen_def)
  show "sv_cycle_ok F gs vis (tree_arc gs s \<union> P) v'"
  proof (cases "bit (sv_props v) 34")
    case True
    then show ?thesis using X by (auto simp: sv_seen_def sv_cycle_ok_def bits)
  next
    case False
    with X have f: "bit (sv_props v) 35" "\<And>x y. (x, y) \<in> P \<Longrightarrow> y \<notin> set (s # gs)"
      "\<And>x. x \<in> vis \<Longrightarrow> x \<notin> set (s # gs) \<Longrightarrow> \<not> cyclic_at F x"
      by (auto simp: sv_seen_def sv_cycle_ok_def)
    have "\<not> cyclic_at F s"
    proof (rule finish_no_cycle [of "vis - set (s # gs)"])
      fix x y assume "x \<in> vis - set (s # gs)" "(x, y) \<in> edges F"
      then have "(x, y) \<in> P" using o(21) [of x y] by blast
      with f(2) o(20) show "y \<in> vis - set (s # gs)" by blast
    next
      fix y assume "(s, y) \<in> edges F"
      with all f(2) o(20) show "y \<in> vis - set (s # gs)" by blast
    qed simp
    with f have "\<forall>x \<in> vis. x \<notin> set gs \<longrightarrow> \<not> cyclic_at F x" by auto
    moreover have "\<forall>x y. (x, y) \<in> tree_arc gs s \<union> P \<longrightarrow> y \<notin> set gs" using f(2) tr s(2) by auto
    ultimately show ?thesis using False f(1) by (simp add: sv_cycle_ok_def bits)
  qed
  show "sv_initial_ok F gs vis (tree_arc gs s \<union> P) v'"
  proof (cases "bit (sv_props v) 36 \<or> sv_start v \<notin> set (s # gs)")
    case True
    then show ?thesis using X by (auto simp: sv_seen_def sv_initial_ok_def bits sel split: if_splits)
  next
    case False
    with X have f: "\<not> bit (sv_props v) 36" "bit (sv_props v) 37" "\<And>x. (x, sv_start v) \<notin> P"
      by (auto simp: sv_seen_def sv_initial_ok_def)
    show ?thesis
    proof (cases "s = sv_start v")
      case True
      have gs: "gs = []"
      proof (rule ccontr)
        assume "gs \<noteq> []"
        then have "last (s # gs) \<in> set gs" by simp
        with st True s(2) show False by auto
      qed
      have "\<not> cyclic_at F s"
      proof
        assume "cyclic_at F s"
        then obtain x where x: "(s, x) \<in> (edges F)\<^sup>*" "(x, s) \<in> edges F" unfolding cyclic_at_def by (meson tranclD2)
        have "x \<in> vis" using x(1) s(1)
        proof (induction rule: rtrancl_induct)
          case (step y z)
          then have "(y, z) \<in> P" using o(21) [of y z] all gs by (cases "y = s") auto
          then show ?case by (rule o(20))
        qed
        then have "(x, s) \<in> P" using o(21) [of x s] all x(2) gs by (cases "x = s") auto
        with f(3) True show False by simp
      qed
      with f True gs show ?thesis by (simp add: sv_initial_ok_def bits sel)
    next
      case diff: False
      with False have "sv_start v \<in> set gs" by auto
      moreover have "\<forall>x. (x, sv_start v) \<notin> tree_arc gs s \<union> P" using f(3) tr diff by auto
      ultimately show ?thesis using f(1,2) by (simp add: sv_initial_ok_def bits sel)
    qed
  qed
qed


text \<open>Finishing a state: the component numbers.\<close>

lemma done_closed:
  assumes "scc_inv F gs vis P k" "x \<in> vis - set (scc_stack k)" "(x, y) \<in> (edges F)\<^sup>*"
  shows "y \<in> vis - set (scc_stack k)"
  using assms(3,2)
proof (induction rule: rtrancl_induct)
  case (step y z)
  have "scc_reach F gs vis P k" using assms(1) by (simp add: scc_inv_def)
  from scc_reachD(3) [OF this] step show ?case by blast
qed

lemma sv_component:
  assumes inv: "scc_inv F (s # gs) vis P (core v)" and all: "\<forall>y. (s, y) \<in> edges F \<longrightarrow> (s, y) \<in> P"
    and eq: "dfnumber v ! s = lowlink v ! s"
    and scc: "sv_scc_ok F (vis - set (scc_stack v)) v" and M: "set A = scc_members (core v) s"
    and ext: "sv_scc v' = map_option (\<lambda>c. set_all c A (sv_nscc v)) (sv_scc v)" "sv_nscc v' = sv_nscc v + 1"
  shows "sv_scc_ok F ((vis - set (scc_stack v)) \<union> set A) v'"
proof -
  let ?D = "vis - set (scc_stack v)" and ?n = "sv_nscc v"
  note m = scc_members_facts [OF inv all]
  have eq': "dfnumber (core v) ! s = lowlink (core v) ! s" using eq by simp
  have ord: "scc_order F (s # gs) vis P (core v)" using inv by (simp add: scc_inv_def)
  have N: "x < num_states F" if "x \<in> vis" for x using scc_orderD(5) [OF ord that] .
  have Mv: "x \<in> vis" "x \<notin> ?D" if "x \<in> set A" for x
    using m(5) [OF eq'] scc_orderD(11) [OF ord, of x] that M by auto
  have n0: "0 \<le> ?n" using scc by (simp add: sv_scc_ok_def)
  show ?thesis
  proof (cases "sv_scc v")
    case None
    with ext n0 show ?thesis by (simp add: sv_scc_ok_def)
  next
    case (Some c)
    have c: "length c = num_states F" "\<And>x. x \<in> ?D \<Longrightarrow> 0 \<le> c ! x \<and> c ! x < ?n"
      "\<And>k. 0 \<le> k \<Longrightarrow> k < ?n \<Longrightarrow> \<exists>x \<in> ?D. c ! x = k"
      "\<And>x y. x \<in> ?D \<Longrightarrow> y \<in> ?D \<Longrightarrow> c ! x = c ! y \<longleftrightarrow> mutual F x y"
      "\<And>x y. x \<in> ?D \<Longrightarrow> (x, y) \<in> edges F \<Longrightarrow> c ! y \<le> c ! x"
      using scc Some by (auto simp: sv_scc_ok_def)
    let ?c = "set_all c A ?n"
    have new: "?c ! x = ?n" if "x \<in> set A" for x using that N [OF Mv(1) [OF that]] c(1) by simp
    have old: "?c ! x = c ! x" if "x \<in> ?D" for x
      using that N [of x] c(1) Mv(2) [of x] by auto
    have mut: "mutual F x y" if "x \<in> set A" "y \<in> set A" for x y
      using m(1) [OF eq', of x] m(1) [OF eq', of y] that M by (auto simp: mutual_def intro: rtrancl_trans [of _ s])
    have sep: "\<not> mutual F x y" "\<not> mutual F y x" if "x \<in> ?D" "y \<in> set A" for x y
      using done_closed [OF inv, of x y] that Mv(2) [OF that(2)] by (auto simp: mutual_def)
    have D: "y \<in> ?D" if "x \<in> ?D" "(x, y) \<in> edges F" for x y
      using done_closed [OF inv, of x y] that by auto
    have MD: "y \<in> set A \<or> y \<in> ?D" if "x \<in> set A" "(x, y) \<in> edges F" for x y
      using m(2) [OF eq'] that M by auto
    have sA: "s \<in> set A" using m(4) [OF eq'] M by simp
    have "length ?c = num_states F" using c(1) by simp
    moreover have "0 \<le> ?c ! x \<and> ?c ! x < ?n + 1" if "x \<in> ?D \<union> set A" for x
      using that new [of x] old [of x] c(2) [of x] n0 by auto
    moreover have "\<exists>x \<in> ?D \<union> set A. ?c ! x = k" if "0 \<le> k" "k < ?n + 1" for k
    proof (cases "k < ?n")
      case True
      from c(3) [OF that(1) True] old show ?thesis by blast
    next
      case False
      with that(2) new [OF sA] sA show ?thesis by auto
    qed
    moreover have "?c ! x = ?c ! y \<longleftrightarrow> mutual F x y" if xy: "x \<in> ?D \<union> set A" "y \<in> ?D \<union> set A" for x y
    proof -
      consider "x \<in> ?D" "y \<in> ?D" | "x \<in> ?D" "y \<in> set A" | "x \<in> set A" "y \<in> ?D" | "x \<in> set A" "y \<in> set A"
        using xy by blast
      then show ?thesis
      proof cases
        case 1
        then show ?thesis using c(4) [OF 1] old by simp
      next
        case 2
        then show ?thesis using sep(1) [OF 2] old [OF 2(1)] new [OF 2(2)] c(2) [OF 2(1)] by simp
      next
        case 3
        then show ?thesis using sep(2) [OF 3(2,1)] old [OF 3(2)] new [OF 3(1)] c(2) [OF 3(2)] by simp
      next
        case 4
        then show ?thesis using mut new by simp
      qed
    qed
    moreover have "?c ! y \<le> ?c ! x" if "x \<in> ?D \<union> set A" "(x, y) \<in> edges F" for x y
    proof (cases "x \<in> ?D")
      case True
      with D [OF True that(2)] c(5) [OF True that(2)] old show ?thesis by simp
    next
      case False
      with that have x: "x \<in> set A" by blast
      from MD [OF x that(2)] new [of y] old [of y] c(2) [of y] new [OF x] show ?thesis by auto
    qed
    ultimately show ?thesis using Some ext n0 unfolding sv_scc_ok_def by simp
  qed
qed

lemma sv_finish_seen:
  assumes inv: "scc_inv F (s # gs) vis P (core v)" and X: "sv_seen F r (s # gs) vis P v"
    and all: "\<forall>y. (s, y) \<in> edges F \<longrightarrow> (s, y) \<in> P" and top: "tree_arc gs s \<subseteq> edges F"
    and fin: "scc_finish sv_mark sv_after F s (parent_of gs) v = Inr v'"
  shows "sv_seen F r gs vis (tree_arc gs s \<union> P) v'"
proof -
  have ord: "scc_order F (s # gs) vis P (core v)" using inv by (simp add: scc_inv_def)
  have st: "starting F v (s # gs) vis" using X by (simp add: sv_seen_def)
  have st': "starting F v gs vis"
  proof -
    have "last gs = sv_start v" if "sv_start v \<in> set gs"
    proof -
      have "gs \<noteq> []" using that by auto
      with st that show ?thesis by simp
    qed
    with st show ?thesis by blast
  qed
  show ?thesis
  proof (cases rule: scc_finish_cases [OF inv all top])
    case 1
    then have v': "v' = scc_to_parent s (parent_of gs) (scc_final F s v)"
      using fin by (simp add: scc_finish_not_root)
    then have "sv_ext v' = sv_ext v" by simp
    then have ext: "sv_scc v' = sv_scc v" "sv_access v' = sv_access v" "sv_start v' = sv_start v" "sv_nscc v' = sv_nscc v"
      "sv_props v' = sv_props v" by (simp_all only: sv_ext_def prod.inject)
    have stk: "scc_stack v' = scc_stack v"
      by (simp add: v' scc_to_parent_def scc_final_def Let_def split: option.splits)
    note cyc = sv_finish_cycle [OF inv X all ext(3), unfolded ext(5), OF refl]
    show ?thesis
      using X cyc st' by (simp add: sv_seen_def sv_access_ok_def sv_co_ok_def sv_scc_ok_def ext stk)
  next
    case (2 A B b)
    have eq: "dfnumber v ! s = lowlink v ! s" "scc_stack v = A @ s # B" using 2(1,2) by simp_all
    note r = sv_finish_root [OF eq(2) 2(3) eq(1) 2(5) fin]
    from r(2) have ext: "sv_scc v' = map_option (\<lambda>c. set_all c (A @ [s]) (sv_nscc v)) (sv_scc v)"
      "sv_access v' = sv_access v" "sv_start v' = sv_start v" "sv_nscc v' = sv_nscc v + 1"
      "sv_props v' = (if b then sv_props v else (sv_props v OR NOT_COACCESSIBLE) AND fp_not COACCESSIBLE)"
      by (simp_all only: sv_ext_def prod.inject)
    have bits: "bit (sv_props v') n \<longleftrightarrow> bit (sv_props v) n" if "16 \<le> n" "n < 48" "n \<noteq> 42" "n \<noteq> 43" for n
      using that by (simp add: ext(5) sv_bits del: bit_and_iff bit_or_iff)
    have "core v' = scc_to_parent s (parent_of gs) (scc_popped b (A @ [s]) B (scc_final F s (core v)))" by (rule r(1))
    then have "scc_stack (core v') = B"
      by (simp only:) (simp add: scc_to_parent_def scc_popped_def Let_def split: option.splits)
    then have stk: "scc_stack v' = B" by simp
    have dist: "set B \<inter> set (A @ [s]) = {}"
    proof -
      have "sorted_wrt (\<lambda>x y. dfnumber v ! y < dfnumber v ! x) (A @ s # B)" using scc_orderD(13) [OF ord] eq(2) by simp
      then show ?thesis by (fastforce simp: sorted_wrt_append)
    qed
    have sub: "set (A @ [s]) \<subseteq> vis" using scc_orderD(11) [OF ord] eq(2) by auto
    have D: "vis - set B = (vis - set (scc_stack v)) \<union> set (A @ [s])"
      using dist sub eq(2) by auto
    have co: "sv_co_ok F (vis - set (scc_stack v)) v" using X by (simp add: sv_seen_def)
    have b42: "bit (sv_props v') 42 \<longleftrightarrow> b \<and> bit (sv_props v) 42" "bit (sv_props v') 43 \<longleftrightarrow> \<not> b \<or> bit (sv_props v) 43"
      by (simp_all add: ext(5) sv_bits del: bit_and_iff bit_or_iff)
    have ex: "(\<exists>x \<in> (vis - set (scc_stack v)) \<union> set (A @ [s]). \<not> coaccessible_state F x) \<longleftrightarrow>
        (\<exists>x \<in> vis - set (scc_stack v). \<not> coaccessible_state F x) \<or> \<not> b"
      using 2(6) by auto
    have "sv_co_ok F ((vis - set (scc_stack v)) \<union> set (A @ [s])) v'"
      using co unfolding sv_co_ok_def b42 ex by blast
    moreover have "sv_scc_ok F ((vis - set (scc_stack v)) \<union> set (A @ [s])) v'"
      using X by (intro sv_component [OF inv all eq(1) _ 2(4) ext(1,4)]) (simp add: sv_seen_def)
    moreover have "sv_cycle_ok F gs vis (tree_arc gs s \<union> P) v'" "sv_initial_ok F gs vis (tree_arc gs s \<union> P) v'"
      by (rule sv_finish_cycle [OF inv X all ext(3)], rule bits, auto)+
    moreover have "sv_access_ok F r vis v'"
      using X by (simp add: sv_seen_def sv_access_ok_def ext(2,3) bits)
    ultimately show ?thesis using st' by (simp add: sv_seen_def stk D ext(3))
  qed
qed

lemma sv_root_seen:
  assumes inv: "scc_inv F [] vis P (core v)" and X: "sv_seen F r [] vis P v" and y: "y < num_states F" "y \<notin> vis"
    and st: "if vis = {} then start_state F = Some y else \<forall>i. start_state F = Some i \<longrightarrow> i \<in> vis"
  shows "sv_seen F y [y] (insert y vis) P (fst (sv_init y y v))"
proof (rule sv_init_seen [OF inv X y])
  have S: "start_state F = Some (sv_start v)" using X by (simp add: sv_seen_def)
  show "vis = {} \<Longrightarrow> y = sv_start v" using st S by simp
  have first: "vis = {} \<longleftrightarrow> y = sv_start v" using st S y(2) by (auto split: if_splits)
  have sub: "{x. accessible_state F x} \<subseteq> vis" if "vis \<noteq> {}"
    using accessible_closed [of F _ vis] scc_done(3) [OF inv] st S that by auto
  show "accessible_state F y \<longleftrightarrow> y = sv_start v"
    using first sub y(2) S by (auto simp: accessible_state_def)
  show "if y = sv_start v then \<forall>x \<in> vis. accessible_state F x else {x. accessible_state F x} \<subseteq> vis"
    using first sub by auto
  show "y = r \<or> y \<noteq> sv_start v"
    using X first by (auto simp: sv_seen_def sv_access_ok_def split: if_splits)
qed

lemma sv_tree_seen:
  assumes inv: "scc_inv F (s # gs) vis P (core v)" and X: "sv_seen F r (s # gs) vis P v"
    and e: "(s, y) \<in> edges F" "y \<notin> vis"
  shows "sv_seen F r (y # s # gs) (insert y vis) P (fst (sv_init y r v))"
proof -
  have A: "if r = sv_start v then \<forall>x \<in> vis. accessible_state F x else {x. accessible_state F x} \<subseteq> vis"
    using X by (auto simp: sv_seen_def sv_access_ok_def split: if_splits)
  have n: "y < num_states F" using inv e(1) scc_orderD(17) unfolding scc_inv_def by blast
  have s: "s \<in> vis" using scc_inv_top [OF inv] by simp
  have acc: "accessible_state F y \<longleftrightarrow> r = sv_start v"
    using A accessible_step [OF _ e(1)] s e(2) by (auto split: if_splits)
  show ?thesis by (rule sv_init_seen [OF inv X n e(2) _ acc A]) (use s in auto)
qed

lemma scc_callbacks_sel:
  "v_init_state (scc_callbacks F) = sv_init" "v_back_tr (scc_callbacks F) = sv_back"
  "v_forward_or_cross_tr (scc_callbacks F) s t v = (scc_forward s (nextstate t) v, True)"
  "v_finish_state (scc_callbacks F) s p ot v = scc_finish sv_mark sv_after F s p v"
  by (simp_all add: scc_callbacks_def)

interpretation scc: scc_observer "scc_callbacks F" F core "sv_seen F" for F :: "'w vfst"
  by (rule scc_observer.intro [OF sv_scc_visiting], unfold_locales, unfold scc_callbacks_sel fst_conv)
    ((rule sv_root_seen, assumption+) | (rule sv_tree_seen, assumption+) | (rule sv_back_seen, assumption+) |
     (rule sv_forward_seen, assumption+) | (rule sv_finish_seen, assumption+))+

subsection \<open>The result\<close>

text \<open>What the fields and the bits say after the visit.\<close>

definition scc_report :: "'w vfst \<Rightarrow> scc_visitor \<Rightarrow> bool" where
  "scc_report F v \<longleftrightarrow>
     length (coaccess v) = num_states F \<and> (\<forall>x < num_states F. coaccess v ! x \<longleftrightarrow> coaccessible_state F x) \<and>
     (\<forall>a. sv_access v = Some a \<longrightarrow> a = replicate (num_states F) True) \<and>
     (\<forall>c. sv_scc v = Some c \<longrightarrow> length c = num_states F \<and>
        (\<forall>x < num_states F. 0 \<le> c ! x \<and> c ! x < sv_nscc v) \<and>
        (\<forall>k. 0 \<le> k \<longrightarrow> k < sv_nscc v \<longrightarrow> (\<exists>x < num_states F. c ! x = k)) \<and>
        (\<forall>x < num_states F. \<forall>y < num_states F. c ! x = c ! y \<longleftrightarrow> mutual F x y) \<and>
        (\<forall>x y. (x, y) \<in> edges F \<longrightarrow> c ! x \<le> c ! y)) \<and>
     (bit (sv_props v) 34 \<longleftrightarrow> (\<exists>s. cyclic_at F s)) \<and> (bit (sv_props v) 35 \<longleftrightarrow> \<not> (\<exists>s. cyclic_at F s)) \<and>
     (bit (sv_props v) 36 \<longleftrightarrow> cyclic_at F (sv_start v)) \<and> (bit (sv_props v) 37 \<longleftrightarrow> \<not> cyclic_at F (sv_start v)) \<and>
     (bit (sv_props v) 40 \<longleftrightarrow> (\<forall>x < num_states F. accessible_state F x)) \<and>
     (bit (sv_props v) 41 \<longleftrightarrow> \<not> (\<forall>x < num_states F. accessible_state F x)) \<and>
     (bit (sv_props v) 42 \<longleftrightarrow> (\<forall>x < num_states F. coaccessible_state F x)) \<and>
     (bit (sv_props v) 43 \<longleftrightarrow> \<not> (\<forall>x < num_states F. coaccessible_state F x))"

lemma cyclic_range: "cyclic_at F s \<Longrightarrow> s < num_states F"
  unfolding cyclic_at_def by (metis edges_source tranclD)

lemma scc_visit:
  assumes "targets_ok F" "num_states F < 2 ^ 31" "start_state F = Some i"
  shows "\<exists>v. dfs_visit F (scc_callbacks F) any_filter False (scc_visitor_new F a b) = Inr v \<and> sv_start v = i \<and>
    scc_report F v"
proof -
  let ?n = "num_states F" and ?v = "scc_visitor_new F a b"
  have core: "core ?v = scc_new ?n" by (simp add: scc_visitor_new_def scc_new_def scc_core.defs)
  have p: "sv_props ?v = (ACYCLIC OR INITIAL_ACYCLIC OR ACCESSIBLE OR COACCESSIBLE) AND
      fp_not (CYCLIC OR INITIAL_CYCLIC OR NOT_ACCESSIBLE OR NOT_COACCESSIBLE)"
    by (simp add: scc_visitor_new_def scc_core.defs)
  have bits: "bit (sv_props ?v) n \<longleftrightarrow> n = 35 \<or> n = 37 \<or> n = 40 \<or> n = 42" for n
    unfolding p by (auto simp: bit_and_iff bit_or_iff flag_bits)
  have "sv_seen F i [] {} {} ?v"
    unfolding sv_seen_def sv_access_ok_def sv_cycle_ok_def sv_initial_ok_def sv_co_ok_def sv_scc_ok_def bits
    using assms(3) by (simp add: scc_visitor_new_def scc_core.defs)
  then obtain u r P where u: "dfs_visit F (scc_callbacks F) any_filter False ?v = Inr (sv_finish_visit u)"
    "scc_inv F [] {..< ?n} P (core u)" "sv_seen F r [] {..< ?n} P u"
    using scc.visit_result [OF assms, of ?v] core by (auto simp: scc_callbacks_def)
  let ?u = "sv_finish_visit u"
  have fields: "sv_start ?u = sv_start u" "sv_props ?u = sv_props u" "sv_access ?u = sv_access u" "sv_nscc ?u = sv_nscc u"
    "coaccess ?u = coaccess u" "sv_scc ?u = map_option (map (\<lambda>c. sv_nscc u - 1 - c)) (sv_scc u)"
    by (simp_all add: sv_finish_visit_def)
  have st: "sv_start u = i" using u(3) assms(3) by (simp add: sv_seen_def)
  have stk: "scc_stack u = []" using scc_done(1) [OF u(2)] by simp
  have co: "length (coaccess u) = ?n" "\<And>x. x < ?n \<Longrightarrow> coaccess u ! x \<longleftrightarrow> coaccessible_state F x"
    using scc_done(2) [OF u(2)] u(2) by (simp_all add: scc_inv_def scc_order_def)
  have i: "i < ?n" using assms(1,3) by (simp add: targets_ok_def)
  have acc: "x < ?n" if "accessible_state F x" for x
    using that i assms(3) edges_range [OF assms(1)] unfolding accessible_state_def
    by (metis option.inject rtrancl.cases)
  have A: "sv_access_ok F r {..< ?n} u" and C: "sv_cycle_ok F [] {..< ?n} P u" and I: "sv_initial_ok F [] {..< ?n} P u"
    and O: "sv_co_ok F {..< ?n} u" and S: "sv_scc_ok F {..< ?n} u"
    using u(3) stk by (simp_all add: sv_seen_def)
  have "a' = replicate ?n True" if "sv_access u = Some a'" for a'
    using A that by (intro nth_equalityI) (auto simp: sv_access_ok_def)
  moreover have "bit (sv_props u) 40 \<longleftrightarrow> (\<forall>x < ?n. accessible_state F x)"
      "bit (sv_props u) 41 \<longleftrightarrow> \<not> (\<forall>x < ?n. accessible_state F x)"
    using A by (auto simp: sv_access_ok_def split: if_splits)
  moreover have "bit (sv_props u) 34 \<longleftrightarrow> (\<exists>s. cyclic_at F s)" "bit (sv_props u) 35 \<longleftrightarrow> \<not> (\<exists>s. cyclic_at F s)"
    using C cyclic_range [of F] by (auto simp: sv_cycle_ok_def split: if_splits)
  moreover have "bit (sv_props u) 36 \<longleftrightarrow> cyclic_at F i" "bit (sv_props u) 37 \<longleftrightarrow> \<not> cyclic_at F i"
    using I i st by (auto simp: sv_initial_ok_def split: if_splits)
  moreover have "bit (sv_props u) 42 \<longleftrightarrow> (\<forall>x < ?n. coaccessible_state F x)"
      "bit (sv_props u) 43 \<longleftrightarrow> \<not> (\<forall>x < ?n. coaccessible_state F x)"
    using O by (auto simp: sv_co_ok_def)
  moreover have "length c = ?n \<and> (\<forall>x < ?n. 0 \<le> c ! x \<and> c ! x < sv_nscc u) \<and>
        (\<forall>k. 0 \<le> k \<longrightarrow> k < sv_nscc u \<longrightarrow> (\<exists>x < ?n. c ! x = k)) \<and>
        (\<forall>x < ?n. \<forall>y < ?n. c ! x = c ! y \<longleftrightarrow> mutual F x y) \<and>
        (\<forall>x y. (x, y) \<in> edges F \<longrightarrow> c ! x \<le> c ! y)"
    if "sv_scc ?u = Some c" for c
  proof -
    from that fields obtain d where d: "sv_scc u = Some d" "c = map (\<lambda>c. sv_nscc u - 1 - c) d" by auto
    have D: "length d = ?n" "\<And>x. x < ?n \<Longrightarrow> 0 \<le> d ! x \<and> d ! x < sv_nscc u"
      "\<And>k. 0 \<le> k \<Longrightarrow> k < sv_nscc u \<Longrightarrow> \<exists>x < ?n. d ! x = k"
      "\<And>x y. x < ?n \<Longrightarrow> y < ?n \<Longrightarrow> d ! x = d ! y \<longleftrightarrow> mutual F x y"
      "\<And>x y. x < ?n \<Longrightarrow> (x, y) \<in> edges F \<Longrightarrow> d ! y \<le> d ! x"
      using S d(1) by (auto simp: sv_scc_ok_def)
    have nth: "c ! x = sv_nscc u - 1 - d ! x" if "x < ?n" for x using that d(2) D(1) by simp
    have "\<exists>x < ?n. c ! x = k" if "0 \<le> k" "k < sv_nscc u" for k
      using D(3) [of "sv_nscc u - 1 - k"] that nth by force
    moreover have "c ! x \<le> c ! y" if e: "(x, y) \<in> edges F" for x y
      using D(5) [OF edges_source [OF e] e] nth [OF edges_source [OF e]] nth [of y] edges_range [OF assms(1) e] by auto
    moreover have "0 \<le> c ! x \<and> c ! x < sv_nscc u" if "x < ?n" for x using D(2) [OF that] nth [OF that] by simp
    moreover have "c ! x = c ! y \<longleftrightarrow> mutual F x y" if "x < ?n" "y < ?n" for x y
      using D(4) [OF that] nth that by simp
    ultimately show ?thesis using d(2) D(1) by simp
  qed
  ultimately show ?thesis
    using u(1) fields st co by (auto simp: scc_report_def)
qed

lemma scc_visit_keeps_sccs:
  assumes "dfs_visit F (scc_callbacks F) any_filter ao (scc_visitor_new F True b) = Inr v"
  shows "sv_scc v \<noteq> None"
proof -
  have pop: "scc_pop sv_mark c s st v = Inr v' \<Longrightarrow> sv_scc v \<noteq> None \<Longrightarrow> sv_scc v' \<noteq> None" for c s st and v v' :: scc_visitor
    by (induction st arbitrary: v v') (auto simp: rbind_eq_Inr sv_mark_def Let_def split: if_splits)
  have fin: "sv_scc v' \<noteq> None" if "scc_finish sv_mark sv_after F s p v = Inr v'" "sv_scc v \<noteq> None" for s p and v v' :: scc_visitor
  proof -
    from that(1) obtain u where u: "v' = scc_to_parent s p u" "u = scc_final F s v \<or>
        (\<exists>b w. scc_pop sv_mark b s (scc_stack (scc_final F s v)) (scc_final F s v) = Inr w \<and> u = sv_after b w)"
      unfolding scc_finish_def Let_def rbind_eq_Inr by (fastforce simp: rbind_eq_Inr split: if_splits)
    have ext: "sv_scc (scc_to_parent s p u) = sv_scc u" "sv_scc (scc_final F s v) = sv_scc v"
      "sv_scc (sv_after b w) = sv_scc w" for b w
      using sv_ext_steps(4) [of F s v] sv_ext_steps(5) [of s p u] by (simp_all add: sv_ext_def sv_after_def)
    from u(2) show ?thesis
    proof (elim disjE exE conjE)
      assume "u = scc_final F s v"
      with u(1) ext that(2) show ?thesis by simp
    next
      fix b w
      assume w: "scc_pop sv_mark b s (scc_stack (scc_final F s v)) (scc_final F s v) = Inr w" "u = sv_after b w"
      have "sv_scc w \<noteq> None" by (rule pop [OF w(1)]) (simp add: ext that(2))
      with u(1) ext w(2) show ?thesis by simp
    qed
  qed
  have fw: "sv_scc (scc_forward s t v) = sv_scc v" for s t and v :: scc_visitor
    using sv_ext_steps(2) [of s t v] by (simp add: sv_ext_def)
  show ?thesis
  proof (rule dfs_visit_keeps [OF _ _ assms, where P = "\<lambda>v. sv_scc v \<noteq> None"])
    show "sv_scc (scc_visitor_new F True b) \<noteq> None" by (simp add: scc_visitor_new_def scc_core.defs)
    show "keeps_visitor (scc_callbacks F) (\<lambda>v. sv_scc v \<noteq> None)"
      using fin fw by (auto simp: keeps_visitor_def scc_callbacks_def sv_init_def sv_back_def sv_finish_visit_def Let_def)
  qed
qed

end
