(* ===== verification/Compute_Properties.thy ===== *)
theory Compute_Properties
  imports Scc_Result
begin

text \<open>
  \<open>fst_properties/compute_fst_properties.rs\<close> and the two methods of \<open>MutableFst\<close> that store what it
  computes. The hash sets of labels are sets, absent when the code does not track them.
\<close>

subsection \<open>The computation\<close>

text \<open>Raising a flag and dropping its opposite.\<close>

definition deny :: "fst_props \<Rightarrow> fst_props \<Rightarrow> bool \<Rightarrow> fst_props \<Rightarrow> fst_props" where
  "deny neg pos c p = (if c then (p OR neg) AND fp_not pos else p)"

definition seen_label :: "label set option \<Rightarrow> label \<Rightarrow> bool" where
  "seen_label L l = (case L of None \<Rightarrow> False | Some S \<Rightarrow> l \<in> S)"

type_synonym 'w scan = "fst_props \<times> 'w tr option \<times> label set option \<times> label set option"

definition compute_tr :: "'w semiring \<Rightarrow> int list \<Rightarrow> state_id \<Rightarrow> 'w tr \<Rightarrow> 'w scan \<Rightarrow> 'w scan res" where
  "compute_tr W sccs s t = (\<lambda>(p, prev, il, ol).
     let p = deny NOT_I_DETERMINISTIC I_DETERMINISTIC (seen_label il (ilabel t)) p;
         p = deny NOT_O_DETERMINISTIC O_DETERMINISTIC (seen_label ol (olabel t)) p;
         p = deny NOT_ACCEPTOR ACCEPTOR (ilabel t \<noteq> olabel t) p;
         p = deny EPSILONS NO_EPSILONS (ilabel t = 0 \<and> olabel t = 0) p;
         p = deny I_EPSILONS NO_I_EPSILONS (ilabel t = 0) p;
         p = deny O_EPSILONS NO_O_EPSILONS (olabel t = 0) p;
         p = (case prev of None \<Rightarrow> p | Some u \<Rightarrow>
                deny NOT_O_LABEL_SORTED O_LABEL_SORTED (olabel t < olabel u)
                  (deny NOT_I_LABEL_SORTED I_LABEL_SORTED (ilabel t < ilabel u) p));
         weighted = (\<not> is_one W (weight t) \<and> \<not> is_zero W (weight t));
         p = deny WEIGHTED UNWEIGHTED weighted p
     in rbind
          (if weighted \<and> contains p UNWEIGHTED_CYCLES
           then rbind (vec_index sccs s) (\<lambda>a. rbind (vec_index sccs (nextstate t)) (\<lambda>b.
             Inr (deny WEIGHTED_CYCLES UNWEIGHTED_CYCLES (a = b) p)))
           else Inr p)
          (\<lambda>p.
            let p = deny NOT_TOP_SORTED TOP_SORTED (nextstate t \<le> s) p;
                p = deny NOT_STRING STRING (nextstate t \<noteq> s + 1) p
            in Inr (p, Some t, map_option (insert (ilabel t)) il, map_option (insert (olabel t)) ol)))"

definition compute_state ::
  "'w semiring \<Rightarrow> 'w vfst \<Rightarrow> bool \<Rightarrow> bool \<Rightarrow> int list \<Rightarrow> state_id \<Rightarrow> fst_props \<times> nat \<Rightarrow> (fst_props \<times> nat) res"
where
  "compute_state W F track_ilabels track_olabels sccs s = (\<lambda>(p, nfinal).
     rbind (get_trs F s) (\<lambda>ts.
     rbind (for_res (compute_tr W sccs s) ts
              (p, None, if track_ilabels then Some {} else None, if track_olabels then Some {} else None))
       (\<lambda>(p, _).
          let p = deny NOT_STRING STRING (nfinal > 0) p
          in rbind (final_weight_of F s) (\<lambda>f. case f of
               Some w \<Rightarrow> Inr (deny WEIGHTED UNWEIGHTED (\<not> is_one W w) p, nfinal + 1)
             | None \<Rightarrow> rbind (num_trs F s) (\<lambda>n. Inr (deny NOT_STRING STRING (n \<noteq> 1) p, nfinal))))))"

definition dfs_props :: fst_props where
  "dfs_props = ACYCLIC OR CYCLIC OR INITIAL_ACYCLIC OR INITIAL_CYCLIC OR ACCESSIBLE OR NOT_ACCESSIBLE OR
     COACCESSIBLE OR NOT_COACCESSIBLE"

definition initial_comp_props :: "fst_props \<Rightarrow> fst_props \<Rightarrow> fst_props" where
  "initial_comp_props req p =
     (let p = p OR (ACCEPTOR OR NO_EPSILONS OR NO_I_EPSILONS OR NO_O_EPSILONS OR I_LABEL_SORTED OR
                O_LABEL_SORTED OR UNWEIGHTED OR TOP_SORTED OR STRING);
          p = (if intersects req (I_DETERMINISTIC OR NOT_I_DETERMINISTIC) then p OR I_DETERMINISTIC else p);
          p = (if intersects req (O_DETERMINISTIC OR NOT_O_DETERMINISTIC) then p OR O_DETERMINISTIC else p);
          p = (if intersects req (WEIGHTED_CYCLES OR UNWEIGHTED_CYCLES OR dfs_props) then p OR UNWEIGHTED_CYCLES else p)
      in p)"

definition compute_fst_properties ::
  "'w semiring \<Rightarrow> 'w vfst \<Rightarrow> fst_props \<Rightarrow> bool \<Rightarrow> (fst_props \<times> fst_props) res"
where
  "compute_fst_properties W F req use_stored =
     (let props = properties F; known = known_properties props
      in if use_stored \<and> known AND req = req then Inr (props, known)
         else
           let comp = props AND binary_properties
           in rbind
                (if intersects req (dfs_props OR WEIGHTED_CYCLES OR UNWEIGHTED_CYCLES)
                 then rbind (dfs_visit F (scc_callbacks F) any_filter False (scc_visitor_new F True True)) (\<lambda>v.
                   Inr (comp OR (dfs_props AND sv_props v), the (sv_scc v)))
                 else Inr (comp, []))
                (\<lambda>(comp, sccs). rbind
                   (if intersects req (fp_not (binary_properties OR dfs_props))
                    then rbind (for_res (compute_state W F
                             (intersects req (I_DETERMINISTIC OR NOT_I_DETERMINISTIC))
                             (intersects req (O_DETERMINISTIC OR NOT_O_DETERMINISTIC)) sccs)
                           [0 ..< num_states F] (initial_comp_props req comp, 0))
                         (\<lambda>(comp, _). Inr (deny NOT_STRING STRING
                            (case start_state F of None \<Rightarrow> False | Some start \<Rightarrow> start \<noteq> 0) comp))
                    else Inr comp)
                   (\<lambda>comp. Inr (comp, known_properties comp))))"

definition compute_and_update_properties ::
  "'w semiring \<Rightarrow> 'w vfst \<Rightarrow> fst_props \<Rightarrow> ('w vfst \<times> fst_props) res"
where
  "compute_and_update_properties W F req =
     rbind (compute_fst_properties W F req True) (\<lambda>(test, known).
       Inr (set_properties_with_mask F test known, test AND req))"

definition compute_and_update_properties_all :: "'w semiring \<Rightarrow> 'w vfst \<Rightarrow> ('w vfst \<times> fst_props) res" where
  "compute_and_update_properties_all W F = compute_and_update_properties W F all_properties"

subsection \<open>Pairs of flags\<close>

text \<open>
  Of each pair the scan raises one flag, the alarm, and drops the other, the calm one. \<open>T\<close> says
  which pairs are tracked and \<open>R\<close> which alarms have been raised.
\<close>

definition existential :: "fprop \<Rightarrow> bool" where
  "existential q \<longleftrightarrow> q \<in> {Epsilons, IEpsilons, OEpsilons, Weighted, Cyclic, InitialCyclic, WeightedCycles}"

definition alarm_bit :: "fprop \<Rightarrow> nat" where
  "alarm_bit q = (if existential q then pos_bit q else Suc (pos_bit q))"

definition calm_bit :: "fprop \<Rightarrow> nat" where
  "calm_bit q = (if existential q then Suc (pos_bit q) else pos_bit q)"

definition flagged :: "(fprop \<Rightarrow> bool) \<Rightarrow> (fprop \<Rightarrow> bool) \<Rightarrow> fst_props \<Rightarrow> bool" where
  "flagged T R p \<longleftrightarrow> (\<forall>q. (bit p (alarm_bit q) \<longleftrightarrow> R q) \<and> (bit p (calm_bit q) \<longleftrightarrow> T q \<and> \<not> R q))"

lemma alarm_facts [simp]:
  "alarm_bit q = alarm_bit r \<longleftrightarrow> q = r" "calm_bit q = calm_bit r \<longleftrightarrow> q = r"
  "alarm_bit q \<noteq> calm_bit r" "calm_bit q \<noteq> alarm_bit r"
  "16 \<le> alarm_bit q" "16 \<le> calm_bit q" "alarm_bit q < 48" "calm_bit q < 48"
  using pos_bit_facts(1,2) [of q r] pos_bit_facts(1,2) [of r q] pos_bit_facts(3,4) [of q]
  by (auto simp: alarm_bit_def calm_bit_def)

lemma flagged_deny:
  assumes "flagged T R p" "\<And>n. bit neg n \<longleftrightarrow> n = alarm_bit q" "\<And>n. bit pos n \<longleftrightarrow> n = calm_bit q"
  shows "flagged T (\<lambda>r. R r \<or> r = q \<and> c) (deny neg pos c p)"
  using assms(1) unfolding flagged_def deny_def
  by (auto simp: bit_and_iff bit_or_iff assms(2,3))

lemma flagged_bits:
  "flagged T R p \<Longrightarrow> bit p (alarm_bit q) \<longleftrightarrow> R q" "flagged T R p \<Longrightarrow> bit p (calm_bit q) \<longleftrightarrow> T q \<and> \<not> R q"
  by (simp_all add: flagged_def)

lemma flagged_cong: "flagged T R p \<Longrightarrow> (\<And>q. R q \<longleftrightarrow> R' q) \<Longrightarrow> flagged T R' p"
  by (simp add: flagged_def)

lemma pair_bits [simp]:
  "alarm_bit Acceptor = 17" "calm_bit Acceptor = 16" "alarm_bit IDeterministic = 19" "calm_bit IDeterministic = 18"
  "alarm_bit ODeterministic = 21" "calm_bit ODeterministic = 20" "alarm_bit Epsilons = 22" "calm_bit Epsilons = 23"
  "alarm_bit IEpsilons = 24" "calm_bit IEpsilons = 25" "alarm_bit OEpsilons = 26" "calm_bit OEpsilons = 27"
  "alarm_bit ILabelSorted = 29" "calm_bit ILabelSorted = 28" "alarm_bit OLabelSorted = 31" "calm_bit OLabelSorted = 30"
  "alarm_bit Weighted = 32" "calm_bit Weighted = 33" "alarm_bit Cyclic = 34" "calm_bit Cyclic = 35"
  "alarm_bit InitialCyclic = 36" "calm_bit InitialCyclic = 37" "alarm_bit TopSorted = 39" "calm_bit TopSorted = 38"
  "alarm_bit Accessible = 41" "calm_bit Accessible = 40" "alarm_bit Coaccessible = 43" "calm_bit Coaccessible = 42"
  "alarm_bit StringFst = 45" "calm_bit StringFst = 44" "alarm_bit WeightedCycles = 46" "calm_bit WeightedCycles = 47"
  by (simp_all add: alarm_bit_def calm_bit_def existential_def)

lemma deny_flags:
  assumes "flagged T R p"
  shows "flagged T (\<lambda>r. R r \<or> r = Acceptor \<and> c) (deny NOT_ACCEPTOR ACCEPTOR c p)"
    "flagged T (\<lambda>r. R r \<or> r = IDeterministic \<and> c) (deny NOT_I_DETERMINISTIC I_DETERMINISTIC c p)"
    "flagged T (\<lambda>r. R r \<or> r = ODeterministic \<and> c) (deny NOT_O_DETERMINISTIC O_DETERMINISTIC c p)"
    "flagged T (\<lambda>r. R r \<or> r = Epsilons \<and> c) (deny EPSILONS NO_EPSILONS c p)"
    "flagged T (\<lambda>r. R r \<or> r = IEpsilons \<and> c) (deny I_EPSILONS NO_I_EPSILONS c p)"
    "flagged T (\<lambda>r. R r \<or> r = OEpsilons \<and> c) (deny O_EPSILONS NO_O_EPSILONS c p)"
    "flagged T (\<lambda>r. R r \<or> r = ILabelSorted \<and> c) (deny NOT_I_LABEL_SORTED I_LABEL_SORTED c p)"
    "flagged T (\<lambda>r. R r \<or> r = OLabelSorted \<and> c) (deny NOT_O_LABEL_SORTED O_LABEL_SORTED c p)"
    "flagged T (\<lambda>r. R r \<or> r = Weighted \<and> c) (deny WEIGHTED UNWEIGHTED c p)"
    "flagged T (\<lambda>r. R r \<or> r = WeightedCycles \<and> c) (deny WEIGHTED_CYCLES UNWEIGHTED_CYCLES c p)"
    "flagged T (\<lambda>r. R r \<or> r = TopSorted \<and> c) (deny NOT_TOP_SORTED TOP_SORTED c p)"
    "flagged T (\<lambda>r. R r \<or> r = StringFst \<and> c) (deny NOT_STRING STRING c p)"
  by (rule flagged_deny [OF assms]; simp add: flag_bits)+

subsection \<open>The scan of a state\<close>

text \<open>What the transition \<open>t\<close> of state \<open>s\<close> raises when \<open>ys\<close> are the transitions before it.\<close>

fun tr_alarm ::
  "'w semiring \<Rightarrow> (fprop \<Rightarrow> bool) \<Rightarrow> (state_id \<Rightarrow> state_id \<Rightarrow> bool) \<Rightarrow> state_id \<Rightarrow> 'w tr list \<Rightarrow> 'w tr \<Rightarrow> fprop \<Rightarrow> bool"
where
  "tr_alarm W T M s ys t Acceptor = (ilabel t \<noteq> olabel t)"
| "tr_alarm W T M s ys t IDeterministic = (T IDeterministic \<and> ilabel t \<in> ilabel ` set ys)"
| "tr_alarm W T M s ys t ODeterministic = (T ODeterministic \<and> olabel t \<in> olabel ` set ys)"
| "tr_alarm W T M s ys t Epsilons = (ilabel t = 0 \<and> olabel t = 0)"
| "tr_alarm W T M s ys t IEpsilons = (ilabel t = 0)"
| "tr_alarm W T M s ys t OEpsilons = (olabel t = 0)"
| "tr_alarm W T M s ys t ILabelSorted = (ys \<noteq> [] \<and> ilabel t < ilabel (last ys))"
| "tr_alarm W T M s ys t OLabelSorted = (ys \<noteq> [] \<and> olabel t < olabel (last ys))"
| "tr_alarm W T M s ys t Weighted = nontrivial W (weight t)"
| "tr_alarm W T M s ys t WeightedCycles = (T WeightedCycles \<and> nontrivial W (weight t) \<and> M s (nextstate t))"
| "tr_alarm W T M s ys t TopSorted = (nextstate t \<le> s)"
| "tr_alarm W T M s ys t StringFst = (nextstate t \<noteq> Suc s)"
| "tr_alarm W T M s ys t _ = False"

definition scanned ::
  "(fprop \<Rightarrow> bool) \<Rightarrow> (fprop \<Rightarrow> bool) \<Rightarrow> 'w tr list \<Rightarrow> 'w scan \<Rightarrow> bool"
where
  "scanned T R ys = (\<lambda>(p, prev, il, ol). flagged T R p \<and> prev = (if ys = [] then None else Some (last ys)) \<and>
     il = (if T IDeterministic then Some (ilabel ` set ys) else None) \<and>
     ol = (if T ODeterministic then Some (olabel ` set ys) else None))"

definition sccs_ok :: "(fprop \<Rightarrow> bool) \<Rightarrow> 'w vfst \<Rightarrow> int list \<Rightarrow> bool" where
  "sccs_ok T F sccs \<longleftrightarrow> (T WeightedCycles \<longrightarrow> length sccs = num_states F \<and>
     (\<forall>x < num_states F. \<forall>y < num_states F. sccs ! x = sccs ! y \<longleftrightarrow> mutual F x y))"

lemma compute_tr_scanned:
  assumes c: "scanned T R ys c" and s: "s < num_states F" "nextstate t < num_states F" and k: "sccs_ok T F sccs"
  shows "\<exists>c'. compute_tr W sccs s t c = Inr c' \<and> scanned T (\<lambda>q. R q \<or> tr_alarm W T (mutual F) s ys t q) (ys @ [t]) c'"
proof -
  obtain p prev il ol where c': "c = (p, prev, il, ol)" by (cases c)
  with c have p: "flagged T R p" and prev: "prev = (if ys = [] then None else Some (last ys))"
    and il: "il = (if T IDeterministic then Some (ilabel ` set ys) else None)"
    and ol: "ol = (if T ODeterministic then Some (olabel ` set ys) else None)" by (simp_all add: scanned_def)
  note a = deny_flags(2) [OF p, of "seen_label il (ilabel t)"]
  note a = deny_flags(3) [OF a, of "seen_label ol (olabel t)"]
  note a = deny_flags(1) [OF a, of "ilabel t \<noteq> olabel t"]
  note a = deny_flags(4) [OF a, of "ilabel t = 0 \<and> olabel t = 0"]
  note a = deny_flags(5) [OF a, of "ilabel t = 0"]
  note a = deny_flags(6) [OF a, of "olabel t = 0"]
  let ?a = "deny O_EPSILONS NO_O_EPSILONS (olabel t = 0) (deny I_EPSILONS NO_I_EPSILONS (ilabel t = 0)
    (deny EPSILONS NO_EPSILONS (ilabel t = 0 \<and> olabel t = 0) (deny NOT_ACCEPTOR ACCEPTOR (ilabel t \<noteq> olabel t)
    (deny NOT_O_DETERMINISTIC O_DETERMINISTIC (seen_label ol (olabel t))
    (deny NOT_I_DETERMINISTIC I_DETERMINISTIC (seen_label il (ilabel t)) p)))))"
  define b where "b = (case prev of None \<Rightarrow> ?a | Some u \<Rightarrow> deny NOT_O_LABEL_SORTED O_LABEL_SORTED (olabel t < olabel u)
      (deny NOT_I_LABEL_SORTED I_LABEL_SORTED (ilabel t < ilabel u) ?a))"
  define A where "A q \<longleftrightarrow> q \<in> {Acceptor, IDeterministic, ODeterministic, Epsilons, IEpsilons, OEpsilons, ILabelSorted,
    OLabelSorted} \<and> tr_alarm W T (mutual F) s ys t q" for q
  have b: "flagged T (\<lambda>q. R q \<or> A q) b"
  proof (cases "ys = []")
    case True
    with prev have "b = ?a" by (simp add: b_def)
    show ?thesis unfolding \<open>b = ?a\<close>
      by (rule flagged_cong [OF a], case_tac q) (simp_all add: A_def il ol seen_label_def True)
  next
    case False
    with prev have b: "b = deny NOT_O_LABEL_SORTED O_LABEL_SORTED (olabel t < olabel (last ys))
      (deny NOT_I_LABEL_SORTED I_LABEL_SORTED (ilabel t < ilabel (last ys)) ?a)" by (simp add: b_def)
    note a = deny_flags(7) [OF a, of "ilabel t < ilabel (last ys)"]
    note a = deny_flags(8) [OF a, of "olabel t < olabel (last ys)"]
    show ?thesis unfolding b
      by (rule flagged_cong [OF a], case_tac q) (simp_all add: A_def il ol seen_label_def False)
  qed
  let ?w = "\<not> is_one W (weight t) \<and> \<not> is_zero W (weight t)"
  define d where "d = deny WEIGHTED UNWEIGHTED ?w b"
  have d: "flagged T (\<lambda>q. (R q \<or> A q) \<or> q = Weighted \<and> ?w) d" unfolding d_def by (rule deny_flags(9) [OF b])
  have uc: "contains d UNWEIGHTED_CYCLES \<longleftrightarrow> T WeightedCycles \<and> \<not> R WeightedCycles"
    using flagged_bits(2) [OF d, of WeightedCycles] by (simp add: A_def)
  define B where "B q \<longleftrightarrow> A q \<or> q \<in> {Weighted, WeightedCycles} \<and> tr_alarm W T (mutual F) s ys t q" for q
  obtain e where e: "(if ?w \<and> contains d UNWEIGHTED_CYCLES then rbind (vec_index sccs s) (\<lambda>a.
      rbind (vec_index sccs (nextstate t)) (\<lambda>b. Inr (deny WEIGHTED_CYCLES UNWEIGHTED_CYCLES (a = b) d))) else Inr d) = Inr e"
    "flagged T (\<lambda>q. R q \<or> B q) e"
  proof (cases "?w \<and> contains d UNWEIGHTED_CYCLES")
    case True
    with uc k have l: "length sccs = num_states F" "sccs ! s = sccs ! nextstate t \<longleftrightarrow> mutual F s (nextstate t)"
      using s by (auto simp: sccs_ok_def)
    note d' = deny_flags(10) [OF d, of "sccs ! s = sccs ! nextstate t"]
    have "flagged T (\<lambda>q. R q \<or> B q) (deny WEIGHTED_CYCLES UNWEIGHTED_CYCLES (sccs ! s = sccs ! nextstate t) d)"
      by (rule flagged_cong [OF d']) (use True uc l in \<open>auto simp: A_def B_def nontrivial_def\<close>)
    with True l s show ?thesis by (intro that [of "deny WEIGHTED_CYCLES UNWEIGHTED_CYCLES (sccs ! s = sccs ! nextstate t) d"])
      (simp_all add: vec_index_def)
  next
    case False
    have "flagged T (\<lambda>q. R q \<or> B q) d"
      by (rule flagged_cong [OF d]) (use False uc in \<open>auto simp: A_def B_def nontrivial_def\<close>)
    with False show ?thesis by (intro that [of d]) auto
  qed
  note f = deny_flags(11) [OF e(2), of "nextstate t \<le> s"]
  note f = deny_flags(12) [OF f, of "nextstate t \<noteq> s + 1"]
  have f': "flagged T (\<lambda>q. R q \<or> tr_alarm W T (mutual F) s ys t q)
      (deny NOT_STRING STRING (nextstate t \<noteq> s + 1) (deny NOT_TOP_SORTED TOP_SORTED (nextstate t \<le> s) e))"
  proof (rule flagged_cong [OF f])
    fix q
    show "((R q \<or> B q) \<or> q = TopSorted \<and> nextstate t \<le> s) \<or> q = StringFst \<and> nextstate t \<noteq> s + 1 \<longleftrightarrow>
      R q \<or> tr_alarm W T (mutual F) s ys t q"
      by (cases q) (simp_all add: B_def A_def)
  qed
  have "compute_tr W sccs s t c = Inr (deny NOT_STRING STRING (nextstate t \<noteq> s + 1)
      (deny NOT_TOP_SORTED TOP_SORTED (nextstate t \<le> s) e), Some t, map_option (insert (ilabel t)) il, map_option (insert (olabel t)) ol)"
    using e(1) unfolding c' compute_tr_def Let_def split d_def [symmetric] b_def [symmetric]
    by simp
  with f' show ?thesis by (simp add: scanned_def il ol)
qed


definition list_alarm ::
  "'w semiring \<Rightarrow> (fprop \<Rightarrow> bool) \<Rightarrow> (state_id \<Rightarrow> state_id \<Rightarrow> bool) \<Rightarrow> state_id \<Rightarrow> 'w tr list \<Rightarrow> fprop \<Rightarrow> bool"
where
  "list_alarm W T M s ts q \<longleftrightarrow> (\<exists>ys t zs. ts = ys @ t # zs \<and> tr_alarm W T M s ys t q)"

lemma split_snoc: "(\<exists>ys t zs. xs @ [x] = ys @ t # zs \<and> P ys t) \<longleftrightarrow> (\<exists>ys t zs. xs = ys @ t # zs \<and> P ys t) \<or> P xs x"
proof
  assume "\<exists>ys t zs. xs @ [x] = ys @ t # zs \<and> P ys t"
  then obtain ys t zs where "xs @ [x] = ys @ t # zs" "P ys t" by blast
  then show "(\<exists>ys t zs. xs = ys @ t # zs \<and> P ys t) \<or> P xs x" by (cases zs rule: rev_cases) auto
qed (metis append_Cons append_assoc)

lemma list_alarm_snoc:
  "list_alarm W T M s (ts @ [t]) q \<longleftrightarrow> list_alarm W T M s ts q \<or> tr_alarm W T M s ts t q"
  unfolding list_alarm_def by (rule split_snoc)

lemma scan_trs:
  assumes c: "scanned T R [] c" and s: "s < num_states F" "\<forall>t \<in> set ts. nextstate t < num_states F"
    and k: "sccs_ok T F sccs"
  shows "\<exists>c'. for_res (compute_tr W sccs s) ts c = Inr c' \<and> scanned T (\<lambda>q. R q \<or> list_alarm W T (mutual F) s ts q) ts c'"
  using s(2)
proof (induction ts rule: rev_induct)
  case Nil
  then show ?case using c by (simp add: list_alarm_def)
next
  case (snoc t ts)
  then obtain c1 where c1: "for_res (compute_tr W sccs s) ts c = Inr c1"
      "scanned T (\<lambda>q. R q \<or> list_alarm W T (mutual F) s ts q) ts c1" by auto
  from compute_tr_scanned [OF c1(2) s(1) _ k, of t W] snoc.prems obtain c2 where
    "compute_tr W sccs s t c1 = Inr c2"
    "scanned T (\<lambda>q. (R q \<or> list_alarm W T (mutual F) s ts q) \<or> tr_alarm W T (mutual F) s ts t q) (ts @ [t]) c2" by auto
  with c1(1) show ?case by (simp add: for_res_append list_alarm_snoc disj_assoc)
qed

subsection \<open>The scan of all states\<close>

definition state_alarm :: "'w semiring \<Rightarrow> 'w vfst \<Rightarrow> (fprop \<Rightarrow> bool) \<Rightarrow> state_id \<Rightarrow> fprop \<Rightarrow> bool" where
  "state_alarm W F T s q \<longleftrightarrow>
     list_alarm W T (mutual F) s (trs (state_of F s)) q \<or>
     q = StringFst \<and> (\<exists>k < s. final_weight (state_of F k) \<noteq> None) \<or>
     q = Weighted \<and> (\<exists>w. final_weight (state_of F s) = Some w \<and> \<not> is_one W w) \<or>
     q = StringFst \<and> final_weight (state_of F s) = None \<and> length (trs (state_of F s)) \<noteq> 1"

definition count_finals :: "'w vfst \<Rightarrow> nat \<Rightarrow> nat" where
  "count_finals F s = length (filter (\<lambda>k. final_weight (state_of F k) \<noteq> None) [0 ..< s])"

lemma count_finals_simps:
  "count_finals F 0 = 0"
  "count_finals F (Suc s) = count_finals F s + (if final_weight (state_of F s) = None then 0 else 1)"
  "0 < count_finals F s \<longleftrightarrow> (\<exists>k < s. final_weight (state_of F k) \<noteq> None)"
  by (auto simp: count_finals_def filter_empty_conv)

lemma compute_state_flagged:
  assumes p: "flagged T R p" and s: "s < num_states F" and t: "targets_ok F" and k: "sccs_ok T F sccs"
  shows "\<exists>p'. compute_state W F (T IDeterministic) (T ODeterministic) sccs s (p, count_finals F s) =
      Inr (p', count_finals F (Suc s)) \<and> flagged T (\<lambda>q. R q \<or> state_alarm W F T s q) p'"
proof -
  let ?ts = "trs (state_of F s)" and ?f = "final_weight (state_of F s)"
  let ?c = "(p, None, if T IDeterministic then Some {} else None, if T ODeterministic then Some {} else None)"
  have c: "scanned T R [] ?c" using p by (simp add: scanned_def)
  have "\<forall>t \<in> set ?ts. nextstate t < num_states F" using targets_state [OF t s] by simp
  from scan_trs [OF c s this k, of W] obtain c' where
    c': "for_res (compute_tr W sccs s) ?ts ?c = Inr c'" "scanned T (\<lambda>q. R q \<or> list_alarm W T (mutual F) s ?ts q) ?ts c'"
    by blast
  obtain p1 r where r: "c' = (p1, r)" by (cases c')
  have l: "for_res (compute_tr W sccs s) ?ts ?c = Inr (p1, r)" using c'(1) r by simp
  have p1: "flagged T (\<lambda>q. R q \<or> list_alarm W T (mutual F) s ?ts q) p1"
    using c'(2) unfolding r by (simp add: scanned_def split: prod.splits)
  note p2 = deny_flags(12) [OF p1, of "count_finals F s > 0"]
  show ?thesis
  proof (cases ?f)
    case None
    note p3 = deny_flags(12) [OF p2, of "length ?ts \<noteq> 1"]
    have "flagged T (\<lambda>q. R q \<or> state_alarm W F T s q) (deny NOT_STRING STRING (length ?ts \<noteq> 1)
        (deny NOT_STRING STRING (count_finals F s > 0) p1))"
      by (rule flagged_cong [OF p3]) (auto simp: state_alarm_def None count_finals_simps)
    then show ?thesis using l s None
      by (simp add: compute_state_def get_trs_def final_weight_of_def num_trs_def count_finals_simps Let_def)
  next
    case (Some w)
    note p3 = deny_flags(9) [OF p2, of "\<not> is_one W w"]
    have "flagged T (\<lambda>q. R q \<or> state_alarm W F T s q) (deny WEIGHTED UNWEIGHTED (\<not> is_one W w)
        (deny NOT_STRING STRING (count_finals F s > 0) p1))"
      by (rule flagged_cong [OF p3]) (auto simp: state_alarm_def Some count_finals_simps)
    then show ?thesis using l s Some
      by (simp add: compute_state_def get_trs_def final_weight_of_def num_trs_def count_finals_simps Let_def)
  qed
qed

lemma compute_states_flagged:
  assumes p: "flagged T R p" and t: "targets_ok F" and k: "sccs_ok T F sccs" and n: "n \<le> num_states F"
  shows "\<exists>p'. for_res (compute_state W F (T IDeterministic) (T ODeterministic) sccs) [0 ..< n] (p, 0) =
      Inr (p', count_finals F n) \<and> flagged T (\<lambda>q. R q \<or> (\<exists>s < n. state_alarm W F T s q)) p'"
  using n
proof (induction n)
  case 0
  then show ?case using p by (simp add: count_finals_simps)
next
  case (Suc n)
  then obtain p1 where p1: "for_res (compute_state W F (T IDeterministic) (T ODeterministic) sccs) [0 ..< n] (p, 0) =
      Inr (p1, count_finals F n)" "flagged T (\<lambda>q. R q \<or> (\<exists>s < n. state_alarm W F T s q)) p1" by auto
  from compute_state_flagged [OF p1(2) _ t k, of n W] Suc.prems obtain p2 where p2:
    "compute_state W F (T IDeterministic) (T ODeterministic) sccs n (p1, count_finals F n) = Inr (p2, count_finals F (Suc n))"
    "flagged T (\<lambda>q. (R q \<or> (\<exists>s < n. state_alarm W F T s q)) \<or> state_alarm W F T n q) p2" by auto
  have "flagged T (\<lambda>q. R q \<or> (\<exists>s < Suc n. state_alarm W F T s q)) p2"
    by (rule flagged_cong [OF p2(2)]) (auto simp: less_Suc_eq)
  with p1(1) p2(1) show ?case by (simp add: for_res_append)
qed

subsection \<open>What the alarms mean\<close>

lemma list_alarm_Nil [simp]: "\<not> list_alarm W T M s [] q"
  by (simp add: list_alarm_def)

lemma list_alarm_simps:
  "list_alarm W T M s ts Acceptor \<longleftrightarrow> (\<exists>t \<in> set ts. ilabel t \<noteq> olabel t)"
  "list_alarm W T M s ts Epsilons \<longleftrightarrow> (\<exists>t \<in> set ts. ilabel t = 0 \<and> olabel t = 0)"
  "list_alarm W T M s ts IEpsilons \<longleftrightarrow> (\<exists>t \<in> set ts. ilabel t = 0)"
  "list_alarm W T M s ts OEpsilons \<longleftrightarrow> (\<exists>t \<in> set ts. olabel t = 0)"
  "list_alarm W T M s ts Weighted \<longleftrightarrow> (\<exists>t \<in> set ts. nontrivial W (weight t))"
  "list_alarm W T M s ts WeightedCycles \<longleftrightarrow> T WeightedCycles \<and> (\<exists>t \<in> set ts. nontrivial W (weight t) \<and> M s (nextstate t))"
  "list_alarm W T M s ts TopSorted \<longleftrightarrow> (\<exists>t \<in> set ts. nextstate t \<le> s)"
  "list_alarm W T M s ts StringFst \<longleftrightarrow> (\<exists>t \<in> set ts. nextstate t \<noteq> Suc s)"
  by ((induction ts rule: rev_induct, simp, force simp: list_alarm_snoc)[1])+

lemma list_alarm_distinct:
  "list_alarm W T M s ts IDeterministic \<longleftrightarrow> T IDeterministic \<and> \<not> distinct (map ilabel ts)"
  "list_alarm W T M s ts ODeterministic \<longleftrightarrow> T ODeterministic \<and> \<not> distinct (map olabel ts)"
  by ((induction ts rule: rev_induct, simp, force simp: list_alarm_snoc)[1])+

lemma sorted_snoc_last: "sorted (map f (ts @ [t])) \<longleftrightarrow> sorted (map f ts) \<and> (ts = [] \<or> f (last ts) \<le> f t)"
  for f :: "'a \<Rightarrow> 'b :: linorder"
proof (cases ts rule: rev_cases)
  case (snoc us u)
  then show ?thesis by (auto simp: sorted_append)
qed simp

lemma list_alarm_sorted:
  "list_alarm W T M s ts ILabelSorted \<longleftrightarrow> \<not> sorted (map ilabel ts)"
  "list_alarm W T M s ts OLabelSorted \<longleftrightarrow> \<not> sorted (map olabel ts)"
  by ((induction ts rule: rev_induct, simp, unfold list_alarm_snoc sorted_snoc_last, force)[1])+

definition finals_nonzero :: "'w semiring \<Rightarrow> 'w vfst \<Rightarrow> bool" where
  "finals_nonzero W F \<longleftrightarrow> (\<forall>s < num_states F. \<forall>w. final_weight (state_of F s) = Some w \<longrightarrow> \<not> is_zero W w)"

definition raised :: "'w semiring \<Rightarrow> 'w vfst \<Rightarrow> (fprop \<Rightarrow> bool) \<Rightarrow> fprop \<Rightarrow> bool" where
  "raised W F T q \<longleftrightarrow> (\<exists>s < num_states F. state_alarm W F T s q) \<or> q = StringFst \<and> start_state F \<noteq> Some 0"

definition visit_prop :: "fprop \<Rightarrow> bool" where
  "visit_prop q \<longleftrightarrow> q \<in> {Cyclic, InitialCyclic, Accessible, Coaccessible}"

lemma raised_string:
  assumes t: "targets_ok F" and i: "start_state F = Some i"
  shows "raised W F T StringFst \<longleftrightarrow> \<not> sem W F StringFst"
proof -
  let ?n = "num_states F" and ?ts = "\<lambda>s. trs (state_of F s)" and ?f = "\<lambda>s. final_weight (state_of F s)"
  have n: "0 < ?n" using t i by (auto simp: targets_ok_def)
  have r: "\<not> raised W F T StringFst \<longleftrightarrow> i = 0 \<and> (\<forall>s < ?n. (\<forall>u \<in> set (?ts s). nextstate u = Suc s) \<and>
      (\<forall>k < s. ?f k = None) \<and> (?f s = None \<longrightarrow> length (?ts s) = 1))"
    using i by (auto simp: raised_def state_alarm_def list_alarm_simps)
  also have "\<dots> \<longleftrightarrow> i = 0 \<and> (\<forall>s < ?n. string_state F s)"
  proof (intro conj_cong refl iffI allI impI)
    fix s
    assume a: "\<forall>s < ?n. (\<forall>u \<in> set (?ts s). nextstate u = Suc s) \<and> (\<forall>k < s. ?f k = None) \<and>
        (?f s = None \<longrightarrow> length (?ts s) = 1)" and s: "s < ?n"
    have u: "\<forall>u \<in> set (?ts s). nextstate u = Suc s" "?f s = None \<longrightarrow> length (?ts s) = 1" using a s by auto
    show "string_state F s"
    proof (cases "Suc s = ?n")
      case True
      have "?ts s = []"
      proof (rule ccontr)
        assume "?ts s \<noteq> []"
        then have h: "hd (?ts s) \<in> set (?ts s)" by simp
        have "nextstate (hd (?ts s)) = ?n" "nextstate (hd (?ts s)) < ?n"
          using u(1) True targets_state [OF t s h] h by auto
        then show False by simp
      qed
      with u(2) True s show ?thesis by (auto simp: string_state_def is_final_state_def)
    next
      case False
      with s a have "?f s = None" by (metis Suc_lessI lessI)
      with u have "map nextstate (?ts s) = [Suc s]" by (auto simp: length_Suc_conv)
      with False \<open>?f s = None\<close> show ?thesis by (simp add: string_state_def is_final_state_def)
    qed
  next
    fix s
    assume a: "\<forall>s < ?n. string_state F s" and s: "s < ?n"
    have "?f k = None" if "k < s" for k
    proof -
      have "string_state F k" "Suc k \<noteq> ?n" "k < ?n" using a that s by auto
      then show ?thesis by (simp add: string_state_def is_final_state_def)
    qed
    moreover have "(\<forall>u \<in> set (?ts s). nextstate u = Suc s) \<and> (?f s = None \<longrightarrow> length (?ts s) = 1)"
    proof -
      have "string_state F s" using a s by simp
      then show ?thesis using s by (auto simp: string_state_def is_final_state_def map_eq_Cons_conv split: if_splits)
    qed
    ultimately show "(\<forall>u \<in> set (?ts s). nextstate u = Suc s) \<and> (\<forall>k < s. ?f k = None) \<and>
        (?f s = None \<longrightarrow> length (?ts s) = 1)" by blast
  qed
  finally show ?thesis using n i by auto
qed

lemma raised_sem:
  assumes t: "targets_ok F" and i: "start_state F = Some i" and z: "finals_nonzero W F"
    and q: "\<not> visit_prop q" "T q"
  shows "raised W F T q \<longleftrightarrow> (existential q \<longleftrightarrow> sem W F q)"
proof -
  have e: "(s, nextstate u) \<in> edges F" if "s < num_states F" "u \<in> set (trs (state_of F s))" for s u
    using that by (auto simp: edges_def arcs_def)
  have m: "mutual F s (nextstate u) \<longleftrightarrow> (nextstate u, s) \<in> (edges F)\<^sup>*"
    if "s < num_states F" "u \<in> set (trs (state_of F s))" for s u
    using e [OF that] by (auto simp: mutual_def)
  have nz: "nontrivial W w \<longleftrightarrow> \<not> is_one W w" if "s < num_states F" "final_weight (state_of F s) = Some w" for s w
    using z that by (auto simp: finals_nonzero_def nontrivial_def)
  have top: "sem W F TopSorted \<longleftrightarrow> (\<forall>s < num_states F. \<forall>u \<in> set (trs (state_of F s)). s < nextstate u)"
    by (auto simp: edges_def arcs_def)
  show ?thesis
  proof (cases "q = StringFst")
    case True
    with raised_string [OF t i, of W T] show ?thesis by (simp add: existential_def)
  next
    case False
    then have r: "raised W F T q \<longleftrightarrow> (\<exists>s < num_states F. list_alarm W T (mutual F) s (trs (state_of F s)) q \<or>
        q = Weighted \<and> (\<exists>w. final_weight (state_of F s) = Some w \<and> nontrivial W w))"
      using nz by (auto simp: raised_def state_alarm_def)
    note simps = existential_def visit_prop_def list_alarm_simps list_alarm_distinct list_alarm_sorted ex_arc EPS_LABEL_def
    have wc: "(\<exists>s < num_states F. \<exists>u \<in> set (trs (state_of F s)). nontrivial W (weight u) \<and> mutual F s (nextstate u)) \<longleftrightarrow>
        (\<exists>s < num_states F. \<exists>u \<in> set (trs (state_of F s)). nontrivial W (weight u) \<and> (nextstate u, s) \<in> (edges F)\<^sup>*)"
      using m by meson
    have acc: "sem W F Acceptor \<longleftrightarrow> (\<forall>s < num_states F. \<forall>u \<in> set (trs (state_of F s)). ilabel u = olabel u)"
      by (auto simp: arcs_def)
    consider "q = Acceptor" | "q = Weighted" | "q = TopSorted" | "q = WeightedCycles" | "q \<notin> {Acceptor, Weighted, TopSorted, WeightedCycles}" by blast
    then show ?thesis
    proof cases
      case 1
      then show ?thesis unfolding r by (simp add: simps acc del: sem.simps(1))
    next
      case 2
      then show ?thesis unfolding r by (simp add: simps) blast
    next
      case 3
      then show ?thesis unfolding r by (simp add: simps top not_less del: sem.simps(12))
    next
      case 4
      then show ?thesis unfolding r using q(2) wc by (simp add: simps)
    next
      case 5
      then show ?thesis unfolding r using False q by (cases q) (simp_all add: simps)
    qed
  qed
qed

subsection \<open>The result\<close>

text \<open>Which pairs the mask asks for.\<close>

definition wants_visit :: "fst_props \<Rightarrow> bool" where
  "wants_visit req \<longleftrightarrow> intersects req (dfs_props OR WEIGHTED_CYCLES OR UNWEIGHTED_CYCLES)"

definition wants_scan :: "fst_props \<Rightarrow> bool" where
  "wants_scan req \<longleftrightarrow> intersects req (fp_not (binary_properties OR dfs_props))"

definition tracked :: "fst_props \<Rightarrow> fprop \<Rightarrow> bool" where
  "tracked req q \<longleftrightarrow>
     (if visit_prop q then wants_visit req
      else wants_scan req \<and> (case q of
          IDeterministic \<Rightarrow> intersects req (I_DETERMINISTIC OR NOT_I_DETERMINISTIC)
        | ODeterministic \<Rightarrow> intersects req (O_DETERMINISTIC OR NOT_O_DETERMINISTIC)
        | WeightedCycles \<Rightarrow> wants_visit req
        | _ \<Rightarrow> True))"

lemma intersects_bit: "intersects p f \<longleftrightarrow> (\<exists>n. bit p n \<and> bit f n)"
proof -
  have "intersects p f \<longleftrightarrow> (\<exists>n < 64. bit p n \<and> bit f n)"
    by (auto simp: intersects_def bit_eq_iff bit_and_iff)
  also have "\<dots> \<longleftrightarrow> (\<exists>n. bit p n \<and> bit f n)" using bit_imp_le_length [of p] by auto
  finally show ?thesis .
qed

lemma dfs_props_bit: "bit dfs_props n \<longleftrightarrow> n \<in> {34, 35, 36, 37, 40, 41, 42, 43}"
  by (auto simp: dfs_props_def bit_or_iff flag_bits)

lemma requested_tracked:
  assumes "bit req (pos_bit q) \<or> bit req (Suc (pos_bit q))"
  shows "tracked req q"
proof -
  have b: "binary_properties = 0" by (simp add: binary_properties_def from_bits_truncate_def fp_declared_def)
  obtain n where n: "bit req n" "n = pos_bit q \<or> n = Suc (pos_bit q)" using assms by blast
  have visit: "wants_visit req" if "n \<in> {34, 35, 36, 37, 40, 41, 42, 43, 46, 47}"
    unfolding wants_visit_def intersects_bit bit_or_iff
    by (rule exI [of _ n]) (use that n(1) in \<open>auto simp: dfs_props_bit flag_bits\<close>)
  have scan: "wants_scan req" if "16 \<le> n" "n < 48" "\<not> bit dfs_props n"
    unfolding wants_scan_def intersects_bit
    by (rule exI [of _ n]) (use that n(1) b in simp)
  have det: "intersects req (I_DETERMINISTIC OR NOT_I_DETERMINISTIC)" if "n \<in> {18, 19}"
    unfolding intersects_bit by (rule exI [of _ n]) (use that n(1) in \<open>auto simp: flag_bits bit_or_iff\<close>)
  have odet: "intersects req (O_DETERMINISTIC OR NOT_O_DETERMINISTIC)" if "n \<in> {20, 21}"
    unfolding intersects_bit by (rule exI [of _ n]) (use that n(1) in \<open>auto simp: flag_bits bit_or_iff\<close>)
  show ?thesis
    using n(2) visit scan det odet unfolding dfs_props_bit
    by (cases q) (auto simp: tracked_def visit_prop_def)
qed

lemma initial_comp_bits:
  "bit (initial_comp_props req p) n \<longleftrightarrow> bit p n \<or> n \<in> {16, 23, 25, 27, 28, 30, 33, 38, 44} \<or>
     n = 18 \<and> intersects req (I_DETERMINISTIC OR NOT_I_DETERMINISTIC) \<or>
     n = 20 \<and> intersects req (O_DETERMINISTIC OR NOT_O_DETERMINISTIC) \<or>
     n = 47 \<and> intersects req (WEIGHTED_CYCLES OR UNWEIGHTED_CYCLES OR dfs_props)"
  by (auto simp: initial_comp_props_def Let_def bit_or_iff flag_bits)

definition visit_alarm :: "'w semiring \<Rightarrow> 'w vfst \<Rightarrow> fst_props \<Rightarrow> fprop \<Rightarrow> bool" where
  "visit_alarm W F req q \<longleftrightarrow> visit_prop q \<and> wants_visit req \<and> (existential q \<longleftrightarrow> sem W F q)"

lemma initial_flagged:
  assumes f: "flagged (\<lambda>q. visit_prop q \<and> wants_visit req) (visit_alarm W F req) p" and s: "wants_scan req"
  shows "flagged (tracked req) (visit_alarm W F req) (initial_comp_props req p)"
  unfolding flagged_def
proof
  fix q
  have o: "wants_visit req \<longleftrightarrow> intersects req (WEIGHTED_CYCLES OR UNWEIGHTED_CYCLES OR dfs_props)"
    unfolding wants_visit_def intersects_bit bit_or_iff by blast
  from f have "bit p (alarm_bit q) \<longleftrightarrow> visit_alarm W F req q"
    "bit p (calm_bit q) \<longleftrightarrow> (visit_prop q \<and> wants_visit req) \<and> \<not> visit_alarm W F req q"
    by (rule flagged_bits)+
  then show "(bit (initial_comp_props req p) (alarm_bit q) \<longleftrightarrow> visit_alarm W F req q) \<and>
    (bit (initial_comp_props req p) (calm_bit q) \<longleftrightarrow> tracked req q \<and> \<not> visit_alarm W F req q)"
    using s unfolding initial_comp_bits o [symmetric]
    by (cases q) (simp_all add: tracked_def visit_alarm_def visit_prop_def)
qed

lemma visit_flagged:
  assumes t: "targets_ok F" and n: "num_states F < 2 ^ 31" and i: "start_state F = Some i"
  obtains p sccs where
    "(if intersects req (dfs_props OR WEIGHTED_CYCLES OR UNWEIGHTED_CYCLES)
      then rbind (dfs_visit F (scc_callbacks F) any_filter False (scc_visitor_new F True True)) (\<lambda>v.
        Inr ((c AND binary_properties) OR (dfs_props AND sv_props v), the (sv_scc v)))
      else Inr (c AND binary_properties, [])) = Inr (p, sccs)"
    "flagged (\<lambda>q. visit_prop q \<and> wants_visit req) (visit_alarm W F req) p" "sccs_ok (tracked req) F sccs"
proof (cases "wants_visit req")
  case True
  have b: "binary_properties = 0" by (simp add: binary_properties_def from_bits_truncate_def fp_declared_def)
  from scc_visit [OF t n i, of True True] obtain v where
    v: "dfs_visit F (scc_callbacks F) any_filter False (scc_visitor_new F True True) = Inr v" "sv_start v = i" "scc_report F v"
    by blast
  obtain c where c: "sv_scc v = Some c" using scc_visit_keeps_sccs [OF v(1)] by blast
  have "flagged (\<lambda>q. visit_prop q \<and> wants_visit req) (visit_alarm W F req) (dfs_props AND sv_props v)"
    unfolding flagged_def
  proof
    fix q
    show "(bit (dfs_props AND sv_props v) (alarm_bit q) \<longleftrightarrow> visit_alarm W F req q) \<and>
      (bit (dfs_props AND sv_props v) (calm_bit q) \<longleftrightarrow> (visit_prop q \<and> wants_visit req) \<and> \<not> visit_alarm W F req q)"
      unfolding bit_and_iff dfs_props_bit
      using v(2,3) i True unfolding scc_report_def
      by (cases q) (simp_all add: visit_alarm_def visit_prop_def existential_def)
  qed
  moreover have "sccs_ok (tracked req) F c" using v(3) c by (auto simp: sccs_ok_def scc_report_def)
  ultimately show ?thesis
    using True v(1) c by (intro that [of "dfs_props AND sv_props v" c]) (simp_all add: wants_visit_def b)
next
  case False
  have b: "binary_properties = 0" by (simp add: binary_properties_def from_bits_truncate_def fp_declared_def)
  have "flagged (\<lambda>q. visit_prop q \<and> wants_visit req) (visit_alarm W F req) 0"
    using False by (simp add: flagged_def visit_alarm_def)
  moreover have "sccs_ok (tracked req) F []" using False by (simp add: sccs_ok_def tracked_def visit_prop_def)
  ultimately show ?thesis using False by (intro that [of 0 "[]"]) (simp_all add: wants_visit_def b)
qed

lemma compute_flagged:
  assumes t: "targets_ok F" and n: "num_states F < 2 ^ 31" and i: "start_state F = Some i" and z: "finals_nonzero W F"
    and s: "\<not> (use_stored \<and> known_properties (properties F) AND req = req)"
  shows "\<exists>p R. compute_fst_properties W F req use_stored = Inr (p, known_properties p) \<and> flagged (tracked req) R p \<and>
    (\<forall>q. R q \<longleftrightarrow> tracked req q \<and> (existential q \<longleftrightarrow> sem W F q))"
proof -
  from visit_flagged [OF t n i, where req = req and c = "properties F" and W = W] obtain p sccs where
    v: "(if intersects req (dfs_props OR WEIGHTED_CYCLES OR UNWEIGHTED_CYCLES)
      then rbind (dfs_visit F (scc_callbacks F) any_filter False (scc_visitor_new F True True)) (\<lambda>v.
        Inr ((properties F AND binary_properties) OR (dfs_props AND sv_props v), the (sv_scc v)))
      else Inr (properties F AND binary_properties, [])) = Inr (p, sccs)"
    and p: "flagged (\<lambda>q. visit_prop q \<and> wants_visit req) (visit_alarm W F req) p"
    and k: "sccs_ok (tracked req) F sccs" .
  let ?R = "\<lambda>q. tracked req q \<and> (existential q \<longleftrightarrow> sem W F q)"
  show ?thesis
  proof (cases "wants_scan req")
    case False
    then have T: "tracked req q \<longleftrightarrow> visit_prop q \<and> wants_visit req" for q by (simp add: tracked_def)
    have "flagged (tracked req) ?R p"
      using p unfolding flagged_def by (auto simp: T visit_alarm_def)
    moreover have "compute_fst_properties W F req use_stored = Inr (p, known_properties p)"
      using s False v by (auto simp: compute_fst_properties_def wants_scan_def Let_def)
    ultimately show ?thesis by blast
  next
    case True
    have T: "tracked req IDeterministic \<longleftrightarrow> intersects req (I_DETERMINISTIC OR NOT_I_DETERMINISTIC)"
      "tracked req ODeterministic \<longleftrightarrow> intersects req (O_DETERMINISTIC OR NOT_O_DETERMINISTIC)"
      using True by (simp_all add: tracked_def visit_prop_def)
    from compute_states_flagged [OF initial_flagged [OF p True] t k order_refl] obtain p1 where
      l: "for_res (compute_state W F (tracked req IDeterministic) (tracked req ODeterministic) sccs)
        [0 ..< num_states F] (initial_comp_props req p, 0) = Inr (p1, count_finals F (num_states F))"
      and p1: "flagged (tracked req) (\<lambda>q. visit_alarm W F req q \<or> (\<exists>s < num_states F. state_alarm W F (tracked req) s q)) p1"
      by blast
    let ?p = "deny NOT_STRING STRING (case start_state F of None \<Rightarrow> False | Some start \<Rightarrow> start \<noteq> 0) p1"
    have "flagged (tracked req) ?R ?p"
    proof (rule flagged_cong [OF deny_flags(12) [OF p1]])
      fix q
      have "(\<exists>s < num_states F. state_alarm W F (tracked req) s q) \<or>
          q = StringFst \<and> (case start_state F of None \<Rightarrow> False | Some start \<Rightarrow> start \<noteq> 0) \<longleftrightarrow> raised W F (tracked req) q"
        using i by (simp add: raised_def)
      moreover have "raised W F (tracked req) q \<longleftrightarrow> (existential q \<longleftrightarrow> sem W F q)" if "tracked req q" "\<not> visit_prop q"
        by (rule raised_sem [where T = "tracked req", OF t i z that(2,1)])
      moreover have "\<not> raised W F (tracked req) q" if "\<not> tracked req q"
        using that True by (cases q) (auto simp: raised_def state_alarm_def tracked_def visit_prop_def list_alarm_def)
      moreover have "\<not> raised W F (tracked req) q" if "visit_prop q"
        using that by (cases q) (auto simp: raised_def state_alarm_def visit_prop_def list_alarm_def)
      ultimately show "(visit_alarm W F req q \<or> (\<exists>s < num_states F. state_alarm W F (tracked req) s q)) \<or>
          q = StringFst \<and> (case start_state F of None \<Rightarrow> False | Some start \<Rightarrow> start \<noteq> 0) \<longleftrightarrow>
          tracked req q \<and> (existential q \<longleftrightarrow> sem W F q)"
        by (cases "visit_prop q") (auto simp: visit_alarm_def tracked_def)
    qed
    moreover have "compute_fst_properties W F req use_stored = Inr (?p, known_properties ?p)"
      using s True v l unfolding T by (auto simp: compute_fst_properties_def wants_scan_def Let_def)
    ultimately show ?thesis by blast
  qed
qed

text \<open>The bits returned are sound, and exact for every pair asked for.\<close>

definition bits_exact :: "'w semiring \<Rightarrow> 'w vfst \<Rightarrow> fst_props \<Rightarrow> fst_props \<Rightarrow> bool" where
  "bits_exact W F req p \<longleftrightarrow> (\<forall>q. bit req (pos_bit q) \<or> bit req (Suc (pos_bit q)) \<longrightarrow>
     (bit p (pos_bit q) \<longleftrightarrow> sem W F q) \<and> (bit p (Suc (pos_bit q)) \<longleftrightarrow> \<not> sem W F q))"

lemma compute_fst_properties_spec:
  assumes F: "fst_ok W F" and n: "num_states F < 2 ^ 31" and i: "start_state F = Some i" and z: "finals_nonzero W F"
  shows "\<exists>p. compute_fst_properties W F req use_stored = Inr (p, known_properties p) \<and> bits_sound W F p \<and> bits_exact W F req p"
proof (cases "use_stored \<and> known_properties (properties F) AND req = req")
  case True
  have b: "bits_sound W F (properties F)" using fst_okD(1) [OF F] by (simp add: props_sound_def)
  have "bits_exact W F req (properties F)"
    unfolding bits_exact_def
  proof (intro allI impI)
    fix q
    assume "bit req (pos_bit q) \<or> bit req (Suc (pos_bit q))"
    with True have "bit (known_properties (properties F)) (pos_bit q) \<or> bit (known_properties (properties F)) (Suc (pos_bit q))"
      by (metis bit_and_iff)
    then have "bit (properties F) (pos_bit q) \<or> bit (properties F) (Suc (pos_bit q))" unfolding known_bits by blast
    with b show "(bit (properties F) (pos_bit q) \<longleftrightarrow> sem W F q) \<and> (bit (properties F) (Suc (pos_bit q)) \<longleftrightarrow> \<not> sem W F q)"
      by (auto simp: bits_sound_def)
  qed
  moreover have "compute_fst_properties W F req use_stored = Inr (properties F, known_properties (properties F))"
    unfolding compute_fst_properties_def Let_def by (rule if_P [OF True])
  ultimately show ?thesis using b by blast
next
  case False
  from compute_flagged [OF fst_okD(3) [OF F] n i z False] obtain p R where
    p: "compute_fst_properties W F req use_stored = Inr (p, known_properties p)" "flagged (tracked req) R p"
    and R: "\<forall>q. R q \<longleftrightarrow> tracked req q \<and> (existential q \<longleftrightarrow> sem W F q)" by blast
  have bits: "bit p (pos_bit q) \<longleftrightarrow> tracked req q \<and> sem W F q" "bit p (Suc (pos_bit q)) \<longleftrightarrow> tracked req q \<and> \<not> sem W F q" for q
    using flagged_bits [OF p(2), of q] R by (auto simp: alarm_bit_def calm_bit_def split: if_splits)
  have "bits_sound W F p" by (simp add: bits_sound_def bits)
  moreover have "bits_exact W F req p" by (simp add: bits_exact_def bits requested_tracked)
  ultimately show ?thesis using p(1) by blast
qed

lemma compute_and_update_properties_spec:
  assumes "fst_ok W F" "num_states F < 2 ^ 31" "start_state F = Some i" "finals_nonzero W F"
  shows "\<exists>G p. compute_and_update_properties W F req = Inr (G, p AND req) \<and> fst_ok W G \<and> bits_exact W F req p \<and>
    G = F\<lparr>properties := properties G\<rparr>"
proof -
  from compute_fst_properties_spec [OF assms, of req True] obtain p where
    p: "compute_fst_properties W F req True = Inr (p, known_properties p)" "bits_sound W F p" "bits_exact W F req p" by blast
  let ?G = "set_properties_with_mask F p (known_properties p)"
  have "bits_sound W F ((properties F AND fp_not (known_properties p)) OR (p AND known_properties p))"
    using p(2) fst_okD(1) [OF assms(1)] by (intro bits_sound_or bits_sound_and) (simp_all add: props_sound_def)
  then have "fst_ok W ?G"
    using assms(1) by (simp add: fst_ok_def props_sound_def set_properties_with_mask_def)
  moreover have "?G = F\<lparr>properties := properties ?G\<rparr>" by (simp add: set_properties_with_mask_def)
  ultimately show ?thesis using p(1,3) by (auto simp: compute_and_update_properties_def)
qed

text \<open>
  Without a start state the visit does not run and its initial flags are returned: every state is
  reported accessible.
\<close>

lemma accessible_without_start:
  assumes "start_state F = None"
  shows "\<exists>p. compute_fst_properties W F ACCESSIBLE False = Inr (p, known_properties p) \<and> bit p (pos_bit Accessible)"
proof -
  let ?v = "sv_finish_visit (scc_visitor_new F True True)"
  have v: "wants_visit ACCESSIBLE" and s: "\<not> wants_scan ACCESSIBLE"
    by (simp_all add: wants_visit_def wants_scan_def intersects_bit bit_or_iff flag_bits dfs_props_bit)
  have "dfs_visit F (scc_callbacks F) any_filter False (scc_visitor_new F True True) = Inr ?v"
    using assms by (simp add: dfs_visit_def scc_callbacks_def)
  moreover have "bit (sv_props ?v) 40"
    by (simp add: sv_finish_visit_def scc_visitor_new_def scc_core.defs bit_and_iff bit_or_iff flag_bits)
  ultimately show ?thesis
    using v s by (simp add: compute_fst_properties_def wants_visit_def wants_scan_def Let_def bit_or_iff bit_and_iff dfs_props_bit)
qed

end
