(* ===== verification/Built_Fst.thy ===== *)
theory Built_Fst
  imports Relabel_Tables Compute_Properties
begin

text \<open>
  The public mutations of \<open>VectorFst\<close> as a step relation, and what holds of every transducer they can build:
  sound property bits, exact epsilon counters and a start state in range.
\<close>

subsection \<open>One change through \<open>TrsIterMut\<close>\<close>

text \<open>The setters of \<open>TrsIterMut\<close>, as a value, and the transition they write.\<close>

datatype 'w tr_change =
  ChangeIlabel label | ChangeOlabel label | ChangeLabels label label | ChangeWeight 'w
| ChangeNextstate state_id | ChangeTr "'w tr"

fun apply_change :: "'w semiring \<Rightarrow> 'w tr_change \<Rightarrow> 'w trs_iter \<Rightarrow> nat \<Rightarrow> 'w trs_iter" where
  "apply_change W (ChangeIlabel l) it i = set_ilabel_unchecked it i l"
| "apply_change W (ChangeOlabel l) it i = set_olabel_unchecked it i l"
| "apply_change W (ChangeLabels il ol) it i = set_labels_unchecked it i il ol"
| "apply_change W (ChangeWeight w) it i = set_weight_unchecked W it i w"
| "apply_change W (ChangeNextstate s) it i = set_nextstate_unchecked it i s"
| "apply_change W (ChangeTr t) it i = set_tr_unchecked W it i t"

fun changed_tr :: "'w tr_change \<Rightarrow> 'w tr \<Rightarrow> 'w tr" where
  "changed_tr (ChangeIlabel l) t = t\<lparr>ilabel := l\<rparr>"
| "changed_tr (ChangeOlabel l) t = t\<lparr>olabel := l\<rparr>"
| "changed_tr (ChangeLabels il ol) t = t\<lparr>ilabel := il, olabel := ol\<rparr>"
| "changed_tr (ChangeWeight w) t = t\<lparr>weight := w\<rparr>"
| "changed_tr (ChangeNextstate s) t = t\<lparr>nextstate := s\<rparr>"
| "changed_tr (ChangeTr u) t = u"

lemma apply_change_ok:
  assumes "s < num_states F" "i < length (trs (state_of F s))"
  shows "iter_step_ok W F s i (changed_tr c (trs (state_of F s) ! i))
    (apply_change W c (tr_iter_unchecked_mut F s) i)"
  by (cases c) (simp_all add: set_ilabel_ok set_olabel_ok set_labels_ok set_weight_ok set_nextstate_ok
      set_tr_ok assms)

subsection \<open>The steps\<close>

text \<open>
  A caller may pass any state, label, weight and target: an operation that checks its arguments steps only
  when it succeeds, and nothing checks a target. The two unsafe operations have their contracts as
  premises: \<open>del_trs_id_sorted_unchecked\<close> wants sorted ids in range, \<open>set_trs_unchecked\<close> a state without
  transitions. Recomputing the bits is right for a transducer with targets in range, a start state and no
  zero final weight.
\<close>

inductive fst_step :: "'w semiring \<Rightarrow> 'w vfst \<Rightarrow> 'w vfst \<Rightarrow> bool" for W where
  start: "set_start F s = Inr G \<Longrightarrow> fst_step W F G"
| final: "set_final W F s w = Inr G \<Longrightarrow> fst_step W F G"
| unfinal: "delete_final_weight W F s = Inr G \<Longrightarrow> fst_step W F G"
| take_final: "take_final_weight W F s = Inr (x, G) \<Longrightarrow> fst_step W F G"
| state: "add_state F = (G, s) \<Longrightarrow> fst_step W F G"
| more_states: "fst_step W F (add_states F n)"
| tr: "add_tr W F s t = Inr G \<Longrightarrow> fst_step W F G"
| emplace: "emplace_tr W F s il ol w n = Inr G \<Longrightarrow> fst_step W F G"
| pop: "pop_trs F s = Inr (ts, G) \<Longrightarrow> fst_step W F G"
| untr: "delete_trs F s = Inr G \<Longrightarrow> fst_step W F G"
| untr_ids: "s < num_states F \<Longrightarrow> sorted_wrt (<) is \<Longrightarrow> \<forall>i \<in> set is. i < length (trs (state_of F s)) \<Longrightarrow>
    fst_step W F (del_trs_id_sorted_unchecked F s is)"
| set_trs: "s < num_states F \<Longrightarrow> trs (state_of F s) = [] \<Longrightarrow> fst_step W F (set_trs_unchecked W F s ts)"
| change: "tr_iter_mut F s = Inr it \<Longrightarrow> i < iter_len it \<Longrightarrow> fst_step W F (end_borrow F s (apply_change W c it i))"
| states_gone: "del_states F ds = Inr G \<Longrightarrow> fst_step W F G"
| state_gone: "del_state F s = Inr G \<Longrightarrow> fst_step W F G"
| all_gone: "fst_step W F (del_all_states F)"
| sort: "fst_step W F (tr_sort F c)"
| unique: "fst_step W F (tr_unique W F)"
| sum: "tr_sum W F = Inr G \<Longrightarrow> fst_step W F G"
| isyms: "fst_step W F (set_input_symbols F t)"
| osyms: "fst_step W F (set_output_symbols F t)"
| untake_isyms: "fst_step W F (snd (take_input_symbols F))"
| untake_osyms: "fst_step W F (snd (take_output_symbols F))"
| symts: "fst_step W F (set_symts_from_fst F (H :: 'w vfst))"
| tables: "relabel_tables F old_i ni ai old_o no ao = Inr G \<Longrightarrow> fst_step W F G"
| compute: "compute_and_update_properties W F req = Inr (G, p) \<Longrightarrow> targets_ok F \<Longrightarrow> num_states F < 2 ^ 31 \<Longrightarrow>
    start_state F = Some i \<Longrightarrow> finals_nonzero W F \<Longrightarrow> fst_step W F G"

inductive built :: "'w semiring \<Rightarrow> 'w vfst \<Rightarrow> bool" for W where
  new: "built W vfst_new"
| step: "built W F \<Longrightarrow> fst_step W F G \<Longrightarrow> built W G"

subsection \<open>Each step keeps the bits and the counters\<close>

definition start_ok :: "'w vfst \<Rightarrow> bool" where
  "start_ok F \<longleftrightarrow> (\<forall>i. start_state F = Some i \<longrightarrow> i < num_states F)"

definition fst_inv :: "'w semiring \<Rightarrow> 'w vfst \<Rightarrow> bool" where
  "fst_inv W F \<longleftrightarrow> props_sound W F \<and> eps_counts_ok F \<and> start_ok F"

named_theorems fst_inv_intros \<open>operations that keep the bits, the counters and the start state right\<close>

lemma fst_ok_inv: "fst_ok W F \<Longrightarrow> fst_inv W F"
  by (auto simp: fst_ok_def fst_inv_def start_ok_def targets_ok_def)

lemma start_ok_same: "start_ok F \<Longrightarrow> num_states G = num_states F \<Longrightarrow> start_state G = start_state F \<Longrightarrow> start_ok G"
  by (simp add: start_ok_def)

lemma with_state_shape [simp]:
  "num_states (with_state F s f) = num_states F" "start_state (with_state F s f) = start_state F"
  by (simp_all add: with_state_def)

lemma set_start_inv [fst_inv_intros]: "fst_inv W F \<Longrightarrow> set_start F s = Inr G \<Longrightarrow> fst_inv W G"
  using set_start_sound [of W F s]
  by (auto simp: fst_inv_def start_ok_def set_start_def no_state_def set_start_unchecked_def eps_counts_ok_def
      split: if_splits)

lemma final_inv:
  assumes "fst_inv W F" "s < num_states F"
  shows "fst_inv W (set_final_unchecked W F s w)" "fst_inv W (delete_final_weight_unchecked W F s)"
  using assms set_final_sound [of W F s w] delete_final_weight_sound [of W F s] set_final_counts [of F s W]
  by (simp_all add: fst_inv_def start_ok_def set_final_unchecked_def delete_final_weight_unchecked_def Let_def)

lemma set_final_inv [fst_inv_intros]:
  "fst_inv W F \<Longrightarrow> set_final W F s w = Inr G \<Longrightarrow> fst_inv W G"
  "fst_inv W F \<Longrightarrow> delete_final_weight W F s = Inr G \<Longrightarrow> fst_inv W G"
  "fst_inv W F \<Longrightarrow> take_final_weight W F s = Inr (x, G) \<Longrightarrow> fst_inv W G"
  by (auto simp: set_final_def delete_final_weight_def take_final_weight_def take_final_weight_unchecked_def
      no_state_def final_inv split: if_splits)

lemma add_states_inv [fst_inv_intros]: "fst_inv W F \<Longrightarrow> fst_inv W (add_states F n)"
proof -
  assume F: "fst_inv W F"
  then have c: "eps_counts_ok (add_states F n)" "start_ok (add_states F n)"
    using add_states_counts [where F = F and n = n] by (auto simp: fst_inv_def start_ok_def add_states_def)
  have "props_sound W (add_states F n)"
  proof (cases n)
    case 0
    then show ?thesis using F by (auto simp: fst_inv_def props_sound_def add_states_def add_state_properties_def)
  next
    case (Suc m)
    with add_states_sound [where W = W and F = F and n = n] F show ?thesis by (simp add: fst_inv_def add_states_def)
  qed
  with c show ?thesis by (simp add: fst_inv_def)
qed

lemma add_state_inv [fst_inv_intros]: "fst_inv W F \<Longrightarrow> add_state F = (G, s) \<Longrightarrow> fst_inv W G"
  using add_states_inv [of W F 1] add_state_is_add_states [of F] by simp

lemma add_tr_inv [fst_inv_intros]: "fst_inv W F \<Longrightarrow> add_tr W F s t = Inr G \<Longrightarrow> fst_inv W G"
  by (auto simp: fst_inv_def add_tr_def no_state_def add_tr_sound add_tr_counts split: if_splits)
    (simp add: start_ok_def add_tr_unchecked_eq)

lemma emplace_tr_inv [fst_inv_intros]: "fst_inv W F \<Longrightarrow> emplace_tr W F s il ol w n = Inr G \<Longrightarrow> fst_inv W G"
  unfolding emplace_tr_def by (rule add_tr_inv)

lemma pop_inv: "fst_inv W F \<Longrightarrow> s < num_states F \<Longrightarrow> fst_inv W (snd (pop_trs_unchecked F s))"
  by (simp add: fst_inv_def delete_trs_sound delete_trs_counts) (simp add: start_ok_def pop_trs_unchecked_def)

lemma pop_trs_inv [fst_inv_intros]:
  "fst_inv W F \<Longrightarrow> pop_trs F s = Inr (ts, G) \<Longrightarrow> fst_inv W G"
  "fst_inv W F \<Longrightarrow> delete_trs F s = Inr G \<Longrightarrow> fst_inv W G"
  using pop_inv [of W F s] by (auto simp: pop_trs_def delete_trs_def no_state_def split: if_splits)

lemma del_trs_ids_inv [fst_inv_intros]:
  "fst_inv W F \<Longrightarrow> s < num_states F \<Longrightarrow> sorted_wrt (<) is \<Longrightarrow> \<forall>i \<in> set is. i < length (trs (state_of F s)) \<Longrightarrow>
   fst_inv W (del_trs_id_sorted_unchecked F s is)"
  by (simp add: fst_inv_def del_trs_id_sorted_sound del_trs_id_sorted_counts)
    (simp add: start_ok_def del_trs_id_sorted_unchecked_def Let_def)

lemma set_trs_inv [fst_inv_intros]:
  "fst_inv W F \<Longrightarrow> s < num_states F \<Longrightarrow> trs (state_of F s) = [] \<Longrightarrow> fst_inv W (set_trs_unchecked W F s ts)"
  by (simp add: fst_inv_def set_trs_sound) (simp add: start_ok_def set_trs_unchecked_def split: prod.split)

lemma change_inv [fst_inv_intros]:
  assumes "fst_inv W F" "tr_iter_mut F s = Inr it" "i < iter_len it"
  shows "fst_inv W (end_borrow F s (apply_change W c it i))"
proof -
  have s: "s < num_states F" "it = tr_iter_unchecked_mut F s"
    using assms(2) by (auto simp: tr_iter_mut_def no_state_def split: if_splits)
  with assms iter_step_sound(1,2) [OF apply_change_ok [of s F i W c]] show ?thesis
    by (simp add: fst_inv_def iter_len_def start_ok_def)
qed

lemma del_states_inv [fst_inv_intros]:
  assumes "fst_inv W F" "del_states F ds = Inr G"
  shows "fst_inv W G"
  using assms(1) del_states_Inr [OF assms(2)] deleted_targets [of "set ds" F]
  by (simp add: fst_inv_def deleted_sound deleted_counts) (simp add: start_ok_def targets_ok_def)

lemma del_state_inv [fst_inv_intros]:
  assumes "fst_inv W F" "del_state F s = Inr G"
  shows "fst_inv W G"
proof -
  have "fst_inv W (F\<lparr>properties := delete_states_properties (properties F)\<rparr>)"
    using assms(1) by (auto simp: fst_inv_def start_ok_def props_sound_def delete_states_properties_def)
  with assms(2) show ?thesis
    by (auto simp: del_state_def no_state_def split: if_splits intro: del_states_inv)
qed

lemma all_gone_inv [fst_inv_intros]: "fst_inv W (del_all_states F)"
  by (rule fst_ok_inv [OF all_gone_ok])

lemma sorting_inv [fst_inv_intros]:
  assumes "fst_inv W F"
  shows "fst_inv W (tr_sort F c)" "fst_inv W (tr_unique W F)" "tr_sum W F = Inr G \<Longrightarrow> fst_inv W G"
proof -
  show "fst_inv W (tr_sort F c)" "fst_inv W (tr_unique W F)"
    using assms by (simp_all add: fst_inv_def tr_sort_sound tr_sort_ok(1) tr_unique_sound tr_unique_ok(1))
      (simp_all add: start_ok_def tr_sort_eq tr_unique_eq)
  assume G: "tr_sum W F = Inr G"
  from tr_sum_spec(1) [OF G] have "start_ok F \<Longrightarrow> start_ok G" by (simp add: sums_fst_def start_ok_def)
  with assms G show "fst_inv W G" by (simp add: fst_inv_def tr_sum_spec(2) sums_counts [OF tr_sum_spec(1)])
qed

lemma symbols_inv:
  "fst_inv W (F\<lparr>isymt := i\<rparr>) = fst_inv W F" "fst_inv W (F\<lparr>osymt := i\<rparr>) = fst_inv W F"
  by (simp_all add: fst_inv_def start_ok_def)

lemma symbol_tables_inv [fst_inv_intros]:
  "fst_inv W F \<Longrightarrow> fst_inv W (set_input_symbols F t)" "fst_inv W F \<Longrightarrow> fst_inv W (set_output_symbols F t)"
  "fst_inv W F \<Longrightarrow> fst_inv W (snd (take_input_symbols F))" "fst_inv W F \<Longrightarrow> fst_inv W (snd (take_output_symbols F))"
  "fst_inv W F \<Longrightarrow> fst_inv W (set_symts_from_fst F H)"
  by (simp_all add: set_input_symbols_def set_output_symbols_def take_input_symbols_def take_output_symbols_def
      set_symts_from_fst_def symbols_inv Let_def split: option.split)

lemma relabel_tables_inv [fst_inv_intros]:
  assumes F: "fst_inv W F" and G: "relabel_tables F old_i ni ai old_o no ao = Inr G"
  shows "fst_inv W G"
proof -
  obtain oi oo where t: "table_or old_i (isymt F) ''No input SymbolTable found'' = Inr oi"
    "table_or old_o (osymt F) ''No output SymbolTable found'' = Inr oo"
    using G by (auto simp: relabel_tables_def rbind_eq_Inr)
  from relabel_tables_spec [OF t, of ni no ai ao W] G
  have "rewritten (table_tr oi ni oo no)
      (F\<lparr>isymt := if ai then Some ni else None, osymt := if ao then Some no else None\<rparr>) G"
    "props_sound W F \<longrightarrow> props_sound W G" "eps_counts_ok F \<longrightarrow> eps_counts_ok G"
    by (auto split: if_splits)
  with F show ?thesis by (simp add: fst_inv_def start_ok_def rewritten_def)
qed

lemma compute_inv [fst_inv_intros]:
  assumes "fst_inv W F" "compute_and_update_properties W F req = Inr (G, p)" "targets_ok F" "num_states F < 2 ^ 31"
    "start_state F = Some i" "finals_nonzero W F"
  shows "fst_inv W G"
proof -
  have "fst_ok W F" using assms(1,3) by (simp add: fst_ok_def fst_inv_def)
  from compute_and_update_properties_spec [OF this assms(4-6), of req] assms(2) show ?thesis
    by (auto intro: fst_ok_inv)
qed

lemma fst_step_inv: "fst_step W F G \<Longrightarrow> fst_inv W F \<Longrightarrow> fst_inv W G"
  by (induction rule: fst_step.induct) (rule fst_inv_intros; assumption)+

lemma built_inv: "built W F \<Longrightarrow> fst_inv W F"
  by (induction rule: built.induct) (auto intro: fst_step_inv fst_ok_inv new_ok)

text \<open>A target out of range goes with the next deletion of states, or makes it panic.\<close>

lemma del_states_targets: "del_states F ds = Inr G \<Longrightarrow> targets_ok G"
  using del_states_Inr deleted_targets by blast

end
