(* ===== verification/Relabel_Semantics.thy ===== *)
theory Relabel_Semantics
  imports Path_Semantics
begin

text \<open>
  The transductions of two algorithms of \<open>Tr_Rewriting\<close>: inversion swaps the two sides, projection relates one
  side to itself.
\<close>

subsection \<open>Inversion and projection of a transduction\<close>

lemma rewritten_arcs:
  assumes "rewritten f F G"
  shows "(s, u) \<in> arcs G \<longleftrightarrow> (\<exists>t. (s, t) \<in> arcs F \<and> u = f t)" "final_at G = final_at F"
  using assms by (auto simp: rewritten_def arcs_def final_at_def fun_eq_iff)

lemma rewritten_acc:
  assumes r: "rewritten f F G"
    and f: "\<And>t. nextstate (f t) = nextstate t" "\<And>t. weight (f t) = weight t"
    and P: "\<And>s w. final_at F s w \<Longrightarrow> P [] [] [] []"
    and step: "\<And>t x y x' y'. P x y x' y' \<Longrightarrow> P (ext_label (ilabel t) x) (ext_label (olabel t) y)
        (ext_label (ilabel (f t)) x') (ext_label (olabel (f t)) y')"
  shows "accepts mul F s x y w \<Longrightarrow> \<exists>x' y'. accepts mul G s x' y' w \<and> P x y x' y'"
    "accepts mul G s x' y' w \<Longrightarrow> \<exists>x y. accepts mul F s x y w \<and> P x y x' y'"
proof -
  note a = rewritten_arcs [OF r]
  show "accepts mul F s x y w \<Longrightarrow> \<exists>x' y'. accepts mul G s x' y' w \<and> P x y x' y'"
  proof (induction rule: accepts.induct)
    case (acc_final s w)
    with P a(2) show ?case by (metis accepts.acc_final)
  next
    case (acc_arc s t x y w)
    then obtain x' y' where "accepts mul G (nextstate (f t)) x' y' w" "P x y x' y'" by (auto simp: f)
    moreover have "(s, f t) \<in> arcs G" using acc_arc.hyps(1) a(1) by blast
    ultimately show ?case using accepts.acc_arc [of s "f t" G mul x' y' w] step [of x y x' y' t] by (auto simp: f)
  qed
  show "accepts mul G s x' y' w \<Longrightarrow> \<exists>x y. accepts mul F s x y w \<and> P x y x' y'"
  proof (induction rule: accepts.induct)
    case (acc_final s w)
    with P a(2) show ?case by (metis accepts.acc_final)
  next
    case (acc_arc s u x' y' w)
    then obtain t where t: "(s, t) \<in> arcs F" "u = f t" using a(1) by blast
    with acc_arc obtain x y where "accepts mul F (nextstate t) x y w" "P x y x' y'" by (auto simp: f)
    with t step [of x y x' y' t] accepts.acc_arc [OF t(1), of mul x y w] show ?case by (auto simp: f)
  qed
qed

lemma invert_transduces: "transduces mul (invert F) x y w \<longleftrightarrow> transduces mul F y x w"
proof -
  have r: "rewritten swap_labels F (invert F)" by (rule invert_rewritten)
  note acc = rewritten_acc [OF r, where P = "\<lambda>x y x' y'. x' = y \<and> y' = x" and mul = mul]
  have "accepts mul (invert F) s x y w \<longleftrightarrow> accepts mul F s y x w" for s x y
    using acc(1) [of s y x w] acc(2) [of s x y w] by (auto simp: swap_labels_def)
  then show ?thesis using r by (simp add: transduces_def rewritten_def)
qed

lemma project_transduces:
  "transduces mul (project F ProjectInput) x y w \<longleftrightarrow> x = y \<and> (\<exists>z. transduces mul F x z w)"
  "transduces mul (project F ProjectOutput) x y w \<longleftrightarrow> x = y \<and> (\<exists>z. transduces mul F z y w)"
proof -
  note r = project_rewritten
  have st: "start_state (project F pt) = start_state F" for pt
    using r [of pt F] by (simp add: rewritten_def)
  note i = rewritten_acc [OF r [of ProjectInput], where P = "\<lambda>x y x' y'. x' = x \<and> y' = x" and mul = mul and F = F]
  note o = rewritten_acc [OF r [of ProjectOutput], where P = "\<lambda>x y x' y'. x' = y \<and> y' = y" and mul = mul and F = F]
  have "accepts mul (project F ProjectInput) s x y w \<longleftrightarrow> x = y \<and> (\<exists>z. accepts mul F s x z w)" for s
    using i(1) [of s x _ w] i(2) [of s x y w] by auto
  moreover have "accepts mul (project F ProjectOutput) s x y w \<longleftrightarrow> x = y \<and> (\<exists>z. accepts mul F s z y w)" for s
    using o(1) [of s _ y w] o(2) [of s x y w] by auto
  ultimately show "transduces mul (project F ProjectInput) x y w \<longleftrightarrow> x = y \<and> (\<exists>z. transduces mul F x z w)"
    "transduces mul (project F ProjectOutput) x y w \<longleftrightarrow> x = y \<and> (\<exists>z. transduces mul F z y w)"
    by (auto simp: transduces_def st)
qed

end
