(* ===== verification/State_Sort.thy ===== *)
theory State_Sort
  imports Scc_Result
begin

text \<open>
  \<open>state_sort\<close> (\<open>algorithms/state_sort.rs\<close>): renumbers the states in place, cycle by cycle of the
  permutation, with one state's final weight and transitions in a buffer.
\<close>

subsection \<open>The algorithm\<close>

definition sort_write ::
  "'w semiring \<Rightarrow> state_id list \<Rightarrow> state_id \<Rightarrow> 'w option \<Rightarrow> 'w tr list \<Rightarrow> 'w vfst \<Rightarrow> 'w vfst res"
where
  "sort_write W order s2 final1 trsa F =
     rbind (case final1 of None \<Rightarrow> delete_final_weight W F s2 | Some v \<Rightarrow> set_final W F s2 v) (\<lambda>F.
     rbind (delete_trs F s2) (\<lambda>F.
       for_res (\<lambda>t F. rbind (vec_index order (nextstate t)) (\<lambda>n. add_tr W F s2 (t\<lparr>nextstate := n\<rparr>))) trsa F))"

text \<open>The inner loop marks a state in each iteration.\<close>

lemma filter_Not_upd: "k < length bs \<Longrightarrow> \<not> bs ! k \<Longrightarrow> length (filter Not (bs[k := True])) < length (filter Not bs)"
proof (induction bs arbitrary: k)
  case (Cons b bs)
  then show ?case by (cases k) auto
qed simp

function sort_cycle ::
  "'w semiring \<Rightarrow> state_id list \<Rightarrow> state_id \<Rightarrow> 'w option \<Rightarrow> 'w tr list \<Rightarrow> 'w option \<Rightarrow> 'w tr list \<Rightarrow>
   bool list \<times> 'w vfst \<Rightarrow> (bool list \<times> 'w vfst) res"
where
  "sort_cycle W order s1 final1 trsa final2 trsb (done, F) =
     (if length done \<le> s1 then Inl (Panic ''index out of bounds'')
      else if done ! s1 then Inr (done, F)
      else
        rbind (vec_index order s1) (\<lambda>s2.
        rbind (vec_index done s2) (\<lambda>d2.
        rbind (if d2 then Inr (final2, trsb)
               else rbind (get_trs F s2) (\<lambda>ts. Inr (final_weight (state_of F s2), ts))) (\<lambda>(final2, trsb).
        rbind (sort_write W order s2 final1 trsa F) (\<lambda>F.
          sort_cycle W order s2 final2 trsb final2 trsa (done[s1 := True], F))))))"
  by pat_completeness auto
termination
proof (relation "measure (\<lambda>(W, order, s1, final1, trsa, final2, trsb, done, F). length (filter Not done))", goal_cases)
  case (2 W order s1 final1 trsa final2 trsb dn F)
  with filter_Not_upd 2 show ?case by simp
qed simp

declare sort_cycle.simps [simp del]

definition state_sort :: "'w semiring \<Rightarrow> 'w vfst \<Rightarrow> state_id list \<Rightarrow> 'w vfst res" where
  "state_sort W F order =
     (if length order \<noteq> num_states F then Inl (Bail ''StateSort : Bad order vector size'')
      else case start_state F of
        None \<Rightarrow> Inr F
      | Some start \<Rightarrow>
          let props = properties F AND fp_statesort_properties;
              done = replicate (length order) False
          in rbind (rbind (vec_index order start) (set_start F)) (\<lambda>F.
             rbind (for_res (\<lambda>s1 (done, F).
                 rbind (vec_index done s1) (\<lambda>d.
                   if d then Inr (done, F)
                   else rbind (get_trs F s1) (\<lambda>trsa.
                     sort_cycle W order s1 (final_weight (state_of F s1)) trsa None [] (done, F))))
               [0 ..< num_states F] (done, F)) (\<lambda>(done, F).
               Inr (set_properties_with_mask F props all_properties))))"


subsection \<open>Writing one state\<close>

definition retarget :: "state_id list \<Rightarrow> 'w tr \<Rightarrow> 'w tr" where
  "retarget order t = t\<lparr>nextstate := order ! nextstate t\<rparr>"

lemma pop_trs_shape [shape]:
  "num_states (snd (pop_trs_unchecked F s)) = num_states F"
  "start_state (snd (pop_trs_unchecked F s)) = start_state F"
  "k < num_states F \<Longrightarrow> final_weight (state_of (snd (pop_trs_unchecked F s)) k) = final_weight (state_of F k)"
  "k < num_states F \<Longrightarrow> trs (state_of (snd (pop_trs_unchecked F s)) k) = (if k = s then [] else trs (state_of F k))"
  by (auto simp: pop_trs_unchecked_def with_state_def nth_upd Let_def)

lemma set_final_shape [shape]:
  "num_states (set_final_unchecked W F s w) = num_states F" "start_state (set_final_unchecked W F s w) = start_state F"
  "k < num_states F \<Longrightarrow> trs (state_of (set_final_unchecked W F s w) k) = trs (state_of F k)"
  "k < num_states F \<Longrightarrow> final_weight (state_of (set_final_unchecked W F s w) k) =
     (if k = s then Some w else final_weight (state_of F k))"
  by (simp_all add: set_final_unchecked_def with_state_def nth_upd Let_def)

lemma add_all_eq:
  assumes "s2 < num_states F" "\<forall>t \<in> set ts. nextstate t < length order"
  shows "for_res (\<lambda>t F. rbind (vec_index order (nextstate t)) (\<lambda>n. add_tr W F s2 (t\<lparr>nextstate := n\<rparr>))) ts F =
    Inr (push_all W (map (\<lambda>t. (s2, retarget order t)) ts) F)"
  using assms
  by (induction ts arbitrary: F)
    (auto simp: push_all_def vec_index_def add_tr_def retarget_def add_tr_shape)

lemma sort_write_spec:
  assumes s: "s2 < num_states F" and ts: "\<forall>t \<in> set ts. nextstate t < length order"
  shows "\<exists>G. sort_write W order s2 f ts F = Inr G \<and> num_states G = num_states F \<and> start_state G = start_state F \<and>
    (\<forall>k < num_states F. final_weight (state_of G k) = (if k = s2 then f else final_weight (state_of F k)) \<and>
       trs (state_of G k) = (if k = s2 then map (retarget order) ts else trs (state_of F k))) \<and>
    (bits_ok W F \<longrightarrow> bits_ok W G)"
proof -
  define H where "H = (case f of None \<Rightarrow> delete_final_weight_unchecked W F s2 | Some v \<Rightarrow> set_final_unchecked W F s2 v)"
  have h: "(case f of None \<Rightarrow> delete_final_weight W F s2 | Some v \<Rightarrow> set_final W F s2 v) = Inr H"
    using s by (simp add: H_def delete_final_weight_def set_final_def split: option.split)
  have H: "num_states H = num_states F" "start_state H = start_state F"
    "\<And>k. k < num_states F \<Longrightarrow> final_weight (state_of H k) = (if k = s2 then f else final_weight (state_of F k))"
    "\<And>k. k < num_states F \<Longrightarrow> trs (state_of H k) = trs (state_of F k)"
    "bits_ok W F \<Longrightarrow> bits_ok W H"
    using s by (cases f; simp add: H_def shape bits_ok_steps)+
  let ?H = "snd (pop_trs_unchecked H s2)"
  have ok: "bits_ok W F \<Longrightarrow> bits_ok W ?H"
    using H(1,5) s by (simp add: bits_ok_def delete_trs_sound delete_trs_counts)
  let ?l = "map (\<lambda>t. (s2, retarget order t)) ts"
  have G: "sort_write W order s2 f ts F = Inr (push_all W ?l ?H)"
    using h s H(1) by (simp add: sort_write_def delete_trs_def add_all_eq ts shape)
  have flt: "map snd (filter (\<lambda>(s, t). s = k) ?l) = (if k = s2 then map (retarget order) ts else [])" for k
    by (induction ts) auto
  from push_all_spec [of ?l ?H W] s H(1) show ?thesis
    using G H(2-4) ok by (auto simp: shape flt)
qed


subsection \<open>The cycles\<close>

definition perm_order :: "state_id list \<Rightarrow> nat \<Rightarrow> bool" where
  "perm_order order n \<longleftrightarrow> length order = n \<and> distinct order \<and> set order = {..< n}"

text \<open>The states in \<open>D\<close> are at their new place, the places nothing was moved to are as before.\<close>

definition moved :: "state_id list \<Rightarrow> 'w vfst \<Rightarrow> state_id set \<Rightarrow> 'w vfst \<Rightarrow> bool" where
  "moved order F D G \<longleftrightarrow> num_states G = num_states F \<and> start_state G = start_state F \<and>
     (\<forall>k < num_states F.
        (k \<in> D \<longrightarrow> final_weight (state_of G (order ! k)) = final_weight (state_of F k) \<and>
           trs (state_of G (order ! k)) = map (retarget order) (trs (state_of F k))) \<and>
        (k \<notin> (!) order ` D \<longrightarrow> final_weight (state_of G k) = final_weight (state_of F k) \<and>
           trs (state_of G k) = trs (state_of F k)))"

definition marked :: "bool list \<Rightarrow> state_id set" where
  "marked done = {k. k < length done \<and> done ! k}"

lemma marked_upd: "k < length done \<Longrightarrow> marked (done[k := True]) = insert k (marked done)"
  by (auto simp: marked_def nth_upd)

lemma perm_order_nth:
  assumes "perm_order order n" "k < n"
  shows "order ! k < n" "j < n \<Longrightarrow> order ! j = order ! k \<Longrightarrow> j = k"
proof -
  have "order ! k \<in> set order" using assms by (intro nth_mem) (simp add: perm_order_def)
  then show "order ! k < n" using assms(1) by (simp add: perm_order_def)
  show "j < n \<Longrightarrow> order ! j = order ! k \<Longrightarrow> j = k" using assms by (simp add: perm_order_def nth_eq_iff_index_eq)
qed

lemma perm_order_closed:
  assumes o: "perm_order order n" and D: "D \<subseteq> {..< n}" "(!) order ` D \<subseteq> D"
  shows "(!) order ` D = D"
proof -
  have "inj_on ((!) order) D" using perm_order_nth(2) [OF o] D(1) by (auto simp: inj_on_def)
  moreover have "finite D" using D(1) finite_subset by blast
  ultimately show ?thesis using D(2) by (simp add: endo_inj_surj)
qed

lemma sort_cycle_spec:
  assumes "perm_order order (num_states F)" "targets_ok F" "length done = num_states F" "s1 < num_states F"
    "c < num_states F" "moved order F (marked done) G" "insert c ((!) order ` marked done) = insert s1 (marked done)"
    "\<not> done ! s1 \<Longrightarrow> final1 = final_weight (state_of F s1) \<and> trsa = trs (state_of F s1)"
  shows "\<exists>done' G'. sort_cycle W order s1 final1 trsa final2 trsb (done, G) = Inr (done', G') \<and>
    length done' = num_states F \<and> insert s1 (marked done) \<subseteq> marked done' \<and>
    (!) order ` marked done' = marked done' \<and> moved order F (marked done') G' \<and> (bits_ok W G \<longrightarrow> bits_ok W G')"
  using assms(3-)
proof (induction "length (filter Not done)" arbitrary: "done" s1 G final1 trsa final2 trsb rule: less_induct)
  case (less dn s1 G final1 trsa final2 trsb)
  let ?n = "num_states F"
  note o = perm_order_nth [OF assms(1)]
  have sub: "marked dn \<subseteq> {..< ?n}" using less.prems(1) by (auto simp: marked_def)
  have lo: "length order = ?n" using assms(1) by (simp add: perm_order_def)
  show ?case
  proof (cases "dn ! s1")
    case True
    then have s1: "s1 \<in> marked dn" using less.prems(1,2) by (simp add: marked_def)
    have "(!) order ` marked dn \<subseteq> marked dn" using less.prems(5) s1 by (metis insert_absorb subset_insertI)
    from perm_order_closed [OF assms(1) sub this] True less.prems s1 show ?thesis
      by (subst sort_cycle.simps) (auto simp: insert_absorb)
  next
    case False
    let ?s2 = "order ! s1"
    let ?d = "dn[s1 := True]"
    have s2: "?s2 < ?n" by (rule o(1) [OF less.prems(2)])
    have nm: "s1 \<notin> marked dn" using False by (simp add: marked_def)
    have new: "?s2 \<notin> (!) order ` marked dn" using o(2) [OF less.prems(2)] nm sub by auto
    have G: "num_states G = ?n" "final_weight (state_of G ?s2) = final_weight (state_of F ?s2)"
      "trs (state_of G ?s2) = trs (state_of F ?s2)"
      using less.prems(4) new s2 by (simp_all add: moved_def)
    have buf: "final1 = final_weight (state_of F s1)" "trsa = trs (state_of F s1)" using less.prems(6) False by auto
    have ts: "\<forall>t \<in> set trsa. nextstate t < length order"
      using targets_state [OF assms(2) less.prems(2)] buf(2) lo by simp
    obtain H where H: "sort_write W order ?s2 final1 trsa G = Inr H" "num_states H = ?n" "start_state H = start_state G"
      "\<forall>k < ?n. final_weight (state_of H k) = (if k = ?s2 then final1 else final_weight (state_of G k)) \<and>
         trs (state_of H k) = (if k = ?s2 then map (retarget order) trsa else trs (state_of G k))"
      "bits_ok W G \<longrightarrow> bits_ok W H"
      using sort_write_spec [of ?s2 G trsa order W final1] ts s2 G(1) by auto
    define f2 where "f2 = (if dn ! ?s2 then final2 else final_weight (state_of G ?s2))"
    define t2 where "t2 = (if dn ! ?s2 then trsb else trs (state_of G ?s2))"
    have run: "sort_cycle W order s1 final1 trsa final2 trsb (dn, G) = sort_cycle W order ?s2 f2 t2 f2 trsa (?d, H)"
      using False less.prems(1,2) s2 G(1) H(1) lo
      by (subst sort_cycle.simps) (simp add: vec_index_def get_trs_def f2_def t2_def)
    have mk: "marked ?d = insert s1 (marked dn)" using less.prems(1,2) by (simp add: marked_upd)
    have mv: "moved order F (marked ?d) H"
      unfolding moved_def mk
    proof (intro conjI allI impI)
      show "num_states H = num_states F" "start_state H = start_state F"
        using H(2,3) less.prems(4) by (simp_all add: moved_def)
      fix k assume k: "k < ?n"
      have ok: "order ! k < ?n" by (rule o(1) [OF k])
      { assume "k \<in> insert s1 (marked dn)"
        then consider "k = s1" | "k \<in> marked dn" "order ! k \<noteq> ?s2" using new by (metis image_eqI insertE)
        then show "final_weight (state_of H (order ! k)) = final_weight (state_of F k)"
            "trs (state_of H (order ! k)) = map (retarget order) (trs (state_of F k))"
          using H(4) ok less.prems(4) k buf by (cases; simp add: moved_def)+ }
      { assume "k \<notin> (!) order ` insert s1 (marked dn)"
        then show "final_weight (state_of H k) = final_weight (state_of F k)" "trs (state_of H k) = trs (state_of F k)"
          using H(4) less.prems(4) k by (simp_all add: moved_def) }
    qed
    have cyc: "insert c ((!) order ` marked ?d) = insert ?s2 (marked ?d)"
      using less.prems(5) unfolding mk by auto
    have next_buf: "\<not> ?d ! ?s2 \<Longrightarrow> f2 = final_weight (state_of F ?s2) \<and> t2 = trs (state_of F ?s2)"
      using less.prems(1,2) s2 G(2,3) by (auto simp: nth_upd f2_def t2_def split: if_splits)
    have dec: "length (filter Not ?d) < length (filter Not dn)"
      using filter_Not_upd [of s1 dn] False less.prems(1,2) by simp
    from less.hyps [OF dec _ s2 less.prems(3) mv cyc next_buf, of f2 trsa] less.prems(1) obtain done' G' where
      D: "sort_cycle W order ?s2 f2 t2 f2 trsa (?d, H) = Inr (done', G')" "length done' = ?n"
        "insert ?s2 (marked ?d) \<subseteq> marked done'" "(!) order ` marked done' = marked done'"
        "moved order F (marked done') G'" "bits_ok W H \<longrightarrow> bits_ok W G'" by auto
    with H(5) run mk show ?thesis by auto
  qed
qed


lemma sort_cycles_spec:
  assumes "perm_order order (num_states F)" "targets_ok F" "length done = num_states F" "set xs \<subseteq> {..< num_states F}"
    "moved order F (marked done) G" "(!) order ` marked done = marked done"
  shows "\<exists>done' G'. for_res (\<lambda>s1 (done, F). rbind (vec_index done s1) (\<lambda>d.
      if d then Inr (done, F)
      else rbind (get_trs F s1) (\<lambda>trsa. sort_cycle W order s1 (final_weight (state_of F s1)) trsa None [] (done, F))))
      xs (done, G) = Inr (done', G') \<and>
    length done' = num_states F \<and> marked done \<union> set xs \<subseteq> marked done' \<and> moved order F (marked done') G' \<and>
    (bits_ok W G \<longrightarrow> bits_ok W G')"
  using assms(3-)
proof (induction xs arbitrary: "done" G)
  case (Cons s1 xs)
  have s1: "s1 < num_states F" using Cons.prems(2) by simp
  show ?case
  proof (cases "done ! s1")
    case True
    with Cons.IH [OF Cons.prems(1) _ Cons.prems(3,4)] Cons.prems(1,2) s1 show ?thesis
      by (auto simp: vec_index_def marked_def)
  next
    case False
    have nm: "s1 \<notin> (!) order ` marked done" using False Cons.prems(4) by (simp add: marked_def)
    have st: "final_weight (state_of G s1) = final_weight (state_of F s1) \<and> trs (state_of G s1) = trs (state_of F s1)"
      and n: "num_states G = num_states F"
      using Cons.prems(3) nm s1 by (simp_all add: moved_def)
    have "insert s1 ((!) order ` marked done) = insert s1 (marked done)" using Cons.prems(4) by simp
    from sort_cycle_spec [OF assms(1,2) Cons.prems(1) s1 s1 Cons.prems(3) this, of "final_weight (state_of G s1)"
        "trs (state_of G s1)" W None "[]"] st obtain d G1 where
      d: "sort_cycle W order s1 (final_weight (state_of G s1)) (trs (state_of G s1)) None [] (done, G) = Inr (d, G1)"
        "length d = num_states F" "insert s1 (marked done) \<subseteq> marked d" "(!) order ` marked d = marked d"
        "moved order F (marked d) G1" "bits_ok W G \<longrightarrow> bits_ok W G1" by auto
    from Cons.IH [OF d(2) _ d(5,4)] Cons.prems(2) obtain done' G' where
      "for_res (\<lambda>s1 (done, F). rbind (vec_index done s1) (\<lambda>d.
        if d then Inr (done, F)
        else rbind (get_trs F s1) (\<lambda>trsa. sort_cycle W order s1 (final_weight (state_of F s1)) trsa None [] (done, F))))
        xs (d, G1) = Inr (done', G')"
      "length done' = num_states F" "marked d \<union> set xs \<subseteq> marked done'" "moved order F (marked done') G'"
      "bits_ok W G1 \<longrightarrow> bits_ok W G'" by auto
    with d n False s1 Cons.prems(1) show ?thesis by (auto simp: vec_index_def get_trs_def)
  qed
qed auto

subsection \<open>The result\<close>

lemma perm_order_surj:
  assumes "perm_order order n" "k < n"
  obtains j where "j < n" "order ! j = k"
  using assms by (metis in_set_conv_nth lessThan_iff perm_order_def)

lemma state_sort_spec:
  assumes o: "perm_order order (num_states F)" and t: "targets_ok F" and i: "start_state F = Some i"
  shows "\<exists>G. state_sort W F order =
      Inr (set_properties_with_mask G (properties F AND fp_statesort_properties) all_properties) \<and>
    num_states G = num_states F \<and> start_state G = Some (order ! i) \<and> copy_of ((!) order) F G \<and>
    (bits_ok W F \<longrightarrow> bits_ok W G)"
proof -
  let ?n = "num_states F" and ?F = "set_start_unchecked F (order ! i)" and ?d = "replicate (num_states F) False"
  have lo: "length order = ?n" using o by (simp add: perm_order_def)
  have i': "i < ?n" using t i by (simp add: targets_ok_def)
  have F: "num_states ?F = ?n" "\<And>k. state_of ?F k = state_of F k" "start_state ?F = Some (order ! i)" by (simp_all add: shape)
  have t': "targets_ok ?F"
    using t perm_order_nth(1) [OF o i'] by (simp add: targets_ok_def set_start_unchecked_def)
  have mk: "marked ?d = {}" by (auto simp: marked_def)
  have mv: "moved order ?F (marked ?d) ?F" by (simp add: moved_def mk)
  have "set [0 ..< ?n] \<subseteq> {..< num_states ?F}" by (auto simp: F(1))
  from sort_cycles_spec [of order ?F ?d, OF o [folded F(1)] t' _ this mv, of W] F(1) mk obtain done' G where
    G: "for_res (\<lambda>s1 (done, F). rbind (vec_index done s1) (\<lambda>d.
        if d then Inr (done, F)
        else rbind (get_trs F s1) (\<lambda>trsa. sort_cycle W order s1 (final_weight (state_of F s1)) trsa None [] (done, F))))
        [0 ..< ?n] (?d, ?F) = Inr (done', G)"
      "length done' = ?n" "{0 ..< ?n} \<subseteq> marked done'" "moved order ?F (marked done') G" "bits_ok W ?F \<longrightarrow> bits_ok W G"
    by auto
  have "state_sort W F order =
      Inr (set_properties_with_mask G (properties F AND fp_statesort_properties) all_properties)"
    using G(1) lo i i' perm_order_nth(1) [OF o i'] F(1)
    by (simp add: state_sort_def vec_index_def set_start_def Let_def)
  moreover have "trs (state_of G (order ! k)) = map (retarget order) (trs (state_of F k)) \<and>
      final_weight (state_of G (order ! k)) = final_weight (state_of F k)" if "k < ?n" for k
    using G(3,4) that F(1,2) by (auto simp: moved_def)
  then have "copy_of ((!) order) F G"
    using G(4) F(1) perm_order_nth(1) [OF o] by (auto simp: copy_of_def moved_def retarget_def [abs_def])
  ultimately show ?thesis
    using G(4,5) F by (auto simp: moved_def intro: bits_ok_intros)
qed


text \<open>Renumbering keeps every property but those that speak of the order of the states.\<close>

lemma copy_of_edges:
  assumes c: "copy_of h F G" and e: "(a, b) \<in> edges F"
  shows "(h a, h b) \<in> edges G"
  using assms by (force simp: copy_of_def edges_def arcs_def)

lemma copy_of_paths:
  assumes "copy_of h F G"
  shows "(a, b) \<in> (edges F)\<^sup>* \<Longrightarrow> (h a, h b) \<in> (edges G)\<^sup>*" "(a, b) \<in> (edges F)\<^sup>+ \<Longrightarrow> (h a, h b) \<in> (edges G)\<^sup>+"
proof -
  show "(a, b) \<in> (edges F)\<^sup>* \<Longrightarrow> (h a, h b) \<in> (edges G)\<^sup>*"
    by (induction rule: rtrancl_induct) (auto intro: rtrancl_into_rtrancl copy_of_edges [OF assms])
  show "(a, b) \<in> (edges F)\<^sup>+ \<Longrightarrow> (h a, h b) \<in> (edges G)\<^sup>+"
    by (induction rule: trancl_induct) (auto intro: trancl_into_trancl copy_of_edges [OF assms])
qed

lemma copy_of_arc:
  assumes "copy_of h F G" "(s, t) \<in> arcs F"
  shows "(h s, t\<lparr>nextstate := h (nextstate t)\<rparr>) \<in> arcs G"
  using assms by (auto simp: copy_of_def arcs_def)

lemma copy_sem:
  assumes c: "copy_of h F G" and surj: "h ` {..< num_states F} = {..< num_states G}"
    and st: "start_state G = map_option h (start_state F)"
    and q: "q \<noteq> TopSorted" "q \<noteq> StringFst" and sem: "sem W F q"
  shows "sem W G q"
proof -
  have st_of: "\<exists>s. s < num_states F \<and> k = h s" if "k < num_states G" for k
    using that surj by (metis image_iff lessThan_iff)
  have tr: "trs (state_of G (h s)) = map (\<lambda>t. t\<lparr>nextstate := h (nextstate t)\<rparr>) (trs (state_of F s))"
    "final_weight (state_of G (h s)) = final_weight (state_of F s)" "h s < num_states G" if "s < num_states F" for s
    using c that by (simp_all add: copy_of_def)
  have lab: "map ilabel (trs (state_of G (h s))) = map ilabel (trs (state_of F s))"
    "map olabel (trs (state_of G (h s))) = map olabel (trs (state_of F s))" if "s < num_states F" for s
    using tr(1) [OF that] by simp_all
  have arc: "\<exists>u. (h s, u) \<in> arcs G \<and> ilabel u = ilabel t \<and> olabel u = olabel t \<and> weight u = weight t \<and>
      nextstate u = h (nextstate t)" if "(s, t) \<in> arcs F" for s t
    using copy_of_arc [OF c that] by force
  have cyc: "cyclic_at G (h s)" if "cyclic_at F s" for s
    using that copy_of_paths(2) [OF c] by (simp add: cyclic_at_def)
  have bwd: "\<exists>s u. (s, u) \<in> arcs F \<and> ilabel u = ilabel t \<and> olabel u = olabel t" if "(k, t) \<in> arcs G" for k t
  proof -
    from that st_of obtain s where "s < num_states F" "k = h s" by (auto simp: arcs_def)
    with that tr(1) show ?thesis by (fastforce simp: arcs_def)
  qed
  show ?thesis
  proof (cases q)
    case Acceptor
    with sem bwd show ?thesis by fastforce
  next
    case IDeterministic
    with sem show ?thesis by simp (metis lab(1) st_of)
  next
    case ODeterministic
    with sem show ?thesis by simp (metis lab(2) st_of)
  next
    case ILabelSorted
    with sem show ?thesis by simp (metis lab(1) st_of)
  next
    case OLabelSorted
    with sem show ?thesis by simp (metis lab(2) st_of)
  next
    case Epsilons
    with sem arc show ?thesis by fastforce
  next
    case IEpsilons
    with sem arc show ?thesis by fastforce
  next
    case OEpsilons
    with sem arc show ?thesis by fastforce
  next
    case Weighted
    with sem consider s t where "(s, t) \<in> arcs F" "nontrivial W (weight t)"
      | s w where "s < num_states F" "final_weight (state_of F s) = Some w" "nontrivial W w"
      by auto
    then show ?thesis
    proof cases
      case 1
      from arc [OF 1(1)] 1(2) Weighted show ?thesis by fastforce
    next
      case 2
      with tr(2,3) [OF 2(1)] Weighted show ?thesis by auto
    qed
  next
    case Cyclic
    with sem cyc show ?thesis by auto
  next
    case InitialCyclic
    with sem cyc st show ?thesis by auto
  next
    case Accessible
    have "accessible_state G (h s)" if "accessible_state F s" for s
      using that copy_of_paths(1) [OF c] st by (auto simp: accessible_state_def)
    with sem Accessible st_of show ?thesis by auto
  next
    case Coaccessible
    have "coaccessible_state G (h s)" if "coaccessible_state F s" for s
      using that copy_of_paths(1) [OF c] tr(2,3) by (fastforce simp: coaccessible_state_def is_final_state_def)
    with sem Coaccessible st_of show ?thesis by auto
  next
    case WeightedCycles
    with sem obtain s t where t: "(s, t) \<in> arcs F" "nontrivial W (weight t)" "(nextstate t, s) \<in> (edges F)\<^sup>*"
      by auto
    from arc [OF t(1)] obtain u where "(h s, u) \<in> arcs G" "weight u = weight t" "nextstate u = h (nextstate t)" by blast
    with t(2) copy_of_paths(1) [OF c t(3)] WeightedCycles show ?thesis by (auto intro!: bexI [of _ "(h s, u)"])
  qed (use q in simp_all)
qed

lemma copy_inverse:
  assumes c: "copy_of h F G" and t: "targets_ok F" and n: "num_states G = num_states F"
    and g: "\<And>s. s < num_states F \<Longrightarrow> g (h s) = s" "\<And>k. k < num_states F \<Longrightarrow> h (g k) = k \<and> g k < num_states F"
  shows "copy_of g G F"
  unfolding copy_of_def n
proof (intro allI impI conjI)
  fix k assume k: "k < num_states F"
  note gk = g(2) [OF k]
  show "g k < num_states F" using gk by simp
  have c': "final_weight (state_of G (h (g k))) = final_weight (state_of F (g k))"
    "trs (state_of G (h (g k))) = map (\<lambda>t. t\<lparr>nextstate := h (nextstate t)\<rparr>) (trs (state_of F (g k)))"
    using c gk unfolding copy_of_def by blast+
  show "final_weight (state_of F (g k)) = final_weight (state_of G k)" using c'(1) gk by simp
  have "map (\<lambda>t. t\<lparr>nextstate := g (nextstate t)\<rparr>) (trs (state_of G k)) =
      map (\<lambda>t. t\<lparr>nextstate := g (h (nextstate t))\<rparr>) (trs (state_of F (g k)))"
    using c'(2) gk by (simp add: o_def)
  also have "\<dots> = map (\<lambda>t. t) (trs (state_of F (g k)))"
    using targets_state [OF t] gk g(1) by (intro map_cong) auto
  finally show "trs (state_of F (g k)) = map (\<lambda>t. t\<lparr>nextstate := g (nextstate t)\<rparr>) (trs (state_of G k))" by simp
qed

lemma state_sort_ok:
  assumes F: "fst_ok W F" and o: "perm_order order (num_states F)" and i: "start_state F = Some i"
  shows "\<exists>G. state_sort W F order = Inr G \<and> fst_ok W G \<and> num_states G = num_states F \<and>
    start_state G = Some (order ! i) \<and> copy_of ((!) order) F G \<and> transduces mul G = transduces mul F"
proof -
  let ?n = "num_states F"
  have t: "targets_ok F" using F by (simp add: fst_ok_def)
  have i': "i < ?n" using t i by (simp add: targets_ok_def)
  from state_sort_spec [OF o t i, of W] obtain G where
    G: "state_sort W F order = Inr (set_properties_with_mask G (properties F AND fp_statesort_properties) all_properties)"
      "num_states G = ?n" "start_state G = Some (order ! i)" "copy_of ((!) order) F G" "bits_ok W F \<longrightarrow> bits_ok W G"
    by blast
  define g where "g k = (THE j. j < ?n \<and> order ! j = k)" for k
  have gh: "g (order ! s) = s" if "s < ?n" for s
    using perm_order_nth [OF o that] that unfolding g_def by (intro the_equality) auto
  have hg: "order ! g k = k \<and> g k < ?n" if "k < ?n" for k
    using perm_order_surj [OF o that] gh by metis
  have cG: "copy_of g G F" by (rule copy_inverse [OF G(4) t G(2) gh hg])
  have s1: "(!) order ` {..< ?n} = {..< num_states G}"
  proof -
    have "k \<in> (!) order ` {..< ?n}" if "k < ?n" for k using hg [OF that] by (metis image_eqI lessThan_iff)
    then show ?thesis using perm_order_nth(1) [OF o] G(2) by auto
  qed
  have s2: "g ` {..< num_states G} = {..< ?n}"
  proof -
    have "k \<in> g ` {..< ?n}" if "k < ?n" for k using gh [OF that] perm_order_nth(1) [OF o that] by (metis image_eqI lessThan_iff)
    then show ?thesis using hg G(2) by auto
  qed
  have sem: "sem W G q \<longleftrightarrow> sem W F q" if "q \<noteq> TopSorted" "q \<noteq> StringFst" for q
    using copy_sem [OF G(4) s1 _ that, of W] copy_sem [OF cG s2 _ that, of W] G(3) i gh [OF i'] by auto
  have tG: "targets_ok G"
  proof -
    have "nextstate u < ?n" if "(k, u) \<in> arcs G" for k u
    proof -
      have "k < ?n" using that G(2) by (simp add: arcs_def)
      from hg [OF this] obtain s where s: "s < ?n" "k = order ! s" by metis
      with that G(4) obtain v where v: "v \<in> set (trs (state_of F s))" "u = v\<lparr>nextstate := order ! nextstate v\<rparr>"
        by (auto simp: arcs_def copy_of_def)
      with perm_order_nth(1) [OF o targets_state [OF t s(1) v(1)]] show ?thesis by simp
    qed
    then show ?thesis using G(2,3) perm_order_nth(1) [OF o i'] by (auto simp: targets_iff)
  qed
  let ?p = "properties F AND fp_statesort_properties"
  have bs: "bits_sound W F (properties F)" using F by (simp add: fst_ok_def props_sound_def)
  have "bits_sound W G ?p"
  proof (rule bits_sound_keep [OF bs])
    fix q assume "bit fp_statesort_properties (pos_bit q)" "sem W F q"
    then show "sem W G q" using sem [of q] by (cases q) (simp_all add: mask_nums del: sem.simps)
  next
    fix q assume "bit fp_statesort_properties (Suc (pos_bit q))" "sem W G q"
    then show "sem W F q" using sem [of q] by (cases q) (simp_all add: mask_nums del: sem.simps)
  qed
  then have ok: "fst_ok W (set_properties_with_mask G ?p all_properties)"
    using set_all_properties_sound [of W G ?p] G(5) F tG by (simp add: fst_ok_iff bits_ok_def set_properties_with_mask_def)
  have tr: "transduces mul G = transduces mul F"
    using copy_of_acc [OF G(4) t i'] G(3) i by (simp add: transduces_def fun_eq_iff)
  show ?thesis
  proof (rule exI [of _ "set_properties_with_mask G ?p all_properties"], intro conjI)
    show "copy_of ((!) order) F (set_properties_with_mask G ?p all_properties)"
      using G(4) by (simp add: copy_of_def set_properties_with_mask_def)
    show "num_states (set_properties_with_mask G ?p all_properties) = ?n"
      using G(2) by (simp add: set_properties_with_mask_def)
  qed (use G(1,3) ok tr in simp_all)
qed

end
