(* ===== verification/Top_Sort.thy ===== *)
theory Top_Sort
  imports State_Sort
begin

text \<open>
  \<open>top_sort\<close> (\<open>algorithms/top_sort.rs\<close>): a depth-first visit that stops at the first back arc; otherwise
  the states are renumbered against their finishing order.
\<close>

subsection \<open>The visitor and the algorithm\<close>

record top_visitor =
  top_order :: "state_id list"
  top_acyclic :: bool
  top_finish :: "state_id list"

definition top_visitor_new :: top_visitor where
  "top_visitor_new = \<lparr>top_order = [], top_acyclic = True, top_finish = []\<rparr>"

definition top_finish_visit :: "top_visitor \<Rightarrow> top_visitor" where
  "top_finish_visit v =
     (if top_acyclic v
      then v\<lparr>top_order := fold (\<lambda>s order. order[top_finish v ! (length (top_finish v) - s - 1) := s])
               [0 ..< length (top_finish v)] (replicate (length (top_finish v)) 0)\<rparr>
      else v)"

definition top_callbacks :: "('w, top_visitor) visitor" where
  "top_callbacks =
     \<lparr>v_init_visit = \<lambda>v. v,
      v_init_state = \<lambda>s root v. (v, True),
      v_tree_tr = \<lambda>s t v. (v, True),
      v_back_tr = \<lambda>s t v. (v\<lparr>top_acyclic := False\<rparr>, False),
      v_forward_or_cross_tr = \<lambda>s t v. (v, True),
      v_finish_state = \<lambda>s parent t v. Inr (v\<lparr>top_finish := top_finish v @ [s]\<rparr>),
      v_finish_visit = top_finish_visit\<rparr>"

definition top_sort :: "'w semiring \<Rightarrow> 'w vfst \<Rightarrow> 'w vfst res" where
  "top_sort W F =
     rbind (dfs_visit F top_callbacks any_filter False top_visitor_new) (\<lambda>v.
       if top_acyclic v
       then rbind (state_sort W F (top_order v)) (\<lambda>F.
         let props = ACYCLIC OR INITIAL_ACYCLIC OR TOP_SORTED in Inr (set_properties_with_mask F props props))
       else let props = CYCLIC OR NOT_TOP_SORTED in Inr (set_properties_with_mask F props props))"

subsection \<open>The finishing order\<close>

text \<open>Every transition of a state leads to a state earlier in the list.\<close>

definition topo_list :: "'w vfst \<Rightarrow> state_id list \<Rightarrow> bool" where
  "topo_list F L \<longleftrightarrow> distinct L \<and> (\<forall>i < length L. \<forall>y. (L ! i, y) \<in> edges F \<longrightarrow> (\<exists>j < i. L ! j = y))"

lemma topo_list_snoc:
  assumes "topo_list F L" "s \<notin> set L" "\<And>y. (s, y) \<in> edges F \<Longrightarrow> y \<in> set L"
  shows "topo_list F (L @ [s])"
proof -
  have "\<exists>j < i. (L @ [s]) ! j = y" if i: "i < Suc (length L)" and e: "((L @ [s]) ! i, y) \<in> edges F" for i y
  proof (cases "i < length L")
    case True
    with e have "(L ! i, y) \<in> edges F" by (simp add: nth_append)
    with assms(1) True obtain j where "j < i" "L ! j = y" unfolding topo_list_def by blast
    with True show ?thesis by (auto simp: nth_append intro!: exI [of _ j])
  next
    case False
    with i have "i = length L" by simp
    with e have "y \<in> set L" using assms(3) by simp
    then obtain j where "j < length L" "L ! j = y" by (auto simp: in_set_conv_nth)
    with \<open>i = length L\<close> show ?thesis by (auto simp: nth_append)
  qed
  then show ?thesis using assms(1,2) by (simp add: topo_list_def)
qed

lemma topo_list_acyclic:
  assumes "topo_list F L" "set L = {..< num_states F}"
  shows "\<not> cyclic_at F x"
proof
  have step: "(L ! i, y) \<in> (edges F)\<^sup>+ \<Longrightarrow> i < length L \<Longrightarrow> \<exists>j < i. L ! j = y" for i y
  proof (induction rule: trancl_induct)
    case (base y)
    then show ?case using assms(1) by (auto simp: topo_list_def)
  next
    case (step y z)
    then obtain j where j: "j < i" "L ! j = y" by blast
    with step.hyps(2) step.prems assms(1) obtain k where "k < j" "L ! k = z"
      unfolding topo_list_def by (meson order.strict_trans)
    with j show ?case by (intro exI [of _ k]) simp
  qed
  assume c: "cyclic_at F x"
  then have "x \<in> set L" using cyclic_range assms(2) by blast
  then obtain i where i: "i < length L" "L ! i = x" by (auto simp: in_set_conv_nth)
  with step [of i x] c obtain j where "j < i" "L ! j = x" by (auto simp: cyclic_at_def)
  moreover have "distinct L" using assms(1) by (simp add: topo_list_def)
  ultimately show False using i nth_eq_iff_index_eq [of L j i] by simp
qed

lemma chained_path:
  "chained F ((s, pos) # st) \<Longrightarrow> \<forall>(x, p) \<in> set ((s, pos) # st). x < num_states F \<Longrightarrow> x \<in> fst ` set ((s, pos) # st) \<Longrightarrow>
   (x, s) \<in> (edges F)\<^sup>*"
proof (induction st arbitrary: s pos)
  case (Cons a st)
  obtain p ppos where a: "a = (p, ppos)" by (cases a)
  have e: "(p, s) \<in> edges F" using Cons.prems(1,2) a by (auto intro: edges_nth)
  show ?case
  proof (cases "x = s")
    case False
    then have "x \<in> fst ` set ((p, ppos) # st)" using Cons.prems(3) a by auto
    from Cons.IH [OF _ _ this] Cons.prems(1,2) a have "(x, p) \<in> (edges F)\<^sup>*" by auto
    with e show ?thesis by (rule rtrancl_into_rtrancl [rotated])
  qed simp
qed simp

definition top_inv :: "'w vfst \<Rightarrow> top_visitor dfs_config \<Rightarrow> bool" where
  "top_inv F c \<longleftrightarrow> dfs_ok F (cfg_color c) (cfg_stack c) \<and> top_acyclic (cfg_vis c) = cfg_dfs c \<and>
     (if cfg_dfs c
      then topo_list F (top_finish (cfg_vis c)) \<and>
        set (top_finish (cfg_vis c)) = {x. x < num_states F \<and> cfg_color c ! x = Black} \<and>
        (\<forall>x y. (x, y) \<in> processed F (cfg_color c) (cfg_stack c) \<longrightarrow> y < num_states F \<and> cfg_color c ! y = Black)
      else \<exists>x. cyclic_at F x)"

lemma top_inv_pop:
  assumes inv: "top_inv F c" and st: "cfg_stack c = (s, pos) # rest"
    and pos: "\<not> cfg_dfs c \<or> length (trs (state_of F s)) \<le> pos"
  shows "\<exists>c'. dfs_pop F top_callbacks s rest c = Inr c' \<and> top_inv F c'"
proof -
  let ?col = "cfg_color c" let ?col' = "(cfg_color c)[s := Black]" let ?v = "cfg_vis c"
  let ?v' = "?v\<lparr>top_finish := top_finish ?v @ [s]\<rparr>"
  have ok: "dfs_ok F ?col ((s, pos) # rest)" using inv st by (simp add: top_inv_def)
  have s: "s < length ?col" "s \<notin> fst ` set rest" "?col ! s = Grey" "s < num_states F" using ok by (auto simp: dfs_ok_def)
  have ok': "dfs_ok F ?col' rest" by (rule dfs_ok_pop [OF ok])
  define st' where "st' = (case rest of [] \<Rightarrow> [] | (p, ppos) # r \<Rightarrow> (p, Suc ppos) # r)"
  have ok'': "dfs_ok F ?col' st'" using ok' by (auto simp: st'_def intro: dfs_ok_advance split: list.splits)
  have run: "dfs_pop F top_callbacks s rest c = Inr (c\<lparr>cfg_color := ?col', cfg_stack := st', cfg_vis := ?v'\<rparr>)"
    by (auto simp: dfs_pop_def top_callbacks_def st'_def Let_def split: list.splits prod.splits)
  have "top_inv F (c\<lparr>cfg_color := ?col', cfg_stack := st', cfg_vis := ?v'\<rparr>)"
  proof (cases "cfg_dfs c")
    case False
    then show ?thesis using inv ok'' by (simp add: top_inv_def)
  next
    case True
    with pos have len: "length (trs (state_of F s)) \<le> pos" by simp
    from inv True st have t: "topo_list F (top_finish ?v)" "set (top_finish ?v) = {x. x < num_states F \<and> ?col ! x = Black}"
      "\<And>x y. (x, y) \<in> processed F ?col ((s, pos) # rest) \<Longrightarrow> y < num_states F \<and> ?col ! y = Black"
      by (auto simp: top_inv_def)
    have "topo_list F (top_finish ?v @ [s])"
    proof (rule topo_list_snoc [OF t(1)])
      show "s \<notin> set (top_finish ?v)" using t(2) s(3) by simp
      show "y \<in> set (top_finish ?v)" if "(s, y) \<in> edges F" for y
        using t(2,3) processed_all [OF s(1) len that] by blast
    qed
    moreover have "set (top_finish ?v @ [s]) = {x. x < num_states F \<and> ?col' ! x = Black}"
      using t(2) s ok by (auto simp: dfs_ok_def nth_upd split: if_splits)
    moreover have "y < num_states F \<and> ?col' ! y = Black" if "(x, y) \<in> processed F ?col' st'" for x y
    proof -
      have P: "processed F ?col' rest = processed F ?col ((s, pos) # rest)" by (rule processed_pop [OF s(1,2) len])
      have "processed F ?col' st' \<subseteq> insert (case rest of [] \<Rightarrow> (x, y) | (p, ppos) # r \<Rightarrow> (p, s)) (processed F ?col' rest)
          \<and> (rest = [] \<longrightarrow> processed F ?col' st' = processed F ?col' rest)"
      proof (cases rest)
        case (Cons a r)
        obtain p ppos where a: "a = (p, ppos)" by (cases a)
        have p: "p < length ?col'" "p \<notin> fst ` set r" "?col' ! p = Grey" "ppos < length (trs (state_of F p))"
          "nextstate (trs (state_of F p) ! ppos) = s"
          using ok ok' Cons a by (auto simp: dfs_ok_def nth_upd)
        from processed_advance [OF p(1,3,2,4)] p(5) Cons a show ?thesis by (auto simp: st'_def)
      qed (auto simp: st'_def)
      then have "y = s \<or> (x, y) \<in> processed F ?col' rest" using that by (cases rest) (auto split: prod.splits)
      with P t(3) s show ?thesis by (cases "y = s") (auto simp: nth_upd dfs_ok_def)
    qed
    ultimately show ?thesis using True inv ok'' by (auto simp: top_inv_def)
  qed
  with run show ?thesis by blast
qed


lemma top_inv_arc:
  assumes inv: "top_inv F c" and t: "targets_ok F" and st: "cfg_stack c = (s, pos) # rest"
    and go: "cfg_dfs c" and pos: "pos < length (trs (state_of F s))"
  shows "\<exists>c'. dfs_arc top_callbacks any_filter r s pos rest (trs (state_of F s) ! pos) c = Inr (c', True) \<and> top_inv F c'"
proof -
  let ?col = "cfg_color c" let ?y = "nextstate (trs (state_of F s) ! pos)"
  have ok: "dfs_ok F ?col ((s, pos) # rest)" using inv st by (simp add: top_inv_def)
  have s: "s < length ?col" "s \<notin> fst ` set rest" "?col ! s = Grey" "s < num_states F" using ok by (auto simp: dfs_ok_def)
  have e: "(s, ?y) \<in> edges F" by (rule edges_nth [OF s(4) pos])
  have len: "length ?col = num_states F" using ok by (simp add: dfs_ok_def)
  have y: "?y < num_states F" "?y < length ?col" using targets_state [OF t s(4)] pos ok by (simp_all add: dfs_ok_def)
  have adv: "processed F ?col ((s, Suc pos) # rest) = insert (s, ?y) (processed F ?col ((s, pos) # rest))"
    by (rule processed_advance [OF s(1,3,2) pos])
  show ?thesis
  proof (cases "?col ! ?y")
    case White
    have ok': "dfs_ok F (?col[?y := Grey]) ((?y, 0) # (s, pos) # rest)"
      by (rule dfs_ok_push [OF ok]) (use y White pos in auto)
    have P: "processed F (?col[?y := Grey]) ((?y, 0) # (s, pos) # rest) = processed F ?col ((s, pos) # rest)"
      by (rule processed_push [OF y(2) White]) (use s White ok y in \<open>auto simp: dfs_ok_def\<close>)
    have "top_inv F (c\<lparr>cfg_color := ?col[?y := Grey], cfg_stack := (?y, 0) # (s, pos) # rest, cfg_dfs := True\<rparr>)"
      using inv go st ok' White y P len by (auto simp: top_inv_def nth_upd split: if_splits)
    then show ?thesis
      using White y by (simp add: dfs_arc_def vec_index_def any_filter_def top_callbacks_def Let_def)
  next
    case Grey
    then have "?y \<in> fst ` set ((s, pos) # rest)" using ok y by (auto simp: dfs_ok_def)
    then have "(?y, s) \<in> (edges F)\<^sup>*" using ok by (intro chained_path) (auto simp: dfs_ok_def)
    with e have cyc: "cyclic_at F ?y" unfolding cyclic_at_def by (meson rtrancl_into_trancl1)
    then have "top_inv F (c\<lparr>cfg_stack := (s, pos + 1) # rest, cfg_dfs := False, cfg_vis := (cfg_vis c)\<lparr>top_acyclic := False\<rparr>\<rparr>)"
      using dfs_ok_advance [OF ok] by (auto simp: top_inv_def)
    then show ?thesis
      using Grey y by (simp add: dfs_arc_def vec_index_def any_filter_def top_callbacks_def Let_def)
  next
    case Black
    have "top_inv F (c\<lparr>cfg_stack := (s, pos + 1) # rest, cfg_dfs := True\<rparr>)"
      using inv go st dfs_ok_advance [OF ok] Black y adv by (auto simp: top_inv_def)
    then show ?thesis
      using Black y by (simp add: dfs_arc_def vec_index_def any_filter_def top_callbacks_def Let_def)
  qed
qed

lemma top_inv_step:
  assumes "targets_ok F" "top_inv F c" "cfg_stack c \<noteq> []"
  shows "\<exists>c'. dfs_step F top_callbacks any_filter r c = Inr (c', True) \<and> top_inv F c'"
proof -
  obtain s pos rest where st: "cfg_stack c = (s, pos) # rest" using assms(3) by (cases "cfg_stack c") auto
  show ?thesis
  proof (cases "\<not> cfg_dfs c \<or> length (trs (state_of F s)) \<le> pos")
    case True
    with top_inv_pop [OF assms(2) st True] st show ?thesis by (auto simp: dfs_step_def)
  next
    case False
    with top_inv_arc [OF assms(2,1) st, of r] st show ?thesis by (auto simp: dfs_step_def)
  qed
qed

lemma top_inv_tree:
  assumes t: "targets_ok F" and inv: "top_inv F c" "cfg_stack c = []" "cfg_dfs c"
    and y: "y < length (cfg_color c)" "cfg_color c ! y = White"
  shows "\<exists>c'. dfs_tree F top_callbacks any_filter y c = Inr c' \<and> top_inv F c' \<and> cfg_stack c' = []"
proof -
  let ?col = "cfg_color c"
  have ok: "dfs_ok F ?col []" using inv by (simp add: top_inv_def)
  have len: "length ?col = num_states F" using ok by (simp add: dfs_ok_def)
  have n: "y < num_states F" using y(1) len by simp
  have "dfs_ok F (?col[y := Grey]) [(y, 0)]" by (rule dfs_ok_push [OF ok n y(2)]) simp
  moreover have "processed F (?col[y := Grey]) [(y, 0)] = processed F ?col []"
    by (rule processed_push [OF y]) simp
  ultimately have "top_inv F \<lparr>cfg_color = ?col[y := Grey], cfg_stack = [(y, 0)], cfg_dfs = True, cfg_vis = cfg_vis c\<rparr>"
    using inv y n len by (auto simp: top_inv_def nth_upd split: if_splits)
  from dfs_loop_inv [where P = "top_inv F", OF this top_inv_step [OF t]] inv(2) show ?thesis
    by (simp add: dfs_tree_def top_callbacks_def Let_def)
qed

lemma top_visit:
  assumes t: "targets_ok F" and i: "start_state F = Some i"
  shows "\<exists>v. dfs_visit F top_callbacks any_filter False top_visitor_new = Inr (top_finish_visit v) \<and>
    (if top_acyclic v then topo_list F (top_finish v) \<and> set (top_finish v) = {..< num_states F}
     else \<exists>x. cyclic_at F x)"
proof -
  let ?n = "num_states F"
  let ?c0 = "\<lparr>cfg_color = replicate ?n White, cfg_stack = [], cfg_dfs = True, cfg_vis = top_visitor_new\<rparr>"
  have i': "i < ?n" using t i by (simp add: targets_ok_def)
  have "top_inv F ?c0"
    by (auto simp: top_inv_def top_visitor_new_def dfs_ok_def topo_list_def processed_def)
  from top_inv_tree [OF t this, of i] i' obtain c1 where
    c1: "dfs_tree F top_callbacks any_filter i ?c0 = Inr c1" "top_inv F c1" "cfg_stack c1 = []" by auto
  have i1: "i < length (cfg_color c1)" "cfg_color c1 ! i \<noteq> White"
    using dfs_tree_whites(2) [OF c1(1)] dfs_tree_whites(3) [OF c1(1), of i] i' by auto
  define Q where "Q c \<longleftrightarrow> top_inv F c \<and> cfg_stack c = []" for c :: "top_visitor dfs_config"
  let ?r = "next_white (cfg_color c1) 0"
  have wh: "?r < length (cfg_color c1) \<longrightarrow> cfg_color c1 ! ?r = White" using next_white_White by blast
  have sk: "\<forall>j < ?r. j < length (cfg_color c1) \<longrightarrow> cfg_color c1 ! j \<noteq> White"
    using next_white_skip [of 0 _ "cfg_color c1"] by blast
  have ri: "?r \<noteq> i" using wh i1 by auto
  have tree: "\<exists>c'. dfs_tree F top_callbacks any_filter r c = Inr c' \<and> Q c'"
    if "Q c" "cfg_dfs c" "r < length (cfg_color c)" "cfg_color c ! r = White" for c r
    using top_inv_tree [OF t, of c r] that by (auto simp: Q_def)
  have "Q c1" using c1 by (simp add: Q_def)
  from dfs_roots_inv [where Q = Q and V = top_callbacks and F = F and keep = any_filter, OF this _ ri wh i1 sk] tree
  obtain c2 where c2: "dfs_roots F top_callbacks any_filter False i ?r c1 = Inr c2" "Q c2"
    "cfg_dfs c2 \<longrightarrow> (\<forall>j < length (cfg_color c2). cfg_color c2 ! j \<noteq> White)" by blast
  let ?v = "cfg_vis c2"
  have run: "dfs_visit F top_callbacks any_filter False top_visitor_new = Inr (top_finish_visit ?v)"
    using c1(1) c2(1) i i' by (simp add: dfs_visit_def dfs_roots.simps [of _ _ _ _ i i] top_callbacks_def)
  show ?thesis
  proof (cases "cfg_dfs c2")
    case True
    have inv: "top_inv F c2" "cfg_stack c2 = []" using c2(2) by (auto simp: Q_def)
    have "cfg_color c2 ! j = Black" if "j < ?n" for j
      using c2(3) True inv that by (cases "cfg_color c2 ! j") (auto simp: top_inv_def dfs_ok_def)
    with inv True run show ?thesis by (intro exI [of _ ?v]) (auto simp: top_inv_def)
  next
    case False
    with c2(2) run show ?thesis by (intro exI [of _ ?v]) (auto simp: Q_def top_inv_def)
  qed
qed

subsection \<open>The order\<close>

lemma top_order_nth:
  assumes "topo_list F L" "set L = {..< n}" "length L = n" "top_finish v = L" "top_acyclic v"
  shows "length (top_order (top_finish_visit v)) = n" "j < n \<Longrightarrow> top_order (top_finish_visit v) ! (L ! j) = n - 1 - j"
proof -
  have d: "distinct L" using assms(1) by (simp add: topo_list_def)
  define f where "f m = fold (\<lambda>s order. order[L ! (length L - s - 1) := s]) [0 ..< m] (replicate (length L) 0)" for m
  have len: "length (f m) = n" for m by (induction m) (simp_all add: f_def assms(3))
  have nth: "f m ! (L ! (n - s - 1)) = s" if "s < m" "m \<le> n" for m s
    using that
  proof (induction m)
    case (Suc m)
    have f: "f (Suc m) = (f m)[L ! (n - m - 1) := m]" by (simp add: f_def assms(3))
    have in_range: "L ! (n - s - 1) < n" if "s < n" for s
      using nth_mem [of "n - s - 1" L] that assms(2,3) by auto
    show ?case
    proof (cases "s = m")
      case True
      then show ?thesis using f in_range [of m] Suc.prems len by simp
    next
      case False
      then have "s < m" "s < n" using Suc.prems by auto
      moreover have "L ! (n - s - 1) \<noteq> L ! (n - m - 1)"
        using d False Suc.prems assms(3) by (simp add: nth_eq_iff_index_eq)
      ultimately show ?thesis using f Suc in_range [of s] len by simp
    qed
  qed simp
  have e: "top_order (top_finish_visit v) = f n"
    using assms(3-5) by (simp add: top_finish_visit_def f_def)
  show "length (top_order (top_finish_visit v)) = n" using e len by simp
  show "top_order (top_finish_visit v) ! (L ! j) = n - 1 - j" if "j < n"
  proof -
    have "n - (n - 1 - j) - 1 = j" using that by simp
    with nth [of "n - 1 - j" n] that e show ?thesis by simp
  qed
qed

lemma top_order_perm:
  assumes L: "topo_list F L" "set L = {..< num_states F}" and v: "top_finish v = L" "top_acyclic v"
  shows "perm_order (top_order (top_finish_visit v)) (num_states F)"
    and "(x, y) \<in> edges F \<Longrightarrow> x < num_states F \<Longrightarrow> y < num_states F \<Longrightarrow>
      top_order (top_finish_visit v) ! x < top_order (top_finish_visit v) ! y"
proof -
  let ?n = "num_states F" and ?o = "top_order (top_finish_visit v)"
  have d: "distinct L" using L(1) by (simp add: topo_list_def)
  have len: "length L = ?n" using distinct_card [OF d] L(2) by simp
  note o = top_order_nth [OF L(1,2) len v]
  have idx: "\<exists>j < ?n. L ! j = k" if "k < ?n" for k
    using that L(2) len by (metis in_set_conv_nth lessThan_iff)
  have "k \<in> set ?o" if "k < ?n" for k
  proof -
    have "L ! (?n - 1 - k) < ?n" using that L(2) len nth_mem [of "?n - 1 - k" L] by auto
    moreover have "?o ! (L ! (?n - 1 - k)) = k" using o(2) [of "?n - 1 - k"] that by simp
    ultimately show ?thesis using o(1) nth_mem by metis
  qed
  moreover have "k < ?n" if "k \<in> set ?o" for k
  proof -
    from that o(1) obtain m where m: "m < ?n" "?o ! m = k" by (auto simp: in_set_conv_nth)
    with idx obtain j where "j < ?n" "L ! j = m" by blast
    with o(2) [of j] m show ?thesis by auto
  qed
  ultimately have s: "set ?o = {..< ?n}" by auto
  moreover have "distinct ?o" using o(1) s by (intro card_distinct) simp
  ultimately show "perm_order ?o ?n" using o(1) by (simp add: perm_order_def)
  assume e: "(x, y) \<in> edges F" "x < ?n" "y < ?n"
  from idx [OF e(2)] obtain i where i: "i < ?n" "L ! i = x" by blast
  with L(1) len have "\<forall>y. (x, y) \<in> edges F \<longrightarrow> (\<exists>j < i. L ! j = y)" unfolding topo_list_def by metis
  with e(1) obtain j where j: "j < i" "L ! j = y" by blast
  with o(2) [of i] o(2) [of j] i show "?o ! x < ?o ! y" by auto
qed


subsection \<open>The result\<close>

lemma set_known_sound:
  assumes F: "fst_ok W F" and p: "bits_sound W F p"
  shows "fst_ok W (set_properties_with_mask F p p)"
proof -
  have "bits_sound W F ((properties F AND fp_not p) OR p)"
    using F p by (intro bits_sound_or bits_sound_and) (auto simp: fst_ok_def props_sound_def)
  then show ?thesis
    using F by (simp add: fst_ok_def props_sound_def set_properties_with_mask_def)
qed

lemma top_sort_no_start:
  "start_state F = None \<Longrightarrow> top_sort W F =
    (if states F = [] then Inr (set_properties_with_mask F (ACYCLIC OR INITIAL_ACYCLIC OR TOP_SORTED)
        (ACYCLIC OR INITIAL_ACYCLIC OR TOP_SORTED))
     else Inl (Bail ''StateSort : Bad order vector size''))"
  by (simp add: top_sort_def dfs_visit_def top_callbacks_def top_visitor_new_def top_finish_visit_def state_sort_def Let_def)

lemma top_sort_spec:
  assumes F: "fst_ok W F" and i: "start_state F = Some i"
  shows "\<exists>G. top_sort W F = Inr G \<and> fst_ok W G \<and> transduces mul G = transduces mul F \<and>
    (if \<exists>x. cyclic_at F x then states G = states F \<and> start_state G = Some i
     else (\<forall>(x, y) \<in> edges G. x < y) \<and>
       (\<exists>order. perm_order order (num_states F) \<and> copy_of ((!) order) F G))"
proof -
  have t: "targets_ok F" using F by (simp add: fst_ok_def)
  obtain v where v: "dfs_visit F top_callbacks any_filter False top_visitor_new = Inr (top_finish_visit v)"
    "if top_acyclic v then topo_list F (top_finish v) \<and> set (top_finish v) = {..< num_states F} else \<exists>x. cyclic_at F x"
    using top_visit [OF t i] by blast
  have ac: "top_acyclic (top_finish_visit v) = top_acyclic v" by (simp add: top_finish_visit_def)
  show ?thesis
  proof (cases "top_acyclic v")
    case True
    then have L: "topo_list F (top_finish v)" "set (top_finish v) = {..< num_states F}" using v(2) by auto
    let ?o = "top_order (top_finish_visit v)" and ?p = "ACYCLIC OR INITIAL_ACYCLIC OR TOP_SORTED"
    have o: "perm_order ?o (num_states F)" by (rule top_order_perm(1) [OF L refl True])
    from state_sort_ok [OF F o i, of mul] obtain G where
      G: "state_sort W F ?o = Inr G" "fst_ok W G" "num_states G = num_states F" "start_state G = Some (?o ! i)"
        "copy_of ((!) ?o) F G" "transduces mul G = transduces mul F" by blast
    have lt: "x < y" if e: "(x, y) \<in> edges G" for x y
    proof -
      from e obtain u where u: "x < num_states F" "u \<in> set (trs (state_of G x))" "y = nextstate u"
        using G(3) by (auto simp: edges_def arcs_def)
      from perm_order_surj [OF o u(1)] obtain s where s: "s < num_states F" "?o ! s = x" .
      with u G(5) obtain w where w: "w \<in> set (trs (state_of F s))" "y = ?o ! nextstate w"
        by (auto simp: copy_of_def)
      have "(s, nextstate w) \<in> edges F" using s(1) w(1) by (auto simp: edges_def arcs_def)
      from top_order_perm(2) [OF L refl True this s(1) targets_state [OF t s(1) w(1)]] s(2) w(2) show ?thesis by simp
    qed
    have nc: "\<not> cyclic_at G x" for x
    proof
      have "(a, b) \<in> (edges G)\<^sup>+ \<Longrightarrow> a < b" for a b
        by (induction rule: trancl_induct) (auto dest: lt)
      moreover assume "cyclic_at G x"
      ultimately show False unfolding cyclic_at_def by blast
    qed
    have "bit ?p n \<longleftrightarrow> n = 35 \<or> n = 37 \<or> n = 38" for n by (simp add: bit_or_iff flag_bits)
    moreover have "sem W G TopSorted" "\<not> sem W G Cyclic" "\<not> sem W G InitialCyclic" using lt nc by auto
    ultimately have "bits_sound W G ?p"
      unfolding bits_sound_def by (intro allI, case_tac q) (simp_all del: sem.simps)
    then have ok: "fst_ok W (set_properties_with_mask G ?p ?p)" by (rule set_known_sound [OF G(2)])
    have "\<not> (\<exists>x. cyclic_at F x)" using topo_list_acyclic [OF L] by blast
    moreover have "top_sort W F = Inr (set_properties_with_mask G ?p ?p)"
      using v(1) ac True G(1) by (simp add: top_sort_def Let_def)
    moreover have "\<forall>(x, y) \<in> edges (set_properties_with_mask G ?p ?p). x < y"
      using lt by (simp add: set_properties_with_mask_def edges_def arcs_def)
    moreover have "copy_of ((!) ?o) F (set_properties_with_mask G ?p ?p)"
      using G(5) by (simp add: set_properties_with_mask_def copy_of_def)
    ultimately show ?thesis using ok G(6) o by auto
  next
    case False
    let ?p = "CYCLIC OR NOT_TOP_SORTED"
    have c: "\<exists>x. cyclic_at F x" using v(2) False by simp
    have "\<not> sem W F TopSorted"
    proof
      assume "sem W F TopSorted"
      then have lt: "(x, y) \<in> edges F \<Longrightarrow> x < y" for x y by auto
      have "(a, b) \<in> (edges F)\<^sup>+ \<Longrightarrow> a < b" for a b by (induction rule: trancl_induct) (auto dest: lt)
      with c show False unfolding cyclic_at_def by blast
    qed
    moreover have "sem W F Cyclic" using c by simp
    moreover have "bit ?p n \<longleftrightarrow> n = 34 \<or> n = 39" for n by (simp add: bit_or_iff flag_bits)
    ultimately have "bits_sound W F ?p"
      unfolding bits_sound_def by (intro allI, case_tac q) (simp_all del: sem.simps)
    then have "fst_ok W (set_properties_with_mask F ?p ?p)" by (rule set_known_sound [OF F])
    moreover have "top_sort W F = Inr (set_properties_with_mask F ?p ?p)"
      using v(1) ac False by (simp add: top_sort_def Let_def)
    moreover have "states (set_properties_with_mask F ?p ?p) = states F" by (simp add: set_properties_with_mask_def)
    ultimately show ?thesis using c i by simp
  qed
qed

end
