(* ===== verification/Queues.thy ===== *)
theory Queues
  imports Top_Sort
begin

text \<open>
  The work queues of \<open>algorithms/queue.rs\<close> and \<open>algorithms/queues\<close>. The trait is a record of its methods on
  a state \<open>'q\<close>; every method may panic (an index out of range). The locale \<open>lawful_queue\<close> states what a client
  relies on: which states wait, and that a dequeue makes progress.
\<close>

subsection \<open>The interface\<close>

datatype queue_type = TrivialQueue | FifoQueue | LifoQueue | ShortestFirstQueue | TopOrderQueue | StateOrderQueue
  | SccQueue | AutoQueue | OtherQueue

record 'q queue_ops =
  q_head :: "'q \<Rightarrow> (state_id option \<times> 'q) res"
  q_enqueue :: "state_id \<Rightarrow> 'q \<Rightarrow> 'q res"
  q_dequeue :: "'q \<Rightarrow> (state_id option \<times> 'q) res"
  q_update :: "state_id \<Rightarrow> 'q \<Rightarrow> 'q res"
  q_is_empty :: "'q \<Rightarrow> bool res"
  q_clear :: "'q \<Rightarrow> 'q res"
  q_type :: queue_type

text \<open>
  \<open>elems\<close> are the waiting states, \<open>load\<close> bounds the number of dequeues left; a state may wait more than
  once, so a dequeue may leave it waiting. A client enqueues states that are \<open>valid\<close> for the queue: any
  \<open>node\<close> after \<open>clear\<close>, and after a dequeue the targets of the \<open>edge\<close>s of the state served.
\<close>

locale lawful_queue =
  fixes Q :: "'q queue_ops" and ok :: "'q \<Rightarrow> bool" and elems :: "'q \<Rightarrow> state_id set" and load :: "'q \<Rightarrow> nat"
    and valid :: "'q \<Rightarrow> state_id \<Rightarrow> bool" and node :: "state_id \<Rightarrow> bool" and edge :: "state_id \<Rightarrow> state_id \<Rightarrow> bool"
  assumes enqueue_law: "ok q \<Longrightarrow> valid q s \<Longrightarrow> \<exists>q'. q_enqueue Q s q = Inr q' \<and> ok q' \<and> elems q' = insert s (elems q) \<and>
      (\<forall>t. valid q t \<longrightarrow> valid q' t)"
    and dequeue_empty_law: "ok q \<Longrightarrow> elems q = {} \<Longrightarrow> \<exists>q'. q_dequeue Q q = Inr (None, q')"
    and dequeue_law: "ok q \<Longrightarrow> elems q \<noteq> {} \<Longrightarrow> \<exists>s q'. q_dequeue Q q = Inr (Some s, q') \<and> ok q' \<and>
      s \<in> elems q \<and> elems q - {s} \<subseteq> elems q' \<and> elems q' \<subseteq> elems q \<and> load q' < load q \<and> (\<forall>t. edge s t \<longrightarrow> valid q' t)"
    and is_empty_law: "ok q \<Longrightarrow> q_is_empty Q q = Inr (elems q = {})"
    and clear_law: "ok q \<Longrightarrow> \<exists>q'. q_clear Q q = Inr q' \<and> ok q' \<and> elems q' = {} \<and> (\<forall>s. node s \<longrightarrow> valid q' s)"

subsection \<open>First in, first out; last in, first out; at most one\<close>

definition fifo_queue :: "state_id list queue_ops" where
  "fifo_queue =
     \<lparr>q_head = \<lambda>q. Inr (case q of [] \<Rightarrow> None | s # _ \<Rightarrow> Some s, q),
      q_enqueue = \<lambda>s q. Inr (q @ [s]),
      q_dequeue = \<lambda>q. Inr (case q of [] \<Rightarrow> (None, []) | s # q' \<Rightarrow> (Some s, q')),
      q_update = \<lambda>_ q. Inr q,
      q_is_empty = \<lambda>q. Inr (q = []),
      q_clear = \<lambda>_. Inr [],
      q_type = FifoQueue\<rparr>"

text \<open>The top of the vector is its last element.\<close>

definition lifo_queue :: "state_id list queue_ops" where
  "lifo_queue =
     \<lparr>q_head = \<lambda>q. Inr (if q = [] then None else Some (last q), q),
      q_enqueue = \<lambda>s q. Inr (q @ [s]),
      q_dequeue = \<lambda>q. Inr (if q = [] then (None, []) else (Some (last q), butlast q)),
      q_update = \<lambda>_ q. Inr q,
      q_is_empty = \<lambda>q. Inr (q = []),
      q_clear = \<lambda>_. Inr [],
      q_type = LifoQueue\<rparr>"

definition trivial_queue :: "state_id option queue_ops" where
  "trivial_queue =
     \<lparr>q_head = \<lambda>q. Inr (q, q),
      q_enqueue = \<lambda>s _. Inr (Some s),
      q_dequeue = \<lambda>q. Inr (q, None),
      q_update = \<lambda>_ q. Inr q,
      q_is_empty = \<lambda>q. Inr (q = None),
      q_clear = \<lambda>_. Inr None,
      q_type = TrivialQueue\<rparr>"

interpretation fifo: lawful_queue fifo_queue "\<lambda>_. True" set length "\<lambda>_ _. True" "\<lambda>_. True" "\<lambda>_ _. True"
  by unfold_locales (auto simp: fifo_queue_def neq_Nil_conv)

lemma set_butlast: "q \<noteq> [] \<Longrightarrow> set q = insert (last q) (set (butlast q))"
  by (induction q) auto

interpretation lifo: lawful_queue lifo_queue "\<lambda>_. True" set length "\<lambda>_ _. True" "\<lambda>_. True" "\<lambda>_ _. True"
proof (unfold_locales, goal_cases)
  case (3 q)
  then show ?case using set_butlast [of q] by (auto simp: lifo_queue_def)
qed (auto simp: lifo_queue_def)

text \<open>The trivial queue holds one state: it is lawful for a client with one state only.\<close>

interpretation trivial: lawful_queue trivial_queue "\<lambda>q. q \<in> {None, Some s}" set_option "\<lambda>q. if q = None then 0 else 1"
  "\<lambda>_ x. x = s" "\<lambda>x. x = s" "\<lambda>_ x. x = s" for s
  by unfold_locales (auto simp: trivial_queue_def)


subsection \<open>Increasing state numbers\<close>

record state_order_queue =
  so_front :: nat
  so_back :: "nat option"
  so_enqueued :: "bool list"

definition so_new :: state_order_queue where
  "so_new = \<lparr>so_front = 0, so_back = None, so_enqueued = []\<rparr>"

definition so_is_empty :: "state_order_queue \<Rightarrow> bool" where
  "so_is_empty q = (case so_back q of None \<Rightarrow> True | Some b \<Rightarrow> b < so_front q)"

definition so_enqueue :: "state_id \<Rightarrow> state_order_queue \<Rightarrow> state_order_queue res" where
  "so_enqueue s q =
     (let q = (case so_back q of
                 None \<Rightarrow> q\<lparr>so_front := s, so_back := Some s\<rparr>
               | Some b \<Rightarrow>
                   if so_front q > b then q\<lparr>so_front := s, so_back := Some s\<rparr>
                   else if s > b then q\<lparr>so_back := Some s\<rparr>
                   else if s < so_front q then q\<lparr>so_front := s\<rparr> else q);
          e = so_enqueued q @ replicate (Suc s - length (so_enqueued q)) False
      in rbind (vec_set e s True) (\<lambda>e. Inr (q\<lparr>so_enqueued := e\<rparr>)))"

text \<open>The loops that move \<open>front\<close> to the next waiting state; \<open>waits\<close> reads the vector.\<close>

function advance_front :: "(nat \<Rightarrow> bool res) \<Rightarrow> nat \<Rightarrow> nat \<Rightarrow> nat res" where
  "advance_front waits bk front =
     (if bk < front then Inr front
      else rbind (waits front) (\<lambda>w. if w then Inr front else advance_front waits bk (front + 1)))"
  by pat_completeness auto
termination by (relation "measure (\<lambda>(waits, bk, front). Suc bk - front)") auto

declare advance_front.simps [simp del]

definition so_dequeue :: "state_order_queue \<Rightarrow> (state_id option \<times> state_order_queue) res" where
  "so_dequeue q =
     (if so_is_empty q then Inr (None, q)
      else
        let old_head = so_front q
        in rbind (vec_set (so_enqueued q) (so_front q) False) (\<lambda>e.
           rbind (case so_back q of None \<Rightarrow> Inr (so_front q)
                  | Some b \<Rightarrow> advance_front (vec_index e) b (so_front q)) (\<lambda>f.
             Inr (Some old_head, q\<lparr>so_enqueued := e, so_front := f\<rparr>))))"

definition so_clear :: "state_order_queue \<Rightarrow> state_order_queue res" where
  "so_clear q =
     rbind (case so_back q of None \<Rightarrow> Inr (so_enqueued q)
            | Some b \<Rightarrow> for_res (\<lambda>i e. vec_set e i False) [so_front q ..< Suc b] (so_enqueued q)) (\<lambda>e.
       Inr \<lparr>so_front = 0, so_back = None, so_enqueued = e\<rparr>)"

definition state_order_ops :: "state_order_queue queue_ops" where
  "state_order_ops =
     \<lparr>q_head = \<lambda>q. Inr (Some (so_front q), q),
      q_enqueue = so_enqueue,
      q_dequeue = so_dequeue,
      q_update = \<lambda>_ q. Inr q,
      q_is_empty = \<lambda>q. Inr (so_is_empty q),
      q_clear = so_clear,
      q_type = StateOrderQueue\<rparr>"

text \<open>The slots that are taken, and the window they lie in.\<close>

definition window_ok :: "(nat \<Rightarrow> bool) \<Rightarrow> nat \<Rightarrow> nat option \<Rightarrow> nat \<Rightarrow> bool" where
  "window_ok taken front bk n \<longleftrightarrow> (\<forall>k. taken k \<longrightarrow> k < n) \<and>
     (case bk of None \<Rightarrow> \<forall>k. \<not> taken k
      | Some b \<Rightarrow> b < n \<and> (\<forall>k. taken k \<longrightarrow> front \<le> k \<and> k \<le> b) \<and> (front \<le> b \<longrightarrow> taken front))"

lemma advance_front_spec:
  assumes "\<And>k. k \<le> b \<Longrightarrow> waits k = Inr (taken k)"
  shows "\<exists>f'. advance_front waits b f = Inr f' \<and> f \<le> f' \<and> (\<forall>k. f \<le> k \<and> k < f' \<and> k \<le> b \<longrightarrow> \<not> taken k) \<and> (f' \<le> b \<longrightarrow> taken f')"
  using assms
proof (induction waits b f rule: advance_front.induct)
  case (1 waits b f)
  show ?case
  proof (cases "b < f")
    case True
    then show ?thesis by (subst advance_front.simps) auto
  next
    case b: False
    then have w: "waits f = Inr (taken f)" using "1.prems" by simp
    show ?thesis
    proof (cases "taken f")
      case True
      with b w show ?thesis by (subst advance_front.simps) auto
    next
      case False
      from "1.IH" [OF b w False] "1.prems" obtain f' where "advance_front waits b (f + 1) = Inr f'" "f + 1 \<le> f'"
        "\<forall>k. f + 1 \<le> k \<and> k < f' \<and> k \<le> b \<longrightarrow> \<not> taken k" "f' \<le> b \<longrightarrow> taken f'" by blast
      moreover from this(3) False have "\<not> taken k" if "f \<le> k" "k < f'" "k \<le> b" for k
        using that by (cases "k = f") auto
      ultimately show ?thesis using b w False
        by (subst advance_front.simps) (auto intro!: exI [of _ f'])
    qed
  qed
qed

text \<open>How the window moves, for both ordered queues.\<close>

lemma window_insert:
  assumes "window_ok taken front bk n" "i < n'" "n \<le> n'"
  shows "window_ok (\<lambda>k. k = i \<or> taken k)
    (case bk of None \<Rightarrow> i | Some b \<Rightarrow> if front > b then i else if i > b then front else if i < front then i else front)
    (Some (case bk of None \<Rightarrow> i | Some b \<Rightarrow> if front > b then i else if i > b then i else if i < front then b else b)) n'"
  using assms by (cases bk) (force simp: window_ok_def)+

lemma window_empty:
  "window_ok taken front bk n \<Longrightarrow> (case bk of None \<Rightarrow> True | Some b \<Rightarrow> b < front) \<longleftrightarrow> (\<forall>k. \<not> taken k)"
  by (cases bk) (auto simp: window_ok_def not_le dest: leD)

lemma window_remove:
  assumes "window_ok taken front (Some b) n" "front \<le> b" "front \<le> f'"
    and "\<forall>k. front \<le> k \<and> k < f' \<and> k \<le> b \<longrightarrow> \<not> (taken k \<and> k \<noteq> front)" "f' \<le> b \<longrightarrow> taken f' \<and> f' \<noteq> front"
  shows "window_ok (\<lambda>k. taken k \<and> k \<noteq> front) f' (Some b) n"
proof -
  have w: "\<forall>k. taken k \<longrightarrow> k < n" "b < n" "\<forall>k. taken k \<longrightarrow> front \<le> k \<and> k \<le> b"
    using assms(1) by (simp_all add: window_ok_def)
  have "f' \<le> k" if "taken k" "k \<noteq> front" for k
  proof (rule ccontr)
    assume "\<not> f' \<le> k"
    with assms(4) w(3) that show False by auto
  qed
  with w assms(5) show ?thesis by (simp add: window_ok_def)
qed

definition so_taken :: "state_order_queue \<Rightarrow> nat \<Rightarrow> bool" where
  "so_taken q k \<longleftrightarrow> k < length (so_enqueued q) \<and> so_enqueued q ! k"

definition so_ok :: "state_order_queue \<Rightarrow> bool" where
  "so_ok q \<longleftrightarrow> window_ok (so_taken q) (so_front q) (so_back q) (length (so_enqueued q))"

definition so_elems :: "state_order_queue \<Rightarrow> state_id set" where
  "so_elems q = {k. so_taken q k}"

lemma so_new_ok: "so_ok so_new" "so_elems so_new = {}"
  by (simp_all add: so_ok_def so_new_def so_elems_def so_taken_def window_ok_def)

lemma so_is_empty_iff: "so_ok q \<Longrightarrow> so_is_empty q \<longleftrightarrow> so_elems q = {}"
  using window_empty [of "so_taken q"] by (simp add: so_ok_def so_is_empty_def so_elems_def)

lemma nth_pad: "(xs @ replicate (n - length xs) False) ! k \<longleftrightarrow> k < length xs \<and> xs ! k" if "k < max n (length xs)"
  using that by (auto simp: nth_append)

lemma so_enqueue_spec:
  assumes "so_ok q"
  shows "\<exists>q'. so_enqueue s q = Inr q' \<and> so_ok q' \<and> so_elems q' = insert s (so_elems q)"
proof -
  let ?e = "so_enqueued q @ replicate (Suc s - length (so_enqueued q)) False"
  let ?e' = "?e[s := True]"
  define f where "f = (case so_back q of None \<Rightarrow> s | Some b \<Rightarrow>
    if so_front q > b then s else if s > b then so_front q else if s < so_front q then s else so_front q)"
  define bk where "bk = (case so_back q of None \<Rightarrow> s | Some b \<Rightarrow>
    if so_front q > b then s else if s > b then s else if s < so_front q then b else b)"
  let ?q = "q\<lparr>so_front := f, so_back := Some bk, so_enqueued := ?e'\<rparr>"
  have l: "length ?e' = max (Suc s) (length (so_enqueued q))" by simp
  have t: "so_taken ?q k \<longleftrightarrow> k = s \<or> so_taken q k" for k
    using nth_pad [of k "Suc s" "so_enqueued q"] by (auto simp: so_taken_def nth_list_update)
  have e: "so_enqueue s q = Inr ?q"
    by (simp add: so_enqueue_def Let_def vec_set_def f_def bk_def split: option.splits)
  have "window_ok (\<lambda>k. k = s \<or> so_taken q k) f (Some bk) (length ?e')"
    unfolding f_def bk_def
    by (rule window_insert [OF assms [unfolded so_ok_def]]) (simp_all add: l)
  then have "so_ok ?q" by (simp add: so_ok_def t [abs_def])
  moreover have "so_elems ?q = insert s (so_elems q)" by (auto simp: so_elems_def t)
  ultimately show ?thesis using e by blast
qed

lemma so_dequeue_spec:
  assumes ok: "so_ok q" and ne: "so_elems q \<noteq> {}"
  shows "\<exists>q'. so_dequeue q = Inr (Some (Min (so_elems q)), q') \<and> so_ok q' \<and> so_elems q' = so_elems q - {Min (so_elems q)}"
proof -
  from ok ne obtain b where b: "so_back q = Some b" "so_front q \<le> b"
    using so_is_empty_iff [OF ok] by (auto simp: so_is_empty_def split: option.splits)
  let ?f = "so_front q" and ?e = "(so_enqueued q)[so_front q := False]"
  have w: "window_ok (so_taken q) ?f (Some b) (length (so_enqueued q))" using ok b by (simp add: so_ok_def)
  then have f: "so_taken q ?f" "b < length (so_enqueued q)" "\<forall>k. so_taken q k \<longrightarrow> ?f \<le> k \<and> k \<le> b"
    using b(2) by (simp_all add: window_ok_def)
  have m: "Min (so_elems q) = ?f"
    by (rule Min_eqI) (use f in \<open>auto simp: so_elems_def intro: finite_subset [of _ "{..b}"]\<close>)
  have t: "k < length ?e \<and> ?e ! k \<longleftrightarrow> so_taken q k \<and> k \<noteq> ?f" for k
    by (cases "k < length (so_enqueued q)") (auto simp: so_taken_def nth_upd)
  have "vec_index ?e k = Inr (so_taken q k \<and> k \<noteq> ?f)" if "k \<le> b" for k
    using that f(2) t [of k] by (auto simp: vec_index_def)
  from advance_front_spec [of b "vec_index ?e" "\<lambda>k. so_taken q k \<and> k \<noteq> ?f" ?f, OF this] obtain f' where
    f': "advance_front (vec_index ?e) b ?f = Inr f'" "?f \<le> f'"
      "\<forall>k. ?f \<le> k \<and> k < f' \<and> k \<le> b \<longrightarrow> \<not> (so_taken q k \<and> k \<noteq> ?f)" "f' \<le> b \<longrightarrow> so_taken q f' \<and> f' \<noteq> ?f" by blast
  let ?q = "q\<lparr>so_enqueued := ?e, so_front := f'\<rparr>"
  have t': "so_taken ?q k \<longleftrightarrow> so_taken q k \<and> k \<noteq> ?f" for k
    using t [of k] by (simp add: so_taken_def)
  have "window_ok (\<lambda>k. so_taken q k \<and> k \<noteq> ?f) f' (Some b) (length (so_enqueued q))"
    by (rule window_remove [OF w b(2) f'(2-4)])
  then have "so_ok ?q" by (simp add: so_ok_def t' [abs_def] b)
  moreover have "so_elems ?q = so_elems q - {?f}" by (auto simp: so_elems_def t')
  moreover have "so_dequeue q = Inr (Some ?f, ?q)"
    using b f(1) f'(1) by (simp add: so_dequeue_def so_is_empty_def vec_set_def so_taken_def)
  ultimately show ?thesis unfolding m by blast
qed

lemma for_vec_set:
  assumes "\<forall>i \<in> set is. i < length xs"
  shows "\<exists>ys. for_res (\<lambda>i e. vec_set e i x) is xs = Inr ys \<and> length ys = length xs \<and>
    (\<forall>k < length xs. ys ! k = (if k \<in> set is then x else xs ! k))"
  using assms
proof (induction "is" arbitrary: xs)
  case (Cons i "is")
  then have "i < length xs" "\<forall>j \<in> set is. j < length (xs[i := x])" by auto
  with Cons.IH [of "xs[i := x]"] show ?case by (auto simp: vec_set_def nth_list_update)
qed simp

lemma so_clear_spec:
  assumes "so_ok q"
  shows "\<exists>q'. so_clear q = Inr q' \<and> so_ok q' \<and> so_elems q' = {}"
proof (cases "so_back q")
  case None
  with assms show ?thesis
    by (auto simp: so_clear_def so_ok_def window_ok_def so_elems_def so_taken_def)
next
  case (Some b)
  then have w: "b < length (so_enqueued q)" "\<forall>k. so_taken q k \<longrightarrow> so_front q \<le> k \<and> k \<le> b"
    using assms by (simp_all add: so_ok_def window_ok_def)
  then have "\<forall>i \<in> set [so_front q ..< Suc b]. i < length (so_enqueued q)" by auto
  from for_vec_set [OF this, of False] obtain e where e:
    "for_res (\<lambda>i e. vec_set e i False) [so_front q ..< Suc b] (so_enqueued q) = Inr e" "length e = length (so_enqueued q)"
    "\<forall>k < length (so_enqueued q). e ! k = (if k \<in> set [so_front q ..< Suc b] then False else so_enqueued q ! k)" by blast
  let ?q = "\<lparr>so_front = 0, so_back = None, so_enqueued = e\<rparr>"
  have "\<not> so_taken ?q k" for k
    using e(2,3) w(2) by (auto simp: so_taken_def less_Suc_eq_le split: if_splits)
  then have "so_ok ?q" "so_elems ?q = {}" by (simp_all add: so_ok_def window_ok_def so_elems_def)
  moreover have "so_clear q = Inr ?q" using Some e(1) by (simp add: so_clear_def del: upt_Suc)
  ultimately show ?thesis by blast
qed

lemma so_finite: "finite (so_elems q)"
  by (rule finite_subset [of _ "{..< length (so_enqueued q)}"]) (auto simp: so_elems_def so_taken_def)

interpretation state_order: lawful_queue state_order_ops so_ok so_elems "\<lambda>q. card (so_elems q)"
  "\<lambda>_ _. True" "\<lambda>_. True" "\<lambda>_ _. True"
proof (unfold_locales, goal_cases)
  case (1 q s)
  then show ?case using so_enqueue_spec by (simp add: state_order_ops_def)
next
  case (2 q)
  then show ?case using so_is_empty_iff by (simp add: state_order_ops_def so_dequeue_def)
next
  case (3 q)
  have m: "Min (so_elems q) \<in> so_elems q" using 3 so_finite by (intro Min_in)
  then have "card (so_elems q - {Min (so_elems q)}) < card (so_elems q)" by (intro card_Diff1_less so_finite)
  with so_dequeue_spec [OF 3] m show ?case by (auto simp: state_order_ops_def)
next
  case (4 q)
  then show ?case using so_is_empty_iff by (simp add: state_order_ops_def)
next
  case (5 q)
  then show ?case using so_clear_spec by (simp add: state_order_ops_def)
qed

subsection \<open>A precomputed order\<close>

record top_order_queue =
  to_order :: "state_id list"
  to_state :: "state_id option list"
  to_front :: state_id
  to_back :: "state_id option"

definition from_precomputed_order :: "state_id list \<Rightarrow> top_order_queue" where
  "from_precomputed_order order =
     \<lparr>to_order = order, to_state = replicate (length order) None, to_front = 0, to_back = None\<rparr>"

definition top_order_queue_new :: "'w vfst \<Rightarrow> ('w tr \<Rightarrow> bool) \<Rightarrow> top_order_queue res" where
  "top_order_queue_new F keep =
     rbind (dfs_visit F top_callbacks keep False top_visitor_new) (\<lambda>v.
       if \<not> top_acyclic v then Inl (Panic ''Unexpectted Acyclic FST for TopOprerQueue'')
       else Inr (from_precomputed_order (top_order v)))"

definition to_is_empty :: "top_order_queue \<Rightarrow> bool" where
  "to_is_empty q = (case to_back q of None \<Rightarrow> True | Some b \<Rightarrow> b < to_front q)"

definition to_enqueue :: "state_id \<Rightarrow> top_order_queue \<Rightarrow> top_order_queue res" where
  "to_enqueue s q =
     rbind (vec_index (to_order q) s) (\<lambda>i.
       let q = (case to_back q of
                  None \<Rightarrow> q\<lparr>to_front := i, to_back := Some i\<rparr>
                | Some b \<Rightarrow>
                    if to_front q > b then q\<lparr>to_front := i, to_back := Some i\<rparr>
                    else if i > b then q\<lparr>to_back := Some i\<rparr>
                    else if i < to_front q then q\<lparr>to_front := i\<rparr> else q)
       in rbind (vec_set (to_state q) i (Some s)) (\<lambda>st. Inr (q\<lparr>to_state := st\<rparr>)))"

definition to_dequeue :: "top_order_queue \<Rightarrow> (state_id option \<times> top_order_queue) res" where
  "to_dequeue q =
     (if to_is_empty q then Inr (None, q)
      else
        rbind (vec_index (to_state q) (to_front q)) (\<lambda>old_head.
        rbind (vec_set (to_state q) (to_front q) None) (\<lambda>st.
        rbind (case to_back q of None \<Rightarrow> Inr (to_front q)
               | Some b \<Rightarrow> advance_front (\<lambda>k. rbind (vec_index st k) (\<lambda>x. Inr (x \<noteq> None))) b (to_front q)) (\<lambda>f.
          Inr (old_head, q\<lparr>to_state := st, to_front := f\<rparr>)))))"

definition to_clear :: "top_order_queue \<Rightarrow> top_order_queue res" where
  "to_clear q =
     rbind (case to_back q of None \<Rightarrow> Inr (to_state q)
            | Some b \<Rightarrow> for_res (\<lambda>i st. vec_set st i None) [to_front q ..< Suc b] (to_state q)) (\<lambda>st.
       Inr (q\<lparr>to_state := st, to_front := 0, to_back := None\<rparr>))"

definition top_order_ops :: "top_order_queue queue_ops" where
  "top_order_ops =
     \<lparr>q_head = \<lambda>q. rbind (vec_index (to_state q) (to_front q)) (\<lambda>s. Inr (s, q)),
      q_enqueue = to_enqueue,
      q_dequeue = to_dequeue,
      q_update = \<lambda>_ q. Inr q,
      q_is_empty = \<lambda>q. Inr (to_is_empty q),
      q_clear = to_clear,
      q_type = TopOrderQueue\<rparr>"

definition to_taken :: "top_order_queue \<Rightarrow> nat \<Rightarrow> bool" where
  "to_taken q k \<longleftrightarrow> k < length (to_state q) \<and> to_state q ! k \<noteq> None"

definition to_elems :: "top_order_queue \<Rightarrow> state_id set" where
  "to_elems q = {s. \<exists>k < length (to_state q). to_state q ! k = Some s}"

definition to_ok :: "state_id list \<Rightarrow> top_order_queue \<Rightarrow> bool" where
  "to_ok order q \<longleftrightarrow> perm_order order (length order) \<and> to_order q = order \<and> length (to_state q) = length order \<and>
     window_ok (to_taken q) (to_front q) (to_back q) (length order) \<and>
     (\<forall>k < length order. \<forall>s. to_state q ! k = Some s \<longrightarrow> s < length order \<and> order ! s = k)"

lemma to_new_ok:
  "perm_order order (length order) \<Longrightarrow> to_ok order (from_precomputed_order order)"
  "to_elems (from_precomputed_order order) = {}"
  by (simp_all add: to_ok_def from_precomputed_order_def to_elems_def to_taken_def window_ok_def)

lemma to_is_empty_iff: "to_ok order q \<Longrightarrow> to_is_empty q \<longleftrightarrow> to_elems q = {}"
  using window_empty [of "to_taken q" "to_front q" "to_back q" "length order"]
  by (auto simp: to_ok_def to_is_empty_def to_elems_def to_taken_def)

lemma to_elems_iff:
  assumes "to_ok order q"
  shows "s \<in> to_elems q \<longleftrightarrow> s < length order \<and> to_state q ! (order ! s) = Some s"
    "s \<in> to_elems q \<longleftrightarrow> s < length order \<and> to_taken q (order ! s)"
proof -
  have o: "perm_order order (length order)" "length (to_state q) = length order"
    "\<And>k s. k < length order \<Longrightarrow> to_state q ! k = Some s \<Longrightarrow> s < length order \<and> order ! s = k"
    using assms by (auto simp: to_ok_def)
  note lt = perm_order_nth(1) [OF o(1)]
  show e: "s \<in> to_elems q \<longleftrightarrow> s < length order \<and> to_state q ! (order ! s) = Some s"
    using o(2,3) lt by (auto simp: to_elems_def)
  show "s \<in> to_elems q \<longleftrightarrow> s < length order \<and> to_taken q (order ! s)"
    unfolding e to_taken_def using o lt perm_order_nth(2) [OF o(1)] by (metis not_None_eq option.inject)
qed

lemma to_enqueue_spec:
  assumes ok: "to_ok order q" and s: "s < length order"
  shows "\<exists>q'. to_enqueue s q = Inr q' \<and> to_ok order q' \<and> to_elems q' = insert s (to_elems q)"
proof -
  have o: "perm_order order (length order)" "to_order q = order" "length (to_state q) = length order"
    "\<And>k s. k < length order \<Longrightarrow> to_state q ! k = Some s \<Longrightarrow> s < length order \<and> order ! s = k"
    and w: "window_ok (to_taken q) (to_front q) (to_back q) (length order)"
    using ok by (auto simp: to_ok_def)
  let ?i = "order ! s"
  have i: "?i < length order" by (rule perm_order_nth(1) [OF o(1) s])
  define f where "f = (case to_back q of None \<Rightarrow> ?i | Some b \<Rightarrow>
    if to_front q > b then ?i else if ?i > b then to_front q else if ?i < to_front q then ?i else to_front q)"
  define bk where "bk = (case to_back q of None \<Rightarrow> ?i | Some b \<Rightarrow>
    if to_front q > b then ?i else if ?i > b then ?i else if ?i < to_front q then b else b)"
  let ?q = "q\<lparr>to_front := f, to_back := Some bk, to_state := (to_state q)[?i := Some s]\<rparr>"
  have t: "to_taken ?q k \<longleftrightarrow> k = ?i \<or> to_taken q k" for k
    using i o(3) by (cases "k < length order") (auto simp: to_taken_def nth_upd)
  have e: "to_enqueue s q = Inr ?q"
    using s i o(2,3) by (simp add: to_enqueue_def Let_def vec_index_def vec_set_def f_def bk_def split: option.splits)
  have W: "window_ok (to_taken ?q) f (Some bk) (length order)"
    unfolding t [abs_def] unfolding f_def bk_def by (rule window_insert [OF w i order_refl])
  have R: "\<forall>k < length order. \<forall>r. to_state ?q ! k = Some r \<longrightarrow> r < length order \<and> order ! r = k"
  proof (intro allI impI)
    fix k r
    assume "k < length order" "to_state ?q ! k = Some r"
    then show "r < length order \<and> order ! r = k"
      using o(3) o(4) [of k r] s by (cases "k = ?i") (auto simp: nth_upd)
  qed
  have ok': "to_ok order ?q"
    unfolding to_ok_def
  proof (intro conjI)
    show "window_ok (to_taken ?q) (to_front ?q) (to_back ?q) (length order)" using W by simp
    show "\<forall>k < length order. \<forall>r. to_state ?q ! k = Some r \<longrightarrow> r < length order \<and> order ! r = k" by (rule R)
  qed (use o(1-3) in simp_all)
  have "to_elems ?q = insert s (to_elems q)"
    using to_elems_iff(2) [OF ok'] to_elems_iff(2) [OF ok] s perm_order_nth(2) [OF o(1)] by (auto simp: t)
  with e ok' show ?thesis by blast
qed

text \<open>The state served first is the one that comes first in the order.\<close>

lemma to_dequeue_spec:
  assumes ok: "to_ok order q" and ne: "to_elems q \<noteq> {}"
  shows "\<exists>s q'. to_dequeue q = Inr (Some s, q') \<and> to_ok order q' \<and> s \<in> to_elems q \<and>
    (\<forall>r \<in> to_elems q. order ! s \<le> order ! r) \<and> to_elems q' = to_elems q - {s}"
proof -
  have o: "perm_order order (length order)" "to_order q = order" "length (to_state q) = length order"
    "\<And>k s. k < length order \<Longrightarrow> to_state q ! k = Some s \<Longrightarrow> s < length order \<and> order ! s = k"
    using ok by (auto simp: to_ok_def)
  from ok ne obtain b where b: "to_back q = Some b" "to_front q \<le> b"
    using to_is_empty_iff [OF ok] by (auto simp: to_is_empty_def split: option.splits)
  let ?f = "to_front q" and ?st = "(to_state q)[to_front q := None]"
  have w: "window_ok (to_taken q) ?f (Some b) (length order)" using ok b by (simp add: to_ok_def)
  then have f: "to_taken q ?f" "b < length order" "\<forall>k. to_taken q k \<longrightarrow> ?f \<le> k \<and> k \<le> b"
    using b(2) by (simp_all add: window_ok_def)
  from f(1) o(3) obtain s where s: "?f < length order" "to_state q ! ?f = Some s" by (auto simp: to_taken_def)
  note sf = o(4) [OF s]
  have t: "k < length ?st \<and> ?st ! k \<noteq> None \<longleftrightarrow> to_taken q k \<and> k \<noteq> ?f" for k
    by (cases "k < length (to_state q)") (auto simp: to_taken_def nth_upd)
  have "rbind (vec_index ?st k) (\<lambda>x. Inr (x \<noteq> None)) = Inr (to_taken q k \<and> k \<noteq> ?f)" if "k \<le> b" for k
    using that f(2) o(3) t [of k] by (auto simp: vec_index_def)
  from advance_front_spec [of b "\<lambda>k. rbind (vec_index ?st k) (\<lambda>x. Inr (x \<noteq> None))" "\<lambda>k. to_taken q k \<and> k \<noteq> ?f" ?f, OF this]
  obtain f' where
    f': "advance_front (\<lambda>k. rbind (vec_index ?st k) (\<lambda>x. Inr (x \<noteq> None))) b ?f = Inr f'" "?f \<le> f'"
      "\<forall>k. ?f \<le> k \<and> k < f' \<and> k \<le> b \<longrightarrow> \<not> (to_taken q k \<and> k \<noteq> ?f)" "f' \<le> b \<longrightarrow> to_taken q f' \<and> f' \<noteq> ?f" by blast
  let ?q = "q\<lparr>to_state := ?st, to_front := f'\<rparr>"
  have t': "to_taken ?q k \<longleftrightarrow> to_taken q k \<and> k \<noteq> ?f" for k using t [of k] by (simp add: to_taken_def)
  have "window_ok (\<lambda>k. to_taken q k \<and> k \<noteq> ?f) f' (Some b) (length order)"
    by (rule window_remove [OF w b(2) f'(2-4)])
  moreover have "r < length order \<and> order ! r = k" if "k < length order" "to_state ?q ! k = Some r" for k r
    using that o(3) o(4) [of k r] by (cases "k = ?f") (auto simp: nth_upd)
  ultimately have ok': "to_ok order ?q" using o(1-3) b(1) by (simp add: to_ok_def t' [abs_def])
  have es: "s \<in> to_elems q" using sf s to_elems_iff(1) [OF ok, of s] by auto
  have "to_elems ?q = to_elems q - {s}"
    using to_elems_iff(2) [OF ok'] to_elems_iff(2) [OF ok] sf perm_order_nth(2) [OF o(1)] by (auto simp: t')
  moreover have "\<forall>r \<in> to_elems q. order ! s \<le> order ! r"
    using f(3) sf to_elems_iff(2) [OF ok] by auto
  moreover have "to_dequeue q = Inr (Some s, ?q)"
    using b s f'(1) o(3) by (simp add: to_dequeue_def to_is_empty_def vec_set_def vec_index_def)
  ultimately show ?thesis using ok' es by blast
qed

lemma to_clear_spec:
  assumes ok: "to_ok order q"
  shows "\<exists>q'. to_clear q = Inr q' \<and> to_ok order q' \<and> to_elems q' = {}"
proof -
  have o: "perm_order order (length order)" "to_order q = order" "length (to_state q) = length order"
    using ok by (auto simp: to_ok_def)
  have *: "to_ok order (q\<lparr>to_state := st, to_front := 0, to_back := None\<rparr>) \<and>
      to_elems (q\<lparr>to_state := st, to_front := 0, to_back := None\<rparr>) = {}"
    if "length st = length order" "\<forall>k < length order. st ! k = None" for st
    using that o by (simp add: to_ok_def window_ok_def to_taken_def to_elems_def)
  show ?thesis
  proof (cases "to_back q")
    case None
    then have "\<forall>k. \<not> to_taken q k" using ok by (simp add: to_ok_def window_ok_def)
    then have "\<forall>k < length order. to_state q ! k = None" using o(3) by (simp add: to_taken_def)
    with * [of "to_state q"] o None show ?thesis by (simp add: to_clear_def)
  next
    case (Some b)
    then have w: "b < length order" "\<forall>k. to_taken q k \<longrightarrow> to_front q \<le> k \<and> k \<le> b"
      using ok by (simp_all add: to_ok_def window_ok_def)
    then have "\<forall>i \<in> set [to_front q ..< Suc b]. i < length (to_state q)" using o by auto
    from for_vec_set [OF this, of None] obtain st where st:
      "for_res (\<lambda>i st. vec_set st i None) [to_front q ..< Suc b] (to_state q) = Inr st" "length st = length (to_state q)"
      "\<forall>k < length (to_state q). st ! k = (if k \<in> set [to_front q ..< Suc b] then None else to_state q ! k)" by blast
    have "\<forall>k < length order. st ! k = None"
      using st(3) w(2) o(3) by (auto simp: to_taken_def less_Suc_eq_le)
    with * [of st] st(1,2) o Some show ?thesis by (simp add: to_clear_def del: upt_Suc)
  qed
qed

lemma to_finite: "to_ok order q \<Longrightarrow> finite (to_elems q)"
  by (rule finite_subset [of _ "{..< length order}"]) (use to_elems_iff(1) [of order q] in blast, simp)

interpretation top_order: lawful_queue top_order_ops "to_ok order" to_elems "\<lambda>q. card (to_elems q)"
  "\<lambda>_ s. s < length order" "\<lambda>s. s < length order" "\<lambda>_ s. s < length order" for order
proof (unfold_locales, goal_cases)
  case (1 q s)
  then show ?case using to_enqueue_spec by (simp add: top_order_ops_def)
next
  case (2 q)
  then show ?case using to_is_empty_iff by (simp add: top_order_ops_def to_dequeue_def)
next
  case (3 q)
  from to_dequeue_spec [OF 3] obtain s q' where s: "to_dequeue q = Inr (Some s, q')" "to_ok order q'" "s \<in> to_elems q"
    "to_elems q' = to_elems q - {s}" by blast
  have "card (to_elems q - {s}) < card (to_elems q)" by (intro card_Diff1_less to_finite [OF 3(1)] s(3))
  with s show ?case by (auto simp: top_order_ops_def)
next
  case (4 q)
  then show ?case using to_is_empty_iff by (simp add: top_order_ops_def)
next
  case (5 q)
  then show ?case using to_clear_spec by (simp add: top_order_ops_def)
qed

end
