(* ===== verification/Shortest_Distance.thy ===== *)
theory Shortest_Distance
  imports Queues Semiring_Instances
begin

text \<open>
  \<open>algorithms/shortest_distance.rs\<close>: the single-source shortest distance of a transducer with any queue
  discipline. The comparison \<open>approx_equal\<close> with the configured \<open>delta\<close> is part of the configuration, as
  it belongs to the weight type. The loop may run for ever, so it is option-valued.
\<close>

subsection \<open>The algorithm\<close>

record ('w, 'q) sd_config =
  sd_ops :: "'q queue_ops"
  sd_filter :: "'w tr \<Rightarrow> bool"
  sd_first_path :: bool
  sd_retain :: bool
  sd_approx :: "'w \<Rightarrow> 'w \<Rightarrow> bool"

record ('w, 'q) sd_state =
  sd_queue :: 'q
  sd_enqueued :: "bool list"
  sd_distance :: "'w list"
  sd_adder :: "'w list"
  sd_radder :: "'w list"
  sd_sources :: "state_id option list"
  sd_source_id :: nat

definition sd_new :: "'q \<Rightarrow> ('w, 'q) sd_state" where
  "sd_new q = \<lparr>sd_queue = q, sd_enqueued = [], sd_distance = [], sd_adder = [], sd_radder = [], sd_sources = [], sd_source_id = 0\<rparr>"

definition sd_ensure :: "'w semiring \<Rightarrow> nat \<Rightarrow> ('w, 'q) sd_state \<Rightarrow> ('w, 'q) sd_state" where
  "sd_ensure W i st =
     (let n = Suc i - length (sd_distance st)
      in st\<lparr>sd_distance := sd_distance st @ replicate n (zero_w W), sd_enqueued := sd_enqueued st @ replicate n False,
            sd_adder := sd_adder st @ replicate n (zero_w W), sd_radder := sd_radder st @ replicate n (zero_w W)\<rparr>)"

definition sd_ensure_source :: "nat \<Rightarrow> ('w, 'q) sd_state \<Rightarrow> ('w, 'q) sd_state" where
  "sd_ensure_source i st = st\<lparr>sd_sources := sd_sources st @ replicate (Suc i - length (sd_sources st)) None\<rparr>"

text \<open>In retain mode the entries of an earlier source are reset when a state is first touched.\<close>

definition sd_touch :: "'w semiring \<Rightarrow> ('w, 'q) sd_config \<Rightarrow> nat \<Rightarrow> ('w, 'q) sd_state \<Rightarrow> ('w, 'q) sd_state res" where
  "sd_touch W c i st =
     (if \<not> sd_retain c then Inr st
      else
        let st = sd_ensure_source i st
        in rbind (vec_index (sd_sources st) i) (\<lambda>src.
           if src = Some (sd_source_id st) then Inr st
           else Inr (st\<lparr>sd_distance := (sd_distance st)[i := zero_w W], sd_adder := (sd_adder st)[i := zero_w W],
                        sd_radder := (sd_radder st)[i := zero_w W], sd_enqueued := (sd_enqueued st)[i := False],
                        sd_sources := (sd_sources st)[i := Some (sd_source_id st)]\<rparr>)))"

definition sd_relax ::
  "'w semiring \<Rightarrow> ('w, 'q) sd_config \<Rightarrow> 'w \<Rightarrow> state_id \<Rightarrow> 'w tr \<Rightarrow> ('w, 'q) sd_state \<Rightarrow> ('w, 'q) sd_state res"
where
  "sd_relax W c r state t st =
     (if \<not> sd_filter c t then Inr st
      else
        let i = nextstate t
        in rbind (sd_touch W c i (sd_ensure W i st)) (\<lambda>st.
           rbind (vec_index (sd_distance st) i) (\<lambda>nd.
           rbind (vec_index (sd_adder st) i) (\<lambda>na.
           rbind (vec_index (sd_radder st) i) (\<lambda>nr.
           rbind (times_w W r (weight t)) (\<lambda>w.
           rbind (plus_w W nd w) (\<lambda>sum.
             if sd_approx c nd sum then Inr st
             else
               rbind (plus_w W na w) (\<lambda>na.
               rbind (plus_w W nr w) (\<lambda>nr.
                 let st = st\<lparr>sd_adder := (sd_adder st)[i := na], sd_distance := (sd_distance st)[i := na],
                             sd_radder := (sd_radder st)[i := nr]\<rparr>
                 in rbind (vec_index (sd_enqueued st) state) (\<lambda>e.
                    if \<not> e
                    then rbind (q_enqueue (sd_ops c) i (sd_queue st)) (\<lambda>q.
                           Inr (st\<lparr>sd_queue := q, sd_enqueued := (sd_enqueued st)[i := True]\<rparr>))
                    else rbind (q_update (sd_ops c) i (sd_queue st)) (\<lambda>q. Inr (st\<lparr>sd_queue := q\<rparr>))))))))))))"

text \<open>One turn of the loop; the flag says whether it goes on.\<close>

definition sd_iter ::
  "'w semiring \<Rightarrow> 'w vfst \<Rightarrow> ('w, 'q) sd_config \<Rightarrow> ('w, 'q) sd_state \<Rightarrow> (('w, 'q) sd_state \<times> bool) res"
where
  "sd_iter W F c st =
     rbind (q_dequeue (sd_ops c) (sd_queue st)) (\<lambda>(next_state, q).
       let st = st\<lparr>sd_queue := q\<rparr>
       in case next_state of
            None \<Rightarrow> Inr (st, False)
          | Some state \<Rightarrow>
              rbind (if sd_first_path c then rbind (final_weight_of F state) (\<lambda>f. Inr (f \<noteq> None)) else Inr False) (\<lambda>stop.
                if stop then Inr (st, False)
                else
                  rbind (vec_set (sd_enqueued st) state False) (\<lambda>e.
                  rbind (vec_index (sd_radder st) state) (\<lambda>r.
                  rbind (vec_set (sd_radder st) state (zero_w W)) (\<lambda>ra.
                  rbind (get_trs F state) (\<lambda>ts.
                  rbind (for_res (sd_relax W c r state) ts (st\<lparr>sd_enqueued := e, sd_radder := ra\<rparr>)) (\<lambda>st.
                    Inr (st, True))))))))"

partial_function (option) sd_loop ::
  "'w semiring \<Rightarrow> 'w vfst \<Rightarrow> ('w, 'q) sd_config \<Rightarrow> ('w, 'q) sd_state \<Rightarrow> ('w, 'q) sd_state res option"
where
  "sd_loop W F c st =
     (case sd_iter W F c st of
        Inl e \<Rightarrow> Some (Inl e)
      | Inr (st, go) \<Rightarrow> if go then sd_loop W F c st else Some (Inr st))"

declare sd_loop.simps [code]

definition sd_forget :: "('w, 'q) sd_config \<Rightarrow> ('w, 'q) sd_state \<Rightarrow> ('w, 'q) sd_state" where
  "sd_forget c st = (if sd_retain c then st
     else st\<lparr>sd_distance := [], sd_adder := [], sd_radder := [], sd_enqueued := []\<rparr>)"

definition sd_begin ::
  "'w semiring \<Rightarrow> ('w, 'q) sd_config \<Rightarrow> state_id \<Rightarrow> ('w, 'q) sd_state \<Rightarrow> ('w, 'q) sd_state res"
where
  "sd_begin W c source st =
     rbind (q_clear (sd_ops c) (sd_queue st)) (\<lambda>q.
       let st = sd_ensure W source (sd_forget c (st\<lparr>sd_queue := q\<rparr>));
           st = (if sd_retain c
                 then (let st = sd_ensure_source source st
                       in st\<lparr>sd_sources := (sd_sources st)[source := Some (sd_source_id st)]\<rparr>)
                 else st);
           st = st\<lparr>sd_distance := (sd_distance st)[source := one_w W], sd_adder := (sd_adder st)[source := one_w W],
                   sd_radder := (sd_radder st)[source := one_w W], sd_enqueued := (sd_enqueued st)[source := True]\<rparr>
       in rbind (q_enqueue (sd_ops c) source (sd_queue st)) (\<lambda>q. Inr (st\<lparr>sd_queue := q\<rparr>)))"

definition shortest_distance_in_place ::
  "'w semiring \<Rightarrow> 'w vfst \<Rightarrow> ('w, 'q) sd_config \<Rightarrow> state_id option \<Rightarrow> ('w, 'q) sd_state \<Rightarrow> ('w, 'q) sd_state res option"
where
  "shortest_distance_in_place W F c source st =
     (case start_state F of
        None \<Rightarrow> Some (Inr (sd_forget c st))
      | Some start \<Rightarrow>
          if \<not> declares W RIGHT_SEMIRING
          then Some (Inl (Bail ''ShortestDistance: Weight needs to be right distributive''))
          else if sd_first_path c \<and> \<not> declares W PATH
          then Some (Inl (Bail ''ShortestDistance: The first_path option is disallowed when Weight does not have the path property''))
          else
            case sd_begin W c (case source of None \<Rightarrow> start | Some s \<Rightarrow> s) st of
              Inl e \<Rightarrow> Some (Inl e)
            | Inr st \<Rightarrow>
                map_option (\<lambda>r. rbind r (\<lambda>st. Inr (st\<lparr>sd_source_id := sd_source_id st + 1\<rparr>))) (sd_loop W F c st))"

definition shortest_distance_with_internal_config ::
  "'w semiring \<Rightarrow> 'w vfst \<Rightarrow> ('w, 'q) sd_config \<Rightarrow> state_id option \<Rightarrow> 'q \<Rightarrow> 'w list res option"
where
  "shortest_distance_with_internal_config W F c source queue =
     map_option (\<lambda>r. rbind r (\<lambda>st. Inr (sd_distance st)))
       (shortest_distance_in_place W F (c\<lparr>sd_retain := False\<rparr>) source (sd_new queue))"

subsection \<open>What it computes\<close>

text \<open>The weights of the paths from a state, along the transitions the filter keeps.\<close>

inductive path_from :: "'w semiring \<Rightarrow> ('w \<Rightarrow> 'w \<Rightarrow> 'w) \<Rightarrow> 'w vfst \<Rightarrow> ('w tr \<Rightarrow> bool) \<Rightarrow> state_id \<Rightarrow> state_id \<Rightarrow> 'w \<Rightarrow> bool"
  for W mul F keep s where
  path_empty: "path_from W mul F keep s s (one_w W)"
| path_step: "path_from W mul F keep s u w \<Longrightarrow> (u, t) \<in> arcs F \<Longrightarrow> keep t \<Longrightarrow>
    path_from W mul F keep s (nextstate t) (mul w (weight t))"

text \<open>The sums of finitely many of them.\<close>

inductive path_sum ::
  "'w semiring \<Rightarrow> ('w \<Rightarrow> 'w \<Rightarrow> 'w) \<Rightarrow> ('w \<Rightarrow> 'w \<Rightarrow> 'w) \<Rightarrow> 'w vfst \<Rightarrow> ('w tr \<Rightarrow> bool) \<Rightarrow> state_id \<Rightarrow> state_id \<Rightarrow> 'w \<Rightarrow> bool"
  for W add mul F keep s u where
  sum_none: "path_sum W add mul F keep s u (zero_w W)"
| sum_more: "path_sum W add mul F keep s u a \<Longrightarrow> path_from W mul F keep s u w \<Longrightarrow> path_sum W add mul F keep s u (add a w)"

text \<open>
  \<open>d\<close> is the shortest distance: a sum of path weights that absorbs the weight of every path.
\<close>

definition shortest_dist ::
  "'w semiring \<Rightarrow> ('w \<Rightarrow> 'w \<Rightarrow> 'w) \<Rightarrow> ('w \<Rightarrow> 'w \<Rightarrow> 'w) \<Rightarrow> 'w vfst \<Rightarrow> ('w tr \<Rightarrow> bool) \<Rightarrow> state_id \<Rightarrow> state_id \<Rightarrow> 'w \<Rightarrow> bool"
where
  "shortest_dist W add mul F keep s u d \<longleftrightarrow>
     path_sum W add mul F keep s u d \<and> (\<forall>w. path_from W mul F keep s u w \<longrightarrow> add d w = d)"

locale bounded_semiring = full_semiring +
  assumes bounded: "add (one_w W) a = one_w W"
begin

lemma idem: "add a a = a"
  by (metis bounded left_distrib mul_one_right)

lemma mul_below: "add (mul r w) r = r"
  by (metis add_commute bounded left_distrib mul_one_right)

lemma below_trans: "add a b = b \<Longrightarrow> add b c = c \<Longrightarrow> add a c = c"
  by (metis add_assoc)

lemma below_mono: "add a b = b \<Longrightarrow> add (mul a w) (mul b w) = mul b w"
  by (metis right_distrib)

lemma sum_add: "path_sum W add mul F keep s u b \<Longrightarrow> path_sum W add mul F keep s u a \<Longrightarrow> path_sum W add mul F keep s u (add a b)"
proof (induction rule: path_sum.induct)
  case sum_none
  then show ?case by (simp add: add_zero_right)
next
  case (sum_more b w)
  then show ?case by (metis add_assoc path_sum.sum_more)
qed

lemma sum_step:
  assumes "path_sum W add mul F keep s u a" "(u, t) \<in> arcs F" "keep t"
  shows "path_sum W add mul F keep s (nextstate t) (mul a (weight t))"
  using assms(1)
proof (induction rule: path_sum.induct)
  case sum_none
  then show ?case by (simp add: mul_zero_left path_sum.sum_none)
next
  case (sum_more a w)
  then show ?case using assms(2,3) by (simp add: right_distrib path_sum.sum_more path_step)
qed

lemma shortest_unique:
  assumes "shortest_dist W add mul F keep s u d" "shortest_dist W add mul F keep s u d'"
  shows "d = d'"
proof -
  have absorb: "add x y = x" if "path_sum W add mul F keep s u y" "\<forall>w. path_from W mul F keep s u w \<longrightarrow> add x w = x" for x y
    using that
  proof (induction rule: path_sum.induct)
    case sum_none
    then show ?case by (simp add: add_zero_right)
  next
    case (sum_more a w)
    then show ?case by (metis add_assoc)
  qed
  have "add d d' = d" "add d' d = d'" using assms absorb unfolding shortest_dist_def by blast+
  then show ?thesis by (metis add_commute)
qed

end

subsection \<open>The invariant of the loop\<close>

text \<open>A vector that is shorter than the number of states stands for zeros.\<close>

definition val :: "'w \<Rightarrow> 'w list \<Rightarrow> nat \<Rightarrow> 'w" where
  "val z xs i = (if i < length xs then xs ! i else z)"

lemma val_pad [simp]: "val z (xs @ replicate n z) = val z xs"
  by (auto simp: val_def fun_eq_iff nth_append)

lemma val_upd [simp]: "i < length xs \<Longrightarrow> val z (xs[i := x]) = (val z xs)(i := x)"
  by (auto simp: val_def fun_eq_iff nth_list_update)

lemma val_Nil [simp]: "val z [] = (\<lambda>_. z)"
  by (simp add: val_def fun_eq_iff)

abbreviation dist_of :: "'w semiring \<Rightarrow> ('w, 'q) sd_state \<Rightarrow> nat \<Rightarrow> 'w" where
  "dist_of W st \<equiv> val (zero_w W) (sd_distance st)"

abbreviation rest_of :: "'w semiring \<Rightarrow> ('w, 'q) sd_state \<Rightarrow> nat \<Rightarrow> 'w" where
  "rest_of W st \<equiv> val (zero_w W) (sd_radder st)"

definition improves :: "('w \<Rightarrow> 'w \<Rightarrow> 'w) \<Rightarrow> ('w \<times> 'w) set" where
  "improves add = {(b, a). add a b = b \<and> a \<noteq> b}"

locale distance_setting = bounded_semiring W add mul + lawful_queue Q ok elems load valid node edge
  for W :: "'w semiring" and add mul and Q :: "'q queue_ops" and ok elems load valid node edge
begin

definition sd_base :: "'w vfst \<Rightarrow> ('w, 'q) sd_config \<Rightarrow> state_id \<Rightarrow> ('w, 'q) sd_state \<Rightarrow> bool" where
  "sd_base F c s st \<longleftrightarrow>
     length (sd_enqueued st) = length (sd_distance st) \<and> sd_adder st = sd_distance st \<and>
     length (sd_radder st) = length (sd_distance st) \<and> length (sd_distance st) \<le> num_states F \<and>
     s < length (sd_distance st) \<and> ok (sd_queue st) \<and> elems (sd_queue st) \<subseteq> {..< length (sd_distance st)} \<and>
     (\<forall>t. path_sum W add mul F (sd_filter c) s t (dist_of W st t)) \<and>
     (\<forall>t. path_sum W add mul F (sd_filter c) s t (rest_of W st t)) \<and>
     (\<forall>t. rest_of W st t \<noteq> zero_w W \<longrightarrow> t \<in> elems (sd_queue st)) \<and> add (one_w W) (dist_of W st s) = dist_of W st s"

text \<open>\<open>P v\<close> is the part of the distance of \<open>v\<close> that has been passed on along its transitions.\<close>

definition passed_on :: "'w vfst \<Rightarrow> ('w, 'q) sd_config \<Rightarrow> (nat \<Rightarrow> 'w) \<Rightarrow> (nat \<Rightarrow> 'w) \<Rightarrow> bool" where
  "passed_on F c P D \<longleftrightarrow> (\<forall>(v, t) \<in> arcs F. sd_filter c t \<longrightarrow> add (mul (P v) (weight t)) (D (nextstate t)) = D (nextstate t))"

definition sd_inv :: "'w vfst \<Rightarrow> ('w, 'q) sd_config \<Rightarrow> state_id \<Rightarrow> ('w, 'q) sd_state \<Rightarrow> bool" where
  "sd_inv F c s st \<longleftrightarrow> sd_base F c s st \<and>
     (\<exists>P. (\<forall>v. dist_of W st v = add (P v) (rest_of W st v)) \<and> passed_on F c P (dist_of W st))"

text \<open>While \<open>u\<close> passes on \<open>r\<close>; the transitions in \<open>done\<close> have been relaxed.\<close>

definition sd_mid ::
  "'w vfst \<Rightarrow> ('w, 'q) sd_config \<Rightarrow> state_id \<Rightarrow> state_id \<Rightarrow> 'w \<Rightarrow> (nat \<Rightarrow> 'w) \<Rightarrow> 'w tr list \<Rightarrow> ('w, 'q) sd_state \<Rightarrow> bool"
where
  "sd_mid F c s u r P done st \<longleftrightarrow> sd_base F c s st \<and> u < length (sd_distance st) \<and> rest_of W st u = zero_w W \<and>
     \<not> sd_enqueued st ! u \<and> dist_of W st u = add (P u) r \<and> path_sum W add mul F (sd_filter c) s u r \<and>
     (\<forall>v. v \<noteq> u \<longrightarrow> dist_of W st v = add (P v) (rest_of W st v)) \<and> passed_on F c P (dist_of W st) \<and>
     (\<forall>t \<in> set done. sd_filter c t \<longrightarrow> add (mul r (weight t)) (dist_of W st (nextstate t)) = dist_of W st (nextstate t)) \<and>
     (\<forall>t. (u, t) \<in> arcs F \<longrightarrow> sd_filter c t \<longrightarrow> valid (sd_queue st) (nextstate t))"

definition sd_progress :: "'w vfst \<Rightarrow> ('w, 'q) sd_state \<Rightarrow> ('w, 'q) sd_state \<Rightarrow> bool" where
  "sd_progress F st st' \<longleftrightarrow> sd_queue st' = sd_queue st \<and> dist_of W st' = dist_of W st \<or>
     (map (dist_of W st') [0 ..< num_states F], map (dist_of W st) [0 ..< num_states F]) \<in> (listrel1 (improves add))\<^sup>+"

lemma ensure_fields [simp]:
  "sd_queue (sd_ensure W i st) = sd_queue st" "dist_of W (sd_ensure W i st) = dist_of W st"
  "rest_of W (sd_ensure W i st) = rest_of W st"
  "length (sd_distance (sd_ensure W i st)) = max (Suc i) (length (sd_distance st))"
  by (simp_all add: sd_ensure_def Let_def)

lemma ensure_base:
  assumes "sd_base F c s st" "i < num_states F"
  shows "sd_base F c s (sd_ensure W i st)"
proof -
  have "sd_adder (sd_ensure W i st) = sd_distance (sd_ensure W i st)" "length (sd_radder (sd_ensure W i st)) = max (Suc i) (length (sd_distance st))"
    "length (sd_enqueued (sd_ensure W i st)) = max (Suc i) (length (sd_distance st))"
    using assms(1) by (simp_all add: sd_base_def sd_ensure_def Let_def)
  with assms show ?thesis unfolding sd_base_def by auto
qed

lemma ensure_mid:
  assumes "sd_mid F c s u r P done st" "i < num_states F"
  shows "sd_mid F c s u r P done (sd_ensure W i st)"
proof -
  have "sd_enqueued (sd_ensure W i st) ! u \<longleftrightarrow> sd_enqueued st ! u"
    using assms(1) by (simp add: sd_mid_def sd_base_def sd_ensure_def Let_def nth_append)
  moreover have "sd_base F c s (sd_ensure W i st)" by (rule ensure_base [OF _ assms(2)]) (use assms(1) in \<open>simp add: sd_mid_def\<close>)
  ultimately show ?thesis using assms(1) unfolding sd_mid_def ensure_fields by (simp add: less_max_iff_disj)
qed

lemma self_loop_below: "add (add p r) (mul r w) = add p r"
  by (metis add_assoc add_commute mul_below)

text \<open>Raising one entry of the distance keeps what has been passed on.\<close>

lemma passed_on_raise:
  assumes "passed_on F c P D" "add (D i) x = x"
  shows "passed_on F c P (D(i := x))"
  using assms by (auto simp: passed_on_def intro: below_trans)

lemma relax_mid:
  assumes m: "sd_mid F c s u r P done st" and t: "(u, t) \<in> arcs F" "nextstate t < num_states F"
    and c: "sd_ops c = Q" "\<not> sd_retain c" "\<And>a b. sd_approx c a b \<longleftrightarrow> a = b"
  shows "\<exists>st'. sd_relax W c r u t st = Inr st' \<and> sd_mid F c s u r P (done @ [t]) st' \<and> sd_progress F st st'"
proof (cases "sd_filter c t")
  case False
  with m show ?thesis by (auto simp: sd_relax_def sd_mid_def sd_progress_def)
next
  case keep: True
  let ?i = "nextstate t" and ?w = "mul r (weight t)"
  let ?e = "sd_ensure W ?i st"
  have e: "sd_mid F c s u r P done ?e" by (rule ensure_mid [OF m t(2)])
  then have b: "sd_base F c s ?e" and D: "dist_of W ?e u = add (P u) r" and sr: "path_sum W add mul F (sd_filter c) s u r"
    by (simp_all add: sd_mid_def)
  have i: "?i < length (sd_distance ?e)" by simp
  have len: "length (sd_enqueued ?e) = length (sd_distance ?e)" "sd_adder ?e = sd_distance ?e"
    "length (sd_radder ?e) = length (sd_distance ?e)" using b by (simp_all add: sd_base_def)
  define d where "d = dist_of W ?e ?i"
  define q where "q = rest_of W ?e ?i"
  have nth: "sd_distance ?e ! ?i = d" "sd_radder ?e ! ?i = q" unfolding d_def q_def val_def using i len by (simp_all del: ensure_fields)
  show ?thesis
  proof (cases "d = add d ?w")
    case True
    have "sd_relax W c r u t st = Inr ?e"
      using True i len keep c nth
      by (simp add: sd_relax_def sd_touch_def vec_index_def times_ok plus_ok Let_def)
    moreover have "sd_mid F c s u r P (done @ [t]) ?e"
      using e True unfolding sd_mid_def by (auto simp: d_def add_commute)
    ultimately show ?thesis by (auto simp: sd_progress_def)
  next
    case False
    have iu: "?i \<noteq> u"
    proof
      assume "?i = u"
      then have "d = add (P u) r" using D by (simp add: d_def)
      with self_loop_below [of "P u" r "weight t"] False show False by simp
    qed
    have nu: "\<not> sd_enqueued ?e ! u" "u < length (sd_distance ?e)" using e by (simp_all add: sd_mid_def)
    have va: "valid (sd_queue ?e) ?i" using e t(1) keep by (auto simp: sd_mid_def)
    have okq: "ok (sd_queue ?e)" using b by (simp add: sd_base_def)
    from enqueue_law [OF okq va] obtain q' where q': "q_enqueue Q ?i (sd_queue ?e) = Inr q'" "ok q'"
      "elems q' = insert ?i (elems (sd_queue ?e))" "\<forall>t. valid (sd_queue ?e) t \<longrightarrow> valid q' t" by blast
    let ?d = "add d ?w"
    let ?s = "?e\<lparr>sd_adder := (sd_distance ?e)[?i := ?d], sd_distance := (sd_distance ?e)[?i := ?d],
      sd_radder := (sd_radder ?e)[?i := add q ?w], sd_queue := q', sd_enqueued := (sd_enqueued ?e)[?i := True]\<rparr>"
    have run: "sd_relax W c r u t st = Inr ?s"
      using False i len keep c nth nu q'(1) by (simp add: sd_relax_def sd_touch_def vec_index_def times_ok plus_ok Let_def)
    have Ds: "dist_of W ?s = (dist_of W ?e)(?i := ?d)" "rest_of W ?s = (rest_of W ?e)(?i := add q ?w)"
      using i len by simp_all
    have below: "add d ?d = ?d" "add ?w ?d = ?d" by (metis add_assoc idem, metis add_assoc add_commute idem)
    have sw: "path_sum W add mul F (sd_filter c) s ?i ?w" by (rule sum_step [OF sr t(1) keep])
    have ps: "\<forall>v. path_sum W add mul F (sd_filter c) s v (dist_of W ?e v)" "\<forall>v. path_sum W add mul F (sd_filter c) s v (rest_of W ?e v)"
      using b unfolding sd_base_def by blast+
    have sum: "path_sum W add mul F (sd_filter c) s v (dist_of W ?s v)" "path_sum W add mul F (sd_filter c) s v (rest_of W ?s v)" for v
      unfolding Ds unfolding fun_upd_def d_def q_def using ps sum_add [OF sw] by simp_all
    have rest: "rest_of W ?s v \<noteq> zero_w W \<longrightarrow> v \<in> elems q'" for v
      unfolding Ds unfolding fun_upd_def q'(3) using b by (simp add: sd_base_def)
    have one: "add (one_w W) (dist_of W ?s s) = dist_of W ?s s"
    proof -
      have "add (one_w W) (dist_of W ?e s) = dist_of W ?e s" using b unfolding sd_base_def by blast
      then show ?thesis unfolding Ds unfolding fun_upd_def using below_trans [OF _ below(1), of "one_w W"] by (auto simp: d_def)
    qed
    have b': "sd_base F c s ?s"
      using b i t(2) len q' sum rest one unfolding sd_base_def by simp
    have keepP: "passed_on F c P (dist_of W ?s)"
      unfolding Ds by (rule passed_on_raise) (use e below(1) in \<open>simp_all add: sd_mid_def d_def\<close>)
    have done': "add (mul r (weight t')) (dist_of W ?s (nextstate t')) = dist_of W ?s (nextstate t')"
      if "t' \<in> set (done @ [t])" "sd_filter c t'" for t'
    proof (cases "t' = t")
      case True
      then show ?thesis unfolding Ds by (simp add: below(2))
    next
      case False
      then have "add (mul r (weight t')) (dist_of W ?e (nextstate t')) = dist_of W ?e (nextstate t')"
        using e that unfolding sd_mid_def by auto
      then show ?thesis unfolding Ds unfolding fun_upd_def using below_trans [OF _ below(1), of "mul r (weight t')"] by (auto simp: d_def)
    qed
    have split: "dist_of W ?s v = add (P v) (rest_of W ?s v)" if "v \<noteq> u" for v
    proof -
      have "dist_of W ?e v = add (P v) (rest_of W ?e v)" using e that unfolding sd_mid_def by blast
      then show ?thesis unfolding Ds unfolding fun_upd_def by (auto simp: d_def q_def add_assoc)
    qed
    have "sd_mid F c s u r P (done @ [t]) ?s"
      unfolding sd_mid_def
    proof (intro conjI)
      show "\<forall>t'. (u, t') \<in> arcs F \<longrightarrow> sd_filter c t' \<longrightarrow> valid (sd_queue ?s) (nextstate t')"
        using e q'(4) by (simp add: sd_mid_def)
      show "rest_of W ?s u = zero_w W" "dist_of W ?s u = add (P u) r" unfolding Ds
        using e iu by (simp_all add: sd_mid_def)
    qed (use b' nu iu sr keepP done' split in auto)
    moreover have "sd_progress F st ?s"
    proof -
      have dd: "(?d, d) \<in> improves add" using below(1) False by (simp add: improves_def)
      have "map (dist_of W st) [0 ..< num_states F] = (map (dist_of W ?s) [0 ..< num_states F])[?i := d]"
        unfolding Ds by (rule nth_equalityI) (simp_all add: nth_upd d_def)
      moreover have "map (dist_of W ?s) [0 ..< num_states F] ! ?i = ?d" unfolding Ds using t(2) by simp
      ultimately have "(map (dist_of W ?s) [0 ..< num_states F], map (dist_of W st) [0 ..< num_states F]) \<in> listrel1 (improves add)"
        using dd t(2) unfolding listrel1_iff_update by (intro exI [of _ d] exI [of _ ?i]) simp
      then show ?thesis unfolding sd_progress_def by blast
    qed
    ultimately show ?thesis using run by blast
  qed
qed

lemma progress_trans: "sd_progress F a b \<Longrightarrow> sd_progress F b c \<Longrightarrow> sd_progress F a c"
  unfolding sd_progress_def by (auto dest: trancl_trans)

lemma relax_all:
  assumes m: "sd_mid F c s u r P [] st" and t: "\<forall>t \<in> set ts. (u, t) \<in> arcs F \<and> nextstate t < num_states F"
    and c: "sd_ops c = Q" "\<not> sd_retain c" "\<And>a b. sd_approx c a b \<longleftrightarrow> a = b"
  shows "\<exists>st'. for_res (sd_relax W c r u) ts st = Inr st' \<and> sd_mid F c s u r P ts st' \<and> sd_progress F st st'"
  using t
proof (induction ts rule: rev_induct)
  case Nil
  with m show ?case by (simp add: sd_progress_def)
next
  case (snoc t ts)
  then obtain st1 where st1: "for_res (sd_relax W c r u) ts st = Inr st1" "sd_mid F c s u r P ts st1" "sd_progress F st st1"
    by auto
  from snoc.prems have "(u, t) \<in> arcs F" "nextstate t < num_states F" by auto
  from relax_mid [OF st1(2) this c] obtain st2 where "sd_relax W c r u t st1 = Inr st2"
    "sd_mid F c s u r P (ts @ [t]) st2" "sd_progress F st1 st2" by blast
  with st1 progress_trans show ?case by (auto simp: for_res_append)
qed

text \<open>A turn of the loop while states wait.\<close>

lemma iter_inv:
  assumes inv: "sd_inv F c s st" and ne: "elems (sd_queue st) \<noteq> {}"
    and F: "targets_ok F" and e: "\<And>u t. (u, t) \<in> arcs F \<Longrightarrow> sd_filter c t \<Longrightarrow> edge u (nextstate t)"
    and c: "sd_ops c = Q" "\<not> sd_retain c" "\<not> sd_first_path c" "\<And>a b. sd_approx c a b \<longleftrightarrow> a = b"
  shows "\<exists>st'. sd_iter W F c st = Inr (st', True) \<and> sd_inv F c s st' \<and>
    ((map (dist_of W st') [0 ..< num_states F], map (dist_of W st) [0 ..< num_states F]) \<in> (listrel1 (improves add))\<^sup>+ \<or>
     dist_of W st' = dist_of W st \<and> load (sd_queue st') < load (sd_queue st))"
proof -
  have b: "sd_base F c s st" using inv by (simp add: sd_inv_def)
  then have okq: "ok (sd_queue st)" and le: "elems (sd_queue st) \<subseteq> {..< length (sd_distance st)}"
    and len: "length (sd_enqueued st) = length (sd_distance st)" "length (sd_radder st) = length (sd_distance st)"
      "length (sd_distance st) \<le> num_states F"
    and rest: "\<And>v. rest_of W st v \<noteq> zero_w W \<Longrightarrow> v \<in> elems (sd_queue st)" unfolding sd_base_def by blast+
  from inv obtain P where P: "\<And>v. dist_of W st v = add (P v) (rest_of W st v)" "passed_on F c P (dist_of W st)"
    unfolding sd_inv_def by blast
  from dequeue_law [OF okq ne] obtain u q where u: "q_dequeue Q (sd_queue st) = Inr (Some u, q)" "ok q" "u \<in> elems (sd_queue st)"
    "elems (sd_queue st) - {u} \<subseteq> elems q" "elems q \<subseteq> elems (sd_queue st)" "load q < load (sd_queue st)"
    "\<And>t. edge u t \<Longrightarrow> valid q t" by blast
  have ul: "u < length (sd_distance st)" using u(3) le by auto
  then have un: "u < num_states F" using len(3) by simp
  define r where "r = rest_of W st u"
  have r: "sd_radder st ! u = r" using ul len(2) by (simp add: r_def val_def)
  let ?s = "st\<lparr>sd_queue := q, sd_enqueued := (sd_enqueued st)[u := False], sd_radder := (sd_radder st)[u := zero_w W]\<rparr>"
  have R: "rest_of W ?s = (rest_of W st)(u := zero_w W)" using ul len(2) by simp
  have ps: "\<forall>v. path_sum W add mul F (sd_filter c) s v (rest_of W ?s v)"
    unfolding R using b by (simp add: sd_base_def path_sum.sum_none)
  have re: "\<forall>v. rest_of W ?s v \<noteq> zero_w W \<longrightarrow> v \<in> elems q" unfolding R using rest u(4) by auto
  have b': "sd_base F c s ?s"
    unfolding sd_base_def by (intro conjI) (use b u ps re in \<open>auto simp: sd_base_def\<close>)
  have "sd_mid F c s u r P [] ?s"
    unfolding sd_mid_def
  proof (intro conjI)
    show "rest_of W ?s u = zero_w W" unfolding R by simp
    show "dist_of W ?s u = add (P u) r" using P(1) [of u] by (simp add: r_def)
    show "path_sum W add mul F (sd_filter c) s u r" using b unfolding sd_base_def r_def by blast
    show "\<forall>v. v \<noteq> u \<longrightarrow> dist_of W ?s v = add (P v) (rest_of W ?s v)" unfolding R using P(1) by simp
    show "\<forall>t. (u, t) \<in> arcs F \<longrightarrow> sd_filter c t \<longrightarrow> valid (sd_queue ?s) (nextstate t)" using e u(7) by simp
    show "\<not> sd_enqueued ?s ! u" using ul len(1) by simp
  qed (use b' ul P(2) in auto)
  moreover have "\<forall>t \<in> set (trs (state_of F u)). (u, t) \<in> arcs F \<and> nextstate t < num_states F"
    using un targets_state [OF F un] by (auto simp: arcs_def)
  ultimately obtain st' where st': "for_res (sd_relax W c r u) (trs (state_of F u)) ?s = Inr st'"
    "sd_mid F c s u r P (trs (state_of F u)) st'" "sd_progress F ?s st'"
    using relax_all [OF _ _ c(1,2,4), of F s u r P ?s] by blast
  have run: "sd_iter W F c st = Inr (st', True)"
    using u(1) c(1,3) ul un len r st'(1) by (simp add: sd_iter_def vec_set_def vec_index_def get_trs_def)
  have "sd_inv F c s st'"
    unfolding sd_inv_def
  proof (intro conjI exI)
    let ?P = "P(u := dist_of W st' u)"
    show "sd_base F c s st'" using st'(2) by (simp add: sd_mid_def)
    show "\<forall>v. dist_of W st' v = add (?P v) (rest_of W st' v)"
      using st'(2) by (auto simp: sd_mid_def add_zero_right)
    show "passed_on F c ?P (dist_of W st')"
      unfolding passed_on_def
    proof (intro ballI, clarify)
      fix v t
      assume a: "(v, t) \<in> arcs F" "sd_filter c t"
      let ?D = "dist_of W st' (nextstate t)"
      have p: "add (mul (P v) (weight t)) ?D = ?D" using st'(2) a unfolding sd_mid_def passed_on_def by blast
      show "add (mul (?P v) (weight t)) ?D = ?D"
      proof (cases "v = u")
        case True
        with a have "t \<in> set (trs (state_of F u))" by (simp add: arcs_def)
        with st'(2) a(2) have "add (mul r (weight t)) ?D = ?D" "dist_of W st' u = add (P u) r" unfolding sd_mid_def by blast+
        with p True show ?thesis by (simp add: right_distrib add_assoc)
      qed (use p in simp)
    qed
  qed
  moreover have "(map (dist_of W st') [0 ..< num_states F], map (dist_of W st) [0 ..< num_states F]) \<in> (listrel1 (improves add))\<^sup>+ \<or>
     dist_of W st' = dist_of W st \<and> load (sd_queue st') < load (sd_queue st)"
    using st'(3) u(6) by (auto simp: sd_progress_def)
  ultimately show ?thesis using run by blast
qed

text \<open>The loop ends if no weight can be improved for ever.\<close>

lemma loop_inv:
  assumes inv: "sd_inv F c s st" and wf: "wf (improves add)"
    and F: "targets_ok F" and e: "\<And>u t. (u, t) \<in> arcs F \<Longrightarrow> sd_filter c t \<Longrightarrow> edge u (nextstate t)"
    and c: "sd_ops c = Q" "\<not> sd_retain c" "\<not> sd_first_path c" "\<And>a b. sd_approx c a b \<longleftrightarrow> a = b"
  shows "\<exists>st' q. sd_loop W F c st = Some (Inr (st'\<lparr>sd_queue := q\<rparr>)) \<and> sd_inv F c s st' \<and> elems (sd_queue st') = {}"
proof -
  let ?m = "\<lambda>st. (map (dist_of W st) [0 ..< num_states F], load (sd_queue st))"
  have "wf ((listrel1 (improves add))\<^sup>+ <*lex*> less_than)"
    by (intro wf_lex_prod wf_trancl wf_less_than) (use wf in \<open>simp add: wf_listrel1_iff\<close>)
  then have "wf (inv_image ((listrel1 (improves add))\<^sup>+ <*lex*> less_than) ?m)" by (rule wf_inv_image)
  then show ?thesis
    using inv
  proof (induction st rule: wf_induct_rule)
    case (less st)
    show ?case
    proof (cases "elems (sd_queue st) = {}")
      case True
      have "ok (sd_queue st)" using less.prems by (simp add: sd_inv_def sd_base_def)
      from dequeue_empty_law [OF this True] obtain q where "q_dequeue Q (sd_queue st) = Inr (None, q)" by blast
      then have "sd_iter W F c st = Inr (st\<lparr>sd_queue := q\<rparr>, False)" using c(1) by (simp add: sd_iter_def)
      then have "sd_loop W F c st = Some (Inr (st\<lparr>sd_queue := q\<rparr>))" by (subst sd_loop.simps) simp
      with less.prems True show ?thesis by blast
    next
      case False
      from iter_inv [OF less.prems False F e c] obtain st1 where st1: "sd_iter W F c st = Inr (st1, True)" "sd_inv F c s st1"
        "(map (dist_of W st1) [0 ..< num_states F], map (dist_of W st) [0 ..< num_states F]) \<in> (listrel1 (improves add))\<^sup>+ \<or>
          dist_of W st1 = dist_of W st \<and> load (sd_queue st1) < load (sd_queue st)" by blast
      have "(st1, st) \<in> inv_image ((listrel1 (improves add))\<^sup>+ <*lex*> less_than) ?m" using st1(3) by auto
      from less.IH [OF this st1(2)] obtain st' q where "sd_loop W F c st1 = Some (Inr (st'\<lparr>sd_queue := q\<rparr>))"
        "sd_inv F c s st'" "elems (sd_queue st') = {}" by blast
      moreover have "sd_loop W F c st = sd_loop W F c st1" using st1(1) by (subst sd_loop.simps) simp
      ultimately show ?thesis by auto
    qed
  qed
qed

text \<open>When no state waits, everything has been passed on, and the distances are shortest.\<close>

lemma done_shortest:
  assumes inv: "sd_inv F c s st" and none: "elems (sd_queue st) = {}"
  shows "shortest_dist W add mul F (sd_filter c) s t (dist_of W st t)"
proof -
  have b: "sd_base F c s st" using inv by (simp add: sd_inv_def)
  have z: "rest_of W st v = zero_w W" for v using b none unfolding sd_base_def by blast
  from inv obtain P where P: "\<forall>v. dist_of W st v = add (P v) (rest_of W st v)" "passed_on F c P (dist_of W st)"
    unfolding sd_inv_def by blast
  have "P v = dist_of W st v" for v using P(1) z by (simp add: add_zero_right)
  then have p: "passed_on F c (dist_of W st) (dist_of W st)" using P(2) by (simp add: passed_on_def)
  have "add w (dist_of W st t) = dist_of W st t" if "path_from W mul F (sd_filter c) s t w" for t w
    using that
  proof (induction rule: path_from.induct)
    case path_empty
    show ?case using b by (simp add: sd_base_def)
  next
    case (path_step u w t)
    have "add (mul (dist_of W st u) (weight t)) (dist_of W st (nextstate t)) = dist_of W st (nextstate t)"
      using p path_step.hyps(2,3) by (auto simp: passed_on_def)
    with path_step.IH show ?case using below_mono below_trans by blast
  qed
  moreover have "path_sum W add mul F (sd_filter c) s t (dist_of W st t)" using b by (simp add: sd_base_def)
  ultimately show ?thesis by (simp add: shortest_dist_def add_commute)
qed

text \<open>Clearing the queue and entering the source establishes the invariant.\<close>

lemma begin_inv:
  assumes s: "s < num_states F" "node s" and ok: "ok queue" and c: "sd_ops c = Q" "\<not> sd_retain c"
  shows "\<exists>st. sd_begin W c s (sd_new queue) = Inr st \<and> sd_inv F c s st"
proof -
  from clear_law [OF ok] obtain q where q: "q_clear Q queue = Inr q" "ok q" "elems q = {}" "\<forall>s. node s \<longrightarrow> valid q s" by blast
  then obtain q' where q': "q_enqueue Q s q = Inr q'" "ok q'" "elems q' = {s}" using s(2) enqueue_law [of q s] by auto
  let ?z = "replicate s (zero_w W) @ [one_w W]"
  let ?st = "\<lparr>sd_queue = q', sd_enqueued = replicate s False @ [True], sd_distance = ?z, sd_adder = ?z, sd_radder = ?z,
    sd_sources = [], sd_source_id = 0\<rparr>"
  have run: "sd_begin W c s (sd_new queue) = Inr ?st"
    using c q(1) q'(1) by (simp add: sd_begin_def sd_new_def sd_forget_def sd_ensure_def replicate_append_same [symmetric] list_update_append)
  have V: "val (zero_w W) ?z = (\<lambda>_. zero_w W)(s := one_w W)"
    by (auto simp: val_def fun_eq_iff nth_append less_Suc_eq)
  have one: "path_sum W add mul F (sd_filter c) s s (one_w W)"
  proof -
    have "path_sum W add mul F (sd_filter c) s s (add (zero_w W) (one_w W))" by (rule sum_more [OF sum_none path_empty])
    then show ?thesis by (simp add: add_zero)
  qed
  have ps: "\<forall>t. path_sum W add mul F (sd_filter c) s t (val (zero_w W) ?z t)"
    unfolding V by (simp add: one sum_none)
  have b: "sd_base F c s ?st"
    unfolding sd_base_def using s(1) q' ps by (simp add: V idem)
  have "sd_inv F c s ?st"
    unfolding sd_inv_def
  proof (intro conjI exI)
    show "sd_base F c s ?st" by (rule b)
    show "\<forall>v. dist_of W ?st v = add (zero_w W) (rest_of W ?st v)" by (simp add: add_zero)
    show "passed_on F c (\<lambda>_. zero_w W) (dist_of W ?st)" by (simp add: passed_on_def mul_zero_left add_zero split_beta)
  qed
  with run show ?thesis by blast
qed

text \<open>The algorithm returns, and returns the shortest distances.\<close>

theorem shortest_distance_correct:
  assumes F: "targets_ok F" and start: "start_state F \<noteq> None" and src: "src = the (start_state F) \<and> source = None \<or> source = Some src"
    and s: "src < num_states F" "node src"
    and ok: "ok queue" and wf: "wf (improves add)"
    and e: "\<And>u t. (u, t) \<in> arcs F \<Longrightarrow> sd_filter c t \<Longrightarrow> edge u (nextstate t)"
    and c: "sd_ops c = Q" "\<not> sd_first_path c" "\<And>a b. sd_approx c a b \<longleftrightarrow> a = b" and right: "declares W RIGHT_SEMIRING"
  shows "\<exists>d. shortest_distance_with_internal_config W F c source queue = Some (Inr d) \<and> src < length d \<and>
    length d \<le> num_states F \<and> (\<forall>t. shortest_dist W add mul F (sd_filter c) src t (val (zero_w W) d t))"
proof -
  let ?c = "c\<lparr>sd_retain := False\<rparr>"
  have c': "sd_ops ?c = Q" "\<not> sd_retain ?c" "\<not> sd_first_path ?c" "\<And>a b. sd_approx ?c a b \<longleftrightarrow> a = b" using c by simp_all
  from begin_inv [OF s ok c'(1,2)] obtain st where st: "sd_begin W ?c src (sd_new queue) = Inr st" "sd_inv F ?c src st" by blast
  have e': "\<And>u t. (u, t) \<in> arcs F \<Longrightarrow> sd_filter ?c t \<Longrightarrow> edge u (nextstate t)" using e by simp
  from loop_inv [OF st(2) wf F e' c'] obtain st' q where st': "sd_loop W F ?c st = Some (Inr (st'\<lparr>sd_queue := q\<rparr>))"
    "sd_inv F ?c src st'" "elems (sd_queue st') = {}" by blast
  from start src obtain s0 where s0: "start_state F = Some s0" "(case source of None \<Rightarrow> s0 | Some s \<Rightarrow> s) = src" by auto
  have "shortest_distance_in_place W F ?c source (sd_new queue) = Some (Inr (st'\<lparr>sd_queue := q, sd_source_id := sd_source_id st' + 1\<rparr>))"
    using s0 st st' right c by (simp add: shortest_distance_in_place_def)
  then have "shortest_distance_with_internal_config W F c source queue = Some (Inr (sd_distance st'))"
    by (simp add: shortest_distance_with_internal_config_def)
  moreover have "src < length (sd_distance st')" "length (sd_distance st') \<le> num_states F" using st'(2) by (simp_all add: sd_inv_def sd_base_def)
  moreover have "shortest_dist W add mul F (sd_filter c) src t (dist_of W st' t)" for t
    using done_shortest [OF st'(2,3), of t] by simp
  ultimately show ?thesis by blast
qed

end

subsection \<open>The boolean weight\<close>

interpretation bool_bounded: bounded_semiring boolean_weight "(\<or>)" "(\<and>)"
  by unfold_locales (simp add: boolean_weight_def)

lemma bool_improves: "wf (improves (\<or>))"
proof -
  have "improves (\<or>) \<subseteq> measure (\<lambda>b. if b then 0 else 1)" by (auto simp: improves_def)
  then show ?thesis using wf_measure wf_subset by blast
qed

interpretation bool_fifo: distance_setting boolean_weight "(\<or>)" "(\<and>)" fifo_queue "\<lambda>_. True" set length
  "\<lambda>_ _. True" "\<lambda>_. True" "\<lambda>_ _. True"
  by unfold_locales

interpretation bool_lifo: distance_setting boolean_weight "(\<or>)" "(\<and>)" lifo_queue "\<lambda>_. True" set length
  "\<lambda>_ _. True" "\<lambda>_. True" "\<lambda>_ _. True"
  by unfold_locales

text \<open>Over booleans the distance is reachability along transitions of weight one.\<close>

definition live_step :: "bool vfst \<Rightarrow> (bool tr \<Rightarrow> bool) \<Rightarrow> (state_id \<times> state_id) set" where
  "live_step F keep = {(u, nextstate t) | u t. (u, t) \<in> arcs F \<and> keep t \<and> weight t}"

lemma path_from_bool: "path_from boolean_weight (\<and>) F keep s t True \<longleftrightarrow> (s, t) \<in> (live_step F keep)\<^sup>*"
proof
  have "w \<longrightarrow> (s, t) \<in> (live_step F keep)\<^sup>*" if "path_from boolean_weight (\<and>) F keep s t w" for w
    using that
  proof (induction rule: path_from.induct)
    case (path_step u w t)
    then show ?case by (auto simp: live_step_def intro: rtrancl_into_rtrancl)
  qed simp
  then show "path_from boolean_weight (\<and>) F keep s t True \<Longrightarrow> (s, t) \<in> (live_step F keep)\<^sup>*" by blast
next
  assume "(s, t) \<in> (live_step F keep)\<^sup>*"
  then show "path_from boolean_weight (\<and>) F keep s t True"
  proof (induction rule: rtrancl_induct)
    case base
    have "one_w boolean_weight" by (simp add: boolean_weight_def)
    with path_empty [of boolean_weight "(\<and>)" F keep s] show ?case by simp
  next
    case (step u t)
    then obtain a where "(u, a) \<in> arcs F" "keep a" "weight a" "t = nextstate a" by (auto simp: live_step_def)
    with path_step [OF step.IH, of a] show ?case by simp
  qed
qed

lemma shortest_dist_bool:
  assumes "shortest_dist boolean_weight (\<or>) (\<and>) F keep s t d"
  shows "d \<longleftrightarrow> (s, t) \<in> (live_step F keep)\<^sup>*"
proof -
  have "d \<longrightarrow> path_from boolean_weight (\<and>) F keep s t True" if "path_sum boolean_weight (\<or>) (\<and>) F keep s t d" for d
    using that
  proof (induction rule: path_sum.induct)
    case sum_none
    show ?case by (simp add: boolean_weight_def)
  next
    case (sum_more a w)
    then show ?case by (cases w) auto
  qed
  with assms show ?thesis unfolding shortest_dist_def path_from_bool [symmetric] by auto
qed

end
