(* ===== verification/Shortest_First.thy ===== *)
theory Shortest_First
  imports Queues Tr_Sorting
begin

text \<open>
  \<open>CmpHeap\<close> of \<open>algorithms/cmp_collections.rs\<close>, a \<open>BinaryHeap\<close> of the standard library ordered by a closure, and
  the queues of \<open>algorithms/queues/shortest_first_queue.rs\<close> built on it. The closure may fail (it unwraps
  a result), so every operation may. The repository's own part is the order of the items, \<open>heap_le\<close>, which is
  \<open>Item::le\<close>: the closure does not answer \<open>Greater\<close>. \<open>push\<close> and \<open>pop\<close> only delegate to \<open>BinaryHeap\<close>, whose \<open>sift_up\<close>
  and \<open>sift_down_to_bottom\<close> are written out after the standard library, since they fix in which order equal
  elements come out and what the closure is asked.
\<close>

subsection \<open>The heap\<close>

definition heap_swap :: "'a list \<Rightarrow> nat \<Rightarrow> nat \<Rightarrow> 'a list" where
  "heap_swap h i j = h[j := h ! i, i := h ! j]"

lemma heap_swap_length [simp]: "length (heap_swap h i j) = length h"
  by (simp add: heap_swap_def)

lemma heap_swap_mset: "i < length h \<Longrightarrow> j < length h \<Longrightarrow> mset (heap_swap h i j) = mset h"
  unfolding heap_swap_def by (rule mset_swap)

lemma heap_swap_nth: "i < length h \<Longrightarrow> j < length h \<Longrightarrow> k < length h \<Longrightarrow>
    heap_swap h i j ! k = (if k = i then h ! j else if k = j then h ! i else h ! k)"
  by (simp add: heap_swap_def nth_list_update)

abbreviation heap_parent :: "nat \<Rightarrow> nat" where
  "heap_parent i \<equiv> (i - 1) div 2"

function sift_up :: "('a \<Rightarrow> 'a \<Rightarrow> bool res) \<Rightarrow> nat \<Rightarrow> 'a list \<Rightarrow> 'a list res" where
  "sift_up le pos h =
     (if pos = 0 then Inr h
      else rbind (le (h ! pos) (h ! heap_parent pos)) (\<lambda>b.
             if b then Inr h else sift_up le (heap_parent pos) (heap_swap h pos (heap_parent pos))))"
  by pat_completeness auto
termination by (relation "measure (\<lambda>(le, pos, h). pos)") auto

function sift_down_to_bottom :: "('a \<Rightarrow> 'a \<Rightarrow> bool res) \<Rightarrow> nat \<Rightarrow> 'a list \<Rightarrow> ('a list \<times> nat) res" where
  "sift_down_to_bottom le pos h =
     (let child = 2 * pos + 1
      in if child + 2 \<le> length h
         then rbind (le (h ! child) (h ! (child + 1))) (\<lambda>b.
                let child = (if b then child + 1 else child)
                in sift_down_to_bottom le child (heap_swap h pos child))
         else if child + 1 = length h then Inr (heap_swap h pos child, child)
         else Inr (h, pos))"
  by pat_completeness auto
termination by (relation "measure (\<lambda>(le, pos, h). length h - pos)") (auto split: if_splits)

declare sift_up.simps [simp del] sift_down_to_bottom.simps [simp del]

definition heap_le :: "('a \<Rightarrow> 'a \<Rightarrow> ordering res) \<Rightarrow> 'a \<Rightarrow> 'a \<Rightarrow> bool res" where
  "heap_le cmp a b = rbind (cmp a b) (\<lambda>r. Inr (r \<noteq> Greater))"

definition heap_push :: "('a \<Rightarrow> 'a \<Rightarrow> ordering res) \<Rightarrow> 'a \<Rightarrow> 'a list \<Rightarrow> 'a list res" where
  "heap_push cmp x h = sift_up (heap_le cmp) (length h) (h @ [x])"

definition heap_pop :: "('a \<Rightarrow> 'a \<Rightarrow> ordering res) \<Rightarrow> 'a list \<Rightarrow> ('a option \<times> 'a list) res" where
  "heap_pop cmp h =
     (if h = [] then Inr (None, [])
      else if butlast h = [] then Inr (Some (last h), [])
      else
        rbind (sift_down_to_bottom (heap_le cmp) 0 ((butlast h)[0 := last h])) (\<lambda>(h', pos).
        rbind (sift_up (heap_le cmp) pos h') (\<lambda>h'. Inr (Some (hd h), h'))))"

subsection \<open>The elements are kept\<close>

lemma sift_up_keeps:
  assumes "\<forall>x \<in> set h. \<forall>y \<in> set h. \<exists>b. le x y = Inr b" "pos < length h"
  shows "\<exists>h'. sift_up le pos h = Inr h' \<and> mset h' = mset h"
  using assms
proof (induction le pos h rule: sift_up.induct)
  case (1 le pos h)
  show ?case
  proof (cases "pos = 0")
    case True
    then show ?thesis by (simp add: sift_up.simps)
  next
    case False
    let ?p = "heap_parent pos"
    have p: "?p < length h" using "1.prems"(2) by linarith
    from "1.prems" p obtain b where b: "le (h ! pos) (h ! ?p) = Inr b" by (meson nth_mem)
    have s: "mset (heap_swap h pos ?p) = mset h" by (rule heap_swap_mset [OF "1.prems"(2) p])
    then have "set (heap_swap h pos ?p) = set h" by (metis set_mset_mset)
    with "1.IH" [OF False, of b] "1.prems"(1) p s b False show ?thesis
      by (cases b) (simp_all add: sift_up.simps [of le pos])
  qed
qed

lemma sift_down_keeps:
  assumes "\<forall>x \<in> set h. \<forall>y \<in> set h. \<exists>b. le x y = Inr b" "pos < length h"
  shows "\<exists>h' pos'. sift_down_to_bottom le pos h = Inr (h', pos') \<and> mset h' = mset h \<and> pos' < length h"
  using assms
proof (induction le pos h rule: sift_down_to_bottom.induct)
  case (1 le pos h)
  let ?c = "2 * pos + 1"
  consider "?c + 2 \<le> length h" | "?c + 1 = length h" | "length h \<le> ?c" by linarith
  then show ?case
  proof cases
    case a: 1
    then obtain b where b: "le (h ! ?c) (h ! (?c + 1)) = Inr b" using "1.prems"(1) by (metis (no_types) add_2_eq_Suc' less_eq_Suc_le nth_mem Suc_leD Suc_eq_plus1)
    define c where "c = (if b then ?c + 1 else ?c)"
    have c: "c < length h" using a by (simp add: c_def)
    have s: "mset (heap_swap h pos c) = mset h" by (rule heap_swap_mset [OF "1.prems"(2) c])
    then have "set (heap_swap h pos c) = set h" by (metis set_mset_mset)
    with "1.IH" [OF refl a b c_def] "1.prems"(1) c s obtain h' pos' where
      "sift_down_to_bottom le c (heap_swap h pos c) = Inr (h', pos')" "mset h' = mset h" "pos' < length h"
      by auto
    with a b show ?thesis unfolding c_def by (cases b) (simp_all add: sift_down_to_bottom.simps [of le pos])
  next
    case 2
    then show ?thesis using "1.prems"(2) by (subst sift_down_to_bottom.simps) (simp add: heap_swap_mset)
  next
    case 3
    then show ?thesis using "1.prems"(2) by (subst sift_down_to_bottom.simps) simp
  qed
qed

text \<open>The closure answers on all the elements.\<close>

definition answers :: "('a \<Rightarrow> 'a \<Rightarrow> ordering res) \<Rightarrow> 'a set \<Rightarrow> bool" where
  "answers cmp A \<longleftrightarrow> (\<forall>x \<in> A. \<forall>y \<in> A. \<exists>r. cmp x y = Inr r)"

lemma answers_le: "answers cmp A \<Longrightarrow> \<forall>x \<in> A. \<forall>y \<in> A. \<exists>b. heap_le cmp x y = Inr b"
  by (fastforce simp: answers_def heap_le_def)

lemma heap_push_keeps:
  assumes "answers cmp (insert x (set h))"
  shows "\<exists>h'. heap_push cmp x h = Inr h' \<and> mset h' = add_mset x (mset h)"
  using sift_up_keeps [of "h @ [x]" "heap_le cmp" "length h"] answers_le [OF assms] by (simp add: heap_push_def)

lemma mset_last_first: "h \<noteq> [] \<Longrightarrow> butlast h \<noteq> [] \<Longrightarrow> add_mset (hd h) (mset ((butlast h)[0 := last h])) = mset h"
  by (cases h; cases "tl h" rule: rev_cases) auto

lemma heap_pop_keeps:
  assumes "answers cmp (set h)" "h \<noteq> []"
  shows "\<exists>h'. heap_pop cmp h = Inr (Some (hd h), h') \<and> add_mset (hd h) (mset h') = mset h"
proof (cases "butlast h = []")
  case True
  with assms(2) show ?thesis by (cases h) (auto simp: heap_pop_def split: if_splits)
next
  case False
  let ?h = "(butlast h)[0 := last h]"
  have m: "add_mset (hd h) (mset ?h) = mset h" by (rule mset_last_first [OF assms(2) False])
  then have sub: "set ?h \<subseteq> set h" by (metis set_mset_mset set_mset_add_mset_insert subset_insertI)
  with answers_le [OF assms(1)] have "\<forall>x \<in> set ?h. \<forall>y \<in> set ?h. \<exists>b. heap_le cmp x y = Inr b" by blast
  moreover have "0 < length ?h" using False by (simp del: length_butlast)
  ultimately obtain h1 p where h1: "sift_down_to_bottom (heap_le cmp) 0 ?h = Inr (h1, p)"
    "mset h1 = mset ?h" "p < length ?h" using sift_down_keeps [of ?h "heap_le cmp" 0] by blast
  then have s1: "set h1 = set ?h" "length h1 = length ?h" by (metis set_mset_mset, metis size_mset)
  with sub have "set h1 \<subseteq> set h" "p < length h1" using h1(3) by (simp_all only: s1)
  with answers_le [OF assms(1)] have "\<forall>x \<in> set h1. \<forall>y \<in> set h1. \<exists>b. heap_le cmp x y = Inr b" by blast
  from sift_up_keeps [OF this \<open>p < length h1\<close>] obtain h2 where "sift_up (heap_le cmp) p h1 = Inr h2" "mset h2 = mset h1" by blast
  with h1 m False assms(2) show ?thesis by (simp add: heap_pop_def)
qed

subsection \<open>The first element is the greatest\<close>

text \<open>
  The closure answers for any two elements of \<open>A\<close>, \<open>Greater\<close> exactly where the total preorder \<open>R\<close> fails.
\<close>

definition decides :: "('a \<Rightarrow> 'a \<Rightarrow> ordering res) \<Rightarrow> ('a \<Rightarrow> 'a \<Rightarrow> bool) \<Rightarrow> 'a set \<Rightarrow> bool" where
  "decides cmp R A \<longleftrightarrow> (\<forall>x \<in> A. \<forall>y \<in> A. \<exists>r. cmp x y = Inr r \<and> (R x y \<longleftrightarrow> r \<noteq> Greater) \<and> (R x y \<or> R y x)) \<and>
     (\<forall>x \<in> A. \<forall>y \<in> A. \<forall>z \<in> A. R x y \<longrightarrow> R y z \<longrightarrow> R x z)"

definition heap_ordered :: "('a \<Rightarrow> 'a \<Rightarrow> bool) \<Rightarrow> 'a list \<Rightarrow> bool" where
  "heap_ordered R h \<longleftrightarrow> (\<forall>i < length h. 0 < i \<longrightarrow> R (h ! i) (h ! heap_parent i))"

text \<open>Ordered but for the element at \<open>pos\<close>, above its parent, or also below its children.\<close>

definition up_hole :: "('a \<Rightarrow> 'a \<Rightarrow> bool) \<Rightarrow> nat \<Rightarrow> 'a list \<Rightarrow> bool" where
  "up_hole R pos h \<longleftrightarrow> (\<forall>i < length h. 0 < i \<longrightarrow> i \<noteq> pos \<longrightarrow> R (h ! i) (h ! heap_parent i)) \<and>
     (\<forall>i < length h. 0 < i \<longrightarrow> heap_parent i = pos \<longrightarrow> 0 < pos \<longrightarrow> R (h ! i) (h ! heap_parent pos))"

definition down_hole :: "('a \<Rightarrow> 'a \<Rightarrow> bool) \<Rightarrow> nat \<Rightarrow> 'a list \<Rightarrow> bool" where
  "down_hole R pos h \<longleftrightarrow>
     (\<forall>i < length h. 0 < i \<longrightarrow> i \<noteq> pos \<longrightarrow> heap_parent i \<noteq> pos \<longrightarrow> R (h ! i) (h ! heap_parent i)) \<and>
     (\<forall>i < length h. 0 < i \<longrightarrow> heap_parent i = pos \<longrightarrow> 0 < pos \<longrightarrow> R (h ! i) (h ! heap_parent pos))"

lemma sift_up_ordered:
  assumes "\<forall>x \<in> set h. \<forall>y \<in> set h. le x y = Inr (R x y) \<and> (R x y \<or> R y x)"
    and "\<forall>x \<in> set h. \<forall>y \<in> set h. \<forall>z \<in> set h. R x y \<longrightarrow> R y z \<longrightarrow> R x z"
    and "up_hole R pos h" "pos < length h" "sift_up le pos h = Inr h'"
  shows "heap_ordered R h'"
  using assms
proof (induction le pos h rule: sift_up.induct)
  case (1 le pos h)
  show ?case
  proof (cases "pos = 0")
    case True
    with "1.prems"(3,5) show ?thesis by (simp add: sift_up.simps up_hole_def heap_ordered_def)
  next
    case False
    let ?p = "heap_parent pos" and ?s = "heap_swap h pos (heap_parent pos)"
    have p: "?p < length h" "?p < pos" using "1.prems"(4) False by linarith+
    have le: "le (h ! pos) (h ! ?p) = Inr (R (h ! pos) (h ! ?p))" and tot: "R (h ! pos) (h ! ?p) \<or> R (h ! ?p) (h ! pos)"
      using "1.prems"(1,4) p by simp_all
    note up = "1.prems"(3) [unfolded up_hole_def]
    show ?thesis
    proof (cases "R (h ! pos) (h ! ?p)")
      case True
      then have "h' = h" using "1.prems"(5) le False by (simp add: sift_up.simps [of le pos])
      with up True show ?thesis unfolding heap_ordered_def by metis
    next
      case notR: False
      have s: "mset ?s = mset h" by (rule heap_swap_mset [OF "1.prems"(4) p(1)])
      then have set: "set ?s = set h" by (metis set_mset_mset)
      have run: "sift_up le ?p ?s = Inr h'" using "1.prems"(5) le False notR by (simp add: sift_up.simps [of le pos])
      note nth = heap_swap_nth [OF "1.prems"(4) p(1)]
      have tr: "R a c" if "R a b" "R b c" "a \<in> set h" "b \<in> set h" "c \<in> set h" for a b c
        using "1.prems"(2) that by blast
      have A: "R (?s ! i) (?s ! heap_parent i)" if i: "i < length h" "0 < i" "i \<noteq> ?p" for i
      proof -
        have ip: "heap_parent i < length h" "heap_parent i \<noteq> i" using i by linarith+
        consider "i = pos" | "i \<noteq> pos" "heap_parent i = pos" | "i \<noteq> pos" "heap_parent i = ?p" | "i \<noteq> pos" "heap_parent i \<noteq> pos" "heap_parent i \<noteq> ?p" by blast
        then show ?thesis
        proof cases
          case 1
          then show ?thesis unfolding nth [OF i(1)] nth [OF ip(1)] using tot notR i(3) by simp
        next
          case 2
          have "R (h ! i) (h ! ?p)" using up i(1,2) 2 False by blast
          then show ?thesis unfolding nth [OF i(1)] nth [OF ip(1)] using 2 i(3) p(2) by simp
        next
          case 3
          then have a: "R (h ! i) (h ! ?p)" using up i by metis
          have b: "R (h ! ?p) (h ! pos)" using tot notR by blast
          have "R (h ! i) (h ! pos)" by (rule tr [OF a b]) (use i(1) p "1.prems"(4) in simp_all)
          then show ?thesis unfolding nth [OF i(1)] nth [OF ip(1)] using 3 i(3) p(2) by simp
        next
          case 4
          have "R (h ! i) (h ! heap_parent i)" using up i(1,2) 4 by blast
          then show ?thesis unfolding nth [OF i(1)] nth [OF ip(1)] using 4 i(3) by simp
        qed
      qed
      have B: "R (?s ! i) (?s ! heap_parent ?p)" if i: "i < length h" "0 < i" "heap_parent i = ?p" "0 < ?p" for i
      proof -
        have pp: "heap_parent ?p < length h" "heap_parent ?p \<noteq> ?p" "heap_parent ?p \<noteq> pos" using p i(4) by linarith+
        have ip: "i \<noteq> ?p" using i(2,3) by linarith
        have e: "?s ! i = (if i = pos then h ! ?p else h ! i)" "?s ! heap_parent ?p = h ! heap_parent ?p"
          unfolding nth [OF i(1)] nth [OF pp(1)] using ip pp by simp_all
        have "?p \<noteq> pos" using p(2) by simp
        with up p(1) i(4) have up1: "R (h ! ?p) (h ! heap_parent ?p)" by blast
        show ?thesis
        proof (cases "i = pos")
          case False
          then have "R (h ! i) (h ! ?p)" using up i by metis
          then have "R (h ! i) (h ! heap_parent ?p)" by (rule tr [OF _ up1]) (use i(1) p pp in simp_all)
          with False show ?thesis unfolding e by simp
        qed (use up1 e in simp)
      qed
      have hole: "up_hole R ?p ?s" unfolding up_hole_def heap_swap_length using A B by blast
      show ?thesis
        by (rule "1.IH" [OF False le notR _ _ hole _ run]) (use "1.prems"(1,2) p(1) in \<open>simp_all only: set heap_swap_length\<close>)
    qed
  qed
qed

lemma sift_down_hole:
  assumes "\<forall>x \<in> set h. \<forall>y \<in> set h. le x y = Inr (R x y) \<and> (R x y \<or> R y x)"
    and "down_hole R pos h" "pos < length h" "sift_down_to_bottom le pos h = Inr (h', pos')"
  shows "up_hole R pos' h'"
  using assms
proof (induction le pos h rule: sift_down_to_bottom.induct)
  case (1 le pos h)
  let ?c = "2 * pos + 1"
  note hole = "1.prems"(2) [unfolded down_hole_def]
  have parent: "heap_parent i = pos \<longleftrightarrow> i = ?c \<or> i = ?c + 1" if "0 < i" for i using that by linarith
  have step: "down_hole R c (heap_swap h pos c)"
    if c: "c < length h" "c = ?c \<or> c = ?c + 1" and sib: "\<forall>d < length h. d = ?c \<or> d = ?c + 1 \<longrightarrow> R (h ! d) (h ! c)" for c
  proof -
    note nth = heap_swap_nth [OF "1.prems"(3) c(1)]
    have cp: "c \<noteq> pos" "heap_parent c = pos" "0 < c" using c(2) by auto
    have A: "R (heap_swap h pos c ! i) (heap_swap h pos c ! heap_parent i)"
      if i: "i < length h" "0 < i" "i \<noteq> c" "heap_parent i \<noteq> c" for i
    proof -
      have ip: "heap_parent i < length h" "heap_parent i \<noteq> i" using i(1,2) by linarith+
      consider "i = pos" | "i \<noteq> pos" "heap_parent i = pos" | "i \<noteq> pos" "heap_parent i \<noteq> pos" by blast
      then show ?thesis
      proof cases
        case 1
        have "R (h ! c) (h ! heap_parent pos)" using hole c(1) cp 1 i(2) by blast
        then show ?thesis unfolding nth [OF i(1)] nth [OF ip(1)] using 1 i(3,4) ip(2) by simp
      next
        case 2
        then have "R (h ! i) (h ! c)" using sib i(1,2) parent by blast
        then show ?thesis unfolding nth [OF i(1)] nth [OF ip(1)] using 2 i(3) by simp
      next
        case 3
        have "R (h ! i) (h ! heap_parent i)" using hole i(1,2) 3 by blast
        then show ?thesis unfolding nth [OF i(1)] nth [OF ip(1)] using 3 i(3,4) by simp
      qed
    qed
    have B: "R (heap_swap h pos c ! i) (heap_swap h pos c ! heap_parent c)"
      if i: "i < length h" "0 < i" "heap_parent i = c" for i
    proof -
      have ip: "i \<noteq> c" "i \<noteq> pos" using i(2,3) cp by linarith+
      have "R (h ! i) (h ! heap_parent i)" using hole i(1,2) ip i(3) cp(1) by metis
      then show ?thesis unfolding cp(2) nth [OF i(1)] nth [OF "1.prems"(3)] using ip i(3) cp by simp
    qed
    show ?thesis unfolding down_hole_def heap_swap_length using A B by blast
  qed
  consider "?c + 2 \<le> length h" | "?c + 1 = length h" | "length h \<le> ?c" by linarith
  then show ?case
  proof cases
    case a: 1
    let ?b = "R (h ! ?c) (h ! (?c + 1))"
    have cc: "h ! ?c \<in> set h" "h ! (?c + 1) \<in> set h" using a by simp_all
    have b: "le (h ! ?c) (h ! (?c + 1)) = Inr ?b" "?b \<or> R (h ! (?c + 1)) (h ! ?c)" "\<forall>d \<in> {?c, ?c + 1}. R (h ! d) (h ! d)"
      using "1.prems"(1) cc by blast+
    define c where "c = (if ?b then ?c + 1 else ?c)"
    have c: "c < length h" "c = ?c \<or> c = ?c + 1" using a by (simp_all add: c_def)
    have "down_hole R c (heap_swap h pos c)"
      by (rule step [OF c]) (use b in \<open>auto simp: c_def\<close>)
    moreover have "set (heap_swap h pos c) = set h" using heap_swap_mset [OF "1.prems"(3) c(1)] by (metis set_mset_mset)
    moreover have "sift_down_to_bottom le c (heap_swap h pos c) = Inr (h', pos')"
      using "1.prems"(4) a b(1) by (subst (asm) sift_down_to_bottom.simps) (simp add: c_def Let_def split: if_splits)
    ultimately show ?thesis using "1.IH" [OF refl a b(1) c_def] "1.prems"(1) c(1) by simp
  next
    case 2
    have "h ! ?c \<in> set h" using 2 by simp
    then have "R (h ! ?c) (h ! ?c)" using "1.prems"(1) by blast
    then have "down_hole R ?c (heap_swap h pos ?c)" by (intro step) (use 2 in auto)
    moreover have leaf: "\<forall>i < length h. 0 < i \<longrightarrow> heap_parent i \<noteq> ?c" using 2 by (intro allI impI) linarith
    ultimately have "up_hole R ?c (heap_swap h pos ?c)"
      by (simp only: up_hole_def down_hole_def heap_swap_length) metis
    moreover have "sift_down_to_bottom le pos h = Inr (heap_swap h pos ?c, ?c)"
      by (subst sift_down_to_bottom.simps) (use 2 in simp)
    ultimately show ?thesis using "1.prems"(4) by simp
  next
    case 3
    then have "sift_down_to_bottom le pos h = Inr (h, pos)" by (subst sift_down_to_bottom.simps) simp
    then have "h' = h" "pos' = pos" using "1.prems"(4) by simp_all
    moreover have "heap_parent i \<noteq> pos" if "i < length h" "0 < i" for i using that 3 by linarith
    ultimately show ?thesis using hole unfolding up_hole_def by blast
  qed
qed

lemma heap_top:
  assumes "decides cmp R (set h)" "heap_ordered R h" "i < length h"
  shows "R (h ! i) (h ! 0)"
  using assms(3)
proof (induction i rule: less_induct)
  case (less i)
  show ?case
  proof (cases "i = 0")
    case True
    then have "h ! 0 \<in> set h" using less.prems by simp
    then show ?thesis using assms(1) True unfolding decides_def by blast
  next
    case False
    have p: "heap_parent i < i" "heap_parent i < length h" using False less.prems by linarith+
    have "R (h ! i) (h ! heap_parent i)" "R (h ! heap_parent i) (h ! 0)"
      using assms(2) less False p by (simp_all add: heap_ordered_def)
    moreover have "h ! i \<in> set h" "h ! heap_parent i \<in> set h" "h ! 0 \<in> set h"
      using less.prems p(2) by (meson nth_mem le_less_trans zero_le)+
    ultimately show ?thesis using assms(1) unfolding decides_def by blast
  qed
qed

lemma decides_heap_le:
  assumes "decides cmp R A" "x \<in> A" "y \<in> A"
  shows "heap_le cmp x y = Inr (R x y) \<and> (R x y \<or> R y x)"
proof -
  from assms obtain r where "cmp x y = Inr r" "R x y \<longleftrightarrow> r \<noteq> Greater" "R x y \<or> R y x"
    unfolding decides_def by meson
  then show ?thesis by (simp add: heap_le_def)
qed

lemma decides_le:
  "decides cmp R A \<Longrightarrow> B \<subseteq> A \<Longrightarrow> \<forall>x \<in> B. \<forall>y \<in> B. heap_le cmp x y = Inr (R x y) \<and> (R x y \<or> R y x)"
  by (intro ballI decides_heap_le [where A = A]) auto

lemma decides_trans: "decides cmp R A \<Longrightarrow> B \<subseteq> A \<Longrightarrow> \<forall>x \<in> B. \<forall>y \<in> B. \<forall>z \<in> B. R x y \<longrightarrow> R y z \<longrightarrow> R x z"
  unfolding decides_def by blast

lemma decides_answers: "decides cmp R A \<Longrightarrow> answers cmp A"
  unfolding decides_def answers_def by metis

lemma heap_push_ordered:
  assumes "decides cmp R (insert x (set h))" "heap_ordered R h" "heap_push cmp x h = Inr h'"
  shows "heap_ordered R h'"
proof -
  have "up_hole R (length h) (h @ [x])"
    unfolding up_hole_def
  proof (intro conjI allI impI)
    fix i
    assume i: "i < length (h @ [x])" "0 < i" "i \<noteq> length h"
    then have "i < length h" "heap_parent i < length h" by auto
    then show "R ((h @ [x]) ! i) ((h @ [x]) ! heap_parent i)" using assms(2) i(2) by (simp add: heap_ordered_def nth_append)
  qed auto
  moreover have "sift_up (heap_le cmp) (length h) (h @ [x]) = Inr h'" using assms(3) by (simp only: heap_push_def)
  moreover have "set (h @ [x]) \<subseteq> insert x (set h)" by simp
  ultimately show ?thesis
    by (intro sift_up_ordered [of "h @ [x]" "heap_le cmp" R "length h" h'] decides_le [OF assms(1)] decides_trans [OF assms(1)]) simp_all
qed

lemma heap_pop_ordered:
  assumes "decides cmp R (set h)" "heap_ordered R h" "h \<noteq> []" "heap_pop cmp h = Inr (x, h')"
  shows "heap_ordered R h'"
proof (cases "butlast h = []")
  case True
  then show ?thesis using assms(3,4) by (simp add: heap_pop_def heap_ordered_def)
next
  case False
  let ?h = "(butlast h)[0 := last h]"
  have m: "add_mset (hd h) (mset ?h) = mset h" by (rule mset_last_first [OF assms(3) False])
  then have sub: "set ?h \<subseteq> set h" by (metis set_mset_mset set_mset_add_mset_insert subset_insertI)
  from assms(4) False assms(3) obtain h1 p where h1: "sift_down_to_bottom (heap_le cmp) 0 ?h = Inr (h1, p)" "sift_up (heap_le cmp) p h1 = Inr h'"
    by (auto simp: heap_pop_def rbind_eq_Inr)
  have l: "0 < length ?h" using False by (simp del: length_butlast)
  note le = decides_le [OF assms(1) sub] and tr = decides_trans [OF assms(1) sub]
  have "\<forall>x \<in> set ?h. \<forall>y \<in> set ?h. \<exists>b. heap_le cmp x y = Inr b" using le by blast
  from sift_down_keeps [OF this l] h1(1) have k: "mset h1 = mset ?h" "p < length ?h" by auto
  then have s: "set h1 = set ?h" "length h1 = length ?h" by (metis set_mset_mset, metis size_mset)
  have "down_hole R 0 ?h"
    unfolding down_hole_def
  proof (intro conjI allI impI)
    fix i
    assume i: "i < length ?h" "0 < i" "i \<noteq> 0" "heap_parent i \<noteq> 0"
    then have "heap_parent i < length ?h" "i < length h" by auto
    with i assms(2) show "R (?h ! i) (?h ! heap_parent i)" by (simp add: heap_ordered_def nth_butlast)
  qed simp
  from sift_down_hole [OF le this l h1(1)] have "up_hole R p h1" .
  have "p < length h1" using k(2) by (simp only: s)
  from sift_up_ordered [OF _ _ \<open>up_hole R p h1\<close> this h1(2)] le tr show ?thesis unfolding s(1) by blast
qed

subsection \<open>The queues\<close>

definition shortest_first_queue :: "(state_id \<Rightarrow> state_id \<Rightarrow> ordering res) \<Rightarrow> state_id list queue_ops" where
  "shortest_first_queue cmp =
     \<lparr>q_head = \<lambda>h. Inr (case h of [] \<Rightarrow> None | s # _ \<Rightarrow> Some s, h),
      q_enqueue = heap_push cmp,
      q_dequeue = heap_pop cmp,
      q_update = \<lambda>_ _. Inl (Panic ''not implemented''),
      q_is_empty = \<lambda>h. Inr (h = []),
      q_clear = \<lambda>_. Inr [],
      q_type = ShortestFirstQueue\<rparr>"

definition natural_less :: "'w semiring \<Rightarrow> 'w \<Rightarrow> 'w \<Rightarrow> bool res" where
  "natural_less W w1 w2 = rbind (plus_w W w1 w2) (\<lambda>s. Inr (eq_w W s w1 \<and> \<not> eq_w W w1 w2))"

definition state_weight_compare :: "('w \<Rightarrow> 'w \<Rightarrow> bool res) \<Rightarrow> 'w list \<Rightarrow> state_id \<Rightarrow> state_id \<Rightarrow> bool res" where
  "state_weight_compare lt weights s1 s2 =
     rbind (vec_index weights s1) (\<lambda>w1. rbind (vec_index weights s2) (\<lambda>w2. lt w1 w2))"

definition natural_cmp :: "'w semiring \<Rightarrow> 'w list \<Rightarrow> state_id \<Rightarrow> state_id \<Rightarrow> ordering res" where
  "natural_cmp W weights v1 v2 =
     rbind (runwrap (state_weight_compare (natural_less W) weights v1 v2)) (\<lambda>b. Inr (if b then Less else Greater))"

definition natural_shortest_first_queue :: "'w semiring \<Rightarrow> 'w list \<Rightarrow> state_id list queue_ops" where
  "natural_shortest_first_queue W weights = shortest_first_queue (natural_cmp W weights)"

lemma shortest_first_lawful:
  assumes a: "answers cmp A"
  shows "lawful_queue (shortest_first_queue cmp) (\<lambda>h. set h \<subseteq> A) set length (\<lambda>_ s. s \<in> A) (\<lambda>s. s \<in> A) (\<lambda>_ s. s \<in> A)"
proof (unfold_locales, goal_cases)
  case (1 h s)
  then have "answers cmp (insert s (set h))" using a unfolding answers_def by blast
  from heap_push_keeps [OF this] obtain h' where h': "heap_push cmp s h = Inr h'" "mset h' = add_mset s (mset h)" by blast
  then have "set h' = insert s (set h)" by (metis set_mset_mset set_mset_add_mset_insert)
  with h'(1) 1 show ?case by (simp add: shortest_first_queue_def)
next
  case (3 h)
  then have "answers cmp (set h)" using a unfolding answers_def by blast
  from heap_pop_keeps [OF this] 3(2) obtain h' where h': "heap_pop cmp h = Inr (Some (hd h), h')" "add_mset (hd h) (mset h') = mset h"
    by auto
  then have s: "insert (hd h) (set h') = set h" by (metis set_mset_mset set_mset_add_mset_insert)
  have "size (mset h) = Suc (size (mset h'))" unfolding h'(2) [symmetric] by simp
  then have l: "length h' < length h" by simp
  from s have "set h' \<subseteq> set h" "set h - {hd h} \<subseteq> set h'" "hd h \<in> set h" by auto
  with h'(1) l 3(1) show ?case by (auto simp: shortest_first_queue_def)
qed (simp_all add: shortest_first_queue_def heap_pop_def)

text \<open>The queue of the code compares any states whose weights it holds, if sums of weights never fail.\<close>

lemma natural_answers:
  assumes "total_ops W"
  shows "answers (natural_cmp W weights) {..< length weights}"
  unfolding answers_def
proof (intro ballI)
  fix x y
  assume "x \<in> {..< length weights}" "y \<in> {..< length weights}"
  moreover obtain c where "plus_w W (weights ! x) (weights ! y) = Inr c"
    using assms unfolding total_ops_def is_ok_iff by blast
  ultimately show "\<exists>r. natural_cmp W weights x y = Inr r"
    by (simp add: natural_cmp_def state_weight_compare_def natural_less_def vec_index_def)
qed

lemma natural_shortest_first_lawful:
  "total_ops W \<Longrightarrow> lawful_queue (natural_shortest_first_queue W weights) (\<lambda>h. set h \<subseteq> {..< length weights}) set length
     (\<lambda>_ s. s \<in> {..< length weights}) (\<lambda>s. s \<in> {..< length weights}) (\<lambda>_ s. s \<in> {..< length weights})"
  unfolding natural_shortest_first_queue_def by (rule shortest_first_lawful [OF natural_answers])

end
