(* ===== verification/Auto_Queue.thy ===== *)
theory Auto_Queue
  imports Shortest_First Shortest_Distance
begin

text \<open>
  \<open>algorithms/queues/scc_queue.rs\<close> and \<open>auto_queue.rs\<close>. The queues a component of an \<open>SccQueue\<close> may have are a
  \<open>datatype\<close>, in place of the boxed trait object; so are those an \<open>AutoQueue\<close> may hold.
\<close>

subsection \<open>One queue per component\<close>

datatype 'w inner_queue = InnerTrivial "state_id option" | InnerFifo "state_id list" | InnerLifo "state_id list"
  | InnerShortest "'w list" "state_id list"

abbreviation lift_queue :: "('q \<Rightarrow> 'p) \<Rightarrow> 'q res \<Rightarrow> 'p res" where
  "lift_queue C r \<equiv> rbind r (\<lambda>q. Inr (C q))"

abbreviation lift_answer :: "('q \<Rightarrow> 'p) \<Rightarrow> (state_id option \<times> 'q) res \<Rightarrow> (state_id option \<times> 'p) res" where
  "lift_answer C r \<equiv> rbind r (\<lambda>(s, q). Inr (s, C q))"

fun inner_head :: "'w semiring \<Rightarrow> 'w inner_queue \<Rightarrow> (state_id option \<times> 'w inner_queue) res" where
  "inner_head W (InnerTrivial q) = lift_answer InnerTrivial (q_head trivial_queue q)"
| "inner_head W (InnerFifo q) = lift_answer InnerFifo (q_head fifo_queue q)"
| "inner_head W (InnerLifo q) = lift_answer InnerLifo (q_head lifo_queue q)"
| "inner_head W (InnerShortest ws q) = lift_answer (InnerShortest ws) (q_head (natural_shortest_first_queue W ws) q)"

fun inner_enqueue :: "'w semiring \<Rightarrow> state_id \<Rightarrow> 'w inner_queue \<Rightarrow> 'w inner_queue res" where
  "inner_enqueue W s (InnerTrivial q) = lift_queue InnerTrivial (q_enqueue trivial_queue s q)"
| "inner_enqueue W s (InnerFifo q) = lift_queue InnerFifo (q_enqueue fifo_queue s q)"
| "inner_enqueue W s (InnerLifo q) = lift_queue InnerLifo (q_enqueue lifo_queue s q)"
| "inner_enqueue W s (InnerShortest ws q) = lift_queue (InnerShortest ws) (q_enqueue (natural_shortest_first_queue W ws) s q)"

fun inner_dequeue :: "'w semiring \<Rightarrow> 'w inner_queue \<Rightarrow> (state_id option \<times> 'w inner_queue) res" where
  "inner_dequeue W (InnerTrivial q) = lift_answer InnerTrivial (q_dequeue trivial_queue q)"
| "inner_dequeue W (InnerFifo q) = lift_answer InnerFifo (q_dequeue fifo_queue q)"
| "inner_dequeue W (InnerLifo q) = lift_answer InnerLifo (q_dequeue lifo_queue q)"
| "inner_dequeue W (InnerShortest ws q) = lift_answer (InnerShortest ws) (q_dequeue (natural_shortest_first_queue W ws) q)"

fun inner_update :: "'w semiring \<Rightarrow> state_id \<Rightarrow> 'w inner_queue \<Rightarrow> 'w inner_queue res" where
  "inner_update W s (InnerTrivial q) = lift_queue InnerTrivial (q_update trivial_queue s q)"
| "inner_update W s (InnerFifo q) = lift_queue InnerFifo (q_update fifo_queue s q)"
| "inner_update W s (InnerLifo q) = lift_queue InnerLifo (q_update lifo_queue s q)"
| "inner_update W s (InnerShortest ws q) = lift_queue (InnerShortest ws) (q_update (natural_shortest_first_queue W ws) s q)"

fun inner_is_empty :: "'w semiring \<Rightarrow> 'w inner_queue \<Rightarrow> bool res" where
  "inner_is_empty W (InnerTrivial q) = q_is_empty trivial_queue q"
| "inner_is_empty W (InnerFifo q) = q_is_empty fifo_queue q"
| "inner_is_empty W (InnerLifo q) = q_is_empty lifo_queue q"
| "inner_is_empty W (InnerShortest ws q) = q_is_empty (natural_shortest_first_queue W ws) q"

fun inner_clear :: "'w semiring \<Rightarrow> 'w inner_queue \<Rightarrow> 'w inner_queue res" where
  "inner_clear W (InnerTrivial q) = lift_queue InnerTrivial (q_clear trivial_queue q)"
| "inner_clear W (InnerFifo q) = lift_queue InnerFifo (q_clear fifo_queue q)"
| "inner_clear W (InnerLifo q) = lift_queue InnerLifo (q_clear lifo_queue q)"
| "inner_clear W (InnerShortest ws q) = lift_queue (InnerShortest ws) (q_clear (natural_shortest_first_queue W ws) q)"

fun inner_elems :: "'w inner_queue \<Rightarrow> state_id set" where
  "inner_elems (InnerTrivial q) = set_option q"
| "inner_elems (InnerFifo q) = set q"
| "inner_elems (InnerLifo q) = set q"
| "inner_elems (InnerShortest ws q) = set q"

fun inner_load :: "'w inner_queue \<Rightarrow> nat" where
  "inner_load (InnerTrivial q) = (if q = None then 0 else 1)"
| "inner_load (InnerFifo q) = length q"
| "inner_load (InnerLifo q) = length q"
| "inner_load (InnerShortest ws q) = length q"

text \<open>The queue suits the states \<open>A\<close> of its component: a trivial one holds at most one.\<close>

definition inner_ok :: "'w semiring \<Rightarrow> state_id set \<Rightarrow> 'w inner_queue \<Rightarrow> bool" where
  "inner_ok W A q \<longleftrightarrow> inner_elems q \<subseteq> A \<and>
     (case q of InnerTrivial _ \<Rightarrow> \<exists>s. A \<subseteq> {s}
      | InnerShortest ws _ \<Rightarrow> A \<subseteq> {..< length ws} \<and> total_ops W | _ \<Rightarrow> True)"

lemma inner_shortest_lawful:
  assumes "inner_ok W A (InnerShortest ws h)"
  shows "lawful_queue (natural_shortest_first_queue W ws) (\<lambda>h. set h \<subseteq> A) set length (\<lambda>_ s. s \<in> A) (\<lambda>s. s \<in> A) (\<lambda>_ s. s \<in> A)"
    "set h \<subseteq> A"
proof -
  have a: "total_ops W" "A \<subseteq> {..< length ws}" "set h \<subseteq> A" using assms by (simp_all add: inner_ok_def)
  then have "answers (natural_cmp W ws) A" using natural_answers [OF a(1), of ws] unfolding answers_def by blast
  then show "lawful_queue (natural_shortest_first_queue W ws) (\<lambda>h. set h \<subseteq> A) set length (\<lambda>_ s. s \<in> A) (\<lambda>s. s \<in> A) (\<lambda>_ s. s \<in> A)"
    unfolding natural_shortest_first_queue_def by (rule shortest_first_lawful)
  show "set h \<subseteq> A" by (rule a(3))
qed

lemma inner_ok_shortest:
  "inner_ok W A (InnerShortest ws h) \<Longrightarrow> set h' \<subseteq> A \<Longrightarrow> inner_ok W A (InnerShortest ws h')"
  by (simp add: inner_ok_def)

lemma inner_enqueue_spec:
  assumes "inner_ok W A q" "s \<in> A"
  shows "\<exists>q'. inner_enqueue W s q = Inr q' \<and> inner_ok W A q' \<and> inner_elems q' = insert s (inner_elems q)"
proof (cases q)
  case (InnerShortest ws h)
  with assms(1) have ok: "inner_ok W A (InnerShortest ws h)" by simp
  note L = inner_shortest_lawful [OF ok]
  from lawful_queue.enqueue_law [OF L assms(2)] obtain h' where
    h': "q_enqueue (natural_shortest_first_queue W ws) s h = Inr h'" "set h' \<subseteq> A" "set h' = insert s (set h)" by blast
  with InnerShortest inner_ok_shortest [OF ok h'(2)] show ?thesis by simp
qed (use assms in \<open>auto simp: inner_ok_def trivial_queue_def fifo_queue_def lifo_queue_def\<close>)

lemma inner_dequeue_spec:
  assumes "inner_ok W A q" "inner_elems q \<noteq> {}"
  shows "\<exists>s q'. inner_dequeue W q = Inr (Some s, q') \<and> inner_ok W A q' \<and> s \<in> inner_elems q \<and>
    inner_elems q - {s} \<subseteq> inner_elems q' \<and> inner_elems q' \<subseteq> inner_elems q \<and> inner_load q' < inner_load q"
proof (cases q)
  case (InnerTrivial t)
  with assms show ?thesis by (cases t) (auto simp: inner_ok_def trivial_queue_def)
next
  case (InnerFifo l)
  with assms show ?thesis by (cases l) (auto simp: inner_ok_def fifo_queue_def)
next
  case (InnerLifo l)
  with assms have l: "l \<noteq> []" "set l \<subseteq> A" by (simp_all add: inner_ok_def)
  with set_butlast [OF l(1)] InnerLifo show ?thesis by (auto simp: inner_ok_def lifo_queue_def)
next
  case (InnerShortest ws h)
  with assms have ok: "inner_ok W A (InnerShortest ws h)" and ne: "set h \<noteq> {}" by simp_all
  note L = inner_shortest_lawful [OF ok]
  from lawful_queue.dequeue_law [OF L ne] obtain s h' where
    h': "q_dequeue (natural_shortest_first_queue W ws) h = Inr (Some s, h')" "set h' \<subseteq> A" "s \<in> set h"
      "set h - {s} \<subseteq> set h'" "set h' \<subseteq> set h" "length h' < length h" by blast
  with InnerShortest inner_ok_shortest [OF ok h'(2)] show ?thesis by simp
qed

lemma inner_is_empty_spec: "inner_is_empty W q = Inr (inner_elems q = {})"
  by (cases q) (simp_all add: trivial_queue_def fifo_queue_def lifo_queue_def natural_shortest_first_queue_def shortest_first_queue_def)

lemma inner_clear_spec: "inner_ok W A q \<Longrightarrow> \<exists>q'. inner_clear W q = Inr q' \<and> inner_ok W A q' \<and> inner_elems q' = {}"
  by (cases q) (simp_all add: inner_ok_def trivial_queue_def fifo_queue_def lifo_queue_def natural_shortest_first_queue_def
    shortest_first_queue_def)

subsection \<open>The queue over the components\<close>

text \<open>\<open>front\<close> and \<open>back\<close> are \<open>i32\<close>; a negative index would be out of range.\<close>

record 'w scc_queue =
  sq_front :: int
  sq_back :: int
  sq_queues :: "'w inner_queue list"
  sq_sccs :: "state_id list"

definition i32_index :: "'a list \<Rightarrow> int \<Rightarrow> 'a res" where
  "i32_index xs i = (if i < 0 then Inl (Panic ''index out of bounds'') else vec_index xs (nat i))"

definition sq_new :: "'w inner_queue list \<Rightarrow> state_id list \<Rightarrow> 'w scc_queue" where
  "sq_new queues sccs = \<lparr>sq_front = 0, sq_back = - 1, sq_queues = queues, sq_sccs = sccs\<rparr>"

function sq_advance :: "'w semiring \<Rightarrow> 'w inner_queue list \<Rightarrow> int \<Rightarrow> int \<Rightarrow> int res" where
  "sq_advance W queues bk front =
     (if front \<le> bk
      then rbind (i32_index queues front) (\<lambda>q.
           rbind (inner_is_empty W q) (\<lambda>e. if e then sq_advance W queues bk (front + 1) else Inr front))
      else Inr front)"
  by pat_completeness auto
termination by (relation "measure (\<lambda>(W, queues, bk, front). nat (bk + 1 - front))") auto

declare sq_advance.simps [simp del]

definition sq_update_front :: "'w semiring \<Rightarrow> 'w scc_queue \<Rightarrow> 'w scc_queue res" where
  "sq_update_front W q = rbind (sq_advance W (sq_queues q) (sq_back q) (sq_front q)) (\<lambda>f. Inr (q\<lparr>sq_front := f\<rparr>))"

definition sq_is_empty :: "'w semiring \<Rightarrow> 'w scc_queue \<Rightarrow> bool res" where
  "sq_is_empty W q =
     (if sq_front q < sq_back q then Inr False
      else if sq_front q > sq_back q then Inr True
      else rbind (i32_index (sq_queues q) (sq_front q)) (inner_is_empty W))"

definition sq_head :: "'w semiring \<Rightarrow> 'w scc_queue \<Rightarrow> (state_id option \<times> 'w scc_queue) res" where
  "sq_head W q =
     rbind (sq_update_front W q) (\<lambda>q.
     rbind (i32_index (sq_queues q) (sq_front q)) (\<lambda>iq.
     rbind (inner_head W iq) (\<lambda>(s, iq). Inr (s, q\<lparr>sq_queues := (sq_queues q)[nat (sq_front q) := iq]\<rparr>))))"

definition sq_enqueue :: "'w semiring \<Rightarrow> state_id \<Rightarrow> 'w scc_queue \<Rightarrow> 'w scc_queue res" where
  "sq_enqueue W s q =
     rbind (vec_index (sq_sccs q) s) (\<lambda>c.
       let q = (if sq_front q > sq_back q then q\<lparr>sq_front := int c, sq_back := int c\<rparr>
                else if int c > sq_back q then q\<lparr>sq_back := int c\<rparr>
                else if int c < sq_front q then q\<lparr>sq_front := int c\<rparr> else q)
       in rbind (vec_index (sq_queues q) c) (\<lambda>iq.
          rbind (inner_enqueue W s iq) (\<lambda>iq. Inr (q\<lparr>sq_queues := (sq_queues q)[c := iq]\<rparr>))))"

definition sq_dequeue :: "'w semiring \<Rightarrow> 'w scc_queue \<Rightarrow> (state_id option \<times> 'w scc_queue) res" where
  "sq_dequeue W q =
     rbind (sq_is_empty W q) (\<lambda>empty.
       if empty then Inr (None, q)
       else
         rbind (sq_update_front W q) (\<lambda>q.
         rbind (i32_index (sq_queues q) (sq_front q)) (\<lambda>iq.
         rbind (inner_dequeue W iq) (\<lambda>(s, iq). Inr (s, q\<lparr>sq_queues := (sq_queues q)[nat (sq_front q) := iq]\<rparr>)))))"

definition sq_update :: "'w semiring \<Rightarrow> state_id \<Rightarrow> 'w scc_queue \<Rightarrow> 'w scc_queue res" where
  "sq_update W s q =
     rbind (vec_index (sq_sccs q) s) (\<lambda>c.
     rbind (vec_index (sq_queues q) c) (\<lambda>iq.
     rbind (inner_update W s iq) (\<lambda>iq. Inr (q\<lparr>sq_queues := (sq_queues q)[c := iq]\<rparr>))))"

definition sq_clear :: "'w semiring \<Rightarrow> 'w scc_queue \<Rightarrow> 'w scc_queue res" where
  "sq_clear W q =
     rbind (for_res (\<lambda>i queues. rbind (i32_index queues i) (\<lambda>iq. rbind (inner_clear W iq) (\<lambda>iq. Inr (queues[nat i := iq]))))
              [sq_front q .. sq_back q] (sq_queues q)) (\<lambda>queues.
       Inr (q\<lparr>sq_queues := queues, sq_front := 0, sq_back := - 1\<rparr>))"

definition scc_queue_ops :: "'w semiring \<Rightarrow> 'w scc_queue queue_ops" where
  "scc_queue_ops W =
     \<lparr>q_head = sq_head W, q_enqueue = sq_enqueue W, q_dequeue = sq_dequeue W, q_update = sq_update W,
      q_is_empty = sq_is_empty W, q_clear = sq_clear W, q_type = SccQueue\<rparr>"

subsection \<open>It is lawful when served in the order of the components\<close>

definition component :: "state_id list \<Rightarrow> nat \<Rightarrow> state_id set" where
  "component sccs i = {s. s < length sccs \<and> sccs ! s = i}"

definition sq_elems :: "'w scc_queue \<Rightarrow> state_id set" where
  "sq_elems q = (\<Union>iq \<in> set (sq_queues q). inner_elems iq)"

definition sq_load :: "'w scc_queue \<Rightarrow> nat" where
  "sq_load q = sum_list (map inner_load (sq_queues q))"

text \<open>The window \<open>front .. back\<close> covers the queues that hold a state, and its last one does unless it is the only one.\<close>

definition sq_window :: "int \<Rightarrow> int \<Rightarrow> 'w inner_queue list \<Rightarrow> bool" where
  "sq_window front bk queues \<longleftrightarrow> 0 \<le> front \<and> bk < int (length queues) \<and>
     (\<forall>i < length queues. inner_elems (queues ! i) \<noteq> {} \<longrightarrow> front \<le> int i \<and> int i \<le> bk) \<and>
     (front < bk \<longrightarrow> inner_elems (queues ! nat bk) \<noteq> {})"

definition sq_ok :: "'w semiring \<Rightarrow> state_id list \<Rightarrow> nat \<Rightarrow> 'w scc_queue \<Rightarrow> bool" where
  "sq_ok W sccs n q \<longleftrightarrow> sq_sccs q = sccs \<and> length (sq_queues q) = n \<and> (\<forall>c \<in> set sccs. c < n) \<and>
     (\<forall>i < n. inner_ok W (component sccs i) (sq_queues q ! i)) \<and> sq_window (sq_front q) (sq_back q) (sq_queues q)"

definition sq_valid :: "'w scc_queue \<Rightarrow> state_id \<Rightarrow> bool" where
  "sq_valid q s \<longleftrightarrow> s < length (sq_sccs q) \<and>
     (sq_elems q = {} \<longrightarrow> sq_back q < sq_front q \<or> sq_back q \<le> int (sq_sccs q ! s))"

lemma sq_elems_nth: "x \<in> sq_elems q \<longleftrightarrow> (\<exists>i < length (sq_queues q). x \<in> inner_elems (sq_queues q ! i))"
  unfolding sq_elems_def by (auto simp: in_set_conv_nth) (metis nth_mem)

lemma sq_elems_upd:
  assumes "i < length (sq_queues q)"
  shows "sq_elems (q\<lparr>sq_queues := (sq_queues q)[i := iq]\<rparr>) = (\<Union>j \<in> {..< length (sq_queues q)} - {i}. inner_elems (sq_queues q ! j)) \<union> inner_elems iq"
    "sq_elems q = (\<Union>j \<in> {..< length (sq_queues q)} - {i}. inner_elems (sq_queues q ! j)) \<union> inner_elems (sq_queues q ! i)"
proof -
  show "sq_elems (q\<lparr>sq_queues := (sq_queues q)[i := iq]\<rparr>) = (\<Union>j \<in> {..< length (sq_queues q)} - {i}. inner_elems (sq_queues q ! j)) \<union> inner_elems iq"
  proof (rule set_eqI)
    fix x
    show "x \<in> sq_elems (q\<lparr>sq_queues := (sq_queues q)[i := iq]\<rparr>) \<longleftrightarrow>
      x \<in> (\<Union>j \<in> {..< length (sq_queues q)} - {i}. inner_elems (sq_queues q ! j)) \<union> inner_elems iq"
      using assms unfolding sq_elems_nth by (auto simp: nth_upd split: if_splits)
  qed
  show "sq_elems q = (\<Union>j \<in> {..< length (sq_queues q)} - {i}. inner_elems (sq_queues q ! j)) \<union> inner_elems (sq_queues q ! i)"
    using assms by (auto simp: sq_elems_nth)
qed

lemma sum_list_upd_less:
  fixes f :: "'a \<Rightarrow> nat"
  shows "i < length xs \<Longrightarrow> f y < f (xs ! i) \<Longrightarrow> sum_list (map f (xs[i := y])) < sum_list (map f xs)"
proof (induction xs arbitrary: i)
  case (Cons x xs)
  then show ?case by (cases i) auto
qed simp

lemma sq_advance_spec:
  assumes "0 \<le> f" "bk < int (length queues)"
  shows "\<exists>f'. sq_advance W queues bk f = Inr f' \<and> f \<le> f' \<and>
    (\<forall>i < length queues. f \<le> int i \<longrightarrow> int i < f' \<longrightarrow> inner_elems (queues ! i) = {}) \<and>
    (f' \<le> bk \<longrightarrow> inner_elems (queues ! nat f') \<noteq> {})"
  using assms
proof (induction W queues bk f rule: sq_advance.induct)
  case (1 W queues bk f)
  show ?case
  proof (cases "f \<le> bk")
    case False
    then show ?thesis by (subst sq_advance.simps) auto
  next
    case b: True
    then have q: "i32_index queues f = Inr (queues ! nat f)" using "1.prems" by (simp add: i32_index_def vec_index_def)
    show ?thesis
    proof (cases "inner_elems (queues ! nat f) = {}")
      case False
      with b q show ?thesis by (subst sq_advance.simps) (auto simp: inner_is_empty_spec)
    next
      case True
      then have e: "inner_is_empty W (queues ! nat f) = Inr True" by (simp add: inner_is_empty_spec)
      from "1.IH" [OF b q e TrueI] "1.prems" obtain f' where f': "sq_advance W queues bk (f + 1) = Inr f'" "f + 1 \<le> f'"
        "\<forall>i < length queues. f + 1 \<le> int i \<longrightarrow> int i < f' \<longrightarrow> inner_elems (queues ! i) = {}"
        "f' \<le> bk \<longrightarrow> inner_elems (queues ! nat f') \<noteq> {}" by auto
      have "inner_elems (queues ! i) = {}" if "i < length queues" "f \<le> int i" "int i < f'" for i
      proof (cases "int i = f")
        case True
        then have "i = nat f" by simp
        with \<open>inner_elems (queues ! nat f) = {}\<close> show ?thesis by simp
      next
        case False
        with f'(3) that show ?thesis by simp
      qed
      with f' b q e show ?thesis by (subst sq_advance.simps) auto
    qed
  qed
qed

lemma sq_okD:
  assumes "sq_ok W sccs n q"
  shows "sq_sccs q = sccs" "length (sq_queues q) = n" "s < length sccs \<Longrightarrow> sccs ! s < n"
    "i < n \<Longrightarrow> inner_ok W (component sccs i) (sq_queues q ! i)" "sq_window (sq_front q) (sq_back q) (sq_queues q)"
  using assms by (auto simp: sq_ok_def)

lemma sq_window_at:
  assumes "sq_window f b queues" "i < length queues" "inner_elems (queues ! i) \<noteq> {}"
  shows "f \<le> int i" "int i \<le> b"
  using assms unfolding sq_window_def by blast+

lemma sq_is_empty_spec:
  assumes ok: "sq_ok W sccs n q"
  shows "sq_is_empty W q = Inr (sq_elems q = {})"
proof -
  have w: "sq_window (sq_front q) (sq_back q) (sq_queues q)" by (rule sq_okD(5) [OF ok])
  then have r: "0 \<le> sq_front q" "sq_back q < int (length (sq_queues q))" by (simp_all add: sq_window_def)
  consider "sq_front q < sq_back q" | "sq_back q < sq_front q" | "sq_front q = sq_back q" by linarith
  then show ?thesis
  proof cases
    case 1
    then have "inner_elems (sq_queues q ! nat (sq_back q)) \<noteq> {}" "nat (sq_back q) < length (sq_queues q)"
      using w r unfolding sq_window_def by (blast, linarith)
    then have "sq_elems q \<noteq> {}" using sq_elems_nth [of _ q] by blast
    with 1 show ?thesis by (simp add: sq_is_empty_def)
  next
    case 2
    then have "sq_elems q = {}" using sq_window_at [OF w] sq_elems_nth [of _ q] by (metis emptyE ex_in_conv linorder_not_less order_trans)
    with 2 show ?thesis by (simp add: sq_is_empty_def)
  next
    case 3
    let ?f = "nat (sq_front q)"
    have f: "?f < length (sq_queues q)" using 3 r by linarith
    have "i = ?f" if "i < length (sq_queues q)" "inner_elems (sq_queues q ! i) \<noteq> {}" for i
      using sq_window_at [OF w that] 3 by linarith
    then have "sq_elems q = inner_elems (sq_queues q ! ?f)" using f sq_elems_nth [of _ q] by blast
    moreover have "i32_index (sq_queues q) (sq_back q) = Inr (sq_queues q ! ?f)"
      using f r 3 by (simp add: i32_index_def vec_index_def)
    ultimately show ?thesis using 3 by (simp add: sq_is_empty_def inner_is_empty_spec)
  qed
qed

lemma sq_put_ok:
  assumes "sq_ok W sccs n q" "i < n" "inner_ok W (component sccs i) iq" "sq_window f b ((sq_queues q)[i := iq])"
  shows "sq_ok W sccs n (q\<lparr>sq_front := f, sq_back := b, sq_queues := (sq_queues q)[i := iq]\<rparr>)"
proof -
  have "inner_ok W (component sccs j) ((sq_queues q)[i := iq] ! j)" if "j < n" for j
    using assms(1-3) that by (cases "j = i") (simp_all add: sq_ok_def)
  with assms show ?thesis by (simp add: sq_ok_def)
qed

lemma sq_enqueue_spec:
  assumes ok: "sq_ok W sccs n q" and v: "sq_valid q s"
  shows "\<exists>q'. sq_enqueue W s q = Inr q' \<and> sq_ok W sccs n q' \<and> sq_elems q' = insert s (sq_elems q)"
proof -
  note q = sq_okD [OF ok]
  let ?c = "sccs ! s"
  have s: "s < length sccs" using v q(1) by (simp add: sq_valid_def)
  have c: "?c < n" by (rule q(3) [OF s])
  have "s \<in> component sccs ?c" using s by (simp add: component_def)
  from inner_enqueue_spec [OF q(4) [OF c] this] obtain iq where iq: "inner_enqueue W s (sq_queues q ! ?c) = Inr iq"
    "inner_ok W (component sccs ?c) iq" "inner_elems iq = insert s (inner_elems (sq_queues q ! ?c))" by blast
  define f where "f = (if sq_front q > sq_back q then int ?c else if int ?c > sq_back q then sq_front q
    else if int ?c < sq_front q then int ?c else sq_front q)"
  define b where "b = (if sq_front q > sq_back q then int ?c else if int ?c > sq_back q then int ?c else sq_back q)"
  let ?Q = "(sq_queues q)[?c := iq]"
  let ?q = "q\<lparr>sq_front := f, sq_back := b, sq_queues := ?Q\<rparr>"
  have run: "sq_enqueue W s q = Inr ?q"
    using s c q(1,2) iq(1) by (simp add: sq_enqueue_def vec_index_def f_def b_def Let_def)
  have w: "0 \<le> sq_front q" "sq_back q < int n"
    "\<And>i. i < n \<Longrightarrow> inner_elems (sq_queues q ! i) \<noteq> {} \<Longrightarrow> sq_front q \<le> int i \<and> int i \<le> sq_back q"
    "sq_front q < sq_back q \<Longrightarrow> inner_elems (sq_queues q ! nat (sq_back q)) \<noteq> {}"
    using q(2,5) by (simp_all add: sq_window_def)
  have fb: "f \<le> int ?c" "int ?c \<le> b" "f \<le> b" "0 \<le> f" "b < int n" using w(1,2) c by (auto simp: f_def b_def)
  have E: "sq_elems (q\<lparr>sq_queues := ?Q\<rparr>) = insert s (sq_elems q)"
    using sq_elems_upd(1) [of ?c q iq] sq_elems_upd(2) [of ?c q] c q(2) iq(3) by simp
  have "sq_window f b ?Q"
    unfolding sq_window_def
  proof (intro conjI allI impI)
    fix i
    assume i: "i < length ?Q" "inner_elems (?Q ! i) \<noteq> {}"
    show "f \<le> int i" "int i \<le> b"
    proof -
      have "i = ?c \<or> sq_front q \<le> int i \<and> int i \<le> sq_back q"
        using i q(2) w(3) [of i] by (cases "i = ?c") simp_all
      then show "f \<le> int i" "int i \<le> b" using fb(1,2) by (auto simp: f_def b_def split: if_splits)
    qed
  next
    assume lt: "f < b"
    show "inner_elems (?Q ! nat b) \<noteq> {}"
    proof (cases "b = int ?c")
      case True
      then show ?thesis using c q(2) iq(3) by simp
    next
      case False
      then have b: "b = sq_back q" "sq_front q \<le> sq_back q" "nat b \<noteq> ?c" using fb(2) by (auto simp: b_def split: if_splits)
      have "inner_elems (sq_queues q ! nat b) \<noteq> {}"
      proof (cases "sq_front q < sq_back q")
        case True
        with w(4) b(1) show ?thesis by simp
      next
        case eq: False
        have cl: "int ?c < sq_back q" using False fb(2) b(1) by simp
        then have "sq_elems q \<noteq> {}" using v b(2) q(1) by (auto simp: sq_valid_def)
        then obtain i where i: "i < n" "inner_elems (sq_queues q ! i) \<noteq> {}" using sq_elems_nth [of _ q] q(2) by blast
        with w(3) [OF i] eq b have "nat b = i" by linarith
        with i show ?thesis by simp
      qed
      with b(3) show ?thesis by simp
    qed
  qed (use fb q(2) in simp_all)
  from sq_put_ok [OF ok c iq(2) this] run E show ?thesis by (simp add: sq_elems_def)
qed

text \<open>A state is served from the first component that has one.\<close>

lemma sq_dequeue_spec:
  assumes ok: "sq_ok W sccs n q" and ne: "sq_elems q \<noteq> {}"
  shows "\<exists>s q'. sq_dequeue W q = Inr (Some s, q') \<and> sq_ok W sccs n q' \<and> s \<in> sq_elems q \<and>
    sq_elems q - {s} \<subseteq> sq_elems q' \<and> sq_elems q' \<subseteq> sq_elems q \<and> sq_load q' < sq_load q \<and>
    (\<forall>r \<in> sq_elems q. sccs ! s \<le> sccs ! r) \<and> (\<forall>t < length sccs. sccs ! s \<le> sccs ! t \<longrightarrow> sq_valid q' t)"
proof -
  note q = sq_okD [OF ok]
  have w: "0 \<le> sq_front q" "sq_back q < int n"
    "\<And>i. i < n \<Longrightarrow> inner_elems (sq_queues q ! i) \<noteq> {} \<Longrightarrow> sq_front q \<le> int i \<and> int i \<le> sq_back q"
    "sq_front q < sq_back q \<Longrightarrow> inner_elems (sq_queues q ! nat (sq_back q)) \<noteq> {}"
    using q(2,5) by (simp_all add: sq_window_def)
  have "sq_back q < int (length (sq_queues q))" using w(2) q(2) by simp
  from sq_advance_spec [OF w(1) this, of W] obtain f where
    f: "sq_advance W (sq_queues q) (sq_back q) (sq_front q) = Inr f" "sq_front q \<le> f"
      "\<forall>i < n. sq_front q \<le> int i \<longrightarrow> int i < f \<longrightarrow> inner_elems (sq_queues q ! i) = {}"
      "f \<le> sq_back q \<longrightarrow> inner_elems (sq_queues q ! nat f) \<noteq> {}" using q(2) by blast
  have above: "f \<le> int i" "int i \<le> sq_back q" if "i < n" "inner_elems (sq_queues q ! i) \<noteq> {}" for i
    using f(3) w(3) [OF that] that by (metis not_le, blast)
  from ne obtain i0 where i0: "i0 < n" "inner_elems (sq_queues q ! i0) \<noteq> {}" using sq_elems_nth [of _ q] q(2) by blast
  have fb: "f \<le> sq_back q" using above [OF i0] by linarith
  define u where "u = nat f"
  have u: "u < n" "int u = f" using fb w(1,2) f(2) by (simp_all add: u_def)
  have nu: "inner_elems (sq_queues q ! u) \<noteq> {}" using f(4) fb by (simp add: u_def)
  from inner_dequeue_spec [OF q(4) [OF u(1)] nu] obtain s iq where iq: "inner_dequeue W (sq_queues q ! u) = Inr (Some s, iq)"
    "inner_ok W (component sccs u) iq" "s \<in> inner_elems (sq_queues q ! u)" "inner_elems (sq_queues q ! u) - {s} \<subseteq> inner_elems iq"
    "inner_elems iq \<subseteq> inner_elems (sq_queues q ! u)" "inner_load iq < inner_load (sq_queues q ! u)" by blast
  let ?Q = "(sq_queues q)[u := iq]"
  let ?q = "q\<lparr>sq_front := f, sq_queues := ?Q\<rparr>"
  have at: "i32_index (sq_queues q) f = Inr (sq_queues q ! u)" using u q(2) f(2) w(1) by (simp add: i32_index_def vec_index_def u_def)
  have run: "sq_dequeue W q = Inr (Some s, ?q)"
    using ne f(1) iq(1) at u(2) by (simp add: sq_dequeue_def sq_is_empty_spec [OF ok] sq_update_front_def u_def)
  have E: "sq_elems ?q = (\<Union>j \<in> {..< n} - {u}. inner_elems (sq_queues q ! j)) \<union> inner_elems iq"
    "sq_elems q = (\<Union>j \<in> {..< n} - {u}. inner_elems (sq_queues q ! j)) \<union> inner_elems (sq_queues q ! u)"
    using sq_elems_upd(1) [of u q iq] sq_elems_upd(2) [of u q] u(1) q(2) by (simp_all add: sq_elems_def)
  have last: "inner_elems (?Q ! nat (sq_back q)) \<noteq> {}" if "f < sq_back q"
  proof -
    have "nat (sq_back q) \<noteq> u" "sq_front q < sq_back q" using that u(2) f(2) by auto
    with w(4) show ?thesis by simp
  qed
  have "sq_window f (sq_back q) ?Q"
    unfolding sq_window_def
  proof (intro conjI allI impI)
    fix i
    assume i: "i < length ?Q" "inner_elems (?Q ! i) \<noteq> {}"
    then have "i < n" "inner_elems (sq_queues q ! i) \<noteq> {}" using q(2) nu by (simp, cases "i = u") simp_all
    from above [OF this] show "f \<le> int i" "int i \<le> sq_back q" .
  qed (use last w q(2) f(2) in simp_all)
  from sq_put_ok [OF ok u(1) iq(2) this] have ok': "sq_ok W sccs n ?q" by simp
  have es: "s \<in> component sccs u" using q(4) [OF u(1)] iq(3) by (auto simp: inner_ok_def)
  have first: "sccs ! s \<le> sccs ! r" if "r \<in> sq_elems q" for r
  proof -
    from that obtain i where i: "i < n" "r \<in> inner_elems (sq_queues q ! i)" using sq_elems_nth [of r q] q(2) by blast
    then have "f \<le> int i" using above [of i] by blast
    moreover have "sccs ! r = i" using q(4) [OF i(1)] i(2) by (auto simp: inner_ok_def component_def)
    ultimately show ?thesis using es u(2) by (simp add: component_def)
  qed
  have valid: "sq_valid ?q t" if t: "t < length sccs" "sccs ! s \<le> sccs ! t" for t
  proof -
    have "sq_back q \<le> int (sccs ! t)" if "sq_elems ?q = {}"
    proof -
      have "\<not> f < sq_back q"
      proof
        assume a: "f < sq_back q"
        have "nat (sq_back q) < length (sq_queues ?q)" using a w(1,2) f(2) q(2) by simp
        with last [OF a] sq_elems_nth [of _ ?q] that show False by auto
      qed
      then show ?thesis using fb es t(2) u(2) by (simp add: component_def)
    qed
    with t(1) q(1) show ?thesis by (simp add: sq_valid_def)
  qed
  have "sq_load ?q < sq_load q"
    using sum_list_upd_less [of u "sq_queues q" inner_load iq] u(1) q(2) iq(6) by (simp add: sq_load_def)
  moreover have "s \<in> sq_elems q" "sq_elems q - {s} \<subseteq> sq_elems ?q" "sq_elems ?q \<subseteq> sq_elems q"
    unfolding E using iq(3-5) by blast+
  ultimately show ?thesis using run ok' first valid by blast
qed

lemma sq_clear_loop:
  assumes "\<forall>i \<in> set is. 0 \<le> i \<and> i < int n" "length queues = n" "\<forall>k < n. inner_ok W (A k) (queues ! k)"
  shows "\<exists>qs. for_res (\<lambda>i queues. rbind (i32_index queues i) (\<lambda>iq. rbind (inner_clear W iq) (\<lambda>iq. Inr (queues[nat i := iq])))) is queues = Inr qs \<and>
    length qs = n \<and> (\<forall>k < n. inner_ok W (A k) (qs ! k) \<and> inner_elems (qs ! k) = (if int k \<in> set is then {} else inner_elems (queues ! k)))"
  using assms
proof (induction "is" arbitrary: queues)
  case (Cons i "is")
  let ?i = "nat i"
  have i: "?i < n" "int ?i = i" "i32_index queues i = Inr (queues ! ?i)"
    using Cons.prems(1,2) by (auto simp: i32_index_def vec_index_def)
  from inner_clear_spec Cons.prems(3) i(1) obtain iq where iq: "inner_clear W (queues ! ?i) = Inr iq" "inner_ok W (A ?i) iq" "inner_elems iq = {}"
    by blast
  have "\<forall>k < n. inner_ok W (A k) (queues[?i := iq] ! k)"
    using Cons.prems(2,3) iq(2) by (simp add: nth_upd)
  with Cons.IH [of "queues[?i := iq]"] Cons.prems(1,2) obtain qs where qs:
    "for_res (\<lambda>i queues. rbind (i32_index queues i) (\<lambda>iq. rbind (inner_clear W iq) (\<lambda>iq. Inr (queues[nat i := iq])))) is (queues[?i := iq]) = Inr qs"
    "length qs = n" "\<forall>k < n. inner_ok W (A k) (qs ! k) \<and> inner_elems (qs ! k) = (if int k \<in> set is then {} else inner_elems (queues[?i := iq] ! k))"
    by auto
  have "inner_elems (qs ! k) = (if int k \<in> set (i # is) then {} else inner_elems (queues ! k))" if "k < n" for k
    using qs(3) that iq(3) i Cons.prems(2) by (cases "k = ?i") auto
  with qs i(3) iq(1) show ?case by auto
qed auto

lemma sq_clear_spec:
  assumes ok: "sq_ok W sccs n q"
  shows "\<exists>q'. sq_clear W q = Inr q' \<and> sq_ok W sccs n q' \<and> sq_elems q' = {} \<and> (\<forall>s < length sccs. sq_valid q' s)"
proof -
  note q = sq_okD [OF ok]
  have r: "\<forall>i \<in> set [sq_front q .. sq_back q]. 0 \<le> i \<and> i < int n" using q(2,5) by (auto simp: sq_window_def)
  have k: "\<forall>k < n. inner_ok W (component sccs k) (sq_queues q ! k)" using q(4) by blast
  from sq_clear_loop [OF r q(2) k] obtain qs where qs:
    "for_res (\<lambda>i queues. rbind (i32_index queues i) (\<lambda>iq. rbind (inner_clear W iq) (\<lambda>iq. Inr (queues[nat i := iq]))))
       [sq_front q .. sq_back q] (sq_queues q) = Inr qs" "length qs = n"
    "\<forall>k < n. inner_ok W (component sccs k) (qs ! k) \<and>
       inner_elems (qs ! k) = (if int k \<in> set [sq_front q .. sq_back q] then {} else inner_elems (sq_queues q ! k))" by blast
  let ?q = "q\<lparr>sq_queues := qs, sq_front := 0, sq_back := - 1\<rparr>"
  have e: "inner_elems (qs ! k) = {}" if "k < n" for k
    using qs(3) that sq_window_at [OF q(5), of k] q(2) by (metis atLeastAtMost_iff set_upto)
  then have "sq_elems ?q = {}" using qs(2) sq_elems_nth [of _ ?q] by auto
  moreover have "sq_ok W sccs n ?q" using ok qs(2,3) e by (simp add: sq_ok_def sq_window_def)
  moreover have "sq_clear W q = Inr ?q" using qs(1) by (simp add: sq_clear_def)
  ultimately show ?thesis using q(1) by (auto simp: sq_valid_def)
qed

interpretation scc_queue: lawful_queue "scc_queue_ops W" "sq_ok W sccs n" sq_elems sq_load sq_valid "\<lambda>s. s < length sccs"
  "\<lambda>s t. s < length sccs \<and> t < length sccs \<and> sccs ! s \<le> sccs ! t" for W sccs n
proof (unfold_locales, goal_cases)
  case (1 q s)
  from sq_enqueue_spec [OF 1] obtain q' where q': "sq_enqueue W s q = Inr q'" "sq_ok W sccs n q'" "sq_elems q' = insert s (sq_elems q)" by blast
  then have "\<forall>t. sq_valid q t \<longrightarrow> sq_valid q' t" using sq_okD(1) [OF 1(1)] sq_okD(1) [OF q'(2)] by (simp add: sq_valid_def)
  with q' show ?case by (auto simp: scc_queue_ops_def)
next
  case (2 q)
  then show ?case by (simp add: scc_queue_ops_def sq_dequeue_def sq_is_empty_spec)
next
  case (3 q)
  from sq_dequeue_spec [OF 3] show ?case by (auto simp: scc_queue_ops_def)
next
  case (4 q)
  then show ?case by (simp add: scc_queue_ops_def sq_is_empty_spec)
next
  case (5 q)
  from sq_clear_spec [OF 5] show ?case by (auto simp: scc_queue_ops_def)
qed

subsection \<open>The queue chosen for a transducer\<close>

datatype 'w auto_queue = AutoStateOrder state_order_queue | AutoTopOrder top_order_queue | AutoLifo "state_id list"
  | AutoScc "'w scc_queue"

fun auto_head :: "'w semiring \<Rightarrow> 'w auto_queue \<Rightarrow> (state_id option \<times> 'w auto_queue) res" where
  "auto_head W (AutoStateOrder q) = lift_answer AutoStateOrder (q_head state_order_ops q)"
| "auto_head W (AutoTopOrder q) = lift_answer AutoTopOrder (q_head top_order_ops q)"
| "auto_head W (AutoLifo q) = lift_answer AutoLifo (q_head lifo_queue q)"
| "auto_head W (AutoScc q) = lift_answer AutoScc (q_head (scc_queue_ops W) q)"

fun auto_enqueue :: "'w semiring \<Rightarrow> state_id \<Rightarrow> 'w auto_queue \<Rightarrow> 'w auto_queue res" where
  "auto_enqueue W s (AutoStateOrder q) = lift_queue AutoStateOrder (q_enqueue state_order_ops s q)"
| "auto_enqueue W s (AutoTopOrder q) = lift_queue AutoTopOrder (q_enqueue top_order_ops s q)"
| "auto_enqueue W s (AutoLifo q) = lift_queue AutoLifo (q_enqueue lifo_queue s q)"
| "auto_enqueue W s (AutoScc q) = lift_queue AutoScc (q_enqueue (scc_queue_ops W) s q)"

fun auto_dequeue :: "'w semiring \<Rightarrow> 'w auto_queue \<Rightarrow> (state_id option \<times> 'w auto_queue) res" where
  "auto_dequeue W (AutoStateOrder q) = lift_answer AutoStateOrder (q_dequeue state_order_ops q)"
| "auto_dequeue W (AutoTopOrder q) = lift_answer AutoTopOrder (q_dequeue top_order_ops q)"
| "auto_dequeue W (AutoLifo q) = lift_answer AutoLifo (q_dequeue lifo_queue q)"
| "auto_dequeue W (AutoScc q) = lift_answer AutoScc (q_dequeue (scc_queue_ops W) q)"

fun auto_update :: "'w semiring \<Rightarrow> state_id \<Rightarrow> 'w auto_queue \<Rightarrow> 'w auto_queue res" where
  "auto_update W s (AutoStateOrder q) = lift_queue AutoStateOrder (q_update state_order_ops s q)"
| "auto_update W s (AutoTopOrder q) = lift_queue AutoTopOrder (q_update top_order_ops s q)"
| "auto_update W s (AutoLifo q) = lift_queue AutoLifo (q_update lifo_queue s q)"
| "auto_update W s (AutoScc q) = lift_queue AutoScc (q_update (scc_queue_ops W) s q)"

fun auto_is_empty :: "'w semiring \<Rightarrow> 'w auto_queue \<Rightarrow> bool res" where
  "auto_is_empty W (AutoStateOrder q) = q_is_empty state_order_ops q"
| "auto_is_empty W (AutoTopOrder q) = q_is_empty top_order_ops q"
| "auto_is_empty W (AutoLifo q) = q_is_empty lifo_queue q"
| "auto_is_empty W (AutoScc q) = q_is_empty (scc_queue_ops W) q"

fun auto_clear :: "'w semiring \<Rightarrow> 'w auto_queue \<Rightarrow> 'w auto_queue res" where
  "auto_clear W (AutoStateOrder q) = lift_queue AutoStateOrder (q_clear state_order_ops q)"
| "auto_clear W (AutoTopOrder q) = lift_queue AutoTopOrder (q_clear top_order_ops q)"
| "auto_clear W (AutoLifo q) = lift_queue AutoLifo (q_clear lifo_queue q)"
| "auto_clear W (AutoScc q) = lift_queue AutoScc (q_clear (scc_queue_ops W) q)"

definition auto_queue_ops :: "'w semiring \<Rightarrow> 'w auto_queue queue_ops" where
  "auto_queue_ops W =
     \<lparr>q_head = auto_head W, q_enqueue = auto_enqueue W, q_dequeue = auto_dequeue W, q_update = auto_update W,
      q_is_empty = auto_is_empty W, q_clear = auto_clear W, q_type = AutoQueue\<rparr>"

text \<open>
  \<open>scc_queue_type\<close>: the queue type of each component, whether all are trivial, and whether the transducer is
  unweighted. \<open>heavy\<close> is the test of the code for a weight that matters.
\<close>

definition heavy :: "'w semiring \<Rightarrow> 'w \<Rightarrow> bool" where
  "heavy W w \<longleftrightarrow> \<not> declares W IDEMPOTENT \<or> nontrivial W w"

definition queue_type_step ::
  "'w semiring \<Rightarrow> ('w \<Rightarrow> 'w \<Rightarrow> bool res) option \<Rightarrow> 'w tr \<Rightarrow> queue_type \<Rightarrow> queue_type res"
where
  "queue_type_step W compare t qt =
     rbind (case compare of None \<Rightarrow> Inr True | Some lt \<Rightarrow> lt (weight t) (one_w W)) (\<lambda>fifo.
       Inr (if fifo then FifoQueue
            else if qt = TrivialQueue \<or> qt = LifoQueue
            then (if heavy W (weight t) then ShortestFirstQueue else LifoQueue)
            else qt))"

definition scc_type_tr ::
  "'w semiring \<Rightarrow> state_id list \<Rightarrow> ('w \<Rightarrow> 'w \<Rightarrow> bool res) option \<Rightarrow> ('w tr \<Rightarrow> bool) \<Rightarrow> state_id \<Rightarrow> 'w tr \<Rightarrow>
   queue_type list \<times> bool \<times> bool \<Rightarrow> (queue_type list \<times> bool \<times> bool) res"
where
  "scc_type_tr W sccs compare keep state t = (\<lambda>(types, all_trivial, unweighted).
     if \<not> keep t then Inr (types, all_trivial, unweighted)
     else
       rbind (vec_index sccs state) (\<lambda>c.
       rbind (vec_index sccs (nextstate t)) (\<lambda>c'.
       rbind (if c = c'
              then rbind (vec_index types c) (\<lambda>qt. rbind (queue_type_step W compare t qt) (\<lambda>qt.
                     Inr (types[c := qt], if qt \<noteq> TrivialQueue then False else all_trivial)))
              else Inr (types, all_trivial)) (\<lambda>(types, all_trivial).
         Inr (types, all_trivial, if heavy W (weight t) then False else unweighted)))))"

definition scc_queue_type ::
  "'w semiring \<Rightarrow> 'w vfst \<Rightarrow> state_id list \<Rightarrow> ('w \<Rightarrow> 'w \<Rightarrow> bool res) option \<Rightarrow> nat \<Rightarrow> ('w tr \<Rightarrow> bool) \<Rightarrow>
   (queue_type list \<times> bool \<times> bool) res"
where
  "scc_queue_type W F sccs compare n keep =
     for_res (\<lambda>state. for_res (scc_type_tr W sccs compare keep state) (trs (states F ! state)))
       [0 ..< num_states F] (replicate n TrivialQueue, True, True)"

fun inner_queue_of :: "'w list option \<Rightarrow> queue_type \<Rightarrow> 'w inner_queue res" where
  "inner_queue_of distance TrivialQueue = Inr (InnerTrivial None)"
| "inner_queue_of distance ShortestFirstQueue =
     (case distance of None \<Rightarrow> Inl (Panic ''called `Option::unwrap()` on a `None` value'') | Some d \<Rightarrow> Inr (InnerShortest d []))"
| "inner_queue_of distance LifoQueue = Inr (InnerLifo [])"
| "inner_queue_of distance _ = Inr (InnerFifo [])"

definition auto_queue_new ::
  "'w semiring \<Rightarrow> 'w vfst \<Rightarrow> 'w list option \<Rightarrow> ('w tr \<Rightarrow> bool) \<Rightarrow> 'w auto_queue res"
where
  "auto_queue_new W F distance keep =
     (let props = properties F
      in if props AND TOP_SORTED = TOP_SORTED \<or> start_state F = None then Inr (AutoStateOrder so_new)
         else if props AND ACYCLIC = ACYCLIC then lift_queue AutoTopOrder (top_order_queue_new F keep)
         else if props AND UNWEIGHTED = UNWEIGHTED \<and> declares W IDEMPOTENT then Inr (AutoLifo [])
         else
           rbind (dfs_visit F (scc_callbacks F) keep False (scc_visitor_new F True False)) (\<lambda>v.
           rbind (case sv_scc v of None \<Rightarrow> Inl (Panic ''called `Option::unwrap()` on a `None` value'') | Some c \<Rightarrow> Inr (map nat c)) (\<lambda>sccs.
             let n_sccs = nat (sv_nscc v);
                 lt = (if distance \<noteq> None \<and> the distance \<noteq> [] \<and> declares W PATH then Some (natural_less W) else None)
             in rbind (scc_queue_type W F sccs lt n_sccs keep) (\<lambda>(types, all_trivial, unweighted).
                  if unweighted then Inr (AutoLifo [])
                  else if all_trivial then Inr (AutoTopOrder (from_precomputed_order sccs))
                  else rbind (map_res (inner_queue_of distance) (take n_sccs types)) (\<lambda>queues.
                         Inr (AutoScc (sq_new queues sccs)))))))"

text \<open>Every component has a queue that suits it.\<close>

lemma for_res_collect:
  assumes "P D s" and "\<forall>x \<in> set xs. \<forall>D s. P D s \<longrightarrow> (\<exists>t. f x s = Inr t \<and> P (D \<union> g x) t)"
  shows "\<exists>t. for_res f xs s = Inr t \<and> P (D \<union> (\<Union>x \<in> set xs. g x)) t"
  using assms
proof (induction xs arbitrary: D s)
  case (Cons x xs)
  from Cons.prems obtain t where t: "f x s = Inr t" "P (D \<union> g x) t" by (metis list.set_intros(1))
  from Cons.IH [OF t(2)] Cons.prems(2) obtain u where "for_res f xs t = Inr u" "P (D \<union> g x \<union> (\<Union>x \<in> set xs. g x)) u" by auto
  with t(1) show ?case by (simp add: Un_assoc)
qed simp

definition types_inv ::
  "state_id list \<Rightarrow> ('w \<Rightarrow> 'w \<Rightarrow> bool res) option \<Rightarrow> nat \<Rightarrow> (state_id \<times> 'w tr) set \<Rightarrow> queue_type list \<times> bool \<times> bool \<Rightarrow> bool"
where
  "types_inv sccs compare n D = (\<lambda>(types, all_trivial, unweighted). length types = n \<and>
     (\<forall>c < n. types ! c = ShortestFirstQueue \<longrightarrow> compare \<noteq> None) \<and>
     (\<forall>(s, t) \<in> D. sccs ! s = sccs ! nextstate t \<longrightarrow> types ! (sccs ! s) \<noteq> TrivialQueue \<and> \<not> all_trivial))"

lemma scc_type_tr_inv:
  assumes inv: "types_inv sccs compare n D acc" and "s < length sccs" "nextstate t < length sccs" "\<forall>c \<in> set sccs. c < n"
    and cmp: "\<forall>lt. compare = Some lt \<longrightarrow> (\<forall>a b. \<exists>r. lt a b = Inr r)"
  shows "\<exists>acc'. scc_type_tr W sccs compare any_filter s t acc = Inr acc' \<and> types_inv sccs compare n (D \<union> {(s, t)}) acc'"
proof -
  obtain types at uw where acc: "acc = (types, at, uw)" by (cases acc)
  let ?c = "sccs ! s"
  have c: "?c < n" using assms(2,4) by simp
  have I: "length types = n" "\<forall>c < n. types ! c = ShortestFirstQueue \<longrightarrow> compare \<noteq> None"
    "\<forall>(s, t) \<in> D. sccs ! s = sccs ! nextstate t \<longrightarrow> types ! (sccs ! s) \<noteq> TrivialQueue \<and> \<not> at"
    using inv by (auto simp: types_inv_def acc)
  obtain qt where qt: "queue_type_step W compare t (types ! ?c) = Inr qt" "qt \<noteq> TrivialQueue"
    "qt = ShortestFirstQueue \<longrightarrow> compare \<noteq> None"
  proof (cases compare)
    case None
    then show ?thesis by (intro that [of FifoQueue]) (simp_all add: queue_type_step_def)
  next
    case (Some lt)
    with cmp obtain r where r: "lt (weight t) (one_w W) = Inr r" by blast
    show ?thesis using Some r by (intro that [OF _ _ impI]) (auto simp: queue_type_step_def split: if_splits)
  qed
  show ?thesis
  proof (cases "?c = sccs ! nextstate t")
    case True
    have "types_inv sccs compare n (D \<union> {(s, t)}) (types[?c := qt], False, u)" for u
      unfolding types_inv_def using I qt(2,3) c by (auto simp: nth_list_update)
    with True assms(2,3) c I(1) qt show ?thesis by (simp add: scc_type_tr_def acc any_filter_def vec_index_def)
  next
    case False
    have "types_inv sccs compare n (D \<union> {(s, t)}) (types, at, u)" for u
      unfolding types_inv_def using I False by auto
    with False assms(2,3) show ?thesis by (simp add: scc_type_tr_def acc any_filter_def vec_index_def)
  qed
qed

lemma scc_queue_type_inv:
  assumes t: "targets_ok F" and l: "length sccs = num_states F" "\<forall>c \<in> set sccs. c < n"
    and cmp: "\<forall>lt. compare = Some lt \<longrightarrow> (\<forall>a b. \<exists>r. lt a b = Inr r)"
  shows "\<exists>acc. scc_queue_type W F sccs compare n any_filter = Inr acc \<and> types_inv sccs compare n (arcs F) acc"
proof -
  let ?P = "types_inv sccs compare n"
  have "\<exists>acc'. for_res (scc_type_tr W sccs compare any_filter s) (trs (states F ! s)) acc = Inr acc' \<and>
      ?P (D \<union> {(s, t) | t. t \<in> set (trs (states F ! s))}) acc'" if "s < num_states F" "?P D acc" for s D acc
  proof -
    have "\<forall>t \<in> set (trs (states F ! s)). \<forall>D acc. ?P D acc \<longrightarrow>
        (\<exists>acc'. scc_type_tr W sccs compare any_filter s t acc = Inr acc' \<and> ?P (D \<union> {(s, t)}) acc')"
      using scc_type_tr_inv [OF _ _ _ l(2) cmp] that(1) targets_state [OF t that(1)] l(1) by metis
    from for_res_collect [OF that(2) this] obtain acc' where
      "for_res (scc_type_tr W sccs compare any_filter s) (trs (states F ! s)) acc = Inr acc'"
      "?P (D \<union> (\<Union>t \<in> set (trs (states F ! s)). {(s, t)})) acc'" by blast
    moreover have "(\<Union>t \<in> set (trs (states F ! s)). {(s, t)}) = {(s, t) | t. t \<in> set (trs (states F ! s))}" by auto
    ultimately show ?thesis by auto
  qed
  then have step: "\<forall>s \<in> set [0 ..< num_states F]. \<forall>D acc. ?P D acc \<longrightarrow>
      (\<exists>acc'. for_res (scc_type_tr W sccs compare any_filter s) (trs (states F ! s)) acc = Inr acc' \<and>
        ?P (D \<union> {(s, t) | t. t \<in> set (trs (states F ! s))}) acc')" by simp
  have init: "?P {} (replicate n TrivialQueue, True, True)" by (simp add: types_inv_def)
  obtain acc where acc: "scc_queue_type W F sccs compare n any_filter = Inr acc"
    "?P ({} \<union> (\<Union>s \<in> set [0 ..< num_states F]. {(s, t) | t. t \<in> set (trs (states F ! s))})) acc"
    using for_res_collect [OF init step] unfolding scc_queue_type_def by blast
  moreover have "(\<Union>s \<in> set [0 ..< num_states F]. {(s, t) | t. t \<in> set (trs (states F ! s))}) = arcs F" by (auto simp: arcs_def)
  ultimately show ?thesis by auto
qed

subsection \<open>The chosen queue is lawful\<close>

fun auto_elems :: "'w auto_queue \<Rightarrow> state_id set" where
  "auto_elems (AutoStateOrder q) = so_elems q"
| "auto_elems (AutoTopOrder q) = to_elems q"
| "auto_elems (AutoLifo q) = set q"
| "auto_elems (AutoScc q) = sq_elems q"

fun auto_load :: "'w auto_queue \<Rightarrow> nat" where
  "auto_load (AutoStateOrder q) = card (so_elems q)"
| "auto_load (AutoTopOrder q) = card (to_elems q)"
| "auto_load (AutoLifo q) = length q"
| "auto_load (AutoScc q) = sq_load q"

fun auto_valid :: "'w auto_queue \<Rightarrow> state_id \<Rightarrow> bool" where
  "auto_valid (AutoStateOrder q) s = True"
| "auto_valid (AutoTopOrder q) s = (s < length (to_order q))"
| "auto_valid (AutoLifo q) s = True"
| "auto_valid (AutoScc q) s = sq_valid q s"

fun auto_ok :: "'w semiring \<Rightarrow> 'w vfst \<Rightarrow> 'w auto_queue \<Rightarrow> bool" where
  "auto_ok W F (AutoStateOrder q) = so_ok q"
| "auto_ok W F (AutoTopOrder q) = (to_ok (to_order q) q \<and> length (to_order q) = num_states F)"
| "auto_ok W F (AutoLifo q) = True"
| "auto_ok W F (AutoScc q) = (sq_ok W (sq_sccs q) (length (sq_queues q)) q \<and> length (sq_sccs q) = num_states F \<and>
     (\<forall>(s, t) \<in> edges F. sq_sccs q ! s \<le> sq_sccs q ! t))"

lemma to_ok_order: "to_ok order q \<Longrightarrow> to_order q = order"
  by (simp add: to_ok_def)

lemma sq_ok_sccs: "sq_ok W sccs n q \<Longrightarrow> sq_sccs q = sccs \<and> length (sq_queues q) = n"
  by (simp add: sq_ok_def)

interpretation auto: lawful_queue "auto_queue_ops W" "auto_ok W F" auto_elems auto_load auto_valid
  "\<lambda>s. s < num_states F" "\<lambda>s t. (s, t) \<in> edges F \<and> t < num_states F" for W and F :: "'w vfst"
proof (unfold_locales, goal_cases)
  case (1 q s)
  show ?case
  proof (cases q)
    case (AutoStateOrder p)
    with 1 state_order.enqueue_law [of p s] show ?thesis by (auto simp: auto_queue_ops_def)
  next
    case (AutoTopOrder p)
    with 1 top_order.enqueue_law [of "to_order p" p s] obtain p' where p': "q_enqueue top_order_ops s p = Inr p'"
      "to_ok (to_order p) p'" "to_elems p' = insert s (to_elems p)" by auto
    with 1 AutoTopOrder to_ok_order [OF p'(2)] show ?thesis by (simp add: auto_queue_ops_def)
  next
    case (AutoLifo p)
    with 1 lifo.enqueue_law [where q = p and s = s] show ?thesis by (auto simp: auto_queue_ops_def)
  next
    case (AutoScc p)
    with 1 scc_queue.enqueue_law [of W "sq_sccs p" "length (sq_queues p)" p s] obtain p' where p':
      "q_enqueue (scc_queue_ops W) s p = Inr p'" "sq_ok W (sq_sccs p) (length (sq_queues p)) p'"
      "sq_elems p' = insert s (sq_elems p)" "\<forall>t. sq_valid p t \<longrightarrow> sq_valid p' t" by auto
    with 1 AutoScc sq_ok_sccs [OF p'(2)] show ?thesis by (simp add: auto_queue_ops_def)
  qed
next
  case (2 q)
  show ?case
  proof (cases q)
    case (AutoStateOrder p)
    with 2 state_order.dequeue_empty_law [of p] show ?thesis by (auto simp: auto_queue_ops_def)
  next
    case (AutoTopOrder p)
    with 2 top_order.dequeue_empty_law [of "to_order p" p] show ?thesis by (auto simp: auto_queue_ops_def)
  next
    case (AutoLifo p)
    with 2 lifo.dequeue_empty_law [of p] show ?thesis by (auto simp: auto_queue_ops_def)
  next
    case (AutoScc p)
    with 2 scc_queue.dequeue_empty_law [of W "sq_sccs p" "length (sq_queues p)" p] show ?thesis
      by (auto simp: auto_queue_ops_def)
  qed
next
  case (3 q)
  show ?case
  proof (cases q)
    case (AutoStateOrder p)
    with 3 state_order.dequeue_law [of p] obtain r p' where "q_dequeue state_order_ops p = Inr (Some r, p')" "so_ok p'"
      "r \<in> so_elems p" "so_elems p - {r} \<subseteq> so_elems p'" "so_elems p' \<subseteq> so_elems p" "card (so_elems p') < card (so_elems p)" by auto
    with AutoStateOrder show ?thesis by (simp add: auto_queue_ops_def)
  next
    case (AutoTopOrder p)
    with 3 top_order.dequeue_law [of "to_order p" p] obtain r p' where p': "q_dequeue top_order_ops p = Inr (Some r, p')"
      "to_ok (to_order p) p'" "r \<in> to_elems p" "to_elems p - {r} \<subseteq> to_elems p'" "to_elems p' \<subseteq> to_elems p"
      "card (to_elems p') < card (to_elems p)" by auto
    with 3 AutoTopOrder to_ok_order [OF p'(2)] show ?thesis by (simp add: auto_queue_ops_def)
  next
    case (AutoLifo p)
    with 3 lifo.dequeue_law [of p] obtain r p' where "q_dequeue lifo_queue p = Inr (Some r, p')"
      "r \<in> set p" "set p - {r} \<subseteq> set p'" "set p' \<subseteq> set p" "length p' < length p" by auto
    with AutoLifo show ?thesis by (simp add: auto_queue_ops_def)
  next
    case (AutoScc p)
    with 3 have ok: "sq_ok W (sq_sccs p) (length (sq_queues p)) p" "length (sq_sccs p) = num_states F" "sq_elems p \<noteq> {}"
      "\<forall>(s, t) \<in> edges F. sq_sccs p ! s \<le> sq_sccs p ! t" by simp_all
    from scc_queue.dequeue_law [OF ok(1,3)] obtain s p' where p': "q_dequeue (scc_queue_ops W) p = Inr (Some s, p')"
      "sq_ok W (sq_sccs p) (length (sq_queues p)) p'" "s \<in> sq_elems p" "sq_elems p - {s} \<subseteq> sq_elems p'" "sq_elems p' \<subseteq> sq_elems p"
      "sq_load p' < sq_load p"
      "\<forall>t. s < length (sq_sccs p) \<and> t < length (sq_sccs p) \<and> sq_sccs p ! s \<le> sq_sccs p ! t \<longrightarrow> sq_valid p' t" by blast
    have "auto_ok W F (AutoScc p')" using p'(2) ok(2,4) sq_ok_sccs [OF p'(2)] by simp
    moreover have "sq_valid p' t" if "(s, t) \<in> edges F" "t < num_states F" for t
      using p'(7) that ok(2,4) edges_source [OF that(1)] by auto
    ultimately show ?thesis using AutoScc p' by (auto simp: auto_queue_ops_def)
  qed
next
  case (4 q)
  show ?case
  proof (cases q)
    case (AutoStateOrder p)
    with 4 state_order.is_empty_law [of p] show ?thesis by (simp add: auto_queue_ops_def)
  next
    case (AutoTopOrder p)
    with 4 top_order.is_empty_law [of "to_order p" p] show ?thesis by (simp add: auto_queue_ops_def)
  next
    case (AutoLifo p)
    with 4 lifo.is_empty_law [of p] show ?thesis by (simp add: auto_queue_ops_def)
  next
    case (AutoScc p)
    with 4 scc_queue.is_empty_law [of W "sq_sccs p" "length (sq_queues p)" p] show ?thesis by (simp add: auto_queue_ops_def)
  qed
next
  case (5 q)
  show ?case
  proof (cases q)
    case (AutoStateOrder p)
    with 5 state_order.clear_law [of p] show ?thesis by (auto simp: auto_queue_ops_def)
  next
    case (AutoTopOrder p)
    with 5 top_order.clear_law [of "to_order p" p] obtain p' where p': "q_clear top_order_ops p = Inr p'"
      "to_ok (to_order p) p'" "to_elems p' = {}" by auto
    with 5 AutoTopOrder to_ok_order [OF p'(2)] show ?thesis by (simp add: auto_queue_ops_def)
  next
    case (AutoLifo p)
    with 5 lifo.clear_law [of p] show ?thesis by (auto simp: auto_queue_ops_def)
  next
    case (AutoScc p)
    with 5 scc_queue.clear_law [of W "sq_sccs p" "length (sq_queues p)" p] obtain p' where p':
      "q_clear (scc_queue_ops W) p = Inr p'" "sq_ok W (sq_sccs p) (length (sq_queues p)) p'" "sq_elems p' = {}"
      "\<forall>s < length (sq_sccs p). sq_valid p' s" by auto
    with 5 AutoScc sq_ok_sccs [OF p'(2)] show ?thesis by (simp add: auto_queue_ops_def)
  qed
qed

text \<open>The construction succeeds on a sound transducer.\<close>

lemma single_component:
  assumes c: "\<forall>x < num_states F. \<forall>y < num_states F. sccs ! x = sccs ! y \<longleftrightarrow> mutual F x y" and t: "targets_ok F"
    and no: "\<forall>(s, t) \<in> arcs F. sccs ! s = sccs ! nextstate t \<longrightarrow> sccs ! s \<noteq> i"
    and xy: "x < num_states F" "y < num_states F" "sccs ! x = i" "sccs ! y = i"
  shows "x = y"
proof (rule ccontr)
  assume ne: "x \<noteq> y"
  from xy c have m: "(x, y) \<in> (edges F)\<^sup>*" "(y, x) \<in> (edges F)\<^sup>*" by (auto simp: mutual_def)
  from m(1) ne obtain z where z: "(x, z) \<in> edges F" "(z, y) \<in> (edges F)\<^sup>*" by (meson converse_rtranclE)
  then obtain t where t': "(x, t) \<in> arcs F" "nextstate t = z" by (auto simp: edges_def)
  then have zn: "z < num_states F" using targets_state [OF t] by (auto simp: arcs_def)
  have "mutual F x z" using z m(2) unfolding mutual_def by (meson r_into_rtrancl rtrancl_trans)
  then have "sccs ! x = sccs ! z" using c xy(1) zn by blast
  with no t' xy(3) show False by auto
qed

lemma auto_top_order_ok:
  assumes F: "fst_ok W F" and i: "start_state F = Some i" and a: "properties F AND ACYCLIC = ACYCLIC"
  shows "\<exists>q. top_order_queue_new F any_filter = Inr q \<and> auto_ok W F (AutoTopOrder q)"
proof -
  have t: "targets_ok F" using F by (simp add: fst_ok_def)
  obtain v where v: "dfs_visit F top_callbacks any_filter False top_visitor_new = Inr (top_finish_visit v)"
    "if top_acyclic v then topo_list F (top_finish v) \<and> set (top_finish v) = {..< num_states F} else \<exists>x. cyclic_at F x"
    using top_visit [OF t i] by blast
  have "bit ACYCLIC 35" by (simp add: flag_bits)
  then have "bit (properties F) 35" using a by (metis bit_and_iff)
  then have "\<not> (\<exists>x. cyclic_at F x)"
    using F unfolding fst_ok_def props_sound_def bits_sound_def by (elim conjE) (drule spec [of _ Cyclic], simp)
  with v(2) have ac: "top_acyclic v" and L: "topo_list F (top_finish v)" "set (top_finish v) = {..< num_states F}"
    by (auto split: if_splits)
  let ?o = "top_order (top_finish_visit v)"
  from top_order_perm(1) [OF L refl ac] have o: "perm_order ?o (num_states F)" .
  then have l: "length ?o = num_states F" by (simp add: perm_order_def)
  have "top_acyclic (top_finish_visit v)" using ac by (simp add: top_finish_visit_def)
  then have "top_order_queue_new F any_filter = Inr (from_precomputed_order ?o)" using v(1) by (simp add: top_order_queue_new_def)
  moreover have "to_order (from_precomputed_order ?o) = ?o" by (simp add: from_precomputed_order_def)
  ultimately show ?thesis using to_new_ok(1) [of ?o] o l by simp
qed

lemma trivial_sccs_order:
  assumes l: "length sccs = num_states F" and surj: "\<forall>k < n. \<exists>x < num_states F. sccs ! x = k" and lt: "\<forall>x < num_states F. sccs ! x < n"
    and inj: "\<forall>x < num_states F. \<forall>y < num_states F. sccs ! x = sccs ! y \<longrightarrow> x = y"
  shows "perm_order sccs (num_states F)"
proof -
  have d: "distinct sccs" using inj l by (auto simp: distinct_conv_nth)
  have "k \<in> set sccs \<longleftrightarrow> k < n" for k using surj lt l by (metis in_set_conv_nth)
  then have s: "set sccs = {..< n}" by auto
  then have "n = num_states F" using distinct_card [OF d] l by simp
  with d l s show ?thesis by (simp add: perm_order_def)
qed

definition distance_fits :: "'w semiring \<Rightarrow> 'w vfst \<Rightarrow> 'w list option \<Rightarrow> bool" where
  "distance_fits W F distance \<longleftrightarrow> (case distance of None \<Rightarrow> True | Some d \<Rightarrow> total_ops W \<and> num_states F \<le> length d)"

lemma inner_queues_ok:
  assumes "\<forall>i < n. types ! i = TrivialQueue \<longrightarrow> (\<exists>s. A i \<subseteq> {s})" "\<forall>i < n. types ! i = ShortestFirstQueue \<longrightarrow> distance \<noteq> None"
    and "length types = n" "distance_fits W F distance" "\<forall>i. A i \<subseteq> {..< num_states F}"
  shows "\<exists>qs. map_res (inner_queue_of distance) (take n types) = Inr qs \<and> length qs = n \<and>
    (\<forall>i < n. inner_ok W (A i) (qs ! i) \<and> inner_elems (qs ! i) = {})"
proof -
  have one: "\<exists>q. inner_queue_of distance (types ! i) = Inr q \<and> inner_ok W (A i) q \<and> inner_elems q = {}" if "i < n" for i
  proof (cases "types ! i = TrivialQueue")
    case True
    with assms(1) that show ?thesis by (auto simp: inner_ok_def)
  next
    case nt: False
    show ?thesis
    proof (cases "types ! i = ShortestFirstQueue")
      case True
      with assms(2) that obtain d where d: "distance = Some d" by blast
      with assms(4) have "total_ops W" "num_states F \<le> length d" by (simp_all add: distance_fits_def)
      moreover have "A i \<subseteq> {..< num_states F}" using assms(5) by blast
      ultimately have "total_ops W" "A i \<subseteq> {..< length d}" by auto
      with True d show ?thesis by (simp add: inner_ok_def)
    next
      case False
      with nt show ?thesis by (cases "types ! i") (simp_all add: inner_ok_def)
    qed
  qed
  then obtain g where g: "\<And>i. i < n \<Longrightarrow> inner_queue_of distance (types ! i) = Inr (g i) \<and> inner_ok W (A i) (g i) \<and> inner_elems (g i) = {}"
    by metis
  have "take n types = map ((!) types) [0 ..< n]" using assms(3) map_nth [of types] by simp
  moreover have "set is \<subseteq> {..< n} \<longrightarrow> map_res (inner_queue_of distance) (map ((!) types) is) = Inr (map g is)" for "is"
    using g by (induction "is") auto
  then have "map_res (inner_queue_of distance) (map ((!) types) [0 ..< n]) = Inr (map g [0 ..< n])" by (rule mp) auto
  ultimately have "map_res (inner_queue_of distance) (take n types) = Inr (map g [0 ..< n])" by simp
  then show ?thesis using g by (intro exI [of _ "map g [0 ..< n]"]) simp
qed

theorem auto_queue_new_ok:
  assumes F: "fst_ok W F" and n: "num_states F < 2 ^ 31" and d: "distance_fits W F distance"
  shows "\<exists>q. auto_queue_new W F distance any_filter = Inr q \<and> auto_ok W F q"
proof -
  have t: "targets_ok F" using F by (simp add: fst_ok_def)
  consider "properties F AND TOP_SORTED = TOP_SORTED \<or> start_state F = None"
    | i where "start_state F = Some i" "properties F AND ACYCLIC = ACYCLIC" "\<not> properties F AND TOP_SORTED = TOP_SORTED"
    | i where "start_state F = Some i" "\<not> properties F AND TOP_SORTED = TOP_SORTED" "\<not> properties F AND ACYCLIC = ACYCLIC"
      "properties F AND UNWEIGHTED = UNWEIGHTED \<and> declares W IDEMPOTENT"
    | i where "start_state F = Some i" "\<not> properties F AND TOP_SORTED = TOP_SORTED" "\<not> properties F AND ACYCLIC = ACYCLIC"
      "\<not> (properties F AND UNWEIGHTED = UNWEIGHTED \<and> declares W IDEMPOTENT)" by (metis not_None_eq)
  then show ?thesis
  proof cases
    case 1
    then show ?thesis by (simp add: auto_queue_new_def so_new_ok)
  next
    case (2 i)
    from auto_top_order_ok [OF F 2(1,2)] 2 show ?thesis by (auto simp: auto_queue_new_def)
  next
    case (3 i)
    then show ?thesis by (simp add: auto_queue_new_def)
  next
    case (4 i)
    obtain v where v: "dfs_visit F (scc_callbacks F) any_filter False (scc_visitor_new F True False) = Inr v" "scc_report F v"
      using scc_visit [OF t n 4(1)] by blast
    from scc_visit_keeps_sccs [OF v(1)] obtain c where c: "sv_scc v = Some c" by blast
    let ?n = "nat (sv_nscc v)"
    define sccs where "sccs = map nat c"
    have C: "length c = num_states F" "\<forall>x < num_states F. 0 \<le> c ! x \<and> c ! x < sv_nscc v"
      "\<forall>k. 0 \<le> k \<longrightarrow> k < sv_nscc v \<longrightarrow> (\<exists>x < num_states F. c ! x = k)"
      "\<forall>x < num_states F. \<forall>y < num_states F. c ! x = c ! y \<longleftrightarrow> mutual F x y" "\<forall>x y. (x, y) \<in> edges F \<longrightarrow> c ! x \<le> c ! y"
      using v(2) c unfolding scc_report_def by blast+
    have l: "length sccs = num_states F" by (simp add: sccs_def C(1))
    have nth: "sccs ! x = nat (c ! x)" "int (sccs ! x) = c ! x" if "x < num_states F" for x using that C(1,2) by (simp_all add: sccs_def)
    have lt: "\<forall>x < num_states F. sccs ! x < ?n" using nth C(2) by auto
    have mut: "\<forall>x < num_states F. \<forall>y < num_states F. sccs ! x = sccs ! y \<longleftrightarrow> mutual F x y"
      using nth(2) C(4) by (metis of_nat_eq_iff)
    have surj: "\<forall>k < ?n. \<exists>x < num_states F. sccs ! x = k"
    proof (intro allI impI)
      fix k
      assume "k < ?n"
      then have "0 \<le> int k" "int k < sv_nscc v" by auto
      with C(3) obtain x where "x < num_states F" "c ! x = int k" by blast
      then show "\<exists>x < num_states F. sccs ! x = k" using nth(1) by auto
    qed
    have lts: "\<forall>s \<in> set sccs. s < ?n" using lt l by (auto simp: in_set_conv_nth)
    have mono: "\<forall>(x, y) \<in> edges F. sccs ! x \<le> sccs ! y"
    proof (clarify)
      fix x y
      assume e: "(x, y) \<in> edges F"
      then have "x < num_states F" "y < num_states F" using edges_source targets_state [OF t] by (blast, auto simp: edges_def arcs_def)
      with nth(1) C(5) e show "sccs ! x \<le> sccs ! y" by (simp add: nat_mono)
    qed
    define lt' where "lt' = (if distance \<noteq> None \<and> the distance \<noteq> [] \<and> declares W PATH then Some (natural_less W) else None)"
    have cmp: "\<forall>lt. lt' = Some lt \<longrightarrow> (\<forall>a b. \<exists>r. lt a b = Inr r)"
    proof (intro allI impI)
      fix lt a b
      assume "lt' = Some lt"
      then obtain ws where "distance = Some ws" "lt = natural_less W" by (auto simp: lt'_def split: if_splits)
      with d have "total_ops W" by (simp add: distance_fits_def)
      then obtain r where "plus_w W a b = Inr r" unfolding total_ops_def is_ok_iff by blast
      with \<open>lt = natural_less W\<close> show "\<exists>r. lt a b = Inr r" by (simp add: natural_less_def)
    qed
    from scc_queue_type_inv [OF t l lts cmp] obtain types at uw where T:
      "scc_queue_type W F sccs lt' ?n any_filter = Inr (types, at, uw)" "types_inv sccs lt' ?n (arcs F) (types, at, uw)" by (metis prod_cases3)
    have I: "length types = ?n" "\<forall>i < ?n. types ! i = ShortestFirstQueue \<longrightarrow> lt' \<noteq> None"
      "\<forall>(s, t) \<in> arcs F. sccs ! s = sccs ! nextstate t \<longrightarrow> types ! (sccs ! s) \<noteq> TrivialQueue \<and> \<not> at"
      using T(2) by (simp_all add: types_inv_def)
    have run: "auto_queue_new W F distance any_filter =
      (if uw then Inr (AutoLifo [])
       else if at then Inr (AutoTopOrder (from_precomputed_order sccs))
       else rbind (map_res (inner_queue_of distance) (take ?n types)) (\<lambda>queues. Inr (AutoScc (sq_new queues sccs))))"
      using 4 v(1) c T(1) by (auto simp: auto_queue_new_def Let_def sccs_def lt'_def)
    show ?thesis
    proof (cases uw)
      case True
      then show ?thesis by (simp add: run)
    next
      case uw: False
      show ?thesis
      proof (cases at)
        case True
        have no: "\<forall>(s, t) \<in> arcs F. sccs ! s = sccs ! nextstate t \<longrightarrow> sccs ! s \<noteq> i" for i using I(3) True by blast
        have "\<forall>x < num_states F. \<forall>y < num_states F. sccs ! x = sccs ! y \<longrightarrow> x = y"
          using single_component [OF mut t no] by blast
        from trivial_sccs_order [OF l surj lt this] have "perm_order sccs (length sccs)" by (simp add: l)
        from to_new_ok(1) [OF this] l uw True show ?thesis by (simp add: run from_precomputed_order_def)
      next
        case False
        have "\<exists>s. component sccs i \<subseteq> {s}" if "i < ?n" "types ! i = TrivialQueue" for i
        proof -
          have "\<forall>(s, t) \<in> arcs F. sccs ! s = sccs ! nextstate t \<longrightarrow> sccs ! s \<noteq> i" using I(3) that(2) by blast
          from single_component [OF mut t this] show ?thesis unfolding component_def l by blast
        qed
        moreover have "\<forall>i < ?n. types ! i = ShortestFirstQueue \<longrightarrow> distance \<noteq> None" using I(2) by (auto simp: lt'_def split: if_splits)
        ultimately obtain qs where qs: "map_res (inner_queue_of distance) (take ?n types) = Inr qs" "length qs = ?n"
          "\<forall>i < ?n. inner_ok W (component sccs i) (qs ! i) \<and> inner_elems (qs ! i) = {}"
          using inner_queues_ok [of ?n types "component sccs" distance W F] I(1) d l by (auto simp: component_def)
        have "sq_ok W sccs ?n (sq_new qs sccs)" using qs(2,3) lts by (simp add: sq_ok_def sq_new_def sq_window_def)
        then have "auto_ok W F (AutoScc (sq_new qs sccs))" using l mono qs(2) by (simp add: sq_new_def)
        with qs(1) uw False show ?thesis by (simp add: run)
      qed
    qed
  qed
qed

subsection \<open>The other two requests\<close>

text \<open>\<open>head\<close> shows the state that \<open>dequeue\<close> would serve, and the queue keeps what it holds.\<close>

lemma inner_head_spec: "inner_dequeue W q = Inr (Some s, q') \<Longrightarrow> inner_head W q = Inr (Some s, q)"
proof (cases q)
  case (InnerShortest ws h)
  assume "inner_dequeue W q = Inr (Some s, q')"
  with InnerShortest have "heap_pop (natural_cmp W ws) h = Inr (Some s, case q' of InnerShortest _ h' \<Rightarrow> h')"
    by (auto simp: natural_shortest_first_queue_def shortest_first_queue_def rbind_eq_Inr)
  then have "h \<noteq> []" "s = hd h"
    by (auto simp: heap_pop_def rbind_eq_Inr split: if_splits prod.splits) (cases h; auto)+
  with InnerShortest show ?thesis
    by (cases h) (simp_all add: natural_shortest_first_queue_def shortest_first_queue_def)
qed (auto simp: trivial_queue_def fifo_queue_def lifo_queue_def rbind_eq_Inr split: if_splits list.splits)

lemma sq_window_advance:
  assumes w: "sq_window f b queues" and a: "sq_advance W queues b f = Inr f'"
    and ne: "i0 < length queues" "inner_elems (queues ! i0) \<noteq> {}"
  shows "sq_window f' b queues" "0 \<le> f'" "f' \<le> b" "inner_elems (queues ! nat f') \<noteq> {}"
proof -
  have r: "0 \<le> f" "b < int (length queues)" using w by (simp_all add: sq_window_def)
  from sq_advance_spec [OF r, of W] a have f: "f \<le> f'"
    "\<forall>i < length queues. f \<le> int i \<longrightarrow> int i < f' \<longrightarrow> inner_elems (queues ! i) = {}"
    "f' \<le> b \<longrightarrow> inner_elems (queues ! nat f') \<noteq> {}" by auto
  have above: "f' \<le> int i" "int i \<le> b" if "i < length queues" "inner_elems (queues ! i) \<noteq> {}" for i
    using f(2) sq_window_at [OF w that] that by (metis not_le, blast)
  from above [OF ne] show le: "f' \<le> b" by linarith
  show "0 \<le> f'" using f(1) r(1) by linarith
  show "inner_elems (queues ! nat f') \<noteq> {}" using f(3) le by blast
  show "sq_window f' b queues" using w above f(1) unfolding sq_window_def by auto
qed

lemma sq_head_spec:
  assumes ok: "sq_ok W sccs n q" and ne: "sq_elems q \<noteq> {}"
  shows "\<exists>s q' p. sq_dequeue W q = Inr (Some s, q') \<and> sq_head W q = Inr (Some s, p) \<and> sq_ok W sccs n p \<and> sq_elems p = sq_elems q"
proof -
  note q = sq_okD [OF ok]
  from sq_dequeue_spec [OF ok ne] obtain s q' where d: "sq_dequeue W q = Inr (Some s, q')" by blast
  have "\<not> sq_elems q = {}" using ne .
  with d obtain f iq iq' where f: "sq_advance W (sq_queues q) (sq_back q) (sq_front q) = Inr f"
    and i: "i32_index (sq_queues q) f = Inr iq" and iq: "inner_dequeue W iq = Inr (Some s, iq')"
    by (auto simp: sq_dequeue_def sq_is_empty_spec [OF ok] sq_update_front_def rbind_eq_Inr)
  from ne obtain i0 where "i0 < length (sq_queues q)" "inner_elems (sq_queues q ! i0) \<noteq> {}" using sq_elems_nth [of _ q] by blast
  note a = sq_window_advance [OF q(5) f this]
  have n: "nat f < n" "iq = sq_queues q ! nat f"
    using i q(2) by (auto simp: i32_index_def split: if_splits)
  let ?p = "q\<lparr>sq_front := f, sq_queues := (sq_queues q)[nat f := iq]\<rparr>"
  have "sq_head W q = Inr (Some s, ?p)"
    by (simp add: sq_head_def sq_update_front_def f i inner_head_spec [OF iq])
  moreover have "sq_ok W sccs n ?p"
    using sq_put_ok [OF ok n(1) q(4) [OF n(1)], of f "sq_back q"] a(1) by (simp add: n(2))
  moreover have "sq_elems ?p = sq_elems q" by (simp add: sq_elems_def n(2))
  ultimately show ?thesis using d by blast
qed

lemma auto_head_spec:
  assumes ok: "auto_ok W F q" and ne: "auto_elems q \<noteq> {}"
  shows "\<exists>s q' p. auto_dequeue W q = Inr (Some s, q') \<and> auto_head W q = Inr (Some s, p) \<and> auto_ok W F p \<and> auto_elems p = auto_elems q"
proof (cases q)
  case (AutoStateOrder p)
  with ok ne so_dequeue_spec [of p] obtain p' where d: "so_dequeue p = Inr (Some (Min (so_elems p)), p')" by auto
  moreover from d have "so_front p = Min (so_elems p)"
    by (auto simp: so_dequeue_def rbind_eq_Inr split: if_splits)
  ultimately show ?thesis using AutoStateOrder ok by (simp add: state_order_ops_def)
next
  case (AutoTopOrder p)
  with ok ne to_dequeue_spec [of "to_order p" p] obtain s p' where d: "to_dequeue p = Inr (Some s, p')" by auto
  moreover from d have "vec_index (to_state p) (to_front p) = Inr (Some s)"
    by (auto simp: to_dequeue_def rbind_eq_Inr split: if_splits)
  ultimately show ?thesis using AutoTopOrder ok by (simp add: top_order_ops_def vec_index_def)
next
  case (AutoLifo p)
  with ne show ?thesis by (simp add: lifo_queue_def)
next
  case (AutoScc p)
  with ok ne sq_head_spec [of W "sq_sccs p" "length (sq_queues p)" p] obtain s p' p'' where
    h: "sq_dequeue W p = Inr (Some s, p')" "sq_head W p = Inr (Some s, p'')"
      "sq_ok W (sq_sccs p) (length (sq_queues p)) p''" "sq_elems p'' = sq_elems p" by auto
  with AutoScc ok sq_ok_sccs [OF h(3)] show ?thesis by (simp add: scc_queue_ops_def)
qed

text \<open>\<open>update\<close> changes no queue, and panics exactly if the state's component has a shortest-first queue.\<close>

fun shortest_served :: "'w auto_queue \<Rightarrow> state_id \<Rightarrow> bool" where
  "shortest_served (AutoScc q) s = (case sq_queues q ! (sq_sccs q ! s) of InnerShortest _ _ \<Rightarrow> True | _ \<Rightarrow> False)"
| "shortest_served _ s = False"

lemma inner_update_eq:
  "inner_update W s q = (case q of InnerShortest _ _ \<Rightarrow> Inl (Panic ''not implemented'') | _ \<Rightarrow> Inr q)"
  by (cases q) (simp_all add: trivial_queue_def fifo_queue_def lifo_queue_def natural_shortest_first_queue_def shortest_first_queue_def)

lemma auto_update_spec:
  assumes ok: "auto_ok W F q" and s: "s < num_states F"
  shows "auto_update W s q = (if shortest_served q s then Inl (Panic ''not implemented'') else Inr q)"
proof (cases q)
  case (AutoScc p)
  let ?c = "sq_sccs p ! s"
  have k: "sq_ok W (sq_sccs p) (length (sq_queues p)) p" "s < length (sq_sccs p)" using ok s AutoScc by simp_all
  have c: "?c < length (sq_queues p)" by (rule sq_okD(3) [OF k])
  have "sq_update W s p = (case sq_queues p ! ?c of InnerShortest _ _ \<Rightarrow> Inl (Panic ''not implemented'') | _ \<Rightarrow> Inr p)"
  proof (cases "sq_queues p ! ?c")
    case (InnerShortest ws h)
    with k(2) c show ?thesis by (simp add: sq_update_def inner_update_eq vec_index_def)
  qed (use k(2) c list_update_id [of "sq_queues p" ?c] in \<open>simp_all add: sq_update_def inner_update_eq vec_index_def\<close>)
  then show ?thesis using AutoScc by (simp add: scc_queue_ops_def split: inner_queue.split)
qed (simp_all add: state_order_ops_def top_order_ops_def lifo_queue_def)

lemma auto_is_empty_spec: "auto_ok W F q \<Longrightarrow> auto_is_empty W q = Inr (auto_elems q = {})"
  using auto.is_empty_law [where W = W and F = F] by (simp add: auto_queue_ops_def)

text \<open>No request changes the discipline of a component, and without distances none is shortest-first.\<close>

abbreviation is_shortest :: "'w inner_queue \<Rightarrow> bool" where
  "is_shortest q \<equiv> (case q of InnerShortest _ _ \<Rightarrow> True | _ \<Rightarrow> False)"

lemma inner_kinds:
  "inner_enqueue W s q = Inr q' \<Longrightarrow> is_shortest q' = is_shortest q"
  "inner_dequeue W q = Inr (x, q') \<Longrightarrow> is_shortest q' = is_shortest q"
  "inner_clear W q = Inr q' \<Longrightarrow> is_shortest q' = is_shortest q"
  by (cases q; auto simp: rbind_eq_Inr)+

lemma sq_kinds_upd:
  "is_shortest iq' = is_shortest (queues ! i) \<Longrightarrow> is_shortest (queues[i := iq'] ! j) = is_shortest (queues ! j)"
  by (cases "i < length queues"; cases "i = j") (simp_all add: list_update_beyond)

lemma sq_enqueue_kinds: "sq_enqueue W s q = Inr q' \<Longrightarrow> shortest_served (AutoScc q') t = shortest_served (AutoScc q) t"
proof -
  assume "sq_enqueue W s q = Inr q'"
  then obtain c iq' where "inner_enqueue W s (sq_queues q ! c) = Inr iq'" "sq_sccs q' = sq_sccs q" "sq_queues q' = (sq_queues q)[c := iq']"
    by (auto simp: sq_enqueue_def Let_def rbind_eq_Inr split: if_splits)
  with sq_kinds_upd [OF inner_kinds(1)] show ?thesis by simp
qed

lemma i32_index_Inr: "i32_index xs i = Inr x \<Longrightarrow> x = xs ! nat i"
  by (simp add: i32_index_def split: if_splits)

lemma sq_dequeue_kinds: "sq_dequeue W q = Inr (x, q') \<Longrightarrow> shortest_served (AutoScc q') t = shortest_served (AutoScc q) t"
proof -
  assume "sq_dequeue W q = Inr (x, q')"
  then consider "q' = q" | c iq' where "inner_dequeue W (sq_queues q ! c) = Inr (x, iq')" "sq_sccs q' = sq_sccs q"
      "sq_queues q' = (sq_queues q)[c := iq']"
    by (auto simp: sq_dequeue_def sq_update_front_def rbind_eq_Inr split: if_splits dest!: i32_index_Inr)
  then show ?thesis
  proof cases
    case 2
    with sq_kinds_upd [OF inner_kinds(2) [OF 2(1)]] show ?thesis by simp
  qed simp
qed

lemma sq_clear_kinds: "sq_clear W q = Inr q' \<Longrightarrow> shortest_served (AutoScc q') t = shortest_served (AutoScc q) t"
proof -
  assume "sq_clear W q = Inr q'"
  then obtain queues where l: "for_res (\<lambda>i queues. rbind (i32_index queues i) (\<lambda>iq. rbind (inner_clear W iq) (\<lambda>iq. Inr (queues[nat i := iq]))))
      [sq_front q .. sq_back q] (sq_queues q) = Inr queues" and q': "sq_sccs q' = sq_sccs q" "sq_queues q' = queues"
    by (auto simp: sq_clear_def rbind_eq_Inr)
  have "\<forall>j. is_shortest (queues ! j) = is_shortest (sq_queues q ! j)"
  proof (rule for_res_inv [OF l])
    fix i xs ys
    assume xs: "\<forall>j. is_shortest (xs ! j) = is_shortest (sq_queues q ! j)"
      and step: "rbind (i32_index xs i) (\<lambda>iq. rbind (inner_clear W iq) (\<lambda>iq. Inr (xs[nat i := iq]))) = Inr ys"
    from step obtain iq where iq: "inner_clear W (xs ! nat i) = Inr iq" "ys = xs[nat i := iq]"
      by (auto simp: rbind_eq_Inr dest!: i32_index_Inr)
    with sq_kinds_upd [OF inner_kinds(3) [OF iq(1)]] xs show "\<forall>j. is_shortest (ys ! j) = is_shortest (sq_queues q ! j)" by simp
  qed simp
  with q' show ?thesis by simp
qed

lemma auto_kinds:
  "auto_enqueue W s q = Inr q' \<Longrightarrow> shortest_served q' = shortest_served q"
  "auto_dequeue W q = Inr (x, q') \<Longrightarrow> shortest_served q' = shortest_served q"
  "auto_clear W q = Inr q' \<Longrightarrow> shortest_served q' = shortest_served q"
  by (cases q; auto simp: rbind_eq_Inr scc_queue_ops_def fun_eq_iff sq_enqueue_kinds sq_dequeue_kinds sq_clear_kinds
      simp del: shortest_served.simps(1))+

lemma inner_queues_plain: "map_res (inner_queue_of None) types = Inr qs \<Longrightarrow> iq \<in> set qs \<Longrightarrow> \<not> is_shortest iq"
proof (induction types arbitrary: qs)
  case (Cons qt types)
  then obtain q' qs' where "inner_queue_of None qt = Inr q'" "map_res (inner_queue_of None) types = Inr qs'" "qs = q' # qs'"
    by (auto simp: rbind_eq_Inr)
  moreover from this(1) have "\<not> is_shortest q'" by (cases qt) auto
  ultimately show ?case using Cons by auto
qed simp

lemma auto_queue_new_plain:
  assumes new: "auto_queue_new W F None keep = Inr q" and ok: "auto_ok W F q" and s: "s < num_states F"
  shows "\<not> shortest_served q s"
proof (cases q)
  case (AutoScc p)
  with new obtain types sccs where p: "map_res (inner_queue_of None) types = Inr (sq_queues p)" "sq_sccs p = sccs"
    by (auto simp: auto_queue_new_def Let_def rbind_eq_Inr sq_new_def split: if_splits)
  have "sq_ok W (sq_sccs p) (length (sq_queues p)) p" "s < length (sq_sccs p)" using ok s AutoScc by simp_all
  from sq_okD(3) [OF this] have "sq_queues p ! (sq_sccs p ! s) \<in> set (sq_queues p)" by simp
  from inner_queues_plain [OF p(1) this] AutoScc show ?thesis by simp
qed simp_all

text \<open>What the queue answers to each request.\<close>

definition auto_answers :: "'w semiring \<Rightarrow> 'w vfst \<Rightarrow> 'w auto_queue \<Rightarrow> bool" where
  "auto_answers W F q \<longleftrightarrow>
     auto_is_empty W q = Inr (auto_elems q = {}) \<and>
     (\<exists>q'. auto_clear W q = Inr q' \<and> auto_ok W F q' \<and> auto_elems q' = {} \<and> (\<forall>s < num_states F. auto_valid q' s) \<and>
        shortest_served q' = shortest_served q) \<and>
     (\<forall>s. auto_valid q s \<longrightarrow> (\<exists>q'. auto_enqueue W s q = Inr q' \<and> auto_ok W F q' \<and> auto_elems q' = insert s (auto_elems q) \<and>
        shortest_served q' = shortest_served q)) \<and>
     (\<forall>s < num_states F. auto_update W s q = (if shortest_served q s then Inl (Panic ''not implemented'') else Inr q)) \<and>
     (auto_elems q = {} \<longrightarrow> (\<exists>q'. auto_dequeue W q = Inr (None, q'))) \<and>
     (auto_elems q \<noteq> {} \<longrightarrow> (\<exists>s q' p. auto_dequeue W q = Inr (Some s, q') \<and> auto_ok W F q' \<and> s \<in> auto_elems q \<and>
        auto_elems q - {s} \<subseteq> auto_elems q' \<and> auto_elems q' \<subseteq> auto_elems q \<and> shortest_served q' = shortest_served q \<and>
        (\<forall>t. (s, t) \<in> edges F \<and> t < num_states F \<longrightarrow> auto_valid q' t) \<and>
        auto_head W q = Inr (Some s, p) \<and> auto_ok W F p \<and> auto_elems p = auto_elems q))"

lemma auto_answers_all:
  assumes ok: "auto_ok W F q"
  shows "auto_answers W F q"
proof -
  have ops: "q_clear (auto_queue_ops W) = auto_clear W" "q_enqueue (auto_queue_ops W) = auto_enqueue W"
    "q_dequeue (auto_queue_ops W) = auto_dequeue W" by (simp_all add: auto_queue_ops_def)
  note law = auto.clear_law [where W = W and F = F, unfolded ops, OF ok] auto.enqueue_law [where W = W and F = F, unfolded ops, OF ok]
    auto.dequeue_empty_law [where W = W and F = F, unfolded ops, OF ok] auto.dequeue_law [where W = W and F = F, unfolded ops, OF ok]
  show ?thesis
    unfolding auto_answers_def
  proof (intro conjI impI)
    show "\<exists>q'. auto_clear W q = Inr q' \<and> auto_ok W F q' \<and> auto_elems q' = {} \<and> (\<forall>s < num_states F. auto_valid q' s) \<and>
         shortest_served q' = shortest_served q"
      using law(1) auto_kinds(3) by blast
    show "\<forall>s. auto_valid q s \<longrightarrow> (\<exists>q'. auto_enqueue W s q = Inr q' \<and> auto_ok W F q' \<and> auto_elems q' = insert s (auto_elems q) \<and>
         shortest_served q' = shortest_served q)"
      using law(2) auto_kinds(1) by blast
    show "\<exists>q'. auto_dequeue W q = Inr (None, q')" if "auto_elems q = {}" using law(3) [OF that] .
    assume ne: "auto_elems q \<noteq> {}"
    from law(4) [OF ne] obtain s q' where d: "auto_dequeue W q = Inr (Some s, q')" "auto_ok W F q'" "s \<in> auto_elems q"
      "auto_elems q - {s} \<subseteq> auto_elems q'" "auto_elems q' \<subseteq> auto_elems q"
      "\<forall>t. (s, t) \<in> edges F \<and> t < num_states F \<longrightarrow> auto_valid q' t" by blast
    from auto_head_spec [OF ok ne] d(1) obtain p where
      "auto_head W q = Inr (Some s, p)" "auto_ok W F p" "auto_elems p = auto_elems q" by auto
    with d auto_kinds(2) [OF d(1)] show "\<exists>s q' p. auto_dequeue W q = Inr (Some s, q') \<and> auto_ok W F q' \<and> s \<in> auto_elems q \<and>
        auto_elems q - {s} \<subseteq> auto_elems q' \<and> auto_elems q' \<subseteq> auto_elems q \<and> shortest_served q' = shortest_served q \<and>
        (\<forall>t. (s, t) \<in> edges F \<and> t < num_states F \<longrightarrow> auto_valid q' t) \<and>
        auto_head W q = Inr (Some s, p) \<and> auto_ok W F p \<and> auto_elems p = auto_elems q"
      by (intro exI conjI)
  qed (simp_all add: auto_is_empty_spec [OF ok] auto_update_spec [OF ok])
qed

end
