(* ===== verification/Shortest_Distance_Public.thy ===== *)
theory Shortest_Distance_Public
  imports Auto_Queue Reverse Shortest_Distance
begin

text \<open>
  The public functions of \<open>algorithms/shortest_distance.rs\<close>: the distances from the start state, or with
  \<open>reverse\<close> those to the final states, with the queue that \<open>AutoQueue\<close> chooses.
\<close>

definition sd_default :: "'w semiring \<Rightarrow> ('w \<Rightarrow> 'w \<Rightarrow> bool) \<Rightarrow> ('w, 'w auto_queue) sd_config" where
  "sd_default W approx = \<lparr>sd_ops = auto_queue_ops W, sd_filter = any_filter, sd_first_path = False, sd_retain = False, sd_approx = approx\<rparr>"

definition shortest_distance_forward :: "'w semiring \<Rightarrow> ('w \<Rightarrow> 'w \<Rightarrow> bool) \<Rightarrow> 'w vfst \<Rightarrow> 'w list res option" where
  "shortest_distance_forward W approx F =
     (case auto_queue_new W F None any_filter of
        Inl e \<Rightarrow> Some (Inl e)
      | Inr queue \<Rightarrow> shortest_distance_with_internal_config W F (sd_default W approx) None queue)"

text \<open>The distance vector of the reversed transducer has one entry more, for its new start state.\<close>

definition shortest_distance_with_config ::
  "'w semiring \<Rightarrow> 'v semiring \<Rightarrow> ('w \<Rightarrow> 'v res) \<Rightarrow> ('v \<Rightarrow> 'w res) \<Rightarrow> ('w \<Rightarrow> 'w \<Rightarrow> bool) \<Rightarrow> ('v \<Rightarrow> 'v \<Rightarrow> bool) \<Rightarrow>
   'w vfst \<Rightarrow> bool \<Rightarrow> 'w list res option"
where
  "shortest_distance_with_config W V rv rb approx approx' F reverse =
     (if \<not> reverse then shortest_distance_forward W approx F
      else
        case reverse_fst V rv F of
          Inl e \<Rightarrow> Some (Inl e)
        | Inr rfst \<Rightarrow>
            map_option (\<lambda>r. rbind r (\<lambda>rdistance.
                if rdistance = [] then Inl (Panic ''attempt to subtract with overflow'')
                else map_res rb (tl rdistance)))
              (shortest_distance_forward V approx' rfst))"

definition sum_of_dists :: "'w semiring \<Rightarrow> 'w vfst \<Rightarrow> 'w list \<Rightarrow> 'w res" where
  "sum_of_dists W F distance =
     for_res (\<lambda>(s, d) sum. rbind (final_weight_of F s) (\<lambda>f.
                rbind (times_w W d (case f of None \<Rightarrow> zero_w W | Some w \<Rightarrow> w)) (plus_w W sum)))
       (enumerate 0 distance) (zero_w W)"

definition shortest_distance_3 ::
  "'w semiring \<Rightarrow> 'v semiring \<Rightarrow> ('w \<Rightarrow> 'v res) \<Rightarrow> ('v \<Rightarrow> 'w res) \<Rightarrow> ('w \<Rightarrow> 'w \<Rightarrow> bool) \<Rightarrow> ('v \<Rightarrow> 'v \<Rightarrow> bool) \<Rightarrow>
   'w vfst \<Rightarrow> 'w res option"
where
  "shortest_distance_3 W V rv rb approx approx' F =
     (if declares W RIGHT_SEMIRING
      then map_option (\<lambda>r. rbind r (sum_of_dists W F)) (shortest_distance_with_config W V rv rb approx approx' F False)
      else
        map_option (\<lambda>r. rbind r (\<lambda>distance.
            Inr (case start_state F of None \<Rightarrow> zero_w W
                 | Some s \<Rightarrow> if s < length distance then distance ! s else zero_w W)))
          (shortest_distance_with_config W V rv rb approx approx' F True))"

subsection \<open>The distances from the start state\<close>

lemma forward_correct:
  assumes W: "bounded_semiring W add mul" and wf: "wf (improves add)" and right: "declares W RIGHT_SEMIRING"
    and F: "fst_ok W F" and n: "num_states F < 2 ^ 31" and i: "start_state F = Some i" and a: "\<forall>x y. approx x y \<longleftrightarrow> x = y"
  shows "\<exists>d. shortest_distance_forward W approx F = Some (Inr d) \<and> i < length d \<and> length d \<le> num_states F \<and>
    (\<forall>t. shortest_dist W add mul F any_filter i t (val (zero_w W) d t))"
proof -
  have t: "targets_ok F" using F by (simp add: fst_ok_def)
  then have ti: "i < num_states F" using i by (simp add: targets_ok_def)
  have "distance_fits W F None" by (simp add: distance_fits_def)
  from auto_queue_new_ok [OF F n this] obtain q where q: "auto_queue_new W F None any_filter = Inr q" "auto_ok W F q" by blast
  have L: "distance_setting W add mul (auto_queue_ops W) (auto_ok W F) auto_elems auto_load auto_valid
      (\<lambda>s. s < num_states F) (\<lambda>s t. (s, t) \<in> edges F \<and> t < num_states F)"
    by (intro distance_setting.intro W auto.lawful_queue_axioms)
  have e: "(u, nextstate x) \<in> edges F \<and> nextstate x < num_states F" if "(u, x) \<in> arcs F" for u x
    using that targets_state [OF t] arcs_edges [OF that] by (auto simp: arcs_def)
  have "\<exists>d. shortest_distance_with_internal_config W F (sd_default W approx) None q = Some (Inr d) \<and> i < length d \<and>
      length d \<le> num_states F \<and> (\<forall>t. shortest_dist W add mul F (sd_filter (sd_default W approx)) i t (val (zero_w W) d t))"
    by (rule distance_setting.shortest_distance_correct [OF L t _ _ ti ti q(2) wf])
      (use i e a right in \<open>simp_all add: sd_default_def\<close>)
  then show ?thesis using q(1) by (simp add: shortest_distance_forward_def sd_default_def)
qed

lemma forward_no_start:
  "start_state F = None \<Longrightarrow> shortest_distance_forward W approx F = Some (Inr [])"
  by (simp add: shortest_distance_forward_def auto_queue_new_def shortest_distance_with_internal_config_def
    shortest_distance_in_place_def sd_forget_def)

subsection \<open>The distances to the final states\<close>

text \<open>The sum of finitely many weights of a set, and the one that absorbs every weight of the set.\<close>

inductive weight_sum :: "'w semiring \<Rightarrow> ('w \<Rightarrow> 'w \<Rightarrow> 'w) \<Rightarrow> ('w \<Rightarrow> bool) \<Rightarrow> 'w \<Rightarrow> bool" for W add A where
  weight_sum_none: "weight_sum W add A (zero_w W)"
| weight_sum_more: "weight_sum W add A a \<Longrightarrow> A w \<Longrightarrow> weight_sum W add A (add a w)"

definition final_dist :: "'w semiring \<Rightarrow> ('w \<Rightarrow> 'w \<Rightarrow> 'w) \<Rightarrow> ('w \<Rightarrow> 'w \<Rightarrow> 'w) \<Rightarrow> 'w vfst \<Rightarrow> state_id \<Rightarrow> 'w \<Rightarrow> bool" where
  "final_dist W add mul F s d \<longleftrightarrow>
     weight_sum W add (\<lambda>w. \<exists>x y. accepts mul F s x y w) d \<and> (\<forall>x y w. accepts mul F s x y w \<longrightarrow> add d w = d)"

lemma reversed_path:
  assumes arc: "\<And>s u. (s, u) \<in> arcs G \<longleftrightarrow> (s = 0 \<and> (\<exists>q w. final_at F q w \<and> u = eps_tr (r w) (q + 1))) \<or>
       (\<exists>q v. (q, v) \<in> arcs F \<and> s = nextstate v + 1 \<and> u = rev_tr r q v)"
    and rev: "\<And>a b. r (mul a b) = mul' (r b) (r a)" and one: "\<And>a. mul' (one_w V) a = a"
  shows "path_from V mul' G any_filter 0 (s + 1) w \<longleftrightarrow> (\<exists>x y v. accepts mul F s x y v \<and> w = r v)"
proof
  have "if p = 0 then w = one_w V else \<exists>x y v. accepts mul F (p - 1) x y v \<and> w = r v"
    if "path_from V mul' G any_filter 0 p w" for p w
    using that
  proof (induction rule: path_from.induct)
    case (path_step u w t)
    consider q a where "u = 0" "final_at F q a" "t = eps_tr (r a) (q + 1)"
      | q v where "(q, v) \<in> arcs F" "u = nextstate v + 1" "t = rev_tr r q v" using path_step.hyps(2) arc by blast
    then show ?case
    proof cases
      case 1
      then have "w = one_w V" "accepts mul F q [] [] a" using path_step.IH by (simp_all add: acc_final)
      with 1 show ?thesis by (auto simp: one)
    next
      case 2
      then obtain x y v' where "accepts mul F (nextstate v) x y v'" "w = r v'" using path_step.IH by auto
      with acc_arc [OF 2(1)] 2 show ?thesis by (auto simp: rev_tr_def rev intro!: exI)
    qed
  qed simp
  from this [of "s + 1" w] show "path_from V mul' G any_filter 0 (s + 1) w \<Longrightarrow> \<exists>x y v. accepts mul F s x y v \<and> w = r v" by simp
next
  assume "\<exists>x y v. accepts mul F s x y v \<and> w = r v"
  then obtain x y v where "accepts mul F s x y v" "w = r v" by blast
  then show "path_from V mul' G any_filter 0 (s + 1) w"
  proof (induction arbitrary: w rule: accepts.induct)
    case (acc_final s u)
    then have "(0, eps_tr (r u) (s + 1)) \<in> arcs G" using arc by blast
    from path_step [OF path_empty this, of any_filter V mul'] acc_final show ?case by (simp add: one any_filter_def [of "eps_tr _ _"])
  next
    case (acc_arc s t x y u)
    have "(nextstate t + 1, rev_tr r s t) \<in> arcs G" using arc acc_arc.hyps(1) by blast
    from path_step [OF acc_arc.IH [OF refl] this] acc_arc.prems show ?case by (simp add: rev_tr_def rev any_filter_def [of "tr_new _ _ _ _"])
  qed
qed

text \<open>What the caller relies on for the weights of the reversed transducer: \<open>r\<close> is \<open>reverse\<close>.\<close>

locale reversed_weights = bounded_semiring V add' mul'
  for V :: "'v semiring" and add' mul' +
  fixes W :: "'w semiring" and add mul and r :: "'w \<Rightarrow> 'v"
  assumes r_zero: "r (zero_w W) = zero_w V" and r_add: "r (add a b) = add' (r a) (r b)" and r_mul: "r (mul a b) = mul' (r b) (r a)"
    and r_inj: "r a = r b \<longleftrightarrow> a = b" and r_nontrivial: "nontrivial V (r a) = nontrivial W a" and one_trivial: "\<not> nontrivial V (one_w V)"
begin

lemma final_dist_reversed:
  assumes arc: "\<And>s u. (s, u) \<in> arcs G \<longleftrightarrow> (s = 0 \<and> (\<exists>q w. final_at F q w \<and> u = eps_tr (r w) (q + 1))) \<or>
       (\<exists>q v. (q, v) \<in> arcs F \<and> s = nextstate v + 1 \<and> u = rev_tr r q v)"
    and d: "shortest_dist V add' mul' G any_filter 0 (s + 1) e"
  shows "\<exists>d. e = r d \<and> final_dist W add mul F s d"
proof -
  note path = reversed_path [OF arc r_mul mul_one_left, of s]
  have sum: "\<exists>d. e = r d \<and> weight_sum W add (\<lambda>w. \<exists>x y. accepts mul F s x y w) d"
    if "path_sum V add' mul' G any_filter 0 (s + 1) e" for e
    using that
  proof (induction rule: path_sum.induct)
    case sum_none
    show ?case by (intro exI [of _ "zero_w W"]) (simp add: r_zero weight_sum_none)
  next
    case (sum_more a w)
    then obtain d x y v where *: "a = r d" "weight_sum W add (\<lambda>w. \<exists>x y. accepts mul F s x y w) d" "accepts mul F s x y v" "w = r v"
      unfolding path by blast
    have "weight_sum W add (\<lambda>w. \<exists>x y. accepts mul F s x y w) (add d v)"
      by (rule weight_sum_more [OF *(2)]) (use *(3) in blast)
    with * show ?case by (intro exI [of _ "add d v"]) (simp add: r_add)
  qed
  from d have ps: "path_sum V add' mul' G any_filter 0 (s + 1) e" and ab: "\<forall>w. path_from V mul' G any_filter 0 (s + 1) w \<longrightarrow> add' e w = e"
    by (simp_all add: shortest_dist_def)
  from sum [OF ps] obtain d where d: "e = r d" "weight_sum W add (\<lambda>w. \<exists>x y. accepts mul F s x y w) d" by blast
  have "add d v = d" if "accepts mul F s x y v" for x y v
  proof -
    have "path_from V mul' G any_filter 0 (s + 1) (r v)" unfolding path using that by blast
    with ab have "add' e (r v) = e" by blast
    then show ?thesis unfolding d(1) r_add [symmetric] r_inj .
  qed
  with d show ?thesis unfolding final_dist_def by blast
qed

lemma reverse_correct:
  assumes rv: "\<And>w. rv w = Inr (r w)" and rb: "\<And>w. rb (r w) = Inr w" and wf: "wf (improves add')" and right: "declares V RIGHT_SEMIRING"
    and F: "fst_ok W F" and n: "num_states F + 1 < 2 ^ 31" and a: "\<forall>x y. approx' x y \<longleftrightarrow> x = y"
  shows "\<exists>d. shortest_distance_with_config W V rv rb approx approx' F True = Some (Inr d) \<and> length d \<le> num_states F \<and>
    (\<forall>s. final_dist W add mul F s (val (zero_w W) d s))"
proof -
  note t = fst_okD(3) [OF F]
  obtain H where H: "reverse_fst V rv F = Inr (set_properties_with_mask H
      (reverse_properties (properties F) True OR properties H) all_properties)"
    "num_states H = num_states F + 1" "start_state H = Some 0"
    "\<And>s w. final_at H s w \<longleftrightarrow> w = one_w V \<and> (\<exists>i. start_state F = Some i \<and> s = i + 1)"
    "\<And>s u. (s, u) \<in> arcs H \<longleftrightarrow> (s = 0 \<and> (\<exists>q w. final_at F q w \<and> u = eps_tr (r w) (q + 1))) \<or>
       (\<exists>q v. (q, v) \<in> arcs F \<and> s = nextstate v + 1 \<and> u = rev_tr r q v)" "bits_ok V H"
    by (rule reverse_fst_spec [OF rv t, of V], rule that)
  define G where "G = set_properties_with_mask H (reverse_properties (properties F) True OR properties H) all_properties"
  have G: "num_states G = num_states F + 1" "start_state G = Some 0" "arcs G = arcs H"
    using H(2,3) by (simp_all add: G_def set_properties_with_mask_def arcs_def)
  have run: "reverse_fst V rv F = Inr G" using H(1) by (simp add: G_def)
  have Gok: "fst_ok V G" by (rule reverse_fst_ok [OF rv F run r_nontrivial one_trivial])
  have nG: "num_states G < 2 ^ 31" using n G(1) by simp
  from forward_correct [OF bounded_semiring_axioms wf right Gok nG G(2) a] obtain e where
    e: "shortest_distance_forward V approx' G = Some (Inr e)" "0 < length e" "length e \<le> num_states F + 1"
      "\<forall>t. shortest_dist V add' mul' G any_filter 0 t (val (zero_w V) e t)" unfolding G(1) by blast
  have fd: "\<exists>d. val (zero_w V) e (s + 1) = r d \<and> final_dist W add mul F s d" for s
    by (rule final_dist_reversed [OF H(5) [folded G(3)]]) (use e(4) in blast)
  then obtain g where g: "\<And>s. val (zero_w V) e (s + 1) = r (g s) \<and> final_dist W add mul F s (g s)" by metis
  have tl: "tl e = map (\<lambda>s. r (g s)) [0 ..< length e - 1]"
  proof (rule nth_equalityI)
    fix s
    assume "s < length (tl e)"
    then have "s + 1 < length e" by simp
    then have "s < length e - 1" "s + 1 < length e" "tl e ! s = e ! (s + 1)" by (simp_all add: nth_tl)
    then show "tl e ! s = map (\<lambda>s. r (g s)) [0 ..< length e - 1] ! s" using g [of s] by (simp add: val_def)
  qed simp
  have unrev: "map_res rb (map (\<lambda>s. r (g s)) ks) = Inr (map g ks)" for ks by (induction ks) (simp_all add: rb)
  let ?d = "map g [0 ..< length e - 1]"
  have "shortest_distance_with_config W V rv rb approx approx' F True = Some (Inr ?d)"
    using e(2) by (auto simp: shortest_distance_with_config_def run e(1) tl unrev)
  moreover have "val (zero_w W) ?d s = g s" for s
  proof (cases "s + 1 < length e")
    case True
    then have "s < length e - 1" by simp
    then show ?thesis by (simp add: val_def)
  next
    case False
    then have "r (g s) = r (zero_w W)" using g [of s] by (simp add: val_def r_zero)
    then have "g s = zero_w W" unfolding r_inj .
    moreover have "\<not> s < length e - 1" using False by simp
    ultimately show ?thesis by (simp add: val_def del: upt_Suc)
  qed
  ultimately show ?thesis using g e(3) by (intro exI [of _ ?d]) simp
qed

end

interpretation bool_reversed: reversed_weights boolean_weight "(\<or>)" "(\<and>)" boolean_weight "(\<or>)" "(\<and>)" "\<lambda>w. w"
  by unfold_locales (auto simp: nontrivial_def is_one_def boolean_weight_def)

lemma final_dist_bool:
  assumes "final_dist boolean_weight (\<or>) (\<and>) F s d"
  shows "d \<longleftrightarrow> (\<exists>x y. accepts (\<and>) F s x y True)"
proof -
  have "d \<longrightarrow> (\<exists>x y. accepts (\<and>) F s x y True)" if "weight_sum boolean_weight (\<or>) (\<lambda>w. \<exists>x y. accepts (\<and>) F s x y w) d" for d
    using that
  proof (induction rule: weight_sum.induct)
    case weight_sum_none
    show ?case by (simp add: boolean_weight_def)
  next
    case (weight_sum_more a w)
    then show ?case by (cases w) auto
  qed
  with assms show ?thesis unfolding final_dist_def by blast
qed

end
