(* ===== verification/Lazy_Cache.thy ===== *)
theory Lazy_Cache
  imports Tr "HOL-Library.AList"
begin

text \<open>
  The caches of lazy transducers (\<open>algorithms/lazy/cache\<close>): the trait \<open>FstCache\<close> as a record of
  operations on a cache state, the four implementations, and the contract a lazy transducer relies
  on: a cache may forget an answer, but it never invents one. The mutexes are not modelled: every
  operation holds its lock from start to end.
\<close>

subsection \<open>Cache entries\<close>

datatype 'a cache_status = NotComputed | Computed 'a

definition cs_map :: "('a \<Rightarrow> 'b) \<Rightarrow> 'a cache_status \<Rightarrow> 'b cache_status" where
  "cs_map f c = (case c of Computed x \<Rightarrow> Computed (f x) | NotComputed \<Rightarrow> NotComputed)"

definition cs_is_computed :: "'a cache_status \<Rightarrow> bool" where
  "cs_is_computed c = (case c of Computed _ \<Rightarrow> True | NotComputed \<Rightarrow> False)"

definition cs_and :: "'a cache_status \<Rightarrow> 'b cache_status \<Rightarrow> 'b cache_status" where
  "cs_and c other = (if \<not> cs_is_computed c then NotComputed else other)"

definition cs_and_then :: "'a cache_status \<Rightarrow> ('a \<Rightarrow> 'b cache_status) \<Rightarrow> 'b cache_status" where
  "cs_and_then c f = (case c of Computed x \<Rightarrow> f x | NotComputed \<Rightarrow> NotComputed)"

definition cs_or :: "'a cache_status \<Rightarrow> 'a cache_status \<Rightarrow> 'a cache_status" where
  "cs_or c other = (case c of Computed v \<Rightarrow> Computed v | NotComputed \<Rightarrow> other)"

definition cs_or_else :: "'a cache_status \<Rightarrow> (unit \<Rightarrow> 'a cache_status) \<Rightarrow> 'a cache_status" where
  "cs_or_else c f = (case c of Computed v \<Rightarrow> Computed v | NotComputed \<Rightarrow> f ())"

definition cs_into_option :: "'a cache_status \<Rightarrow> 'a option" where
  "cs_into_option c = (case c of Computed e \<Rightarrow> Some e | NotComputed \<Rightarrow> None)"

definition cs_from_option :: "'a option \<Rightarrow> 'a cache_status" where
  "cs_from_option v = (case v of Some v \<Rightarrow> Computed v | None \<Rightarrow> NotComputed)"

lemma cs_simps [simp]:
  "cs_map f (Computed x) = Computed (f x)" "cs_map f NotComputed = NotComputed"
  "cs_into_option (Computed x) = Some x" "cs_into_option NotComputed = None"
  "cs_from_option (Some x) = Computed x" "cs_from_option None = NotComputed"
  by (simp_all add: cs_map_def cs_into_option_def cs_from_option_def)

lemma cs_map_eq [simp]:
  "cs_map f c = Computed y \<longleftrightarrow> (\<exists>x. c = Computed x \<and> y = f x)" "cs_map f c = NotComputed \<longleftrightarrow> c = NotComputed"
  by (cases c; auto)+

lemma cs_option_inverse: "cs_from_option (cs_into_option c) = c" "cs_into_option (cs_from_option v) = v"
  by (cases c; simp) (cases v; simp)

lemma cs_map_from_option [simp]: "cs_map f (cs_from_option v) = cs_from_option (map_option f v)"
  by (cases v) simp_all

lemma cs_into_option_from: "cs_into_option c = v \<longleftrightarrow> c = cs_from_option v"
  by (cases c; cases v; auto)

record 'w cache_trs =
  ct_trs :: "'w tr list"
  ct_niepsilons :: nat
  ct_noepsilons :: nat

record 'd cached_data =
  cd_data :: 'd
  cd_known :: nat

text \<open>\<open>CachedData::get\<close> on a vector and on a hash map; the hash map is an association list.\<close>

definition cd_get_vec :: "'a cache_status list cached_data \<Rightarrow> nat \<Rightarrow> 'a cache_status" where
  "cd_get_vec d idx = (case vec_get (cd_data d) idx of Some e \<Rightarrow> e | None \<Rightarrow> NotComputed)"

definition cd_get_map :: "(nat \<times> 'a) list cached_data \<Rightarrow> nat \<Rightarrow> 'a option" where
  "cd_get_map d idx = map_of (cd_data d) idx"

text \<open>\<open>Vec::resize\<close> to a larger size.\<close>

definition vec_resize :: "'a list \<Rightarrow> nat \<Rightarrow> 'a \<Rightarrow> 'a list" where
  "vec_resize xs n x = take n xs @ replicate (n - length xs) x"

lemma length_vec_resize [simp]: "length (vec_resize xs n x) = n"
  by (simp add: vec_resize_def)

lemma nth_vec_resize: "i < n \<Longrightarrow> vec_resize xs n x ! i = (if i < length xs then xs ! i else x)"
  by (auto simp: vec_resize_def nth_append)

subsection \<open>The trait\<close>

record ('w, 'c) fst_cache =
  fc_get_start :: "'c \<Rightarrow> state_id option cache_status"
  fc_insert_start :: "state_id option \<Rightarrow> 'c \<Rightarrow> 'c"
  fc_get_trs :: "state_id \<Rightarrow> 'c \<Rightarrow> 'w tr list cache_status"
  fc_insert_trs :: "state_id \<Rightarrow> 'w tr list \<Rightarrow> 'c \<Rightarrow> 'c"
  fc_get_final_weight :: "state_id \<Rightarrow> 'c \<Rightarrow> 'w option cache_status"
  fc_insert_final_weight :: "state_id \<Rightarrow> 'w option \<Rightarrow> 'c \<Rightarrow> 'c"
  fc_num_known_states :: "'c \<Rightarrow> nat"
  fc_compute_num_known_trs :: "'c \<Rightarrow> nat"
  fc_num_trs :: "state_id \<Rightarrow> 'c \<Rightarrow> nat option"
  fc_num_input_epsilons :: "state_id \<Rightarrow> 'c \<Rightarrow> nat option"
  fc_num_output_epsilons :: "state_id \<Rightarrow> 'c \<Rightarrow> nat option"
  fc_len_trs :: "'c \<Rightarrow> nat"
  fc_len_final_weights :: "'c \<Rightarrow> nat"

text \<open>
  What a client may rely on. \<open>lossy_cache\<close>: an answer is the last one inserted under its key, and
  inserting under one key or table leaves the others. \<open>storing_cache\<close>: the last inserted answer is
  there, with its length and its epsilon counts.
\<close>

locale lossy_cache =
  fixes C :: "('w, 'c) fst_cache"
    and ok :: "'c \<Rightarrow> bool"
    and fresh :: 'c
  assumes fresh_ok: "ok fresh"
    and start_ok: "ok c \<Longrightarrow> ok (fc_insert_start C v c)"
    and trs_ok: "ok c \<Longrightarrow> ok (fc_insert_trs C i ts c)"
    and final_ok: "ok c \<Longrightarrow> ok (fc_insert_final_weight C i w c)"
    and fresh_start: "fc_get_start C fresh = NotComputed"
    and fresh_trs: "fc_get_trs C i fresh = NotComputed"
    and fresh_final: "fc_get_final_weight C i fresh = NotComputed"
    and start_start: "ok c \<Longrightarrow> fc_get_start C (fc_insert_start C v c) = Computed s \<Longrightarrow> s = v"
    and start_trs: "ok c \<Longrightarrow> fc_get_start C (fc_insert_trs C i ts c) = fc_get_start C c"
    and start_final: "ok c \<Longrightarrow> fc_get_start C (fc_insert_final_weight C i w c) = fc_get_start C c"
    and trs_trs: "ok c \<Longrightarrow> fc_get_trs C i (fc_insert_trs C j ts c) = Computed us \<Longrightarrow>
      (if i = j then us = ts else fc_get_trs C i c = Computed us)"
    and trs_start: "ok c \<Longrightarrow> fc_get_trs C i (fc_insert_start C v c) = fc_get_trs C i c"
    and trs_final: "ok c \<Longrightarrow> fc_get_trs C i (fc_insert_final_weight C j w c) = fc_get_trs C i c"
    and final_final: "ok c \<Longrightarrow> fc_get_final_weight C i (fc_insert_final_weight C j w c) = Computed fw \<Longrightarrow>
      (if i = j then fw = w else fc_get_final_weight C i c = Computed fw)"
    and final_start: "ok c \<Longrightarrow> fc_get_final_weight C i (fc_insert_start C v c) = fc_get_final_weight C i c"
    and final_trs: "ok c \<Longrightarrow> fc_get_final_weight C i (fc_insert_trs C j ts c) = fc_get_final_weight C i c"
begin

text \<open>A miss stays a miss while only other keys are inserted.\<close>

lemma trs_miss:
  "ok c \<Longrightarrow> fc_get_trs C i c = NotComputed \<Longrightarrow> i \<noteq> j \<Longrightarrow> fc_get_trs C i (fc_insert_trs C j ts c) = NotComputed"
  using trs_trs [of c i j ts] by (cases "fc_get_trs C i (fc_insert_trs C j ts c)") auto

lemma final_miss:
  "ok c \<Longrightarrow> fc_get_final_weight C i c = NotComputed \<Longrightarrow> i \<noteq> j \<Longrightarrow>
   fc_get_final_weight C i (fc_insert_final_weight C j w c) = NotComputed"
  using final_final [of c i j w] by (cases "fc_get_final_weight C i (fc_insert_final_weight C j w c)") auto

end

locale storing_cache = lossy_cache +
  assumes stored_start: "ok c \<Longrightarrow> fc_get_start C (fc_insert_start C v c) = Computed v"
    and stored_trs: "ok c \<Longrightarrow> fc_get_trs C i (fc_insert_trs C i ts c) = Computed ts"
    and stored_final: "ok c \<Longrightarrow> fc_get_final_weight C i (fc_insert_final_weight C i w c) = Computed w"
    and stored_num_trs: "ok c \<Longrightarrow> fc_num_trs C i (fc_insert_trs C i ts c) = Some (length ts)"
    and stored_ieps: "ok c \<Longrightarrow> fc_num_input_epsilons C i (fc_insert_trs C i ts c) = Some (count_ieps ts)"
    and stored_oeps: "ok c \<Longrightarrow> fc_num_output_epsilons C i (fc_insert_trs C i ts c) = Some (count_oeps ts)"

subsection \<open>NullCache\<close>

definition null_cache :: "('w, unit) fst_cache" where
  "null_cache = \<lparr>
     fc_get_start = (\<lambda>_. NotComputed), fc_insert_start = (\<lambda>_ c. c),
     fc_get_trs = (\<lambda>_ _. NotComputed), fc_insert_trs = (\<lambda>_ _ c. c),
     fc_get_final_weight = (\<lambda>_ _. NotComputed), fc_insert_final_weight = (\<lambda>_ _ c. c),
     fc_num_known_states = (\<lambda>_. 0), fc_compute_num_known_trs = (\<lambda>_. 0),
     fc_num_trs = (\<lambda>_ _. None), fc_num_input_epsilons = (\<lambda>_ _. None), fc_num_output_epsilons = (\<lambda>_ _. None),
     fc_len_trs = (\<lambda>_. 0), fc_len_final_weights = (\<lambda>_. 0)\<rparr>"

interpretation null: lossy_cache null_cache "\<lambda>_. True" "()"
  by unfold_locales (simp_all add: null_cache_def)

subsection \<open>The scan of the inserted transitions\<close>

text \<open>The loop of \<open>insert_trs\<close>: known states and epsilon counts.\<close>

fun insert_scan :: "'w tr list \<Rightarrow> nat \<times> nat \<times> nat \<Rightarrow> nat \<times> nat \<times> nat" where
  "insert_scan [] acc = acc"
| "insert_scan (t # ts) (known, ni, no) =
     insert_scan ts (max known (nextstate t + 1), (if ilabel t = EPS_LABEL then ni + 1 else ni),
       (if olabel t = EPS_LABEL then no + 1 else no))"

definition known_after :: "nat \<Rightarrow> 'w tr list \<Rightarrow> nat" where
  "known_after k ts = fold (\<lambda>t k. max k (nextstate t + 1)) ts k"

lemma insert_scan: "insert_scan ts (k, ni, no) = (known_after k ts, ni + count_ieps ts, no + count_oeps ts)"
  by (induction ts arbitrary: k ni no) (auto simp: known_after_def)

subsection \<open>SimpleVecCache\<close>

record 'w vec_cache_data =
  vc_start :: "state_id option cache_status cached_data"
  vc_trs :: "'w cache_trs cache_status list cached_data"
  vc_final :: "'w option cache_status list cached_data"

definition vec_cache_new :: "'w vec_cache_data" where
  "vec_cache_new = \<lparr>vc_start = \<lparr>cd_data = NotComputed, cd_known = 0\<rparr>,
     vc_trs = \<lparr>cd_data = [], cd_known = 0\<rparr>, vc_final = \<lparr>cd_data = [], cd_known = 0\<rparr>\<rparr>"

definition vc_clear :: "'w vec_cache_data \<Rightarrow> 'w vec_cache_data" where
  "vc_clear c = c\<lparr>vc_start := \<lparr>cd_data = NotComputed, cd_known = 0\<rparr>,
     vc_trs := \<lparr>cd_data = [], cd_known = 0\<rparr>, vc_final := \<lparr>cd_data = [], cd_known = 0\<rparr>\<rparr>"

definition insert_start_data ::
  "state_id option \<Rightarrow> state_id option cache_status cached_data \<Rightarrow> state_id option cache_status cached_data" where
  "insert_start_data v d =
     (let d = (case v of Some s \<Rightarrow> d\<lparr>cd_known := max (cd_known d) (s + 1)\<rparr> | None \<Rightarrow> d)
      in d\<lparr>cd_data := Computed v\<rparr>)"

definition vec_put :: "nat \<Rightarrow> 'a \<Rightarrow> 'a cache_status list \<Rightarrow> 'a cache_status list" where
  "vec_put i x xs = (let xs = (if i \<ge> length xs then vec_resize xs (i + 1) NotComputed else xs) in xs[i := Computed x])"

definition vc_insert_trs :: "state_id \<Rightarrow> 'w tr list \<Rightarrow> 'w vec_cache_data \<Rightarrow> 'w vec_cache_data" where
  "vc_insert_trs i ts c =
     (let (known, ni, no) = insert_scan ts (cd_known (vc_trs c), 0, 0)
      in c\<lparr>vc_trs := \<lparr>cd_data = vec_put i \<lparr>ct_trs = ts, ct_niepsilons = ni, ct_noepsilons = no\<rparr> (cd_data (vc_trs c)),
            cd_known = known\<rparr>\<rparr>)"

definition vc_insert_final :: "state_id \<Rightarrow> 'w option \<Rightarrow> 'w vec_cache_data \<Rightarrow> 'w vec_cache_data" where
  "vc_insert_final i w c =
     c\<lparr>vc_final := \<lparr>cd_data = vec_put i w (cd_data (vc_final c)), cd_known = max (cd_known (vc_final c)) (i + 1)\<rparr>\<rparr>"

definition vc_compute_num_known_trs :: "'w vec_cache_data \<Rightarrow> nat" where
  "vc_compute_num_known_trs c =
     sum_list (map (\<lambda>e. length (ct_trs e)) (List.map_filter cs_into_option (cd_data (vc_trs c))))"

definition vec_cache :: "('w, 'w vec_cache_data) fst_cache" where
  "vec_cache = \<lparr>
     fc_get_start = (\<lambda>c. cd_data (vc_start c)),
     fc_insert_start = (\<lambda>v c. c\<lparr>vc_start := insert_start_data v (vc_start c)\<rparr>),
     fc_get_trs = (\<lambda>i c. cs_map ct_trs (cd_get_vec (vc_trs c) i)),
     fc_insert_trs = vc_insert_trs,
     fc_get_final_weight = (\<lambda>i c. cd_get_vec (vc_final c) i),
     fc_insert_final_weight = vc_insert_final,
     fc_num_known_states = (\<lambda>c. max (max (max 0 (cd_known (vc_start c))) (cd_known (vc_trs c))) (cd_known (vc_final c))),
     fc_compute_num_known_trs = vc_compute_num_known_trs,
     fc_num_trs = (\<lambda>i c. cs_into_option (cs_map (\<lambda>e. length (ct_trs e)) (cd_get_vec (vc_trs c) i))),
     fc_num_input_epsilons = (\<lambda>i c. cs_into_option (cs_map ct_niepsilons (cd_get_vec (vc_trs c) i))),
     fc_num_output_epsilons = (\<lambda>i c. cs_into_option (cs_map ct_noepsilons (cd_get_vec (vc_trs c) i))),
     fc_len_trs = (\<lambda>c. length (cd_data (vc_trs c))),
     fc_len_final_weights = (\<lambda>c. length (cd_data (vc_final c)))\<rparr>"

lemma vec_put_get:
  "cd_get_vec \<lparr>cd_data = vec_put i x xs, cd_known = k\<rparr> j =
   (if i = j then Computed x else cd_get_vec \<lparr>cd_data = xs, cd_known = k'\<rparr> j)"
  by (auto simp: cd_get_vec_def vec_put_def vec_get_def Let_def nth_list_update nth_vec_resize)

lemma cd_get_vec_known: "cd_get_vec \<lparr>cd_data = cd_data d, cd_known = k\<rparr> j = cd_get_vec d j"
  by (simp add: cd_get_vec_def)

lemma vc_insert_trs:
  "vc_insert_trs i ts c = c\<lparr>vc_trs := \<lparr>cd_data = vec_put i \<lparr>ct_trs = ts, ct_niepsilons = count_ieps ts,
     ct_noepsilons = count_oeps ts\<rparr> (cd_data (vc_trs c)), cd_known = known_after (cd_known (vc_trs c)) ts\<rparr>\<rparr>"
  by (simp add: vc_insert_trs_def insert_scan)

lemma vc_get_trs:
  "cd_get_vec (vc_trs (vc_insert_trs i ts c)) j =
   (if i = j then Computed \<lparr>ct_trs = ts, ct_niepsilons = count_ieps ts, ct_noepsilons = count_oeps ts\<rparr>
    else cd_get_vec (vc_trs c) j)"
  using vec_put_get [of i _ "cd_data (vc_trs c)" _ j 0] by (simp add: vc_insert_trs cd_get_vec_known)

lemma vc_get_final:
  "cd_get_vec (vc_final (vc_insert_final i w c)) j = (if i = j then Computed w else cd_get_vec (vc_final c) j)"
  using vec_put_get [of i _ "cd_data (vc_final c)" _ j 0] by (simp add: vc_insert_final_def cd_get_vec_known)

lemma vc_frame [simp]:
  "vc_start (vc_insert_trs i ts c) = vc_start c" "vc_final (vc_insert_trs i ts c) = vc_final c"
  "vc_start (vc_insert_final i w c) = vc_start c" "vc_trs (vc_insert_final i w c) = vc_trs c"
  by (simp_all add: vc_insert_trs vc_insert_final_def)

lemma insert_start_data [simp]: "cd_data (insert_start_data v d) = Computed v"
  by (simp add: insert_start_data_def)

lemma cd_get_vec_Nil [simp]: "cd_get_vec \<lparr>cd_data = [], cd_known = k\<rparr> i = NotComputed"
  by (simp add: cd_get_vec_def vec_get_def)

interpretation vec: storing_cache vec_cache "\<lambda>_. True" vec_cache_new
  by unfold_locales (auto simp: vec_cache_def vec_cache_new_def vc_get_trs vc_get_final split: if_splits)

subsection \<open>SimpleHashMapCache\<close>

record 'w map_cache_data =
  mc_start :: "state_id option cache_status cached_data"
  mc_trs :: "(state_id \<times> 'w cache_trs) list cached_data"
  mc_final :: "(state_id \<times> 'w option) list cached_data"

definition map_cache_new :: "'w map_cache_data" where
  "map_cache_new = \<lparr>mc_start = \<lparr>cd_data = NotComputed, cd_known = 0\<rparr>,
     mc_trs = \<lparr>cd_data = [], cd_known = 0\<rparr>, mc_final = \<lparr>cd_data = [], cd_known = 0\<rparr>\<rparr>"

definition mc_clear :: "'w map_cache_data \<Rightarrow> 'w map_cache_data" where
  "mc_clear c = c\<lparr>mc_start := \<lparr>cd_data = NotComputed, cd_known = 0\<rparr>,
     mc_trs := \<lparr>cd_data = [], cd_known = 0\<rparr>, mc_final := \<lparr>cd_data = [], cd_known = 0\<rparr>\<rparr>"

definition mc_insert_trs :: "state_id \<Rightarrow> 'w tr list \<Rightarrow> 'w map_cache_data \<Rightarrow> 'w map_cache_data" where
  "mc_insert_trs i ts c =
     (let (known, ni, no) = insert_scan ts (cd_known (mc_trs c), 0, 0)
      in c\<lparr>mc_trs := \<lparr>cd_data = AList.update i \<lparr>ct_trs = ts, ct_niepsilons = ni, ct_noepsilons = no\<rparr> (cd_data (mc_trs c)),
            cd_known = known\<rparr>\<rparr>)"

definition mc_insert_final :: "state_id \<Rightarrow> 'w option \<Rightarrow> 'w map_cache_data \<Rightarrow> 'w map_cache_data" where
  "mc_insert_final i w c =
     c\<lparr>mc_final := \<lparr>cd_data = AList.update i w (cd_data (mc_final c)), cd_known = max (cd_known (mc_final c)) (i + 1)\<rparr>\<rparr>"

definition mc_compute_num_known_trs :: "'w map_cache_data \<Rightarrow> nat" where
  "mc_compute_num_known_trs c = sum_list (map (\<lambda>e. length (ct_trs (snd e))) (cd_data (mc_trs c)))"

definition map_cache :: "('w, 'w map_cache_data) fst_cache" where
  "map_cache = \<lparr>
     fc_get_start = (\<lambda>c. cd_data (mc_start c)),
     fc_insert_start = (\<lambda>v c. c\<lparr>mc_start := insert_start_data v (mc_start c)\<rparr>),
     fc_get_trs = (\<lambda>i c. case cd_get_map (mc_trs c) i of Some e \<Rightarrow> Computed (ct_trs e) | None \<Rightarrow> NotComputed),
     fc_insert_trs = mc_insert_trs,
     fc_get_final_weight = (\<lambda>i c. case cd_get_map (mc_final c) i of Some e \<Rightarrow> Computed e | None \<Rightarrow> NotComputed),
     fc_insert_final_weight = mc_insert_final,
     fc_num_known_states = (\<lambda>c. max (max (max 0 (cd_known (mc_start c))) (cd_known (mc_trs c))) (cd_known (mc_final c))),
     fc_compute_num_known_trs = mc_compute_num_known_trs,
     fc_num_trs = (\<lambda>i c. map_option (\<lambda>e. length (ct_trs e)) (cd_get_map (mc_trs c) i)),
     fc_num_input_epsilons = (\<lambda>i c. map_option ct_niepsilons (cd_get_map (mc_trs c) i)),
     fc_num_output_epsilons = (\<lambda>i c. map_option ct_noepsilons (cd_get_map (mc_trs c) i)),
     fc_len_trs = (\<lambda>c. length (cd_data (mc_trs c))),
     fc_len_final_weights = (\<lambda>c. length (cd_data (mc_final c)))\<rparr>"

lemma mc_insert_trs:
  "mc_insert_trs i ts c = c\<lparr>mc_trs := \<lparr>cd_data = AList.update i \<lparr>ct_trs = ts, ct_niepsilons = count_ieps ts,
     ct_noepsilons = count_oeps ts\<rparr> (cd_data (mc_trs c)), cd_known = known_after (cd_known (mc_trs c)) ts\<rparr>\<rparr>"
  by (simp add: mc_insert_trs_def insert_scan)

lemma mc_get_trs:
  "cd_get_map (mc_trs (mc_insert_trs i ts c)) j =
   (if i = j then Some \<lparr>ct_trs = ts, ct_niepsilons = count_ieps ts, ct_noepsilons = count_oeps ts\<rparr>
    else cd_get_map (mc_trs c) j)"
  by (simp add: mc_insert_trs cd_get_map_def update_conv')

lemma mc_get_final:
  "cd_get_map (mc_final (mc_insert_final i w c)) j = (if i = j then Some w else cd_get_map (mc_final c) j)"
  by (simp add: mc_insert_final_def cd_get_map_def update_conv')

lemma mc_frame [simp]:
  "mc_start (mc_insert_trs i ts c) = mc_start c" "mc_final (mc_insert_trs i ts c) = mc_final c"
  "mc_start (mc_insert_final i w c) = mc_start c" "mc_trs (mc_insert_final i w c) = mc_trs c"
  by (simp_all add: mc_insert_trs mc_insert_final_def)

lemma cd_get_map_Nil [simp]: "cd_get_map \<lparr>cd_data = [], cd_known = k\<rparr> i = None"
  by (simp add: cd_get_map_def)

interpretation map: storing_cache map_cache "\<lambda>_. True" map_cache_new
  by unfold_locales
    (auto simp: map_cache_def map_cache_new_def mc_get_trs mc_get_final split: if_splits option.splits)

subsection \<open>FirstCache\<close>

text \<open>The last answer of each table, in front of another cache.\<close>

record ('w, 'c) first_state =
  f_cache :: 'c
  f_last_trs :: "(state_id \<times> 'w tr list) option"
  f_last_final :: "(state_id \<times> 'w option) option"

definition first_new :: "'c \<Rightarrow> ('w, 'c) first_state" where
  "first_new c = \<lparr>f_cache = c, f_last_trs = None, f_last_final = None\<rparr>"

definition first_get_trs :: "('w, 'c) fst_cache \<Rightarrow> state_id \<Rightarrow> ('w, 'c) first_state \<Rightarrow> 'w tr list cache_status" where
  "first_get_trs C i c = (case f_last_trs c of
     Some (k, ts) \<Rightarrow> if k = i then Computed ts else fc_get_trs C i (f_cache c)
   | None \<Rightarrow> fc_get_trs C i (f_cache c))"

definition first_get_final :: "('w, 'c) fst_cache \<Rightarrow> state_id \<Rightarrow> ('w, 'c) first_state \<Rightarrow> 'w option cache_status" where
  "first_get_final C i c = (case f_last_final c of
     Some (k, w) \<Rightarrow> if k = i then Computed w else fc_get_final_weight C i (f_cache c)
   | None \<Rightarrow> fc_get_final_weight C i (f_cache c))"

definition first_cache :: "('w, 'c) fst_cache \<Rightarrow> ('w, ('w, 'c) first_state) fst_cache" where
  "first_cache C = \<lparr>
     fc_get_start = (\<lambda>c. fc_get_start C (f_cache c)),
     fc_insert_start = (\<lambda>v c. c\<lparr>f_cache := fc_insert_start C v (f_cache c)\<rparr>),
     fc_get_trs = first_get_trs C,
     fc_insert_trs = (\<lambda>i ts c. c\<lparr>f_last_trs := Some (i, ts), f_cache := fc_insert_trs C i ts (f_cache c)\<rparr>),
     fc_get_final_weight = first_get_final C,
     fc_insert_final_weight = (\<lambda>i w c. c\<lparr>f_last_final := Some (i, w), f_cache := fc_insert_final_weight C i w (f_cache c)\<rparr>),
     fc_num_known_states = (\<lambda>c. fc_num_known_states C (f_cache c)),
     fc_compute_num_known_trs = (\<lambda>c. fc_compute_num_known_trs C (f_cache c)),
     fc_num_trs = (\<lambda>i c. fc_num_trs C i (f_cache c)),
     fc_num_input_epsilons = (\<lambda>i c. fc_num_input_epsilons C i (f_cache c)),
     fc_num_output_epsilons = (\<lambda>i c. fc_num_output_epsilons C i (f_cache c)),
     fc_len_trs = (\<lambda>c. fc_len_trs C (f_cache c)),
     fc_len_final_weights = (\<lambda>c. fc_len_final_weights C (f_cache c))\<rparr>"

text \<open>The last answers agree with what the cache behind remembers of them.\<close>

definition first_ok :: "('w, 'c) fst_cache \<Rightarrow> ('c \<Rightarrow> bool) \<Rightarrow> ('w, 'c) first_state \<Rightarrow> bool" where
  "first_ok C ok c \<longleftrightarrow> ok (f_cache c) \<and>
     (\<forall>i ts us. f_last_trs c = Some (i, ts) \<longrightarrow> fc_get_trs C i (f_cache c) = Computed us \<longrightarrow> us = ts) \<and>
     (\<forall>i w v. f_last_final c = Some (i, w) \<longrightarrow> fc_get_final_weight C i (f_cache c) = Computed v \<longrightarrow> v = w)"

lemma first_cache_simps [simp]:
  "fc_get_start (first_cache C) = (\<lambda>c. fc_get_start C (f_cache c))"
  "fc_insert_start (first_cache C) = (\<lambda>v c. c\<lparr>f_cache := fc_insert_start C v (f_cache c)\<rparr>)"
  "fc_get_trs (first_cache C) = first_get_trs C" "fc_get_final_weight (first_cache C) = first_get_final C"
  "fc_insert_trs (first_cache C) = (\<lambda>i ts c. c\<lparr>f_last_trs := Some (i, ts), f_cache := fc_insert_trs C i ts (f_cache c)\<rparr>)"
  "fc_insert_final_weight (first_cache C) = (\<lambda>i w c. c\<lparr>f_last_final := Some (i, w), f_cache := fc_insert_final_weight C i w (f_cache c)\<rparr>)"
  by (simp_all add: first_cache_def)

context lossy_cache
begin

lemma first_lossy: "lossy_cache (first_cache C) (first_ok C ok) (first_new fresh)"
proof unfold_locales
  show "first_ok C ok (first_new fresh)" by (simp add: first_ok_def first_new_def fresh_ok)
next
  fix c v assume "first_ok C ok c"
  then show "first_ok C ok (fc_insert_start (first_cache C) v c)"
    by (simp add: first_ok_def start_ok trs_start final_start)
next
  fix c i ts assume "first_ok C ok c"
  then show "first_ok C ok (fc_insert_trs (first_cache C) i ts c)"
    by (auto simp: first_ok_def trs_ok final_trs dest!: trs_trs)
next
  fix c i w assume "first_ok C ok c"
  then show "first_ok C ok (fc_insert_final_weight (first_cache C) i w c)"
    by (auto simp: first_ok_def final_ok trs_final dest!: final_final)
next
  fix c i j ts us assume a: "first_ok C ok c" "fc_get_trs (first_cache C) i (fc_insert_trs (first_cache C) j ts c) = Computed us"
  then show "if i = j then us = ts else fc_get_trs (first_cache C) i c = Computed us"
    using trs_trs [of "f_cache c" i j ts us] by (auto simp: first_ok_def first_get_trs_def split: option.splits if_splits)
next
  fix c i j w v assume a: "first_ok C ok c"
    "fc_get_final_weight (first_cache C) i (fc_insert_final_weight (first_cache C) j w c) = Computed v"
  then show "if i = j then v = w else fc_get_final_weight (first_cache C) i c = Computed v"
    using final_final [of "f_cache c" i j w v]
    by (auto simp: first_ok_def first_get_final_def split: option.splits if_splits)
qed (auto simp: first_ok_def first_new_def first_get_trs_def first_get_final_def fresh_start fresh_trs fresh_final
    start_trs start_final trs_start trs_final final_start final_trs dest: start_start split: option.splits)

end

interpretation first_vec: lossy_cache "first_cache vec_cache" "first_ok vec_cache (\<lambda>_. True)" "first_new vec_cache_new"
  by (rule vec.first_lossy)

subsection \<open>What a sequence of insertions leaves\<close>

text \<open>Operations on a cache as data, and the reads a client sees after any number of them.\<close>

datatype 'w cache_call = CStart "state_id option" | CTrs state_id "'w tr list" | CFinal state_id "'w option"

fun run_call :: "('w, 'c) fst_cache \<Rightarrow> 'w cache_call \<Rightarrow> 'c \<Rightarrow> 'c" where
  "run_call C (CStart v) c = fc_insert_start C v c"
| "run_call C (CTrs i ts) c = fc_insert_trs C i ts c"
| "run_call C (CFinal i w) c = fc_insert_final_weight C i w c"

text \<open>
  The reads in terms of the insertions made: under each key the answer inserted last, and every state any of
  them named as known. The key of \<open>insert_trs\<close> is not one of those; overwritten transitions still count.
\<close>

fun start_call :: "'w cache_call \<Rightarrow> state_id option option" where
  "start_call (CStart v) = Some v"
| "start_call _ = None"

fun trs_call :: "'w cache_call \<Rightarrow> (state_id \<times> 'w tr list) option" where
  "trs_call (CTrs i ts) = Some (i, ts)"
| "trs_call _ = None"

fun final_call :: "'w cache_call \<Rightarrow> (state_id \<times> 'w option) option" where
  "final_call (CFinal i w) = Some (i, w)"
| "final_call _ = None"

definition last_start :: "'w cache_call list \<Rightarrow> state_id option option" where
  "last_start calls = (case rev (List.map_filter start_call calls) of [] \<Rightarrow> None | v # _ \<Rightarrow> Some v)"

definition last_trs :: "'w cache_call list \<Rightarrow> state_id \<Rightarrow> 'w tr list option" where
  "last_trs calls = map_of (rev (List.map_filter trs_call calls))"

definition last_final :: "'w cache_call list \<Rightarrow> state_id \<Rightarrow> 'w option option" where
  "last_final calls = map_of (rev (List.map_filter final_call calls))"

fun named_states :: "'w cache_call \<Rightarrow> state_id set" where
  "named_states (CStart v) = set_option v"
| "named_states (CTrs i ts) = nextstate ` set ts"
| "named_states (CFinal i w) = {i}"

definition trs_keys :: "'w cache_call list \<Rightarrow> state_id set" where
  "trs_keys calls = fst ` set (List.map_filter trs_call calls)"

definition final_keys :: "'w cache_call list \<Rightarrow> state_id set" where
  "final_keys calls = fst ` set (List.map_filter final_call calls)"

text \<open>The least number above all elements.\<close>

definition least_above :: "nat set \<Rightarrow> nat" where
  "least_above A = Max (insert 0 (Suc ` A))"

definition reads_log :: "('w, 'c) fst_cache \<Rightarrow> 'c \<Rightarrow> 'w cache_call list \<Rightarrow> bool" where
  "reads_log C c calls \<longleftrightarrow>
     fc_get_start C c = cs_from_option (last_start calls) \<and>
     (\<forall>i. fc_get_trs C i c = cs_from_option (last_trs calls i)) \<and>
     (\<forall>i. fc_get_final_weight C i c = cs_from_option (last_final calls i)) \<and>
     fc_num_known_states C c = least_above (\<Union>(named_states ` set calls)) \<and>
     fc_compute_num_known_trs C c = (\<Sum>i \<in> trs_keys calls. length (the (last_trs calls i))) \<and>
     (\<forall>i. fc_num_trs C i c = map_option length (last_trs calls i)) \<and>
     (\<forall>i. fc_num_input_epsilons C i c = map_option count_ieps (last_trs calls i)) \<and>
     (\<forall>i. fc_num_output_epsilons C i c = map_option count_oeps (last_trs calls i))"

lemma map_filter_snoc: "List.map_filter f (xs @ [x]) = List.map_filter f xs @ (case f x of None \<Rightarrow> [] | Some y \<Rightarrow> [y])"
  by (induction xs) (auto simp: List.map_filter_simps split: option.splits)

lemma last_snoc:
  "last_start (calls @ [op]) = (case op of CStart v \<Rightarrow> Some v | _ \<Rightarrow> last_start calls)"
  "last_trs (calls @ [op]) = (case op of CTrs i ts \<Rightarrow> (last_trs calls)(i \<mapsto> ts) | _ \<Rightarrow> last_trs calls)"
  "last_final (calls @ [op]) = (case op of CFinal i w \<Rightarrow> (last_final calls)(i \<mapsto> w) | _ \<Rightarrow> last_final calls)"
  "trs_keys (calls @ [op]) = (case op of CTrs i ts \<Rightarrow> insert i (trs_keys calls) | _ \<Rightarrow> trs_keys calls)"
  "final_keys (calls @ [op]) = (case op of CFinal i w \<Rightarrow> insert i (final_keys calls) | _ \<Rightarrow> final_keys calls)"
  by (cases op; simp add: last_start_def last_trs_def last_final_def trs_keys_def final_keys_def map_filter_snoc)+

lemma last_Nil [simp]:
  "last_start [] = None" "last_trs [] = Map.empty" "last_final [] = Map.empty" "trs_keys [] = {}" "final_keys [] = {}"
  by (simp_all add: last_start_def last_trs_def last_final_def trs_keys_def final_keys_def List.map_filter_simps)

lemma keys_dom: "trs_keys calls = dom (last_trs calls)" "final_keys calls = dom (last_final calls)"
  by (simp_all add: trs_keys_def final_keys_def last_trs_def last_final_def dom_map_of_conv_image_fst)

lemma finite_keys [simp]: "finite (trs_keys calls)" "finite (final_keys calls)"
  by (simp_all add: trs_keys_def final_keys_def)

lemma least_above_insert: "finite A \<Longrightarrow> least_above (insert x A) = max (least_above A) (Suc x)"
proof -
  assume "finite A"
  then have "Max (insert (Suc x) (insert 0 (Suc ` A))) = max (Suc x) (Max (insert 0 (Suc ` A)))" by (intro Max_insert) auto
  then show ?thesis by (simp only: least_above_def image_insert insert_commute [of 0] max.commute [of "Suc x"])
qed

lemma least_above_Un: "finite B \<Longrightarrow> finite A \<Longrightarrow> least_above (A \<union> B) = max (least_above A) (least_above B)"
proof (induction B rule: finite_induct)
  case (insert x B)
  then show ?case by (simp add: least_above_insert max.assoc)
qed (simp add: least_above_def)

lemma least_above_empty [simp]: "least_above {} = 0"
  by (simp add: least_above_def)

lemma finite_named [simp]: "finite (named_states op)"
  by (cases op) auto

lemma least_above_snoc:
  "least_above (\<Union>(named_states ` set (calls @ [op]))) = max (least_above (\<Union>(named_states ` set calls))) (least_above (named_states op))"
  by (simp add: least_above_Un Un_commute max.commute)

lemma known_after_above: "known_after k ts = max k (least_above (nextstate ` set ts))"
  by (induction ts arbitrary: k) (auto simp: known_after_def least_above_insert)

lemma max_known:
  fixes s t f b :: nat
  assumes "max (max s t) f = b"
  shows "max (max (max s x) t) f = max b x" "max (max s (max t x)) f = max b x" "max (max s t) (max f x) = max b x"
  unfolding assms [symmetric] by linarith+

text \<open>The entry of a state.\<close>

definition trs_entry :: "'w tr list \<Rightarrow> 'w cache_trs" where
  "trs_entry ts = \<lparr>ct_trs = ts, ct_niepsilons = count_ieps ts, ct_noepsilons = count_oeps ts\<rparr>"

lemma trs_entry_simps [simp]:
  "ct_trs (trs_entry ts) = ts" "ct_niepsilons (trs_entry ts) = count_ieps ts" "ct_noepsilons (trs_entry ts) = count_oeps ts"
  by (simp_all add: trs_entry_def)

subsubsection \<open>The vector cache\<close>

abbreviation vec_run :: "'w cache_call list \<Rightarrow> 'w vec_cache_data" where
  "vec_run calls \<equiv> fold (run_call vec_cache) calls vec_cache_new"

abbreviation map_run :: "'w cache_call list \<Rightarrow> 'w map_cache_data" where
  "map_run calls \<equiv> fold (run_call map_cache) calls map_cache_new"

lemma length_vec_put: "length (vec_put i x xs) = max (length xs) (Suc i)"
  by (simp add: vec_put_def Let_def)

definition vec_log :: "'w vec_cache_data \<Rightarrow> 'w cache_call list \<Rightarrow> bool" where
  "vec_log c calls \<longleftrightarrow> cd_data (vc_start c) = cs_from_option (last_start calls) \<and>
     (\<forall>i. cd_get_vec (vc_trs c) i = cs_from_option (map_option trs_entry (last_trs calls i))) \<and>
     (\<forall>i. cd_get_vec (vc_final c) i = cs_from_option (last_final calls i)) \<and>
     max (max (cd_known (vc_start c)) (cd_known (vc_trs c))) (cd_known (vc_final c)) = least_above (\<Union>(named_states ` set calls)) \<and>
     length (cd_data (vc_trs c)) = least_above (trs_keys calls) \<and> length (cd_data (vc_final c)) = least_above (final_keys calls)"

lemma vec_log_step: "vec_log c calls \<Longrightarrow> vec_log (run_call vec_cache op c) (calls @ [op])"
proof (cases op)
  case (CStart v)
  assume "vec_log c calls"
  with CStart show ?thesis
    by (cases v) (simp_all add: vec_log_def least_above_snoc last_snoc vec_cache_def insert_start_data_def least_above_insert max.commute
      max.left_commute max.assoc)
next
  case (CTrs i ts)
  assume c: "vec_log c calls"
  have "cd_get_vec (vc_trs (vc_insert_trs i ts c)) j = cs_from_option (map_option trs_entry (last_trs (calls @ [op]) j))" for j
    using c CTrs by (simp add: vec_log_def vc_get_trs last_snoc trs_entry_def)
  then have t: "run_call vec_cache op c = vc_insert_trs i ts c"
    "\<forall>j. cd_get_vec (vc_trs (vc_insert_trs i ts c)) j = cs_from_option (map_option trs_entry (last_trs (calls @ [op]) j))"
    using CTrs by (simp_all add: vec_cache_def)
  have k: "cd_known (vc_trs (vc_insert_trs i ts c)) = max (cd_known (vc_trs c)) (least_above (named_states op))"
    "length (cd_data (vc_trs (vc_insert_trs i ts c))) = max (length (cd_data (vc_trs c))) (Suc i)"
    using CTrs by (simp_all add: vc_insert_trs known_after_above length_vec_put)
  note m = max_known [of "cd_known (vc_start c)" "cd_known (vc_trs c)" "cd_known (vc_final c)" "least_above (\<Union>(named_states ` set calls))"]
  show ?thesis
    unfolding vec_log_def t(1) least_above_snoc using c t(2) CTrs
    by (simp add: vec_log_def k last_snoc least_above_insert m del: named_states.simps)
next
  case (CFinal i w)
  assume c: "vec_log c calls"
  then have t: "run_call vec_cache op c = vc_insert_final i w c"
    "\<forall>j. cd_get_vec (vc_final (vc_insert_final i w c)) j = cs_from_option (last_final (calls @ [op]) j)"
    using CFinal by (simp_all add: vec_cache_def vec_log_def vc_get_final last_snoc)
  have k: "cd_known (vc_final (vc_insert_final i w c)) = max (cd_known (vc_final c)) (least_above (named_states op))"
    "length (cd_data (vc_final (vc_insert_final i w c))) = max (length (cd_data (vc_final c))) (Suc i)"
    using CFinal by (simp_all add: vc_insert_final_def length_vec_put least_above_insert)
  note m = max_known [of "cd_known (vc_start c)" "cd_known (vc_trs c)" "cd_known (vc_final c)" "least_above (\<Union>(named_states ` set calls))"]
  show ?thesis
    unfolding vec_log_def t(1) least_above_snoc using c t(2) CFinal
    by (simp add: vec_log_def k last_snoc least_above_insert m del: named_states.simps)
qed

lemma vec_run_log: "vec_log (vec_run calls) calls"
proof (induction calls rule: rev_induct)
  case Nil
  then show ?case by (simp add: vec_log_def vec_cache_new_def)
next
  case (snoc op calls)
  from vec_log_step [OF this] show ?case by simp
qed

lemma sum_list_slots:
  fixes f :: "'a \<Rightarrow> nat"
  shows "sum_list (map f (List.map_filter cs_into_option xs)) =
   (\<Sum>i < length xs. case xs ! i of Computed e \<Rightarrow> f e | NotComputed \<Rightarrow> 0)"
proof (induction xs rule: rev_induct)
  case (snoc x xs)
  have "(\<Sum>i < length xs. case (xs @ [x]) ! i of Computed e \<Rightarrow> f e | NotComputed \<Rightarrow> 0) =
      (\<Sum>i < length xs. case xs ! i of Computed e \<Rightarrow> f e | NotComputed \<Rightarrow> 0)"
    by (rule sum.cong) (simp_all add: nth_append)
  with snoc show ?case by (cases x) (simp_all add: map_filter_snoc)
qed (simp add: List.map_filter_simps)

lemma vec_log_trs:
  assumes c: "vec_log c calls"
  shows "vc_compute_num_known_trs c = (\<Sum>i \<in> trs_keys calls. length (the (last_trs calls i)))"
proof -
  let ?xs = "cd_data (vc_trs c)"
  have slot: "cd_get_vec (vc_trs c) i = cs_from_option (map_option trs_entry (last_trs calls i))" for i
    using c by (simp add: vec_log_def)
  have nth: "(case ?xs ! i of Computed e \<Rightarrow> length (ct_trs e) | NotComputed \<Rightarrow> 0) =
      (if i \<in> trs_keys calls then length (the (last_trs calls i)) else 0)" if "i < length ?xs" for i
  proof -
    have "?xs ! i = cs_from_option (map_option trs_entry (last_trs calls i))"
      using slot [of i] that by (simp add: cd_get_vec_def vec_get_def)
    then show ?thesis by (cases "last_trs calls i") (simp_all add: keys_dom dom_def)
  qed
  have sub: "trs_keys calls \<subseteq> {..< length ?xs}"
  proof
    fix i assume "i \<in> trs_keys calls"
    then have "cd_get_vec (vc_trs c) i \<noteq> NotComputed" using slot [of i] by (auto simp: keys_dom)
    then show "i \<in> {..< length ?xs}" by (auto simp: cd_get_vec_def vec_get_def split: if_splits)
  qed
  have "vc_compute_num_known_trs c = (\<Sum>i < length ?xs. if i \<in> trs_keys calls then length (the (last_trs calls i)) else 0)"
    using nth by (simp add: vc_compute_num_known_trs_def sum_list_slots)
  also have "\<dots> = (\<Sum>i \<in> trs_keys calls. length (the (last_trs calls i)))"
    using sub by (simp add: sum.If_cases inf.absorb2)
  finally show ?thesis .
qed

lemma vec_log_reads: "vec_log c calls \<Longrightarrow> reads_log vec_cache c calls"
  using vec_log_trs [of c calls]
  by (simp add: reads_log_def vec_log_def vec_cache_def cs_option_inverse option.map_comp comp_def option.map_ident)

subsubsection \<open>The hash-map cache\<close>

definition map_log :: "'w map_cache_data \<Rightarrow> 'w cache_call list \<Rightarrow> bool" where
  "map_log c calls \<longleftrightarrow> cd_data (mc_start c) = cs_from_option (last_start calls) \<and>
     (\<forall>i. cd_get_map (mc_trs c) i = map_option trs_entry (last_trs calls i)) \<and>
     (\<forall>i. cd_get_map (mc_final c) i = last_final calls i) \<and>
     distinct (map fst (cd_data (mc_trs c))) \<and> distinct (map fst (cd_data (mc_final c))) \<and>
     max (max (cd_known (mc_start c)) (cd_known (mc_trs c))) (cd_known (mc_final c)) = least_above (\<Union>(named_states ` set calls))"

lemma map_log_step: "map_log c calls \<Longrightarrow> map_log (run_call map_cache op c) (calls @ [op])"
proof (cases op)
  case (CStart v)
  assume "map_log c calls"
  with CStart show ?thesis
    by (cases v) (simp_all add: map_log_def least_above_snoc last_snoc map_cache_def insert_start_data_def least_above_insert max.commute
      max.left_commute max.assoc)
next
  case (CTrs i ts)
  assume c: "map_log c calls"
  have t: "run_call map_cache op c = mc_insert_trs i ts c" using CTrs by (simp add: map_cache_def)
  have k: "cd_known (mc_trs (mc_insert_trs i ts c)) = max (cd_known (mc_trs c)) (least_above (named_states op))"
    "distinct (map fst (cd_data (mc_trs (mc_insert_trs i ts c)))) = distinct (map fst (cd_data (mc_trs c)))"
    using CTrs c by (simp_all add: mc_insert_trs known_after_above distinct_update map_log_def)
  note m = max_known [of "cd_known (mc_start c)" "cd_known (mc_trs c)" "cd_known (mc_final c)" "least_above (\<Union>(named_states ` set calls))"]
  show ?thesis
    unfolding map_log_def t(1) least_above_snoc using c CTrs
    by (simp add: map_log_def k mc_get_trs trs_entry_def last_snoc m del: named_states.simps)
next
  case (CFinal i w)
  assume c: "map_log c calls"
  have t: "run_call map_cache op c = mc_insert_final i w c" using CFinal by (simp add: map_cache_def)
  have k: "cd_known (mc_final (mc_insert_final i w c)) = max (cd_known (mc_final c)) (least_above (named_states op))"
    "distinct (map fst (cd_data (mc_final (mc_insert_final i w c)))) = distinct (map fst (cd_data (mc_final c)))"
    using CFinal c by (simp_all add: mc_insert_final_def distinct_update map_log_def least_above_insert)
  note m = max_known [of "cd_known (mc_start c)" "cd_known (mc_trs c)" "cd_known (mc_final c)" "least_above (\<Union>(named_states ` set calls))"]
  show ?thesis
    unfolding map_log_def t(1) least_above_snoc using c CFinal
    by (simp add: map_log_def k mc_get_final last_snoc m del: named_states.simps)
qed

lemma map_run_log: "map_log (map_run calls) calls"
proof (induction calls rule: rev_induct)
  case Nil
  then show ?case by (simp add: map_log_def map_cache_new_def)
next
  case (snoc op calls)
  from map_log_step [OF this] show ?case by simp
qed

lemma map_log_keys:
  assumes c: "map_log c calls"
  shows "fst ` set (cd_data (mc_trs c)) = trs_keys calls" "length (cd_data (mc_trs c)) = card (trs_keys calls)"
    "length (cd_data (mc_final c)) = card (final_keys calls)"
proof -
  have d: "distinct (map fst (cd_data (mc_trs c)))" "distinct (map fst (cd_data (mc_final c)))"
    "dom (map_of (cd_data (mc_trs c))) = trs_keys calls" "dom (map_of (cd_data (mc_final c))) = final_keys calls"
    using c by (auto simp: map_log_def keys_dom cd_get_map_def)
  then show "fst ` set (cd_data (mc_trs c)) = trs_keys calls" by (simp add: dom_map_of_conv_image_fst)
  have f: "fst ` set (cd_data (mc_final c)) = final_keys calls" using d(4) by (simp add: dom_map_of_conv_image_fst)
  show "length (cd_data (mc_trs c)) = card (trs_keys calls)"
    using distinct_card [OF d(1)] d(3) by (simp add: dom_map_of_conv_image_fst)
  show "length (cd_data (mc_final c)) = card (final_keys calls)"
    using distinct_card [OF d(2)] f by simp
qed

lemma sum_list_alist:
  fixes f :: "'a \<Rightarrow> nat"
  assumes "distinct (map fst xs)"
  shows "sum_list (map (\<lambda>e. f (snd e)) xs) = (\<Sum>k \<in> fst ` set xs. f (the (map_of xs k)))"
  using assms
proof (induction xs)
  case (Cons x xs)
  then have "(\<Sum>k \<in> fst ` set xs. f (the (map_of (x # xs) k))) = (\<Sum>k \<in> fst ` set xs. f (the (map_of xs k)))"
    by (intro sum.cong) (auto simp: image_iff)
  with Cons show ?case by (cases x) simp
qed simp

lemma map_log_reads: "map_log c calls \<Longrightarrow> reads_log map_cache c calls"
proof -
  assume c: "map_log c calls"
  have "mc_compute_num_known_trs c = (\<Sum>k \<in> trs_keys calls. length (ct_trs (the (map_of (cd_data (mc_trs c)) k))))"
    using sum_list_alist [of "cd_data (mc_trs c)" "\<lambda>e. length (ct_trs e)"] c map_log_keys(1) [OF c]
    by (simp add: mc_compute_num_known_trs_def map_log_def)
  also have "\<dots> = (\<Sum>i \<in> trs_keys calls. length (the (last_trs calls i)))"
    using c by (intro sum.cong) (auto simp: keys_dom map_log_def cd_get_map_def)
  finally have n: "mc_compute_num_known_trs c = (\<Sum>i \<in> trs_keys calls. length (the (last_trs calls i)))" .
  have d: "(case x of None \<Rightarrow> NotComputed | Some e \<Rightarrow> Computed (f e)) = cs_from_option (map_option f x)"
    for f :: "'e \<Rightarrow> 'f" and x by (cases x) simp_all
  have d': "(case x of None \<Rightarrow> NotComputed | Some e \<Rightarrow> Computed e) = cs_from_option x" for x :: "'e option"
    by (cases x) simp_all
  show ?thesis
    using c n by (simp add: reads_log_def map_log_def map_cache_def d d' option.map_comp comp_def option.map_ident)
qed

subsubsection \<open>The sizes of the tables\<close>

lemma vec_log_sizes:
  "vec_log c calls \<Longrightarrow> fc_len_trs vec_cache c = least_above (trs_keys calls) \<and> fc_len_final_weights vec_cache c = least_above (final_keys calls)"
  by (simp add: vec_log_def vec_cache_def)

lemma map_log_sizes:
  "map_log c calls \<Longrightarrow> fc_len_trs map_cache c = card (trs_keys calls) \<and> fc_len_final_weights map_cache c = card (final_keys calls)"
  using map_log_keys(2,3) [of c calls] by (simp add: map_cache_def)

end
