(* ===== verification/Lazy_Compute.thy ===== *)
theory Lazy_Compute
  imports State_Sort Lazy_Cache
begin

text \<open>
  Lazy transducers (\<open>algorithms/lazy\<close>): the trait \<open>FstOp\<close> as a record of operations on an operation
  state, \<open>LazyFst\<close> over any operation and cache, and \<open>compute_bounded\<close>, which materialises one into a
  \<open>VectorFst\<close>; with the state table that numbers tuples. \<open>Lazy_Sound\<close> states the contract of an
  operation whose states are interned tuples; it gives that the materialisation returns, what it
  contains and what the two budgets do.
\<close>

subsection \<open>Operations\<close>

record ('w, 'st) fst_op =
  op_compute_start :: "'st \<Rightarrow> (state_id option \<times> 'st) res"
  op_compute_trs :: "state_id \<Rightarrow> 'st \<Rightarrow> ('w tr list \<times> 'st) res"
  op_compute_final_weight :: "state_id \<Rightarrow> 'st \<Rightarrow> ('w option \<times> 'st) res"
  op_properties :: fst_props

record ('st, 'c) lazy_fst =
  lz_cache :: 'c
  lz_op :: 'st
  lz_isymt :: "symt option"
  lz_osymt :: "symt option"

definition from_op_and_cache :: "'st \<Rightarrow> 'c \<Rightarrow> symt option \<Rightarrow> symt option \<Rightarrow> ('st, 'c) lazy_fst" where
  "from_op_and_cache st c isy osy = \<lparr>lz_cache = c, lz_op = st, lz_isymt = isy, lz_osymt = osy\<rparr>"

definition lazy_start ::
  "('w, 'st) fst_op \<Rightarrow> ('w, 'c) fst_cache \<Rightarrow> ('st, 'c) lazy_fst \<Rightarrow> (state_id option \<times> ('st, 'c) lazy_fst) res" where
  "lazy_start op C l = (case fc_get_start C (lz_cache l) of
     Computed start \<Rightarrow> Inr (start, l)
   | NotComputed \<Rightarrow> rbind (runwrap (op_compute_start op (lz_op l))) (\<lambda>(start, st).
       Inr (start, l\<lparr>lz_op := st, lz_cache := fc_insert_start C start (lz_cache l)\<rparr>)))"

definition lazy_final_weight ::
  "('w, 'st) fst_op \<Rightarrow> ('w, 'c) fst_cache \<Rightarrow> state_id \<Rightarrow> ('st, 'c) lazy_fst \<Rightarrow> ('w option \<times> ('st, 'c) lazy_fst) res" where
  "lazy_final_weight op C s l = (case fc_get_final_weight C s (lz_cache l) of
     Computed w \<Rightarrow> Inr (w, l)
   | NotComputed \<Rightarrow> rbind (op_compute_final_weight op s (lz_op l)) (\<lambda>(w, st).
       Inr (w, l\<lparr>lz_op := st, lz_cache := fc_insert_final_weight C s w (lz_cache l)\<rparr>)))"

definition lazy_get_trs ::
  "('w, 'st) fst_op \<Rightarrow> ('w, 'c) fst_cache \<Rightarrow> state_id \<Rightarrow> ('st, 'c) lazy_fst \<Rightarrow> ('w tr list \<times> ('st, 'c) lazy_fst) res" where
  "lazy_get_trs op C s l = (case fc_get_trs C s (lz_cache l) of
     Computed ts \<Rightarrow> Inr (ts, l)
   | NotComputed \<Rightarrow> rbind (op_compute_trs op s (lz_op l)) (\<lambda>(ts, st).
       Inr (ts, l\<lparr>lz_op := st, lz_cache := fc_insert_trs C s ts (lz_cache l)\<rparr>)))"

definition of_known :: "'a option \<Rightarrow> 'a res" where
  "of_known v = (case v of Some x \<Rightarrow> Inr x | None \<Rightarrow> no_state)"

definition lazy_num_trs :: "('w, 'c) fst_cache \<Rightarrow> state_id \<Rightarrow> ('st, 'c) lazy_fst \<Rightarrow> nat res" where
  "lazy_num_trs C s l = of_known (fc_num_trs C s (lz_cache l))"

definition lazy_num_input_epsilons :: "('w, 'c) fst_cache \<Rightarrow> state_id \<Rightarrow> ('st, 'c) lazy_fst \<Rightarrow> nat res" where
  "lazy_num_input_epsilons C s l = of_known (fc_num_input_epsilons C s (lz_cache l))"

definition lazy_num_output_epsilons :: "('w, 'c) fst_cache \<Rightarrow> state_id \<Rightarrow> ('st, 'c) lazy_fst \<Rightarrow> nat res" where
  "lazy_num_output_epsilons C s l = of_known (fc_num_output_epsilons C s (lz_cache l))"

text \<open>The state iterator: a state is produced once a predecessor has been expanded.\<close>

definition lazy_states_next ::
  "('w, 'st) fst_op \<Rightarrow> ('w, 'c) fst_cache \<Rightarrow> state_id \<Rightarrow> ('st, 'c) lazy_fst \<Rightarrow>
   ((state_id \<times> state_id \<times> ('st, 'c) lazy_fst) option) res" where
  "lazy_states_next op C s l =
     (if s < fc_num_known_states C (lz_cache l)
      then rbind (runwrap (lazy_get_trs op C s l)) (\<lambda>(ts, l). Inr (Some (s, s + 1, l)))
      else Inr None)"

subsection \<open>The state table\<close>

text \<open>\<open>BiHashMap\<close>: the two directions, the ids in the order of insertion.\<close>

record 'k bi_map =
  tuple_to_id :: "'k \<Rightarrow> state_id option"
  id_to_tuple :: "'k list"

definition bi_map_new :: "'k bi_map" where
  "bi_map_new = \<lparr>tuple_to_id = (\<lambda>_. None), id_to_tuple = []\<rparr>"

definition table_id_or_insert :: "'k \<Rightarrow> 'k bi_map \<Rightarrow> state_id \<times> 'k bi_map" where
  "table_id_or_insert k t = (case tuple_to_id t k of
     Some i \<Rightarrow> (i, t)
   | None \<Rightarrow> (let n = length (id_to_tuple t)
       in (n, t\<lparr>id_to_tuple := id_to_tuple t @ [k], tuple_to_id := (tuple_to_id t)(k := Some n)\<rparr>)))"

definition get_tuple_unchecked :: "state_id \<Rightarrow> 'k bi_map \<Rightarrow> 'k res" where
  "get_tuple_unchecked i t = vec_index (id_to_tuple t) i"

definition bi_map_ok :: "'k bi_map \<Rightarrow> bool" where
  "bi_map_ok t \<longleftrightarrow> (\<forall>k i. tuple_to_id t k = Some i \<longleftrightarrow> i < length (id_to_tuple t) \<and> id_to_tuple t ! i = k)"

lemma bi_map_new_ok: "bi_map_ok bi_map_new"
  by (simp add: bi_map_ok_def bi_map_new_def)

lemma bi_map_distinct: "bi_map_ok t \<Longrightarrow> distinct (id_to_tuple t)"
  unfolding bi_map_ok_def distinct_conv_nth by (metis option.inject)

lemma bi_map_lookup: "bi_map_ok t \<Longrightarrow> i < length (id_to_tuple t) \<Longrightarrow> tuple_to_id t (id_to_tuple t ! i) = Some i"
  by (simp add: bi_map_ok_def)

lemma tuple_unknown: "bi_map_ok t \<Longrightarrow> tuple_to_id t k = None \<longleftrightarrow> k \<notin> set (id_to_tuple t)"
proof -
  assume t: "bi_map_ok t"
  have "(\<exists>i. tuple_to_id t k = Some i) \<longleftrightarrow> k \<in> set (id_to_tuple t)"
    using t by (auto simp: bi_map_ok_def in_set_conv_nth)
  then show ?thesis by auto
qed

text \<open>Interning: the id now stands for the tuple, old ids keep their meaning.\<close>

lemma table_id_or_insert:
  assumes t: "bi_map_ok t" and g: "table_id_or_insert k t = (i, u)"
  shows "bi_map_ok u" "i < length (id_to_tuple u)" "id_to_tuple u ! i = k"
    "id_to_tuple u = (if k \<in> set (id_to_tuple t) then id_to_tuple t else id_to_tuple t @ [k])"
proof -
  have "bi_map_ok u \<and> i < length (id_to_tuple u) \<and> id_to_tuple u ! i = k \<and>
    id_to_tuple u = (if k \<in> set (id_to_tuple t) then id_to_tuple t else id_to_tuple t @ [k])"
  proof (cases "tuple_to_id t k")
    case (Some j)
    then have "i = j" "u = t" "k \<in> set (id_to_tuple t)" using g tuple_unknown [OF t, of k]
      by (auto simp: table_id_or_insert_def)
    with t Some show ?thesis by (simp add: bi_map_ok_def)
  next
    case None
    then have n: "k \<notin> set (id_to_tuple t)" using tuple_unknown [OF t] by blast
    from None g have u: "i = length (id_to_tuple t)"
      "u = t\<lparr>id_to_tuple := id_to_tuple t @ [k], tuple_to_id := (tuple_to_id t)(k := Some (length (id_to_tuple t)))\<rparr>"
      by (auto simp: table_id_or_insert_def Let_def)
    have "id_to_tuple t ! j \<noteq> k" if "j < length (id_to_tuple t)" for j using n that by auto
    with t have "bi_map_ok u" unfolding bi_map_ok_def u(2) by (auto simp: nth_append less_Suc_eq)
    with u n show ?thesis by simp
  qed
  then show "bi_map_ok u" "i < length (id_to_tuple u)" "id_to_tuple u ! i = k"
    "id_to_tuple u = (if k \<in> set (id_to_tuple t) then id_to_tuple t else id_to_tuple t @ [k])" by blast+
qed

subsection \<open>Materialising\<close>

text \<open>
  The loop's local variables. \<open>usize::saturating_add\<close> keeps the transition count; \<open>usize\<close> has 64 bits.
\<close>

record ('w, 'st, 'c) comp_state =
  cb_lazy :: "('st, 'c) lazy_fst"
  cb_out :: "'w vfst"
  cb_queue :: "state_id list"
  cb_visited :: "bool list"
  cb_discovered :: nat
  cb_num_trs :: nat

definition usize_max :: nat where "usize_max = 2 ^ 64 - 1"

definition usize_sat_add :: "nat \<Rightarrow> nat \<Rightarrow> nat" where
  "usize_sat_add a b = min (a + b) usize_max"

definition tr_limit_exceeded :: rust_error where
  "tr_limit_exceeded = Bail ''compute_bounded: transition budget exceeded''"

definition state_budget_exceeded :: rust_error where
  "state_budget_exceeded = Bail ''compute_bounded: state budget exceeded (lazy FST did not converge)''"

definition over :: "nat option \<Rightarrow> nat \<Rightarrow> bool" where
  "over bound n = (case bound of Some b \<Rightarrow> n > b | None \<Rightarrow> False)"

text \<open>One transition of the state being expanded.\<close>

definition cb_visit :: "nat option \<Rightarrow> state_id \<Rightarrow> ('w, 'st, 'c) comp_state \<Rightarrow> ('w, 'st, 'c) comp_state res" where
  "cb_visit max_states k st =
     (let st = (if k \<ge> length (cb_visited st) then st\<lparr>cb_visited := vec_resize (cb_visited st) (k + 1) False\<rparr> else st)
      in if \<not> cb_visited st ! k
         then let st = st\<lparr>cb_queue := cb_queue st @ [k], cb_visited := (cb_visited st)[k := True],
                          cb_discovered := cb_discovered st + 1\<rparr>
              in if over max_states (cb_discovered st) then Inl state_budget_exceeded else Inr st
         else Inr st)"

definition cb_grow :: "state_id \<Rightarrow> ('w, 'st, 'c) comp_state \<Rightarrow> ('w, 'st, 'c) comp_state" where
  "cb_grow k st =
     (let n = num_states (cb_out st)
      in if k \<ge> n then st\<lparr>cb_out := add_states (cb_out st) (k - n + 1)\<rparr> else st)"

definition cb_tr :: "nat option \<Rightarrow> 'w tr \<Rightarrow> ('w, 'st, 'c) comp_state \<Rightarrow> ('w, 'st, 'c) comp_state res" where
  "cb_tr max_states t st = rbind (cb_visit max_states (nextstate t) st) (\<lambda>st. Inr (cb_grow (nextstate t) st))"

definition cb_count :: "nat option \<Rightarrow> nat \<Rightarrow> ('w, 'st, 'c) comp_state \<Rightarrow> ('w, 'st, 'c) comp_state res" where
  "cb_count max_trs n st = (case max_trs of
     Some b \<Rightarrow> let st = st\<lparr>cb_num_trs := usize_sat_add (cb_num_trs st) n\<rparr>
               in if cb_num_trs st > b then Inl tr_limit_exceeded else Inr st
   | None \<Rightarrow> Inr st)"

definition cb_finish ::
  "'w semiring \<Rightarrow> ('w, 'st) fst_op \<Rightarrow> ('w, 'c) fst_cache \<Rightarrow> state_id \<Rightarrow> ('w, 'st, 'c) comp_state \<Rightarrow>
   ('w, 'st, 'c) comp_state res" where
  "cb_finish W op C s st =
     rbind (lazy_final_weight op C s (cb_lazy st)) (\<lambda>(fw, l).
       let st = st\<lparr>cb_lazy := l\<rparr>
       in case fw of
            Some w \<Rightarrow> rbind (set_final W (cb_out st) s w) (\<lambda>out. Inr (st\<lparr>cb_out := out\<rparr>))
          | None \<Rightarrow> Inr st)"

definition cb_step ::
  "'w semiring \<Rightarrow> ('w, 'st) fst_op \<Rightarrow> ('w, 'c) fst_cache \<Rightarrow> nat option \<Rightarrow> nat option \<Rightarrow> state_id \<Rightarrow>
   ('w, 'st, 'c) comp_state \<Rightarrow> ('w, 'st, 'c) comp_state res" where
  "cb_step W op C max_states max_trs s st =
     rbind (lazy_get_trs op C s (cb_lazy st)) (\<lambda>(ts, l).
       rbind (cb_count max_trs (length ts) (st\<lparr>cb_lazy := l\<rparr>)) (\<lambda>st.
         rbind (for_res (cb_tr max_states) ts st) (\<lambda>st.
           cb_finish W op C s (st\<lparr>cb_out := set_trs_unchecked W (cb_out st) s ts\<rparr>))))"

partial_function (option) cb_loop ::
  "'w semiring \<Rightarrow> ('w, 'st) fst_op \<Rightarrow> ('w, 'c) fst_cache \<Rightarrow> nat option \<Rightarrow> nat option \<Rightarrow>
   ('w, 'st, 'c) comp_state \<Rightarrow> ('w, 'st, 'c) comp_state res option" where
  "cb_loop W op C max_states max_trs st =
     (case cb_queue st of
        [] \<Rightarrow> Some (Inr st)
      | s # q \<Rightarrow>
          (case cb_step W op C max_states max_trs s (st\<lparr>cb_queue := q\<rparr>) of
             Inl e \<Rightarrow> Some (Inl e)
           | Inr st' \<Rightarrow> cb_loop W op C max_states max_trs st'))"

declare cb_loop.simps [code]

definition cb_begin :: "'w vfst \<Rightarrow> state_id \<Rightarrow> ('st, 'c) lazy_fst \<Rightarrow> ('w, 'st, 'c) comp_state" where
  "cb_begin out s l = \<lparr>cb_lazy = l, cb_out = out, cb_queue = [s],
     cb_visited = (replicate (s + 1) False)[s := True], cb_discovered = 1, cb_num_trs = 0\<rparr>"

definition cb_result :: "('w, 'st) fst_op \<Rightarrow> ('w, 'st, 'c) comp_state \<Rightarrow> 'w vfst" where
  "cb_result op st =
     (let out = set_properties (cb_out st) (op_properties op);
          out = (case lz_isymt (cb_lazy st) of Some t \<Rightarrow> set_input_symbols out t | None \<Rightarrow> out)
      in case lz_osymt (cb_lazy st) of Some t \<Rightarrow> set_output_symbols out t | None \<Rightarrow> out)"

definition compute_bounded ::
  "'w semiring \<Rightarrow> ('w, 'st) fst_op \<Rightarrow> ('w, 'c) fst_cache \<Rightarrow> nat option \<Rightarrow> nat option \<Rightarrow>
   ('st, 'c) lazy_fst \<Rightarrow> 'w vfst res option" where
  "compute_bounded W op C max_states max_trs l =
     (case lazy_start op C l of
        Inl e \<Rightarrow> Some (Inl e)
      | Inr (None, l) \<Rightarrow> Some (Inr vfst_new)
      | Inr (Some s, l) \<Rightarrow>
          (case set_start (add_states vfst_new (s + 1)) s of
             Inl e \<Rightarrow> Some (Inl e)
           | Inr out \<Rightarrow>
               (case cb_loop W op C max_states max_trs (cb_begin out s l) of
                  None \<Rightarrow> None
                | Some (Inl e) \<Rightarrow> Some (Inl e)
                | Some (Inr st) \<Rightarrow> Some (Inr (cb_result op st)))))"

definition lazy_compute ::
  "'w semiring \<Rightarrow> ('w, 'st) fst_op \<Rightarrow> ('w, 'c) fst_cache \<Rightarrow> ('st, 'c) lazy_fst \<Rightarrow> 'w vfst res option" where
  "lazy_compute W op C l = compute_bounded W op C None None l"

end
