(* ===== verification/Compose_Matchers.thy ===== *)
theory Compose_Matchers
  imports Connect Tr_Sorting Lazy_Compute
begin

text \<open>
  Matchers (\<open>algorithms/compose/matchers\<close>): the trait \<open>Matcher\<close> as a record of operations,
  \<open>SortedMatcher\<close> with its iterator, \<open>SigmaMatcher\<close> over any matcher. The binary search
  \<open>lower_bound_by\<close> comes from the crate \<open>superslice\<close>; it is the parameter \<open>lb\<close>, with its documented
  meaning as the hypothesis \<open>lower_bound_spec\<close>. A Rust iterator is its \<open>next\<close> function; \<open>items\<close> runs it to its end.
\<close>

subsection \<open>The trait\<close>

datatype match_type = MatchInput | MatchOutput | MatchBoth | MatchNone | MatchUnknown

datatype rewrite_mode = MatcherRewriteAuto | MatcherRewriteAlways | MatcherRewriteNever

type_synonym matcher_flags = "32 word"

definition REQUIRE_MATCH :: matcher_flags where "REQUIRE_MATCH = 1"

definition REQUIRE_PRIORITY :: nat where "REQUIRE_PRIORITY = usize_max"

datatype 'w iter_item = ItemTr "'w tr" | ItemEpsLoop

definition eps_loop :: "'w semiring \<Rightarrow> state_id \<Rightarrow> match_type \<Rightarrow> 'w tr res" where
  "eps_loop W s mt = (case mt of
     MatchInput \<Rightarrow> Inr (tr_new NO_LABEL EPS_LABEL (one_w W) s)
   | MatchOutput \<Rightarrow> Inr (tr_new EPS_LABEL NO_LABEL (one_w W) s)
   | _ \<Rightarrow> Inl (Bail ''Unsupported match_type''))"

definition into_tr :: "'w semiring \<Rightarrow> 'w iter_item \<Rightarrow> state_id \<Rightarrow> match_type \<Rightarrow> 'w tr res" where
  "into_tr W it s mt = (case it of ItemTr t \<Rightarrow> Inr t | ItemEpsLoop \<Rightarrow> eps_loop W s mt)"

record 'w matcher =
  m_fst :: "'w vfst"
  m_iter :: "state_id \<Rightarrow> label \<Rightarrow> 'w iter_item list res"
  m_final_weight :: "state_id \<Rightarrow> 'w option res"
  m_match_type :: "bool \<Rightarrow> match_type res"
  m_flags :: matcher_flags
  m_priority :: "state_id \<Rightarrow> nat res"

text \<open>\<open>Fst::properties_check\<close>: the stored properties, if the given ones are known.\<close>

definition properties_check :: "'w vfst \<Rightarrow> fst_props \<Rightarrow> fst_props res" where
  "properties_check F known =
     (if knows (properties F) known then Inr (properties F) else Inl (Bail ''Properties are not known''))"

subsection \<open>SortedMatcher\<close>

definition lower_bound_spec :: "(('w tr \<Rightarrow> ordering) \<Rightarrow> 'w tr list \<Rightarrow> nat) \<Rightarrow> bool" where
  "lower_bound_spec lb \<longleftrightarrow> (\<forall>f ts. sorted_wrt (\<lambda>a b. f b = Less \<longrightarrow> f a = Less) ts \<longrightarrow>
     lb f ts = length (takeWhile (\<lambda>t. f t = Less) ts))"

record 'w sorted_iter =
  smi_trs :: "'w tr list"
  smi_match_label :: label
  smi_pos :: nat
  smi_current_loop :: bool
  smi_match_type :: match_type

definition bad_match_type :: rust_error where
  "bad_match_type = Panic ''Shouldn't happen''"

definition match_label_of :: "match_type \<Rightarrow> 'w tr \<Rightarrow> label res" where
  "match_label_of mt t = (case mt of MatchInput \<Rightarrow> Inr (ilabel t) | MatchOutput \<Rightarrow> Inr (olabel t) | _ \<Rightarrow> Inl bad_match_type)"

definition sorted_iter_new ::
  "(('w tr \<Rightarrow> ordering) \<Rightarrow> 'w tr list \<Rightarrow> nat) \<Rightarrow> 'w tr list \<Rightarrow> label \<Rightarrow> match_type \<Rightarrow> 'w sorted_iter res" where
  "sorted_iter_new lb ts match_label mt =
     (let current_loop = (match_label = EPS_LABEL);
          match_label = (if match_label = NO_LABEL then EPS_LABEL else match_label)
      in rbind (if current_loop then Inr 0
                else case mt of
                  MatchInput \<Rightarrow> Inr (lb (\<lambda>t. cmp_ord (ilabel t) match_label) ts)
                | MatchOutput \<Rightarrow> Inr (lb (\<lambda>t. cmp_ord (olabel t) match_label) ts)
                | _ \<Rightarrow> Inl bad_match_type)
           (\<lambda>pos. Inr \<lparr>smi_trs = ts, smi_match_label = match_label, smi_pos = pos, smi_current_loop = current_loop,
              smi_match_type = mt\<rparr>))"

definition sorted_next :: "'w sorted_iter \<Rightarrow> ('w iter_item option \<times> 'w sorted_iter) res" where
  "sorted_next it =
     (if smi_current_loop it then Inr (Some ItemEpsLoop, it\<lparr>smi_current_loop := False\<rparr>)
      else case vec_get (smi_trs it) (smi_pos it) of
        Some t \<Rightarrow> rbind (match_label_of (smi_match_type it) t) (\<lambda>l.
          if l = smi_match_label it then Inr (Some (ItemTr t), it\<lparr>smi_pos := smi_pos it + 1\<rparr>) else Inr (None, it))
      | None \<Rightarrow> Inr (None, it))"

lemma sorted_next_less:
  "sorted_next it = Inr (Some i, it') \<Longrightarrow>
   length (smi_trs it') - smi_pos it' + (if smi_current_loop it' then 1 else 0)
     < length (smi_trs it) - smi_pos it + (if smi_current_loop it then 1 else 0)"
  by (auto simp: sorted_next_def rbind_eq_Inr split: if_splits option.splits)

function sorted_items :: "'w sorted_iter \<Rightarrow> 'w iter_item list res" where
  "sorted_items it = rbind (sorted_next it) (\<lambda>(x, it'). case x of
     None \<Rightarrow> Inr [] | Some i \<Rightarrow> rbind (sorted_items it') (\<lambda>is. Inr (i # is)))"
  by pat_completeness auto

termination
  by (relation "measure (\<lambda>it. length (smi_trs it) - smi_pos it + (if smi_current_loop it then 1 else 0))")
    (auto dest!: sorted_next_less)

declare sorted_items.simps [simp del]

definition sorted_match_type :: "'w vfst \<Rightarrow> match_type \<Rightarrow> bool \<Rightarrow> match_type res" where
  "sorted_match_type F mt test =
     (if mt = MatchNone then Inr mt
      else let true_prop = (if mt = MatchInput then I_LABEL_SORTED else O_LABEL_SORTED);
               false_prop = (if mt = MatchInput then NOT_I_LABEL_SORTED else NOT_O_LABEL_SORTED)
           in rbind (if test then properties_check F (true_prop OR false_prop) else Inr (properties F)) (\<lambda>props.
                if props AND true_prop = true_prop then Inr mt
                else if props AND false_prop = false_prop then Inr MatchNone
                else Inr MatchUnknown))"

definition sorted_matcher ::
  "(('w tr \<Rightarrow> ordering) \<Rightarrow> 'w tr list \<Rightarrow> nat) \<Rightarrow> 'w vfst \<Rightarrow> match_type \<Rightarrow> 'w matcher" where
  "sorted_matcher lb F mt = \<lparr>
     m_fst = F,
     m_iter = (\<lambda>s l. rbind (get_trs F s) (\<lambda>ts. rbind (sorted_iter_new lb ts l mt) sorted_items)),
     m_final_weight = final_weight_of F,
     m_match_type = sorted_match_type F mt,
     m_flags = 0,
     m_priority = num_trs F\<rparr>"

subsection \<open>SigmaMatcher\<close>

record 'w sigma_matcher =
  sg_match_type :: match_type
  sg_sigma_label :: label
  sg_matcher :: "'w matcher"
  sg_rewrite_both :: bool
  sg_allowed :: "label list option"

definition has_sigma :: "state_id \<Rightarrow> 'w matcher \<Rightarrow> label \<Rightarrow> bool res" where
  "has_sigma s M sigma =
     (if sigma \<noteq> NO_LABEL then rbind (m_iter M s sigma) (\<lambda>is. Inr (is \<noteq> [])) else Inr False)"

definition sigma_matcher_new ::
  "match_type \<Rightarrow> label \<Rightarrow> rewrite_mode \<Rightarrow> 'w matcher \<Rightarrow> label list option \<Rightarrow> 'w sigma_matcher res" where
  "sigma_matcher_new mt sigma mode M allowed =
     (if mt = MatchBoth then Inl (Bail ''SigmaMatcher: Bad match type'')
      else if sigma = EPS_LABEL then Inl (Bail ''SigmaMatcher: epsilon cannot be used as sigma_label'')
      else Inr \<lparr>sg_match_type = mt, sg_sigma_label = sigma, sg_matcher = M,
        sg_rewrite_both = (case mode of
          MatcherRewriteAuto \<Rightarrow> properties (m_fst M) AND ACCEPTOR = ACCEPTOR
        | MatcherRewriteAlways \<Rightarrow> True
        | MatcherRewriteNever \<Rightarrow> False),
        sg_allowed = allowed\<rparr>)"

text \<open>The iterator; a \<open>Peekable\<close> is the list of its remaining items.\<close>

record 'w sigma_iter =
  sgi_state :: state_id
  sgi_match_label :: label
  sgi_sigma_label :: label
  sgi_match_type :: match_type
  sgi_matcher :: "'w matcher"
  sgi_find_empty :: bool
  sgi_sigma_match :: "label option"
  sgi_rest :: "'w iter_item list"
  sgi_has_sigma :: bool
  sgi_rewrite_both :: bool

definition is_match_label_allowed :: "label list option \<Rightarrow> label \<Rightarrow> bool" where
  "is_match_label_allowed allowed l = (case allowed of Some ls \<Rightarrow> l \<in> set ls | None \<Rightarrow> True)"

definition sigma_iter_new ::
  "state_id \<Rightarrow> label \<Rightarrow> label \<Rightarrow> match_type \<Rightarrow> 'w matcher \<Rightarrow> bool \<Rightarrow> label list option \<Rightarrow> 'w sigma_iter res" where
  "sigma_iter_new s l sigma mt M rewrite_both allowed =
     (if l = sigma \<and> sigma \<noteq> NO_LABEL then Inl (Bail ''SigmaMatcher::Find: bad label (sigma)'')
      else rbind (has_sigma s M sigma) (\<lambda>hs.
        rbind (m_iter M s l) (\<lambda>direct.
          rbind (if direct \<noteq> [] then Inr (False, Some NO_LABEL, direct)
                 else rbind (m_iter M s sigma) (\<lambda>via_sigma.
                   if hs \<and> l \<noteq> EPS_LABEL \<and> l \<noteq> NO_LABEL \<and> is_match_label_allowed allowed l \<and> via_sigma \<noteq> []
                   then Inr (False, Some l, via_sigma)
                   else Inr (True, None, via_sigma)))
            (\<lambda>(find_empty, sigma_match, rest).
              Inr \<lparr>sgi_state = s, sgi_match_label = l, sgi_sigma_label = sigma, sgi_match_type = mt, sgi_matcher = M,
                sgi_find_empty = find_empty, sgi_sigma_match = sigma_match, sgi_rest = rest,
                sgi_has_sigma = hs, sgi_rewrite_both = rewrite_both\<rparr>))))"

definition unwrap_opt :: "'a option \<Rightarrow> 'a res" where
  "unwrap_opt x = (case x of Some v \<Rightarrow> Inr v | None \<Rightarrow> Inl (Panic ''called Option::unwrap() on a None value''))"

definition rewrite_sigma :: "bool \<Rightarrow> match_type \<Rightarrow> label \<Rightarrow> label \<Rightarrow> 'w tr \<Rightarrow> 'w tr" where
  "rewrite_sigma both mt sigma l t =
     (if both
      then let t = (if ilabel t = sigma then t\<lparr>ilabel := l\<rparr> else t)
           in if olabel t = sigma then t\<lparr>olabel := l\<rparr> else t
      else if mt = MatchInput then t\<lparr>ilabel := l\<rparr>
      else t\<lparr>olabel := l\<rparr>)"

definition sigma_value :: "'w semiring \<Rightarrow> 'w sigma_iter \<Rightarrow> 'w iter_item res" where
  "sigma_value W it =
     rbind (unwrap_opt (sgi_sigma_match it)) (\<lambda>m.
       rbind (unwrap_opt (case sgi_rest it of [] \<Rightarrow> None | x # _ \<Rightarrow> Some x)) (\<lambda>x.
         if m = NO_LABEL then Inr x
         else rbind (runwrap (into_tr W x (sgi_state it) (sgi_match_type it))) (\<lambda>t.
           Inr (ItemTr (rewrite_sigma (sgi_rewrite_both it) (sgi_match_type it) (sgi_sigma_label it) m t)))))"

definition sigma_advance :: "'w sigma_iter \<Rightarrow> 'w sigma_iter res" where
  "sigma_advance it =
     (case sgi_rest it of
        x # xs \<Rightarrow> Inr (it\<lparr>sgi_rest := xs\<rparr>)
      | [] \<Rightarrow>
          if \<not> sgi_has_sigma it then Inr it
          else rbind (unwrap_opt (sgi_sigma_match it)) (\<lambda>m.
            if m = NO_LABEL \<and> sgi_match_label it > 0
            then rbind (runwrap (m_iter (sgi_matcher it) (sgi_state it) (sgi_sigma_label it))) (\<lambda>is.
              Inr (it\<lparr>sgi_rest := is, sgi_sigma_match := Some (sgi_match_label it)\<rparr>))
            else Inr it))"

definition sigma_next :: "'w semiring \<Rightarrow> 'w sigma_iter \<Rightarrow> ('w iter_item option \<times> 'w sigma_iter) res" where
  "sigma_next W it =
     (if sgi_find_empty it then Inr (None, it)
      else if sgi_rest it = [] then Inr (None, it)
      else rbind (sigma_value W it) (\<lambda>v. rbind (sigma_advance it) (\<lambda>it. Inr (Some v, it))))"

lemma sigma_next_less: "sigma_next W it = Inr (Some i, it') \<Longrightarrow> length (sgi_rest it') < length (sgi_rest it)"
  by (auto simp: sigma_next_def sigma_advance_def rbind_eq_Inr split: if_splits list.splits)

function sigma_items :: "'w semiring \<Rightarrow> 'w sigma_iter \<Rightarrow> 'w iter_item list res" where
  "sigma_items W it = rbind (sigma_next W it) (\<lambda>(x, it'). case x of
     None \<Rightarrow> Inr [] | Some i \<Rightarrow> rbind (sigma_items W it') (\<lambda>is. Inr (i # is)))"
  by pat_completeness auto

termination
  by (relation "measure (\<lambda>(W, it). length (sgi_rest it))") (auto dest!: sigma_next_less)

declare sigma_items.simps [simp del]

definition sigma_matcher_ops :: "'w semiring \<Rightarrow> 'w sigma_matcher \<Rightarrow> 'w matcher" where
  "sigma_matcher_ops W g = \<lparr>
     m_fst = m_fst (sg_matcher g),
     m_iter = (\<lambda>s l. rbind (sigma_iter_new s l (sg_sigma_label g) (sg_match_type g) (sg_matcher g)
        (sg_rewrite_both g) (sg_allowed g)) (sigma_items W)),
     m_final_weight = m_final_weight (sg_matcher g),
     m_match_type = m_match_type (sg_matcher g),
     m_flags = (if sg_sigma_label g = NO_LABEL \<or> sg_match_type g = MatchNone then m_flags (sg_matcher g)
        else m_flags (sg_matcher g) OR REQUIRE_MATCH),
     m_priority = (\<lambda>s. if sg_sigma_label g \<noteq> NO_LABEL
        then rbind (has_sigma s (sg_matcher g) (sg_sigma_label g)) (\<lambda>hs.
          if hs then Inr REQUIRE_PRIORITY else m_priority (sg_matcher g) s)
        else m_priority (sg_matcher g) s)\<rparr>"

subsection \<open>What the iterators return\<close>

definition side_label :: "match_type \<Rightarrow> 'w tr \<Rightarrow> label" where
  "side_label mt t = (if mt = MatchInput then ilabel t else olabel t)"

lemma cmp_ord_Less: "cmp_ord a b = Less \<longleftrightarrow> a < b"
  by (auto simp: cmp_ord_def)

lemma sorted_items_eq:
  assumes mt: "smi_match_type it = MatchInput \<or> smi_match_type it = MatchOutput"
  shows "sorted_items it = Inr ((if smi_current_loop it then [ItemEpsLoop] else []) @
    map ItemTr (takeWhile (\<lambda>t. side_label (smi_match_type it) t = smi_match_label it) (drop (smi_pos it) (smi_trs it))))"
  using assms
proof (induction it rule: sorted_items.induct)
  case (1 it)
  have l: "match_label_of (smi_match_type it) t = Inr (side_label (smi_match_type it) t)" for t
    using 1(2) by (auto simp: match_label_of_def side_label_def)
  show ?case
  proof (cases "smi_current_loop it")
    case True
    then have n: "sorted_next it = Inr (Some ItemEpsLoop, it\<lparr>smi_current_loop := False\<rparr>)" by (simp add: sorted_next_def)
    from 1(1) [OF n] 1(2) have "sorted_items (it\<lparr>smi_current_loop := False\<rparr>) = Inr (map ItemTr
      (takeWhile (\<lambda>t. side_label (smi_match_type it) t = smi_match_label it) (drop (smi_pos it) (smi_trs it))))" by simp
    with n True show ?thesis by (simp add: sorted_items.simps [of it])
  next
    case F: False
    show ?thesis
    proof (cases "smi_pos it < length (smi_trs it)")
      case False
      with F have "sorted_next it = Inr (None, it)" by (simp add: sorted_next_def vec_get_def)
      with F False show ?thesis by (simp add: sorted_items.simps [of it])
    next
      case True
      let ?t = "smi_trs it ! smi_pos it"
      have d: "drop (smi_pos it) (smi_trs it) = ?t # drop (smi_pos it + 1) (smi_trs it)"
        using True by (simp add: Cons_nth_drop_Suc)
      show ?thesis
      proof (cases "side_label (smi_match_type it) ?t = smi_match_label it")
        case False
        then have "sorted_next it = Inr (None, it)" using F True by (simp add: sorted_next_def vec_get_def l)
        with F False d show ?thesis by (simp add: sorted_items.simps [of it])
      next
        case m: True
        then have n: "sorted_next it = Inr (Some (ItemTr ?t), it\<lparr>smi_pos := smi_pos it + 1\<rparr>)"
          using F True by (simp add: sorted_next_def vec_get_def l)
        from 1(1) [OF n] 1(2) F have "sorted_items (it\<lparr>smi_pos := smi_pos it + 1\<rparr>) = Inr (map ItemTr
          (takeWhile (\<lambda>t. side_label (smi_match_type it) t = smi_match_label it) (drop (smi_pos it + 1) (smi_trs it))))"
          by simp
        with n m F d show ?thesis by (simp add: sorted_items.simps [of it])
      qed
    qed
  qed
qed

lemma takeWhile_sorted_filter:
  assumes "sorted (map f xs)"
  shows "takeWhile (\<lambda>x. f x = l) (dropWhile (\<lambda>x. f x < l) xs) = filter (\<lambda>x. f x = l) xs"
  using assms
proof (induction xs)
  case (Cons x xs)
  show ?case
  proof (cases "f x < l")
    case True
    with Cons show ?thesis by simp
  next
    case False
    then have ge: "\<forall>y \<in> set xs. \<not> f y < l" using Cons.prems by auto
    have d: "dropWhile (\<lambda>x. f x < l) xs = xs" using ge by (cases xs) auto
    show ?thesis
    proof (cases "f x = l")
      case True
      with Cons d False show ?thesis by simp
    next
      case n: False
      then have "\<forall>y \<in> set xs. f y \<noteq> l" using Cons.prems False by auto
      then have "filter (\<lambda>x. f x = l) xs = []" by simp
      with n False show ?thesis by simp
    qed
  qed
qed simp

text \<open>
  On transitions sorted by the label that is matched, the search returns the matching transitions in
  order; looking for epsilon adds the implicit loop first, and \<open>NO_LABEL\<close> finds the epsilons without it.
\<close>

lemma sorted_iter_items:
  assumes lb: "lower_bound_spec lb" and mt: "mt = MatchInput \<or> mt = MatchOutput"
    and s: "sorted (map (side_label mt) ts)"
  shows "rbind (sorted_iter_new lb ts l mt) sorted_items =
    Inr ((if l = EPS_LABEL then [ItemEpsLoop] else []) @
      map ItemTr (filter (\<lambda>t. side_label mt t = (if l = NO_LABEL then EPS_LABEL else l)) ts))"
proof -
  let ?l = "if l = NO_LABEL then EPS_LABEL else l"
  have pos: "lb (\<lambda>t. cmp_ord (side_label mt t) k) ts = length (takeWhile (\<lambda>t. side_label mt t < k) ts)" for k
  proof -
    have "sorted_wrt (\<lambda>a b. cmp_ord (side_label mt b) k = Less \<longrightarrow> cmp_ord (side_label mt a) k = Less) ts"
      using s unfolding sorted_map by (rule sorted_wrt_mono_rel [rotated]) (auto simp: cmp_ord_Less)
    with lb show ?thesis by (simp add: lower_bound_spec_def cmp_ord_Less)
  qed
  have eps: "filter (\<lambda>t. side_label mt t = EPS_LABEL) ts = takeWhile (\<lambda>t. side_label mt t = EPS_LABEL) ts"
    using takeWhile_sorted_filter [OF s, of EPS_LABEL] by (simp add: EPS_LABEL_def dropWhile_eq_self_iff)
  have it: "sorted_iter_new lb ts l mt = Inr \<lparr>smi_trs = ts, smi_match_label = ?l,
      smi_pos = (if l = EPS_LABEL then 0 else length (takeWhile (\<lambda>t. side_label mt t < ?l) ts)),
      smi_current_loop = (l = EPS_LABEL), smi_match_type = mt\<rparr>"
    using mt pos by (auto simp: sorted_iter_new_def side_label_def Let_def)
  have "takeWhile (\<lambda>t. side_label mt t = ?l) (drop (length (takeWhile (\<lambda>t. side_label mt t < ?l) ts)) ts) =
      filter (\<lambda>t. side_label mt t = ?l) ts"
    using takeWhile_sorted_filter [OF s, of ?l] by (simp only: dropWhile_eq_drop [symmetric])
  with mt eps show ?thesis by (simp add: it sorted_items_eq)
qed

text \<open>
  The items of a \<open>SigmaMatcher\<close>: the direct matches if there are any, and otherwise the sigma
  transitions, rewritten. The code that should continue with the sigma transitions after the direct
  matches tests the item just taken, which is never absent, so it does not run.
\<close>

lemma sigma_direct_items:
  "sgi_sigma_match it = Some NO_LABEL \<Longrightarrow> \<not> sgi_find_empty it \<Longrightarrow> sigma_items W it = Inr (sgi_rest it)"
proof (induction "sgi_rest it" arbitrary: it)
  case Nil
  then show ?case by (simp add: sigma_items.simps [of W it] sigma_next_def)
next
  case (Cons x xs)
  then have n: "sigma_next W it = Inr (Some x, it\<lparr>sgi_rest := xs\<rparr>)"
    by (simp add: sigma_next_def sigma_value_def sigma_advance_def unwrap_opt_def Cons.hyps(2) [symmetric])
  have "sigma_items W (it\<lparr>sgi_rest := xs\<rparr>) = Inr xs" using Cons.hyps(1) [of "it\<lparr>sgi_rest := xs\<rparr>"] Cons.prems by simp
  with n Cons.hyps(2) show ?case by (simp add: sigma_items.simps [of W it])
qed

lemma sigma_rewritten_items:
  "sgi_sigma_match it = Some l \<Longrightarrow> l \<noteq> NO_LABEL \<Longrightarrow> \<not> sgi_find_empty it \<Longrightarrow> sgi_rest it = map ItemTr ts \<Longrightarrow>
   sigma_items W it = Inr (map (\<lambda>t. ItemTr (rewrite_sigma (sgi_rewrite_both it) (sgi_match_type it) (sgi_sigma_label it) l t)) ts)"
proof (induction ts arbitrary: it)
  case Nil
  then show ?case by (simp add: sigma_items.simps [of W it] sigma_next_def)
next
  case (Cons t ts)
  then have n: "sigma_next W it = Inr (Some (ItemTr (rewrite_sigma (sgi_rewrite_both it) (sgi_match_type it)
      (sgi_sigma_label it) l t)), it\<lparr>sgi_rest := map ItemTr ts\<rparr>)"
    by (simp add: sigma_next_def sigma_value_def sigma_advance_def unwrap_opt_def into_tr_def)
  have "sigma_items W (it\<lparr>sgi_rest := map ItemTr ts\<rparr>) =
    Inr (map (\<lambda>t. ItemTr (rewrite_sigma (sgi_rewrite_both it) (sgi_match_type it) (sgi_sigma_label it) l t)) ts)"
    using Cons.IH [of "it\<lparr>sgi_rest := map ItemTr ts\<rparr>"] Cons.prems by simp
  with n show ?case by (simp add: sigma_items.simps [of W it])
qed

lemma sigma_loses_sigma_arcs:
  assumes "l \<noteq> sigma" "has_sigma s M sigma = Inr hs" "m_iter M s l = Inr direct" "direct \<noteq> []"
  shows "rbind (sigma_iter_new s l sigma mt M both allowed) (sigma_items W) = Inr direct"
  using assms by (simp add: sigma_iter_new_def sigma_direct_items)

end
