(* ===== verification/Compose_Filters.thy ===== *)
theory Compose_Filters
  imports Compose_Matchers
begin

text \<open>
  Composition filters (\<open>algorithms/compose/compose_filters\<close>, \<open>filter_states\<close>): the trait \<open>ComposeFilter\<close>
  as a record of operations on a filter's own variables, and its implementations. A filter decides
  which pairs of transitions may be taken together, so that a pair of paths with epsilons in the middle
  is not matched in several ways.
\<close>

subsection \<open>The trait\<close>

text \<open>
  \<open>IntegerFilterState\<close> wraps a state id, \<open>TrivialFilterState\<close> a boolean; \<open>cf_no_state\<close> is
  \<open>FilterState::new_no_state\<close> and \<open>cf_build\<close> is what the filter's builder builds. \<open>filter_tr\<close> may change
  the two transitions it is given.
\<close>

type_synonym integer_filter_state = state_id
type_synonym trivial_filter_state = bool

record ('w, 'fs, 'c) compose_filter =
  cf_no_state :: 'fs
  cf_build :: 'c
  cf_start :: 'fs
  cf_set_state :: "state_id \<Rightarrow> state_id \<Rightarrow> 'fs \<Rightarrow> 'c \<Rightarrow> 'c res"
  cf_filter_tr :: "'w tr \<Rightarrow> 'w tr \<Rightarrow> 'c \<Rightarrow> ('fs \<times> 'w tr \<times> 'w tr \<times> 'c) res"
  cf_filter_final :: "'w \<Rightarrow> 'w \<Rightarrow> 'c \<Rightarrow> ('w \<times> 'w) res"
  cf_matcher1 :: "'w matcher"
  cf_matcher2 :: "'w matcher"
  cf_properties :: "fst_props \<Rightarrow> fst_props"

definition is_final_res :: "'w vfst \<Rightarrow> state_id \<Rightarrow> bool res" where
  "is_final_res F s = rbind (final_weight_of F s) (\<lambda>w. Inr (w \<noteq> None))"

text \<open>The matchers a builder makes when it is given none.\<close>

definition default_matcher1 :: "(('w tr \<Rightarrow> ordering) \<Rightarrow> 'w tr list \<Rightarrow> nat) \<Rightarrow> 'w vfst \<Rightarrow> 'w matcher option \<Rightarrow> 'w matcher" where
  "default_matcher1 lb F m = (case m of Some m \<Rightarrow> m | None \<Rightarrow> sorted_matcher lb F MatchOutput)"

definition default_matcher2 :: "(('w tr \<Rightarrow> ordering) \<Rightarrow> 'w tr list \<Rightarrow> nat) \<Rightarrow> 'w vfst \<Rightarrow> 'w matcher option \<Rightarrow> 'w matcher" where
  "default_matcher2 lb F m = (case m of Some m \<Rightarrow> m | None \<Rightarrow> sorted_matcher lb F MatchInput)"

subsection \<open>Filters without a state\<close>

definition stateless_filter ::
  "('w tr \<Rightarrow> 'w tr \<Rightarrow> trivial_filter_state) \<Rightarrow> 'w matcher \<Rightarrow> 'w matcher \<Rightarrow> ('w, trivial_filter_state, unit) compose_filter" where
  "stateless_filter allow m1 m2 = \<lparr>
     cf_no_state = False, cf_build = (), cf_start = True,
     cf_set_state = (\<lambda>_ _ _ c. Inr c),
     cf_filter_tr = (\<lambda>arc1 arc2 c. Inr (allow arc1 arc2, arc1, arc2, c)),
     cf_filter_final = (\<lambda>w1 w2 _. Inr (w1, w2)),
     cf_matcher1 = m1, cf_matcher2 = m2, cf_properties = (\<lambda>p. p)\<rparr>"

definition null_allow :: "'w tr \<Rightarrow> 'w tr \<Rightarrow> bool" where
  "null_allow arc1 arc2 = (if olabel arc1 = NO_LABEL \<or> ilabel arc2 = NO_LABEL then False else True)"

definition null_filter :: "'w matcher \<Rightarrow> 'w matcher \<Rightarrow> ('w, trivial_filter_state, unit) compose_filter" where
  "null_filter = stateless_filter null_allow"

definition trivial_filter :: "'w matcher \<Rightarrow> 'w matcher \<Rightarrow> ('w, trivial_filter_state, unit) compose_filter" where
  "trivial_filter = stateless_filter (\<lambda>_ _. True)"

definition no_match_allow :: "'w tr \<Rightarrow> 'w tr \<Rightarrow> bool" where
  "no_match_allow arc1 arc2 \<longleftrightarrow> olabel arc1 \<noteq> EPS_LABEL \<or> ilabel arc2 \<noteq> EPS_LABEL"

definition no_match_filter :: "'w matcher \<Rightarrow> 'w matcher \<Rightarrow> ('w, trivial_filter_state, unit) compose_filter" where
  "no_match_filter = stateless_filter no_match_allow"

subsection \<open>SequenceComposeFilter\<close>

record sequence_filter_vars =
  sf_s1 :: state_id
  sf_s2 :: state_id
  sf_fs :: integer_filter_state
  sf_alleps1 :: bool
  sf_noeps1 :: bool

definition sequence_build :: sequence_filter_vars where
  "sequence_build = \<lparr>sf_s1 = NO_STATE_ID, sf_s2 = NO_STATE_ID, sf_fs = NO_STATE_ID, sf_alleps1 = False, sf_noeps1 = False\<rparr>"

definition sequence_set_state ::
  "'w vfst \<Rightarrow> state_id \<Rightarrow> state_id \<Rightarrow> integer_filter_state \<Rightarrow> sequence_filter_vars \<Rightarrow> sequence_filter_vars res" where
  "sequence_set_state F1 s1 s2 fs c =
     (if \<not> (sf_s1 c = s1 \<and> sf_s2 c = s2 \<and> sf_fs c = fs)
      then rbind (num_trs F1 s1) (\<lambda>na1. rbind (num_output_epsilons F1 s1) (\<lambda>ne1.
        rbind (is_final_res F1 s1) (\<lambda>fin1.
          Inr (c\<lparr>sf_s1 := s1, sf_s2 := s2, sf_fs := fs, sf_alleps1 := na1 = ne1 \<and> \<not> fin1, sf_noeps1 := ne1 = 0\<rparr>))))
      else Inr c)"

definition sequence_filter_tr :: "'w tr \<Rightarrow> 'w tr \<Rightarrow> sequence_filter_vars \<Rightarrow> integer_filter_state" where
  "sequence_filter_tr arc1 arc2 c =
     (if olabel arc1 = NO_LABEL
      then if sf_alleps1 c then NO_STATE_ID else if sf_noeps1 c then 0 else 1
      else if ilabel arc2 = NO_LABEL
      then if sf_fs c \<noteq> 0 then NO_STATE_ID else 0
      else if olabel arc1 = EPS_LABEL then NO_STATE_ID
      else 0)"

definition sequence_filter :: "'w matcher \<Rightarrow> 'w matcher \<Rightarrow> ('w, integer_filter_state, sequence_filter_vars) compose_filter" where
  "sequence_filter m1 m2 = \<lparr>
     cf_no_state = NO_STATE_ID, cf_build = sequence_build, cf_start = 0,
     cf_set_state = sequence_set_state (m_fst m1),
     cf_filter_tr = (\<lambda>arc1 arc2 c. Inr (sequence_filter_tr arc1 arc2 c, arc1, arc2, c)),
     cf_filter_final = (\<lambda>w1 w2 _. Inr (w1, w2)),
     cf_matcher1 = m1, cf_matcher2 = m2, cf_properties = (\<lambda>p. p)\<rparr>"

subsection \<open>AltSequenceComposeFilter\<close>

record alt_sequence_filter_vars =
  af_s1 :: state_id
  af_s2 :: state_id
  af_fs :: integer_filter_state
  af_alleps2 :: bool
  af_noeps2 :: bool

definition alt_sequence_build :: alt_sequence_filter_vars where
  "alt_sequence_build =
     \<lparr>af_s1 = NO_STATE_ID, af_s2 = NO_STATE_ID, af_fs = NO_STATE_ID, af_alleps2 = False, af_noeps2 = False\<rparr>"

definition alt_sequence_set_state ::
  "'w vfst \<Rightarrow> state_id \<Rightarrow> state_id \<Rightarrow> integer_filter_state \<Rightarrow> alt_sequence_filter_vars \<Rightarrow> alt_sequence_filter_vars res" where
  "alt_sequence_set_state F2 s1 s2 fs c =
     (if \<not> (af_s1 c = s1 \<and> af_s2 c = s2 \<and> af_fs c = fs)
      then rbind (num_trs F2 s2) (\<lambda>na2. rbind (num_input_epsilons F2 s2) (\<lambda>ne2.
        rbind (is_final_res F2 s2) (\<lambda>fin2.
          Inr (c\<lparr>af_s1 := s1, af_s2 := s2, af_fs := fs, af_alleps2 := na2 = ne2 \<and> \<not> fin2, af_noeps2 := ne2 = 0\<rparr>))))
      else Inr c)"

definition alt_sequence_filter_tr :: "'w tr \<Rightarrow> 'w tr \<Rightarrow> alt_sequence_filter_vars \<Rightarrow> integer_filter_state" where
  "alt_sequence_filter_tr arc1 arc2 c =
     (if ilabel arc2 = NO_LABEL
      then if af_alleps2 c then NO_STATE_ID else if af_noeps2 c then 0 else 1
      else if olabel arc1 = NO_LABEL
      then if af_fs c = 1 then NO_STATE_ID else 0
      else if olabel arc1 = EPS_LABEL then NO_STATE_ID
      else 0)"

definition alt_sequence_filter ::
  "'w matcher \<Rightarrow> 'w matcher \<Rightarrow> ('w, integer_filter_state, alt_sequence_filter_vars) compose_filter" where
  "alt_sequence_filter m1 m2 = \<lparr>
     cf_no_state = NO_STATE_ID, cf_build = alt_sequence_build, cf_start = 0,
     cf_set_state = alt_sequence_set_state (m_fst m2),
     cf_filter_tr = (\<lambda>arc1 arc2 c. Inr (alt_sequence_filter_tr arc1 arc2 c, arc1, arc2, c)),
     cf_filter_final = (\<lambda>w1 w2 _. Inr (w1, w2)),
     cf_matcher1 = m1, cf_matcher2 = m2, cf_properties = (\<lambda>p. p)\<rparr>"

subsection \<open>MatchComposeFilter\<close>

record match_filter_vars =
  mf_s1 :: state_id
  mf_s2 :: state_id
  mf_fs :: integer_filter_state
  mf_alleps1 :: bool
  mf_alleps2 :: bool
  mf_noeps1 :: bool
  mf_noeps2 :: bool

definition match_build :: match_filter_vars where
  "match_build = \<lparr>mf_s1 = NO_STATE_ID, mf_s2 = NO_STATE_ID, mf_fs = NO_STATE_ID,
     mf_alleps1 = False, mf_alleps2 = False, mf_noeps1 = False, mf_noeps2 = False\<rparr>"

definition match_set_state ::
  "'w vfst \<Rightarrow> 'w vfst \<Rightarrow> state_id \<Rightarrow> state_id \<Rightarrow> integer_filter_state \<Rightarrow> match_filter_vars \<Rightarrow> match_filter_vars res" where
  "match_set_state F1 F2 s1 s2 fs c =
     (if \<not> (mf_s1 c = s1 \<and> mf_s2 c = s2 \<and> mf_fs c = fs)
      then rbind (num_trs F1 s1) (\<lambda>na1. rbind (num_trs F2 s2) (\<lambda>na2.
        rbind (num_output_epsilons F1 s1) (\<lambda>ne1. rbind (num_input_epsilons F2 s2) (\<lambda>ne2.
          rbind (is_final_res F1 s1) (\<lambda>f1. rbind (is_final_res F2 s2) (\<lambda>f2.
            Inr (c\<lparr>mf_s1 := s1, mf_s2 := s2, mf_fs := fs,
              mf_alleps1 := na1 = ne1 \<and> \<not> f1, mf_alleps2 := na2 = ne2 \<and> \<not> f2,
              mf_noeps1 := ne1 = 0, mf_noeps2 := ne2 = 0\<rparr>)))))))
      else Inr c)"

definition match_filter_tr :: "'w tr \<Rightarrow> 'w tr \<Rightarrow> match_filter_vars \<Rightarrow> integer_filter_state" where
  "match_filter_tr arc1 arc2 c =
     (if ilabel arc2 = NO_LABEL
      then if mf_fs c = 0
           then if mf_noeps2 c then 0 else if mf_alleps2 c then NO_STATE_ID else 1
           else if mf_fs c = 1 then 1
           else NO_STATE_ID
      else if olabel arc1 = NO_LABEL
      then if mf_fs c = 0
           then if mf_noeps1 c then 0 else if mf_alleps1 c then NO_STATE_ID else 2
           else if mf_fs c = 2 then 2
           else NO_STATE_ID
      else if olabel arc1 = EPS_LABEL
      then if mf_fs c = 0 then 0 else NO_STATE_ID
      else 0)"

definition match_filter :: "'w matcher \<Rightarrow> 'w matcher \<Rightarrow> ('w, integer_filter_state, match_filter_vars) compose_filter" where
  "match_filter m1 m2 = \<lparr>
     cf_no_state = NO_STATE_ID, cf_build = match_build, cf_start = 0,
     cf_set_state = match_set_state (m_fst m1) (m_fst m2),
     cf_filter_tr = (\<lambda>arc1 arc2 c. Inr (match_filter_tr arc1 arc2 c, arc1, arc2, c)),
     cf_filter_final = (\<lambda>w1 w2 _. Inr (w1, w2)),
     cf_matcher1 = m1, cf_matcher2 = m2, cf_properties = (\<lambda>p. p)\<rparr>"

subsection \<open>MultiEpsFilter\<close>

text \<open>A filter around another that gives the implicit loops their partner's label.\<close>

definition multi_eps_filter_tr ::
  "('w, 'fs, 'c) compose_filter \<Rightarrow> bool \<Rightarrow> 'w tr \<Rightarrow> 'w tr \<Rightarrow> 'c \<Rightarrow> ('fs \<times> 'w tr \<times> 'w tr \<times> 'c) res" where
  "multi_eps_filter_tr f keep arc1 arc2 c =
     rbind (cf_filter_tr f arc1 arc2 c) (\<lambda>(fs, arc1, arc2, c).
       if keep
       then let arc1 = (if olabel arc1 = NO_LABEL then arc1\<lparr>ilabel := ilabel arc2\<rparr> else arc1);
                arc2 = (if ilabel arc2 = NO_LABEL then arc2\<lparr>olabel := olabel arc1\<rparr> else arc2)
            in Inr (fs, arc1, arc2, c)
       else Inr (fs, arc1, arc2, c))"

definition multi_eps_filter :: "('w, 'fs, 'c) compose_filter \<Rightarrow> bool \<Rightarrow> ('w, 'fs, 'c) compose_filter" where
  "multi_eps_filter f keep = f\<lparr>cf_filter_tr := multi_eps_filter_tr f keep,
     cf_properties := (\<lambda>p. cf_properties f p AND fp_i_label_invariant_properties AND fp_o_label_invariant_properties)\<rparr>"

subsection \<open>What a filter sees\<close>

text \<open>
  After \<open>set_state\<close> the variables hold the facts about the two states. \<open>all_eps\<close> and \<open>no_eps\<close> are the
  tests the filters make, on either side.
\<close>

definition all_eps :: "(('w tr) \<Rightarrow> label) \<Rightarrow> 'w vfst \<Rightarrow> state_id \<Rightarrow> bool" where
  "all_eps lab F s \<longleftrightarrow> (\<forall>t \<in> set (trs (state_of F s)). lab t = EPS_LABEL) \<and> final_weight (state_of F s) = None"

definition no_eps :: "(('w tr) \<Rightarrow> label) \<Rightarrow> 'w vfst \<Rightarrow> state_id \<Rightarrow> bool" where
  "no_eps lab F s \<longleftrightarrow> (\<forall>t \<in> set (trs (state_of F s)). lab t \<noteq> EPS_LABEL)"

lemma length_filter_all: "length xs = length (filter P xs) \<longleftrightarrow> (\<forall>x \<in> set xs. P x)"
proof -
  have "length (filter P xs) + length (filter (\<lambda>x. \<not> P x) xs) = length xs" by (rule sum_length_filter_compl)
  then have "length xs = length (filter P xs) \<longleftrightarrow> filter (\<lambda>x. \<not> P x) xs = []" by (metis add_cancel_right_right length_0_conv)
  then show ?thesis by (simp add: filter_empty_conv)
qed

lemma count_all_eps:
  "length ts = count_ieps ts \<longleftrightarrow> (\<forall>t \<in> set ts. ilabel t = EPS_LABEL)" "length ts = count_oeps ts \<longleftrightarrow> (\<forall>t \<in> set ts. olabel t = EPS_LABEL)"
  by (simp_all add: count_ieps_def count_oeps_def length_filter_all)

lemma count_no_eps:
  "count_ieps ts = 0 \<longleftrightarrow> (\<forall>t \<in> set ts. ilabel t \<noteq> EPS_LABEL)" "count_oeps ts = 0 \<longleftrightarrow> (\<forall>t \<in> set ts. olabel t \<noteq> EPS_LABEL)"
  by (simp_all add: count_ieps_def count_oeps_def filter_empty_conv)

lemma eps_tests:
  assumes F: "eps_counts_ok F" and s: "s < num_states F"
  shows "num_trs F s = Inr (length (trs (state_of F s)))" "is_final_res F s = Inr (final_weight (state_of F s) \<noteq> None)"
    "num_input_epsilons F s = Inr (count_ieps (trs (state_of F s)))"
    "num_output_epsilons F s = Inr (count_oeps (trs (state_of F s)))"
  using s eps_counts_state [OF F s]
  by (simp_all add: num_trs_def is_final_res_def final_weight_of_def num_input_epsilons_def num_output_epsilons_def state_counts_ok_def)

lemma sequence_set:
  assumes "eps_counts_ok F1" "s1 < num_states F1" "fs \<noteq> NO_STATE_ID"
  shows "sequence_set_state F1 s1 s2 fs sequence_build = Inr \<lparr>sf_s1 = s1, sf_s2 = s2, sf_fs = fs,
    sf_alleps1 = all_eps olabel F1 s1, sf_noeps1 = no_eps olabel F1 s1\<rparr>"
  using assms eps_tests [OF assms(1,2)]
  by (auto simp: sequence_set_state_def sequence_build_def all_eps_def no_eps_def count_all_eps count_no_eps)

lemma alt_sequence_set:
  assumes "eps_counts_ok F2" "s2 < num_states F2" "fs \<noteq> NO_STATE_ID"
  shows "alt_sequence_set_state F2 s1 s2 fs alt_sequence_build = Inr \<lparr>af_s1 = s1, af_s2 = s2, af_fs = fs,
    af_alleps2 = all_eps ilabel F2 s2, af_noeps2 = no_eps ilabel F2 s2\<rparr>"
  using assms eps_tests [OF assms(1,2)]
  by (auto simp: alt_sequence_set_state_def alt_sequence_build_def all_eps_def no_eps_def count_all_eps count_no_eps)

lemma match_set:
  assumes "eps_counts_ok F1" "s1 < num_states F1" "eps_counts_ok F2" "s2 < num_states F2" "fs \<noteq> NO_STATE_ID"
  shows "match_set_state F1 F2 s1 s2 fs match_build = Inr \<lparr>mf_s1 = s1, mf_s2 = s2, mf_fs = fs,
    mf_alleps1 = all_eps olabel F1 s1, mf_alleps2 = all_eps ilabel F2 s2,
    mf_noeps1 = no_eps olabel F1 s1, mf_noeps2 = no_eps ilabel F2 s2\<rparr>"
  using assms eps_tests [OF assms(1,2)] eps_tests [OF assms(3,4)]
  by (auto simp: match_set_state_def match_build_def all_eps_def no_eps_def count_all_eps count_no_eps)

end
