(* ===== verification/Compose_Op.thy ===== *)
theory Compose_Op
  imports Compose_Filters
begin

text \<open>
  Composition (\<open>algorithms/compose/compose_fst_op.rs\<close>, \<open>compose_fst.rs\<close>, \<open>compose_static.rs\<close>): the lazy
  operation whose states are triples of a filter state and a state of each operand, and the functions
  that materialise it. The operation keeps its triples in a \<open>StateTable\<close>
  (\<open>ComposeStateStore::Memory\<close>); the store that spills to disk is not modelled.
\<close>

subsection \<open>The operation\<close>

record 'fs compose_tuple =
  tup_fs :: 'fs
  tup_s1 :: state_id
  tup_s2 :: state_id

datatype selector = Fst1Matcher2 | Fst2Matcher1

record ('w, 'fs, 'c) compose_op =
  co_filter :: "('w, 'fs, 'c) compose_filter"
  co_match_type :: match_type
  co_properties :: fst_props
  co_fst1 :: "'w vfst"
  co_fst2 :: "'w vfst"
  co_start :: "state_id option"

definition choose_match_type :: "'w matcher \<Rightarrow> 'w matcher \<Rightarrow> match_type res" where
  "choose_match_type m1 m2 =
     rbind (if m_flags m1 AND REQUIRE_MATCH = REQUIRE_MATCH
            then rbind (m_match_type m1 True) (\<lambda>t. Inr (t \<noteq> MatchOutput)) else Inr False) (\<lambda>bad1.
       if bad1 then Inl (Bail ''ComposeFst: 1st argument cannot perform required matching (sort?)'')
       else rbind (if m_flags m2 AND REQUIRE_MATCH = REQUIRE_MATCH
            then rbind (m_match_type m2 True) (\<lambda>t. Inr (t \<noteq> MatchInput)) else Inr False) (\<lambda>bad2.
         if bad2 then Inl (Bail ''ComposeFst: 2nd argument cannot perform required matching (sort?)'')
         else rbind (m_match_type m1 False) (\<lambda>type1. rbind (m_match_type m2 False) (\<lambda>type2.
           if type1 = MatchOutput \<and> type2 = MatchInput then Inr MatchBoth
           else if type1 = MatchOutput then Inr MatchOutput
           else if type2 = MatchInput then Inr MatchInput
           else rbind (m_match_type m1 True) (\<lambda>t1.
             if t1 = MatchOutput then Inr MatchOutput
             else rbind (m_match_type m2 True) (\<lambda>t2.
               if t2 = MatchInput then Inr MatchInput
               else Inl (Bail ''ComposeFst: 1st argument cannot match on output labels and 2nd argument cannot match on input labels (sort?).'')))))))"

definition compose_op_new ::
  "'w vfst \<Rightarrow> 'w vfst \<Rightarrow> ('w, 'fs, 'c) compose_filter \<Rightarrow>
   (('w, 'fs, 'c) compose_op \<times> 'fs compose_tuple bi_map) res" where
  "compose_op_new F1 F2 f =
     rbind (choose_match_type (cf_matcher1 f) (cf_matcher2 f)) (\<lambda>mt.
       let props = cf_properties f (compose_properties (properties F1) (properties F2));
           (start, tab) = (case (start_state F1, start_state F2) of
              (Some s1, Some s2) \<Rightarrow>
                let (i, tab) = table_id_or_insert \<lparr>tup_fs = cf_start f, tup_s1 = s1, tup_s2 = s2\<rparr> bi_map_new in (Some i, tab)
            | _ \<Rightarrow> (None, bi_map_new))
       in Inr (\<lparr>co_filter = f, co_match_type = mt, co_properties = props, co_fst1 = F1, co_fst2 = F2, co_start = start\<rparr>, tab))"

definition match_input :: "('w, 'fs, 'c) compose_op \<Rightarrow> state_id \<Rightarrow> state_id \<Rightarrow> bool res" where
  "match_input op s1 s2 = (case co_match_type op of
     MatchInput \<Rightarrow> Inr True
   | MatchOutput \<Rightarrow> Inr False
   | _ \<Rightarrow> rbind (m_priority (cf_matcher1 (co_filter op)) s1) (\<lambda>priority1.
       rbind (m_priority (cf_matcher2 (co_filter op)) s2) (\<lambda>priority2.
         if priority1 = REQUIRE_PRIORITY \<and> priority2 = REQUIRE_PRIORITY then Inl (Bail ''Both sides can't require match'')
         else if priority1 = REQUIRE_PRIORITY then Inr False
         else if priority2 = REQUIRE_PRIORITY then Inr True
         else Inr (priority1 \<le> priority2))))"

text \<open>The transition for a pair the filter lets through, interning the triple it leads to.\<close>

definition compose_add_tr ::
  "'w semiring \<Rightarrow> 'w tr \<Rightarrow> 'w tr \<Rightarrow> 'fs \<Rightarrow> 'fs compose_tuple bi_map \<Rightarrow> ('w tr \<times> 'fs compose_tuple bi_map) res" where
  "compose_add_tr W arc1 arc2 fs tab =
     (let tuple = \<lparr>tup_fs = fs, tup_s1 = nextstate arc1, tup_s2 = nextstate arc2\<rparr>
      in rbind (times_w W (weight arc1) (weight arc2)) (\<lambda>w.
        let (i, tab) = table_id_or_insert tuple tab
        in Inr (tr_new (ilabel arc1) (olabel arc2) w i, tab)))"

text \<open>The variables of an expansion: the filter's, the table, the transitions found.\<close>

type_synonym ('w, 'fs, 'c) expansion = "'c \<times> 'fs compose_tuple bi_map \<times> 'w tr list"

definition match_item ::
  "'w semiring \<Rightarrow> ('w, 'fs, 'c) compose_op \<Rightarrow> state_id \<Rightarrow> 'w tr \<Rightarrow> bool \<Rightarrow> 'w iter_item \<Rightarrow>
   ('w, 'fs, 'c) expansion \<Rightarrow> ('w, 'fs, 'c) expansion res" where
  "match_item W op sa arc mi it = (\<lambda>(c, tab, ts).
     rbind (into_tr W it sa (if mi then MatchInput else MatchOutput)) (\<lambda>arca.
       let (arc1, arc2) = (if mi then (arc, arca) else (arca, arc))
       in rbind (cf_filter_tr (co_filter op) arc1 arc2 c) (\<lambda>(fs, arc1, arc2, c).
         if fs \<noteq> cf_no_state (co_filter op)
         then rbind (compose_add_tr W arc1 arc2 fs tab) (\<lambda>(t, tab). Inr (c, tab, ts @ [t]))
         else Inr (c, tab, ts))))"

definition match_tr ::
  "'w semiring \<Rightarrow> ('w, 'fs, 'c) compose_op \<Rightarrow> state_id \<Rightarrow> bool \<Rightarrow> selector \<Rightarrow> 'w tr \<Rightarrow>
   ('w, 'fs, 'c) expansion \<Rightarrow> ('w, 'fs, 'c) expansion res" where
  "match_tr W op sa mi sel arc st =
     (let l = (if mi then olabel arc else ilabel arc)
      in rbind (case sel of
             Fst2Matcher1 \<Rightarrow> m_iter (cf_matcher1 (co_filter op)) sa l
           | Fst1Matcher2 \<Rightarrow> m_iter (cf_matcher2 (co_filter op)) sa l)
           (\<lambda>is. for_res (match_item W op sa arc mi) is st))"

definition ordered_expand ::
  "'w semiring \<Rightarrow> ('w, 'fs, 'c) compose_op \<Rightarrow> state_id \<Rightarrow> state_id \<Rightarrow> bool \<Rightarrow> 'c \<Rightarrow> selector \<Rightarrow>
   'fs compose_tuple bi_map \<Rightarrow> ('w tr list \<times> 'fs compose_tuple bi_map) res" where
  "ordered_expand W op sa sb mi c sel tab =
     (let tr_loop = (if mi then tr_new EPS_LABEL NO_LABEL (one_w W) sb else tr_new NO_LABEL EPS_LABEL (one_w W) sb)
      in rbind (match_tr W op sa mi sel tr_loop (c, tab, [])) (\<lambda>st.
        rbind (get_trs (case sel of Fst1Matcher2 \<Rightarrow> co_fst1 op | Fst2Matcher1 \<Rightarrow> co_fst2 op) sb) (\<lambda>arcs_b.
          rbind (for_res (match_tr W op sa mi sel) arcs_b st) (\<lambda>(c, tab, ts). Inr (ts, tab)))))"

definition compose_compute_trs ::
  "'w semiring \<Rightarrow> ('w, 'fs, 'c) compose_op \<Rightarrow> state_id \<Rightarrow> 'fs compose_tuple bi_map \<Rightarrow>
   ('w tr list \<times> 'fs compose_tuple bi_map) res" where
  "compose_compute_trs W op i tab =
     rbind (get_tuple_unchecked i tab) (\<lambda>tuple.
       let s1 = tup_s1 tuple; s2 = tup_s2 tuple; f = co_filter op
       in rbind (cf_set_state f s1 s2 (tup_fs tuple) (cf_build f)) (\<lambda>c.
         rbind (match_input op s1 s2) (\<lambda>mi.
           if mi then ordered_expand W op s2 s1 True c Fst1Matcher2 tab
           else ordered_expand W op s1 s2 False c Fst2Matcher1 tab)))"

definition compose_compute_final ::
  "'w semiring \<Rightarrow> ('w, 'fs, 'c) compose_op \<Rightarrow> state_id \<Rightarrow> 'fs compose_tuple bi_map \<Rightarrow>
   ('w option \<times> 'fs compose_tuple bi_map) res" where
  "compose_compute_final W op i tab =
     rbind (get_tuple_unchecked i tab) (\<lambda>tuple.
       let s1 = tup_s1 tuple; s2 = tup_s2 tuple; f = co_filter op
       in rbind (m_final_weight (cf_matcher1 f) s1) (\<lambda>final1. case final1 of
            None \<Rightarrow> Inr (None, tab)
          | Some w1 \<Rightarrow> rbind (m_final_weight (cf_matcher2 f) s2) (\<lambda>final2. case final2 of
              None \<Rightarrow> Inr (None, tab)
            | Some w2 \<Rightarrow> rbind (cf_set_state f s1 s2 (tup_fs tuple) (cf_build f)) (\<lambda>c.
                rbind (cf_filter_final f w1 w2 c) (\<lambda>(w1, w2).
                  rbind (times_w W w1 w2) (\<lambda>w.
                    if is_zero W w then Inr (None, tab) else Inr (Some w, tab)))))))"

definition compose_fst_op ::
  "'w semiring \<Rightarrow> ('w, 'fs, 'c) compose_op \<Rightarrow> ('w, 'fs compose_tuple bi_map) fst_op" where
  "compose_fst_op W op = \<lparr>
     op_compute_start = (\<lambda>tab. Inr (co_start op, tab)),
     op_compute_trs = compose_compute_trs W op,
     op_compute_final_weight = compose_compute_final W op,
     op_properties = co_properties op\<rparr>"

subsection \<open>Static composition\<close>

text \<open>\<open>ComposeFst::new_with_options\<close> and \<open>compute\<close>, over any cache; the empty option of the search is non-termination.\<close>

definition compose_fst_compute ::
  "'w semiring \<Rightarrow> ('w, 'cache) fst_cache \<Rightarrow> 'cache \<Rightarrow> 'w vfst \<Rightarrow> 'w vfst \<Rightarrow> ('w, 'fs, 'c) compose_filter \<Rightarrow>
   'w vfst res option" where
  "compose_fst_compute W C fresh F1 F2 f =
     (case compose_op_new F1 F2 f of
        Inl e \<Rightarrow> Some (Inl e)
      | Inr (op, tab) \<Rightarrow>
          lazy_compute W (compose_fst_op W op) C (from_op_and_cache tab fresh (isymt F1) (osymt F2)))"

datatype compose_filter_enum =
  AutoFilter | NullFilter | TrivialFilter | SequenceFilter | AltSequenceFilter | MatchFilter | NoMatchFilter

record sigma_config =
  sc_sigma_label :: label
  sc_rewrite_mode :: rewrite_mode
  sc_sigma_allowed_matches :: "label list option"

record compose_config =
  cc_compose_filter :: compose_filter_enum
  cc_matcher1_config :: "sigma_config option"
  cc_matcher2_config :: "sigma_config option"
  cc_connect :: bool

definition compose_config_default :: compose_config where
  "compose_config_default = \<lparr>cc_compose_filter = AutoFilter, cc_matcher1_config = None, cc_matcher2_config = None, cc_connect = True\<rparr>"

definition create_matcher ::
  "'w semiring \<Rightarrow> (('w tr \<Rightarrow> ordering) \<Rightarrow> 'w tr list \<Rightarrow> nat) \<Rightarrow> sigma_config option \<Rightarrow> 'w vfst \<Rightarrow> match_type \<Rightarrow> 'w matcher res" where
  "create_matcher W lb cfg F mt = (case cfg of
     None \<Rightarrow> Inr (sorted_matcher lb F mt)
   | Some sc \<Rightarrow> rbind (sigma_matcher_new mt (sc_sigma_label sc) (sc_rewrite_mode sc) (sorted_matcher lb F mt)
       (sc_sigma_allowed_matches sc)) (\<lambda>g. Inr (sigma_matcher_ops W g)))"

definition bind_run :: "'a res option \<Rightarrow> ('a \<Rightarrow> 'b res option) \<Rightarrow> 'b res option" where
  "bind_run m f = (case m of None \<Rightarrow> None | Some (Inl e) \<Rightarrow> Some (Inl e) | Some (Inr a) \<Rightarrow> f a)"

definition compose_with_config ::
  "'w semiring \<Rightarrow> (('w tr \<Rightarrow> ordering) \<Rightarrow> 'w tr list \<Rightarrow> nat) \<Rightarrow> 'w vfst \<Rightarrow> 'w vfst \<Rightarrow> compose_config \<Rightarrow> 'w vfst res option" where
  "compose_with_config W lb F1 F2 cfg =
     bind_run (Some (create_matcher W lb (cc_matcher1_config cfg) F1 MatchOutput)) (\<lambda>m1.
     bind_run (Some (create_matcher W lb (cc_matcher2_config cfg) F2 MatchInput)) (\<lambda>m2.
     bind_run (case cc_compose_filter cfg of
         AutoFilter \<Rightarrow>
           if cc_matcher1_config cfg = None \<and> cc_matcher2_config cfg = None
           then compose_fst_compute W null_cache () F1 F2
             (sequence_filter (default_matcher1 lb F1 None) (default_matcher2 lb F2 None))
           else Some (Inl (Bail ''Custom MatcherConfig not supported with AutoFilter''))
       | NullFilter \<Rightarrow> compose_fst_compute W vec_cache vec_cache_new F1 F2 (null_filter m1 m2)
       | SequenceFilter \<Rightarrow> compose_fst_compute W vec_cache vec_cache_new F1 F2 (sequence_filter m1 m2)
       | AltSequenceFilter \<Rightarrow> compose_fst_compute W vec_cache vec_cache_new F1 F2 (alt_sequence_filter m1 m2)
       | MatchFilter \<Rightarrow> compose_fst_compute W vec_cache vec_cache_new F1 F2 (match_filter m1 m2)
       | NoMatchFilter \<Rightarrow> compose_fst_compute W vec_cache vec_cache_new F1 F2 (no_match_filter m1 m2)
       | TrivialFilter \<Rightarrow> compose_fst_compute W vec_cache vec_cache_new F1 F2 (trivial_filter m1 m2)) (\<lambda>ofst.
     if cc_connect cfg then Some (connect ofst) else Some (Inr ofst))))"

definition compose ::
  "'w semiring \<Rightarrow> (('w tr \<Rightarrow> ordering) \<Rightarrow> 'w tr list \<Rightarrow> nat) \<Rightarrow> 'w vfst \<Rightarrow> 'w vfst \<Rightarrow> 'w vfst res option" where
  "compose W lb F1 F2 = compose_with_config W lb F1 F2 compose_config_default"

end
