(* ===== verification/Lazy_Sound.thy ===== *)
theory Lazy_Sound
  imports Lazy_Compute
begin

text \<open>
  What materialising an operation on interned tuples gives: the contract of such an operation as a
  locale over any cache, the invariant of the search, and from it that the search returns, what the
  resulting transducer contains and what the two budgets do.
\<close>

subsection \<open>One expansion\<close>

definition grown :: "'w semiring \<Rightarrow> 'w vfst \<Rightarrow> 'w vfst \<Rightarrow> bool" where
  "grown W F G \<longleftrightarrow> (fst_ok W F \<longrightarrow> fst_ok W G) \<and> start_state G = start_state F \<and> num_states F \<le> num_states G \<and>
     (\<forall>i < num_states G. state_of G i = (if i < num_states F then state_of F i else vstate_new))"

lemma grown_refl: "grown W F F"
  by (simp add: grown_def)

lemma grown_trans: "grown W F G \<Longrightarrow> grown W G H \<Longrightarrow> grown W F H"
  by (auto simp: grown_def)

lemma grown_add: "grown W F (add_states F n)"
  using add_states_ok [of W F n] by (auto simp: grown_def add_states_def nth_append)

text \<open>The search's bookkeeping while the transitions of a state are scan_states: \<open>V\<close> are the known states.\<close>

definition scan_inv :: "state_id set \<Rightarrow> ('w, 'st, 'c) comp_state \<Rightarrow> bool" where
  "scan_inv V st \<longleftrightarrow> V = {j. j < length (cb_visited st) \<and> cb_visited st ! j} \<and> cb_discovered st = card V \<and>
     distinct (cb_queue st) \<and> set (cb_queue st) \<subseteq> V \<and> length (cb_visited st) = num_states (cb_out st)"

lemma scan_inv_finite: "scan_inv V st \<Longrightarrow> finite V"
  by (auto simp: scan_inv_def intro: finite_subset [of _ "{..< length (cb_visited st)}"])

text \<open>The effect of visiting state \<open>k\<close>, apart from the budget.\<close>

definition visited_state :: "state_id \<Rightarrow> ('w, 'st, 'c) comp_state \<Rightarrow> ('w, 'st, 'c) comp_state" where
  "visited_state k st =
     (let vis = (if k \<ge> length (cb_visited st) then vec_resize (cb_visited st) (k + 1) False else cb_visited st)
      in if vis ! k then st\<lparr>cb_visited := vis\<rparr>
         else st\<lparr>cb_queue := cb_queue st @ [k], cb_visited := vis[k := True], cb_discovered := cb_discovered st + 1\<rparr>)"

lemma cb_visit_eq:
  assumes "scan_inv V st"
  shows "cb_visit ms k st = (if k \<notin> V \<and> over ms (card V + 1) then Inl state_budget_exceeded else Inr (visited_state k st))"
  using assms by (auto simp: cb_visit_def visited_state_def scan_inv_def Let_def nth_vec_resize)

lemma visited_resize:
  "{j. j < n \<and> vec_resize xs n False ! j} = {j. j < length xs \<and> j < n \<and> xs ! j}"
  by (auto simp: nth_vec_resize split: if_splits)

lemma cb_tr_eq:
  assumes inv: "scan_inv V st"
  shows "cb_tr ms t st = (if nextstate t \<notin> V \<and> over ms (card V + 1) then Inl state_budget_exceeded
      else Inr (cb_grow (nextstate t) (visited_state (nextstate t) st)))"
  by (simp add: cb_tr_def cb_visit_eq [OF inv])

lemma scan_step:
  fixes st :: "('w, 'st, 'c) comp_state" and k :: state_id
  assumes inv: "scan_inv V st"
  defines "st' \<equiv> cb_grow k (visited_state k st)"
  shows "scan_inv (insert k V) st'" "set (cb_queue st') = set (cb_queue st) \<union> ({k} - V)"
    "grown W (cb_out st) (cb_out st')" "num_states (cb_out st') = max (num_states (cb_out st)) (k + 1)"
    "cb_lazy st' = cb_lazy st" "cb_num_trs st' = cb_num_trs st"
proof -
  have fin: "finite V" by (rule scan_inv_finite [OF inv])
  from inv have n: "length (cb_visited st) = num_states (cb_out st)"
    and q: "distinct (cb_queue st)" "set (cb_queue st) \<subseteq> V"
    and V: "V = {j. j < length (cb_visited st) \<and> cb_visited st ! j}" and d: "cb_discovered st = card V"
    unfolding scan_inv_def by blast+
  show lz: "cb_lazy st' = cb_lazy st" "cb_num_trs st' = cb_num_trs st"
    by (auto simp: st'_def cb_grow_def visited_state_def Let_def)
  have o: "cb_out (visited_state k st) = cb_out st" by (auto simp: visited_state_def Let_def)
  show g: "grown W (cb_out st) (cb_out st')"
    by (auto simp: st'_def cb_grow_def o Let_def grown_refl grown_add)
  show m: "num_states (cb_out st') = max (num_states (cb_out st)) (k + 1)"
    by (auto simp: st'_def cb_grow_def o Let_def add_states_def)
  define vis where "vis = (if k \<ge> length (cb_visited st) then vec_resize (cb_visited st) (k + 1) False else cb_visited st)"
  have lv: "length vis = max (num_states (cb_out st)) (k + 1)" by (auto simp: vis_def n)
  have Vv: "{j. j < length vis \<and> vis ! j} = V"
  proof (cases "k \<ge> length (cb_visited st)")
    case True
    then have "{j. j < length vis \<and> vis ! j} = {j. j < length (cb_visited st) \<and> j < k + 1 \<and> cb_visited st ! j}"
      using visited_resize [of "k + 1" "cb_visited st"] by (simp add: vis_def)
    also have "\<dots> = {j. j < length (cb_visited st) \<and> cb_visited st ! j}" using True by auto
    finally show ?thesis using V by simp
  next
    case False
    then show ?thesis using V by (simp add: vis_def)
  qed
  have k: "k < length vis" by (simp add: lv)
  have kV: "vis ! k \<longleftrightarrow> k \<in> V" using Vv k by blast
  have vs: "visited_state k st = (if k \<in> V then st\<lparr>cb_visited := vis\<rparr>
      else st\<lparr>cb_queue := cb_queue st @ [k], cb_visited := vis[k := True], cb_discovered := cb_discovered st + 1\<rparr>)"
    by (simp add: visited_state_def vis_def [symmetric] kV Let_def)
  have qs: "cb_queue st' = (if k \<in> V then cb_queue st else cb_queue st @ [k])"
    and vi: "cb_visited st' = (if k \<in> V then vis else vis[k := True])"
    and di: "cb_discovered st' = (if k \<in> V then card V else card V + 1)"
    by (simp_all add: st'_def cb_grow_def vs d Let_def)
  show "set (cb_queue st') = set (cb_queue st) \<union> ({k} - V)" by (auto simp: qs)
  have lvi: "length (cb_visited st') = length vis" by (simp add: vi)
  have "{j. j < length (cb_visited st') \<and> cb_visited st' ! j} = insert k V"
  proof (cases "k \<in> V")
    case True then show ?thesis using Vv by (auto simp: vi)
  next
    case False
    have "{j. j < length vis \<and> vis[k := True] ! j} = insert k {j. j < length vis \<and> vis ! j}"
      using k by (auto simp: nth_list_update)
    with False Vv show ?thesis by (simp add: vi)
  qed
  moreover have "cb_discovered st' = card (insert k V)" using fin by (simp add: di insert_absorb)
  moreover have "distinct (cb_queue st')" "set (cb_queue st') \<subseteq> insert k V" using q by (auto simp: qs)
  ultimately show "scan_inv (insert k V) st'" by (simp add: scan_inv_def lvi lv m)
qed

text \<open>The scan as a whole: its effect without a budget, and when a budget stops it.\<close>

definition scan_states :: "'w tr list \<Rightarrow> ('w, 'st, 'c) comp_state \<Rightarrow> ('w, 'st, 'c) comp_state" where
  "scan_states ts st = fold (\<lambda>t st. cb_grow (nextstate t) (visited_state (nextstate t) st)) ts st"

lemma scan_all_conj:
  assumes "scan_inv V st"
  shows "scan_inv (V \<union> nextstate ` set ts) (scan_states ts st) \<and>
    set (cb_queue (scan_states ts st)) = set (cb_queue st) \<union> (nextstate ` set ts - V) \<and>
    grown W (cb_out st) (cb_out (scan_states ts st)) \<and>
    num_states (cb_out (scan_states ts st)) = fold (\<lambda>t n. max n (nextstate t + 1)) ts (num_states (cb_out st)) \<and>
    cb_lazy (scan_states ts st) = cb_lazy st \<and> cb_num_trs (scan_states ts st) = cb_num_trs st"
  using assms
proof (induction ts arbitrary: V st)
  case Nil
  then show ?case by (simp add: scan_states_def grown_refl)
next
  case (Cons t ts)
  let ?st = "cb_grow (nextstate t) (visited_state (nextstate t) st)"
  note s = scan_step [OF Cons.prems, where k = "nextstate t"]
  have e: "scan_states (t # ts) st = scan_states ts ?st" by (simp add: scan_states_def)
  note ih = Cons.IH [OF s(1)]
  have "set (cb_queue (scan_states ts ?st)) = set (cb_queue st) \<union> ({nextstate t} - V) \<union> (nextstate ` set ts - insert (nextstate t) V)"
    using ih s(2) by simp
  also have "\<dots> = set (cb_queue st) \<union> (nextstate ` set (t # ts) - V)" by auto
  finally have "set (cb_queue (scan_states ts ?st)) = set (cb_queue st) \<union> (nextstate ` set (t # ts) - V)" .
  moreover have "grown W (cb_out st) (cb_out (scan_states ts ?st))"
    using grown_trans [OF s(3)] ih by blast
  ultimately show ?case using ih s(4,5,6) by (simp add: e)
qed

lemma scan_all:
  assumes "scan_inv V st"
  shows "scan_inv (V \<union> nextstate ` set ts) (scan_states ts st)"
    and "set (cb_queue (scan_states ts st)) = set (cb_queue st) \<union> (nextstate ` set ts - V)"
    and "grown W (cb_out st) (cb_out (scan_states ts st))"
    and "num_states (cb_out (scan_states ts st)) = fold (\<lambda>t n. max n (nextstate t + 1)) ts (num_states (cb_out st))"
    and "cb_lazy (scan_states ts st) = cb_lazy st" "cb_num_trs (scan_states ts st) = cb_num_trs st"
  using scan_all_conj [OF assms] by blast+

lemma over_mono: "over ms n \<Longrightarrow> n \<le> m \<Longrightarrow> over ms m"
  by (auto simp: over_def split: option.splits)

lemma over_None [simp]: "over None n = False"
  by (simp add: over_def)

lemma scan_loop:
  assumes "scan_inv V st"
  shows "for_res (cb_tr ms) ts st =
    (if nextstate ` set ts \<subseteq> V \<or> \<not> over ms (card (V \<union> nextstate ` set ts)) then Inr (scan_states ts st)
     else Inl state_budget_exceeded)"
  using assms
proof (induction ts arbitrary: V st)
  case Nil
  then show ?case by (simp add: scan_states_def)
next
  case (Cons t ts)
  let ?k = "nextstate t" and ?N = "nextstate ` set ts"
  let ?st = "cb_grow ?k (visited_state ?k st)"
  have fin: "finite V" by (rule scan_inv_finite [OF Cons.prems])
  have e: "scan_states (t # ts) st = scan_states ts ?st" by (simp add: scan_states_def)
  have u: "insert ?k V \<union> ?N = V \<union> nextstate ` set (t # ts)" by auto
  have ih: "for_res (cb_tr ms) ts ?st =
    (if ?N \<subseteq> insert ?k V \<or> \<not> over ms (card (V \<union> nextstate ` set (t # ts))) then Inr (scan_states (t # ts) st)
     else Inl state_budget_exceeded)"
    using Cons.IH [OF scan_step(1) [OF Cons.prems, where k = ?k]] by (simp only: u e)
  have step: "for_res (cb_tr ms) (t # ts) st =
     (if ?k \<notin> V \<and> over ms (card V + 1) then Inl state_budget_exceeded else for_res (cb_tr ms) ts ?st)"
    by (simp add: cb_tr_eq [OF Cons.prems])
  show ?case
  proof (cases "?k \<in> V")
    case True
    then have "?N \<subseteq> insert ?k V \<longleftrightarrow> nextstate ` set (t # ts) \<subseteq> V" by auto
    with True show ?thesis by (simp only: step ih) simp
  next
    case False
    have "card V + 1 = card (insert ?k V)" using fin False by simp
    also have "\<dots> \<le> card (V \<union> nextstate ` set (t # ts))" by (rule card_mono) (use fin in auto)
    finally have le: "card V + 1 \<le> card (V \<union> nextstate ` set (t # ts))" .
    show ?thesis
    proof (cases "over ms (card V + 1)")
      case True
      with False over_mono [OF True le] show ?thesis by (simp only: step) simp
    next
      case o: False
      have "?N \<subseteq> insert ?k V \<Longrightarrow> V \<union> nextstate ` set (t # ts) = insert ?k V" by auto
      then have "?N \<subseteq> insert ?k V \<Longrightarrow> \<not> over ms (card (V \<union> nextstate ` set (t # ts)))"
        using o fin False by simp
      with False o show ?thesis by (simp only: step ih) auto
    qed
  qed
qed


lemma fold_max_next:
  assumes "n \<le> m" "\<forall>t \<in> set ts. nextstate t < m" "n = m \<or> m - 1 \<in> nextstate ` set ts"
  shows "fold (\<lambda>t n. max n (nextstate t + 1)) ts n = m"
  using assms
proof (induction ts arbitrary: n)
  case Nil
  then show ?case by simp
next
  case (Cons t ts)
  have "max n (nextstate t + 1) = m \<or> m - 1 \<in> nextstate ` set ts" using Cons.prems by auto
  moreover have "max n (nextstate t + 1) \<le> m" "\<forall>t \<in> set ts. nextstate t < m" using Cons.prems by auto
  ultimately show ?case using Cons.IH [of "max n (nextstate t + 1)"] by simp
qed

lemma scan_inv_pop:
  "scan_inv V st \<Longrightarrow> cb_queue st = s # q \<Longrightarrow> scan_inv V (st\<lparr>cb_queue := q, cb_lazy := l\<rparr>)"
  unfolding scan_inv_def by (elim conjE, intro conjI) simp_all

lemma scan_inv_fields:
  "scan_inv V (st\<lparr>cb_num_trs := m\<rparr>) = scan_inv V st"
  "num_states out = num_states (cb_out st) \<Longrightarrow> scan_inv V (st\<lparr>cb_lazy := l, cb_out := out\<rparr>) = scan_inv V st"
  by (simp_all add: scan_inv_def)

lemma scan_states_num_trs: "scan_states ts (st\<lparr>cb_num_trs := m\<rparr>) = (scan_states ts st)\<lparr>cb_num_trs := m\<rparr>"
proof (induction ts arbitrary: st)
  case Nil
  then show ?case by (simp add: scan_states_def)
next
  case (Cons t ts)
  have "cb_grow k (visited_state k (st\<lparr>cb_num_trs := m\<rparr>)) = (cb_grow k (visited_state k st))\<lparr>cb_num_trs := m\<rparr>" for k
    by (simp add: cb_grow_def visited_state_def Let_def)
  with Cons.IH show ?case by (simp add: scan_states_def)
qed

subsection \<open>Operations on interned tuples\<close>

text \<open>
  A transition returned for a state against what it means on tuples. \<open>expand\<close> and \<open>fin\<close> describe the
  machine on tuples; \<open>tab\<close> reads the tuples of the ids given so far off the operation state; \<open>ok\<close> holds
  the operation's invariant and what it requires of its operands.
\<close>

definition arc_rel :: "'k list \<Rightarrow> 'w tr \<Rightarrow> label \<times> label \<times> 'w \<times> 'k \<Rightarrow> bool" where
  "arc_rel T t = (\<lambda>(il, ol, w, k). ilabel t = il \<and> olabel t = ol \<and> weight t = w \<and>
     nextstate t < length T \<and> T ! nextstate t = k)"

definition move_targets :: "(label \<times> label \<times> 'w \<times> 'k) list \<Rightarrow> 'k set" where
  "move_targets ms = (\<lambda>m. snd (snd (snd m))) ` set ms"

locale interning_op =
  fixes op :: "('w, 'st) fst_op"
    and tab :: "'st \<Rightarrow> 'k list"
    and ok :: "'st \<Rightarrow> bool"
    and init :: 'st
    and start :: "'k option"
    and expand :: "'k \<Rightarrow> (label \<times> label \<times> 'w \<times> 'k) list"
    and fin :: "'k \<Rightarrow> 'w option"
  assumes start_law: "ok init \<Longrightarrow> \<exists>st. op_compute_start op init = Inr (map_option (\<lambda>_. 0) start, st) \<and> ok st \<and>
      tab st = (case start of None \<Rightarrow> [] | Some k \<Rightarrow> [k])"
    and tab_distinct: "ok st \<Longrightarrow> distinct (tab st)"
    and trs_law: "ok st \<Longrightarrow> i < length (tab st) \<Longrightarrow> \<exists>ts st' ext. op_compute_trs op i st = Inr (ts, st') \<and> ok st' \<and>
      tab st' = tab st @ ext \<and> set ext \<subseteq> move_targets (expand (tab st ! i)) \<and>
      list_all2 (arc_rel (tab st')) ts (expand (tab st ! i))"
    and final_law: "ok st \<Longrightarrow> i < length (tab st) \<Longrightarrow> op_compute_final_weight op i st = Inr (fin (tab st ! i), st)"

text \<open>The invariant of the search: \<open>P\<close> are the expanded states, the queue holds the other known ones.\<close>

definition expanded_as ::
  "'k list \<Rightarrow> ('k \<Rightarrow> (label \<times> label \<times> 'w \<times> 'k) list) \<Rightarrow> ('k \<Rightarrow> 'w option) \<Rightarrow> nat \<Rightarrow> 'w vstate \<Rightarrow> bool" where
  "expanded_as T expand fin i v \<longleftrightarrow> list_all2 (arc_rel T) (trs v) (expand (T ! i)) \<and> final_weight v = fin (T ! i)"

definition search_inv ::
  "'w semiring \<Rightarrow> ('st \<Rightarrow> 'k list) \<Rightarrow> ('st \<Rightarrow> bool) \<Rightarrow> ('k \<Rightarrow> (label \<times> label \<times> 'w \<times> 'k) list) \<Rightarrow> ('k \<Rightarrow> 'w option) \<Rightarrow>
   ('w, 'c) fst_cache \<Rightarrow> ('c \<Rightarrow> bool) \<Rightarrow> nat set \<Rightarrow> ('w, 'st, 'c) comp_state \<Rightarrow> bool" where
  "search_inv W tab ok expand fin C cok P st \<longleftrightarrow>
     (let T = tab (lz_op (cb_lazy st)); n = length T; out = cb_out st; c = lz_cache (cb_lazy st)
      in ok (lz_op (cb_lazy st)) \<and> scan_inv {..< n} st \<and> num_states out = n \<and> set (cb_queue st) = {..< n} - P \<and>
         P \<subseteq> {..< n} \<and> fst_ok W out \<and> start_state out = Some 0 \<and>
         (\<forall>i < n. if i \<in> P then expanded_as T expand fin i (state_of out i) else state_of out i = vstate_new) \<and>
         cok c \<and> (\<forall>i. i \<notin> P \<longrightarrow> fc_get_trs C i c = NotComputed \<and> fc_get_final_weight C i c = NotComputed))"

lemma arc_rel_append: "arc_rel T t m \<Longrightarrow> arc_rel (T @ ext) t m"
  by (auto simp: arc_rel_def nth_append split: prod.splits)

lemma expanded_append:
  assumes "expanded_as T expand fin i v" "i < length T"
  shows "expanded_as (T @ ext) expand fin i v"
proof -
  have "list_all2 (arc_rel (T @ ext)) (trs v) (expand (T ! i))"
    by (rule list_all2_mono [of "arc_rel T"]) (use assms(1) arc_rel_append in \<open>auto simp: expanded_as_def\<close>)
  with assms show ?thesis by (simp add: expanded_as_def nth_append)
qed

text \<open>The new ids are exactly the targets that were unknown.\<close>

lemma new_targets:
  assumes T: "distinct (T @ ext)" "set ext \<subseteq> move_targets ms" and l: "list_all2 (arc_rel (T @ ext)) ts ms"
  shows "{..< length T} \<union> nextstate ` set ts = {..< length (T @ ext)}"
proof
  have "\<forall>t \<in> set ts. nextstate t < length (T @ ext)"
  proof
    fix t assume "t \<in> set ts"
    then obtain i where "i < length ts" "ts ! i = t" by (auto simp: in_set_conv_nth)
    with l have "arc_rel (T @ ext) t (ms ! i)" by (auto simp: list_all2_conv_all_nth)
    then show "nextstate t < length (T @ ext)" by (auto simp: arc_rel_def)
  qed
  then show "{..< length T} \<union> nextstate ` set ts \<subseteq> {..< length (T @ ext)}" by auto
next
  show "{..< length (T @ ext)} \<subseteq> {..< length T} \<union> nextstate ` set ts"
  proof
    fix j assume j: "j \<in> {..< length (T @ ext)}"
    show "j \<in> {..< length T} \<union> nextstate ` set ts"
    proof (cases "j < length T")
      case False
      with j have "(T @ ext) ! j \<in> set ext" by (simp add: nth_append)
      with T(2) obtain m where m: "m \<in> set ms" "snd (snd (snd m)) = (T @ ext) ! j" by (auto simp: move_targets_def)
      then obtain i where i: "i < length ms" "ms ! i = m" by (auto simp: in_set_conv_nth)
      with l have a: "arc_rel (T @ ext) (ts ! i) m" "i < length ts" by (auto simp: list_all2_conv_all_nth)
      with m have "nextstate (ts ! i) < length (T @ ext)" "(T @ ext) ! nextstate (ts ! i) = (T @ ext) ! j"
        by (auto simp: arc_rel_def split: prod.splits)
      with j T(1) have "nextstate (ts ! i) = j" using nth_eq_iff_index_eq by blast
      with a(2) show ?thesis by (metis UnCI image_eqI nth_mem)
    qed simp
  qed
qed

locale lazy_run = interning_op op tab ok init start expand fin + lossy_cache C cok fresh
  for op :: "('w, 'st) fst_op" and tab :: "'st \<Rightarrow> 'k list" and ok init start expand fin
    and C :: "('w, 'c) fst_cache" and cok fresh +
  fixes W :: "'w semiring"
begin

abbreviation sinv :: "nat set \<Rightarrow> ('w, 'st, 'c) comp_state \<Rightarrow> bool" where
  "sinv \<equiv> search_inv W tab ok expand fin C cok"

lemma search_step:
  assumes inv: "sinv P st" and q: "cb_queue st = s # q"
  obtains st1 where "sinv (insert s P) st1" "s \<notin> P" "num_states (cb_out st) \<le> num_states (cb_out st1)"
    "\<And>ms mt m. cb_step W op C ms mt s (st\<lparr>cb_queue := q, cb_num_trs := m\<rparr>) =
      rbind (cb_count mt (length (trs (state_of (cb_out st1) s))) (st1\<lparr>cb_num_trs := m\<rparr>)) (\<lambda>st2.
        if num_states (cb_out st1) = num_states (cb_out st) \<or> \<not> over ms (num_states (cb_out st1))
        then Inr st2 else Inl state_budget_exceeded)"
    "\<And>i. i < num_states (cb_out st) \<Longrightarrow> i \<noteq> s \<Longrightarrow> trs (state_of (cb_out st1) i) = trs (state_of (cb_out st) i)"
    "lz_isymt (cb_lazy st1) = lz_isymt (cb_lazy st)" "lz_osymt (cb_lazy st1) = lz_osymt (cb_lazy st)"
    "\<exists>ext. tab (lz_op (cb_lazy st1)) = tab (lz_op (cb_lazy st)) @ ext"
proof -
  define l where "l = cb_lazy st"
  define os where "os = lz_op l"
  define T where "T = tab os"
  define n where "n = length T"
  define out where "out = cb_out st"
  note d = l_def os_def T_def n_def out_def
  from inv have ok: "ok os" and sc: "scan_inv {..< n} st" and no: "num_states out = n"
    and sq: "set (cb_queue st) = {..< n} - P" and P: "P \<subseteq> {..< n}" and fo: "fst_ok W out"
    and start: "start_state out = Some 0" and ck: "cok (lz_cache l)"
    and ex: "\<forall>i < n. if i \<in> P then expanded_as T expand fin i (state_of out i) else state_of out i = vstate_new"
    and miss: "\<forall>i. i \<notin> P \<longrightarrow> fc_get_trs C i (lz_cache l) = NotComputed \<and> fc_get_final_weight C i (lz_cache l) = NotComputed"
    unfolding search_inv_def Let_def d by blast+
  have s: "s < n" "s \<notin> P" using sq q by auto
  obtain ts os' ext where tr: "op_compute_trs op s os = Inr (ts, os')" "ok os'" "tab os' = T @ ext"
    "set ext \<subseteq> move_targets (expand (T ! s))" "list_all2 (arc_rel (T @ ext)) ts (expand (T ! s))"
    using trs_law [OF ok, of s] s(1) unfolding T_def n_def by auto
  define n1 where "n1 = length (T @ ext)"
  have dist: "distinct (T @ ext)" using tab_distinct [OF tr(2)] tr(3) by simp
  have nx: "{..< n} \<union> nextstate ` set ts = {..< n1}" unfolding n_def n1_def by (rule new_targets [OF dist tr(4,5)])
  define l1 where "l1 = l\<lparr>lz_op := os', lz_cache := fc_insert_trs C s ts (lz_cache l)\<rparr>"
  define l2 where "l2 = l1\<lparr>lz_cache := fc_insert_final_weight C s (fin (T ! s)) (lz_cache l1)\<rparr>"
  have g1: "lazy_get_trs op C s l = Inr (ts, l1)"
    using miss s(2) tr(1) by (simp add: lazy_get_trs_def l1_def os_def)
  have ck1: "cok (lz_cache l1)" by (simp add: l1_def trs_ok ck)
  have "fc_get_final_weight C s (lz_cache l1) = NotComputed"
    using miss s(2) by (simp add: l1_def final_trs [OF ck])
  moreover have "op_compute_final_weight op s os' = Inr (fin (T ! s), os')"
    using final_law [OF tr(2), of s] tr(3) s(1) by (simp add: nth_append n_def)
  ultimately have g2: "lazy_final_weight op C s l1 = Inr (fin (T ! s), l2)"
    by (simp add: lazy_final_weight_def l2_def l1_def)
  define sta where "sta = st\<lparr>cb_queue := q, cb_lazy := l1\<rparr>"
  have sca: "scan_inv {..< n} sta"
    unfolding sta_def by (rule scan_inv_pop [OF sc q])
  note sa = scan_all [OF sca, where ts = ts]
  define out1 where "out1 = cb_out (scan_states ts sta)"
  have outa: "cb_out sta = out" by (simp add: sta_def out_def)
  have gr: "grown W out out1" using sa(3) [of W] by (simp add: out1_def outa)
  have tt: "\<forall>t \<in> set ts. nextstate t < n1" using nx by auto
  have le: "n \<le> n1" by (simp add: n_def n1_def)
  have "n = n1 \<or> n1 - 1 \<in> nextstate ` set ts"
  proof (cases "n = n1")
    case False
    then have "n1 - 1 \<in> {..< n1}" "n1 - 1 \<notin> {..< n}" using le by auto
    with nx show ?thesis by blast
  qed simp
  then have no1: "num_states out1 = n1"
    using sa(4) fold_max_next [OF le tt] by (simp add: out1_def outa no)
  have fo1: "fst_ok W out1" using gr fo by (simp add: grown_def)
  have so1: "state_of out1 i = (if i < n then state_of out i else vstate_new)" if "i < n1" for i
    using gr that no no1 by (simp add: grown_def)
  have st1: "start_state out1 = Some 0" using gr start by (simp add: grown_def)
  have s1: "s < num_states out1" using s(1) le no1 by simp
  have e1: "state_of out1 s = vstate_new" using so1 [of s] s ex le by auto
  define out2 where "out2 = set_trs_unchecked W out1 s ts"
  have fo2: "fst_ok W out2"
    unfolding out2_def by (rule set_trs_ok [OF fo1 s1]) (use e1 tt no1 in \<open>simp_all add: shape\<close>)
  have no2: "num_states out2 = n1" using s1 no1 by (simp add: out2_def shape)
  define out3 where "out3 = (case fin (T ! s) of Some w \<Rightarrow> set_final_unchecked W out2 s w | None \<Rightarrow> out2)"
  have fo3: "fst_ok W out3"
    using fo2 s1 no1 no2 by (auto simp: out3_def set_final_ok split: option.splits)
  have no3: "num_states out3 = n1" by (simp add: out3_def no2 shape split: option.splits)
  have st3: "start_state out3 = Some 0"
    using st1 s1 by (simp add: out3_def out2_def shape split: option.splits)
  have tr3: "trs (state_of out3 i) = (if i = s then ts else trs (state_of out1 i))" if "i < n1" for i
    using that s1 no1 no2 by (auto simp: out3_def out2_def shape split: option.splits)
  have fw3: "final_weight (state_of out3 i) = (if i = s then fin (T ! s) else final_weight (state_of out1 i))" if "i < n1" for i
    using that s1 no1 no2 e1 by (auto simp: out3_def out2_def shape split: option.splits)
  define stx where "stx = (scan_states ts sta)\<lparr>cb_lazy := l2, cb_out := out3\<rparr>"
  have lzs: "cb_lazy (scan_states ts sta) = l1" using sa(5) by (simp add: sta_def)
  have fnum: "cb_finish W op C s ((scan_states ts (sta\<lparr>cb_num_trs := m\<rparr>))\<lparr>cb_out := set_trs_unchecked W (cb_out (scan_states ts (sta\<lparr>cb_num_trs := m\<rparr>))) s ts\<rparr>)
      = Inr (stx\<lparr>cb_num_trs := m\<rparr>)" for m
  proof (cases "fin (T ! s)")
    case None
    then show ?thesis
      by (simp add: cb_finish_def scan_states_num_trs lzs g2 stx_def out3_def out2_def out1_def Let_def)
  next
    case (Some w)
    have "s < num_states (set_trs_unchecked W (cb_out (scan_states ts sta)) s ts)"
      using no2 s1 no1 by (simp add: out2_def out1_def)
    with Some show ?thesis
      by (simp add: cb_finish_def scan_states_num_trs lzs g2 stx_def out3_def out2_def out1_def Let_def set_final_def)
  qed
  have scm: "scan_inv {..< n} (sta\<lparr>cb_num_trs := m\<rparr>)" for m using sca by (simp add: scan_inv_fields)
  have outx: "cb_out stx = out3" "cb_lazy stx = l2" by (simp_all add: stx_def)
  have lts: "length (trs (state_of out3 s)) = length ts" using tr3 s1 no1 by simp
  have sub: "nextstate ` set ts \<subseteq> {..< n} \<longleftrightarrow> n1 = n"
  proof
    assume "nextstate ` set ts \<subseteq> {..< n}"
    then have "{..< n} \<union> nextstate ` set ts = {..< n}" by (rule Un_absorb2)
    then have "{..< n1} = {..< n}" by (simp only: nx)
    then show "n1 = n" by simp
  next
    assume "n1 = n"
    with nx have "{..< n} \<union> nextstate ` set ts = {..< n}" by simp
    then show "nextstate ` set ts \<subseteq> {..< n}" by (metis Un_upper2)
  qed
  have step: "cb_step W op C ms mt s (st\<lparr>cb_queue := q, cb_num_trs := m\<rparr>) =
      rbind (cb_count mt (length (trs (state_of (cb_out stx) s))) (stx\<lparr>cb_num_trs := m\<rparr>)) (\<lambda>st2.
        if num_states (cb_out stx) = num_states (cb_out st) \<or> \<not> over ms (num_states (cb_out stx))
        then Inr st2 else Inl state_budget_exceeded)" for ms mt m
  proof -
    have body: "rbind (for_res (cb_tr ms) ts (sta\<lparr>cb_num_trs := m'\<rparr>)) (\<lambda>st.
        cb_finish W op C s (st\<lparr>cb_out := set_trs_unchecked W (cb_out st) s ts\<rparr>)) =
      (if n1 = n \<or> \<not> over ms n1 then Inr (stx\<lparr>cb_num_trs := m'\<rparr>) else Inl state_budget_exceeded)" for m'
      by (simp add: scan_loop [OF scm] sub nx fnum)
    have z: "st\<lparr>cb_queue := q, cb_num_trs := m, cb_lazy := l1\<rparr> = sta\<lparr>cb_num_trs := m\<rparr>" by (simp add: sta_def)
    have "cb_step W op C ms mt s (st\<lparr>cb_queue := q, cb_num_trs := m\<rparr>) =
        rbind (cb_count mt (length ts) (sta\<lparr>cb_num_trs := m\<rparr>)) (\<lambda>st.
          rbind (for_res (cb_tr ms) ts st) (\<lambda>st. cb_finish W op C s (st\<lparr>cb_out := set_trs_unchecked W (cb_out st) s ts\<rparr>)))"
      using g1 by (simp add: cb_step_def z l_def)
    then show ?thesis
      using body no3 no by (cases mt) (simp_all add: cb_count_def outx lts Let_def out_def)
  qed
  have inv1: "sinv (insert s P) stx"
  proof -
    have os1: "lz_op l2 = os'" by (simp add: l2_def l1_def)
    have "scan_inv {..< n1} stx"
      using sa(1) no1 no3 by (simp add: nx stx_def scan_inv_fields out1_def)
    moreover have "set (cb_queue stx) = {..< n1} - insert s P"
    proof -
      have "set q = {..< n} - P - {s}" using sq q sc by (auto simp: scan_inv_def)
      moreover have "set (cb_queue stx) = set q \<union> (nextstate ` set ts - {..< n})"
        using sa(2) by (simp add: stx_def sta_def)
      ultimately show ?thesis using nx P s by auto
    qed
    moreover have "insert s P \<subseteq> {..< n1}" using s P le by auto
    moreover have "if i \<in> insert s P then expanded_as (T @ ext) expand fin i (state_of out3 i) else state_of out3 i = vstate_new"
      if i: "i < n1" for i
    proof (cases "i = s")
      case True
      with i s tr(5) show ?thesis by (simp add: expanded_as_def tr3 fw3 nth_append n_def)
    next
      case False
      have same: "state_of out3 i = state_of out1 i"
        using False i s1 no1 no2
        by (auto simp: out3_def out2_def set_trs_unchecked_def set_final_unchecked_def with_state_def case_prod_unfold Let_def
            nth_upd split: option.splits)
      show ?thesis
      proof (cases "i < n")
        case True
        then have "state_of out3 i = state_of out i" using same so1 [OF i] by simp
        with True False ex show ?thesis by (auto intro: expanded_append simp: n_def)
      next
        case g: False
        then have "i \<notin> P" using P by auto
        with g False i show ?thesis by (simp add: same so1 [OF i])
      qed
    qed
    moreover have "cok (lz_cache l2)" using ck1 by (simp add: l2_def final_ok)
    moreover have "fc_get_trs C i (lz_cache l2) = NotComputed \<and> fc_get_final_weight C i (lz_cache l2) = NotComputed"
      if "i \<notin> insert s P" for i
    proof
      have m: "fc_get_trs C i (lz_cache l) = NotComputed" "fc_get_final_weight C i (lz_cache l) = NotComputed" "i \<noteq> s"
        using miss that by auto
      have "fc_get_trs C i (lz_cache l1) = NotComputed" using trs_miss [OF ck m(1,3)] by (simp add: l1_def)
      then show "fc_get_trs C i (lz_cache l2) = NotComputed" by (simp add: l2_def trs_final [OF ck1])
      have "fc_get_final_weight C i (lz_cache l1) = NotComputed" using m(2) by (simp add: l1_def final_trs [OF ck])
      then show "fc_get_final_weight C i (lz_cache l2) = NotComputed" using final_miss [OF ck1 _ m(3)] by (simp add: l2_def)
    qed
    ultimately show ?thesis
      unfolding search_inv_def Let_def outx os1 tr(3) n1_def [symmetric] using tr(2) no3 fo3 st3 by blast
  qed
  show thesis
  proof (rule that [OF inv1 s(2) _ step])
    show "num_states (cb_out st) \<le> num_states (cb_out stx)" using no no3 le by (simp add: outx out_def)
    show "trs (state_of (cb_out stx) i) = trs (state_of (cb_out st) i)" if "i < num_states (cb_out st)" "i \<noteq> s" for i
      using that tr3 [of i] so1 [of i] no le by (simp add: outx out_def)
    show "lz_isymt (cb_lazy stx) = lz_isymt (cb_lazy st)" "lz_osymt (cb_lazy stx) = lz_osymt (cb_lazy st)"
      by (simp_all add: outx l2_def l1_def l_def)
    show "\<exists>ext. tab (lz_op (cb_lazy stx)) = tab (lz_op (cb_lazy st)) @ ext"
      using tr(3) by (simp add: outx l2_def l1_def T_def os_def l_def)
  qed
qed

end

end
