(* ===== verification/Lazy_Bounds.thy ===== *)
theory Lazy_Bounds
  imports Lazy_Sound
begin

text \<open>
  The search as a whole: with no budget it returns if the tuples come from a finite set; a state
  budget makes it return in any case; and a run under budgets is the run without them, cut off
  where the result would not fit.
\<close>

definition total_trs :: "'w vfst \<Rightarrow> nat" where
  "total_trs F = (\<Sum>i < num_states F. length (trs (state_of F i)))"

definition fits :: "nat option \<Rightarrow> nat option \<Rightarrow> nat \<Rightarrow> 'w vfst \<Rightarrow> bool" where
  "fits ms mt n F \<longleftrightarrow> (num_states F = n \<or> \<not> over ms (num_states F)) \<and> \<not> over mt (min (total_trs F) usize_max)"

definition cut_off :: "rust_error \<Rightarrow> bool" where
  "cut_off e \<longleftrightarrow> e = tr_limit_exceeded \<or> e = state_budget_exceeded"

definition counted :: "nat option \<Rightarrow> nat \<Rightarrow> 'w vfst \<Rightarrow> bool" where
  "counted mt m F \<longleftrightarrow> mt \<noteq> None \<longrightarrow> m = min (total_trs F) usize_max \<and> \<not> over mt m"

lemma counted_step:
  assumes "counted mt m F" "total_trs G = total_trs F + k"
  shows "cb_count mt k (st\<lparr>cb_num_trs := m\<rparr>) =
    (if over mt (min (total_trs G) usize_max) then Inl tr_limit_exceeded
     else Inr (st\<lparr>cb_num_trs := (if mt = None then m else min (total_trs G) usize_max)\<rparr>))"
  using assms by (cases mt) (auto simp: cb_count_def over_def counted_def usize_sat_add_def Let_def min_def)

context lazy_run
begin

lemma sinv_fields [simp]: "sinv P (st\<lparr>cb_num_trs := m\<rparr>) = sinv P st"
  by (simp add: search_inv_def scan_inv_def Let_def)

lemma sinv_bound: "sinv P st \<Longrightarrow> P \<subseteq> {..< num_states (cb_out st)}"
  "sinv P st \<Longrightarrow> num_states (cb_out st) = length (tab (lz_op (cb_lazy st)))"
  "sinv P st \<Longrightarrow> ok (lz_op (cb_lazy st))"
  "sinv P st \<Longrightarrow> cb_queue st = [] \<Longrightarrow> P = {..< num_states (cb_out st)}"
  by (auto simp: search_inv_def Let_def)

lemma sinv_unexpanded: "sinv P st \<Longrightarrow> i < num_states (cb_out st) \<Longrightarrow> i \<notin> P \<Longrightarrow> trs (state_of (cb_out st) i) = []"
  by (auto simp: search_inv_def Let_def vstate_new_def)

text \<open>One iteration, with its effect on the number of transitions.\<close>

definition stepped ::
  "nat set \<Rightarrow> nat \<Rightarrow> nat list \<Rightarrow> ('w, 'st, 'c) comp_state \<Rightarrow> ('w, 'st, 'c) comp_state \<Rightarrow> bool" where
  "stepped P s q st st1 \<longleftrightarrow> sinv (insert s P) st1 \<and> s \<notin> P \<and> num_states (cb_out st) \<le> num_states (cb_out st1) \<and>
     total_trs (cb_out st) \<le> total_trs (cb_out st1) \<and>
     (\<forall>ms mt m. counted mt m (cb_out st) \<longrightarrow> cb_step W op C ms mt s (st\<lparr>cb_queue := q, cb_num_trs := m\<rparr>) =
      (if over mt (min (total_trs (cb_out st1)) usize_max) then Inl tr_limit_exceeded
       else if num_states (cb_out st1) = num_states (cb_out st) \<or> \<not> over ms (num_states (cb_out st1))
       then Inr (st1\<lparr>cb_num_trs := (if mt = None then m else min (total_trs (cb_out st1)) usize_max)\<rparr>)
       else Inl state_budget_exceeded)) \<and>
     lz_isymt (cb_lazy st1) = lz_isymt (cb_lazy st) \<and> lz_osymt (cb_lazy st1) = lz_osymt (cb_lazy st) \<and>
     (\<exists>ext. tab (lz_op (cb_lazy st1)) = tab (lz_op (cb_lazy st)) @ ext)"

lemma step_total:
  assumes inv: "sinv P st" and q: "cb_queue st = s # q"
  shows "\<exists>st1. stepped P s q st st1"
proof (rule search_step [OF inv q])
  fix st1 assume i1: "sinv (insert s P) st1" and s: "s \<notin> P" and le: "num_states (cb_out st) \<le> num_states (cb_out st1)"
    and step: "\<And>ms mt m. cb_step W op C ms mt s (st\<lparr>cb_queue := q, cb_num_trs := m\<rparr>) =
      rbind (cb_count mt (length (trs (state_of (cb_out st1) s))) (st1\<lparr>cb_num_trs := m\<rparr>)) (\<lambda>st2.
        if num_states (cb_out st1) = num_states (cb_out st) \<or> \<not> over ms (num_states (cb_out st1))
        then Inr st2 else Inl state_budget_exceeded)"
    and same: "\<And>i. i < num_states (cb_out st) \<Longrightarrow> i \<noteq> s \<Longrightarrow> trs (state_of (cb_out st1) i) = trs (state_of (cb_out st) i)"
    and sy: "lz_isymt (cb_lazy st1) = lz_isymt (cb_lazy st)" "lz_osymt (cb_lazy st1) = lz_osymt (cb_lazy st)"
    and ext: "\<exists>ext. tab (lz_op (cb_lazy st1)) = tab (lz_op (cb_lazy st)) @ ext"
  let ?n = "num_states (cb_out st)" and ?n1 = "num_states (cb_out st1)"
  let ?f = "\<lambda>i. length (trs (state_of (cb_out st) i))" and ?g = "\<lambda>i. length (trs (state_of (cb_out st1) i))"
  have sn: "s < ?n" using inv q by (auto simp: search_inv_def Let_def)
  have f0: "?f s = 0" using sinv_unexpanded [OF inv sn s] by simp
  have g0: "?g i = 0" if "i \<in> {?n ..< ?n1}" for i
  proof -
    have "i \<notin> insert s P" using that sn sinv_bound(1) [OF inv] by auto
    then show ?thesis using sinv_unexpanded [OF i1, of i] that by simp
  qed
  have "total_trs (cb_out st1) = sum ?g {..< ?n} + sum ?g {?n ..< ?n1}"
    unfolding total_trs_def lessThan_atLeast0 by (rule sum.atLeastLessThan_concat [symmetric]) (use le in auto)
  also have "sum ?g {?n ..< ?n1} = 0" using g0 by simp
  also have "sum ?g {..< ?n} = ?g s + sum ?g ({..< ?n} - {s})" by (rule sum.remove) (use sn in auto)
  also have "sum ?g ({..< ?n} - {s}) = sum ?f ({..< ?n} - {s})" by (rule sum.cong) (auto simp: same)
  also have "\<dots> = sum ?f {..< ?n}" using sum.remove [of "{..< ?n}" s ?f] sn f0 by simp
  finally have tot: "total_trs (cb_out st1) = total_trs (cb_out st) + ?g s"
    by (simp add: total_trs_def)
  have "\<forall>ms mt m. counted mt m (cb_out st) \<longrightarrow> cb_step W op C ms mt s (st\<lparr>cb_queue := q, cb_num_trs := m\<rparr>) =
      (if over mt (min (total_trs (cb_out st1)) usize_max) then Inl tr_limit_exceeded
       else if num_states (cb_out st1) = num_states (cb_out st) \<or> \<not> over ms (num_states (cb_out st1))
       then Inr (st1\<lparr>cb_num_trs := (if mt = None then m else min (total_trs (cb_out st1)) usize_max)\<rparr>)
       else Inl state_budget_exceeded)"
  proof (intro allI impI)
    fix ms mt m assume "counted mt m (cb_out st)"
    from counted_step [OF this tot, of st1]
    show "cb_step W op C ms mt s (st\<lparr>cb_queue := q, cb_num_trs := m\<rparr>) =
      (if over mt (min (total_trs (cb_out st1)) usize_max) then Inl tr_limit_exceeded
       else if num_states (cb_out st1) = num_states (cb_out st) \<or> \<not> over ms (num_states (cb_out st1))
       then Inr (st1\<lparr>cb_num_trs := (if mt = None then m else min (total_trs (cb_out st1)) usize_max)\<rparr>)
       else Inl state_budget_exceeded)"
      by (simp add: step)
  qed
  then have "stepped P s q st st1" unfolding stepped_def using i1 s le tot sy ext by simp
  then show ?thesis by blast
qed

text \<open>What a finished search leaves.\<close>

definition finished :: "('w, 'st, 'c) comp_state \<Rightarrow> ('w, 'st, 'c) comp_state \<Rightarrow> bool" where
  "finished st x \<longleftrightarrow> sinv {..< num_states (cb_out x)} x \<and> cb_queue x = [] \<and>
     num_states (cb_out st) \<le> num_states (cb_out x) \<and> total_trs (cb_out st) \<le> total_trs (cb_out x) \<and>
     lz_isymt (cb_lazy x) = lz_isymt (cb_lazy st) \<and> lz_osymt (cb_lazy x) = lz_osymt (cb_lazy st) \<and>
     (\<exists>ext. tab (lz_op (cb_lazy x)) = tab (lz_op (cb_lazy st)) @ ext)"

lemma finished_step: "stepped P s q st st1 \<Longrightarrow> finished st1 x \<Longrightarrow> finished st x"
  by (auto simp: finished_def stepped_def)

lemma stepped_counted:
  "stepped P s q st st1 \<Longrightarrow> counted mt m (cb_out st) \<Longrightarrow>
   cb_step W op C ms mt s (st\<lparr>cb_queue := q, cb_num_trs := m\<rparr>) =
      (if over mt (min (total_trs (cb_out st1)) usize_max) then Inl tr_limit_exceeded
       else if num_states (cb_out st1) = num_states (cb_out st) \<or> \<not> over ms (num_states (cb_out st1))
       then Inr (st1\<lparr>cb_num_trs := (if mt = None then m else min (total_trs (cb_out st1)) usize_max)\<rparr>)
       else Inl state_budget_exceeded)"
  by (simp add: stepped_def)

lemma loop_stop: "cb_queue st = [] \<Longrightarrow> cb_loop W op C ms mt st = Some (Inr st)"
  by (subst cb_loop.simps) simp

lemma loop_next:
  assumes q: "cb_queue st = s # q"
  shows "cb_loop W op C ms mt (st\<lparr>cb_num_trs := m\<rparr>) =
    (case cb_step W op C ms mt s (st\<lparr>cb_queue := q, cb_num_trs := m\<rparr>) of
       Inl e \<Rightarrow> Some (Inl e) | Inr st' \<Rightarrow> cb_loop W op C ms mt st')"
proof -
  have e: "st\<lparr>cb_num_trs := m, cb_queue := q\<rparr> = st\<lparr>cb_queue := q, cb_num_trs := m\<rparr>" by simp
  show ?thesis by (subst cb_loop.simps) (simp add: q e)
qed

text \<open>
  \<open>B\<close> bounds the states a continuing search may know: the size of the universe or the budget.
\<close>

definition bounded_by :: "nat option \<Rightarrow> nat \<Rightarrow> bool" where
  "bounded_by ms B \<longleftrightarrow> (\<forall>P st. sinv P st \<longrightarrow> \<not> over ms (num_states (cb_out st)) \<longrightarrow> num_states (cb_out st) \<le> B)"

lemma loop_returns:
  assumes B: "bounded_by ms B"
  shows "sinv P st \<Longrightarrow> num_states (cb_out st) \<le> B \<Longrightarrow> counted mt m (cb_out st) \<Longrightarrow>
    \<exists>r. cb_loop W op C ms mt (st\<lparr>cb_num_trs := m\<rparr>) = Some r \<and>
      (case r of Inl e \<Rightarrow> cut_off e \<and> (ms \<noteq> None \<or> mt \<noteq> None)
       | Inr x \<Rightarrow> finished st x \<and> fits ms mt (num_states (cb_out st)) (cb_out x) \<and>
           (\<forall>m0. \<exists>m'. cb_loop W op C None None (st\<lparr>cb_num_trs := m0\<rparr>) = Some (Inr (x\<lparr>cb_num_trs := m'\<rparr>))))"
proof (induction "B - card P" arbitrary: P st m rule: less_induct)
  case less
  show ?case
  proof (cases "cb_queue st")
    case Nil
    then have "finished st (st\<lparr>cb_num_trs := m\<rparr>)"
      using less.prems(1) sinv_bound(4) [OF less.prems(1) Nil] by (simp add: finished_def)
    moreover have "fits ms mt (num_states (cb_out st)) (cb_out st)"
      using less.prems(3) by (cases mt) (auto simp: fits_def counted_def)
    moreover have "\<exists>m'. cb_loop W op C None None (st\<lparr>cb_num_trs := m0\<rparr>) = Some (Inr (st\<lparr>cb_num_trs := m'\<rparr>))" for m0
      using Nil by (auto simp: loop_stop)
    ultimately show ?thesis using Nil by (simp add: loop_stop)
  next
    case (Cons s q)
    obtain st1 where st1: "stepped P s q st st1" using step_total [OF less.prems(1) Cons] by blast
    then have i1: "sinv (insert s P) st1" and s: "s \<notin> P" and le: "num_states (cb_out st) \<le> num_states (cb_out st1)"
      by (simp_all add: stepped_def)
    note step = stepped_counted [OF st1 less.prems(3)]
    let ?m = "if mt = None then m else min (total_trs (cb_out st1)) usize_max"
    show ?thesis
    proof (cases "over mt (min (total_trs (cb_out st1)) usize_max)")
      case True
      then show ?thesis
        by (simp add: loop_next [OF Cons] step cut_off_def) (auto simp: over_def)
    next
      case nT: False
      show ?thesis
      proof (cases "num_states (cb_out st1) = num_states (cb_out st) \<or> \<not> over ms (num_states (cb_out st1))")
        case False
        then show ?thesis using nT
          by (simp add: loop_next [OF Cons] step cut_off_def) (auto simp: over_def)
      next
        case go: True
        have b1: "num_states (cb_out st1) \<le> B"
          using go less.prems(2) B i1 unfolding bounded_by_def by auto
        have "insert s P \<subseteq> {..< num_states (cb_out st1)}" by (rule sinv_bound(1) [OF i1])
        then have "card (insert s P) \<le> B" "finite P" using b1 card_mono [of "{..< num_states (cb_out st1)}" "insert s P"]
          by (auto intro: finite_subset)
        then have d: "B - card (insert s P) < B - card P" using s by simp
        have c1: "counted mt ?m (cb_out st1)" using nT by (simp add: counted_def)
        from less.hyps [OF d i1 b1 c1] obtain r where r: "cb_loop W op C ms mt (st1\<lparr>cb_num_trs := ?m\<rparr>) = Some r"
          "case r of Inl e \<Rightarrow> cut_off e \<and> (ms \<noteq> None \<or> mt \<noteq> None)
           | Inr x \<Rightarrow> finished st1 x \<and> fits ms mt (num_states (cb_out st1)) (cb_out x) \<and>
               (\<forall>m0. \<exists>m'. cb_loop W op C None None (st1\<lparr>cb_num_trs := m0\<rparr>) = Some (Inr (x\<lparr>cb_num_trs := m'\<rparr>)))"
          by blast
        have l: "cb_loop W op C ms mt (st\<lparr>cb_num_trs := m\<rparr>) = Some r"
          using go nT r(1) by (simp add: loop_next [OF Cons] step)
        show ?thesis
        proof (cases r)
          case (Inl e)
          with l r(2) show ?thesis by simp
        next
          case (Inr x)
          with r(2) have x: "finished st1 x" "fits ms mt (num_states (cb_out st1)) (cb_out x)"
            "\<forall>m0. \<exists>m'. cb_loop W op C None None (st1\<lparr>cb_num_trs := m0\<rparr>) = Some (Inr (x\<lparr>cb_num_trs := m'\<rparr>))" by simp_all
          have "cb_loop W op C None None (st\<lparr>cb_num_trs := m0\<rparr>) = cb_loop W op C None None (st1\<lparr>cb_num_trs := m0\<rparr>)" for m0
            by (simp add: loop_next [OF Cons] stepped_counted [OF st1] counted_def)
          with x(3) have "\<forall>m0. \<exists>m'. cb_loop W op C None None (st\<lparr>cb_num_trs := m0\<rparr>) = Some (Inr (x\<lparr>cb_num_trs := m'\<rparr>))"
            by simp
          moreover have "fits ms mt (num_states (cb_out st)) (cb_out x)" using x(2) go by (auto simp: fits_def)
          ultimately show ?thesis using finished_step [OF st1 x(1)] l Inr by simp
        qed
      qed
    qed
  qed
qed

text \<open>A run without budgets against a run with budgets, in both directions.\<close>

definition cut_run :: "nat option \<Rightarrow> nat option \<Rightarrow> nat \<Rightarrow> ('w, 'st, 'c) comp_state \<Rightarrow> ('w, 'st, 'c) comp_state \<Rightarrow> bool" where
  "cut_run ms mt m st x \<longleftrightarrow>
     (if fits ms mt (num_states (cb_out st)) (cb_out x)
      then \<exists>m'. cb_loop W op C ms mt (st\<lparr>cb_num_trs := m\<rparr>) = Some (Inr (x\<lparr>cb_num_trs := m'\<rparr>))
      else \<exists>e. cut_off e \<and> cb_loop W op C ms mt (st\<lparr>cb_num_trs := m\<rparr>) = Some (Inl e))"

lemma cut_run_stop:
  assumes "cb_queue st = []" "counted mt m (cb_out st)"
  shows "cut_run ms mt m st (st\<lparr>cb_num_trs := m0\<rparr>)"
proof -
  have "fits ms mt (num_states (cb_out st)) (cb_out st)"
    using assms(2) by (cases mt) (auto simp: fits_def counted_def)
  moreover have "cb_loop W op C ms mt (st\<lparr>cb_num_trs := m\<rparr>) = Some (Inr (st\<lparr>cb_num_trs := m\<rparr>))"
    using assms(1) by (simp add: loop_stop)
  ultimately show ?thesis by (auto simp: cut_run_def)
qed

lemma cut_run_step:
  assumes st1: "stepped P s q st st1" and q: "cb_queue st = s # q" and cnt: "counted mt m (cb_out st)"
    and fin: "finished st1 x" and ih: "\<forall>m. counted mt m (cb_out st1) \<longrightarrow> cut_run ms mt m st1 x"
  shows "cut_run ms mt m st x"
proof -
  let ?m = "if mt = None then m else min (total_trs (cb_out st1)) usize_max"
  let ?n = "num_states (cb_out st)" and ?n1 = "num_states (cb_out st1)"
  note step = stepped_counted [OF st1 cnt] and nxt = loop_next [OF q]
  have le: "?n \<le> ?n1" "?n1 \<le> num_states (cb_out x)" "total_trs (cb_out st1) \<le> total_trs (cb_out x)"
    using st1 fin by (simp_all add: stepped_def finished_def)
  show ?thesis
  proof (cases "over mt (min (total_trs (cb_out st1)) usize_max)")
    case True
    then have "over mt (min (total_trs (cb_out x)) usize_max)" using le(3) by (auto elim!: over_mono)
    with True show ?thesis by (auto simp: cut_run_def nxt step cut_off_def fits_def)
  next
    case nT: False
    then have c1: "counted mt ?m (cb_out st1)" by (simp add: counted_def)
    show ?thesis
    proof (cases "?n1 = ?n \<or> \<not> over ms ?n1")
      case False
      then have "over ms (num_states (cb_out x))" "num_states (cb_out x) \<noteq> ?n" using le by (auto elim!: over_mono)
      with False nT show ?thesis by (auto simp: cut_run_def nxt step cut_off_def fits_def)
    next
      case go: True
      have f: "fits ms mt ?n1 (cb_out x) \<longleftrightarrow> fits ms mt ?n (cb_out x)"
        using go le by (auto simp: fits_def)
      have "cut_run ms mt ?m st1 x" using ih c1 by blast
      with go nT f show ?thesis by (simp add: cut_run_def nxt step)
    qed
  qed
qed

lemma cut_runs:
  assumes "cb_loop W op C None None s0 = Some y"
  shows "\<forall>P st x m0. s0 = st\<lparr>cb_num_trs := m0\<rparr> \<longrightarrow> y = Inr x \<longrightarrow> sinv P st \<longrightarrow> finished st x \<and>
    (\<forall>m. counted mt m (cb_out st) \<longrightarrow> cut_run ms mt m st x)"
proof -
  have "W = W \<longrightarrow> op = op \<longrightarrow> C = C \<longrightarrow> None = (None :: nat option) \<longrightarrow> None = (None :: nat option) \<longrightarrow>
    (\<forall>P st x m0. s0 = st\<lparr>cb_num_trs := m0\<rparr> \<longrightarrow> y = Inr x \<longrightarrow> sinv P st \<longrightarrow> finished st x \<and>
      (\<forall>m. counted mt m (cb_out st) \<longrightarrow> cut_run ms mt m st x))"
  proof (rule cb_loop.raw_induct [where P = "\<lambda>W' op' C' ms0 mt0 s0 y. W' = W \<longrightarrow> op' = op \<longrightarrow> C' = C \<longrightarrow>
      ms0 = None \<longrightarrow> mt0 = None \<longrightarrow> (\<forall>P st x m0. s0 = st\<lparr>cb_num_trs := m0\<rparr> \<longrightarrow> y = Inr x \<longrightarrow> sinv P st \<longrightarrow>
      finished st x \<and> (\<forall>m. counted mt m (cb_out st) \<longrightarrow> cut_run ms mt m st x))", OF _ assms])
    fix rec W' op' C' ms0 mt0 s0 y
    assume IH: "\<And>W' op' C' ms0 mt0 s0 y. rec W' op' C' ms0 mt0 s0 = Some y \<Longrightarrow>
        W' = W \<longrightarrow> op' = op \<longrightarrow> C' = C \<longrightarrow> ms0 = None \<longrightarrow> mt0 = None \<longrightarrow>
        (\<forall>P st x m0. s0 = st\<lparr>cb_num_trs := m0\<rparr> \<longrightarrow> y = Inr x \<longrightarrow> sinv P st \<longrightarrow>
          finished st x \<and> (\<forall>m. counted mt m (cb_out st) \<longrightarrow> cut_run ms mt m st x))"
      and body: "(case cb_queue s0 of [] \<Rightarrow> Some (Inr s0)
        | s # q \<Rightarrow> (case cb_step W' op' C' ms0 mt0 s (s0\<lparr>cb_queue := q\<rparr>) of
            Inl e \<Rightarrow> Some (Inl e) | Inr st' \<Rightarrow> rec W' op' C' ms0 mt0 st')) = Some y"
    show "W' = W \<longrightarrow> op' = op \<longrightarrow> C' = C \<longrightarrow> ms0 = None \<longrightarrow> mt0 = None \<longrightarrow>
        (\<forall>P st x m0. s0 = st\<lparr>cb_num_trs := m0\<rparr> \<longrightarrow> y = Inr x \<longrightarrow> sinv P st \<longrightarrow>
          finished st x \<and> (\<forall>m. counted mt m (cb_out st) \<longrightarrow> cut_run ms mt m st x))"
    proof (intro impI allI)
      fix P st x m0
      assume eqs: "W' = W" "op' = op" "C' = C" "ms0 = None" "mt0 = None" "s0 = st\<lparr>cb_num_trs := m0\<rparr>" "y = Inr x"
        and inv: "sinv P st"
      show "finished st x \<and> (\<forall>m. counted mt m (cb_out st) \<longrightarrow> cut_run ms mt m st x)"
      proof (cases "cb_queue st")
        case Nil
        then have x: "x = st\<lparr>cb_num_trs := m0\<rparr>" using body eqs by simp
        have "finished st x" using inv sinv_bound(4) [OF inv Nil] Nil by (simp add: finished_def x)
        then show ?thesis using cut_run_stop [OF Nil] by (simp add: x)
      next
        case (Cons s q)
        obtain st1 where st1: "stepped P s q st st1" using step_total [OF inv Cons] by blast
        then have i1: "sinv (insert s P) st1" by (simp add: stepped_def)
        have e: "st\<lparr>cb_num_trs := m0, cb_queue := q\<rparr> = st\<lparr>cb_queue := q, cb_num_trs := m0\<rparr>" by simp
        have "cb_step W op C None None s (st\<lparr>cb_queue := q, cb_num_trs := m0\<rparr>) = Inr (st1\<lparr>cb_num_trs := m0\<rparr>)"
          by (subst stepped_counted [OF st1]) (simp_all add: counted_def)
        then have "rec W op C None None (st1\<lparr>cb_num_trs := m0\<rparr>) = Some (Inr x)"
          using body eqs Cons by (simp add: e)
        from IH [OF this] i1 have ih: "finished st1 x" "\<forall>m. counted mt m (cb_out st1) \<longrightarrow> cut_run ms mt m st1 x"
          by blast+
        show ?thesis using finished_step [OF st1 ih(1)] cut_run_step [OF st1 Cons _ ih] by blast
      qed
    qed
  qed
  then show ?thesis by blast
qed

text \<open>The start of the search.\<close>

definition lazy_fresh :: "('st, 'c) lazy_fst \<Rightarrow> bool" where
  "lazy_fresh l \<longleftrightarrow> ok init \<and> lz_op l = init \<and> lz_cache l = fresh"

lemma begin_search:
  assumes l: "lazy_fresh l"
  obtains (none) "start = None" "\<And>ms mt. compute_bounded W op C ms mt l = Some (Inr vfst_new)"
  | (some) k st where "start = Some k" "sinv {} st" "num_states (cb_out st) = 1" "total_trs (cb_out st) = 0"
    "tab (lz_op (cb_lazy st)) = [k]"
    "\<And>ms mt. compute_bounded W op C ms mt l = (case cb_loop W op C ms mt (st\<lparr>cb_num_trs := 0\<rparr>) of
       None \<Rightarrow> None | Some (Inl e) \<Rightarrow> Some (Inl e) | Some (Inr x) \<Rightarrow> Some (Inr (cb_result op x)))"
proof -
  from l start_law obtain st0 where st0: "op_compute_start op init = Inr (map_option (\<lambda>_. 0) start, st0)" "ok st0"
    "tab st0 = (case start of None \<Rightarrow> [] | Some k \<Rightarrow> [k])" by (auto simp: lazy_fresh_def)
  define l1 where "l1 = l\<lparr>lz_op := st0, lz_cache := fc_insert_start C (map_option (\<lambda>_. 0) start) fresh\<rparr>"
  have ls: "lazy_start op C l = Inr (map_option (\<lambda>_. 0) start, l1)"
    using l by (simp add: lazy_start_def lazy_fresh_def fresh_start st0(1) l1_def)
  have c1: "cok (lz_cache l1)" by (simp add: l1_def start_ok fresh_ok)
  have miss: "fc_get_trs C i (lz_cache l1) = NotComputed \<and> fc_get_final_weight C i (lz_cache l1) = NotComputed" for i
    by (simp add: l1_def trs_start [OF fresh_ok] final_start [OF fresh_ok] fresh_trs fresh_final)
  show thesis
  proof (cases start)
    case None
    then show thesis by (rule none) (simp add: compute_bounded_def ls None)
  next
    case (Some k)
    define out where "out = set_start_unchecked (add_states (vfst_new :: 'w vfst) 1) 0"
    have so: "set_start (add_states (vfst_new :: 'w vfst) 1) 0 = Inr out"
      by (simp add: out_def set_start_def add_states_def vfst_new_def)
    have fo: "fst_ok W out" by (rule set_start_ok [OF add_states_ok [OF new_ok] so])
    have os: "states out = [vstate_new]" "start_state out = Some 0"
      by (simp_all add: out_def set_start_unchecked_def add_states_def vfst_new_def)
    define st where "st = cb_begin out 0 l1"
    have T: "tab (lz_op (cb_lazy st)) = [k]" using Some st0(3) by (simp add: st_def cb_begin_def l1_def)
    have "{j. j = 0 \<and> [True] ! j} = {0 :: nat}" by auto
    then have "scan_inv {..< 1} st" by (simp add: scan_inv_def st_def cb_begin_def os lessThan_Suc)
    then have inv: "sinv {} st"
      using st0(2) c1 miss fo os T unfolding search_inv_def Let_def
      by (simp add: st_def cb_begin_def l1_def lessThan_Suc)
    have e: "st\<lparr>cb_num_trs := 0\<rparr> = st" by (simp add: st_def cb_begin_def)
    show thesis
    proof (rule some [OF Some inv _ _ T])
      show "num_states (cb_out st) = 1" "total_trs (cb_out st) = 0"
        by (simp_all add: st_def cb_begin_def os total_trs_def vstate_new_def)
      show "compute_bounded W op C ms mt l = (case cb_loop W op C ms mt (st\<lparr>cb_num_trs := 0\<rparr>) of
         None \<Rightarrow> None | Some (Inl e) \<Rightarrow> Some (Inl e) | Some (Inr x) \<Rightarrow> Some (Inr (cb_result op x)))" for ms mt
        unfolding e by (simp add: compute_bounded_def ls Some so [unfolded One_nat_def] st_def)
    qed
  qed
qed

end

text \<open>What the materialised transducer is, read through the tuples \<open>T\<close> of its states.\<close>

definition materialises ::
  "'k list \<Rightarrow> 'k option \<Rightarrow> ('k \<Rightarrow> (label \<times> label \<times> 'w \<times> 'k) list) \<Rightarrow> ('k \<Rightarrow> 'w option) \<Rightarrow> 'w vfst \<Rightarrow> bool" where
  "materialises T start expand fin F \<longleftrightarrow> distinct T \<and> num_states F = length T \<and>
     start_state F = map_option (\<lambda>_. 0) start \<and> (\<forall>k. start = Some k \<longrightarrow> (\<exists>ks. T = k # ks)) \<and> (start = None \<longrightarrow> T = []) \<and>
     (\<forall>i < length T. expanded_as T expand fin i (state_of F i)) \<and> eps_counts_ok F \<and> targets_ok F"

lemma cb_result_simps [simp]:
  "states (cb_result op x) = states (cb_out x)" "start_state (cb_result op x) = start_state (cb_out x)"
  "properties (cb_result op x) = op_properties op"
  by (simp_all add: cb_result_def set_properties_def set_input_symbols_def set_output_symbols_def Let_def split: option.splits)

lemma cb_result_num_trs [simp]: "cb_result op (x\<lparr>cb_num_trs := m\<rparr>) = cb_result op x"
  by (simp add: cb_result_def)

definition budgets_fit :: "nat option \<Rightarrow> nat option \<Rightarrow> 'w vfst \<Rightarrow> bool" where
  "budgets_fit ms mt F \<longleftrightarrow> (num_states F \<le> 1 \<or> \<not> over ms (num_states F)) \<and> \<not> over mt (min (total_trs F) usize_max)"

context lazy_run
begin

lemma finished_materialises:
  assumes x: "finished st x" and T0: "tab (lz_op (cb_lazy st)) = [k]" and s: "start = Some k"
  shows "materialises (tab (lz_op (cb_lazy x))) start expand fin (cb_result op x)" "1 \<le> num_states (cb_out x)"
    "ok (lz_op (cb_lazy x))"
proof -
  let ?T = "tab (lz_op (cb_lazy x))"
  from x have inv: "sinv {..< num_states (cb_out x)} x" by (simp add: finished_def)
  from x T0 obtain ext where T: "?T = k # ext" by (auto simp: finished_def)
  from inv have o: "ok (lz_op (cb_lazy x))" "num_states (cb_out x) = length ?T" "fst_ok W (cb_out x)"
    "start_state (cb_out x) = Some 0"
    "\<forall>i < length ?T. expanded_as ?T expand fin i (state_of (cb_out x) i)"
    by (auto simp: search_inv_def Let_def)
  then show "1 \<le> num_states (cb_out x)" "ok (lz_op (cb_lazy x))" by (simp_all add: T)
  have "eps_counts_ok (cb_result op x)" "targets_ok (cb_result op x)"
    using o(3) by (simp_all add: fst_ok_def eps_counts_ok_def targets_ok_def)
  then show "materialises ?T start expand fin (cb_result op x)"
    using o tab_distinct [OF o(1)] T s by (simp add: materialises_def)
qed

lemma fits_budgets:
  "1 \<le> num_states (cb_out x) \<Longrightarrow> fits ms mt 1 (cb_out x) \<longleftrightarrow> budgets_fit ms mt (cb_result op x)"
  by (auto simp: fits_def budgets_fit_def total_trs_def)

text \<open>Over a finite universe the materialisation returns, and this is its result.\<close>

lemma compute_returns:
  assumes l: "lazy_fresh l" and U: "finite U" "\<And>st. ok st \<Longrightarrow> set (tab st) \<subseteq> U"
  shows "\<exists>F T. lazy_compute W op C l = Some (Inr F) \<and> materialises T start expand fin F \<and> set T \<subseteq> U \<and>
    (start \<noteq> None \<longrightarrow> properties F = op_properties op)"
proof (cases rule: begin_search [OF l])
  case 1
  then have "materialises [] start expand fin (vfst_new :: 'w vfst)"
    by (simp add: materialises_def vfst_new_counts vfst_new_targets) (simp add: vfst_new_def)
  with 1 show ?thesis by (intro exI [of _ vfst_new] exI [of _ "[]"]) (simp add: lazy_compute_def)
next
  case (2 k st)
  have "num_states (cb_out st) \<le> card U" if "sinv P st" for P st
  proof -
    from sinv_bound(2,3) [OF that] have "num_states (cb_out st) = card (set (tab (lz_op (cb_lazy st))))"
      using tab_distinct distinct_card by metis
    also have "\<dots> \<le> card U" using U sinv_bound(3) [OF that] by (simp add: card_mono)
    finally show ?thesis .
  qed
  then have b: "bounded_by None (card U)" "num_states (cb_out st) \<le> card U" using 2(2) by (auto simp: bounded_by_def)
  have c: "counted None 0 (cb_out st)" by (simp add: counted_def)
  obtain x where x: "cb_loop W op C None None (st\<lparr>cb_num_trs := 0\<rparr>) = Some (Inr x)" "finished st x"
  proof -
    from loop_returns [OF b(1) 2(2) b(2) c] obtain r where r: "cb_loop W op C None None (st\<lparr>cb_num_trs := 0\<rparr>) = Some r"
      "case r of Inl e \<Rightarrow> cut_off e \<and> (None \<noteq> (None :: nat option) \<or> None \<noteq> (None :: nat option))
      | Inr x \<Rightarrow> finished st x \<and> fits None None (num_states (cb_out st)) (cb_out x) \<and>
           (\<forall>m0. \<exists>m'. cb_loop W op C None None (st\<lparr>cb_num_trs := m0\<rparr>) = Some (Inr (x\<lparr>cb_num_trs := m'\<rparr>)))" by blast
    show thesis
    proof (cases r)
      case (Inr x)
      with r show thesis by (intro that [of x]) simp_all
    qed (use r in simp)
  qed
  note m = finished_materialises [OF x(2) 2(5,1)]
  have "lazy_compute W op C l = Some (Inr (cb_result op x))" using x(1) 2(6) by (simp add: lazy_compute_def)
  with m(1) U(2) [OF m(3)] show ?thesis by fastforce
qed

text \<open>A state budget makes it return whatever the operation does, within both budgets.\<close>

lemma budget_returns:
  assumes l: "lazy_fresh l"
  shows "\<exists>r. compute_bounded W op C (Some b) mt l = Some r \<and>
    (case r of Inl e \<Rightarrow> cut_off e
     | Inr F \<Rightarrow> budgets_fit (Some b) mt F \<and> lazy_compute W op C l = Some (Inr F))"
proof (cases rule: begin_search [OF l])
  case 1
  have "budgets_fit (Some b) mt (vfst_new :: 'w vfst)"
    by (simp add: budgets_fit_def total_trs_def vfst_new_def over_def split: option.splits)
  with 1 show ?thesis by (simp add: lazy_compute_def)
next
  case (2 k st)
  have bb: "bounded_by (Some b) (max 1 b)" by (auto simp: bounded_by_def over_def)
  have le: "num_states (cb_out st) \<le> max 1 b" and c: "counted mt 0 (cb_out st)"
    using 2(3,4) by (simp_all add: counted_def over_def split: option.splits)
  from loop_returns [OF bb 2(2) le c] obtain r where r: "cb_loop W op C (Some b) mt (st\<lparr>cb_num_trs := 0\<rparr>) = Some r"
    "case r of Inl e \<Rightarrow> cut_off e \<and> (Some b \<noteq> None \<or> mt \<noteq> None)
      | Inr x \<Rightarrow> finished st x \<and> fits (Some b) mt (num_states (cb_out st)) (cb_out x) \<and>
           (\<forall>m0. \<exists>m'. cb_loop W op C None None (st\<lparr>cb_num_trs := m0\<rparr>) = Some (Inr (x\<lparr>cb_num_trs := m'\<rparr>)))" by blast
  show ?thesis
  proof (cases r)
    case (Inl e)
    with r 2(6) show ?thesis by simp
  next
    case (Inr x)
    with r(2) obtain m' where x: "finished st x" "fits (Some b) mt 1 (cb_out x)"
      "cb_loop W op C None None (st\<lparr>cb_num_trs := 0\<rparr>) = Some (Inr (x\<lparr>cb_num_trs := m'\<rparr>))"
      using 2(3) by auto
    have "lazy_compute W op C l = Some (Inr (cb_result op x))" using x(3) 2(6) by (simp add: lazy_compute_def)
    moreover have "budgets_fit (Some b) mt (cb_result op x)"
      using x(2) fits_budgets [OF finished_materialises(2) [OF x(1) 2(5,1)]] by simp
    ultimately show ?thesis using r(1) Inr 2(6) by simp
  qed
qed

text \<open>Budgets that the unbounded result fits change nothing; others end the run with their error.\<close>

lemma budgets_exact:
  assumes l: "lazy_fresh l" and F: "lazy_compute W op C l = Some (Inr F)"
  shows "if budgets_fit ms mt F then compute_bounded W op C ms mt l = Some (Inr F)
    else \<exists>e. cut_off e \<and> compute_bounded W op C ms mt l = Some (Inl e)"
proof (cases rule: begin_search [OF l])
  case 1
  then have "F = vfst_new" using F by (simp add: lazy_compute_def)
  then have "budgets_fit ms mt F"
    by (simp add: budgets_fit_def total_trs_def vfst_new_def over_def split: option.splits)
  with 1 \<open>F = vfst_new\<close> show ?thesis by simp
next
  case (2 k st)
  obtain x where x: "cb_loop W op C None None (st\<lparr>cb_num_trs := 0\<rparr>) = Some (Inr x)" "F = cb_result op x"
    using F 2(6) by (auto simp: lazy_compute_def split: option.splits sum.splits)
  have c: "counted mt 0 (cb_out st)"
    using 2(4) by (simp add: counted_def over_def split: option.splits)
  from cut_runs [OF x(1), of mt ms] 2(2) c have "finished st x" "cut_run ms mt 0 st x" by blast+
  with fits_budgets [OF finished_materialises(2) [OF _ 2(5,1)]] 2(3,6) x(2) show ?thesis
    by (auto simp: cut_run_def)
qed

text \<open>Whatever made the search return, its result is the machine.\<close>

lemma computed_materialises:
  assumes l: "lazy_fresh l" and F: "lazy_compute W op C l = Some (Inr F)"
  shows "\<exists>T. materialises T start expand fin F \<and> (\<forall>U. (\<forall>st. ok st \<longrightarrow> set (tab st) \<subseteq> U) \<longrightarrow> set T \<subseteq> U)"
proof (cases rule: begin_search [OF l])
  case 1
  then have "F = vfst_new" using F by (simp add: lazy_compute_def)
  moreover have "materialises [] start expand fin (vfst_new :: 'w vfst)"
    using 1(1) by (simp add: materialises_def vfst_new_counts vfst_new_targets) (simp add: vfst_new_def)
  ultimately show ?thesis by (intro exI [of _ "[]"]) simp
next
  case (2 k st)
  obtain x where x: "cb_loop W op C None None (st\<lparr>cb_num_trs := 0\<rparr>) = Some (Inr x)" "F = cb_result op x"
    using F 2(6) by (auto simp: lazy_compute_def split: option.splits sum.splits)
  have c: "counted None 0 (cb_out st)" by (simp add: counted_def)
  from cut_runs [OF x(1), of None None] 2(2) c have fin: "finished st x" by blast
  from finished_materialises [OF fin 2(5,1)] x(2) show ?thesis by blast
qed

end

end
