(* ===== verification/Tuple_Machine.thy ===== *)
theory Tuple_Machine
  imports Lazy_Bounds Path_Semantics
begin

text \<open>
  The transduction of a machine given on tuples, and that a transducer which materialises the
  machine has the same one. Each lazy operation is then proved correct on its tuples.
\<close>

subsection \<open>Interning a list of moves\<close>

definition emits ::
  "'k bi_map \<Rightarrow> (label \<times> label \<times> 'w \<times> 'k) list \<Rightarrow> 'k bi_map \<Rightarrow> 'w tr list \<Rightarrow> bool" where
  "emits tab ms tab' ts \<longleftrightarrow> bi_map_ok tab' \<and>
     (\<exists>ext. id_to_tuple tab' = id_to_tuple tab @ ext \<and> set ext \<subseteq> move_targets ms) \<and>
     list_all2 (arc_rel (id_to_tuple tab')) ts ms"

lemma emits_Nil: "bi_map_ok tab \<Longrightarrow> emits tab [] tab []"
  by (simp add: emits_def move_targets_def)

lemma emits_one:
  assumes "bi_map_ok tab" "table_id_or_insert k tab = (i, tab')"
  shows "emits tab [(il, ol, w, k)] tab' [tr_new il ol w i]"
  using table_id_or_insert [OF assms] by (auto simp: emits_def move_targets_def arc_rel_def)

lemma arc_rel_grow:
  "list_all2 (arc_rel T) ts ms \<Longrightarrow> list_all2 (arc_rel (T @ ext)) ts ms"
  by (erule list_all2_mono) (rule arc_rel_append)

lemma emits_append:
  assumes "emits tab ms tab1 ts" "emits tab1 ns tab2 us"
  shows "emits tab (ms @ ns) tab2 (ts @ us)"
proof -
  from assms obtain e1 e2 where "id_to_tuple tab1 = id_to_tuple tab @ e1" "set e1 \<subseteq> move_targets ms"
    "id_to_tuple tab2 = id_to_tuple tab1 @ e2" "set e2 \<subseteq> move_targets ns"
    "list_all2 (arc_rel (id_to_tuple tab1)) ts ms" by (auto simp: emits_def)
  with assms arc_rel_grow [of "id_to_tuple tab1" ts ms e2] show ?thesis
    by (auto simp: emits_def move_targets_def intro!: list_all2_appendI)
qed

subsection \<open>The transduction\<close>

inductive taccepts ::
  "('w \<Rightarrow> 'w \<Rightarrow> 'w) \<Rightarrow> ('k \<Rightarrow> (label \<times> label \<times> 'w \<times> 'k) list) \<Rightarrow> ('k \<Rightarrow> 'w option) \<Rightarrow>
   'k \<Rightarrow> label list \<Rightarrow> label list \<Rightarrow> 'w \<Rightarrow> bool"
  for mul expand fin where
  tacc_final: "fin k = Some w \<Longrightarrow> taccepts mul expand fin k [] [] w"
| tacc_move: "(il, ol, w, k') \<in> set (expand k) \<Longrightarrow> taccepts mul expand fin k' x y v \<Longrightarrow>
    taccepts mul expand fin k (ext_label il x) (ext_label ol y) (mul w v)"

lemma expanded_arc:
  assumes "expanded_as T expand fin i v" "t \<in> set (trs v)"
  shows "(ilabel t, olabel t, weight t, T ! nextstate t) \<in> set (expand (T ! i))" "nextstate t < length T"
proof -
  from assms(2) obtain j where j: "j < length (trs v)" "trs v ! j = t" by (auto simp: in_set_conv_nth)
  with assms(1) have "arc_rel T t (expand (T ! i) ! j)" "j < length (expand (T ! i))"
    by (auto simp: expanded_as_def list_all2_conv_all_nth)
  then show "(ilabel t, olabel t, weight t, T ! nextstate t) \<in> set (expand (T ! i))" "nextstate t < length T"
    by (auto simp: arc_rel_def in_set_conv_nth split: prod.splits)
qed

lemma expanded_move:
  assumes "expanded_as T expand fin i v" "(il, ol, w, k) \<in> set (expand (T ! i))"
  shows "\<exists>t \<in> set (trs v). ilabel t = il \<and> olabel t = ol \<and> weight t = w \<and> nextstate t < length T \<and> T ! nextstate t = k"
proof -
  from assms(2) obtain j where j: "j < length (expand (T ! i))" "expand (T ! i) ! j = (il, ol, w, k)"
    by (auto simp: in_set_conv_nth)
  with assms(1) have "arc_rel T (trs v ! j) (il, ol, w, k)" "j < length (trs v)"
    by (auto simp: expanded_as_def list_all2_conv_all_nth)
  then show ?thesis by (intro bexI [of _ "trs v ! j"]) (auto simp: arc_rel_def)
qed

lemma materialises_accepts:
  assumes m: "materialises T start expand fin F"
  shows "i < length T \<Longrightarrow> accepts mul F i x y w \<longleftrightarrow> taccepts mul expand fin (T ! i) x y w"
proof
  assume "accepts mul F i x y w"
  then show "taccepts mul expand fin (T ! i) x y w"
  proof (induction rule: accepts.induct)
    case (acc_final s w)
    with m have "fin (T ! s) = Some w" by (auto simp: materialises_def final_at_def expanded_as_def)
    then show ?case by (rule tacc_final)
  next
    case (acc_arc s t x y w)
    from acc_arc.hyps(1) m have "expanded_as T expand fin s (state_of F s)" "t \<in> set (trs (state_of F s))"
      by (auto simp: materialises_def arcs_def)
    from tacc_move [OF expanded_arc(1) [OF this] acc_arc.IH] show ?case .
  qed
next
  have "taccepts mul expand fin k x y w \<Longrightarrow> \<forall>i < length T. T ! i = k \<longrightarrow> accepts mul F i x y w" for k
  proof (induction rule: taccepts.induct)
    case (tacc_final k w)
    with m show ?case by (auto simp: materialises_def final_at_def expanded_as_def intro!: acc_final)
  next
    case (tacc_move il ol w k' k x y v)
    show ?case
    proof (intro allI impI)
      fix i assume i: "i < length T" "T ! i = k"
      with m have e: "expanded_as T expand fin i (state_of F i)" "i < num_states F" by (auto simp: materialises_def)
      from tacc_move.hyps(1) i obtain t where t: "t \<in> set (trs (state_of F i))" "ilabel t = il" "olabel t = ol"
        "weight t = w" "nextstate t < length T" "T ! nextstate t = k'"
        using expanded_move [OF e(1)] by blast
      from t tacc_move.IH have "accepts mul F (nextstate t) x y v" by blast
      from acc_arc [OF _ this, of i] t e(2) show "accepts mul F i (ext_label il x) (ext_label ol y) (mul w v)"
        by (simp add: arcs_def)
    qed
  qed
  then show "i < length T \<Longrightarrow> taccepts mul expand fin (T ! i) x y w \<Longrightarrow> accepts mul F i x y w" by blast
qed

lemma materialises_transduces:
  assumes m: "materialises T start expand fin F"
  shows "transduces mul F x y w \<longleftrightarrow> (\<exists>k. start = Some k \<and> taccepts mul expand fin k x y w)"
proof (cases start)
  case None
  with m show ?thesis by (simp add: transduces_def materialises_def)
next
  case (Some k)
  with m obtain ks where "T = k # ks" "start_state F = Some 0" by (auto simp: materialises_def)
  with materialises_accepts [OF m, of 0] Some show ?thesis by (simp add: transduces_def)
qed

end
