(* ===== verification/Compose_Machine.thy ===== *)
theory Compose_Machine
  imports Compose_Op Tuple_Machine
begin

text \<open>
  The composition operation on its triples: which pairs of transitions an expansion forms, what it
  returns, and that it satisfies the contract of an operation on interned tuples for every filter
  that satisfies the laws of \<open>filter_laws\<close>.
\<close>

subsection \<open>Filters that keep their state apart\<close>

text \<open>
  The laws of a composition filter: its state is one of finitely many, \<open>set_state\<close> always leads to the
  same variables (\<open>ctx\<close>), and a pair of transitions only decides the next filter state (\<open>fstep\<close>).
\<close>

locale filter_laws =
  fixes f :: "('w, 'fs, 'c) compose_filter"
    and F1 F2 :: "'w vfst"
    and fstates :: "'fs set"
    and ctx :: "'fs \<Rightarrow> state_id \<Rightarrow> state_id \<Rightarrow> 'c"
    and fstep :: "'fs \<Rightarrow> state_id \<Rightarrow> state_id \<Rightarrow> 'w tr \<Rightarrow> 'w tr \<Rightarrow> 'fs"
  assumes finite_fstates: "finite fstates"
    and start_in: "cf_start f \<in> fstates"
    and set_state_ctx: "eps_counts_ok F1 \<Longrightarrow> eps_counts_ok F2 \<Longrightarrow> fs \<in> fstates \<Longrightarrow> s1 < num_states F1 \<Longrightarrow> s2 < num_states F2 \<Longrightarrow>
      cf_set_state f s1 s2 fs (cf_build f) = Inr (ctx fs s1 s2)"
    and filter_tr_ctx: "cf_filter_tr f a b (ctx fs s1 s2) = Inr (fstep fs s1 s2 a b, a, b, ctx fs s1 s2)"
    and fstep_in: "fs \<in> fstates \<Longrightarrow> fstep fs s1 s2 a b \<noteq> cf_no_state f \<Longrightarrow> fstep fs s1 s2 a b \<in> fstates"
    and filter_final_id: "cf_filter_final f w1 w2 c = Inr (w1, w2)"

subsection \<open>The pairs of an expansion\<close>

definition loop1 :: "'w semiring \<Rightarrow> state_id \<Rightarrow> 'w tr" where
  "loop1 W s = tr_new EPS_LABEL NO_LABEL (one_w W) s"

definition loop2 :: "'w semiring \<Rightarrow> state_id \<Rightarrow> 'w tr" where
  "loop2 W s = tr_new NO_LABEL EPS_LABEL (one_w W) s"

definition partners2 :: "'w semiring \<Rightarrow> 'w vfst \<Rightarrow> state_id \<Rightarrow> 'w tr \<Rightarrow> 'w tr list" where
  "partners2 W F2 s2 a = (if olabel a = EPS_LABEL then [loop2 W s2] else []) @
     filter (\<lambda>t. ilabel t = (if olabel a = NO_LABEL then EPS_LABEL else olabel a)) (trs (state_of F2 s2))"

definition partners1 :: "'w semiring \<Rightarrow> 'w vfst \<Rightarrow> state_id \<Rightarrow> 'w tr \<Rightarrow> 'w tr list" where
  "partners1 W F1 s1 b = (if ilabel b = EPS_LABEL then [loop1 W s1] else []) @
     filter (\<lambda>t. olabel t = (if ilabel b = NO_LABEL then EPS_LABEL else ilabel b)) (trs (state_of F1 s1))"

definition compose_pairs ::
  "'w semiring \<Rightarrow> 'w vfst \<Rightarrow> 'w vfst \<Rightarrow> bool \<Rightarrow> state_id \<Rightarrow> state_id \<Rightarrow> ('w tr \<times> 'w tr) list" where
  "compose_pairs W F1 F2 mi s1 s2 =
     (if mi then concat (map (\<lambda>a. map (\<lambda>b. (a, b)) (partners2 W F2 s2 a)) (loop1 W s1 # trs (state_of F1 s1)))
      else concat (map (\<lambda>b. map (\<lambda>a. (a, b)) (partners1 W F1 s1 b)) (loop2 W s2 # trs (state_of F2 s2))))"

definition pair_moves ::
  "('w \<Rightarrow> 'w \<Rightarrow> 'w) \<Rightarrow> ('w, 'fs, 'c) compose_filter \<Rightarrow> ('w tr \<Rightarrow> 'w tr \<Rightarrow> 'fs) \<Rightarrow> ('w tr \<times> 'w tr) list \<Rightarrow>
   (label \<times> label \<times> 'w \<times> 'fs compose_tuple) list" where
  "pair_moves mul f step ps = map (\<lambda>(a, b). (ilabel a, olabel b, mul (weight a) (weight b),
      \<lparr>tup_fs = step a b, tup_s1 = nextstate a, tup_s2 = nextstate b\<rparr>))
     (filter (\<lambda>(a, b). step a b \<noteq> cf_no_state f) ps)"

lemma pair_moves_simps [simp]:
  "pair_moves mul f step [] = []" "pair_moves mul f step (ps @ qs) = pair_moves mul f step ps @ pair_moves mul f step qs"
  by (simp_all add: pair_moves_def)

text \<open>The set of pairs does not depend on the side that is matched.\<close>

definition no_label_free :: "('w tr \<Rightarrow> label) \<Rightarrow> 'w vfst \<Rightarrow> bool" where
  "no_label_free lab F \<longleftrightarrow> (\<forall>s < num_states F. \<forall>t \<in> set (trs (state_of F s)). lab t \<noteq> NO_LABEL)"

lemma compose_pairs_iff:
  assumes "no_label_free olabel F1" "no_label_free ilabel F2" "s1 < num_states F1" "s2 < num_states F2"
  shows "(a, b) \<in> set (compose_pairs W F1 F2 mi s1 s2) \<longleftrightarrow>
    (a = loop1 W s1 \<and> b \<in> set (trs (state_of F2 s2)) \<and> ilabel b = EPS_LABEL) \<or>
    (a \<in> set (trs (state_of F1 s1)) \<and> b = loop2 W s2 \<and> olabel a = EPS_LABEL) \<or>
    (a \<in> set (trs (state_of F1 s1)) \<and> b \<in> set (trs (state_of F2 s2)) \<and> olabel a = ilabel b)"
proof -
  have n1: "\<forall>t \<in> set (trs (state_of F1 s1)). olabel t \<noteq> NO_LABEL" and n2: "\<forall>t \<in> set (trs (state_of F2 s2)). ilabel t \<noteq> NO_LABEL"
    using assms by (auto simp: no_label_free_def)
  have e: "(a, b) \<in> set (compose_pairs W F1 F2 mi s1 s2) \<longleftrightarrow>
      (if mi then (a = loop1 W s1 \<or> a \<in> set (trs (state_of F1 s1))) \<and> b \<in> set (partners2 W F2 s2 a)
       else (b = loop2 W s2 \<or> b \<in> set (trs (state_of F2 s2))) \<and> a \<in> set (partners1 W F1 s1 b))"
    by (auto simp: compose_pairs_def)
  have l: "olabel (loop1 W s1) = NO_LABEL" "ilabel (loop2 W s2) = NO_LABEL" by (simp_all add: loop1_def loop2_def)
  show ?thesis
  proof (cases mi)
    case True
    then show ?thesis unfolding e using n1 n2 l by (auto simp: partners2_def split: if_splits)
  next
    case False
    then show ?thesis unfolding e using n1 n2 l by (auto simp: partners1_def split: if_splits)
  qed
qed

subsection \<open>An expansion\<close>

text \<open>The item list a matcher returns, turned into transitions.\<close>

definition item_tr :: "'w semiring \<Rightarrow> bool \<Rightarrow> state_id \<Rightarrow> 'w iter_item \<Rightarrow> 'w tr" where
  "item_tr W mi s it = (case it of ItemTr t \<Rightarrow> t | ItemEpsLoop \<Rightarrow> if mi then loop2 W s else loop1 W s)"

lemma into_tr_item: "into_tr W it s (if mi then MatchInput else MatchOutput) = Inr (item_tr W mi s it)"
  by (cases it) (auto simp: into_tr_def item_tr_def eps_loop_def loop1_def loop2_def)

definition oriented :: "bool \<Rightarrow> 'w tr \<Rightarrow> 'w tr \<Rightarrow> 'w tr \<times> 'w tr" where
  "oriented mi arc arca = (if mi then (arc, arca) else (arca, arc))"

context filter_laws
begin

lemma match_items_emit:
  assumes W: "weight_monoids W add mul" and op: "co_filter op = f" and tab: "bi_map_ok tab"
  shows "\<exists>tab' ts'. for_res (match_item W op sa arc mi) its (ctx fs s1 s2, tab, ts) = Inr (ctx fs s1 s2, tab', ts @ ts') \<and>
    emits tab (pair_moves mul f (fstep fs s1 s2) (map (\<lambda>it. oriented mi arc (item_tr W mi sa it)) its)) tab' ts'"
  using tab
proof (induction its arbitrary: tab ts)
  case Nil
  then show ?case by (intro exI [of _ tab] exI [of _ "[]"]) (simp add: emits_Nil)
next
  case (Cons it its)
  obtain a b where ab: "oriented mi arc (item_tr W mi sa it) = (a, b)" by (cases "oriented mi arc (item_tr W mi sa it)")
  let ?fs = "fstep fs s1 s2 a b"
  have m: "match_item W op sa arc mi it (ctx fs s1 s2, tab, ts) =
      (if ?fs \<noteq> cf_no_state f
       then rbind (compose_add_tr W a b ?fs tab) (\<lambda>(t, tab). Inr (ctx fs s1 s2, tab, ts @ [t]))
       else Inr (ctx fs s1 s2, tab, ts))"
    using ab by (auto simp: match_item_def into_tr_item op oriented_def filter_tr_ctx Let_def split: if_splits)
  show ?case
  proof (cases "?fs = cf_no_state f")
    case True
    with Cons.IH [OF Cons.prems, of ts] m ab show ?thesis by (simp add: pair_moves_def)
  next
    case False
    let ?k = "\<lparr>tup_fs = ?fs, tup_s1 = nextstate a, tup_s2 = nextstate b\<rparr>"
    obtain i tab1 where g: "table_id_or_insert ?k tab = (i, tab1)" by (cases "table_id_or_insert ?k tab")
    let ?t = "tr_new (ilabel a) (olabel b) (mul (weight a) (weight b)) i"
    have add: "compose_add_tr W a b ?fs tab = Inr (?t, tab1)"
      by (simp add: compose_add_tr_def weight_monoids.times_ok [OF W] g Let_def)
    note e1 = emits_one [OF Cons.prems g, of "ilabel a" "olabel b" "mul (weight a) (weight b)"]
    then have "bi_map_ok tab1" by (simp add: emits_def)
    from Cons.IH [OF this, of "ts @ [?t]"] obtain tab' ts' where
      r: "for_res (match_item W op sa arc mi) its (ctx fs s1 s2, tab1, ts @ [?t]) = Inr (ctx fs s1 s2, tab', (ts @ [?t]) @ ts')"
      and e: "emits tab1 (pair_moves mul f (fstep fs s1 s2) (map (\<lambda>it. oriented mi arc (item_tr W mi sa it)) its)) tab' ts'"
      by blast
    from emits_append [OF e1 e] r m add False ab show ?thesis
      by (intro exI [of _ tab'] exI [of _ "?t # ts'"]) (simp add: pair_moves_def)
  qed
qed

text \<open>The scan of all transitions of the side that is not matched.\<close>

lemma match_trs_emit:
  assumes W: "weight_monoids W add mul" and op: "co_filter op = f" and tab: "bi_map_ok tab"
    and items: "\<And>arc. arc \<in> set arcs_b \<Longrightarrow>
      (case sel of Fst2Matcher1 \<Rightarrow> m_iter (cf_matcher1 f) sa (if mi then olabel arc else ilabel arc)
       | Fst1Matcher2 \<Rightarrow> m_iter (cf_matcher2 f) sa (if mi then olabel arc else ilabel arc)) = Inr (its arc)"
  shows "\<exists>tab' ts'. for_res (match_tr W op sa mi sel) arcs_b (ctx fs s1 s2, tab, ts) = Inr (ctx fs s1 s2, tab', ts @ ts') \<and>
    emits tab (pair_moves mul f (fstep fs s1 s2)
      (concat (map (\<lambda>arc. map (\<lambda>it. oriented mi arc (item_tr W mi sa it)) (its arc)) arcs_b))) tab' ts'"
  using tab items
proof (induction arcs_b arbitrary: tab ts)
  case Nil
  then show ?case by (intro exI [of _ tab] exI [of _ "[]"]) (simp add: emits_Nil)
next
  case (Cons arc arcs_b)
  have m: "match_tr W op sa mi sel arc st = for_res (match_item W op sa arc mi) (its arc) st" for st
    using Cons.prems(2) [of arc] by (cases sel; cases mi) (simp_all add: match_tr_def op Let_def)
  from match_items_emit [OF W op Cons.prems(1), of sa arc mi "its arc" fs s1 s2 ts] obtain tab1 ts1 where
    r1: "for_res (match_item W op sa arc mi) (its arc) (ctx fs s1 s2, tab, ts) = Inr (ctx fs s1 s2, tab1, ts @ ts1)"
    and e1: "emits tab (pair_moves mul f (fstep fs s1 s2) (map (\<lambda>it. oriented mi arc (item_tr W mi sa it)) (its arc))) tab1 ts1"
    by blast
  have "bi_map_ok tab1" using e1 by (simp add: emits_def)
  then have "\<exists>tab' ts'. for_res (match_tr W op sa mi sel) arcs_b (ctx fs s1 s2, tab1, ts @ ts1) = Inr (ctx fs s1 s2, tab', (ts @ ts1) @ ts') \<and>
    emits tab1 (pair_moves mul f (fstep fs s1 s2)
      (concat (map (\<lambda>arc. map (\<lambda>it. oriented mi arc (item_tr W mi sa it)) (its arc)) arcs_b))) tab' ts'"
    by (rule Cons.IH) (rule Cons.prems(2), simp)
  then obtain tab2 ts2 where
    r2: "for_res (match_tr W op sa mi sel) arcs_b (ctx fs s1 s2, tab1, ts @ ts1) = Inr (ctx fs s1 s2, tab2, (ts @ ts1) @ ts2)"
    and e2: "emits tab1 (pair_moves mul f (fstep fs s1 s2)
      (concat (map (\<lambda>arc. map (\<lambda>it. oriented mi arc (item_tr W mi sa it)) (its arc)) arcs_b))) tab2 ts2"
    by blast
  from emits_append [OF e1 e2] r1 r2 show ?case
    by (intro exI [of _ tab2] exI [of _ "ts1 @ ts2"]) (simp add: m)
qed

end


subsection \<open>The operation satisfies the contract\<close>

text \<open>What the operands must provide for one choice of the matched side.\<close>

definition sorted_side :: "('w tr \<Rightarrow> label) \<Rightarrow> 'w vfst \<Rightarrow> bool" where
  "sorted_side lab F \<longleftrightarrow> (\<forall>s < num_states F. sorted (map lab (trs (state_of F s))))"

definition composable ::
  "(('w tr \<Rightarrow> ordering) \<Rightarrow> 'w tr list \<Rightarrow> nat) \<Rightarrow> ('w, 'fs, 'c) compose_filter \<Rightarrow> match_type \<Rightarrow> 'w vfst \<Rightarrow> 'w vfst \<Rightarrow> bool" where
  "composable lb f mt F1 F2 \<longleftrightarrow>
     eps_counts_ok F1 \<and> eps_counts_ok F2 \<and> targets_ok F1 \<and> targets_ok F2 \<and> lower_bound_spec lb \<and>
     cf_matcher1 f = sorted_matcher lb F1 MatchOutput \<and> cf_matcher2 f = sorted_matcher lb F2 MatchInput \<and>
     mt \<in> {MatchInput, MatchOutput, MatchBoth} \<and>
     (mt \<noteq> MatchOutput \<longrightarrow> sorted_side ilabel F2) \<and> (mt \<noteq> MatchInput \<longrightarrow> sorted_side olabel F1) \<and>
     (\<forall>s < num_states F1. length (trs (state_of F1 s)) < usize_max) \<and>
     (\<forall>s < num_states F2. length (trs (state_of F2 s)) < usize_max)"

definition compose_dir :: "match_type \<Rightarrow> 'w vfst \<Rightarrow> 'w vfst \<Rightarrow> state_id \<Rightarrow> state_id \<Rightarrow> bool" where
  "compose_dir mt F1 F2 s1 s2 = (case mt of MatchInput \<Rightarrow> True | MatchOutput \<Rightarrow> False
     | _ \<Rightarrow> length (trs (state_of F1 s1)) \<le> length (trs (state_of F2 s2)))"

definition compose_expand ::
  "'w semiring \<Rightarrow> ('w \<Rightarrow> 'w \<Rightarrow> 'w) \<Rightarrow> ('w, 'fs, 'c) compose_filter \<Rightarrow>
   ('fs \<Rightarrow> state_id \<Rightarrow> state_id \<Rightarrow> 'w tr \<Rightarrow> 'w tr \<Rightarrow> 'fs) \<Rightarrow> match_type \<Rightarrow> 'w vfst \<Rightarrow> 'w vfst \<Rightarrow>
   'fs compose_tuple \<Rightarrow> (label \<times> label \<times> 'w \<times> 'fs compose_tuple) list" where
  "compose_expand W mul f fstep mt F1 F2 k =
     (let s1 = tup_s1 k; s2 = tup_s2 k
      in pair_moves mul f (fstep (tup_fs k) s1 s2) (compose_pairs W F1 F2 (compose_dir mt F1 F2 s1 s2) s1 s2))"

definition compose_final ::
  "'w semiring \<Rightarrow> ('w \<Rightarrow> 'w \<Rightarrow> 'w) \<Rightarrow> 'w vfst \<Rightarrow> 'w vfst \<Rightarrow> 'fs compose_tuple \<Rightarrow> 'w option" where
  "compose_final W mul F1 F2 k =
     (case (final_weight (state_of F1 (tup_s1 k)), final_weight (state_of F2 (tup_s2 k))) of
        (Some w1, Some w2) \<Rightarrow> if is_zero W (mul w1 w2) then None else Some (mul w1 w2)
      | _ \<Rightarrow> None)"

definition compose_start :: "('w, 'fs, 'c) compose_filter \<Rightarrow> 'w vfst \<Rightarrow> 'w vfst \<Rightarrow> 'fs compose_tuple option" where
  "compose_start f F1 F2 = (case (start_state F1, start_state F2) of
     (Some s1, Some s2) \<Rightarrow> Some \<lparr>tup_fs = cf_start f, tup_s1 = s1, tup_s2 = s2\<rparr> | _ \<Rightarrow> None)"

definition compose_init :: "('w, 'fs, 'c) compose_filter \<Rightarrow> 'w vfst \<Rightarrow> 'w vfst \<Rightarrow> 'fs compose_tuple bi_map" where
  "compose_init f F1 F2 = (case compose_start f F1 F2 of
     Some k \<Rightarrow> snd (table_id_or_insert k bi_map_new) | None \<Rightarrow> bi_map_new)"

definition compose_universe :: "'w vfst \<Rightarrow> 'w vfst \<Rightarrow> 'fs set \<Rightarrow> 'fs compose_tuple set" where
  "compose_universe F1 F2 fstates = {k. tup_fs k \<in> fstates \<and> tup_s1 k < num_states F1 \<and> tup_s2 k < num_states F2}"

definition compose_ok ::
  "'w semiring \<Rightarrow> ('w \<Rightarrow> 'w \<Rightarrow> 'w) \<Rightarrow> ('w \<Rightarrow> 'w \<Rightarrow> 'w) \<Rightarrow> ('w, 'fs, 'c) compose_op \<Rightarrow>
   (('w tr \<Rightarrow> ordering) \<Rightarrow> 'w tr list \<Rightarrow> nat) \<Rightarrow> 'fs set \<Rightarrow> ('fs \<Rightarrow> state_id \<Rightarrow> state_id \<Rightarrow> 'c) \<Rightarrow>
   ('fs \<Rightarrow> state_id \<Rightarrow> state_id \<Rightarrow> 'w tr \<Rightarrow> 'w tr \<Rightarrow> 'fs) \<Rightarrow> 'fs compose_tuple bi_map \<Rightarrow> bool" where
  "compose_ok W add mul op lb fstates ctx fstep tab \<longleftrightarrow>
     weight_monoids W add mul \<and> filter_laws (co_filter op) (co_fst1 op) (co_fst2 op) fstates ctx fstep \<and>
     composable lb (co_filter op) (co_match_type op) (co_fst1 op) (co_fst2 op) \<and>
     co_start op = map_option (\<lambda>_. 0) (compose_start (co_filter op) (co_fst1 op) (co_fst2 op)) \<and>
     bi_map_ok tab \<and> set (id_to_tuple tab) \<subseteq> compose_universe (co_fst1 op) (co_fst2 op) fstates"

lemma match_input_dir:
  assumes "composable lb (co_filter op) (co_match_type op) (co_fst1 op) (co_fst2 op)"
    and "s1 < num_states (co_fst1 op)" "s2 < num_states (co_fst2 op)"
  shows "match_input op s1 s2 = Inr (compose_dir (co_match_type op) (co_fst1 op) (co_fst2 op) s1 s2)"
proof -
  have "length (trs (state_of (co_fst1 op) s1)) \<noteq> REQUIRE_PRIORITY" "length (trs (state_of (co_fst2 op) s2)) \<noteq> REQUIRE_PRIORITY"
    using assms by (auto simp: composable_def REQUIRE_PRIORITY_def)
  with assms show ?thesis
    by (cases "co_match_type op") (auto simp: match_input_def compose_dir_def composable_def sorted_matcher_def num_trs_def)
qed

text \<open>What the matchers return on the sorted side.\<close>

lemma matcher2_items:
  assumes "composable lb f mt F1 F2" "mt \<noteq> MatchOutput" "s2 < num_states F2"
  shows "m_iter (cf_matcher2 f) s2 (olabel a) = Inr ((if olabel a = EPS_LABEL then [ItemEpsLoop] else []) @
    map ItemTr (filter (\<lambda>t. ilabel t = (if olabel a = NO_LABEL then EPS_LABEL else olabel a)) (trs (state_of F2 s2))))"
proof -
  have lb: "lower_bound_spec lb" and m: "cf_matcher2 f = sorted_matcher lb F2 MatchInput"
    and s: "sorted (map ilabel (trs (state_of F2 s2)))" using assms by (auto simp: composable_def sorted_side_def)
  have sl: "side_label MatchInput = ilabel" by (simp add: fun_eq_iff side_label_def)
  show ?thesis
    using sorted_iter_items [OF lb, of MatchInput "trs (state_of F2 s2)" "olabel a"] s assms(3)
    by (simp add: m sorted_matcher_def get_trs_def sl)
qed

lemma matcher1_items:
  assumes "composable lb f mt F1 F2" "mt \<noteq> MatchInput" "s1 < num_states F1"
  shows "m_iter (cf_matcher1 f) s1 (ilabel b) = Inr ((if ilabel b = EPS_LABEL then [ItemEpsLoop] else []) @
    map ItemTr (filter (\<lambda>t. olabel t = (if ilabel b = NO_LABEL then EPS_LABEL else ilabel b)) (trs (state_of F1 s1))))"
proof -
  have lb: "lower_bound_spec lb" and m: "cf_matcher1 f = sorted_matcher lb F1 MatchOutput"
    and s: "sorted (map olabel (trs (state_of F1 s1)))" using assms by (auto simp: composable_def sorted_side_def)
  have sl: "side_label MatchOutput = olabel" by (simp add: fun_eq_iff side_label_def)
  show ?thesis
    using sorted_iter_items [OF lb, of MatchOutput "trs (state_of F1 s1)" "ilabel b"] s assms(3)
    by (simp add: m sorted_matcher_def get_trs_def sl)
qed

lemma item_pairs:
  "map (\<lambda>it. oriented True a (item_tr W True s it)) ((if olabel a = EPS_LABEL then [ItemEpsLoop] else []) @
     map ItemTr (filter (\<lambda>t. ilabel t = (if olabel a = NO_LABEL then EPS_LABEL else olabel a)) (trs (state_of F s)))) =
   map (\<lambda>b. (a, b)) (partners2 W F s a)"
  "map (\<lambda>it. oriented False b (item_tr W False s it)) ((if ilabel b = EPS_LABEL then [ItemEpsLoop] else []) @
     map ItemTr (filter (\<lambda>t. olabel t = (if ilabel b = NO_LABEL then EPS_LABEL else ilabel b)) (trs (state_of F s)))) =
   map (\<lambda>a. (a, b)) (partners1 W F s b)"
  by (simp_all add: oriented_def item_tr_def partners1_def partners2_def)

lemma ordered_expand_emits:
  assumes W: "weight_monoids W add mul"
    and F: "filter_laws (co_filter op) (co_fst1 op) (co_fst2 op) fstates ctx fstep"
    and c: "composable lb (co_filter op) (co_match_type op) (co_fst1 op) (co_fst2 op)"
    and s: "s1 < num_states (co_fst1 op)" "s2 < num_states (co_fst2 op)" and tab: "bi_map_ok tab"
  defines "mi \<equiv> compose_dir (co_match_type op) (co_fst1 op) (co_fst2 op) s1 s2"
  shows "\<exists>tab' ts. (if mi then ordered_expand W op s2 s1 True (ctx fs s1 s2) Fst1Matcher2 tab
       else ordered_expand W op s1 s2 False (ctx fs s1 s2) Fst2Matcher1 tab) = Inr (ts, tab') \<and>
    emits tab (pair_moves mul (co_filter op) (fstep fs s1 s2) (compose_pairs W (co_fst1 op) (co_fst2 op) mi s1 s2)) tab' ts"
proof (cases mi)
  case True
  have mt: "co_match_type op \<noteq> MatchOutput" using True by (auto simp: mi_def compose_dir_def)
  let ?its = "\<lambda>a. (if olabel a = EPS_LABEL then [ItemEpsLoop] else []) @
    map ItemTr (filter (\<lambda>t. ilabel t = (if olabel a = NO_LABEL then EPS_LABEL else olabel a)) (trs (state_of (co_fst2 op) s2)))"
  from filter_laws.match_trs_emit [OF F W refl tab, where arcs_b = "loop1 W s1 # trs (state_of (co_fst1 op) s1)"
      and sel = Fst1Matcher2 and sa = s2 and mi = True and its = ?its and fs = fs and ?s1.0 = s1 and ?s2.0 = s2 and ts = "[]"]
  obtain tab' ts where r: "for_res (match_tr W op s2 True Fst1Matcher2) (loop1 W s1 # trs (state_of (co_fst1 op) s1))
      (ctx fs s1 s2, tab, []) = Inr (ctx fs s1 s2, tab', ts)"
    and e: "emits tab (pair_moves mul (co_filter op) (fstep fs s1 s2) (concat (map (\<lambda>a. map (\<lambda>it. oriented True a (item_tr W True s2 it)) (?its a))
      (loop1 W s1 # trs (state_of (co_fst1 op) s1))))) tab' ts"
    using matcher2_items [OF c mt s(2)] by auto
  have "ordered_expand W op s2 s1 True (ctx fs s1 s2) Fst1Matcher2 tab = Inr (ts, tab')"
    using r s by (auto simp: ordered_expand_def get_trs_def loop1_def [symmetric] Let_def rbind_eq_Inr)
  with True e show ?thesis unfolding item_pairs by (auto simp: compose_pairs_def)
next
  case False
  have mt: "co_match_type op \<noteq> MatchInput" using False by (auto simp: mi_def compose_dir_def)
  let ?its = "\<lambda>b. (if ilabel b = EPS_LABEL then [ItemEpsLoop] else []) @
    map ItemTr (filter (\<lambda>t. olabel t = (if ilabel b = NO_LABEL then EPS_LABEL else ilabel b)) (trs (state_of (co_fst1 op) s1)))"
  from filter_laws.match_trs_emit [OF F W refl tab, where arcs_b = "loop2 W s2 # trs (state_of (co_fst2 op) s2)"
      and sel = Fst2Matcher1 and sa = s1 and mi = False and its = ?its and fs = fs and ?s1.0 = s1 and ?s2.0 = s2 and ts = "[]"]
  obtain tab' ts where r: "for_res (match_tr W op s1 False Fst2Matcher1) (loop2 W s2 # trs (state_of (co_fst2 op) s2))
      (ctx fs s1 s2, tab, []) = Inr (ctx fs s1 s2, tab', ts)"
    and e: "emits tab (pair_moves mul (co_filter op) (fstep fs s1 s2) (concat (map (\<lambda>b. map (\<lambda>it. oriented False b (item_tr W False s1 it)) (?its b))
      (loop2 W s2 # trs (state_of (co_fst2 op) s2))))) tab' ts"
    using matcher1_items [OF c mt s(1)] by auto
  have "ordered_expand W op s1 s2 False (ctx fs s1 s2) Fst2Matcher1 tab = Inr (ts, tab')"
    using r s by (auto simp: ordered_expand_def get_trs_def loop2_def [symmetric] Let_def rbind_eq_Inr)
  with False e show ?thesis unfolding item_pairs by (auto simp: compose_pairs_def)
qed

text \<open>Every triple an expansion reaches is in range.\<close>

lemma moves_in_universe:
  assumes F: "filter_laws f F1 F2 fstates ctx fstep" and t: "targets_ok F1" "targets_ok F2"
    and s: "s1 < num_states F1" "s2 < num_states F2" and fs: "fs \<in> fstates"
  shows "move_targets (pair_moves mul f (fstep fs s1 s2) (compose_pairs W F1 F2 mi s1 s2)) \<subseteq> compose_universe F1 F2 fstates"
proof
  fix k assume "k \<in> move_targets (pair_moves mul f (fstep fs s1 s2) (compose_pairs W F1 F2 mi s1 s2))"
  then obtain a b where ab: "(a, b) \<in> set (compose_pairs W F1 F2 mi s1 s2)" "fstep fs s1 s2 a b \<noteq> cf_no_state f"
    "k = \<lparr>tup_fs = fstep fs s1 s2 a b, tup_s1 = nextstate a, tup_s2 = nextstate b\<rparr>"
    by (auto simp: move_targets_def pair_moves_def)
  have "(a = loop1 W s1 \<or> a \<in> set (trs (state_of F1 s1))) \<and> (b = loop2 W s2 \<or> b \<in> set (trs (state_of F2 s2)))"
    using ab(1) by (auto simp: compose_pairs_def partners1_def partners2_def split: if_splits)
  then have "nextstate a < num_states F1" "nextstate b < num_states F2"
    using t s targets_state by (auto simp: loop1_def loop2_def)
  with ab filter_laws.fstep_in [OF F fs] show "k \<in> compose_universe F1 F2 fstates" by (simp add: compose_universe_def)
qed

lemma init_tab_eq: "id_to_tuple (compose_init f F1 F2) = (case compose_start f F1 F2 of None \<Rightarrow> [] | Some k \<Rightarrow> [k])"
  by (simp add: compose_init_def table_id_or_insert_def bi_map_new_def Let_def split: option.splits)

lemma compose_interning:
  "interning_op (compose_fst_op W op) id_to_tuple (compose_ok W add mul op lb fstates ctx fstep)
     (compose_init (co_filter op) (co_fst1 op) (co_fst2 op)) (compose_start (co_filter op) (co_fst1 op) (co_fst2 op))
     (compose_expand W mul (co_filter op) fstep (co_match_type op) (co_fst1 op) (co_fst2 op))
     (compose_final W mul (co_fst1 op) (co_fst2 op))"
proof unfold_locales
  let ?ok = "compose_ok W add mul op lb fstates ctx fstep"
  let ?init = "compose_init (co_filter op) (co_fst1 op) (co_fst2 op)"
  let ?start = "compose_start (co_filter op) (co_fst1 op) (co_fst2 op)"
  show "?ok ?init \<Longrightarrow> \<exists>st. op_compute_start (compose_fst_op W op) ?init = Inr (map_option (\<lambda>_. 0) ?start, st) \<and> ?ok st \<and>
      id_to_tuple st = (case ?start of None \<Rightarrow> [] | Some k \<Rightarrow> [k])"
    using init_tab_eq by (auto simp: compose_ok_def compose_fst_op_def)
  show "distinct (id_to_tuple tab)" if "?ok tab" for tab using that by (simp add: compose_ok_def bi_map_distinct)
next
  fix tab i assume ok: "compose_ok W add mul op lb fstates ctx fstep tab" and i: "i < length (id_to_tuple tab)"
  let ?f = "co_filter op" and ?F1 = "co_fst1 op" and ?F2 = "co_fst2 op"
  let ?k = "id_to_tuple tab ! i"
  from ok have W: "weight_monoids W add mul" and F: "filter_laws ?f ?F1 ?F2 fstates ctx fstep"
    and c: "composable lb ?f (co_match_type op) ?F1 ?F2" and tab: "bi_map_ok tab"
    and st: "co_start op = map_option (\<lambda>_. 0) (compose_start ?f ?F1 ?F2)"
    and U: "set (id_to_tuple tab) \<subseteq> compose_universe ?F1 ?F2 fstates" by (simp_all add: compose_ok_def)
  have "?k \<in> compose_universe ?F1 ?F2 fstates" using U nth_mem [OF i] by blast
  then have k: "tup_fs ?k \<in> fstates" "tup_s1 ?k < num_states ?F1" "tup_s2 ?k < num_states ?F2"
    by (simp_all add: compose_universe_def)
  have cnt: "eps_counts_ok ?F1" "eps_counts_ok ?F2" and tg: "targets_ok ?F1" "targets_ok ?F2"
    using c by (simp_all add: composable_def)
  have get: "get_tuple_unchecked i tab = Inr ?k" using i by (simp add: get_tuple_unchecked_def)
  note set = filter_laws.set_state_ctx [OF F cnt k]
  from ordered_expand_emits [OF W F c k(2,3) tab, of "tup_fs ?k"] obtain tab' ts where
    r: "(if compose_dir (co_match_type op) ?F1 ?F2 (tup_s1 ?k) (tup_s2 ?k)
       then ordered_expand W op (tup_s2 ?k) (tup_s1 ?k) True (ctx (tup_fs ?k) (tup_s1 ?k) (tup_s2 ?k)) Fst1Matcher2 tab
       else ordered_expand W op (tup_s1 ?k) (tup_s2 ?k) False (ctx (tup_fs ?k) (tup_s1 ?k) (tup_s2 ?k)) Fst2Matcher1 tab) = Inr (ts, tab')"
    and e: "emits tab (compose_expand W mul ?f fstep (co_match_type op) ?F1 ?F2 ?k) tab' ts"
    by (auto simp: compose_expand_def Let_def)
  have run: "op_compute_trs (compose_fst_op W op) i tab = Inr (ts, tab')"
    using r by (simp add: compose_fst_op_def compose_compute_trs_def get set match_input_dir [OF c k(2,3)] Let_def)
  from e obtain ext where ext: "id_to_tuple tab' = id_to_tuple tab @ ext" "bi_map_ok tab'"
    "set ext \<subseteq> move_targets (compose_expand W mul ?f fstep (co_match_type op) ?F1 ?F2 ?k)"
    "list_all2 (arc_rel (id_to_tuple tab')) ts (compose_expand W mul ?f fstep (co_match_type op) ?F1 ?F2 ?k)"
    by (auto simp: emits_def)
  have "set ext \<subseteq> compose_universe ?F1 ?F2 fstates"
    using ext(3) moves_in_universe [OF F tg k(2,3,1)] unfolding compose_expand_def Let_def by blast
  then have "compose_ok W add mul op lb fstates ctx fstep tab'"
    using W F c st ext(1,2) U by (simp add: compose_ok_def)
  with run ext show "\<exists>ts st' ext. op_compute_trs (compose_fst_op W op) i tab = Inr (ts, st') \<and>
      compose_ok W add mul op lb fstates ctx fstep st' \<and> id_to_tuple st' = id_to_tuple tab @ ext \<and>
      set ext \<subseteq> move_targets (compose_expand W mul ?f fstep (co_match_type op) ?F1 ?F2 (id_to_tuple tab ! i)) \<and>
      list_all2 (arc_rel (id_to_tuple st')) ts (compose_expand W mul ?f fstep (co_match_type op) ?F1 ?F2 (id_to_tuple tab ! i))"
    by blast
  have fw: "m_final_weight (cf_matcher1 ?f) (tup_s1 ?k) = Inr (final_weight (state_of ?F1 (tup_s1 ?k)))"
    "m_final_weight (cf_matcher2 ?f) (tup_s2 ?k) = Inr (final_weight (state_of ?F2 (tup_s2 ?k)))"
    using c k by (auto simp: composable_def sorted_matcher_def final_weight_of_def)
  show "op_compute_final_weight (compose_fst_op W op) i tab = Inr (compose_final W mul ?F1 ?F2 (id_to_tuple tab ! i), tab)"
    by (auto simp: compose_fst_op_def compose_compute_final_def compose_final_def get fw set filter_laws.filter_final_id [OF F]
        weight_monoids.times_ok [OF W] Let_def split: option.splits)
qed

interpretation compose_interned: interning_op "compose_fst_op W op" id_to_tuple "compose_ok W add mul op lb fstates ctx fstep"
  "compose_init (co_filter op) (co_fst1 op) (co_fst2 op)" "compose_start (co_filter op) (co_fst1 op) (co_fst2 op)"
  "compose_expand W mul (co_filter op) fstep (co_match_type op) (co_fst1 op) (co_fst2 op)"
  "compose_final W mul (co_fst1 op) (co_fst2 op)"
  for W :: "'w semiring" and add mul and op :: "('w, 'fs, 'c) compose_op" and lb fstates ctx fstep
  by (rule compose_interning)

end
