(* ===== verification/Compose_Sound.thy ===== *)
theory Compose_Sound
  imports Compose_Machine
begin

text \<open>
  Correctness of composition on triples: every path of the composition projects to a path of each
  operand with the same middle string, and, for a filter that lets every pair of paths through in at
  least one way, every such pair of paths is a path of the composition.
\<close>

subsection \<open>Paths as lists of transitions\<close>

fun trail :: "'w vfst \<Rightarrow> state_id \<Rightarrow> 'w tr list \<Rightarrow> state_id \<Rightarrow> bool" where
  "trail F s [] q \<longleftrightarrow> s = q \<and> s < num_states F"
| "trail F s (t # ts) q \<longleftrightarrow> s < num_states F \<and> t \<in> set (trs (state_of F s)) \<and> trail F (nextstate t) ts q"

definition read_labels :: "('w tr \<Rightarrow> label) \<Rightarrow> 'w tr list \<Rightarrow> label list" where
  "read_labels lab ts = foldr (\<lambda>t. ext_label (lab t)) ts []"

definition trail_weight :: "('w \<Rightarrow> 'w \<Rightarrow> 'w) \<Rightarrow> 'w tr list \<Rightarrow> 'w \<Rightarrow> 'w" where
  "trail_weight mul ts v = foldr (\<lambda>t. mul (weight t)) ts v"

lemma read_labels_simps [simp]:
  "read_labels lab [] = []" "read_labels lab (t # ts) = ext_label (lab t) (read_labels lab ts)"
  by (simp_all add: read_labels_def)

lemma trail_weight_simps [simp]:
  "trail_weight mul [] v = v" "trail_weight mul (t # ts) v = mul (weight t) (trail_weight mul ts v)"
  by (simp_all add: trail_weight_def)

lemma accepts_trail:
  "accepts mul F s x y w \<longleftrightarrow> (\<exists>ts q v. trail F s ts q \<and> final_at F q v \<and> x = read_labels ilabel ts \<and>
     y = read_labels olabel ts \<and> w = trail_weight mul ts v)"
proof
  assume "accepts mul F s x y w"
  then show "\<exists>ts q v. trail F s ts q \<and> final_at F q v \<and> x = read_labels ilabel ts \<and>
     y = read_labels olabel ts \<and> w = trail_weight mul ts v"
  proof (induction rule: accepts.induct)
    case (acc_final s w)
    then show ?case by (intro exI [of _ "[]"] exI [of _ s] exI [of _ w]) (simp add: final_at_def)
  next
    case (acc_arc s t x y w)
    then obtain ts q v where "trail F (nextstate t) ts q" "final_at F q v" "x = read_labels ilabel ts"
      "y = read_labels olabel ts" "w = trail_weight mul ts v" by blast
    with acc_arc.hyps(1) show ?case
      by (intro exI [of _ "t # ts"] exI [of _ q] exI [of _ v]) (simp add: arcs_def)
  qed
next
  have "trail F s ts q \<Longrightarrow> final_at F q v \<Longrightarrow>
      accepts mul F s (read_labels ilabel ts) (read_labels olabel ts) (trail_weight mul ts v)" for ts q v
  proof (induction ts arbitrary: s)
    case Nil
    then show ?case by (simp add: acc_final)
  next
    case (Cons t ts)
    then have "accepts mul F (nextstate t) (read_labels ilabel ts) (read_labels olabel ts) (trail_weight mul ts v)" by simp
    from acc_arc [OF _ this, of s] Cons.prems(1) show ?case by (simp add: arcs_def)
  qed
  then show "\<exists>ts q v. trail F s ts q \<and> final_at F q v \<and> x = read_labels ilabel ts \<and>
     y = read_labels olabel ts \<and> w = trail_weight mul ts v \<Longrightarrow> accepts mul F s x y w" by blast
qed

lemma ext_label_Nil: "ext_label l xs = [] \<longleftrightarrow> l = EPS_LABEL \<and> xs = []"
  by (simp add: ext_label_def)

definition starts_eps :: "('w tr \<Rightarrow> label) \<Rightarrow> 'w tr list \<Rightarrow> bool" where
  "starts_eps lab ts = (case ts of [] \<Rightarrow> False | t # _ \<Rightarrow> lab t = EPS_LABEL)"

lemma starts_eps_simps [simp]: "\<not> starts_eps lab []" "starts_eps lab (t # ts) \<longleftrightarrow> lab t = EPS_LABEL"
  by (simp_all add: starts_eps_def)

lemma not_all_eps:
  assumes "trail F s ts q" "final_at F q v" "\<not> starts_eps lab ts"
  shows "\<not> all_eps lab F s"
  using assms by (cases ts) (auto simp: all_eps_def final_at_def)

subsection \<open>Filters that lose no path\<close>

text \<open>
  \<open>keeps fs e1 e2\<close> is what the filter state promises about the rest of the two paths: \<open>e1\<close> and \<open>e2\<close> say
  that the next transition of either path is an epsilon in the middle. If one of them is, the filter
  lets some move with it pass and the promise is kept; a move on a common label renews it.
\<close>

locale lossless_filter = filter_laws f F1 F2 fstates ctx fstep
  for f :: "('w, 'fs, 'c) compose_filter" and F1 F2 fstates ctx fstep +
  fixes keeps :: "'fs \<Rightarrow> bool \<Rightarrow> bool \<Rightarrow> bool"
  assumes keeps_start: "keeps (cf_start f) e1 e2"
    and match_passes: "fs \<in> fstates \<Longrightarrow> olabel a = ilabel b \<Longrightarrow> olabel a \<noteq> EPS_LABEL \<Longrightarrow> olabel a \<noteq> NO_LABEL \<Longrightarrow>
      fstep fs s1 s2 a b \<noteq> cf_no_state f \<and> keeps (fstep fs s1 s2 a b) e1 e2"
    and eps_passes: "fs \<in> fstates \<Longrightarrow> keeps fs e1 e2 \<Longrightarrow> e1 \<or> e2 \<Longrightarrow>
      (\<not> e1 \<Longrightarrow> \<not> all_eps olabel F1 s1) \<Longrightarrow> (\<not> e2 \<Longrightarrow> \<not> all_eps ilabel F2 s2) \<Longrightarrow>
      (e1 \<and> (\<forall>a b. olabel a = EPS_LABEL \<longrightarrow> ilabel b = NO_LABEL \<longrightarrow>
          fstep fs s1 s2 a b \<noteq> cf_no_state f \<and> (\<forall>e. keeps (fstep fs s1 s2 a b) e e2))) \<or>
      (e2 \<and> (\<forall>a b. olabel a = NO_LABEL \<longrightarrow> ilabel b = EPS_LABEL \<longrightarrow>
          fstep fs s1 s2 a b \<noteq> cf_no_state f \<and> (\<forall>e. keeps (fstep fs s1 s2 a b) e1 e))) \<or>
      (e1 \<and> e2 \<and> (\<forall>a b. olabel a = EPS_LABEL \<longrightarrow> ilabel b = EPS_LABEL \<longrightarrow>
          fstep fs s1 s2 a b \<noteq> cf_no_state f \<and> (\<forall>e e'. keeps (fstep fs s1 s2 a b) e e')))"

subsection \<open>From the composition to its operands\<close>

lemma pair_moves_iff:
  "(il, ol, w, k) \<in> set (pair_moves mul f step ps) \<longleftrightarrow>
   (\<exists>a b. (a, b) \<in> set ps \<and> step a b \<noteq> cf_no_state f \<and> il = ilabel a \<and> ol = olabel b \<and>
     w = mul (weight a) (weight b) \<and> k = \<lparr>tup_fs = step a b, tup_s1 = nextstate a, tup_s2 = nextstate b\<rparr>)"
  by (auto simp: pair_moves_def)

lemma compose_final_Some:
  "compose_final W mul F1 F2 k = Some w \<longleftrightarrow> (\<exists>w1 w2. final_weight (state_of F1 (tup_s1 k)) = Some w1 \<and>
     final_weight (state_of F2 (tup_s2 k)) = Some w2 \<and> w = mul w1 w2 \<and> \<not> is_zero W w)"
  by (auto simp: compose_final_def split: option.splits)

lemma mul_swap:
  assumes W: "weight_monoids W add mul" and c: "\<And>a b. mul a b = mul b a"
  shows "mul (mul a b) (mul u v) = mul (mul a u) (mul b v)"
  by (metis weight_monoids.mul_assoc [OF W] c)

lemma compose_sound:
  assumes W: "weight_monoids W add mul" and c: "\<And>a b. mul a b = mul b a"
    and F: "filter_laws f F1 F2 fstates ctx fstep" and t: "targets_ok F1" "targets_ok F2"
    and nl: "no_label_free olabel F1" "no_label_free ilabel F2"
    and acc: "taccepts mul (compose_expand W mul f fstep mt F1 F2) (compose_final W mul F1 F2) k x z w"
    and k: "k \<in> compose_universe F1 F2 fstates"
  shows "\<exists>y w1 w2. accepts mul F1 (tup_s1 k) x y w1 \<and> accepts mul F2 (tup_s2 k) y z w2 \<and> w = mul w1 w2"
  using acc k
proof (induction rule: taccepts.induct)
  case (tacc_final k w)
  then obtain w1 w2 where "final_at F1 (tup_s1 k) w1" "final_at F2 (tup_s2 k) w2" "w = mul w1 w2"
    by (auto simp: compose_final_Some final_at_def compose_universe_def)
  then show ?case by (blast intro: acc_final)
next
  case (tacc_move il ol w k' k x z v)
  let ?s1 = "tup_s1 k" and ?s2 = "tup_s2 k"
  have s: "?s1 < num_states F1" "?s2 < num_states F2" "tup_fs k \<in> fstates" using tacc_move.prems by (auto simp: compose_universe_def)
  from tacc_move.hyps(1) obtain a b where
    p: "(a, b) \<in> set (compose_pairs W F1 F2 (compose_dir mt F1 F2 ?s1 ?s2) ?s1 ?s2)"
    and e: "il = ilabel a" "ol = olabel b" "w = mul (weight a) (weight b)" "tup_s1 k' = nextstate a" "tup_s2 k' = nextstate b"
    by (auto simp: compose_expand_def Let_def pair_moves_iff)
  have "k' \<in> move_targets (compose_expand W mul f fstep mt F1 F2 k)"
    using tacc_move.hyps(1) by (force simp: move_targets_def)
  then have "k' \<in> compose_universe F1 F2 fstates"
    using moves_in_universe [OF F t s] unfolding compose_expand_def Let_def by blast
  from tacc_move.IH [OF this] obtain y w1 w2 where
    ih: "accepts mul F1 (nextstate a) x y w1" "accepts mul F2 (nextstate b) y z w2" "v = mul w1 w2"
    unfolding e(4,5) by blast
  note one = weight_monoids.mul_one_left [OF W] weight_monoids.mul_one_right [OF W]
  have sw: "mul w v = mul (mul (weight a) w1) (mul (weight b) w2)" unfolding e(3) ih(3) by (rule mul_swap [OF W c])
  from p [unfolded compose_pairs_iff [OF nl s(1,2)]] consider
      (second) "a = loop1 W ?s1" "b \<in> set (trs (state_of F2 ?s2))" "ilabel b = EPS_LABEL"
    | (first) "a \<in> set (trs (state_of F1 ?s1))" "b = loop2 W ?s2" "olabel a = EPS_LABEL"
    | (both) "a \<in> set (trs (state_of F1 ?s1))" "b \<in> set (trs (state_of F2 ?s2))" "olabel a = ilabel b" by blast
  then show ?case
  proof cases
    case second
    then have a1: "accepts mul F1 ?s1 (ext_label il x) y (mul (weight a) w1)"
      using ih(1) by (simp add: e loop1_def one)
    from acc_arc [OF _ ih(2), of ?s2] second s have "accepts mul F2 ?s2 y (ext_label ol z) (mul (weight b) w2)"
      by (simp add: arcs_def e)
    with a1 sw show ?thesis by blast
  next
    case first
    then have a2: "accepts mul F2 ?s2 y (ext_label ol z) (mul (weight b) w2)"
      using ih(2) by (simp add: e loop2_def one)
    from acc_arc [OF _ ih(1), of ?s1] first s have "accepts mul F1 ?s1 (ext_label il x) y (mul (weight a) w1)"
      by (simp add: arcs_def e)
    with a2 sw show ?thesis by blast
  next
    case both
    from acc_arc [OF _ ih(1), of ?s1] both s have a1: "accepts mul F1 ?s1 (ext_label il x) (ext_label (olabel a) y) (mul (weight a) w1)"
      by (simp add: arcs_def e)
    from acc_arc [OF _ ih(2), of ?s2] both s have "accepts mul F2 ?s2 (ext_label (olabel a) y) (ext_label ol z) (mul (weight b) w2)"
      by (simp add: arcs_def e)
    with a1 sw show ?thesis by blast
  qed
qed

subsection \<open>From the operands to the composition\<close>

lemma compose_move:
  assumes nl: "no_label_free olabel F1" "no_label_free ilabel F2" and s: "s1 < num_states F1" "s2 < num_states F2"
    and p: "(a = loop1 W s1 \<and> b \<in> set (trs (state_of F2 s2)) \<and> ilabel b = EPS_LABEL) \<or>
      (a \<in> set (trs (state_of F1 s1)) \<and> b = loop2 W s2 \<and> olabel a = EPS_LABEL) \<or>
      (a \<in> set (trs (state_of F1 s1)) \<and> b \<in> set (trs (state_of F2 s2)) \<and> olabel a = ilabel b)"
    and st: "fstep fs s1 s2 a b \<noteq> cf_no_state f"
    and acc: "taccepts mul (compose_expand W mul f fstep mt F1 F2) (compose_final W mul F1 F2)
      \<lparr>tup_fs = fstep fs s1 s2 a b, tup_s1 = nextstate a, tup_s2 = nextstate b\<rparr> x z v"
  shows "taccepts mul (compose_expand W mul f fstep mt F1 F2) (compose_final W mul F1 F2)
    \<lparr>tup_fs = fs, tup_s1 = s1, tup_s2 = s2\<rparr> (ext_label (ilabel a) x) (ext_label (olabel b) z) (mul (mul (weight a) (weight b)) v)"
proof (rule tacc_move [OF _ acc])
  have "(a, b) \<in> set (compose_pairs W F1 F2 (compose_dir mt F1 F2 s1 s2) s1 s2)"
    using p by (simp only: compose_pairs_iff [OF nl s])
  with st show "(ilabel a, olabel b, mul (weight a) (weight b),
      \<lparr>tup_fs = fstep fs s1 s2 a b, tup_s1 = nextstate a, tup_s2 = nextstate b\<rparr>)
      \<in> set (compose_expand W mul f fstep mt F1 F2 \<lparr>tup_fs = fs, tup_s1 = s1, tup_s2 = s2\<rparr>)"
    by (auto simp: compose_expand_def Let_def pair_moves_iff)
qed

lemma compose_move_first:
  assumes nl: "no_label_free olabel F1" "no_label_free ilabel F2" and s: "s1 < num_states F1" "s2 < num_states F2"
    and a: "a \<in> set (trs (state_of F1 s1))" "olabel a = EPS_LABEL"
    and st: "fstep fs s1 s2 a (loop2 W s2) \<noteq> cf_no_state f"
    and acc: "taccepts mul (compose_expand W mul f fstep mt F1 F2) (compose_final W mul F1 F2)
      \<lparr>tup_fs = fstep fs s1 s2 a (loop2 W s2), tup_s1 = nextstate a, tup_s2 = s2\<rparr> x z v"
  shows "taccepts mul (compose_expand W mul f fstep mt F1 F2) (compose_final W mul F1 F2)
    \<lparr>tup_fs = fs, tup_s1 = s1, tup_s2 = s2\<rparr> (ext_label (ilabel a) x) z (mul (mul (weight a) (one_w W)) v)"
proof -
  have l: "nextstate (loop2 W s2) = s2" "olabel (loop2 W s2) = EPS_LABEL" "weight (loop2 W s2) = one_w W"
    by (simp_all add: loop2_def)
  from compose_move [where a = a and b = "loop2 W s2" and fstep = fstep and fs = fs, OF nl s _ st] a acc
  show ?thesis by (simp add: l)
qed

lemma compose_move_second:
  assumes nl: "no_label_free olabel F1" "no_label_free ilabel F2" and s: "s1 < num_states F1" "s2 < num_states F2"
    and b: "b \<in> set (trs (state_of F2 s2))" "ilabel b = EPS_LABEL"
    and st: "fstep fs s1 s2 (loop1 W s1) b \<noteq> cf_no_state f"
    and acc: "taccepts mul (compose_expand W mul f fstep mt F1 F2) (compose_final W mul F1 F2)
      \<lparr>tup_fs = fstep fs s1 s2 (loop1 W s1) b, tup_s1 = s1, tup_s2 = nextstate b\<rparr> x z v"
  shows "taccepts mul (compose_expand W mul f fstep mt F1 F2) (compose_final W mul F1 F2)
    \<lparr>tup_fs = fs, tup_s1 = s1, tup_s2 = s2\<rparr> x (ext_label (olabel b) z) (mul (mul (one_w W) (weight b)) v)"
proof -
  have l: "nextstate (loop1 W s1) = s1" "ilabel (loop1 W s1) = EPS_LABEL" "weight (loop1 W s1) = one_w W"
    by (simp_all add: loop1_def)
  from compose_move [where a = "loop1 W s1" and b = b and fstep = fstep and fs = fs, OF nl s _ st] b acc
  show ?thesis by (simp add: l)
qed

context lossless_filter
begin

lemma compose_complete:
  assumes W: "weight_monoids W add mul" and c: "\<And>a b. mul a b = mul b a"
    and t: "targets_ok F1" "targets_ok F2" and nl: "no_label_free olabel F1" "no_label_free ilabel F2"
    and fin: "final_at F1 q1 v1" "final_at F2 q2 v2" and nz: "\<not> is_zero W (mul v1 v2)"
  shows "trail F1 s1 ts1 q1 \<Longrightarrow> trail F2 s2 ts2 q2 \<Longrightarrow> read_labels olabel ts1 = read_labels ilabel ts2 \<Longrightarrow>
    fs \<in> fstates \<Longrightarrow> keeps fs (starts_eps olabel ts1) (starts_eps ilabel ts2) \<Longrightarrow>
    taccepts mul (compose_expand W mul f fstep mt F1 F2) (compose_final W mul F1 F2)
      \<lparr>tup_fs = fs, tup_s1 = s1, tup_s2 = s2\<rparr> (read_labels ilabel ts1) (read_labels olabel ts2)
      (mul (trail_weight mul ts1 v1) (trail_weight mul ts2 v2))"
proof (induction "length ts1 + length ts2" arbitrary: ts1 ts2 s1 s2 fs rule: less_induct)
  case less
  note one = weight_monoids.mul_one_left [OF W] weight_monoids.mul_one_right [OF W]
  note sw = mul_swap [OF W c]
  have s: "s1 < num_states F1" "s2 < num_states F2" using less.prems(1,2) by (cases ts1; cases ts2; simp)+
  have n1: "\<not> starts_eps olabel ts1 \<Longrightarrow> \<not> all_eps olabel F1 s1" using not_all_eps [OF less.prems(1) fin(1)] .
  have n2: "\<not> starts_eps ilabel ts2 \<Longrightarrow> \<not> all_eps ilabel F2 s2" using not_all_eps [OF less.prems(2) fin(2)] .
  show ?case
  proof (cases "starts_eps olabel ts1 \<or> starts_eps ilabel ts2")
    case False
    show ?thesis
    proof (cases ts1)
      case Nil
      have "ts2 = []"
      proof (cases ts2)
        case (Cons b us)
        with False less.prems(3) Nil show ?thesis by (simp add: ext_label_def)
      qed simp
      with Nil less.prems(1,2) fin nz show ?thesis
        by (auto intro!: tacc_final simp: compose_final_Some final_at_def)
    next
      case (Cons a us1)
      with False have a: "olabel a \<noteq> EPS_LABEL" by simp
      obtain b us2 where ts2: "ts2 = b # us2" using less.prems(3) Cons a by (cases ts2) (auto simp: ext_label_def)
      with False have b: "ilabel b \<noteq> EPS_LABEL" by simp
      have l: "olabel a = ilabel b" "read_labels olabel us1 = read_labels ilabel us2"
        using less.prems(3) a b by (simp_all add: Cons ts2 ext_label_def)
      have in1: "a \<in> set (trs (state_of F1 s1))" "trail F1 (nextstate a) us1 q1" using less.prems(1) by (simp_all add: Cons)
      have in2: "b \<in> set (trs (state_of F2 s2))" "trail F2 (nextstate b) us2 q2" using less.prems(2) by (simp_all add: ts2)
      have "olabel a \<noteq> NO_LABEL" using nl(1) in1 s by (auto simp: no_label_free_def)
      then have m: "fstep fs s1 s2 a b \<noteq> cf_no_state f" "keeps (fstep fs s1 s2 a b) e1 e2" for e1 e2
        using match_passes [OF less.prems(4) l(1) a] by blast+
      have "taccepts mul (compose_expand W mul f fstep mt F1 F2) (compose_final W mul F1 F2)
          \<lparr>tup_fs = fstep fs s1 s2 a b, tup_s1 = nextstate a, tup_s2 = nextstate b\<rparr> (read_labels ilabel us1) (read_labels olabel us2)
          (mul (trail_weight mul us1 v1) (trail_weight mul us2 v2))"
        by (rule less.hyps [OF _ in1(2) in2(2) l(2) fstep_in [OF less.prems(4) m(1)] m(2)]) (simp add: Cons ts2)
      from compose_move [where a = a and b = b and fstep = fstep and fs = fs and ?s1.0 = s1 and ?s2.0 = s2, OF nl s _ m(1) this] in1 in2 l(1) show ?thesis
        by (simp add: Cons ts2 sw)
    qed
  next
    case True
    have e1: "\<exists>a us. ts1 = a # us \<and> olabel a = EPS_LABEL" if "starts_eps olabel ts1" using that by (cases ts1) auto
    have e2: "\<exists>b us. ts2 = b # us \<and> ilabel b = EPS_LABEL" if "starts_eps ilabel ts2" using that by (cases ts2) auto
    from eps_passes [OF less.prems(4,5) True n1 n2] consider
        (first) "starts_eps olabel ts1" "\<forall>a b. olabel a = EPS_LABEL \<longrightarrow> ilabel b = NO_LABEL \<longrightarrow>
          fstep fs s1 s2 a b \<noteq> cf_no_state f \<and> (\<forall>e. keeps (fstep fs s1 s2 a b) e (starts_eps ilabel ts2))"
      | (second) "starts_eps ilabel ts2" "\<forall>a b. olabel a = NO_LABEL \<longrightarrow> ilabel b = EPS_LABEL \<longrightarrow>
          fstep fs s1 s2 a b \<noteq> cf_no_state f \<and> (\<forall>e. keeps (fstep fs s1 s2 a b) (starts_eps olabel ts1) e)"
      | (both) "starts_eps olabel ts1" "starts_eps ilabel ts2" "\<forall>a b. olabel a = EPS_LABEL \<longrightarrow> ilabel b = EPS_LABEL \<longrightarrow>
          fstep fs s1 s2 a b \<noteq> cf_no_state f \<and> (\<forall>e e'. keeps (fstep fs s1 s2 a b) e e')" by blast
    then show ?thesis
    proof cases
      case first
      from e1 [OF first(1)] obtain a us where ts1: "ts1 = a # us" "olabel a = EPS_LABEL" by blast
      let ?b = "loop2 W s2"
      have lb: "ilabel ?b = NO_LABEL" "nextstate ?b = s2" "olabel ?b = EPS_LABEL" "weight ?b = one_w W" by (simp_all add: loop2_def)
      have m: "fstep fs s1 s2 a ?b \<noteq> cf_no_state f" "keeps (fstep fs s1 s2 a ?b) e (starts_eps ilabel ts2)" for e
        using first(2) ts1(2) lb(1) by blast+
      have in1: "a \<in> set (trs (state_of F1 s1))" "trail F1 (nextstate a) us q1" using less.prems(1) by (simp_all add: ts1)
      have l: "read_labels olabel us = read_labels ilabel ts2" using less.prems(3) ts1 by simp
      have "taccepts mul (compose_expand W mul f fstep mt F1 F2) (compose_final W mul F1 F2)
          \<lparr>tup_fs = fstep fs s1 s2 a ?b, tup_s1 = nextstate a, tup_s2 = s2\<rparr> (read_labels ilabel us) (read_labels olabel ts2)
          (mul (trail_weight mul us v1) (trail_weight mul ts2 v2))"
        by (rule less.hyps [OF _ in1(2) less.prems(2) l fstep_in [OF less.prems(4) m(1)] m(2)]) (simp add: ts1)
      from compose_move_first [OF nl s in1(1) ts1(2) m(1) this] show ?thesis
        by (simp add: ts1 one weight_monoids.mul_assoc [OF W])
    next
      case second
      from e2 [OF second(1)] obtain b us where ts2: "ts2 = b # us" "ilabel b = EPS_LABEL" by blast
      let ?a = "loop1 W s1"
      have la: "olabel ?a = NO_LABEL" "nextstate ?a = s1" "ilabel ?a = EPS_LABEL" "weight ?a = one_w W" by (simp_all add: loop1_def)
      have m: "fstep fs s1 s2 ?a b \<noteq> cf_no_state f" "keeps (fstep fs s1 s2 ?a b) (starts_eps olabel ts1) e" for e
        using second(2) ts2(2) la(1) by blast+
      have in2: "b \<in> set (trs (state_of F2 s2))" "trail F2 (nextstate b) us q2" using less.prems(2) by (simp_all add: ts2)
      have l: "read_labels olabel ts1 = read_labels ilabel us" using less.prems(3) ts2 by simp
      have "taccepts mul (compose_expand W mul f fstep mt F1 F2) (compose_final W mul F1 F2)
          \<lparr>tup_fs = fstep fs s1 s2 ?a b, tup_s1 = s1, tup_s2 = nextstate b\<rparr> (read_labels ilabel ts1) (read_labels olabel us)
          (mul (trail_weight mul ts1 v1) (trail_weight mul us v2))"
        by (rule less.hyps [OF _ less.prems(1) in2(2) l fstep_in [OF less.prems(4) m(1)] m(2)]) (simp add: ts2)
      from compose_move_second [OF nl s in2(1) ts2(2) m(1) this] show ?thesis
        by (simp add: ts2 one) (metis weight_monoids.mul_assoc [OF W] c)
    next
      case both
      from e1 [OF both(1)] obtain a us1 where ts1: "ts1 = a # us1" "olabel a = EPS_LABEL" by blast
      from e2 [OF both(2)] obtain b us2 where ts2: "ts2 = b # us2" "ilabel b = EPS_LABEL" by blast
      have m: "fstep fs s1 s2 a b \<noteq> cf_no_state f" "keeps (fstep fs s1 s2 a b) e e'" for e e'
        using both(3) ts1(2) ts2(2) by blast+
      have in1: "a \<in> set (trs (state_of F1 s1))" "trail F1 (nextstate a) us1 q1" using less.prems(1) by (simp_all add: ts1)
      have in2: "b \<in> set (trs (state_of F2 s2))" "trail F2 (nextstate b) us2 q2" using less.prems(2) by (simp_all add: ts2)
      have l: "read_labels olabel us1 = read_labels ilabel us2" using less.prems(3) ts1 ts2 by simp
      have "taccepts mul (compose_expand W mul f fstep mt F1 F2) (compose_final W mul F1 F2)
          \<lparr>tup_fs = fstep fs s1 s2 a b, tup_s1 = nextstate a, tup_s2 = nextstate b\<rparr> (read_labels ilabel us1) (read_labels olabel us2)
          (mul (trail_weight mul us1 v1) (trail_weight mul us2 v2))"
        by (rule less.hyps [OF _ in1(2) in2(2) l fstep_in [OF less.prems(4) m(1)] m(2)]) (simp add: ts1 ts2)
      from compose_move [where a = a and b = b and fstep = fstep and fs = fs and ?s1.0 = s1 and ?s2.0 = s2, OF nl s _ m(1) this] in1 in2 ts1(2) ts2(2) show ?thesis
        by (simp add: ts1 ts2 sw)
    qed
  qed
qed

end

end
