(* ===== verification/Compose_Instances.thy ===== *)
theory Compose_Instances
  imports Compose_Sound
begin

text \<open>
  The filters satisfy the laws: each keeps its state in a small set, and all of them but the null filter
  let every pair of paths through. With the caches this gives, for each filter, the transducer that
  static composition returns.
\<close>

subsection \<open>The variables after \<open>set_state\<close>\<close>

definition sequence_ctx :: "'w vfst \<Rightarrow> integer_filter_state \<Rightarrow> state_id \<Rightarrow> state_id \<Rightarrow> sequence_filter_vars" where
  "sequence_ctx F1 fs s1 s2 = \<lparr>sf_s1 = s1, sf_s2 = s2, sf_fs = fs,
     sf_alleps1 = all_eps olabel F1 s1, sf_noeps1 = no_eps olabel F1 s1\<rparr>"

definition alt_sequence_ctx :: "'w vfst \<Rightarrow> integer_filter_state \<Rightarrow> state_id \<Rightarrow> state_id \<Rightarrow> alt_sequence_filter_vars" where
  "alt_sequence_ctx F2 fs s1 s2 = \<lparr>af_s1 = s1, af_s2 = s2, af_fs = fs,
     af_alleps2 = all_eps ilabel F2 s2, af_noeps2 = no_eps ilabel F2 s2\<rparr>"

definition match_ctx :: "'w vfst \<Rightarrow> 'w vfst \<Rightarrow> integer_filter_state \<Rightarrow> state_id \<Rightarrow> state_id \<Rightarrow> match_filter_vars" where
  "match_ctx F1 F2 fs s1 s2 = \<lparr>mf_s1 = s1, mf_s2 = s2, mf_fs = fs,
     mf_alleps1 = all_eps olabel F1 s1, mf_alleps2 = all_eps ilabel F2 s2,
     mf_noeps1 = no_eps olabel F1 s1, mf_noeps2 = no_eps ilabel F2 s2\<rparr>"

definition sequence_step :: "'w vfst \<Rightarrow> integer_filter_state \<Rightarrow> state_id \<Rightarrow> state_id \<Rightarrow> 'w tr \<Rightarrow> 'w tr \<Rightarrow> integer_filter_state" where
  "sequence_step F1 fs s1 s2 a b = sequence_filter_tr a b (sequence_ctx F1 fs s1 s2)"

definition alt_sequence_step :: "'w vfst \<Rightarrow> integer_filter_state \<Rightarrow> state_id \<Rightarrow> state_id \<Rightarrow> 'w tr \<Rightarrow> 'w tr \<Rightarrow> integer_filter_state" where
  "alt_sequence_step F2 fs s1 s2 a b = alt_sequence_filter_tr a b (alt_sequence_ctx F2 fs s1 s2)"

definition match_step ::
  "'w vfst \<Rightarrow> 'w vfst \<Rightarrow> integer_filter_state \<Rightarrow> state_id \<Rightarrow> state_id \<Rightarrow> 'w tr \<Rightarrow> 'w tr \<Rightarrow> integer_filter_state" where
  "match_step F1 F2 fs s1 s2 a b = match_filter_tr a b (match_ctx F1 F2 fs s1 s2)"

lemma filter_state_consts [simp]: "NO_STATE_ID \<noteq> 0" "NO_STATE_ID \<noteq> Suc 0" "NO_STATE_ID \<noteq> 2"
  "0 \<noteq> NO_STATE_ID" "Suc 0 \<noteq> NO_STATE_ID" "2 \<noteq> NO_STATE_ID" "EPS_LABEL \<noteq> NO_LABEL"
  "NO_LABEL \<noteq> EPS_LABEL"
  by (simp_all add: NO_STATE_ID_def EPS_LABEL_def NO_LABEL_def)

lemma sequence_step_eq:
  "sequence_step F1 fs s1 s2 a b =
     (if olabel a = NO_LABEL
      then if all_eps olabel F1 s1 then NO_STATE_ID else if no_eps olabel F1 s1 then 0 else 1
      else if ilabel b = NO_LABEL then if fs \<noteq> 0 then NO_STATE_ID else 0
      else if olabel a = EPS_LABEL then NO_STATE_ID else 0)"
  by (simp add: sequence_step_def sequence_filter_tr_def sequence_ctx_def)

lemma alt_sequence_step_eq:
  "alt_sequence_step F2 fs s1 s2 a b =
     (if ilabel b = NO_LABEL
      then if all_eps ilabel F2 s2 then NO_STATE_ID else if no_eps ilabel F2 s2 then 0 else 1
      else if olabel a = NO_LABEL then if fs = 1 then NO_STATE_ID else 0
      else if olabel a = EPS_LABEL then NO_STATE_ID else 0)"
  by (simp add: alt_sequence_step_def alt_sequence_filter_tr_def alt_sequence_ctx_def)

lemma match_step_eq:
  "match_step F1 F2 fs s1 s2 a b =
     (if ilabel b = NO_LABEL
      then if fs = 0
           then if no_eps ilabel F2 s2 then 0 else if all_eps ilabel F2 s2 then NO_STATE_ID else 1
           else if fs = 1 then 1 else NO_STATE_ID
      else if olabel a = NO_LABEL
      then if fs = 0
           then if no_eps olabel F1 s1 then 0 else if all_eps olabel F1 s1 then NO_STATE_ID else 2
           else if fs = 2 then 2 else NO_STATE_ID
      else if olabel a = EPS_LABEL
      then if fs = 0 then 0 else NO_STATE_ID
      else 0)"
  by (simp add: match_step_def match_filter_tr_def match_ctx_def)

subsection \<open>The laws\<close>

abbreviation sorted1 :: "(('w tr \<Rightarrow> ordering) \<Rightarrow> 'w tr list \<Rightarrow> nat) \<Rightarrow> 'w vfst \<Rightarrow> 'w matcher" where
  "sorted1 lb F1 \<equiv> sorted_matcher lb F1 MatchOutput"

abbreviation sorted2 :: "(('w tr \<Rightarrow> ordering) \<Rightarrow> 'w tr list \<Rightarrow> nat) \<Rightarrow> 'w vfst \<Rightarrow> 'w matcher" where
  "sorted2 lb F2 \<equiv> sorted_matcher lb F2 MatchInput"

lemma m_fst_sorted [simp]: "m_fst (sorted_matcher lb F mt) = F"
  by (simp add: sorted_matcher_def)

interpretation sequence: lossless_filter "sequence_filter (sorted1 lb F1) (sorted2 lb F2)" F1 F2 "{0, 1}"
  "sequence_ctx F1" "sequence_step F1" "\<lambda>fs e1 e2. fs = 0 \<or> \<not> e1"
  for lb F1 F2
proof unfold_locales
  show "cf_set_state (sequence_filter (sorted1 lb F1) (sorted2 lb F2)) s1 s2 fs
      (cf_build (sequence_filter (sorted1 lb F1) (sorted2 lb F2))) = Inr (sequence_ctx F1 fs s1 s2)"
    if "eps_counts_ok F1" "fs \<in> {0, 1}" "s1 < num_states F1" for fs s1 s2
    using that sequence_set [of F1 s1 fs] by (auto simp: sequence_filter_def sequence_ctx_def)
  show "sequence_step F1 fs s1 s2 a b \<noteq> cf_no_state (sequence_filter (sorted1 lb F1) (sorted2 lb F2)) \<Longrightarrow>
      sequence_step F1 fs s1 s2 a b \<in> {0, 1}" for fs s1 s2 a b
    by (auto simp: sequence_filter_def sequence_step_eq split: if_splits)
qed (auto simp: sequence_filter_def sequence_step_eq sequence_step_def [symmetric])

interpretation alt_sequence: lossless_filter "alt_sequence_filter (sorted1 lb F1) (sorted2 lb F2)" F1 F2 "{0, 1}"
  "alt_sequence_ctx F2" "alt_sequence_step F2" "\<lambda>fs e1 e2. fs = 0 \<or> \<not> e2"
  for lb F1 F2
proof unfold_locales
  show "cf_set_state (alt_sequence_filter (sorted1 lb F1) (sorted2 lb F2)) s1 s2 fs
      (cf_build (alt_sequence_filter (sorted1 lb F1) (sorted2 lb F2))) = Inr (alt_sequence_ctx F2 fs s1 s2)"
    if "eps_counts_ok F2" "fs \<in> {0, 1}" "s2 < num_states F2" for fs s1 s2
    using that alt_sequence_set [of F2 s2 fs] by (auto simp: alt_sequence_filter_def alt_sequence_ctx_def)
  show "alt_sequence_step F2 fs s1 s2 a b \<noteq> cf_no_state (alt_sequence_filter (sorted1 lb F1) (sorted2 lb F2)) \<Longrightarrow>
      alt_sequence_step F2 fs s1 s2 a b \<in> {0, 1}" for fs s1 s2 a b
    by (auto simp: alt_sequence_filter_def alt_sequence_step_eq split: if_splits)
qed (auto simp: alt_sequence_filter_def alt_sequence_step_eq alt_sequence_step_def [symmetric])

interpretation matching: lossless_filter "match_filter (sorted1 lb F1) (sorted2 lb F2)" F1 F2 "{0, 1, 2}"
  "match_ctx F1 F2" "match_step F1 F2" "\<lambda>fs e1 e2. fs = 0 \<or> fs = 1 \<and> \<not> e2 \<or> fs = 2 \<and> \<not> e1"
  for lb F1 F2
proof unfold_locales
  show "cf_set_state (match_filter (sorted1 lb F1) (sorted2 lb F2)) s1 s2 fs
      (cf_build (match_filter (sorted1 lb F1) (sorted2 lb F2))) = Inr (match_ctx F1 F2 fs s1 s2)"
    if "eps_counts_ok F1" "eps_counts_ok F2" "fs \<in> {0, 1, 2}" "s1 < num_states F1" "s2 < num_states F2" for fs s1 s2
    using that match_set [of F1 s1 F2 s2 fs] by (auto simp: match_filter_def match_ctx_def)
  show "match_step F1 F2 fs s1 s2 a b \<noteq> cf_no_state (match_filter (sorted1 lb F1) (sorted2 lb F2)) \<Longrightarrow>
      match_step F1 F2 fs s1 s2 a b \<in> {0, 1, 2}" for fs s1 s2 a b
    by (auto simp: match_filter_def match_step_eq split: if_splits)
qed (auto simp: match_filter_def match_step_eq match_step_def [symmetric])

interpretation trivial: lossless_filter "trivial_filter (sorted1 lb F1) (sorted2 lb F2)" F1 F2 "{True}"
  "\<lambda>_ _ _. ()" "\<lambda>_ _ _ _ _. True" "\<lambda>_ _ _. True"
  for lb F1 F2
  by unfold_locales (auto simp: trivial_filter_def stateless_filter_def)

interpretation no_match: lossless_filter "no_match_filter (sorted1 lb F1) (sorted2 lb F2)" F1 F2 "{True}"
  "\<lambda>_ _ _. ()" "\<lambda>_ _ _. no_match_allow" "\<lambda>_ _ _. True"
  for lb F1 F2
  by unfold_locales (auto simp: no_match_filter_def stateless_filter_def no_match_allow_def)

text \<open>The null filter keeps the laws but not every pair of paths: it refuses all epsilon moves of one side.\<close>

interpretation null_f: filter_laws "null_filter (sorted1 lb F1) (sorted2 lb F2)" F1 F2 "{True}"
  "\<lambda>_ _ _. ()" "\<lambda>_ _ _. null_allow"
  for lb F1 F2
  by unfold_locales (auto simp: null_filter_def stateless_filter_def null_allow_def)

end
