(* ===== verification/Compose_Static.thy ===== *)
theory Compose_Static
  imports Compose_Instances
begin

text \<open>
  Static composition: when the matchers can be used, that the search then returns, and that the
  result, connected or not, relates what the two operands relate through a middle string.
\<close>

subsection \<open>Choosing the side to match on\<close>

definition matched_side :: "'w vfst \<Rightarrow> 'w vfst \<Rightarrow> match_type option" where
  "matched_side F1 F2 =
     (if contains (properties F1) O_LABEL_SORTED
      then Some (if contains (properties F2) I_LABEL_SORTED then MatchBoth else MatchOutput)
      else if contains (properties F2) I_LABEL_SORTED then Some MatchInput
      else None)"

lemma sorted_matcher_fields [simp]:
  "m_match_type (sorted_matcher lb F mt) = sorted_match_type F mt" "m_flags (sorted_matcher lb F mt) = 0"
  by (simp_all add: sorted_matcher_def)

lemma sorted_match_type_known:
  "sorted_match_type F MatchOutput False = Inr (if contains (properties F) O_LABEL_SORTED then MatchOutput
     else if contains (properties F) NOT_O_LABEL_SORTED then MatchNone else MatchUnknown)"
  "sorted_match_type F MatchInput False = Inr (if contains (properties F) I_LABEL_SORTED then MatchInput
     else if contains (properties F) NOT_I_LABEL_SORTED then MatchNone else MatchUnknown)"
  by (auto simp: sorted_match_type_def contains_def Let_def)

lemma sorted_match_type_tested:
  "\<not> contains (properties F) O_LABEL_SORTED \<Longrightarrow> sorted_match_type F MatchOutput True \<noteq> Inr MatchOutput"
  "\<not> contains (properties F) I_LABEL_SORTED \<Longrightarrow> sorted_match_type F MatchInput True \<noteq> Inr MatchInput"
  by (auto simp: sorted_match_type_def contains_def properties_check_def rbind_eq_Inr Let_def split: if_splits)

lemma choose_sorted:
  "matched_side F1 F2 = Some mt \<Longrightarrow> choose_match_type (sorted1 lb F1) (sorted2 lb F2) = Inr mt"
  by (auto simp: matched_side_def choose_match_type_def REQUIRE_MATCH_def sorted_match_type_known split: if_splits)

lemma choose_unsorted:
  assumes "matched_side F1 F2 = None"
  shows "\<exists>e. choose_match_type (sorted1 lb F1) (sorted2 lb F2) = Inl e"
proof -
  have n: "\<not> contains (properties F1) O_LABEL_SORTED" "\<not> contains (properties F2) I_LABEL_SORTED"
    using assms by (auto simp: matched_side_def split: if_splits)
  note t = sorted_match_type_tested(1) [OF n(1)] sorted_match_type_tested(2) [OF n(2)]
  have "sorted_match_type F1 MatchOutput False \<noteq> Inr MatchOutput" "sorted_match_type F2 MatchInput False \<noteq> Inr MatchInput"
    using n by (simp_all add: sorted_match_type_known)
  then show ?thesis
    using t by (cases "sorted_match_type F1 MatchOutput True"; cases "sorted_match_type F2 MatchInput True")
      (auto simp: choose_match_type_def REQUIRE_MATCH_def sorted_match_type_known simp del: contains_flags)
qed

subsection \<open>The materialisation\<close>

text \<open>What composition needs of its operands besides their well-formedness.\<close>

definition compose_operands ::
  "'w semiring \<Rightarrow> (('w tr \<Rightarrow> ordering) \<Rightarrow> 'w tr list \<Rightarrow> nat) \<Rightarrow> 'w vfst \<Rightarrow> 'w vfst \<Rightarrow> bool" where
  "compose_operands W lb F1 F2 \<longleftrightarrow> fst_ok W F1 \<and> fst_ok W F2 \<and> lower_bound_spec lb \<and> matched_side F1 F2 \<noteq> None \<and>
     (\<forall>s < num_states F1. length (trs (state_of F1 s)) < usize_max) \<and>
     (\<forall>s < num_states F2. length (trs (state_of F2 s)) < usize_max)"

lemma flagged_sorted:
  assumes "fst_ok W F"
  shows "contains (properties F) O_LABEL_SORTED \<Longrightarrow> sorted_side olabel F"
    and "contains (properties F) I_LABEL_SORTED \<Longrightarrow> sorted_side ilabel F"
proof -
  have b: "bits_sound W F (properties F)" using fst_okD(1) [OF assms] by (simp add: props_sound_def)
  from bits_soundD(1) [OF b, of OLabelSorted] show "contains (properties F) O_LABEL_SORTED \<Longrightarrow> sorted_side olabel F"
    by (simp add: sorted_side_def)
  from bits_soundD(1) [OF b, of ILabelSorted] show "contains (properties F) I_LABEL_SORTED \<Longrightarrow> sorted_side ilabel F"
    by (simp add: sorted_side_def)
qed

lemma finite_universe:
  assumes "finite fstates"
  shows "finite (compose_universe F1 F2 fstates)"
    "card (compose_universe F1 F2 fstates) \<le> card fstates * (num_states F1 * num_states F2)"
proof -
  let ?f = "\<lambda>k. (tup_fs k, tup_s1 k, tup_s2 k)"
  let ?P = "fstates \<times> {..< num_states F1} \<times> {..< num_states F2}"
  have i: "inj_on ?f (compose_universe F1 F2 fstates)" by (rule inj_onI) auto
  have s: "?f ` compose_universe F1 F2 fstates \<subseteq> ?P" by (auto simp: compose_universe_def)
  have f: "finite ?P" using assms by simp
  show "finite (compose_universe F1 F2 fstates)" using i s f by (meson finite_imageD finite_subset)
  have "card (compose_universe F1 F2 fstates) = card (?f ` compose_universe F1 F2 fstates)" by (rule card_image [OF i, symmetric])
  also have "\<dots> \<le> card ?P" by (rule card_mono [OF f s])
  finally show "card (compose_universe F1 F2 fstates) \<le> card fstates * (num_states F1 * num_states F2)"
    by (simp add: card_cartesian_product)
qed

lemma compose_op_sorted:
  assumes W: "weight_monoids W add mul" and F: "filter_laws f F1 F2 fstates ctx fstep"
    and ops: "compose_operands W lb F1 F2" and m: "cf_matcher1 f = sorted1 lb F1" "cf_matcher2 f = sorted2 lb F2"
  obtains op where "compose_op_new F1 F2 f = Inr (op, compose_init f F1 F2)" "co_filter op = f" "co_fst1 op = F1" "co_fst2 op = F2"
    "matched_side F1 F2 = Some (co_match_type op)"
    "co_properties op = cf_properties f (compose_properties (properties F1) (properties F2))"
    "compose_ok W add mul op lb fstates ctx fstep (compose_init f F1 F2)"
proof -
  from ops obtain mt where mt: "matched_side F1 F2 = Some mt" by (auto simp: compose_operands_def)
  let ?op = "\<lparr>co_filter = f, co_match_type = mt,
    co_properties = cf_properties f (compose_properties (properties F1) (properties F2)),
    co_fst1 = F1, co_fst2 = F2, co_start = map_option (\<lambda>_. 0) (compose_start f F1 F2)\<rparr>"
  have new: "compose_op_new F1 F2 f = Inr (?op, compose_init f F1 F2)"
    by (simp add: compose_op_new_def m choose_sorted [OF mt] compose_init_def compose_start_def
        table_id_or_insert_def bi_map_new_def Let_def split: option.splits)
  have ok: "fst_ok W F1" "fst_ok W F2" using ops by (simp_all add: compose_operands_def)
  have c: "composable lb f mt F1 F2"
    using ops mt flagged_sorted [OF ok(1)] flagged_sorted [OF ok(2)] fst_okD [OF ok(1)] fst_okD [OF ok(2)] m
    by (auto simp: composable_def compose_operands_def matched_side_def split: if_splits)
  have tab: "bi_map_ok (compose_init f F1 F2)"
  proof (cases "compose_start f F1 F2")
    case None
    then show ?thesis by (simp add: compose_init_def bi_map_new_ok)
  next
    case (Some k)
    obtain i t where g: "table_id_or_insert k bi_map_new = (i, t)" by (cases "table_id_or_insert k bi_map_new")
    from table_id_or_insert(1) [OF bi_map_new_ok g] Some g show ?thesis by (simp add: compose_init_def)
  qed
  have "set (id_to_tuple (compose_init f F1 F2)) \<subseteq> compose_universe F1 F2 fstates"
    using fst_okD [OF ok(1)] fst_okD [OF ok(2)] filter_laws.start_in [OF F]
    by (auto simp: init_tab_eq compose_start_def compose_universe_def targets_ok_def split: option.splits)
  with W F c tab have "compose_ok W add mul ?op lb fstates ctx fstep (compose_init f F1 F2)"
    by (simp add: compose_ok_def)
  with new mt show thesis by (intro that [of ?op]) simp_all
qed

lemma compose_lazy_run:
  assumes C: "lossy_cache C cok fresh"
  shows "lazy_run (compose_fst_op W op) id_to_tuple (compose_ok W add mul op lb fstates ctx fstep)
     (compose_init (co_filter op) (co_fst1 op) (co_fst2 op)) (compose_start (co_filter op) (co_fst1 op) (co_fst2 op))
     (compose_expand W mul (co_filter op) fstep (co_match_type op) (co_fst1 op) (co_fst2 op))
     (compose_final W mul (co_fst1 op) (co_fst2 op)) C cok fresh"
  by (rule lazy_run.intro [OF compose_interning C])

text \<open>The two caches that static composition is run with.\<close>

interpretation compose_over_null: lazy_run "compose_fst_op W op" id_to_tuple "compose_ok W add mul op lb fstates ctx fstep"
  "compose_init (co_filter op) (co_fst1 op) (co_fst2 op)" "compose_start (co_filter op) (co_fst1 op) (co_fst2 op)"
  "compose_expand W mul (co_filter op) fstep (co_match_type op) (co_fst1 op) (co_fst2 op)"
  "compose_final W mul (co_fst1 op) (co_fst2 op)" null_cache "\<lambda>_. True" "()" W
  for W :: "'w semiring" and add mul and op :: "('w, 'fs, 'c) compose_op" and lb fstates ctx fstep
  by (rule compose_lazy_run [OF null.lossy_cache_axioms])

interpretation compose_over_vec: lazy_run "compose_fst_op W op" id_to_tuple "compose_ok W add mul op lb fstates ctx fstep"
  "compose_init (co_filter op) (co_fst1 op) (co_fst2 op)" "compose_start (co_filter op) (co_fst1 op) (co_fst2 op)"
  "compose_expand W mul (co_filter op) fstep (co_match_type op) (co_fst1 op) (co_fst2 op)"
  "compose_final W mul (co_fst1 op) (co_fst2 op)" vec_cache "\<lambda>_. True" vec_cache_new W
  for W :: "'w semiring" and add mul and op :: "('w, 'fs, 'c) compose_op" and lb fstates ctx fstep
  by (rule compose_lazy_run [OF vec.lossy_cache_axioms])

lemma compose_computes:
  assumes W: "weight_monoids W add mul" and F: "filter_laws f F1 F2 fstates ctx fstep"
    and ops: "compose_operands W lb F1 F2" and m: "cf_matcher1 f = sorted1 lb F1" "cf_matcher2 f = sorted2 lb F2"
    and C: "lossy_cache C cok fresh"
  shows "\<exists>G T mt. compose_fst_compute W C fresh F1 F2 f = Some (Inr G) \<and>
    materialises T (compose_start f F1 F2) (compose_expand W mul f fstep mt F1 F2) (compose_final W mul F1 F2) G \<and>
    num_states G \<le> card fstates * (num_states F1 * num_states F2)"
proof (rule compose_op_sorted [OF W F ops m])
  fix op assume new: "compose_op_new F1 F2 f = Inr (op, compose_init f F1 F2)"
    and o: "co_filter op = f" "co_fst1 op = F1" "co_fst2 op = F2"
    and ok: "compose_ok W add mul op lb fstates ctx fstep (compose_init f F1 F2)"
  let ?U = "compose_universe F1 F2 fstates"
  let ?l = "from_op_and_cache (compose_init f F1 F2) fresh (isymt F1) (osymt F2)"
  note L = compose_lazy_run [OF C, of W op add mul lb fstates ctx fstep, unfolded o]
  have fr: "lazy_run.lazy_fresh (compose_ok W add mul op lb fstates ctx fstep) (compose_init f F1 F2) fresh ?l"
    using ok by (simp add: lazy_run.lazy_fresh_def [OF L] from_op_and_cache_def)
  note fin = finite_universe [OF filter_laws.finite_fstates [OF F], of F1 F2]
  have U: "compose_ok W add mul op lb fstates ctx fstep tab \<Longrightarrow> set (id_to_tuple tab) \<subseteq> ?U" for tab
    by (simp add: compose_ok_def o)
  from lazy_run.compute_returns [OF L fr fin(1) U] obtain G T where
    G: "lazy_compute W (compose_fst_op W op) C ?l = Some (Inr G)"
    "materialises T (compose_start f F1 F2) (compose_expand W mul f fstep (co_match_type op) F1 F2) (compose_final W mul F1 F2) G"
    "set T \<subseteq> ?U" by blast
  have "num_states G = card (set T)" using G(2) by (simp add: materialises_def distinct_card)
  also have "\<dots> \<le> card ?U" by (rule card_mono [OF fin(1) G(3)])
  finally have "num_states G \<le> card fstates * (num_states F1 * num_states F2)" using fin(2) by simp
  with G new show ?thesis by (auto simp: compose_fst_compute_def)
qed

subsection \<open>The relation\<close>

text \<open>What a composition is to relate. Paths of weight zero are not kept: composition drops them.\<close>

definition composed :: "'w semiring \<Rightarrow> ('w \<Rightarrow> 'w \<Rightarrow> 'w) \<Rightarrow> 'w vfst \<Rightarrow> 'w vfst \<Rightarrow> 'w vfst \<Rightarrow> bool" where
  "composed W mul F1 F2 G \<longleftrightarrow> (\<forall>x z w. w \<noteq> zero_w W \<longrightarrow> (transduces mul G x z w \<longleftrightarrow>
     (\<exists>y w1 w2. transduces mul F1 x y w1 \<and> transduces mul F2 y z w2 \<and> w = mul w1 w2)))"

lemma trail_weight_mul:
  assumes W: "weight_monoids W add mul"
  shows "mul (trail_weight mul ts v) u = trail_weight mul ts (mul v u)" "trail_weight mul ts (zero_w W) = zero_w W"
  by (induction ts) (simp_all add: weight_monoids.mul_assoc [OF W] weight_monoids.mul_zero_right [OF W])

lemma product_of_trails:
  assumes W: "weight_monoids W add mul" and c: "\<And>a b. mul a b = mul b a"
  shows "mul (trail_weight mul ts v) (trail_weight mul us u) = trail_weight mul ts (trail_weight mul us (mul v u))"
proof -
  have "mul v (trail_weight mul us u) = trail_weight mul us (mul v u)"
    using trail_weight_mul(1) [OF W, of us u v] by (simp add: c [of v])
  then show ?thesis by (simp add: trail_weight_mul(1) [OF W])
qed

lemma compose_relation:
  assumes W: "weight_monoids W add mul" and c: "\<And>a b. mul a b = mul b a"
    and L: "lossless_filter f F1 F2 fstates ctx fstep keeps" and t: "targets_ok F1" "targets_ok F2"
    and nl: "no_label_free olabel F1" "no_label_free ilabel F2"
    and m: "materialises T (compose_start f F1 F2) (compose_expand W mul f fstep mt F1 F2) (compose_final W mul F1 F2) G"
  shows "composed W mul F1 F2 G"
  unfolding composed_def
proof (intro allI impI iffI)
  note F = lossless_filter.axioms(1) [OF L]
  fix x z w assume nz: "w \<noteq> zero_w W"
  {
    assume "transduces mul G x z w"
    then obtain k where k: "compose_start f F1 F2 = Some k"
      "taccepts mul (compose_expand W mul f fstep mt F1 F2) (compose_final W mul F1 F2) k x z w"
      unfolding materialises_transduces [OF m] by blast
    have i: "start_state F1 = Some (tup_s1 k)" "start_state F2 = Some (tup_s2 k)" "tup_fs k = cf_start f"
      using k(1) by (auto simp: compose_start_def split: option.splits)
    then have "k \<in> compose_universe F1 F2 fstates"
      using t filter_laws.start_in [OF F] by (auto simp: compose_universe_def targets_ok_def)
    from compose_sound [OF W c F t nl k(2) this] i
    show "\<exists>y w1 w2. transduces mul F1 x y w1 \<and> transduces mul F2 y z w2 \<and> w = mul w1 w2"
      by (simp add: transduces_def)
  next
    assume "\<exists>y w1 w2. transduces mul F1 x y w1 \<and> transduces mul F2 y z w2 \<and> w = mul w1 w2"
    then obtain y w1 w2 i1 i2 where a: "start_state F1 = Some i1" "accepts mul F1 i1 x y w1"
      "start_state F2 = Some i2" "accepts mul F2 i2 y z w2" "w = mul w1 w2" by (auto simp: transduces_def)
    from a(2) obtain ts1 q1 v1 where p1: "trail F1 i1 ts1 q1" "final_at F1 q1 v1" "x = read_labels ilabel ts1"
      "y = read_labels olabel ts1" "w1 = trail_weight mul ts1 v1" unfolding accepts_trail by blast
    from a(4) obtain ts2 q2 v2 where p2: "trail F2 i2 ts2 q2" "final_at F2 q2 v2" "y = read_labels ilabel ts2"
      "z = read_labels olabel ts2" "w2 = trail_weight mul ts2 v2" unfolding accepts_trail by blast
    have "mul v1 v2 \<noteq> zero_w W"
      using nz a(5) p1(5) p2(5) product_of_trails [OF W c] trail_weight_mul(2) [OF W] by metis
    then have z: "\<not> is_zero W (mul v1 v2)" by (simp add: weight_monoids.is_zero_iff [OF W])
    have y: "read_labels olabel ts1 = read_labels ilabel ts2" using p1(4) p2(3) by simp
    from lossless_filter.compose_complete [OF L W c t nl p1(2) p2(2) z p1(1) p2(1) y
        filter_laws.start_in [OF F] lossless_filter.keeps_start [OF L], where mt = mt]
    have "taccepts mul (compose_expand W mul f fstep mt F1 F2) (compose_final W mul F1 F2)
        \<lparr>tup_fs = cf_start f, tup_s1 = i1, tup_s2 = i2\<rparr> x z w"
      using a(5) p1 p2 by simp
    with a(1,3) show "transduces mul G x z w"
      unfolding materialises_transduces [OF m] by (simp add: compose_start_def)
  }
qed

lemma compose_run:
  assumes W: "weight_monoids W add mul" and c: "\<And>a b. mul a b = mul b a"
    and L: "lossless_filter f F1 F2 fstates ctx fstep keeps" and ops: "compose_operands W lb F1 F2"
    and nl: "no_label_free olabel F1" "no_label_free ilabel F2"
    and m: "cf_matcher1 f = sorted1 lb F1" "cf_matcher2 f = sorted2 lb F2"
    and C: "lossy_cache C cok fresh" and n: "card fstates \<le> 3"
  shows "\<exists>G. compose_fst_compute W C fresh F1 F2 f = Some (Inr G) \<and> composed W mul F1 F2 G \<and>
    targets_ok G \<and> num_states G \<le> 3 * (num_states F1 * num_states F2)"
proof -
  note F = lossless_filter.axioms(1) [OF L]
  from compose_computes [OF W F ops m C] obtain G T mt where G: "compose_fst_compute W C fresh F1 F2 f = Some (Inr G)"
    "materialises T (compose_start f F1 F2) (compose_expand W mul f fstep mt F1 F2) (compose_final W mul F1 F2) G"
    "num_states G \<le> card fstates * (num_states F1 * num_states F2)" by blast
  have t: "targets_ok F1" "targets_ok F2" using ops fst_okD(3) by (auto simp: compose_operands_def)
  have "card fstates * (num_states F1 * num_states F2) \<le> 3 * (num_states F1 * num_states F2)"
    by (rule mult_right_mono [OF n]) simp
  with G(3) have "num_states G \<le> 3 * (num_states F1 * num_states F2)" by (rule order_trans)
  moreover have "targets_ok G" using G(2) by (simp add: materialises_def)
  ultimately show ?thesis using G(1) compose_relation [OF W c L t nl G(2)] by blast
qed

text \<open>All configurations without a sigma matcher, except the null filter's.\<close>

definition plain_config :: "compose_config \<Rightarrow> bool" where
  "plain_config cfg \<longleftrightarrow> cc_matcher1_config cfg = None \<and> cc_matcher2_config cfg = None \<and> cc_compose_filter cfg \<noteq> NullFilter"

lemma filter_matchers [simp]:
  "cf_matcher1 (sequence_filter m1 m2) = m1" "cf_matcher2 (sequence_filter m1 m2) = m2"
  "cf_matcher1 (alt_sequence_filter m1 m2) = m1" "cf_matcher2 (alt_sequence_filter m1 m2) = m2"
  "cf_matcher1 (match_filter m1 m2) = m1" "cf_matcher2 (match_filter m1 m2) = m2"
  "cf_matcher1 (stateless_filter p m1 m2) = m1" "cf_matcher2 (stateless_filter p m1 m2) = m2"
  by (simp_all add: sequence_filter_def alt_sequence_filter_def match_filter_def stateless_filter_def)

lemma connect_result:
  assumes "targets_ok G" "num_states G < 2 ^ 31"
  shows "\<exists>H. connect G = Inr H \<and> (\<forall>x y w. transduces mul H x y w \<longleftrightarrow> transduces mul G x y w)"
  using connect_eq [OF assms] trimmed_transduces [OF assms(1)] by auto

lemma compose_config_run:
  assumes W: "weight_monoids W add mul" and c: "\<And>a b. mul a b = mul b a"
    and ops: "compose_operands W lb F1 F2" and nl: "no_label_free olabel F1" "no_label_free ilabel F2"
    and cfg: "plain_config cfg" and n: "cc_connect cfg \<longrightarrow> 3 * (num_states F1 * num_states F2) < 2 ^ 31"
  shows "\<exists>G. compose_with_config W lb F1 F2 cfg = Some (Inr G) \<and> composed W mul F1 F2 G"
proof -
  note run = compose_run [OF W c _ ops nl]
  let ?m = "sorted1 lb F1" and ?m' = "sorted2 lb F2"
  define r where "r = (case cc_compose_filter cfg of
      AutoFilter \<Rightarrow> compose_fst_compute W null_cache () F1 F2 (sequence_filter ?m ?m')
    | SequenceFilter \<Rightarrow> compose_fst_compute W vec_cache vec_cache_new F1 F2 (sequence_filter ?m ?m')
    | AltSequenceFilter \<Rightarrow> compose_fst_compute W vec_cache vec_cache_new F1 F2 (alt_sequence_filter ?m ?m')
    | MatchFilter \<Rightarrow> compose_fst_compute W vec_cache vec_cache_new F1 F2 (match_filter ?m ?m')
    | NoMatchFilter \<Rightarrow> compose_fst_compute W vec_cache vec_cache_new F1 F2 (no_match_filter ?m ?m')
    | _ \<Rightarrow> compose_fst_compute W vec_cache vec_cache_new F1 F2 (trivial_filter ?m ?m'))"
  have e: "compose_with_config W lb F1 F2 cfg =
      bind_run r (\<lambda>ofst. if cc_connect cfg then Some (connect ofst) else Some (Inr ofst))"
    using cfg by (simp add: compose_with_config_def r_def plain_config_def create_matcher_def bind_run_def
        default_matcher1_def default_matcher2_def split: compose_filter_enum.splits)
  have "\<exists>G. r = Some (Inr G) \<and> composed W mul F1 F2 G \<and> targets_ok G \<and> num_states G \<le> 3 * (num_states F1 * num_states F2)"
    unfolding r_def
    using run [OF sequence.lossless_filter_axioms [where lb = lb], where C = null_cache and cok = "\<lambda>_. True" and fresh = "()"]
      run [OF sequence.lossless_filter_axioms [where lb = lb], where C = vec_cache and cok = "\<lambda>_. True" and fresh = vec_cache_new]
      run [OF alt_sequence.lossless_filter_axioms [where lb = lb], where C = vec_cache and cok = "\<lambda>_. True" and fresh = vec_cache_new]
      run [OF matching.lossless_filter_axioms [where lb = lb], where C = vec_cache and cok = "\<lambda>_. True" and fresh = vec_cache_new]
      run [OF trivial.lossless_filter_axioms [where lb = lb], where C = vec_cache and cok = "\<lambda>_. True" and fresh = vec_cache_new]
      run [OF no_match.lossless_filter_axioms [where lb = lb], where C = vec_cache and cok = "\<lambda>_. True" and fresh = vec_cache_new]
      null.lossy_cache_axioms vec.lossy_cache_axioms
    by (cases "cc_compose_filter cfg") (simp_all add: trivial_filter_def no_match_filter_def)
  then obtain G where G: "r = Some (Inr G)" "composed W mul F1 F2 G" "targets_ok G"
    "num_states G \<le> 3 * (num_states F1 * num_states F2)" by blast
  show ?thesis
  proof (cases "cc_connect cfg")
    case True
    with n G(4) have "num_states G < 2 ^ 31" by simp
    from connect_result [OF G(3) this] obtain H where "connect G = Inr H"
      "\<forall>x y w. transduces mul H x y w \<longleftrightarrow> transduces mul G x y w" by blast
    with True G show ?thesis by (auto simp: e bind_run_def composed_def)
  next
    case False
    with G show ?thesis by (auto simp: e bind_run_def)
  qed
qed

text \<open>Unsorted operands are an error, under every configuration without a sigma matcher.\<close>

lemma compose_unsorted:
  assumes "matched_side F1 F2 = None" "cf_matcher1 f = sorted1 lb F1" "cf_matcher2 f = sorted2 lb F2"
  shows "\<exists>e. compose_fst_compute W C fresh F1 F2 f = Some (Inl e)"
  using choose_unsorted [OF assms(1), of lb] assms(2,3) by (auto simp: compose_fst_compute_def compose_op_new_def)

definition fails :: "'a res option \<Rightarrow> bool" where
  "fails r \<longleftrightarrow> (\<exists>e. r = Some (Inl e))"

lemma bind_run_fails: "fails r \<Longrightarrow> fails (bind_run r f)"
  by (auto simp: fails_def bind_run_def)

lemma compose_config_error:
  assumes cfg: "cc_matcher1_config cfg = None" "cc_matcher2_config cfg = None" and n: "matched_side F1 F2 = None"
  shows "fails (compose_with_config W lb F1 F2 cfg)"
proof -
  have new: "fails (compose_fst_compute W C fresh F1 F2 f)"
    if "cf_matcher1 f = sorted1 lb F1" "cf_matcher2 f = sorted2 lb F2"
    for C :: "('a, 'cache) fst_cache" and fresh and f :: "('a, 'fs, 'c) compose_filter"
    using compose_unsorted [OF n that] by (simp add: fails_def)
  have m: "create_matcher W lb None F mt = Inr (sorted_matcher lb F mt)" for F mt by (simp add: create_matcher_def)
  have b: "bind_run (Some (Inr a)) f = f a" for a :: "'a matcher" and f :: "'a matcher \<Rightarrow> 'a vfst res option"
    by (simp add: bind_run_def)
  show ?thesis
    unfolding compose_with_config_def cfg m b
    by (rule bind_run_fails, cases "cc_compose_filter cfg")
      (simp_all add: new default_matcher1_def default_matcher2_def null_filter_def trivial_filter_def no_match_filter_def)
qed

end
