(* ===== verification/Determinize_Op.thy ===== *)
theory Determinize_Op
  imports Tuple_Machine Reverse Semiring_Instances "HOL-Library.AList"
begin

text \<open>
  Determinization of acceptors (\<open>algorithms/determinize\<close>): the lazy operation whose states are weighted
  subsets, its state table with the budget on stored elements, the common divisors, and the static
  functions. \<open>W::divide\<close> and \<open>quantize_assign\<close> at the given \<open>delta\<close> are the weight type's and come with the
  record \<open>division\<close>. The branch for transducers is the argument
  \<open>gallic\<close> of \<open>determinize_dispatch\<close>; \<open>Determinize_Fst\<close> supplies it.
\<close>

subsection \<open>Elements\<close>

record 'w division =
  dv_divide :: "'w \<Rightarrow> 'w \<Rightarrow> divide_type \<Rightarrow> 'w res"
  dv_quantize :: "'w \<Rightarrow> 'w res"

record 'w det_element =
  de_state :: state_id
  de_weight :: 'w

type_synonym 'w weighted_subset = "'w det_element list"

record 'w det_tuple =
  dt_subset :: "'w weighted_subset"
  dt_filter_state :: state_id

record 'w det_tr =
  dtr_label :: label
  dtr_weight :: 'w
  dtr_dest :: "'w det_tuple"

definition det_from_tr :: "'w semiring \<Rightarrow> 'w tr \<Rightarrow> state_id \<Rightarrow> 'w det_tr" where
  "det_from_tr W t fs = \<lparr>dtr_label = ilabel t, dtr_weight = zero_w W,
     dtr_dest = \<lparr>dt_subset = [], dt_filter_state = fs\<rparr>\<rparr>"

subsection \<open>Common divisors\<close>

record 'w common_divisor =
  cd_merge_before_divisor :: bool
  cd_common_divisor :: "'w \<Rightarrow> 'w \<Rightarrow> 'w res"

definition default_common_divisor :: "'w semiring \<Rightarrow> 'w common_divisor" where
  "default_common_divisor W = \<lparr>cd_merge_before_divisor = True, cd_common_divisor = plus_w W\<rparr>"

text \<open>The first item of a string weight's iterator, as a weight.\<close>

definition string_first :: "string_variant \<Rightarrow> string_variant res" where
  "string_first v = (case sv_next v (0, False) of (Some x, _) \<Rightarrow> Inr x
     | (None, _) \<Rightarrow> Inl (Panic ''called Option::unwrap() on a None value''))"

definition label_common_divisor :: "string_variant common_divisor" where
  "label_common_divisor = \<lparr>cd_merge_before_divisor = False,
     cd_common_divisor = (\<lambda>w1 w2.
       if w1 = Labels [] \<or> w2 = Labels [] then Inr (Labels [])
       else if w1 = Infinity then string_first w2
       else if w2 = Infinity then string_first w1
       else rbind (string_first w1) (\<lambda>v1. rbind (string_first w2) (\<lambda>v2.
         if v1 = v2 then Inr v1 else Inr (Labels []))))\<rparr>"

subsection \<open>The state table\<close>

record 'w det_table =
  dtab_map :: "'w det_tuple bi_map"
  dtab_in_dist :: "'w list option"
  dtab_out_dist :: "'w option list"
  dtab_stored_subset_elements :: nat
  dtab_max_subset_elements :: "nat option"

definition det_table_new :: "'w list option \<Rightarrow> nat option \<Rightarrow> 'w det_table" where
  "det_table_new in_dist max_elements = \<lparr>dtab_map = bi_map_new, dtab_in_dist = in_dist, dtab_out_dist = [],
     dtab_stored_subset_elements = 0, dtab_max_subset_elements = max_elements\<rparr>"

text \<open>A decimal rendering, for the error's message.\<close>

fun show_nat :: "nat \<Rightarrow> string" where
  "show_nat n = (if n < 10 then [''0123456789'' ! n] else show_nat (n div 10) @ [''0123456789'' ! (n mod 10)])"

declare show_nat.simps [simp del]

definition subset_limit_exceeded :: "nat \<Rightarrow> nat \<Rightarrow> rust_error" where
  "subset_limit_exceeded limit attempted = Bail (''determinize: weighted-subset element budget of '' @ show_nat limit @
     '' exceeded (attempted '' @ show_nat attempted @ '')'')"

definition check_expansion_elements :: "'w det_table \<Rightarrow> nat \<Rightarrow> unit res" where
  "check_expansion_elements tab expansion_elements =
     (let attempted = usize_sat_add (dtab_stored_subset_elements tab) expansion_elements
      in case dtab_max_subset_elements tab of
           Some limit \<Rightarrow> if attempted > limit then Inl (subset_limit_exceeded limit attempted) else Inr ()
         | None \<Rightarrow> Inr ())"

definition find_tuple :: "'w det_table \<Rightarrow> state_id \<Rightarrow> 'w det_tuple res" where
  "find_tuple tab i = vec_index (id_to_tuple (dtab_map tab)) i"

definition compute_distance :: "'w semiring \<Rightarrow> 'w list \<Rightarrow> 'w weighted_subset \<Rightarrow> 'w res" where
  "compute_distance W in_dist elements =
     for_res (\<lambda>e outd.
       let ind = (case vec_get in_dist (de_state e) of Some w \<Rightarrow> w | None \<Rightarrow> zero_w W)
       in rbind (times_w W (de_weight e) ind) (plus_w W outd)) elements (zero_w W)"

text \<open>The distance to the final states of a new subset, kept when input distances were given.\<close>

definition record_distance :: "'w semiring \<Rightarrow> 'w det_tuple \<Rightarrow> 'w det_table \<Rightarrow> 'w det_table res" where
  "record_distance W tuple tab =
     (let n = length (id_to_tuple (dtab_map tab))
      in case dtab_in_dist tab of
           None \<Rightarrow> Inr tab
         | Some in_dist \<Rightarrow>
             let out_dist = (if n \<ge> length (dtab_out_dist tab) then vec_resize (dtab_out_dist tab) (n + 1) None else dtab_out_dist tab)
             in if out_dist ! n = None
                then rbind (compute_distance W in_dist (dt_subset tuple)) (\<lambda>d.
                  Inr (tab\<lparr>dtab_out_dist := out_dist[n := Some d]\<rparr>))
                else Inr (tab\<lparr>dtab_out_dist := out_dist\<rparr>))"

definition find_id_from_ref :: "'w semiring \<Rightarrow> 'w det_tuple \<Rightarrow> 'w det_table \<Rightarrow> (state_id \<times> 'w det_table) res" where
  "find_id_from_ref W tuple tab = (case tuple_to_id (dtab_map tab) tuple of
     Some i \<Rightarrow> Inr (i, tab)
   | None \<Rightarrow>
       let attempted = usize_sat_add (dtab_stored_subset_elements tab) (length (dt_subset tuple))
       in rbind (case dtab_max_subset_elements tab of
            Some limit \<Rightarrow> if attempted > limit then Inl (subset_limit_exceeded limit attempted) else Inr ()
          | None \<Rightarrow> Inr ()) (\<lambda>_.
          rbind (record_distance W tuple tab) (\<lambda>tab.
            let (n, m) = table_id_or_insert tuple (dtab_map tab)
            in Inr (n, tab\<lparr>dtab_map := m, dtab_stored_subset_elements := attempted\<rparr>))))"

subsection \<open>The operation\<close>

text \<open>A \<open>BTreeMap\<close> is its list of entries in key order.\<close>

fun btree_insert :: "'k::linorder \<Rightarrow> 'v \<Rightarrow> ('k \<times> 'v) list \<Rightarrow> ('k \<times> 'v) list" where
  "btree_insert k v [] = [(k, v)]"
| "btree_insert k v ((k', v') # m) =
     (if k < k' then (k, v) # (k', v') # m else if k = k' then (k, v) # m else (k', v') # btree_insert k v m)"

text \<open>
  The transitions found for a label; \<open>dest_weights\<close> is a \<open>HashMap\<close> read in the order of insertion, which
  does not matter because its entries are sorted before use.
\<close>

record 'w det_accumulator =
  da_det_tr :: "'w det_tr"
  da_dest_weights :: "(state_id \<times> 'w) list"
  da_raw_pairs :: "'w det_element list"

type_synonym 'w label_map = "(label \<times> 'w det_accumulator) list"

definition det_scan_tr ::
  "'w semiring \<Rightarrow> 'w common_divisor \<Rightarrow> 'w det_table \<Rightarrow> 'w det_element \<Rightarrow> 'w tr \<Rightarrow> 'w label_map \<times> nat \<Rightarrow>
   ('w label_map \<times> nat) res" where
  "det_scan_tr W CD tab src t = (\<lambda>(m, n).
     rbind (times_w W (de_weight src) (weight t)) (\<lambda>r.
       let acc = (case map_of m (ilabel t) of
                    Some acc \<Rightarrow> acc
                  | None \<Rightarrow> \<lparr>da_det_tr = det_from_tr W t 0, da_dest_weights = [], da_raw_pairs = []\<rparr>)
       in if cd_merge_before_divisor CD
          then case map_of (da_dest_weights acc) (nextstate t) of
                 None \<Rightarrow>
                   let n = usize_sat_add n 1
                   in rbind (check_expansion_elements tab n) (\<lambda>_.
                     Inr (btree_insert (ilabel t) (acc\<lparr>da_dest_weights := AList.update (nextstate t) r (da_dest_weights acc)\<rparr>) m, n))
               | Some w \<Rightarrow>
                   rbind (plus_w W w r) (\<lambda>v.
                     Inr (btree_insert (ilabel t) (acc\<lparr>da_dest_weights := AList.update (nextstate t) v (da_dest_weights acc)\<rparr>) m, n))
          else let n = usize_sat_add n 1
               in rbind (check_expansion_elements tab n) (\<lambda>_.
                 Inr (btree_insert (ilabel t)
                   (acc\<lparr>da_raw_pairs := da_raw_pairs acc @ [\<lparr>de_state = nextstate t, de_weight = r\<rparr>]\<rparr>) m, n))))"

definition det_label_map ::
  "'w semiring \<Rightarrow> 'w common_divisor \<Rightarrow> 'w vfst \<Rightarrow> 'w det_table \<Rightarrow> 'w det_tuple \<Rightarrow> 'w label_map res" where
  "det_label_map W CD F tab tuple =
     rbind (for_res (\<lambda>src st. rbind (get_trs F (de_state src)) (\<lambda>ts. for_res (det_scan_tr W CD tab src) ts st))
       (dt_subset tuple) ([], 0)) (\<lambda>(m, n). Inr m)"

text \<open>Equal destinations merged after the divisor was taken; another \<open>HashMap\<close> that is sorted before use.\<close>

definition merge_pair ::
  "'w semiring \<Rightarrow> 'w det_element \<Rightarrow> (state_id \<times> 'w det_element) list \<Rightarrow> (state_id \<times> 'w det_element) list res" where
  "merge_pair W e m = (case map_of m (de_state e) of
     None \<Rightarrow> Inr (AList.update (de_state e) e m)
   | Some e' \<Rightarrow> rbind (plus_w W (de_weight e') (de_weight e)) (\<lambda>w.
       Inr (AList.update (de_state e) (e'\<lparr>de_weight := w\<rparr>) m)))"

definition norm_tr ::
  "'w semiring \<Rightarrow> 'w division \<Rightarrow> 'w common_divisor \<Rightarrow> 'w det_tr \<Rightarrow> bool \<Rightarrow> 'w det_tr res" where
  "norm_tr W D CD det_tr already_merged =
     (let pairs = sort_key de_state (dt_subset (dtr_dest det_tr))
      in rbind (for_res (\<lambda>e w. cd_common_divisor CD w (de_weight e)) pairs (dtr_weight det_tr)) (\<lambda>w.
        rbind (if \<not> already_merged
               then rbind (for_res (merge_pair W) pairs []) (\<lambda>m. Inr (sort_key de_state (map snd m)))
               else Inr pairs) (\<lambda>pairs.
          rbind (map_res (\<lambda>e. rbind (dv_divide D (de_weight e) w DivideLeft) (\<lambda>q.
              rbind (dv_quantize D q) (\<lambda>q. Inr (e\<lparr>de_weight := q\<rparr>)))) pairs) (\<lambda>pairs.
            Inr (det_tr\<lparr>dtr_weight := w, dtr_dest := (dtr_dest det_tr)\<lparr>dt_subset := pairs\<rparr>\<rparr>)))))"

definition det_dest_pairs :: "'w common_divisor \<Rightarrow> 'w det_accumulator \<Rightarrow> 'w weighted_subset" where
  "det_dest_pairs CD acc =
     (if cd_merge_before_divisor CD then map (\<lambda>(s, w). \<lparr>de_state = s, de_weight = w\<rparr>) (da_dest_weights acc)
      else da_raw_pairs acc)"

definition det_emit ::
  "'w semiring \<Rightarrow> 'w division \<Rightarrow> 'w common_divisor \<Rightarrow> 'w det_accumulator \<Rightarrow> 'w det_table \<times> 'w tr list \<Rightarrow>
   ('w det_table \<times> 'w tr list) res" where
  "det_emit W D CD acc = (\<lambda>(tab, ts).
     let det_tr = da_det_tr acc;
         det_tr = det_tr\<lparr>dtr_dest := (dtr_dest det_tr)\<lparr>dt_subset := det_dest_pairs CD acc\<rparr>\<rparr>
     in rbind (norm_tr W D CD det_tr (cd_merge_before_divisor CD)) (\<lambda>det_tr.
       rbind (find_id_from_ref W (dtr_dest det_tr) tab) (\<lambda>(i, tab).
         Inr (tab, ts @ [tr_new (dtr_label det_tr) (dtr_label det_tr) (dtr_weight det_tr) i]))))"

definition det_compute_start :: "'w semiring \<Rightarrow> 'w vfst \<Rightarrow> 'w det_table \<Rightarrow> (state_id option \<times> 'w det_table) res" where
  "det_compute_start W F tab = (case start_state F of
     Some s \<Rightarrow> rbind (find_id_from_ref W \<lparr>dt_subset = [\<lparr>de_state = s, de_weight = one_w W\<rparr>], dt_filter_state = s\<rparr> tab)
       (\<lambda>(i, tab). Inr (Some i, tab))
   | None \<Rightarrow> Inr (None, tab))"

definition det_compute_trs ::
  "'w semiring \<Rightarrow> 'w division \<Rightarrow> 'w common_divisor \<Rightarrow> 'w vfst \<Rightarrow> state_id \<Rightarrow> 'w det_table \<Rightarrow>
   ('w tr list \<times> 'w det_table) res" where
  "det_compute_trs W D CD F i tab =
     rbind (find_tuple tab i) (\<lambda>tuple.
       rbind (det_label_map W CD F tab tuple) (\<lambda>m.
         rbind (for_res (det_emit W D CD) (map snd m) (tab, [])) (\<lambda>(tab, ts). Inr (ts, tab))))"

definition det_final_add :: "'w semiring \<Rightarrow> 'w vfst \<Rightarrow> 'w det_element \<Rightarrow> 'w \<Rightarrow> 'w res" where
  "det_final_add W F e w =
     rbind (final_weight_of F (de_state e)) (\<lambda>fw.
       rbind (times_w W (de_weight e) (case fw of Some v \<Rightarrow> v | None \<Rightarrow> zero_w W)) (plus_w W w))"

definition det_compute_final ::
  "'w semiring \<Rightarrow> 'w vfst \<Rightarrow> state_id \<Rightarrow> 'w det_table \<Rightarrow> ('w option \<times> 'w det_table) res" where
  "det_compute_final W F i tab =
     rbind (find_tuple tab i) (\<lambda>tuple.
       rbind (for_res (det_final_add W F) (dt_subset tuple) (zero_w W)) (\<lambda>w.
         Inr (if is_zero W w then None else Some w, tab)))"

definition det_fsa_op ::
  "'w semiring \<Rightarrow> 'w division \<Rightarrow> 'w common_divisor \<Rightarrow> 'w vfst \<Rightarrow> ('w, 'w det_table) fst_op" where
  "det_fsa_op W D CD F = \<lparr>op_compute_start = det_compute_start W F, op_compute_trs = det_compute_trs W D CD F,
     op_compute_final_weight = det_compute_final W F, op_properties = 0\<rparr>"

definition det_fsa_new :: "'w vfst \<Rightarrow> 'w list option \<Rightarrow> nat option \<Rightarrow> ('w det_table, unit) lazy_fst res" where
  "det_fsa_new F in_dist max_elements =
     (if \<not> contains (properties F) ACCEPTOR then Inl (Bail ''DeterminizeFsaImpl : expected acceptor as argument'')
      else Inr (from_op_and_cache (det_table_new in_dist max_elements) () (isymt F) (osymt F)))"

subsection \<open>The static functions\<close>

definition determinize_fsa ::
  "'w semiring \<Rightarrow> 'w division \<Rightarrow> 'w common_divisor \<Rightarrow> 'w vfst \<Rightarrow> nat option \<Rightarrow> nat option \<Rightarrow> nat option \<Rightarrow>
   'w vfst res option" where
  "determinize_fsa W D CD F max_states max_elements max_trs =
     (if \<not> declares W LEFT_SEMIRING then Some (Inl (Bail ''determinize_fsa : weight must be left distributive''))
      else case det_fsa_new F None max_elements of
             Inl e \<Rightarrow> Some (Inl e)
           | Inr l \<Rightarrow> compute_bounded W (det_fsa_op W D CD F) null_cache max_states max_trs l)"

datatype determinize_type = DeterminizeFunctional | DeterminizeNonFunctional | DeterminizeDisambiguate

record determinize_config =
  dc_det_type :: determinize_type
  dc_max_states :: "nat option"
  dc_max_subset_elements :: "nat option"
  dc_max_trs :: "nat option"

text \<open>
  \<open>determinize_dispatch\<close>; \<open>gallic\<close> stands for \<open>determinize_fst\<close>, the branch for transducers. \<open>delta\<close> is in \<open>D\<close>.
\<close>

definition determinize_finish :: "'w vfst \<Rightarrow> determinize_config \<Rightarrow> 'w vfst \<Rightarrow> 'w vfst" where
  "determinize_finish fst_in cfg fst_res =
     (let iprops = properties fst_in;
          distinct_psubsequential_labels = (dc_det_type cfg \<noteq> DeterminizeNonFunctional);
          props = determinize_properties iprops False distinct_psubsequential_labels;
          props = (if contains iprops ACCEPTOR then props OR (I_LABEL_SORTED OR O_LABEL_SORTED) else props)
      in set_symts_from_fst (set_properties fst_res props) fst_in)"

definition determinize_dispatch ::
  "'w semiring \<Rightarrow> 'w division \<Rightarrow> ('w vfst \<Rightarrow> determinize_config \<Rightarrow> 'w vfst res option) \<Rightarrow> 'w vfst \<Rightarrow> determinize_config \<Rightarrow>
   'w vfst res option" where
  "determinize_dispatch W D gallic F cfg =
     (case (if contains (properties F) ACCEPTOR
            then determinize_fsa W D (default_common_divisor W) F (dc_max_states cfg) (dc_max_subset_elements cfg) (dc_max_trs cfg)
            else gallic F cfg) of
        Some (Inr fst_res) \<Rightarrow> Some (Inr (determinize_finish F cfg fst_res))
      | r \<Rightarrow> r)"

end
