(* ===== verification/Determinize_Subsets.thy ===== *)
theory Determinize_Subsets
  imports Determinize_Op
begin

text \<open>
  Correctness of determinization on its weighted subsets: an expansion groups the transitions of the
  subset by label, and the weight of a label sequence is kept. Weights form a semiring in which sums
  can be divided exactly and no sum or product of non-zero weights is zero.
\<close>

subsection \<open>Sums over lists\<close>

definition wsum :: "('w \<Rightarrow> 'w \<Rightarrow> 'w) \<Rightarrow> 'w \<Rightarrow> ('a \<Rightarrow> 'w) \<Rightarrow> 'a list \<Rightarrow> 'w" where
  "wsum add z f xs = foldr (\<lambda>x. add (f x)) xs z"

lemma wsum_simps [simp]:
  "wsum add z f [] = z" "wsum add z f (x # xs) = add (f x) (wsum add z f xs)"
  by (simp_all add: wsum_def)

lemma wsum_map [simp]: "wsum add z f (map g xs) = wsum add z (\<lambda>x. f (g x)) xs"
  by (simp add: wsum_def foldr_map comp_def)

lemma wsum_cong: "(\<And>x. x \<in> set xs \<Longrightarrow> f x = g x) \<Longrightarrow> wsum add z f xs = wsum add z g xs"
  by (induction xs) auto

context weight_monoids
begin

lemma wsum_append: "wsum add (zero_w W) f (xs @ ys) = add (wsum add (zero_w W) f xs) (wsum add (zero_w W) f ys)"
  by (induction xs) (simp_all add: add_zero add_assoc)

lemma wsum_concat: "wsum add (zero_w W) f (concat xss) = wsum add (zero_w W) (wsum add (zero_w W) f) xss"
  by (induction xss) (simp_all add: wsum_append)

lemma wsum_perm:
  assumes "mset xs = mset ys"
  shows "wsum add (zero_w W) f xs = wsum add (zero_w W) f ys"
proof -
  have e: "wsum add z f xs = fold add (map f (rev xs)) z" for z and f :: "'b \<Rightarrow> 'w" and xs
    by (simp add: wsum_def foldr_conv_fold fold_map comp_def)
  have "mset (map f (rev xs)) = mset (map f (rev ys))" using assms by simp
  then show ?thesis unfolding e by (rule fold_add_perm)
qed

lemma wsum_member: "x \<in> set xs \<Longrightarrow> \<exists>b. wsum add (zero_w W) f xs = add (f x) b"
  by (induction xs) (auto, metis add_left_commute)

lemma fold_wsum: "fold (\<lambda>x a. add a (f x)) xs a = add a (wsum add (zero_w W) f xs)"
  by (induction xs arbitrary: a) (simp_all add: add_zero_right add_assoc)

end

context left_semiring
begin

lemma wsum_left:
  "mul c (wsum add (zero_w W) f xs) = wsum add (zero_w W) (\<lambda>x. mul c (f x)) xs"
  by (induction xs) (simp_all add: mul_zero_right left_distrib)

end

context right_semiring
begin

lemma wsum_right:
  "mul (wsum add (zero_w W) f xs) c = wsum add (zero_w W) (\<lambda>x. mul (f x) c) xs"
  by (induction xs) (simp_all add: mul_zero_left right_distrib)

end

subsection \<open>Entries\<close>

lemma set_btree_insert:
  "sorted_wrt (<) (map fst m) \<Longrightarrow> set (btree_insert k v m) = insert (k, v) {p \<in> set m. fst p \<noteq> k}"
  by (induction k v m rule: btree_insert.induct) auto

lemma sorted_btree_insert:
  "sorted_wrt (<) (map fst m) \<Longrightarrow> sorted_wrt (<) (map fst (btree_insert k v m))"
proof (induction k v m rule: btree_insert.induct)
  case (2 k v k' v' m)
  then have s: "sorted_wrt (<) (map fst m)" "\<forall>p \<in> set m. k' < fst p" by auto
  have "\<forall>p \<in> set (btree_insert k v m). k' < fst p" if "k' < k" using s that by (auto simp: set_btree_insert)
  with 2 s show ?case by (auto simp: not_less_iff_gr_or_eq)
qed simp

lemma map_of_sorted:
  fixes m :: "('k :: linorder \<times> 'v) list"
  assumes "sorted_wrt (<) (map fst m)"
  shows "map_of m k = Some v \<longleftrightarrow> (k, v) \<in> set m"
proof -
  have "distinct (map fst m)" using assms strict_sorted_iff [of "map fst m"] by simp
  then show ?thesis by (rule map_of_eq_Some_iff)
qed

lemma alist_update_new: "map_of m k = None \<Longrightarrow> AList.update k v m = m @ [(k, v)]"
  by (induction m) (auto split: if_splits)

context weight_monoids
begin

lemma alist_update_sum:
  assumes "map_of m k = Some w" and "h (k, w') = add (h (k, w)) c"
  shows "wsum add (zero_w W) h (AList.update k w' m) = add (wsum add (zero_w W) h m) c"
  using assms
proof (induction m)
  case (Cons p m)
  then show ?case by (cases p) (auto simp: add_assoc add_commute [of c] split: if_splits)
qed simp

end

lemma alist_update_set:
  "distinct (map fst m) \<Longrightarrow> set (AList.update k w m) = insert (k, w) {p \<in> set m. fst p \<noteq> k}"
proof (induction m)
  case (Cons p m)
  then have "\<forall>q \<in> set m. fst q \<noteq> fst p" by (auto simp: image_iff)
  with Cons show ?case by (cases p) auto
qed simp

subsection \<open>The transitions of a subset\<close>

definition det_pairs :: "('w \<Rightarrow> 'w \<Rightarrow> 'w) \<Rightarrow> 'w vfst \<Rightarrow> 'w weighted_subset \<Rightarrow> (label \<times> state_id \<times> 'w) list" where
  "det_pairs mul F es = concat (map (\<lambda>e. map (\<lambda>t. (ilabel t, nextstate t, mul (de_weight e) (weight t)))
     (trs (state_of F (de_state e)))) es)"

text \<open>What the entry for a label holds of the pairs \<open>qs\<close> with that label.\<close>

definition dest_ok ::
  "('w \<Rightarrow> 'w \<Rightarrow> 'w) \<Rightarrow> ('w \<Rightarrow> 'w \<Rightarrow> 'w) \<Rightarrow> 'w \<Rightarrow> (label \<times> state_id \<times> 'w) list \<Rightarrow> (state_id \<times> 'w) list \<Rightarrow> bool" where
  "dest_ok add mul z qs dest \<longleftrightarrow> distinct (map fst dest) \<and> fst ` set dest = (\<lambda>q. fst (snd q)) ` set qs \<and>
     (\<forall>d \<in> set dest. snd d \<noteq> z) \<and>
     (\<forall>f. wsum add z (\<lambda>d. mul (snd d) (f (fst d))) dest = wsum add z (\<lambda>q. mul (snd (snd q)) (f (fst (snd q)))) qs)"

definition label_map_ok ::
  "('w \<Rightarrow> 'w \<Rightarrow> 'w) \<Rightarrow> ('w \<Rightarrow> 'w \<Rightarrow> 'w) \<Rightarrow> 'w \<Rightarrow> (label \<times> state_id \<times> 'w) list \<Rightarrow> 'w label_map \<Rightarrow> bool" where
  "label_map_ok add mul z ps m \<longleftrightarrow> sorted_wrt (<) (map fst m) \<and> fst ` set m = fst ` set ps \<and>
     (\<forall>x \<in> set m. da_det_tr (snd x) = \<lparr>dtr_label = fst x, dtr_weight = z, dtr_dest = \<lparr>dt_subset = [], dt_filter_state = 0\<rparr>\<rparr> \<and>
        dest_ok add mul z (filter (\<lambda>q. fst q = fst x) ps) (da_dest_weights (snd x)))"

text \<open>Weights without divisors of zero, and in which sums can be divided by exactly.\<close>

definition no_zero_terms :: "'w semiring \<Rightarrow> ('w \<Rightarrow> 'w \<Rightarrow> 'w) \<Rightarrow> ('w \<Rightarrow> 'w \<Rightarrow> 'w) \<Rightarrow> bool" where
  "no_zero_terms W add mul \<longleftrightarrow> one_w W \<noteq> zero_w W \<and> (\<forall>a b. add a b = zero_w W \<longrightarrow> a = zero_w W) \<and>
     (\<forall>a b. mul a b = zero_w W \<longrightarrow> a = zero_w W \<or> b = zero_w W)"

definition divides_sums :: "'w semiring \<Rightarrow> 'w division \<Rightarrow> ('w \<Rightarrow> 'w \<Rightarrow> 'w) \<Rightarrow> ('w \<Rightarrow> 'w \<Rightarrow> 'w) \<Rightarrow> bool" where
  "divides_sums W D add mul \<longleftrightarrow> (\<forall>a b. add a b \<noteq> zero_w W \<longrightarrow>
     (\<exists>q. rbind (dv_divide D a (add a b) DivideLeft) (dv_quantize D) = Inr q \<and> mul (add a b) q = a))"

definition elements_ok :: "'w semiring \<Rightarrow> 'w vfst \<Rightarrow> 'w weighted_subset \<Rightarrow> bool" where
  "elements_ok W F es \<longleftrightarrow> (\<forall>e \<in> set es. de_state e < num_states F \<and> de_weight e \<noteq> zero_w W)"

definition arcs_nonzero :: "'w semiring \<Rightarrow> 'w vfst \<Rightarrow> bool" where
  "arcs_nonzero W F \<longleftrightarrow> (\<forall>s < num_states F. \<forall>t \<in> set (trs (state_of F s)). weight t \<noteq> zero_w W)"

context full_semiring
begin

lemma dest_new:
  assumes "dest_ok add mul (zero_w W) qs dest" "map_of dest s = None" "r \<noteq> zero_w W"
  shows "dest_ok add mul (zero_w W) (qs @ [(l, s, r)]) (AList.update s r dest)"
proof -
  have "s \<notin> fst ` set dest" using assms(2) by (simp add: map_of_eq_None_iff)
  with assms show ?thesis by (auto simp: dest_ok_def alist_update_new wsum_append)
qed

lemma dest_old:
  assumes ok: "dest_ok add mul (zero_w W) qs dest" and w: "map_of dest s = Some w" and nz: "no_zero_terms W add mul"
  shows "dest_ok add mul (zero_w W) (qs @ [(l, s, r)]) (AList.update s (add w r) dest)"
proof -
  from ok have d: "distinct (map fst dest)" and k: "fst ` set dest = (\<lambda>q. fst (snd q)) ` set qs"
    and n: "\<forall>d \<in> set dest. snd d \<noteq> zero_w W"
    and sum: "\<forall>f. wsum add (zero_w W) (\<lambda>d. mul (snd d) (f (fst d))) dest =
      wsum add (zero_w W) (\<lambda>q. mul (snd (snd q)) (f (fst (snd q)))) qs" by (simp_all add: dest_ok_def)
  from w have sw: "(s, w) \<in> set dest" by (rule map_of_SomeD)
  then have s: "s \<in> fst ` set dest" by force
  have "w \<noteq> zero_w W" using n sw by force
  then have "add w r \<noteq> zero_w W" using nz by (auto simp: no_zero_terms_def)
  then have n': "\<forall>d \<in> set (AList.update s (add w r) dest). snd d \<noteq> zero_w W"
    using n by (simp add: alist_update_set [OF d])
  have "fst ` set (AList.update s (add w r) dest) = fst ` set dest"
    using s by (auto simp: alist_update_set [OF d] image_iff)
  moreover have "(\<lambda>q. fst (snd q)) ` set (qs @ [(l, s, r)]) = fst ` set dest" using s k by auto
  moreover have "wsum add (zero_w W) (\<lambda>d. mul (snd d) (f (fst d))) (AList.update s (add w r) dest) =
      wsum add (zero_w W) (\<lambda>q. mul (snd (snd q)) (f (fst (snd q)))) (qs @ [(l, s, r)])" for f
    using alist_update_sum [OF w, of "\<lambda>d. mul (snd d) (f (fst d))" "add w r" "mul r (f s)"] sum
    by (simp add: right_distrib wsum_append add_zero_right)
  moreover have "distinct (map fst (AList.update s (add w r) dest))" by (rule distinct_update [OF d])
  ultimately show ?thesis using n' by (simp add: dest_ok_def)
qed

lemma filter_label: "filter (\<lambda>q. fst q = l) (ps @ [(l', s, r)]) = filter (\<lambda>q. fst q = l) ps @ (if l = l' then [(l', s, r)] else [])"
  by simp

lemma label_map_put:
  assumes ok: "label_map_ok add mul (zero_w W) ps m"
    and a: "da_det_tr acc = \<lparr>dtr_label = l, dtr_weight = zero_w W, dtr_dest = \<lparr>dt_subset = [], dt_filter_state = 0\<rparr>\<rparr>"
    and d: "dest_ok add mul (zero_w W) (filter (\<lambda>q. fst q = l) ps @ [(l, s, r)]) (da_dest_weights acc)"
  shows "label_map_ok add mul (zero_w W) (ps @ [(l, s, r)]) (btree_insert l acc m)"
proof -
  from ok have s: "sorted_wrt (<) (map fst m)" and k: "fst ` set m = fst ` set ps" by (simp_all add: label_map_ok_def)
  have "fst ` set (btree_insert l acc m) = insert l (fst ` set m)" by (auto simp: set_btree_insert [OF s])
  moreover have "da_det_tr (snd x) = \<lparr>dtr_label = fst x, dtr_weight = zero_w W, dtr_dest = \<lparr>dt_subset = [], dt_filter_state = 0\<rparr>\<rparr> \<and>
      dest_ok add mul (zero_w W) (filter (\<lambda>q. fst q = fst x) (ps @ [(l, s, r)])) (da_dest_weights (snd x))"
    if "x \<in> set (btree_insert l acc m)" for x
  proof (cases "x = (l, acc)")
    case True
    with a d show ?thesis by simp
  next
    case False
    with that have "x \<in> set m" "fst x \<noteq> l" by (auto simp: set_btree_insert [OF s])
    with ok show ?thesis by (simp add: label_map_ok_def)
  qed
  ultimately show ?thesis using sorted_btree_insert [OF s, of l acc] k by (simp add: label_map_ok_def)
qed

lemma no_expansion_limit: "dtab_max_subset_elements tab = None \<Longrightarrow> check_expansion_elements tab n = Inr ()"
  by (simp add: check_expansion_elements_def)

lemma scan_tr_ok:
  assumes nz: "no_zero_terms W add mul" and lim: "dtab_max_subset_elements tab = None"
    and w: "de_weight e \<noteq> zero_w W" "weight t \<noteq> zero_w W" and ok: "label_map_ok add mul (zero_w W) ps m"
  shows "\<exists>m' n'. det_scan_tr W (default_common_divisor W) tab e t (m, n) = Inr (m', n') \<and>
    label_map_ok add mul (zero_w W) (ps @ [(ilabel t, nextstate t, mul (de_weight e) (weight t))]) m'"
proof -
  let ?l = "ilabel t" and ?s = "nextstate t" and ?r = "mul (de_weight e) (weight t)"
  define acc where "acc = (case map_of m ?l of Some acc \<Rightarrow> acc
    | None \<Rightarrow> \<lparr>da_det_tr = det_from_tr W t 0, da_dest_weights = [], da_raw_pairs = []\<rparr>)"
  have r: "?r \<noteq> zero_w W" using nz w by (auto simp: no_zero_terms_def)
  from ok have s: "sorted_wrt (<) (map fst m)" and k: "fst ` set m = fst ` set ps" by (simp_all add: label_map_ok_def)
  have acc: "da_det_tr acc = \<lparr>dtr_label = ?l, dtr_weight = zero_w W, dtr_dest = \<lparr>dt_subset = [], dt_filter_state = 0\<rparr>\<rparr> \<and>
      dest_ok add mul (zero_w W) (filter (\<lambda>q. fst q = ?l) ps) (da_dest_weights acc)"
  proof (cases "map_of m ?l")
    case None
    then have "?l \<notin> fst ` set ps" using k by (simp add: map_of_eq_None_iff)
    then have "filter (\<lambda>q. fst q = ?l) ps = []" by (force simp: filter_empty_conv)
    with None show ?thesis by (simp add: acc_def det_from_tr_def dest_ok_def)
  next
    case (Some a)
    then have "(?l, a) \<in> set m" by (rule map_of_SomeD)
    with ok Some show ?thesis by (auto simp: acc_def label_map_ok_def)
  qed
  show ?thesis
  proof (cases "map_of (da_dest_weights acc) ?s")
    case None
    let ?a = "acc\<lparr>da_dest_weights := AList.update ?s ?r (da_dest_weights acc)\<rparr>"
    have "det_scan_tr W (default_common_divisor W) tab e t (m, n) = Inr (btree_insert ?l ?a m, usize_sat_add n 1)"
      using None by (simp add: det_scan_tr_def times_ok default_common_divisor_def acc_def [symmetric] no_expansion_limit [OF lim] Let_def)
    moreover have "label_map_ok add mul (zero_w W) (ps @ [(?l, ?s, ?r)]) (btree_insert ?l ?a m)"
      by (rule label_map_put [OF ok]) (use acc dest_new [OF _ None r] in simp_all)
    ultimately show ?thesis by blast
  next
    case (Some v)
    let ?a = "acc\<lparr>da_dest_weights := AList.update ?s (add v ?r) (da_dest_weights acc)\<rparr>"
    have "det_scan_tr W (default_common_divisor W) tab e t (m, n) = Inr (btree_insert ?l ?a m, n)"
      using Some by (simp add: det_scan_tr_def times_ok plus_ok default_common_divisor_def acc_def [symmetric] Let_def)
    moreover have "label_map_ok add mul (zero_w W) (ps @ [(?l, ?s, ?r)]) (btree_insert ?l ?a m)"
      by (rule label_map_put [OF ok]) (use acc dest_old [OF _ Some nz] in simp_all)
    ultimately show ?thesis by blast
  qed
qed

lemma scan_trs_ok:
  assumes nz: "no_zero_terms W add mul" and lim: "dtab_max_subset_elements tab = None"
    and w: "de_weight e \<noteq> zero_w W" "\<forall>t \<in> set ts. weight t \<noteq> zero_w W" and ok: "label_map_ok add mul (zero_w W) ps m"
  shows "\<exists>m' n'. for_res (det_scan_tr W (default_common_divisor W) tab e) ts (m, n) = Inr (m', n') \<and>
    label_map_ok add mul (zero_w W) (ps @ map (\<lambda>t. (ilabel t, nextstate t, mul (de_weight e) (weight t))) ts) m'"
  using w(2) ok
proof (induction ts arbitrary: ps m n)
  case (Cons t ts)
  from scan_tr_ok [OF nz lim w(1) _ Cons.prems(2), of t n] Cons.prems(1) obtain m1 n1 where
    1: "det_scan_tr W (default_common_divisor W) tab e t (m, n) = Inr (m1, n1)"
      "label_map_ok add mul (zero_w W) (ps @ [(ilabel t, nextstate t, mul (de_weight e) (weight t))]) m1" by auto
  from Cons.IH [OF _ 1(2), of n1] Cons.prems(1) 1(1) show ?case by auto
qed simp

lemma scan_elements_ok:
  assumes nz: "no_zero_terms W add mul" and lim: "dtab_max_subset_elements tab = None" and F: "arcs_nonzero W F"
    and es: "elements_ok W F es" and ok: "label_map_ok add mul (zero_w W) ps m"
  shows "\<exists>m' n'. for_res (\<lambda>src st. rbind (get_trs F (de_state src)) (\<lambda>ts. for_res (det_scan_tr W (default_common_divisor W) tab src) ts st))
      es (m, n) = Inr (m', n') \<and> label_map_ok add mul (zero_w W) (ps @ det_pairs mul F es) m'"
  using es ok
proof (induction es arbitrary: ps m n)
  case Nil
  then show ?case by (simp add: det_pairs_def)
next
  case (Cons e es)
  from Cons.prems(1) have e: "de_state e < num_states F" "de_weight e \<noteq> zero_w W" "elements_ok W F es"
    by (simp_all add: elements_ok_def)
  have t: "\<forall>t \<in> set (trs (state_of F (de_state e))). weight t \<noteq> zero_w W" using F e(1) by (simp add: arcs_nonzero_def)
  from scan_trs_ok [OF nz lim e(2) t Cons.prems(2), of n] obtain m1 n1 where
    1: "for_res (det_scan_tr W (default_common_divisor W) tab e) (trs (state_of F (de_state e))) (m, n) = Inr (m1, n1)"
      "label_map_ok add mul (zero_w W) (ps @ map (\<lambda>t. (ilabel t, nextstate t, mul (de_weight e) (weight t)))
         (trs (state_of F (de_state e)))) m1" by blast
  from Cons.IH [OF e(3) 1(2), of n1] 1(1) e(1) show ?case by (auto simp: get_trs_def det_pairs_def)
qed

lemma label_map_run:
  assumes "no_zero_terms W add mul" "dtab_max_subset_elements tab = None" "arcs_nonzero W F" "elements_ok W F (dt_subset k)"
  shows "\<exists>m. det_label_map W (default_common_divisor W) F tab k = Inr m \<and>
    label_map_ok add mul (zero_w W) (det_pairs mul F (dt_subset k)) m"
proof -
  have "label_map_ok add mul (zero_w W) [] []" by (simp add: label_map_ok_def)
  from scan_elements_ok [OF assms this, of 0] show ?thesis by (auto simp: det_label_map_def)
qed

end

end
