(* ===== verification/Determinize_Sound.thy ===== *)
theory Determinize_Sound
  imports Determinize_Subsets
begin

text \<open>
  The determinized machine on weighted subsets satisfies the contract of an operation on interned tuples,
  and the materialised transducer is deterministic and gives every label sequence the weight the operand
  gives it.
\<close>

subsection \<open>Normalising\<close>

definition subset_ok :: "'w semiring \<Rightarrow> 'w vfst \<Rightarrow> 'w det_tuple \<Rightarrow> bool" where
  "subset_ok W F k \<longleftrightarrow> elements_ok W F (dt_subset k) \<and> distinct (map de_state (dt_subset k))"

definition divided :: "'w division \<Rightarrow> 'w \<Rightarrow> 'w \<Rightarrow> 'w" where
  "divided D d a = (case rbind (dv_divide D a d DivideLeft) (dv_quantize D) of Inr q \<Rightarrow> q | Inl _ \<Rightarrow> a)"

lemma divided_Inr: "rbind (dv_divide D a d DivideLeft) (dv_quantize D) = Inr q \<Longrightarrow> divided D d a = q"
  by (simp add: divided_def)

context full_semiring
begin

lemma for_res_plus: "for_res (\<lambda>e w. plus_w W w (de_weight e)) es w0 = Inr (add w0 (wsum add (zero_w W) de_weight es))"
proof -
  have "for_res (\<lambda>e w. plus_w W w (de_weight e)) es w0 = Inr (fold (\<lambda>e a. add a (de_weight e)) es w0)"
    by (rule for_res_total) (simp add: plus_ok)
  then show ?thesis by (simp add: fold_wsum)
qed

lemma norm_default:
  assumes d: "divides_sums W D add mul" and nz: "no_zero_terms W add mul"
    and es: "es \<noteq> []" "distinct (map de_state es)" "\<forall>e \<in> set es. de_weight e \<noteq> zero_w W"
  shows "\<exists>sub w. norm_tr W D (default_common_divisor W)
      \<lparr>dtr_label = l, dtr_weight = zero_w W, dtr_dest = \<lparr>dt_subset = es, dt_filter_state = 0\<rparr>\<rparr> True =
      Inr \<lparr>dtr_label = l, dtr_weight = w, dtr_dest = \<lparr>dt_subset = sub, dt_filter_state = 0\<rparr>\<rparr> \<and>
    de_state ` set sub = de_state ` set es \<and> distinct (map de_state sub) \<and> (\<forall>e \<in> set sub. de_weight e \<noteq> zero_w W) \<and>
    (\<forall>f. mul w (wsum add (zero_w W) (\<lambda>e. mul (de_weight e) (f (de_state e))) sub) =
       wsum add (zero_w W) (\<lambda>e. mul (de_weight e) (f (de_state e))) es)"
proof -
  let ?z = "zero_w W"
  define ps where "ps = sort_key de_state es"
  define w where "w = wsum add ?z de_weight ps"
  let ?q = "\<lambda>e. e\<lparr>de_weight := divided D w (de_weight e)\<rparr>"
  have m: "mset ps = mset es" "set ps = set es" by (simp_all add: ps_def)
  have part: "\<exists>b. w = add (de_weight e) b" if "e \<in> set es" for e
    using wsum_member [of e ps de_weight] that by (simp add: w_def m)
  obtain e0 where "e0 \<in> set es" using es(1) by (cases es) auto
  then obtain b where "w = add (de_weight e0) b" "de_weight e0 \<noteq> ?z" using part es(3) by blast
  with nz have w: "w \<noteq> ?z" by (auto simp: no_zero_terms_def)
  have q: "rbind (dv_divide D (de_weight e) w DivideLeft) (dv_quantize D) = Inr (divided D w (de_weight e)) \<and>
      mul w (divided D w (de_weight e)) = de_weight e" if e: "e \<in> set es" for e
  proof -
    from part [OF e] obtain b where b: "w = add (de_weight e) b" by blast
    with w d obtain x where "rbind (dv_divide D (de_weight e) w DivideLeft) (dv_quantize D) = Inr x" "mul w x = de_weight e"
      by (auto simp: divides_sums_def)
    then show ?thesis using divided_Inr by metis
  qed
  have one: "rbind (dv_divide D (de_weight e) w DivideLeft) (\<lambda>q. rbind (dv_quantize D q) (\<lambda>q. Inr (e\<lparr>de_weight := q\<rparr>))) = Inr (?q e)"
    if "e \<in> set es" for e
    using q [OF that] by (auto simp: rbind_eq_Inr)
  have run: "map_res (\<lambda>e. rbind (dv_divide D (de_weight e) w DivideLeft) (\<lambda>q. rbind (dv_quantize D q) (\<lambda>q. Inr (e\<lparr>de_weight := q\<rparr>)))) ps
      = Inr (map ?q ps)"
    by (rule map_res_total) (use one m in simp)
  have n: "norm_tr W D (default_common_divisor W)
      \<lparr>dtr_label = l, dtr_weight = ?z, dtr_dest = \<lparr>dt_subset = es, dt_filter_state = 0\<rparr>\<rparr> True =
      Inr \<lparr>dtr_label = l, dtr_weight = w, dtr_dest = \<lparr>dt_subset = map ?q ps, dt_filter_state = 0\<rparr>\<rparr>"
    by (simp add: norm_tr_def default_common_divisor_def ps_def [symmetric] for_res_plus add_zero w_def [symmetric] run Let_def)
  have st: "map de_state (map ?q ps) = map de_state ps" by simp
  have "mset (map de_state ps) = mset (map de_state es)" by (simp add: m)
  then have "distinct (map de_state ps)" using es(2) by (metis mset_eq_imp_distinct_iff)
  then have dist: "distinct (map de_state (map ?q ps))" unfolding st .
  have nzq: "\<forall>e \<in> set (map ?q ps). de_weight e \<noteq> ?z"
  proof -
    have "divided D w (de_weight e) \<noteq> ?z" if "e \<in> set es" for e
      using q [OF that] es(3) that mul_zero_right by metis
    then show ?thesis by (simp add: m)
  qed
  have sum: "mul w (wsum add ?z (\<lambda>e. mul (de_weight e) (f (de_state e))) (map ?q ps)) =
      wsum add ?z (\<lambda>e. mul (de_weight e) (f (de_state e))) es" for f
  proof -
    have "mul w (wsum add ?z (\<lambda>e. mul (de_weight e) (f (de_state e))) (map ?q ps)) =
        wsum add ?z (\<lambda>e. mul w (mul (divided D w (de_weight e)) (f (de_state e)))) ps"
      by (simp add: wsum_left)
    also have "\<dots> = wsum add ?z (\<lambda>e. mul (de_weight e) (f (de_state e))) ps"
      by (rule wsum_cong) (use q m in \<open>simp add: mul_assoc [symmetric]\<close>)
    also have "\<dots> = wsum add ?z (\<lambda>e. mul (de_weight e) (f (de_state e))) es" by (rule wsum_perm [OF m(1)])
    finally show ?thesis .
  qed
  show ?thesis
    by (rule exI [of _ "map ?q ps"], rule exI [of _ w]) (use n dist nzq sum in \<open>simp add: m image_image\<close>)
qed

end

subsection \<open>The machine\<close>

definition acc_move :: "'w semiring \<Rightarrow> 'w division \<Rightarrow> 'w det_accumulator \<Rightarrow> label \<times> label \<times> 'w \<times> 'w det_tuple" where
  "acc_move W D acc = (let CD = default_common_divisor W; t = da_det_tr acc
     in case norm_tr W D CD (t\<lparr>dtr_dest := (dtr_dest t)\<lparr>dt_subset := det_dest_pairs CD acc\<rparr>\<rparr>) (cd_merge_before_divisor CD) of
          Inr t \<Rightarrow> (dtr_label t, dtr_label t, dtr_weight t, dtr_dest t)
        | Inl _ \<Rightarrow> (dtr_label t, dtr_label t, dtr_weight t, dtr_dest t))"

definition det_moves ::
  "'w semiring \<Rightarrow> 'w division \<Rightarrow> 'w vfst \<Rightarrow> 'w det_tuple \<Rightarrow> (label \<times> label \<times> 'w \<times> 'w det_tuple) list" where
  "det_moves W D F k = (case det_label_map W (default_common_divisor W) F (det_table_new None None) k of
     Inr m \<Rightarrow> map (acc_move W D) (map snd m) | Inl _ \<Rightarrow> [])"

definition det_final_of :: "'w semiring \<Rightarrow> ('w \<Rightarrow> 'w \<Rightarrow> 'w) \<Rightarrow> ('w \<Rightarrow> 'w \<Rightarrow> 'w) \<Rightarrow> 'w vfst \<Rightarrow> 'w det_tuple \<Rightarrow> 'w" where
  "det_final_of W add mul F k = wsum add (zero_w W) (\<lambda>e. mul (de_weight e)
     (case final_weight (state_of F (de_state e)) of Some v \<Rightarrow> v | None \<Rightarrow> zero_w W)) (dt_subset k)"

definition det_start :: "'w semiring \<Rightarrow> 'w vfst \<Rightarrow> 'w det_tuple option" where
  "det_start W F = map_option (\<lambda>s. \<lparr>dt_subset = [\<lparr>de_state = s, de_weight = one_w W\<rparr>], dt_filter_state = s\<rparr>) (start_state F)"

definition det_fin :: "'w semiring \<Rightarrow> ('w \<Rightarrow> 'w \<Rightarrow> 'w) \<Rightarrow> ('w \<Rightarrow> 'w \<Rightarrow> 'w) \<Rightarrow> 'w vfst \<Rightarrow> 'w det_tuple \<Rightarrow> 'w option" where
  "det_fin W add mul F k = (let w = det_final_of W add mul F k in if is_zero W w then None else Some w)"

text \<open>A move, against the pairs of its label.\<close>

definition move_ok ::
  "'w semiring \<Rightarrow> ('w \<Rightarrow> 'w \<Rightarrow> 'w) \<Rightarrow> ('w \<Rightarrow> 'w \<Rightarrow> 'w) \<Rightarrow> 'w vfst \<Rightarrow> 'w det_tuple \<Rightarrow>
   label \<times> label \<times> 'w \<times> 'w det_tuple \<Rightarrow> bool" where
  "move_ok W add mul F k = (\<lambda>(il, ol, w, k'). ol = il \<and> subset_ok W F k' \<and> dt_filter_state k' = 0 \<and>
     (\<forall>f. mul w (wsum add (zero_w W) (\<lambda>e. mul (de_weight e) (f (de_state e))) (dt_subset k')) =
        wsum add (zero_w W) (\<lambda>q. mul (snd (snd q)) (f (fst (snd q))))
          (filter (\<lambda>q. fst q = il) (det_pairs mul F (dt_subset k)))))"

lemma new_table_no_limit: "check_expansion_elements (det_table_new None None) = (\<lambda>_. Inr ())"
  by (simp add: fun_eq_iff check_expansion_elements_def det_table_new_def)

lemma default_merges [simp]: "cd_merge_before_divisor (default_common_divisor W)"
  by (simp add: default_common_divisor_def)

lemma dest_ok_nonempty: "dest_ok add mul z qs dest \<Longrightarrow> qs \<noteq> [] \<Longrightarrow> dest \<noteq> []"
  by (auto simp: dest_ok_def)

context full_semiring
begin

lemma label_map_run_table:
  assumes "no_zero_terms W add mul" "dtab_max_subset_elements tab = None" "arcs_nonzero W F" "elements_ok W F (dt_subset (k :: _ det_tuple))"
  shows "det_label_map W (default_common_divisor W) F tab k = det_label_map W (default_common_divisor W) F (det_table_new None None) k"
proof -
  have e: "check_expansion_elements tab = (\<lambda>_. Inr ())"
    using assms(2) by (simp add: fun_eq_iff no_expansion_limit)
  have "det_scan_tr W (default_common_divisor W) tab = det_scan_tr W (default_common_divisor W) (det_table_new None None)"
    unfolding det_scan_tr_def e new_table_no_limit by (rule refl)
  then show ?thesis by (simp only: det_label_map_def)
qed

lemma acc_move_ok:
  assumes d: "divides_sums W D add mul" and nz: "no_zero_terms W add mul" and t: "targets_ok F"
    and k: "elements_ok W F (dt_subset k)" and m: "label_map_ok add mul (zero_w W) (det_pairs mul F (dt_subset k)) m"
    and x: "x \<in> set m"
  shows "\<exists>dt. norm_tr W D (default_common_divisor W) ((da_det_tr (snd x))\<lparr>dtr_dest := (dtr_dest (da_det_tr (snd x)))
      \<lparr>dt_subset := det_dest_pairs (default_common_divisor W) (snd x)\<rparr>\<rparr>) True = Inr dt \<and>
    acc_move W D (snd x) = (fst x, fst x, dtr_weight dt, dtr_dest dt) \<and> dtr_label dt = fst x \<and>
    move_ok W add mul F k (acc_move W D (snd x))"
proof -
  let ?z = "zero_w W" and ?CD = "default_common_divisor W" and ?l = "fst x" and ?dest = "da_dest_weights (snd x)"
  let ?qs = "filter (\<lambda>q. fst q = ?l) (det_pairs mul F (dt_subset k))"
  let ?es = "map (\<lambda>d. \<lparr>de_state = fst d, de_weight = snd d\<rparr>) ?dest"
  from m x have tr: "da_det_tr (snd x) = \<lparr>dtr_label = ?l, dtr_weight = ?z, dtr_dest = \<lparr>dt_subset = [], dt_filter_state = 0\<rparr>\<rparr>"
    and dst: "dest_ok add mul ?z ?qs ?dest" by (auto simp: label_map_ok_def)
  have pairs: "det_dest_pairs ?CD (snd x) = ?es"
    by (simp add: det_dest_pairs_def default_common_divisor_def split_def)
  have "?l \<in> fst ` set (det_pairs mul F (dt_subset k))" using m x by (force simp: label_map_ok_def)
  then have "?qs \<noteq> []" by (force simp: filter_empty_conv)
  with dest_ok_nonempty [OF dst] have ne: "?es \<noteq> []" by simp
  have "distinct (map de_state ?es)" "\<forall>e \<in> set ?es. de_weight e \<noteq> ?z" using dst by (auto simp: dest_ok_def comp_def)
  from norm_default [OF d nz ne this, of ?l] obtain sub w where
    run: "norm_tr W D ?CD \<lparr>dtr_label = ?l, dtr_weight = ?z, dtr_dest = \<lparr>dt_subset = ?es, dt_filter_state = 0\<rparr>\<rparr> True =
      Inr \<lparr>dtr_label = ?l, dtr_weight = w, dtr_dest = \<lparr>dt_subset = sub, dt_filter_state = 0\<rparr>\<rparr>"
    and sub: "de_state ` set sub = de_state ` set ?es" "distinct (map de_state sub)" "\<forall>e \<in> set sub. de_weight e \<noteq> ?z"
    and sum: "\<forall>f. mul w (wsum add ?z (\<lambda>e. mul (de_weight e) (f (de_state e))) sub) =
       wsum add ?z (\<lambda>e. mul (de_weight e) (f (de_state e))) ?es" by blast
  have mv: "acc_move W D (snd x) = (?l, ?l, w, \<lparr>dt_subset = sub, dt_filter_state = 0\<rparr>)"
    using run by (simp add: acc_move_def pairs tr Let_def)
  have im: "de_state ` set sub = (\<lambda>q. fst (snd q)) ` set ?qs" using sub(1) dst by (auto simp: dest_ok_def image_image)
  have rng: "\<forall>q \<in> set ?qs. fst (snd q) < num_states F"
    using k targets_state [OF t] by (auto simp: det_pairs_def elements_ok_def)
  have "de_state e < num_states F" if "e \<in> set sub" for e
  proof -
    have "de_state e \<in> (\<lambda>q. fst (snd q)) ` set ?qs" unfolding im [symmetric] using that by (rule imageI)
    then obtain q where q: "de_state e = fst (snd q)" "q \<in> set ?qs" by (rule imageE)
    have "fst (snd q) < num_states F" by (rule bspec [OF rng q(2)])
    then show ?thesis unfolding q(1) .
  qed
  with sub(3) have "elements_ok W F sub" by (simp add: elements_ok_def)
  then have "subset_ok W F \<lparr>dt_subset = sub, dt_filter_state = 0\<rparr>" using sub(2) by (simp add: subset_ok_def)
  moreover have dsum: "\<forall>f. wsum add ?z (\<lambda>d. mul (snd d) (f (fst d))) ?dest =
      wsum add ?z (\<lambda>q. mul (snd (snd q)) (f (fst (snd q)))) ?qs" using dst unfolding dest_ok_def by blast
  have "mul w (wsum add ?z (\<lambda>e. mul (de_weight e) (f (de_state e))) sub) =
      wsum add ?z (\<lambda>q. mul (snd (snd q)) (f (fst (snd q)))) ?qs" for f
    using spec [OF sum, of f] spec [OF dsum, of f] by (simp only: wsum_map det_element.simps)
  ultimately have "move_ok W add mul F k (acc_move W D (snd x))"
    unfolding mv move_ok_def by simp
  with run mv show ?thesis by (simp add: tr pairs)
qed


text \<open>Numbering the moves.\<close>

lemma find_id_free:
  assumes "dtab_max_subset_elements tab = None" "dtab_in_dist tab = None"
    and "table_id_or_insert k (dtab_map tab) = (i, b)"
  shows "\<exists>n. find_id_from_ref W k tab = Inr (i, tab\<lparr>dtab_map := b, dtab_stored_subset_elements := n\<rparr>)"
proof (cases "tuple_to_id (dtab_map tab) k")
  case None
  with assms show ?thesis by (auto simp: find_id_from_ref_def record_distance_def Let_def)
next
  case (Some j)
  with assms(3) have "j = i" "b = dtab_map tab" by (auto simp: table_id_or_insert_def)
  with Some show ?thesis
    by (intro exI [of _ "dtab_stored_subset_elements tab"]) (simp add: find_id_from_ref_def)
qed

lemma emit_moves:
  assumes d: "divides_sums W D add mul" and nz: "no_zero_terms W add mul" and t: "targets_ok F"
    and k: "elements_ok W F (dt_subset (k :: _ det_tuple))" and m: "label_map_ok add mul (zero_w W) (det_pairs mul F (dt_subset k)) m"
  shows "set xs \<subseteq> set m \<Longrightarrow> bi_map_ok (dtab_map tab) \<Longrightarrow> dtab_max_subset_elements tab = None \<Longrightarrow> dtab_in_dist tab = None \<Longrightarrow>
    \<exists>tab' ts'. for_res (det_emit W D (default_common_divisor W)) (map snd xs) (tab, ts) = Inr (tab', ts @ ts') \<and>
      emits (dtab_map tab) (map (acc_move W D) (map snd xs)) (dtab_map tab') ts' \<and>
      dtab_max_subset_elements tab' = None \<and> dtab_in_dist tab' = None"
proof (induction xs arbitrary: tab ts)
  case Nil
  then show ?case by (auto intro!: exI [of _ tab] exI [of _ "[]"] simp: emits_Nil)
next
  case (Cons x xs)
  from Cons.prems(1) have x: "x \<in> set m" by simp
  from acc_move_ok [OF d nz t k m x] obtain dt where
    run: "norm_tr W D (default_common_divisor W) ((da_det_tr (snd x))\<lparr>dtr_dest := (dtr_dest (da_det_tr (snd x)))
      \<lparr>dt_subset := det_dest_pairs (default_common_divisor W) (snd x)\<rparr>\<rparr>) True = Inr dt"
    and mv: "acc_move W D (snd x) = (fst x, fst x, dtr_weight dt, dtr_dest dt)" "dtr_label dt = fst x" by blast
  obtain i b where g: "table_id_or_insert (dtr_dest dt) (dtab_map tab) = (i, b)"
    by (cases "table_id_or_insert (dtr_dest dt) (dtab_map tab)")
  from find_id_free [OF Cons.prems(3,4) g] obtain n where
    f: "find_id_from_ref W (dtr_dest dt) tab = Inr (i, tab\<lparr>dtab_map := b, dtab_stored_subset_elements := n\<rparr>)" by blast
  let ?tab = "tab\<lparr>dtab_map := b, dtab_stored_subset_elements := n\<rparr>"
  let ?t = "tr_new (fst x) (fst x) (dtr_weight dt) i"
  have e: "det_emit W D (default_common_divisor W) (snd x) (tab, ts) = Inr (?tab, ts @ [?t])"
    using run f mv(2) by (simp add: det_emit_def Let_def)
  note e1 = emits_one [OF Cons.prems(2) g, of "fst x" "fst x" "dtr_weight dt"]
  then have "bi_map_ok (dtab_map ?tab)" by (simp add: emits_def)
  from Cons.IH [of ?tab "ts @ [?t]"] Cons.prems this obtain tab' ts' where
    r: "for_res (det_emit W D (default_common_divisor W)) (map snd xs) (?tab, ts @ [?t]) = Inr (tab', (ts @ [?t]) @ ts')"
    and e2: "emits (dtab_map ?tab) (map (acc_move W D) (map snd xs)) (dtab_map tab') ts'"
    and fr: "dtab_max_subset_elements tab' = None" "dtab_in_dist tab' = None" by auto
  have "emits (dtab_map tab) (map (acc_move W D) (map snd (x # xs))) (dtab_map tab') (?t # ts')"
    using emits_append [OF e1] e2 mv(1) by simp
  with e r fr show ?case by (intro exI [of _ tab'] exI [of _ "?t # ts'"]) simp
qed

lemma moves_of_map:
  assumes "no_zero_terms W add mul" "dtab_max_subset_elements tab = None" "arcs_nonzero W F" "elements_ok W F (dt_subset (k :: _ det_tuple))"
  obtains m where "det_label_map W (default_common_divisor W) F tab k = Inr m"
    "label_map_ok add mul (zero_w W) (det_pairs mul F (dt_subset k)) m" "det_moves W D F k = map (acc_move W D) (map snd m)"
  using label_map_run [OF assms] label_map_run_table [OF assms] by (auto simp: det_moves_def)

lemma final_run:
  assumes "\<forall>e \<in> set es. de_state e < num_states F"
  shows "for_res (det_final_add W F) es w0 = Inr (add w0 (wsum add (zero_w W) (\<lambda>e. mul (de_weight e)
     (case final_weight (state_of F (de_state e)) of Some v \<Rightarrow> v | None \<Rightarrow> zero_w W)) es))"
  using assms
  by (induction es arbitrary: w0)
    (simp_all add: det_final_add_def final_weight_of_def times_ok plus_ok add_zero_right add_assoc)

end

text \<open>The operation's invariant, with what it requires of the operand and the weights.\<close>

definition det_universe :: "'w semiring \<Rightarrow> 'w vfst \<Rightarrow> 'w det_tuple set" where
  "det_universe W F = {k. subset_ok W F k \<and> (dt_filter_state k = 0 \<or> Some (dt_filter_state k) = start_state F)}"

definition determinizable ::
  "'w semiring \<Rightarrow> 'w division \<Rightarrow> ('w \<Rightarrow> 'w \<Rightarrow> 'w) \<Rightarrow> ('w \<Rightarrow> 'w \<Rightarrow> 'w) \<Rightarrow> 'w vfst \<Rightarrow> bool" where
  "determinizable W D add mul F \<longleftrightarrow> full_semiring W add mul \<and> divides_sums W D add mul \<and> no_zero_terms W add mul \<and>
     fst_ok W F \<and> arcs_nonzero W F"

definition det_ok ::
  "'w semiring \<Rightarrow> 'w division \<Rightarrow> ('w \<Rightarrow> 'w \<Rightarrow> 'w) \<Rightarrow> ('w \<Rightarrow> 'w \<Rightarrow> 'w) \<Rightarrow> 'w vfst \<Rightarrow> 'w det_table \<Rightarrow> bool" where
  "det_ok W D add mul F tab \<longleftrightarrow> determinizable W D add mul F \<and> bi_map_ok (dtab_map tab) \<and>
     dtab_max_subset_elements tab = None \<and> dtab_in_dist tab = None \<and> set (id_to_tuple (dtab_map tab)) \<subseteq> det_universe W F"

lemma moves_in_det_universe:
  assumes W: "full_semiring W add mul" and d: "divides_sums W D add mul" and nz: "no_zero_terms W add mul" and t: "targets_ok F"
    and k: "elements_ok W F (dt_subset (k :: _ det_tuple))" and m: "label_map_ok add mul (zero_w W) (det_pairs mul F (dt_subset k)) m"
  shows "move_targets (map (acc_move W D) (map snd m)) \<subseteq> det_universe W F"
proof
  fix k' assume "k' \<in> move_targets (map (acc_move W D) (map snd m))"
  then obtain x where x: "x \<in> set m" "k' = snd (snd (snd (acc_move W D (snd x))))" by (auto simp: move_targets_def)
  from full_semiring.acc_move_ok [OF W d nz t k m x(1)] have "move_ok W add mul F k (acc_move W D (snd x))" by blast
  then show "k' \<in> det_universe W F" by (auto simp: x(2) move_ok_def det_universe_def split: prod.splits)
qed

lemma det_interning:
  "interning_op (det_fsa_op W D (default_common_divisor W) F) (\<lambda>tab. id_to_tuple (dtab_map tab)) (det_ok W D add mul F)
     (det_table_new None None) (det_start W F) (det_moves W D F) (det_fin W add mul F)"
proof unfold_locales
  let ?init = "det_table_new None None :: 'a det_table"
  assume ok: "det_ok W D add mul F ?init"
  show "\<exists>st. op_compute_start (det_fsa_op W D (default_common_divisor W) F) ?init = Inr (map_option (\<lambda>_. 0) (det_start W F), st) \<and>
      det_ok W D add mul F st \<and> id_to_tuple (dtab_map st) = (case det_start W F of None \<Rightarrow> [] | Some k \<Rightarrow> [k])"
  proof (cases "start_state F")
    case None
    with ok show ?thesis
      by (auto simp: det_fsa_op_def det_compute_start_def det_start_def det_table_new_def bi_map_new_def)
  next
    case (Some s)
    let ?k = "\<lparr>dt_subset = [\<lparr>de_state = s, de_weight = one_w W\<rparr>], dt_filter_state = s\<rparr>"
    obtain i b where g: "table_id_or_insert ?k (dtab_map ?init) = (i, b)" by (cases "table_id_or_insert ?k (dtab_map ?init)")
    have i: "i = 0" "id_to_tuple b = [?k]"
      using g by (auto simp: table_id_or_insert_def det_table_new_def bi_map_new_def Let_def)
    from ok have dt: "determinizable W D add mul F" by (simp add: det_ok_def)
    then have W: "full_semiring W add mul" and nz: "no_zero_terms W add mul" and F: "fst_ok W F" by (simp_all add: determinizable_def)
    have "targets_ok F" by (rule fst_okD(3) [OF F])
    then have "?k \<in> det_universe W F"
      using Some nz by (auto simp: det_universe_def subset_ok_def elements_ok_def no_zero_terms_def targets_ok_def)
    moreover have "bi_map_ok b" using table_id_or_insert(1) [OF _ g] by (simp add: det_table_new_def bi_map_new_ok)
    moreover obtain n where "find_id_from_ref W ?k ?init = Inr (i, ?init\<lparr>dtab_map := b, dtab_stored_subset_elements := n\<rparr>)"
      using full_semiring.find_id_free [OF W _ _ g] by (auto simp: det_table_new_def)
    ultimately show ?thesis
      using dt i Some by (auto simp: det_fsa_op_def det_compute_start_def det_start_def det_ok_def det_table_new_def)
  qed
next
  fix tab :: "'a det_table" and i
  assume ok: "det_ok W D add mul F tab"
  then show "distinct (id_to_tuple (dtab_map tab))" by (simp add: det_ok_def bi_map_distinct)
  assume i: "i < length (id_to_tuple (dtab_map tab))"
  let ?k = "id_to_tuple (dtab_map tab) ! i"
  from ok have dt: "determinizable W D add mul F" and tab: "bi_map_ok (dtab_map tab)"
    and lim: "dtab_max_subset_elements tab = None" "dtab_in_dist tab = None"
    and U: "set (id_to_tuple (dtab_map tab)) \<subseteq> det_universe W F" by (simp_all add: det_ok_def)
  from dt have W: "full_semiring W add mul" and d: "divides_sums W D add mul" and nz: "no_zero_terms W add mul"
    and F: "fst_ok W F" "arcs_nonzero W F" by (simp_all add: determinizable_def)
  note t = fst_okD(3) [OF F(1)]
  have "?k \<in> det_universe W F" using U nth_mem [OF i] by blast
  then have k: "elements_ok W F (dt_subset ?k)" by (simp add: det_universe_def subset_ok_def)
  have get: "find_tuple tab i = Inr ?k" using i by (simp add: find_tuple_def vec_index_def)
  obtain m where m: "det_label_map W (default_common_divisor W) F tab ?k = Inr m"
    "label_map_ok add mul (zero_w W) (det_pairs mul F (dt_subset ?k)) m"
    "det_moves W D F ?k = map (acc_move W D) (map snd m)"
    using full_semiring.moves_of_map [OF W nz lim(1) F(2) k] by blast
  from full_semiring.emit_moves [OF W d nz t k m(2) subset_refl tab lim, of "[]"] obtain tab' ts where
    r: "for_res (det_emit W D (default_common_divisor W)) (map snd m) (tab, []) = Inr (tab', ts)"
    and e: "emits (dtab_map tab) (det_moves W D F ?k) (dtab_map tab') ts"
    and fr: "dtab_max_subset_elements tab' = None" "dtab_in_dist tab' = None" by (auto simp: m(3))
  from e obtain ext where ext: "id_to_tuple (dtab_map tab') = id_to_tuple (dtab_map tab) @ ext" "bi_map_ok (dtab_map tab')"
    "set ext \<subseteq> move_targets (det_moves W D F ?k)"
    "list_all2 (arc_rel (id_to_tuple (dtab_map tab'))) ts (det_moves W D F ?k)" by (auto simp: emits_def)
  have "set ext \<subseteq> det_universe W F"
    using ext(3) moves_in_det_universe [OF W d nz t k m(2)] unfolding m(3) by blast
  then have "det_ok W D add mul F tab'" using dt ext(1,2) fr U by (simp add: det_ok_def)
  moreover have "op_compute_trs (det_fsa_op W D (default_common_divisor W) F) i tab = Inr (ts, tab')"
    using get m(1) r by (simp add: det_fsa_op_def det_compute_trs_def)
  ultimately show "\<exists>ts st' ext. op_compute_trs (det_fsa_op W D (default_common_divisor W) F) i tab = Inr (ts, st') \<and>
      det_ok W D add mul F st' \<and> id_to_tuple (dtab_map st') = id_to_tuple (dtab_map tab) @ ext \<and>
      set ext \<subseteq> move_targets (det_moves W D F ?k) \<and>
      list_all2 (arc_rel (id_to_tuple (dtab_map st'))) ts (det_moves W D F ?k)"
    using ext by blast
  have "for_res (det_final_add W F) (dt_subset ?k) (zero_w W) = Inr (det_final_of W add mul F ?k)"
    using full_semiring.final_run [OF W, of "dt_subset ?k" F "zero_w W"] k
      weight_monoids.add_zero [OF left_semiring.axioms(1) [OF full_semiring.axioms(1) [OF W]]]
    by (simp add: elements_ok_def det_final_of_def)
  then show "op_compute_final_weight (det_fsa_op W D (default_common_divisor W) F) i tab = Inr (det_fin W add mul F ?k, tab)"
    using get by (simp add: det_fsa_op_def det_compute_final_def det_fin_def Let_def)
qed

interpretation det_interned: interning_op "det_fsa_op W D (default_common_divisor W) F" "\<lambda>tab. id_to_tuple (dtab_map tab)"
  "det_ok W D add mul F" "det_table_new None None" "det_start W F" "det_moves W D F" "det_fin W add mul F"
  for W :: "'w semiring" and D add mul F
  by (rule det_interning)

interpretation det_over_null: lazy_run "det_fsa_op W D (default_common_divisor W) F" "\<lambda>tab. id_to_tuple (dtab_map tab)"
  "det_ok W D add mul F" "det_table_new None None" "det_start W F" "det_moves W D F" "det_fin W add mul F"
  null_cache "\<lambda>_. True" "()" W
  for W :: "'w semiring" and D add mul F
  by (rule lazy_run.intro [OF det_interning null.lossy_cache_axioms])

end
