(* ===== verification/Determinize_Static.thy ===== *)
theory Determinize_Static
  imports Determinize_Sound
begin

text \<open>
  Static determinization of acceptors: the result is deterministic and weighs every label sequence as the
  operand does; with finitely many weights, or a budget of states, the search returns.
\<close>

subsection \<open>The weight of a label sequence\<close>

text \<open>Epsilons count as labels here, as they do in the code.\<close>

fun label_weight ::
  "'w semiring \<Rightarrow> ('w \<Rightarrow> 'w \<Rightarrow> 'w) \<Rightarrow> ('w \<Rightarrow> 'w \<Rightarrow> 'w) \<Rightarrow> 'w vfst \<Rightarrow> label list \<Rightarrow> state_id \<Rightarrow> 'w" where
  "label_weight W add mul F [] s = (case final_weight (state_of F s) of Some w \<Rightarrow> w | None \<Rightarrow> zero_w W)"
| "label_weight W add mul F (l # ls) s = wsum add (zero_w W) (\<lambda>t. mul (weight t) (label_weight W add mul F ls (nextstate t)))
     (filter (\<lambda>t. ilabel t = l) (trs (state_of F s)))"

definition sequence_weight ::
  "'w semiring \<Rightarrow> ('w \<Rightarrow> 'w \<Rightarrow> 'w) \<Rightarrow> ('w \<Rightarrow> 'w \<Rightarrow> 'w) \<Rightarrow> 'w vfst \<Rightarrow> label list \<Rightarrow> 'w" where
  "sequence_weight W add mul F ls = (case start_state F of Some s \<Rightarrow> label_weight W add mul F ls s | None \<Rightarrow> zero_w W)"

definition deterministic_acceptor :: "'w vfst \<Rightarrow> bool" where
  "deterministic_acceptor F \<longleftrightarrow> (\<forall>s < num_states F. sorted_wrt (<) (map ilabel (trs (state_of F s))) \<and>
     (\<forall>t \<in> set (trs (state_of F s)). olabel t = ilabel t))"

definition subset_weight ::
  "'w semiring \<Rightarrow> ('w \<Rightarrow> 'w \<Rightarrow> 'w) \<Rightarrow> ('w \<Rightarrow> 'w \<Rightarrow> 'w) \<Rightarrow> 'w vfst \<Rightarrow> label list \<Rightarrow> 'w det_tuple \<Rightarrow> 'w" where
  "subset_weight W add mul F ls k = wsum add (zero_w W) (\<lambda>e. mul (de_weight e) (label_weight W add mul F ls (de_state e))) (dt_subset k)"

lemma filter_strict:
  fixes f :: "'a \<Rightarrow> 'k :: linorder"
  assumes "sorted_wrt (<) (map f xs)" "x \<in> set xs"
  shows "filter (\<lambda>y. f y = f x) xs = [x]"
  using assms
proof (induction xs)
  case (Cons y xs)
  show ?case
  proof (cases "x = y")
    case True
    with Cons.prems have "\<forall>z \<in> set xs. f x < f z" by auto
    then have "filter (\<lambda>z. f z = f x) xs = []" by (auto simp: filter_empty_conv)
    with True show ?thesis by simp
  next
    case False
    with Cons.prems have "x \<in> set xs" "f y < f x" by auto
    with Cons show ?thesis by auto
  qed
qed simp

lemma arcs_follow_moves:
  assumes "list_all2 (arc_rel T) ts ms"
  shows "wsum add z (\<lambda>t. mul (weight t) (g (T ! nextstate t))) (filter (\<lambda>t. ilabel t = l) ts) =
    wsum add z (\<lambda>(il, ol, w, k). mul w (g k)) (filter (\<lambda>m. fst m = l) ms)" "map ilabel ts = map fst ms"
  using assms by (induction rule: list_all2_induct) (auto simp: arc_rel_def)

context full_semiring
begin

lemma element_weight:
  "wsum add (zero_w W) (\<lambda>q. mul (snd (snd q)) (f (fst (snd q))))
     (filter (\<lambda>q. fst q = l) (map (\<lambda>t. (ilabel t, nextstate t, mul a (weight t))) ts)) =
   mul a (wsum add (zero_w W) (\<lambda>t. mul (weight t) (f (nextstate t))) (filter (\<lambda>t. ilabel t = l) ts))"
  by (simp add: wsum_left filter_map comp_def mul_assoc)

lemma pairs_weight:
  "wsum add (zero_w W) (\<lambda>q. mul (snd (snd q)) (f (fst (snd q)))) (filter (\<lambda>q. fst q = l) (det_pairs mul F es)) =
   wsum add (zero_w W) (\<lambda>e. mul (de_weight e) (wsum add (zero_w W) (\<lambda>t. mul (weight t) (f (nextstate t)))
     (filter (\<lambda>t. ilabel t = l) (trs (state_of F (de_state e)))))) es"
proof (induction es)
  case Nil
  then show ?case by (simp add: det_pairs_def)
next
  case (Cons e es)
  have "det_pairs mul F (e # es) = map (\<lambda>t. (ilabel t, nextstate t, mul (de_weight e) (weight t))) (trs (state_of F (de_state e))) @
      det_pairs mul F es" by (simp add: det_pairs_def)
  then show ?case by (simp only: filter_append wsum_append element_weight Cons.IH wsum_simps)
qed

text \<open>The moves of a subset: one per label, in label order, keeping the weights.\<close>

lemma det_moves_sorted:
  assumes "divides_sums W D add mul" "no_zero_terms W add mul" "targets_ok F" "arcs_nonzero W F" "elements_ok W F (dt_subset k)"
  shows "sorted_wrt (<) (map fst (det_moves W D F k))" "\<forall>m \<in> set (det_moves W D F k). move_ok W add mul F k m"
    "fst ` set (det_moves W D F k) = fst ` set (det_pairs mul F (dt_subset k))"
proof -
  have "dtab_max_subset_elements (det_table_new None None) = None" by (simp add: det_table_new_def)
  from moves_of_map [OF assms(2) this assms(4,5)] obtain m where
    m: "label_map_ok add mul (zero_w W) (det_pairs mul F (dt_subset k)) m" "det_moves W D F k = map (acc_move W D) (map snd m)"
    by blast
  have a: "acc_move W D (snd x) = (fst x, snd (acc_move W D (snd x)))" "move_ok W add mul F k (acc_move W D (snd x))"
    if "x \<in> set m" for x
    using acc_move_ok [OF assms(1-3,5) m(1) that] by auto
  then have f: "map fst (det_moves W D F k) = map fst m" by (simp add: m(2)) (metis fst_conv)
  then show "sorted_wrt (<) (map fst (det_moves W D F k))" using m(1) by (simp add: label_map_ok_def)
  show "\<forall>m \<in> set (det_moves W D F k). move_ok W add mul F k m" using a(2) by (simp add: m(2))
  have "fst ` set (det_moves W D F k) = fst ` set m" using f by (metis list.set_map)
  then show "fst ` set (det_moves W D F k) = fst ` set (det_pairs mul F (dt_subset k))"
    using m(1) by (simp add: label_map_ok_def)
qed

lemma subset_weight_step:
  assumes "divides_sums W D add mul" "no_zero_terms W add mul" "targets_ok F" "arcs_nonzero W F" "elements_ok W F (dt_subset k)"
  shows "subset_weight W add mul F (l # ls) k = wsum add (zero_w W) (\<lambda>(il, ol, w, k'). mul w (subset_weight W add mul F ls k'))
    (filter (\<lambda>m. fst m = l) (det_moves W D F k))"
proof -
  note mv = det_moves_sorted [OF assms]
  let ?lw = "label_weight W add mul F ls"
  have e: "subset_weight W add mul F (l # ls) k = wsum add (zero_w W) (\<lambda>q. mul (snd (snd q)) (?lw (fst (snd q))))
      (filter (\<lambda>q. fst q = l) (det_pairs mul F (dt_subset k)))"
    unfolding pairs_weight by (simp add: subset_weight_def)
  show ?thesis
  proof (cases "l \<in> fst ` set (det_moves W D F k)")
    case True
    then obtain m where m: "m \<in> set (det_moves W D F k)" "fst m = l" by blast
    obtain ol w k' where mm: "m = (l, ol, w, k')" using m(2) by (cases m) simp
    have f: "filter (\<lambda>m. fst m = l) (det_moves W D F k) = [m]" using filter_strict [OF mv(1) m(1)] m(2) by simp
    have "move_ok W add mul F k m" using mv(2) m(1) by blast
    then have "mul w (wsum add (zero_w W) (\<lambda>e. mul (de_weight e) (?lw (de_state e))) (dt_subset k')) =
        wsum add (zero_w W) (\<lambda>q. mul (snd (snd q)) (?lw (fst (snd q)))) (filter (\<lambda>q. fst q = l) (det_pairs mul F (dt_subset k)))"
      unfolding mm move_ok_def by simp
    then show ?thesis unfolding f e by (simp add: mm subset_weight_def add_zero_right)
  next
    case False
    then have "filter (\<lambda>m. fst m = l) (det_moves W D F k) = []" by (force simp: filter_empty_conv)
    moreover have "filter (\<lambda>q. fst q = l) (det_pairs mul F (dt_subset k)) = []"
      using False unfolding mv(3) by (force simp: filter_empty_conv)
    ultimately show ?thesis unfolding e by simp
  qed
qed

lemma materialised_weight:
  assumes d: "divides_sums W D add mul" and nz: "no_zero_terms W add mul" and F: "targets_ok F" "arcs_nonzero W F"
    and T: "set T \<subseteq> det_universe W F"
    and m: "materialises T start (det_moves W D F) (det_fin W add mul F) G"
  shows "i < length T \<Longrightarrow> label_weight W add mul G ls i = subset_weight W add mul F ls (T ! i)"
proof (induction ls arbitrary: i)
  case Nil
  with m have "final_weight (state_of G i) = det_fin W add mul F (T ! i)" by (auto simp: materialises_def expanded_as_def)
  then show ?case by (simp add: det_fin_def det_final_of_def subset_weight_def is_zero_iff Let_def)
next
  case (Cons l ls)
  then have x: "expanded_as T (det_moves W D F) (det_fin W add mul F) i (state_of G i)"
    using m by (simp add: materialises_def)
  then have e: "list_all2 (arc_rel T) (trs (state_of G i)) (det_moves W D F (T ! i))" by (simp add: expanded_as_def)
  have "T ! i \<in> det_universe W F" using T nth_mem [OF Cons.prems] by blast
  then have k: "elements_ok W F (dt_subset (T ! i))" by (simp add: det_universe_def subset_ok_def)
  have nx: "\<forall>t \<in> set (trs (state_of G i)). nextstate t < length T"
    using expanded_arc(2) [OF x] by blast
  have "label_weight W add mul G (l # ls) i =
      wsum add (zero_w W) (\<lambda>t. mul (weight t) (subset_weight W add mul F ls (T ! nextstate t)))
        (filter (\<lambda>t. ilabel t = l) (trs (state_of G i)))"
    unfolding label_weight.simps by (rule wsum_cong) (use Cons.IH nx in auto)
  also have "\<dots> = wsum add (zero_w W) (\<lambda>(il, ol, w, k). mul w (subset_weight W add mul F ls k))
      (filter (\<lambda>m. fst m = l) (det_moves W D F (T ! i)))" by (rule arcs_follow_moves(1) [OF e])
  also have "\<dots> = subset_weight W add mul F (l # ls) (T ! i)"
    by (rule subset_weight_step [OF d nz F k, symmetric])
  finally show ?case .
qed

lemma materialised_sequences:
  assumes d: "divides_sums W D add mul" and nz: "no_zero_terms W add mul" and F: "targets_ok F" "arcs_nonzero W F"
    and T: "set T \<subseteq> det_universe W F"
    and m: "materialises T (det_start W F) (det_moves W D F) (det_fin W add mul F) G"
  shows "sequence_weight W add mul G ls = sequence_weight W add mul F ls" "deterministic_acceptor G"
proof -
  show "sequence_weight W add mul G ls = sequence_weight W add mul F ls"
  proof (cases "start_state F")
    case None
    with m show ?thesis by (simp add: sequence_weight_def materialises_def det_start_def)
  next
    case (Some s)
    then obtain ks where T0: "T = \<lparr>dt_subset = [\<lparr>de_state = s, de_weight = one_w W\<rparr>], dt_filter_state = s\<rparr> # ks" "start_state G = Some 0"
      using m by (auto simp: materialises_def det_start_def)
    have "label_weight W add mul G ls 0 = subset_weight W add mul F ls (T ! 0)"
      by (rule materialised_weight [OF d nz F T m]) (simp add: T0)
    then show ?thesis
      using Some by (simp add: sequence_weight_def T0 subset_weight_def mul_one_left add_zero_right)
  qed
  show "deterministic_acceptor G"
    unfolding deterministic_acceptor_def
  proof (intro allI impI conjI ballI)
    fix i assume "i < num_states G"
    with m have i: "i < length T" and e: "list_all2 (arc_rel T) (trs (state_of G i)) (det_moves W D F (T ! i))"
      by (auto simp: materialises_def expanded_as_def)
    have "T ! i \<in> det_universe W F" using T nth_mem [OF i] by blast
    then have k: "elements_ok W F (dt_subset (T ! i))" by (simp add: det_universe_def subset_ok_def)
    note mv = det_moves_sorted [OF d nz F k]
    show "sorted_wrt (<) (map ilabel (trs (state_of G i)))" unfolding arcs_follow_moves(2) [OF e] by (rule mv(1))
    show "olabel t = ilabel t" if "t \<in> set (trs (state_of G i))" for t
    proof -
      have "expanded_as T (det_moves W D F) (det_fin W add mul F) i (state_of G i)" using i m by (simp add: materialises_def)
      from bspec [OF mv(2) expanded_arc(1) [OF this that]] show ?thesis unfolding move_ok_def by simp
    qed
  qed
qed

end

subsection \<open>Running it\<close>

text \<open>There are finitely many weighted subsets over finitely many weights.\<close>

lemma finite_det_universe:
  assumes "finite (UNIV :: 'w set)"
  shows "finite (det_universe (W :: 'w semiring) F)"
proof -
  let ?E = "{e :: 'w det_element. de_state e < num_states F}"
  let ?S = "insert 0 {s. Some s = start_state F}"
  have "?E \<subseteq> (\<lambda>(s, w). \<lparr>de_state = s, de_weight = w\<rparr>) ` ({..< num_states F} \<times> UNIV)"
  proof
    fix e :: "'w det_element" assume "e \<in> ?E"
    then have "(de_state e, de_weight e) \<in> {..< num_states F} \<times> UNIV" "e = (\<lambda>(s, w). \<lparr>de_state = s, de_weight = w\<rparr>) (de_state e, de_weight e)"
      by simp_all
    then show "e \<in> (\<lambda>(s, w). \<lparr>de_state = s, de_weight = w\<rparr>) ` ({..< num_states F} \<times> UNIV)" by blast
  qed
  then have E: "finite ?E" by (rule finite_subset) (use assms in simp)
  have S: "finite ?S" by (cases "start_state F") simp_all
  let ?L = "{es. set es \<subseteq> ?E \<and> length es \<le> num_states F}"
  have L: "finite ?L" by (rule finite_lists_length_le [OF E])
  have "det_universe W F \<subseteq> (\<lambda>(es, s). \<lparr>dt_subset = es, dt_filter_state = s\<rparr>) ` (?L \<times> ?S)"
  proof
    fix k assume k: "k \<in> det_universe W F"
    then have es: "set (dt_subset k) \<subseteq> ?E" and di: "distinct (map de_state (dt_subset k))" and fs: "dt_filter_state k \<in> ?S"
      by (auto simp: det_universe_def subset_ok_def elements_ok_def)
    have "length (dt_subset k) = card (de_state ` set (dt_subset k))" using distinct_card [OF di] by simp
    also have "\<dots> \<le> card {..< num_states F}" by (rule card_mono) (use es in auto)
    finally have "(dt_subset k, dt_filter_state k) \<in> ?L \<times> ?S" using es fs by simp
    moreover have "k = (\<lambda>(es, s). \<lparr>dt_subset = es, dt_filter_state = s\<rparr>) (dt_subset k, dt_filter_state k)" by simp
    ultimately show "k \<in> (\<lambda>(es, s). \<lparr>dt_subset = es, dt_filter_state = s\<rparr>) ` (?L \<times> ?S)" by blast
  qed
  then show ?thesis by (rule finite_subset) (use L S in simp)
qed

definition det_lazy :: "'w vfst \<Rightarrow> ('w det_table, unit) lazy_fst" where
  "det_lazy F = from_op_and_cache (det_table_new None None) () (isymt F) (osymt F)"

lemma determinize_fsa_run:
  assumes "declares W LEFT_SEMIRING" "contains (properties F) ACCEPTOR"
  shows "determinize_fsa W D CD F ms None mt = compute_bounded W (det_fsa_op W D CD F) null_cache ms mt (det_lazy F)"
  using assms by (simp add: determinize_fsa_def det_fsa_new_def det_lazy_def)

lemma det_lazy_fresh:
  assumes "determinizable (W :: 'w semiring) D add mul F"
  shows "lazy_run.lazy_fresh (det_ok W D add mul F) (det_table_new None None) () (det_lazy F)"
proof -
  have "bi_map_ok (dtab_map (det_table_new None None :: 'w det_table))" by (simp add: det_table_new_def bi_map_new_ok)
  moreover have "id_to_tuple (dtab_map (det_table_new None None :: 'w det_table)) = []"
    by (simp add: det_table_new_def bi_map_new_def)
  ultimately have "det_ok W D add mul F (det_table_new None None)"
    using assms by (simp add: det_ok_def) (simp add: det_table_new_def)
  then show ?thesis
    by (simp add: lazy_run.lazy_fresh_def [OF det_over_null.lazy_run_axioms] det_lazy_def from_op_and_cache_def)
qed

text \<open>What a successful run gives.\<close>

definition determinized :: "'w semiring \<Rightarrow> ('w \<Rightarrow> 'w \<Rightarrow> 'w) \<Rightarrow> ('w \<Rightarrow> 'w \<Rightarrow> 'w) \<Rightarrow> 'w vfst \<Rightarrow> 'w vfst \<Rightarrow> bool" where
  "determinized W add mul F G \<longleftrightarrow> deterministic_acceptor G \<and>
     (\<forall>ls. sequence_weight W add mul G ls = sequence_weight W add mul F ls)"

lemma det_materialised:
  assumes dt: "determinizable W D add mul F" and T: "set T \<subseteq> det_universe W F"
    and m: "materialises T (det_start W F) (det_moves W D F) (det_fin W add mul F) G"
  shows "determinized W add mul F G"
proof -
  from dt have S: "full_semiring W add mul" and d: "divides_sums W D add mul" and nz: "no_zero_terms W add mul"
    and F: "targets_ok F" "arcs_nonzero W F" by (auto simp: determinizable_def fst_okD(3))
  note r = full_semiring.materialised_sequences [OF S d nz F T m]
  show ?thesis unfolding determinized_def using r by blast
qed

lemma det_ok_universe: "det_ok W D add mul F tab \<Longrightarrow> set (id_to_tuple (dtab_map tab)) \<subseteq> det_universe W F"
  by (simp add: det_ok_def)

lemma det_computed:
  assumes dt: "determinizable W D add mul F"
    and G: "lazy_compute W (det_fsa_op W D (default_common_divisor W) F) null_cache (det_lazy F) = Some (Inr G)"
  shows "determinized W add mul F G"
proof -
  from det_over_null.computed_materialises [OF det_lazy_fresh [OF dt] G] obtain T where
    T: "materialises T (det_start W F) (det_moves W D F) (det_fin W add mul F) G"
    "\<forall>U. (\<forall>tab. det_ok W D add mul F tab \<longrightarrow> set (id_to_tuple (dtab_map tab)) \<subseteq> U) \<longrightarrow> set T \<subseteq> U" by blast
  have "set T \<subseteq> det_universe W F" by (rule T(2) [rule_format]) (rule det_ok_universe)
  from det_materialised [OF dt this T(1)] show ?thesis .
qed

lemma det_total:
  assumes dt: "determinizable (W :: 'w semiring) D add mul F" and f: "finite (UNIV :: 'w set)"
  shows "\<exists>G. lazy_compute W (det_fsa_op W D (default_common_divisor W) F) null_cache (det_lazy F) = Some (Inr G)"
  using det_over_null.compute_returns [OF det_lazy_fresh [OF dt] finite_det_universe [OF f], of W F] det_ok_universe by blast

subsection \<open>The public function\<close>

lemma finish_shape [simp]:
  "states (determinize_finish F cfg G) = states G" "start_state (determinize_finish F cfg G) = start_state G"
  by (simp_all add: determinize_finish_def set_properties_def Let_def)

lemma finish_budgets [simp]: "budgets_fit ms mt (determinize_finish F cfg G) = budgets_fit ms mt G"
  by (simp add: budgets_fit_def total_trs_def)

lemma finish_determinized [simp]: "determinized W add mul F' (determinize_finish F cfg G) = determinized W add mul F' G"
proof -
  have "label_weight W add mul (determinize_finish F cfg G) ls s = label_weight W add mul G ls s" for ls s
  proof (induction ls arbitrary: s)
    case (Cons l ls)
    show ?case unfolding label_weight.simps Cons.IH by simp
  qed simp
  then show ?thesis by (simp add: determinized_def deterministic_acceptor_def sequence_weight_def cong: option.case_cong)
qed

definition acceptor_run :: "'w semiring \<Rightarrow> 'w division \<Rightarrow> ('w \<Rightarrow> 'w \<Rightarrow> 'w) \<Rightarrow> ('w \<Rightarrow> 'w \<Rightarrow> 'w) \<Rightarrow> 'w vfst \<Rightarrow> determinize_config \<Rightarrow> bool" where
  "acceptor_run W D add mul F cfg \<longleftrightarrow> determinizable W D add mul F \<and> declares W LEFT_SEMIRING \<and>
     contains (properties F) ACCEPTOR \<and> dc_max_subset_elements cfg = None"

lemma determinize_config_run:
  assumes "acceptor_run W D add mul F cfg"
  shows "determinize_dispatch W D gallic F cfg =
    (case compute_bounded W (det_fsa_op W D (default_common_divisor W) F) null_cache (dc_max_states cfg) (dc_max_trs cfg) (det_lazy F) of
       Some (Inr G) \<Rightarrow> Some (Inr (determinize_finish F cfg G)) | r \<Rightarrow> r)"
proof -
  have c: "declares W LEFT_SEMIRING" "contains (properties F) ACCEPTOR" and n: "dc_max_subset_elements cfg = None"
    using assms by (simp_all only: acceptor_run_def)
  have "determinize_fsa W D CD F ms None mt = compute_bounded W (det_fsa_op W D CD F) null_cache ms mt (det_lazy F)" for CD ms mt
    by (rule determinize_fsa_run [OF c])
  then show ?thesis unfolding determinize_dispatch_def using c(2) by (simp only: n if_True)
qed

lemma determinize_config_total:
  assumes a: "acceptor_run (W :: 'w semiring) D add mul F cfg" and f: "finite (UNIV :: 'w set)"
    and n: "dc_max_states cfg = None" "dc_max_trs cfg = None"
  shows "\<exists>G. determinize_dispatch W D gallic F cfg = Some (Inr G) \<and> determinized W add mul F G"
proof -
  from a have dt: "determinizable W D add mul F" by (simp add: acceptor_run_def)
  from det_total [OF dt f] obtain G where G: "lazy_compute W (det_fsa_op W D (default_common_divisor W) F) null_cache (det_lazy F) = Some (Inr G)"
    by blast
  then have "determinize_dispatch W D gallic F cfg = Some (Inr (determinize_finish F cfg G))"
    unfolding determinize_config_run [OF a] n by (simp add: lazy_compute_def)
  moreover have "determinized W add mul F (determinize_finish F cfg G)" using det_computed [OF dt G] by simp
  ultimately show ?thesis by blast
qed

lemma determinize_config_budget:
  assumes a: "acceptor_run W D add mul F cfg" and b: "dc_max_states cfg = Some b"
  shows "\<exists>r. determinize_dispatch W D gallic F cfg = Some r \<and> (\<forall>e. r = Inl e \<longrightarrow> cut_off e) \<and>
    (\<forall>G. r = Inr G \<longrightarrow> budgets_fit (Some b) (dc_max_trs cfg) G \<and> determinized W add mul F G)"
proof -
  from a have dt: "determinizable W D add mul F" by (simp add: acceptor_run_def)
  from det_over_null.budget_returns [OF det_lazy_fresh [OF dt], of b "dc_max_trs cfg"] obtain r where
    r: "compute_bounded W (det_fsa_op W D (default_common_divisor W) F) null_cache (Some b) (dc_max_trs cfg) (det_lazy F) = Some r"
    "case r of Inl e \<Rightarrow> cut_off e | Inr G \<Rightarrow> budgets_fit (Some b) (dc_max_trs cfg) G \<and>
      lazy_compute W (det_fsa_op W D (default_common_divisor W) F) null_cache (det_lazy F) = Some (Inr G)" by blast
  show ?thesis
  proof (cases r)
    case (Inl e)
    with r show ?thesis unfolding determinize_config_run [OF a] b by simp
  next
    case (Inr G)
    with r det_computed [OF dt] show ?thesis unfolding determinize_config_run [OF a] b by simp
  qed
qed

definition budgets :: "nat option \<Rightarrow> nat option \<Rightarrow> determinize_config \<Rightarrow> determinize_config" where
  "budgets ms mt cfg = cfg\<lparr>dc_max_states := ms, dc_max_trs := mt\<rparr>"

lemma determinize_config_exact:
  assumes a: "acceptor_run W D add mul F cfg" and G: "determinize_dispatch W D gallic F (budgets None None cfg) = Some (Inr G)"
  shows "if budgets_fit ms mt G then determinize_dispatch W D gallic F (budgets ms mt cfg) = Some (Inr G)
    else \<exists>e. cut_off e \<and> determinize_dispatch W D gallic F (budgets ms mt cfg) = Some (Inl e)"
proof -
  from a have dt: "determinizable W D add mul F" by (simp add: acceptor_run_def)
  have a': "acceptor_run W D add mul F (budgets ms mt cfg)" for ms mt using a by (simp add: acceptor_run_def budgets_def)
  have p: "dc_max_states (budgets ms mt cfg) = ms" "dc_max_trs (budgets ms mt cfg) = mt"
    "determinize_finish F (budgets ms mt cfg) = determinize_finish F cfg" for ms mt
    by (simp_all add: budgets_def determinize_finish_def fun_eq_iff)
  obtain H where H: "lazy_compute W (det_fsa_op W D (default_common_divisor W) F) null_cache (det_lazy F) = Some (Inr H)"
    "G = determinize_finish F cfg H"
    using G unfolding determinize_config_run [OF a'] p lazy_compute_def by (auto split: option.splits sum.splits)
  from det_over_null.budgets_exact [OF det_lazy_fresh [OF dt] H(1), of ms mt] show ?thesis
    unfolding determinize_config_run [OF a'] p H(2) by (auto split: if_splits)
qed

end
