(* ===== verification/Gallic_Weight.thy ===== *)
theory Gallic_Weight
  imports Determinize_Op
begin

text \<open>
  Gallic weights (\<open>semirings/gallic_weight.rs\<close>, \<open>semirings/union_weight.rs\<close>): pairs of a string and a
  weight, with the variants the source has, and unions of restricted pairs kept in shortlex order of
  the strings. A union is a finite formal sum: it has one coefficient per string, and its plus and
  times are those of formal sums.
\<close>

subsection \<open>Pairs of a string and a weight\<close>

type_synonym 'w gallic = "string_variant \<times> 'w"

definition gallic_weight :: "string_type \<Rightarrow> 'w semiring \<Rightarrow> 'w gallic semiring" where
  "gallic_weight t W = product_weight (string_weight t) W"

definition gallic_natural_less :: "'w semiring \<Rightarrow> 'w \<Rightarrow> 'w \<Rightarrow> bool res" where
  "gallic_natural_less W w1 w2 = rbind (plus_w W w1 w2) (\<lambda>p. Inr (eq_w W p w1 \<and> \<not> eq_w W w1 w2))"

definition gallic_min_plus :: "'w semiring \<Rightarrow> 'w gallic \<Rightarrow> 'w gallic \<Rightarrow> 'w gallic res" where
  "gallic_min_plus W a b = rbind (gallic_natural_less W (snd a) (snd b)) (\<lambda>l. if \<not> l then Inr b else Inr a)"

definition gallic_min_weight :: "'w semiring \<Rightarrow> 'w gallic semiring" where
  "gallic_min_weight W = (gallic_weight StringRestrict W)\<lparr>plus_w := gallic_min_plus W\<rparr>"

definition gallic_divide ::
  "string_type \<Rightarrow> ('w \<Rightarrow> 'w \<Rightarrow> divide_type \<Rightarrow> 'w res) \<Rightarrow> 'w gallic \<Rightarrow> 'w gallic \<Rightarrow> divide_type \<Rightarrow> 'w gallic res" where
  "gallic_divide t div_w = product_divide (string_divide t) div_w"

definition gallic_quantize :: "('w \<Rightarrow> 'w res) \<Rightarrow> 'w gallic \<Rightarrow> 'w gallic res" where
  "gallic_quantize quantize w = rbind (quantize (snd w)) (\<lambda>q. Inr (fst w, q))"

definition gallic_division :: "string_type \<Rightarrow> 'w division \<Rightarrow> 'w gallic division" where
  "gallic_division t D = \<lparr>dv_divide = gallic_divide t (dv_divide D), dv_quantize = gallic_quantize (dv_quantize D)\<rparr>"

text \<open>The conversions: \<open>From<Label>\<close>, \<open>From<Vec<Label>>\<close>.\<close>

definition gallic_of_label :: "label \<Rightarrow> 'w \<Rightarrow> 'w gallic" where
  "gallic_of_label l w = (Labels [l], w)"

subsection \<open>Unions of weights\<close>

record 'w union_option =
  uo_compare :: "'w \<Rightarrow> 'w \<Rightarrow> bool"
  uo_merge :: "'w \<Rightarrow> 'w \<Rightarrow> 'w res"

definition union_push_back :: "'w union_option \<Rightarrow> bool \<Rightarrow> 'w \<Rightarrow> 'w list \<Rightarrow> 'w list res" where
  "union_push_back U in_order w l =
     (if l = [] then Inr [w]
      else if in_order
      then if uo_compare U (last l) w then Inr (l @ [w])
           else rbind (uo_merge U (last l) w) (\<lambda>m. Inr (l[length l - 1 := m]))
      else if uo_compare U (hd l) w then Inr (l @ [w])
      else Inr (l[0 := w] @ [hd l]))"

fun union_merge_loop :: "'w union_option \<Rightarrow> 'w list \<Rightarrow> 'w list \<Rightarrow> 'w list \<Rightarrow> 'w list res" where
  "union_merge_loop U (v1 # l1) (v2 # l2) acc =
     (if uo_compare U v1 v2 then rbind (union_push_back U True v1 acc) (union_merge_loop U l1 (v2 # l2))
      else rbind (union_push_back U True v2 acc) (union_merge_loop U (v1 # l1) l2))"
| "union_merge_loop U [] l2 acc = for_res (union_push_back U True) l2 acc"
| "union_merge_loop U l1 [] acc = for_res (union_push_back U True) l1 acc"

definition union_plus :: "'w union_option \<Rightarrow> 'w list \<Rightarrow> 'w list \<Rightarrow> 'w list res" where
  "union_plus U l1 l2 = (if l1 = [] then Inr l2 else if l2 = [] then Inr l1 else union_merge_loop U l1 l2 [])"

definition union_row :: "'w semiring \<Rightarrow> 'w union_option \<Rightarrow> 'w \<Rightarrow> 'w list \<Rightarrow> 'w list res" where
  "union_row W U w1 l2 = for_res (\<lambda>w2 prod2. rbind (times_w W w1 w2) (\<lambda>p. union_push_back U True p prod2)) l2 []"

definition union_times :: "'w semiring \<Rightarrow> 'w union_option \<Rightarrow> 'w list \<Rightarrow> 'w list \<Rightarrow> 'w list res" where
  "union_times W U l1 l2 =
     (if l1 = [] \<or> l2 = [] then Inr []
      else for_res (\<lambda>w1 prod1. rbind (union_row W U w1 l2) (union_plus U prod1)) l1 [])"

definition union_weight :: "'w semiring \<Rightarrow> 'w union_option \<Rightarrow> 'w list semiring" where
  "union_weight W U = \<lparr>
     zero_w = [], one_w = [one_w W], plus_w = union_plus U, times_w = union_times W U,
     eq_w = list_all2 (eq_w W),
     props_w = props_w W AND (LEFT_SEMIRING OR RIGHT_SEMIRING OR COMMUTATIVE OR IDEMPOTENT)\<rparr>"

definition union_divide ::
  "('w \<Rightarrow> 'w \<Rightarrow> divide_type \<Rightarrow> 'w res) \<Rightarrow> 'w union_option \<Rightarrow> 'w list \<Rightarrow> 'w list \<Rightarrow> divide_type \<Rightarrow> 'w list res" where
  "union_divide div_w U a b d =
     (let a = (if a = [] \<or> b = [] then [] else a)
      in if length a = 1
         then for_res (\<lambda>v quot. rbind (div_w (a ! 0) v d) (\<lambda>q. union_push_back U True q quot)) (rev b) []
         else if length b = 1
         then for_res (\<lambda>v quot. rbind (div_w v (b ! 0) d) (\<lambda>q. union_push_back U True q quot)) a []
         else Inl (Bail ''Expected at least of the two parameters to have a single element''))"

definition union_quantize :: "('w \<Rightarrow> 'w res) \<Rightarrow> 'w union_option \<Rightarrow> 'w list \<Rightarrow> 'w list res" where
  "union_quantize quantize U l =
     for_res (\<lambda>e acc. rbind (quantize e) (\<lambda>e. rbind (quantize e) (\<lambda>q. union_push_back U True q acc))) l []"

subsection \<open>Unions of restricted pairs\<close>

fun label_seq_less :: "label list \<Rightarrow> label list \<Rightarrow> bool" where
  "label_seq_less (l1 # v1) (l2 # v2) = (if l1 < l2 then True else if l1 > l2 then False else label_seq_less v1 v2)"
| "label_seq_less _ _ = False"

definition gallic_compare :: "'w gallic \<Rightarrow> 'w gallic \<Rightarrow> bool" where
  "gallic_compare w1 w2 =
     (let n1 = len_labels (fst w1); n2 = len_labels (fst w2)
      in if n1 < n2 then True else if n1 > n2 then False
         else if n1 = 0 then False
         else case (fst w1, fst w2) of
                (Labels v1, Labels v2) \<Rightarrow> label_seq_less v1 v2
              | _ \<Rightarrow> False)"

definition gallic_merge :: "'w semiring \<Rightarrow> 'w gallic \<Rightarrow> 'w gallic \<Rightarrow> 'w gallic res" where
  "gallic_merge W w1 w2 = rbind (plus_w W (snd w1) (snd w2)) (\<lambda>p. Inr (fst w1, p))"

definition gallic_option :: "'w semiring \<Rightarrow> 'w gallic union_option" where
  "gallic_option W = \<lparr>uo_compare = gallic_compare, uo_merge = gallic_merge W\<rparr>"

definition gallic_union_weight :: "'w semiring \<Rightarrow> 'w gallic list semiring" where
  "gallic_union_weight W = union_weight (gallic_weight StringRestrict W) (gallic_option W)"

definition gallic_union_division :: "'w semiring \<Rightarrow> 'w division \<Rightarrow> 'w gallic list division" where
  "gallic_union_division W D = \<lparr>
     dv_divide = union_divide (gallic_divide StringRestrict (dv_divide D)) (gallic_option W),
     dv_quantize = union_quantize (gallic_quantize (dv_quantize D)) (gallic_option W)\<rparr>"

subsection \<open>The pairs keep their flags, the minimum does not\<close>

lemma gallic_flags_sound: "flags_sound W \<Longrightarrow> flags_sound (gallic_weight t W)"
  unfolding gallic_weight_def by (rule product_flags_sound [OF string_flags_sound])

text \<open>
  \<open>GallicWeightMin\<close> declares the flags of the pairs, but a factor that makes two second components equal
  changes which of the two strings survives: left distributivity fails, and its plus does not commute.
\<close>

lemma gallic_min_not_left: "declares (gallic_min_weight boolean_weight) LEFT_SEMIRING \<and> \<not> law_left (gallic_min_weight boolean_weight)"
proof
  show "declares (gallic_min_weight boolean_weight) LEFT_SEMIRING"
    by (simp add: declares_def gallic_min_weight_def gallic_weight_def product_weight_def string_weight_def
        string_props_def boolean_weight_def semiring_flag_defs)
  show "\<not> law_left (gallic_min_weight boolean_weight)"
  proof
    assume "law_left (gallic_min_weight boolean_weight)"
    then have "agree (gallic_min_weight boolean_weight)
        (rbind (plus_w (gallic_min_weight boolean_weight) (Labels [1], True) (Labels [2], False))
          (times_w (gallic_min_weight boolean_weight) (Labels [], False)))
        (rbind (times_w (gallic_min_weight boolean_weight) (Labels [], False) (Labels [1], True)) (\<lambda>x.
          rbind (times_w (gallic_min_weight boolean_weight) (Labels [], False) (Labels [2], False))
            (plus_w (gallic_min_weight boolean_weight) x)))"
      unfolding law_left_def by blast
    then show False
      by (simp add: agree_def gallic_min_weight_def gallic_weight_def product_weight_def string_weight_def
          gallic_min_plus_def gallic_natural_less_def boolean_weight_def)
  qed
qed

subsection \<open>Unions as formal sums\<close>

definition shortlex :: "label list \<Rightarrow> label list \<Rightarrow> bool" where
  "shortlex xs ys \<longleftrightarrow> length xs < length ys \<or> length xs = length ys \<and> label_seq_less xs ys"

definition gkey :: "'w gallic \<Rightarrow> label list" where
  "gkey p = (case fst p of Labels xs \<Rightarrow> xs | Infinity \<Rightarrow> [])"

definition finite_pair :: "'w gallic \<Rightarrow> bool" where
  "finite_pair p \<longleftrightarrow> fst p \<noteq> Infinity"

definition formal_sum :: "'w gallic list \<Rightarrow> bool" where
  "formal_sum l \<longleftrightarrow> list_all finite_pair l \<and> sorted_wrt (\<lambda>p q. shortlex (gkey p) (gkey q)) l"

definition term_at :: "'w semiring \<Rightarrow> label list \<Rightarrow> 'w gallic \<Rightarrow> 'w" where
  "term_at W xs p = (if fst p = Labels xs then snd p else zero_w W)"

definition coefficient :: "'w semiring \<Rightarrow> ('w \<Rightarrow> 'w \<Rightarrow> 'w) \<Rightarrow> 'w gallic list \<Rightarrow> label list \<Rightarrow> 'w" where
  "coefficient W add l xs = foldr (\<lambda>p. add (term_at W xs p)) l (zero_w W)"

lemma label_seq_less_irrefl [simp]: "\<not> label_seq_less xs xs"
  by (induction xs) auto

lemma label_seq_less_trans: "label_seq_less xs ys \<Longrightarrow> label_seq_less ys zs \<Longrightarrow> label_seq_less xs zs"
  by (induction xs ys arbitrary: zs rule: label_seq_less.induct; case_tac zs) (auto split: if_splits)

lemma label_seq_less_total: "length xs = length ys \<Longrightarrow> xs = ys \<or> label_seq_less xs ys \<or> label_seq_less ys xs"
  by (induction xs ys rule: list_induct2) (auto simp: neq_iff)

lemma label_seq_less_append [simp]: "label_seq_less (us @ xs) (us @ ys) = label_seq_less xs ys"
  by (induction us) auto

lemma shortlex_irrefl [simp]: "\<not> shortlex xs xs"
  by (simp add: shortlex_def)

lemma shortlex_trans: "shortlex xs ys \<Longrightarrow> shortlex ys zs \<Longrightarrow> shortlex xs zs"
  using label_seq_less_trans by (auto simp: shortlex_def)

lemma shortlex_total: "xs = ys \<or> shortlex xs ys \<or> shortlex ys xs"
  using label_seq_less_total [of xs ys] by (auto simp: shortlex_def)

lemma shortlex_append [simp]: "shortlex (us @ xs) (us @ ys) = shortlex xs ys"
  by (simp add: shortlex_def)

lemma finite_pair_key: "finite_pair p \<Longrightarrow> fst p = Labels (gkey p)"
  by (auto simp: finite_pair_def gkey_def split: string_variant.splits)

lemma gallic_compare_key: "finite_pair p \<Longrightarrow> finite_pair q \<Longrightarrow> gallic_compare p q \<longleftrightarrow> shortlex (gkey p) (gkey q)"
  by (auto simp: gallic_compare_def shortlex_def Let_def dest!: finite_pair_key)

lemma term_at_key: "finite_pair p \<Longrightarrow> term_at W xs p = (if gkey p = xs then snd p else zero_w W)"
  by (auto simp: term_at_def dest!: finite_pair_key)

lemma formal_sum_Nil [simp]: "formal_sum []"
  by (simp add: formal_sum_def)

lemma formal_sum_Cons: "formal_sum (p # l) \<longleftrightarrow> finite_pair p \<and> (\<forall>q \<in> set l. shortlex (gkey p) (gkey q)) \<and> formal_sum l"
  by (auto simp: formal_sum_def)

lemma formal_sum_finite: "formal_sum l \<Longrightarrow> p \<in> set l \<Longrightarrow> finite_pair p"
  by (simp add: formal_sum_def list_all_iff)

lemma formal_sum_snoc:
  "formal_sum (l @ [p]) \<longleftrightarrow> formal_sum l \<and> finite_pair p \<and> (l = [] \<or> shortlex (gkey (last l)) (gkey p))"
proof (induction l)
  case Nil
  then show ?case by (simp add: formal_sum_def)
next
  case (Cons q l)
  show ?case
  proof (cases "l = []")
    case True
    then show ?thesis by (auto simp: formal_sum_def)
  next
    case False
    then have "last l \<in> set l" by simp
    with Cons.IH False show ?thesis by (auto simp: formal_sum_Cons intro: shortlex_trans)
  qed
qed

context weight_monoids
begin

lemma coefficient_Nil [simp]: "coefficient W add [] xs = zero_w W"
  by (simp add: coefficient_def)

lemma coefficient_Cons: "coefficient W add (p # l) xs = add (term_at W xs p) (coefficient W add l xs)"
  by (simp add: coefficient_def)

lemma coefficient_append: "coefficient W add (l @ m) xs = add (coefficient W add l xs) (coefficient W add m xs)"
  by (induction l) (auto simp: coefficient_Cons add_zero add_assoc)

lemma coefficient_absent: "formal_sum l \<Longrightarrow> (\<And>q. q \<in> set l \<Longrightarrow> gkey q \<noteq> xs) \<Longrightarrow> coefficient W add l xs = zero_w W"
  by (induction l) (auto simp: coefficient_Cons formal_sum_Cons term_at_key add_zero)

text \<open>Appending a pair not below the last one: a new term, or a merge into the last.\<close>

definition fits_after :: "'w gallic list \<Rightarrow> 'w gallic \<Rightarrow> bool" where
  "fits_after l p \<longleftrightarrow> finite_pair p \<and> (l = [] \<or> \<not> shortlex (gkey p) (gkey (last l)))"

lemma push_term:
  assumes l: "formal_sum l" and p: "fits_after l p"
  obtains m where "union_push_back (gallic_option W) True p l = Inr m" "formal_sum m" "m \<noteq> []" "gkey (last m) = gkey p"
    "\<And>xs. coefficient W add m xs = add (coefficient W add l xs) (term_at W xs p)"
proof (cases "l = []")
  case True
  then have "union_push_back (gallic_option W) True p l = Inr [p]" by (simp add: union_push_back_def)
  moreover have "formal_sum [p]" using p by (simp add: formal_sum_def fits_after_def)
  ultimately show thesis using that [of "[p]"] True
    by (simp add: coefficient_Cons add_zero add_zero_right)
next
  case False
  then obtain k q where k: "l = k @ [q]" by (meson rev_exhaust)
  have fin: "finite_pair p" "finite_pair q" using l p by (auto simp: k formal_sum_snoc fits_after_def)
  show thesis
  proof (cases "shortlex (gkey q) (gkey p)")
    case True
    then have "union_push_back (gallic_option W) True p l = Inr (l @ [p])"
      using fin by (simp add: union_push_back_def gallic_option_def k gallic_compare_key)
    moreover have "formal_sum (l @ [p])" using l True fin by (simp add: formal_sum_snoc [of l]) (simp add: k)
    ultimately show thesis using that [of "l @ [p]"] by (simp add: coefficient_append coefficient_Cons add_zero_right)
  next
    case no: False
    then have same: "gkey p = gkey q" using p shortlex_total by (auto simp: k fits_after_def)
    let ?m = "k @ [(fst q, add (snd q) (snd p))]"
    have "union_push_back (gallic_option W) True p l = Inr ?m"
      using no fin by (simp add: union_push_back_def gallic_option_def k gallic_compare_key gallic_merge_def plus_ok)
    moreover have key: "gkey (fst q, add (snd q) (snd p)) = gkey q" "finite_pair (fst q, add (snd q) (snd p))"
      using fin by (simp_all add: gkey_def finite_pair_def)
    moreover have "formal_sum ?m" using l by (simp add: k formal_sum_snoc key)
    moreover have "coefficient W add ?m xs = add (coefficient W add l xs) (term_at W xs p)" for xs
      using fin key same
      by (simp add: k coefficient_append coefficient_Cons term_at_key add_zero add_zero_right add_assoc)
    ultimately show thesis using that [of ?m] same by simp
  qed
qed

lemma fits_after_key: "gkey (last m) = gkey p \<Longrightarrow> finite_pair q \<Longrightarrow> \<not> shortlex (gkey q) (gkey p) \<Longrightarrow> fits_after m q"
  by (simp add: fits_after_def)

lemma push_terms:
  assumes "formal_sum l" "formal_sum acc" "\<And>p. p \<in> set l \<Longrightarrow> fits_after acc p"
  shows "\<exists>m. for_res (union_push_back (gallic_option W) True) l acc = Inr m \<and> formal_sum m \<and>
    (\<forall>xs. coefficient W add m xs = add (coefficient W add acc xs) (coefficient W add l xs))"
  using assms
proof (induction l arbitrary: acc)
  case Nil
  then show ?case by (simp add: add_zero_right)
next
  case (Cons p l)
  obtain m where m: "union_push_back (gallic_option W) True p acc = Inr m" "formal_sum m" "m \<noteq> []" "gkey (last m) = gkey p"
    "\<And>xs. coefficient W add m xs = add (coefficient W add acc xs) (term_at W xs p)"
    using push_term [OF Cons.prems(2), of p] Cons.prems(3) by (metis list.set_intros(1))
  have "fits_after m q" if "q \<in> set l" for q
  proof (rule fits_after_key [OF m(4)])
    show "finite_pair q" using Cons.prems(1) that formal_sum_finite [of l q] by (simp add: formal_sum_Cons)
    have "shortlex (gkey p) (gkey q)" using Cons.prems(1) that by (simp add: formal_sum_Cons)
    then show "\<not> shortlex (gkey q) (gkey p)" using shortlex_trans shortlex_irrefl by blast
  qed
  with Cons.IH [of m] m Cons.prems(1) show ?case by (auto simp: formal_sum_Cons coefficient_Cons add_assoc)
qed

lemma merge_terms:
  assumes "formal_sum l1" "formal_sum l2" "formal_sum acc"
    and "\<And>p. p \<in> set l1 \<union> set l2 \<Longrightarrow> fits_after acc p"
  shows "\<exists>m. union_merge_loop (gallic_option W) l1 l2 acc = Inr m \<and> formal_sum m \<and>
    (\<forall>xs. coefficient W add m xs = add (coefficient W add acc xs) (add (coefficient W add l1 xs) (coefficient W add l2 xs)))"
  using assms
proof (induction "gallic_option W" l1 l2 acc rule: union_merge_loop.induct)
  case (1 v1 l1 v2 l2 acc)
  have fin: "finite_pair v1" "finite_pair v2" using 1 by (auto simp: formal_sum_Cons)
  have cmp: "uo_compare (gallic_option W) v1 v2 \<longleftrightarrow> shortlex (gkey v1) (gkey v2)"
    using fin by (simp add: gallic_option_def gallic_compare_key)
  have rest: "finite_pair q" "shortlex (gkey v1) (gkey q)" if "q \<in> set l1" for q
    using 1(3) that formal_sum_finite [of l1 q] by (auto simp: formal_sum_Cons)
  have rest2: "finite_pair q" "shortlex (gkey v2) (gkey q)" if "q \<in> set l2" for q
    using 1(4) that formal_sum_finite [of l2 q] by (auto simp: formal_sum_Cons)
  show ?case
  proof (cases "shortlex (gkey v1) (gkey v2)")
    case True
    obtain m where m: "union_push_back (gallic_option W) True v1 acc = Inr m" "formal_sum m" "m \<noteq> []" "gkey (last m) = gkey v1"
      "\<And>xs. coefficient W add m xs = add (coefficient W add acc xs) (term_at W xs v1)"
      using push_term [OF 1(5), of v1] 1(6) by (metis UnI1 list.set_intros(1))
    have "fits_after m q" if "q \<in> set l1 \<union> set (v2 # l2)" for q
      using that rest rest2 fin True fits_after_key [OF m(4), of q] shortlex_trans shortlex_irrefl by (metis Un_iff set_ConsD)
    with 1(1) [of m] 1(3,4) m True show ?thesis
      by (auto simp: cmp formal_sum_Cons coefficient_Cons add_assoc)
  next
    case False
    obtain m where m: "union_push_back (gallic_option W) True v2 acc = Inr m" "formal_sum m" "m \<noteq> []" "gkey (last m) = gkey v2"
      "\<And>xs. coefficient W add m xs = add (coefficient W add acc xs) (term_at W xs v2)"
      using push_term [OF 1(5), of v2] 1(6) by (metis UnI2 list.set_intros(1))
    have "fits_after m q" if "q \<in> set (v1 # l1) \<union> set l2" for q
      using that rest rest2 fin False fits_after_key [OF m(4), of q] shortlex_trans shortlex_irrefl shortlex_total
      by (metis Un_iff set_ConsD)
    with 1(2) [of m] 1(3,4) m False show ?thesis
      by (auto simp: cmp formal_sum_Cons coefficient_Cons add_assoc add_left_commute)
  qed
next
  case (2 l2 acc)
  then show ?case using push_terms [of l2 acc] by (auto simp: add_zero)
next
  case (3 v va acc)
  then show ?case using push_terms [of "v # va" acc] by (auto simp: add_zero_right)
qed

text \<open>Plus is the sum of the coefficients, and the result is again in order.\<close>

lemma union_plus_sum:
  assumes "formal_sum a" "formal_sum b"
  shows "\<exists>c. union_plus (gallic_option W) a b = Inr c \<and> formal_sum c \<and>
    (\<forall>xs. coefficient W add c xs = add (coefficient W add a xs) (coefficient W add b xs))"
proof -
  have "fits_after [] p" if "p \<in> set a \<union> set b" for p
    using that assms formal_sum_finite [of a p] formal_sum_finite [of b p] by (auto simp: fits_after_def)
  with merge_terms [OF assms formal_sum_Nil] have "\<exists>m. union_merge_loop (gallic_option W) a b [] = Inr m \<and> formal_sum m \<and>
    (\<forall>xs. coefficient W add m xs = add (coefficient W add a xs) (coefficient W add b xs))" by (simp add: add_zero)
  with assms show ?thesis by (auto simp: union_plus_def add_zero add_zero_right)
qed

definition tensor :: "'w gallic \<Rightarrow> 'w gallic \<Rightarrow> 'w gallic" where
  "tensor p q = (Labels (gkey p @ gkey q), mul (snd p) (snd q))"

lemma tensor_simps [simp]: "gkey (tensor p q) = gkey p @ gkey q" "finite_pair (tensor p q)" "snd (tensor p q) = mul (snd p) (snd q)"
  by (simp_all add: tensor_def gkey_def finite_pair_def)

lemma gallic_times_tensor:
  "finite_pair p \<Longrightarrow> finite_pair q \<Longrightarrow> times_w (gallic_weight StringRestrict W) p q = Inr (tensor p q)"
  by (auto simp: gallic_weight_def product_weight_def string_weight_def tensor_def times_ok dest!: finite_pair_key)

lemma row_pushes:
  assumes "finite_pair p" "list_all finite_pair l"
  shows "for_res (\<lambda>q acc. rbind (times_w (gallic_weight StringRestrict W) p q) (\<lambda>r. union_push_back U True r acc)) l acc =
    for_res (union_push_back U True) (map (tensor p) l) acc"
  using assms by (induction l arbitrary: acc) (auto simp: gallic_times_tensor intro!: rbind_cong)

lemma formal_sum_row: "formal_sum l \<Longrightarrow> formal_sum (map (tensor p) l)"
  by (induction l) (auto simp: formal_sum_Cons)

end

definition convolution :: "'w semiring \<Rightarrow> ('w \<Rightarrow> 'w \<Rightarrow> 'w) \<Rightarrow> ('w \<Rightarrow> 'w \<Rightarrow> 'w) \<Rightarrow> (label list \<Rightarrow> 'w) \<Rightarrow> (label list \<Rightarrow> 'w) \<Rightarrow>
  label list \<Rightarrow> 'w" where
  "convolution W add mul f g xs =
     foldr (\<lambda>i. add (mul (f (take i xs)) (g (drop i xs)))) [0..<Suc (length xs)] (zero_w W)"

context full_semiring
begin

lemma foldr_add_zero: "(\<And>i. i \<in> set is \<Longrightarrow> h i = zero_w W) \<Longrightarrow> foldr (\<lambda>i. add (h i)) is (zero_w W) = zero_w W"
  by (induction "is") (auto simp: add_zero)

lemma foldr_add_one:
  "distinct is \<Longrightarrow> foldr (\<lambda>i. add (if i = k then c else zero_w W)) is (zero_w W) = (if k \<in> set is then c else zero_w W)"
  by (induction "is") (auto simp: add_zero add_zero_right foldr_add_zero)

lemma foldr_add_split:
  "foldr (\<lambda>i. add (add (f i) (g i))) is (zero_w W) = add (foldr (\<lambda>i. add (f i)) is (zero_w W)) (foldr (\<lambda>i. add (g i)) is (zero_w W))"
  by (induction "is") (auto simp: add_zero add_assoc add_left_commute)

lemma row_coefficient:
  assumes "formal_sum l"
  shows "coefficient W add (map (tensor p) l) xs =
    (if take (length (gkey p)) xs = gkey p then mul (snd p) (coefficient W add l (drop (length (gkey p)) xs)) else zero_w W)"
  using assms
proof (induction l)
  case Nil
  then show ?case by (simp add: mul_zero_right)
next
  case (Cons q l)
  have k: "gkey p @ gkey q = xs \<longleftrightarrow> take (length (gkey p)) xs = gkey p \<and> gkey q = drop (length (gkey p)) xs"
    by (metis append_eq_conv_conj)
  from Cons show ?case
    by (auto simp: coefficient_Cons formal_sum_Cons term_at_key k left_distrib add_zero mul_zero_right)
qed

lemma convolution_term:
  assumes "finite_pair p"
  shows "convolution W add mul (\<lambda>xs. term_at W xs p) g xs =
    (if take (length (gkey p)) xs = gkey p then mul (snd p) (g (drop (length (gkey p)) xs)) else zero_w W)"
proof -
  let ?k = "length (gkey p)" and ?is = "[0..<Suc (length xs)]"
  have "mul (term_at W (take i xs) p) (g (drop i xs)) =
      (if i = ?k then if take ?k xs = gkey p then mul (snd p) (g (drop ?k xs)) else zero_w W else zero_w W)"
    if "i \<in> set ?is" for i
    using that assms by (auto simp: term_at_key mul_zero_left)
  then have "convolution W add mul (\<lambda>xs. term_at W xs p) g xs =
      foldr (\<lambda>i. add (if i = ?k then if take ?k xs = gkey p then mul (snd p) (g (drop ?k xs)) else zero_w W else zero_w W)) ?is (zero_w W)"
    unfolding convolution_def by (intro foldr_cong) auto
  also have "\<dots> = (if ?k \<in> set ?is then if take ?k xs = gkey p then mul (snd p) (g (drop ?k xs)) else zero_w W else zero_w W)"
    by (rule foldr_add_one) simp
  also have "\<dots> = (if take ?k xs = gkey p then mul (snd p) (g (drop ?k xs)) else zero_w W)"
    by auto
  finally show ?thesis .
qed

lemma convolution_add:
  "convolution W add mul (\<lambda>xs. add (f xs) (f' xs)) g xs = add (convolution W add mul f g xs) (convolution W add mul f' g xs)"
  by (simp add: convolution_def right_distrib foldr_add_split)

lemma convolution_zero: "convolution W add mul (\<lambda>_. zero_w W) g xs = zero_w W"
  unfolding convolution_def by (rule foldr_add_zero) (simp add: mul_zero_left)

lemma times_rows:
  assumes "formal_sum acc" "formal_sum a" "formal_sum b"
  shows "\<exists>c. for_res (\<lambda>w1 prod1. rbind (union_row (gallic_weight StringRestrict W) (gallic_option W) w1 b)
      (union_plus (gallic_option W) prod1)) a acc = Inr c \<and> formal_sum c \<and>
    (\<forall>xs. coefficient W add c xs = add (coefficient W add acc xs)
      (convolution W add mul (coefficient W add a) (coefficient W add b) xs))"
  using assms(1,2)
proof (induction a arbitrary: acc)
  case Nil
  have "coefficient W add [] = (\<lambda>_. zero_w W)" by (simp add: fun_eq_iff)
  with Nil show ?case by (simp add: convolution_zero add_zero_right)
next
  case (Cons p a)
  have p: "finite_pair p" and a: "formal_sum a" using Cons.prems by (auto simp: formal_sum_Cons)
  have "list_all finite_pair b" using assms(3) by (simp add: formal_sum_def)
  have fits: "fits_after [] q" if "q \<in> set (map (tensor p) b)" for q using that by (auto simp: fits_after_def)
  obtain r where r: "union_row (gallic_weight StringRestrict W) (gallic_option W) p b = Inr r" "formal_sum r"
    "\<And>xs. coefficient W add r xs = coefficient W add (map (tensor p) b) xs"
    using push_terms [where l = "map (tensor p) b" and acc = "[]", OF formal_sum_row [OF assms(3)] formal_sum_Nil fits]
    unfolding union_row_def row_pushes [OF p \<open>list_all finite_pair b\<close>] by (auto simp: add_zero)
  obtain s where s: "union_plus (gallic_option W) acc r = Inr s" "formal_sum s"
    "\<And>xs. coefficient W add s xs = add (coefficient W add acc xs) (coefficient W add r xs)"
    using union_plus_sum [OF Cons.prems(1) r(2)] by auto
  have "coefficient W add (p # a) = (\<lambda>xs. add (term_at W xs p) (coefficient W add a xs))"
    by (simp add: fun_eq_iff coefficient_Cons)
  then have "convolution W add mul (coefficient W add (p # a)) (coefficient W add b) xs =
      add (coefficient W add r xs) (convolution W add mul (coefficient W add a) (coefficient W add b) xs)" for xs
    by (simp add: convolution_add convolution_term [OF p] r(3) row_coefficient [OF assms(3)])
  with Cons.IH [OF s(2) a] r(1) s show ?case by (auto simp: add_assoc)
qed

text \<open>Times is the product of formal sums: over all ways to split the string.\<close>

lemma union_times_convolution:
  assumes "formal_sum a" "formal_sum b"
  shows "\<exists>c. union_times (gallic_weight StringRestrict W) (gallic_option W) a b = Inr c \<and> formal_sum c \<and>
    (\<forall>xs. coefficient W add c xs = convolution W add mul (coefficient W add a) (coefficient W add b) xs)"
proof -
  have z: "coefficient W add [] = (\<lambda>_. zero_w W)" by (simp add: fun_eq_iff)
  have "convolution W add mul f (\<lambda>_. zero_w W) xs = zero_w W" for f xs
    unfolding convolution_def by (rule foldr_add_zero) (simp add: mul_zero_right)
  with times_rows [OF formal_sum_Nil assms] show ?thesis
    by (auto simp: union_times_def z convolution_zero add_zero)
qed

end

end
