(* ===== verification/Weight_Convert.thy ===== *)
theory Weight_Convert
  imports Gallic_Weight Tr_Map Rational_Ops
begin

text \<open>
  \<open>weight_convert\<close> (\<open>algorithms/weight_convert.rs\<close>) and the converters of
  \<open>algorithms/weight_converters\<close>: the copy of a transducer into another weight type. Moving the output
  labels into Gallic weights and back restores the transducer.
\<close>

subsection \<open>The trait and the algorithm\<close>

record ('a, 'b) weight_converter =
  wc_tr :: "'a tr \<Rightarrow> 'b tr res"
  wc_final :: "'a final_tr \<Rightarrow> 'b final_tr res"
  wc_action :: map_final_action
  wc_properties :: "fst_props \<Rightarrow> fst_props"

definition convert_trs :: "'b semiring \<Rightarrow> ('a, 'b) weight_converter \<Rightarrow> state_id \<Rightarrow> 'a tr list \<Rightarrow> 'b vfst \<Rightarrow> 'b vfst res" where
  "convert_trs W cv s = for_res (\<lambda>t G. rbind (wc_tr cv t) (add_tr W G s))"

definition convert_superfinal :: "'b semiring \<Rightarrow> 'b vfst \<times> state_id option \<Rightarrow> ('b vfst \<times> state_id) res" where
  "convert_superfinal W = (\<lambda>(G, superfinal). case superfinal of
     Some sf \<Rightarrow> Inr (G, sf)
   | None \<Rightarrow> let (G, sf) = add_state G in rbind (runwrap (set_final W G sf (one_w W))) (\<lambda>G. Inr (G, sf)))"

definition convert_final ::
  "'b semiring \<Rightarrow> ('a, 'b) weight_converter \<Rightarrow> state_id \<Rightarrow> 'a option \<Rightarrow> 'b vfst \<times> state_id option \<Rightarrow>
   ('b vfst \<times> state_id option) res" where
  "convert_final W cv s fw = (\<lambda>(G, superfinal). case fw of
     None \<Rightarrow> Inr (G, superfinal)
   | Some w \<Rightarrow> rbind (wc_final cv \<lparr>fin_ilabel = EPS_LABEL, fin_olabel = EPS_LABEL, fin_weight = w\<rparr>) (\<lambda>ft.
       case wc_action cv of
         MapNoSuperfinal \<Rightarrow>
           if fin_ilabel ft \<noteq> EPS_LABEL \<or> fin_olabel ft \<noteq> EPS_LABEL
           then Inl (Bail ''TrMap: Non-zero tr labels for superfinal tr'')
           else rbind (runwrap (set_final W G s (fin_weight ft))) (\<lambda>G. Inr (G, superfinal))
       | MapAllowSuperfinal \<Rightarrow>
           if fin_ilabel ft \<noteq> EPS_LABEL \<or> fin_olabel ft \<noteq> EPS_LABEL
           then rbind (convert_superfinal W (G, superfinal)) (\<lambda>(G, sf).
                  rbind (add_tr W G s (tr_new (fin_ilabel ft) (fin_olabel ft) (fin_weight ft) sf)) (\<lambda>G.
                    rbind (delete_final_weight W G s) (\<lambda>G. Inr (G, Some sf))))
           else rbind (set_final W G s (fin_weight ft)) (\<lambda>G. Inr (G, superfinal))
       | MapRequireSuperfinal \<Rightarrow>
           rbind (if fin_ilabel ft \<noteq> EPS_LABEL \<or> fin_olabel ft \<noteq> EPS_LABEL \<or> \<not> is_zero W (fin_weight ft)
                  then (case superfinal of
                          None \<Rightarrow> Inl (Panic ''called Option::unwrap() on a None value'')
                        | Some sf \<Rightarrow>
                            runwrap (add_tr W G s (tr_new (fin_ilabel ft) (fin_olabel ft) (fin_weight ft) sf)))
                  else Inr G) (\<lambda>G.
             rbind (runwrap (delete_final_weight W G s)) (\<lambda>G. Inr (G, superfinal)))))"

definition convert_state ::
  "'b semiring \<Rightarrow> ('a, 'b) weight_converter \<Rightarrow> 'a vfst \<Rightarrow> state_id \<Rightarrow> 'b vfst \<times> state_id option \<Rightarrow>
   ('b vfst \<times> state_id option) res" where
  "convert_state W cv F s = (\<lambda>(G, superfinal).
     rbind (get_trs F s) (\<lambda>ts. rbind (convert_trs W cv s ts G) (\<lambda>G.
       convert_final W cv s (final_weight (state_of F s)) (G, superfinal))))"

definition convert_begin :: "'b semiring \<Rightarrow> ('a, 'b) weight_converter \<Rightarrow> nat \<Rightarrow> ('b vfst \<times> state_id option) res" where
  "convert_begin W cv n =
     (let G = fold (\<lambda>_ G. fst (add_state G)) [0..<n] vfst_new
      in if wc_action cv = MapRequireSuperfinal
         then let (G, sf) = add_state G in rbind (set_final W G sf (one_w W)) (\<lambda>G. Inr (G, Some sf))
         else Inr (G, None))"

definition weight_convert :: "'b semiring \<Rightarrow> ('a, 'b) weight_converter \<Rightarrow> 'a vfst \<Rightarrow> 'b vfst res" where
  "weight_convert W cv F = (case start_state F of
     None \<Rightarrow> Inr vfst_new
   | Some start \<Rightarrow>
       rbind (convert_begin W cv (num_states F)) (\<lambda>(G, superfinal).
         rbind (set_start G start) (\<lambda>G.
           rbind (for_res (convert_state W cv F) [0..<num_states F] (G, superfinal)) (\<lambda>(G, _).
             Inr (set_symts_from_fst
               (set_properties_with_mask G (wc_properties cv (properties F) OR properties G) all_properties) F)))))"

subsection \<open>The converters\<close>

text \<open>\<open>SimpleWeightConverter\<close> rebuilds the weight from its value; \<open>conv\<close> is that rebuilding.\<close>

definition simple_weight_converter :: "('a \<Rightarrow> 'b) \<Rightarrow> ('a, 'b) weight_converter" where
  "simple_weight_converter conv = \<lparr>
     wc_tr = (\<lambda>t. Inr (tr_new (ilabel t) (olabel t) (conv (weight t)) (nextstate t))),
     wc_final = (\<lambda>ft. Inr \<lparr>fin_ilabel = fin_ilabel ft, fin_olabel = fin_olabel ft, fin_weight = conv (fin_weight ft)\<rparr>),
     wc_action = MapNoSuperfinal,
     wc_properties = (\<lambda>p. p)\<rparr>"

text \<open>
  The macros are instantiated for every Gallic type: \<open>pack\<close> is \<open>From<(StringWeight, W)>\<close>, the identity
  for the pairs and the singleton for the union; \<open>extract\<close> is the matching \<open>extract_\<dots>\<close> function.
\<close>

definition to_gallic_converter :: "'w semiring \<Rightarrow> ('w gallic \<Rightarrow> 'g) \<Rightarrow> ('w, 'g) weight_converter" where
  "to_gallic_converter W pack = \<lparr>
     wc_tr = (\<lambda>t. if olabel t = EPS_LABEL
       then Inr (tr_new (ilabel t) (ilabel t) (pack (Labels [], weight t)) (nextstate t))
       else Inr (tr_new (ilabel t) (ilabel t) (pack (gallic_of_label (olabel t) (weight t))) (nextstate t))),
     wc_final = (\<lambda>ft. if is_zero W (fin_weight ft) then Inl (Bail ''Shouldn't happen'')
       else Inr \<lparr>fin_ilabel = EPS_LABEL, fin_olabel = EPS_LABEL, fin_weight = pack (Labels [], fin_weight ft)\<rparr>),
     wc_action = MapNoSuperfinal,
     wc_properties = (\<lambda>p. p AND project_properties p ProjectInput AND fp_weight_invariant_properties)\<rparr>"

definition extract_pair :: "'w gallic \<Rightarrow> ('w \<times> label) res" where
  "extract_pair gw = (case fst gw of
     Infinity \<Rightarrow> Inl (Bail ''Unexpected infinity'')
   | Labels l \<Rightarrow> if length l > 1 then Inl (Bail ''Expected at most 1 element'')
       else if length l = 1 then Inr (snd gw, l ! 0)
       else Inr (snd gw, 0))"

definition extract_gallic :: "'w semiring \<Rightarrow> 'w gallic list \<Rightarrow> ('w \<times> label) res" where
  "extract_gallic W gw =
     (if length gw > 1 then Inl (Bail ''error'')
      else if gw = [] then Inr (zero_w W, EPS_LABEL)
      else extract_pair (last gw))"

definition from_gallic_converter :: "('g \<Rightarrow> ('w \<times> label) res) \<Rightarrow> label \<Rightarrow> ('g, 'w) weight_converter" where
  "from_gallic_converter extract superfinal_label = \<lparr>
     wc_tr = (\<lambda>t. rbind (extract (weight t)) (\<lambda>(w, l).
       if ilabel t \<noteq> olabel t then Inl (Bail ''Unrepresentable weight'')
       else Inr (tr_new (ilabel t) l w (nextstate t)))),
     wc_final = (\<lambda>ft. rbind (runwrap (extract (fin_weight ft))) (\<lambda>(w, l).
       if fin_ilabel ft \<noteq> fin_olabel ft then Inl (Panic ''Unrepresentable weight'')
       else if fin_ilabel ft = EPS_LABEL \<and> l \<noteq> EPS_LABEL
       then Inr \<lparr>fin_ilabel = superfinal_label, fin_olabel = l, fin_weight = w\<rparr>
       else Inr \<lparr>fin_ilabel = fin_ilabel ft, fin_olabel = l, fin_weight = w\<rparr>)),
     wc_action = MapAllowSuperfinal,
     wc_properties = (\<lambda>p. p AND fp_o_label_invariant_properties AND fp_weight_invariant_properties
       AND fp_add_super_final_properties)\<rparr>"

subsection \<open>Converting without a superfinal state\<close>

definition converted :: "('a tr \<Rightarrow> 'b tr) \<Rightarrow> ('a \<Rightarrow> 'b) \<Rightarrow> 'a vfst \<Rightarrow> 'b vfst \<Rightarrow> bool" where
  "converted f g F G \<longleftrightarrow> num_states G = num_states F \<and> start_state G = start_state F \<and>
     isymt G = isymt F \<and> osymt G = osymt F \<and>
     (\<forall>k < num_states F. final_weight (state_of G k) = map_option g (final_weight (state_of F k)) \<and>
        trs (state_of G k) = map f (trs (state_of F k)))"

definition converts :: "('a, 'b) weight_converter \<Rightarrow> ('a tr \<Rightarrow> 'b tr) \<Rightarrow> ('a \<Rightarrow> 'b) \<Rightarrow> 'a vfst \<Rightarrow> bool" where
  "converts cv f g F \<longleftrightarrow> wc_action cv \<noteq> MapRequireSuperfinal \<and>
     (\<forall>k < num_states F. (\<forall>t \<in> set (trs (state_of F k)). wc_tr cv t = Inr (f t)) \<and>
       (\<forall>w. final_weight (state_of F k) = Some w \<longrightarrow>
          wc_final cv \<lparr>fin_ilabel = EPS_LABEL, fin_olabel = EPS_LABEL, fin_weight = w\<rparr> =
            Inr \<lparr>fin_ilabel = EPS_LABEL, fin_olabel = EPS_LABEL, fin_weight = g w\<rparr>))"

text \<open>The states before \<open>m\<close> are converted, the others still empty.\<close>

definition half_converted :: "('a tr \<Rightarrow> 'b tr) \<Rightarrow> ('a \<Rightarrow> 'b) \<Rightarrow> 'a vfst \<Rightarrow> nat \<Rightarrow> 'b vfst \<Rightarrow> bool" where
  "half_converted f g F m G \<longleftrightarrow> num_states G = num_states F \<and> start_state G = start_state F \<and>
     (\<forall>k < num_states F. final_weight (state_of G k) = (if k < m then map_option g (final_weight (state_of F k)) else None) \<and>
        trs (state_of G k) = (if k < m then map f (trs (state_of F k)) else []))"

lemma converted_final_shape [shape]:
  "num_states (set_final_unchecked W F s w) = num_states F"
  "start_state (set_final_unchecked W F s w) = start_state F"
  by simp_all

lemma convert_trs_shape:
  assumes "s < num_states G" "\<And>t. t \<in> set ts \<Longrightarrow> wc_tr cv t = Inr (f t)"
  shows "\<exists>H. convert_trs W cv s ts G = Inr H \<and> num_states H = num_states G \<and> start_state H = start_state G \<and>
    (\<forall>k < num_states G. final_weight (state_of H k) = final_weight (state_of G k) \<and>
      trs (state_of H k) = (if k = s then trs (state_of G s) @ map f ts else trs (state_of G k)))"
  using assms
proof (induction ts arbitrary: G)
  case Nil
  then show ?case by (simp add: convert_trs_def)
next
  case (Cons t ts)
  let ?G = "add_tr_unchecked W G s (f t)"
  have "convert_trs W cv s (t # ts) G = convert_trs W cv s ts ?G"
    using Cons.prems by (simp add: convert_trs_def add_tr_def)
  moreover have "\<exists>H. convert_trs W cv s ts ?G = Inr H \<and> num_states H = num_states ?G \<and> start_state H = start_state ?G \<and>
    (\<forall>k < num_states ?G. final_weight (state_of H k) = final_weight (state_of ?G k) \<and>
      trs (state_of H k) = (if k = s then trs (state_of ?G s) @ map f ts else trs (state_of ?G k)))"
    using Cons.prems by (intro Cons.IH) (simp_all add: shape)
  ultimately show ?case using Cons.prems(1) by (auto simp: shape)
qed

lemma convert_state_step:
  assumes cv: "converts cv f g F" and G: "half_converted f g F m G" and m: "m < num_states F"
  shows "\<exists>H. convert_state W cv F m (G, None) = Inr (H, None) \<and> half_converted f g F (Suc m) H"
proof -
  have tr: "wc_tr cv t = Inr (f t)" if "t \<in> set (trs (state_of F m))" for t
    using cv m that by (simp add: converts_def)
  have n: "m < num_states G" using G m by (simp add: half_converted_def)
  obtain H where H: "convert_trs W cv m (trs (state_of F m)) G = Inr H" "num_states H = num_states G" "start_state H = start_state G"
    "\<And>k. k < num_states G \<Longrightarrow> final_weight (state_of H k) = final_weight (state_of G k)"
    "\<And>k. k < num_states G \<Longrightarrow> trs (state_of H k) = (if k = m then trs (state_of G m) @ map f (trs (state_of F m)) else trs (state_of G k))"
    using convert_trs_shape [where W = W and ts = "trs (state_of F m)", OF n tr] by auto
  have step: "convert_state W cv F m (G, None) = convert_final W cv m (final_weight (state_of F m)) (H, None)"
    using m H(1) by (simp add: convert_state_def get_trs_def)
  show ?thesis
  proof (cases "final_weight (state_of F m)")
    case None
    with step H G m show ?thesis by (auto simp: convert_final_def half_converted_def less_Suc_eq)
  next
    case (Some w)
    have ft: "wc_final cv \<lparr>fin_ilabel = EPS_LABEL, fin_olabel = EPS_LABEL, fin_weight = w\<rparr> =
        Inr \<lparr>fin_ilabel = EPS_LABEL, fin_olabel = EPS_LABEL, fin_weight = g w\<rparr>"
      and a: "wc_action cv \<noteq> MapRequireSuperfinal"
      using cv m Some by (auto simp: converts_def)
    have "convert_state W cv F m (G, None) = Inr (set_final_unchecked W H m (g w), None)"
      using a n unfolding step by (cases "wc_action cv") (simp_all add: Some convert_final_def ft set_final_def H(2))
    moreover have "half_converted f g F (Suc m) (set_final_unchecked W H m (g w))"
      using G H(2-) m Some by (auto simp: half_converted_def less_Suc_eq)
    ultimately show ?thesis by blast
  qed
qed

lemma convert_begin_states:
  "num_states (fold (\<lambda>_ G. fst (add_state G)) [0..<n] (vfst_new :: 'w vfst)) = n \<and>
   (\<forall>k < n. state_of (fold (\<lambda>_ G. fst (add_state G)) [0..<n] (vfst_new :: 'w vfst)) k = vstate_new)"
proof (induction n)
  case 0
  then show ?case by (simp add: vfst_new_def)
next
  case (Suc n)
  then show ?case by (auto simp: add_state_shape less_Suc_eq) (metis add_state_shape(5))
qed

lemma symts_shape [simp]:
  "states (set_symts_from_fst G F) = states G" "start_state (set_symts_from_fst G F) = start_state G"
  "isymt (set_symts_from_fst G F) = isymt F" "osymt (set_symts_from_fst G F) = osymt F"
  by (simp_all add: set_symts_from_fst_def set_input_symbols_def set_output_symbols_def take_input_symbols_def
      take_output_symbols_def Let_def split: option.splits)

lemma weight_convert_pure:
  fixes W :: "'b semiring" and F :: "'a vfst"
  assumes cv: "converts cv f g F" and start: "start_state F = Some s" "s < num_states F"
  shows "\<exists>G. weight_convert W cv F = Inr G \<and> converted f g F G"
proof -
  let ?G = "fold (\<lambda>_ G. fst (add_state G)) [0..<num_states F] (vfst_new :: 'b vfst)"
  have b: "convert_begin W cv (num_states F) = Inr (?G, None)"
    using cv by (simp add: convert_begin_def converts_def)
  have s: "set_start ?G s = Inr (set_start_unchecked ?G s)"
    using start convert_begin_states [of "num_states F", where ?'w = 'b] by (simp add: set_start_def)
  have init: "half_converted f g F 0 (set_start_unchecked ?G s)"
    using convert_begin_states [of "num_states F", where ?'w = 'b] start by (simp add: half_converted_def shape)
  have run: "\<exists>H. for_res (convert_state W cv F) [0..<m] (set_start_unchecked ?G s, None) = Inr (H, None) \<and> half_converted f g F m H"
    if "m \<le> num_states F" for m
    using that
  proof (induction m)
    case 0
    then show ?case using init by simp
  next
    case (Suc m)
    then obtain H where H: "for_res (convert_state W cv F) [0..<m] (set_start_unchecked ?G s, None) = Inr (H, None)" "half_converted f g F m H"
      by auto
    from convert_state_step [OF cv H(2), of W] Suc.prems obtain H' where
      "convert_state W cv F m (H, None) = Inr (H', None)" "half_converted f g F (Suc m) H'" by auto
    with H(1) show ?case by (auto simp: for_res_append)
  qed
  from run [OF order_refl] obtain H where
    H: "for_res (convert_state W cv F) [0..<num_states F] (set_start_unchecked ?G s, None) = Inr (H, None)" "half_converted f g F (num_states F) H"
    by blast
  have "weight_convert W cv F = Inr (set_symts_from_fst
      (set_properties_with_mask H (wc_properties cv (properties F) OR properties H) all_properties) F)"
    unfolding weight_convert_def start(1) by (simp add: b s H(1))
  moreover have "converted f g F (set_symts_from_fst
      (set_properties_with_mask H (wc_properties cv (properties F) OR properties H) all_properties) F)"
    using H(2) by (simp add: converted_def half_converted_def set_properties_with_mask_def)
  ultimately show ?thesis by blast
qed

subsection \<open>Into Gallic weights and back\<close>

definition label_string :: "label \<Rightarrow> string_variant" where
  "label_string l = (if l = EPS_LABEL then Labels [] else Labels [l])"

definition gallic_tr :: "('w gallic \<Rightarrow> 'g) \<Rightarrow> 'w tr \<Rightarrow> 'g tr" where
  "gallic_tr pack t = tr_new (ilabel t) (ilabel t) (pack (label_string (olabel t), weight t)) (nextstate t)"

definition final_weights_nonzero :: "'w semiring \<Rightarrow> 'w vfst \<Rightarrow> bool" where
  "final_weights_nonzero W F \<longleftrightarrow>
     (\<forall>k < num_states F. \<forall>w. final_weight (state_of F k) = Some w \<longrightarrow> \<not> is_zero W w)"

definition unpacks :: "('w gallic \<Rightarrow> 'g) \<Rightarrow> ('g \<Rightarrow> ('w \<times> label) res) \<Rightarrow> bool" where
  "unpacks pack extract \<longleftrightarrow> (\<forall>l w. extract (pack (label_string l, w)) = Inr (w, l))"

lemma pair_unpacks: "unpacks (\<lambda>p. p) extract_pair"
  by (simp add: unpacks_def extract_pair_def label_string_def EPS_LABEL_def)

lemma union_unpacks: "unpacks (\<lambda>p. [p]) (extract_gallic W)"
  by (simp add: unpacks_def extract_gallic_def extract_pair_def label_string_def EPS_LABEL_def)

lemma to_gallic_converts:
  assumes "final_weights_nonzero W F"
  shows "converts (to_gallic_converter W pack) (gallic_tr pack) (\<lambda>w. pack (Labels [], w)) F"
  using assms
  by (simp add: converts_def to_gallic_converter_def gallic_tr_def label_string_def gallic_of_label_def final_weights_nonzero_def)

definition ungallic_tr :: "('g \<Rightarrow> ('w \<times> label) res) \<Rightarrow> 'g tr \<Rightarrow> 'w tr" where
  "ungallic_tr extract t = tr_new (ilabel t) (snd (projr (extract (weight t)))) (fst (projr (extract (weight t)))) (nextstate t)"

lemma ungallic_tr_inverse: "unpacks pack extract \<Longrightarrow> ungallic_tr extract (gallic_tr pack t) = t"
  by (cases t) (simp add: unpacks_def ungallic_tr_def gallic_tr_def)

lemma from_gallic_converts:
  assumes u: "unpacks pack extract" and G: "converted (gallic_tr pack) (\<lambda>w. pack (Labels [], w)) F G"
  shows "converts (from_gallic_converter extract sl) (ungallic_tr extract) (\<lambda>g. fst (projr (extract g))) G"
proof -
  have e: "extract (pack (label_string l, w)) = Inr (w, l)" for l w using u by (simp add: unpacks_def)
  have e0: "extract (pack (Labels [], w)) = Inr (w, EPS_LABEL)" for w using e [of EPS_LABEL w] by (simp add: label_string_def)
  show ?thesis
    using G
    by (auto simp: converts_def converted_def from_gallic_converter_def ungallic_tr_def gallic_tr_def e e0)
qed

lemma gallic_round_trip:
  assumes u: "unpacks pack extract" and z: "final_weights_nonzero W F" and start: "start_state F = Some s" "s < num_states F"
  shows "\<exists>G H. weight_convert U (to_gallic_converter W pack) F = Inr G \<and>
    weight_convert W (from_gallic_converter extract sl) G = Inr H \<and> converted (\<lambda>t. t) (\<lambda>w. w) F H"
proof -
  obtain G where G: "weight_convert U (to_gallic_converter W pack) F = Inr G"
      "converted (gallic_tr pack) (\<lambda>w. pack (Labels [], w)) F G"
    using weight_convert_pure [OF to_gallic_converts [OF z, of pack] start, of U] by blast
  then have s: "start_state G = Some s" "s < num_states G" using start by (simp_all add: converted_def)
  obtain H where H: "weight_convert W (from_gallic_converter extract sl) G = Inr H"
      "converted (ungallic_tr extract) (\<lambda>g. fst (projr (extract g))) G H"
    using weight_convert_pure [OF from_gallic_converts [OF u G(2), of sl] s, of W] by blast
  have e0: "extract (pack (Labels [], w)) = Inr (w, EPS_LABEL)" for w
    using u [unfolded unpacks_def, rule_format, of EPS_LABEL w] by (simp add: label_string_def)
  have "converted (\<lambda>t. t) (\<lambda>w. w) F H"
    using G(2) H(2) by (simp add: converted_def e0 option.map_comp comp_def ungallic_tr_inverse [OF u] option.map_ident)
  with G(1) H(1) show ?thesis by blast
qed

text \<open>A final weight that is zero stops the conversion.\<close>

lemma to_gallic_rejects_zero:
  assumes "is_zero W w"
  shows "wc_final (to_gallic_converter W pack) \<lparr>fin_ilabel = EPS_LABEL, fin_olabel = EPS_LABEL, fin_weight = w\<rparr> =
    Inl (Bail ''Shouldn't happen'')"
  using assms by (simp add: to_gallic_converter_def)

end
