(* ===== verification/Factor_Weight.thy ===== *)
theory Factor_Weight
  imports Weight_Convert Compose_Filters
begin

text \<open>
  Weight factoring (\<open>algorithms/factor_weight\<close>): the factor iterators, the state table of pairs of a
  state and a residual weight, and the lazy operation that unfolds factored weights into transitions.
  The two-way map of the table is the \<open>bimap\<close> crate's; it is only asked to add fresh pairs, which is
  what \<open>bi_map\<close> does, and the table's invariant shows that the pairs are fresh.
\<close>

subsection \<open>Factor iterators\<close>

text \<open>\<open>done\<close> of a fresh iterator, and what iterating it to the end returns.\<close>

record 'w factor_iterator =
  fi_done :: "'w \<Rightarrow> bool"
  fi_items :: "'w \<Rightarrow> ('w \<times> 'w) list"

definition identity_factor :: "'w factor_iterator" where
  "identity_factor = \<lparr>fi_done = (\<lambda>_. True), fi_items = (\<lambda>_. [])\<rparr>"

definition string_factor :: "string_variant factor_iterator" where
  "string_factor = \<lparr>
     fi_done = (\<lambda>w. case w of Infinity \<Rightarrow> True | Labels l \<Rightarrow> length l = 0),
     fi_items = (\<lambda>w. case w of Infinity \<Rightarrow> []
       | Labels l \<Rightarrow> if length l = 0 then [] else [(Labels [l ! 0], Labels (drop 1 l))])\<rparr>"

definition gallic_factor :: "'w semiring \<Rightarrow> 'w gallic factor_iterator" where
  "gallic_factor W =
     (let is_done = (\<lambda>w. case fst w of Infinity \<Rightarrow> True | Labels l \<Rightarrow> length l \<le> 1)
      in \<lparr>fi_done = is_done,
          fi_items = (\<lambda>w. if is_done w then []
            else map (\<lambda>(p_f, p_s). ((p_f, snd w), (p_s, one_w W))) (fi_items string_factor (fst w)))\<rparr>)"

definition gallic_union_piece :: "'w semiring \<Rightarrow> 'w gallic \<Rightarrow> 'w gallic list \<times> 'w gallic list" where
  "gallic_union_piece W w =
     (let (p_f, p_s) = (case fi_items string_factor (fst w) of [] \<Rightarrow> (Labels [], Labels []) | p # _ \<Rightarrow> p)
      in ([(p_f, snd w)], [(p_s, one_w W)]))"

definition gallic_union_factor :: "'w semiring \<Rightarrow> 'w gallic list factor_iterator" where
  "gallic_union_factor W =
     (let is_done = (\<lambda>l. l = [] \<or> length l = 1 \<and> len_labels (fst (l ! 0)) \<le> 1)
      in \<lparr>fi_done = is_done, fi_items = (\<lambda>l. if is_done l then [] else map (gallic_union_piece W) l)\<rparr>)"

subsection \<open>The state table\<close>

record 'w fw_element =
  el_state :: "state_id option"
  el_weight :: 'w

record 'w fw_table =
  fwt_bimap :: "'w fw_element bi_map"
  fwt_unfactored :: "state_id \<Rightarrow> state_id option"

definition fw_table_new :: "'w fw_table" where
  "fw_table_new = \<lparr>fwt_bimap = bi_map_new, fwt_unfactored = (\<lambda>_. None)\<rparr>"

definition bimap_insert :: "'k \<Rightarrow> 'k bi_map \<Rightarrow> 'k bi_map" where
  "bimap_insert k t = t\<lparr>id_to_tuple := id_to_tuple t @ [k], tuple_to_id := (tuple_to_id t)(k := Some (length (id_to_tuple t)))\<rparr>"

definition find_id_or_insert_bimap :: "'k \<Rightarrow> 'k bi_map \<Rightarrow> state_id \<times> 'k bi_map" where
  "find_id_or_insert_bimap elt t = (case tuple_to_id t elt of
     None \<Rightarrow> (length (id_to_tuple t), bimap_insert elt t)
   | Some i \<Rightarrow> (i, t))"

definition fw_find_state :: "'w semiring \<Rightarrow> bool \<Rightarrow> 'w fw_element \<Rightarrow> 'w fw_table \<Rightarrow> state_id \<times> 'w fw_table" where
  "fw_find_state W factor_trs elt tab =
     (case (if \<not> factor_trs \<and> is_one W (el_weight elt) then el_state elt else None) of
        Some old_state \<Rightarrow> (case fwt_unfactored tab old_state of
            Some i \<Rightarrow> (i, tab)
          | None \<Rightarrow> let n = length (id_to_tuple (fwt_bimap tab))
              in (n, tab\<lparr>fwt_bimap := bimap_insert elt (fwt_bimap tab),
                         fwt_unfactored := (fwt_unfactored tab)(old_state := Some n)\<rparr>))
      | None \<Rightarrow> let (i, t) = find_id_or_insert_bimap elt (fwt_bimap tab) in (i, tab\<lparr>fwt_bimap := t\<rparr>))"

definition fw_find_tuple :: "state_id \<Rightarrow> 'w fw_table \<Rightarrow> 'w fw_element res" where
  "fw_find_tuple i tab = (case vec_get (id_to_tuple (fwt_bimap tab)) i of
     Some elt \<Rightarrow> Inr elt | None \<Rightarrow> Inl (Panic ''called Option::unwrap() on a None value''))"

subsection \<open>The operation\<close>

type_synonym factor_weight_type = "32 word"

definition FACTOR_FINAL_WEIGHTS :: factor_weight_type where "FACTOR_FINAL_WEIGHTS = 0b01"

definition FACTOR_ARC_WEIGHTS :: factor_weight_type where "FACTOR_ARC_WEIGHTS = 0b10"

record fw_options =
  fw_mode :: factor_weight_type
  fw_final_ilabel :: label
  fw_final_olabel :: label
  fw_increment_final_ilabel :: bool
  fw_increment_final_olabel :: bool

definition factor_trs :: "fw_options \<Rightarrow> bool" where
  "factor_trs opts \<longleftrightarrow> fw_mode opts AND FACTOR_ARC_WEIGHTS \<noteq> 0"

definition factor_finals :: "fw_options \<Rightarrow> bool" where
  "factor_finals opts \<longleftrightarrow> fw_mode opts AND FACTOR_FINAL_WEIGHTS \<noteq> 0"

text \<open>One factor: a transition to the residual, whose state may be new.\<close>

definition fw_emit ::
  "'w semiring \<Rightarrow> fw_options \<Rightarrow> label \<Rightarrow> label \<Rightarrow> 'w \<Rightarrow> 'w fw_element \<Rightarrow> 'w fw_table \<times> 'w tr list \<Rightarrow> 'w fw_table \<times> 'w tr list" where
  "fw_emit W opts il ol w elt = (\<lambda>(tab, ts).
     let (dest, tab) = fw_find_state W (factor_trs opts) elt tab in (tab, ts @ [tr_new il ol w dest]))"

definition fw_tr ::
  "'w semiring \<Rightarrow> ('w \<Rightarrow> 'w res) \<Rightarrow> 'w factor_iterator \<Rightarrow> fw_options \<Rightarrow> 'w \<Rightarrow> 'w tr \<Rightarrow> 'w fw_table \<times> 'w tr list \<Rightarrow>
   ('w fw_table \<times> 'w tr list) res" where
  "fw_tr W quantize FI opts residual t st =
     rbind (runwrap (times_w W residual (weight t))) (\<lambda>w.
       if \<not> factor_trs opts \<or> fi_done FI w
       then Inr (fw_emit W opts (ilabel t) (olabel t) w \<lparr>el_state = Some (nextstate t), el_weight = one_w W\<rparr> st)
       else for_res (\<lambda>(p_f, p_s) st. rbind (quantize p_s) (\<lambda>q.
              Inr (fw_emit W opts (ilabel t) (olabel t) p_f \<lparr>el_state = Some (nextstate t), el_weight = q\<rparr> st)))
            (fi_items FI w) st)"

definition fw_finals ::
  "'w semiring \<Rightarrow> ('w \<Rightarrow> 'w res) \<Rightarrow> 'w factor_iterator \<Rightarrow> fw_options \<Rightarrow> 'w \<Rightarrow> 'w fw_table \<times> 'w tr list \<Rightarrow>
   ('w fw_table \<times> 'w tr list) res" where
  "fw_finals W quantize FI opts w st =
     rbind (for_res (\<lambda>(p_f, p_s) (il, ol, st). rbind (quantize p_s) (\<lambda>q.
         Inr (if fw_increment_final_ilabel opts then il + 1 else il,
              if fw_increment_final_olabel opts then ol + 1 else ol,
              fw_emit W opts il ol p_f \<lparr>el_state = None, el_weight = q\<rparr> st)))
       (fi_items FI w) (fw_final_ilabel opts, fw_final_olabel opts, st)) (\<lambda>(_, _, st). Inr st)"

text \<open>The residual times the final weight, or the residual itself at a state without original.\<close>

definition fw_weight :: "'w semiring \<Rightarrow> 'w vfst \<Rightarrow> 'w \<Rightarrow> 'w fw_element \<Rightarrow> 'w res" where
  "fw_weight W F missing elt = (case el_state elt of
     None \<Rightarrow> Inr (el_weight elt)
   | Some s \<Rightarrow> rbind (final_weight_of F s) (\<lambda>fw.
       runwrap (times_w W (el_weight elt) (case fw of Some v \<Rightarrow> v | None \<Rightarrow> missing))))"

definition fw_compute_start :: "'w semiring \<Rightarrow> fw_options \<Rightarrow> 'w vfst \<Rightarrow> 'w fw_table \<Rightarrow> (state_id option \<times> 'w fw_table) res" where
  "fw_compute_start W opts F tab = (case start_state F of
     None \<Rightarrow> Inr (None, tab)
   | Some s \<Rightarrow> let (i, tab) = fw_find_state W (factor_trs opts) \<lparr>el_state = Some s, el_weight = one_w W\<rparr> tab in Inr (Some i, tab))"

definition fw_compute_trs ::
  "'w semiring \<Rightarrow> ('w \<Rightarrow> 'w res) \<Rightarrow> 'w factor_iterator \<Rightarrow> fw_options \<Rightarrow> 'w vfst \<Rightarrow> state_id \<Rightarrow> 'w fw_table \<Rightarrow>
   ('w tr list \<times> 'w fw_table) res" where
  "fw_compute_trs W quantize FI opts F i tab =
     rbind (fw_find_tuple i tab) (\<lambda>elt.
       rbind (case el_state elt of
                None \<Rightarrow> Inr (tab, [])
              | Some s \<Rightarrow> rbind (get_trs F s) (\<lambda>ts. for_res (fw_tr W quantize FI opts (el_weight elt)) ts (tab, []))) (\<lambda>st.
         rbind (if factor_finals opts
                then (case el_state elt of None \<Rightarrow> Inr True | Some s \<Rightarrow> is_final_res F s) else Inr False) (\<lambda>go.
           rbind (if go then rbind (fw_weight W F (one_w W) elt) (\<lambda>w. fw_finals W quantize FI opts w st) else Inr st) (\<lambda>(tab, ts).
             Inr (ts, tab)))))"

definition fw_compute_final ::
  "'w semiring \<Rightarrow> 'w factor_iterator \<Rightarrow> fw_options \<Rightarrow> 'w vfst \<Rightarrow> state_id \<Rightarrow> 'w fw_table \<Rightarrow> ('w option \<times> 'w fw_table) res" where
  "fw_compute_final W FI opts F i tab =
     rbind (fw_find_tuple i tab) (\<lambda>elt. rbind (fw_weight W F (zero_w W) elt) (\<lambda>w.
       Inr (if \<not> is_zero W w \<and> (\<not> factor_finals opts \<or> fi_done FI w) then Some w else None, tab)))"

definition factor_weight_op ::
  "'w semiring \<Rightarrow> ('w \<Rightarrow> 'w res) \<Rightarrow> 'w factor_iterator \<Rightarrow> fw_options \<Rightarrow> 'w vfst \<Rightarrow> ('w, 'w fw_table) fst_op" where
  "factor_weight_op W quantize FI opts F = \<lparr>
     op_compute_start = fw_compute_start W opts F,
     op_compute_trs = fw_compute_trs W quantize FI opts F,
     op_compute_final_weight = fw_compute_final W FI opts F,
     op_properties = factor_weight_properties (properties F)\<rparr>"

definition factor_weight ::
  "'w semiring \<Rightarrow> ('w \<Rightarrow> 'w res) \<Rightarrow> 'w factor_iterator \<Rightarrow> fw_options \<Rightarrow> 'w vfst \<Rightarrow> 'w vfst res option" where
  "factor_weight W quantize FI opts F =
     (if fw_mode opts = 0 then Some (Inl (Bail ''Factoring neither tr weights nor final weights''))
      else lazy_compute W (factor_weight_op W quantize FI opts F) map_cache
             (from_op_and_cache fw_table_new map_cache_new (isymt F) (osymt F)))"

subsection \<open>The contract of the iterators\<close>

text \<open>
  The trait's comment: the sum of the products of the pairs is the weight. For the strings and the
  pairs there is one product; for the unions each piece multiplies back to its term.
\<close>

lemma string_factor_product:
  "\<not> fi_done string_factor w \<Longrightarrow> \<exists>p q. fi_items string_factor w = [(p, q)] \<and> string_times p q = w"
  by (cases w) (auto simp: string_factor_def neq_Nil_conv)

lemma string_factor_done: "fi_done string_factor w \<longleftrightarrow> fi_items string_factor w = []"
  by (cases w) (auto simp: string_factor_def)

context weight_monoids
begin

lemma gallic_factor_product:
  assumes "\<not> fi_done (gallic_factor W) w"
  shows "\<exists>p q. fi_items (gallic_factor W) w = [(p, q)] \<and> times_w (gallic_weight StringRestrict W) p q = Inr w"
proof -
  obtain l where l: "fst w = Labels l" "length l > 1"
    using assms by (auto simp: gallic_factor_def Let_def split: string_variant.splits)
  then obtain x xs where "l = x # xs" by (cases l) auto
  with l have "fi_items (gallic_factor W) w = [((Labels [x], snd w), (Labels xs, one_w W))]"
    by (simp add: gallic_factor_def string_factor_def)
  moreover have "times_w (gallic_weight StringRestrict W) (Labels [x], snd w) (Labels xs, one_w W) = Inr w"
    using l \<open>l = x # xs\<close>
    by (cases w) (simp add: gallic_weight_def product_weight_def string_weight_def times_ok mul_one_right)
  ultimately show ?thesis by blast
qed

lemma gallic_union_piece_product:
  assumes "finite_pair w"
  shows "case gallic_union_piece W w of (p, q) \<Rightarrow>
    union_times (gallic_weight StringRestrict W) (gallic_option W) p q = Inr [w]"
proof -
  obtain l v where w: "w = (Labels l, v)" using assms by (metis finite_pair_key prod.collapse)
  show ?thesis
    by (cases l) (simp_all add: w gallic_union_piece_def string_factor_def union_times_def union_row_def union_plus_def
        gallic_weight_def product_weight_def string_weight_def times_ok mul_one_right union_push_back_def)
qed

end

subsection \<open>The table names elements\<close>

text \<open>
  An element of weight one with an original state is found through \<open>unfactored\<close>, unless transitions
  are factored; the two maps agree, so an insertion always adds a fresh pair.
\<close>

definition fw_table_ok :: "'w semiring \<Rightarrow> bool \<Rightarrow> 'w fw_table \<Rightarrow> bool" where
  "fw_table_ok W factor tab \<longleftrightarrow> bi_map_ok (fwt_bimap tab) \<and>
     (\<not> factor \<longrightarrow> (\<forall>s i. fwt_unfactored tab s = Some i \<longleftrightarrow>
       tuple_to_id (fwt_bimap tab) \<lparr>el_state = Some s, el_weight = one_w W\<rparr> = Some i))"

lemma fw_table_new_ok: "fw_table_ok W factor fw_table_new"
  by (simp add: fw_table_ok_def fw_table_new_def bi_map_new_ok) (simp add: bi_map_new_def)

lemma bimap_insert_is_table_insert:
  "tuple_to_id t k = None \<Longrightarrow> table_id_or_insert k t = (length (id_to_tuple t), bimap_insert k t)"
  by (simp add: table_id_or_insert_def bimap_insert_def Let_def)

lemma find_id_or_insert_bimap_eq: "find_id_or_insert_bimap k t = table_id_or_insert k t"
  by (auto simp: find_id_or_insert_bimap_def table_id_or_insert_def bimap_insert_def Let_def split: option.splits)

context weight_monoids
begin

lemma fw_find_state_interns:
  assumes t: "fw_table_ok W factor tab"
  shows "fw_find_state W factor elt tab =
    (let (i, m) = table_id_or_insert elt (fwt_bimap tab);
         u = (if \<not> factor \<and> el_weight elt = one_w W \<and> el_state elt \<noteq> None
              then (fwt_unfactored tab)(the (el_state elt) := Some i) else fwt_unfactored tab)
     in (i, tab\<lparr>fwt_bimap := m, fwt_unfactored := u\<rparr>))"
proof (cases "\<not> factor \<and> el_weight elt = one_w W \<and> el_state elt \<noteq> None")
  case True
  then obtain s where s: "el_state elt = Some s" and e: "elt = \<lparr>el_state = Some s, el_weight = one_w W\<rparr>" by (cases elt) auto
  have u: "fwt_unfactored tab s = tuple_to_id (fwt_bimap tab) elt"
    using t True unfolding fw_table_ok_def e by (cases "fwt_unfactored tab s") (auto, metis option.exhaust)
  show ?thesis
  proof (cases "tuple_to_id (fwt_bimap tab) elt")
    case None
    with True s u show ?thesis
      by (simp add: fw_find_state_def is_one_iff bimap_insert_is_table_insert Let_def)
  next
    case (Some i)
    then have "(fwt_unfactored tab)(s := Some i) = fwt_unfactored tab" using u by (simp add: fun_upd_idem)
    with Some True s u show ?thesis
      by (simp add: fw_find_state_def is_one_iff table_id_or_insert_def)
  qed
next
  case False
  then have "(if \<not> factor \<and> is_one W (el_weight elt) then el_state elt else None) = None" by (auto simp: is_one_iff)
  with False show ?thesis
    by (auto simp: fw_find_state_def find_id_or_insert_bimap_eq Let_def split: prod.splits)
qed

lemma fw_find_state_ok:
  assumes t: "fw_table_ok W factor tab" and f: "fw_find_state W factor elt tab = (i, tab')"
  shows "fw_table_ok W factor tab'" "i < length (id_to_tuple (fwt_bimap tab'))" "id_to_tuple (fwt_bimap tab') ! i = elt"
proof -
  obtain j m where g: "table_id_or_insert elt (fwt_bimap tab) = (j, m)" by fastforce
  have b: "bi_map_ok (fwt_bimap tab)" using t by (simp add: fw_table_ok_def)
  note m = table_id_or_insert [OF b g]
  have lookup: "tuple_to_id m k = (if k = elt then Some j else tuple_to_id (fwt_bimap tab) k)" for k
    using g by (auto simp: table_id_or_insert_def Let_def split: option.splits)
  have tab': "i = j" "fwt_bimap tab' = m" "fwt_unfactored tab' = (if \<not> factor \<and> el_weight elt = one_w W \<and> el_state elt \<noteq> None
      then (fwt_unfactored tab)(the (el_state elt) := Some j) else fwt_unfactored tab)"
    using f unfolding fw_find_state_interns [OF t] g by auto
  have "fwt_unfactored tab' s = Some k \<longleftrightarrow> tuple_to_id m \<lparr>el_state = Some s, el_weight = one_w W\<rparr> = Some k" if "\<not> factor" for s k
  proof (cases "elt = \<lparr>el_state = Some s, el_weight = one_w W\<rparr>")
    case True
    with that show ?thesis by (simp add: tab' lookup)
  next
    case False
    then have "\<not> (el_weight elt = one_w W \<and> el_state elt = Some s)" by (cases elt) auto
    moreover have "fwt_unfactored tab s = Some k \<longleftrightarrow> tuple_to_id (fwt_bimap tab) \<lparr>el_state = Some s, el_weight = one_w W\<rparr> = Some k"
      using t that by (simp add: fw_table_ok_def)
    ultimately show ?thesis using False that by (auto simp: tab' lookup)
  qed
  with m(1) show "fw_table_ok W factor tab'" by (simp add: fw_table_ok_def tab'(2))
  show "i < length (id_to_tuple (fwt_bimap tab'))" "id_to_tuple (fwt_bimap tab') ! i = elt"
    using m(2,3) by (simp_all add: tab')
qed

end

end
