(* ===== verification/Determinize_Fst.thy ===== *)
theory Determinize_Fst
  imports Factor_Weight Compose_Op
begin

text \<open>
  Determinization of transducers (\<open>determinize_fst\<close> in \<open>algorithms/determinize/determinize_static.rs\<close>):
  the output labels move into Gallic weights, the acceptor obtained is determinized, its final weights
  are factored into transitions, and the labels move back; with the divisors of the Gallic weights
  (\<open>determinize/divisors.rs\<close>) and the public function that chooses between acceptors and transducers.
\<close>

subsection \<open>Divisors of Gallic weights\<close>

definition gallic_pair_divisor :: "'w semiring \<Rightarrow> 'w gallic \<Rightarrow> 'w gallic \<Rightarrow> 'w gallic res" where
  "gallic_pair_divisor W w1 w2 =
     rbind (cd_common_divisor label_common_divisor (fst w1) (fst w2)) (\<lambda>v1.
       rbind (cd_common_divisor (default_common_divisor W) (snd w1) (snd w2)) (\<lambda>v2. Inr (v1, v2)))"

definition gallic_common_divisor :: "'w semiring \<Rightarrow> 'w gallic common_divisor" where
  "gallic_common_divisor W = \<lparr>cd_merge_before_divisor = False, cd_common_divisor = gallic_pair_divisor W\<rparr>"

definition gallic_union_common_divisor :: "'w semiring \<Rightarrow> 'w gallic list common_divisor" where
  "gallic_union_common_divisor W = \<lparr>
     cd_merge_before_divisor = False,
     cd_common_divisor = (\<lambda>w1 w2.
       rbind (for_res (\<lambda>w acc. gallic_pair_divisor W acc w) (w1 @ w2) (zero_w (gallic_weight StringRestrict W))) (\<lambda>d.
         if is_zero (gallic_weight StringRestrict W) d then Inr [] else Inr [d]))\<rparr>"

subsection \<open>Transducers\<close>

definition det_factor_opts :: fw_options where
  "det_factor_opts = \<lparr>fw_mode = FACTOR_FINAL_WEIGHTS, fw_final_ilabel = EPS_LABEL, fw_final_olabel = EPS_LABEL,
     fw_increment_final_ilabel = False, fw_increment_final_olabel = False\<rparr>"

text \<open>
  The three branches differ in the Gallic weight \<open>G\<close>, its division, divisor, factor iterator and
  conversions. \<open>quantize\<close> rounds at \<open>KDELTA\<close>, the division's quantization at \<open>config.delta\<close>.
\<close>

definition determinize_gallic ::
  "'w semiring \<Rightarrow> 'g semiring \<Rightarrow> 'g division \<Rightarrow> 'g common_divisor \<Rightarrow> ('g \<Rightarrow> 'g res) \<Rightarrow> 'g factor_iterator \<Rightarrow>
   ('w gallic \<Rightarrow> 'g) \<Rightarrow> ('g \<Rightarrow> ('w \<times> label) res) \<Rightarrow> 'w vfst \<Rightarrow> determinize_config \<Rightarrow> 'w vfst res option" where
  "determinize_gallic W G D CD quantize FI pack extract fst_in cfg =
     bind_run (Some (weight_convert G (to_gallic_converter W pack) fst_in)) (\<lambda>fsa.
     bind_run (determinize_fsa G D CD fsa (dc_max_states cfg) (dc_max_subset_elements cfg) (dc_max_trs cfg)) (\<lambda>determinized_fsa.
     bind_run (factor_weight G quantize FI det_factor_opts determinized_fsa) (\<lambda>factored_determinized_fsa.
     Some (weight_convert W (from_gallic_converter extract EPS_LABEL) factored_determinized_fsa))))"

definition determinize_fst ::
  "'w semiring \<Rightarrow> 'w division \<Rightarrow> ('w \<Rightarrow> 'w res) \<Rightarrow> 'w vfst \<Rightarrow> determinize_config \<Rightarrow> 'w vfst res option" where
  "determinize_fst W D kquantize fst_in cfg = (case dc_det_type cfg of
     DeterminizeDisambiguate \<Rightarrow>
       if \<not> declares W PATH
       then Some (Inl (Bail ''determinize : weight needs to have the path property to disambiguate output''))
       else determinize_gallic W (gallic_min_weight W) (gallic_division StringRestrict D) (gallic_common_divisor W)
              (gallic_quantize kquantize) (gallic_factor W) (\<lambda>p. p) extract_pair fst_in cfg
   | DeterminizeFunctional \<Rightarrow>
       determinize_gallic W (gallic_weight StringRestrict W) (gallic_division StringRestrict D) (gallic_common_divisor W)
         (gallic_quantize kquantize) (gallic_factor W) (\<lambda>p. p) extract_pair fst_in cfg
   | DeterminizeNonFunctional \<Rightarrow>
       determinize_gallic W (gallic_union_weight W) (gallic_union_division W D) (gallic_union_common_divisor W)
         (union_quantize (gallic_quantize kquantize) (gallic_option W)) (gallic_union_factor W)
         (\<lambda>p. [p]) (extract_gallic W) fst_in cfg)"

definition determinize_with_config ::
  "'w semiring \<Rightarrow> 'w division \<Rightarrow> ('w \<Rightarrow> 'w res) \<Rightarrow> 'w vfst \<Rightarrow> determinize_config \<Rightarrow> 'w vfst res option" where
  "determinize_with_config W D kquantize F cfg = determinize_dispatch W D (determinize_fst W D kquantize) F cfg"

definition determinize_config_default :: determinize_config where
  "determinize_config_default = \<lparr>dc_det_type = DeterminizeFunctional, dc_max_states = None,
     dc_max_subset_elements = None, dc_max_trs = None\<rparr>"

definition determinize :: "'w semiring \<Rightarrow> 'w division \<Rightarrow> ('w \<Rightarrow> 'w res) \<Rightarrow> 'w vfst \<Rightarrow> 'w vfst res option" where
  "determinize W D kquantize F = determinize_with_config W D kquantize F determinize_config_default"

subsection \<open>The Gallic transducer is an acceptor\<close>

lemma acceptor_bit_kept:
  "bit (add_state_properties p) 16 \<longleftrightarrow> bit p 16"
  "bit (set_start_properties p) 16 \<longleftrightarrow> bit p 16"
  "bit (set_final_properties W p a b) 16 \<longleftrightarrow> bit p 16"
  "bit fp_null_properties 16"
  by (auto simp: add_state_properties_def set_start_properties_def set_final_properties_def Let_def bit_and_iff bit_or_iff
      bit_fp_not flag_bits mask_nums split: option.splits)

lemma begin_acceptor: "bit (properties (fold (\<lambda>_ G. fst (add_state G)) [0..<n] vfst_new)) 16"
  by (induction n) (simp_all add: vfst_new_def add_state_def acceptor_bit_kept)

lemma add_tr_acceptor:
  "add_tr W G s t = Inr H \<Longrightarrow> ilabel t = olabel t \<Longrightarrow> bit (properties G) 16 \<Longrightarrow> bit (properties H) 16"
  by (auto simp: add_tr_def add_tr_unchecked_eq add_tr_properties_bits no_state_def split: if_splits)

lemma convert_trs_acceptor:
  assumes "convert_trs W cv s ts G = Inr H" "bit (properties G) 16"
    and "\<And>t u. wc_tr cv t = Inr u \<Longrightarrow> ilabel u = olabel u"
  shows "bit (properties H) 16"
  using assms(1,2) unfolding convert_trs_def
  by (rule for_res_inv) (auto simp: rbind_eq_Inr intro: add_tr_acceptor assms(3))

lemma to_gallic_acceptor:
  assumes "weight_convert U (to_gallic_converter W pack) F = Inr G" "start_state F \<noteq> None"
  shows "contains (properties G) ACCEPTOR"
proof -
  let ?cv = "to_gallic_converter W pack"
  obtain s where s: "start_state F = Some s" using assms(2) by auto
  let ?B = "fold (\<lambda>_ G. fst (add_state G)) [0..<num_states F] vfst_new"
  have b: "convert_begin U ?cv (num_states F) = Inr (?B, None)"
    by (simp add: convert_begin_def to_gallic_converter_def)
  have labels: "ilabel u = olabel u" if "wc_tr ?cv t = Inr u" for t u
    using that by (auto simp: to_gallic_converter_def split: if_splits)
  obtain G0 H sf where run: "set_start ?B s = Inr G0" "for_res (convert_state U ?cv F) [0..<num_states F] (G0, None) = Inr (H, sf)"
    and G: "properties G = (properties H AND fp_not all_properties) OR
      ((wc_properties ?cv (properties F) OR properties H) AND all_properties)"
    using assms(1) unfolding weight_convert_def s
    by (auto simp: b rbind_eq_Inr set_properties_with_mask_def set_symts_from_fst_def set_input_symbols_def
        set_output_symbols_def take_input_symbols_def take_output_symbols_def Let_def split: option.splits)
  have "bit (properties G0) 16"
    using run(1) begin_acceptor [of "num_states F"]
    by (auto simp: set_start_def set_start_unchecked_def acceptor_bit_kept no_state_def split: if_splits)
  moreover have "bit (properties (fst q)) 16"
    if "convert_state U ?cv F k p = Inr q" "bit (properties (fst p)) 16" for k p q
  proof -
    obtain G1 sf1 where p: "p = (G1, sf1)" by (cases p)
    from that(1) obtain G2 where c: "convert_trs U ?cv k (trs (state_of F k)) G1 = Inr G2"
        and f: "convert_final U ?cv k (final_weight (state_of F k)) (G2, sf1) = Inr q"
      by (auto simp: p convert_state_def get_trs_def no_state_def rbind_eq_Inr split: if_splits)
    have "bit (properties G2) 16" using convert_trs_acceptor [OF c] that(2) labels by (simp add: p)
    with f show ?thesis
      by (auto simp: convert_final_def to_gallic_converter_def rbind_eq_Inr set_final_def set_final_unchecked_def
          with_state_def Let_def acceptor_bit_kept no_state_def split: option.splits if_splits)
  qed
  ultimately have "bit (properties (fst (H, sf))) 16"
    using for_res_inv [OF run(2), of "\<lambda>p. bit (properties (fst p)) 16"] by simp
  then show ?thesis by (simp add: G bit_or_iff bit_and_iff bit_fp_not flag_bits)
qed

subsection \<open>Errors\<close>

lemma disambiguate_needs_path:
  "dc_det_type cfg = DeterminizeDisambiguate \<Longrightarrow> \<not> declares W PATH \<Longrightarrow> \<exists>e. determinize_fst W D q F cfg = Some (Inl e)"
  by (simp add: determinize_fst_def)

end
