(* ===== verification/Union.thy ===== *)
theory Union
  imports Concat_Sound Compute_Properties
begin

text \<open>
  Union (\<open>algorithms/union/union_static.rs\<close>): the second transducer is appended to the first and both
  starts become reachable by epsilon transitions, from the first start where no cycle runs through it
  and from a new start otherwise. The result relates what either operand relates, and every flag that
  \<open>union_properties\<close> claims holds of it.
\<close>

subsection \<open>The algorithm\<close>

definition union_link :: "'w semiring \<Rightarrow> bool \<Rightarrow> state_id \<Rightarrow> state_id \<Rightarrow> 'w vfst \<Rightarrow> 'w vfst" where
  "union_link W initial_acyclic1 start1 to2 F =
     (if initial_acyclic1
      then add_tr_unchecked W F start1 (tr_new EPS_LABEL EPS_LABEL (one_w W) to2)
      else let (F, nstart1) = add_state F;
               F = set_start_unchecked F nstart1;
               F = add_tr_unchecked W F nstart1 (tr_new EPS_LABEL EPS_LABEL (one_w W) start1)
           in add_tr_unchecked W F nstart1 (tr_new EPS_LABEL EPS_LABEL (one_w W) to2))"

definition fst_union :: "'w semiring \<Rightarrow> 'w vfst \<Rightarrow> 'w vfst \<Rightarrow> 'w vfst res" where
  "fst_union W F1 F2 =
     rbind (compute_and_update_properties W F1 INITIAL_ACYCLIC) (\<lambda>(F1, p).
       let initial_acyclic1 = contains p INITIAL_ACYCLIC;
           props1 = properties F1; props2 = properties F2; numstates1 = num_states F1
       in case start_state F2 of
            None \<Rightarrow> Inr F1
          | Some start2 \<Rightarrow>
              let F = append_fst W F1 F2
              in (case start_state F of
                   None \<Rightarrow> Inr (set_properties_with_mask (set_start_unchecked F start2) props2 fp_copy_properties)
                 | Some start1 \<Rightarrow> Inr (set_properties_with_mask
                     (union_link W initial_acyclic1 start1 (start2 + numstates1) F)
                     (union_properties props1 props2 False) all_properties)))"

subsection \<open>The shape of the result\<close>

text \<open>\<open>c\<close> says that the first start is kept.\<close>

definition joined :: "'w semiring \<Rightarrow> bool \<Rightarrow> state_id \<Rightarrow> state_id \<Rightarrow> 'w vfst \<Rightarrow> 'w vfst \<Rightarrow> 'w vfst" where
  "joined W c i1 i2 F1 F2 = union_link W c i1 (i2 + num_states F1) (append_fst W F1 F2)"

lemma joined_spec:
  fixes F1 F2 :: "'w vfst" and W :: "'w semiring" and c :: bool and i1 i2 :: state_id
  assumes i: "start_state F1 = Some i1" "i1 < num_states F1"
  defines "n \<equiv> num_states F1" and "m \<equiv> num_states F2" and "G \<equiv> joined W c i1 i2 F1 F2"
  shows "num_states G = (if c then n + m else Suc (n + m))" "start_state G = Some (if c then i1 else n + m)"
    "k < n \<Longrightarrow> final_weight (state_of G k) = final_weight (state_of F1 k)"
    "k < n \<Longrightarrow> trs (state_of G k) = trs (state_of F1 k) @ (if c \<and> k = i1 then [eps_tr (one_w W) (i2 + n)] else [])"
    "k < m \<Longrightarrow> final_weight (state_of G (k + n)) = final_weight (state_of F2 k) \<and>
       trs (state_of G (k + n)) = map (shift_tr n) (trs (state_of F2 k))"
    "\<not> c \<Longrightarrow> final_weight (state_of G (n + m)) = None \<and>
       trs (state_of G (n + m)) = [eps_tr (one_w W) i1, eps_tr (one_w W) (i2 + n)]"
    "bits_ok W F1 \<Longrightarrow> bits_ok W G"
proof -
  let ?A = "append_fst W F1 F2"
  note a = append_fst_spec [where ?F1.0 = F1 and ?F2.0 = F2 and W = W, folded n_def m_def]
  have e: "tr_new EPS_LABEL EPS_LABEL w s = eps_tr w s" for w :: 'w and s by (simp add: eps_tr_def)
  have j: "i1 < n" "k < n \<Longrightarrow> k < n + m" "k < m \<Longrightarrow> k + n < n + m" for k using i by (simp_all add: n_def)
  have j': "i1 < n + m" "i1 < Suc (n + m)" "i1 \<noteq> n + m" "k + n \<noteq> i1" for k using j(1) by simp_all
  have new: "final_weight (state_of (fst (add_state ?A)) (n + m)) = None" "trs (state_of (fst (add_state ?A)) (n + m)) = []"
    using shape by (simp_all add: a(1) [symmetric] shape)
  have G: "G = (if c then add_tr_unchecked W ?A i1 (eps_tr (one_w W) (i2 + n))
      else add_tr_unchecked W (add_tr_unchecked W (set_start_unchecked (fst (add_state ?A)) (n + m)) (n + m) (eps_tr (one_w W) i1))
        (n + m) (eps_tr (one_w W) (i2 + n)))"
    by (simp add: G_def joined_def union_link_def e Let_def case_prod_unfold shape n_def [symmetric] m_def [symmetric] a(1))
  note facts = G shape a(1,2) j i new n_def [symmetric]
  show "num_states G = (if c then n + m else Suc (n + m))" by (simp add: facts)
  show "start_state G = Some (if c then i1 else n + m)" by (simp add: facts)
  show "k < n \<Longrightarrow> final_weight (state_of G k) = final_weight (state_of F1 k)" using a(3) [of k] j(2) [of k] by (simp add: facts)
  show "k < n \<Longrightarrow> trs (state_of G k) = trs (state_of F1 k) @ (if c \<and> k = i1 then [eps_tr (one_w W) (i2 + n)] else [])"
    using a(3) [of k] j(2) [of k] by (cases "k = i1") (simp_all add: facts j')
  show "k < m \<Longrightarrow> final_weight (state_of G (k + n)) = final_weight (state_of F2 k) \<and>
       trs (state_of G (k + n)) = map (shift_tr n) (trs (state_of F2 k))" using a(4) [of k] j(3) [of k] by (simp add: facts j')
  show "\<not> c \<Longrightarrow> final_weight (state_of G (n + m)) = None \<and>
       trs (state_of G (n + m)) = [eps_tr (one_w W) i1, eps_tr (one_w W) (i2 + n)]" by (simp add: facts)
  show "bits_ok W F1 \<Longrightarrow> bits_ok W G" using a(5) by (simp add: facts bits_ok_intros)
qed

text \<open>Transitions, final states and edges, each split by the three parts.\<close>

lemma joined_parts:
  fixes F1 F2 :: "'w vfst" and W :: "'w semiring" and c :: bool and i1 i2 :: state_id
  assumes t: "targets_ok F1" "targets_ok F2" and i: "start_state F1 = Some i1" "start_state F2 = Some i2"
  defines "n \<equiv> num_states F1" and "m \<equiv> num_states F2" and "G \<equiv> joined W c i1 i2 F1 F2"
  shows "shifted_in n F2 G" "extends F1 G" "targets_ok G"
    "(s, u) \<in> arcs G \<longleftrightarrow> (s, u) \<in> arcs F1 \<or> (\<exists>k v. s = k + n \<and> (k, v) \<in> arcs F2 \<and> u = shift_tr n v) \<or>
       c \<and> s = i1 \<and> u = eps_tr (one_w W) (i2 + n) \<or>
       \<not> c \<and> s = n + m \<and> (u = eps_tr (one_w W) i1 \<or> u = eps_tr (one_w W) (i2 + n))"
    "final_at G s w \<longleftrightarrow> final_at F1 s w \<or> (\<exists>k. s = k + n \<and> final_at F2 k w)"
    "(a, b) \<in> edges G \<longleftrightarrow> (a, b) \<in> edges F1 \<or> (\<exists>k j. a = k + n \<and> b = j + n \<and> (k, j) \<in> edges F2) \<or>
       c \<and> a = i1 \<and> b = i2 + n \<or> \<not> c \<and> a = n + m \<and> (b = i1 \<or> b = i2 + n)"
proof -
  have i1: "i1 < num_states F1" and i2: "i2 < m" using t i by (auto simp: targets_iff m_def)
  have j1: "i1 < n" using i1 by (simp add: n_def)
  note spec = joined_spec [OF i(1) i1, where W = W and c = c and ?i2.0 = i2 and ?F2.0 = F2, folded n_def m_def G_def]
  show sh: "shifted_in n F2 G" by (simp add: shifted_in_def spec m_def [symmetric])
  show ex: "extends F1 G" by (auto simp: extends_def spec n_def [symmetric])
  have split: "s < n \<or> (\<exists>k < m. s = k + n) \<or> \<not> c \<and> s = n + m" if "s < num_states G" for s
    using that by (cases "s < n"; cases "s < n + m")
      (auto simp: spec(1) less_Suc_eq split: if_splits intro!: exI [of _ "s - n"])
  have d1: "(s, u) \<in> arcs F1 \<Longrightarrow> s < n" "final_at F1 s w \<Longrightarrow> s < n" for s u w
    by (simp_all add: arcs_def final_at_def n_def)
  have d2: "(k, v) \<in> arcs F2 \<Longrightarrow> k < m" "final_at F2 k w \<Longrightarrow> k < m" for k v w
    by (simp_all add: arcs_def final_at_def m_def)
  show arc: "(s, u) \<in> arcs G \<longleftrightarrow> (s, u) \<in> arcs F1 \<or> (\<exists>k v. s = k + n \<and> (k, v) \<in> arcs F2 \<and> u = shift_tr n v) \<or>
       c \<and> s = i1 \<and> u = eps_tr (one_w W) (i2 + n) \<or>
       \<not> c \<and> s = n + m \<and> (u = eps_tr (one_w W) i1 \<or> u = eps_tr (one_w W) (i2 + n))" (is "_ \<longleftrightarrow> ?R") for s u
  proof
    assume g: "(s, u) \<in> arcs G"
    then have "s < num_states G" by (simp add: arcs_def)
    from split [OF this] show ?R
    proof (elim disjE exE conjE)
      assume "s < n"
      with g show ?R by (auto simp: arcs_def spec(4) n_def [symmetric] split: if_splits)
    next
      fix k
      assume k: "k < m" "s = k + n"
      with g have "u \<in> shift_tr n ` set (trs (state_of F2 k))" by (simp add: arcs_def spec(5))
      with k show ?R by (auto simp: arcs_def m_def)
    next
      assume "\<not> c" "s = n + m"
      with g show ?R by (simp add: arcs_def spec(6))
    qed
  next
    assume ?R
    then show "(s, u) \<in> arcs G"
    proof (elim disjE exE conjE)
      assume "(s, u) \<in> arcs F1"
      with extends_arcs [OF ex] show ?thesis by blast
    next
      fix k v
      assume "s = k + n" "(k, v) \<in> arcs F2" "u = shift_tr n v"
      with shifted_arcs(1) [OF sh] show ?thesis by blast
    qed (use j1 in \<open>simp_all add: arcs_def spec(1,4,6)\<close>)
  qed
  show "final_at G s w \<longleftrightarrow> final_at F1 s w \<or> (\<exists>k. s = k + n \<and> final_at F2 k w)"
  proof (cases "s < n")
    case True
    then show ?thesis by (auto simp: final_at_def spec(1,3) n_def [symmetric])
  next
    case False
    then have "\<not> final_at F1 s w" by (simp add: final_at_def n_def)
    moreover have "final_at G s w \<longleftrightarrow> (\<exists>k. s = k + n \<and> final_at F2 k w)"
    proof (cases "s < n + m")
      case True
      with False obtain k where "s = k + n" "k < m" by (metis add.commute le_Suc_ex nat_add_left_cancel_less not_less)
      then show ?thesis using shifted_arc(2) [OF sh] by (simp add: m_def)
    next
      case F: False
      have "\<not> final_at G s w"
      proof
        assume g: "final_at G s w"
        with split [of s] F have "\<not> c" "s = n + m" by (auto simp: final_at_def)
        with g spec(6) show False by (simp add: final_at_def)
      qed
      with F d2(2) show ?thesis by auto
    qed
    ultimately show ?thesis by simp
  qed
  show "(a, b) \<in> edges G \<longleftrightarrow> (a, b) \<in> edges F1 \<or> (\<exists>k j. a = k + n \<and> b = j + n \<and> (k, j) \<in> edges F2) \<or>
       c \<and> a = i1 \<and> b = i2 + n \<or> \<not> c \<and> a = n + m \<and> (b = i1 \<or> b = i2 + n)"
    unfolding edges_iff arc by (fastforce simp: eps_tr_simps(4))
  have "nextstate u < num_states G" if "(s, u) \<in> arcs G" for s u
    using that t j1 i2 unfolding arc targets_iff
    by (auto simp: spec(1) n_def [symmetric] m_def [symmetric] trans_less_add1 less_SucI)
  then show "targets_ok G"
    using j1 by (simp add: targets_iff spec(1,2))
qed


subsection \<open>The bits of a union\<close>

lemma joined_sem:
  fixes F1 F2 :: "'w vfst" and W :: "'w semiring" and c :: bool and i1 i2 :: state_id
  assumes t: "targets_ok F1" "targets_ok F2" and i: "start_state F1 = Some i1" "start_state F2 = Some i2"
    and one: "\<not> nontrivial W (one_w W)" and ci: "c \<longleftrightarrow> \<not> sem W F1 InitialCyclic"
  defines "G \<equiv> joined W c i1 i2 F1 F2"
  shows "sem W F1 Acceptor \<Longrightarrow> sem W F2 Acceptor \<Longrightarrow> sem W G Acceptor"
    "sem W G Weighted \<Longrightarrow> sem W F1 Weighted \<or> sem W F2 Weighted" "sem W F1 Weighted \<Longrightarrow> sem W G Weighted"
    "sem W G Cyclic \<Longrightarrow> sem W F1 Cyclic \<or> sem W F2 Cyclic" "\<not> sem W G InitialCyclic"
    "sem W G WeightedCycles \<Longrightarrow> sem W F1 WeightedCycles \<or> sem W F2 WeightedCycles"
    "sem W F1 Accessible \<Longrightarrow> sem W F2 Accessible \<Longrightarrow> sem W G Accessible"
    "sem W G Accessible \<Longrightarrow> sem W F1 Accessible" "sem W G Accessible \<Longrightarrow> sem W F2 Accessible"
    "sem W F1 Coaccessible \<Longrightarrow> sem W F2 Coaccessible \<Longrightarrow> sem W G Coaccessible"
    "sem W G Coaccessible \<Longrightarrow> sem W F2 Coaccessible"
    "sem W G Epsilons" "sem W G IEpsilons" "sem W G OEpsilons"
proof -
  let ?n = "num_states F1" and ?m = "num_states F2" and ?N = "num_states F1 + num_states F2"
  note parts = joined_parts [OF t i, where W = W and c = c, folded G_def]
  have i1: "i1 < ?n" and i2: "i2 < ?m" using t i by (auto simp: targets_iff)
  note spec = joined_spec [OF i(1) i1, where W = W and c = c and ?i2.0 = i2 and ?F2.0 = F2, folded G_def]
  note arc = parts(4) and fin = parts(5) and edge = parts(6)
  note sh = shifted_sem [OF parts(1), of W] and ex = mono_sem [OF extends_arcs [OF parts(2)], of W]
  have r1: "(a, b) \<in> edges F1 \<Longrightarrow> a < ?n \<and> b < ?n" for a b by (rule edges_range [OF t(1)])
  have r2: "(a, b) \<in> edges F2 \<Longrightarrow> a < ?m \<and> b < ?m" for a b by (rule edges_range [OF t(2)])
  have sub: "edges F1 \<subseteq> edges G" by (rule edges_mono [OF extends_arcs [OF parts(2)]])
  have link: "\<exists>s. (s, eps_tr (one_w W) (i2 + ?n)) \<in> arcs G" unfolding arc by (cases c) auto
  then show "sem W G Epsilons" "sem W G IEpsilons" "sem W G OEpsilons"
    unfolding sem_ex_arc ex_arc_at by (metis eps_tr_simps(1,2))+
  show "sem W G Acceptor" if "sem W F1 Acceptor" "sem W F2 Acceptor"
    using that unfolding sem_ex_arc ex_arc_at arc by (metis eps_tr_simps(1,2) shift_tr_simps(1,2))
  show "sem W F1 Weighted \<or> sem W F2 Weighted" if "sem W G Weighted"
    using that one unfolding weighted_at arc fin by auto
  show "sem W F1 Weighted \<Longrightarrow> sem W G Weighted"
    unfolding weighted_at fin using extends_arcs [OF parts(2)] by blast
  text \<open>Paths stay in the second part; paths into the first part start there, or at the new start.\<close>
  have p2: "\<exists>k < ?m. b = k + ?n \<and> (a, k) \<in> (edges F2)\<^sup>*" if "(a + ?n, b) \<in> (edges G)\<^sup>*" "a < ?m" for a b
    by (rule shifted_reach [OF parts(1) t(2) that])
  have e2: "(a, b) \<in> edges F2 \<Longrightarrow> (a + ?n, b + ?n) \<in> edges G" for a b
    by (rule shifted_arcs(2) [OF parts(1)])
  have p1: "b < ?n \<and> a \<noteq> ?N \<Longrightarrow> a < ?n \<and> (a, b) \<in> (edges F1)\<^sup>*" if "(a, b) \<in> (edges G)\<^sup>*" for a b
    using that
  proof (induction rule: converse_rtrancl_induct)
    case (step y z)
    have z: "z \<noteq> ?N" using step.hyps(1) r1 r2 i1 i2 unfolding edge by fastforce
    with step.IH step.prems have "z < ?n" "(z, b) \<in> (edges F1)\<^sup>*" by auto
    with step.hyps(1) step.prems r1 show ?case unfolding edge by (auto intro: converse_rtrancl_into_rtrancl)
  qed simp
  have new: "(a, ?N) \<notin> edges G" for a using r1 [of a ?N] r2 i1 i2 unfolding edge by fastforce
  have cyc1: "cyclic_at G s \<longleftrightarrow> cyclic_at F1 s" if "s < ?n" for s
  proof
    assume "cyclic_at G s"
    then obtain b where b: "(s, b) \<in> edges G" "(b, s) \<in> (edges G)\<^sup>*" unfolding cyclic_at_step by blast
    moreover from b have "b \<noteq> ?N" using new by blast
    ultimately have "b < ?n" "(b, s) \<in> (edges F1)\<^sup>*" using p1 that by blast+
    with b(1) that show "cyclic_at F1 s" unfolding cyclic_at_step edge by auto
  qed (rule cyclic_at_mono [OF sub])
  have cyc2: "cyclic_at G (k + ?n) \<Longrightarrow> cyclic_at F2 k" if "k < ?m" for k
    unfolding cyclic_at_step using shifted_edge [OF parts(1) t(2) that] p2 by (metis add_right_cancel)
  have cycN: "\<not> cyclic_at G ?N" unfolding cyclic_at_step using new by (metis rtranclE)
  have split: "s < ?n \<or> (\<exists>k < ?m. s = k + ?n) \<or> \<not> c \<and> s = ?N" if "s < num_states G" for s
    using that by (cases "s < ?n"; cases "s < ?N")
      (auto simp: spec(1) less_Suc_eq split: if_splits intro!: exI [of _ "s - ?n"])
  have out: "s < num_states G" if "cyclic_at G s" for s
    using that unfolding cyclic_at_step by (auto simp: edges_def arcs_def)
  show "sem W F1 Cyclic \<or> sem W F2 Cyclic" if "sem W G Cyclic"
    using that out split cyc1 cyc2 cycN unfolding sem.simps by metis
  show "\<not> sem W G InitialCyclic"
    using cyc1 [OF i1] cycN ci i by (auto simp: spec(2))
  show "sem W F1 WeightedCycles \<or> sem W F2 WeightedCycles" if g: "sem W G WeightedCycles"
  proof -
    from g obtain s u where u: "(s, u) \<in> arcs G" "nontrivial W (weight u)" "(nextstate u, s) \<in> (edges G)\<^sup>*"
      unfolding weighted_cycles_at by blast
    from u(1,2) one consider "(s, u) \<in> arcs F1" | k v where "s = k + ?n" "(k, v) \<in> arcs F2" "u = shift_tr ?n v"
      unfolding arc by auto
    then show ?thesis
    proof cases
      case 1
      then have "s < ?n" "nextstate u < ?n" using t(1) by (auto simp: arcs_def targets_state)
      then have "(nextstate u, s) \<in> (edges F1)\<^sup>*" using p1 [OF u(3)] by simp
      with 1 u(2) show ?thesis unfolding weighted_cycles_at by blast
    next
      case 2
      with t(2) have "nextstate v < ?m" by (auto simp: targets_iff)
      with p2 [of "nextstate v" s] u(3) 2 have "(nextstate v, k) \<in> (edges F2)\<^sup>*" by auto
      with u(2) 2 show ?thesis unfolding weighted_cycles_at by auto
    qed
  qed
  define st where "st = (if c then i1 else ?N)"
  have start: "start_state G = Some st" by (simp add: st_def spec(2))
  have to1: "(st, i1) \<in> (edges G)\<^sup>*" and to2: "(st, i2 + ?n) \<in> (edges G)\<^sup>*"
    using edge [of st i1] edge [of st "i2 + ?n"] by (auto simp: st_def)
  show "sem W G Accessible" if a: "sem W F1 Accessible" "sem W F2 Accessible"
  proof -
    have "(st, s) \<in> (edges G)\<^sup>*" if "s < ?n" for s
      using a(1) that rtrancl_mono [OF sub] to1 by (auto simp: accessible_state_def i intro: rtrancl_trans)
    moreover have "(st, k + ?n) \<in> (edges G)\<^sup>*" if "k < ?m" for k
      using a(2) that shift_path [OF _ e2, where ?E2.0 = "edges F2"] to2
      by (auto simp: accessible_state_def i intro: rtrancl_trans)
    moreover have "(st, ?N) \<in> (edges G)\<^sup>*" if "\<not> c" using that by (simp add: st_def)
    ultimately have "(st, s) \<in> (edges G)\<^sup>*" if "s < num_states G" for s using split [OF that] by blast
    then show ?thesis by (simp add: accessible_state_def start)
  qed
  have from_start: "s < ?n \<and> (i1, s) \<in> (edges F1)\<^sup>* \<or> (\<exists>k < ?m. s = k + ?n \<and> (i2, k) \<in> (edges F2)\<^sup>*) \<or> s = ?N"
    if "(st, s) \<in> (edges G)\<^sup>*" for s
    using that
  proof (induction rule: rtrancl_induct)
    case base
    then show ?case by (simp add: st_def i1)
  next
    case (step y z)
    from step.hyps(2) step.IH r1 r2 i1 i2 show ?case
      unfolding edge by (fastforce intro: rtrancl.rtrancl_into_rtrancl)
  qed
  show "sem W F1 Accessible" if g: "sem W G Accessible"
  proof -
    have "(i1, s) \<in> (edges F1)\<^sup>*" if "s < ?n" for s
    proof -
      have "s < num_states G" using that by (simp add: spec(1))
      with g have "(st, s) \<in> (edges G)\<^sup>*" by (auto simp: accessible_state_def start)
      from from_start [OF this] that show ?thesis by auto
    qed
    then show ?thesis by (simp add: accessible_state_def i)
  qed
  show "sem W F2 Accessible" if g: "sem W G Accessible"
  proof -
    have "(i2, k) \<in> (edges F2)\<^sup>*" if "k < ?m" for k
    proof -
      have "k + ?n < num_states G" using that by (simp add: spec(1))
      with g have "(st, k + ?n) \<in> (edges G)\<^sup>*" by (auto simp: accessible_state_def start)
      from from_start [OF this] that show ?thesis by auto
    qed
    then show ?thesis by (simp add: accessible_state_def i)
  qed
  have co2: "coaccessible_state G (k + ?n) \<longleftrightarrow> coaccessible_state F2 k" if "k < ?m" for k
    by (rule shifted_co [OF parts(1) t(2) that])
  show "sem W G Coaccessible \<Longrightarrow> sem W F2 Coaccessible"
    using co2 by (simp add: spec(1))
  show "sem W G Coaccessible" if a: "sem W F1 Coaccessible" "sem W F2 Coaccessible"
  proof -
    have c1: "coaccessible_state G s" if "s < ?n" for s
      using a(1) that fin coaccessible_mono [OF sub, of s] by (auto simp: is_final_at)
    moreover have "coaccessible_state G (k + ?n)" if "k < ?m" for k using co2 [OF that] a(2) that by simp
    moreover have "coaccessible_state G ?N" if "\<not> c"
    proof -
      have "(?N, i1) \<in> edges G" using that unfolding edge by simp
      with c1 [OF i1] show ?thesis by (auto simp: coaccessible_state_def intro: converse_rtrancl_into_rtrancl)
    qed
    ultimately show ?thesis unfolding sem.simps using split by metis
  qed
qed


lemma union_properties_bits:
  fixes p q defines "u \<equiv> union_properties p q False"
  shows "bit u 16 \<longleftrightarrow> bit p 16 \<and> bit q 16" "bit u 17 \<longleftrightarrow> bit p 17 \<or> bit q 17" "\<not> bit u 18"
    "bit u 19 \<longleftrightarrow> bit p 19 \<or> bit q 19" "\<not> bit u 20" "bit u 21 \<longleftrightarrow> bit p 21 \<or> bit q 21"
    "bit u 22" "\<not> bit u 23" "bit u 24" "\<not> bit u 25" "bit u 26" "\<not> bit u 27" "\<not> bit u 28"
    "bit u 29 \<longleftrightarrow> bit p 29 \<or> bit q 29" "\<not> bit u 30" "bit u 31 \<longleftrightarrow> bit p 31 \<or> bit q 31"
    "bit u 32 \<longleftrightarrow> bit p 32 \<or> bit q 32" "bit u 33 \<longleftrightarrow> bit p 33 \<and> bit q 33" "bit u 34 \<longleftrightarrow> bit p 34 \<or> bit q 34"
    "bit u 35 \<longleftrightarrow> bit p 35 \<and> bit q 35" "\<not> bit u 36" "bit u 37" "\<not> bit u 38" "bit u 39 \<longleftrightarrow> bit p 39 \<or> bit q 39"
    "bit u 40 \<longleftrightarrow> bit p 40 \<and> bit q 40" "bit u 41 \<longleftrightarrow> bit p 41 \<or> bit q 41" "bit u 42 \<longleftrightarrow> bit p 42 \<and> bit q 42"
    "bit u 43 \<longleftrightarrow> bit q 43" "\<not> bit u 44" "\<not> bit u 45" "bit u 46 \<longleftrightarrow> bit p 46 \<or> bit q 46" "bit u 47 \<longleftrightarrow> bit p 47 \<and> bit q 47"
  unfolding u_def union_properties_def Let_def
  by (auto simp: bit_or_iff bit_and_iff flag_bits)

lemma joined_sound:
  fixes F1 F2 :: "'w vfst" and W :: "'w semiring" and c :: bool
  assumes F: "fst_ok W F1" "fst_ok W F2" and i: "start_state F1 = Some i1" "start_state F2 = Some i2"
    and one: "\<not> nontrivial W (one_w W)" and ci: "c \<longleftrightarrow> \<not> sem W F1 InitialCyclic"
  defines "G \<equiv> joined W c i1 i2 F1 F2"
  shows "fst_ok W (set_properties_with_mask G (union_properties (properties F1) (properties F2) False) all_properties)"
proof -
  note t = fst_okD(3) [OF F(1)] fst_okD(3) [OF F(2)]
  have i1: "i1 < num_states F1" using t i by (auto simp: targets_iff)
  note parts = joined_parts [OF t i, where W = W and c = c, folded G_def]
  note sem = joined_sem [OF t i one ci, folded G_def]
  note ext = extends_lists [OF parts(2), of W] mono_sem [OF extends_arcs [OF parts(2)], of W]
  note sh = shifted_sem [OF parts(1), of W]
  have b: "bits_sound W F1 (properties F1)" "bits_sound W F2 (properties F2)"
    using F by (simp_all add: props_sound_def fst_ok_def)
  note b1 = bits_soundD [OF b(1)] and b2 = bits_soundD [OF b(2)]
  let ?u = "union_properties (properties F1) (properties F2) False"
  have "bits_sound W G ?u"
  proof (rule bits_soundI)
    have up: "q \<in> {Weighted, Cyclic, WeightedCycles} \<Longrightarrow> sem W F1 q \<Longrightarrow> sem W G q"
      "q \<in> {Weighted, Cyclic, WeightedCycles} \<Longrightarrow> sem W F2 q \<Longrightarrow> sem W G q"
      "q \<in> {Acceptor, Accessible, Coaccessible} \<Longrightarrow> sem W F1 q \<Longrightarrow> sem W F2 q \<Longrightarrow> sem W G q" for q
      by (cases q; simp only: insert_iff empty_iff fprop.distinct simp_thms; rule sem ext sh; assumption)+
    show "sem W G q" if "bit ?u (pos_bit q)" for q
      using that b1(1) [of q] b2(1) [of q] up [of q]
      by (cases q) (simp_all add: union_properties_bits sem(12-14) del: sem.simps, blast+)
    let ?D = "{Acceptor, IDeterministic, ODeterministic, ILabelSorted, OLabelSorted, TopSorted, Accessible}"
    have down: "q \<in> ?D \<Longrightarrow> sem W G q \<Longrightarrow> sem W F1 q"
      "q \<in> insert Coaccessible ?D \<Longrightarrow> sem W G q \<Longrightarrow> sem W F2 q"
      "q \<in> {Weighted, Cyclic, WeightedCycles} \<Longrightarrow> sem W G q \<Longrightarrow> sem W F1 q \<or> sem W F2 q" for q
      by (cases q; simp only: insert_iff empty_iff fprop.distinct simp_thms; rule sem ext sh; assumption)+
    show "\<not> sem W G q" if "bit ?u (Suc (pos_bit q))" for q
      using that b1(2) [of q] b2(2) [of q] down [of q]
      by (cases q) (simp_all add: union_properties_bits sem(5) del: sem.simps, blast+)
  qed
  moreover have "bits_ok W G"
    using joined_spec(7) [OF i(1) i1] F(1) by (simp add: G_def fst_ok_iff)
  ultimately show ?thesis
    using set_all_properties_sound [of W G ?u] parts(3)
    by (simp add: fst_ok_def fst_ok_iff bits_ok_def set_properties_with_mask_def targets_iff arcs_def)
qed


subsection \<open>The union of two transductions\<close>

context weight_monoids begin

lemma joined_acc:
  fixes c :: bool and i1 i2 :: state_id
  assumes t: "targets_ok F1" "targets_ok F2" and i: "start_state F1 = Some i1" "start_state F2 = Some i2"
    and ci: "c \<longleftrightarrow> \<not> sem W F1 InitialCyclic"
  shows "transduces mul (joined W c i1 i2 F1 F2) x y w \<longleftrightarrow> transduces mul F1 x y w \<or> transduces mul F2 x y w"
proof -
  let ?G = "joined W c i1 i2 F1 F2" and ?n = "num_states F1" and ?N = "num_states F1 + num_states F2"
  note parts = joined_parts [OF t i, where W = W and c = c]
  have i1: "i1 < ?n" and i2: "i2 < num_states F2" using t i by (auto simp: targets_iff)
  note spec = joined_spec [OF i(1) i1, where W = W and c = c and ?i2.0 = i2 and ?F2.0 = F2]
  have copy: "accepts mul ?G (i2 + ?n) x y w \<longleftrightarrow> accepts mul F2 i2 x y w" for x y w
    by (rule copy_of_acc [OF shifted_copy [OF parts(1)] t(2) i2])
  have fin: "s < ?n \<Longrightarrow> final_at ?G s w \<longleftrightarrow> final_at F1 s w" for s w
    unfolding parts(5) by auto
  have embed: "accepts mul F1 s x y w \<Longrightarrow> accepts mul ?G s x y w" for s x y w
    by (erule acc_embed [where h = "\<lambda>s. s"]) (use extends_arcs [OF parts(2)] parts(5) in blast)+
  text \<open>A state from which the kept start cannot be reached accepts what it accepted.\<close>
  have stay: "accepts mul F1 s x y w"
    if "accepts mul ?G s x y w" "s < ?n" "c \<longrightarrow> (s, i1) \<notin> (edges F1)\<^sup>*" for s x y w
    using that
  proof (induction rule: accepts.induct)
    case (acc_final s w)
    with fin show ?case by (blast intro: accepts.acc_final)
  next
    case (acc_arc s u x y w)
    have "s = i1 \<Longrightarrow> \<not> c" using acc_arc.prems(2) by auto
    with acc_arc.hyps(1) acc_arc.prems(1) have a: "(s, u) \<in> arcs F1" unfolding parts(4) by auto
    moreover from a have "nextstate u < ?n" using t(1) by (simp add: targets_iff)
    moreover have "c \<longrightarrow> (nextstate u, i1) \<notin> (edges F1)\<^sup>*"
      using acc_arc.prems(2) arcs_edges [OF a] by (meson converse_rtrancl_into_rtrancl)
    ultimately show ?case using acc_arc.IH by (blast intro: accepts.acc_arc)
  qed
  have tr: "transduces mul F1 x y w \<longleftrightarrow> accepts mul F1 i1 x y w" "transduces mul F2 x y w \<longleftrightarrow> accepts mul F2 i2 x y w"
    "transduces mul ?G x y w \<longleftrightarrow> accepts mul ?G (if c then i1 else ?N) x y w"
    by (simp_all add: transduces_def i spec(2))
  have eps: "accepts mul ?G s x y w" if "(s, eps_tr (one_w W) q) \<in> arcs ?G" "accepts mul ?G q x y w" for s q
    using acc_eps [OF that(1), of mul x y w] that(2) by (simp add: mul_one_left)
  show ?thesis
  proof (cases c)
    case True
    have "accepts mul ?G i1 x y w \<longleftrightarrow> accepts mul F1 i1 x y w \<or> accepts mul F2 i2 x y w"
    proof
      assume "accepts mul ?G i1 x y w"
      then show "accepts mul F1 i1 x y w \<or> accepts mul F2 i2 x y w"
      proof (rule acc_elim)
        assume "x = []" "y = []" "final_at ?G i1 w"
        then show ?thesis using fin [OF i1] by (blast intro: accepts.acc_final)
      next
        fix u x' y' w'
        assume e: "x = ext_label (ilabel u) x'" "y = ext_label (olabel u) y'" "w = mul (weight u) w'"
          and u: "(i1, u) \<in> arcs ?G" and a: "accepts mul ?G (nextstate u) x' y' w'"
        from u True i1 consider "(i1, u) \<in> arcs F1" | "u = eps_tr (one_w W) (i2 + ?n)"
          unfolding parts(4) by auto
        then show ?thesis
        proof cases
          case 1
          have "(nextstate u, i1) \<notin> (edges F1)\<^sup>*"
            using True ci arcs_edges [OF 1] i(1) by (auto simp: cyclic_at_step)
          moreover have "nextstate u < ?n" using t(1) 1 by (simp add: targets_iff)
          ultimately have "accepts mul F1 (nextstate u) x' y' w'" using stay [OF a] by blast
          with 1 e show ?thesis by (blast intro: accepts.acc_arc)
        next
          case 2
          with a e copy show ?thesis by (simp add: mul_one_left)
        qed
      qed
    next
      have "(i1, eps_tr (one_w W) (i2 + ?n)) \<in> arcs ?G" using True unfolding parts(4) by simp
      then show "accepts mul F1 i1 x y w \<or> accepts mul F2 i2 x y w \<Longrightarrow> accepts mul ?G i1 x y w"
        using eps embed copy by blast
    qed
    with True tr show ?thesis by simp
  next
    case False
    have arc: "(?N, u) \<in> arcs ?G \<longleftrightarrow> u = eps_tr (one_w W) i1 \<or> u = eps_tr (one_w W) (i2 + ?n)" for u
      using False i1 unfolding parts(4) by (auto simp: arcs_def)
    have "accepts mul ?G ?N x y w \<longleftrightarrow> accepts mul ?G i1 x y w \<or> accepts mul ?G (i2 + ?n) x y w"
    proof
      assume "accepts mul ?G ?N x y w"
      then show "accepts mul ?G i1 x y w \<or> accepts mul ?G (i2 + ?n) x y w"
      proof (rule acc_elim)
        assume "final_at ?G ?N w"
        then show ?thesis unfolding parts(5) by (auto simp: final_at_def)
      next
        fix u x' y' w'
        assume e: "x = ext_label (ilabel u) x'" "y = ext_label (olabel u) y'" "w = mul (weight u) w'"
          and u: "(?N, u) \<in> arcs ?G" and a: "accepts mul ?G (nextstate u) x' y' w'"
        from u a e show ?thesis unfolding arc by (auto simp: mul_one_left)
      qed
    qed (use eps arc in blast)
    moreover have "accepts mul ?G i1 x y w \<longleftrightarrow> accepts mul F1 i1 x y w"
      using stay [OF _ i1] embed False by blast
    ultimately show ?thesis using False tr copy by simp
  qed
qed

end

text \<open>The public function, with both starts present.\<close>

lemma contains_initial_acyclic: "contains p INITIAL_ACYCLIC \<longleftrightarrow> bit p 37"
  by (simp add: contains_flags)

lemma fst_union_joined:
  assumes F1: "fst_ok W F1" "num_states F1 < 2 ^ 31" "finals_nonzero W F1"
    and i: "start_state F1 = Some i1" "start_state F2 = Some i2"
  shows "\<exists>H. fst_ok W H \<and> H = F1\<lparr>properties := properties H\<rparr> \<and> fst_union W F1 F2 =
    Inr (set_properties_with_mask (joined W (\<not> sem W F1 InitialCyclic) i1 i2 H F2)
      (union_properties (properties H) (properties F2) False) all_properties)"
proof -
  from compute_and_update_properties_spec [OF F1(1,2) i(1) F1(3), of INITIAL_ACYCLIC] obtain H p where
    H: "compute_and_update_properties W F1 INITIAL_ACYCLIC = Inr (H, p AND INITIAL_ACYCLIC)" "fst_ok W H"
      "bits_exact W F1 INITIAL_ACYCLIC p" "H = F1\<lparr>properties := properties H\<rparr>" by blast
  have p: "bit p 37 \<longleftrightarrow> \<not> sem W F1 InitialCyclic"
    using H(3) [unfolded bits_exact_def, rule_format, of InitialCyclic] by (simp add: flag_bits del: sem.simps)
  have s: "start_state H = Some i1" using arg_cong [OF H(4), of start_state] i(1) by simp
  have "contains (p AND INITIAL_ACYCLIC) INITIAL_ACYCLIC \<longleftrightarrow> \<not> sem W F1 InitialCyclic"
    unfolding contains_initial_acyclic by (simp add: bit_and_iff flag_bits p del: sem.simps)
  then have "fst_union W F1 F2 = Inr (set_properties_with_mask (joined W (\<not> sem W F1 InitialCyclic) i1 i2 H F2)
      (union_properties (properties H) (properties F2) False) all_properties)"
    by (simp add: fst_union_def H(1) i joined_def append_fst_spec(2) s Let_def del: sem.simps)
  with H(2,4) show ?thesis by blast
qed


text \<open>Only the property bits of the first operand change before the states are appended.\<close>

lemma same_but_bits:
  assumes "H = F\<lparr>properties := p\<rparr>"
  shows "num_states H = num_states F" "start_state H = start_state F" "arcs H = arcs F" "edges H = edges F"
    "final_at H = final_at F" "sem W H InitialCyclic = sem W F InitialCyclic"
  by (simp_all add: assms arcs_def edges_def final_at_def [abs_def] cyclic_at_def)

lemma fst_union_ok [fst_ok_intros]:
  assumes F: "fst_ok W F1" "num_states F1 < 2 ^ 31" "finals_nonzero W F1" "fst_ok W F2"
    and i: "start_state F1 = Some i1" "start_state F2 = Some i2" and one: "\<not> nontrivial W (one_w W)"
    and G: "fst_union W F1 F2 = Inr G"
  shows "fst_ok W G"
proof -
  from fst_union_joined [OF F(1-3) i] obtain H where H: "fst_ok W H" "H = F1\<lparr>properties := properties H\<rparr>"
    and u: "fst_union W F1 F2 = Inr (set_properties_with_mask (joined W (\<not> sem W F1 InitialCyclic) i1 i2 H F2)
      (union_properties (properties H) (properties F2) False) all_properties)" by blast
  have s: "start_state H = Some i1" using same_but_bits(2) [OF H(2)] i(1) by simp
  have "fst_ok W (set_properties_with_mask (joined W (\<not> sem W F1 InitialCyclic) i1 i2 H F2)
      (union_properties (properties H) (properties F2) False) all_properties)"
    by (rule joined_sound [OF H(1) F(4) s i(2) one]) (simp only: same_but_bits(6) [OF H(2)])
  with u G show ?thesis by simp
qed

context weight_monoids begin

lemma fst_union_transduces:
  assumes F: "fst_ok W F1" "num_states F1 < 2 ^ 31" "finals_nonzero W F1" "fst_ok W F2"
    and i: "start_state F1 = Some i1" "start_state F2 = Some i2"
  shows "\<exists>G. fst_union W F1 F2 = Inr G \<and> fst_ok W G \<and>
    (\<forall>x y w. transduces mul G x y w \<longleftrightarrow> transduces mul F1 x y w \<or> transduces mul F2 x y w)"
proof -
  from fst_union_joined [OF F(1-3) i] obtain H where H: "fst_ok W H" "H = F1\<lparr>properties := properties H\<rparr>"
    and u: "fst_union W F1 F2 = Inr (set_properties_with_mask (joined W (\<not> sem W F1 InitialCyclic) i1 i2 H F2)
      (union_properties (properties H) (properties F2) False) all_properties)" by blast
  have s: "start_state H = Some i1" using same_but_bits(2) [OF H(2)] i(1) by simp
  have "transduces mul (joined W (\<not> sem W F1 InitialCyclic) i1 i2 H F2) x y w \<longleftrightarrow>
      transduces mul H x y w \<or> transduces mul F2 x y w" for x y w
    by (rule joined_acc [OF fst_okD(3) [OF H(1)] fst_okD(3) [OF F(4)] s i(2)])
      (simp only: same_but_bits(6) [OF H(2)])
  moreover have "transduces mul H = transduces mul F1" by (subst H(2)) (simp add: transduces_def fun_eq_iff)
  moreover have "\<not> nontrivial W (one_w W)" by (simp add: nontrivial_def is_one_iff)
  ultimately show ?thesis using u fst_union_ok [OF F i _ u] by auto
qed

end

text \<open>
  Without a first start the start of the second operand is taken over unshifted: the result starts in
  a state of the first operand.
\<close>

lemma union_loses_the_start:
  assumes "compute_and_update_properties W F1 INITIAL_ACYCLIC = Inr (H, p)" "start_state H = None" "start_state F2 = Some i2"
  shows "\<exists>G. fst_union W F1 F2 = Inr G \<and> start_state G = Some i2 \<and> num_states G = num_states H + num_states F2 \<and>
    shifted_in (num_states H) F2 G"
proof -
  let ?A = "append_fst W H F2"
  have A: "start_state ?A = None" using assms(2) by (simp add: append_fst_spec(2))
  have "shifted_in (num_states H) F2 (set_properties_with_mask (set_start_unchecked ?A i2) (properties F2) fp_copy_properties)"
    using append_fst_spec(1,4) [where W = W and ?F1.0 = H and ?F2.0 = F2]
    by (simp add: shifted_in_def set_properties_with_mask_def set_start_unchecked_def)
  with assms(1,3) A show ?thesis
    by (simp add: fst_union_def Let_def append_fst_spec(1) set_properties_with_mask_def set_start_unchecked_def)
qed

end
