(* ===== verification/Spec2Isabelle.thy ===== *)
theory Spec2Isabelle
  imports Semiring_Instances Built_Fst Relabel_Semantics Top_Sort Queues Shortest_Distance Shortest_First Auto_Queue Shortest_Distance_Public
    Compose_Static Determinize_Static Determinize_Fst Union
begin

text \<open>
  A model of the core of the \<open>rustfst\<close> crate (\<open>rustfst/src\<close>): weighted finite-state transducers, the mutable
  representation \<open>VectorFst\<close>, and the algorithms that build, rewrite, search, compose and determinize them.
  Paths below are relative to \<open>rustfst/src\<close>.

  Parts and their interaction. A transducer has states with an optional final weight and a vector of
  transitions; it caches, in 32 pairs of property bits, what is known of it, and each state counts its epsilon
  labels. Every mutation updates the bits by a function of \<open>fst_properties/mutate_properties.rs\<close>, so an algorithm
  is right only if the transitions it leaves and the bits it stores agree. Weights are a type that implements
  the trait \<open>Semiring\<close> and declares its laws by flags; algorithms test the flags. Searches are visitors driven
  by \<open>dfs_visit\<close>, or loops over a work queue. Composition, determinization and weight factoring are lazy operations
  (trait \<open>FstOp\<close>) over a cache and a table that numbers their tuples, made into a \<open>VectorFst\<close> by one search.

  Conventions. A fallible function returns \<open>rust_error + 'a\<close>: \<open>Inl (Bail _)\<close> for \<open>bail!\<close> and \<open>Inl (Panic _)\<close> for a
  panic (an \<open>unwrap\<close>, an index out of range); \<open>rbind\<close> is the operator \<open>?\<close>, \<open>for_res\<close> a loop that may fail. Labels are
  32-bit words; state ids, lengths and counters are naturals, with the bound \<open>2 ^ 31\<close> on the number of
  states stated where a comparison in the code depends on it. The other casts, \<open>as i32\<close> in \<open>del_states\<close> and \<open>SccQueue\<close> and
  \<open>as StateId\<close> in the state tables, are the identity here, so the theorems on these speak of transducers with fewer
  than \<open>2 ^ 31\<close> states and of tables with at most \<open>2 ^ 32\<close> entries. The property bits are one 64-bit word with the source's
  constants. A trait is a record of its methods, a weight type the record \<open>semiring\<close> of its operations. The two
  loops that may run for ever, the relaxation of the shortest distance and the search over a lazy operation, are
  option-valued, and \<open>None\<close> means that they do not return. The theorems say when they do: the distances over bounded
  semirings whose weights cannot improve for ever, composition always, determinization over finitely many
  weights or with a budget of states. No loop is cut off by fuel.

  Foundations.
  \<open>Prelude\<close>: results, vectors, list lemmas. \<open>Semiring\<close>: the trait, the flags and what each promises
  (\<open>flags_sound\<close>), the locales \<open>weight_monoids\<close>, \<open>left_semiring\<close>, \<open>right_semiring\<close>, \<open>full_semiring\<close>.
  \<open>Semiring_Instances\<close>: boolean, integer, trivial, string and product weights with their divisions, each an
  interpretation. \<open>Gallic_Weight\<close>: pairs of a string and a weight, and unions of such pairs, which are shown to be
  formal sums. \<open>Symbol_Table\<close>: \<open>symbol_table.rs\<close>. \<open>Fst_Properties\<close>, \<open>Mutate_Properties\<close>: the bits and their updates.
  \<open>Tr\<close>: transitions.

  The mutable transducer.
  \<open>Vector_Fst\<close>: \<open>fst_impls/vector_fst\<close>, one definition per operation, the checked ones calling the unchecked ones.
  \<open>Prop_Semantics\<close>: what each pair of bits asserts (\<open>sem\<close>), soundness of the stored bits and of the counters,
  targets in range. \<open>Vector_Fst_Sound\<close>, \<open>Vector_Fst_Delete\<close>, \<open>Trs_Iter_Mut\<close>, \<open>Tr_Sorting\<close>: every mutation keeps them.
  \<open>Vector_Fst_Steps\<close>: the invariant \<open>fst_ok\<close> of a well-formed transducer and that each operation keeps it.
  \<open>Relabel_Tables\<close>: \<open>relabel_tables\<close> of \<open>fst_traits/mutable_fst.rs\<close>. \<open>Built_Fst\<close>: the public mutations as a step relation,
  targets unchecked as in the code, and what holds of every transducer they can build.
  \<open>Prop_Transfer\<close>: the meaning of the bits under a change of labels or order. \<open>Path_Semantics\<close>: the transduction
  \<open>transduces mul F x y w\<close>, the specification of the algorithms on whole transducers.

  Algorithms on whole transducers, each with its source file's name.
  \<open>Tr_Rewriting\<close> (\<open>inversion.rs\<close>, \<open>projection.rs\<close>, \<open>relabel_pairs.rs\<close>; transductions in \<open>Relabel_Semantics\<close>),
  \<open>Tr_Sorting\<close> (\<open>tr_sort.rs\<close>, \<open>tr_unique.rs\<close>, \<open>tr_sum.rs\<close>), \<open>Tr_Map\<close> (\<open>tr_map.rs\<close>, \<open>tr_mappers\<close>), \<open>Rational_Ops\<close> and
  \<open>Closure_Sound\<close> (\<open>closure_static.rs\<close>), \<open>Concat\<close> and \<open>Concat_Sound\<close> (\<open>concat_static.rs\<close>), \<open>Union\<close> (\<open>union_static.rs\<close>),
  \<open>Super_Final\<close> (\<open>add_super_final_state.rs\<close>), \<open>Reverse\<close> (\<open>reverse.rs\<close>), \<open>Weight_Convert\<close> (\<open>weight_convert.rs\<close> and the
  converters). Shown of them are the result on every branch, that \<open>fst_ok\<close> is kept, and, for inversion,
  projection and the rational operations, the transduction of the result.

  Searches.
  \<open>Dfs_Visit\<close>: \<open>dfs_visit.rs\<close> with any visitor and filter, which always returns. \<open>Scc_Core\<close> to \<open>Scc_Result\<close>: the
  component search of \<open>SccVisitor\<close> and \<open>ConnectVisitor\<close>, its invariant over grey states, and that components, cycles
  and accessibility are those defined by reachability; the locale \<open>scc_observer\<close> is what a visitor built on the
  search has to provide. \<open>Connect\<close>, \<open>State_Sort\<close>, \<open>Top_Sort\<close>, \<open>Compute_Properties\<close>: their source files.
  \<open>Queues\<close>, \<open>Shortest_First\<close>, \<open>Auto_Queue\<close>: the disciplines of \<open>algorithms/queues\<close>, each an interpretation of the
  locale \<open>lawful_queue\<close>, with refinements of the bit set and of the heap. \<open>Shortest_Distance\<close>,
  \<open>Shortest_Distance_Public\<close>: \<open>shortest_distance.rs\<close>, proved inside the locale \<open>distance_setting\<close> for any lawful queue.

  Lazy operations.
  \<open>Lazy_Cache\<close>: the caches of \<open>algorithms/lazy/cache\<close>, interpretations of \<open>lossy_cache\<close> (a cache may forget but never
  invents) and \<open>storing_cache\<close>. \<open>Lazy_Compute\<close>: the trait \<open>FstOp\<close>, \<open>LazyFst\<close>, \<open>compute_bounded\<close> with its budgets of states
  and transitions, the table. \<open>Lazy_Sound\<close>, \<open>Lazy_Bounds\<close>, \<open>Tuple_Machine\<close>: under the contract \<open>interning_op\<close>, whose
  states are interned tuples, the search returns, the result materialises the machine on tuples, and a budget
  cuts the same run off where the result would not fit.
  \<open>Compose_Matchers\<close>, \<open>Compose_Filters\<close>, \<open>Compose_Op\<close>: \<open>algorithms/compose\<close>; a filter is a record of its methods, its
  laws are the locales \<open>filter_laws\<close> and \<open>lossless_filter\<close>. \<open>Compose_Machine\<close>, \<open>Compose_Sound\<close>, \<open>Compose_Instances\<close>,
  \<open>Compose_Static\<close>: paths of the composition are pairs of paths with the same middle string, for every filter, and
  the static functions return the composed transduction.
  \<open>Determinize_Op\<close>: the subset construction of \<open>algorithms/determinize\<close> with its budget of subset elements.
  \<open>Determinize_Subsets\<close>, \<open>Determinize_Sound\<close>, \<open>Determinize_Static\<close>: the result is deterministic and gives each string
  the sum of the weights of its paths; when the search returns. \<open>Factor_Weight\<close>: \<open>algorithms/factor_weight\<close>; the
  factors multiply back to the weight and the state table interns. \<open>Determinize_Fst\<close>: the determinization of
  transducers, composed of conversion, subset construction, factoring and conversion back.

  Parameters. Code that is not in the repository enters as an argument: \<open>lb\<close> is the binary search of the crate
  \<open>superslice\<close>, under its documented meaning \<open>lower_bound_spec\<close>; a \<open>division\<close> holds the division and the rounding to a
  multiple of \<open>delta\<close> of a weight type; \<open>kquantize\<close> is the rounding at \<open>KDELTA\<close>; the approximate comparison of the
  shortest distance is part of its configuration; \<open>rv\<close> is the reversal of weights. The two-way map of the crate
  \<open>bimap\<close> is only asked to add fresh pairs. The hash maps of the standard library are partial functions, its
  sorts and its binary heap (the sifting loops of \<open>BinaryHeap\<close>) are written out. The mutexes of the lazy tables are held from the start to the end of
  each operation, so an operation is one step.

  Not modelled, and why. The float semirings (\<open>log_weight.rs\<close>, \<open>tropical_weight.rs\<close>, \<open>probability_weight.rs\<close>)
  satisfy no exact law; what needs them (\<open>push.rs\<close>, \<open>reweight.rs\<close>, \<open>shortest_path.rs\<close>, \<open>prune.rs\<close>) is left out with
  them, as are \<open>minimize.rs\<close> and \<open>encode\<close>, which call these. Also left out: epsilon removal, \<open>replace\<close> and the lazy
  rational operations built on it, lookahead composition with its reachability tables and the multi-epsilon
  matcher, the composition state store that spills to files, random generation, \<open>ConstFst\<close>, path iterators,
  isomorphism, condensation, parsers and serialisation, and the bindings, command line and test generators.
  \<open>determinize_with_distance\<close> is not modelled; the distances are, in the state table. Symbol tables are carried
  through every algorithm; only \<open>relabel_tables\<close> looks into them.

  The properties follow, each with the number of its claim.
\<close>

definition demo_fst :: "bool vfst" where
  "demo_fst =
     (let F = fst (add_state (fst (add_state vfst_new)))
      in set_start_unchecked (add_tr_unchecked boolean_weight F 0 \<lparr>ilabel = 1, olabel = 2, weight = True, nextstate = 1\<rparr>) 0)"

text \<open>
  C1: Start from a new \<open>VectorFst\<close> and apply any sequence of these public mutations: setting the start, setting,
  deleting and taking final weights, adding states and transitions, popping and deleting transitions, deleting states,
  single changes through \<open>TrsIterMut\<close>, \<open>tr_sort\<close>, \<open>tr_unique\<close>, \<open>tr_sum\<close>, the symbol table setters, \<open>relabel_tables\<close>
  and recomputing the bits. Then the stored property bits are true of the result, its epsilon counters are exact and its
  start state exists. No target is assumed to exist: the code does not check targets, and a caller may pass any. A call
  of \<open>del_states\<close> that returns leaves only targets that exist. Conditions on the steps: the two unsafe functions
  \<open>del_trs_id_sorted_unchecked\<close> (sorted ids in range) and \<open>set_trs_unchecked\<close> (a state without transitions), and
  recomputing the bits (targets in range, fewer than \<open>2 ^ 31\<close> states, a start state, no zero final weight, see C23).
  Not steps: \<open>set_properties\<close> and \<open>set_properties_with_mask\<close>, which store what the caller claims, the \<open>unchecked\<close> sort,
  unique and sum of one state, documented to leave the bits alone, and \<open>closure\<close> and \<open>tr_map\<close> (C10, C15).
\<close>

theorem built_fst_is_sound:
  assumes "built W F"
  shows "props_sound W F \<and> eps_counts_ok F \<and> (\<forall>i. start_state F = Some i \<longrightarrow> i < num_states F) \<and>
    (\<forall>ds G. del_states F ds = Inr G \<longrightarrow> targets_ok G)"
  using built_inv [OF assms] del_states_targets by (auto simp: fst_inv_def start_ok_def)

lemma demo_fst_states:
  "states demo_fst =
     [\<lparr>final_weight = None, trs = [\<lparr>ilabel = 1, olabel = 2, weight = True, nextstate = 1\<rparr>], niepsilons = 0, noepsilons = 0\<rparr>,
      vstate_new]"
  "start_state demo_fst = Some 0" "isymt demo_fst = None" "osymt demo_fst = None"
  by (simp_all add: demo_fst_def add_tr_unchecked_eq with_state_def add_state_def vfst_new_def set_start_unchecked_def
      Let_def vstate_new_def increment_num_epsilons_def EPS_LABEL_def)

lemma demo_fst_targets: "targets_ok demo_fst"
  by (simp add: targets_ok_def demo_fst_states vstate_new_def)

text \<open>A step that adds a transition to a state that does not exist, and one that does.\<close>

definition demo_dangling :: "bool vfst" where
  "demo_dangling = add_tr_unchecked boolean_weight demo_fst 1 \<lparr>ilabel = 3, olabel = 3, weight = True, nextstate = 7\<rparr>"

lemma demo_dangling_built: "built boolean_weight demo_dangling"
proof -
  have "built boolean_weight (fst (add_state vfst_new))"
    by (rule built.step [OF built.new]) (rule fst_step.state, simp add: add_state_def)
  then have F: "built boolean_weight (fst (add_state (fst (add_state vfst_new))))"
    by (rule built.step) (rule fst_step.state, simp add: add_state_def)
  let ?F = "fst (add_state (fst (add_state vfst_new))) :: bool vfst"
  let ?t = "\<lparr>ilabel = 1, olabel = 2, weight = True, nextstate = 1\<rparr> :: bool tr"
  have n: "num_states ?F = 2" by (simp add: add_state_def vfst_new_def)
  have "built boolean_weight (add_tr_unchecked boolean_weight ?F 0 ?t)"
    by (rule built.step [OF F], rule fst_step.tr [of _ _ 0 ?t]) (simp_all add: add_tr_def n del: One_nat_def)
  then have "built boolean_weight (set_start_unchecked (add_tr_unchecked boolean_weight ?F 0 ?t) 0)"
    by (rule built.step) (rule fst_step.start [of _ 0], simp add: set_start_def n)
  then have d: "built boolean_weight demo_fst" by (simp add: demo_fst_def)
  have "add_tr boolean_weight demo_fst 1 \<lparr>ilabel = 3, olabel = 3, weight = True, nextstate = 7\<rparr> = Inr demo_dangling"
    by (simp add: add_tr_def demo_dangling_def demo_fst_states)
  from built.step [OF d fst_step.tr [OF this]] show ?thesis .
qed

theorem built_fst_is_sound_witness:
  "props_sound boolean_weight demo_dangling \<and> eps_counts_ok demo_dangling \<and> \<not> targets_ok demo_dangling"
proof -
  have "\<not> targets_ok demo_dangling"
    by (simp add: targets_ok_def demo_dangling_def add_tr_unchecked_eq with_state_def demo_fst_states)
  with built_fst_is_sound [OF demo_dangling_built] show ?thesis by blast
qed

text \<open>
  C2: \<open>del_states\<close> on a well-formed transducer succeeds and returns the surviving states in order,
  renumbered without holes, with exactly the transitions between survivors, and the start state
  renumbered or dropped. The new ids, \<open>i32\<close> in the code, are those of fewer than \<open>2 ^ 31\<close> states.
\<close>

theorem del_states_compacts:
  assumes "targets_ok F" "set ds \<subseteq> {..< num_states F}"
  shows "del_states F ds = Inr (deleted (set ds) F)"
  by (rule del_states_eq [OF assms])

theorem del_states_compacts_witness: "del_states demo_fst [0] = Inr (deleted {0} demo_fst)"
proof -
  have "num_states demo_fst = 2" by (simp add: demo_fst_states)
  then show ?thesis
    using del_states_compacts [of demo_fst "[0]"] demo_fst_targets by simp
qed

text \<open>
  C3: \<open>tr_sum\<close> leaves one transition per pair of labels and target, in sorted order, whose weight is
  the sum of the weights of the transitions it replaces, taken in their original order; the property
  bits it stores are sound.
\<close>

theorem tr_sum_merges:
  assumes "tr_sum W F = Inr G"
  shows "num_states G = num_states F \<and> start_state G = start_state F \<and>
    (\<forall>k < num_states F.
       map tr_key (trs (state_of G k)) = sorted_list_of_set (tr_key ` set (trs (state_of F k))) \<and>
       (\<forall>t \<in> set (trs (state_of G k)). group_sum W (trs (state_of F k)) t)) \<and>
    (props_sound W F \<longrightarrow> props_sound W G)"
  using tr_sum_spec [OF assms] by (auto simp: sums_fst_def sums_state_def)

definition demo_parallel :: "32 word vfst" where
  "demo_parallel = \<lparr>
     states = [\<lparr>final_weight = None,
       trs = [\<lparr>ilabel = 1, olabel = 2, weight = 3, nextstate = 0\<rparr>, \<lparr>ilabel = 1, olabel = 2, weight = 5, nextstate = 0\<rparr>],
       niepsilons = 0, noepsilons = 0\<rparr>],
     start_state = Some 0, isymt = None, osymt = None, properties = 0\<rparr>"

lemma demo_parallel_sum:
  "case tr_sum integer_weight demo_parallel of Inl _ \<Rightarrow> False | Inr G \<Rightarrow> map weight (trs (state_of G 0)) = [8]"
  by code_simp

theorem tr_sum_merges_witness:
  "\<exists>G. tr_sum integer_weight demo_parallel = Inr G \<and> map weight (trs (state_of G 0)) = [8] \<and>
     num_states G = 1 \<and>
     map tr_key (trs (state_of G 0)) = sorted_list_of_set (tr_key ` set (trs (state_of demo_parallel 0)))"
proof -
  obtain G where G: "tr_sum integer_weight demo_parallel = Inr G" "map weight (trs (state_of G 0)) = [8]"
    using demo_parallel_sum by (auto split: sum.splits)
  have "num_states demo_parallel = 1" by (simp add: demo_parallel_def)
  with tr_sum_merges [OF G(1)] G show ?thesis by simp
qed

text \<open>
  C4: Each string semiring satisfies every law it declares (\<open>StringWeightLeft\<close> the left distributive
  law, \<open>StringWeightRight\<close> the right one, \<open>StringWeightRestrict\<close> both, all of them idempotence), and as equations
  between results, errors included: the sum is associative, commutative and idempotent with \<open>Infinity\<close> as its
  identity, the product associative with the empty string as identity and \<open>Infinity\<close> absorbing. The sum fails
  only for two different strings in \<open>StringWeightRestrict\<close>; the distributive laws hold unless such a failing sum is
  multiplied by \<open>Infinity\<close>.
\<close>

theorem string_semirings_keep_their_flags:
  "flags_sound (string_weight t) \<and> declares (string_weight t) IDEMPOTENT \<and>
   (declares (string_weight t) LEFT_SEMIRING \<longleftrightarrow> t \<noteq> StringRight) \<and>
   (declares (string_weight t) RIGHT_SEMIRING \<longleftrightarrow> t \<noteq> StringLeft) \<and>
   sum_laws (string_weight t) a b c \<and> product_laws (string_weight t) a b c \<and>
   (is_ok (plus_w (string_weight t) a b) \<longleftrightarrow> t \<noteq> StringRestrict \<or> a = Infinity \<or> b = Infinity \<or> a = b) \<and>
   (c \<noteq> Infinity \<or> is_ok (plus_w (string_weight t) a b) \<longrightarrow>
     (t \<noteq> StringRight \<longrightarrow> distributes_left (string_weight t) a b c) \<and>
     (t \<noteq> StringLeft \<longrightarrow> distributes_right (string_weight t) a b c))"
  using string_distributes [of c t a b] string_plus_ok [of t a b]
  by (simp add: string_flags_sound string_declares string_sum_laws string_product_laws)
    (simp add: string_weight_def)

theorem string_semirings_keep_their_flags_witness:
  "distributes_left (string_weight StringRestrict) (Labels [1]) (Labels [2]) (Labels [3]) \<and>
   \<not> is_ok (plus_w (string_weight StringRestrict) (Labels [1]) (Labels [2]))"
  using string_semirings_keep_their_flags [of StringRestrict "Labels [1]" "Labels [2]" "Labels [3]"] by simp

text \<open>
  C5: The product of two weight types satisfies the laws it declares if both factors do.
\<close>

theorem product_semiring_keeps_its_flags:
  assumes "flags_sound A" "flags_sound B"
  shows "flags_sound (product_weight A B)"
  by (rule product_flags_sound [OF assms])

theorem product_semiring_keeps_its_flags_witness:
  "flags_sound (product_weight integer_weight (string_weight StringLeft))"
  by (rule product_semiring_keeps_its_flags [OF integer_flags_sound string_flags_sound])

text \<open>
  C6: In a symbol table made by any sequence of \<open>new\<close>, \<open>empty\<close>, parsing, \<open>add_symbol\<close>, \<open>add_symbols\<close> and \<open>add_table\<close>
  (not \<open>add_symbol_with_key\<close>, which breaks it), with at most \<open>2 ^ 32\<close> entries, the two lookups are inverse to each other.
  A further \<open>add_symbol\<close> returns the label under which its symbol is then found, both ways, and moves no other symbol.
\<close>

theorem symbol_lookups_are_inverse:
  assumes "symt_built s" "symt_len s \<le> 2 ^ 32"
  shows "(get_label s sy = Some l \<longleftrightarrow> get_symbol s l = Some sy) \<and>
    (get_label s sy = Some l \<longrightarrow> get_label (fst (add_symbol s new)) sy = Some l) \<and>
    get_label (fst (add_symbol s new)) new = Some (snd (add_symbol s new)) \<and>
    (symt_len (fst (add_symbol s new)) \<le> 2 ^ 32 \<longrightarrow>
      get_symbol (fst (add_symbol s new)) (snd (add_symbol s new)) = Some new)"
  using get_symbol_label_iff [OF symt_built_ok [OF assms(1)] assms(2)] add_symbol_lookup [OF symt_built_ok [OF assms(1)]]
  by (simp add: add_symbol_label add_symbol_stable)

theorem symbol_lookups_are_inverse_witness:
  "get_label (add_symbols symt_new [''a'']) ''a'' = Some 1 \<longleftrightarrow> get_symbol (add_symbols symt_new [''a'']) 1 = Some ''a''"
proof -
  have "symt_len (add_symbols symt_new [''a'']) = 2"
    by (simp add: add_symbols_def add_symbol_def get_id_or_insert_def symt_new_eq EPS_SYMBOL_def symt_len_def)
  with symbol_lookups_are_inverse [OF symt_built.adds [OF symt_built.new], of "[''a'']" "''a''" 1] show ?thesis by simp
qed

definition demo_trim :: "bool vfst" where
  "demo_trim = \<lparr>
     states = [
       \<lparr>final_weight = None, trs = [\<lparr>ilabel = 1, olabel = 2, weight = True, nextstate = 1\<rparr>,
          \<lparr>ilabel = 3, olabel = 4, weight = True, nextstate = 2\<rparr>], niepsilons = 0, noepsilons = 0\<rparr>,
       \<lparr>final_weight = Some True, trs = [\<lparr>ilabel = 5, olabel = 0, weight = True, nextstate = 0\<rparr>],
         niepsilons = 0, noepsilons = 1\<rparr>,
       \<lparr>final_weight = None, trs = [], niepsilons = 0, noepsilons = 0\<rparr>],
     start_state = Some 0, isymt = None, osymt = None, properties = 0\<rparr>"

lemma demo_trim_ok: "fst_ok boolean_weight demo_trim" "num_states demo_trim = 3" "targets_ok demo_trim"
proof -
  show t: "targets_ok demo_trim" by (auto simp: targets_ok_def demo_trim_def)
  then show "fst_ok boolean_weight demo_trim"
    by (simp add: fst_ok_def props_sound_def eps_counts_ok_def state_counts_ok_def demo_trim_def count_ieps_def count_oeps_def EPS_LABEL_def)
  show "num_states demo_trim = 3" by (simp add: demo_trim_def)
qed

text \<open>
  C7: \<open>connect\<close> on a well-formed transducer succeeds; in the result every state is accessible and
  co-accessible, the property bits are sound, and the transduction is the same.
\<close>

theorem connect_trims:
  assumes "fst_ok W F" "num_states F < 2 ^ 31"
  shows "\<exists>G. connect F = Inr G \<and> fst_ok W G \<and>
    (\<forall>s < num_states G. accessible_state G s \<and> coaccessible_state G s) \<and>
    transduces mul G = transduces mul F"
proof -
  have t: "targets_ok F" and p: "props_sound W F" using assms(1) by (auto simp: fst_ok_def)
  show ?thesis
  proof (cases "contains (properties F) (ACCESSIBLE OR COACCESSIBLE)")
    case True
    then have "bit (properties F) (pos_bit Accessible)" "bit (properties F) (pos_bit Coaccessible)"
      by (simp_all add: contains_or)
    then have "sem W F Accessible" "sem W F Coaccessible" using p unfolding props_sound_def by (blast dest: bits_soundD)+
    with True assms(1) connect_eq [OF t assms(2)] show ?thesis by simp
  next
    case False
    have "transduces mul (trimmed F) = transduces mul F" using trimmed_transduces [OF t] by (simp add: fun_eq_iff)
    moreover have "\<forall>s < num_states (trimmed F). accessible_state (trimmed F) s \<and> coaccessible_state (trimmed F) s"
      using trimmed_ok [OF assms(1)] trimmed_trim [OF t]
      by (simp add: trimmed_def set_properties_with_mask_def accessible_state_def coaccessible_state_def is_final_state_def
          edges_def arcs_def)
    ultimately show ?thesis using False connect_eq [OF t assms(2)] trimmed_ok [OF assms(1)] by simp
  qed
qed

theorem connect_trims_witness:
  "\<exists>G. connect demo_trim = Inr G \<and> fst_ok boolean_weight G \<and>
    (\<forall>s < num_states G. accessible_state G s \<and> coaccessible_state G s) \<and>
    transduces (\<and>) G = transduces (\<and>) demo_trim"
  by (rule connect_trims [OF demo_trim_ok(1)]) (simp add: demo_trim_ok)

lemma demo_trim_connects: "\<exists>G. connect demo_trim = Inr G \<and> num_states G = 2"
proof -
  have "case connect demo_trim of Inl _ \<Rightarrow> False | Inr G \<Rightarrow> num_states G = 2" by code_simp
  then show ?thesis by (auto split: sum.splits)
qed

text \<open>
  C8: After a visit with \<open>SccVisitor\<close> the coaccessibility vector is right, the component numbers are equal
  exactly for states that reach each other and grow along transitions, and the bits for cyclic,
  cyclic at the start state, accessible and co-accessible hold exactly when the transducer is so.
\<close>

theorem scc_visitor_reports:
  assumes "targets_ok F" "num_states F < 2 ^ 31" "start_state F = Some i"
  shows "\<exists>v. dfs_visit F (scc_callbacks F) any_filter False (scc_visitor_new F True True) = Inr v \<and>
    sv_start v = i \<and> scc_report F v"
  by (rule scc_visit [OF assms])

theorem scc_visitor_reports_witness:
  "\<exists>v. dfs_visit demo_trim (scc_callbacks demo_trim) any_filter False (scc_visitor_new demo_trim True True) = Inr v \<and>
    sv_start v = 0 \<and> scc_report demo_trim v"
  by (rule scc_visitor_reports [OF demo_trim_ok(3)]) (simp_all add: demo_trim_ok demo_trim_def)

text \<open>
  C9: A depth-first visit of a transducer whose targets are in range returns, whatever the visitor and the
  filter, if the visitor's \<open>finish_state\<close> does not panic.
\<close>

theorem dfs_visit_returns:
  assumes "targets_ok F" "\<forall>s p ot v. is_ok (v_finish_state V s p ot v)"
  shows "\<exists>v'. dfs_visit F V keep access_only v = Inr v'"
  by (rule dfs_visit_total [OF assms])

definition counting_visitor :: "('w, nat) visitor" where
  "counting_visitor = \<lparr>v_init_visit = \<lambda>v. v, v_init_state = \<lambda>s r v. (v + 1, True), v_tree_tr = \<lambda>s t v. (v, True),
     v_back_tr = \<lambda>s t v. (v, True), v_forward_or_cross_tr = \<lambda>s t v. (v, True),
     v_finish_state = \<lambda>s p ot v. Inr v, v_finish_visit = \<lambda>v. v\<rparr>"

theorem dfs_visit_returns_witness: "\<exists>n. dfs_visit demo_trim counting_visitor any_filter False 0 = Inr n"
  by (rule dfs_visit_returns [OF demo_trim_ok(3)]) (simp add: counting_visitor_def)

text \<open>
  C10: The closure of a transducer relates exactly the concatenations of one or more pairs it relates, with
  the product of their weights; \<open>ClosureStar\<close> relates the empty strings with weight one as well.
\<close>

theorem closure_relates_chains:
  assumes "weight_monoids W add mul" "targets_ok F"
  shows "transduces mul (closure W F ct) x y w \<longleftrightarrow>
    ct = ClosureStar \<and> x = [] \<and> y = [] \<and> w = one_w W \<or> chain mul (transduces mul F) x y w"
  by (rule weight_monoids.closure_transduces [OF assms])

theorem closure_relates_chains_witness:
  "transduces (\<and>) (closure boolean_weight demo_trim ClosureStar) [] [] True"
  by (subst closure_relates_chains [OF bool_sr.weight_monoids_axioms demo_trim_ok(3)]) (simp add: boolean_weight_def)

text \<open>
  C11: The concatenation of two transducers relates exactly the concatenations of a pair of the first and a
  pair of the second, with the product of the weights.
\<close>

theorem concat_relates_pairs:
  assumes "weight_monoids W add mul" "targets_ok F1" "targets_ok F2" "fst_concat W F1 F2 = Inr G"
  shows "transduces mul G x y w \<longleftrightarrow> (\<exists>x1 y1 w1 x2 y2 w2. transduces mul F1 x1 y1 w1 \<and>
    transduces mul F2 x2 y2 w2 \<and> x = x1 @ x2 \<and> y = y1 @ y2 \<and> w = mul w1 w2)"
  by (rule weight_monoids.fst_concat_transduces [OF assms])

theorem concat_relates_pairs_witness:
  "\<exists>G. fst_concat boolean_weight demo_trim demo_trim = Inr G \<and>
    (transduces (\<and>) G [] [] True \<longleftrightarrow> (\<exists>x1 y1 w1 x2 y2 w2. transduces (\<and>) demo_trim x1 y1 w1 \<and>
      transduces (\<and>) demo_trim x2 y2 w2 \<and> [] = x1 @ x2 \<and> [] = y1 @ y2 \<and> True = (w1 \<and> w2)))"
proof -
  obtain G where G: "fst_concat boolean_weight demo_trim demo_trim = Inr G" by (simp add: fst_concat_eq)
  note iff = concat_relates_pairs [OF bool_sr.weight_monoids_axioms demo_trim_ok(3,3) G, of "[]" "[]" True]
  show ?thesis by (rule exI [of _ G], rule conjI [OF G iff])
qed

text \<open>
  C12: The reversal of a transducer relates the reversed strings, each with the reversed weight. The weight
  reversal is the one of the weight type; it turns products around and keeps one.
\<close>

theorem reverse_relates_reversals:
  assumes "weight_monoids W add mul" and "\<And>w. rv w = Inr (r w)" and "targets_ok F" and "reverse_fst V rv F = Inr G"
    and "\<And>a b. r (mul a b) = mul' (r b) (r a)" and "one_w V = r (one_w W)"
  shows "transduces mul' G x y w \<longleftrightarrow> (\<exists>v. transduces mul F (rev x) (rev y) v \<and> w = r v)"
  by (rule weight_monoids.reverse_fst_transduces [OF assms])

theorem reverse_relates_reversals_witness:
  "\<exists>G. reverse_fst boolean_weight Inr demo_trim = Inr G \<and>
    (transduces (\<and>) G [1] [2] True \<longleftrightarrow> (\<exists>v. transduces (\<and>) demo_trim (rev [1]) (rev [2]) v \<and> True = v))"
proof -
  have "is_ok (reverse_fst boolean_weight Inr demo_trim)" by code_simp
  then obtain G where G: "reverse_fst boolean_weight Inr demo_trim = Inr G" by (auto simp: is_ok_iff)
  have "transduces (\<and>) G [1] [2] True \<longleftrightarrow> (\<exists>v. transduces (\<and>) demo_trim (rev [1]) (rev [2]) v \<and> True = v)"
    by (rule reverse_relates_reversals [where r = "\<lambda>w. w", OF bool_sr.weight_monoids_axioms _ demo_trim_ok(3) G]) auto
  with G show ?thesis by (intro exI [of _ G] conjI)
qed

text \<open>
  C13: \<open>top_sort\<close> on a well-formed transducer with a start state succeeds and keeps the transduction. If
  there is a cycle the states stay where they are; otherwise they are permuted so that every transition
  goes to a larger state, the start state with them.
\<close>

theorem top_sort_orders:
  assumes "fst_ok W F" "start_state F = Some i"
  shows "\<exists>G. top_sort W F = Inr G \<and> fst_ok W G \<and> transduces mul G = transduces mul F \<and>
    (if \<exists>x. cyclic_at F x then states G = states F \<and> start_state G = Some i
     else (\<forall>(x, y) \<in> edges G. x < y) \<and>
       (\<exists>order. perm_order order (num_states F) \<and> copy_of ((!) order) F G))"
  by (rule top_sort_spec [OF assms])

theorem top_sort_orders_witness:
  "\<exists>G. top_sort boolean_weight demo_trim = Inr G \<and> fst_ok boolean_weight G \<and>
    transduces (\<and>) G = transduces (\<and>) demo_trim \<and>
    (if \<exists>x. cyclic_at demo_trim x then states G = states demo_trim \<and> start_state G = Some 0
     else (\<forall>(x, y) \<in> edges G. x < y) \<and>
       (\<exists>order. perm_order order (num_states demo_trim) \<and> copy_of ((!) order) demo_trim G))"
  by (rule top_sort_orders [OF demo_trim_ok(1)]) (simp add: demo_trim_def)

text \<open>
  C14: \<open>top_sort\<close> on a transducer that has states but no start state fails: the order the visit
  leaves is empty.
\<close>

theorem top_sort_needs_a_start:
  assumes "start_state F = None" "states F \<noteq> []"
  shows "top_sort W F = Inl (Bail ''StateSort : Bad order vector size'')"
  using top_sort_no_start [OF assms(1)] assms(2) by simp

theorem top_sort_needs_a_start_witness:
  "top_sort boolean_weight (fst (add_state vfst_new)) = Inl (Bail ''StateSort : Bad order vector size'')"
  by (rule top_sort_needs_a_start) (simp_all add: add_state_def vfst_new_def)

text \<open>
  C15: The constructions keep the invariant of the type: closure, concatenation and the super final state
  of well-formed transducers are well formed (sound property bits, exact epsilon counters, targets in
  range).
\<close>

theorem constructions_stay_well_formed:
  assumes "weight_monoids W add mul" "fst_ok W F" "fst_ok W F'"
  shows "fst_ok W (closure W F ct) \<and> (\<forall>G. fst_concat W F F' = Inr G \<longrightarrow> fst_ok W G) \<and>
    fst_ok W (fst (add_super_final_state W F))"
proof (intro conjI allI impI)
  have eq: "eq_w W a b \<longleftrightarrow> a = b" for a b by (rule weight_monoids.eq_ok [OF assms(1)])
  show "fst_ok W (closure W F ct)" by (rule closure_ok [OF assms(2)]) (simp add: eq)
  show "fst_ok W G" if "fst_concat W F F' = Inr G" for G by (rule fst_concat_ok [OF assms(2,3) that])
  show "fst_ok W (fst (add_super_final_state W F))"
    using add_super_final_state_spec(3) [OF _ fst_okD(3) [OF assms(2)] eq] assms(2) by (cases "add_super_final_state W F") auto
qed

theorem constructions_stay_well_formed_witness:
  "fst_ok boolean_weight (closure boolean_weight demo_trim ClosurePlus)"
  using constructions_stay_well_formed [OF bool_sr.weight_monoids_axioms demo_trim_ok(1,1)] by blast

text \<open>
  C16: Inverting twice gives back the states; inverting once swaps the two sides of the transduction.
\<close>

theorem invert_is_an_involution:
  assumes "eps_counts_ok F"
  shows "states (invert (invert F)) = states F \<and> transduces mul (invert F) x y w = transduces mul F y x w"
  by (simp add: invert_twice [OF assms] invert_transduces)

theorem invert_is_an_involution_witness:
  "states (invert (invert demo_trim)) = states demo_trim \<and>
    transduces (\<and>) (invert demo_trim) [2] [1] True = transduces (\<and>) demo_trim [1] [2] True"
  by (rule invert_is_an_involution) (use demo_trim_ok(1) in \<open>simp add: fst_ok_def\<close>)

text \<open>
  C17: Projection relates each string of one side to itself, with the weights of the pairs it occurs in.
\<close>

theorem project_relates_one_side:
  "transduces mul (project F pt) x y w \<longleftrightarrow> x = y \<and> (\<exists>z. case pt of
     ProjectInput \<Rightarrow> transduces mul F x z w | ProjectOutput \<Rightarrow> transduces mul F z y w)"
  using project_transduces [of mul F x y w] by (cases pt) simp_all

text \<open>
  C18: \<open>add_super_final_state\<close> leaves exactly one final state, the one it returns, of weight one, and keeps
  the transduction.
\<close>

theorem super_final_state_is_alone:
  assumes "weight_monoids W add mul" "targets_ok F" "add_super_final_state W F = (G, f)"
  shows "(final_at G s w \<longleftrightarrow> s = f \<and> w = one_w W) \<and> transduces mul G = transduces mul F"
  using add_super_final_state_spec(1) [OF assms(3,2) weight_monoids.eq_ok [OF assms(1)]]
    weight_monoids.add_super_final_state_transduces [OF assms(1,3,2)] by (auto simp: fun_eq_iff)

theorem super_final_state_is_alone_witness:
  "\<exists>G f. add_super_final_state boolean_weight demo_trim = (G, f) \<and>
    (final_at G 1 True \<longleftrightarrow> 1 = f \<and> True = one_w boolean_weight) \<and> transduces (\<and>) G = transduces (\<and>) demo_trim"
proof -
  obtain G f where G: "add_super_final_state boolean_weight demo_trim = (G, f)" by fastforce
  note alone = super_final_state_is_alone [OF bool_sr.weight_monoids_axioms demo_trim_ok(3) G, of 1 True]
  show ?thesis by (rule exI [of _ G], rule exI [of _ f], rule conjI [OF G alone])
qed

text \<open>
  C19: \<open>relabel_pairs\<close> fails exactly if a label is given twice on one side; otherwise every transition is
  relabelled, everything else stays, and the property bits remain sound.
\<close>

theorem relabel_pairs_checks_keys:
  "if distinct (map fst ipairs) \<and> distinct (map fst opairs)
   then \<exists>G. relabel_pairs F ipairs opairs = Inr G \<and> rewritten (relabel_tr (map_of ipairs) (map_of opairs)) F G \<and>
     {W. props_sound W F} \<subseteq> {W. props_sound W G}
   else relabel_pairs F ipairs opairs = Inl (Bail ''State is present twice in the relabeling pairs'')"
proof (cases "distinct (map fst ipairs) \<and> distinct (map fst opairs)")
  case True
  then obtain G where "relabel_pairs F ipairs opairs = Inr G" "rewritten (relabel_tr (map_of ipairs) (map_of opairs)) F G"
    using relabel_pairs_spec [of ipairs opairs F] by blast
  moreover from this(1) True have "props_sound W F \<Longrightarrow> props_sound W G" for W
    using relabel_pairs_spec [of ipairs opairs F W] by auto
  ultimately show ?thesis using True by auto
next
  case False
  then show ?thesis
    by (cases "distinct (map fst ipairs)") (auto simp: relabel_pairs_def iterator_to_hashmap_ok)
qed

text \<open>
  C20: \<open>del_states\<close> panics if one of the given states does not exist.
\<close>

theorem del_states_panics_out_of_range:
  assumes "d \<in> set ds" "num_states F \<le> d"
  shows "del_states F ds = Inl (Panic ''index out of bounds'')"
  by (rule del_states_panic) (use assms in force)

theorem del_states_panics_out_of_range_witness:
  "del_states demo_trim [0, 5] = Inl (Panic ''index out of bounds'')"
  by (rule del_states_panics_out_of_range [of 5]) (simp_all add: demo_trim_ok)

text \<open>
  C21: \<open>tr_sort\<close> permutes the transitions of every state into label order, keeps the final weights and the
  invariant of the type.
\<close>

theorem tr_sort_sorts:
  assumes "fst_ok W F" "s < num_states F"
  shows "mset (trs (state_of (tr_sort F c) s)) = mset (trs (state_of F s)) \<and>
    sorted (map (case c of ILabelCompare \<Rightarrow> ilabel | OLabelCompare \<Rightarrow> olabel) (trs (state_of (tr_sort F c) s))) \<and>
    final_weight (state_of (tr_sort F c) s) = final_weight (state_of F s) \<and> fst_ok W (tr_sort F c)"
proof -
  have "fst_ok W (tr_sort F c)" unfolding fst_ok_def
    by (intro conjI tr_sort_sound tr_sort_ok fst_okD [OF assms(1)])
  with assms(2) show ?thesis by (cases c) (simp_all add: tr_sort_eq)
qed

theorem tr_sort_sorts_witness:
  "sorted (map olabel (trs (state_of (tr_sort demo_trim OLabelCompare) 0)))"
  using tr_sort_sorts [OF demo_trim_ok(1), of 0 OLabelCompare] by (simp add: demo_trim_ok)

text \<open>
  C22: \<open>tr_unique\<close> leaves a sublist of the sorted transitions in which no two neighbours are equal, and drops only
  transitions that equal, weight included, one that stays; the invariant of the type is kept.
\<close>

theorem tr_unique_deduplicates:
  assumes "fst_ok W F" "s < num_states F"
  shows "subseq (trs (state_of (tr_unique W F) s)) (sort_key tr_key (trs (state_of F s))) \<and>
    (\<forall>t \<in> set (trs (state_of F s)). \<exists>u \<in> set (trs (state_of (tr_unique W F) s)). u = t \<or> tr_eq W t u) \<and>
    tr_key ` set (trs (state_of (tr_unique W F) s)) = tr_key ` set (trs (state_of F s)) \<and>
    successively (\<lambda>t u. \<not> tr_eq W u t) (trs (state_of (tr_unique W F) s)) \<and> fst_ok W (tr_unique W F)"
proof -
  have "fst_ok W (tr_unique W F)" unfolding fst_ok_def
    by (intro conjI tr_unique_sound tr_unique_ok fst_okD [OF assms(1)])
  moreover have "state_of (tr_unique W F) s = unique_state W (state_of F s)"
    using assms(2) by (simp add: tr_unique_def unique_loop Let_def)
  moreover have "\<exists>u \<in> set (trs (unique_state W (state_of F s))). u = t \<or> tr_eq W t u" if "t \<in> set (trs (state_of F s))" for t
    using dedup_represented [of t "sort_key tr_key (trs (state_of F s))" "tr_eq W"] that by simp
  ultimately show ?thesis using unique_state_set(2) [of W "state_of F s"] by (simp add: dedup_subseq dedup_successively)
qed

theorem tr_unique_deduplicates_witness:
  "successively (\<lambda>t u. \<not> tr_eq boolean_weight u t) (trs (state_of (tr_unique boolean_weight demo_trim) 0))"
  using tr_unique_deduplicates [OF demo_trim_ok(1), of 0] by (simp add: demo_trim_ok)

text \<open>
  C23: For a transducer with a start state, fewer than \<open>2 ^ 31\<close> states and no final weight of zero,
  \<open>compute_fst_properties\<close> returns, for every pair of flags the mask asks for, exactly the flag that holds of the
  transducer, and no wrong flag at all; with \<open>use_stored\<close> the stored flags serve if they suffice. Without a start state
  the code returns wrong accessibility and acyclicity flags; zero final weights it counts as weighted.
\<close>

theorem computed_properties_are_exact:
  assumes "fst_ok W F" "num_states F < 2 ^ 31" "start_state F = Some i" "finals_nonzero W F"
  shows "\<exists>p. compute_fst_properties W F req use_stored = Inr (p, known_properties p) \<and> bits_sound W F p \<and>
    (\<forall>q. bit req (pos_bit q) \<or> bit req (Suc (pos_bit q)) \<longrightarrow>
       (bit p (pos_bit q) \<longleftrightarrow> sem W F q) \<and> (bit p (Suc (pos_bit q)) \<longleftrightarrow> \<not> sem W F q))"
  using compute_fst_properties_spec [OF assms, of req use_stored] by (simp add: bits_exact_def)

theorem computed_properties_are_exact_witness:
  "\<exists>p. compute_fst_properties boolean_weight demo_trim CYCLIC False = Inr (p, known_properties p) \<and>
    (bit p (pos_bit Cyclic) \<longleftrightarrow> sem boolean_weight demo_trim Cyclic)"
proof -
  have "finals_nonzero boolean_weight demo_trim"
    by (auto simp: finals_nonzero_def demo_trim_def boolean_weight_def nth_Cons is_zero_def less_Suc_eq)
  from computed_properties_are_exact [OF demo_trim_ok(1) _ _ this, of 0 CYCLIC False] obtain p where
    p: "compute_fst_properties boolean_weight demo_trim CYCLIC False = Inr (p, known_properties p)"
    "\<forall>q. bit CYCLIC (pos_bit q) \<or> bit CYCLIC (Suc (pos_bit q)) \<longrightarrow>
       (bit p (pos_bit q) \<longleftrightarrow> sem boolean_weight demo_trim q) \<and> (bit p (Suc (pos_bit q)) \<longleftrightarrow> \<not> sem boolean_weight demo_trim q)"
    by (auto simp: demo_trim_ok demo_trim_def)
  have "bit CYCLIC (pos_bit Cyclic)" by (simp add: flag_bits)
  with p show ?thesis by blast
qed

text \<open>
  C24: over a semiring whose one absorbs every weight, and in which no weight can be improved for ever,
  \<open>shortest_distance\<close> returns with the queue that \<open>AutoQueue\<close> chose. Entry \<open>t\<close> of the vector (zero past its end) is
  a sum of weights of paths from the start state to \<open>t\<close> that absorbs the weight of every such path.
\<close>

theorem shortest_distance_is_shortest:
  assumes "bounded_semiring W add mul" "wf (improves add)" "declares W RIGHT_SEMIRING"
    and "fst_ok W F" "num_states F < 2 ^ 31" "start_state F = Some i" "\<forall>x y. approx x y \<longleftrightarrow> x = y"
  shows "\<exists>d. shortest_distance_with_config W V rv rb approx approx' F False = Some (Inr d) \<and> i < length d \<and> length d \<le> num_states F \<and>
    (\<forall>t. shortest_dist W add mul F any_filter i t (val (zero_w W) d t))"
  unfolding shortest_distance_with_config_def using forward_correct [OF assms] by simp

theorem shortest_distance_is_shortest_witness:
  "\<exists>d. shortest_distance_with_config boolean_weight boolean_weight Inr Inr (=) (=) demo_trim False = Some (Inr d) \<and> length d \<le> 3 \<and>
    (\<forall>t. shortest_dist boolean_weight (\<or>) (\<and>) demo_trim any_filter 0 t (val False d t))"
proof -
  have r: "declares boolean_weight RIGHT_SEMIRING" by code_simp
  have i: "start_state demo_trim = Some 0" by (simp add: demo_trim_def)
  have n: "num_states demo_trim < 2 ^ 31" by (simp add: demo_trim_ok(2))
  have "\<forall>x y :: bool. (x = y) \<longleftrightarrow> x = y" by simp
  from shortest_distance_is_shortest [OF bool_bounded.bounded_semiring_axioms bool_improves r demo_trim_ok(1) n i this,
      of boolean_weight Inr Inr "(=)"]
  show ?thesis unfolding demo_trim_ok(2) by (auto simp: boolean_weight_def)
qed

text \<open>
  C25: with \<open>reverse\<close>, over booleans, entry \<open>s\<close> of the vector says whether some path of weight one leads from
  \<open>s\<close> to a final state.
\<close>

theorem reverse_distance_is_coaccessibility:
  assumes "fst_ok boolean_weight F" "num_states F + 1 < 2 ^ 31"
  shows "\<exists>d. shortest_distance_with_config boolean_weight boolean_weight Inr Inr (=) (=) F True = Some (Inr d) \<and>
    length d \<le> num_states F \<and> (\<forall>s. val False d s \<longleftrightarrow> (\<exists>x y. accepts (\<and>) F s x y True))"
proof -
  have r: "declares boolean_weight RIGHT_SEMIRING" by code_simp
  have "\<exists>d. shortest_distance_with_config boolean_weight boolean_weight Inr Inr (=) (=) F True = Some (Inr d) \<and>
    length d \<le> num_states F \<and> (\<forall>s. final_dist boolean_weight (\<or>) (\<and>) F s (val (zero_w boolean_weight) d s))"
    by (rule bool_reversed.reverse_correct [OF _ _ bool_improves r assms]) simp_all
  moreover have "d \<longleftrightarrow> (\<exists>x y. accepts (\<and>) F s x y True)" if "final_dist boolean_weight (\<or>) (\<and>) F s d" for s d
    by (rule final_dist_bool [OF that])
  ultimately show ?thesis by (auto simp: boolean_weight_def)
qed

theorem reverse_distance_is_coaccessibility_witness:
  "\<exists>d. shortest_distance_with_config boolean_weight boolean_weight Inr Inr (=) (=) demo_trim True = Some (Inr d) \<and>
    length d \<le> num_states demo_trim \<and> (\<forall>s. val False d s \<longleftrightarrow> (\<exists>x y. accepts (\<and>) demo_trim s x y True))"
  by (rule reverse_distance_is_coaccessibility [OF demo_trim_ok(1)]) (simp add: demo_trim_ok(2))

text \<open>
  C26: a \<open>StateOrderQueue\<close> refines the finite set of the states that wait: enqueue inserts, dequeue removes the
  least state, clear empties, and \<open>is_empty\<close> answers for the set.
\<close>

theorem state_order_queue_refines_a_set:
  assumes "so_ok q"
  shows "(\<exists>q'. so_enqueue s q = Inr q' \<and> so_ok q' \<and> so_elems q' = insert s (so_elems q)) \<and>
    so_dequeue q \<noteq> Inr (None, q) = (so_elems q \<noteq> {}) \<and>
    (so_elems q \<noteq> {} \<longrightarrow> (\<exists>q'. so_dequeue q = Inr (Some (Min (so_elems q)), q') \<and> so_ok q' \<and>
      so_elems q' = so_elems q - {Min (so_elems q)})) \<and>
    (\<exists>q'. so_clear q = Inr q' \<and> so_ok q' \<and> so_elems q' = {}) \<and> so_is_empty q = (so_elems q = {})"
  using so_enqueue_spec [OF assms, of s] so_dequeue_spec [OF assms] so_clear_spec [OF assms] so_is_empty_iff [OF assms]
  by (cases "so_elems q = {}") (auto simp: so_dequeue_def)

theorem state_order_queue_refines_a_set_witness:
  "\<exists>q. so_enqueue 7 so_new = Inr q \<and> so_elems q = {7}"
  using state_order_queue_refines_a_set [OF so_new_ok(1), of 7] so_new_ok(2) by auto

text \<open>
  C27: a \<open>CmpHeap\<close> refines a multiset. A push adds its element; a pop takes out an element that no other exceeds, in
  the total preorder that the closure decides by its answers: \<open>x\<close> exceeds \<open>y\<close> exactly if the answer on \<open>x\<close> and \<open>y\<close> is
  \<open>Greater\<close>. Both keep the heap order. The repository gives the order of the items; the sifting is that of \<open>BinaryHeap\<close>.
\<close>

theorem cmp_heap_refines_a_multiset:
  assumes "decides cmp R (insert x (set h))" "heap_ordered R h"
  shows "(\<exists>h'. heap_push cmp x h = Inr h' \<and> mset h' = add_mset x (mset h) \<and> heap_ordered R h') \<and>
    (if h = [] then heap_pop cmp h = Inr (None, [])
     else \<exists>m h'. heap_pop cmp h = Inr (Some m, h') \<and> add_mset m (mset h') = mset h \<and> heap_ordered R h' \<and> (\<forall>y \<in> set h. R y m))"
proof -
  have d: "decides cmp R (set h)" using assms(1) unfolding decides_def by blast
  from heap_push_keeps [OF decides_answers [OF assms(1)]] heap_push_ordered [OF assms]
  have "\<exists>h'. heap_push cmp x h = Inr h' \<and> mset h' = add_mset x (mset h) \<and> heap_ordered R h'" by blast
  moreover have "\<exists>m h'. heap_pop cmp h = Inr (Some m, h') \<and> add_mset m (mset h') = mset h \<and> heap_ordered R h' \<and> (\<forall>y \<in> set h. R y m)"
    if ne: "h \<noteq> []"
  proof -
    from heap_pop_keeps [OF decides_answers [OF d] ne] obtain h' where
      h': "heap_pop cmp h = Inr (Some (hd h), h')" "add_mset (hd h) (mset h') = mset h" by blast
    have "\<forall>y \<in> set h. R y (hd h)" using heap_top [OF d assms(2)] ne by (auto simp: in_set_conv_nth hd_conv_nth)
    with h' heap_pop_ordered [OF d assms(2) ne h'(1)] show ?thesis by blast
  qed
  ultimately show ?thesis by (simp add: heap_pop_def)
qed

definition nat_cmp :: "nat \<Rightarrow> nat \<Rightarrow> ordering res" where
  "nat_cmp a b = Inr (if a < b then Less else if a = b then Equal else Greater)"

theorem cmp_heap_refines_a_multiset_witness:
  "\<exists>h'. heap_push nat_cmp 9 [5, 3] = Inr h' \<and> mset h' = {#9, 5, 3#} \<and> heap_ordered (\<le>) h'"
proof -
  have "decides nat_cmp (\<le>) (insert 9 (set [5, 3]))" by (auto simp: decides_def nat_cmp_def)
  moreover have "heap_ordered (\<le>) [5, 3 :: nat]" by (auto simp: heap_ordered_def less_Suc_eq)
  ultimately show ?thesis using cmp_heap_refines_a_multiset by fastforce
qed

text \<open>
  C28: an \<open>SccQueue\<close> serves a state of the first component that waits, keeps the others, and afterwards takes the
  states of that component and of the later ones. Component numbers are below \<open>2 ^ 31\<close>, where \<open>as i32\<close> keeps them.
\<close>

theorem scc_queue_serves_in_component_order:
  assumes "sq_ok W sccs n q" "sq_elems q \<noteq> {}"
  shows "\<exists>s q'. sq_dequeue W q = Inr (Some s, q') \<and> sq_ok W sccs n q' \<and> s \<in> sq_elems q \<and> sq_elems q - {s} \<subseteq> sq_elems q' \<and>
    (\<forall>r \<in> sq_elems q. sccs ! s \<le> sccs ! r) \<and>
    (\<forall>t < length sccs. sccs ! s \<le> sccs ! t \<longrightarrow> (\<exists>q''. sq_enqueue W t q' = Inr q'' \<and> sq_ok W sccs n q'' \<and> sq_elems q'' = insert t (sq_elems q')))"
proof -
  from sq_dequeue_spec [OF assms] obtain s q' where *: "sq_dequeue W q = Inr (Some s, q')" "sq_ok W sccs n q'" "s \<in> sq_elems q"
    "sq_elems q - {s} \<subseteq> sq_elems q'" "\<forall>r \<in> sq_elems q. sccs ! s \<le> sccs ! r"
    "\<forall>t < length sccs. sccs ! s \<le> sccs ! t \<longrightarrow> sq_valid q' t" by blast
  with sq_enqueue_spec [OF *(2)] show ?thesis by (intro exI [of _ s] exI [of _ q']) simp
qed

definition demo_sq :: "bool scc_queue" where
  "demo_sq = \<lparr>sq_front = 0, sq_back = 1, sq_queues = [InnerFifo [2, 0], InnerTrivial (Some 1)], sq_sccs = [0, 1, 0]\<rparr>"

theorem scc_queue_serves_in_component_order_witness:
  "\<exists>s q'. sq_dequeue boolean_weight demo_sq = Inr (Some s, q') \<and> s \<in> {0, 1, 2}"
proof -
  have c: "component [0, 1, 0] 0 = {0, 2}" "component [0, 1, 0] 1 = {1}"
    by (auto simp: component_def less_Suc_eq numeral_2_eq_2)
  have ok: "sq_ok boolean_weight [0, 1, 0] 2 demo_sq"
    unfolding sq_ok_def demo_sq_def by (auto simp: less_Suc_eq numeral_2_eq_2 inner_ok_def c [simplified] sq_window_def)
  have e: "sq_elems demo_sq = {0, 1, 2}" by (auto simp: sq_elems_def demo_sq_def)
  from scc_queue_serves_in_component_order [OF ok] e show ?thesis by auto
qed

text \<open>
  C29: \<open>AutoQueue::new\<close> succeeds on a well-formed transducer, whatever discipline it picks; distances, if given, have to
  cover every state and their semiring has to add and multiply all weights (\<open>distance_fits\<close>). From then on
  \<open>is_empty\<close> is right, \<open>clear\<close> succeeds, \<open>enqueue\<close> succeeds for a valid state (any state after \<open>clear\<close>, the targets of the
  state served after \<open>dequeue\<close>), \<open>dequeue\<close> serves a waiting state and loses no other, and \<open>head\<close> on a queue that is not
  empty shows the state that \<open>dequeue\<close> would serve. \<open>update\<close> changes nothing, but panics for a state whose component has a
  shortest-first queue; without distances, as every caller in the crate passes none, there is no such component.
\<close>

theorem auto_queue_answers_requests:
  assumes "fst_ok W F" "num_states F < 2 ^ 31" "distance_fits W F distance"
  shows "\<exists>q. auto_queue_new W F distance any_filter = Inr q \<and> auto_ok W F q \<and>
    (distance = None \<longrightarrow> (\<forall>s < num_states F. \<not> shortest_served q s)) \<and> (\<forall>q. auto_ok W F q \<longrightarrow> auto_answers W F q)"
proof -
  from auto_queue_new_ok [OF assms] obtain q where "auto_queue_new W F distance any_filter = Inr q" "auto_ok W F q" by blast
  with auto_queue_new_plain auto_answers_all show ?thesis by blast
qed

theorem auto_queue_answers_requests_witness:
  "\<exists>q. auto_queue_new boolean_weight demo_trim None any_filter = Inr q \<and> (\<forall>s < 3. auto_update boolean_weight s q = Inr q)"
proof -
  have "num_states demo_trim < 2 ^ 31" "distance_fits boolean_weight demo_trim None" by (simp_all add: demo_trim_ok(2) distance_fits_def)
  from auto_queue_answers_requests [OF demo_trim_ok(1) this] obtain q where
    "auto_queue_new boolean_weight demo_trim None any_filter = Inr q" "\<forall>s < 3. \<not> shortest_served q s" "auto_answers boolean_weight demo_trim q"
    by (auto simp: demo_trim_ok(2))
  then show ?thesis by (auto simp: auto_answers_def demo_trim_ok(2))
qed

definition demo_self_loop :: "string_variant vfst" where
  "demo_self_loop = \<lparr>
     states = [
       \<lparr>final_weight = None, trs = [\<lparr>ilabel = 1, olabel = 1, weight = Labels [1, 2], nextstate = 2\<rparr>,
          \<lparr>ilabel = 2, olabel = 2, weight = Labels [3, 2], nextstate = 1\<rparr>], niepsilons = 0, noepsilons = 0\<rparr>,
       \<lparr>final_weight = None, trs = [\<lparr>ilabel = 1, olabel = 1, weight = Labels [2], nextstate = 1\<rparr>,
          \<lparr>ilabel = 2, olabel = 2, weight = Labels [], nextstate = 2\<rparr>], niepsilons = 0, noepsilons = 0\<rparr>,
       \<lparr>final_weight = None, trs = [\<lparr>ilabel = 1, olabel = 1, weight = Labels [], nextstate = 3\<rparr>], niepsilons = 0, noepsilons = 0\<rparr>,
       \<lparr>final_weight = None, trs = [], niepsilons = 0, noepsilons = 0\<rparr>],
     start_state = Some 0, isymt = None, osymt = None, properties = 0\<rparr>"

definition demo_fifo :: "(string_variant, state_id list) sd_config" where
  "demo_fifo = \<lparr>sd_ops = fifo_queue, sd_filter = any_filter, sd_first_path = False, sd_retain = False, sd_approx = (=)\<rparr>"

text \<open>
  After an improving self-loop the remaining transitions of the state call \<open>update\<close> in place of
  \<open>enqueue\<close> (the code tests \<open>enqueued[state]\<close>, not \<open>enqueued[nextstate]\<close>). Over right string weights a FIFO
  queue then loses state 2: the distance of state 3 misses the path 0, 1, 2, 3, whose weight is 3, 2.
\<close>

lemma demo_self_loop_loses_a_state:
  "shortest_distance_with_internal_config (string_weight StringRight) demo_self_loop demo_fifo None [] =
     Some (Inr [Labels [], Labels [2], Labels [2], Labels [1, 2]]) \<and>
   path_from (string_weight StringRight) string_times demo_self_loop any_filter 0 3 (Labels [3, 2]) \<and>
   string_add StringRight (Labels [1, 2]) (Labels [3, 2]) \<noteq> Labels [1, 2]"
proof (intro conjI)
  show "shortest_distance_with_internal_config (string_weight StringRight) demo_self_loop demo_fifo None [] =
     Some (Inr [Labels [], Labels [2], Labels [2], Labels [1, 2]])" by code_simp
  have a: "(0, \<lparr>ilabel = 2, olabel = 2, weight = Labels [3, 2], nextstate = 1\<rparr>) \<in> arcs demo_self_loop"
    "(1, \<lparr>ilabel = 2, olabel = 2, weight = Labels [], nextstate = 2\<rparr>) \<in> arcs demo_self_loop"
    "(2, \<lparr>ilabel = 1, olabel = 1, weight = Labels [], nextstate = 3\<rparr>) \<in> arcs demo_self_loop"
    by (simp_all add: arcs_def demo_self_loop_def numeral_2_eq_2)
  let ?p = "path_from (string_weight StringRight) string_times demo_self_loop any_filter 0"
  have k: "any_filter t" for t :: "string_variant tr" by (simp add: any_filter_def)
  have "?p 0 (Labels [])" using path_empty [of "string_weight StringRight" string_times demo_self_loop any_filter 0]
    by (simp add: string_weight_def)
  from path_step [OF this a(1) k] have "?p 1 (Labels [3, 2])" by simp
  from path_step [OF this a(2) k] have "?p 2 (Labels [3, 2])" by simp
  from path_step [OF this a(3) k] show "?p 3 (Labels [3, 2])" by simp
  show "string_add StringRight (Labels [1, 2]) (Labels [3, 2]) \<noteq> Labels [1, 2]" by code_simp
qed

text \<open>
  C30: \<open>relabel_tables\<close> fails without an input or an output table to read the old labels in, and exactly if some
  transition has a label that the old table does not know or whose symbol the new table does not. Otherwise every
  transition gets the labels its symbols have in the new tables, nothing else changes but the attached tables,
  and the property bits and counters remain right.
\<close>

theorem relabel_tables_translates:
  "(old_i = None \<and> isymt F = None \<longrightarrow>
     relabel_tables F old_i ni ai old_o no ao = Inl (Bail ''No input SymbolTable found'')) \<and>
   (old_o = None \<and> osymt F = None \<and> (old_i \<noteq> None \<or> isymt F \<noteq> None) \<longrightarrow>
     relabel_tables F old_i ni ai old_o no ao = Inl (Bail ''No output SymbolTable found'')) \<and>
   (\<forall>oi oo. (if old_i = None then isymt F else old_i) = Some oi \<and> (if old_o = None then osymt F else old_o) = Some oo \<longrightarrow>
     (if \<forall>(s, t) \<in> arcs F. known_tr oi ni oo no t
      then \<exists>G. relabel_tables F old_i ni ai old_o no ao = Inr G \<and>
        rewritten (table_tr oi ni oo no)
          (F\<lparr>isymt := if ai then Some ni else None, osymt := if ao then Some no else None\<rparr>) G \<and>
        (props_sound W F \<longrightarrow> props_sound W G) \<and> (eps_counts_ok F \<longrightarrow> eps_counts_ok G)
      else \<exists>msg. relabel_tables F old_i ni ai old_o no ao = Inl (Bail msg)))"
proof (intro conjI allI impI)
  fix oi oo
  assume "(if old_i = None then isymt F else old_i) = Some oi \<and> (if old_o = None then osymt F else old_o) = Some oo"
  then have "table_or old_i (isymt F) ''No input SymbolTable found'' = Inr oi"
    "table_or old_o (osymt F) ''No output SymbolTable found'' = Inr oo"
    by (auto simp: table_or_def split: option.splits if_splits)
  from relabel_tables_spec [OF this] show "if \<forall>(s, t) \<in> arcs F. known_tr oi ni oo no t
      then \<exists>G. relabel_tables F old_i ni ai old_o no ao = Inr G \<and>
        rewritten (table_tr oi ni oo no)
          (F\<lparr>isymt := if ai then Some ni else None, osymt := if ao then Some no else None\<rparr>) G \<and>
        (props_sound W F \<longrightarrow> props_sound W G) \<and> (eps_counts_ok F \<longrightarrow> eps_counts_ok G)
      else \<exists>msg. relabel_tables F old_i ni ai old_o no ao = Inl (Bail msg)"
    by (simp add: known_fst_def)
qed (auto simp: relabel_tables_def table_or_def split: option.splits)

definition demo_old_symbols :: symt where
  "demo_old_symbols = \<lparr>string_to_id = [''e'' \<mapsto> 0, ''a'' \<mapsto> 1, ''b'' \<mapsto> 2], id_to_string = [''e'', ''a'', ''b'']\<rparr>"

definition demo_new_symbols :: symt where
  "demo_new_symbols =
     \<lparr>string_to_id = [''b'' \<mapsto> 0, ''e'' \<mapsto> 1, ''c'' \<mapsto> 2, ''a'' \<mapsto> 3], id_to_string = [''b'', ''e'', ''c'', ''a'']\<rparr>"

theorem relabel_tables_translates_witness:
  "\<exists>G. relabel_tables demo_fst (Some demo_old_symbols) demo_new_symbols True (Some demo_old_symbols) demo_new_symbols False = Inr G \<and>
     map (\<lambda>t. (ilabel t, olabel t)) (trs (state_of G 0)) = [(3, 0)] \<and> osymt G = None"
proof -
  have l: "table_map demo_old_symbols demo_new_symbols 1 = Some 3" "table_map demo_old_symbols demo_new_symbols 2 = Some 0"
    by (simp_all add: table_map_def get_symbol_def get_label_def bimap_get_string_def bimap_get_id_def vec_get_def as_label_def
        demo_old_symbols_def demo_new_symbols_def)
  have "\<forall>(s, t) \<in> arcs demo_fst. known_tr demo_old_symbols demo_new_symbols demo_old_symbols demo_new_symbols t"
    by (auto simp: arcs_def demo_fst_states vstate_new_def known_tr_def l less_Suc_eq)
  with relabel_tables_translates [of "Some demo_old_symbols" demo_fst demo_new_symbols True "Some demo_old_symbols"
      demo_new_symbols False boolean_weight]
  obtain G where "relabel_tables demo_fst (Some demo_old_symbols) demo_new_symbols True (Some demo_old_symbols) demo_new_symbols False = Inr G"
    "rewritten (table_tr demo_old_symbols demo_new_symbols demo_old_symbols demo_new_symbols)
       (demo_fst\<lparr>isymt := Some demo_new_symbols, osymt := None\<rparr>) G" by auto
  then show ?thesis
    by (auto simp: rewritten_def demo_fst_states table_tr_def relabel_tr_def apply_map_def l)
qed

text \<open>
  C31: The rows of a symbol table, as \<open>Display\<close> writes them in the order of the labels, are read back by
  \<open>from_parsed_symt_text\<close> as the same table, provided no symbol is empty (\<open>iter\<close> skips those). Of any rows it
  accepts, the table has exactly them.
\<close>

theorem symbol_rows_round_trip:
  assumes "symt_built s" "'''' \<notin> set (id_to_string s)"
  shows "from_parsed_symt_text (map prod.swap (symt_iter s)) = Inr s \<and>
    (from_parsed_symt_text rows = Inr s' \<longrightarrow> (get_label s' sy = Some l \<longleftrightarrow> (sy, l) \<in> set rows))"
  using symt_iter_parses [OF symt_built_ok [OF assms(1)] assms(2)] parsed_rows by blast

theorem symbol_rows_round_trip_witness:
  "from_parsed_symt_text (map prod.swap (symt_iter (add_symbols symt_new [''a'', ''b'', ''a'']))) =
     Inr (add_symbols symt_new [''a'', ''b'', ''a''])"
proof -
  have "id_to_string (add_symbols symt_new [''a'', ''b'', ''a'']) = [EPS_SYMBOL, ''a'', ''b'']"
    by (simp add: add_symbols_def add_symbol_def get_id_or_insert_def symt_new_eq EPS_SYMBOL_def)
  then show ?thesis
    using symbol_rows_round_trip [OF symt_built.adds [OF symt_built.new], of "[''a'', ''b'', ''a'']"] by (simp add: EPS_SYMBOL_def)
qed

text \<open>
  C32: Composition of two well-formed transducers, one of them flagged as sorted on the matched side,
  succeeds under every filter but the null filter, and (weights other than zero) relates \<open>x\<close> to
  \<open>z\<close> with exactly the products of the weights with which the operands relate \<open>x\<close> to some \<open>y\<close> and \<open>y\<close> to \<open>z\<close>.
\<close>

theorem compose_relates_through:
  assumes "weight_monoids W add mul" and "\<And>a b. mul a b = mul b a"
    and "compose_operands W lb F1 F2" and "no_label_free olabel F1" "no_label_free ilabel F2"
    and "plain_config cfg" and "cc_connect cfg \<longrightarrow> 3 * (num_states F1 * num_states F2) < 2 ^ 31"
  shows "\<exists>G. compose_with_config W lb F1 F2 cfg = Some (Inr G) \<and>
    (\<forall>x z w. w \<noteq> zero_w W \<longrightarrow> (transduces mul G x z w \<longleftrightarrow>
      (\<exists>y w1 w2. transduces mul F1 x y w1 \<and> transduces mul F2 y z w2 \<and> w = mul w1 w2)))"
  using compose_config_run [OF assms] by (simp add: composed_def)

definition demo_lb :: "('w tr \<Rightarrow> ordering) \<Rightarrow> 'w tr list \<Rightarrow> nat" where
  "demo_lb f ts = length (takeWhile (\<lambda>t. f t = Less) ts)"

definition demo_sorted :: "bool vfst" where
  "demo_sorted = demo_trim\<lparr>properties := O_LABEL_SORTED\<rparr>"

definition demo_next :: "bool vfst" where
  "demo_next = \<lparr>
     states = [
       \<lparr>final_weight = None, trs = [\<lparr>ilabel = 2, olabel = 7, weight = True, nextstate = 1\<rparr>], niepsilons = 0, noepsilons = 0\<rparr>,
       \<lparr>final_weight = Some True, trs = [], niepsilons = 0, noepsilons = 0\<rparr>],
     start_state = Some 0, isymt = None, osymt = None, properties = 0\<rparr>"

lemma demo_next_ok: "fst_ok boolean_weight demo_next"
  by (simp add: fst_ok_def props_sound_def eps_counts_ok_def state_counts_ok_def targets_ok_def demo_next_def
      count_ieps_def count_oeps_def EPS_LABEL_def)

lemma demo_sorted_ok: "fst_ok boolean_weight demo_sorted"
proof -
  have s: "sem boolean_weight demo_sorted OLabelSorted"
    by (auto simp: demo_sorted_def demo_trim_def nth_Cons less_Suc_eq split: nat.splits)
  have "bits_sound boolean_weight demo_sorted O_LABEL_SORTED"
    unfolding bits_sound_def
  proof (intro allI conjI impI)
    fix q
    show "sem boolean_weight demo_sorted q" if "bit O_LABEL_SORTED (pos_bit q)"
      using that s by (cases q) (auto simp: flag_bits simp del: sem.simps)
    show "\<not> sem boolean_weight demo_sorted q" if "bit O_LABEL_SORTED (Suc (pos_bit q))"
      using that by (cases q) (auto simp: flag_bits simp del: sem.simps)
  qed
  then show ?thesis
    using demo_trim_ok(1)
    by (simp add: fst_ok_def props_sound_def demo_sorted_def eps_counts_ok_def targets_ok_def)
qed

lemma demo_operands: "compose_operands boolean_weight demo_lb demo_sorted demo_next"
proof -
  have "lower_bound_spec (demo_lb :: (bool tr \<Rightarrow> ordering) \<Rightarrow> bool tr list \<Rightarrow> nat)"
    by (simp add: lower_bound_spec_def demo_lb_def)
  moreover have "matched_side demo_sorted demo_next \<noteq> None"
    by (simp add: matched_side_def demo_sorted_def flag_bits)
  moreover have "\<forall>s < num_states demo_sorted. length (trs (state_of demo_sorted s)) < usize_max"
    "\<forall>s < num_states demo_next. length (trs (state_of demo_next s)) < usize_max"
    by (auto simp: demo_sorted_def demo_trim_def demo_next_def usize_max_def nth_Cons less_Suc_eq split: nat.splits)
  ultimately show ?thesis using demo_sorted_ok demo_next_ok by (simp add: compose_operands_def)
qed

lemma one_arc_transduces:
  assumes "start_state F = Some i" "(i, t) \<in> arcs F" "final_at F (nextstate t) v" "ilabel t \<noteq> EPS_LABEL" "olabel t \<noteq> EPS_LABEL"
  shows "transduces mul F [ilabel t] [olabel t] (mul (weight t) v)"
  using acc_arc [OF assms(2) acc_final [OF assms(3)]] assms by (simp add: transduces_def ext_label_def)

lemma demo_paths: "transduces (\<and>) demo_sorted [1] [2] True" "transduces (\<and>) demo_next [2] [7] True"
  using one_arc_transduces [of demo_sorted 0 "\<lparr>ilabel = 1, olabel = 2, weight = True, nextstate = 1\<rparr>" True "(\<and>)"]
    one_arc_transduces [of demo_next 0 "\<lparr>ilabel = 2, olabel = 7, weight = True, nextstate = 1\<rparr>" True "(\<and>)"]
  by (simp_all add: demo_sorted_def demo_trim_def demo_next_def arcs_def final_at_def EPS_LABEL_def)

theorem compose_relates_through_witness:
  "\<exists>G. compose_with_config boolean_weight demo_lb demo_sorted demo_next compose_config_default = Some (Inr G) \<and>
    transduces (\<and>) G [1] [7] True"
proof -
  have n: "no_label_free olabel demo_sorted" "no_label_free ilabel demo_next"
    by (auto simp: no_label_free_def demo_sorted_def demo_trim_def demo_next_def NO_LABEL_def nth_Cons less_Suc_eq split: nat.splits)
  have "3 * (num_states demo_sorted * num_states demo_next) < 2 ^ 31"
    by (simp add: demo_sorted_def demo_trim_def demo_next_def)
  then obtain G where "compose_with_config boolean_weight demo_lb demo_sorted demo_next compose_config_default = Some (Inr G)"
    "\<forall>x z w. w \<noteq> zero_w boolean_weight \<longrightarrow> (transduces (\<and>) G x z w \<longleftrightarrow>
      (\<exists>y w1 w2. transduces (\<and>) demo_sorted x y w1 \<and> transduces (\<and>) demo_next y z w2 \<and> w = (w1 \<and> w2)))"
    using compose_relates_through [OF bool_sr.weight_monoids_axioms conj_commute demo_operands n, of compose_config_default]
    by (auto simp: plain_config_def compose_config_default_def)
  moreover have "True \<noteq> zero_w boolean_weight" "True = (True \<and> True)" by (simp_all add: boolean_weight_def)
  ultimately show ?thesis using demo_paths by blast
qed

text \<open>
  C33: Without a sigma matcher, composing two transducers neither of which is flagged as sorted on the
  matched side returns an error, whatever the filter.
\<close>

theorem compose_needs_sorting:
  assumes "\<not> contains (properties F1) O_LABEL_SORTED" "\<not> contains (properties F2) I_LABEL_SORTED"
    and "cc_matcher1_config cfg = None" "cc_matcher2_config cfg = None"
  shows "\<exists>e. compose_with_config W lb F1 F2 cfg = Some (Inl e)"
proof -
  have "matched_side F1 F2 = None" using assms(1,2) by (simp add: matched_side_def)
  from compose_config_error [OF assms(3,4) this] show ?thesis by (simp add: fails_def)
qed

theorem compose_needs_sorting_witness:
  "\<exists>e. compose_with_config boolean_weight demo_lb demo_trim demo_trim compose_config_default = Some (Inl e)"
  by (rule compose_needs_sorting) (simp_all add: demo_trim_def compose_config_default_def)

text \<open>
  C34: After any sequence of insertions the vector cache and the hash-map cache of a lazy transducer answer every read
  by the insertions made: under each key the value inserted last, with its length and epsilon counts, as known states
  one more than the greatest state that any insertion named, as known transitions those stored. Only the two table sizes
  differ: one more than the greatest key in the vector, the number of keys in the hash map.
\<close>

theorem cache_tables_agree:
  "reads_log vec_cache (fold (run_call vec_cache) calls vec_cache_new) calls \<and>
   reads_log map_cache (fold (run_call map_cache) calls map_cache_new) calls \<and>
   fc_len_trs vec_cache (fold (run_call vec_cache) calls vec_cache_new) = least_above (trs_keys calls) \<and>
   fc_len_trs map_cache (fold (run_call map_cache) calls map_cache_new) = card (trs_keys calls) \<and>
   fc_len_final_weights vec_cache (fold (run_call vec_cache) calls vec_cache_new) = least_above (final_keys calls) \<and>
   fc_len_final_weights map_cache (fold (run_call map_cache) calls map_cache_new) = card (final_keys calls)"
  using vec_log_reads [OF vec_run_log [of calls]] map_log_reads [OF map_run_log [of calls]]
    map_log_sizes [OF map_run_log [of calls]] vec_log_sizes [OF vec_run_log [of calls]] by blast

text \<open>
  C35: Over finitely many weights, determinization of an acceptor without budgets returns a deterministic
  acceptor (per state, strictly increasing labels) that gives every label sequence the weight the operand
  gives it.
\<close>

theorem determinize_keeps_weights:
  assumes "acceptor_run W D add mul F cfg" and "finite (UNIV :: 'w set)"
    and "dc_max_states cfg = None" and "dc_max_trs cfg = None"
  shows "\<exists>G. determinize_with_config (W :: 'w semiring) D kquantize F cfg = Some (Inr G) \<and> deterministic_acceptor G \<and>
    (\<forall>ls. sequence_weight W add mul G ls = sequence_weight W add mul F ls)"
  using determinize_config_total [OF assms] by (simp add: determinized_def determinize_with_config_def)

definition demo_nfa :: "bool vfst" where
  "demo_nfa = \<lparr>
     states = [
       \<lparr>final_weight = None, trs = [\<lparr>ilabel = 1, olabel = 1, weight = True, nextstate = 1\<rparr>,
          \<lparr>ilabel = 1, olabel = 1, weight = True, nextstate = 2\<rparr>], niepsilons = 0, noepsilons = 0\<rparr>,
       \<lparr>final_weight = Some True, trs = [], niepsilons = 0, noepsilons = 0\<rparr>,
       \<lparr>final_weight = None, trs = [\<lparr>ilabel = 2, olabel = 2, weight = True, nextstate = 1\<rparr>], niepsilons = 0, noepsilons = 0\<rparr>],
     start_state = Some 0, isymt = None, osymt = None, properties = ACCEPTOR\<rparr>"

definition demo_division :: "bool division" where
  "demo_division = \<lparr>dv_divide = boolean_divide, dv_quantize = Inr\<rparr>"

definition demo_det_config :: determinize_config where
  "demo_det_config = \<lparr>dc_det_type = DeterminizeFunctional, dc_max_states = None, dc_max_subset_elements = None, dc_max_trs = None\<rparr>"

lemma all_demo_states: "(\<forall>s < Suc (Suc (Suc 0)). P s) \<longleftrightarrow> P 0 \<and> P 1 \<and> P 2"
  by (auto simp: less_Suc_eq numeral_2_eq_2)

lemma finite_bool: "finite (UNIV :: bool set)"
  by simp

lemma demo_nfa_run: "acceptor_run boolean_weight demo_division (\<or>) (\<and>) demo_nfa cfg \<longleftrightarrow> dc_max_subset_elements cfg = None"
proof -
  have s: "sem boolean_weight demo_nfa Acceptor"
    by (auto simp: demo_nfa_def arcs_def less_Suc_eq numeral_2_eq_2 numeral_3_eq_3)
  have "bits_sound boolean_weight demo_nfa ACCEPTOR"
    unfolding bits_sound_def
  proof (intro allI conjI impI)
    fix q
    show "sem boolean_weight demo_nfa q" if "bit ACCEPTOR (pos_bit q)"
      using that s by (cases q) (auto simp: flag_bits simp del: sem.simps)
    show "\<not> sem boolean_weight demo_nfa q" if "bit ACCEPTOR (Suc (pos_bit q))"
      using that by (cases q) (auto simp: flag_bits simp del: sem.simps)
  qed
  then have "fst_ok boolean_weight demo_nfa"
    by (simp add: fst_ok_def props_sound_def eps_counts_ok_def state_counts_ok_def targets_ok_def demo_nfa_def
      count_ieps_def count_oeps_def EPS_LABEL_def)
  moreover have "arcs_nonzero boolean_weight demo_nfa"
    by (simp add: arcs_nonzero_def demo_nfa_def boolean_weight_def all_demo_states)
  moreover have "divides_sums boolean_weight demo_division (\<or>) (\<and>)" "no_zero_terms boolean_weight (\<or>) (\<and>)"
    by (auto simp: divides_sums_def no_zero_terms_def demo_division_def boolean_divide_def boolean_weight_def)
  ultimately have "determinizable boolean_weight demo_division (\<or>) (\<and>) demo_nfa"
    using bool_sr.full_semiring_axioms by (simp add: determinizable_def)
  moreover have "declares boolean_weight LEFT_SEMIRING" by (simp add: declares_def boolean_weight_def LEFT_SEMIRING_def)
  moreover have "contains (properties demo_nfa) ACCEPTOR" by (simp add: demo_nfa_def flag_bits)
  ultimately show ?thesis unfolding acceptor_run_def by blast
qed

theorem determinize_keeps_weights_witness:
  "\<exists>G. determinize_with_config boolean_weight demo_division Inr demo_nfa demo_det_config = Some (Inr G) \<and>
    deterministic_acceptor G \<and> sequence_weight boolean_weight (\<or>) (\<and>) G [1, 2] \<and> \<not> sequence_weight boolean_weight (\<or>) (\<and>) G [2]"
proof -
  have a: "acceptor_run boolean_weight demo_division (\<or>) (\<and>) demo_nfa demo_det_config"
    and n: "dc_max_states demo_det_config = None" "dc_max_trs demo_det_config = None"
    by (simp_all add: demo_nfa_run demo_det_config_def)
  obtain G where G: "determinize_with_config boolean_weight demo_division Inr demo_nfa demo_det_config = Some (Inr G)"
    "deterministic_acceptor G" "\<forall>ls. sequence_weight boolean_weight (\<or>) (\<and>) G ls = sequence_weight boolean_weight (\<or>) (\<and>) demo_nfa ls"
    using determinize_keeps_weights [OF a finite_bool n, of Inr] by blast
  have "sequence_weight boolean_weight (\<or>) (\<and>) demo_nfa [1, 2]" "\<not> sequence_weight boolean_weight (\<or>) (\<and>) demo_nfa [2]"
    by (simp_all add: sequence_weight_def demo_nfa_def boolean_weight_def)
  with G show ?thesis by blast
qed

text \<open>
  C36: A state budget makes determinization of an acceptor (without a subset budget) return whatever the
  weights are: with one of the two budget errors, or with a result that fits both budgets, is
  deterministic and keeps the weights.
\<close>

theorem determinize_budget_returns:
  assumes "acceptor_run W D add mul F cfg" and "dc_max_states cfg = Some b"
  shows "\<exists>r. determinize_with_config W D kquantize F cfg = Some r \<and> (\<forall>e. r = Inl e \<longrightarrow> cut_off e) \<and>
    (\<forall>G. r = Inr G \<longrightarrow> budgets_fit (Some b) (dc_max_trs cfg) G \<and> deterministic_acceptor G \<and>
      (\<forall>ls. sequence_weight W add mul G ls = sequence_weight W add mul F ls))"
  using determinize_config_budget [OF assms] by (simp add: determinized_def determinize_with_config_def)

theorem determinize_budget_returns_witness:
  "\<exists>r. determinize_with_config boolean_weight demo_division Inr demo_nfa (budgets (Some 2) None demo_det_config) = Some r \<and>
    (\<forall>e. r = Inl e \<longrightarrow> cut_off e)"
proof -
  let ?c = "budgets (Some 2) None demo_det_config"
  have a: "acceptor_run boolean_weight demo_division (\<or>) (\<and>) demo_nfa ?c" and n: "dc_max_states ?c = Some 2"
    by (simp_all add: demo_nfa_run budgets_def demo_det_config_def)
  show ?thesis using determinize_budget_returns [OF a n, of Inr] by blast
qed

text \<open>
  C37: The budgets of determinization are exact: if the unbounded run returns \<open>G\<close>, a run with budgets
  returns the same \<open>G\<close> when \<open>G\<close> has no more states and transitions than allowed, and a budget error
  otherwise. (A machine of one state passes every state budget, since the start state is not checked.)
\<close>

theorem determinize_budgets_exact:
  assumes "acceptor_run W D add mul F cfg" and "determinize_with_config W D kquantize F (budgets None None cfg) = Some (Inr G)"
  shows "if budgets_fit ms mt G then determinize_with_config W D kquantize F (budgets ms mt cfg) = Some (Inr G)
    else \<exists>e. cut_off e \<and> determinize_with_config W D kquantize F (budgets ms mt cfg) = Some (Inl e)"
  using assms(2) unfolding determinize_with_config_def by (rule determinize_config_exact [OF assms(1)])

theorem determinize_budgets_exact_witness:
  "\<exists>G. determinize_with_config boolean_weight demo_division Inr demo_nfa (budgets None (Some 5) demo_det_config) = Some (Inr G) \<or>
    (\<exists>e. cut_off e \<and> determinize_with_config boolean_weight demo_division Inr demo_nfa (budgets None (Some 5) demo_det_config) = Some (Inl e))"
proof -
  have b: "budgets None None demo_det_config = demo_det_config" by (simp add: budgets_def demo_det_config_def)
  have a: "acceptor_run boolean_weight demo_division (\<or>) (\<and>) demo_nfa demo_det_config"
    by (simp add: demo_nfa_run demo_det_config_def)
  obtain G where G: "determinize_with_config boolean_weight demo_division Inr demo_nfa (budgets None None demo_det_config) = Some (Inr G)"
    unfolding b determinize_with_config_def
    using determinize_config_total [OF a finite_bool, of "determinize_fst boolean_weight demo_division Inr"]
    by (auto simp: demo_det_config_def)
  note exact = determinize_budgets_exact [OF a G, of None "Some 5"]
  show ?thesis
  proof (cases "budgets_fit None (Some 5) G")
    case True
    show ?thesis using exact unfolding if_P [OF True] by blast
  next
    case False
    show ?thesis using exact unfolding if_not_P [OF False] by blast
  qed
qed

text \<open>
  C38: The union of two well-formed transducers that have start states exists, is well formed again (every
  property bit it claims holds), and relates exactly what one of the two relates, with the same weight. The first
  operand has fewer than \<open>2 ^ 31\<close> states and no final weight of zero: its bits are recomputed on the way.
\<close>

theorem union_relates_either:
  assumes "weight_monoids W add mul" "fst_ok W F1" "num_states F1 < 2 ^ 31" "finals_nonzero W F1" "fst_ok W F2"
    and "start_state F1 = Some i1" "start_state F2 = Some i2"
  shows "\<exists>G. fst_union W F1 F2 = Inr G \<and> fst_ok W G \<and>
    (\<forall>x y w. transduces mul G x y w \<longleftrightarrow> transduces mul F1 x y w \<or> transduces mul F2 x y w)"
  by (rule weight_monoids.fst_union_transduces [OF assms])

lemma demo_trim_finals: "finals_nonzero boolean_weight demo_trim" "final_weights_nonzero boolean_weight demo_trim"
  by (auto simp: finals_nonzero_def final_weights_nonzero_def demo_trim_def boolean_weight_def nth_Cons is_zero_def
      less_Suc_eq split: nat.splits)

theorem union_relates_either_witness:
  "\<exists>G. fst_union boolean_weight demo_trim demo_trim = Inr G \<and> fst_ok boolean_weight G \<and>
    (\<forall>x y w. transduces (\<and>) G x y w \<longleftrightarrow> transduces (\<and>) demo_trim x y w \<or> transduces (\<and>) demo_trim x y w)"
  by (rule union_relates_either [OF bool_sr.weight_monoids_axioms demo_trim_ok(1) _ demo_trim_finals(1) demo_trim_ok(1)])
    (simp_all add: demo_trim_def)

text \<open>
  C39: Over a semiring the plus and the times of Gallic unions are those of formal sums: they return lists
  in strict shortlex order of the strings, whose coefficient at a string is the sum of the two coefficients, and
  the sum over all splits of the string of the products of the coefficients of its parts.
\<close>

theorem gallic_unions_are_formal_sums:
  assumes "full_semiring W add mul" "formal_sum a" "formal_sum b"
  shows "\<exists>c d. plus_w (gallic_union_weight W) a b = Inr c \<and> times_w (gallic_union_weight W) a b = Inr d \<and>
    formal_sum c \<and> formal_sum d \<and>
    (\<forall>xs. coefficient W add c xs = add (coefficient W add a xs) (coefficient W add b xs) \<and>
       coefficient W add d xs = convolution W add mul (coefficient W add a) (coefficient W add b) xs)"
proof -
  have m: "weight_monoids W add mul" using assms(1) by (simp add: full_semiring_def left_semiring_def)
  from weight_monoids.union_plus_sum [OF m assms(2,3)] full_semiring.union_times_convolution [OF assms]
  show ?thesis by (auto simp: gallic_union_weight_def union_weight_def)
qed

theorem gallic_unions_are_formal_sums_witness:
  "\<exists>c d. plus_w (gallic_union_weight boolean_weight) [(Labels [], True), (Labels [1], True)] [(Labels [1], True)] = Inr c \<and>
    times_w (gallic_union_weight boolean_weight) [(Labels [], True), (Labels [1], True)] [(Labels [1], True)] = Inr d \<and>
    formal_sum c \<and> formal_sum d"
proof -
  have f: "formal_sum [(Labels [], True), (Labels [1], True)]" "formal_sum [(Labels [1], True)]"
    by (simp_all add: formal_sum_def finite_pair_def shortlex_def gkey_def)
  from gallic_unions_are_formal_sums [OF bool_sr.full_semiring_axioms f] show ?thesis by blast
qed

text \<open>
  C40: Moving the output labels of a transducer with a start state and without zero final weights (the converter
  refuses those) into Gallic weights, pairs or unions, and back restores its states, transitions, final weights, start
  state and symbol tables, whatever the superfinal label.
\<close>

theorem gallic_conversion_round_trip:
  assumes "final_weights_nonzero W F" "start_state F = Some s" "s < num_states F"
  shows "\<exists>G H G' H'. weight_convert (gallic_weight StringRestrict W) (to_gallic_converter W (\<lambda>p. p)) F = Inr G \<and>
    weight_convert W (from_gallic_converter extract_pair sl) G = Inr H \<and> converted (\<lambda>t. t) (\<lambda>w. w) F H \<and>
    weight_convert (gallic_union_weight W) (to_gallic_converter W (\<lambda>p. [p])) F = Inr G' \<and>
    weight_convert W (from_gallic_converter (extract_gallic W) sl) G' = Inr H' \<and> converted (\<lambda>t. t) (\<lambda>w. w) F H'"
  using gallic_round_trip [OF pair_unpacks assms, where U = "gallic_weight StringRestrict W" and sl = sl]
    gallic_round_trip [OF union_unpacks assms, where U = "gallic_union_weight W" and sl = sl] by blast

theorem gallic_conversion_round_trip_witness:
  "\<exists>G H. weight_convert (gallic_weight StringRestrict boolean_weight) (to_gallic_converter boolean_weight (\<lambda>p. p)) demo_trim = Inr G \<and>
    weight_convert boolean_weight (from_gallic_converter extract_pair EPS_LABEL) G = Inr H \<and> converted (\<lambda>t. t) (\<lambda>w. w) demo_trim H"
proof -
  have "start_state demo_trim = Some 0" "0 < num_states demo_trim" by (simp_all add: demo_trim_def)
  from gallic_conversion_round_trip [OF demo_trim_finals(2) this, of EPS_LABEL] show ?thesis by blast
qed

end
